(* ===== verification/Asr_Prelude.thy ===== *)
theory Asr_Prelude
  imports Complex_Main "HOL-Library.Word" "HOL-Library.Sublist"
begin

text \<open>
  The shared layer of the development: the Rust integer and string operations the modelled
  code uses, the result type of fallible code, the comparison of \<open>f32\<close> values, list lemmas,
  and the interface of a machine with an invariant.

  Conventions.
  \<^item> \<open>u64\<close>, \<open>u32\<close>, \<open>u16\<close> and \<open>usize\<close> values are natural numbers. The sums the release build
    lets wrap are written with \<open>u64_add\<close>; \<open>saturating_sub\<close> is the subtraction of \<open>nat\<close>,
    which stops at 0. Lengths of in-memory collections are plain naturals: the allocator
    bounds them far below \<open>usize::MAX\<close>.
  \<^item> A Rust \<open>String\<close> is the list of its Unicode scalar values (\<open>rstr\<close>), the view that
    \<open>chars()\<close>, \<open>trim()\<close> and \<open>split_whitespace()\<close> have of it; \<open>lit\<close> embeds a literal.
  \<^item> \<open>Result<T, E>\<close> is \<open>'e + 't\<close> with \<open>Inl\<close> for \<open>Err\<close>. A method with \<open>&mut self\<close> returns
    the new state beside its result, also when the result is an error.
\<close>

section \<open>Collections of simplification rules\<close>

named_theorems wrap_simps \<open>arithmetic of machine integers below their bound\<close>
named_theorems text_simps \<open>evaluation of text operations on literals\<close>

section \<open>Machine integers\<close>

abbreviation u64_limit :: nat where
  "u64_limit \<equiv> 18446744073709551616"

abbreviation u64_max :: nat where
  "u64_max \<equiv> 18446744073709551615"

text \<open>The sum of two \<open>u64\<close> values in a release build: it wraps.\<close>

definition u64_add :: "nat \<Rightarrow> nat \<Rightarrow> nat" where
  "u64_add a b = (a + b) mod u64_limit"

text \<open>\<open>u64::saturating_add\<close>.\<close>

definition u64_sat_add :: "nat \<Rightarrow> nat \<Rightarrow> nat" where
  "u64_sat_add a b = min (a + b) u64_max"

lemma u64_add_small [wrap_simps]: "a + b < u64_limit \<Longrightarrow> u64_add a b = a + b"
  by (simp add: u64_add_def)

lemma u64_add_bound: "u64_add a b < u64_limit"
  by (simp add: u64_add_def)

lemma u64_add_zero [simp]: "a < u64_limit \<Longrightarrow> u64_add a 0 = a"
  by (simp add: u64_add_def)

lemma u64_zero_add [simp]: "b < u64_limit \<Longrightarrow> u64_add 0 b = b"
  by (simp add: u64_add_def)

lemma u64_sat_add_small [wrap_simps]: "a + b < u64_limit \<Longrightarrow> u64_sat_add a b = a + b"
  by (simp add: u64_sat_add_def)

lemma u64_sat_add_ge: "a \<le> u64_max \<Longrightarrow> a \<le> u64_sat_add a b"
  by (simp add: u64_sat_add_def)

text \<open>The sum of two \<open>u32\<close> values in a release build.\<close>

abbreviation u32_limit :: nat where
  "u32_limit \<equiv> 4294967296"

definition u32_add :: "nat \<Rightarrow> nat \<Rightarrow> nat" where
  "u32_add a b = (a + b) mod u32_limit"

lemma u32_add_small [wrap_simps]: "a + b < u32_limit \<Longrightarrow> u32_add a b = a + b"
  by (simp add: u32_add_def)

section \<open>Results\<close>

text \<open>The \<open>?\<close> operator on a result whose value is used by the rest of the function.\<close>

fun rbind :: "'e + 'a \<Rightarrow> ('a \<Rightarrow> 'e + 'b) \<Rightarrow> 'e + 'b" where
  "rbind (Inl e) f = Inl e"
| "rbind (Inr x) f = f x"

text \<open>\<open>Result::map_err\<close>.\<close>

fun map_err :: "('e \<Rightarrow> 'g) \<Rightarrow> 'e + 'a \<Rightarrow> 'g + 'a" where
  "map_err h (Inl e) = Inl (h e)"
| "map_err h (Inr x) = Inr x"

fun is_ok :: "'e + 'a \<Rightarrow> bool" where
  "is_ok (Inl e) = False"
| "is_ok (Inr x) = True"

lemma rbind_Inr_iff [simp]: "rbind r f = Inr y \<longleftrightarrow> (\<exists>x. r = Inr x \<and> f x = Inr y)"
  by (cases r) auto

lemma rbind_Inl_iff [simp]:
  "rbind r f = Inl e \<longleftrightarrow> r = Inl e \<or> (\<exists>x. r = Inr x \<and> f x = Inl e)"
  by (cases r) auto

lemma map_err_Inr_iff [simp]: "map_err h r = Inr x \<longleftrightarrow> r = Inr x"
  by (cases r) auto

lemma map_err_Inl_iff [simp]: "map_err h r = Inl g \<longleftrightarrow> (\<exists>e. r = Inl e \<and> g = h e)"
  by (cases r) auto

lemma is_ok_iff: "is_ok r \<longleftrightarrow> (\<exists>x. r = Inr x)"
  by (cases r) auto

text \<open>\<open>Option::or\<close>.\<close>

fun opt_or :: "'a option \<Rightarrow> 'a option \<Rightarrow> 'a option" where
  "opt_or (Some x) y = Some x"
| "opt_or None y = y"

lemma opt_or_None_right [simp]: "opt_or x None = x"
  by (cases x) auto

lemma opt_or_Some_right: "\<exists>z. opt_or x (Some y) = Some z"
  by (cases x) auto

section \<open>Floating-point values, as far as the code compares them\<close>

text \<open>
  An \<open>f32\<close> is a number, one of the infinities or not a number. The comparisons are those of
  IEEE 754: every one that involves \<open>F_NaN\<close> is false.
\<close>

datatype f32 = F_NaN | F_NegInf | F_Num rat | F_PosInf

fun f32_le :: "f32 \<Rightarrow> f32 \<Rightarrow> bool" where
  "f32_le F_NaN y = False"
| "f32_le x F_NaN = False"
| "f32_le F_NegInf y = True"
| "f32_le x F_PosInf = True"
| "f32_le (F_Num a) (F_Num b) = (a \<le> b)"
| "f32_le F_PosInf y = False"
| "f32_le x F_NegInf = False"

text \<open>\<open>(0.0..=1.0).contains(&x)\<close>.\<close>

definition f32_in_unit :: "f32 \<Rightarrow> bool" where
  "f32_in_unit x = (f32_le (F_Num 0) x \<and> f32_le x (F_Num 1))"

lemma f32_in_unit_iff: "f32_in_unit x \<longleftrightarrow> (\<exists>r. x = F_Num r \<and> 0 \<le> r \<and> r \<le> 1)"
  by (cases x) (auto simp: f32_in_unit_def)

section \<open>Strings\<close>

type_synonym rstr = "nat list"

definition lit :: "string \<Rightarrow> rstr" where
  "lit s = map of_char s"

lemma lit_inject [simp]: "lit s = lit t \<longleftrightarrow> s = t"
  by (simp add: lit_def inj_map_eq_map inj_def)

lemma lit_Nil [simp]: "lit [] = []"
  by (simp add: lit_def)

lemma lit_Cons_neq_Nil [simp]: "lit (c # s) \<noteq> []"
  by (simp add: lit_def)

text \<open>\<open>char::is_whitespace\<close>: the Unicode property White\_Space.\<close>

definition is_ws :: "nat \<Rightarrow> bool" where
  "is_ws c \<longleftrightarrow> (9 \<le> c \<and> c \<le> 13) \<or> c = 32 \<or> c = 133 \<or> c = 160 \<or> c = 5760
     \<or> (8192 \<le> c \<and> c \<le> 8202) \<or> c = 8232 \<or> c = 8233 \<or> c = 8239 \<or> c = 8287 \<or> c = 12288"

text \<open>\<open>str::trim\<close> and \<open>str::trim_end_matches\<close>.\<close>

definition trim_end_matches :: "(nat \<Rightarrow> bool) \<Rightarrow> rstr \<Rightarrow> rstr" where
  "trim_end_matches p s = rev (dropWhile p (rev s))"

definition trim :: "rstr \<Rightarrow> rstr" where
  "trim s = trim_end_matches is_ws (dropWhile is_ws s)"

text \<open>\<open>str::to_ascii_lowercase\<close>.\<close>

definition to_ascii_lowercase :: "rstr \<Rightarrow> rstr" where
  "to_ascii_lowercase s = map (\<lambda>c. if 65 \<le> c \<and> c \<le> 90 then c + 32 else c) s"

text \<open>\<open>str::split_whitespace\<close>: the maximal runs of characters that are not whitespace.\<close>

fun words_acc :: "rstr \<Rightarrow> rstr \<Rightarrow> rstr list" where
  "words_acc cur [] = (if cur = [] then [] else [cur])"
| "words_acc cur (c # cs) =
     (if is_ws c then (if cur = [] then words_acc [] cs else cur # words_acc [] cs)
      else words_acc (cur @ [c]) cs)"

definition split_whitespace :: "rstr \<Rightarrow> rstr list" where
  "split_whitespace s = words_acc [] s"

text \<open>\<open>[String]::join\<close>.\<close>

fun join :: "rstr \<Rightarrow> rstr list \<Rightarrow> rstr" where
  "join sep [] = []"
| "join sep [x] = x"
| "join sep (x # y # zs) = x @ sep @ join sep (y # zs)"

abbreviation sp :: rstr where "sp \<equiv> [32]"
abbreviation nl :: rstr where "nl \<equiv> [10]"

definition is_word :: "rstr \<Rightarrow> bool" where
  "is_word w \<longleftrightarrow> w \<noteq> [] \<and> (\<forall>c\<in>set w. \<not> is_ws c)"

lemma is_ws_space [simp]: "is_ws 32"
  by (simp add: is_ws_def)

lemma words_acc_are_words:
  "\<forall>c\<in>set cur. \<not> is_ws c \<Longrightarrow> \<forall>w\<in>set (words_acc cur s). is_word w"
proof (induction s arbitrary: cur)
  case Nil
  then show ?case by (simp add: is_word_def)
next
  case (Cons c s)
  have "\<forall>w\<in>set (words_acc [] s). is_word w" by (rule Cons.IH) simp
  moreover have "\<forall>w\<in>set (words_acc (cur @ [c]) s). is_word w" if "\<not> is_ws c"
    by (rule Cons.IH) (use that Cons.prems in simp)
  ultimately show ?case
    using Cons.prems by (simp add: is_word_def)
qed

lemma split_whitespace_words: "w \<in> set (split_whitespace s) \<Longrightarrow> is_word w"
  using words_acc_are_words [of "[]" s] by (simp add: split_whitespace_def)

lemma words_acc_append_nonws:
  "\<forall>c\<in>set w. \<not> is_ws c \<Longrightarrow> words_acc cur (w @ s) = words_acc (cur @ w) s"
  by (induction w arbitrary: cur) auto

lemma words_acc_word_space:
  "is_word w \<Longrightarrow> words_acc [] (w @ 32 # s) = w # words_acc [] s"
  by (simp add: is_word_def words_acc_append_nonws)

text \<open>Joining words with single spaces and splitting again gives the words back.\<close>

lemma split_whitespace_join:
  "\<forall>w\<in>set ws. is_word w \<Longrightarrow> split_whitespace (join sp ws) = ws"
proof (induction sp ws rule: join.induct)
  case (2 w)
  then show ?case
    using words_acc_append_nonws [of w "[]" "[]"] by (simp add: split_whitespace_def is_word_def)
next
  case (3 x y zs)
  then show ?case
    by (simp add: split_whitespace_def words_acc_word_space)
qed (simp add: split_whitespace_def)

lemma trim_words:
  "trim s = [] \<longleftrightarrow> (\<forall>c\<in>set s. is_ws c)"
proof -
  have "rev (dropWhile is_ws (rev xs)) = [] \<longleftrightarrow> (\<forall>c\<in>set xs. is_ws c)" for xs
    by (simp add: dropWhile_eq_Nil_conv)
  then have "trim s = [] \<longleftrightarrow> (\<forall>c\<in>set (dropWhile is_ws s). is_ws c)"
    by (simp add: trim_def trim_end_matches_def)
  also have "\<dots> \<longleftrightarrow> (\<forall>c\<in>set s. is_ws c)"
    by (induction s) auto
  finally show ?thesis .
qed

lemma words_acc_eq_Nil: "words_acc cur s = [] \<longleftrightarrow> cur = [] \<and> (\<forall>c\<in>set s. is_ws c)"
  by (induction cur s rule: words_acc.induct) auto

lemma split_whitespace_eq_Nil: "split_whitespace s = [] \<longleftrightarrow> (\<forall>c\<in>set s. is_ws c)"
  by (simp add: split_whitespace_def words_acc_eq_Nil)

lemma join_eq_Nil: "sep \<noteq> [] \<Longrightarrow> \<forall>x\<in>set xs. x \<noteq> [] \<Longrightarrow> join sep xs = [] \<longleftrightarrow> xs = []"
  by (cases xs rule: list.exhaust; cases "tl xs") (auto simp: neq_Nil_conv)

section \<open>Decimal numbers\<close>

text \<open>\<open>format!("{n}")\<close> and \<open>format!("{n:0w}")\<close> of an unsigned number.\<close>

fun show_nat :: "nat \<Rightarrow> rstr" where
  "show_nat n = (if n < 10 then [48 + n] else show_nat (n div 10) @ [48 + n mod 10])"

declare show_nat.simps [simp del]

definition fmt_pad :: "nat \<Rightarrow> nat \<Rightarrow> rstr" where
  "fmt_pad w n = (let ds = show_nat n in replicate (w - length ds) 48 @ ds)"

text \<open>Reading a string of decimal digits back.\<close>

definition read_nat :: "rstr \<Rightarrow> nat" where
  "read_nat ds = foldl (\<lambda>acc d. acc * 10 + (d - 48)) 0 ds"

lemma read_show_nat: "read_nat (show_nat n) = n"
proof (induction n rule: show_nat.induct)
  case (1 n)
  then show ?case
    by (cases "n < 10") (simp_all add: read_nat_def show_nat.simps [of n])
qed

lemma foldl_leading_zeros:
  "foldl (\<lambda>acc d. acc * 10 + (d - 48)) 0 (replicate k 48 @ ds)
     = foldl (\<lambda>acc d. acc * 10 + (d - 48)) (0::nat) ds"
  by (induction k) simp_all

lemma read_fmt_pad: "read_nat (fmt_pad w n) = n"
  using read_show_nat [of n] by (simp only: fmt_pad_def read_nat_def foldl_leading_zeros Let_def)

lemma fmt_pad_inject [simp]: "fmt_pad w m = fmt_pad w n \<longleftrightarrow> m = n"
  by (metis read_fmt_pad)

lemma show_nat_digits: "\<forall>d\<in>set (show_nat n). 48 \<le> d \<and> d \<le> 57"
proof (induction n rule: show_nat.induct)
  case (1 n)
  then show ?case
    by (cases "n < 10") (auto simp: show_nat.simps [of n])
qed

lemma show_nat_length_le: "0 < w \<Longrightarrow> n < 10 ^ w \<Longrightarrow> length (show_nat n) \<le> w"
proof (induction w arbitrary: n)
  case (Suc w)
  show ?case
  proof (cases "n < 10")
    case False
    then have "0 < w" using Suc.prems by (cases w) auto
    moreover have "n div 10 < 10 ^ w" using Suc.prems by (simp add: less_mult_imp_div_less mult.commute)
    ultimately show ?thesis using Suc.IH [of "n div 10"] False by (simp add: show_nat.simps [of n])
  qed (simp add: show_nat.simps [of n])
qed simp

lemma length_fmt_pad: "0 < w \<Longrightarrow> n < 10 ^ w \<Longrightarrow> length (fmt_pad w n) = w"
  using show_nat_length_le [of w n] by (simp add: fmt_pad_def Let_def)

section \<open>Machines\<close>

text \<open>
  A component with state answers each input with an output and a new state. \<open>run\<close> feeds it a
  sequence of inputs; the locale says what it means that an invariant is kept and lifts it
  to every run.
\<close>

primrec run :: "('s \<Rightarrow> 'i \<Rightarrow> 'o \<times> 's) \<Rightarrow> 's \<Rightarrow> 'i list \<Rightarrow> 'o list \<times> 's" where
  "run f s [] = ([], s)"
| "run f s (x # xs) = (fst (f s x) # fst (run f (snd (f s x)) xs), snd (run f (snd (f s x)) xs))"

lemma run_append:
  "run f s (xs @ ys) = (fst (run f s xs) @ fst (run f (snd (run f s xs)) ys),
                        snd (run f (snd (run f s xs)) ys))"
  by (induction xs arbitrary: s) simp_all

lemma length_run [simp]: "length (fst (run f s xs)) = length xs"
  by (induction xs arbitrary: s) simp_all

locale machine =
  fixes step :: "'s \<Rightarrow> 'i \<Rightarrow> 'o \<times> 's"
    and inv :: "'s \<Rightarrow> bool"
    and allowed :: "'i \<Rightarrow> bool"
  assumes step_inv: "inv s \<Longrightarrow> allowed x \<Longrightarrow> inv (snd (step s x))"
begin

lemma run_inv: "inv s \<Longrightarrow> list_all allowed xs \<Longrightarrow> inv (snd (run step s xs))"
  by (induction xs arbitrary: s) (simp_all add: step_inv)

end

text \<open>A machine with a field that no step changes.\<close>

lemma run_frame:
  "(\<And>s x. g (snd (f s x)) = g s) \<Longrightarrow> g (snd (run f s xs)) = g s"
  by (induction xs arbitrary: s) simp_all

end
