(* ===== verification/Audio_Frames.thy ===== *)
theory Audio_Frames
  imports Asr_Prelude
begin

text \<open>
  Normalized realtime audio (\<open>crates/openasr-core/src/realtime/audio.rs\<close>): the 16 kHz mono
  format, frames of 10, 20 or 30 ms, and the conversion of little-endian PCM bytes. Samples
  are \<open>i16\<close> and therefore \<open>16 word\<close>, read as two's complement where a value is needed.
\<close>

unbundle bit_operations_syntax

section \<open>Formats and errors\<close>

datatype realtime_audio_encoding = PcmS16Le

fun encoding_as_str :: "realtime_audio_encoding \<Rightarrow> rstr" where
  "encoding_as_str PcmS16Le = lit ''pcm_s16le''"

record realtime_audio_format =
  af_encoding :: realtime_audio_encoding
  af_sample_rate_hz :: nat
  af_channels :: nat

datatype realtime_frame_error =
    UnsupportedSampleRate nat
  | UnsupportedChannelCount nat
  | UnsupportedFrameDuration nat "nat list"
  | NonIntegralFrameDuration nat nat
  | OddPcm16ByteLength nat

definition default_realtime_sample_rate_hz :: nat where
  "default_realtime_sample_rate_hz = 16000"

definition default_realtime_channels :: nat where
  "default_realtime_channels = 1"

definition supported_frame_durations_ms :: "nat list" where
  "supported_frame_durations_ms = [10, 20, 30]"

lemmas audio_consts =
  default_realtime_sample_rate_hz_def default_realtime_channels_def supported_frame_durations_ms_def

definition pcm16_mono_16khz :: realtime_audio_format where
  "pcm16_mono_16khz = \<lparr>af_encoding = PcmS16Le,
     af_sample_rate_hz = default_realtime_sample_rate_hz,
     af_channels = default_realtime_channels\<rparr>"

definition validate_normalized :: "realtime_audio_format \<Rightarrow> realtime_frame_error + unit" where
  "validate_normalized fmt =
     (if af_sample_rate_hz fmt \<noteq> default_realtime_sample_rate_hz
      then Inl (UnsupportedSampleRate (af_sample_rate_hz fmt))
      else if af_channels fmt \<noteq> default_realtime_channels
      then Inl (UnsupportedChannelCount (af_channels fmt))
      else Inr ())"

definition validate_frame_duration_ms :: "nat \<Rightarrow> realtime_frame_error + unit" where
  "validate_frame_duration_ms duration_ms =
     (if duration_ms \<in> set supported_frame_durations_ms then Inr ()
      else Inl (UnsupportedFrameDuration duration_ms supported_frame_durations_ms))"

definition sample_count_for_duration_ms ::
  "realtime_audio_format \<Rightarrow> nat \<Rightarrow> realtime_frame_error + nat" where
  "sample_count_for_duration_ms fmt duration_ms =
     rbind (validate_normalized fmt) (\<lambda>_.
     rbind (validate_frame_duration_ms duration_ms) (\<lambda>_.
       Inr (af_sample_rate_hz fmt * duration_ms div 1000)))"

section \<open>Frames\<close>

record realtime_audio_frame =
  fr_seq :: nat
  fr_start_ms :: nat
  fr_format :: realtime_audio_format
  fr_samples :: "16 word list"

definition sample_count :: "realtime_audio_frame \<Rightarrow> nat" where
  "sample_count f = length (fr_samples f)"

text \<open>
  The product \<open>len as u64 * 1_000\<close> wraps at 64 bits and the quotient is cast to \<open>u32\<close>.
\<close>

definition duration_ms :: "realtime_audio_frame \<Rightarrow> realtime_frame_error + nat" where
  "duration_ms f =
     (let sample_rate = af_sample_rate_hz (fr_format f);
          numerator = (length (fr_samples f) * 1000) mod u64_limit
      in if numerator div sample_rate * sample_rate \<noteq> numerator
         then Inl (NonIntegralFrameDuration (length (fr_samples f)) sample_rate)
         else Inr ((numerator div sample_rate) mod 4294967296))"

definition frame_new ::
  "nat \<Rightarrow> nat \<Rightarrow> realtime_audio_format \<Rightarrow> 16 word list
     \<Rightarrow> realtime_frame_error + realtime_audio_frame" where
  "frame_new seq start_ms fmt samples =
     rbind (validate_normalized fmt) (\<lambda>_.
       let frame = \<lparr>fr_seq = seq, fr_start_ms = start_ms, fr_format = fmt, fr_samples = samples\<rparr>
       in rbind (duration_ms frame) (\<lambda>d.
          rbind (validate_frame_duration_ms d) (\<lambda>_. Inr frame)))"

text \<open>
  \<open>duration_ms().expect(\<dots>)\<close>: the error branch is a panic. It is not reached on a frame that
  \<open>frame_new\<close> made (\<open>frame_duration_valid\<close> below), so every statement about the code after
  construction is made for valid frames; here the branch is 0.
\<close>

definition frame_duration_ms :: "realtime_audio_frame \<Rightarrow> nat" where
  "frame_duration_ms f = (case duration_ms f of Inr d \<Rightarrow> d | Inl _ \<Rightarrow> 0)"

definition frame_end_ms :: "realtime_audio_frame \<Rightarrow> nat" where
  "frame_end_ms f = u64_add (fr_start_ms f) (frame_duration_ms f)"

definition byte_len :: "realtime_audio_frame \<Rightarrow> nat" where
  "byte_len f = length (fr_samples f) * 2"

section \<open>PCM bytes\<close>

text \<open>\<open>i16::from_le_bytes\<close> and \<open>i16::to_le_bytes\<close>.\<close>

definition i16_from_le_bytes :: "8 word \<Rightarrow> 8 word \<Rightarrow> 16 word" where
  "i16_from_le_bytes lo hi = ucast lo OR push_bit 8 (ucast hi)"

definition i16_to_le_bytes :: "16 word \<Rightarrow> 8 word list" where
  "i16_to_le_bytes s = [ucast s, ucast (drop_bit 8 s)]"

fun le_pairs :: "8 word list \<Rightarrow> 16 word list" where
  "le_pairs (lo # hi # rest) = i16_from_le_bytes lo hi # le_pairs rest"
| "le_pairs _ = []"

definition pcm16le_bytes_to_samples :: "8 word list \<Rightarrow> realtime_frame_error + 16 word list" where
  "pcm16le_bytes_to_samples bytes =
     (if odd (length bytes) then Inl (OddPcm16ByteLength (length bytes))
      else Inr (le_pairs bytes))"

definition frame_from_pcm16le_bytes ::
  "nat \<Rightarrow> nat \<Rightarrow> realtime_audio_format \<Rightarrow> 8 word list
     \<Rightarrow> realtime_frame_error + realtime_audio_frame" where
  "frame_from_pcm16le_bytes seq start_ms fmt bytes =
     rbind (pcm16le_bytes_to_samples bytes) (\<lambda>samples. frame_new seq start_ms fmt samples)"

section \<open>Valid frames\<close>

text \<open>What construction guarantees: the normalized format and a supported length.\<close>

definition valid_frame :: "realtime_audio_frame \<Rightarrow> bool" where
  "valid_frame f \<longleftrightarrow> af_sample_rate_hz (fr_format f) = 16000 \<and> af_channels (fr_format f) = 1
     \<and> length (fr_samples f) \<in> {160, 320, 480}"

lemma validate_normalized_ok_iff:
  "validate_normalized fmt = Inr () \<longleftrightarrow> af_sample_rate_hz fmt = 16000 \<and> af_channels fmt = 1"
  by (simp add: validate_normalized_def audio_consts)

lemma pcm16_mono_16khz_normalized [simp]: "validate_normalized pcm16_mono_16khz = Inr ()"
  by (simp add: validate_normalized_def pcm16_mono_16khz_def)

lemma validate_frame_duration_ok_iff:
  "validate_frame_duration_ms d = Inr () \<longleftrightarrow> d \<in> {10, 20, 30}"
  by (simp add: validate_frame_duration_ms_def audio_consts)

lemma frame_duration_valid:
  "valid_frame f \<Longrightarrow> duration_ms f = Inr (length (fr_samples f) div 16)"
  by (auto simp: valid_frame_def duration_ms_def)

lemma frame_duration_ms_valid:
  "valid_frame f \<Longrightarrow> frame_duration_ms f = length (fr_samples f) div 16"
  by (simp add: frame_duration_ms_def frame_duration_valid)

lemma frame_duration_ms_range: "valid_frame f \<Longrightarrow> frame_duration_ms f \<in> {10, 20, 30}"
  by (auto simp: frame_duration_ms_valid valid_frame_def)

lemma frame_duration_ms_pos: "valid_frame f \<Longrightarrow> 0 < frame_duration_ms f"
  using frame_duration_ms_range [of f] by auto

lemma frame_duration_ms_le: "valid_frame f \<Longrightarrow> frame_duration_ms f \<le> 30"
  using frame_duration_ms_range [of f] by auto

lemma sample_count_valid: "valid_frame f \<Longrightarrow> sample_count f = 16 * frame_duration_ms f"
  by (auto simp: sample_count_def frame_duration_ms_valid valid_frame_def)

lemma frame_end_ms_valid [wrap_simps]:
  "fr_start_ms f + frame_duration_ms f < u64_limit
     \<Longrightarrow> frame_end_ms f = fr_start_ms f + frame_duration_ms f"
  by (simp add: frame_end_ms_def wrap_simps)

text \<open>
  Lengths below \<open>16 * 2 ^ 32\<close> samples (128 GiB of audio) are the ones on which neither the
  64-bit product nor the cast to \<open>u32\<close> loses information.
\<close>

abbreviation sample_limit :: nat where
  "sample_limit \<equiv> 68719476736"

lemma duration_ms_16khz:
  assumes "af_sample_rate_hz (fr_format f) = 16000" and n: "length (fr_samples f) < sample_limit"
  shows "duration_ms f =
    (if length (fr_samples f) mod 16 \<noteq> 0
     then Inl (NonIntegralFrameDuration (length (fr_samples f)) 16000)
     else Inr (length (fr_samples f) div 16))"
proof -
  define n where "n = length (fr_samples f)"
  have "(n * 1000) mod u64_limit = n * 1000" using n by (simp add: n_def)
  moreover have q: "n * 1000 div 16000 = n div 16"
    using div_mult_mult1 [of "1000::nat" n 16] by (simp add: mult.commute)
  moreover have "n div 16 mod 4294967296 = n div 16"
  proof -
    have "n div 16 < 4294967296"
      using n unfolding n_def [symmetric] by (simp add: less_mult_imp_div_less)
    then show ?thesis by (rule mod_less)
  qed
  moreover have "n div 16 * 16000 = n * 1000 \<longleftrightarrow> n mod 16 = 0"
  proof -
    have "n * 1000 = n div 16 * 16000 + n mod 16 * 1000"
      using div_mult_mod_eq [of n 16] by linarith
    then show ?thesis by simp
  qed
  ultimately show ?thesis
    unfolding duration_ms_def Let_def assms(1) n_def [symmetric] by (simp only:)
qed

lemma frame_new_ok_iff:
  assumes "length samples < sample_limit"
  shows "frame_new seq start_ms fmt samples = Inr f \<longleftrightarrow>
    f = \<lparr>fr_seq = seq, fr_start_ms = start_ms, fr_format = fmt, fr_samples = samples\<rparr> \<and> valid_frame f"
proof (cases "af_sample_rate_hz fmt = 16000 \<and> af_channels fmt = 1")
  case True
  define frame where
    "frame = \<lparr>fr_seq = seq, fr_start_ms = start_ms, fr_format = fmt, fr_samples = samples\<rparr>"
  have d: "duration_ms frame = (if length samples mod 16 \<noteq> 0
      then Inl (NonIntegralFrameDuration (length samples) 16000) else Inr (length samples div 16))"
    using duration_ms_16khz [of frame] True assms by (simp add: frame_def)
  have len: "m mod 16 = 0 \<and> m div 16 \<in> {10, 20, 30} \<longleftrightarrow> m \<in> {160, 320, 480}" for m :: nat
    using div_mult_mod_eq [of m 16] by auto
  have "frame_new seq start_ms fmt samples = Inr f \<longleftrightarrow>
      f = frame \<and> length samples mod 16 = 0 \<and> length samples div 16 \<in> {10, 20, 30}"
    using True d
    by (auto simp: frame_new_def Let_def frame_def [symmetric] validate_normalized_ok_iff
        validate_frame_duration_ok_iff split: if_splits)
  then show ?thesis
    unfolding len using True by (auto simp: valid_frame_def frame_def)
qed (auto simp: frame_new_def validate_normalized_ok_iff valid_frame_def)

section \<open>PCM conversion\<close>

lemma length_le_pairs: "length (le_pairs bytes) = length bytes div 2"
  by (induction bytes rule: le_pairs.induct) auto

lemma i16_le_bytes_roundtrip [simp]: "i16_from_le_bytes (ucast s) (ucast (drop_bit 8 s)) = s"
  unfolding i16_from_le_bytes_def
  by (rule bit_word_eqI) (auto simp: bit_simps)

lemma ucast_from_le_lo [simp]: "ucast (i16_from_le_bytes lo hi) = lo"
  unfolding i16_from_le_bytes_def
  by (rule bit_word_eqI) (auto simp: bit_simps)

lemma ucast_from_le_hi [simp]: "ucast (drop_bit 8 (i16_from_le_bytes lo hi)) = hi"
  unfolding i16_from_le_bytes_def
  by (rule bit_word_eqI) (auto simp: bit_simps dest: bit_imp_le_length)

lemma le_pairs_to_le_bytes: "le_pairs (concat (map i16_to_le_bytes samples)) = samples"
  by (induction samples) (simp_all add: i16_to_le_bytes_def)

lemma to_le_bytes_le_pairs:
  "even (length bytes) \<Longrightarrow> concat (map i16_to_le_bytes (le_pairs bytes)) = bytes"
  by (induction bytes rule: le_pairs.induct) (simp_all add: i16_to_le_bytes_def)

lemma length_concat_le_bytes: "length (concat (map i16_to_le_bytes samples)) = 2 * length samples"
  by (induction samples) (simp_all add: i16_to_le_bytes_def)

lemma le_pairs_append: "even (length xs) \<Longrightarrow> le_pairs (xs @ ys) = le_pairs xs @ le_pairs ys"
  by (induction xs rule: le_pairs.induct) auto


section \<open>Sample frames\<close>

text \<open>A 20 ms frame of silence, the \<open>n\<close>-th of a stream that starts at 0.\<close>

definition sample_frame :: "nat \<Rightarrow> realtime_audio_frame" where
  "sample_frame n = \<lparr>fr_seq = n, fr_start_ms = 20 * n, fr_format = pcm16_mono_16khz,
     fr_samples = replicate 320 0\<rparr>"

lemma sample_frame_valid [simp]: "valid_frame (sample_frame n)"
  by (simp add: valid_frame_def sample_frame_def pcm16_mono_16khz_def audio_consts)

lemma sample_frame_duration [simp]: "frame_duration_ms (sample_frame n) = 20"
  by (simp add: frame_duration_ms_valid) (simp add: sample_frame_def)

lemma sample_frame_start [simp]: "fr_start_ms (sample_frame n) = 20 * n"
  by (simp add: sample_frame_def)

lemma sample_frame_seq [simp]: "fr_seq (sample_frame n) = n"
  by (simp add: sample_frame_def)

lemma sample_frame_samples [simp]: "length (fr_samples (sample_frame n)) = 320"
  by (simp add: sample_frame_def)

lemma sample_frame_end [simp]: "n < 900000000000000000 \<Longrightarrow> frame_end_ms (sample_frame n) = 20 * n + 20"
  by (simp add: frame_end_ms_def u64_add_def)

section \<open>Properties\<close>

text \<open>
  A frame made of bytes is the bytes: construction succeeds exactly for the normalized format
  and 10, 20 or 30 ms of whole samples, and the little-endian bytes of the frame's samples are
  then the bytes it was made of.
\<close>

theorem frame_of_bytes_roundtrip:
  assumes "length bytes < 2 * sample_limit"
  shows "frame_from_pcm16le_bytes seq start_ms fmt bytes = Inr f \<longleftrightarrow>
     fr_seq f = seq \<and> fr_start_ms f = start_ms \<and> fr_format f = fmt \<and> valid_frame f
   \<and> concat (map i16_to_le_bytes (fr_samples f)) = bytes"
proof (cases "even (length bytes)")
  case True
  have "length (le_pairs bytes) < sample_limit"
    using assms by (simp add: length_le_pairs less_mult_imp_div_less mult.commute)
  then have "frame_from_pcm16le_bytes seq start_ms fmt bytes = Inr f \<longleftrightarrow>
      f = \<lparr>fr_seq = seq, fr_start_ms = start_ms, fr_format = fmt, fr_samples = le_pairs bytes\<rparr> \<and> valid_frame f"
    using True by (simp add: frame_from_pcm16le_bytes_def pcm16le_bytes_to_samples_def frame_new_ok_iff)
  moreover have "fr_samples f = le_pairs bytes \<longleftrightarrow> concat (map i16_to_le_bytes (fr_samples f)) = bytes"
    using to_le_bytes_le_pairs [OF True] le_pairs_to_le_bytes [of "fr_samples f"] by auto
  ultimately show ?thesis by auto
next
  case False
  then have "concat (map i16_to_le_bytes (fr_samples f)) \<noteq> bytes"
    using length_concat_le_bytes [of "fr_samples f"] by auto
  then show ?thesis using False by (simp add: frame_from_pcm16le_bytes_def pcm16le_bytes_to_samples_def)
qed

lemma silence_bytes: "concat (map i16_to_le_bytes (replicate n 0)) = replicate (2 * n) 0"
  by (induction n) (simp_all add: i16_to_le_bytes_def)

theorem frame_of_bytes_roundtrip_witness:
  "frame_from_pcm16le_bytes 3 60 pcm16_mono_16khz (replicate 640 0) = Inr (sample_frame 3)"
  using frame_of_bytes_roundtrip [of "replicate 640 0" 3 60 pcm16_mono_16khz "sample_frame 3"]
    sample_frame_valid [of 3] silence_bytes [of 320] by (simp add: sample_frame_def)

end
