(* ===== verification/Realtime_Backend.thy ===== *)
theory Realtime_Backend
  imports Asr_Prelude
begin

text \<open>
  What a realtime session may promise for the active backend: the capability record that a
  session announces in \<open>session.capabilities\<close>
  (\<open>crates/openasr-core/src/realtime/backend.rs\<close>), and the types of
  \<open>crates/openasr-core/src/api/backend/mod.rs\<close> and \<open>api/native/types.rs\<close> it is computed from.
\<close>

section \<open>Capabilities of one feature\<close>

datatype backend_kind = Mock | Native

datatype backend_capability_behavior = Supported | RejectRequest | MetadataOnly

record backend_feature_capability =
  fc_supported :: bool
  fc_behavior :: backend_capability_behavior
  fc_reason :: "rstr option"

definition feature_supported :: backend_feature_capability where
  "feature_supported = \<lparr>fc_supported = True, fc_behavior = Supported, fc_reason = None\<rparr>"

definition feature_reject_request :: "rstr \<Rightarrow> backend_feature_capability" where
  "feature_reject_request reason =
     \<lparr>fc_supported = False, fc_behavior = RejectRequest, fc_reason = Some reason\<rparr>"

definition feature_metadata_only :: "rstr \<Rightarrow> backend_feature_capability" where
  "feature_metadata_only reason =
     \<lparr>fc_supported = False, fc_behavior = MetadataOnly, fc_reason = Some reason\<rparr>"

section \<open>Capabilities of a native model adapter\<close>

datatype native_asr_capability_class =
  ClassUnsupported | NativeModelAdapter | ClassFilePerUtteranceFallback

fun capability_class_as_str :: "native_asr_capability_class \<Rightarrow> rstr" where
  "capability_class_as_str ClassUnsupported = lit ''unsupported''"
| "capability_class_as_str NativeModelAdapter = lit ''native-model-adapter''"
| "capability_class_as_str ClassFilePerUtteranceFallback = lit ''file-per-utterance-fallback''"

datatype native_asr_benchmark_status = NotBenchmarked | BenchmarkRequired | Benchmarked

fun benchmark_status_as_str :: "native_asr_benchmark_status \<Rightarrow> rstr" where
  "benchmark_status_as_str NotBenchmarked = lit ''not-benchmarked''"
| "benchmark_status_as_str BenchmarkRequired = lit ''benchmark-required''"
| "benchmark_status_as_str Benchmarked = lit ''benchmarked''"

record native_asr_capabilities =
  nc_class :: native_asr_capability_class
  nc_supports_true_streaming :: bool
  nc_supports_partials :: bool
  nc_supports_frame_sync_partials :: bool
  nc_supports_timestamps :: bool
  nc_supports_in_decoder_speakers :: bool
  nc_supports_phrase_bias :: bool
  nc_supports_quantized_models :: bool
  nc_supports_hardware_acceleration :: bool
  nc_benchmark_status :: native_asr_benchmark_status

definition native_baseline ::
  "native_asr_capability_class \<Rightarrow> native_asr_benchmark_status \<Rightarrow> bool \<Rightarrow> native_asr_capabilities" where
  "native_baseline cls benchmark_status true_streaming =
     \<lparr>nc_class = cls, nc_supports_true_streaming = true_streaming, nc_supports_partials = False,
      nc_supports_frame_sync_partials = False, nc_supports_timestamps = False,
      nc_supports_in_decoder_speakers = False, nc_supports_phrase_bias = False,
      nc_supports_quantized_models = False, nc_supports_hardware_acceleration = False,
      nc_benchmark_status = benchmark_status\<rparr>"

definition native_unsupported :: native_asr_capabilities where
  "native_unsupported = native_baseline ClassUnsupported NotBenchmarked False"

definition native_file_per_utterance_fallback :: native_asr_capabilities where
  "native_file_per_utterance_fallback =
     native_baseline ClassFilePerUtteranceFallback NotBenchmarked False"

definition native_offline :: native_asr_capabilities where
  "native_offline = native_baseline NativeModelAdapter BenchmarkRequired False"

definition native_true_streaming :: native_asr_capabilities where
  "native_true_streaming = native_baseline NativeModelAdapter BenchmarkRequired True"

definition native_with_partial_results ::
  "bool \<Rightarrow> native_asr_capabilities \<Rightarrow> native_asr_capabilities" where
  "native_with_partial_results supported c = c\<lparr>nc_supports_partials := supported\<rparr>"

definition native_with_frame_sync_partials ::
  "bool \<Rightarrow> native_asr_capabilities \<Rightarrow> native_asr_capabilities" where
  "native_with_frame_sync_partials supported c = c\<lparr>nc_supports_frame_sync_partials := supported\<rparr>"

definition native_with_timestamps ::
  "bool \<Rightarrow> native_asr_capabilities \<Rightarrow> native_asr_capabilities" where
  "native_with_timestamps supported c = c\<lparr>nc_supports_timestamps := supported\<rparr>"

definition native_with_phrase_bias ::
  "bool \<Rightarrow> native_asr_capabilities \<Rightarrow> native_asr_capabilities" where
  "native_with_phrase_bias supported c = c\<lparr>nc_supports_phrase_bias := supported\<rparr>"

definition native_with_in_decoder_speakers ::
  "bool \<Rightarrow> native_asr_capabilities \<Rightarrow> native_asr_capabilities" where
  "native_with_in_decoder_speakers supported c = c\<lparr>nc_supports_in_decoder_speakers := supported\<rparr>"

definition native_with_quantized_models ::
  "bool \<Rightarrow> native_asr_capabilities \<Rightarrow> native_asr_capabilities" where
  "native_with_quantized_models supported c = c\<lparr>nc_supports_quantized_models := supported\<rparr>"

definition native_with_hardware_acceleration ::
  "bool \<Rightarrow> native_asr_capabilities \<Rightarrow> native_asr_capabilities" where
  "native_with_hardware_acceleration supported c = c\<lparr>nc_supports_hardware_acceleration := supported\<rparr>"

definition native_with_benchmark_status ::
  "native_asr_benchmark_status \<Rightarrow> native_asr_capabilities \<Rightarrow> native_asr_capabilities" where
  "native_with_benchmark_status status c = c\<lparr>nc_benchmark_status := status\<rparr>"

definition is_native_adapter :: "native_asr_capabilities \<Rightarrow> bool" where
  "is_native_adapter c \<longleftrightarrow> nc_class c = NativeModelAdapter"

section \<open>Capabilities of a realtime session\<close>

datatype realtime_backend_mode = ModeUnsupported | FilePerUtteranceFallback | TrueStreaming

record realtime_backend_capabilities =
  rc_mode :: realtime_backend_mode
  rc_supports_realtime_sessions :: bool
  rc_supports_partial_results :: bool
  rc_supports_punctuation_control :: bool
  rc_phrase_bias :: backend_feature_capability
  rc_word_timestamps :: backend_feature_capability
  rc_diarization :: backend_feature_capability
  rc_requires_vad_utterance_boundaries :: bool
  rc_is_file_per_utterance_fallback :: bool
  rc_is_true_streaming :: bool
  rc_frame_sync_partials :: bool

definition realtime_voice_id_unsupported_reason :: rstr where
  "realtime_voice_id_unsupported_reason =
     lit ''Voice ID is available only for file transcription; realtime sessions do not support diarize=true or --diarize.''"

definition realtime_diarization_unsupported :: backend_feature_capability where
  "realtime_diarization_unsupported = feature_reject_request realtime_voice_id_unsupported_reason"

definition realtime_phrase_bias_unsupported :: backend_feature_capability where
  "realtime_phrase_bias_unsupported = feature_reject_request
     (lit ''Realtime phrase bias / hotword boosting is not implemented for this active backend/model; session.start requests with phrase_bias or hotwords are rejected.'')"

definition realtime_word_timestamps_unsupported :: backend_feature_capability where
  "realtime_word_timestamps_unsupported = feature_reject_request
     (lit ''Realtime word timestamps are not implemented for this backend; session.start requests with word_timestamps=true are rejected.'')"

definition realtime_diarization_capability ::
  "realtime_backend_mode \<Rightarrow> backend_feature_capability" where
  "realtime_diarization_capability mode = realtime_diarization_unsupported"

definition rc_build ::
  "realtime_backend_mode \<Rightarrow> bool \<Rightarrow> bool \<Rightarrow> bool \<Rightarrow> backend_feature_capability
     \<Rightarrow> backend_feature_capability \<Rightarrow> bool \<Rightarrow> realtime_backend_capabilities" where
  "rc_build mode sessions partials requires_vad phrase_bias word_timestamps frame_sync =
     \<lparr>rc_mode = mode, rc_supports_realtime_sessions = sessions,
      rc_supports_partial_results = partials,
      rc_supports_punctuation_control = sessions,
      rc_phrase_bias = phrase_bias, rc_word_timestamps = word_timestamps,
      rc_diarization = realtime_diarization_unsupported,
      rc_requires_vad_utterance_boundaries = requires_vad,
      rc_is_file_per_utterance_fallback = (mode = FilePerUtteranceFallback),
      rc_is_true_streaming = (mode = TrueStreaming),
      rc_frame_sync_partials = frame_sync\<rparr>"

definition rc_unsupported :: realtime_backend_capabilities where
  "rc_unsupported = rc_build ModeUnsupported False False False
     realtime_phrase_bias_unsupported realtime_word_timestamps_unsupported False"

definition rc_file_per_utterance_fallback :: realtime_backend_capabilities where
  "rc_file_per_utterance_fallback = rc_build FilePerUtteranceFallback True False True
     realtime_phrase_bias_unsupported feature_supported False"

definition rc_file_per_utterance_fallback_with_phrase_bias :: realtime_backend_capabilities where
  "rc_file_per_utterance_fallback_with_phrase_bias = rc_build FilePerUtteranceFallback True False True
     feature_supported feature_supported False"

definition rc_true_streaming_local :: realtime_backend_capabilities where
  "rc_true_streaming_local = rc_build TrueStreaming True True False
     realtime_phrase_bias_unsupported feature_supported False"

definition for_backend_kind :: "backend_kind \<Rightarrow> realtime_backend_capabilities" where
  "for_backend_kind backend =
     (let capabilities = (case backend of
            Mock \<Rightarrow> rc_file_per_utterance_fallback
          | Native \<Rightarrow> rc_file_per_utterance_fallback_with_phrase_bias)
      in capabilities\<lparr>rc_diarization := realtime_diarization_capability (rc_mode capabilities)\<rparr>)"

definition phrase_bias_of :: "native_asr_capabilities \<Rightarrow> backend_feature_capability" where
  "phrase_bias_of c =
     (if nc_supports_phrase_bias c then feature_supported else realtime_phrase_bias_unsupported)"

definition word_timestamps_of :: "native_asr_capabilities \<Rightarrow> backend_feature_capability" where
  "word_timestamps_of c =
     (if nc_supports_timestamps c then feature_supported else realtime_word_timestamps_unsupported)"

fun from_native_capabilities_without_diarization ::
  "native_asr_capabilities \<Rightarrow> realtime_backend_capabilities" where
  "from_native_capabilities_without_diarization c =
     (case nc_class c of
        ClassUnsupported \<Rightarrow> rc_unsupported
      | NativeModelAdapter \<Rightarrow>
          (if nc_supports_true_streaming c
           then rc_build TrueStreaming True (nc_supports_partials c) False
                  (phrase_bias_of c) (word_timestamps_of c) (nc_supports_frame_sync_partials c)
           else rc_build FilePerUtteranceFallback True False True
                  (phrase_bias_of c) (word_timestamps_of c) False)
      | ClassFilePerUtteranceFallback \<Rightarrow> rc_file_per_utterance_fallback)"

definition from_native_capabilities :: "native_asr_capabilities \<Rightarrow> realtime_backend_capabilities" where
  "from_native_capabilities c =
     (let realtime = from_native_capabilities_without_diarization c
      in realtime\<lparr>rc_diarization := realtime_diarization_capability (rc_mode realtime)\<rparr>)"

definition effective_partial_results :: "realtime_backend_capabilities \<Rightarrow> bool \<Rightarrow> bool" where
  "effective_partial_results c requested \<longleftrightarrow> requested \<and> rc_supports_partial_results c"

section \<open>Coherence\<close>

text \<open>
  The announced flags agree with the mode: a session that re-decodes per utterance needs voice
  activity boundaries and has no partial results, an unsupported backend opens no session, and
  every feature a session rejects carries a reason.
\<close>

definition feature_coherent :: "backend_feature_capability \<Rightarrow> bool" where
  "feature_coherent f \<longleftrightarrow> fc_supported f = (fc_behavior f = Supported)
     \<and> fc_supported f = (fc_reason f = None)"

definition capabilities_coherent :: "realtime_backend_capabilities \<Rightarrow> bool" where
  "capabilities_coherent c \<longleftrightarrow>
     rc_is_true_streaming c = (rc_mode c = TrueStreaming)
   \<and> rc_is_file_per_utterance_fallback c = (rc_mode c = FilePerUtteranceFallback)
   \<and> rc_supports_realtime_sessions c = (rc_mode c \<noteq> ModeUnsupported)
   \<and> rc_supports_punctuation_control c = rc_supports_realtime_sessions c
   \<and> rc_requires_vad_utterance_boundaries c = rc_is_file_per_utterance_fallback c
   \<and> (rc_supports_partial_results c \<or> rc_frame_sync_partials c \<longrightarrow> rc_is_true_streaming c)
   \<and> feature_coherent (rc_phrase_bias c) \<and> feature_coherent (rc_word_timestamps c)
   \<and> feature_coherent (rc_diarization c)"

lemmas backend_defs =
  feature_coherent_def feature_supported_def feature_reject_request_def
  realtime_diarization_capability_def realtime_diarization_unsupported_def
  realtime_phrase_bias_unsupported_def realtime_word_timestamps_unsupported_def
  phrase_bias_of_def word_timestamps_of_def rc_build_def rc_unsupported_def
  rc_file_per_utterance_fallback_def rc_file_per_utterance_fallback_with_phrase_bias_def

lemma from_native_coherent: "capabilities_coherent (from_native_capabilities c)"
  by (cases "nc_class c")
    (auto simp: from_native_capabilities_def Let_def capabilities_coherent_def backend_defs)

lemma for_backend_kind_coherent: "capabilities_coherent (for_backend_kind k)"
  by (cases k) (auto simp: for_backend_kind_def Let_def capabilities_coherent_def backend_defs)

section \<open>Properties\<close>

text \<open>
  A backend's advertised capabilities are consistent, however they are built: the mode
  determines the flags derived from it, partial results are only promised by true streaming, and
  every feature is either supported without a reason or unsupported with one.
\<close>

theorem advertised_capabilities_consistent:
  "capabilities_coherent (from_native_capabilities c) \<and> capabilities_coherent (for_backend_kind k)"
  by (rule conjI [OF from_native_coherent for_backend_kind_coherent])

end
