(* ===== verification/Realtime_Events.thy ===== *)
theory Realtime_Events
  imports Audio_Frames Realtime_Backend
begin

text \<open>
  The events of a realtime session and their envelope
  (\<open>crates/openasr-core/src/realtime/events.rs\<close>): the payload types, the event type tag, the
  sequencer that numbers the envelopes, and the civil-date arithmetic of the timestamps. The
  serde attributes are not modelled: they only name the fields on the wire.
\<close>

section \<open>Identifiers and payloads\<close>

datatype realtime_session_id = RealtimeSessionId rstr
datatype realtime_event_id = RealtimeEventId rstr
datatype transcript_utterance_id = TranscriptUtteranceId rstr
datatype transcript_segment_id = TranscriptSegmentId rstr

record session_capabilities_event =
  sce_capabilities :: realtime_backend_capabilities
  sce_audio_format :: realtime_audio_format
  sce_frame_duration_ms :: nat
  sce_frame_byte_len :: nat
  sce_max_message_bytes :: nat

record session_configured_event =
  scf_model :: rstr
  scf_partial_results :: bool
  scf_word_timestamps :: bool
  scf_diarize :: bool
  scf_vad_enabled :: bool

datatype realtime_lifecycle_event =
    SessionCreated realtime_audio_format
  | SessionCapabilities session_capabilities_event
  | SessionConfigured session_configured_event
  | SessionClosed rstr

datatype realtime_audio_input_event = Started | Stopped rstr

datatype realtime_vad_event =
    VadSpeechStarted transcript_utterance_id nat
  | VadSpeechStopped transcript_utterance_id nat nat

datatype realtime_history_event = Recorded rstr nat

record realtime_transcript_word =
  tw_word :: rstr
  tw_start_ms :: nat
  tw_end_ms :: nat
  tw_confidence :: "f32 option"

record realtime_transcript_final =
  te_utterance_id :: transcript_utterance_id
  te_segment_id :: transcript_segment_id
  te_revision :: nat
  te_text :: rstr
  te_start_ms :: nat
  te_end_ms :: nat
  te_is_final :: bool
  te_words :: "realtime_transcript_word list"
  te_language :: "rstr option"
  te_speaker :: "rstr option"
  te_speaker_label :: "rstr option"
  te_speaker_person_id :: "rstr option"
  te_speaker_snapshot_label :: "rstr option"

text \<open>A partial has the fields of a final; a revision adds what it revises and why.\<close>

type_synonym realtime_transcript_partial = realtime_transcript_final

record realtime_transcript_revision = realtime_transcript_final +
  te_revises_event_id :: "realtime_event_id option"
  te_reason :: rstr

datatype realtime_transcript_event =
    Partial realtime_transcript_partial
  | Final realtime_transcript_final
  | Revision realtime_transcript_revision

datatype realtime_error_code =
    StartupConfigError | BackendNotReady | UnsupportedBackend | UnsupportedAudioFormat
  | AudioBufferOverflowCode | BackpressureTimeout | ClientDisconnected | BackendTimeout
  | BackendCrashed | VadTimeout | NoSpeechTimeoutCode | CancelledCode

record realtime_error_event =
  ee_code :: realtime_error_code
  ee_message :: rstr
  ee_recoverable :: bool

datatype realtime_event =
    Lifecycle realtime_lifecycle_event
  | AudioInput realtime_audio_input_event
  | Vad realtime_vad_event
  | Transcript realtime_transcript_event
  | History realtime_history_event
  | Error realtime_error_event

section \<open>Event type tags\<close>

fun lifecycle_event_type :: "realtime_lifecycle_event \<Rightarrow> rstr" where
  "lifecycle_event_type (SessionCreated _) = lit ''session.created''"
| "lifecycle_event_type (SessionCapabilities _) = lit ''session.capabilities''"
| "lifecycle_event_type (SessionConfigured _) = lit ''session.configured''"
| "lifecycle_event_type (SessionClosed _) = lit ''session.closed''"

fun audio_input_event_type :: "realtime_audio_input_event \<Rightarrow> rstr" where
  "audio_input_event_type Started = lit ''audio.input.started''"
| "audio_input_event_type (Stopped _) = lit ''audio.input.stopped''"

fun vad_event_type :: "realtime_vad_event \<Rightarrow> rstr" where
  "vad_event_type (VadSpeechStarted _ _) = lit ''vad.speech_started''"
| "vad_event_type (VadSpeechStopped _ _ _) = lit ''vad.speech_stopped''"

fun transcript_event_type :: "realtime_transcript_event \<Rightarrow> rstr" where
  "transcript_event_type (Partial _) = lit ''transcript.partial''"
| "transcript_event_type (Final _) = lit ''transcript.final''"
| "transcript_event_type (Revision _) = lit ''transcript.revision''"

fun history_event_type :: "realtime_history_event \<Rightarrow> rstr" where
  "history_event_type (Recorded _ _) = lit ''history.recorded''"

fun event_type :: "realtime_event \<Rightarrow> rstr" where
  "event_type (Lifecycle e) = lifecycle_event_type e"
| "event_type (AudioInput e) = audio_input_event_type e"
| "event_type (Vad e) = vad_event_type e"
| "event_type (Transcript e) = transcript_event_type e"
| "event_type (History e) = history_event_type e"
| "event_type (Error _) = lit ''error''"

section \<open>The sequencer\<close>

record realtime_event_envelope =
  ev_event_type :: rstr
  ev_session_id :: realtime_session_id
  ev_event_id :: realtime_event_id
  ev_seq :: nat
  ev_created_at :: rstr
  ev_trace_id :: "rstr option"
  ev_request_id :: "rstr option"
  ev_event :: realtime_event

record realtime_event_sequencer =
  sq_session_id :: realtime_session_id
  sq_next_seq :: nat
  sq_next_event_index :: nat
  sq_trace_id :: "rstr option"
  sq_request_id :: "rstr option"

definition sequencer_new :: "realtime_session_id \<Rightarrow> realtime_event_sequencer" where
  "sequencer_new sid = \<lparr>sq_session_id = sid, sq_next_seq = 1, sq_next_event_index = 1,
     sq_trace_id = None, sq_request_id = None\<rparr>"

definition with_trace_id :: "rstr option \<Rightarrow> realtime_event_sequencer \<Rightarrow> realtime_event_sequencer" where
  "with_trace_id t s = s\<lparr>sq_trace_id := t\<rparr>"

definition with_request_id :: "rstr option \<Rightarrow> realtime_event_sequencer \<Rightarrow> realtime_event_sequencer" where
  "with_request_id r s = s\<lparr>sq_request_id := r\<rparr>"

definition event_id_of_index :: "nat \<Rightarrow> realtime_event_id" where
  "event_id_of_index n = RealtimeEventId (lit ''evt_'' @ fmt_pad 6 n)"

definition sequencer_next ::
  "realtime_event_sequencer \<Rightarrow> realtime_event \<Rightarrow> rstr
     \<Rightarrow> realtime_event_envelope \<times> realtime_event_sequencer" where
  "sequencer_next s event created_at =
     (\<lparr>ev_event_type = event_type event, ev_session_id = sq_session_id s,
       ev_event_id = event_id_of_index (sq_next_event_index s), ev_seq = sq_next_seq s,
       ev_created_at = created_at, ev_trace_id = sq_trace_id s,
       ev_request_id = sq_request_id s, ev_event = event\<rparr>,
      s\<lparr>sq_next_seq := u64_add (sq_next_seq s) 1,
        sq_next_event_index := u64_add (sq_next_event_index s) 1\<rparr>)"

section \<open>Timestamps\<close>

text \<open>
  \<open>civil_from_days\<close> works on \<open>i64\<close>. Its only division of a number that may be negative is the
  one that computes the era, and its numerator is shifted so that Rust's truncating division
  rounds towards minus infinity; all other operands are non-negative, where \<open>div\<close> on \<open>int\<close>
  and Rust's \<open>/\<close> agree. \<open>trunc_div\<close> is Rust's division.
\<close>

definition trunc_div :: "int \<Rightarrow> int \<Rightarrow> int" where
  "trunc_div a b = sgn a * sgn b * (\<bar>a\<bar> div \<bar>b\<bar>)"

definition civil_from_days :: "int \<Rightarrow> int \<times> int \<times> int" where
  "civil_from_days days_since_epoch =
     (let z = days_since_epoch + 719468;
          era = trunc_div (if z \<ge> 0 then z else z - 146096) 146097;
          doe = z - era * 146097;
          yoe = trunc_div (doe - trunc_div doe 1460 + trunc_div doe 36524 - trunc_div doe 146096) 365;
          doy = doe - (365 * yoe + trunc_div yoe 4 - trunc_div yoe 100);
          mp = trunc_div (5 * doy + 2) 153;
          day = doy - trunc_div (153 * mp + 2) 5 + 1;
          month = mp + (if mp < 10 then 3 else -9);
          year = yoe + era * 400 + (if month \<le> 2 then 1 else 0)
      in (year, month, day))"

definition fmt_pad_int :: "nat \<Rightarrow> int \<Rightarrow> rstr" where
  "fmt_pad_int w n = (if n < 0 then 45 # fmt_pad (w - 1) (nat (- n)) else fmt_pad w (nat n))"

definition format_unix_millis :: "nat \<Rightarrow> nat \<Rightarrow> rstr" where
  "format_unix_millis seconds millis =
     (let days = int (seconds div 86400);
          seconds_of_day = seconds mod 86400;
          (year, month, day) = civil_from_days days;
          hour = seconds_of_day div 3600;
          minute = (seconds_of_day mod 3600) div 60;
          second = seconds_of_day mod 60
      in fmt_pad_int 4 year @ lit ''-'' @ fmt_pad_int 2 month @ lit ''-'' @ fmt_pad_int 2 day
         @ lit ''T'' @ fmt_pad 2 hour @ lit '':'' @ fmt_pad 2 minute @ lit '':'' @ fmt_pad 2 second
         @ lit ''.'' @ fmt_pad 3 millis @ lit ''Z'')"

section \<open>Properties of the sequencer\<close>

definition sequencer_step ::
  "realtime_event_sequencer \<Rightarrow> realtime_event \<times> rstr
     \<Rightarrow> realtime_event_envelope \<times> realtime_event_sequencer" where
  "sequencer_step s x = sequencer_next s (fst x) (snd x)"

lemma event_id_of_index_inject [simp]: "event_id_of_index m = event_id_of_index n \<longleftrightarrow> m = n"
  by (simp add: event_id_of_index_def)

lemma sequencer_next_fields [simp]:
  "ev_seq (fst (sequencer_next s e ts)) = sq_next_seq s"
  "ev_event (fst (sequencer_next s e ts)) = e"
  "ev_event_type (fst (sequencer_next s e ts)) = event_type e"
  "ev_session_id (fst (sequencer_next s e ts)) = sq_session_id s"
  "ev_event_id (fst (sequencer_next s e ts)) = event_id_of_index (sq_next_event_index s)"
  "sq_next_seq (snd (sequencer_next s e ts)) = u64_add (sq_next_seq s) 1"
  "sq_next_event_index (snd (sequencer_next s e ts)) = u64_add (sq_next_event_index s) 1"
  "sq_session_id (snd (sequencer_next s e ts)) = sq_session_id s"
  by (simp_all add: sequencer_next_def)

lemma sequencer_run_seq:
  "sq_next_seq s + length xs < u64_limit \<Longrightarrow>
   map ev_seq (fst (run sequencer_step s xs)) = [sq_next_seq s ..< sq_next_seq s + length xs]"
  by (induction xs arbitrary: s)
    (simp_all add: sequencer_step_def wrap_simps upt_conv_Cons del: upt_Suc)

lemma sequencer_run_ids:
  "sq_next_event_index s + length xs < u64_limit \<Longrightarrow>
   map ev_event_id (fst (run sequencer_step s xs))
     = map event_id_of_index [sq_next_event_index s ..< sq_next_event_index s + length xs]"
  by (induction xs arbitrary: s)
    (simp_all add: sequencer_step_def wrap_simps upt_conv_Cons del: upt_Suc)

lemma distinct_event_ids: "distinct (map event_id_of_index [m ..< n])"
  by (simp add: distinct_map inj_on_def)

end
