(* ===== verification/Vad_Machine.thy ===== *)
theory Vad_Machine
  imports Realtime_Events
begin

text \<open>
  Voice activity endpointing (\<open>crates/openasr-core/src/realtime/vad\<close>): the configuration, the
  decision for one frame and the state machine that turns decisions into speech boundaries.
  The root-mean-square of a frame (\<open>normalized_rms\<close>, \<open>f64\<close> arithmetic) is the parameter \<open>rms\<close>
  of the two operations that use it: nothing below depends on how it is rounded.
\<close>

section \<open>Configuration\<close>

datatype vad_mode = Energy | ExternalProbability

record vad_config =
  vc_frame_duration_ms :: nat
  vc_speech_start_ms :: nat
  vc_speech_stop_ms :: nat
  vc_pre_roll_ms :: nat
  vc_max_utterance_ms :: "nat option"
  vc_no_speech_timeout_ms :: "nat option"
  vc_mode :: vad_mode
  vc_energy_threshold :: f32

text \<open>The literal \<open>0.02\<close> is the \<open>f32\<close> closest to it, \<open>10737418 / 2 ^ 29\<close>.\<close>

definition vad_config_default :: vad_config where
  "vad_config_default =
     \<lparr>vc_frame_duration_ms = 20, vc_speech_start_ms = 200, vc_speech_stop_ms = 600,
      vc_pre_roll_ms = 320, vc_max_utterance_ms = Some 30000,
      vc_no_speech_timeout_ms = Some 10000, vc_mode = Energy,
      vc_energy_threshold = F_Num (10737418 / 536870912)\<rparr>"

datatype vad_config_error =
    ZeroFrameDuration | ZeroSpeechStart | ZeroSpeechStop | InvalidEnergyThreshold f32

definition vad_config_validate :: "vad_config \<Rightarrow> vad_config_error + unit" where
  "vad_config_validate c =
     (if vc_frame_duration_ms c = 0 then Inl ZeroFrameDuration
      else if vc_speech_start_ms c = 0 then Inl ZeroSpeechStart
      else if vc_speech_stop_ms c = 0 then Inl ZeroSpeechStop
      else if \<not> f32_in_unit (vc_energy_threshold c)
      then Inl (InvalidEnergyThreshold (vc_energy_threshold c))
      else Inr ())"

section \<open>Decisions\<close>

datatype vad_decision = Speech | Silence | Probability f32

record vad_frame_decision =
  vd_decision :: vad_decision
  vd_rms :: "f32 option"

fun decision_is_speech :: "vad_decision \<Rightarrow> f32 \<Rightarrow> bool" where
  "decision_is_speech Speech threshold = True"
| "decision_is_speech Silence threshold = False"
| "decision_is_speech (Probability p) threshold = f32_le threshold p"

definition frame_decision_from_energy ::
  "(16 word list \<Rightarrow> f32) \<Rightarrow> realtime_audio_frame \<Rightarrow> f32 \<Rightarrow> vad_frame_decision" where
  "frame_decision_from_energy rms frame threshold =
     (let r = rms (fr_samples frame)
      in \<lparr>vd_decision = (if f32_le threshold r then Speech else Silence), vd_rms = Some r\<rparr>)"

definition decision_speech :: vad_frame_decision where
  "decision_speech = \<lparr>vd_decision = Speech, vd_rms = None\<rparr>"

definition decision_silence :: vad_frame_decision where
  "decision_silence = \<lparr>vd_decision = Silence, vd_rms = None\<rparr>"

section \<open>The state machine\<close>

datatype vad_state = WaitingForSpeech | InSpeech | VadClosed

datatype speech_boundary_event =
    SpeechStarted transcript_utterance_id nat
  | SpeechStopped transcript_utterance_id nat nat
  | MaxUtterance transcript_utterance_id nat nat
  | NoSpeechTimeout nat nat

record vad_machine =
  vm_config :: vad_config
  vm_state :: vad_state
  vm_next_utterance_index :: nat
  vm_consecutive_speech_ms :: nat
  vm_consecutive_silence_ms :: nat
  vm_speech_candidate_start_ms :: "nat option"
  vm_active_utterance_id :: "transcript_utterance_id option"
  vm_active_start_ms :: "nat option"
  vm_waiting_start_ms :: "nat option"
  vm_speech_started_once :: bool
  vm_no_speech_timeout_emitted :: bool

definition vad_fresh :: "vad_config \<Rightarrow> vad_machine" where
  "vad_fresh config =
     \<lparr>vm_config = config, vm_state = WaitingForSpeech, vm_next_utterance_index = 1,
      vm_consecutive_speech_ms = 0, vm_consecutive_silence_ms = 0,
      vm_speech_candidate_start_ms = None, vm_active_utterance_id = None,
      vm_active_start_ms = None, vm_waiting_start_ms = None,
      vm_speech_started_once = False, vm_no_speech_timeout_emitted = False\<rparr>"

definition vad_new :: "vad_config \<Rightarrow> vad_config_error + vad_machine" where
  "vad_new config = rbind (vad_config_validate config) (\<lambda>_. Inr (vad_fresh config))"

definition clear_state_after_boundary :: "vad_machine \<Rightarrow> vad_machine" where
  "clear_state_after_boundary m =
     m\<lparr>vm_state := WaitingForSpeech, vm_consecutive_speech_ms := 0,
       vm_consecutive_silence_ms := 0, vm_speech_candidate_start_ms := None,
       vm_active_utterance_id := None, vm_active_start_ms := None,
       vm_waiting_start_ms := None\<rparr>"

definition vad_reset :: "vad_machine \<Rightarrow> vad_machine" where
  "vad_reset m = (clear_state_after_boundary m)
     \<lparr>vm_waiting_start_ms := None, vm_speech_started_once := False,
      vm_no_speech_timeout_emitted := False\<rparr>"

definition vad_close :: "vad_machine \<Rightarrow> vad_machine" where
  "vad_close m = m\<lparr>vm_state := VadClosed\<rparr>"

definition utterance_id_of_index :: "nat \<Rightarrow> transcript_utterance_id" where
  "utterance_id_of_index n = TranscriptUtteranceId (lit ''utt_'' @ fmt_pad 6 n)"

definition next_utterance_id :: "vad_machine \<Rightarrow> transcript_utterance_id \<times> vad_machine" where
  "next_utterance_id m = (utterance_id_of_index (vm_next_utterance_index m),
     m\<lparr>vm_next_utterance_index := u64_add (vm_next_utterance_index m) 1\<rparr>)"

definition reached_no_speech_timeout :: "nat option \<Rightarrow> realtime_audio_frame \<Rightarrow> nat \<Rightarrow> bool" where
  "reached_no_speech_timeout waiting_start_ms frame timeout_ms =
     (case waiting_start_ms of
        Some start_ms \<Rightarrow> timeout_ms \<le> frame_end_ms frame - start_ms
      | None \<Rightarrow> False)"

definition reached_max_utterance ::
  "realtime_audio_frame \<Rightarrow> nat option \<Rightarrow> nat option \<Rightarrow> bool" where
  "reached_max_utterance frame start_ms max_utterance_ms =
     (case (start_ms, max_utterance_ms) of
        (Some s, Some max_ms) \<Rightarrow> max_ms \<le> frame_end_ms frame - s
      | _ \<Rightarrow> False)"

definition maybe_emit_no_speech_timeout ::
  "vad_machine \<Rightarrow> realtime_audio_frame \<Rightarrow> speech_boundary_event list \<times> vad_machine" where
  "maybe_emit_no_speech_timeout m frame =
     (case vc_no_speech_timeout_ms (vm_config m) of
        None \<Rightarrow> ([], m)
      | Some timeout_ms \<Rightarrow>
          if \<not> vm_speech_started_once m \<and> \<not> vm_no_speech_timeout_emitted m
             \<and> reached_no_speech_timeout (vm_waiting_start_ms m) frame timeout_ms
          then ([NoSpeechTimeout timeout_ms (frame_end_ms frame)],
                m\<lparr>vm_no_speech_timeout_emitted := True\<rparr>)
          else ([], m))"

definition stop_event :: "vad_machine \<Rightarrow> nat \<Rightarrow> speech_boundary_event" where
  "stop_event m end_ms =
     SpeechStopped
       (case vm_active_utterance_id m of
          Some u \<Rightarrow> u | None \<Rightarrow> TranscriptUtteranceId (lit ''utt_unknown''))
       (case vm_active_start_ms m of Some s \<Rightarrow> s | None \<Rightarrow> 0)
       end_ms"

definition consume_waiting_speech ::
  "vad_machine \<Rightarrow> realtime_audio_frame \<Rightarrow> nat \<Rightarrow> speech_boundary_event list \<times> vad_machine" where
  "consume_waiting_speech m frame duration =
     (let m1 = (if vm_consecutive_speech_ms m = 0
                then m\<lparr>vm_speech_candidate_start_ms := Some (fr_start_ms frame)\<rparr> else m);
          m2 = m1\<lparr>vm_consecutive_speech_ms := u64_add (vm_consecutive_speech_ms m1) duration,
                  vm_consecutive_silence_ms := 0\<rparr>
      in if vm_consecutive_speech_ms m2 < vc_speech_start_ms (vm_config m2) then ([], m2)
         else let (utterance_id, m3) = next_utterance_id m2;
                  start_ms = (case vm_speech_candidate_start_ms m3 of
                                Some s \<Rightarrow> s | None \<Rightarrow> fr_start_ms frame)
              in ([SpeechStarted utterance_id start_ms],
                  m3\<lparr>vm_state := InSpeech, vm_active_utterance_id := Some utterance_id,
                     vm_active_start_ms := Some start_ms, vm_speech_started_once := True,
                     vm_no_speech_timeout_emitted := False\<rparr>))"

definition process_waiting_for_speech ::
  "vad_machine \<Rightarrow> realtime_audio_frame \<Rightarrow> bool \<Rightarrow> nat
     \<Rightarrow> speech_boundary_event list \<times> vad_machine" where
  "process_waiting_for_speech m frame is_speech duration =
     (let m1 = (case vm_waiting_start_ms m of
                  None \<Rightarrow> m\<lparr>vm_waiting_start_ms := Some (fr_start_ms frame)\<rparr>
                | Some _ \<Rightarrow> m)
      in if is_speech then consume_waiting_speech m1 frame duration
         else maybe_emit_no_speech_timeout
                (m1\<lparr>vm_consecutive_speech_ms := 0, vm_speech_candidate_start_ms := None\<rparr>) frame)"

definition max_utterance_event ::
  "vad_machine \<Rightarrow> realtime_audio_frame \<Rightarrow> speech_boundary_event option" where
  "max_utterance_event m frame =
     (case vm_active_utterance_id m of
        None \<Rightarrow> None
      | Some utterance_id \<Rightarrow>
          if \<not> reached_max_utterance frame (vm_active_start_ms m) (vc_max_utterance_ms (vm_config m))
          then None
          else Some (MaxUtterance utterance_id
                 (case vm_active_start_ms m of Some s \<Rightarrow> s | None \<Rightarrow> fr_start_ms frame)
                 (frame_end_ms frame)))"

definition push_stop_and_reset ::
  "vad_machine \<Rightarrow> nat \<Rightarrow> speech_boundary_event list \<times> vad_machine" where
  "push_stop_and_reset m end_ms = ([stop_event m end_ms], clear_state_after_boundary m)"

definition process_in_speech ::
  "vad_machine \<Rightarrow> realtime_audio_frame \<Rightarrow> bool \<Rightarrow> nat
     \<Rightarrow> speech_boundary_event list \<times> vad_machine" where
  "process_in_speech m frame is_speech duration =
     (let m1 = m\<lparr>vm_consecutive_silence_ms :=
                   (if is_speech then 0 else u64_add (vm_consecutive_silence_ms m) duration)\<rparr>
      in if \<not> is_speech \<and> vc_speech_stop_ms (vm_config m1) \<le> vm_consecutive_silence_ms m1
         then push_stop_and_reset m1 (frame_end_ms frame)
         else (case max_utterance_event m1 frame of
                 Some event \<Rightarrow> ([event], clear_state_after_boundary m1)
               | None \<Rightarrow> ([], m1)))"

definition process_state ::
  "vad_machine \<Rightarrow> realtime_audio_frame \<Rightarrow> bool \<Rightarrow> nat
     \<Rightarrow> speech_boundary_event list \<times> vad_machine" where
  "process_state m frame is_speech duration =
     (case vm_state m of
        WaitingForSpeech \<Rightarrow> process_waiting_for_speech m frame is_speech duration
      | InSpeech \<Rightarrow> process_in_speech m frame is_speech duration
      | VadClosed \<Rightarrow> ([], m))"

definition process_decision_with_speech ::
  "vad_machine \<Rightarrow> realtime_audio_frame \<Rightarrow> vad_frame_decision
     \<Rightarrow> (speech_boundary_event list \<times> bool) \<times> vad_machine" where
  "process_decision_with_speech m frame decision =
     (if vm_state m = VadClosed then (([], False), m)
      else let is_speech = decision_is_speech (vd_decision decision)
                             (vc_energy_threshold (vm_config m));
               (events, m') = process_state m frame is_speech (frame_duration_ms frame)
           in ((events, is_speech), m'))"

definition process_energy_frame_with_speech ::
  "(16 word list \<Rightarrow> f32) \<Rightarrow> vad_machine \<Rightarrow> realtime_audio_frame
     \<Rightarrow> (speech_boundary_event list \<times> bool) \<times> vad_machine" where
  "process_energy_frame_with_speech rms m frame =
     process_decision_with_speech m frame
       (frame_decision_from_energy rms frame (vc_energy_threshold (vm_config m)))"

definition process_decision ::
  "vad_machine \<Rightarrow> realtime_audio_frame \<Rightarrow> vad_frame_decision
     \<Rightarrow> speech_boundary_event list \<times> vad_machine" where
  "process_decision m frame decision =
     (let ((events, _), m') = process_decision_with_speech m frame decision in (events, m'))"

definition process_energy_frame ::
  "(16 word list \<Rightarrow> f32) \<Rightarrow> vad_machine \<Rightarrow> realtime_audio_frame
     \<Rightarrow> speech_boundary_event list \<times> vad_machine" where
  "process_energy_frame rms m frame =
     (let ((events, _), m') = process_energy_frame_with_speech rms m frame in (events, m'))"


section \<open>Endpointers\<close>

text \<open>
  What the consumers of speech boundaries rely on. An endpointer has at most one utterance
  open; a start opens one, a stop or the length limit closes it with the identity and the
  start time that opened it, and a no-speech timeout only occurs while none is open. One frame
  reports at most one of them.
\<close>

fun boundaries_ok ::
  "(transcript_utterance_id \<times> nat) option \<Rightarrow> speech_boundary_event list \<Rightarrow> bool" where
  "boundaries_ok cur [] = True"
| "boundaries_ok None (SpeechStarted u s # es) = boundaries_ok (Some (u, s)) es"
| "boundaries_ok None (NoSpeechTimeout t e # es) = boundaries_ok None es"
| "boundaries_ok (Some (u, s)) (SpeechStopped u' s' e # es) = (u' = u \<and> s' = s \<and> boundaries_ok None es)"
| "boundaries_ok (Some (u, s)) (MaxUtterance u' s' e # es) = (u' = u \<and> s' = s \<and> boundaries_ok None es)"
| "boundaries_ok _ (_ # es) = False"

text \<open>The utterance that is open after the events.\<close>

fun boundary_open :: "(transcript_utterance_id \<times> nat) option \<Rightarrow> speech_boundary_event \<Rightarrow>
    (transcript_utterance_id \<times> nat) option" where
  "boundary_open cur (SpeechStarted u s) = Some (u, s)"
| "boundary_open cur (SpeechStopped u s e) = None"
| "boundary_open cur (MaxUtterance u s e) = None"
| "boundary_open cur (NoSpeechTimeout t e) = cur"

lemma boundaries_ok_append:
  "boundaries_ok cur (xs @ ys) \<longleftrightarrow> boundaries_ok cur xs \<and> boundaries_ok (foldl boundary_open cur xs) ys"
  by (induction cur xs rule: boundaries_ok.induct) auto

locale endpointer = machine step inv allowed
  for step :: "'s \<Rightarrow> 'i \<Rightarrow> speech_boundary_event list \<times> 's" and inv allowed +
  fixes open_utterance :: "'s \<Rightarrow> (transcript_utterance_id \<times> nat) option"
  assumes step_boundaries:
      "inv s \<Longrightarrow> allowed x \<Longrightarrow> boundaries_ok (open_utterance s) (fst (step s x))"
    and step_open:
      "inv s \<Longrightarrow> allowed x \<Longrightarrow>
       open_utterance (snd (step s x)) = foldl boundary_open (open_utterance s) (fst (step s x))"
    and step_single: "inv s \<Longrightarrow> allowed x \<Longrightarrow> length (fst (step s x)) \<le> 1"
begin

lemma run_open:
  "inv s \<Longrightarrow> list_all allowed xs \<Longrightarrow>
   open_utterance (snd (run step s xs))
     = foldl boundary_open (open_utterance s) (concat (fst (run step s xs)))"
  by (induction xs arbitrary: s) (simp_all add: step_open step_inv)

lemma run_boundaries:
  "inv s \<Longrightarrow> list_all allowed xs \<Longrightarrow>
   boundaries_ok (open_utterance s) (concat (fst (run step s xs)))"
  by (induction xs arbitrary: s)
    (simp_all add: step_boundaries step_inv boundaries_ok_append step_open [symmetric])

end

section \<open>The machine is an endpointer\<close>

type_synonym vad_input = "realtime_audio_frame \<times> vad_frame_decision"

definition vad_step :: "vad_machine \<Rightarrow> vad_input \<Rightarrow> speech_boundary_event list \<times> vad_machine" where
  "vad_step m x = process_decision m (fst x) (snd x)"

definition input_speech :: "vad_config \<Rightarrow> vad_input \<Rightarrow> bool" where
  "input_speech c x = decision_is_speech (vd_decision (snd x)) (vc_energy_threshold c)"

definition vad_input_ok :: "vad_input \<Rightarrow> bool" where
  "vad_input_ok x = valid_frame (fst x)"

text \<open>An utterance is recorded exactly while the machine is in speech.\<close>

definition vad_wf :: "vad_machine \<Rightarrow> bool" where
  "vad_wf m \<longleftrightarrow> (case vm_state m of
       InSpeech \<Rightarrow> vm_active_utterance_id m \<noteq> None \<and> vm_active_start_ms m \<noteq> None
     | WaitingForSpeech \<Rightarrow> vm_active_utterance_id m = None \<and> vm_active_start_ms m = None
         \<and> (vm_consecutive_speech_ms m \<noteq> 0 \<longrightarrow> vm_speech_candidate_start_ms m \<noteq> None)
     | VadClosed \<Rightarrow> True)"

definition vad_open :: "vad_machine \<Rightarrow> (transcript_utterance_id \<times> nat) option" where
  "vad_open m = (case vm_state m of
       InSpeech \<Rightarrow> Some (the (vm_active_utterance_id m), the (vm_active_start_ms m))
     | _ \<Rightarrow> None)"

lemma process_state_closed: "vm_state m = VadClosed \<Longrightarrow> process_state m f b d = ([], m)"
  by (simp add: process_state_def)

lemma vad_step_eq:
  "vad_step m x = process_state m (fst x) (input_speech (vm_config m) x) (frame_duration_ms (fst x))"
  by (cases "vm_state m = VadClosed")
    (simp_all add: vad_step_def process_decision_def process_decision_with_speech_def
      input_speech_def process_state_closed Let_def split_def)

text \<open>The machine's steps by the state it is in.\<close>

lemma vad_step_closed: "vm_state m = VadClosed \<Longrightarrow> vad_step m x = ([], m)"
  by (simp add: vad_step_eq process_state_closed)

lemma vad_step_waiting:
  "vm_state m = WaitingForSpeech \<Longrightarrow> vad_step m x =
     process_waiting_for_speech m (fst x) (input_speech (vm_config m) x) (frame_duration_ms (fst x))"
  by (simp add: vad_step_eq process_state_def)

lemma vad_step_in_speech:
  "vm_state m = InSpeech \<Longrightarrow> vad_step m x =
     process_in_speech m (fst x) (input_speech (vm_config m) x) (frame_duration_ms (fst x))"
  by (simp add: vad_step_eq process_state_def)

lemmas waiting_defs =
  process_waiting_for_speech_def consume_waiting_speech_def maybe_emit_no_speech_timeout_def
  next_utterance_id_def

lemmas in_speech_defs =
  process_in_speech_def max_utterance_event_def push_stop_and_reset_def
  clear_state_after_boundary_def stop_event_def

lemma vad_step_config [simp]: "vm_config (snd (vad_step m x)) = vm_config m"
proof (cases "vm_state m")
  case WaitingForSpeech
  then show ?thesis
    by (auto simp: vad_step_waiting waiting_defs Let_def split: option.split)
next
  case InSpeech
  then show ?thesis
    by (auto simp: vad_step_in_speech in_speech_defs Let_def split: option.split)
qed (simp add: vad_step_closed)

lemma vad_run_config [simp]: "vm_config (snd (run vad_step m xs)) = vm_config m"
  by (rule run_frame) simp

text \<open>One step keeps the invariant and moves the open utterance as its events say.\<close>

lemma vad_step_contract:
  assumes wf: "vad_wf m"
  shows "vad_wf (snd (vad_step m x)) \<and> boundaries_ok (vad_open m) (fst (vad_step m x))
    \<and> vad_open (snd (vad_step m x)) = foldl boundary_open (vad_open m) (fst (vad_step m x))
    \<and> length (fst (vad_step m x)) \<le> 1"
proof (cases "vm_state m")
  case WaitingForSpeech
  with wf show ?thesis
    by (cases "input_speech (vm_config m) x")
      (auto simp: vad_step_waiting waiting_defs vad_wf_def vad_open_def Let_def split: option.split)
next
  case InSpeech
  with wf show ?thesis
    by (auto simp: vad_step_in_speech in_speech_defs vad_wf_def vad_open_def Let_def
        split: option.split)
qed (use wf in \<open>simp add: vad_step_closed vad_open_def\<close>)

interpretation vad: endpointer vad_step vad_wf vad_input_ok vad_open
  by unfold_locales (use vad_step_contract in blast)+

lemma vad_fresh_wf [simp]: "vad_wf (vad_fresh c)"
  by (simp add: vad_wf_def vad_fresh_def)

lemma vad_fresh_open [simp]: "vad_open (vad_fresh c) = None"
  by (simp add: vad_open_def vad_fresh_def)

lemma vad_reset_wf [simp]: "vad_wf (vad_reset m)"
  by (simp add: vad_wf_def vad_reset_def clear_state_after_boundary_def)

lemma vad_close_wf [simp]: "vad_wf (vad_close m)"
  by (simp add: vad_wf_def vad_close_def)

end
