(* ===== verification/Utterance_Buffer.thy ===== *)
theory Utterance_Buffer
  imports Vad_Machine
begin

text \<open>
  The utterance buffer (\<open>crates/openasr-core/src/realtime/buffer/core.rs\<close> and
  \<open>buffer_helpers.rs\<close>): a bounded pre-roll of the audio before speech, the frames of the open
  utterance with a running sample count, and the completed utterances it hands out at the
  boundaries of the voice activity machine. Sums of frame durations (each a \<open>u32\<close>) and of
  sample counts are plain naturals: a buffer that made them wrap at 64 bits would not fit in
  memory.
\<close>

section \<open>Data\<close>

record realtime_buffer_config =
  bc_frame_duration_ms :: nat
  bc_pre_roll_ms :: nat
  bc_max_buffered_frames :: nat
  bc_max_buffered_samples :: nat

definition buffer_config_default :: realtime_buffer_config where
  "buffer_config_default = \<lparr>bc_frame_duration_ms = 20, bc_pre_roll_ms = 200,
     bc_max_buffered_frames = 1510, bc_max_buffered_samples = 483200\<rparr>"

datatype utterance_end_reason = VadStop | MaxUtteranceReason | FlushReason | CancelReason

record buffered_utterance =
  bu_utterance_id :: transcript_utterance_id
  bu_start_ms :: nat
  bu_end_ms :: nat
  bu_frames :: "realtime_audio_frame list"
  bu_reason :: utterance_end_reason

record active_utterance =
  au_utterance_id :: transcript_utterance_id
  au_start_ms :: nat
  au_frames :: "realtime_audio_frame list"
  au_samples :: nat

datatype realtime_buffer_error =
    InvalidBufferConfig rstr
  | AudioBufferOverflow nat nat nat nat

record realtime_buffer =
  bf_config :: realtime_buffer_config
  bf_pre_roll :: "realtime_audio_frame list"
  bf_active :: "active_utterance option"
  bf_last_overflow :: "realtime_buffer_error option"

section \<open>Helpers\<close>

definition buffered_samples :: "realtime_audio_frame list \<Rightarrow> nat" where
  "buffered_samples frames = sum_list (map sample_count frames)"

definition utterance_sample_count :: "buffered_utterance \<Rightarrow> nat" where
  "utterance_sample_count u = sum_list (map sample_count (bu_frames u))"

definition ensure_capacity_counts ::
  "realtime_buffer_config \<Rightarrow> nat \<Rightarrow> nat \<Rightarrow> realtime_buffer_error + unit" where
  "ensure_capacity_counts config frame_count samples =
     (if bc_max_buffered_frames config < frame_count \<or> bc_max_buffered_samples config < samples
      then Inl (AudioBufferOverflow frame_count (bc_max_buffered_frames config)
                  samples (bc_max_buffered_samples config))
      else Inr ())"

definition ensure_capacity ::
  "realtime_buffer_config \<Rightarrow> realtime_audio_frame list \<Rightarrow> realtime_buffer_error + unit" where
  "ensure_capacity config frames =
     ensure_capacity_counts config (length frames) (buffered_samples frames)"

definition frames_ms :: "realtime_audio_frame list \<Rightarrow> nat" where
  "frames_ms fs = sum_list (map frame_duration_ms fs)"

fun trim_loop :: "nat \<Rightarrow> nat \<Rightarrow> realtime_audio_frame list \<Rightarrow> realtime_audio_frame list" where
  "trim_loop target_ms acc_ms [] = []"
| "trim_loop target_ms acc_ms (f # fs) =
     (if acc_ms - frame_duration_ms f < target_ms then f # fs
      else trim_loop target_ms (acc_ms - frame_duration_ms f) fs)"

definition trim_pre_roll :: "realtime_audio_frame list \<Rightarrow> nat \<Rightarrow> realtime_audio_frame list" where
  "trim_pre_roll candidate pre_roll_ms =
     (if pre_roll_ms = 0 then [] else trim_loop pre_roll_ms (frames_ms candidate) candidate)"

text \<open>The loop runs over the frames from the newest; \<open>trimmed\<close> grows at its front.\<close>

fun limited_loop :: "nat \<Rightarrow> nat \<Rightarrow> realtime_audio_frame list \<Rightarrow> realtime_audio_frame list
    \<Rightarrow> realtime_audio_frame list option" where
  "limited_loop limit_ms acc_ms trimmed [] = Some trimmed"
| "limited_loop limit_ms acc_ms trimmed (f # fs) =
     (case duration_ms f of
        Inl _ \<Rightarrow> None
      | Inr duration \<Rightarrow>
          if limit_ms < acc_ms + duration \<and> trimmed \<noteq> [] then Some trimmed
          else limited_loop limit_ms (acc_ms + duration) (f # trimmed) fs)"

definition limited_active_frames ::
  "active_utterance \<Rightarrow> nat option \<Rightarrow> realtime_audio_frame list option" where
  "limited_active_frames active max_duration_ms =
     (case max_duration_ms of
        None \<Rightarrow> Some (au_frames active)
      | Some limit_ms \<Rightarrow>
          if limit_ms = 0 then Some (au_frames active)
          else limited_loop limit_ms 0 [] (rev (au_frames active)))"

definition frame_time_range :: "realtime_audio_frame list \<Rightarrow> nat \<Rightarrow> nat \<times> nat" where
  "frame_time_range frames fallback_start_ms =
     (let start_ms = (case frames of f # _ \<Rightarrow> fr_start_ms f | [] \<Rightarrow> fallback_start_ms);
          end_ms = (if frames = [] then start_ms else frame_end_ms (last frames))
      in (start_ms, end_ms))"

definition finish_utterance ::
  "active_utterance \<Rightarrow> transcript_utterance_id \<Rightarrow> nat \<Rightarrow> utterance_end_reason
     \<Rightarrow> active_utterance + buffered_utterance" where
  "finish_utterance active expected_utterance_id end_ms reason =
     (if au_utterance_id active \<noteq> expected_utterance_id then Inl active
      else Inr \<lparr>bu_utterance_id = au_utterance_id active,
                bu_start_ms = fst (frame_time_range (au_frames active) (au_start_ms active)),
                bu_end_ms = end_ms, bu_frames = au_frames active, bu_reason = reason\<rparr>)"

section \<open>Operations\<close>

definition buffer_new :: "realtime_buffer_config \<Rightarrow> realtime_buffer_error + realtime_buffer" where
  "buffer_new config =
     (if bc_frame_duration_ms config = 0
      then Inl (InvalidBufferConfig (lit ''frame_duration_ms must be greater than 0''))
      else if bc_max_buffered_frames config = 0 \<or> bc_max_buffered_samples config = 0
      then Inl (InvalidBufferConfig (lit ''buffer capacities must be greater than 0''))
      else Inr \<lparr>bf_config = config, bf_pre_roll = [], bf_active = None, bf_last_overflow = None\<rparr>)"

text \<open>A capacity check of the buffer also remembers the overflow it reports.\<close>

definition check_capacity ::
  "realtime_buffer_error + unit \<Rightarrow> realtime_buffer
     \<Rightarrow> (realtime_buffer_error + unit) \<times> realtime_buffer" where
  "check_capacity r b =
     (case r of Inl e \<Rightarrow> (Inl e, b\<lparr>bf_last_overflow := Some e\<rparr>) | Inr _ \<Rightarrow> (Inr (), b))"

definition buffer_ensure_capacity ::
  "realtime_buffer \<Rightarrow> realtime_audio_frame list \<Rightarrow> (realtime_buffer_error + unit) \<times> realtime_buffer" where
  "buffer_ensure_capacity b frames = check_capacity (ensure_capacity (bf_config b) frames) b"

definition buffer_ensure_capacity_counts ::
  "realtime_buffer \<Rightarrow> nat \<Rightarrow> nat \<Rightarrow> (realtime_buffer_error + unit) \<times> realtime_buffer" where
  "buffer_ensure_capacity_counts b frame_count samples =
     check_capacity (ensure_capacity_counts (bf_config b) frame_count samples) b"

definition push_pre_roll ::
  "realtime_buffer \<Rightarrow> realtime_audio_frame \<Rightarrow> (realtime_buffer_error + unit) \<times> realtime_buffer" where
  "push_pre_roll b frame =
     (let candidate = bf_pre_roll b @ [frame]
      in if bc_pre_roll_ms (bf_config b) = 0 then (Inr (), b\<lparr>bf_pre_roll := []\<rparr>)
         else let candidate = trim_pre_roll candidate (bc_pre_roll_ms (bf_config b))
              in case buffer_ensure_capacity b candidate of
                   (Inl e, b') \<Rightarrow> (Inl e, b')
                 | (Inr _, b') \<Rightarrow> (Inr (), b'\<lparr>bf_pre_roll := candidate\<rparr>))"

definition push_active ::
  "realtime_buffer \<Rightarrow> realtime_audio_frame \<Rightarrow> (realtime_buffer_error + unit) \<times> realtime_buffer" where
  "push_active b frame =
     (let (projected_frame_count, projected_samples) =
            (case bf_active b of
               Some active \<Rightarrow> (length (au_frames active) + 1, au_samples active + sample_count frame)
             | None \<Rightarrow> (1, sample_count frame))
      in case buffer_ensure_capacity_counts b projected_frame_count projected_samples of
           (Inl e, b') \<Rightarrow> (Inl e, b')
         | (Inr _, b') \<Rightarrow>
             (case bf_active b' of
                None \<Rightarrow> (Inr (), b')
              | Some active \<Rightarrow>
                  (Inr (), b'\<lparr>bf_active := Some (active\<lparr>au_frames := au_frames active @ [frame],
                                                         au_samples := projected_samples\<rparr>)\<rparr>)))"

definition start_active_from_pre_roll ::
  "realtime_buffer \<Rightarrow> realtime_audio_frame \<Rightarrow> transcript_utterance_id \<Rightarrow> nat
     \<Rightarrow> (realtime_buffer_error + unit) \<times> realtime_buffer" where
  "start_active_from_pre_roll b frame utterance_id start_ms =
     (let frames = bf_pre_roll b @ [frame]
      in case buffer_ensure_capacity b frames of
           (Inl e, b') \<Rightarrow> (Inl e, b')
         | (Inr _, b') \<Rightarrow>
             (Inr (), b'\<lparr>bf_pre_roll := [],
                        bf_active := Some \<lparr>au_utterance_id = utterance_id, au_start_ms = start_ms,
                                           au_frames = frames,
                                           au_samples = buffered_samples frames\<rparr>\<rparr>))"

fun boundary_start :: "speech_boundary_event list \<Rightarrow> (transcript_utterance_id \<times> nat) option" where
  "boundary_start [] = None"
| "boundary_start (SpeechStarted u s # es) = Some (u, s)"
| "boundary_start (_ # es) = boundary_start es"

fun boundary_completion ::
  "speech_boundary_event \<Rightarrow> (transcript_utterance_id \<times> nat \<times> utterance_end_reason) option" where
  "boundary_completion (SpeechStopped u s e) = Some (u, e, VadStop)"
| "boundary_completion (MaxUtterance u s e) = Some (u, e, MaxUtteranceReason)"
| "boundary_completion _ = None"

definition ingest_frame ::
  "realtime_buffer \<Rightarrow> realtime_audio_frame \<Rightarrow> speech_boundary_event list
     \<Rightarrow> (realtime_buffer_error + unit) \<times> realtime_buffer" where
  "ingest_frame b frame boundaries =
     (if bf_active b \<noteq> None then push_active b frame
      else case boundary_start boundaries of
             Some (u, s) \<Rightarrow> start_active_from_pre_roll b frame u s
           | None \<Rightarrow> push_pre_roll b frame)"

definition buffer_finish ::
  "realtime_buffer \<Rightarrow> transcript_utterance_id \<Rightarrow> nat \<Rightarrow> utterance_end_reason
     \<Rightarrow> buffered_utterance option \<times> realtime_buffer" where
  "buffer_finish b expected_utterance_id end_ms reason =
     (case bf_active b of
        None \<Rightarrow> (None, b)
      | Some active \<Rightarrow>
          (case finish_utterance active expected_utterance_id end_ms reason of
             Inr utterance \<Rightarrow> (Some utterance, b\<lparr>bf_active := None\<rparr>)
           | Inl active \<Rightarrow> (None, b\<lparr>bf_active := Some active\<rparr>)))"

definition finish_from_boundary ::
  "realtime_buffer \<Rightarrow> speech_boundary_event \<Rightarrow> buffered_utterance list \<times> realtime_buffer" where
  "finish_from_boundary b boundary =
     (case boundary_completion boundary of
        None \<Rightarrow> ([], b)
      | Some (u, end_ms, reason) \<Rightarrow>
          (case buffer_finish b u end_ms reason of
             (Some utterance, b') \<Rightarrow> ([utterance], b')
           | (None, b') \<Rightarrow> ([], b')))"

primrec collect_completed ::
  "speech_boundary_event list \<Rightarrow> realtime_buffer \<Rightarrow> buffered_utterance list \<times> realtime_buffer" where
  "collect_completed [] b = ([], b)"
| "collect_completed (e # es) b =
     (let (us, b') = finish_from_boundary b e; (vs, b'') = collect_completed es b' in (us @ vs, b''))"

definition push_frame ::
  "realtime_buffer \<Rightarrow> realtime_audio_frame \<Rightarrow> speech_boundary_event list
     \<Rightarrow> (realtime_buffer_error + buffered_utterance list) \<times> realtime_buffer" where
  "push_frame b frame boundaries =
     (case ingest_frame b frame boundaries of
        (Inl e, b') \<Rightarrow> (Inl e, b')
      | (Inr _, b') \<Rightarrow> (let (us, b'') = collect_completed boundaries b' in (Inr us, b'')))"

definition buffer_flush :: "realtime_buffer \<Rightarrow> nat \<Rightarrow> buffered_utterance option \<times> realtime_buffer" where
  "buffer_flush b end_ms =
     (case bf_active b of
        None \<Rightarrow> (None, b)
      | Some active \<Rightarrow> buffer_finish b (au_utterance_id active) end_ms FlushReason)"

definition buffer_cancel :: "realtime_buffer \<Rightarrow> nat \<Rightarrow> buffered_utterance option \<times> realtime_buffer" where
  "buffer_cancel b end_ms =
     (case bf_active b of
        None \<Rightarrow> (None, b)
      | Some active \<Rightarrow> buffer_finish b (au_utterance_id active) end_ms CancelReason)"

definition buffer_reset :: "realtime_buffer \<Rightarrow> realtime_buffer" where
  "buffer_reset b = b\<lparr>bf_pre_roll := [], bf_active := None, bf_last_overflow := None\<rparr>"

definition active_snapshot :: "realtime_buffer \<Rightarrow> nat option \<Rightarrow> buffered_utterance option" where
  "active_snapshot b max_duration_ms =
     (case bf_active b of
        None \<Rightarrow> None
      | Some active \<Rightarrow>
          (case (case max_duration_ms of
                   Some limit_ms \<Rightarrow> if 0 < limit_ms then limited_active_frames active (Some limit_ms)
                                    else Some (au_frames active)
                 | None \<Rightarrow> Some (au_frames active)) of
             None \<Rightarrow> None
           | Some frames \<Rightarrow>
               (let (start_ms, end_ms) = frame_time_range frames (au_start_ms active)
                in Some \<lparr>bu_utterance_id = au_utterance_id active, bu_start_ms = start_ms,
                         bu_end_ms = end_ms, bu_frames = frames, bu_reason = FlushReason\<rparr>)))"


section \<open>Trimming\<close>

lemma frames_ms_simps [simp]:
  "frames_ms [] = 0" "frames_ms (f # fs) = frame_duration_ms f + frames_ms fs"
  "frames_ms (xs @ ys) = frames_ms xs + frames_ms ys"
  by (simp_all add: frames_ms_def)

lemma buffered_samples_simps [simp]:
  "buffered_samples [] = 0" "buffered_samples (f # fs) = sample_count f + buffered_samples fs"
  "buffered_samples (xs @ ys) = buffered_samples xs + buffered_samples ys"
  by (simp_all add: buffered_samples_def)

lemma buffered_samples_valid: "list_all valid_frame fs \<Longrightarrow> buffered_samples fs = 16 * frames_ms fs"
  by (induction fs) (simp_all add: sample_count_valid)

lemma trim_pre_roll_Nil [simp]: "trim_pre_roll [] ms = []"
  by (simp add: trim_pre_roll_def)

lemma trim_pre_roll_0 [simp]: "trim_pre_roll fs 0 = []"
  by (simp add: trim_pre_roll_def)

lemma trim_pre_roll_Cons:
  "0 < ms \<Longrightarrow> trim_pre_roll (f # fs) ms = (if frames_ms fs < ms then f # fs else trim_pre_roll fs ms)"
  by (simp add: trim_pre_roll_def)

lemma trim_pre_roll_suffix: "suffix (trim_pre_roll fs ms) fs"
proof (cases "ms = 0")
  case False
  then show ?thesis by (induction fs) (auto simp: trim_pre_roll_Cons suffix_ConsI)
qed simp

lemma trim_pre_roll_short: "0 < ms \<Longrightarrow> frames_ms fs \<le> ms \<Longrightarrow> list_all valid_frame fs \<Longrightarrow> trim_pre_roll fs ms = fs"
  by (cases fs) (auto simp: trim_pre_roll_Cons dest: frame_duration_ms_pos)

lemma trim_pre_roll_covers: "0 < ms \<Longrightarrow> trim_pre_roll fs ms = fs \<or> ms \<le> frames_ms (trim_pre_roll fs ms)"
  by (induction fs) (auto simp: trim_pre_roll_Cons)

lemma trim_pre_roll_minimal: "0 < ms \<Longrightarrow> frames_ms (tl (trim_pre_roll fs ms)) < ms"
  by (induction fs) (auto simp: trim_pre_roll_Cons)

text \<open>Trimming after every frame keeps what one trimming at the end would keep.\<close>

lemma trim_pre_roll_incremental: "trim_pre_roll (trim_pre_roll fs ms @ gs) ms = trim_pre_roll (fs @ gs) ms"
proof (cases "ms = 0")
  case False
  then show ?thesis
  proof (induction fs)
    case (Cons f fs)
    then show ?case by (simp add: trim_pre_roll_Cons)
  qed simp
qed simp

lemma list_all_suffix: "suffix xs ys \<Longrightarrow> list_all p ys \<Longrightarrow> list_all p xs"
  by (auto simp: suffix_def)

lemma limited_loop_spec:
  assumes "list_all valid_frame fs" and "acc_ms = frames_ms trimmed"
    and "trimmed = [] \<or> frames_ms trimmed \<le> limit \<or> length trimmed = 1"
  shows "\<exists>zs ys. rev fs = zs @ ys \<and> limited_loop limit acc_ms trimmed fs = Some (ys @ trimmed)
    \<and> (ys @ trimmed = [] \<or> frames_ms (ys @ trimmed) \<le> limit \<or> length (ys @ trimmed) = 1)
    \<and> (zs \<noteq> [] \<longrightarrow> limit < frames_ms (last zs # ys @ trimmed) \<and> ys @ trimmed \<noteq> [])"
  using assms
proof (induction fs arbitrary: acc_ms trimmed)
  case (Cons f fs)
  have d: "duration_ms f = Inr (frame_duration_ms f)"
    using Cons.prems by (simp add: frame_duration_valid frame_duration_ms_valid)
  show ?case
  proof (cases "limit < acc_ms + frame_duration_ms f \<and> trimmed \<noteq> []")
    case True
    then show ?thesis
      using Cons.prems d by (intro exI [where x = "rev (f # fs)"] exI [where x = "[]"]) (auto simp: add.commute)
  next
    case False
    then have "f # trimmed = [] \<or> frames_ms (f # trimmed) \<le> limit \<or> length (f # trimmed) = 1"
      using Cons.prems(2) by auto
    then obtain zs ys where ih: "rev fs = zs @ ys"
        "limited_loop limit (acc_ms + frame_duration_ms f) (f # trimmed) fs = Some (ys @ f # trimmed)"
        "ys @ f # trimmed = [] \<or> frames_ms (ys @ f # trimmed) \<le> limit \<or> length (ys @ f # trimmed) = 1"
        "zs \<noteq> [] \<longrightarrow> limit < frames_ms (last zs # ys @ f # trimmed) \<and> ys @ f # trimmed \<noteq> []"
      using Cons.IH [of "acc_ms + frame_duration_ms f" "f # trimmed"] Cons.prems by (auto simp: add.commute)
    then show ?thesis
      using False d by (intro exI [where x = zs] exI [where x = "ys @ [f]"]) simp
  qed
qed simp

section \<open>The buffer as a view\<close>

text \<open>
  What the buffer is for, without its incremental bookkeeping: between utterances it has seen
  a history of frames; in an utterance it holds the pre-roll of that history and everything
  since. \<open>buffer_of\<close> is the buffer that represents such a view.
\<close>

datatype buffer_view =
    Idle "realtime_audio_frame list"
  | Recording transcript_utterance_id nat "realtime_audio_frame list"

fun view_ingest ::
  "nat \<Rightarrow> buffer_view \<Rightarrow> realtime_audio_frame \<Rightarrow> speech_boundary_event list \<Rightarrow> buffer_view" where
  "view_ingest ms (Recording u s fs) f bs = Recording u s (fs @ [f])"
| "view_ingest ms (Idle h) f bs =
     (case boundary_start bs of
        Some (u, s) \<Rightarrow> Recording u s (trim_pre_roll h ms @ [f])
      | None \<Rightarrow> Idle (h @ [f]))"

fun view_finish :: "buffer_view \<Rightarrow> speech_boundary_event \<Rightarrow> buffered_utterance list \<times> buffer_view" where
  "view_finish (Idle h) e = ([], Idle h)"
| "view_finish (Recording u s fs) e =
     (case boundary_completion e of
        Some (u', end_ms, reason) \<Rightarrow>
          if u' = u
          then ([\<lparr>bu_utterance_id = u, bu_start_ms = fst (frame_time_range fs s), bu_end_ms = end_ms,
                  bu_frames = fs, bu_reason = reason\<rparr>], Idle [])
          else ([], Recording u s fs)
      | None \<Rightarrow> ([], Recording u s fs))"

definition view_completed ::
  "speech_boundary_event list \<Rightarrow> buffer_view \<Rightarrow> buffered_utterance list \<times> buffer_view" where
  "view_completed es v = (concat (fst (run view_finish v es)), snd (run view_finish v es))"

fun view_stored :: "nat \<Rightarrow> buffer_view \<Rightarrow> realtime_audio_frame list" where
  "view_stored ms (Idle h) = trim_pre_roll h ms"
| "view_stored ms (Recording u s fs) = fs"

fun buffer_of ::
  "realtime_buffer_config \<Rightarrow> realtime_buffer_error option \<Rightarrow> buffer_view \<Rightarrow> realtime_buffer" where
  "buffer_of c lo (Idle h) = \<lparr>bf_config = c, bf_pre_roll = trim_pre_roll h (bc_pre_roll_ms c),
     bf_active = None, bf_last_overflow = lo\<rparr>"
| "buffer_of c lo (Recording u s fs) = \<lparr>bf_config = c, bf_pre_roll = [],
     bf_active = Some \<lparr>au_utterance_id = u, au_start_ms = s, au_frames = fs,
                        au_samples = buffered_samples fs\<rparr>,
     bf_last_overflow = lo\<rparr>"

lemma buffer_new_ok:
  "buffer_new c = Inr b \<Longrightarrow> b = buffer_of c None (Idle [])"
  by (auto simp: buffer_new_def split: if_splits)

lemma buffer_of_config [simp]: "bf_config (buffer_of c lo v) = c"
  by (cases v) simp_all

lemma buffer_of_overflow [simp]:
  "(buffer_of c lo v)\<lparr>bf_last_overflow := lo'\<rparr> = buffer_of c lo' v"
  by (cases v) simp_all

lemma ingest_frame_view:
  "ingest_frame (buffer_of c lo v) f bs =
     (case ensure_capacity c (view_stored (bc_pre_roll_ms c) (view_ingest (bc_pre_roll_ms c) v f bs)) of
        Inl e \<Rightarrow> (Inl e, buffer_of c (Some e) v)
      | Inr _ \<Rightarrow> (Inr (), buffer_of c lo (view_ingest (bc_pre_roll_ms c) v f bs)))"
proof (cases v)
  case (Recording u s fs)
  then show ?thesis
    by (auto simp: ingest_frame_def push_active_def buffer_ensure_capacity_counts_def
        check_capacity_def ensure_capacity_def split: sum.split)
next
  case (Idle h)
  have cap0: "ensure_capacity c [] = Inr ()"
    by (simp add: ensure_capacity_def ensure_capacity_counts_def)
  show ?thesis
  proof (cases "boundary_start bs")
    case None
    then show ?thesis
      using Idle cap0
      by (auto simp: ingest_frame_def push_pre_roll_def buffer_ensure_capacity_def check_capacity_def
          Let_def trim_pre_roll_incremental split: sum.split)
  next
    case (Some a)
    then show ?thesis
      using Idle
      by (cases a) (auto simp: ingest_frame_def start_active_from_pre_roll_def
          buffer_ensure_capacity_def check_capacity_def Let_def split: sum.split)
  qed
qed

lemma finish_from_boundary_view:
  "finish_from_boundary (buffer_of c lo v) e = (fst (view_finish v e), buffer_of c lo (snd (view_finish v e)))"
  by (cases v) (auto simp: finish_from_boundary_def buffer_finish_def finish_utterance_def
      split: option.split)

lemma collect_completed_view:
  "collect_completed es (buffer_of c lo v)
     = (fst (view_completed es v), buffer_of c lo (snd (view_completed es v)))"
  by (induction es arbitrary: v)
    (simp_all add: finish_from_boundary_view view_completed_def)

lemma push_frame_view:
  "push_frame (buffer_of c lo v) f bs =
     (let v1 = view_ingest (bc_pre_roll_ms c) v f bs
      in case ensure_capacity c (view_stored (bc_pre_roll_ms c) v1) of
           Inl e \<Rightarrow> (Inl e, buffer_of c (Some e) v)
         | Inr _ \<Rightarrow> (Inr (fst (view_completed bs v1)), buffer_of c lo (snd (view_completed bs v1))))"
  by (simp add: push_frame_def ingest_frame_view Let_def collect_completed_view split: sum.split)


section \<open>The other operations on a view\<close>

fun view_open :: "buffer_view \<Rightarrow> (transcript_utterance_id \<times> nat) option" where
  "view_open (Idle h) = None"
| "view_open (Recording u s fs) = Some (u, s)"

fun view_end :: "nat \<Rightarrow> utterance_end_reason \<Rightarrow> buffer_view \<Rightarrow> buffered_utterance option \<times> buffer_view" where
  "view_end end_ms reason (Idle h) = (None, Idle h)"
| "view_end end_ms reason (Recording u s fs) =
     (Some \<lparr>bu_utterance_id = u, bu_start_ms = fst (frame_time_range fs s), bu_end_ms = end_ms,
            bu_frames = fs, bu_reason = reason\<rparr>, Idle [])"

lemma buffer_flush_view:
  "buffer_flush (buffer_of c lo v) e = (fst (view_end e FlushReason v), buffer_of c lo (snd (view_end e FlushReason v)))"
  by (cases v) (simp_all add: buffer_flush_def buffer_finish_def finish_utterance_def)

lemma buffer_cancel_view:
  "buffer_cancel (buffer_of c lo v) e = (fst (view_end e CancelReason v), buffer_of c lo (snd (view_end e CancelReason v)))"
  by (cases v) (simp_all add: buffer_cancel_def buffer_finish_def finish_utterance_def)

lemma buffer_reset_view: "buffer_reset (buffer_of c lo v) = buffer_of c None (Idle [])"
  by (cases v) (simp_all add: buffer_reset_def)

datatype buffer_op =
    PushOp realtime_audio_frame "speech_boundary_event list" | FlushOp nat | CancelOp nat | ResetOp

fun buffer_step ::
  "realtime_buffer \<Rightarrow> buffer_op \<Rightarrow> (realtime_buffer_error + buffered_utterance list) \<times> realtime_buffer" where
  "buffer_step b (PushOp f bs) = push_frame b f bs"
| "buffer_step b (FlushOp e) =
     (Inr (case fst (buffer_flush b e) of Some u \<Rightarrow> [u] | None \<Rightarrow> []), snd (buffer_flush b e))"
| "buffer_step b (CancelOp e) =
     (Inr (case fst (buffer_cancel b e) of Some u \<Rightarrow> [u] | None \<Rightarrow> []), snd (buffer_cancel b e))"
| "buffer_step b ResetOp = (Inr [], buffer_reset b)"

text \<open>The invariant: the bookkeeping is exact and nothing exceeds the configured capacity.\<close>

definition buffer_ok :: "realtime_buffer \<Rightarrow> bool" where
  "buffer_ok b \<longleftrightarrow>
     (case bf_active b of
        None \<Rightarrow> is_ok (ensure_capacity (bf_config b) (bf_pre_roll b))
          \<and> (bf_pre_roll b \<noteq> [] \<longrightarrow> frames_ms (tl (bf_pre_roll b)) < bc_pre_roll_ms (bf_config b))
      | Some a \<Rightarrow> bf_pre_roll b = [] \<and> au_frames a \<noteq> []
          \<and> au_samples a = buffered_samples (au_frames a)
          \<and> is_ok (ensure_capacity (bf_config b) (au_frames a)))"

fun view_ok :: "realtime_buffer_config \<Rightarrow> buffer_view \<Rightarrow> bool" where
  "view_ok c (Idle h) = is_ok (ensure_capacity c (trim_pre_roll h (bc_pre_roll_ms c)))"
| "view_ok c (Recording u s fs) = (fs \<noteq> [] \<and> is_ok (ensure_capacity c fs))"

lemma ensure_capacity_Nil [simp]: "ensure_capacity c [] = Inr ()"
  by (simp add: ensure_capacity_def ensure_capacity_counts_def)

lemma ensure_capacity_ok_iff:
  "ensure_capacity c fs = Inr () \<longleftrightarrow>
     length fs \<le> bc_max_buffered_frames c \<and> buffered_samples fs \<le> bc_max_buffered_samples c"
  by (auto simp: ensure_capacity_def ensure_capacity_counts_def)

lemma buffer_ok_of_view: "view_ok c v \<Longrightarrow> buffer_ok (buffer_of c lo v)"
  using trim_pre_roll_minimal [of "bc_pre_roll_ms c"]
  by (cases v; cases "bc_pre_roll_ms c = 0") (auto simp: buffer_ok_def)

lemma view_finish_ok: "view_ok c v \<Longrightarrow> view_ok c (snd (view_finish v e))"
  by (cases v) (auto split: option.split)

lemma view_completed_ok: "view_ok c v \<Longrightarrow> view_ok c (snd (view_completed es v))"
  unfolding view_completed_def
  by (induction es arbitrary: v) (simp_all add: view_finish_ok)

lemma view_ingest_ok:
  "ensure_capacity c (view_stored (bc_pre_roll_ms c) (view_ingest (bc_pre_roll_ms c) v f bs)) = Inr u \<Longrightarrow>
   view_ok c (view_ingest (bc_pre_roll_ms c) v f bs)"
  by (cases v; cases "boundary_start bs") (auto simp: is_ok_iff)

lemma view_end_ok: "view_ok c v \<Longrightarrow> view_ok c (snd (view_end e r v))"
  by (cases v) simp_all

definition buffer_reached :: "realtime_buffer_config \<Rightarrow> realtime_buffer \<Rightarrow> bool" where
  "buffer_reached c b \<longleftrightarrow> (\<exists>lo v. b = buffer_of c lo v \<and> view_ok c v)"

lemma buffer_step_reached:
  assumes "buffer_reached c b"
  shows "buffer_reached c (snd (buffer_step b op))"
proof -
  obtain lo v where b: "b = buffer_of c lo v" "view_ok c v"
    using assms by (auto simp: buffer_reached_def)
  have idle: "view_ok c (Idle [])" by simp
  show ?thesis
  proof (cases op)
    case (PushOp f bs)
    then show ?thesis
      using b view_ingest_ok [of c v f bs] view_completed_ok [of c]
      by (auto simp: push_frame_view Let_def buffer_reached_def split: sum.split)
  next
    case (FlushOp e)
    then show ?thesis
      using b view_end_ok [of c v e] by (auto simp: buffer_flush_view buffer_reached_def)
  next
    case (CancelOp e)
    then show ?thesis
      using b view_end_ok [of c v e] by (auto simp: buffer_cancel_view buffer_reached_def)
  next
    case ResetOp
    then have "snd (buffer_step b op) = buffer_of c None (Idle [])"
      using b by (simp add: buffer_reset_view)
    then show ?thesis unfolding buffer_reached_def using idle by blast
  qed
qed

interpretation buffer: machine buffer_step "buffer_reached c" "\<lambda>_. True" for c
  by unfold_locales (rule buffer_step_reached)

lemma buffer_new_reached: "buffer_new c = Inr b \<Longrightarrow> buffer_reached c b"
  by (auto simp: buffer_reached_def dest!: buffer_new_ok intro!: exI [of _ "Idle []"])

lemma buffer_reached_ok: "buffer_reached c b \<Longrightarrow> buffer_ok b \<and> bf_config b = c"
  by (auto simp: buffer_reached_def buffer_ok_of_view)

section \<open>Audio is neither duplicated nor reordered\<close>

definition utterances_frames :: "buffered_utterance list \<Rightarrow> realtime_audio_frame list" where
  "utterances_frames us = concat (map bu_frames us)"

lemma utterances_frames_simps [simp]:
  "utterances_frames [] = []" "utterances_frames (u # us) = bu_frames u @ utterances_frames us"
  "utterances_frames (us @ vs) = utterances_frames us @ utterances_frames vs"
  by (simp_all add: utterances_frames_def)

lemma view_finish_frames:
  "utterances_frames (fst (view_finish v e)) @ view_stored ms (snd (view_finish v e)) = view_stored ms v"
  by (cases v) (auto split: option.split)

lemma view_completed_frames:
  "utterances_frames (fst (view_completed es v)) @ view_stored ms (snd (view_completed es v)) = view_stored ms v"
proof (induction es arbitrary: v)
  case (Cons e es)
  have "utterances_frames (fst (view_completed (e # es) v)) @ view_stored ms (snd (view_completed (e # es) v))
    = utterances_frames (fst (view_finish v e))
      @ (utterances_frames (fst (view_completed es (snd (view_finish v e))))
         @ view_stored ms (snd (view_completed es (snd (view_finish v e)))))"
    by (simp add: view_completed_def)
  also have "\<dots> = view_stored ms v" by (simp only: Cons.IH view_finish_frames)
  finally show ?case .
qed (simp add: view_completed_def)

lemma view_ingest_frames: "suffix (view_stored ms (view_ingest ms v f bs)) (view_stored ms v @ [f])"
  using trim_pre_roll_suffix [of "trim_pre_roll h ms @ [f]" ms for h]
  by (cases v) (auto simp: trim_pre_roll_incremental split: option.split)

lemma push_frame_frames:
  assumes "push_frame (buffer_of c lo v) f bs = (Inr us, b')"
  shows "\<exists>v'. b' = buffer_of c lo v'
    \<and> suffix (utterances_frames us @ view_stored (bc_pre_roll_ms c) v') (view_stored (bc_pre_roll_ms c) v @ [f])"
proof -
  let ?v = "view_ingest (bc_pre_roll_ms c) v f bs"
  have "us = fst (view_completed bs ?v)" "b' = buffer_of c lo (snd (view_completed bs ?v))"
    using assms by (auto simp: push_frame_view Let_def split: sum.splits)
  then show ?thesis
    using view_ingest_frames [of "bc_pre_roll_ms c" v f bs]
    by (intro exI [where x = "snd (view_completed bs ?v)"] conjI) (simp_all only: view_completed_frames)
qed


lemma buffer_run_frames:
  assumes "list_all is_ok (fst (run (\<lambda>b x. push_frame b (fst x) (snd x)) (buffer_of c lo v) xs))"
  shows "\<exists>v'. snd (run (\<lambda>b x. push_frame b (fst x) (snd x)) (buffer_of c lo v) xs) = buffer_of c lo v'
    \<and> subseq (concat (map (\<lambda>r. case r of Inr us \<Rightarrow> utterances_frames us | Inl _ \<Rightarrow> [])
          (fst (run (\<lambda>b x. push_frame b (fst x) (snd x)) (buffer_of c lo v) xs)))
        @ view_stored (bc_pre_roll_ms c) v')
      (view_stored (bc_pre_roll_ms c) v @ map fst xs)"
  using assms
proof (induction xs arbitrary: v)
  case (Cons x xs)
  let ?push = "\<lambda>b x. push_frame b (fst x) (snd x)" and ?st = "view_stored (bc_pre_roll_ms c)"
  obtain us b' where p: "push_frame (buffer_of c lo v) (fst x) (snd x) = (Inr us, b')"
    using Cons.prems by (cases "push_frame (buffer_of c lo v) (fst x) (snd x)") (auto simp: is_ok_iff)
  obtain v1 where v1: "b' = buffer_of c lo v1" "suffix (utterances_frames us @ ?st v1) (?st v @ [fst x])"
    using push_frame_frames [OF p] by auto
  obtain v' where ih: "snd (run ?push b' xs) = buffer_of c lo v'"
      "subseq (concat (map (\<lambda>r. case r of Inr us \<Rightarrow> utterances_frames us | Inl _ \<Rightarrow> []) (fst (run ?push b' xs)))
         @ ?st v') (?st v1 @ map fst xs)"
    using Cons.IH [of v1] Cons.prems p v1(1) by auto
  have "subseq ((utterances_frames us @ ?st v1) @ map fst xs) ((?st v @ [fst x]) @ map fst xs)"
    by (rule list_emb_append_mono [OF suffix_imp_subseq [OF v1(2)] subseq_order.refl])
  moreover have "subseq (utterances_frames us @ (concat (map (\<lambda>r. case r of Inr us \<Rightarrow> utterances_frames us | Inl _ \<Rightarrow> [])
         (fst (run ?push b' xs))) @ ?st v')) (utterances_frames us @ (?st v1 @ map fst xs))"
    by (rule list_emb_append_mono [OF subseq_order.refl ih(2)])
  ultimately show ?case
    using ih(1) p by (auto intro: subseq_order.trans)
qed auto

lemma subseq_append_leftD: "subseq (xs @ ys) zs \<Longrightarrow> subseq xs zs"
  by (rule subseq_order.trans [OF prefix_imp_subseq]) simp_all

section \<open>Properties\<close>

text \<open>
  C14. The buffer implements its specification: pushing a frame into the buffer that represents
  a view fails, with the exact counts and without touching the audio, if and only if the
  audio to be held would exceed the capacity; otherwise it hands out exactly the utterances
  the boundaries complete and represents the new view. The view keeps the whole history where
  the buffer trims its pre-roll after every frame.
\<close>

theorem push_frame_refines_view:
  "push_frame (buffer_of c lo v) f bs =
     (let v1 = view_ingest (bc_pre_roll_ms c) v f bs; held = view_stored (bc_pre_roll_ms c) v1
      in if bc_max_buffered_frames c < length held \<or> bc_max_buffered_samples c < buffered_samples held
         then let e = AudioBufferOverflow (length held) (bc_max_buffered_frames c)
                        (buffered_samples held) (bc_max_buffered_samples c)
              in (Inl e, buffer_of c (Some e) v)
         else (Inr (fst (view_completed bs v1)), buffer_of c lo (snd (view_completed bs v1))))"
  by (simp add: push_frame_view Let_def ensure_capacity_def ensure_capacity_counts_def)

text \<open>
  Whatever is done to a buffer (pushes with arbitrary boundaries, flush, cancel, reset,
  overflows included), the running sample count of the open utterance is the number of samples
  it holds, the pre-roll is empty while an utterance is open, and neither exceeds the
  configured frame and sample capacities.
\<close>

theorem buffer_bookkeeping_exact:
  assumes "buffer_new c = Inr b"
  shows "buffer_ok (snd (run buffer_step b ops)) \<and> bf_config (snd (run buffer_step b ops)) = c"
  using buffer.run_inv [OF buffer_new_reached [OF assms], of ops] buffer_reached_ok
  by (simp add: list_all_iff)

theorem buffer_bookkeeping_exact_witness:
  "buffer_ok (snd (run buffer_step (buffer_of buffer_config_default None (Idle []))
     [PushOp (sample_frame 0) [SpeechStarted (TranscriptUtteranceId []) 0], FlushOp 20]))"
  using buffer_bookkeeping_exact [of buffer_config_default "buffer_of buffer_config_default None (Idle [])"
      "[PushOp (sample_frame 0) [SpeechStarted (TranscriptUtteranceId []) 0], FlushOp 20]"]
  by (simp add: buffer_new_def buffer_config_default_def)

text \<open>
  The pre-roll is the shortest sufficient one: what trimming keeps is a suffix of the
  frames, it is everything or lasts at least \<open>pre_roll_ms\<close>, and without its oldest frame it
  would be too short.
\<close>

theorem pre_roll_is_shortest_sufficient_suffix:
  assumes "0 < ms" and "ys = trim_pre_roll fs ms"
  shows "suffix ys fs \<and> (ys = fs \<or> ms \<le> frames_ms ys)
    \<and> frames_ms (tl ys) < ms"
  using assms trim_pre_roll_suffix [of fs ms] trim_pre_roll_covers [of ms fs] trim_pre_roll_minimal [of ms fs]
  by simp

theorem pre_roll_is_shortest_sufficient_suffix_witness:
  "trim_pre_roll [sample_frame 0, sample_frame 1, sample_frame 2] 30 = [sample_frame 1, sample_frame 2]
   \<and> frames_ms (tl [sample_frame 1, sample_frame 2]) < 30"
  using pre_roll_is_shortest_sufficient_suffix [of 30 "[sample_frame 1, sample_frame 2]"
      "[sample_frame 0, sample_frame 1, sample_frame 2]"]
  by (simp add: trim_pre_roll_def)

text \<open>
  A limited snapshot of the open utterance is a suffix of its frames and non-empty; it
  stays within the limit unless it is a single frame, and every longer suffix exceeds the limit.
  It has the time range of its own frames.
\<close>

theorem active_snapshot_is_longest_suffix:
  assumes "bf_active b = Some a" and "au_frames a \<noteq> []" and "list_all valid_frame (au_frames a)" and "0 < limit"
  shows "\<exists>zs ys. au_frames a = zs @ ys \<and> ys \<noteq> []
    \<and> active_snapshot b (Some limit) = Some \<lparr>bu_utterance_id = au_utterance_id a,
         bu_start_ms = fr_start_ms (hd ys), bu_end_ms = frame_end_ms (last ys), bu_frames = ys,
         bu_reason = FlushReason\<rparr>
    \<and> (frames_ms ys \<le> limit \<or> length ys = 1) \<and> (zs = [] \<or> limit < frames_ms (last zs # ys))"
proof -
  have "list_all valid_frame (rev (au_frames a))" using assms(3) by (simp add: list_all_iff)
  from limited_loop_spec [OF this, of 0 "[]" limit]
  obtain zs ys where zy: "au_frames a = zs @ ys" "limited_loop limit 0 [] (rev (au_frames a)) = Some ys"
      "ys = [] \<or> frames_ms ys \<le> limit \<or> length ys = 1"
      "zs \<noteq> [] \<longrightarrow> limit < frames_ms (last zs # ys) \<and> ys \<noteq> []"
    unfolding rev_rev_ident append_Nil2 by (metis frames_ms_simps(1))
  then have "ys \<noteq> []" using assms(2) by auto
  then have "frame_time_range ys (au_start_ms a) = (fr_start_ms (hd ys), frame_end_ms (last ys))"
    by (cases ys) (simp_all add: frame_time_range_def)
  then show ?thesis
    using zy \<open>ys \<noteq> []\<close> assms(1,4)
    by (intro exI [where x = zs] exI [where x = ys])
      (auto simp: active_snapshot_def limited_active_frames_def)
qed

theorem active_snapshot_is_longest_suffix_witness:
  "\<exists>zs ys. [sample_frame 0, sample_frame 1] = zs @ ys \<and> ys \<noteq> [] \<and> (frames_ms ys \<le> 30 \<or> length ys = 1)"
  using active_snapshot_is_longest_suffix [of
      "buffer_of buffer_config_default None (Recording (TranscriptUtteranceId []) 0 [sample_frame 0, sample_frame 1])"
      "\<lparr>au_utterance_id = TranscriptUtteranceId [], au_start_ms = 0,
        au_frames = [sample_frame 0, sample_frame 1], au_samples = 640\<rparr>" 30]
  by (auto simp: sample_count_def)

text \<open>
  Audio is neither duplicated nor reordered: as long as nothing overflows, the frames of
  all utterances handed out, in order, followed by what the buffer still holds, are a
  subsequence of the frames pushed into it.
\<close>

theorem buffer_keeps_audio_order:
  assumes "buffer_new c = Inr b"
    and "list_all is_ok (fst (run (\<lambda>b x. push_frame b (fst x) (snd x)) b xs))"
  shows "subseq (concat (map (\<lambda>r. case r of Inr us \<Rightarrow> utterances_frames us | Inl _ \<Rightarrow> [])
      (fst (run (\<lambda>b x. push_frame b (fst x) (snd x)) b xs)))) (map fst xs)"
proof -
  have b: "b = buffer_of c None (Idle [])" by (rule buffer_new_ok [OF assms(1)])
  from buffer_run_frames [OF assms(2) [unfolded b]] show ?thesis
    unfolding b by (auto dest: subseq_append_leftD)
qed

theorem buffer_keeps_audio_order_witness:
  "subseq (concat (map (\<lambda>r. case r of Inr us \<Rightarrow> utterances_frames us | Inl _ \<Rightarrow> [])
      (fst (run (\<lambda>b x. push_frame b (fst x) (snd x)) (buffer_of buffer_config_default None (Idle []))
         [(sample_frame 0, [])])))) [sample_frame 0]"
  using buffer_keeps_audio_order [of buffer_config_default "buffer_of buffer_config_default None (Idle [])"
      "[(sample_frame 0, [])]"]
  by (simp add: buffer_new_def push_frame_def ingest_frame_def push_pre_roll_def buffer_ensure_capacity_def
      check_capacity_def ensure_capacity_def ensure_capacity_counts_def buffer_config_default_def
      trim_pre_roll_def sample_count_def)

end
