(* ===== verification/Vad_Properties.thy ===== *)
theory Vad_Properties
  imports Vad_Machine
begin

text \<open>
  When the voice activity machine of \<open>realtime/vad\<close> opens and closes utterances, stated over
  the history of the frames it saw: the trailing run of speech frames decides the start, the
  trailing run of silence frames the stop, and contiguous audio bounds the length.
\<close>

section \<open>Histories\<close>

definition trailing :: "('a \<Rightarrow> bool) \<Rightarrow> 'a list \<Rightarrow> 'a list" where
  "trailing p xs = rev (takeWhile p (rev xs))"

definition total_ms :: "vad_input list \<Rightarrow> nat" where
  "total_ms xs = sum_list (map (\<lambda>x. frame_duration_ms (fst x)) xs)"

lemma trailing_Nil [simp]: "trailing p [] = []"
  by (simp add: trailing_def)

lemma trailing_snoc [simp]: "trailing p (xs @ [x]) = (if p x then trailing p xs @ [x] else [])"
  by (simp add: trailing_def)

lemma trailing_all: "x \<in> set (trailing p xs) \<Longrightarrow> p x"
  by (auto simp: trailing_def dest: set_takeWhileD)

lemma total_ms_Nil [simp]: "total_ms [] = 0"
  by (simp add: total_ms_def)

lemma total_ms_append [simp]: "total_ms (xs @ ys) = total_ms xs + total_ms ys"
  by (simp add: total_ms_def)

lemma total_ms_Cons [simp]: "total_ms (x # xs) = frame_duration_ms (fst x) + total_ms xs"
  by (simp add: total_ms_def)

lemma total_ms_trailing: "total_ms (trailing p xs) \<le> total_ms xs"
  by (induction xs rule: rev_induct) auto

lemma total_ms_pos: "list_all vad_input_ok xs \<Longrightarrow> xs \<noteq> [] \<Longrightarrow> 0 < total_ms xs"
  by (cases xs) (auto simp: vad_input_ok_def frame_duration_ms_pos)

lemma list_all_trailing: "list_all q xs \<Longrightarrow> list_all q (trailing p xs)"
  by (auto simp: list_all_iff trailing_def dest: set_takeWhileD)

section \<open>Starting\<close>

fun is_start :: "speech_boundary_event \<Rightarrow> bool" where
  "is_start (SpeechStarted u s) = True"
| "is_start _ = False"

text \<open>The machine between utterances, before it has seen a frame.\<close>

definition vad_idle :: "vad_machine \<Rightarrow> bool" where
  "vad_idle m \<longleftrightarrow> vm_state m = WaitingForSpeech \<and> vm_consecutive_speech_ms m = 0
     \<and> vm_speech_candidate_start_ms m = None \<and> vm_active_utterance_id m = None
     \<and> vm_active_start_ms m = None \<and> vm_waiting_start_ms m = None"

lemma vad_fresh_idle [simp]: "vad_idle (vad_fresh c)"
  by (simp add: vad_idle_def vad_fresh_def)

lemma clear_state_idle [simp]: "vad_idle (clear_state_after_boundary m)"
  by (simp add: vad_idle_def clear_state_after_boundary_def)

definition waiting_after :: "nat \<Rightarrow> vad_input list \<Rightarrow> vad_machine \<Rightarrow> bool" where
  "waiting_after n xs m \<longleftrightarrow> vm_state m = WaitingForSpeech \<and> vm_next_utterance_index m = n
     \<and> (let t = trailing (input_speech (vm_config m)) xs
        in vm_consecutive_speech_ms m = total_ms t
           \<and> (t \<noteq> [] \<longrightarrow> vm_speech_candidate_start_ms m = Some (fr_start_ms (fst (hd t)))))"

text \<open>What one more frame does to a machine that has been waiting since \<open>xs\<close> began.\<close>

definition start_events :: "vad_config \<Rightarrow> nat \<Rightarrow> vad_input list \<Rightarrow> speech_boundary_event list" where
  "start_events c n xs =
     (let t = trailing (input_speech c) xs
      in if t \<noteq> [] \<and> vc_speech_start_ms c \<le> total_ms t
         then [SpeechStarted (utterance_id_of_index n) (fr_start_ms (fst (hd t)))] else [])"

lemma waiting_step:
  assumes w: "waiting_after n xs m" and ok: "list_all vad_input_ok (xs @ [x])"
    and b: "total_ms (xs @ [x]) < u64_limit"
  shows "filter is_start (fst (vad_step m x)) = start_events (vm_config m) n (xs @ [x])"
    and "start_events (vm_config m) n (xs @ [x]) = [] \<Longrightarrow> waiting_after n (xs @ [x]) (snd (vad_step m x))"
proof -
  define t where "t = trailing (input_speech (vm_config m)) xs"
  have st: "vm_state m = WaitingForSpeech" and n: "vm_next_utterance_index m = n"
    and c: "vm_consecutive_speech_ms m = total_ms t"
    and h: "t \<noteq> [] \<Longrightarrow> vm_speech_candidate_start_ms m = Some (fr_start_ms (fst (hd t)))"
    using w by (simp_all add: waiting_after_def Let_def t_def)
  have z: "total_ms t = 0 \<longleftrightarrow> t = []"
  proof -
    have "list_all vad_input_ok t"
      unfolding t_def by (rule list_all_trailing) (use ok in simp)
    then show ?thesis using total_ms_pos [of t] by (cases "t = []") simp_all
  qed
  have s: "u64_add (total_ms t) (frame_duration_ms (fst x)) = total_ms t + frame_duration_ms (fst x)"
    using b total_ms_trailing [of "input_speech (vm_config m)" xs] by (simp add: wrap_simps t_def)
  have d: "frame_duration_ms (fst x) < u64_limit" using b by simp
  note facts = st n c h z s d t_def [symmetric]
  show "filter is_start (fst (vad_step m x)) = start_events (vm_config m) n (xs @ [x])"
    by (cases "input_speech (vm_config m) x")
      (auto simp: vad_step_waiting waiting_defs start_events_def Let_def facts hd_append
        split: option.split)
  show "start_events (vm_config m) n (xs @ [x]) = [] \<Longrightarrow> waiting_after n (xs @ [x]) (snd (vad_step m x))"
    by (cases "input_speech (vm_config m) x")
      (auto simp: vad_step_waiting waiting_defs waiting_after_def start_events_def Let_def facts
        hd_append split: option.split if_splits)
qed

lemma waiting_run:
  assumes "vad_idle m" and "list_all vad_input_ok xs" and "total_ms xs < u64_limit"
    and "filter is_start (concat (fst (run vad_step m xs))) = []"
  shows "waiting_after (vm_next_utterance_index m) xs (snd (run vad_step m xs))"
  using assms(2-4)
proof (induction xs rule: rev_induct)
  case Nil
  then show ?case using assms(1) by (simp add: waiting_after_def vad_idle_def)
next
  case (snoc x xs)
  let ?m = "snd (run vad_step m xs)"
  have w: "waiting_after (vm_next_utterance_index m) xs ?m"
    using snoc by (simp add: run_append)
  have "filter is_start (fst (vad_step ?m x)) = []"
    using snoc.prems by (simp add: run_append)
  then show ?case
    using waiting_step [OF w snoc.prems(1,2)] by (simp add: run_append)
qed

section \<open>Stopping\<close>

text \<open>The machine in an utterance whose last frame was speech.\<close>

definition vad_speaking :: "transcript_utterance_id \<Rightarrow> nat \<Rightarrow> vad_machine \<Rightarrow> bool" where
  "vad_speaking u s m \<longleftrightarrow> vm_state m = InSpeech \<and> vm_active_utterance_id m = Some u
     \<and> vm_active_start_ms m = Some s \<and> vm_consecutive_silence_ms m = 0"

definition speaking_after ::
  "transcript_utterance_id \<Rightarrow> nat \<Rightarrow> vad_input list \<Rightarrow> vad_machine \<Rightarrow> bool" where
  "speaking_after u s xs m \<longleftrightarrow> vm_state m = InSpeech \<and> vm_active_utterance_id m = Some u
     \<and> vm_active_start_ms m = Some s
     \<and> vm_consecutive_silence_ms m
         = total_ms (trailing (\<lambda>x. \<not> input_speech (vm_config m) x) xs)"

definition stop_events ::
  "vad_config \<Rightarrow> transcript_utterance_id \<Rightarrow> nat \<Rightarrow> vad_input list \<Rightarrow> speech_boundary_event list" where
  "stop_events c u s xs =
     (let t = trailing (\<lambda>x. \<not> input_speech c x) xs; e = frame_end_ms (fst (last xs))
      in if t \<noteq> [] \<and> vc_speech_stop_ms c \<le> total_ms t then [SpeechStopped u s e]
         else case vc_max_utterance_ms c of
                Some mx \<Rightarrow> if mx \<le> e - s then [MaxUtterance u s e] else []
              | None \<Rightarrow> [])"

lemma speaking_step:
  assumes w: "speaking_after u s xs m" and b: "total_ms (xs @ [x]) < u64_limit"
  shows "fst (vad_step m x) = stop_events (vm_config m) u s (xs @ [x])"
    and "stop_events (vm_config m) u s (xs @ [x]) = [] \<Longrightarrow> speaking_after u s (xs @ [x]) (snd (vad_step m x))"
    and "stop_events (vm_config m) u s (xs @ [x]) \<noteq> [] \<Longrightarrow> vad_idle (snd (vad_step m x))"
proof -
  define t where "t = trailing (\<lambda>x. \<not> input_speech (vm_config m) x) xs"
  have st: "vm_state m = InSpeech" "vm_active_utterance_id m = Some u" "vm_active_start_ms m = Some s"
    and c: "vm_consecutive_silence_ms m = total_ms t"
    using w by (simp_all add: speaking_after_def t_def)
  have sum: "u64_add (total_ms t) (frame_duration_ms (fst x)) = total_ms t + frame_duration_ms (fst x)"
    using b total_ms_trailing [of "\<lambda>x. \<not> input_speech (vm_config m) x" xs]
    by (simp add: wrap_simps t_def)
  note facts = st c sum t_def [symmetric]
  note defs = process_in_speech_def max_utterance_event_def push_stop_and_reset_def stop_event_def
    reached_max_utterance_def stop_events_def Let_def
  show "fst (vad_step m x) = stop_events (vm_config m) u s (xs @ [x])"
    by (cases "input_speech (vm_config m) x")
      (auto simp: vad_step_in_speech defs facts split: option.split)
  show "stop_events (vm_config m) u s (xs @ [x]) = [] \<Longrightarrow> speaking_after u s (xs @ [x]) (snd (vad_step m x))"
    by (cases "input_speech (vm_config m) x")
      (auto simp: vad_step_in_speech defs facts speaking_after_def split: option.split if_splits)
  show "stop_events (vm_config m) u s (xs @ [x]) \<noteq> [] \<Longrightarrow> vad_idle (snd (vad_step m x))"
    by (cases "input_speech (vm_config m) x")
      (auto simp: vad_step_in_speech defs facts split: option.split if_splits)
qed

lemma speaking_run:
  assumes "vad_speaking u s m" and "total_ms xs < u64_limit"
    and "concat (fst (run vad_step m xs)) = []"
  shows "speaking_after u s xs (snd (run vad_step m xs))"
  using assms(2,3)
proof (induction xs rule: rev_induct)
  case Nil
  then show ?case using assms(1) by (simp add: speaking_after_def vad_speaking_def)
next
  case (snoc x xs)
  have w: "speaking_after u s xs (snd (run vad_step m xs))"
    using snoc by (simp add: run_append)
  have "fst (vad_step (snd (run vad_step m xs)) x) = []"
    using snoc.prems by (simp add: run_append)
  then show ?case
    using speaking_step [OF w snoc.prems(1)] by (simp add: run_append)
qed

lemma start_speaking:
  "waiting_after n xs m \<Longrightarrow> SpeechStarted u s \<in> set (fst (vad_step m x)) \<Longrightarrow> vad_speaking u s (snd (vad_step m x))"
  by (cases "input_speech (vm_config m) x")
    (auto simp: waiting_after_def vad_step_waiting waiting_defs vad_speaking_def Let_def
      split: option.splits if_splits)


section \<open>Identities and timeouts\<close>

fun started_id :: "speech_boundary_event \<Rightarrow> transcript_utterance_id list" where
  "started_id (SpeechStarted u s) = [u]"
| "started_id _ = []"

definition started_ids :: "speech_boundary_event list \<Rightarrow> transcript_utterance_id list" where
  "started_ids es = concat (map started_id es)"

lemma started_ids_append [simp]: "started_ids (xs @ ys) = started_ids xs @ started_ids ys"
  by (simp add: started_ids_def)

lemma vad_step_ids:
  "started_ids (fst (vad_step m x)) = [] \<and> vm_next_utterance_index (snd (vad_step m x)) = vm_next_utterance_index m
   \<or> started_ids (fst (vad_step m x)) = [utterance_id_of_index (vm_next_utterance_index m)]
     \<and> vm_next_utterance_index (snd (vad_step m x)) = u64_add (vm_next_utterance_index m) 1"
proof (cases "vm_state m")
  case WaitingForSpeech
  then show ?thesis
    by (cases "input_speech (vm_config m) x")
      (auto simp: vad_step_waiting waiting_defs Let_def started_ids_def split: option.split)
next
  case InSpeech
  then show ?thesis
    by (auto simp: vad_step_in_speech in_speech_defs Let_def started_ids_def split: option.split)
qed (simp add: vad_step_closed started_ids_def)

lemma vad_run_ids:
  "vm_next_utterance_index m + length xs < u64_limit \<Longrightarrow>
   \<exists>k \<le> length xs. started_ids (concat (fst (run vad_step m xs)))
       = map utterance_id_of_index [vm_next_utterance_index m ..< vm_next_utterance_index m + k]
     \<and> vm_next_utterance_index (snd (run vad_step m xs)) = vm_next_utterance_index m + k"
proof (induction xs rule: rev_induct)
  case Nil
  then show ?case by (simp add: started_ids_def)
next
  case (snoc x xs)
  let ?n = "vm_next_utterance_index m" and ?m = "snd (run vad_step m xs)"
  obtain k where k: "k \<le> length xs"
      "started_ids (concat (fst (run vad_step m xs))) = map utterance_id_of_index [?n ..< ?n + k]"
      "vm_next_utterance_index ?m = ?n + k"
    using snoc by auto
  have "u64_add (?n + k) 1 = ?n + Suc k" using k(1) snoc.prems by (simp add: wrap_simps)
  then show ?case
    using vad_step_ids [of ?m x] k
    by (elim disjE; intro exI [where x = k] exI [where x = "Suc k"])
      (simp_all add: run_append started_ids_def)
qed

lemma utterance_id_of_index_inject [simp]: "utterance_id_of_index m = utterance_id_of_index n \<longleftrightarrow> m = n"
  by (simp add: utterance_id_of_index_def)

lemma distinct_utterance_ids: "distinct (map utterance_id_of_index [m ..< n])"
  by (simp add: distinct_map inj_on_def)

text \<open>The timeout is reported at most once, and never after speech has started.\<close>

fun timeout_ok :: "bool \<Rightarrow> speech_boundary_event list \<Rightarrow> bool" where
  "timeout_ok quiet [] = True"
| "timeout_ok quiet (NoSpeechTimeout t e # es) = (\<not> quiet \<and> timeout_ok True es)"
| "timeout_ok quiet (SpeechStarted u s # es) = timeout_ok True es"
| "timeout_ok quiet (_ # es) = timeout_ok quiet es"

fun timeout_quiet :: "bool \<Rightarrow> speech_boundary_event \<Rightarrow> bool" where
  "timeout_quiet quiet (NoSpeechTimeout t e) = True"
| "timeout_quiet quiet (SpeechStarted u s) = True"
| "timeout_quiet quiet _ = quiet"

lemma timeout_ok_append:
  "timeout_ok q (xs @ ys) \<longleftrightarrow> timeout_ok q xs \<and> timeout_ok (foldl timeout_quiet q xs) ys"
  by (induction q xs rule: timeout_ok.induct) auto

definition vad_quiet :: "vad_machine \<Rightarrow> bool" where
  "vad_quiet m \<longleftrightarrow> vm_speech_started_once m \<or> vm_no_speech_timeout_emitted m"

lemma vad_step_timeout:
  "timeout_ok (vad_quiet m) (fst (vad_step m x))
   \<and> vad_quiet (snd (vad_step m x)) = foldl timeout_quiet (vad_quiet m) (fst (vad_step m x))"
proof (cases "vm_state m")
  case WaitingForSpeech
  then show ?thesis
    by (cases "input_speech (vm_config m) x")
      (auto simp: vad_step_waiting waiting_defs vad_quiet_def Let_def split: option.split)
next
  case InSpeech
  then show ?thesis
    by (auto simp: vad_step_in_speech in_speech_defs vad_quiet_def Let_def split: option.split)
qed (simp add: vad_step_closed)

lemma vad_run_timeout: "timeout_ok (vad_quiet m) (concat (fst (run vad_step m xs)))"
  by (induction xs arbitrary: m) (simp_all add: timeout_ok_append vad_step_timeout [THEN conjunct1]
      vad_step_timeout [THEN conjunct2, symmetric])

section \<open>Length of an utterance\<close>

fun contiguous :: "nat \<Rightarrow> realtime_audio_frame list \<Rightarrow> bool" where
  "contiguous t [] = True"
| "contiguous t (f # fs) = (fr_start_ms f = t \<and> contiguous (t + frame_duration_ms f) fs)"

fun boundary_span_ok :: "nat \<Rightarrow> nat \<Rightarrow> speech_boundary_event \<Rightarrow> bool" where
  "boundary_span_ok lo hi (SpeechStopped u s e) = (s + lo \<le> e \<and> e < s + hi)"
| "boundary_span_ok lo hi (MaxUtterance u s e) = (s + lo \<le> e \<and> e < s + hi)"
| "boundary_span_ok lo hi _ = True"

text \<open>At time \<open>t\<close> the recorded start lies as far back as the speech that was counted.\<close>

definition vad_timed :: "nat \<Rightarrow> nat \<Rightarrow> vad_machine \<Rightarrow> bool" where
  "vad_timed mx t m \<longleftrightarrow> (case vm_state m of
       WaitingForSpeech \<Rightarrow> vm_consecutive_speech_ms m < vc_speech_start_ms (vm_config m)
         \<and> (vm_consecutive_speech_ms m \<noteq> 0 \<longrightarrow> (\<exists>s. vm_speech_candidate_start_ms m = Some s
              \<and> s + vm_consecutive_speech_ms m = t))
     | InSpeech \<Rightarrow> (\<exists>u s. vm_active_utterance_id m = Some u \<and> vm_active_start_ms m = Some s
         \<and> s + vc_speech_start_ms (vm_config m) \<le> t
         \<and> t < s + max mx (vc_speech_start_ms (vm_config m) + 30))
     | VadClosed \<Rightarrow> True)"

lemma vad_timed_step:
  assumes m: "vad_timed mx t m" and mx: "vc_max_utterance_ms (vm_config m) = Some mx"
    and s0: "0 < vc_speech_start_ms (vm_config m)"
    and x: "vad_input_ok x" "fr_start_ms (fst x) = t" "t + frame_duration_ms (fst x) < u64_limit"
  shows "vad_timed mx (t + frame_duration_ms (fst x)) (snd (vad_step m x))
    \<and> list_all (boundary_span_ok (vc_speech_start_ms (vm_config m))
        (max mx (vc_speech_start_ms (vm_config m) + 30) + 30)) (fst (vad_step m x))"
proof -
  define d where "d = frame_duration_ms (fst x)"
  have d: "0 < d" "d \<le> 30" using x(1)
    by (simp_all add: d_def vad_input_ok_def frame_duration_ms_pos frame_duration_ms_le)
  have e: "frame_end_ms (fst x) = t + d" using x by (simp add: d_def wrap_simps)
  have sum: "u64_add c d = c + d" if "c \<le> t" for c
    using that x(3) by (simp add: d_def wrap_simps)
  show ?thesis
  proof (cases "vm_state m")
    case WaitingForSpeech
    have c: "vm_consecutive_speech_ms m \<le> t"
      using m WaitingForSpeech by (auto simp: vad_timed_def)
    show ?thesis
      using m WaitingForSpeech d s0 x(2) sum [of 0]
      by (cases "input_speech (vm_config m) x")
        (auto simp: vad_step_waiting waiting_defs vad_timed_def Let_def e sum [OF c] d_def [symmetric]
          split: option.split)
  next
    case InSpeech
    then show ?thesis
      using m mx d s0
      by (auto simp: vad_step_in_speech in_speech_defs reached_max_utterance_def vad_timed_def Let_def e
          d_def [symmetric])
  qed (simp add: vad_step_closed vad_timed_def)
qed

lemma vad_timed_run:
  assumes "vad_timed mx t m" and "vc_max_utterance_ms (vm_config m) = Some mx"
    and "0 < vc_speech_start_ms (vm_config m)" and "list_all vad_input_ok xs"
    and "contiguous t (map fst xs)" and "t + total_ms xs < u64_limit"
  shows "list_all (boundary_span_ok (vc_speech_start_ms (vm_config m))
      (max mx (vc_speech_start_ms (vm_config m) + 30) + 30)) (concat (fst (run vad_step m xs)))"
  using assms
proof (induction xs arbitrary: m t)
  case (Cons x xs)
  have "vad_timed mx (t + frame_duration_ms (fst x)) (snd (vad_step m x))"
    and e: "list_all (boundary_span_ok (vc_speech_start_ms (vm_config m))
        (max mx (vc_speech_start_ms (vm_config m) + 30) + 30)) (fst (vad_step m x))"
    using vad_timed_step [OF Cons.prems(1-3), of x] Cons.prems(4-6) by simp_all
  then have "list_all (boundary_span_ok (vc_speech_start_ms (vm_config m))
      (max mx (vc_speech_start_ms (vm_config m) + 30) + 30))
      (concat (fst (run vad_step (snd (vad_step m x)) xs)))"
    using Cons.IH [of "t + frame_duration_ms (fst x)" "snd (vad_step m x)"] Cons.prems by simp
  with e show ?case by simp
qed simp

lemma vad_fresh_timed: "0 < vc_speech_start_ms c \<Longrightarrow> vad_timed mx t (vad_fresh c)"
  by (simp add: vad_timed_def vad_fresh_def)

lemma vad_new_ok_iff:
  "vad_new c = Inr m \<longleftrightarrow> m = vad_fresh c \<and> 0 < vc_frame_duration_ms c \<and> 0 < vc_speech_start_ms c
     \<and> 0 < vc_speech_stop_ms c \<and> f32_in_unit (vc_energy_threshold c)"
  by (auto simp: vad_new_def vad_config_validate_def)


section \<open>Properties\<close>

text \<open>
  C2. An utterance starts exactly on sustained speech: while a machine that was idle has not
  started an utterance, the next frame starts one if and only if the trailing run of speech
  frames, this frame included, lasts at least \<open>speech_start_ms\<close>; the utterance then takes the
  next identity and begins at the first frame of that run, not at the frame that confirmed it.
\<close>

theorem vad_starts_on_sustained_speech:
  assumes "vad_idle m" and "list_all vad_input_ok (xs @ [x])" and "total_ms (xs @ [x]) < u64_limit"
    and "filter is_start (concat (fst (run vad_step m xs))) = []"
  shows "filter is_start (fst (vad_step (snd (run vad_step m xs)) x))
    = (let t = trailing (input_speech (vm_config m)) (xs @ [x])
       in if t \<noteq> [] \<and> vc_speech_start_ms (vm_config m) \<le> total_ms t
          then [SpeechStarted (utterance_id_of_index (vm_next_utterance_index m)) (fr_start_ms (fst (hd t)))]
          else [])"
  using waiting_step(1) [OF waiting_run, OF assms(1) _ _ assms(4) assms(2,3)] assms(2,3)
  by (simp add: start_events_def Let_def)

definition short_vad_config :: vad_config where
  "short_vad_config = vad_config_default\<lparr>vc_speech_start_ms := 40, vc_speech_stop_ms := 40\<rparr>"

lemmas vad_eval = vad_step_eq process_state_def waiting_defs in_speech_defs short_vad_config_def
  vad_config_default_def vad_fresh_def input_speech_def decision_speech_def decision_silence_def
  reached_max_utterance_def reached_no_speech_timeout_def u64_add_def

theorem vad_starts_on_sustained_speech_witness:
  "filter is_start (fst (vad_step (snd (run vad_step (vad_fresh short_vad_config)
       [(sample_frame 0, decision_silence), (sample_frame 1, decision_speech)]))
       (sample_frame 2, decision_speech)))
     = [SpeechStarted (utterance_id_of_index 1) 20]"
  using vad_starts_on_sustained_speech [of "vad_fresh short_vad_config"
      "[(sample_frame 0, decision_silence), (sample_frame 1, decision_speech)]"
      "(sample_frame 2, decision_speech)"]
  by (simp add: vad_eval vad_input_ok_def trailing_def)

text \<open>
  C3. An utterance ends exactly on sustained silence or at the length limit: while an open
  utterance has produced no event, the next frame stops it if and only if the trailing run of
  silence, this frame included, lasts at least \<open>speech_stop_ms\<close>; otherwise it is cut if and
  only if it has reached \<open>max_utterance_ms\<close>; otherwise nothing is reported.
\<close>

theorem vad_stops_on_sustained_silence:
  assumes "vad_speaking u s m" and "total_ms (xs @ [x]) < u64_limit"
    and "concat (fst (run vad_step m xs)) = []"
  shows "fst (vad_step (snd (run vad_step m xs)) x)
    = (let t = trailing (\<lambda>y. \<not> input_speech (vm_config m) y) (xs @ [x]); e = frame_end_ms (fst x)
       in if t \<noteq> [] \<and> vc_speech_stop_ms (vm_config m) \<le> total_ms t then [SpeechStopped u s e]
          else case vc_max_utterance_ms (vm_config m) of
                 Some mx \<Rightarrow> if mx \<le> e - s then [MaxUtterance u s e] else []
               | None \<Rightarrow> [])"
  using speaking_step(1) [OF speaking_run, OF assms(1) _ assms(3,2)] assms(2)
  by (simp add: stop_events_def Let_def)

theorem vad_stops_on_sustained_silence_witness:
  "fst (vad_step (snd (run vad_step (snd (run vad_step (vad_fresh short_vad_config)
         [(sample_frame 0, decision_speech), (sample_frame 1, decision_speech)]))
       [(sample_frame 2, decision_speech), (sample_frame 3, decision_silence)]))
       (sample_frame 4, decision_silence))
     = [SpeechStopped (utterance_id_of_index 1) 0 100]"
  using vad_stops_on_sustained_silence [of "utterance_id_of_index 1" 0
      "snd (run vad_step (vad_fresh short_vad_config)
         [(sample_frame 0, decision_speech), (sample_frame 1, decision_speech)])"
      "[(sample_frame 2, decision_speech), (sample_frame 3, decision_silence)]"
      "(sample_frame 4, decision_silence)"]
  by (simp add: vad_eval vad_speaking_def trailing_def)

text \<open>
  Whatever frames and decisions a machine is given, its events are well bracketed (an
  utterance is stopped with the identity and start time it was started with, before the next
  one starts) and no utterance identity is used twice.
\<close>

theorem vad_events_bracketed:
  assumes "vad_new c = Inr m" and "list_all vad_input_ok xs" and "length xs < u64_max"
  shows "boundaries_ok None (concat (fst (run vad_step m xs)))
    \<and> distinct (started_ids (concat (fst (run vad_step m xs))))"
proof -
  have m: "m = vad_fresh c" using assms(1) by (simp add: vad_new_ok_iff)
  have "vm_next_utterance_index m + length xs < u64_limit"
    using assms(3) by (simp add: m vad_fresh_def)
  from vad_run_ids [OF this] show ?thesis
    using vad.run_boundaries [OF _ assms(2), of m]
    by (auto simp: m distinct_utterance_ids simp del: map_upt_Suc)
qed

theorem vad_events_bracketed_witness:
  "boundaries_ok None (concat (fst (run vad_step (vad_fresh short_vad_config)
     [(sample_frame 0, decision_speech), (sample_frame 1, decision_speech)])))"
  using vad_events_bracketed [of short_vad_config "vad_fresh short_vad_config"
      "[(sample_frame 0, decision_speech), (sample_frame 1, decision_speech)]"]
  by (simp add: vad_new_ok_iff short_vad_config_def vad_config_default_def f32_in_unit_def vad_input_ok_def)

text \<open>
  A session is told about missing speech at most once, and never after speech has
  started, however long the silence lasts.
\<close>

theorem vad_no_speech_timeout_once:
  "timeout_ok False (concat (fst (run vad_step (vad_fresh c) xs)))"
  using vad_run_timeout [of "vad_fresh c" xs] by (simp add: vad_quiet_def vad_fresh_def)

text \<open>
  On contiguous audio every utterance lasts at least \<open>speech_start_ms\<close>, and with a limit
  \<open>max_utterance_ms\<close> it exceeds neither the limit nor the confirmation time by more than the
  length of the frames that detect it.
\<close>

theorem vad_utterance_length:
  assumes "vad_new c = Inr m" and "vc_max_utterance_ms c = Some mx" and "list_all vad_input_ok xs"
    and "contiguous t (map fst xs)" and "t + total_ms xs < u64_limit"
  shows "list_all (boundary_span_ok (vc_speech_start_ms c) (max mx (vc_speech_start_ms c + 30) + 30))
    (concat (fst (run vad_step m xs)))"
  using vad_timed_run [of mx t m xs] vad_fresh_timed [of c mx t] assms
  by (simp add: vad_new_ok_iff vad_fresh_def)

theorem vad_utterance_length_witness:
  "list_all (boundary_span_ok 40 30030) (concat (fst (run vad_step (vad_fresh short_vad_config)
     [(sample_frame 0, decision_speech), (sample_frame 1, decision_speech),
      (sample_frame 2, decision_silence), (sample_frame 3, decision_silence)])))"
  using vad_utterance_length [of short_vad_config "vad_fresh short_vad_config" 30000
      "[(sample_frame 0, decision_speech), (sample_frame 1, decision_speech),
        (sample_frame 2, decision_silence), (sample_frame 3, decision_silence)]" 0]
  by (simp add: vad_new_ok_iff short_vad_config_def vad_config_default_def f32_in_unit_def vad_input_ok_def)

end
