(* ===== verification/Realtime_Pipeline.thy ===== *)
theory Realtime_Pipeline
  imports Utterance_Buffer Vad_Properties
begin

text \<open>
  The voice activity machine and the utterance buffer in lock step, as a session drives them
  (\<open>process_frame\<close> of the live client and of the server's websocket session: the boundaries of
  a frame are computed first and handed to \<open>push_frame\<close> with the frame).
\<close>

section \<open>One endpointer and one buffer\<close>

definition pipeline_step ::
  "('s \<Rightarrow> 'i \<Rightarrow> speech_boundary_event list \<times> 's) \<Rightarrow> ('i \<Rightarrow> realtime_audio_frame) \<Rightarrow> 's \<times> realtime_buffer \<Rightarrow> 'i
     \<Rightarrow> (speech_boundary_event list \<times> (realtime_buffer_error + buffered_utterance list)) \<times> ('s \<times> realtime_buffer)" where
  "pipeline_step step frame_of sb x =
     (let (boundaries, s') = step (fst sb) x;
          (r, b') = push_frame (snd sb) (frame_of x) boundaries
      in ((boundaries, r), (s', b')))"

definition completions :: "speech_boundary_event list \<Rightarrow> (transcript_utterance_id \<times> nat \<times> utterance_end_reason) list" where
  "completions es = List.map_filter boundary_completion es"

definition utterance_key :: "buffered_utterance \<Rightarrow> transcript_utterance_id \<times> nat \<times> utterance_end_reason" where
  "utterance_key u = (bu_utterance_id u, bu_end_ms u, bu_reason u)"

lemma completions_append [simp]: "completions (xs @ ys) = completions xs @ completions ys"
  by (simp add: completions_def map_filter_def)

fun ok_utterances :: "'e + buffered_utterance list \<Rightarrow> buffered_utterance list" where
  "ok_utterances (Inr us) = us"
| "ok_utterances (Inl e) = []"

text \<open>The buffer follows the boundaries of an endpointer it is in step with.\<close>

lemma view_follows_boundaries:
  assumes "boundaries_ok (view_open v) es" and "length es \<le> 1"
  shows "view_open (snd (view_completed es (view_ingest ms v f es))) = foldl boundary_open (view_open v) es"
    and "map utterance_key (fst (view_completed es (view_ingest ms v f es))) = completions es"
proof -
  consider "es = []" | e where "es = [e]"
    using assms(2) by (cases es) (auto simp: le_Suc_eq)
  then have "view_open (snd (view_completed es (view_ingest ms v f es))) = foldl boundary_open (view_open v) es
    \<and> map utterance_key (fst (view_completed es (view_ingest ms v f es))) = completions es"
  proof cases
    case 1
    then show ?thesis by (cases v) (simp_all add: view_completed_def completions_def map_filter_def)
  next
    case (2 e)
    with assms(1) show ?thesis
      by (cases v; cases e)
        (simp_all add: view_completed_def completions_def map_filter_def utterance_key_def)
  qed
  then show "view_open (snd (view_completed es (view_ingest ms v f es))) = foldl boundary_open (view_open v) es"
    and "map utterance_key (fst (view_completed es (view_ingest ms v f es))) = completions es"
    by blast+
qed

context endpointer
begin

definition in_step :: "realtime_buffer_config \<Rightarrow> 's \<times> realtime_buffer \<Rightarrow> bool" where
  "in_step c sb \<longleftrightarrow> inv (fst sb)
     \<and> (\<exists>lo v. snd sb = buffer_of c lo v \<and> view_open v = open_utterance (fst sb))"

lemma pipeline_step_in_step:
  assumes "in_step c sb" and "allowed x" and "is_ok (snd (fst (pipeline_step step frame_of sb x)))"
  shows "in_step c (snd (pipeline_step step frame_of sb x))"
    and "map utterance_key (ok_utterances (snd (fst (pipeline_step step frame_of sb x))))
      = completions (fst (fst (pipeline_step step frame_of sb x)))"
proof -
  obtain s b where sb: "sb = (s, b)" by (cases sb)
  obtain es s' where st: "step s x = (es, s')" by (cases "step s x")
  obtain lo v where v: "b = buffer_of c lo v" "view_open v = open_utterance s" and i: "inv s"
    using assms(1) by (auto simp: in_step_def sb)
  let ?v = "view_ingest (bc_pre_roll_ms c) v (frame_of x) es"
  have es: "boundaries_ok (view_open v) es" "length es \<le> 1"
    using step_boundaries [OF i assms(2)] step_single [OF i assms(2)] v by (simp_all add: st)
  have cap: "ensure_capacity c (view_stored (bc_pre_roll_ms c) ?v) = Inr ()"
    using assms(3) v by (auto simp: pipeline_step_def sb st push_frame_view Let_def split: sum.splits prod.splits)
  have p: "pipeline_step step frame_of sb x = ((es, Inr (fst (view_completed es ?v))), (s', buffer_of c lo (snd (view_completed es ?v))))"
    using v cap by (simp add: pipeline_step_def sb st push_frame_view Let_def)
  show "in_step c (snd (pipeline_step step frame_of sb x))"
    using step_inv [OF i assms(2)] step_open [OF i assms(2)] view_follows_boundaries(1) [OF es] v
    unfolding p by (auto simp: in_step_def st)
  show "map utterance_key (ok_utterances (snd (fst (pipeline_step step frame_of sb x))))
      = completions (fst (fst (pipeline_step step frame_of sb x)))"
    using view_follows_boundaries(2) [OF es] unfolding p by simp
qed

lemma pipeline_run_completions:
  assumes "in_step c sb" and "list_all allowed xs"
    and "list_all (\<lambda>y. is_ok (snd y)) (fst (run (pipeline_step step frame_of) sb xs))"
  shows "map utterance_key (concat (map (\<lambda>y. ok_utterances (snd y)) (fst (run (pipeline_step step frame_of) sb xs))))
    = completions (concat (map fst (fst (run (pipeline_step step frame_of) sb xs))))
    \<and> in_step c (snd (run (pipeline_step step frame_of) sb xs))"
  using assms
proof (induction xs arbitrary: sb)
  case (Cons x xs)
  then show ?case
    using pipeline_step_in_step [OF Cons.prems(1), of x frame_of]
    by (simp add: Cons.IH)
qed (simp add: completions_def map_filter_def)

end


section \<open>The session's own pipeline\<close>

abbreviation vad_pipeline where
  "vad_pipeline \<equiv> pipeline_step vad_step fst"

definition pipeline_start :: "vad_config \<Rightarrow> realtime_buffer_config \<Rightarrow> vad_machine \<times> realtime_buffer" where
  "pipeline_start vc bc = (vad_fresh vc, buffer_of bc None (Idle []))"

lemma pipeline_start_in_step: "vad.in_step bc (pipeline_start vc bc)"
  by (auto simp: vad.in_step_def pipeline_start_def intro!: exI [of _ None] exI [of _ "Idle []"])

text \<open>A frame as \<open>RealtimeAudioFrame::new\<close> makes it, of at least \<open>d\<close> and at most \<open>D\<close> ms.\<close>

definition frame_between :: "nat \<Rightarrow> nat \<Rightarrow> realtime_audio_frame \<Rightarrow> bool" where
  "frame_between d D f \<longleftrightarrow> valid_frame f \<and> d \<le> frame_duration_ms f \<and> frame_duration_ms f \<le> D"

text \<open>
  Timing: at time \<open>t\<close> the frames held end at \<open>t\<close> without a gap, an idle buffer has seen all
  the speech that the machine has counted, and the audio of an open utterance reaches back to
  its start but not further than the pre-roll allows. An utterance that goes on has either just
  been confirmed or is shorter than the limit \<open>mx\<close>.
\<close>

definition timed_view :: "vad_config \<Rightarrow> nat \<Rightarrow> nat \<Rightarrow> nat \<Rightarrow> nat \<Rightarrow> nat \<Rightarrow> vad_machine \<Rightarrow> buffer_view \<Rightarrow> bool" where
  "timed_view c mx d D pre t m v \<longleftrightarrow> (case v of
       Idle h \<Rightarrow> vm_state m = WaitingForSpeech \<and> list_all (frame_between d D) h
         \<and> frames_ms h \<le> t \<and> contiguous (t - frames_ms h) h
         \<and> vm_consecutive_speech_ms m \<le> frames_ms h
     | Recording u s fs \<Rightarrow> vm_state m = InSpeech \<and> vm_active_start_ms m = Some s
         \<and> fs \<noteq> [] \<and> list_all (frame_between d D) fs \<and> frames_ms fs \<le> t \<and> contiguous (t - frames_ms fs) fs
         \<and> frames_ms fs + s + (vc_speech_start_ms c - D) < t + pre + D
         \<and> (frames_ms fs < pre + 2 * D \<or> t < s + mx)
         \<and> (vc_speech_start_ms c \<le> pre \<longrightarrow> t \<le> s + frames_ms fs))"

lemma contiguous_append:
  "contiguous t (xs @ ys) \<longleftrightarrow> contiguous t xs \<and> contiguous (t + frames_ms xs) ys"
  by (induction xs arbitrary: t) (auto simp: add.assoc)

lemma contiguous_suffix:
  "suffix ys xs \<Longrightarrow> frames_ms xs \<le> t \<Longrightarrow> contiguous (t - frames_ms xs) xs \<Longrightarrow> contiguous (t - frames_ms ys) ys"
  by (auto simp: suffix_def contiguous_append)

lemma frames_ms_suffix: "suffix ys xs \<Longrightarrow> frames_ms ys \<le> frames_ms xs"
  by (auto simp: suffix_def)

lemma trim_pre_roll_ms_less:
  assumes "list_all (frame_between d D) h" and "0 < D"
  shows "frames_ms (trim_pre_roll h pre) < pre + D"
proof (cases "trim_pre_roll h pre")
  case (Cons f fs)
  then have "0 < pre" by (cases "pre = 0") simp_all
  moreover have "frame_between d D f"
    using list_all_suffix [OF trim_pre_roll_suffix assms(1), of pre] Cons by simp
  ultimately show ?thesis
    using trim_pre_roll_minimal [of pre h] Cons by (simp add: frame_between_def)
qed (use assms in simp)

text \<open>The pre-roll of an idle buffer: bounded, and it covers the speech counted so far.\<close>

lemma pre_roll_timing:
  assumes h: "list_all (frame_between d D) h" "frames_ms h \<le> t" "contiguous (t - frames_ms h) h"
    and c: "c \<le> frames_ms h"
  shows "0 < D \<Longrightarrow> frames_ms (trim_pre_roll h pre) < pre + D"
    and "frames_ms (trim_pre_roll h pre) \<le> t"
    and "contiguous (t - frames_ms (trim_pre_roll h pre)) (trim_pre_roll h pre)"
    and "list_all (frame_between d D) (trim_pre_roll h pre)"
    and "0 < pre \<Longrightarrow> c \<le> pre \<Longrightarrow> c \<le> frames_ms (trim_pre_roll h pre)"
proof -
  note suf = trim_pre_roll_suffix [of h pre]
  show "0 < D \<Longrightarrow> frames_ms (trim_pre_roll h pre) < pre + D"
    by (rule trim_pre_roll_ms_less [OF h(1)])
  show "frames_ms (trim_pre_roll h pre) \<le> t" using frames_ms_suffix [OF suf] h(2) by linarith
  show "contiguous (t - frames_ms (trim_pre_roll h pre)) (trim_pre_roll h pre)"
    by (rule contiguous_suffix [OF suf h(2,3)])
  show "list_all (frame_between d D) (trim_pre_roll h pre)" by (rule list_all_suffix [OF suf h(1)])
  show "0 < pre \<Longrightarrow> c \<le> pre \<Longrightarrow> c \<le> frames_ms (trim_pre_roll h pre)"
    using trim_pre_roll_covers [of pre h] c by auto
qed

lemma contiguous_snoc:
  "fr_start_ms f = t \<Longrightarrow> frames_ms xs \<le> t \<Longrightarrow> contiguous (t - frames_ms xs) xs \<Longrightarrow>
   contiguous (t + frame_duration_ms f - frames_ms (xs @ [f])) (xs @ [f])"
  by (simp add: contiguous_append)


text \<open>The steps of the machine, as far as the buffer's timing depends on them.\<close>

lemma waiting_step_cases:
  assumes m: "vad_timed mx t m" "vm_state m = WaitingForSpeech"
    and x: "fr_start_ms (fst x) = t" "t + frame_duration_ms (fst x) < u64_limit"
  obtains (wait) "vm_state (snd (vad_step m x)) = WaitingForSpeech"
      "fst (vad_step m x) = [] \<or> (\<exists>a e. fst (vad_step m x) = [NoSpeechTimeout a e])"
      "vm_consecutive_speech_ms (snd (vad_step m x)) \<le> vm_consecutive_speech_ms m + frame_duration_ms (fst x)"
  | (start) u s where "fst (vad_step m x) = [SpeechStarted u s]"
      "vm_state (snd (vad_step m x)) = InSpeech" "vm_active_start_ms (snd (vad_step m x)) = Some s"
      "s + vm_consecutive_speech_ms m = t"
      "vc_speech_start_ms (vm_config m) \<le> vm_consecutive_speech_ms m + frame_duration_ms (fst x)"
      "vm_consecutive_speech_ms m < vc_speech_start_ms (vm_config m)"
proof -
  have c: "vm_consecutive_speech_ms m \<le> t" using m by (auto simp: vad_timed_def)
  have d: "frame_duration_ms (fst x) < u64_limit" using x by simp
  have sum: "u64_add (vm_consecutive_speech_ms m) (frame_duration_ms (fst x))
      = vm_consecutive_speech_ms m + frame_duration_ms (fst x)"
    using c x by (simp add: wrap_simps)
  show thesis
  proof (cases "input_speech (vm_config m) x \<and>
      vc_speech_start_ms (vm_config m) \<le> vm_consecutive_speech_ms m + frame_duration_ms (fst x)")
    case True
    show thesis
      by (rule start [of "utterance_id_of_index (vm_next_utterance_index m)" "t - vm_consecutive_speech_ms m"])
        (use True m x c sum d in \<open>auto simp: vad_step_waiting waiting_defs vad_timed_def Let_def split: option.split\<close>)
  next
    case False
    show thesis
      by (rule wait)
        (use False m x c sum d in \<open>auto simp: vad_step_waiting waiting_defs vad_timed_def Let_def split: option.split\<close>)
  qed
qed

lemma in_speech_step_cases:
  assumes "vm_state m = InSpeech" "vm_active_start_ms m = Some s" "vm_active_utterance_id m = Some u"
  obtains (continue) "fst (vad_step m x) = []" "vm_state (snd (vad_step m x)) = InSpeech"
      "vm_active_start_ms (snd (vad_step m x)) = Some s"
      "\<forall>mx. vc_max_utterance_ms (vm_config m) = Some mx \<longrightarrow> frame_end_ms (fst x) - s < mx"
  | (ended) "fst (vad_step m x) = [SpeechStopped u s (frame_end_ms (fst x))]
        \<or> fst (vad_step m x) = [MaxUtterance u s (frame_end_ms (fst x))]"
      "vad_idle (snd (vad_step m x))"
proof (cases "fst (vad_step m x) = []")
  case True
  show thesis
    by (rule continue)
      (use True assms in \<open>auto simp: vad_step_in_speech in_speech_defs reached_max_utterance_def Let_def
        split: option.split if_splits\<close>)
next
  case False
  show thesis
    by (rule ended)
      (use False assms in \<open>auto simp: vad_step_in_speech in_speech_defs vad_idle_def Let_def
        split: option.split if_splits\<close>)
qed

lemma timed_view_step:
  assumes tv: "timed_view (vm_config m) mx d D pre t m v" and tm: "vad_timed mx t m"
    and wf: "vad_wf m" and op: "view_open v = vad_open m" and mx: "vc_max_utterance_ms (vm_config m) = Some mx"
    and x: "frame_between d D (fst x)" "fr_start_ms (fst x) = t" "t + frame_duration_ms (fst x) < u64_limit"
  shows "timed_view (vm_config m) mx d D pre (t + frame_duration_ms (fst x)) (snd (vad_step m x))
     (snd (view_completed (fst (vad_step m x)) (view_ingest pre v (fst x) (fst (vad_step m x)))))"
proof -
  have du: "0 < frame_duration_ms (fst x)" "frame_duration_ms (fst x) \<le> D"
    using x(1) by (simp_all add: frame_between_def frame_duration_ms_pos)
  then have D: "0 < D" by linarith
  show ?thesis
  proof (cases v)
    case (Idle h)
    have h: "list_all (frame_between d D) h" "frames_ms h \<le> t" "contiguous (t - frames_ms h) h"
      "vm_consecutive_speech_ms m \<le> frames_ms h" "vm_state m = WaitingForSpeech"
      using tv by (simp_all add: timed_view_def Idle)
    note pr = pre_roll_timing [OF h(1-4), of pre]
    show ?thesis
    proof (rule waiting_step_cases [OF tm h(5) x(2,3)])
      assume w: "vm_state (snd (vad_step m x)) = WaitingForSpeech"
        "fst (vad_step m x) = [] \<or> (\<exists>a e. fst (vad_step m x) = [NoSpeechTimeout a e])"
        "vm_consecutive_speech_ms (snd (vad_step m x)) \<le> vm_consecutive_speech_ms m + frame_duration_ms (fst x)"
      then show ?thesis
        using h x(1) contiguous_snoc [OF x(2) h(2,3)]
        by (auto simp: Idle timed_view_def view_completed_def)
    next
      fix u s
      assume s: "fst (vad_step m x) = [SpeechStarted u s]"
        "vm_state (snd (vad_step m x)) = InSpeech" "vm_active_start_ms (snd (vad_step m x)) = Some s"
        "s + vm_consecutive_speech_ms m = t"
        "vc_speech_start_ms (vm_config m) \<le> vm_consecutive_speech_ms m + frame_duration_ms (fst x)"
        "vm_consecutive_speech_ms m < vc_speech_start_ms (vm_config m)"
      have cov: "vm_consecutive_speech_ms m \<le> frames_ms (trim_pre_roll h pre)"
        if "vc_speech_start_ms (vm_config m) \<le> pre"
        using pr(5) s(6) that by simp
      have gap: "frames_ms (trim_pre_roll h pre) + s + (vc_speech_start_ms (vm_config m) - D) < t + pre + D"
        using pr(1) [OF D] s(4,5) du(2) by linarith
      show ?thesis
        using s(1-3) pr(1) [OF D] pr(2,4) cov s(4) gap x(1) du contiguous_snoc [OF x(2) pr(2,3)]
        by (auto simp: Idle timed_view_def view_completed_def)
    qed
  next
    case (Recording u s fs)
    have fs: "vm_state m = InSpeech" "vm_active_start_ms m = Some s" "list_all (frame_between d D) fs"
      "frames_ms fs \<le> t" "contiguous (t - frames_ms fs) fs"
      using tv by (simp_all add: timed_view_def Recording)
    have u: "vm_active_utterance_id m = Some u"
      using op wf fs by (auto simp: Recording vad_open_def vad_wf_def)
    show ?thesis
    proof (rule in_speech_step_cases [OF fs(1,2) u, of x])
      assume c: "fst (vad_step m x) = []" "vm_state (snd (vad_step m x)) = InSpeech"
        "vm_active_start_ms (snd (vad_step m x)) = Some s"
        "\<forall>mx. vc_max_utterance_ms (vm_config m) = Some mx \<longrightarrow> frame_end_ms (fst x) - s < mx"
      have "t + frame_duration_ms (fst x) < s + mx" using c(4) mx x(2,3) by (auto simp: wrap_simps)
      then show ?thesis
        using c(1-3) tv fs x(1) contiguous_snoc [OF x(2) fs(4,5)]
        by (auto simp: Recording timed_view_def view_completed_def)
    next
      assume "fst (vad_step m x) = [SpeechStopped u s (frame_end_ms (fst x))]
          \<or> fst (vad_step m x) = [MaxUtterance u s (frame_end_ms (fst x))]"
        "vad_idle (snd (vad_step m x))"
      then show ?thesis
        by (auto simp: Recording timed_view_def view_completed_def vad_idle_def)
    qed
  qed
qed


section \<open>Capacity\<close>

text \<open>
  The audio held at once stays below this bound: the pre-roll, a frame at either end, and the
  utterance limit less the confirmation time (the pre-roll overlaps the speech that confirms a
  start), or one more frame if the confirmation itself reaches the limit.
\<close>

definition held_limit :: "vad_config \<Rightarrow> nat \<Rightarrow> nat \<Rightarrow> nat \<Rightarrow> nat" where
  "held_limit c mx D pre = pre + 2 * D + max (mx - (vc_speech_start_ms c - D)) D"

lemma held_after_ingest:
  assumes tv: "timed_view (vm_config m) mx d D pre t m v" and x: "frame_between d D (fst x)"
  shows "frames_ms (view_stored pre (view_ingest pre v (fst x) es)) < held_limit (vm_config m) mx D pre"
proof -
  have du: "0 < frame_duration_ms (fst x)" "frame_duration_ms (fst x) \<le> D"
    using x by (simp_all add: frame_between_def frame_duration_ms_pos)
  then have D: "0 < D" by linarith
  show ?thesis
  proof (cases v)
    case (Idle h)
    have h: "list_all (frame_between d D) h" "list_all (frame_between d D) (h @ [fst x])"
      using tv x by (simp_all add: timed_view_def Idle)
    show ?thesis
      using trim_pre_roll_ms_less [OF h(1) D, of pre] trim_pre_roll_ms_less [OF h(2) D, of pre] du
      by (auto simp: Idle held_limit_def split: option.split)
  next
    case (Recording u s fs)
    then show ?thesis
      using tv du by (auto simp: timed_view_def held_limit_def)
  qed
qed

lemma frame_between_length: "list_all (frame_between d D) fs \<Longrightarrow> d * length fs \<le> frames_ms fs"
  by (induction fs) (auto simp: frame_between_def)

lemma fits_within:
  assumes "list_all (frame_between d D) fs" and "frames_ms fs < B"
    and "B \<le> d * (bc_max_buffered_frames bc + 1)" and "16 * B \<le> bc_max_buffered_samples bc + 16"
  shows "ensure_capacity bc fs = Inr ()"
proof -
  have "d * length fs < d * (bc_max_buffered_frames bc + 1)"
    using frame_between_length [OF assms(1)] assms(2,3) by linarith
  then have "length fs \<le> bc_max_buffered_frames bc" unfolding mult_less_cancel1 by simp
  moreover have "buffered_samples fs = 16 * frames_ms fs"
    using assms(1) by (intro buffered_samples_valid) (auto simp: list_all_iff frame_between_def)
  ultimately show ?thesis using assms(2,4) by (auto simp: ensure_capacity_ok_iff)
qed

section \<open>Runs\<close>

definition utterance_covers :: "nat \<Rightarrow> nat \<Rightarrow> buffered_utterance \<Rightarrow> bool" where
  "utterance_covers s e u \<longleftrightarrow> bu_start_ms u \<le> s \<and> bu_end_ms u = e \<and> bu_frames u \<noteq> []
     \<and> contiguous (bu_start_ms u) (bu_frames u) \<and> bu_start_ms u + frames_ms (bu_frames u) = e"

text \<open>What one step hands out, measured against the boundary it was handed.\<close>

fun step_output_ok ::
  "speech_boundary_event list \<times> (realtime_buffer_error + buffered_utterance list) \<Rightarrow> bool" where
  "step_output_ok ([SpeechStopped u s e], Inr [x]) = (bu_utterance_id x = u \<and> utterance_covers s e x)"
| "step_output_ok ([MaxUtterance u s e], Inr [x]) = (bu_utterance_id x = u \<and> utterance_covers s e x)"
| "step_output_ok ([SpeechStopped u s e], _) = False"
| "step_output_ok ([MaxUtterance u s e], _) = False"
| "step_output_ok (_, Inr us) = (us = [])"
| "step_output_ok (_, Inl e) = False"

definition timed_state ::
  "vad_config \<Rightarrow> realtime_buffer_config \<Rightarrow> nat \<Rightarrow> nat \<Rightarrow> nat \<Rightarrow> nat \<Rightarrow> vad_machine \<times> realtime_buffer \<Rightarrow> bool" where
  "timed_state c bc mx d D t mb \<longleftrightarrow> vm_config (fst mb) = c \<and> vad_wf (fst mb) \<and> vad_timed mx t (fst mb)
     \<and> (\<exists>lo v. snd mb = buffer_of bc lo v \<and> view_open v = vad_open (fst mb)
          \<and> timed_view c mx d D (bc_pre_roll_ms bc) t (fst mb) v
          \<and> list_all (frame_between d D) (view_stored (bc_pre_roll_ms bc) v))"

lemma step_output_covers:
  assumes tv: "timed_view (vm_config m) mx d D pre t m v" and tm: "vad_timed mx t m"
    and wf: "vad_wf m" and op: "view_open v = vad_open m"
    and x: "fr_start_ms (fst x) = t" "t + frame_duration_ms (fst x) < u64_limit"
    and pre: "vc_speech_start_ms (vm_config m) \<le> pre"
  shows "step_output_ok (fst (vad_step m x),
     Inr (fst (view_completed (fst (vad_step m x)) (view_ingest pre v (fst x) (fst (vad_step m x))))))"
proof (cases v)
  case (Idle h)
  then have "vm_state m = WaitingForSpeech" using tv by (simp add: timed_view_def)
  from waiting_step_cases [OF tm this x(1,2)] show ?thesis
    by cases (auto simp: Idle view_completed_def)
next
  case (Recording u s fs)
  have fs: "vm_state m = InSpeech" "vm_active_start_ms m = Some s" "fs \<noteq> []"
    "frames_ms fs \<le> t" "contiguous (t - frames_ms fs) fs" "t \<le> s + frames_ms fs"
    using tv pre by (simp_all add: timed_view_def Recording)
  have u: "vm_active_utterance_id m = Some u"
    using op wf fs by (auto simp: Recording vad_open_def vad_wf_def)
  have hd: "fst (frame_time_range (fs @ [fst x]) s) = t - frames_ms fs"
    using fs(3,5) by (cases fs) (simp_all add: frame_time_range_def)
  from in_speech_step_cases [OF fs(1,2) u, of x] show ?thesis
    by cases (use fs hd x contiguous_snoc [OF x(1) fs(4,5)] in
      \<open>auto simp: Recording view_completed_def utterance_covers_def contiguous_append wrap_simps\<close>)
qed

lemma pipeline_step_timed:
  assumes st: "timed_state c bc mx d D t mb" and cfg: "vc_max_utterance_ms c = Some mx" "0 < vc_speech_start_ms c"
    and x: "frame_between d D (fst x)" "fr_start_ms (fst x) = t" "t + frame_duration_ms (fst x) < u64_limit"
    and cap: "held_limit c mx D (bc_pre_roll_ms bc) \<le> d * (bc_max_buffered_frames bc + 1)"
      "16 * held_limit c mx D (bc_pre_roll_ms bc) \<le> bc_max_buffered_samples bc + 16"
  shows "is_ok (snd (fst (vad_pipeline mb x))) \<and> timed_state c bc mx d D (t + frame_duration_ms (fst x)) (snd (vad_pipeline mb x))
    \<and> (vc_speech_start_ms c \<le> bc_pre_roll_ms bc \<longrightarrow> step_output_ok (fst (vad_pipeline mb x)))"
proof -
  obtain m b where mb: "mb = (m, b)" by (cases mb)
  obtain lo v where v: "b = buffer_of bc lo v" "view_open v = vad_open m"
      "timed_view c mx d D (bc_pre_roll_ms bc) t m v" "list_all (frame_between d D) (view_stored (bc_pre_roll_ms bc) v)"
    and m: "vm_config m = c" "vad_wf m" "vad_timed mx t m"
    using st by (auto simp: timed_state_def mb)
  define es where "es = fst (vad_step m x)"
  define v1 where "v1 = view_ingest (bc_pre_roll_ms bc) v (fst x) es"
  have ok: "vad_input_ok x" using x(1) by (simp add: vad_input_ok_def frame_between_def)
  have md1: "list_all (frame_between d D) (view_stored (bc_pre_roll_ms bc) v1)"
    unfolding v1_def using v(4) x(1) by (intro list_all_suffix [OF view_ingest_frames]) simp
  have "frames_ms (view_stored (bc_pre_roll_ms bc) v1) < held_limit c mx D (bc_pre_roll_ms bc)"
    unfolding v1_def using held_after_ingest [of m mx d D "bc_pre_roll_ms bc" t v x] v m x by simp
  from fits_within [OF md1 this cap] have fits: "ensure_capacity bc (view_stored (bc_pre_roll_ms bc) v1) = Inr ()" .
  have p: "vad_pipeline mb x = ((es, Inr (fst (view_completed es v1))), (snd (vad_step m x), buffer_of bc lo (snd (view_completed es v1))))"
    using fits by (simp add: pipeline_step_def mb v es_def v1_def push_frame_view Let_def split_def)
  have es: "boundaries_ok (view_open v) es" "length es \<le> 1"
    and op: "vad_open (snd (vad_step m x)) = foldl boundary_open (vad_open m) es"
    and wf: "vad_wf (snd (vad_step m x))"
    using vad_step_contract [OF m(2), of x] v(2) by (simp_all add: es_def)
  have "list_all (frame_between d D) (view_stored (bc_pre_roll_ms bc) (snd (view_completed es v1)))"
    using md1 by (metis view_completed_frames list_all_append)
  moreover have "timed_view c mx d D (bc_pre_roll_ms bc) (t + frame_duration_ms (fst x)) (snd (vad_step m x)) (snd (view_completed es v1))"
    using timed_view_step [OF _ m(3,2) v(2) _ x] v(3) m(1) cfg(1) by (simp add: es_def v1_def)
  moreover have "vad_timed mx (t + frame_duration_ms (fst x)) (snd (vad_step m x))"
    using vad_timed_step [OF m(3) _ _ ok x(2,3)] cfg m(1) by simp
  moreover have "view_open (snd (view_completed es v1)) = vad_open (snd (vad_step m x))"
    using view_follows_boundaries(1) [OF es] op v(2) by (simp add: v1_def)
  moreover have "step_output_ok (es, Inr (fst (view_completed es v1)))" if "vc_speech_start_ms c \<le> bc_pre_roll_ms bc"
    using step_output_covers [OF _ m(3,2) v(2) x(2,3)] v(3) m(1) that by (simp add: es_def v1_def)
  ultimately show ?thesis
    using m wf unfolding p timed_state_def by auto
qed

lemma pipeline_run_timed:
  assumes "timed_state c bc mx d D t mb" and "vc_max_utterance_ms c = Some mx" and "0 < vc_speech_start_ms c"
    and "list_all (frame_between d D) (map fst xs)"
    and "contiguous t (map fst xs)" and "t + total_ms xs < u64_limit"
    and "held_limit c mx D (bc_pre_roll_ms bc) \<le> d * (bc_max_buffered_frames bc + 1)"
    and "16 * held_limit c mx D (bc_pre_roll_ms bc) \<le> bc_max_buffered_samples bc + 16"
  shows "list_all (\<lambda>y. is_ok (snd y)) (fst (run vad_pipeline mb xs))
    \<and> (vc_speech_start_ms c \<le> bc_pre_roll_ms bc \<longrightarrow> list_all step_output_ok (fst (run vad_pipeline mb xs)))"
  using assms(1,4-6)
proof (induction xs arbitrary: t mb)
  case (Cons x xs)
  have "is_ok (snd (fst (vad_pipeline mb x)))
    \<and> timed_state c bc mx d D (t + frame_duration_ms (fst x)) (snd (vad_pipeline mb x))
    \<and> (vc_speech_start_ms c \<le> bc_pre_roll_ms bc \<longrightarrow> step_output_ok (fst (vad_pipeline mb x)))"
    using Cons.prems by (intro pipeline_step_timed [OF Cons.prems(1) assms(2,3)] assms(7,8)) auto
  then show ?case
    using Cons.IH [of "t + frame_duration_ms (fst x)" "snd (vad_pipeline mb x)"] Cons.prems
    by (auto simp: add.assoc)
qed simp

lemma pipeline_start_timed:
  "0 < vc_speech_start_ms c \<Longrightarrow> timed_state c bc mx d D t (pipeline_start c bc)"
  by (auto simp: timed_state_def pipeline_start_def timed_view_def vad_fresh_timed vad_fresh_def
      vad_open_def vad_wf_def vad_timed_def intro!: exI [of _ None] exI [of _ "Idle []"])

section \<open>Properties\<close>

text \<open>
  A session cannot overflow its buffer while the machine bounds its utterances: on
  contiguous frames of \<open>d\<close> to \<open>D\<close> ms, if the capacities admit the utterance limit plus the
  unused pre-roll, every frame is accepted.
\<close>

theorem pipeline_never_overflows:
  assumes "vad_new c = Inr m" and "vc_max_utterance_ms c = Some mx"
    and "list_all (frame_between d D) (map fst xs)"
    and "contiguous t (map fst xs)" and "t + total_ms xs < u64_limit"
    and "held_limit c mx D (bc_pre_roll_ms bc) \<le> d * (bc_max_buffered_frames bc + 1)"
    and "16 * held_limit c mx D (bc_pre_roll_ms bc) \<le> bc_max_buffered_samples bc + 16"
  shows "list_all (\<lambda>y. is_ok (snd y)) (fst (run vad_pipeline (pipeline_start c bc) xs))"
  using pipeline_run_timed [OF pipeline_start_timed assms(2) _ assms(3-7)] assms(1)
  by (simp add: vad_new_ok_iff)

text \<open>The default configurations of the machine and the buffer, with the default 20 ms frames.\<close>

theorem pipeline_never_overflows_witness:
  "list_all (\<lambda>y. is_ok (snd y))
     (fst (run vad_pipeline (pipeline_start vad_config_default buffer_config_default)
        (map (\<lambda>n. (sample_frame n, decision_speech)) [0, 1, 2])))"
  using pipeline_never_overflows [of vad_config_default "vad_fresh vad_config_default" 30000 20 20
      "map (\<lambda>n. (sample_frame n, decision_speech)) [0, 1, 2]" 0 buffer_config_default]
  by (simp add: vad_new_ok_iff vad_config_default_def f32_in_unit_def frame_between_def held_limit_def
      buffer_config_default_def)

text \<open>
  C4. No audio of an utterance is lost. Hypotheses: the configuration is accepted and sets a maximum
  utterance length \<open>mx\<close>; the frames last between \<open>d\<close> and \<open>D\<close> milliseconds, follow one another without
  a gap or an overlap, and the stream stays below \<open>2^64\<close> ms; the buffer has room, in frames and in
  samples, for the longest stretch of audio it may hold (\<open>held_limit\<close>: the pre-roll, two frames
  and the longest utterance; the sizing code of server and live sessions provides this, the default
  capacities alone need not); and the pre-roll is at least as long as the speech that confirms a
  start. Then every stop or limit boundary hands out exactly one utterance, with the boundary's
  identity and end, whose frames begin no later than the boundary's start time and cover the
  time up to its end without a gap; and no other step hands out anything.
\<close>

theorem pipeline_utterances_complete:
  assumes "vad_new c = Inr m" and "vc_max_utterance_ms c = Some mx"
    and "list_all (frame_between d D) (map fst xs)"
    and "contiguous t (map fst xs)" and "t + total_ms xs < u64_limit"
    and "held_limit c mx D (bc_pre_roll_ms bc) \<le> d * (bc_max_buffered_frames bc + 1)"
    and "16 * held_limit c mx D (bc_pre_roll_ms bc) \<le> bc_max_buffered_samples bc + 16"
    and "vc_speech_start_ms c \<le> bc_pre_roll_ms bc"
  shows "list_all step_output_ok (fst (run vad_pipeline (pipeline_start c bc) xs))"
  using pipeline_run_timed [OF pipeline_start_timed assms(2) _ assms(3-7)] assms(1,8)
  by (simp add: vad_new_ok_iff)

definition roomy_buffer_config :: realtime_buffer_config where
  "roomy_buffer_config = buffer_config_default\<lparr>bc_max_buffered_frames := 1600, bc_max_buffered_samples := 490000\<rparr>"

theorem pipeline_utterances_complete_witness:
  "list_all step_output_ok
     (fst (run vad_pipeline (pipeline_start short_vad_config roomy_buffer_config)
        [(sample_frame 0, decision_speech), (sample_frame 1, decision_speech),
         (sample_frame 2, decision_silence), (sample_frame 3, decision_silence)]))"
  using pipeline_utterances_complete [of short_vad_config "vad_fresh short_vad_config" 30000 20 20
      "[(sample_frame 0, decision_speech), (sample_frame 1, decision_speech),
        (sample_frame 2, decision_silence), (sample_frame 3, decision_silence)]" 0 roomy_buffer_config]
  by (simp add: vad_new_ok_iff short_vad_config_def vad_config_default_def f32_in_unit_def
      frame_between_def held_limit_def buffer_config_default_def roomy_buffer_config_def)

text \<open>
  The buffer follows the machine: as long as no frame is refused, the utterances handed
  out are, in order, those whose end the machine reported, with its end times and reasons, for
  any frames and decisions whatever their timing.
\<close>

theorem pipeline_follows_boundaries:
  assumes "list_all vad_input_ok xs"
    and "list_all (\<lambda>y. is_ok (snd y)) (fst (run vad_pipeline (pipeline_start c bc) xs))"
  shows "map utterance_key (concat (map (\<lambda>y. ok_utterances (snd y)) (fst (run vad_pipeline (pipeline_start c bc) xs))))
    = completions (concat (map fst (fst (run vad_pipeline (pipeline_start c bc) xs))))"
  using vad.pipeline_run_completions [OF pipeline_start_in_step assms] by blast

lemma sample_pipeline_ok:
  "list_all (\<lambda>y. is_ok (snd y)) (fst (run vad_pipeline (pipeline_start short_vad_config roomy_buffer_config)
     [(sample_frame 0, decision_speech), (sample_frame 1, decision_speech)]))"
  using pipeline_run_timed [OF pipeline_start_timed, of short_vad_config 30000 20 20
      "[(sample_frame 0, decision_speech), (sample_frame 1, decision_speech)]" 0 roomy_buffer_config]
  by (simp add: short_vad_config_def vad_config_default_def
      frame_between_def held_limit_def buffer_config_default_def roomy_buffer_config_def)

theorem pipeline_follows_boundaries_witness:
  "map utterance_key (concat (map (\<lambda>y. ok_utterances (snd y))
      (fst (run vad_pipeline (pipeline_start short_vad_config roomy_buffer_config)
        [(sample_frame 0, decision_speech), (sample_frame 1, decision_speech)]))))
    = completions (concat (map fst
      (fst (run vad_pipeline (pipeline_start short_vad_config roomy_buffer_config)
        [(sample_frame 0, decision_speech), (sample_frame 1, decision_speech)]))))"
  by (rule pipeline_follows_boundaries [OF _ sample_pipeline_ok]) (simp add: vad_input_ok_def)

end
