(* ===== verification/Session_Setup.thy ===== *)
theory Session_Setup
  imports Realtime_Pipeline
begin

text \<open>
  How a session gets its configurations: the choice of the voice activity engine
  (\<open>crates/openasr-core/src/diarize/vad/mod.rs\<close>), the client's settings of a websocket session
  (\<open>crates/openasr-server/src/realtime/mod.rs\<close>) and the options of the live command
  (\<open>crates/openasr-cli/src/live.rs\<close>). The value of the environment variable \<open>OPENASR_VAD\<close> is the
  argument \<open>env\<close>. The properties show that the buffer each of them sizes is large enough for the
  utterances its machine lets grow.
\<close>

section \<open>Voice activity engine\<close>

definition parse_vad_engine :: "rstr \<Rightarrow> bool option" where
  "parse_vad_engine val =
     (let v = to_ascii_lowercase (trim val)
      in if v \<in> {lit ''neural'', lit ''firered-stream'', lit ''firered_stream'', lit ''fireredstream''} then Some True
         else if v \<in> {lit ''energy'', lit ''rms''} then Some False
         else None)"

definition vad_engine_env_override :: "rstr option \<Rightarrow> bool option" where
  "vad_engine_env_override env = Option.bind env parse_vad_engine"

definition realtime_vad_prefers_neural :: "rstr option \<Rightarrow> rstr option \<Rightarrow> bool" where
  "realtime_vad_prefers_neural env engine =
     (opt_or (vad_engine_env_override env) (Option.bind engine parse_vad_engine) \<noteq> Some False)"

definition default_neural_vad_threshold :: f32 where
  "default_neural_vad_threshold = F_Num (1 / 2)"

definition default_neural_speech_start_ms :: nat where
  "default_neural_speech_start_ms = 100"

definition short_neural_speech_stop_ms :: nat where
  "short_neural_speech_stop_ms = 500"

definition resolve_realtime_vad_mode :: "rstr option \<Rightarrow> rstr option \<Rightarrow> vad_mode" where
  "resolve_realtime_vad_mode env engine =
     (if realtime_vad_prefers_neural env engine then ExternalProbability else Energy)"

section \<open>Settings of a websocket session\<close>

record client_audio_format =
  ca_encoding :: "rstr option"
  ca_sample_rate_hz :: "nat option"
  ca_channels :: "nat option"

definition client_audio_format_default :: client_audio_format where
  "client_audio_format_default =
     \<lparr>ca_encoding = Some (lit ''pcm_s16le''), ca_sample_rate_hz = Some 16000, ca_channels = Some 1\<rparr>"

text \<open>The errors are rendered to messages; here they are the values the messages are made of.\<close>

datatype client_audio_error = UnsupportedEncoding rstr | UnsupportedFormat realtime_frame_error

definition unwrap_or :: "'a option \<Rightarrow> 'a \<Rightarrow> 'a" where
  "unwrap_or x d = (case x of Some v \<Rightarrow> v | None \<Rightarrow> d)"

lemma unwrap_or_simps [simp]: "unwrap_or None d = d" "unwrap_or (Some v) d = v"
  by (simp_all add: unwrap_or_def)

definition try_into_realtime :: "client_audio_format \<Rightarrow> client_audio_error + realtime_audio_format" where
  "try_into_realtime a =
     (let encoding = unwrap_or (ca_encoding a) (lit ''pcm_s16le'')
      in if encoding \<noteq> lit ''pcm_s16le'' then Inl (UnsupportedEncoding encoding)
         else let format = \<lparr>af_encoding = PcmS16Le, af_sample_rate_hz = unwrap_or (ca_sample_rate_hz a) 16000,
                            af_channels = unwrap_or (ca_channels a) 1\<rparr>
              in rbind (map_err UnsupportedFormat (validate_normalized format)) (\<lambda>_. Inr format))"

record client_vad_config =
  cv_enabled :: "bool option"
  cv_engine :: "rstr option"
  cv_speech_start_ms :: "nat option"
  cv_speech_stop_ms :: "nat option"
  cv_pre_roll_ms :: "nat option"
  cv_max_utterance_ms :: "nat option"
  cv_no_speech_timeout_ms :: "nat option"
  cv_energy_threshold :: "f32 option"

definition client_vad_default :: client_vad_config where
  "client_vad_default = \<lparr>cv_enabled = None, cv_engine = None, cv_speech_start_ms = None, cv_speech_stop_ms = None,
     cv_pre_roll_ms = None, cv_max_utterance_ms = None, cv_no_speech_timeout_ms = None, cv_energy_threshold = None\<rparr>"

definition into_vad_config :: "rstr option \<Rightarrow> client_vad_config \<Rightarrow> nat \<Rightarrow> vad_config" where
  "into_vad_config env cv frame_ms =
     (let dflt = vad_config_default;
          mode = resolve_realtime_vad_mode env (cv_engine cv);
          energy_threshold = unwrap_or (cv_energy_threshold cv)
            (case mode of ExternalProbability \<Rightarrow> default_neural_vad_threshold | _ \<Rightarrow> vc_energy_threshold dflt);
          default_speech_start =
            (case mode of ExternalProbability \<Rightarrow> default_neural_speech_start_ms | _ \<Rightarrow> vc_speech_start_ms dflt);
          default_speech_stop =
            (case mode of ExternalProbability \<Rightarrow> short_neural_speech_stop_ms | _ \<Rightarrow> vc_speech_stop_ms dflt)
      in \<lparr>vc_frame_duration_ms = frame_ms,
          vc_speech_start_ms = unwrap_or (cv_speech_start_ms cv) default_speech_start,
          vc_speech_stop_ms = unwrap_or (cv_speech_stop_ms cv) default_speech_stop,
          vc_pre_roll_ms = unwrap_or (cv_pre_roll_ms cv) (vc_pre_roll_ms dflt),
          vc_max_utterance_ms = opt_or (cv_max_utterance_ms cv) (vc_max_utterance_ms dflt),
          vc_no_speech_timeout_ms = opt_or (cv_no_speech_timeout_ms cv) (vc_no_speech_timeout_ms dflt),
          vc_mode = mode,
          vc_energy_threshold = energy_threshold\<rparr>)"

section \<open>Buffer of a websocket session\<close>

datatype buffer_sizing_error =
    UtterancePlusPreRollOverflow | BufferWindowTooLarge nat | SampleWindowOverflow
  | FrameCapacityOverflow | SampleCapacityOverflow

definition default_max_buffered_frames :: nat where
  "default_max_buffered_frames = 1510"

definition max_vad_buffer_window_ms :: nat where
  "max_vad_buffer_window_ms = 120000"

definition realtime_buffer_config_for :: "nat \<Rightarrow> vad_config \<Rightarrow> buffer_sizing_error + realtime_buffer_config" where
  "realtime_buffer_config_for frame_ms vad =
     (let max_utterance_ms = unwrap_or (vc_max_utterance_ms vad) 30000;
          buffered_ms = max_utterance_ms + vc_pre_roll_ms vad
      in if u32_limit \<le> buffered_ms then Inl UtterancePlusPreRollOverflow
         else if max_vad_buffer_window_ms < buffered_ms then Inl (BufferWindowTooLarge max_vad_buffer_window_ms)
         else if u32_limit \<le> buffered_ms + 1000 then Inl SampleWindowOverflow
         else if u32_limit \<le> buffered_ms div frame_ms + 2 then Inl FrameCapacityOverflow
         else if u64_limit \<le> 16000 * (buffered_ms + 1000) then Inl SampleCapacityOverflow
         else Inr \<lparr>bc_frame_duration_ms = frame_ms, bc_pre_roll_ms = vc_pre_roll_ms vad,
                   bc_max_buffered_frames = max (buffered_ms div frame_ms + 2) default_max_buffered_frames,
                   bc_max_buffered_samples = 16000 * (buffered_ms + 1000) div 1000\<rparr>)"

section \<open>Configuration of the live command\<close>

record live_command_options =
  lo_frame_duration_ms :: nat
  lo_speech_start_ms :: "nat option"
  lo_speech_stop_ms :: "nat option"
  lo_pre_roll_ms :: "nat option"
  lo_max_utterance_ms :: "nat option"
  lo_no_speech_timeout_ms :: "nat option"
  lo_energy_threshold :: "f32 option"
  lo_partial_interval_ms :: "nat option"
  lo_partial_window_ms :: "nat option"

record live_pipeline_config =
  lp_vad :: vad_config
  lp_buffer :: realtime_buffer_config
  lp_partial_interval_ms :: nat
  lp_partial_window_ms :: nat

datatype live_config_error =
    LiveFrameError realtime_frame_error | LiveVadError vad_config_error | ZeroPartialInterval | ZeroPartialWindow

definition resolve_cli_vad_mode :: "rstr option \<Rightarrow> vad_mode" where
  "resolve_cli_vad_mode env = (if realtime_vad_prefers_neural env None then ExternalProbability else Energy)"

definition live_vad_config :: "rstr option \<Rightarrow> live_command_options \<Rightarrow> vad_config" where
  "live_vad_config env opts =
     (let mode = resolve_cli_vad_mode env;
          dflt = vad_config_default;
          default_speech_stop =
            (case mode of ExternalProbability \<Rightarrow> short_neural_speech_stop_ms | _ \<Rightarrow> vc_speech_stop_ms dflt)
      in \<lparr>vc_frame_duration_ms = lo_frame_duration_ms opts,
          vc_speech_start_ms = unwrap_or (lo_speech_start_ms opts) (vc_speech_start_ms dflt),
          vc_speech_stop_ms = unwrap_or (lo_speech_stop_ms opts) default_speech_stop,
          vc_pre_roll_ms = unwrap_or (lo_pre_roll_ms opts) (vc_pre_roll_ms dflt),
          vc_max_utterance_ms = opt_or (lo_max_utterance_ms opts) (vc_max_utterance_ms dflt),
          vc_no_speech_timeout_ms = opt_or (lo_no_speech_timeout_ms opts) (vc_no_speech_timeout_ms dflt),
          vc_mode = mode,
          vc_energy_threshold = unwrap_or (lo_energy_threshold opts)
            (case mode of ExternalProbability \<Rightarrow> default_neural_vad_threshold | _ \<Rightarrow> vc_energy_threshold dflt)\<rparr>)"

text \<open>The capacities are computed in \<open>u32\<close>, whose sums wrap; the sample count is a \<open>usize\<close>.\<close>

definition live_buffer_config :: "nat \<Rightarrow> vad_config \<Rightarrow> realtime_buffer_config" where
  "live_buffer_config frame_ms vad =
     (let max_utterance_ms = unwrap_or (vc_max_utterance_ms vad) 30000;
          max_buffered_frames = u32_add (u32_add max_utterance_ms (vc_pre_roll_ms vad) div frame_ms) 2
      in \<lparr>bc_frame_duration_ms = frame_ms, bc_pre_roll_ms = vc_pre_roll_ms vad,
          bc_max_buffered_frames = max max_buffered_frames default_max_buffered_frames,
          bc_max_buffered_samples =
            16000 * u32_add (u32_add max_utterance_ms (vc_pre_roll_ms vad)) 1000 div 1000\<rparr>)"

definition from_options :: "rstr option \<Rightarrow> live_command_options \<Rightarrow> live_config_error + live_pipeline_config" where
  "from_options env opts =
     rbind (map_err LiveFrameError (sample_count_for_duration_ms pcm16_mono_16khz (lo_frame_duration_ms opts))) (\<lambda>_.
       let vad = live_vad_config env opts
       in rbind (map_err LiveVadError (vad_config_validate vad)) (\<lambda>_.
         let partial_interval_ms = unwrap_or (lo_partial_interval_ms opts) 300;
             partial_window_ms = unwrap_or (lo_partial_window_ms opts) 3000
         in if partial_interval_ms = 0 then Inl ZeroPartialInterval
            else if partial_window_ms = 0 then Inl ZeroPartialWindow
            else Inr \<lparr>lp_vad = vad, lp_buffer = live_buffer_config (lo_frame_duration_ms opts) vad,
                      lp_partial_interval_ms = partial_interval_ms, lp_partial_window_ms = partial_window_ms\<rparr>))"

section \<open>Sizing\<close>

lemma frame_duration_supported: "sample_count_for_duration_ms fmt d = Inr n \<Longrightarrow> d \<in> {10, 20, 30}"
  by (cases "validate_normalized fmt"; cases "validate_frame_duration_ms d")
    (auto simp: sample_count_for_duration_ms_def validate_frame_duration_ms_def audio_consts split: if_splits)

text \<open>Capacities for the utterance limit, the pre-roll and two frames hold all there can be.\<close>

lemma window_capacity:
  assumes "0 < d" and "d \<le> 30" and "d \<le> mx" and "(mx + pre) div d + 2 \<le> frames"
    and "16 * (mx + pre + 1000) \<le> samples"
  shows "held_limit c mx d pre \<le> d * (frames + 1)" and "16 * held_limit c mx d pre \<le> samples + 16"
proof -
  have h: "held_limit c mx d pre \<le> pre + 2 * d + mx" using assms(3) by (auto simp: held_limit_def)
  have "mx + pre < d * ((mx + pre) div d + 1)"
    using dividend_less_times_div [OF assms(1), of "mx + pre"] by (simp add: algebra_simps)
  then have "mx + pre + 2 * d \<le> d * ((mx + pre) div d + 2 + 1)" by (simp add: algebra_simps)
  also have "\<dots> \<le> d * (frames + 1)" using assms(4) by (intro mult_le_mono2) simp
  finally show "held_limit c mx d pre \<le> d * (frames + 1)" using h by linarith
  show "16 * held_limit c mx d pre \<le> samples + 16"
    using mult_le_mono2 [OF h, of 16] assms(2,5) by simp
qed

definition uniform_stream :: "nat \<Rightarrow> vad_input list \<Rightarrow> bool" where
  "uniform_stream d xs \<longleftrightarrow> list_all (frame_between d d) (map fst xs) \<and> contiguous 0 (map fst xs) \<and> total_ms xs < u64_limit"

lemma sized_pipeline:
  assumes "vad_config_validate c = Inr ()" and "vc_max_utterance_ms c = Some mx"
    and "0 < d" and "d \<le> 30" and "d \<le> mx" and "bc_pre_roll_ms bc = vc_pre_roll_ms c"
    and "(mx + vc_pre_roll_ms c) div d + 2 \<le> bc_max_buffered_frames bc"
    and "16 * (mx + vc_pre_roll_ms c + 1000) \<le> bc_max_buffered_samples bc" and "uniform_stream d xs"
  shows "list_all (\<lambda>y. is_ok (snd y)) (fst (run vad_pipeline (pipeline_start c bc) xs))
    \<and> (vc_speech_start_ms c \<le> vc_pre_roll_ms c \<longrightarrow> list_all step_output_ok (fst (run vad_pipeline (pipeline_start c bc) xs)))"
proof -
  have s: "0 < vc_speech_start_ms c" using assms(1) by (auto simp: vad_config_validate_def split: if_splits)
  have cap: "held_limit c mx d (bc_pre_roll_ms bc) \<le> d * (bc_max_buffered_frames bc + 1)"
    "16 * held_limit c mx d (bc_pre_roll_ms bc) \<le> bc_max_buffered_samples bc + 16"
    using window_capacity [OF assms(3-5,7,8), of c] unfolding assms(6) .
  have x: "list_all (frame_between d d) (map fst xs)" "contiguous 0 (map fst xs)" "0 + total_ms xs < u64_limit"
    using assms(9) by (simp_all add: uniform_stream_def)
  show ?thesis
    using pipeline_run_timed [OF pipeline_start_timed [OF s] assms(2) s x cap] unfolding assms(6) .
qed

lemma server_buffer_sized:
  "realtime_buffer_config_for d c = Inr bc \<Longrightarrow> bc_pre_roll_ms bc = vc_pre_roll_ms c
   \<and> (unwrap_or (vc_max_utterance_ms c) 30000 + vc_pre_roll_ms c) div d + 2 \<le> bc_max_buffered_frames bc
   \<and> 16 * (unwrap_or (vc_max_utterance_ms c) 30000 + vc_pre_roll_ms c + 1000) \<le> bc_max_buffered_samples bc"
  by (auto simp: realtime_buffer_config_for_def Let_def split: if_splits)

lemma live_buffer_sized:
  assumes "unwrap_or (vc_max_utterance_ms c) 30000 + vc_pre_roll_ms c + 1000 < u32_limit" and "0 < d"
  shows "bc_pre_roll_ms (live_buffer_config d c) = vc_pre_roll_ms c
   \<and> (unwrap_or (vc_max_utterance_ms c) 30000 + vc_pre_roll_ms c) div d + 2 \<le> bc_max_buffered_frames (live_buffer_config d c)
   \<and> 16 * (unwrap_or (vc_max_utterance_ms c) 30000 + vc_pre_roll_ms c + 1000) \<le> bc_max_buffered_samples (live_buffer_config d c)"
proof -
  let ?w = "unwrap_or (vc_max_utterance_ms c) 30000 + vc_pre_roll_ms c"
  have "?w div d \<le> ?w" by simp
  then have "?w div d + 2 < u32_limit" using assms(1) by linarith
  then show ?thesis using assms(1) by (simp add: live_buffer_config_def Let_def wrap_simps)
qed

lemma into_vad_config_limits [simp]:
  "vc_max_utterance_ms (into_vad_config env cv d) = Some (unwrap_or (cv_max_utterance_ms cv) 30000)"
  "vc_pre_roll_ms (into_vad_config env cv d) = unwrap_or (cv_pre_roll_ms cv) 320"
  by (cases "cv_max_utterance_ms cv"; simp add: into_vad_config_def Let_def vad_config_default_def)+

lemma live_vad_config_limits [simp]:
  "vc_max_utterance_ms (live_vad_config env opts) = Some (unwrap_or (lo_max_utterance_ms opts) 30000)"
  "vc_pre_roll_ms (live_vad_config env opts) = unwrap_or (lo_pre_roll_ms opts) 320"
  by (cases "lo_max_utterance_ms opts"; simp add: live_vad_config_def Let_def vad_config_default_def)+

section \<open>Properties\<close>

text \<open>
  The server sizes its buffers right: for every client setting that passes validation and
  whose utterance limit is at least a frame, the buffer that \<open>realtime_buffer_config\<close> makes never
  overflows on a stream of frames of the session's duration, whatever the detector decides; and
  if the pre-roll covers the confirmation time, every utterance is handed out complete.
\<close>

theorem server_sessions_never_overflow:
  assumes "d \<in> {10, 20, 30}" and "vad_config_validate (into_vad_config env cv d) = Inr ()"
    and "realtime_buffer_config_for d (into_vad_config env cv d) = Inr bc"
    and "d \<le> unwrap_or (cv_max_utterance_ms cv) 30000" and "uniform_stream d xs"
  shows "list_all (\<lambda>y. is_ok (snd y)) (fst (run vad_pipeline (pipeline_start (into_vad_config env cv d) bc) xs))
    \<and> (vc_speech_start_ms (into_vad_config env cv d) \<le> unwrap_or (cv_pre_roll_ms cv) 320 \<longrightarrow>
       list_all step_output_ok (fst (run vad_pipeline (pipeline_start (into_vad_config env cv d) bc) xs)))"
  using sized_pipeline [OF assms(2) into_vad_config_limits(1), of d bc xs] server_buffer_sized [OF assms(3)] assms(1,4,5)
  by auto

theorem server_sessions_never_overflow_witness:
  "\<exists>bc. realtime_buffer_config_for 20 (into_vad_config None client_vad_default 20) = Inr bc
     \<and> list_all step_output_ok (fst (run vad_pipeline (pipeline_start (into_vad_config None client_vad_default 20) bc)
         (map (\<lambda>n. (sample_frame n, decision_speech)) [0, 1, 2])))"
proof -
  let ?c = "into_vad_config None client_vad_default 20"
  have c: "vad_config_validate ?c = Inr ()" "vc_speech_start_ms ?c = 100"
    by (simp_all add: into_vad_config_def client_vad_default_def vad_config_validate_def Let_def
        resolve_realtime_vad_mode_def realtime_vad_prefers_neural_def vad_engine_env_override_def
        default_neural_vad_threshold_def default_neural_speech_start_ms_def short_neural_speech_stop_ms_def
        f32_in_unit_def)
  obtain bc where bc: "realtime_buffer_config_for 20 ?c = Inr bc"
    by (simp add: realtime_buffer_config_for_def client_vad_default_def max_vad_buffer_window_ms_def)
  have "uniform_stream 20 (map (\<lambda>n. (sample_frame n, decision_speech)) [0, 1, 2])"
    by (simp add: uniform_stream_def frame_between_def)
  from server_sessions_never_overflow [OF _ c(1) bc _ this] show ?thesis
    using bc c(2) by (auto simp: client_vad_default_def)
qed

text \<open>
  So does the live command, as long as its \<open>u32\<close> sums do not wrap: an accepted configuration
  whose limits stay below \<open>2 ^ 32\<close> ms never overflows its buffer and hands out complete utterances.
\<close>

theorem live_sessions_never_overflow:
  assumes "from_options env opts = Inr cfg" and "uniform_stream (lo_frame_duration_ms opts) xs"
    and "lo_frame_duration_ms opts \<le> unwrap_or (lo_max_utterance_ms opts) 30000"
    and "unwrap_or (lo_max_utterance_ms opts) 30000 + unwrap_or (lo_pre_roll_ms opts) 320 + 1000 < u32_limit"
  shows "list_all (\<lambda>y. is_ok (snd y)) (fst (run vad_pipeline (pipeline_start (lp_vad cfg) (lp_buffer cfg)) xs))
    \<and> (vc_speech_start_ms (lp_vad cfg) \<le> vc_pre_roll_ms (lp_vad cfg) \<longrightarrow>
       list_all step_output_ok (fst (run vad_pipeline (pipeline_start (lp_vad cfg) (lp_buffer cfg)) xs)))"
proof -
  let ?d = "lo_frame_duration_ms opts" and ?c = "live_vad_config env opts"
  have c: "lp_vad cfg = ?c" "lp_buffer cfg = live_buffer_config ?d ?c" "vad_config_validate ?c = Inr ()"
    and n: "\<exists>n. sample_count_for_duration_ms pcm16_mono_16khz ?d = Inr n"
    using assms(1)
    by (auto simp: from_options_def Let_def rbind_Inr_iff map_err_Inr_iff split: if_splits)
  have d: "?d \<in> {10, 20, 30}" using n frame_duration_supported by blast
  show ?thesis
    using sized_pipeline [OF c(3) live_vad_config_limits(1), of ?d "live_buffer_config ?d ?c" xs]
      live_buffer_sized [of ?c ?d] d assms(2-4) unfolding c by auto
qed

definition live_defaults :: live_command_options where
  "live_defaults = \<lparr>lo_frame_duration_ms = 20, lo_speech_start_ms = None, lo_speech_stop_ms = None,
     lo_pre_roll_ms = None, lo_max_utterance_ms = None, lo_no_speech_timeout_ms = None,
     lo_energy_threshold = None, lo_partial_interval_ms = None, lo_partial_window_ms = None\<rparr>"

lemmas live_eval = live_defaults_def live_vad_config_def resolve_cli_vad_mode_def realtime_vad_prefers_neural_def
  vad_engine_env_override_def default_neural_vad_threshold_def default_neural_speech_start_ms_def
  short_neural_speech_stop_ms_def vad_config_default_def

theorem live_sessions_never_overflow_witness:
  "\<exists>cfg. from_options None live_defaults = Inr cfg
     \<and> list_all step_output_ok (fst (run vad_pipeline (pipeline_start (lp_vad cfg) (lp_buffer cfg))
         (map (\<lambda>n. (sample_frame n, decision_speech)) [0, 1, 2])))"
proof -
  let ?xs = "map (\<lambda>n. (sample_frame n, decision_speech)) [0, 1, 2]"
  obtain cfg where cfg: "from_options None live_defaults = Inr cfg" and "vc_speech_start_ms (lp_vad cfg) = 200"
      "vc_pre_roll_ms (lp_vad cfg) = 320"
    by (simp add: from_options_def live_eval vad_config_validate_def f32_in_unit_def Let_def
        sample_count_for_duration_ms_def validate_frame_duration_ms_def audio_consts)
  moreover have "uniform_stream (lo_frame_duration_ms live_defaults) ?xs"
    by (simp add: uniform_stream_def frame_between_def live_defaults_def)
  ultimately show ?thesis
    using live_sessions_never_overflow [OF cfg, of ?xs] by (intro exI [of _ cfg]) (simp add: live_defaults_def)
qed

text \<open>
  With every setting left at its default the live command and the server configure the same
  machine except for the speech that starts an utterance: under the neural engine the server
  uses 100 ms, the live command 200 ms.
\<close>

theorem live_and_server_defaults:
  "into_vad_config env client_vad_default (lo_frame_duration_ms live_defaults)
     = (live_vad_config env live_defaults)\<lparr>vc_speech_start_ms := (if realtime_vad_prefers_neural env None then 100 else 200)\<rparr>
   \<and> vc_speech_start_ms (live_vad_config env live_defaults) = 200"
  by (simp add: into_vad_config_def client_vad_default_def live_defaults_def live_vad_config_def resolve_cli_vad_mode_def
      resolve_realtime_vad_mode_def default_neural_speech_start_ms_def vad_config_default_def Let_def)

text \<open>
  The condition on the sums is needed. A limit near \<open>2 ^ 32\<close> ms wraps: the live command then reserves 1510 frames (30 s) for
  utterances of up to 49 days, where the server rejects the setting.
\<close>

lemma live_buffer_wraps:
  "bc_max_buffered_frames (live_buffer_config 20 (vad_config_default\<lparr>vc_max_utterance_ms := Some 4294967000\<rparr>)) = 1510
   \<and> realtime_buffer_config_for 20 (vad_config_default\<lparr>vc_max_utterance_ms := Some 4294967000\<rparr>) = Inl UtterancePlusPreRollOverflow"
  by (simp add: live_buffer_config_def realtime_buffer_config_for_def vad_config_default_def Let_def u32_add_def
      default_max_buffered_frames_def)

end
