(* ===== verification/Audio_Capture.thy ===== *)
theory Audio_Capture
  imports Realtime_Pipeline
begin

text \<open>
  Audio capture: the engine that cuts converted samples into frames and the hand-off queue of
  \<open>crates/openasr-core/src/realtime/capture/core.rs\<close>, and the frame chunker and capture queue of
  \<open>crates/openasr-system-audio/src\<close> (\<open>pcm.rs\<close>, \<open>capture_queue.rs\<close>). Samples in floating point
  are a type \<open>'f\<close>: the conversions to it, the average of one frame's channels, the rounding to
  \<open>i16\<close> and the linear resampler (with its state \<open>'r\<close>) are parameters. Each queue operation
  holds the queue's lock or is one atomic channel operation, so it is one step.
\<close>

section \<open>Bounded queues that report their losses\<close>

datatype 'a fifo_op = PushItem 'a | DrainAll

fun pushed :: "'a fifo_op list \<Rightarrow> 'a list" where
  "pushed [] = []"
| "pushed (PushItem x # ops) = x # pushed ops"
| "pushed (DrainAll # ops) = pushed ops"

fun fifo_step :: "('q \<Rightarrow> 'a \<Rightarrow> bool \<times> 'q) \<Rightarrow> ('q \<Rightarrow> 'a list \<times> 'q) \<Rightarrow> 'q \<Rightarrow> 'a fifo_op \<Rightarrow> 'a list \<times> 'q" where
  "fifo_step push drain q (PushItem x) = ([], snd (push q x))"
| "fifo_step push drain q DrainAll = drain q"

text \<open>
  What the threads around a queue rely on: a push never evicts, a full queue refuses and
  records the loss, and a drain delivers everything in order.
\<close>

locale bounded_fifo =
  fixes push :: "'q \<Rightarrow> 'a \<Rightarrow> bool \<times> 'q"
    and drain :: "'q \<Rightarrow> 'a list \<times> 'q"
    and items :: "'q \<Rightarrow> 'a list"
    and capacity :: "'q \<Rightarrow> nat"
    and lost :: "'q \<Rightarrow> bool"
  assumes push_free: "length (items q) < capacity q \<Longrightarrow>
      fst (push q x) \<and> items (snd (push q x)) = items q @ [x] \<and> lost (snd (push q x)) = lost q"
    and push_full: "capacity q \<le> length (items q) \<Longrightarrow>
      \<not> fst (push q x) \<and> items (snd (push q x)) = items q \<and> lost (snd (push q x))"
    and push_capacity: "capacity (snd (push q x)) = capacity q"
    and drain_all: "fst (drain q) = items q \<and> items (snd (drain q)) = [] \<and> lost (snd (drain q)) = lost q
      \<and> capacity (snd (drain q)) = capacity q"
begin

abbreviation fifo where "fifo \<equiv> fifo_step push drain"

lemma step_bounded:
  "length (items q) \<le> capacity q \<Longrightarrow> length (items (snd (fifo q op))) \<le> capacity (snd (fifo q op))
     \<and> capacity (snd (fifo q op)) = capacity q"
  using push_free push_full push_capacity drain_all
  by (cases op; cases "length (items q) < capacity q") (auto simp: not_less)

lemma run_bounded:
  "length (items q) \<le> capacity q \<Longrightarrow> length (items (snd (run fifo q ops))) \<le> capacity q"
proof (induction ops arbitrary: q)
  case (Cons op ops)
  then show ?case using step_bounded [of q op] Cons.IH [of "snd (fifo q op)"] by simp
qed simp

lemma lost_sticky: "lost q \<Longrightarrow> lost (snd (run fifo q ops))"
proof (induction ops arbitrary: q)
  case (Cons op ops)
  have "lost (snd (fifo q op))"
    using Cons.prems push_free [of q] push_full [of q] drain_all [of q]
    by (cases op; cases "length (items q) < capacity q") (auto simp: not_less)
  then show ?case using Cons.IH by simp
qed simp

text \<open>Delivered and held items are a subsequence of those held before and pushed.\<close>

lemma run_order:
  "subseq (concat (fst (run fifo q ops)) @ items (snd (run fifo q ops))) (items q @ pushed ops)"
proof (induction ops arbitrary: q)
  case (Cons op ops)
  let ?q = "snd (fifo q op)"
  have "subseq (fst (fifo q op) @ items ?q @ pushed ops) (items q @ pushed (op # ops))"
  proof (cases op)
    case (PushItem x)
    then show ?thesis
      using push_free [of q x] push_full [of q x]
      by (cases "length (items q) < capacity q") (auto simp: not_less intro: list_emb_append_mono)
  qed (use drain_all [of q] in simp)
  moreover have "subseq (fst (fifo q op) @ (concat (fst (run fifo ?q ops)) @ items (snd (run fifo ?q ops))))
      (fst (fifo q op) @ (items ?q @ pushed ops))"
    by (rule list_emb_append_mono [OF subseq_order.refl Cons.IH])
  ultimately show ?case by (auto intro: subseq_order.trans)
qed simp

text \<open>Nothing is lost silently: without a recorded loss every item is delivered or held.\<close>

lemma run_no_silent_loss:
  "\<not> lost (snd (run fifo q ops)) \<Longrightarrow>
   concat (fst (run fifo q ops)) @ items (snd (run fifo q ops)) = items q @ pushed ops"
proof (induction ops arbitrary: q)
  case (Cons op ops)
  let ?q = "snd (fifo q op)"
  have nl: "\<not> lost ?q" using Cons.prems lost_sticky [of ?q ops] by auto
  have ih: "concat (fst (run fifo ?q ops)) @ items (snd (run fifo ?q ops)) = items ?q @ pushed ops"
    using Cons.IH [of ?q] Cons.prems by simp
  have "fst (fifo q op) @ items ?q @ pushed ops = items q @ pushed (op # ops)"
  proof (cases op)
    case (PushItem x)
    then have "length (items q) < capacity q"
      using nl push_full [of q x] by (auto simp: not_less [symmetric])
    then show ?thesis using PushItem push_free [of q x] by simp
  qed (use drain_all [of q] in simp)
  then show ?case using ih by simp
qed simp

end

section \<open>The hand-off queue of the capture engine\<close>

datatype capture_push_outcome = Accepted | Overflowed

datatype capture_engine_error =
    ZeroSampleRate
  | ZeroChannels
  | NonMultipleOfChannels nat nat
  | FrameError realtime_frame_error
  | ZeroQueueCapacity

record 'a capture_queue =
  q_capacity :: nat
  q_items :: "'a list"
  q_overflowed :: bool

definition capture_queue_new :: "nat \<Rightarrow> capture_engine_error + 'a capture_queue" where
  "capture_queue_new capacity =
     (if capacity = 0 then Inl ZeroQueueCapacity
      else Inr \<lparr>q_capacity = capacity, q_items = [], q_overflowed = False\<rparr>)"

definition try_push :: "'a capture_queue \<Rightarrow> 'a \<Rightarrow> capture_push_outcome \<times> 'a capture_queue" where
  "try_push q item =
     (if q_capacity q \<le> length (q_items q) then (Overflowed, q\<lparr>q_overflowed := True\<rparr>)
      else (Accepted, q\<lparr>q_items := q_items q @ [item]\<rparr>))"

definition capture_queue_drain :: "'a capture_queue \<Rightarrow> 'a list \<times> 'a capture_queue" where
  "capture_queue_drain q = (q_items q, q\<lparr>q_items := []\<rparr>)"

definition take_overflowed :: "'a capture_queue \<Rightarrow> bool \<times> 'a capture_queue" where
  "take_overflowed q = (q_overflowed q, q\<lparr>q_overflowed := False\<rparr>)"

definition capture_queue_len :: "'a capture_queue \<Rightarrow> nat" where
  "capture_queue_len q = length (q_items q)"

definition capture_queue_is_empty :: "'a capture_queue \<Rightarrow> bool" where
  "capture_queue_is_empty q = (capture_queue_len q = 0)"

interpretation handoff: bounded_fifo "\<lambda>q x. map_prod (\<lambda>r. r = Accepted) id (try_push q x)"
  capture_queue_drain q_items q_capacity q_overflowed
  by unfold_locales (auto simp: try_push_def capture_queue_drain_def)

section \<open>Frame chunker of the system audio capture\<close>

definition target_frame_samples :: nat where
  "target_frame_samples = 16000 * 20 div 1000"

text \<open>
  \<open>pop_frame\<close> takes bytes until it has \<open>n\<close> more samples. With \<open>pad\<close> it goes on with zero
  samples when the bytes run out; a missing high byte is zero either way.
\<close>

fun pop_frame :: "nat \<Rightarrow> bool \<Rightarrow> 8 word list \<Rightarrow> 16 word list \<times> 8 word list" where
  "pop_frame 0 pad bytes = ([], bytes)"
| "pop_frame (Suc n) pad [] = (if pad then (let (fr, rest) = pop_frame n pad [] in (0 # fr, rest)) else ([], []))"
| "pop_frame (Suc n) pad [lo] = (let (fr, rest) = pop_frame n pad [] in (i16_from_le_bytes lo 0 # fr, rest))"
| "pop_frame (Suc n) pad (lo # hi # bytes) =
     (let (fr, rest) = pop_frame n pad bytes in (i16_from_le_bytes lo hi # fr, rest))"

lemma pop_frame_full:
  "2 * n \<le> length bytes \<Longrightarrow> pop_frame n pad bytes = (le_pairs (take (2 * n) bytes), drop (2 * n) bytes)"
  by (induction n pad bytes rule: pop_frame.induct) auto

text \<open>The loop hands the complete frames to the callback, in order; here it returns them.\<close>

function emit_complete_frames :: "8 word list \<Rightarrow> 16 word list list \<times> 8 word list" where
  "emit_complete_frames pending =
     (if target_frame_samples * 2 \<le> length pending
      then (let (fr, rest) = pop_frame target_frame_samples False pending;
                (frs, rest') = emit_complete_frames rest
            in (fr # frs, rest'))
      else ([], pending))"
  by auto
termination emit_complete_frames
  by (relation "measure length") (auto simp: pop_frame_full target_frame_samples_def)

declare emit_complete_frames.simps [simp del]

definition chunker_push_bytes :: "8 word list \<Rightarrow> 8 word list \<Rightarrow> 16 word list list \<times> 8 word list" where
  "chunker_push_bytes pending bytes = emit_complete_frames (pending @ bytes)"

definition chunker_push_samples :: "8 word list \<Rightarrow> 16 word list \<Rightarrow> 16 word list list \<times> 8 word list" where
  "chunker_push_samples pending samples =
     emit_complete_frames (pending @ concat (map i16_to_le_bytes samples))"

definition chunker_flush_padded :: "8 word list \<Rightarrow> 16 word list list \<times> 8 word list" where
  "chunker_flush_padded pending =
     (if pending = [] then ([], [])
      else (let (fr, rest) = pop_frame target_frame_samples True pending in ([fr], rest)))"

lemma emit_complete_frames_spec:
  "list_all (\<lambda>fr. length fr = target_frame_samples) (fst (emit_complete_frames p))
   \<and> concat (map (\<lambda>fr. concat (map i16_to_le_bytes fr)) (fst (emit_complete_frames p))) @ snd (emit_complete_frames p) = p
   \<and> length (snd (emit_complete_frames p)) < target_frame_samples * 2"
proof (induction p rule: emit_complete_frames.induct)
  case (1 p)
  show ?case
  proof (cases "target_frame_samples * 2 \<le> length p")
    case True
    let ?n = "2 * target_frame_samples"
    have pf: "pop_frame target_frame_samples False p = (le_pairs (take ?n p), drop ?n p)"
      using True by (intro pop_frame_full) simp
    have e: "emit_complete_frames p =
        (le_pairs (take ?n p) # fst (emit_complete_frames (drop ?n p)), snd (emit_complete_frames (drop ?n p)))"
      using True by (simp add: emit_complete_frames.simps [of p] pf split_def Let_def)
    have "concat (map i16_to_le_bytes (le_pairs (take ?n p))) = take ?n p"
      using True by (intro to_le_bytes_le_pairs) simp
    moreover have "length (le_pairs (take ?n p)) = target_frame_samples"
      using True by (simp add: length_le_pairs min_absorb2 mult.commute)
    ultimately show ?thesis
      using 1 [OF True refl pf [symmetric]] unfolding e by simp
  qed (simp add: emit_complete_frames.simps [of p])
qed

lemma pop_frame_pad:
  "snd (pop_frame n True bytes) = drop (2 * n) bytes \<and> length (fst (pop_frame n True bytes)) = n"
  by (induction n "True" bytes rule: pop_frame.induct) (auto simp: split_def)

section \<open>The capture queue of the system audio capture\<close>

text \<open>
  The bounded channel between the capture callback and its consumer, with the shared count of
  dropped frames (one per 20 ms at most: the 64-bit counter does not wrap), the chunker's
  pending bytes, and whether the two ends are still there.
\<close>

record system_queue =
  sy_capacity :: nat
  sy_channel :: "16 word list list"
  sy_dropped :: nat
  sy_pending :: "8 word list"
  sy_sender :: bool
  sy_receiver :: bool
  sy_reported_drops :: nat

definition capture_queue_with_capacity :: "nat \<Rightarrow> system_queue" where
  "capture_queue_with_capacity capacity =
     \<lparr>sy_capacity = max capacity 1, sy_channel = [], sy_dropped = 0, sy_pending = [],
      sy_sender = True, sy_receiver = True, sy_reported_drops = 0\<rparr>"

definition try_push_frame :: "system_queue \<Rightarrow> 16 word list \<Rightarrow> system_queue" where
  "try_push_frame q fr =
     (if \<not> sy_receiver q then q
      else if length (sy_channel q) < sy_capacity q then q\<lparr>sy_channel := sy_channel q @ [fr]\<rparr>
      else q\<lparr>sy_dropped := sy_dropped q + 1\<rparr>)"

definition producer_push_bytes :: "system_queue \<Rightarrow> 8 word list \<Rightarrow> system_queue" where
  "producer_push_bytes q bytes =
     (if \<not> sy_sender q then q
      else let (frs, pending) = chunker_push_bytes (sy_pending q) bytes
           in foldl try_push_frame (q\<lparr>sy_pending := pending\<rparr>) frs)"

definition producer_push_samples :: "system_queue \<Rightarrow> 16 word list \<Rightarrow> system_queue" where
  "producer_push_samples q samples =
     (if \<not> sy_sender q then q
      else let (frs, pending) = chunker_push_samples (sy_pending q) samples
           in foldl try_push_frame (q\<lparr>sy_pending := pending\<rparr>) frs)"

definition producer_flush_padded :: "system_queue \<Rightarrow> system_queue" where
  "producer_flush_padded q =
     (if \<not> sy_sender q then q
      else let (frs, pending) = chunker_flush_padded (sy_pending q)
           in foldl try_push_frame (q\<lparr>sy_pending := pending\<rparr>) frs)"

definition consumer_drain :: "system_queue \<Rightarrow> 16 word list list \<times> system_queue" where
  "consumer_drain q = (sy_channel q, q\<lparr>sy_channel := []\<rparr>)"

text \<open>
  \<open>take_drop_diagnostic\<close>; \<open>due\<close> is its test of the clock (forced, never reported before, or the
  last report at least a second ago), and the answer is the number it puts into the message.
\<close>

definition take_drop_diagnostic :: "bool \<Rightarrow> system_queue \<Rightarrow> nat option \<times> system_queue" where
  "take_drop_diagnostic due q =
     (let unreported = sy_dropped q - sy_reported_drops q
      in if unreported = 0 then (None, q)
         else if \<not> due then (None, q)
         else (Some unreported, q\<lparr>sy_reported_drops := sy_dropped q\<rparr>))"

definition format_drop_diagnostic :: "nat \<Rightarrow> rstr" where
  "format_drop_diagnostic dropped =
     lit ''Dropped '' @ show_nat dropped @ lit '' system-audio frame(s) (~''
       @ show_nat (min (dropped * 20) u64_max) @ lit '' ms) because the consumer lagged; audio was discarded.''"


text \<open>A channel whose receiver is gone has no room: what is sent to it is lost.\<close>

definition channel_room :: "system_queue \<Rightarrow> nat" where
  "channel_room q = (if sy_receiver q then sy_capacity q else 0)"

interpretation channel: bounded_fifo
  "\<lambda>q fr. (sy_receiver q \<and> length (sy_channel q) < sy_capacity q, try_push_frame q fr)"
  consumer_drain sy_channel channel_room "\<lambda>q. 0 < sy_dropped q \<or> \<not> sy_receiver q"
  by unfold_locales (auto simp: try_push_frame_def consumer_drain_def channel_room_def split: if_splits)

lemma push_frames_account:
  "sy_receiver q \<Longrightarrow> sy_receiver (foldl try_push_frame q frs)
     \<and> length (sy_channel (foldl try_push_frame q frs)) + sy_dropped (foldl try_push_frame q frs)
       = length (sy_channel q) + sy_dropped q + length frs
     \<and> (\<exists>acc. subseq acc frs \<and> sy_channel (foldl try_push_frame q frs) = sy_channel q @ acc)
     \<and> sy_pending (foldl try_push_frame q frs) = sy_pending q"
proof (induction frs arbitrary: q)
  case (Cons fr frs)
  let ?q = "try_push_frame q fr"
  have r: "sy_receiver ?q" "sy_pending ?q = sy_pending q" using Cons.prems by (simp_all add: try_push_frame_def)
  obtain acc where acc: "subseq acc frs" "sy_channel (foldl try_push_frame ?q frs) = sy_channel ?q @ acc"
    using Cons.IH [OF r(1)] by blast
  have "\<exists>acc. subseq acc (fr # frs) \<and> sy_channel (foldl try_push_frame ?q frs) = sy_channel q @ acc"
    using acc Cons.prems
    by (cases "length (sy_channel q) < sy_capacity q") (auto simp: try_push_frame_def intro: exI [of _ "fr # acc"])
  then show ?case
    using Cons.IH [OF r(1)] Cons.prems r by (auto simp: try_push_frame_def)
qed simp

section \<open>The capture engine\<close>

record capture_input_format =
  ci_sample_rate_hz :: nat
  ci_channels :: nat

definition input_format_new :: "nat \<Rightarrow> nat \<Rightarrow> capture_engine_error + capture_input_format" where
  "input_format_new sample_rate_hz channels =
     (if sample_rate_hz = 0 then Inl ZeroSampleRate
      else if channels = 0 then Inl ZeroChannels
      else Inr \<lparr>ci_sample_rate_hz = sample_rate_hz, ci_channels = channels\<rparr>)"

record 'r capture_engine =
  ce_input :: capture_input_format
  ce_frame_duration_ms :: nat
  ce_frame_sample_count :: nat
  ce_pending_output :: "16 word list"
  ce_resampler :: 'r
  ce_next_seq :: nat
  ce_next_start_ms :: nat

definition capture_engine_new ::
  "'r \<Rightarrow> capture_input_format \<Rightarrow> nat \<Rightarrow> capture_engine_error + 'r capture_engine" where
  "capture_engine_new fresh_resampler input frame_duration =
     (if ci_sample_rate_hz input = 0 then Inl ZeroSampleRate
      else if ci_channels input = 0 then Inl ZeroChannels
      else rbind (map_err FrameError (sample_count_for_duration_ms pcm16_mono_16khz frame_duration))
        (\<lambda>n. Inr \<lparr>ce_input = input, ce_frame_duration_ms = frame_duration, ce_frame_sample_count = n,
                  ce_pending_output = [], ce_resampler = fresh_resampler, ce_next_seq = 1,
                  ce_next_start_ms = 0\<rparr>))"

text \<open>\<open>chunks_exact(n)\<close> of a slice whose length is a multiple of \<open>n > 0\<close>.\<close>

function chunks_exact :: "nat \<Rightarrow> 'a list \<Rightarrow> 'a list list" where
  "chunks_exact n xs = (if n = 0 \<or> length xs < n then [] else take n xs # chunks_exact n (drop n xs))"
  by auto
termination chunks_exact by (relation "measure (\<lambda>(n, xs). length xs)") auto

declare chunks_exact.simps [simp del]

definition downmix_interleaved ::
  "('f list \<Rightarrow> 'f) \<Rightarrow> 'a list \<Rightarrow> nat \<Rightarrow> ('a \<Rightarrow> 'f) \<Rightarrow> capture_engine_error + 'f list" where
  "downmix_interleaved average samples channels convert =
     (if channels = 0 \<or> length samples mod channels \<noteq> 0
      then Inl (NonMultipleOfChannels (length samples) channels)
      else Inr (map (\<lambda>fr. average (map convert fr)) (chunks_exact channels samples)))"

text \<open>
  The loop drains one frame at a time. A frame that cannot be built ends it with the error:
  its samples and the frames cut before it are gone, the counters keep their values.
\<close>

function drain_frames ::
  "'r capture_engine \<Rightarrow> (capture_engine_error + realtime_audio_frame list) \<times> 'r capture_engine" where
  "drain_frames e =
     (if ce_frame_sample_count e \<le> length (ce_pending_output e)
      then let samples = take (ce_frame_sample_count e) (ce_pending_output e);
               e1 = e\<lparr>ce_pending_output := drop (ce_frame_sample_count e) (ce_pending_output e)\<rparr>
           in case frame_new (ce_next_seq e) (ce_next_start_ms e) pcm16_mono_16khz samples of
                Inl err \<Rightarrow> (Inl (FrameError err), e1)
              | Inr frame \<Rightarrow>
                  (let (r, e2) = drain_frames (e1\<lparr>ce_next_seq := u64_add (ce_next_seq e1) 1,
                       ce_next_start_ms := u64_add (ce_next_start_ms e1) (ce_frame_duration_ms e1)\<rparr>)
                   in (rbind r (\<lambda>frames. Inr (frame # frames)), e2))
      else (Inr [], e))"
  by auto

lemma frame_new_empty: "frame_new seq start pcm16_mono_16khz [] \<noteq> Inr f"
  by (simp add: frame_new_ok_iff valid_frame_def)

termination drain_frames
proof (relation "measure (\<lambda>e. length (ce_pending_output e))")
  fix e :: "'r capture_engine" and samples e1 and f :: realtime_audio_frame
  assume a: "ce_frame_sample_count e \<le> length (ce_pending_output e)"
    "samples = take (ce_frame_sample_count e) (ce_pending_output e)"
    "e1 = e\<lparr>ce_pending_output := drop (ce_frame_sample_count e) (ce_pending_output e)\<rparr>"
    "frame_new (ce_next_seq e) (ce_next_start_ms e) pcm16_mono_16khz samples = Inr f"
  have "0 < ce_frame_sample_count e"
    using a(2,4) frame_new_empty by (cases "ce_frame_sample_count e") auto
  then show "(e1\<lparr>ce_next_seq := u64_add (ce_next_seq e1) 1,
      ce_next_start_ms := u64_add (ce_next_start_ms e1) (ce_frame_duration_ms e1)\<rparr>, e)
      \<in> measure (\<lambda>e. length (ce_pending_output e))"
    using a(1) by (simp add: a(3))
qed simp

declare drain_frames.simps [simp del]

definition push_mono_f32 ::
  "('f \<Rightarrow> 16 word) \<Rightarrow> ('r \<Rightarrow> 'f list \<Rightarrow> 16 word list \<times> 'r) \<Rightarrow> 'r capture_engine \<Rightarrow> 'f list
     \<Rightarrow> (capture_engine_error + realtime_audio_frame list) \<times> 'r capture_engine" where
  "push_mono_f32 f32_to_i16 resample e mixed =
     (let (pcm16, e1) =
            (if ci_sample_rate_hz (ce_input e) = default_realtime_sample_rate_hz
             then (map f32_to_i16 mixed, e)
             else let (out, r) = resample (ce_resampler e) mixed in (out, e\<lparr>ce_resampler := r\<rparr>))
      in drain_frames (e1\<lparr>ce_pending_output := ce_pending_output e1 @ pcm16\<rparr>))"

text \<open>
  \<open>push_f32_interleaved\<close>, \<open>push_i16_interleaved\<close> and \<open>push_u16_interleaved\<close> are this operation with
  the clamping or scaling of their sample type as \<open>convert\<close>.
\<close>

definition push_interleaved ::
  "('f list \<Rightarrow> 'f) \<Rightarrow> ('f \<Rightarrow> 16 word) \<Rightarrow> ('r \<Rightarrow> 'f list \<Rightarrow> 16 word list \<times> 'r) \<Rightarrow> ('a \<Rightarrow> 'f)
     \<Rightarrow> 'r capture_engine \<Rightarrow> 'a list
     \<Rightarrow> (capture_engine_error + realtime_audio_frame list) \<times> 'r capture_engine" where
  "push_interleaved average f32_to_i16 resample convert e samples =
     (case downmix_interleaved average samples (ci_channels (ce_input e)) convert of
        Inl err \<Rightarrow> (Inl err, e)
      | Inr mixed \<Rightarrow> push_mono_f32 f32_to_i16 resample e mixed)"


section \<open>Framing\<close>

definition engine_ok :: "'r capture_engine \<Rightarrow> bool" where
  "engine_ok e \<longleftrightarrow> ce_frame_duration_ms e \<in> {10, 20, 30} \<and> ce_frame_sample_count e = 16 * ce_frame_duration_ms e"

lemma capture_engine_new_ok:
  "capture_engine_new r input d = Inr e \<Longrightarrow> engine_ok e \<and> ce_pending_output e = [] \<and> ce_next_seq e = 1
     \<and> ce_next_start_ms e = 0 \<and> ce_frame_duration_ms e = d"
  by (auto simp: capture_engine_new_def engine_ok_def sample_count_for_duration_ms_def
      validate_frame_duration_ok_iff pcm16_mono_16khz_def audio_consts split: if_splits)

definition frames_samples :: "realtime_audio_frame list \<Rightarrow> 16 word list" where
  "frames_samples fs = concat (map fr_samples fs)"

text \<open>
  \<open>cut d start seq pcm fs rest\<close>: the samples \<open>pcm\<close> are cut into the frames \<open>fs\<close> of \<open>d\<close> ms, numbered
  and timed from \<open>seq\<close> and \<open>start\<close>, and \<open>rest\<close> is too short for another frame.
\<close>

definition cut :: "nat \<Rightarrow> nat \<Rightarrow> nat \<Rightarrow> 16 word list \<Rightarrow> realtime_audio_frame list \<Rightarrow> 16 word list \<Rightarrow> bool" where
  "cut d start seq pcm fs rest \<longleftrightarrow>
     frames_samples fs @ rest = pcm \<and> length rest < 16 * d
   \<and> list_all (\<lambda>f. valid_frame f \<and> frame_duration_ms f = d) fs
   \<and> contiguous start fs \<and> map fr_seq fs = [seq ..< seq + length fs]"

definition advanced :: "'r capture_engine \<Rightarrow> realtime_audio_frame list \<Rightarrow> 16 word list \<Rightarrow> 'r capture_engine" where
  "advanced e fs rest = e\<lparr>ce_pending_output := rest, ce_next_seq := ce_next_seq e + length fs,
     ce_next_start_ms := ce_next_start_ms e + frames_ms fs\<rparr>"

lemma frames_samples_simps [simp]:
  "frames_samples [] = []" "frames_samples (f # fs) = fr_samples f @ frames_samples fs"
  "frames_samples (xs @ ys) = frames_samples xs @ frames_samples ys"
  by (simp_all add: frames_samples_def)

lemma cut_append:
  assumes "cut d start seq p fs r" and "cut d (start + frames_ms fs) (seq + length fs) (r @ q) gs r'"
  shows "cut d start seq (p @ q) (fs @ gs) r'"
proof -
  have "frames_samples gs @ r' = r @ q" "frames_samples fs @ r = p" using assms by (simp_all add: cut_def)
  then have "frames_samples (fs @ gs) @ r' = p @ q" by (metis append.assoc frames_samples_simps(3))
  then show ?thesis
    using assms upt_add_eq_append [of seq "seq + length fs" "length gs"]
    by (simp add: cut_def contiguous_append add.assoc)
qed

lemma frames_le_samples:
  "list_all (\<lambda>f. valid_frame f \<and> frame_duration_ms f = d) fs \<Longrightarrow>
   frames_ms fs \<le> length (frames_samples fs) \<and> length fs \<le> length (frames_samples fs)"
proof (induction fs)
  case (Cons f fs)
  then have "frame_duration_ms f \<le> length (fr_samples f)" "1 \<le> length (fr_samples f)"
    using frame_duration_ms_valid [of f] by (auto simp: valid_frame_def)
  then show ?case using Cons by simp
qed simp

lemma drain_frames_spec:
  assumes "engine_ok e" and "ce_next_start_ms e + length (ce_pending_output e) < u64_limit"
    and "ce_next_seq e + length (ce_pending_output e) < u64_limit"
  shows "\<exists>fs rest. drain_frames e = (Inr fs, advanced e fs rest)
    \<and> cut (ce_frame_duration_ms e) (ce_next_start_ms e) (ce_next_seq e) (ce_pending_output e) fs rest"
  using assms
proof (induction e rule: drain_frames.induct)
  case (1 e)
  let ?n = "ce_frame_sample_count e" and ?d = "ce_frame_duration_ms e" and ?p = "ce_pending_output e"
  have n: "?n \<in> {160, 320, 480}" "?n = 16 * ?d" using "1.prems"(1) by (auto simp: engine_ok_def)
  show ?case
  proof (cases "?n \<le> length ?p")
    case True
    define e1 where "e1 = e\<lparr>ce_pending_output := drop ?n ?p\<rparr>"
    define e2 where "e2 = e1\<lparr>ce_next_seq := u64_add (ce_next_seq e1) 1,
      ce_next_start_ms := u64_add (ce_next_start_ms e1) (ce_frame_duration_ms e1)\<rparr>"
    define f where "f = \<lparr>fr_seq = ce_next_seq e, fr_start_ms = ce_next_start_ms e,
      fr_format = pcm16_mono_16khz, fr_samples = take ?n ?p\<rparr>"
    have vf: "valid_frame f"
      using n True by (auto simp: f_def valid_frame_def pcm16_mono_16khz_def audio_consts)
    have df: "frame_duration_ms f = ?d"
      using frame_duration_ms_valid [OF vf] n True by (simp add: f_def)
    have fn: "frame_new (ce_next_seq e) (ce_next_start_ms e) pcm16_mono_16khz (take ?n ?p) = Inr f"
      using vf n by (subst frame_new_ok_iff) (auto simp: f_def)
    have "u64_add (ce_next_seq e) 1 = ce_next_seq e + 1" "u64_add (ce_next_start_ms e) ?d = ce_next_start_ms e + ?d"
      using "1.prems"(2,3) n True by (auto simp: wrap_simps)
    then have e2: "e2 = e\<lparr>ce_pending_output := drop ?n ?p, ce_next_seq := ce_next_seq e + 1,
        ce_next_start_ms := ce_next_start_ms e + ?d\<rparr>"
      by (simp add: e2_def e1_def)
    have "engine_ok e2" "ce_next_start_ms e2 + length (ce_pending_output e2) < u64_limit"
      "ce_next_seq e2 + length (ce_pending_output e2) < u64_limit"
      using "1.prems" n True by (auto simp: e2 engine_ok_def)
    then obtain fs rest where ih: "drain_frames e2 = (Inr fs, advanced e2 fs rest)"
        "cut ?d (ce_next_start_ms e2) (ce_next_seq e2) (drop ?n ?p) fs rest"
      using "1.IH" [OF True refl refl, of f] fn by (auto simp: e2_def e1_def)
    have "drain_frames e = (Inr (f # fs), advanced e2 fs rest)"
      using True fn ih(1) unfolding drain_frames.simps [of e] Let_def e1_def [symmetric] e2_def [symmetric] by simp
    moreover have "advanced e2 fs rest = advanced e (f # fs) rest"
      by (simp add: e2 advanced_def df)
    moreover have "cut ?d (ce_next_start_ms e) (ce_next_seq e) ?p (f # fs) rest"
      using ih(2) vf df True
      by (auto simp: cut_def e2 f_def upt_conv_Cons append_take_drop_id simp del: upt_Suc)
    ultimately show ?thesis by metis
  next
    case False
    then show ?thesis
      using n by (intro exI [where x = "[]"] exI [where x = ?p])
        (simp add: drain_frames.simps [of e] cut_def advanced_def)
  qed
qed

definition out_frames :: "(capture_engine_error + realtime_audio_frame list) list \<Rightarrow> realtime_audio_frame list" where
  "out_frames rs = concat (map (\<lambda>r. case r of Inr fs \<Rightarrow> fs | Inl _ \<Rightarrow> []) rs)"

lemma out_frames_simps [simp]:
  "out_frames [] = []" "out_frames (Inr fs # rs) = fs @ out_frames rs"
  by (simp_all add: out_frames_def)

lemma push_mono_native:
  "ci_sample_rate_hz (ce_input e) = 16000 \<Longrightarrow> push_mono_f32 conv resample e xs
     = drain_frames (e\<lparr>ce_pending_output := ce_pending_output e @ map conv xs\<rparr>)"
  by (simp add: push_mono_f32_def audio_consts)

text \<open>Feeding chunk after chunk cuts the whole stream.\<close>

lemma native_run_spec:
  fixes conv :: "'f \<Rightarrow> 16 word" and resample :: "'r \<Rightarrow> 'f list \<Rightarrow> 16 word list \<times> 'r"
  assumes "engine_ok e" and "ci_sample_rate_hz (ce_input e) = 16000"
    and "length (ce_pending_output e) < 16 * ce_frame_duration_ms e"
    and "ce_next_start_ms e + length (ce_pending_output e) + length (concat chunks) < u64_limit"
    and "ce_next_seq e + length (ce_pending_output e) + length (concat chunks) < u64_limit"
  shows "list_all is_ok (fst (run (push_mono_f32 conv resample) e chunks))
    \<and> cut (ce_frame_duration_ms e) (ce_next_start_ms e) (ce_next_seq e) (ce_pending_output e @ map conv (concat chunks))
        (out_frames (fst (run (push_mono_f32 conv resample) e chunks)))
        (ce_pending_output (snd (run (push_mono_f32 conv resample) e chunks)))"
  using assms
proof (induction chunks arbitrary: e)
  case Nil
  then show ?case by (simp add: cut_def)
next
  case (Cons xs chunks)
  let ?p = "ce_pending_output e @ map conv xs"
  let ?e = "e\<lparr>ce_pending_output := ?p\<rparr>"
  have "engine_ok ?e" using Cons.prems(1) by (simp add: engine_ok_def)
  then obtain fs rest where d: "drain_frames ?e = (Inr fs, advanced ?e fs rest)"
      "cut (ce_frame_duration_ms e) (ce_next_start_ms e) (ce_next_seq e) ?p fs rest"
    using drain_frames_spec [of ?e] Cons.prems by auto
  define e' where "e' = advanced ?e fs rest"
  have e': "ce_pending_output e' = rest" "ce_next_seq e' = ce_next_seq e + length fs"
    "ce_next_start_ms e' = ce_next_start_ms e + frames_ms fs" "ce_frame_duration_ms e' = ce_frame_duration_ms e"
    "ce_input e' = ce_input e" "engine_ok e'"
    using Cons.prems(1) by (simp_all add: e'_def advanced_def engine_ok_def)
  have p: "push_mono_f32 conv resample e xs = (Inr fs, e')"
    using d(1) push_mono_native [OF Cons.prems(2), of conv resample xs] by (simp add: e'_def)
  have "length (frames_samples fs) + length rest = length (ce_pending_output e) + length xs"
    using d(2) by (auto simp: cut_def dest!: arg_cong [where f = length])
  moreover have "frames_ms fs \<le> length (frames_samples fs)" "length fs \<le> length (frames_samples fs)"
    "length rest < 16 * ce_frame_duration_ms e"
    using frames_le_samples [of "ce_frame_duration_ms e" fs] d(2) by (simp_all add: cut_def)
  ultimately show ?case
    using Cons.IH [of e'] Cons.prems(2,4,5) cut_append [OF d(2)] p e' by (simp add: add.assoc)
qed


section \<open>Properties\<close>

text \<open>
  A 16 kHz stream is framed exactly, however it is chunked: every push succeeds, the
  samples of the emitted frames followed by the samples still pending are the converted
  stream, the frames have the configured duration, are numbered 1, 2, 3, ... and follow each
  other in time without a gap from 0, and less than one frame is pending.
\<close>

theorem capture_frames_cover_stream:
  fixes conv :: "'f \<Rightarrow> 16 word" and resample :: "'r \<Rightarrow> 'f list \<Rightarrow> 16 word list \<times> 'r"
  assumes "capture_engine_new r input d = Inr e" and "ci_sample_rate_hz input = 16000"
    and "length (concat chunks) < u64_max"
  shows "list_all is_ok (fst (run (push_mono_f32 conv resample) e chunks))
    \<and> cut d 0 1 (map conv (concat chunks)) (out_frames (fst (run (push_mono_f32 conv resample) e chunks)))
        (ce_pending_output (snd (run (push_mono_f32 conv resample) e chunks)))"
proof -
  have "ce_input e = input"
    using assms(1) by (auto simp: capture_engine_new_def split: if_splits)
  then show ?thesis
    using native_run_spec [of e chunks conv resample] capture_engine_new_ok [OF assms(1)] assms(2,3)
    by (auto simp: engine_ok_def)
qed

theorem capture_frames_cover_stream_witness:
  "\<exists>e. capture_engine_new () \<lparr>ci_sample_rate_hz = 16000, ci_channels = 1\<rparr> 10 = Inr e
     \<and> cut 10 0 1 (map id (replicate 200 0)) (out_frames (fst (run (push_mono_f32 id (\<lambda>r xs. (xs, r))) e [replicate 200 0])))
        (ce_pending_output (snd (run (push_mono_f32 id (\<lambda>r xs. (xs, r))) e [replicate 200 0])))"
proof -
  obtain e where e: "capture_engine_new () \<lparr>ci_sample_rate_hz = 16000, ci_channels = 1\<rparr> 10 = Inr e"
    by (simp add: capture_engine_new_def sample_count_for_duration_ms_def validate_frame_duration_ms_def
        supported_frame_durations_ms_def)
  then show ?thesis
    using capture_frames_cover_stream [OF e, of "[replicate 200 0]" id "\<lambda>r xs. (xs, r)"] by simp
qed

text \<open>
  The hand-off queue loses nothing silently: it never holds more than its capacity, what
  it delivers and still holds is a subsequence of what was pushed, and unless its overflow
  flag is set it is exactly what was pushed, in order.
\<close>

theorem handoff_queue_no_silent_loss:
  fixes q :: "'a capture_queue" and ops :: "'a fifo_op list"
  assumes "capture_queue_new capacity = Inr q"
    and "r = run (fifo_step (\<lambda>q x. map_prod (\<lambda>r. r = Accepted) id (try_push q x)) capture_queue_drain) q ops"
  shows "length (q_items (snd r)) \<le> capacity \<and> subseq (concat (fst r) @ q_items (snd r)) (pushed ops)
    \<and> (q_overflowed (snd r) \<or> concat (fst r) @ q_items (snd r) = pushed ops)"
proof -
  have q: "q_items q = []" "q_capacity q = capacity"
    using assms(1) by (auto simp: capture_queue_new_def split: if_splits)
  show ?thesis
    using handoff.run_bounded [of q ops] handoff.run_order [of q ops] handoff.run_no_silent_loss [of q ops] q
    unfolding assms(2) by auto
qed

theorem handoff_queue_no_silent_loss_witness:
  "let r = run (fifo_step (\<lambda>q x. map_prod (\<lambda>r. r = Accepted) id (try_push q x)) capture_queue_drain)
       \<lparr>q_capacity = 1, q_items = [], q_overflowed = False\<rparr> [PushItem (7::nat), DrainAll, PushItem 8]
   in concat (fst r) @ q_items (snd r) = [7, 8]"
  using handoff_queue_no_silent_loss [of 1 "\<lparr>q_capacity = 1, q_items = [], q_overflowed = False\<rparr>" _
      "[PushItem (7::nat), DrainAll, PushItem 8]", OF _ refl]
  by (simp add: capture_queue_new_def try_push_def capture_queue_drain_def)

text \<open>
  The chunker keeps every byte: the frames it emits for a run of bytes have exactly 320
  samples, their little-endian bytes followed by the pending ones are the bytes it was given,
  and fewer than one frame's bytes stay pending.
\<close>

theorem chunker_keeps_every_byte:
  "list_all (\<lambda>fr. length fr = 320) (fst (chunker_push_bytes pending bytes))
   \<and> concat (map (\<lambda>fr. concat (map i16_to_le_bytes fr)) (fst (chunker_push_bytes pending bytes)))
      @ snd (chunker_push_bytes pending bytes) = pending @ bytes
   \<and> length (snd (chunker_push_bytes pending bytes)) < 640"
  using emit_complete_frames_spec [of "pending @ bytes"]
  by (simp add: chunker_push_bytes_def target_frame_samples_def)

text \<open>
  The system audio queue accounts for every frame: while its consumer is alive, each
  complete frame of the pushed bytes is queued, behind those already queued and in order, or
  counted as dropped.
\<close>

theorem system_queue_accounts_for_frames:
  assumes "sy_receiver q" and "sy_sender q" and "q' = producer_push_bytes q bytes"
    and "frs = fst (chunker_push_bytes (sy_pending q) bytes)"
  shows "length (sy_channel q') + sy_dropped q' = length (sy_channel q) + sy_dropped q + length frs
    \<and> (\<exists>acc. subseq acc frs \<and> sy_channel q' = sy_channel q @ acc)
    \<and> sy_pending q' = snd (chunker_push_bytes (sy_pending q) bytes)"
  using push_frames_account [of "q\<lparr>sy_pending := snd (chunker_push_bytes (sy_pending q) bytes)\<rparr>" frs] assms
  by (simp add: producer_push_bytes_def split_def Let_def)

theorem system_queue_accounts_for_frames_witness:
  "length (sy_channel (producer_push_bytes (capture_queue_with_capacity 1) [1, 2]))
     + sy_dropped (producer_push_bytes (capture_queue_with_capacity 1) [1, 2])
   = length (fst (chunker_push_bytes [] [1, 2]))"
  using system_queue_accounts_for_frames [of "capture_queue_with_capacity 1", OF _ _ refl refl, of "[1, 2]"]
  by (simp add: capture_queue_with_capacity_def)

end
