(* ===== verification/Session_Ingest.thy ===== *)
theory Session_Ingest
  imports Session_Setup Audio_Capture
begin

text \<open>
  The audio intake of a websocket session (\<open>crates/openasr-server/src/realtime/ws_session.rs\<close>):
  negotiating the audio format, the carry buffer of a binary message and the frames cut from it.
  The record holds the fields of \<open>WsSession\<close> these handlers read or write. A handler that emits an
  error event and returns \<open>Err(())\<close> returns here the error it reports.
\<close>

section \<open>State\<close>

record ws_intake =
  wi_started :: bool
  wi_carry :: "8 word list"
  wi_frame_duration_ms :: nat
  wi_frame_byte_len :: nat
  wi_next_frame_seq :: nat
  wi_next_frame_start_ms :: nat

definition default_frame_duration_ms :: nat where
  "default_frame_duration_ms = 20"

definition max_ws_message_bytes :: nat where
  "max_ws_message_bytes = 64 * 1024"

datatype ws_intake_error =
    ConfigureAfterStart
  | ClientFormatRejected client_audio_error
  | FrameDurationRejected realtime_frame_error
  | MessageTooLarge
  | FrameRejected realtime_frame_error

fun ws_intake_error_code :: "ws_intake_error \<Rightarrow> realtime_error_code" where
  "ws_intake_error_code ConfigureAfterStart = StartupConfigError"
| "ws_intake_error_code (ClientFormatRejected _) = UnsupportedAudioFormat"
| "ws_intake_error_code (FrameDurationRejected _) = UnsupportedAudioFormat"
| "ws_intake_error_code MessageTooLarge = UnsupportedAudioFormat"
| "ws_intake_error_code (FrameRejected _) = UnsupportedAudioFormat"

text \<open>
  A new connection: 20 ms frames, whose 320 samples are 640 bytes (the \<open>expect\<close> does not fail:
  \<open>ws_intake_new_ok\<close> below).
\<close>

definition ws_intake_new :: ws_intake where
  "ws_intake_new = \<lparr>wi_started = False, wi_carry = [], wi_frame_duration_ms = default_frame_duration_ms,
     wi_frame_byte_len = (case sample_count_for_duration_ms pcm16_mono_16khz default_frame_duration_ms of
        Inr n \<Rightarrow> n * 2 | Inl _ \<Rightarrow> 0),
     wi_next_frame_seq = 1, wi_next_frame_start_ms = 0\<rparr>"

section \<open>Handlers\<close>

definition configure_audio ::
  "ws_intake \<Rightarrow> client_audio_format option \<Rightarrow> nat option \<Rightarrow> (ws_intake_error + unit) \<times> ws_intake" where
  "configure_audio w format frame_ms =
     (if wi_started w then (Inl ConfigureAfterStart, w)
      else case try_into_realtime (unwrap_or format client_audio_format_default) of
        Inl e \<Rightarrow> (Inl (ClientFormatRejected e), w)
      | Inr fmt \<Rightarrow>
          (case sample_count_for_duration_ms fmt (unwrap_or frame_ms default_frame_duration_ms) of
             Inl e \<Rightarrow> (Inl (FrameDurationRejected e), w)
           | Inr n \<Rightarrow> (Inr (), w\<lparr>wi_frame_duration_ms := unwrap_or frame_ms default_frame_duration_ms,
                                 wi_frame_byte_len := n * 2\<rparr>)))"

definition ingest_binary_bytes :: "ws_intake \<Rightarrow> 8 word list \<Rightarrow> (ws_intake_error + unit) \<times> ws_intake" where
  "ingest_binary_bytes w bytes =
     (if max_ws_message_bytes < length bytes then (Inl MessageTooLarge, w)
      else (Inr (), w\<lparr>wi_carry := wi_carry w @ bytes\<rparr>))"

definition next_buffered_frame ::
  "ws_intake \<Rightarrow> (ws_intake_error + realtime_audio_frame option) \<times> ws_intake" where
  "next_buffered_frame w =
     (if length (wi_carry w) < wi_frame_byte_len w then (Inr None, w)
      else let frame_bytes = take (wi_frame_byte_len w) (wi_carry w);
               w1 = w\<lparr>wi_carry := drop (wi_frame_byte_len w) (wi_carry w)\<rparr>
           in case frame_from_pcm16le_bytes (wi_next_frame_seq w1) (wi_next_frame_start_ms w1)
                     \<lparr>af_encoding = PcmS16Le, af_sample_rate_hz = 16000, af_channels = 1\<rparr> frame_bytes of
                Inr frame \<Rightarrow>
                  (Inr (Some frame),
                   w1\<lparr>wi_next_frame_seq := u64_add (wi_next_frame_seq w1) 1,
                      wi_next_frame_start_ms := u64_add (wi_next_frame_start_ms w1) (wi_frame_duration_ms w1)\<rparr>)
              | Inl e \<Rightarrow> (Inl (FrameRejected e), w1))"

text \<open>No frame is made of zero bytes, so a loop that goes on has shortened the carry buffer.\<close>

lemma next_buffered_frame_shrinks:
  assumes "next_buffered_frame w = (Inr (Some f), w')"
  shows "length (wi_carry w') < length (wi_carry w)"
proof (cases "wi_frame_byte_len w")
  case 0
  then show ?thesis
    using assms by (simp add: next_buffered_frame_def frame_from_pcm16le_bytes_def pcm16le_bytes_to_samples_def
        frame_new_def validate_normalized_def duration_ms_def validate_frame_duration_ms_def audio_consts Let_def)
next
  case (Suc n)
  then show ?thesis
    using assms by (auto simp: next_buffered_frame_def Let_def split: if_splits sum.splits)
qed

text \<open>
  The loop of the binary handlers. Each frame goes to the session as soon as it is cut (the queue
  between them is emptied after every frame); here the loop returns the frames, also those that
  came before an error.
\<close>

function take_buffered_frames :: "ws_intake \<Rightarrow> realtime_audio_frame list \<times> (ws_intake_error + unit) \<times> ws_intake" where
  "take_buffered_frames w =
     (case next_buffered_frame w of
        (Inl e, w') \<Rightarrow> ([], Inl e, w')
      | (Inr None, w') \<Rightarrow> ([], Inr (), w')
      | (Inr (Some f), w') \<Rightarrow>
          (let (fs, r, w'') = take_buffered_frames w' in (f # fs, r, w'')))"
  by auto
termination take_buffered_frames
  by (relation "measure (\<lambda>w. length (wi_carry w))") (auto dest!: sym next_buffered_frame_shrinks)

declare take_buffered_frames.simps [simp del]

definition intake_binary ::
  "ws_intake \<Rightarrow> 8 word list \<Rightarrow> (realtime_audio_frame list \<times> (ws_intake_error + unit)) \<times> ws_intake" where
  "intake_binary w bytes =
     (case ingest_binary_bytes w bytes of
        (Inl e, w') \<Rightarrow> (([], Inl e), w')
      | (Inr _, w') \<Rightarrow> (case take_buffered_frames w' of (fs, r, w'') \<Rightarrow> ((fs, r), w'')))"

section \<open>Framing\<close>

definition intake_ok :: "ws_intake \<Rightarrow> bool" where
  "intake_ok w \<longleftrightarrow> wi_frame_duration_ms w \<in> {10, 20, 30} \<and> wi_frame_byte_len w = 32 * wi_frame_duration_ms w"

lemma ws_intake_new_ok: "intake_ok ws_intake_new"
  by (simp add: intake_ok_def ws_intake_new_def default_frame_duration_ms_def sample_count_for_duration_ms_def
      validate_frame_duration_ms_def pcm16_mono_16khz_def audio_consts validate_normalized_def)

lemma sample_count_16khz:
  "sample_count_for_duration_ms fmt d = Inr n \<Longrightarrow> d \<in> {10, 20, 30} \<and> n = 16 * d"
  by (auto simp: sample_count_for_duration_ms_def validate_normalized_def validate_frame_duration_ms_def audio_consts
      split: if_splits)

lemma configure_audio_ok:
  "intake_ok w \<Longrightarrow> intake_ok (snd (configure_audio w format frame_ms))"
  by (auto simp: configure_audio_def intake_ok_def split: sum.split dest!: sample_count_16khz)

definition frame_bytes :: "realtime_audio_frame list \<Rightarrow> 8 word list" where
  "frame_bytes fs = concat (map i16_to_le_bytes (frames_samples fs))"

lemma frame_bytes_simps [simp]:
  "frame_bytes [] = []" "frame_bytes (f # fs) = concat (map i16_to_le_bytes (fr_samples f)) @ frame_bytes fs"
  "frame_bytes (xs @ ys) = frame_bytes xs @ frame_bytes ys"
  by (simp_all add: frame_bytes_def)

text \<open>
  \<open>byte_cut d start seq bytes fs rest\<close>: the bytes are cut into the frames \<open>fs\<close> of \<open>d\<close> ms, numbered
  and timed from \<open>seq\<close> and \<open>start\<close>, and \<open>rest\<close> is too short for another frame.
\<close>

definition byte_cut :: "nat \<Rightarrow> nat \<Rightarrow> nat \<Rightarrow> 8 word list \<Rightarrow> realtime_audio_frame list \<Rightarrow> 8 word list \<Rightarrow> bool" where
  "byte_cut d start seq bytes fs rest \<longleftrightarrow>
     frame_bytes fs @ rest = bytes \<and> length rest < 32 * d \<and> list_all (frame_between d d) fs
   \<and> contiguous start fs \<and> map fr_seq fs = [seq ..< seq + length fs]"

lemma byte_cut_append:
  assumes "byte_cut d start seq p fs r" and "byte_cut d (start + frames_ms fs) (seq + length fs) (r @ q) gs r'"
  shows "byte_cut d start seq (p @ q) (fs @ gs) r'"
proof -
  have "frame_bytes (fs @ gs) @ r' = p @ q"
    using assms unfolding byte_cut_def by (metis append.assoc frame_bytes_simps(3))
  then show ?thesis
    using assms upt_add_eq_append [of seq "seq + length fs" "length gs"]
    by (simp add: byte_cut_def contiguous_append add.assoc)
qed

lemma frames_le_bytes:
  "list_all (frame_between d d) fs \<Longrightarrow> frames_ms fs \<le> length (frame_bytes fs) \<and> length fs \<le> length (frame_bytes fs)"
proof (induction fs)
  case (Cons f fs)
  then have "valid_frame f" by (simp add: frame_between_def)
  then have "frame_duration_ms f \<le> length (fr_samples f)" "1 \<le> length (fr_samples f)"
    using frame_duration_ms_valid [of f] by (auto simp: valid_frame_def)
  then show ?case using Cons length_concat_le_bytes [of "fr_samples f"] by simp
qed simp

definition took :: "ws_intake \<Rightarrow> realtime_audio_frame list \<Rightarrow> 8 word list \<Rightarrow> ws_intake" where
  "took w fs rest = w\<lparr>wi_carry := rest, wi_next_frame_seq := wi_next_frame_seq w + length fs,
     wi_next_frame_start_ms := wi_next_frame_start_ms w + frames_ms fs\<rparr>"

lemma next_buffered_frame_ok:
  assumes "intake_ok w" and "wi_frame_byte_len w \<le> length (wi_carry w)"
    and "wi_next_frame_seq w + length (wi_carry w) < u64_limit"
    and "wi_next_frame_start_ms w + length (wi_carry w) < u64_limit"
  shows "\<exists>f. next_buffered_frame w = (Inr (Some f), took w [f] (drop (wi_frame_byte_len w) (wi_carry w)))
    \<and> frame_between (wi_frame_duration_ms w) (wi_frame_duration_ms w) f \<and> fr_seq f = wi_next_frame_seq w
    \<and> fr_start_ms f = wi_next_frame_start_ms w \<and> frame_bytes [f] = take (wi_frame_byte_len w) (wi_carry w)"
proof -
  let ?n = "wi_frame_byte_len w" and ?d = "wi_frame_duration_ms w" and ?b = "take (wi_frame_byte_len w) (wi_carry w)"
  have d: "?d \<in> {10, 20, 30}" "?n = 32 * ?d" using assms(1) by (simp_all add: intake_ok_def)
  have b: "length ?b = 32 * ?d" using assms(2) d(2) by simp
  define f where "f = \<lparr>fr_seq = wi_next_frame_seq w, fr_start_ms = wi_next_frame_start_ms w,
      fr_format = \<lparr>af_encoding = PcmS16Le, af_sample_rate_hz = 16000, af_channels = 1\<rparr>, fr_samples = le_pairs ?b\<rparr>"
  have len: "length (le_pairs ?b) = 16 * ?d" unfolding length_le_pairs b by simp
  have vf: "valid_frame f" using len d(1) unfolding valid_frame_def f_def by auto
  have df: "frame_duration_ms f = ?d" using frame_duration_ms_valid [OF vf] len by (simp add: f_def)
  have nw: "frame_new (wi_next_frame_seq w) (wi_next_frame_start_ms w)
      \<lparr>af_encoding = PcmS16Le, af_sample_rate_hz = 16000, af_channels = 1\<rparr> (le_pairs ?b) = Inr f"
    by (subst frame_new_ok_iff) (use vf len d(1) in \<open>auto simp: f_def\<close>)
  have "frame_from_pcm16le_bytes (wi_next_frame_seq w) (wi_next_frame_start_ms w)
      \<lparr>af_encoding = PcmS16Le, af_sample_rate_hz = 16000, af_channels = 1\<rparr> ?b = Inr f"
    using nw b unfolding frame_from_pcm16le_bytes_def pcm16le_bytes_to_samples_def by simp
  moreover have "u64_add (wi_next_frame_seq w) 1 = wi_next_frame_seq w + 1"
    "u64_add (wi_next_frame_start_ms w) ?d = wi_next_frame_start_ms w + ?d"
    using assms d by (auto simp: wrap_simps)
  ultimately have "next_buffered_frame w = (Inr (Some f), took w [f] (drop ?n (wi_carry w)))"
    using assms(2) by (simp add: next_buffered_frame_def Let_def took_def df)
  moreover have "frame_bytes [f] = ?b"
    using to_le_bytes_le_pairs [of ?b] b by (simp add: f_def)
  ultimately show ?thesis using vf df by (auto simp: frame_between_def f_def)
qed

lemma take_buffered_frames_spec:
  assumes "intake_ok w" and "wi_next_frame_seq w + length (wi_carry w) < u64_limit"
    and "wi_next_frame_start_ms w + length (wi_carry w) < u64_limit"
  shows "\<exists>fs rest. take_buffered_frames w = (fs, Inr (), took w fs rest)
    \<and> byte_cut (wi_frame_duration_ms w) (wi_next_frame_start_ms w) (wi_next_frame_seq w) (wi_carry w) fs rest"
  using assms
proof (induction w rule: take_buffered_frames.induct)
  case (1 w)
  let ?n = "wi_frame_byte_len w" and ?d = "wi_frame_duration_ms w"
  have d: "?d \<in> {10, 20, 30}" "?n = 32 * ?d" using "1.prems"(1) by (simp_all add: intake_ok_def)
  show ?case
  proof (cases "?n \<le> length (wi_carry w)")
    case True
    obtain f where f: "next_buffered_frame w = (Inr (Some f), took w [f] (drop ?n (wi_carry w)))"
        "frame_between ?d ?d f" "fr_seq f = wi_next_frame_seq w" "fr_start_ms f = wi_next_frame_start_ms w"
        "frame_bytes [f] = take ?n (wi_carry w)"
      using next_buffered_frame_ok [OF "1.prems"(1) True "1.prems"(2,3)] by blast
    let ?w = "took w [f] (drop ?n (wi_carry w))"
    have w: "wi_carry ?w = drop ?n (wi_carry w)" "wi_next_frame_seq ?w = wi_next_frame_seq w + 1"
      "wi_next_frame_start_ms ?w = wi_next_frame_start_ms w + ?d" "wi_frame_duration_ms ?w = ?d" "intake_ok ?w"
      using f(2) "1.prems"(1) by (simp_all add: took_def frame_between_def intake_ok_def)
    have "wi_next_frame_seq ?w + length (wi_carry ?w) < u64_limit"
      "wi_next_frame_start_ms ?w + length (wi_carry ?w) < u64_limit"
      using "1.prems" True d unfolding w by auto
    from "1.IH" [OF f(1) [symmetric] refl refl w(5) this] obtain fs rest
      where ih: "take_buffered_frames ?w = (fs, Inr (), took ?w fs rest)"
        "byte_cut ?d (wi_next_frame_start_ms w + ?d) (wi_next_frame_seq w + 1) (drop ?n (wi_carry w)) fs rest"
      unfolding w by blast
    have "take_buffered_frames w = (f # fs, Inr (), took ?w fs rest)"
      using f(1) ih(1) by (simp add: take_buffered_frames.simps [of w])
    moreover have "took ?w fs rest = took w (f # fs) rest" by (simp add: took_def)
    moreover have "byte_cut ?d (wi_next_frame_start_ms w) (wi_next_frame_seq w) (wi_carry w) (f # fs) rest"
      using ih(2) f(2-5) append_take_drop_id [of ?n "wi_carry w"]
      by (auto simp: byte_cut_def frame_between_def upt_conv_Cons simp del: upt_Suc append_take_drop_id)
    ultimately show ?thesis by metis
  next
    case False
    then show ?thesis
      using d by (intro exI [where x = "[]"] exI [where x = "wi_carry w"])
        (simp add: take_buffered_frames.simps [of w] next_buffered_frame_def byte_cut_def took_def)
  qed
qed

definition intake_frames :: "(realtime_audio_frame list \<times> (ws_intake_error + unit)) list \<Rightarrow> realtime_audio_frame list" where
  "intake_frames rs = concat (map fst rs)"

lemma intake_run_spec:
  assumes "intake_ok w" and "list_all (\<lambda>bs. length bs \<le> max_ws_message_bytes) msgs"
    and "length (wi_carry w) < 32 * wi_frame_duration_ms w"
    and "wi_next_frame_seq w + length (wi_carry w) + length (concat msgs) < u64_limit"
    and "wi_next_frame_start_ms w + length (wi_carry w) + length (concat msgs) < u64_limit"
  shows "list_all (\<lambda>r. is_ok (snd r)) (fst (run intake_binary w msgs))
    \<and> byte_cut (wi_frame_duration_ms w) (wi_next_frame_start_ms w) (wi_next_frame_seq w) (wi_carry w @ concat msgs)
        (intake_frames (fst (run intake_binary w msgs))) (wi_carry (snd (run intake_binary w msgs)))"
  using assms
proof (induction msgs arbitrary: w)
  case Nil
  then show ?case by (simp add: byte_cut_def intake_frames_def)
next
  case (Cons bs msgs)
  let ?w = "w\<lparr>wi_carry := wi_carry w @ bs\<rparr>" and ?d = "wi_frame_duration_ms w"
  have "intake_ok ?w" using Cons.prems(1) by (simp add: intake_ok_def)
  then obtain fs rest where t: "take_buffered_frames ?w = (fs, Inr (), took ?w fs rest)"
      "byte_cut ?d (wi_next_frame_start_ms w) (wi_next_frame_seq w) (wi_carry w @ bs) fs rest"
    using take_buffered_frames_spec [of ?w] Cons.prems by auto
  define w' where "w' = took ?w fs rest"
  have w': "wi_carry w' = rest" "wi_next_frame_seq w' = wi_next_frame_seq w + length fs" "intake_ok w'"
    "wi_next_frame_start_ms w' = wi_next_frame_start_ms w + frames_ms fs" "wi_frame_duration_ms w' = ?d"
    using Cons.prems(1) by (simp_all add: w'_def took_def intake_ok_def)
  have i: "intake_binary w bs = ((fs, Inr ()), w')"
    using Cons.prems(2) t(1) by (simp add: intake_binary_def ingest_binary_bytes_def w'_def)
  have "length (frame_bytes fs) + length rest = length (wi_carry w) + length bs" "length rest < 32 * ?d"
    using t(2) by (auto simp: byte_cut_def dest!: arg_cong [where f = length])
  moreover have "frames_ms fs \<le> length (frame_bytes fs)" "length fs \<le> length (frame_bytes fs)"
    using frames_le_bytes [of ?d fs] t(2) by (simp_all add: byte_cut_def)
  ultimately show ?case
    using Cons.IH [of w'] Cons.prems(2,4,5) byte_cut_append [OF t(2)] i w'
    by (simp add: add.assoc intake_frames_def)
qed

lemma configured_intake:
  assumes "w = snd (configure_audio ws_intake_new format frame_ms)"
  shows "intake_ok w" "wi_carry w = []" "wi_next_frame_seq w = 1" "wi_next_frame_start_ms w = 0"
    "0 < wi_frame_duration_ms w" "wi_frame_duration_ms w \<le> 30"
proof -
  show ok: "intake_ok w" unfolding assms by (rule configure_audio_ok [OF ws_intake_new_ok])
  show "wi_carry w = []" "wi_next_frame_seq w = 1" "wi_next_frame_start_ms w = 0"
    unfolding assms by (auto simp: configure_audio_def ws_intake_new_def split: sum.split)
  show "0 < wi_frame_duration_ms w" "wi_frame_duration_ms w \<le> 30" using ok by (auto simp: intake_ok_def)
qed

section \<open>Properties\<close>

text \<open>
  The websocket intake cuts the byte stream exactly, however the client splits it into
  messages: no message within the size limit is refused, the bytes of the frames followed by the
  carried ones are the bytes received, the frames have the negotiated duration, are numbered
  1, 2, 3, ... and follow each other in time without a gap, and less than a frame is carried.
\<close>

theorem websocket_audio_cut_exactly:
  assumes "w = snd (configure_audio ws_intake_new format frame_ms)"
    and "list_all (\<lambda>bs. length bs \<le> max_ws_message_bytes) msgs" and "length (concat msgs) < u64_max"
  shows "list_all (\<lambda>r. is_ok (snd r)) (fst (run intake_binary w msgs))
    \<and> byte_cut (wi_frame_duration_ms w) 0 1 (concat msgs)
        (intake_frames (fst (run intake_binary w msgs))) (wi_carry (snd (run intake_binary w msgs)))"
  using intake_run_spec [OF configured_intake(1) [OF assms(1)] assms(2)] configured_intake(2-) [OF assms(1)] assms(3)
  by simp

theorem websocket_audio_cut_exactly_witness:
  "byte_cut (wi_frame_duration_ms (snd (configure_audio ws_intake_new None (Some 30)))) 0 1 [1, 2, 3]
     (intake_frames (fst (run intake_binary (snd (configure_audio ws_intake_new None (Some 30))) [[1], [2, 3]])))
     (wi_carry (snd (run intake_binary (snd (configure_audio ws_intake_new None (Some 30))) [[1], [2, 3]])))"
  using websocket_audio_cut_exactly [OF refl, of "[[1], [2, 3]]" None "Some 30"]
  by (simp add: max_ws_message_bytes_def)

text \<open>
  The audio format is negotiated strictly: a request is accepted exactly if the session has
  not started and asks for 16 kHz mono PCM in frames of 10, 20 or 30 ms (what it leaves out has
  these values), and a rejected request changes nothing.
\<close>

theorem configure_audio_accepts_iff:
  "(fst (configure_audio w format frame_ms) = Inr () \<longleftrightarrow>
      \<not> wi_started w
      \<and> unwrap_or (ca_encoding (unwrap_or format client_audio_format_default)) (lit ''pcm_s16le'') = lit ''pcm_s16le''
      \<and> unwrap_or (ca_sample_rate_hz (unwrap_or format client_audio_format_default)) 16000 = 16000
      \<and> unwrap_or (ca_channels (unwrap_or format client_audio_format_default)) 1 = 1
      \<and> unwrap_or frame_ms 20 \<in> {10, 20, 30})
   \<and> (fst (configure_audio w format frame_ms) = Inr () \<or> snd (configure_audio w format frame_ms) = w)"
  by (auto simp: configure_audio_def try_into_realtime_def Let_def validate_normalized_def audio_consts
      sample_count_for_duration_ms_def validate_frame_duration_ms_def default_frame_duration_ms_def split: sum.split)

end
