(* ===== verification/Transcript_Lifecycle.thy ===== *)
theory Transcript_Lifecycle
  imports Realtime_Events
begin

text \<open>
  The transcript lifecycle (\<open>crates/openasr-core/src/realtime/transcript/core.rs\<close>,
  \<open>transcript_state.rs\<close>, \<open>transcript_apply.rs\<close>): which updates of a segment become partial,
  final or revision events and which are ignored. The hash map of segments is a map.
\<close>

section \<open>Updates and segment states\<close>

datatype transcript_revision_policy = ExplicitPostFinalRevision

definition revision_reason_post_final_correction :: rstr where
  "revision_reason_post_final_correction = lit ''post_final_correction''"

record transcript_update =
  tu_utterance_id :: transcript_utterance_id
  tu_segment_id :: transcript_segment_id
  tu_revision :: nat
  tu_text :: rstr
  tu_start_ms :: nat
  tu_end_ms :: nat
  tu_language :: "rstr option"
  tu_speaker :: "rstr option"
  tu_speaker_label :: "rstr option"
  tu_speaker_person_id :: "rstr option"
  tu_speaker_snapshot_label :: "rstr option"
  tu_words :: "realtime_transcript_word list"
  tu_revises_event_id :: "realtime_event_id option"

definition transcript_update_new ::
  "rstr \<Rightarrow> rstr \<Rightarrow> nat \<Rightarrow> rstr \<Rightarrow> nat \<Rightarrow> nat \<Rightarrow> transcript_update" where
  "transcript_update_new utterance_id segment_id revision txt start_ms end_ms =
     \<lparr>tu_utterance_id = TranscriptUtteranceId utterance_id,
      tu_segment_id = TranscriptSegmentId segment_id, tu_revision = revision, tu_text = txt,
      tu_start_ms = start_ms, tu_end_ms = end_ms, tu_language = None, tu_speaker = None,
      tu_speaker_label = None, tu_speaker_person_id = None, tu_speaker_snapshot_label = None,
      tu_words = [], tu_revises_event_id = None\<rparr>"

definition update_with_language :: "rstr option \<Rightarrow> transcript_update \<Rightarrow> transcript_update" where
  "update_with_language language u = u\<lparr>tu_language := language\<rparr>"

definition update_with_speaker :: "rstr option \<Rightarrow> transcript_update \<Rightarrow> transcript_update" where
  "update_with_speaker speaker u = u\<lparr>tu_speaker := speaker\<rparr>"

definition update_with_speaker_identity ::
  "rstr option \<Rightarrow> rstr option \<Rightarrow> transcript_update \<Rightarrow> transcript_update" where
  "update_with_speaker_identity speaker speaker_label u =
     u\<lparr>tu_speaker := speaker, tu_speaker_label := speaker_label\<rparr>"

definition update_with_voice_id_identity ::
  "rstr option \<Rightarrow> rstr option \<Rightarrow> rstr option \<Rightarrow> rstr option \<Rightarrow> transcript_update \<Rightarrow> transcript_update" where
  "update_with_voice_id_identity speaker speaker_label speaker_person_id speaker_snapshot_label u =
     u\<lparr>tu_speaker := speaker, tu_speaker_label := speaker_label,
       tu_speaker_person_id := speaker_person_id,
       tu_speaker_snapshot_label := speaker_snapshot_label\<rparr>"

definition update_with_words :: "realtime_transcript_word list \<Rightarrow> transcript_update \<Rightarrow> transcript_update" where
  "update_with_words ws u = u\<lparr>tu_words := ws\<rparr>"

definition update_with_revises_event_id ::
  "realtime_event_id option \<Rightarrow> transcript_update \<Rightarrow> transcript_update" where
  "update_with_revises_event_id event_id u = u\<lparr>tu_revises_event_id := event_id\<rparr>"

datatype transcript_lifecycle_result =
    LcEvent realtime_transcript_event
  | LcIgnoredOutOfOrder nat nat
  | LcIgnoredNoChange nat

record transcript_segment_state =
  ss_revision :: nat
  ss_text :: rstr
  ss_finalized :: bool
  ss_final_event_id :: "realtime_event_id option"
  ss_language :: "rstr option"
  ss_speaker :: "rstr option"
  ss_speaker_label :: "rstr option"
  ss_speaker_person_id :: "rstr option"
  ss_speaker_snapshot_label :: "rstr option"

type_synonym segment_key = "transcript_utterance_id \<times> transcript_segment_id"

record transcript_lifecycle =
  lc_policy :: transcript_revision_policy
  lc_segments :: "segment_key \<Rightarrow> transcript_segment_state option"

definition lifecycle_new :: "transcript_revision_policy \<Rightarrow> transcript_lifecycle" where
  "lifecycle_new policy = \<lparr>lc_policy = policy, lc_segments = Map.empty\<rparr>"

definition lifecycle_default :: transcript_lifecycle where
  "lifecycle_default = lifecycle_new ExplicitPostFinalRevision"

section \<open>Rejections\<close>

definition reject_out_of_order_or_stable_same_revision ::
  "transcript_segment_state \<Rightarrow> transcript_update \<Rightarrow> bool \<Rightarrow> transcript_lifecycle_result option" where
  "reject_out_of_order_or_stable_same_revision state u final_update =
     (if tu_revision u < ss_revision state
      then Some (LcIgnoredOutOfOrder (ss_revision state) (tu_revision u))
      else if tu_revision u = ss_revision state
      then (if final_update \<and> \<not> ss_finalized state then None
            else Some (LcIgnoredOutOfOrder (ss_revision state) (tu_revision u)))
      else None)"

definition reject_no_change_after_final ::
  "transcript_segment_state \<Rightarrow> transcript_update \<Rightarrow> transcript_lifecycle_result option" where
  "reject_no_change_after_final state u =
     (if ss_finalized state \<and> tu_text u = ss_text state
      then Some (LcIgnoredNoChange (ss_revision state)) else None)"

section \<open>Events\<close>

definition inherited_language :: "transcript_update \<Rightarrow> rstr option \<Rightarrow> rstr option" where
  "inherited_language u previous = opt_or (tu_language u) previous"

definition inherited_speaker :: "transcript_update \<Rightarrow> rstr option \<Rightarrow> rstr option" where
  "inherited_speaker u previous = opt_or (tu_speaker u) previous"

definition inherited_speaker_label :: "transcript_update \<Rightarrow> rstr option \<Rightarrow> rstr option" where
  "inherited_speaker_label u previous = opt_or (tu_speaker_label u) previous"

definition inherited_speaker_person_id :: "transcript_update \<Rightarrow> rstr option \<Rightarrow> rstr option" where
  "inherited_speaker_person_id u previous = opt_or (tu_speaker_person_id u) previous"

definition inherited_speaker_snapshot_label :: "transcript_update \<Rightarrow> rstr option \<Rightarrow> rstr option" where
  "inherited_speaker_snapshot_label u previous = opt_or (tu_speaker_snapshot_label u) previous"

definition to_update_event ::
  "transcript_update \<Rightarrow> bool \<Rightarrow> rstr option \<Rightarrow> rstr option \<Rightarrow> rstr option \<Rightarrow> rstr option \<Rightarrow> rstr option
     \<Rightarrow> realtime_transcript_event" where
  "to_update_event u final_update language speaker speaker_label person_id snapshot_label =
     (if final_update then Final else Partial)
       \<lparr>te_utterance_id = tu_utterance_id u, te_segment_id = tu_segment_id u,
        te_revision = tu_revision u, te_text = tu_text u, te_start_ms = tu_start_ms u,
        te_end_ms = tu_end_ms u, te_is_final = final_update, te_words = tu_words u,
        te_language = language, te_speaker = speaker, te_speaker_label = speaker_label,
        te_speaker_person_id = person_id, te_speaker_snapshot_label = snapshot_label\<rparr>"

definition to_partial_event ::
  "transcript_update \<Rightarrow> rstr option \<Rightarrow> rstr option \<Rightarrow> rstr option \<Rightarrow> rstr option \<Rightarrow> rstr option
     \<Rightarrow> realtime_transcript_event" where
  "to_partial_event u = to_update_event u False"

definition to_final_event ::
  "transcript_update \<Rightarrow> rstr option \<Rightarrow> rstr option \<Rightarrow> rstr option \<Rightarrow> rstr option \<Rightarrow> rstr option
     \<Rightarrow> realtime_transcript_event" where
  "to_final_event u = to_update_event u True"

definition segment_state ::
  "nat \<Rightarrow> rstr \<Rightarrow> bool \<Rightarrow> realtime_event_id option \<Rightarrow> rstr option \<Rightarrow> rstr option \<Rightarrow> rstr option
     \<Rightarrow> rstr option \<Rightarrow> rstr option \<Rightarrow> transcript_segment_state" where
  "segment_state revision txt finalized final_event_id language speaker speaker_label person_id snapshot_label =
     \<lparr>ss_revision = revision, ss_text = txt, ss_finalized = finalized,
      ss_final_event_id = final_event_id, ss_language = language, ss_speaker = speaker,
      ss_speaker_label = speaker_label, ss_speaker_person_id = person_id,
      ss_speaker_snapshot_label = snapshot_label\<rparr>"

definition to_revision_event ::
  "transcript_update \<Rightarrow> realtime_event_id option \<Rightarrow> rstr option \<Rightarrow> rstr option \<Rightarrow> rstr option
     \<Rightarrow> rstr option \<Rightarrow> rstr option
     \<Rightarrow> realtime_transcript_event \<times> realtime_event_id option \<times> rstr option \<times> rstr option
        \<times> rstr option \<times> rstr option \<times> rstr option" where
  "to_revision_event u recorded_final_event_id previous_language previous_speaker
       previous_speaker_label previous_person_id previous_snapshot_label =
     (let revises_event_id = opt_or (tu_revises_event_id u) recorded_final_event_id;
          final_event_id = opt_or recorded_final_event_id (tu_revises_event_id u);
          language = inherited_language u previous_language;
          speaker = inherited_speaker u previous_speaker;
          speaker_label = inherited_speaker_label u previous_speaker_label;
          person_id = inherited_speaker_person_id u previous_person_id;
          snapshot_label = inherited_speaker_snapshot_label u previous_snapshot_label
      in (Revision
            \<lparr>te_utterance_id = tu_utterance_id u, te_segment_id = tu_segment_id u,
             te_revision = tu_revision u, te_text = tu_text u, te_start_ms = tu_start_ms u,
             te_end_ms = tu_end_ms u, te_is_final = True, te_words = tu_words u,
             te_language = language, te_speaker = speaker, te_speaker_label = speaker_label,
             te_speaker_person_id = person_id, te_speaker_snapshot_label = snapshot_label,
             te_revises_event_id = revises_event_id,
             te_reason = revision_reason_post_final_correction\<rparr>,
          final_event_id, language, speaker, speaker_label, person_id, snapshot_label))"

section \<open>Operations\<close>

definition update_key :: "transcript_update \<Rightarrow> segment_key" where
  "update_key u = (tu_utterance_id u, tu_segment_id u)"

definition apply_post_final_revision ::
  "transcript_lifecycle \<Rightarrow> transcript_update \<Rightarrow> realtime_event_id option \<Rightarrow> rstr option \<Rightarrow> rstr option
     \<Rightarrow> rstr option \<Rightarrow> rstr option \<Rightarrow> rstr option \<Rightarrow> transcript_lifecycle_result \<times> transcript_lifecycle" where
  "apply_post_final_revision lc u recorded_final_event_id previous_language previous_speaker
       previous_speaker_label previous_person_id previous_snapshot_label =
     (case lc_policy lc of ExplicitPostFinalRevision \<Rightarrow>
        (let (event, final_event_id, language, speaker, speaker_label, person_id, snapshot_label) =
               to_revision_event u recorded_final_event_id previous_language previous_speaker
                 previous_speaker_label previous_person_id previous_snapshot_label
         in (LcEvent event,
             lc\<lparr>lc_segments := (lc_segments lc)(update_key u \<mapsto>
                  segment_state (tu_revision u) (tu_text u) True final_event_id language speaker
                    speaker_label person_id snapshot_label)\<rparr>)))"

definition accept_update ::
  "transcript_lifecycle \<Rightarrow> transcript_update \<Rightarrow> bool \<Rightarrow> realtime_event_id option
     \<Rightarrow> transcript_lifecycle_result \<times> transcript_lifecycle" where
  "accept_update lc u final_update final_event_id =
     (let previous = lc_segments lc (update_key u);
          language = inherited_language u (Option.bind previous ss_language);
          speaker = inherited_speaker u (Option.bind previous ss_speaker);
          speaker_label = inherited_speaker_label u (Option.bind previous ss_speaker_label);
          person_id = inherited_speaker_person_id u (Option.bind previous ss_speaker_person_id);
          snapshot_label =
            inherited_speaker_snapshot_label u (Option.bind previous ss_speaker_snapshot_label);
          state = segment_state (tu_revision u) (tu_text u) final_update
                    (if final_update then final_event_id else None)
                    language speaker speaker_label person_id snapshot_label
      in (LcEvent (if final_update
                   then to_final_event u language speaker speaker_label person_id snapshot_label
                   else to_partial_event u language speaker speaker_label person_id snapshot_label),
          lc\<lparr>lc_segments := (lc_segments lc)(update_key u \<mapsto> state)\<rparr>))"

definition lifecycle_apply ::
  "transcript_lifecycle \<Rightarrow> transcript_update \<Rightarrow> bool \<Rightarrow> realtime_event_id option
     \<Rightarrow> transcript_lifecycle_result \<times> transcript_lifecycle" where
  "lifecycle_apply lc u final_update final_event_id =
     (case lc_segments lc (update_key u) of
        None \<Rightarrow> accept_update lc u final_update final_event_id
      | Some state \<Rightarrow>
          (case reject_out_of_order_or_stable_same_revision state u final_update of
             Some result \<Rightarrow> (result, lc)
           | None \<Rightarrow>
               if ss_finalized state
               then (case reject_no_change_after_final state u of
                       Some result \<Rightarrow> (result, lc)
                     | None \<Rightarrow>
                         apply_post_final_revision lc u (ss_final_event_id state)
                           (ss_language state) (ss_speaker state) (ss_speaker_label state)
                           (ss_speaker_person_id state) (ss_speaker_snapshot_label state))
               else accept_update lc u final_update final_event_id))"

definition lifecycle_apply_partial ::
  "transcript_lifecycle \<Rightarrow> transcript_update \<Rightarrow> transcript_lifecycle_result \<times> transcript_lifecycle" where
  "lifecycle_apply_partial lc u = lifecycle_apply lc u False None"

definition lifecycle_apply_final ::
  "transcript_lifecycle \<Rightarrow> transcript_update \<Rightarrow> realtime_event_id option
     \<Rightarrow> transcript_lifecycle_result \<times> transcript_lifecycle" where
  "lifecycle_apply_final lc u final_event_id = lifecycle_apply lc u True final_event_id"

definition lifecycle_reset :: "transcript_lifecycle \<Rightarrow> transcript_lifecycle" where
  "lifecycle_reset lc = lc\<lparr>lc_segments := Map.empty\<rparr>"

definition record_final_event_id ::
  "transcript_lifecycle \<Rightarrow> transcript_utterance_id \<Rightarrow> transcript_segment_id \<Rightarrow> nat
     \<Rightarrow> realtime_event_id \<Rightarrow> transcript_lifecycle" where
  "record_final_event_id lc utterance_id segment_id revision event_id =
     (case lc_segments lc (utterance_id, segment_id) of
        None \<Rightarrow> lc
      | Some state \<Rightarrow>
          if ss_finalized state \<and> ss_revision state = revision
          then lc\<lparr>lc_segments := (lc_segments lc)((utterance_id, segment_id)
                  \<mapsto> state\<lparr>ss_final_event_id := Some event_id\<rparr>)\<rparr>
          else lc)"

section \<open>Revision logs\<close>

text \<open>
  A contract that the lifecycle and the transcript history share: a log keeps the current
  revision of each segment; an update is either accepted, and then its revision becomes the
  current one and was not older, or the log does not change.
\<close>

locale revision_log =
  fixes step :: "'s \<Rightarrow> 'u \<Rightarrow> 'r \<times> 's"
    and current :: "'s \<Rightarrow> 'k \<Rightarrow> nat option"
    and key :: "'u \<Rightarrow> 'k"
    and rev_of :: "'u \<Rightarrow> nat"
    and accepted :: "'r \<Rightarrow> bool"
    and wf :: "'s \<Rightarrow> bool"
  assumes step_wf: "wf s \<Longrightarrow> wf (snd (step s u))"
    and accepted_current:
      "wf s \<Longrightarrow> accepted (fst (step s u)) \<Longrightarrow> current (snd (step s u)) = (current s)(key u \<mapsto> rev_of u)"
    and accepted_newer:
      "wf s \<Longrightarrow> accepted (fst (step s u)) \<Longrightarrow> current s (key u) = Some r \<Longrightarrow> r \<le> rev_of u"
    and rejected_unchanged: "wf s \<Longrightarrow> \<not> accepted (fst (step s u)) \<Longrightarrow> current (snd (step s u)) = current s"
begin

definition accepted_revisions :: "'s \<Rightarrow> 'u list \<Rightarrow> 'k \<Rightarrow> nat list" where
  "accepted_revisions s us k =
     map (\<lambda>(u, r). rev_of u) (filter (\<lambda>(u, r). key u = k \<and> accepted r) (zip us (fst (run step s us))))"

lemma run_wf: "wf s \<Longrightarrow> wf (snd (run step s us))"
  by (induction us arbitrary: s) (simp_all add: step_wf)

lemma step_current_mono:
  "wf s \<Longrightarrow> current s k = Some r \<Longrightarrow> \<exists>r'\<ge>r. current (snd (step s u)) k = Some r'"
  by (cases "accepted (fst (step s u))")
    (auto simp: accepted_current rejected_unchanged dest: accepted_newer)

text \<open>The current revision of a segment never decreases.\<close>

lemma run_current_mono:
  "wf s \<Longrightarrow> current s k = Some r \<Longrightarrow> \<exists>r'\<ge>r. current (snd (run step s us)) k = Some r'"
proof (induction us arbitrary: s r)
  case (Cons u us)
  obtain r1 where r1: "r \<le> r1" "current (snd (step s u)) k = Some r1"
    using step_current_mono [OF Cons.prems] by blast
  then obtain r2 where "r1 \<le> r2" "current (snd (run step (snd (step s u)) us)) k = Some r2"
    using Cons.IH [OF step_wf [OF Cons.prems(1)] r1(2)] by blast
  with r1(1) show ?case by (auto intro!: exI [of _ r2])
qed simp

text \<open>The accepted revisions of a segment arrive in order.\<close>

lemma accepted_sorted:
  "wf s \<Longrightarrow> sorted (accepted_revisions s us k)
     \<and> (\<forall>r. current s k = Some r \<longrightarrow> (\<forall>x\<in>set (accepted_revisions s us k). r \<le> x))"
proof (induction us arbitrary: s)
  case (Cons u us)
  let ?s = "snd (step s u)"
  have ih: "sorted (accepted_revisions ?s us k)"
    "current ?s k = Some r \<Longrightarrow> x \<in> set (accepted_revisions ?s us k) \<Longrightarrow> r \<le> x" for r x
    using Cons.IH [OF step_wf [OF Cons.prems]] by auto
  show ?case
  proof (cases "key u = k \<and> accepted (fst (step s u))")
    case True
    then have "accepted_revisions s (u # us) k = rev_of u # accepted_revisions ?s us k"
      by (simp add: accepted_revisions_def)
    moreover have "current ?s k = Some (rev_of u)"
      using True accepted_current [OF Cons.prems, of u] by auto
    ultimately show ?thesis
      using ih True accepted_newer [OF Cons.prems, of u] by (auto intro: order_trans)
  next
    case False
    then have "accepted_revisions s (u # us) k = accepted_revisions ?s us k"
      by (auto simp: accepted_revisions_def)
    moreover have "current ?s k = current s k"
      using False accepted_current [OF Cons.prems, of u] rejected_unchanged [OF Cons.prems, of u]
      by (cases "accepted (fst (step s u))") auto
    ultimately show ?thesis using ih by auto
  qed
qed (simp add: accepted_revisions_def)

end


section \<open>The lifecycle as a revision log\<close>

datatype lifecycle_op =
    PartialOp transcript_update
  | FinalOp transcript_update "realtime_event_id option"

fun op_update :: "lifecycle_op \<Rightarrow> transcript_update" where
  "op_update (PartialOp u) = u"
| "op_update (FinalOp u i) = u"

fun lifecycle_step ::
  "transcript_lifecycle \<Rightarrow> lifecycle_op \<Rightarrow> transcript_lifecycle_result \<times> transcript_lifecycle" where
  "lifecycle_step lc (PartialOp u) = lifecycle_apply_partial lc u"
| "lifecycle_step lc (FinalOp u i) = lifecycle_apply_final lc u i"

fun is_event :: "transcript_lifecycle_result \<Rightarrow> bool" where
  "is_event (LcEvent e) = True"
| "is_event _ = False"

definition lifecycle_current :: "transcript_lifecycle \<Rightarrow> segment_key \<Rightarrow> nat option" where
  "lifecycle_current lc k = map_option ss_revision (lc_segments lc k)"

lemmas lifecycle_defs =
  lifecycle_apply_def accept_update_def apply_post_final_revision_def to_revision_event_def
  segment_state_def reject_out_of_order_or_stable_same_revision_def reject_no_change_after_final_def

lemma policy_cases [simp]:
  "(case p of ExplicitPostFinalRevision \<Rightarrow> x) = x"
  by (cases p) simp

lemma op_step_eq:
  "lifecycle_step lc op = (case op of
     PartialOp u \<Rightarrow> lifecycle_apply lc u False None | FinalOp u i \<Rightarrow> lifecycle_apply lc u True i)"
  by (cases op) (simp_all add: lifecycle_apply_partial_def lifecycle_apply_final_def)

text \<open>What an accepted update does to the segments, and when it is accepted.\<close>

lemma lifecycle_apply_accepts:
  "is_event (fst (lifecycle_apply lc u f i)) \<longleftrightarrow>
     (case lc_segments lc (update_key u) of
        None \<Rightarrow> True
      | Some s \<Rightarrow> if ss_finalized s then ss_revision s < tu_revision u \<and> tu_text u \<noteq> ss_text s
                  else ss_revision s < tu_revision u \<or> ss_revision s = tu_revision u \<and> f)"
  by (auto simp: lifecycle_defs Let_def split: option.split)

lemma lifecycle_apply_rejected: "\<not> is_event (fst (lifecycle_apply lc u f i)) \<Longrightarrow> snd (lifecycle_apply lc u f i) = lc"
  by (auto simp: lifecycle_defs Let_def split: option.splits if_splits)

lemma lifecycle_apply_segments:
  assumes "is_event (fst (lifecycle_apply lc u f i))"
  shows "\<exists>s. lc_segments (snd (lifecycle_apply lc u f i)) = (lc_segments lc)(update_key u \<mapsto> s)
    \<and> ss_revision s = tu_revision u \<and> ss_text s = tu_text u
    \<and> ss_finalized s = (f \<or> (\<exists>p. lc_segments lc (update_key u) = Some p \<and> ss_finalized p))"
  using assms by (auto simp: lifecycle_defs Let_def split: option.splits if_splits)

interpretation lc_log: revision_log lifecycle_step lifecycle_current "\<lambda>op. update_key (op_update op)"
  "\<lambda>op. tu_revision (op_update op)" is_event "\<lambda>_. True"
proof
  fix lc op
  show "is_event (fst (lifecycle_step lc op)) \<Longrightarrow> lifecycle_current (snd (lifecycle_step lc op))
      = (lifecycle_current lc)(update_key (op_update op) \<mapsto> tu_revision (op_update op))"
    by (cases op; rule ext) (auto simp: op_step_eq lifecycle_current_def dest!: lifecycle_apply_segments)
  show "is_event (fst (lifecycle_step lc op)) \<Longrightarrow>
      lifecycle_current lc (update_key (op_update op)) = Some r \<Longrightarrow> r \<le> tu_revision (op_update op)" for r
    by (cases op) (auto simp: op_step_eq lifecycle_current_def lifecycle_apply_accepts split: if_splits)
  show "\<not> is_event (fst (lifecycle_step lc op)) \<Longrightarrow> lifecycle_current (snd (lifecycle_step lc op)) = lifecycle_current lc"
    by (cases op) (simp_all add: op_step_eq lifecycle_apply_rejected)
qed simp

section \<open>The shape of a segment's events\<close>

fun event_segment :: "realtime_transcript_event \<Rightarrow> segment_key" where
  "event_segment (Partial e) = (te_utterance_id e, te_segment_id e)"
| "event_segment (Final e) = (te_utterance_id e, te_segment_id e)"
| "event_segment (Revision e) = (te_utterance_id e, te_segment_id e)"

fun is_partial :: "realtime_transcript_event \<Rightarrow> bool" where
  "is_partial (Partial e) = True"
| "is_partial _ = False"

fun is_revision :: "realtime_transcript_event \<Rightarrow> bool" where
  "is_revision (Revision e) = True"
| "is_revision _ = False"

fun is_final_event :: "realtime_transcript_event \<Rightarrow> bool" where
  "is_final_event (Final e) = True"
| "is_final_event _ = False"

text \<open>Partials, then at most one final, then revisions; \<open>finalized\<close> tells where we are.\<close>

fun segment_events_ok :: "bool \<Rightarrow> realtime_transcript_event list \<Rightarrow> bool" where
  "segment_events_ok fin [] = True"
| "segment_events_ok fin (Partial e # es) = (\<not> fin \<and> segment_events_ok False es)"
| "segment_events_ok fin (Final e # es) = (\<not> fin \<and> segment_events_ok True es)"
| "segment_events_ok fin (Revision e # es) = (fin \<and> segment_events_ok True es)"

fun result_events :: "transcript_lifecycle_result \<Rightarrow> realtime_transcript_event list" where
  "result_events (LcEvent e) = [e]"
| "result_events _ = []"

definition segment_finalized :: "transcript_lifecycle \<Rightarrow> segment_key \<Rightarrow> bool" where
  "segment_finalized lc k = (case lc_segments lc k of Some s \<Rightarrow> ss_finalized s | None \<Rightarrow> False)"

lemma lifecycle_apply_event:
  "fst (lifecycle_apply lc u f i) = LcEvent e \<Longrightarrow>
   event_segment e = update_key u
   \<and> (if segment_finalized lc (update_key u) then is_revision e else if f then is_final_event e else is_partial e)"
  by (auto simp: lifecycle_defs to_update_event_def to_final_event_def to_partial_event_def
      update_key_def segment_finalized_def Let_def split: option.splits if_splits)

lemma lifecycle_apply_finalized:
  "segment_finalized (snd (lifecycle_apply lc u f i)) k =
     (segment_finalized lc k \<or> (k = update_key u \<and> f \<and> is_event (fst (lifecycle_apply lc u f i))))"
proof (cases "is_event (fst (lifecycle_apply lc u f i))")
  case True
  from lifecycle_apply_segments [OF this] show ?thesis
    using True by (cases "k = update_key u") (auto simp: segment_finalized_def split: option.splits)
qed (simp add: lifecycle_apply_rejected)

lemma lifecycle_step_segment:
  defines "es lc op k \<equiv> filter (\<lambda>e. event_segment e = k) (result_events (fst (lifecycle_step lc op)))"
  shows "segment_events_ok (segment_finalized lc k) (es lc op k @ rest) \<longleftrightarrow>
    segment_events_ok (segment_finalized (snd (lifecycle_step lc op)) k) rest"
proof -
  obtain u f i where op: "lifecycle_step lc op = lifecycle_apply lc u f i"
    by (cases op) (auto simp: op_step_eq)
  show ?thesis
  proof (cases "fst (lifecycle_apply lc u f i)")
    case (LcEvent e)
    note ev = lifecycle_apply_event [OF LcEvent]
    show ?thesis
      using ev LcEvent lifecycle_apply_finalized [of lc u f i k]
      by (cases e; cases "k = update_key u") (auto simp: es_def op split: if_splits)
  qed (simp_all add: es_def op lifecycle_apply_finalized)
qed

lemma lifecycle_run_segment:
  "segment_events_ok (segment_finalized lc k)
     (filter (\<lambda>e. event_segment e = k) (concat (map result_events (fst (run lifecycle_step lc ops)))))"
  by (induction ops arbitrary: lc) (simp_all add: lifecycle_step_segment)

section \<open>References from revisions to finals\<close>

definition final_reference :: "transcript_lifecycle \<Rightarrow> segment_key \<Rightarrow> realtime_event_id \<Rightarrow> bool" where
  "final_reference lc k i \<longleftrightarrow> (\<exists>s. lc_segments lc k = Some s \<and> ss_finalized s \<and> ss_final_event_id s = Some i)"

lemma record_final_event_id_reference:
  "segment_finalized lc (u, s) \<Longrightarrow> lifecycle_current lc (u, s) = Some r \<Longrightarrow>
   final_reference (record_final_event_id lc u s r i) (u, s) i"
  by (auto simp: record_final_event_id_def final_reference_def segment_finalized_def lifecycle_current_def
      split: option.splits)

lemma final_reference_step:
  assumes "final_reference lc k i"
  shows "final_reference (snd (lifecycle_step lc op)) k i"
    and "\<forall>e. fst (lifecycle_step lc op) = LcEvent (Revision e) \<longrightarrow> event_segment (Revision e) = k \<longrightarrow>
           te_revises_event_id e = Some (case tu_revises_event_id (op_update op) of Some j \<Rightarrow> j | None \<Rightarrow> i)"
  using assms
  by (cases op; auto simp: op_step_eq final_reference_def lifecycle_defs update_key_def Let_def
      to_update_event_def to_final_event_def to_partial_event_def split: option.splits if_splits)+


interpretation lc_reference: machine lifecycle_step "\<lambda>lc. final_reference lc k i" "\<lambda>_. True" for k i
  by unfold_locales (rule final_reference_step(1))

fun event_revision :: "realtime_transcript_event \<Rightarrow> nat" where
  "event_revision (Partial e) = te_revision e"
| "event_revision (Final e) = te_revision e"
| "event_revision (Revision e) = te_revision e"

lemma lifecycle_step_event:
  "fst (lifecycle_step lc op) = LcEvent e \<Longrightarrow>
   event_segment e = update_key (op_update op) \<and> event_revision e = tu_revision (op_update op)"
  by (cases op) (auto simp: op_step_eq lifecycle_defs to_update_event_def to_final_event_def
      to_partial_event_def update_key_def Let_def split: option.splits if_splits)

lemma accepted_revisions_events:
  "lc_log.accepted_revisions lc ops k =
     map event_revision (filter (\<lambda>e. event_segment e = k) (concat (map result_events (fst (run lifecycle_step lc ops)))))"
proof (induction ops arbitrary: lc)
  case (Cons op ops)
  then show ?case
    by (cases "fst (lifecycle_step lc op)")
      (auto simp: lc_log.accepted_revisions_def dest: lifecycle_step_event)
qed (simp add: lc_log.accepted_revisions_def)

section \<open>Properties\<close>

text \<open>
  C5. What an update becomes, on every branch: a new segment is always accepted; once a
  segment is final, only a newer revision with a different text is accepted, as a revision;
  before that, a newer revision is accepted as what it is, and a final of the current revision
  closes it. Everything else is reported as out of order or unchanged, with the revision
  numbers involved, and leaves the lifecycle as it was.
\<close>

theorem lifecycle_decides_updates:
  "case lc_segments lc (update_key u) of
     None \<Rightarrow> is_event (fst (lifecycle_apply lc u f i))
   | Some s \<Rightarrow>
       if tu_revision u < ss_revision s \<or> tu_revision u = ss_revision s \<and> (if f then ss_finalized s else True)
       then lifecycle_apply lc u f i = (LcIgnoredOutOfOrder (ss_revision s) (tu_revision u), lc)
       else if ss_finalized s \<and> tu_text u = ss_text s
       then lifecycle_apply lc u f i = (LcIgnoredNoChange (ss_revision s), lc)
       else \<exists>e. fst (lifecycle_apply lc u f i) = LcEvent e
              \<and> (if ss_finalized s then is_revision e else if f then is_final_event e else is_partial e)"
proof (cases "lc_segments lc (update_key u)")
  case None
  then show ?thesis by (simp add: lifecycle_apply_accepts)
next
  case (Some s)
  show ?thesis
  proof (cases "tu_revision u < ss_revision s \<or> tu_revision u = ss_revision s \<and> (ss_finalized s \<or> \<not> f)
      \<or> ss_finalized s \<and> tu_text u = ss_text s")
    case True
    then show ?thesis using Some by (auto simp: lifecycle_defs split: option.split)
  next
    case False
    then have "is_event (fst (lifecycle_apply lc u f i))"
      using Some by (auto simp: lifecycle_apply_accepts)
    then obtain e where "fst (lifecycle_apply lc u f i) = LcEvent e"
      by (cases "fst (lifecycle_apply lc u f i)") auto
    then show ?thesis
      using lifecycle_apply_event [of lc u f i e] Some False by (auto simp: segment_finalized_def)
  qed
qed

text \<open>
  C35. However updates arrive, a client sees for each segment partial transcripts first, then
  at most one final transcript, and after it only revisions.
\<close>

theorem lifecycle_segment_event_order:
  "segment_events_ok False
     (filter (\<lambda>e. event_segment e = k) (concat (map result_events (fst (run lifecycle_step (lifecycle_new p) ops)))))"
  using lifecycle_run_segment [of "lifecycle_new p" k ops]
  by (simp add: lifecycle_new_def segment_finalized_def)

text \<open>
  The revision numbers a client sees for a segment never decrease.
\<close>

theorem lifecycle_revisions_in_order:
  "sorted (map event_revision (filter (\<lambda>e. event_segment e = k)
     (concat (map result_events (fst (run lifecycle_step lc ops))))))"
  using lc_log.accepted_sorted [of lc ops k] by (simp add: accepted_revisions_events)

text \<open>
  Once the identity of the event that finalized a segment has been recorded, every later
  revision of the segment names that event as the one it revises, however many revisions
  there are, unless its update names another one.
\<close>

theorem lifecycle_revision_names_final:
  assumes "segment_finalized lc (utt, seg)" and "lifecycle_current lc (utt, seg) = Some r"
    and "fst (lifecycle_step (snd (run lifecycle_step (record_final_event_id lc utt seg r i) ops)) op) = LcEvent (Revision e)"
    and "event_segment (Revision e) = (utt, seg)" and "tu_revises_event_id (op_update op) = None"
  shows "te_revises_event_id e = Some i"
proof -
  have "final_reference (snd (run lifecycle_step (record_final_event_id lc utt seg r i) ops)) (utt, seg) i"
    by (rule lc_reference.run_inv [OF record_final_event_id_reference [OF assms(1,2)]]) (simp add: list_all_iff)
  from final_reference_step(2) [OF this, of op] show ?thesis using assms(3-5) by simp
qed

theorem lifecycle_revision_names_final_witness:
  "\<exists>e. fst (lifecycle_step (record_final_event_id
       (snd (lifecycle_step lifecycle_default (FinalOp (transcript_update_new [1] [2] 1 [3] 0 10) None)))
       (TranscriptUtteranceId [1]) (TranscriptSegmentId [2]) 1 (event_id_of_index 7))
     (PartialOp (transcript_update_new [1] [2] 2 [4] 0 10))) = LcEvent (Revision e)
   \<and> te_revises_event_id e = Some (event_id_of_index 7)"
proof -
  define lc where "lc = snd (lifecycle_step lifecycle_default (FinalOp (transcript_update_new [1] [2] 1 [3] 0 10) None))"
  define op where "op = PartialOp (transcript_update_new [1] [2] 2 [4] 0 10)"
  note eval = lc_def op_def op_step_eq lifecycle_defs lifecycle_default_def lifecycle_new_def
    transcript_update_new_def update_key_def Let_def segment_finalized_def lifecycle_current_def
    record_final_event_id_def to_final_event_def to_update_event_def
  have 1: "segment_finalized lc (TranscriptUtteranceId [1], TranscriptSegmentId [2])"
    "lifecycle_current lc (TranscriptUtteranceId [1], TranscriptSegmentId [2]) = Some 1"
    by (simp_all add: eval)
  have "\<exists>e. fst (lifecycle_step (record_final_event_id lc (TranscriptUtteranceId [1])
      (TranscriptSegmentId [2]) 1 (event_id_of_index 7)) op) = LcEvent (Revision e)
      \<and> event_segment (Revision e) = (TranscriptUtteranceId [1], TranscriptSegmentId [2])"
    by (simp add: eval)
  moreover have "tu_revises_event_id (op_update op) = None" by (simp add: eval)
  ultimately show ?thesis
    using lifecycle_revision_names_final [OF 1, of "event_id_of_index 7" "[]" op]
    unfolding lc_def [symmetric] op_def [symmetric] by auto
qed

end
