(* ===== verification/Transcript_History.thy ===== *)
theory Transcript_History
  imports Transcript_Lifecycle "HOL-Library.Product_Lexorder" "HOL-Library.List_Lexorder" "HOL-Library.Multiset"
begin

text \<open>
  The transcript history of a session and its exports
  (\<open>crates/openasr-core/src/realtime/history/core.rs\<close>, \<open>history_state.rs\<close>, \<open>history_sort.rs\<close>,
  \<open>history_text.rs\<close>, \<open>history_subtitle.rs\<close>, \<open>history_export.rs\<close>). Rust's stable \<open>sort_by\<close> is
  \<open>sort_key\<close> with the tuple of the compared fields; strings compare by code point, which is the
  order of their UTF-8 bytes. The JSON writer (\<open>serde_json\<close>) is the parameter \<open>to_json\<close>.
\<close>

section \<open>Data\<close>

record history_entry =
  he_utterance_id :: rstr
  he_segment_id :: rstr
  he_revision :: nat
  he_text :: rstr
  he_start_ms :: nat
  he_end_ms :: nat
  he_language :: "rstr option"
  he_revised :: bool
  he_revision_count :: nat
  he_source_event_id :: "rstr option"
  he_source_seq :: "nat option"

record history_revision =
  hr_utterance_id :: rstr
  hr_segment_id :: rstr
  hr_from_revision :: "nat option"
  hr_to_revision :: nat
  hr_from_text :: "rstr option"
  hr_to_text :: rstr
  hr_reason :: rstr
  hr_revises_event_id :: "rstr option"
  hr_source_event_id :: "rstr option"
  hr_source_seq :: "nat option"

datatype history_apply_result =
    Applied
  | HyIgnoredDuplicateOrOutOfOrder nat nat
  | HyIgnoredNoChange nat
  | IgnoredNonTranscriptEvent

datatype export_format = TextFormat | JsonFormat | MarkdownFormat | SrtFormat | VttFormat

record post_processor =
  pp_trim_whitespace :: bool
  pp_collapse_internal_whitespace :: bool
  pp_join_segments :: bool
  pp_suggest_title :: bool

definition post_processor_default :: post_processor where
  "post_processor_default = \<lparr>pp_trim_whitespace = True, pp_collapse_internal_whitespace = True,
     pp_join_segments = False, pp_suggest_title = False\<rparr>"

record post_process_output =
  po_lines :: "rstr list"
  po_joined_text :: rstr
  po_title :: "rstr option"

record transcript_history =
  hy_entries :: "history_entry list"
  hy_revisions :: "history_revision list"
  hy_index :: "rstr \<times> rstr \<Rightarrow> nat option"

datatype 'j history_export_error =
    UnsupportedExtension rstr
  | JsonError 'j
  | InvalidSubtitleTiming nat nat nat

definition history_new :: transcript_history where
  "history_new = \<lparr>hy_entries = [], hy_revisions = [], hy_index = Map.empty\<rparr>"

section \<open>Applying updates\<close>

datatype update_reason = ReasonFinal "rstr option" | ReasonRevision "rstr option" rstr

fun export_reason :: "update_reason \<Rightarrow> rstr" where
  "export_reason (ReasonFinal r) = lit ''transcript.final''"
| "export_reason (ReasonRevision r reason) = reason"

fun reason_revises_event_id :: "update_reason \<Rightarrow> rstr option" where
  "reason_revises_event_id (ReasonFinal r) = r"
| "reason_revises_event_id (ReasonRevision r reason) = r"

fun is_reason_revision :: "update_reason \<Rightarrow> bool" where
  "is_reason_revision (ReasonFinal r) = False"
| "is_reason_revision (ReasonRevision r reason) = True"

record transcript_update_input =
  ui_utterance_id :: transcript_utterance_id
  ui_segment_id :: transcript_segment_id
  ui_revision :: nat
  ui_text :: rstr
  ui_start_ms :: nat
  ui_end_ms :: nat
  ui_language :: "rstr option"
  ui_reason :: update_reason
  ui_source_event_id :: "rstr option"
  ui_source_seq :: "nat option"

fun utterance_str :: "transcript_utterance_id \<Rightarrow> rstr" where "utterance_str (TranscriptUtteranceId s) = s"
fun segment_str :: "transcript_segment_id \<Rightarrow> rstr" where "segment_str (TranscriptSegmentId s) = s"
fun event_id_str :: "realtime_event_id \<Rightarrow> rstr" where "event_id_str (RealtimeEventId s) = s"

definition input_key :: "transcript_update_input \<Rightarrow> rstr \<times> rstr" where
  "input_key i = (utterance_str (ui_utterance_id i), segment_str (ui_segment_id i))"

definition input_entry :: "transcript_update_input \<Rightarrow> rstr option \<Rightarrow> bool \<Rightarrow> nat \<Rightarrow> history_entry" where
  "input_entry i language revised revision_count =
     \<lparr>he_utterance_id = utterance_str (ui_utterance_id i), he_segment_id = segment_str (ui_segment_id i),
      he_revision = ui_revision i, he_text = ui_text i, he_start_ms = ui_start_ms i,
      he_end_ms = ui_end_ms i, he_language = language, he_revised = revised,
      he_revision_count = revision_count, he_source_event_id = ui_source_event_id i,
      he_source_seq = ui_source_seq i\<rparr>"

definition input_revision ::
  "transcript_update_input \<Rightarrow> nat option \<Rightarrow> rstr option \<Rightarrow> history_revision" where
  "input_revision i from_revision from_text =
     \<lparr>hr_utterance_id = utterance_str (ui_utterance_id i), hr_segment_id = segment_str (ui_segment_id i),
      hr_from_revision = from_revision, hr_to_revision = ui_revision i, hr_from_text = from_text,
      hr_to_text = ui_text i, hr_reason = export_reason (ui_reason i),
      hr_revises_event_id = reason_revises_event_id (ui_reason i),
      hr_source_event_id = ui_source_event_id i, hr_source_seq = ui_source_seq i\<rparr>"

definition apply_transcript_update ::
  "transcript_history \<Rightarrow> transcript_update_input \<Rightarrow> history_apply_result \<times> transcript_history" where
  "apply_transcript_update h i =
     (case hy_index h (input_key i) of
        Some entry_index \<Rightarrow>
          (let cur = hy_entries h ! entry_index
           in if ui_revision i \<le> he_revision cur
              then (HyIgnoredDuplicateOrOutOfOrder (he_revision cur) (ui_revision i), h)
              else if ui_text i = he_text cur
              then (HyIgnoredNoChange (he_revision cur), h)
              else (Applied,
                h\<lparr>hy_entries := (hy_entries h)[entry_index :=
                     input_entry i (opt_or (ui_language i) (he_language cur)) True
                       (u64_sat_add (he_revision_count cur) 1)],
                  hy_revisions := hy_revisions h @
                     [input_revision i (Some (he_revision cur)) (Some (he_text cur))]\<rparr>))
      | None \<Rightarrow>
          (let revised = is_reason_revision (ui_reason i)
           in (Applied,
               h\<lparr>hy_index := (hy_index h)(input_key i \<mapsto> length (hy_entries h)),
                 hy_entries := hy_entries h @
                   [input_entry i (ui_language i) revised (if revised then 1 else 0)],
                 hy_revisions := hy_revisions h @
                   (if revised then [input_revision i None None] else [])\<rparr>)))"

fun event_reason :: "realtime_transcript_event \<Rightarrow> update_reason" where
  "event_reason (Revision e) =
     ReasonRevision (map_option event_id_str (te_revises_event_id e)) (te_reason e)"
| "event_reason _ = ReasonFinal None"

definition to_update_input ::
  "('a realtime_transcript_final_scheme) \<Rightarrow> update_reason \<Rightarrow> rstr option \<Rightarrow> nat option
     \<Rightarrow> transcript_update_input" where
  "to_update_input e reason source_event_id source_seq =
     \<lparr>ui_utterance_id = te_utterance_id e, ui_segment_id = te_segment_id e,
      ui_revision = te_revision e, ui_text = te_text e, ui_start_ms = te_start_ms e,
      ui_end_ms = te_end_ms e, ui_language = te_language e, ui_reason = reason,
      ui_source_event_id = source_event_id, ui_source_seq = source_seq\<rparr>"

definition history_apply_final ::
  "transcript_history \<Rightarrow> realtime_transcript_final \<Rightarrow> rstr option \<Rightarrow> nat option
     \<Rightarrow> history_apply_result \<times> transcript_history" where
  "history_apply_final h e source_event_id source_seq =
     apply_transcript_update h (to_update_input e (event_reason (Final e)) source_event_id source_seq)"

definition history_apply_revision ::
  "transcript_history \<Rightarrow> realtime_transcript_revision \<Rightarrow> rstr option \<Rightarrow> nat option
     \<Rightarrow> history_apply_result \<times> transcript_history" where
  "history_apply_revision h e source_event_id source_seq =
     apply_transcript_update h (to_update_input e (event_reason (Revision e)) source_event_id source_seq)"

definition apply_envelope ::
  "transcript_history \<Rightarrow> realtime_event_envelope \<Rightarrow> history_apply_result \<times> transcript_history" where
  "apply_envelope h envelope =
     (case ev_event envelope of
        Transcript (Final e) \<Rightarrow>
          history_apply_final h e (Some (event_id_str (ev_event_id envelope))) (Some (ev_seq envelope))
      | Transcript (Revision e) \<Rightarrow>
          history_apply_revision h e (Some (event_id_str (ev_event_id envelope))) (Some (ev_seq envelope))
      | _ \<Rightarrow> (IgnoredNonTranscriptEvent, h))"

section \<open>Sorting and text\<close>

definition entry_sort_key :: "history_entry \<Rightarrow> nat \<times> nat \<times> nat \<times> rstr \<times> rstr" where
  "entry_sort_key e =
     (he_start_ms e, he_end_ms e, (case he_source_seq e of Some n \<Rightarrow> n | None \<Rightarrow> u64_max),
      he_utterance_id e, he_segment_id e)"

definition sorted_entries :: "history_entry list \<Rightarrow> history_entry list" where
  "sorted_entries entries = sort_key entry_sort_key entries"

definition normalize_whitespace :: "rstr \<Rightarrow> post_processor \<Rightarrow> rstr" where
  "normalize_whitespace input options =
     (let val = (if pp_trim_whitespace options then trim input else input)
      in if \<not> pp_collapse_internal_whitespace options then val
         else join sp (split_whitespace val))"

definition normalize_entry :: "history_entry \<Rightarrow> post_processor \<Rightarrow> history_entry option" where
  "normalize_entry entry options =
     (let normalized = normalize_whitespace (he_text entry) options
      in if normalized = [] then None else Some (entry\<lparr>he_text := normalized\<rparr>))"

definition post_processed_entries :: "history_entry list \<Rightarrow> post_processor \<Rightarrow> history_entry list" where
  "post_processed_entries entries options =
     List.map_filter (\<lambda>e. normalize_entry e options) (sorted_entries entries)"

definition suggest_title_from_text :: "rstr \<Rightarrow> rstr option" where
  "suggest_title_from_text txt =
     (let trimmed = trim txt
      in if trimmed = [] then None
         else let compact = trim_end_matches (\<lambda>ch. ch \<in> set (lit ''.,;:!?'')) trimmed;
                  ws = split_whitespace compact
              in if ws = [] then None
                 else let take_count = min (length ws) 8;
                          title = join sp (take take_count ws)
                      in Some (if take_count < length ws then title @ lit ''...'' else title))"

definition format_timestamp_ms :: "nat \<Rightarrow> nat \<Rightarrow> rstr" where
  "format_timestamp_ms ms separator =
     (let hours = ms div 3600000; minutes = (ms mod 3600000) div 60000;
          seconds = (ms mod 60000) div 1000; millis = ms mod 1000
      in fmt_pad 2 hours @ lit '':'' @ fmt_pad 2 minutes @ lit '':'' @ fmt_pad 2 seconds
         @ [separator] @ fmt_pad 3 millis)"

definition format_srt_ms :: "nat \<Rightarrow> rstr" where
  "format_srt_ms ms = format_timestamp_ms ms 44"

definition format_vtt_ms :: "nat \<Rightarrow> rstr" where
  "format_vtt_ms ms = format_timestamp_ms ms 46"

definition post_process :: "transcript_history \<Rightarrow> post_processor \<Rightarrow> post_process_output" where
  "post_process h options =
     (let lns = filter (\<lambda>l. l \<noteq> [])
                  (map (\<lambda>e. normalize_whitespace (he_text e) options) (sorted_entries (hy_entries h)));
          joined_text = (if pp_join_segments options then join sp lns else join nl lns);
          title = (if pp_suggest_title options then suggest_title_from_text joined_text else None)
      in \<lparr>po_lines = lns, po_joined_text = joined_text, po_title = title\<rparr>)"

section \<open>Exports\<close>

text \<open>The loop over the enumerated entries; \<open>rows\<close> are the cues pushed so far.\<close>

fun subtitle_loop ::
  "post_processor \<Rightarrow> (nat \<Rightarrow> rstr) \<Rightarrow> bool \<Rightarrow> nat \<Rightarrow> rstr list \<Rightarrow> history_entry list
     \<Rightarrow> 'j history_export_error + rstr list" where
  "subtitle_loop options format_ms include_index index rows [] = Inr rows"
| "subtitle_loop options format_ms include_index index rows (entry # es) =
     (if he_end_ms entry \<le> he_start_ms entry
      then Inl (InvalidSubtitleTiming (index + 1) (he_start_ms entry) (he_end_ms entry))
      else let txt = normalize_whitespace (he_text entry) options
           in if txt = [] then subtitle_loop options format_ms include_index (index + 1) rows es
              else let cue = format_ms (he_start_ms entry) @ lit '' --> '' @ format_ms (he_end_ms entry) @ nl @ txt;
                       row = (if include_index then show_nat (length rows + 1) @ nl @ cue else cue)
                   in subtitle_loop options format_ms include_index (index + 1) (rows @ [row]) es)"

definition export_subtitle_rows ::
  "history_entry list \<Rightarrow> post_processor \<Rightarrow> (nat \<Rightarrow> rstr) \<Rightarrow> bool \<Rightarrow> 'j history_export_error + rstr list" where
  "export_subtitle_rows entries options format_ms include_index =
     subtitle_loop options format_ms include_index 0 [] (sorted_entries entries)"

record history_export_json =
  hj_text :: rstr
  hj_title :: "rstr option"
  hj_entries :: "history_entry list"
  hj_revisions :: "history_revision list"

definition render_trailing_newline_or_empty :: "rstr \<Rightarrow> rstr" where
  "render_trailing_newline_or_empty txt = (if txt = [] then [] else txt @ nl)"

definition render_markdown_doc :: "rstr \<Rightarrow> rstr \<Rightarrow> rstr" where
  "render_markdown_doc heading body =
     (if body = [] then lit ''# '' @ heading @ nl else lit ''# '' @ heading @ nl @ nl @ body @ nl)"

definition render_subtitle_doc :: "rstr option \<Rightarrow> rstr \<Rightarrow> rstr" where
  "render_subtitle_doc header body =
     (case header of Some hdr \<Rightarrow> hdr @ nl @ body @ nl | None \<Rightarrow> body @ nl)"

definition export_markdown :: "post_process_output \<Rightarrow> post_processor \<Rightarrow> rstr" where
  "export_markdown processed options =
     (let heading = (case po_title processed of Some t \<Rightarrow> t | None \<Rightarrow> lit ''Transcript'');
          body = (if pp_join_segments options then po_joined_text processed
                  else join (nl @ nl) (po_lines processed))
      in render_markdown_doc heading body)"

datatype subtitle_kind = Srt | Vtt

record subtitle_layout =
  sl_header :: "rstr option"
  sl_include_index :: bool
  sl_time_format :: "nat \<Rightarrow> rstr"

fun subtitle_kind_layout :: "subtitle_kind \<Rightarrow> subtitle_layout" where
  "subtitle_kind_layout Srt =
     \<lparr>sl_header = None, sl_include_index = True, sl_time_format = format_srt_ms\<rparr>"
| "subtitle_kind_layout Vtt =
     \<lparr>sl_header = Some (lit ''WEBVTT'' @ nl), sl_include_index = False, sl_time_format = format_vtt_ms\<rparr>"

definition export_subtitles ::
  "history_entry list \<Rightarrow> post_processor \<Rightarrow> subtitle_kind \<Rightarrow> 'j history_export_error + rstr" where
  "export_subtitles entries options kind =
     (let layout = subtitle_kind_layout kind
      in rbind (export_subtitle_rows entries options (sl_time_format layout) (sl_include_index layout))
           (\<lambda>rows. Inr (if rows = [] then (case sl_header layout of Some hdr \<Rightarrow> hdr | None \<Rightarrow> [])
                        else render_subtitle_doc (sl_header layout) (join (nl @ nl) rows))))"

definition export_json ::
  "(history_export_json \<Rightarrow> 'j + rstr) \<Rightarrow> history_entry list \<Rightarrow> history_revision list
     \<Rightarrow> post_process_output \<Rightarrow> post_processor \<Rightarrow> 'j history_export_error + rstr" where
  "export_json to_json entries revisions processed options =
     map_err JsonError (to_json \<lparr>hj_text = po_joined_text processed, hj_title = po_title processed,
       hj_entries = post_processed_entries entries options, hj_revisions = revisions\<rparr>)"

definition export_rendered ::
  "(history_export_json \<Rightarrow> 'j + rstr) \<Rightarrow> export_format \<Rightarrow> history_entry list \<Rightarrow> history_revision list
     \<Rightarrow> post_process_output \<Rightarrow> post_processor \<Rightarrow> 'j history_export_error + rstr" where
  "export_rendered to_json format entries revisions processed options =
     (case format of
        TextFormat \<Rightarrow> Inr (render_trailing_newline_or_empty (po_joined_text processed))
      | JsonFormat \<Rightarrow> export_json to_json entries revisions processed options
      | MarkdownFormat \<Rightarrow> Inr (export_markdown processed options)
      | SrtFormat \<Rightarrow> export_subtitles entries options Srt
      | VttFormat \<Rightarrow> export_subtitles entries options Vtt)"

definition history_export ::
  "(history_export_json \<Rightarrow> 'j + rstr) \<Rightarrow> transcript_history \<Rightarrow> export_format \<Rightarrow> post_processor
     \<Rightarrow> 'j history_export_error + rstr" where
  "history_export to_json h format options =
     export_rendered to_json format (hy_entries h) (hy_revisions h) (post_process h options) options"

text \<open>
  The extension is what \<open>Path::extension\<close> and \<open>to_str\<close> return for the path, and the displayed
  path is only used in the error.
\<close>

definition format_from_extension :: "rstr option \<Rightarrow> export_format option" where
  "format_from_extension extension =
     (case extension of
        None \<Rightarrow> None
      | Some x \<Rightarrow>
          (let e = to_ascii_lowercase x
           in if e = lit ''txt'' then Some TextFormat
              else if e = lit ''json'' then Some JsonFormat
              else if e = lit ''md'' \<or> e = lit ''markdown'' then Some MarkdownFormat
              else if e = lit ''srt'' then Some SrtFormat
              else if e = lit ''vtt'' then Some VttFormat
              else None))"

definition export_by_path ::
  "(history_export_json \<Rightarrow> 'j + rstr) \<Rightarrow> transcript_history \<Rightarrow> rstr \<Rightarrow> rstr option \<Rightarrow> post_processor
     \<Rightarrow> 'j history_export_error + (export_format \<times> rstr)" where
  "export_by_path to_json h path extension options =
     (case format_from_extension extension of
        None \<Rightarrow> Inl (UnsupportedExtension path)
      | Some format \<Rightarrow> rbind (history_export to_json h format options) (\<lambda>rendered. Inr (format, rendered)))"


section \<open>The index\<close>

definition entry_key :: "history_entry \<Rightarrow> rstr \<times> rstr" where
  "entry_key e = (he_utterance_id e, he_segment_id e)"

definition revision_key :: "history_revision \<Rightarrow> rstr \<times> rstr" where
  "revision_key r = (hr_utterance_id r, hr_segment_id r)"

text \<open>The index is exactly the inverse of the keys of the entries.\<close>

definition history_ok :: "transcript_history \<Rightarrow> bool" where
  "history_ok h \<longleftrightarrow> (\<forall>k i. hy_index h k = Some i \<longleftrightarrow> i < length (hy_entries h) \<and> entry_key (hy_entries h ! i) = k)"

definition history_lookup :: "transcript_history \<Rightarrow> rstr \<times> rstr \<Rightarrow> history_entry option" where
  "history_lookup h k = map_option (\<lambda>i. hy_entries h ! i) (hy_index h k)"

lemma input_entry_key [simp]: "entry_key (input_entry i l r n) = input_key i"
  by (simp add: entry_key_def input_entry_def input_key_def)

lemma input_revision_key [simp]: "revision_key (input_revision i a b) = input_key i"
  by (simp add: revision_key_def input_revision_def input_key_def)

lemma history_new_ok [simp]: "history_ok history_new"
  by (simp add: history_ok_def history_new_def)

lemma history_okD:
  "history_ok h \<Longrightarrow> hy_index h k = Some i \<Longrightarrow> i < length (hy_entries h) \<and> entry_key (hy_entries h ! i) = k"
  unfolding history_ok_def by blast

lemma history_lookup_key: "history_ok h \<Longrightarrow> history_lookup h k = Some e \<Longrightarrow> entry_key e = k \<and> e \<in> set (hy_entries h)"
  by (auto simp: history_lookup_def dest: history_okD)

text \<open>An update read through the index, branch by branch.\<close>

lemma apply_update_cases:
  assumes "history_ok h"
  obtains (fresh) "history_lookup h (input_key i) = None" "fst (apply_transcript_update h i) = Applied"
  | (stale) e where "history_lookup h (input_key i) = Some e" "ui_revision i \<le> he_revision e"
      "apply_transcript_update h i = (HyIgnoredDuplicateOrOutOfOrder (he_revision e) (ui_revision i), h)"
  | (unchanged) e where "history_lookup h (input_key i) = Some e" "he_revision e < ui_revision i" "ui_text i = he_text e"
      "apply_transcript_update h i = (HyIgnoredNoChange (he_revision e), h)"
  | (newer) e where "history_lookup h (input_key i) = Some e" "he_revision e < ui_revision i" "ui_text i \<noteq> he_text e"
      "fst (apply_transcript_update h i) = Applied"
proof (cases "hy_index h (input_key i)")
  case None
  then show thesis by (intro fresh) (simp_all add: history_lookup_def apply_transcript_update_def Let_def)
next
  case (Some n)
  then have l: "history_lookup h (input_key i) = Some (hy_entries h ! n)" by (simp add: history_lookup_def)
  show thesis
    using Some stale [OF l] unchanged [OF l] newer [OF l]
    by (cases "ui_revision i \<le> he_revision (hy_entries h ! n)"; cases "ui_text i = he_text (hy_entries h ! n)")
      (simp_all add: apply_transcript_update_def Let_def)
qed

lemma apply_update_ok:
  assumes ok: "history_ok h"
  shows "history_ok (snd (apply_transcript_update h i))"
proof (cases "hy_index h (input_key i)")
  case None
  have "entry_key (hy_entries h ! n) \<noteq> input_key i" if "n < length (hy_entries h)" for n
    using ok None that by (metis history_ok_def option.distinct(1))
  then show ?thesis
    using ok None by (auto simp: apply_transcript_update_def Let_def history_ok_def nth_append less_Suc_eq)
next
  case (Some n)
  then have n: "n < length (hy_entries h)" "entry_key (hy_entries h ! n) = input_key i"
    using ok by (auto dest: history_okD)
  show ?thesis
    using ok Some n by (auto simp: apply_transcript_update_def Let_def history_ok_def nth_list_update)
qed

text \<open>The entry of the updated segment becomes the update; every other entry is kept.\<close>

lemma apply_update_lookup:
  assumes ok: "history_ok h"
  shows "history_lookup (snd (apply_transcript_update h i)) k =
    (if k = input_key i \<and> fst (apply_transcript_update h i) = Applied
     then Some (case history_lookup h k of
         None \<Rightarrow> input_entry i (ui_language i) (is_reason_revision (ui_reason i)) (if is_reason_revision (ui_reason i) then 1 else 0)
       | Some e \<Rightarrow> input_entry i (opt_or (ui_language i) (he_language e)) True (u64_sat_add (he_revision_count e) 1))
     else history_lookup h k)"
proof (cases "hy_index h (input_key i)")
  case None
  have "m < length (hy_entries h)" if "hy_index h k = Some m" for m
    using history_okD [OF ok that] by blast
  then show ?thesis
    using None by (cases "hy_index h k")
      (auto simp: apply_transcript_update_def Let_def history_lookup_def nth_append split: option.split)
next
  case (Some n)
  then have n: "n < length (hy_entries h)" using ok by (auto dest: history_okD)
  have "m = n \<longleftrightarrow> k = input_key i" if "hy_index h k = Some m" for m
    using that Some history_okD [OF ok that] history_okD [OF ok Some] by auto
  then show ?thesis
    using Some n by (cases "hy_index h k") (auto simp: apply_transcript_update_def Let_def history_lookup_def nth_list_update split: option.split)
qed

lemma apply_update_rejected:
  "history_ok h \<Longrightarrow> fst (apply_transcript_update h i) \<noteq> Applied \<Longrightarrow> snd (apply_transcript_update h i) = h"
  by (erule apply_update_cases [of h i]) auto

lemma input_entry_fields [simp]:
  "he_revision (input_entry i l r n) = ui_revision i" "he_text (input_entry i l r n) = ui_text i"
  "he_revision_count (input_entry i l r n) = n" "he_revised (input_entry i l r n) = r"
  by (simp_all add: input_entry_def)

interpretation hy_log: revision_log apply_transcript_update
  "\<lambda>h k. map_option he_revision (history_lookup h k)" input_key ui_revision "\<lambda>r. r = Applied" history_ok
proof
  fix h i assume ok: "history_ok h"
  show "history_ok (snd (apply_transcript_update h i))" by (rule apply_update_ok [OF ok])
  show "fst (apply_transcript_update h i) = Applied \<Longrightarrow>
      (\<lambda>k. map_option he_revision (history_lookup (snd (apply_transcript_update h i)) k))
      = (\<lambda>k. map_option he_revision (history_lookup h k))(input_key i \<mapsto> ui_revision i)"
    by (rule ext) (simp add: apply_update_lookup [OF ok] split: option.split)
  show "fst (apply_transcript_update h i) = Applied \<Longrightarrow>
      map_option he_revision (history_lookup h (input_key i)) = Some r \<Longrightarrow> r \<le> ui_revision i" for r
    by (rule apply_update_cases [OF ok, of i]) auto
  show "fst (apply_transcript_update h i) \<noteq> Applied \<Longrightarrow>
      (\<lambda>k. map_option he_revision (history_lookup (snd (apply_transcript_update h i)) k))
      = (\<lambda>k. map_option he_revision (history_lookup h k))"
    by (simp add: apply_update_rejected [OF ok])
qed

section \<open>The revision chain of a segment\<close>

definition revisions_of :: "transcript_history \<Rightarrow> rstr \<times> rstr \<Rightarrow> history_revision list" where
  "revisions_of h k = filter (\<lambda>r. revision_key r = k) (hy_revisions h)"

definition revision_linked :: "history_revision \<Rightarrow> history_revision \<Rightarrow> bool" where
  "revision_linked a b \<longleftrightarrow> hr_from_revision b = Some (hr_to_revision a) \<and> hr_from_text b = Some (hr_to_text a)
     \<and> hr_to_revision a < hr_to_revision b"

text \<open>
  The recorded revisions of a segment form a chain without gaps that ends at the current
  entry, whose count is the length of the chain (up to the saturation of the counter).
\<close>

definition chain_ok :: "transcript_history \<Rightarrow> rstr \<times> rstr \<Rightarrow> bool" where
  "chain_ok h k \<longleftrightarrow> (case history_lookup h k of
       None \<Rightarrow> revisions_of h k = []
     | Some e \<Rightarrow> successively revision_linked (revisions_of h k)
         \<and> (revisions_of h k \<noteq> [] \<longrightarrow> hr_to_revision (last (revisions_of h k)) = he_revision e
              \<and> hr_to_text (last (revisions_of h k)) = he_text e)
         \<and> he_revised e = (revisions_of h k \<noteq> [])
         \<and> he_revision_count e = min (length (revisions_of h k)) u64_max)"

lemma apply_update_revisions:
  "history_ok h \<Longrightarrow> revisions_of (snd (apply_transcript_update h i)) k =
     revisions_of h k @ (if k = input_key i \<and> fst (apply_transcript_update h i) = Applied
       then (case history_lookup h k of
               Some e \<Rightarrow> [input_revision i (Some (he_revision e)) (Some (he_text e))]
             | None \<Rightarrow> if is_reason_revision (ui_reason i) then [input_revision i None None] else [])
       else [])"
  by (auto simp: revisions_of_def apply_transcript_update_def Let_def history_lookup_def split: option.split)

lemma chain_ok_step:
  assumes ok: "history_ok h" and ch: "chain_ok h k"
  shows "chain_ok (snd (apply_transcript_update h i)) k"
proof (cases "k = input_key i \<and> fst (apply_transcript_update h i) = Applied")
  case False
  then have "history_lookup (snd (apply_transcript_update h i)) k = history_lookup h k"
    "revisions_of (snd (apply_transcript_update h i)) k = revisions_of h k"
    unfolding apply_update_lookup [OF ok] apply_update_revisions [OF ok] if_not_P [OF False] by simp_all
  then show ?thesis using ch by (simp add: chain_ok_def split: option.splits)
next
  case True
  show ?thesis
  proof (cases "history_lookup h k")
    case None
    then show ?thesis
      using ch True unfolding chain_ok_def apply_update_lookup [OF ok] apply_update_revisions [OF ok]
      by (simp add: input_revision_def)
  next
    case (Some e)
    have "he_revision e < ui_revision i"
      by (rule apply_update_cases [OF ok, of i]) (use True Some in auto)
    then show ?thesis
      using ch True Some unfolding chain_ok_def apply_update_lookup [OF ok] apply_update_revisions [OF ok]
      by (auto simp: input_revision_def successively_append_iff revision_linked_def u64_sat_add_def)
  qed
qed


lemma history_run_chain:
  assumes "history_ok h" and "\<And>k. chain_ok h k"
  shows "chain_ok (snd (run apply_transcript_update h is)) k"
  using assms by (induction "is" arbitrary: h) (simp_all add: chain_ok_step apply_update_ok)

lemma history_new_chain: "chain_ok history_new k"
  by (simp add: chain_ok_def history_lookup_def history_new_def revisions_of_def)

section \<open>Text\<close>

lemma dropWhile_idem [simp]: "dropWhile p (dropWhile p xs) = dropWhile p xs"
  by (induction xs) auto

lemma dropWhile_rev_dropWhile:
  "dropWhile p (rev (dropWhile p (rev (dropWhile p xs)))) = rev (dropWhile p (rev (dropWhile p xs)))"
proof (cases "dropWhile p xs")
  case (Cons y ys)
  then have "\<not> p y" by (metis hd_dropWhile list.distinct(1) list.sel(1))
  then have "dropWhile p (rev (dropWhile p xs)) = dropWhile p (rev ys) @ [y]"
    unfolding Cons by (induction "rev ys" rule: rev_induct) (auto simp: dropWhile_append)
  then show ?thesis using \<open>\<not> p y\<close> by simp
next
  case Nil
  show ?thesis unfolding Nil by simp
qed

lemma trim_idem [simp]: "trim (trim s) = trim s"
  by (simp add: trim_def trim_end_matches_def dropWhile_rev_dropWhile)

lemma words_acc_dropWhile: "words_acc [] (dropWhile is_ws s) = words_acc [] s"
  by (induction s) auto

lemma words_acc_append_ws: "\<forall>c\<in>set ws. is_ws c \<Longrightarrow> words_acc cur (s @ ws) = words_acc cur s"
proof (induction s arbitrary: cur)
  case Nil
  then show ?case by (induction ws arbitrary: cur) auto
qed auto

lemma trim_end_decomp: "\<exists>ws. s = trim_end_matches p s @ ws \<and> (\<forall>c\<in>set ws. p c)"
  by (rule exI [where x = "rev (takeWhile p (rev s))"])
    (metis rev_append rev_rev_ident set_rev set_takeWhileD takeWhile_dropWhile_id trim_end_matches_def)

lemma split_whitespace_trim [simp]: "split_whitespace (trim s) = split_whitespace s"
proof -
  obtain ws where ws: "dropWhile is_ws s = trim s @ ws" "\<forall>c\<in>set ws. is_ws c"
    using trim_end_decomp [of "dropWhile is_ws s" is_ws] by (auto simp: trim_def)
  have "words_acc [] s = words_acc [] (trim s @ ws)"
    using words_acc_dropWhile [of s] ws(1) by simp
  then show ?thesis using words_acc_append_ws [OF ws(2)] by (simp add: split_whitespace_def)
qed

lemma split_join_split [simp]: "split_whitespace (join sp (split_whitespace s)) = split_whitespace s"
  by (rule split_whitespace_join) (simp add: split_whitespace_words)

lemma normalize_idem: "normalize_whitespace (normalize_whitespace s o1) o1 = normalize_whitespace s o1"
  by (simp add: normalize_whitespace_def Let_def)

section \<open>Subtitles\<close>

definition subtitle_cue :: "(nat \<Rightarrow> rstr) \<Rightarrow> history_entry \<Rightarrow> rstr" where
  "subtitle_cue format_ms e =
     format_ms (he_start_ms e) @ lit '' --> '' @ format_ms (he_end_ms e) @ nl @ he_text e"

definition subtitle_row :: "(nat \<Rightarrow> rstr) \<Rightarrow> bool \<Rightarrow> nat \<times> history_entry \<Rightarrow> rstr" where
  "subtitle_row format_ms include_index x =
     (if include_index then show_nat (fst x + 1) @ nl else []) @ subtitle_cue format_ms (snd x)"

lemma subtitle_loop_spec:
  "subtitle_loop options format_ms include_index index rows es =
     (case find (\<lambda>x. he_end_ms (snd x) \<le> he_start_ms (snd x)) (enumerate (index + 1) es) of
        Some (n, e) \<Rightarrow> Inl (InvalidSubtitleTiming n (he_start_ms e) (he_end_ms e))
      | None \<Rightarrow> Inr (rows @ map (subtitle_row format_ms include_index)
                (enumerate (length rows) (List.map_filter (\<lambda>e. normalize_entry e options) es))))"
proof (induction es arbitrary: index rows)
  case Nil
  then show ?case by (simp add: map_filter_def)
next
  case (Cons e es)
  show ?case
  proof (cases "he_end_ms e \<le> he_start_ms e")
    case False
    then show ?thesis
      using Cons.IH [of "index + 1"]
      by (cases "normalize_whitespace (he_text e) options = []")
        (simp_all add: Let_def normalize_entry_def List.map_filter_simps subtitle_row_def subtitle_cue_def
          split: option.split)
  qed simp
qed


section \<open>Timestamps\<close>

text \<open>Reading a cue timestamp back, by position from its end.\<close>

definition parse_timestamp_ms :: "rstr \<Rightarrow> nat" where
  "parse_timestamp_ms s =
     (let n = length s
      in read_nat (take (n - 10) s) * 3600000 + read_nat (take 2 (drop (n - 9) s)) * 60000
         + read_nat (take 2 (drop (n - 6) s)) * 1000 + read_nat (drop (n - 3) s))"

lemma timestamp_parts:
  fixes ms :: nat
  shows "ms div 3600000 * 3600000 + ms mod 3600000 div 60000 * 60000 + ms mod 60000 div 1000 * 1000 + ms mod 1000 = ms"
proof -
  have "ms mod 3600000 mod 60000 = ms mod 60000" "ms mod 60000 mod 1000 = ms mod 1000"
    by (simp_all add: mod_mod_cancel)
  then show ?thesis
    using div_mult_mod_eq [of ms 3600000] div_mult_mod_eq [of "ms mod 3600000" 60000]
      div_mult_mod_eq [of "ms mod 60000" 1000] by linarith
qed

lemma timestamp_widths:
  "length (fmt_pad 2 (ms mod 3600000 div 60000)) = 2" "length (fmt_pad 2 (ms mod 60000 div 1000)) = 2"
  "length (fmt_pad 3 (ms mod 1000)) = 3" for ms :: nat
  by (simp_all add: length_fmt_pad less_mult_imp_div_less)

lemma parse_format_timestamp: "parse_timestamp_ms (format_timestamp_ms ms sep) = ms"
proof -
  let ?h = "fmt_pad 2 (ms div 3600000)" and ?m = "fmt_pad 2 (ms mod 3600000 div 60000)"
    and ?s = "fmt_pad 2 (ms mod 60000 div 1000)" and ?l = "fmt_pad 3 (ms mod 1000)"
  note w = timestamp_widths [of ms]
  have f: "format_timestamp_ms ms sep = ?h @ [58] @ ?m @ [58] @ ?s @ [sep] @ ?l"
    by (simp add: format_timestamp_ms_def Let_def lit_def)
  have n: "length (format_timestamp_ms ms sep) = length ?h + 10" unfolding f using w by simp
  have "take (length ?h) (format_timestamp_ms ms sep) = ?h" unfolding f by simp
  moreover have "take 2 (drop (length ?h + 1) (format_timestamp_ms ms sep)) = ?m" unfolding f using w by simp
  moreover have "take 2 (drop (4 + length ?h) (format_timestamp_ms ms sep)) = ?s" unfolding f using w by simp
  moreover have "drop (7 + length ?h) (format_timestamp_ms ms sep) = ?l" unfolding f using w by simp
  ultimately show ?thesis
    unfolding parse_timestamp_ms_def Let_def n by (simp add: read_fmt_pad timestamp_parts)
qed

section \<open>Properties\<close>

text \<open>
  The audit trail of a segment is complete: after any sequence of updates the recorded
  revisions of every segment form a chain in which each record starts from the revision and
  text the previous one ended with, the last one ends with the current entry, and the entry's
  revision count is the length of the chain.
\<close>

theorem history_revision_chain:
  "chain_ok (snd (run apply_transcript_update history_new is)) k"
  by (rule history_run_chain) (simp_all add: history_new_chain)

text \<open>
  What the history holds after one more update: the entry of the updated segment becomes
  the update exactly if the segment is new or the update is newer with a different text (the
  language of the old entry is kept if the update has none), and every other entry stays.
\<close>

theorem history_update_lookup:
  assumes "h = snd (run apply_transcript_update history_new is)"
  shows "history_lookup (snd (apply_transcript_update h i)) k =
    (case history_lookup h k of
       None \<Rightarrow> if k = input_key i
         then Some (input_entry i (ui_language i) (is_reason_revision (ui_reason i)) (of_bool (is_reason_revision (ui_reason i))))
         else None
     | Some e \<Rightarrow> if k = input_key i \<and> he_revision e < ui_revision i \<and> ui_text i \<noteq> he_text e
         then Some (input_entry i (opt_or (ui_language i) (he_language e)) True (u64_sat_add (he_revision_count e) 1))
         else Some e)"
proof -
  have ok: "history_ok h" unfolding assms by (rule hy_log.run_wf) simp
  show ?thesis
    by (rule apply_update_cases [OF ok, of i])
      (auto simp: apply_update_lookup [OF ok] split: option.split)
qed

definition sample_input :: transcript_update_input where
  "sample_input = \<lparr>ui_utterance_id = TranscriptUtteranceId [1], ui_segment_id = TranscriptSegmentId [2],
     ui_revision = 3, ui_text = [4], ui_start_ms = 0, ui_end_ms = 10, ui_language = None,
     ui_reason = ReasonFinal None, ui_source_event_id = None, ui_source_seq = None\<rparr>"

theorem history_update_lookup_witness:
  "history_lookup (snd (apply_transcript_update (snd (run apply_transcript_update history_new []))
       sample_input)) ([1], [2])
     = Some (input_entry sample_input None False 0)"
  using history_update_lookup [of "snd (run apply_transcript_update history_new [])" "[]" sample_input "([1], [2])"]
  by (simp add: history_new_def history_lookup_def sample_input_def input_key_def)

text \<open>
  Exports list the entries by start time, end time, sequence number and identity: the
  sorted list is a permutation of the entries, ordered by these fields, and entries that
  agree on all of them keep their order.
\<close>

theorem sorted_entries_stable_permutation:
  "mset (sorted_entries es) = mset es \<and> sorted (map entry_sort_key (sorted_entries es))
   \<and> filter (\<lambda>e. entry_sort_key e = k) (sorted_entries es) = filter (\<lambda>e. entry_sort_key e = k) es"
  by (simp add: sorted_entries_def sort_key_stable)

text \<open>
  Subtitle export fails exactly if some entry does not end after it starts, naming the
  first such line of the sorted list and its times; otherwise its cues are the entries with a
  non-empty text after normalization, in sorted order, numbered from 1 without gaps.
\<close>

theorem subtitle_rows_or_first_bad_line:
  "export_subtitle_rows entries options format_ms include_index =
     (case find (\<lambda>x. he_end_ms (snd x) \<le> he_start_ms (snd x)) (enumerate 1 (sorted_entries entries)) of
        Some (n, e) \<Rightarrow> Inl (InvalidSubtitleTiming n (he_start_ms e) (he_end_ms e))
      | None \<Rightarrow> Inr (map (subtitle_row format_ms include_index)
                (enumerate 0 (post_processed_entries entries options))))"
  by (simp add: export_subtitle_rows_def subtitle_loop_spec post_processed_entries_def split: option.split)

text \<open>
  Whitespace normalization is idempotent for every choice of options and keeps the words.
\<close>

theorem normalize_whitespace_idempotent:
  "normalize_whitespace (normalize_whitespace s options) options = normalize_whitespace s options
   \<and> split_whitespace (normalize_whitespace s options) = split_whitespace s"
  using normalize_idem by (simp add: normalize_whitespace_def Let_def)

text \<open>
  A cue timestamp determines its time, also beyond 99 hours: reading the digits back gives
  the milliseconds that were formatted, in both subtitle formats.
\<close>

theorem cue_timestamp_roundtrip:
  "parse_timestamp_ms (format_srt_ms ms) = ms \<and> parse_timestamp_ms (format_vtt_ms ms) = ms"
  by (simp add: format_srt_ms_def format_vtt_ms_def parse_format_timestamp)

end
