(* ===== verification/Transcript_Recording.thy ===== *)
theory Transcript_Recording
  imports Transcript_History
begin

text \<open>
  The lifecycle, the sequencer and the history in a row, as a session connects them: an
  accepted update becomes a transcript event, the sequencer wraps it in an envelope, the identifier of
  a final event is recorded in the lifecycle (\<open>emit_transcript_event\<close> of
  \<open>crates/openasr-core/src/api/native/transcript_emitter.rs\<close>, and the same code in the server), and the
  history records the envelope.
\<close>

record recording =
  rd_lifecycle :: transcript_lifecycle
  rd_sequencer :: realtime_event_sequencer
  rd_history :: transcript_history

definition note_final_event :: "realtime_transcript_event \<Rightarrow> realtime_event_id \<Rightarrow> transcript_lifecycle \<Rightarrow> transcript_lifecycle" where
  "note_final_event e event_id lc = (case e of
     Final p \<Rightarrow> record_final_event_id lc (te_utterance_id p) (te_segment_id p) (te_revision p) event_id
   | _ \<Rightarrow> lc)"

definition recording_step ::
  "recording \<Rightarrow> lifecycle_op \<times> rstr
     \<Rightarrow> (transcript_lifecycle_result \<times> history_apply_result option) \<times> recording" where
  "recording_step r x =
     (let (result, lc) = lifecycle_step (rd_lifecycle r) (fst x)
      in case result of
           LcEvent e \<Rightarrow>
             (let (env, sq) = sequencer_next (rd_sequencer r) (Transcript e) (snd x);
                  (applied, h) = apply_envelope (rd_history r) env
              in ((result, Some applied), \<lparr>rd_lifecycle = note_final_event e (ev_event_id env) lc, rd_sequencer = sq, rd_history = h\<rparr>))
         | _ \<Rightarrow> ((result, None), r\<lparr>rd_lifecycle := lc\<rparr>))"

definition key_str :: "segment_key \<Rightarrow> rstr \<times> rstr" where
  "key_str k = (utterance_str (fst k), segment_str (snd k))"

lemma key_str_inject [simp]: "key_str k = key_str k' \<longleftrightarrow> k = k'"
  by (cases k; cases k'; cases "fst k"; cases "snd k"; cases "fst k'"; cases "snd k'")
    (auto simp: key_str_def)

text \<open>The history holds exactly the finalized segments, at their current revision and text.\<close>

definition recorded_view :: "transcript_lifecycle \<Rightarrow> segment_key \<Rightarrow> (nat \<times> rstr) option" where
  "recorded_view lc k = (case lc_segments lc k of
     Some s \<Rightarrow> if ss_finalized s then Some (ss_revision s, ss_text s) else None | None \<Rightarrow> None)"

lemma recorded_view_note_final [simp]: "recorded_view (note_final_event e event_id lc) = recorded_view lc"
  by (auto simp: recorded_view_def note_final_event_def record_final_event_id_def fun_eq_iff
      split: realtime_transcript_event.splits option.splits)

definition in_agreement :: "recording \<Rightarrow> bool" where
  "in_agreement r \<longleftrightarrow> history_ok (rd_history r)
     \<and> (\<forall>k. map_option (\<lambda>e. (he_revision e, he_text e)) (history_lookup (rd_history r) (key_str k))
           = recorded_view (rd_lifecycle r) k)"

lemma in_agreementD:
  "in_agreement r \<Longrightarrow> map_option (\<lambda>e. (he_revision e, he_text e)) (history_lookup (rd_history r) (key_str k))
     = recorded_view (rd_lifecycle r) k"
  unfolding in_agreement_def by blast

text \<open>What the events of the lifecycle carry.\<close>

fun event_text :: "realtime_transcript_event \<Rightarrow> rstr" where
  "event_text (Partial e) = te_text e"
| "event_text (Final e) = te_text e"
| "event_text (Revision e) = te_text e"

lemma lifecycle_step_view:
  assumes "fst (lifecycle_step lc op) = LcEvent e"
  shows "recorded_view (snd (lifecycle_step lc op)) =
      (if is_partial e then recorded_view lc
       else (recorded_view lc)(event_segment e \<mapsto> (event_revision e, event_text e)))
    \<and> (\<forall>r t. \<not> is_partial e \<longrightarrow> recorded_view lc (event_segment e) = Some (r, t) \<longrightarrow>
         r < event_revision e \<and> t \<noteq> event_text e)"
  using assms
  by (cases op) (auto simp: op_step_eq lifecycle_defs to_update_event_def to_final_event_def
      to_partial_event_def update_key_def recorded_view_def Let_def split: option.splits if_splits)

lemma lifecycle_step_rejected: "\<not> is_event (fst (lifecycle_step lc op)) \<Longrightarrow> snd (lifecycle_step lc op) = lc"
  by (cases op) (simp_all add: op_step_eq lifecycle_apply_rejected)

definition envelope_input :: "realtime_transcript_event \<Rightarrow> realtime_event_envelope \<Rightarrow> transcript_update_input" where
  "envelope_input e env = (case e of
       Partial p \<Rightarrow> to_update_input p (event_reason (Partial p)) (Some (event_id_str (ev_event_id env))) (Some (ev_seq env))
     | Final p \<Rightarrow> to_update_input p (event_reason (Final p)) (Some (event_id_str (ev_event_id env))) (Some (ev_seq env))
     | Revision p \<Rightarrow> to_update_input p (event_reason (Revision p)) (Some (event_id_str (ev_event_id env))) (Some (ev_seq env)))"

lemma envelope_input_fields [simp]:
  "input_key (envelope_input e env) = key_str (event_segment e)"
  "ui_revision (envelope_input e env) = event_revision e" "ui_text (envelope_input e env) = event_text e"
  by (cases e; simp add: envelope_input_def to_update_input_def input_key_def key_str_def)+

lemma apply_envelope_transcript:
  "ev_event env = Transcript e \<Longrightarrow> apply_envelope h env =
     (if is_partial e then (IgnoredNonTranscriptEvent, h) else apply_transcript_update h (envelope_input e env))"
  by (cases e) (simp_all add: apply_envelope_def history_apply_final_def history_apply_revision_def envelope_input_def)

lemma agreement_applied:
  assumes ag: "in_agreement r" and ev: "fst (lifecycle_step (rd_lifecycle r) op) = LcEvent e" "\<not> is_partial e"
  shows "fst (apply_transcript_update (rd_history r) (envelope_input e env)) = Applied"
proof -
  have ok: "history_ok (rd_history r)" using ag by (simp add: in_agreement_def)
  have v: "map_option (\<lambda>e. (he_revision e, he_text e)) (history_lookup (rd_history r) (key_str (event_segment e)))
      = recorded_view (rd_lifecycle r) (event_segment e)"
    by (rule in_agreementD [OF ag])
  show ?thesis
    by (rule apply_update_cases [OF ok, of "envelope_input e env"])
      (use v [symmetric] lifecycle_step_view [OF ev(1)] ev(2) in auto)
qed

lemma agreement_step:
  assumes ag: "in_agreement r"
  shows "in_agreement (snd (recording_step r x))"
    and "fst (lifecycle_step (rd_lifecycle r) (fst x)) = LcEvent e \<Longrightarrow>
      fst (recording_step r x) = (LcEvent e, Some (if is_partial e then IgnoredNonTranscriptEvent else Applied))"
proof -
  have ok: "history_ok (rd_history r)" using ag by (simp add: in_agreement_def)
  have v: "map_option (\<lambda>e. (he_revision e, he_text e)) (history_lookup (rd_history r) (key_str k))
      = recorded_view (rd_lifecycle r) k" for k
    by (rule in_agreementD [OF ag])
  obtain res lc where st: "lifecycle_step (rd_lifecycle r) (fst x) = (res, lc)" by fastforce
  have "in_agreement (snd (recording_step r x)) \<and> (\<forall>e. res = LcEvent e \<longrightarrow>
      fst (recording_step r x) = (LcEvent e, Some (if is_partial e then IgnoredNonTranscriptEvent else Applied)))"
  proof (cases "is_event res")
    case False
    then have "lc = rd_lifecycle r" using lifecycle_step_rejected [of "rd_lifecycle r" "fst x"] st by simp
    then show ?thesis using False ag st by (cases res) (auto simp: recording_step_def in_agreement_def)
  next
    case True
    then obtain e where e: "res = LcEvent e" by (cases res) auto
    obtain env sq where sq: "sequencer_next (rd_sequencer r) (Transcript e) (snd x) = (env, sq)" by fastforce
    have env: "ev_event env = Transcript e"
      using sequencer_next_fields(2) [of "rd_sequencer r" "Transcript e" "snd x"] sq by simp
    let ?i = "envelope_input e env"
    have view: "recorded_view lc = (if is_partial e then recorded_view (rd_lifecycle r)
        else (recorded_view (rd_lifecycle r))(event_segment e \<mapsto> (event_revision e, event_text e)))"
      using lifecycle_step_view [of "rd_lifecycle r" "fst x" e] st e by simp
    show ?thesis
    proof (cases "is_partial e")
      case True
      then show ?thesis
        using ok v view st e sq by (simp add: recording_step_def in_agreement_def apply_envelope_transcript [OF env])
    next
      case False
      have ap: "fst (apply_transcript_update (rd_history r) ?i) = Applied"
        by (rule agreement_applied [OF ag _ False, of "fst x"]) (simp add: st e)
      have "map_option (\<lambda>e. (he_revision e, he_text e))
          (history_lookup (snd (apply_transcript_update (rd_history r) ?i)) (key_str k)) = recorded_view lc k" for k
        using v [of k] view False ap by (auto simp: apply_update_lookup [OF ok] split: option.splits)
      then show ?thesis
        using False st e sq ap apply_update_ok [OF ok, of ?i]
        by (simp add: recording_step_def in_agreement_def apply_envelope_transcript [OF env] split_def)
    qed
  qed
  then show "in_agreement (snd (recording_step r x))"
    and "fst (lifecycle_step (rd_lifecycle r) (fst x)) = LcEvent e \<Longrightarrow>
      fst (recording_step r x) = (LcEvent e, Some (if is_partial e then IgnoredNonTranscriptEvent else Applied))"
    using st by simp_all
qed

interpretation recording: machine recording_step in_agreement "\<lambda>_. True"
  by unfold_locales (rule agreement_step(1))

definition recording_new :: "transcript_revision_policy \<Rightarrow> realtime_session_id \<Rightarrow> recording" where
  "recording_new p sid = \<lparr>rd_lifecycle = lifecycle_new p, rd_sequencer = sequencer_new sid, rd_history = history_new\<rparr>"

lemma recording_new_agreement: "in_agreement (recording_new p sid)"
  unfolding in_agreement_def
  by (auto simp: recording_new_def recorded_view_def lifecycle_new_def history_lookup_def)
    (simp_all add: history_new_def)

section \<open>Properties\<close>

text \<open>
  C6. The history never loses or refuses what a client was shown: in every session, each final
  or revision event the lifecycle produces is applied by the history, and afterwards the
  history has an entry for exactly the finalized segments, with the revision and the text the
  lifecycle holds.
\<close>

theorem history_records_what_was_shown:
  assumes "r = snd (run recording_step (recording_new p sid) xs)"
  shows "map_option (\<lambda>e. (he_revision e, he_text e)) (history_lookup (rd_history r) (key_str k))
      = recorded_view (rd_lifecycle r) k
    \<and> (\<forall>op ts e. fst (lifecycle_step (rd_lifecycle r) op) = LcEvent e \<longrightarrow> \<not> is_partial e \<longrightarrow>
         snd (fst (recording_step r (op, ts))) = Some Applied)"
proof -
  have ag: "in_agreement r"
    unfolding assms by (rule recording.run_inv [OF recording_new_agreement]) (simp add: list_all_iff)
  show ?thesis
    using in_agreementD [OF ag] agreement_step(2) [OF ag] by simp
qed

theorem history_records_what_was_shown_witness:
  "snd (fst (recording_step (recording_new ExplicitPostFinalRevision (RealtimeSessionId [1]))
     (FinalOp (transcript_update_new [1] [2] 1 [3] 0 10) None, []))) = Some Applied"
proof -
  let ?r = "recording_new ExplicitPostFinalRevision (RealtimeSessionId [1])"
    and ?op = "FinalOp (transcript_update_new [1] [2] 1 [3] 0 10) None"
  have "\<exists>e. fst (lifecycle_step (rd_lifecycle ?r) ?op) = LcEvent e \<and> \<not> is_partial e"
    by (simp add: recording_new_def op_step_eq lifecycle_apply_def accept_update_def lifecycle_new_def
        Let_def to_final_event_def to_update_event_def)
  then show ?thesis
    using history_records_what_was_shown [of ?r ExplicitPostFinalRevision "RealtimeSessionId [1]" "[]"] by auto
qed

end
