(* ===== verification/Session_Controller.thy ===== *)
theory Session_Controller
  imports Realtime_Pipeline Transcript_Lifecycle
begin

text \<open>
  The session controller (\<open>crates/openasr-core/src/realtime/session/core.rs\<close>): the lifecycle
  of a realtime session and the operations that emit its events. The neural voice activity
  detector (\<open>FireRedRealtimeVadSession\<close>, inference on vendored weights) is a parameter: its
  state is the type \<open>'n\<close>, its errors are \<open>'e\<close>, and \<open>neural_ops\<close> holds the three operations the
  controller calls, each of which may change the detector also when it fails.
\<close>

section \<open>Data\<close>

record realtime_session_config =
  sc_session_id :: realtime_session_id
  sc_model_id :: rstr
  sc_audio_format :: realtime_audio_format
  sc_vad :: vad_config
  sc_buffer :: realtime_buffer_config
  sc_partial_results :: bool
  sc_word_timestamps :: bool
  sc_diarize :: bool
  sc_created_at :: rstr
  sc_trace_id :: "rstr option"
  sc_request_id :: "rstr option"

datatype session_state = Created | Configured | Running | Closed | Cancelled

datatype lifecycle_action = Configure | StartAudio | StopAudio rstr | Close rstr

datatype 'e session_error =
    InvalidSessionConfig rstr
  | AudioFormatError realtime_frame_error
  | VadConfigError vad_config_error
  | BufferError realtime_buffer_error
  | SessionClosedError
  | InvalidStateTransition session_state rstr
  | StreamVadUnavailable
  | StreamVadExecution 'e

record ('n, 'e) neural_ops =
  no_open :: "nat \<Rightarrow> 'e + 'n"
  no_accept :: "'n \<Rightarrow> 16 word list \<Rightarrow> ('e + f32) \<times> 'n"
  no_reset :: "'n \<Rightarrow> ('e + unit) \<times> 'n"

record 'n session_controller =
  cn_config :: realtime_session_config
  cn_state :: session_state
  cn_sequencer :: realtime_event_sequencer
  cn_vad :: vad_machine
  cn_neural_vad :: "'n option"
  cn_buffer :: realtime_buffer
  cn_transcript :: transcript_lifecycle

section \<open>Configuration\<close>

fun session_id_str :: "realtime_session_id \<Rightarrow> rstr" where
  "session_id_str (RealtimeSessionId s) = s"

definition validate_required_field :: "rstr \<Rightarrow> rstr \<Rightarrow> 'e session_error + unit" where
  "validate_required_field val name =
     (if trim val = [] then Inl (InvalidSessionConfig (name @ lit '' must not be empty'')) else Inr ())"

definition session_config_new :: "rstr \<Rightarrow> rstr \<Rightarrow> rstr \<Rightarrow> realtime_session_config" where
  "session_config_new session_id model_id created_at =
     \<lparr>sc_session_id = RealtimeSessionId session_id, sc_model_id = model_id,
      sc_audio_format = pcm16_mono_16khz, sc_vad = vad_config_default, sc_buffer = buffer_config_default,
      sc_partial_results = True, sc_word_timestamps = False, sc_diarize = False,
      sc_created_at = created_at, sc_trace_id = None, sc_request_id = None\<rparr>"

definition session_config_validate :: "realtime_session_config \<Rightarrow> 'e session_error + unit" where
  "session_config_validate c =
     rbind (validate_required_field (session_id_str (sc_session_id c)) (lit ''session_id'')) (\<lambda>_.
     rbind (validate_required_field (sc_model_id c) (lit ''model_id'')) (\<lambda>_.
     rbind (validate_required_field (sc_created_at c) (lit ''created_at'')) (\<lambda>_.
     rbind (map_err AudioFormatError (validate_normalized (sc_audio_format c))) (\<lambda>_.
     rbind (map_err VadConfigError (vad_config_validate (sc_vad c))) (\<lambda>_.
     rbind (map_err BufferError (buffer_new (sc_buffer c))) (\<lambda>_. Inr ()))))))"

section \<open>Construction\<close>

definition controller_new_with_sequencer ::
  "('n, 'e) neural_ops \<Rightarrow> realtime_session_config \<Rightarrow> realtime_event_sequencer
     \<Rightarrow> 'e session_error + 'n session_controller" where
  "controller_new_with_sequencer no config sequencer =
     rbind (session_config_validate config) (\<lambda>_.
     rbind (if vc_mode (sc_vad config) = ExternalProbability
            then rbind (map_err AudioFormatError
                   (sample_count_for_duration_ms (sc_audio_format config) (vc_frame_duration_ms (sc_vad config))))
                   (\<lambda>frame_samples. rbind (map_err StreamVadExecution (no_open no frame_samples))
                      (\<lambda>session. Inr (Some session)))
            else Inr None) (\<lambda>neural.
     rbind (map_err VadConfigError (vad_new (sc_vad config))) (\<lambda>vad.
     rbind (map_err BufferError (buffer_new (sc_buffer config))) (\<lambda>buffer.
       Inr \<lparr>cn_config = config, cn_state = Created, cn_sequencer = sequencer, cn_vad = vad,
            cn_neural_vad = neural, cn_buffer = buffer,
            cn_transcript = lifecycle_new ExplicitPostFinalRevision\<rparr>))))"

definition controller_new ::
  "('n, 'e) neural_ops \<Rightarrow> realtime_session_config \<Rightarrow> 'e session_error + 'n session_controller" where
  "controller_new no config =
     controller_new_with_sequencer no config
       (with_request_id (sc_request_id config) (with_trace_id (sc_trace_id config)
          (sequencer_new (sc_session_id config))))"

section \<open>Operations\<close>

definition ensure_not_terminal :: "'n session_controller \<Rightarrow> 'e session_error + unit" where
  "ensure_not_terminal c =
     (if cn_state c = Closed \<or> cn_state c = Cancelled then Inl SessionClosedError else Inr ())"

definition sequence_event ::
  "'n session_controller \<Rightarrow> realtime_event \<Rightarrow> rstr
     \<Rightarrow> realtime_event_envelope \<times> 'n session_controller" where
  "sequence_event c event created_at =
     (let (env, sq) = sequencer_next (cn_sequencer c) event created_at in (env, c\<lparr>cn_sequencer := sq\<rparr>))"

definition emit_passthrough_event ::
  "'n session_controller \<Rightarrow> realtime_event \<Rightarrow> rstr
     \<Rightarrow> ('e session_error + realtime_event_envelope) \<times> 'n session_controller" where
  "emit_passthrough_event c event created_at =
     (case ensure_not_terminal c of
        Inl e \<Rightarrow> (Inl e, c)
      | Inr _ \<Rightarrow> (let (env, c') = sequence_event c event created_at in (Inr env, c')))"

definition transition_to ::
  "'n session_controller \<Rightarrow> session_state \<Rightarrow> session_state \<Rightarrow> rstr
     \<Rightarrow> ('e session_error + unit) \<times> 'n session_controller" where
  "transition_to c expected nxt action =
     (case ensure_not_terminal c of
        Inl e \<Rightarrow> (Inl e, c)
      | Inr _ \<Rightarrow>
          if cn_state c \<noteq> expected then (Inl (InvalidStateTransition (cn_state c) action), c)
          else (Inr (), c\<lparr>cn_state := nxt\<rparr>))"

definition emit_with_transition ::
  "'n session_controller \<Rightarrow> session_state \<Rightarrow> session_state \<Rightarrow> rstr \<Rightarrow> realtime_event \<Rightarrow> rstr
     \<Rightarrow> ('e session_error + realtime_event_envelope) \<times> 'n session_controller" where
  "emit_with_transition c expected nxt action event created_at =
     (case transition_to c expected nxt action of
        (Inl e, c') \<Rightarrow> (Inl e, c')
      | (Inr _, c') \<Rightarrow>
          (case ensure_not_terminal c' of
             Inl e \<Rightarrow> (Inl e, c')
           | Inr _ \<Rightarrow> (let (env, c'') = sequence_event c' event created_at in (Inr env, c''))))"

definition close_session ::
  "'n session_controller \<Rightarrow> session_state \<Rightarrow> rstr \<Rightarrow> bool \<Rightarrow> rstr
     \<Rightarrow> ('e session_error + realtime_event_envelope) \<times> 'n session_controller" where
  "close_session c next_state reason reset_runtime_state created_at =
     (case ensure_not_terminal c of
        Inl e \<Rightarrow> (Inl e, c)
      | Inr _ \<Rightarrow>
          (let c1 = c\<lparr>cn_vad := vad_close (cn_vad c)\<rparr>;
               c2 = (if reset_runtime_state
                     then c1\<lparr>cn_buffer := buffer_reset (cn_buffer c1),
                             cn_transcript := lifecycle_reset (cn_transcript c1)\<rparr>
                     else c1);
               c3 = c2\<lparr>cn_state := next_state, cn_neural_vad := None\<rparr>;
               (env, c4) = sequence_event c3 (Lifecycle (SessionClosed reason)) created_at
           in (Inr env, c4)))"

fun lifecycle_transition_spec_v0 ::
  "'n session_controller \<Rightarrow> lifecycle_action
     \<Rightarrow> (session_state \<times> session_state \<times> rstr \<times> realtime_event) option" where
  "lifecycle_transition_spec_v0 c Configure = Some (Created, Configured, lit ''configure'',
     Lifecycle (SessionConfigured
       \<lparr>scf_model = sc_model_id (cn_config c), scf_partial_results = sc_partial_results (cn_config c),
        scf_word_timestamps = sc_word_timestamps (cn_config c), scf_diarize = sc_diarize (cn_config c),
        scf_vad_enabled = True\<rparr>))"
| "lifecycle_transition_spec_v0 c StartAudio =
     Some (Configured, Running, lit ''start_audio'', AudioInput Started)"
| "lifecycle_transition_spec_v0 c (StopAudio reason) =
     Some (Running, Configured, lit ''stop_audio'', AudioInput (Stopped reason))"
| "lifecycle_transition_spec_v0 c (Close reason) = None"

text \<open>
  In the second match of the source only \<open>Close\<close> is left; its other arms are
  \<open>unreachable!()\<close>, and the first match indeed returned for them.
\<close>

definition session_lifecycle ::
  "'n session_controller \<Rightarrow> lifecycle_action \<Rightarrow> rstr
     \<Rightarrow> ('e session_error + realtime_event_envelope) \<times> 'n session_controller" where
  "session_lifecycle c action created_at =
     (case lifecycle_transition_spec_v0 c action of
        Some (expected, nxt, transition, event) \<Rightarrow>
          emit_with_transition c expected nxt transition event created_at
      | None \<Rightarrow>
          close_session c Closed (case action of Close reason \<Rightarrow> reason | _ \<Rightarrow> []) False created_at)"

definition session_created_event ::
  "'n session_controller \<Rightarrow> rstr \<Rightarrow> realtime_event_envelope \<times> 'n session_controller" where
  "session_created_event c created_at =
     sequence_event c (Lifecycle (SessionCreated (sc_audio_format (cn_config c)))) created_at"

definition session_vad_event ::
  "'n session_controller \<Rightarrow> realtime_vad_event \<Rightarrow> rstr
     \<Rightarrow> ('e session_error + realtime_event_envelope) \<times> 'n session_controller" where
  "session_vad_event c event created_at = emit_passthrough_event c (Vad event) created_at"

definition session_transcript_event ::
  "'n session_controller \<Rightarrow> realtime_transcript_event \<Rightarrow> rstr
     \<Rightarrow> ('e session_error + realtime_event_envelope) \<times> 'n session_controller" where
  "session_transcript_event c event created_at = emit_passthrough_event c (Transcript event) created_at"

definition session_error_event ::
  "'n session_controller \<Rightarrow> realtime_error_event \<Rightarrow> rstr
     \<Rightarrow> ('e session_error + realtime_event_envelope) \<times> 'n session_controller" where
  "session_error_event c event created_at = emit_passthrough_event c (Error event) created_at"

definition process_vad_frame_with_speech ::
  "('n, 'e) neural_ops \<Rightarrow> (16 word list \<Rightarrow> f32) \<Rightarrow> 'n session_controller \<Rightarrow> realtime_audio_frame
     \<Rightarrow> ('e session_error + (speech_boundary_event list \<times> bool)) \<times> 'n session_controller" where
  "process_vad_frame_with_speech no rms c frame =
     (case (vc_mode (vm_config (cn_vad c)), cn_neural_vad c) of
        (ExternalProbability, Some neural) \<Rightarrow>
          (case no_accept no neural (fr_samples frame) of
             (Inl e, neural') \<Rightarrow> (Inl (StreamVadExecution e), c\<lparr>cn_neural_vad := Some neural'\<rparr>)
           | (Inr probability, neural') \<Rightarrow>
               (let (r, vad) = process_decision_with_speech (cn_vad c) frame
                                 \<lparr>vd_decision = Probability probability, vd_rms = None\<rparr>
                in (Inr r, c\<lparr>cn_neural_vad := Some neural', cn_vad := vad\<rparr>)))
      | _ \<Rightarrow>
          (let (r, vad) = process_energy_frame_with_speech rms (cn_vad c) frame
           in (Inr r, c\<lparr>cn_vad := vad\<rparr>)))"

definition process_vad_frame ::
  "('n, 'e) neural_ops \<Rightarrow> (16 word list \<Rightarrow> f32) \<Rightarrow> 'n session_controller \<Rightarrow> realtime_audio_frame
     \<Rightarrow> ('e session_error + speech_boundary_event list) \<times> 'n session_controller" where
  "process_vad_frame no rms c frame =
     (let (r, c') = process_vad_frame_with_speech no rms c frame
      in (case r of Inl e \<Rightarrow> Inl e | Inr (events, _) \<Rightarrow> Inr events, c'))"

definition session_reset ::
  "('n, 'e) neural_ops \<Rightarrow> 'n session_controller \<Rightarrow> ('e session_error + unit) \<times> 'n session_controller" where
  "session_reset no c =
     (case ensure_not_terminal c of
        Inl e \<Rightarrow> (Inl e, c)
      | Inr _ \<Rightarrow>
          if cn_state c = Created then (Inl (InvalidStateTransition (cn_state c) (lit ''reset'')), c)
          else
            (let (r, neural') = (case cn_neural_vad c of
                   None \<Rightarrow> (Inr (), None)
                 | Some neural \<Rightarrow> (let (r, n') = no_reset no neural in (r, Some n')))
             in case r of
                  Inl e \<Rightarrow> (Inl (StreamVadExecution e), c\<lparr>cn_neural_vad := neural'\<rparr>)
                | Inr _ \<Rightarrow>
                    (Inr (), c\<lparr>cn_neural_vad := neural', cn_vad := vad_reset (cn_vad c),
                             cn_buffer := buffer_reset (cn_buffer c),
                             cn_transcript := lifecycle_reset (cn_transcript c),
                             cn_state := Configured\<rparr>)))"

definition session_cancel ::
  "'n session_controller \<Rightarrow> nat \<Rightarrow> rstr
     \<Rightarrow> ('e session_error + (realtime_event_envelope \<times> buffered_utterance option)) \<times> 'n session_controller" where
  "session_cancel c end_ms created_at =
     (case ensure_not_terminal c of
        Inl e \<Rightarrow> (Inl e, c)
      | Inr _ \<Rightarrow>
          (let (cancelled_utterance, b) = buffer_cancel (cn_buffer c) end_ms
           in case close_session (c\<lparr>cn_buffer := b\<rparr>) Cancelled (lit ''cancelled'') True created_at of
                (Inl e, c') \<Rightarrow> (Inl e, c')
              | (Inr event, c') \<Rightarrow> (Inr (event, cancelled_utterance), c')))"


section \<open>The lifecycle as a transition relation\<close>

fun terminal :: "session_state \<Rightarrow> bool" where
  "terminal Closed = True"
| "terminal Cancelled = True"
| "terminal _ = False"

inductive session_trans :: "session_state \<Rightarrow> lifecycle_action \<Rightarrow> session_state \<Rightarrow> bool" where
  configure: "session_trans Created Configure Configured"
| start: "session_trans Configured StartAudio Running"
| stop: "session_trans Running (StopAudio r) Configured"
| close: "\<not> terminal s \<Longrightarrow> session_trans s (Close r) Closed"

inductive_cases session_trans_cases: "session_trans s a s'"

inductive_simps session_trans_simps [simp]:
  "session_trans s Configure s'" "session_trans s StartAudio s'"
  "session_trans s (StopAudio r) s'" "session_trans s (Close r) s'"

code_pred session_trans .

lemma session_trans_deterministic: "session_trans s a s1 \<Longrightarrow> session_trans s a s2 \<Longrightarrow> s1 = s2"
  by (cases a) auto

fun action_name :: "lifecycle_action \<Rightarrow> rstr" where
  "action_name Configure = lit ''configure''"
| "action_name StartAudio = lit ''start_audio''"
| "action_name (StopAudio r) = lit ''stop_audio''"
| "action_name (Close r) = lit ''close''"

lemma ensure_not_terminal_eq: "ensure_not_terminal c = (if terminal (cn_state c) then Inl SessionClosedError else Inr ())"
  by (cases "cn_state c") (simp_all add: ensure_not_terminal_def)

lemma sequence_event_fields [simp]:
  "cn_state (snd (sequence_event c e ts)) = cn_state c" "cn_vad (snd (sequence_event c e ts)) = cn_vad c"
  "cn_neural_vad (snd (sequence_event c e ts)) = cn_neural_vad c"
  "cn_buffer (snd (sequence_event c e ts)) = cn_buffer c"
  "cn_transcript (snd (sequence_event c e ts)) = cn_transcript c"
  "cn_sequencer (snd (sequence_event c e ts)) = snd (sequencer_next (cn_sequencer c) e ts)"
  "fst (sequence_event c e ts) = fst (sequencer_next (cn_sequencer c) e ts)"
  by (simp_all add: sequence_event_def split_def Let_def)

text \<open>The operations, read as equations.\<close>

definition emitted ::
  "'n session_controller \<Rightarrow> realtime_event \<Rightarrow> rstr
     \<Rightarrow> ('e session_error + realtime_event_envelope) \<times> 'n session_controller" where
  "emitted c event ts = (Inr (fst (sequence_event c event ts)), snd (sequence_event c event ts))"

lemma emit_passthrough_event_eq:
  "emit_passthrough_event c event ts = (if terminal (cn_state c) then (Inl SessionClosedError, c) else emitted c event ts)"
  by (simp add: emit_passthrough_event_def ensure_not_terminal_eq emitted_def split_def)

lemma emit_with_transition_eq:
  "\<not> terminal nxt \<Longrightarrow> emit_with_transition c expected nxt action event ts =
     (if terminal (cn_state c) then (Inl SessionClosedError, c)
      else if cn_state c \<noteq> expected then (Inl (InvalidStateTransition (cn_state c) action), c)
      else emitted (c\<lparr>cn_state := nxt\<rparr>) event ts)"
  by (simp add: emit_with_transition_def transition_to_def ensure_not_terminal_eq emitted_def split_def)

lemma close_session_eq:
  "close_session c nxt reason reset ts =
     (if terminal (cn_state c) then (Inl SessionClosedError, c)
      else emitted ((if reset then c\<lparr>cn_vad := vad_close (cn_vad c), cn_buffer := buffer_reset (cn_buffer c),
                                     cn_transcript := lifecycle_reset (cn_transcript c)\<rparr>
                     else c\<lparr>cn_vad := vad_close (cn_vad c)\<rparr>)\<lparr>cn_state := nxt, cn_neural_vad := None\<rparr>)
             (Lifecycle (SessionClosed reason)) ts)"
  by (simp add: close_session_def ensure_not_terminal_eq emitted_def split_def Let_def)

fun lifecycle_next :: "'n session_controller \<Rightarrow> lifecycle_action \<Rightarrow> 'n session_controller" where
  "lifecycle_next c Configure = c\<lparr>cn_state := Configured\<rparr>"
| "lifecycle_next c StartAudio = c\<lparr>cn_state := Running\<rparr>"
| "lifecycle_next c (StopAudio r) = c\<lparr>cn_state := Configured\<rparr>"
| "lifecycle_next c (Close r) = c\<lparr>cn_vad := vad_close (cn_vad c), cn_state := Closed, cn_neural_vad := None\<rparr>"

fun lifecycle_emits :: "'n session_controller \<Rightarrow> lifecycle_action \<Rightarrow> realtime_event" where
  "lifecycle_emits c (Close r) = Lifecycle (SessionClosed r)"
| "lifecycle_emits c a = snd (snd (snd (the (lifecycle_transition_spec_v0 c a))))"

lemma session_lifecycle_accepts:
  "session_trans (cn_state c) a s' \<Longrightarrow>
   session_lifecycle c a ts = emitted (lifecycle_next c a) (lifecycle_emits c a) ts \<and> cn_state (lifecycle_next c a) = s'"
  by (cases a) (auto simp: session_lifecycle_def emit_with_transition_eq close_session_eq)

lemma session_lifecycle_refuses:
  assumes "\<And>s'. \<not> session_trans (cn_state c) a s'"
  shows "session_lifecycle c a ts = (Inl (if terminal (cn_state c) then SessionClosedError
      else InvalidStateTransition (cn_state c) (action_name a)), c)"
  using assms by (cases a) (auto simp: session_lifecycle_def emit_with_transition_eq close_session_eq)

lemma lifecycle_next_sequencer [simp]: "cn_sequencer (lifecycle_next c a) = cn_sequencer c"
  by (cases a) simp_all

lemma session_lifecycle_cases:
  fixes c :: "'n session_controller"
  obtains (refused) e :: "'e session_error" where "session_lifecycle c a ts = (Inl e, c)" "\<And>s'. \<not> session_trans (cn_state c) a s'"
      "e = (if terminal (cn_state c) then SessionClosedError else InvalidStateTransition (cn_state c) (action_name a))"
  | (moved) "session_lifecycle c a ts = (emitted (lifecycle_next c a) (lifecycle_emits c a) ts
        :: ('e session_error + _) \<times> _)"
      "session_trans (cn_state c) a (cn_state (lifecycle_next c a))"
proof (cases "\<exists>s'. session_trans (cn_state c) a s'")
  case True
  then show thesis using session_lifecycle_accepts [of c a _ ts] by (intro moved) auto
next
  case False
  then show thesis by (intro refused [OF session_lifecycle_refuses]) auto
qed

lemma session_trans_source: "session_trans s a s' \<Longrightarrow> \<not> terminal s"
  by (cases a) auto

lemma session_cancel_eq:
  "session_cancel c e ts =
     (if terminal (cn_state c) then (Inl SessionClosedError, c)
      else let c1 = c\<lparr>cn_vad := vad_close (cn_vad c),
                      cn_buffer := buffer_reset (snd (buffer_cancel (cn_buffer c) e)),
                      cn_transcript := lifecycle_reset (cn_transcript c),
                      cn_state := Cancelled, cn_neural_vad := None\<rparr>;
               event = Lifecycle (SessionClosed (lit ''cancelled''))
           in (Inr (fst (sequence_event c1 event ts), fst (buffer_cancel (cn_buffer c) e)), snd (sequence_event c1 event ts)))"
  by (simp add: session_cancel_def ensure_not_terminal_eq close_session_eq emitted_def split_def Let_def)

lemma session_reset_cases:
  fixes no :: "('n, 'e) neural_ops"
  obtains (refused) e where "session_reset no c = (Inl e, c)" "terminal (cn_state c) \<or> cn_state c = Created"
      "e = (if terminal (cn_state c) then SessionClosedError else InvalidStateTransition Created (lit ''reset''))"
  | (failed) e n where "session_reset no c = (Inl (StreamVadExecution e), c\<lparr>cn_neural_vad := Some n\<rparr>)"
      "\<not> terminal (cn_state c)" "cn_state c \<noteq> Created"
  | (cleared) n where "session_reset no c = (Inr (), c\<lparr>cn_neural_vad := n, cn_vad := vad_reset (cn_vad c),
        cn_buffer := buffer_reset (cn_buffer c), cn_transcript := lifecycle_reset (cn_transcript c),
        cn_state := Configured\<rparr>)" "\<not> terminal (cn_state c)" "cn_state c \<noteq> Created"
proof (cases "terminal (cn_state c) \<or> cn_state c = Created")
  case True
  then show thesis
    by (intro refused [OF _ True]) (auto simp: session_reset_def ensure_not_terminal_eq)
next
  case nt: False
  show thesis
  proof (cases "cn_neural_vad c")
    case None
    then show thesis using nt
      by (intro cleared [of None]) (simp_all add: session_reset_def ensure_not_terminal_eq)
  next
    case (Some n)
    obtain r n' where r: "no_reset no n = (r, n')" by fastforce
    show thesis
    proof (cases r)
      case (Inl e)
      then show thesis using nt Some r
        by (intro failed [of e n']) (simp_all add: session_reset_def ensure_not_terminal_eq)
    next
      case (Inr u)
      then show thesis using nt Some r
        by (intro cleared [of "Some n'"]) (simp_all add: session_reset_def ensure_not_terminal_eq)
    qed
  qed
qed

lemmas session_eqs =
  emit_passthrough_event_eq session_cancel_eq session_created_event_def session_vad_event_def
  session_transcript_event_def session_error_event_def emitted_def

section \<open>Runs of a session\<close>

datatype session_op =
    OpCreated rstr
  | OpLifecycle lifecycle_action rstr
  | OpVad realtime_vad_event rstr
  | OpTranscript realtime_transcript_event rstr
  | OpError realtime_error_event rstr
  | OpFrame realtime_audio_frame
  | OpReset
  | OpCancel nat rstr

fun session_step ::
  "('n, 'e) neural_ops \<Rightarrow> (16 word list \<Rightarrow> f32) \<Rightarrow> 'n session_controller \<Rightarrow> session_op
     \<Rightarrow> ('e session_error + (realtime_event_envelope list \<times> speech_boundary_event list)) \<times> 'n session_controller" where
  "session_step no rms c (OpCreated ts) =
     (let (env, c') = session_created_event c ts in (Inr ([env], []), c'))"
| "session_step no rms c (OpLifecycle a ts) =
     (let (r, c') = session_lifecycle c a ts in (rbind r (\<lambda>env. Inr ([env], [])), c'))"
| "session_step no rms c (OpVad e ts) =
     (let (r, c') = session_vad_event c e ts in (rbind r (\<lambda>env. Inr ([env], [])), c'))"
| "session_step no rms c (OpTranscript e ts) =
     (let (r, c') = session_transcript_event c e ts in (rbind r (\<lambda>env. Inr ([env], [])), c'))"
| "session_step no rms c (OpError e ts) =
     (let (r, c') = session_error_event c e ts in (rbind r (\<lambda>env. Inr ([env], [])), c'))"
| "session_step no rms c (OpFrame f) =
     (let (r, c') = process_vad_frame no rms c f in (rbind r (\<lambda>es. Inr ([], es)), c'))"
| "session_step no rms c OpReset =
     (let (r, c') = session_reset no c in (rbind r (\<lambda>_. Inr ([], [])), c'))"
| "session_step no rms c (OpCancel e ts) =
     (let (r, c') = session_cancel c e ts in (rbind r (\<lambda>x. Inr ([fst x], [])), c'))"

fun out_envelopes :: "'e + (realtime_event_envelope list \<times> speech_boundary_event list) \<Rightarrow> realtime_event_envelope list" where
  "out_envelopes (Inr x) = fst x"
| "out_envelopes (Inl e) = []"

fun out_boundaries :: "'e + (realtime_event_envelope list \<times> speech_boundary_event list) \<Rightarrow> speech_boundary_event list" where
  "out_boundaries (Inr x) = snd x"
| "out_boundaries (Inl e) = []"

lemma process_with_speech_step [simp]:
  "fst (fst (process_decision_with_speech m f d)) = fst (vad_step m (f, d))"
  "snd (process_decision_with_speech m f d) = snd (vad_step m (f, d))"
  by (simp_all add: vad_step_def process_decision_def split_def Let_def)

text \<open>A frame either fails in the detector or is one step of the machine.\<close>

lemma process_vad_frame_cases:
  fixes no :: "('n, 'e) neural_ops"
  obtains (failed) e n where "process_vad_frame no rms c f = (Inl (StreamVadExecution e), c\<lparr>cn_neural_vad := Some n\<rparr>)"
      "cn_neural_vad c \<noteq> None"
  | (stepped) d n where "process_vad_frame no rms c f = (Inr (fst (vad_step (cn_vad c) (f, d))),
        c\<lparr>cn_neural_vad := n, cn_vad := snd (vad_step (cn_vad c) (f, d))\<rparr>)"
      "cn_neural_vad c = None \<Longrightarrow> n = None"
proof (cases "vc_mode (vm_config (cn_vad c)) = ExternalProbability \<and> cn_neural_vad c \<noteq> None")
  case True
  then obtain n where n: "vc_mode (vm_config (cn_vad c)) = ExternalProbability" "cn_neural_vad c = Some n" by auto
  obtain r n' where a: "no_accept no n (fr_samples f) = (r, n')" by fastforce
  show thesis
  proof (cases r)
    case (Inl e)
    show thesis
      by (rule failed [of e n']) (use n a Inl in \<open>simp_all add: process_vad_frame_def process_vad_frame_with_speech_def\<close>)
  next
    case (Inr p)
    show thesis
      by (rule stepped [of "\<lparr>vd_decision = Probability p, vd_rms = None\<rparr>" "Some n'"])
        (use n a Inr in \<open>simp_all add: process_vad_frame_def process_vad_frame_with_speech_def split_def Let_def\<close>)
  qed
next
  case False
  then have "process_vad_frame_with_speech no rms c f =
      (let (r, vad) = process_energy_frame_with_speech rms (cn_vad c) f in (Inr r, c\<lparr>cn_vad := vad\<rparr>))"
    by (auto simp: process_vad_frame_with_speech_def split: vad_mode.split option.split)
  then show thesis
    by (intro stepped [of "frame_decision_from_energy rms f (vc_energy_threshold (vm_config (cn_vad c)))" "cn_neural_vad c"])
      (simp_all add: process_vad_frame_def process_energy_frame_with_speech_def split_def Let_def)
qed

text \<open>A step emits no envelope, or the one the sequencer makes next.\<close>

lemma session_step_sequenced:
  fixes no :: "('n, 'e) neural_ops"
  shows "out_envelopes (fst (session_step no rms c op)) = [] \<and> cn_sequencer (snd (session_step no rms c op)) = cn_sequencer c
   \<or> (\<exists>e ts. out_envelopes (fst (session_step no rms c op)) = [fst (sequencer_next (cn_sequencer c) e ts)]
        \<and> cn_sequencer (snd (session_step no rms c op)) = snd (sequencer_next (cn_sequencer c) e ts))"
proof (cases op)
  case (OpLifecycle a ts)
  show ?thesis
    by (rule session_lifecycle_cases [where 'e = 'e, of c a ts])
      (use OpLifecycle in \<open>auto simp: emitted_def\<close>)
next
  case (OpFrame f)
  show ?thesis
    by (rule process_vad_frame_cases [of no rms c f]) (use OpFrame in auto)
next
  case OpReset
  show ?thesis
    by (rule session_reset_cases [of no c]) (use OpReset in auto)
qed (auto simp: session_eqs split_def Let_def)

lemma session_run_sequenced:
  fixes no :: "('n, 'e) neural_ops" and rms c
  assumes "sq_next_seq (cn_sequencer c) + length ops < u64_limit"
    and "sq_next_event_index (cn_sequencer c) + length ops < u64_limit"
  defines "envs \<equiv> concat (map out_envelopes (fst (run (session_step no rms) c ops)))"
  shows "length envs \<le> length ops
    \<and> map ev_seq envs = [sq_next_seq (cn_sequencer c) ..< sq_next_seq (cn_sequencer c) + length envs]
    \<and> map ev_event_id envs = map event_id_of_index
        [sq_next_event_index (cn_sequencer c) ..< sq_next_event_index (cn_sequencer c) + length envs]"
  using assms(1,2) unfolding envs_def
proof (induction ops arbitrary: c)
  case (Cons op ops)
  let ?c = "snd (session_step no rms c op)"
  from session_step_sequenced [of no rms c op] show ?case
  proof (elim disjE conjE exE)
    assume "out_envelopes (fst (session_step no rms c op)) = []" "cn_sequencer ?c = cn_sequencer c"
    then show ?thesis using Cons.IH [of ?c] Cons.prems by simp
  next
    fix e ts
    assume e: "out_envelopes (fst (session_step no rms c op)) = [fst (sequencer_next (cn_sequencer c) e ts)]"
      "cn_sequencer ?c = snd (sequencer_next (cn_sequencer c) e ts)"
    then have "sq_next_seq (cn_sequencer ?c) = sq_next_seq (cn_sequencer c) + 1"
      "sq_next_event_index (cn_sequencer ?c) = sq_next_event_index (cn_sequencer c) + 1"
      using Cons.prems by (simp_all add: wrap_simps)
    then show ?thesis
      using Cons.IH [of ?c] Cons.prems e by (simp add: upt_conv_Cons del: upt_Suc)
  qed
qed simp

section \<open>The invariant of a session\<close>

text \<open>The machine is closed exactly in the terminal states, where no detector is held.\<close>

definition session_wf :: "'n session_controller \<Rightarrow> bool" where
  "session_wf c \<longleftrightarrow> vad_wf (cn_vad c) \<and> terminal (cn_state c) = (vm_state (cn_vad c) = VadClosed)
     \<and> (terminal (cn_state c) \<longrightarrow> cn_neural_vad c = None)"

lemma vad_step_state_closed: "vm_state (snd (vad_step m x)) = VadClosed \<longleftrightarrow> vm_state m = VadClosed"
proof (cases "vm_state m")
  case WaitingForSpeech
  then show ?thesis by (auto simp: vad_step_waiting waiting_defs Let_def split: option.split)
next
  case InSpeech
  then show ?thesis by (auto simp: vad_step_in_speech in_speech_defs Let_def split: option.split)
qed (simp add: vad_step_closed)

lemma vad_close_state [simp]: "vm_state (vad_close m) = VadClosed"
  by (simp add: vad_close_def)

lemma vad_reset_state [simp]: "vm_state (vad_reset m) = WaitingForSpeech"
  by (simp add: vad_reset_def clear_state_after_boundary_def)

lemma session_wf_sequence [simp]: "session_wf (snd (sequence_event c e ts)) = session_wf c"
  by (simp add: session_wf_def)

lemma lifecycle_next_wf:
  "session_wf c \<Longrightarrow> session_trans (cn_state c) a s' \<Longrightarrow> session_wf (lifecycle_next c a)"
  by (cases a) (auto simp: session_wf_def)

lemma session_step_wf:
  fixes no :: "('n, 'e) neural_ops"
  assumes wf: "session_wf c"
  shows "session_wf (snd (session_step no rms c op))"
proof (cases op)
  case (OpLifecycle a ts)
  show ?thesis
    by (rule session_lifecycle_cases [where 'e = 'e, of c a ts])
      (use wf OpLifecycle in \<open>auto simp: emitted_def dest: lifecycle_next_wf\<close>)
next
  case (OpFrame f)
  show ?thesis
    by (rule process_vad_frame_cases [of no rms c f])
      (use wf OpFrame in \<open>auto simp: session_wf_def vad_step_state_closed vad_step_contract\<close>)
next
  case OpReset
  show ?thesis
    by (rule session_reset_cases [of no c])
      (use wf OpReset in \<open>auto simp: session_wf_def\<close>)
next
  case (OpCancel e ts)
  then show ?thesis using wf
    by (auto simp: session_cancel_eq Let_def session_wf_def)
qed (use wf in \<open>auto simp: session_eqs split_def session_wf_def\<close>)

interpretation session: machine "session_step no rms" session_wf "\<lambda>_. True" for no rms
  by unfold_locales (rule session_step_wf)


lemma controller_new_ok:
  assumes "controller_new no cfg = Inr c"
  shows "session_wf c \<and> cn_state c = Created \<and> cn_vad c = vad_fresh (sc_vad cfg)
    \<and> cn_buffer c = buffer_of (sc_buffer cfg) None (Idle [])
    \<and> sq_next_seq (cn_sequencer c) = 1 \<and> sq_next_event_index (cn_sequencer c) = 1
    \<and> (cn_neural_vad c \<noteq> None \<longleftrightarrow> vc_mode (sc_vad cfg) = ExternalProbability)"
  using assms buffer_new_ok [of "sc_buffer cfg"]
  by (auto simp: controller_new_def controller_new_with_sequencer_def vad_new_ok_iff session_wf_def vad_fresh_def
      with_request_id_def with_trace_id_def sequencer_new_def vad_wf_def split: if_splits sum.splits)

lemma session_run_wf: "controller_new no cfg = Inr c \<Longrightarrow> session_wf (snd (run (session_step no rms) c ops))"
  by (rule session.run_inv) (auto dest: controller_new_ok simp: list_all_iff)

text \<open>A session in a terminal state is frozen.\<close>

lemma terminal_frozen:
  fixes no :: "('n, 'e) neural_ops"
  assumes wf: "session_wf c" and tm: "terminal (cn_state c)" and op: "\<And>ts. op \<noteq> OpCreated ts"
  shows "snd (session_step no rms c op) = c \<and> out_envelopes (fst (session_step no rms c op)) = []
    \<and> out_boundaries (fst (session_step no rms c op)) = []"
proof (cases op)
  case (OpLifecycle a ts)
  show ?thesis
    by (rule session_lifecycle_cases [where 'e = 'e, of c a ts])
      (use tm OpLifecycle in \<open>auto dest: session_trans_source\<close>)
next
  case (OpFrame f)
  show ?thesis
    by (rule process_vad_frame_cases [of no rms c f])
      (use tm wf OpFrame in \<open>auto simp: session_wf_def vad_step_closed\<close>)
next
  case OpReset
  show ?thesis by (rule session_reset_cases [of no c]) (use tm OpReset in auto)
qed (use tm op in \<open>auto simp: session_eqs split_def\<close>)

lemma session_step_ids:
  fixes no :: "('n, 'e) neural_ops" and rms c op
  defines "n \<equiv> vm_next_utterance_index (cn_vad c)" and "c' \<equiv> snd (session_step no rms c op)"
    and "b \<equiv> out_boundaries (fst (session_step no rms c op))"
  shows "started_ids b = [] \<and> vm_next_utterance_index (cn_vad c') = n
    \<or> started_ids b = [utterance_id_of_index n] \<and> vm_next_utterance_index (cn_vad c') = u64_add n 1"
proof (cases op)
  case (OpFrame f)
  show ?thesis
  proof (rule process_vad_frame_cases [of no rms c f])
    fix d n'
    assume "process_vad_frame no rms c f = (Inr (fst (vad_step (cn_vad c) (f, d))),
        c\<lparr>cn_neural_vad := n', cn_vad := snd (vad_step (cn_vad c) (f, d))\<rparr>)"
    then show ?thesis
      using vad_step_ids [of "cn_vad c" "(f, d)"] OpFrame by (simp add: n_def c'_def b_def)
  qed (use OpFrame in \<open>simp add: n_def c'_def b_def started_ids_def\<close>)
next
  case (OpLifecycle a ts)
  show ?thesis
    by (rule session_lifecycle_cases [where 'e = 'e, of c a ts])
      (use OpLifecycle in \<open>cases a; auto simp: emitted_def n_def c'_def b_def started_ids_def vad_close_def\<close>)+
next
  case OpReset
  show ?thesis
    by (rule session_reset_cases [of no c])
      (use OpReset in \<open>auto simp: n_def c'_def b_def started_ids_def vad_reset_def clear_state_after_boundary_def\<close>)
qed (auto simp: session_eqs split_def Let_def n_def c'_def b_def started_ids_def vad_close_def)

lemma session_run_ids:
  assumes "vm_next_utterance_index (cn_vad c) + length ops < u64_limit"
  shows "\<exists>k \<le> length ops. started_ids (concat (map out_boundaries (fst (run (session_step no rms) c ops))))
    = map utterance_id_of_index [vm_next_utterance_index (cn_vad c) ..< vm_next_utterance_index (cn_vad c) + k]"
  using assms
proof (induction ops arbitrary: c)
  case (Cons op ops)
  let ?c = "snd (session_step no rms c op)" and ?n = "vm_next_utterance_index (cn_vad c)"
  show ?case
  proof (rule disjE [OF session_step_ids [of no rms c op]])
    assume *: "started_ids (out_boundaries (fst (session_step no rms c op))) = [] \<and> vm_next_utterance_index (cn_vad ?c) = ?n"
    then obtain k where "k \<le> length ops" "started_ids (concat (map out_boundaries (fst (run (session_step no rms) ?c ops))))
        = map utterance_id_of_index [?n ..< ?n + k]"
      using Cons.IH [of ?c] Cons.prems by auto
    with * show ?thesis by (intro exI [where x = k]) simp
  next
    assume *: "started_ids (out_boundaries (fst (session_step no rms c op))) = [utterance_id_of_index ?n]
      \<and> vm_next_utterance_index (cn_vad ?c) = u64_add ?n 1"
    moreover have "u64_add ?n 1 = Suc ?n" using Cons.prems by (simp add: wrap_simps)
    ultimately obtain k where "k \<le> length ops" "started_ids (concat (map out_boundaries (fst (run (session_step no rms) ?c ops))))
        = map utterance_id_of_index [Suc ?n ..< Suc ?n + k]"
      using Cons.IH [of ?c] Cons.prems by auto
    with * show ?thesis by (intro exI [where x = "Suc k"]) (simp add: upt_conv_Cons del: upt_Suc)
  qed
qed (simp add: started_ids_def)

section \<open>Properties\<close>

text \<open>
  C15. The session implements its lifecycle relation: an action succeeds exactly if the
  relation allows it in the current state, and then leads to the related state; otherwise the
  controller is unchanged and the error tells a finished session from a wrong state.
\<close>

theorem session_lifecycle_conforms:
  fixes c :: "'n session_controller"
  shows "case (session_lifecycle c a ts :: ('e session_error + _) \<times> _) of
     (Inr env, c') \<Rightarrow> session_trans (cn_state c) a (cn_state c')
   | (Inl e, c') \<Rightarrow> c' = c \<and> \<not> (\<exists>s'. session_trans (cn_state c) a s')
       \<and> e = (if terminal (cn_state c) then SessionClosedError
              else InvalidStateTransition (cn_state c) (action_name a))"
  by (rule session_lifecycle_cases [where 'e = 'e, of c a ts]) (auto simp: emitted_def)

text \<open>
  Closed and cancelled sessions are final: whatever a session has been through, once it is
  closed or cancelled, no action, frame, reset or event changes it or produces anything (only
  the unguarded announcement of its creation can still be asked for).
\<close>

theorem finished_session_is_frozen:
  assumes "controller_new no cfg = Inr c0" and "c = snd (run (session_step no rms) c0 ops)"
    and "terminal (cn_state c)" and "\<And>ts. op \<noteq> OpCreated ts"
  shows "snd (session_step no rms c op) = c \<and> out_envelopes (fst (session_step no rms c op)) = []
    \<and> out_boundaries (fst (session_step no rms c op)) = []"
  using terminal_frozen [OF session_run_wf [OF assms(1)], of rms ops op no] assms(2-4) by blast

text \<open>A session whose detector always answers with probability 0.\<close>

definition quiet_neural_ops :: "(unit, unit) neural_ops" where
  "quiet_neural_ops = \<lparr>no_open = (\<lambda>n. Inr ()), no_accept = (\<lambda>n s. (Inr (F_Num 0), ())), no_reset = (\<lambda>n. (Inr (), ()))\<rparr>"

definition sample_session :: "unit session_controller" where
  "sample_session = \<lparr>cn_config = session_config_new [115] [109] [116], cn_state = Created,
     cn_sequencer = sequencer_new (RealtimeSessionId [115]), cn_vad = vad_fresh vad_config_default,
     cn_neural_vad = None, cn_buffer = buffer_of buffer_config_default None (Idle []),
     cn_transcript = lifecycle_new ExplicitPostFinalRevision\<rparr>"

lemma sample_session_new: "controller_new quiet_neural_ops (session_config_new [115] [109] [116]) = Inr sample_session"
  by (simp add: controller_new_def controller_new_with_sequencer_def session_config_validate_def
      session_config_new_def validate_required_field_def trim_def trim_end_matches_def is_ws_def
      vad_config_validate_def vad_new_def vad_config_default_def buffer_config_default_def buffer_new_def
      f32_in_unit_def sample_session_def with_request_id_def with_trace_id_def sequencer_new_def)

theorem finished_session_is_frozen_witness:
  "snd (session_step quiet_neural_ops (\<lambda>_. F_NaN)
      (snd (run (session_step quiet_neural_ops (\<lambda>_. F_NaN)) sample_session [OpCancel 5 []])) OpReset)
     = snd (run (session_step quiet_neural_ops (\<lambda>_. F_NaN)) sample_session [OpCancel 5 []])"
proof -
  have "terminal (cn_state (snd (run (session_step quiet_neural_ops (\<lambda>_. F_NaN)) sample_session [OpCancel 5 []])))"
    by (simp add: session_cancel_eq sample_session_def Let_def)
  then show ?thesis
    using finished_session_is_frozen [OF sample_session_new refl, of "\<lambda>_. F_NaN" "[OpCancel 5 []]" OpReset] by simp
qed

text \<open>
  The events of a session are numbered without gaps: over any sequence of operations,
  failing ones included, the envelopes carry the sequence numbers 1, 2, 3, ... and distinct
  event identities.
\<close>

theorem session_events_numbered:
  assumes "controller_new no cfg = Inr c" and "length ops < u64_max"
  shows "let envs = concat (map out_envelopes (fst (run (session_step no rms) c ops)))
    in map ev_seq envs = [1 ..< 1 + length envs] \<and> distinct (map ev_event_id envs)"
proof -
  have "sq_next_seq (cn_sequencer c) = 1" "sq_next_event_index (cn_sequencer c) = 1"
    using controller_new_ok [OF assms(1)] by simp_all
  then have "map ev_seq envs = [1 ..< 1 + length envs] \<and> map ev_event_id envs = map event_id_of_index [1 ..< 1 + length envs]"
    if "envs = concat (map out_envelopes (fst (run (session_step no rms) c ops)))" for envs
    using session_run_sequenced [of c ops no rms] assms(2) unfolding that by simp
  then show ?thesis unfolding Let_def by (metis distinct_event_ids)
qed

theorem session_events_numbered_witness:
  "let envs = concat (map out_envelopes (fst (run (session_step quiet_neural_ops (\<lambda>_. F_NaN)) sample_session
      [OpCreated [], OpReset, OpLifecycle Configure []])))
   in map ev_seq envs = [1 ..< 1 + length envs] \<and> distinct (map ev_event_id envs)"
  by (rule session_events_numbered [OF sample_session_new]) simp

text \<open>
  Utterance identities are unique in a session, also across resets, which clear the
  machine, the buffer and the transcripts but not the numbering.
\<close>

theorem session_utterance_ids_unique:
  assumes "controller_new no cfg = Inr c" and "length ops < u64_max"
  shows "distinct (started_ids (concat (map out_boundaries (fst (run (session_step no rms) c ops)))))"
proof -
  have "vm_next_utterance_index (cn_vad c) = 1"
    using controller_new_ok [OF assms(1)] by (simp add: vad_fresh_def)
  then show ?thesis
    using session_run_ids [of c ops no rms] assms(2) by (auto simp: distinct_utterance_ids simp del: map_upt_Suc)
qed

theorem session_utterance_ids_unique_witness:
  "distinct (started_ids (concat (map out_boundaries (fst (run (session_step quiet_neural_ops (\<lambda>_. F_Num 1)) sample_session
      [OpLifecycle Configure [], OpFrame (sample_frame 0), OpReset, OpFrame (sample_frame 1)])))))"
  by (rule session_utterance_ids_unique [OF sample_session_new]) simp

end
