(* ===== verification/Model_Admission.thy ===== *)
theory Model_Admission
  imports Asr_Prelude
begin

text \<open>
  Admission of model sessions (\<open>crates/openasr-server/src/model_admission.rs\<close>): at most \<open>limit\<close>
  native executions per model identity, each with an index of its own. The semaphore is a type of
  the \<open>tokio\<close> package: its operations are the parameter \<open>sem\<close>, its documented behaviour the
  hypothesis \<open>semaphore_laws\<close>. Every operation runs under the registry's lock (releasing the
  semaphore included), so a history of the registry is a sequence of whole operations of any
  number of threads.
\<close>

section \<open>Registry\<close>

record 's semaphore_ops =
  so_new :: "nat \<Rightarrow> 's"
  so_try_acquire :: "'s \<Rightarrow> 's option"
  so_release :: "'s \<Rightarrow> 's"
  so_available :: "'s \<Rightarrow> nat"

text \<open>
  A semaphore has the permits it was made with, a permit can be taken exactly if one is left, and
  dropping a permit gives it back.
\<close>

definition semaphore_laws :: "'s semaphore_ops \<Rightarrow> bool" where
  "semaphore_laws sem \<longleftrightarrow>
     (\<forall>n. so_available sem (so_new sem n) = n)
   \<and> (\<forall>s. so_try_acquire sem s = None \<longleftrightarrow> so_available sem s = 0)
   \<and> (\<forall>s s'. so_try_acquire sem s = Some s' \<longrightarrow> so_available sem s = Suc (so_available sem s'))
   \<and> (\<forall>s. so_available sem (so_release sem s) = Suc (so_available sem s))"

text \<open>The set of occupied indices is kept in order, as a \<open>BTreeSet\<close> iterates over it.\<close>

record 's model_session_slot =
  sl_semaphore :: 's
  sl_occupied :: "nat list"

record 's model_session_admission =
  ad_limit :: nat
  ad_slots :: "rstr \<rightharpoonup> 's model_session_slot"

record model_session_admission_error =
  ae_model_identity :: rstr
  ae_limit :: nat

record model_session_permit =
  mp_model_identity :: rstr
  mp_slot_index :: nat

definition admission_new :: "nat \<Rightarrow> 's model_session_admission" where
  "admission_new limit = \<lparr>ad_limit = limit, ad_slots = Map.empty\<rparr>"

text \<open>The loop over the occupied indices, which stops at the first one that is not in place.\<close>

fun free_index :: "nat \<Rightarrow> nat list \<Rightarrow> nat" where
  "free_index slot_index [] = slot_index"
| "free_index slot_index (occupied # rest) =
     (if occupied \<noteq> slot_index then slot_index else free_index (slot_index + 1) rest)"

definition try_acquire ::
  "'s semaphore_ops \<Rightarrow> 's model_session_admission \<Rightarrow> rstr
     \<Rightarrow> (model_session_admission_error + model_session_permit) \<times> 's model_session_admission" where
  "try_acquire sem a identity =
     (let limit = ad_limit a;
          slot = (case ad_slots a identity of
                    Some s \<Rightarrow> s
                  | None \<Rightarrow> \<lparr>sl_semaphore = so_new sem limit, sl_occupied = []\<rparr>)
      in case so_try_acquire sem (sl_semaphore slot) of
           None \<Rightarrow> (Inl \<lparr>ae_model_identity = identity, ae_limit = limit\<rparr>,
                    a\<lparr>ad_slots := (ad_slots a)(identity \<mapsto> slot)\<rparr>)
         | Some s' \<Rightarrow>
             (let slot_index = free_index 0 (sl_occupied slot);
                  slot' = \<lparr>sl_semaphore = s', sl_occupied = insort slot_index (sl_occupied slot)\<rparr>
              in (Inr \<lparr>mp_model_identity = identity, mp_slot_index = slot_index\<rparr>,
                  a\<lparr>ad_slots := (ad_slots a)(identity \<mapsto> slot')\<rparr>)))"

text \<open>
  Dropping a permit. The semaphore of a slot that is removed with its last permit gets that permit
  back, but nothing refers to it any more.
\<close>

definition drop_permit ::
  "'s semaphore_ops \<Rightarrow> 's model_session_admission \<Rightarrow> model_session_permit \<Rightarrow> 's model_session_admission" where
  "drop_permit sem a p =
     (case ad_slots a (mp_model_identity p) of
        None \<Rightarrow> a
      | Some slot \<Rightarrow>
          (let occupied = remove1 (mp_slot_index p) (sl_occupied slot)
           in if occupied = [] then a\<lparr>ad_slots := (ad_slots a)(mp_model_identity p := None)\<rparr>
              else a\<lparr>ad_slots := (ad_slots a)(mp_model_identity p \<mapsto>
                       \<lparr>sl_semaphore = so_release sem (sl_semaphore slot), sl_occupied = occupied\<rparr>)\<rparr>))"

definition has_active_sessions :: "'s model_session_admission \<Rightarrow> bool" where
  "has_active_sessions a = (\<exists>slot \<in> ran (ad_slots a). sl_occupied slot \<noteq> [])"

section \<open>Histories\<close>

text \<open>
  The registry with the permits that are held: any thread may ask for a permit, and any held
  permit may be dropped, once.
\<close>

inductive admission_step ::
  "'s semaphore_ops \<Rightarrow> 's model_session_admission \<times> model_session_permit list
     \<Rightarrow> 's model_session_admission \<times> model_session_permit list \<Rightarrow> bool"
  for sem :: "'s semaphore_ops" where
  admitted: "try_acquire sem a identity = (Inr p, a') \<Longrightarrow> admission_step sem (a, ps) (a', p # ps)"
| refused: "try_acquire sem a identity = (Inl e, a') \<Longrightarrow> admission_step sem (a, ps) (a', ps)"
| dropped: "p \<in> set ps \<Longrightarrow> admission_step sem (a, ps) (drop_permit sem a p, remove1 p ps)"

inductive admission_reachable ::
  "'s semaphore_ops \<Rightarrow> nat \<Rightarrow> 's model_session_admission \<times> model_session_permit list \<Rightarrow> bool"
  for sem :: "'s semaphore_ops" and limit :: nat where
  start: "admission_reachable sem limit (admission_new limit, [])"
| step: "admission_reachable sem limit s \<Longrightarrow> admission_step sem s s' \<Longrightarrow> admission_reachable sem limit s'"

inductive_cases admission_stepE: "admission_step sem (a, ps) s'"

section \<open>Indices\<close>

lemma free_index_least:
  assumes "sorted occ" and "distinct occ" and "\<forall>i \<in> set occ. k \<le> i"
  shows "free_index k occ \<notin> set occ \<and> k \<le> free_index k occ \<and> free_index k occ \<le> k + length occ
    \<and> (\<forall>i. k \<le> i \<and> i < free_index k occ \<longrightarrow> i \<in> set occ)"
  using assms
proof (induction k occ rule: free_index.induct)
  case (2 k i occ)
  show ?case
  proof (cases "i = k")
    case True
    then have "\<forall>j \<in> set occ. k + 1 \<le> j" using "2.prems" by (auto simp: Suc_le_eq le_less)
    then have ih: "free_index (k + 1) occ \<notin> set occ" "k + 1 \<le> free_index (k + 1) occ"
      "free_index (k + 1) occ \<le> k + 1 + length occ"
      "\<forall>j. k + 1 \<le> j \<and> j < free_index (k + 1) occ \<longrightarrow> j \<in> set occ"
      using "2.IH" True "2.prems" by auto
    have "j \<in> set (i # occ)" if "k \<le> j" "j < free_index (k + 1) occ" for j
      using ih(4) that True by (cases "j = k") auto
    then show ?thesis using True ih by simp
  next
    case False
    then show ?thesis using "2.prems" by (auto simp: le_less)
  qed
qed simp

lemma free_index_below:
  assumes "sorted occ" and "distinct occ" and "length occ < n"
  shows "free_index 0 occ < n"
  using free_index_least [of occ 0] assms by auto

section \<open>Invariant\<close>

definition held :: "rstr \<Rightarrow> model_session_permit list \<Rightarrow> nat list" where
  "held identity ps = map mp_slot_index (filter (\<lambda>p. mp_model_identity p = identity) ps)"

lemma held_simps [simp]:
  "held identity [] = []"
  "held identity (p # ps) = (if mp_model_identity p = identity then mp_slot_index p # held identity ps else held identity ps)"
  by (simp_all add: held_def)

text \<open>
  A slot exists exactly for the identities with held permits; its indices are theirs, in order,
  and its semaphore has the rest of the limit.
\<close>

definition slot_ok :: "'s semaphore_ops \<Rightarrow> nat \<Rightarrow> nat list \<Rightarrow> 's model_session_slot option \<Rightarrow> bool" where
  "slot_ok sem limit is s \<longleftrightarrow> (case s of
       None \<Rightarrow> is = []
     | Some slot \<Rightarrow> is \<noteq> [] \<and> sl_occupied slot = sort is \<and> distinct is \<and> (\<forall>i \<in> set is. i < limit)
         \<and> so_available sem (sl_semaphore slot) + length is = limit)"

definition admission_ok ::
  "'s semaphore_ops \<Rightarrow> nat \<Rightarrow> 's model_session_admission \<times> model_session_permit list \<Rightarrow> bool" where
  "admission_ok sem limit s \<longleftrightarrow> ad_limit (fst s) = limit
     \<and> (\<forall>identity. slot_ok sem limit (held identity (snd s)) (ad_slots (fst s) identity))"

lemma slot_ok_cases:
  assumes "slot_ok sem limit is s"
  obtains (free) "s = None" "is = []"
  | (used) slot where "s = Some slot" "is \<noteq> []" "sl_occupied slot = sort is" "distinct is" "\<forall>i \<in> set is. i < limit"
      "so_available sem (sl_semaphore slot) + length is = limit"
  using assms by (cases s) (auto simp: slot_ok_def)

text \<open>What a request does, given the permits that are held for its model.\<close>

lemma try_acquire_cases:
  assumes laws: "semaphore_laws sem" and ok: "slot_ok sem (ad_limit a) is (ad_slots a identity)" and lim: "0 < ad_limit a"
  obtains (admitted) slot where "length is < ad_limit a"
      "try_acquire sem a identity = (Inr \<lparr>mp_model_identity = identity, mp_slot_index = free_index 0 (sort is)\<rparr>,
         a\<lparr>ad_slots := (ad_slots a)(identity \<mapsto> slot)\<rparr>)"
      "slot_ok sem (ad_limit a) (free_index 0 (sort is) # is) (Some slot)"
  | (refused) "length is = ad_limit a"
      "try_acquire sem a identity = (Inl \<lparr>ae_model_identity = identity, ae_limit = ad_limit a\<rparr>, a)"
proof -
  define slot where "slot = (case ad_slots a identity of Some s \<Rightarrow> s
      | None \<Rightarrow> \<lparr>sl_semaphore = so_new sem (ad_limit a), sl_occupied = []\<rparr>)"
  have s: "sl_occupied slot = sort is" "distinct is" "\<forall>i \<in> set is. i < ad_limit a"
    "so_available sem (sl_semaphore slot) + length is = ad_limit a"
    using ok laws by (auto elim!: slot_ok_cases simp: slot_def semaphore_laws_def)
  show thesis
  proof (cases "so_try_acquire sem (sl_semaphore slot)")
    case None
    then have len: "length is = ad_limit a" using laws s(4) by (auto simp: semaphore_laws_def)
    then have "ad_slots a identity = Some slot" using ok lim by (auto elim!: slot_ok_cases simp: slot_def)
    then have "(ad_slots a)(identity \<mapsto> slot) = ad_slots a" by (simp add: fun_upd_idem)
    then have "try_acquire sem a identity = (Inl \<lparr>ae_model_identity = identity, ae_limit = ad_limit a\<rparr>, a)"
      using None by (simp add: try_acquire_def Let_def slot_def [symmetric])
    then show thesis by (rule refused [OF len])
  next
    case (Some s')
    let ?i = "free_index 0 (sort is)"
    have avail: "so_available sem (sl_semaphore slot) = Suc (so_available sem s')"
      using laws Some by (simp add: semaphore_laws_def)
    then have len: "length is < ad_limit a" using s(4) by simp
    have i: "?i \<notin> set is" "?i < ad_limit a"
      using free_index_least [of "sort is" 0] free_index_below [of "sort is" "ad_limit a"] s(2) len by simp_all
    have "slot_ok sem (ad_limit a) (?i # is) (Some \<lparr>sl_semaphore = s', sl_occupied = insort ?i (sort is)\<rparr>)"
      using s i avail by (simp add: slot_ok_def)
    then show thesis
      by (rule admitted [OF len, rotated])
        (use Some s(1) in \<open>simp add: try_acquire_def Let_def slot_def [symmetric]\<close>)
  qed
qed

lemma held_remove1:
  "p \<in> set ps \<Longrightarrow> distinct (held (mp_model_identity p) ps) \<Longrightarrow>
   held (mp_model_identity p) (remove1 p ps) = remove1 (mp_slot_index p) (held (mp_model_identity p) ps)"
proof (induction ps)
  case (Cons q ps)
  show ?case
  proof (cases "q = p")
    case False
    then have p: "p \<in> set ps" using Cons.prems by simp
    then have "mp_slot_index p \<in> set (held (mp_model_identity p) ps)" by (auto simp: held_def)
    then have "mp_model_identity q = mp_model_identity p \<Longrightarrow> mp_slot_index q \<noteq> mp_slot_index p"
      using Cons.prems(2) by auto
    then show ?thesis
      using Cons.IH [OF p] Cons.prems(2) False by (cases "mp_model_identity q = mp_model_identity p") auto
  qed simp
qed simp

lemma held_remove1_other:
  "mp_model_identity p \<noteq> identity \<Longrightarrow> held identity (remove1 p ps) = held identity ps"
  by (induction ps) auto

lemma drop_permit_ok:
  assumes laws: "semaphore_laws sem" and ok: "admission_ok sem limit (a, ps)" and p: "p \<in> set ps"
  shows "admission_ok sem limit (drop_permit sem a p, remove1 p ps)"
proof -
  let ?k = "mp_model_identity p" and ?i = "mp_slot_index p"
  let ?is = "held ?k ps"
  have i: "?i \<in> set ?is" using p by (auto simp: held_def)
  have "slot_ok sem limit ?is (ad_slots a ?k)" using ok by (simp add: admission_ok_def)
  then obtain slot where s: "ad_slots a ?k = Some slot" "sl_occupied slot = sort ?is" "distinct ?is"
      "\<forall>i \<in> set ?is. i < limit" "so_available sem (sl_semaphore slot) + length ?is = limit"
    using i by (auto elim!: slot_ok_cases)
  have h: "held ?k (remove1 p ps) = remove1 ?i ?is" by (rule held_remove1 [OF p s(3)])
  have srt: "remove1 ?i (sl_occupied slot) = sort (remove1 ?i ?is)"
    unfolding s(2) by (rule sorted_distinct_set_unique) (use s(3) in \<open>simp_all add: sorted_remove1\<close>)
  have len: "length ?is = Suc (length (remove1 ?i ?is))" using i length_pos_if_in_set [OF i] by (simp add: length_remove1)
  have "slot_ok sem limit (held identity (remove1 p ps)) (ad_slots (drop_permit sem a p) identity)" for identity
  proof (cases "identity = ?k")
    case True
    show ?thesis
    proof (cases "remove1 ?i ?is = []")
      case True
      then show ?thesis
        using s(1) srt h \<open>identity = ?k\<close> by (simp add: drop_permit_def Let_def slot_ok_def)
    next
      case False
      then have "sort (remove1 ?i ?is) \<noteq> []" by (metis length_0_conv length_sort)
      then show ?thesis
        using s srt h len laws False \<open>identity = ?k\<close> set_remove1_subset [of ?i ?is]
        by (auto simp: drop_permit_def Let_def slot_ok_def semaphore_laws_def)
    qed
  next
    case False
    then have "ad_slots (drop_permit sem a p) identity = ad_slots a identity"
      using s(1) by (simp add: drop_permit_def Let_def)
    then show ?thesis using ok False held_remove1_other [of p identity ps] by (auto simp: admission_ok_def)
  qed
  moreover have "ad_limit (drop_permit sem a p) = limit"
    using ok s(1) by (simp add: drop_permit_def Let_def admission_ok_def)
  ultimately show ?thesis by (simp add: admission_ok_def)
qed

lemma admission_step_ok:
  assumes laws: "semaphore_laws sem" and lim: "0 < limit"
    and "admission_step sem s s'" and "admission_ok sem limit s"
  shows "admission_ok sem limit s'"
  using assms(3,4)
proof (induction rule: admission_step.induct)
  case (admitted a identity p a' ps)
  then have "slot_ok sem (ad_limit a) (held identity ps) (ad_slots a identity)" "ad_limit a = limit"
    by (simp_all add: admission_ok_def)
  then show ?case
    by (cases rule: try_acquire_cases [OF laws, of a "held identity ps" identity])
      (use admitted lim in \<open>auto simp: admission_ok_def\<close>)
next
  case (refused a identity e a' ps)
  then have "slot_ok sem (ad_limit a) (held identity ps) (ad_slots a identity)" "ad_limit a = limit"
    by (simp_all add: admission_ok_def)
  then show ?case
    by (cases rule: try_acquire_cases [OF laws, of a "held identity ps" identity]) (use refused lim in auto)
next
  case (dropped p ps a)
  then show ?case by (simp add: drop_permit_ok [OF laws])
qed

lemma admission_reachable_ok:
  assumes "semaphore_laws sem" and "0 < limit" and "admission_reachable sem limit s"
  shows "admission_ok sem limit s"
  using assms(3)
proof (induction rule: admission_reachable.induct)
  case start
  then show ?case by (simp add: admission_ok_def admission_new_def slot_ok_def)
next
  case (step s s')
  then show ?case using admission_step_ok [OF assms(1,2)] by blast
qed

section \<open>Properties\<close>

text \<open>
  C16. Admission keeps its bound and its indices under every interleaving: the permits held for a
  model are never more than the limit, their indices are pairwise different and below the limit,
  and the registry has a slot exactly for the models in use, so idle models leave nothing behind.
\<close>

theorem admission_bounded_and_distinct:
  assumes "semaphore_laws sem" and "0 < limit" and "admission_reachable sem limit (a, ps)"
  shows "length (held identity ps) \<le> limit \<and> distinct (held identity ps) \<and> (\<forall>i \<in> set (held identity ps). i < limit)
    \<and> (ad_slots a identity = None \<longleftrightarrow> held identity ps = [])"
  using admission_reachable_ok [OF assms]
  by (auto simp: admission_ok_def elim!: slot_ok_cases allE [of _ identity])

text \<open>A semaphore as a counter of permits.\<close>

definition counting_semaphore :: "nat semaphore_ops" where
  "counting_semaphore = \<lparr>so_new = id, so_try_acquire = (\<lambda>n. if n = 0 then None else Some (n - 1)),
     so_release = Suc, so_available = id\<rparr>"

lemma counting_semaphore_laws: "semaphore_laws counting_semaphore"
  by (auto simp: semaphore_laws_def counting_semaphore_def)

definition model_m :: rstr where
  "model_m = lit ''m''"

lemma sample_history:
  "admission_reachable counting_semaphore 1
     (snd (try_acquire counting_semaphore (admission_new 1) model_m), [\<lparr>mp_model_identity = model_m, mp_slot_index = 0\<rparr>])"
  by (rule admission_reachable.step [OF admission_reachable.start], rule admission_step.admitted [where identity = model_m])
    (simp add: try_acquire_def admission_new_def counting_semaphore_def)

theorem admission_bounded_and_distinct_witness:
  "length (held model_m [\<lparr>mp_model_identity = model_m, mp_slot_index = 0\<rparr>]) \<le> 1
   \<and> ad_slots (snd (try_acquire counting_semaphore (admission_new 1) model_m)) model_m \<noteq> None"
  using admission_bounded_and_distinct [OF counting_semaphore_laws _ sample_history, of model_m] by simp

text \<open>
  Admission refuses only for lack of capacity: in every reachable state a request for a model
  succeeds exactly if fewer permits than the limit are held for it, it then gets the smallest
  index that is free, and a refused request leaves the registry as it was.
\<close>

theorem admission_refuses_only_when_full:
  assumes "semaphore_laws sem" and "0 < limit" and "admission_reachable sem limit (a, ps)"
  shows "(case fst (try_acquire sem a identity) of
       Inr p \<Rightarrow> length (held identity ps) < limit \<and> mp_model_identity p = identity
         \<and> mp_slot_index p = (LEAST i. i \<notin> set (held identity ps))
     | Inl e \<Rightarrow> length (held identity ps) = limit \<and> e = \<lparr>ae_model_identity = identity, ae_limit = limit\<rparr>
         \<and> snd (try_acquire sem a identity) = a)"
proof -
  let ?is = "held identity ps"
  have ok: "slot_ok sem (ad_limit a) ?is (ad_slots a identity)" and l: "ad_limit a = limit"
    using admission_reachable_ok [OF assms] by (simp_all add: admission_ok_def)
  have pos: "0 < ad_limit a" using l assms(2) by simp
  show ?thesis
  proof (rule try_acquire_cases [OF assms(1) ok pos])
    fix slot
    assume admitted: "length ?is < ad_limit a"
      "try_acquire sem a identity = (Inr \<lparr>mp_model_identity = identity, mp_slot_index = free_index 0 (sort ?is)\<rparr>,
         a\<lparr>ad_slots := (ad_slots a)(identity \<mapsto> slot)\<rparr>)"
    have "distinct ?is" using ok by (auto elim: slot_ok_cases)
    then have f: "free_index 0 (sort ?is) \<notin> set ?is" "\<forall>i. i < free_index 0 (sort ?is) \<longrightarrow> i \<in> set ?is"
      using free_index_least [of "sort ?is" 0] by simp_all
    have "(LEAST i. i \<notin> set ?is) = free_index 0 (sort ?is)"
      by (rule Least_equality) (use f in \<open>auto simp: not_less [symmetric]\<close>)
    then show ?thesis using admitted l by simp
  qed (use l in simp)
qed

theorem admission_refuses_only_when_full_witness:
  "(case fst (try_acquire counting_semaphore (snd (try_acquire counting_semaphore (admission_new 1) model_m)) model_m) of
       Inr p \<Rightarrow> False | Inl e \<Rightarrow> ae_limit e = 1)"
  using admission_refuses_only_when_full [OF counting_semaphore_laws _ sample_history, of model_m]
  by (auto split: sum.splits)

end
