(* ===== verification/Error_Rates.thy ===== *)
theory Error_Rates
  imports Asr_Prelude
begin

text \<open>
  Word and character error rates (\<open>crates/openasr-core/src/metrics/wer.rs\<close>). The Unicode tables
  behind \<open>char::to_lowercase\<close> and \<open>char::is_alphanumeric\<close> are the parameters \<open>lower\<close> and \<open>alnum\<close>.
  Rates are the exact quotients of the counts; the rounding of their \<open>f64\<close> division is not
  modelled.
\<close>

section \<open>Normalization\<close>

definition normalize_char :: "(nat \<Rightarrow> rstr) \<Rightarrow> (nat \<Rightarrow> bool) \<Rightarrow> nat \<Rightarrow> rstr" where
  "normalize_char lower alnum ch =
     (if is_ws ch then sp else map (\<lambda>c. if alnum c then c else 32) (lower ch))"

definition normalize_text :: "(nat \<Rightarrow> rstr) \<Rightarrow> (nat \<Rightarrow> bool) \<Rightarrow> rstr \<Rightarrow> rstr" where
  "normalize_text lower alnum val = join sp (split_whitespace (concat (map (normalize_char lower alnum) val)))"

text \<open>\<open>str::split(' ')\<close>.\<close>

fun split_space :: "rstr \<Rightarrow> rstr \<Rightarrow> rstr list" where
  "split_space cur [] = [cur]"
| "split_space cur (c # cs) = (if c = 32 then cur # split_space [] cs else split_space (cur @ [c]) cs)"

definition tokens :: "(nat \<Rightarrow> rstr) \<Rightarrow> (nat \<Rightarrow> bool) \<Rightarrow> rstr \<Rightarrow> rstr list" where
  "tokens lower alnum val = filter (\<lambda>t. t \<noteq> []) (split_space [] (normalize_text lower alnum val))"

section \<open>Edit distance\<close>

text \<open>The inner loop: \<open>current\<close> grows by one cell per column.\<close>

fun row_loop :: "'a \<Rightarrow> nat list \<Rightarrow> nat list \<Rightarrow> nat \<Rightarrow> 'a list \<Rightarrow> nat list" where
  "row_loop x previous current column [] = current"
| "row_loop x previous current column (y # ys) =
     (let cost = (if x \<noteq> y then 1 else 0);
          candidate = min (min (previous ! (column + 1) + 1) (current ! column + 1)) (previous ! column + cost)
      in row_loop x previous (current @ [candidate]) (column + 1) ys)"

fun rows_loop :: "'a list \<Rightarrow> nat \<Rightarrow> nat list \<Rightarrow> 'a list \<Rightarrow> nat list" where
  "rows_loop right row previous [] = previous"
| "rows_loop right row previous (x # xs) =
     rows_loop right (row + 1) (row_loop x previous [row + 1] 0 right) xs"

definition levenshtein :: "'a list \<Rightarrow> 'a list \<Rightarrow> nat" where
  "levenshtein left right =
     (if left = right then 0 else rows_loop right 0 [0 ..< length right + 1] left ! length right)"

section \<open>Counts and rates\<close>

record wer_counts_rec =
  wc_errors :: nat
  wc_ref_units :: nat

definition counts_of :: "'a list \<Rightarrow> 'a list \<Rightarrow> wer_counts_rec" where
  "counts_of hyp refs =
     (if refs = [] then \<lparr>wc_errors = length hyp, wc_ref_units = 0\<rparr>
      else \<lparr>wc_errors = levenshtein hyp refs, wc_ref_units = length refs\<rparr>)"

definition wer_counts :: "(nat \<Rightarrow> rstr) \<Rightarrow> (nat \<Rightarrow> bool) \<Rightarrow> rstr \<Rightarrow> rstr \<Rightarrow> wer_counts_rec" where
  "wer_counts lower alnum hyp reference = counts_of (tokens lower alnum hyp) (tokens lower alnum reference)"

definition wer :: "(nat \<Rightarrow> rstr) \<Rightarrow> (nat \<Rightarrow> bool) \<Rightarrow> rstr \<Rightarrow> rstr \<Rightarrow> rat" where
  "wer lower alnum hyp reference =
     (let counts = wer_counts lower alnum hyp reference
      in if wc_ref_units counts = 0 then (if wc_errors counts = 0 then 0 else 1)
         else of_nat (wc_errors counts) / of_nat (wc_ref_units counts))"

definition word_prefix_error_rate :: "(nat \<Rightarrow> rstr) \<Rightarrow> (nat \<Rightarrow> bool) \<Rightarrow> rstr \<Rightarrow> rstr \<Rightarrow> rat option" where
  "word_prefix_error_rate lower alnum part reference =
     (let partial_words = tokens lower alnum part
      in if partial_words = [] then None
         else let reference_words = tokens lower alnum reference;
                  prefix_len = min (length partial_words) (length reference_words)
              in if prefix_len = 0 then None
                 else Some (of_nat (levenshtein partial_words (take prefix_len reference_words)) / of_nat prefix_len))"

definition cer_counts :: "(nat \<Rightarrow> rstr) \<Rightarrow> (nat \<Rightarrow> bool) \<Rightarrow> rstr \<Rightarrow> rstr \<Rightarrow> wer_counts_rec" where
  "cer_counts lower alnum hyp reference =
     counts_of (normalize_text lower alnum hyp) (normalize_text lower alnum reference)"

section \<open>What the edit distance means\<close>

text \<open>\<open>edits n xs ys\<close>: \<open>n\<close> insertions, deletions and substitutions turn \<open>xs\<close> into \<open>ys\<close>.\<close>

inductive edits :: "nat \<Rightarrow> 'a list \<Rightarrow> 'a list \<Rightarrow> bool" where
  done_edits: "edits 0 [] []"
| keep: "edits n xs ys \<Longrightarrow> edits n (x # xs) (x # ys)"
| substitute: "edits n xs ys \<Longrightarrow> edits (Suc n) (x # xs) (y # ys)"
| insert_one: "edits n xs ys \<Longrightarrow> edits (Suc n) xs (y # ys)"
| delete_one: "edits n xs ys \<Longrightarrow> edits (Suc n) (x # xs) ys"

inductive_cases edits_0E: "edits 0 xs ys"

fun distance :: "'a list \<Rightarrow> 'a list \<Rightarrow> nat" where
  "distance [] ys = length ys"
| "distance (x # xs) [] = Suc (length xs)"
| "distance (x # xs) (y # ys) =
     min (min (distance xs (y # ys) + 1) (distance (x # xs) ys + 1)) (distance xs ys + (if x \<noteq> y then 1 else 0))"

lemma distance_Nil_right [simp]: "distance xs [] = length xs"
  by (cases xs) simp_all

lemma edits_insert_all: "edits (length ys) [] ys"
  by (induction ys) (auto intro: edits.intros)

lemma edits_delete_all: "edits (length xs) xs []"
  by (induction xs) (auto intro: edits.intros)

lemma edits_distance: "edits (distance xs ys) xs ys"
proof (induction xs ys rule: distance.induct)
  case (1 ys)
  then show ?case by (simp add: edits_insert_all)
next
  case (2 x xs)
  then show ?case using edits_delete_all [of "x # xs"] by simp
next
  case (3 x xs y ys)
  have a: "edits (distance xs (y # ys) + 1) (x # xs) (y # ys)" using delete_one [OF 3(1), of x] by simp
  have b: "edits (distance (x # xs) ys + 1) (x # xs) (y # ys)" using insert_one [OF 3(2), of y] by simp
  have c: "edits (distance xs ys + (if x \<noteq> y then 1 else 0)) (x # xs) (y # ys)"
    using keep [OF 3(3), of x] substitute [OF 3(3), of x y] by (cases "x = y") auto
  show ?case unfolding distance.simps min_def using a b c by presburger
qed

lemma distance_least: "edits n xs ys \<Longrightarrow> distance xs ys \<le> n"
proof (induction rule: edits.induct)
  case (insert_one n xs ys y)
  then show ?case by (cases xs) (auto simp: min_le_iff_disj)
next
  case (delete_one n xs ys x)
  then show ?case by (cases ys) (auto simp: min_le_iff_disj)
qed (auto simp: min_le_iff_disj)

lemma edits_append: "edits m xs ys \<Longrightarrow> edits n us vs \<Longrightarrow> edits (m + n) (xs @ us) (ys @ vs)"
  by (induction rule: edits.induct) (auto intro: edits.intros)

lemma edits_rev: "edits n xs ys \<Longrightarrow> edits n (rev xs) (rev ys)"
proof (induction rule: edits.induct)
  case (keep n xs ys x)
  then show ?case using edits_append [OF keep.IH edits.keep [OF done_edits, of x]] by simp
next
  case (substitute n xs ys x y)
  then show ?case using edits_append [OF substitute.IH edits.substitute [OF done_edits, of x y]] by simp
next
  case (insert_one n xs ys y)
  then show ?case using edits_append [OF insert_one.IH edits.insert_one [OF done_edits, of y]] by simp
next
  case (delete_one n xs ys x)
  then show ?case using edits_append [OF delete_one.IH edits.delete_one [OF done_edits, of x]] by simp
qed (simp add: done_edits)

lemma distance_rev: "distance (rev xs) (rev ys) = distance xs ys"
  by (rule antisym; rule distance_least)
    (use edits_rev [OF edits_distance [of xs ys]] edits_rev [OF edits_distance [of "rev xs" "rev ys"]] in simp_all)

lemma edits_sym: "edits n xs ys \<Longrightarrow> edits n ys xs"
  by (induction rule: edits.induct) (auto intro: edits.intros)

lemma distance_sym: "distance xs ys = distance ys xs"
  by (rule antisym; rule distance_least; rule edits_sym; rule edits_distance)

lemma distance_snoc:
  "distance (xs @ [x]) (ys @ [y]) =
     min (min (distance xs (ys @ [y]) + 1) (distance (xs @ [x]) ys + 1)) (distance xs ys + (if x \<noteq> y then 1 else 0))"
  using distance.simps(3) [of x "rev xs" y "rev ys"] distance_rev [of xs ys] distance_rev [of "xs @ [x]" "ys @ [y]"]
    distance_rev [of xs "ys @ [y]"] distance_rev [of "xs @ [x]" ys] by simp

lemma edits_0_iff: "edits 0 xs ys \<longleftrightarrow> xs = ys"
proof
  show "edits 0 xs ys \<Longrightarrow> xs = ys"
    by (induction "0 :: nat" xs ys rule: edits.induct) auto
  show "xs = ys \<Longrightarrow> edits 0 xs ys" by (induction xs arbitrary: ys) (auto intro: edits.intros)
qed

lemma distance_0_iff: "distance xs ys = 0 \<longleftrightarrow> xs = ys"
  by (metis distance_least edits_0_iff edits_distance le_zero_eq)

lemma edits_length: "edits n xs ys \<Longrightarrow> length xs \<le> length ys + n \<and> length ys \<le> length xs + n"
  by (induction rule: edits.induct) auto

lemma distance_le_max: "distance xs ys \<le> max (length xs) (length ys)"
  by (induction xs ys rule: distance.induct) (auto simp: min_le_iff_disj le_max_iff_disj)

section \<open>The two-row table computes it\<close>

lemma row_loop_spec:
  assumes "previous = map (\<lambda>j. distance xs (take j right)) [0 ..< length right + 1]"
    and "current = map (\<lambda>j. distance (xs @ [x]) (take j right)) [0 ..< column + 1]"
    and "ys = drop column right" and "column \<le> length right"
  shows "row_loop x previous current column ys = map (\<lambda>j. distance (xs @ [x]) (take j right)) [0 ..< length right + 1]"
  using assms
proof (induction x previous current column ys rule: row_loop.induct)
  case (1 x previous current column)
  then show ?case by simp
next
  case (2 x previous current column y ys)
  have c: "column < length right" using 2(4,5) by (cases "column = length right") simp_all
  have y: "y = right ! column" "ys = drop (column + 1) right"
    using trans [OF 2(4) Cons_nth_drop_Suc [OF c, symmetric]] by simp_all
  have tk: "take (column + 1) right = take column right @ [y]"
    using c y(1) by (simp add: take_Suc_conv_app_nth)
  let ?cand = "min (min (previous ! (column + 1) + 1) (current ! column + 1)) (previous ! column + (if x \<noteq> y then 1 else 0))"
  have p: "previous ! (column + 1) = distance xs (take (column + 1) right)"
    "previous ! column = distance xs (take column right)"
    "current ! column = distance (xs @ [x]) (take column right)"
    using c unfolding 2(2) 2(3) by (simp_all del: upt_Suc)
  have cand: "?cand = distance (xs @ [x]) (take (column + 1) right)"
    unfolding p unfolding tk distance_snoc ..
  have cur: "current @ [?cand] = map (\<lambda>j. distance (xs @ [x]) (take j right)) [0 ..< (column + 1) + 1]"
    unfolding cand unfolding 2(3) by simp
  have "column + 1 \<le> length right" using c by simp
  from 2(1) [OF refl refl 2(2) cur y(2) this] show ?case by (simp only: row_loop.simps Let_def)
qed

lemma rows_loop_spec:
  assumes "previous = map (\<lambda>j. distance before (take j right)) [0 ..< length right + 1]" and "row = length before"
  shows "rows_loop right row previous xs = map (\<lambda>j. distance (before @ xs) (take j right)) [0 ..< length right + 1]"
  using assms
proof (induction right row previous xs arbitrary: before rule: rows_loop.induct)
  case (2 right row previous x xs)
  have "row_loop x previous [row + 1] 0 right = map (\<lambda>j. distance (before @ [x]) (take j right)) [0 ..< length right + 1]"
    by (rule row_loop_spec [OF 2(2)]) (simp_all add: 2(3))
  from 2(1) [OF this] 2(3) show ?case by simp
qed simp

lemma levenshtein_distance: "levenshtein xs ys = distance xs ys"
proof (cases "xs = ys")
  case True
  then show ?thesis using distance_0_iff [of xs ys] by (simp add: levenshtein_def)
next
  case False
  have "[0 ..< length ys + 1] = map (\<lambda>j. distance [] (take j ys)) [0 ..< length ys + 1]"
    by (rule nth_equalityI) (simp_all del: upt_Suc)
  from rows_loop_spec [OF this, of 0 xs] show ?thesis
    using False by (simp add: levenshtein_def del: upt_Suc)
qed

section \<open>Properties\<close>

text \<open>
  C36. The two-row dynamic program computes the edit distance: the least number of insertions,
  deletions and substitutions that turn one sequence into the other.
\<close>

theorem levenshtein_is_least_edits: "levenshtein xs ys = (LEAST n. edits n xs ys)"
  unfolding levenshtein_distance
  by (rule sym, rule Least_equality) (simp_all add: edits_distance distance_least)

text \<open>
  The distance is symmetric, zero exactly for equal sequences, at least the difference of
  their lengths and at most the longer length.
\<close>

theorem levenshtein_bounds:
  "levenshtein xs ys = levenshtein ys xs \<and> (levenshtein xs ys = 0 \<longleftrightarrow> xs = ys)
   \<and> length xs - length ys \<le> levenshtein xs ys \<and> length ys - length xs \<le> levenshtein xs ys
   \<and> levenshtein xs ys \<le> max (length xs) (length ys)"
  using edits_length [OF edits_distance [of xs ys]] distance_sym [of xs ys] distance_le_max [of xs ys]
  by (auto simp: levenshtein_distance distance_0_iff)

text \<open>
  The word error rate is zero exactly if hypothesis and reference have the same normalized
  words, for every choice of the Unicode tables.
\<close>

theorem wer_zero_iff_same_words:
  "wer lower alnum hyp reference = 0 \<longleftrightarrow> tokens lower alnum hyp = tokens lower alnum reference"
  by (auto simp: wer_def wer_counts_def counts_of_def Let_def levenshtein_distance distance_0_iff)

end
