(* ===== verification/Longform_Window.thy ===== *)
theory Longform_Window
  imports Asr_Prelude
begin

unbundle bit_operations_syntax

text \<open>
  Options of the long-form planner and its executor window
  (\<open>crates/openasr-core/src/longform/options.rs\<close> and \<open>duration.rs\<close>). The window is computed from
  the bits of an \<open>f32\<close> in integers, so it is modelled bit by bit; the options are compared as
  \<open>f32\<close> values.
\<close>

section \<open>Options\<close>

datatype longform_mode = ModeOff | ModeAuto | ModeFixed | ModeEnergy | ModeEnergyAuto | ModeVad

record longform_vad_options =
  lv_threshold :: f32
  lv_min_speech_duration_ms :: nat
  lv_min_silence_duration_ms :: nat

record longform_options =
  lf_mode :: longform_mode
  lf_chunk_seconds :: f32
  lf_overlap_seconds :: f32
  lf_min_chunk_seconds :: f32
  lf_max_chunk_seconds :: f32
  lf_padding_seconds :: f32
  lf_energy_silence_threshold_db :: f32
  lf_energy_split_search_seconds :: f32
  lf_suppress_silent_slices :: bool
  lf_carry_prompt_across_slices :: bool
  lf_max_context_tokens :: nat
  lf_max_context_chars :: nat
  lf_fallback_to_energy_when_vad_unavailable :: bool
  lf_fallback_to_energy_when_vad_empty :: bool
  lf_vad :: longform_vad_options

definition longform_vad_options_default :: longform_vad_options where
  "longform_vad_options_default =
     \<lparr>lv_threshold = F_Num (1 / 2), lv_min_speech_duration_ms = 250, lv_min_silence_duration_ms = 450\<rparr>"

text \<open>
  The two chunk lengths are \<open>arch::DEFAULT_ENCODER_CHUNK_SECONDS\<close> and
  \<open>arch::DEFAULT_ENCODER_MAX_CHUNK_SECONDS\<close>; all values are exact in \<open>f32\<close>.
\<close>

definition longform_options_default :: longform_options where
  "longform_options_default =
     \<lparr>lf_mode = ModeAuto, lf_chunk_seconds = F_Num 30, lf_overlap_seconds = F_Num (1 / 2),
      lf_min_chunk_seconds = F_Num 1, lf_max_chunk_seconds = F_Num 60, lf_padding_seconds = F_Num (1 / 4),
      lf_energy_silence_threshold_db = F_Num (- 38), lf_energy_split_search_seconds = F_Num 5,
      lf_suppress_silent_slices = False, lf_carry_prompt_across_slices = True,
      lf_max_context_tokens = 512, lf_max_context_chars = 512,
      lf_fallback_to_energy_when_vad_unavailable = True, lf_fallback_to_energy_when_vad_empty = True,
      lf_vad = longform_vad_options_default\<rparr>"

datatype longform_options_error =
    InvalidChunkSeconds f32
  | InvalidOverlapSeconds f32
  | OverlapExceedsChunk f32 f32
  | InvalidMinChunkSeconds f32
  | InvalidMaxChunkSeconds f32
  | MinChunkExceedsChunk f32 f32
  | InvalidPaddingSeconds f32
  | InvalidEnergySearchSeconds f32
  | InvalidMaxContextChars
  | InvalidMaxContextTokens
  | InvalidVadThreshold f32

fun f32_is_finite :: "f32 \<Rightarrow> bool" where
  "f32_is_finite (F_Num _) = True"
| "f32_is_finite _ = False"

definition f32_lt :: "f32 \<Rightarrow> f32 \<Rightarrow> bool" where
  "f32_lt x y = (f32_le x y \<and> \<not> f32_le y x)"

text \<open>\<open>f32::clamp\<close> for ordered bounds and \<open>f32::min\<close>.\<close>

definition f32_clamp :: "f32 \<Rightarrow> f32 \<Rightarrow> f32 \<Rightarrow> f32" where
  "f32_clamp lo hi x = (if f32_lt x lo then lo else if f32_lt hi x then hi else x)"

definition f32_min :: "f32 \<Rightarrow> f32 \<Rightarrow> f32" where
  "f32_min x y = (if x = F_NaN then y else if f32_lt y x then y else x)"

definition longform_options_validate :: "longform_options \<Rightarrow> longform_options_error + unit" where
  "longform_options_validate opts =
     (if \<not> f32_is_finite (lf_chunk_seconds opts) \<or> f32_le (lf_chunk_seconds opts) (F_Num 0)
      then Inl (InvalidChunkSeconds (lf_chunk_seconds opts))
      else if \<not> f32_is_finite (lf_overlap_seconds opts) \<or> f32_lt (lf_overlap_seconds opts) (F_Num 0)
      then Inl (InvalidOverlapSeconds (lf_overlap_seconds opts))
      else if f32_le (lf_chunk_seconds opts) (lf_overlap_seconds opts)
      then Inl (OverlapExceedsChunk (lf_overlap_seconds opts) (lf_chunk_seconds opts))
      else if \<not> f32_is_finite (lf_min_chunk_seconds opts) \<or> f32_le (lf_min_chunk_seconds opts) (F_Num 0)
      then Inl (InvalidMinChunkSeconds (lf_min_chunk_seconds opts))
      else if f32_lt (lf_chunk_seconds opts) (lf_min_chunk_seconds opts)
      then Inl (MinChunkExceedsChunk (lf_min_chunk_seconds opts) (lf_chunk_seconds opts))
      else if \<not> f32_is_finite (lf_max_chunk_seconds opts) \<or> f32_lt (lf_max_chunk_seconds opts) (lf_chunk_seconds opts)
      then Inl (InvalidMaxChunkSeconds (lf_max_chunk_seconds opts))
      else if \<not> f32_is_finite (lf_padding_seconds opts) \<or> f32_lt (lf_padding_seconds opts) (F_Num 0)
      then Inl (InvalidPaddingSeconds (lf_padding_seconds opts))
      else if \<not> f32_is_finite (lf_energy_split_search_seconds opts) \<or> f32_le (lf_energy_split_search_seconds opts) (F_Num 0)
      then Inl (InvalidEnergySearchSeconds (lf_energy_split_search_seconds opts))
      else if lf_max_context_tokens opts = 0 then Inl InvalidMaxContextTokens
      else if lf_max_context_chars opts = 0 then Inl InvalidMaxContextChars
      else if \<not> f32_is_finite (lv_threshold (lf_vad opts)) \<or> f32_lt (lv_threshold (lf_vad opts)) (F_Num 0)
          \<or> f32_lt (F_Num 1) (lv_threshold (lf_vad opts))
      then Inl (InvalidVadThreshold (lv_threshold (lf_vad opts)))
      else Inr ())"

section \<open>Executor window\<close>

datatype executor_window_limit_error = InvalidDuration "32 word"

abbreviation u128_limit :: nat where
  "u128_limit \<equiv> 340282366920938463463374607431768211456"

text \<open>
  The bits of the duration are taken apart with shifts and masks. \<open>u128::checked_shl\<close> only checks
  the shift distance: bits shifted out on the left are lost. The subtraction of the biases is done
  in \<open>i32\<close>.
\<close>

definition sign_bit :: "32 word \<Rightarrow> 32 word" where
  "sign_bit bits = drop_bit 31 bits"

definition exponent_bits :: "32 word \<Rightarrow> 32 word" where
  "exponent_bits bits = drop_bit 23 bits AND 255"

definition fraction_bits :: "32 word \<Rightarrow> 32 word" where
  "fraction_bits bits = bits AND 8388607"

definition executor_window_limit_samples :: "32 word \<Rightarrow> nat \<Rightarrow> executor_window_limit_error + nat" where
  "executor_window_limit_samples bits rate =
     (if sign_bit bits \<noteq> 0 \<or> exponent_bits bits = 255 \<or> (exponent_bits bits = 0 \<and> fraction_bits bits = 0)
      then Inl (InvalidDuration bits)
      else let (significand, exponent_two) =
                 (if exponent_bits bits = 0 then (unat (fraction_bits bits), - 149)
                  else (unat (push_bit 23 1 OR fraction_bits bits), int (unat (exponent_bits bits)) - 127 - 23));
               scaled = significand * rate
           in if u128_limit \<le> scaled then Inl (InvalidDuration bits)
              else if 0 \<le> exponent_two
              then (if 128 \<le> nat exponent_two then Inl (InvalidDuration bits)
                    else let samples = (scaled * 2 ^ nat exponent_two) mod u128_limit
                         in if samples < u64_limit then Inr samples else Inl (InvalidDuration bits))
              else let shift = nat (- exponent_two)
                   in if 128 \<le> shift then Inr 1
                      else if u128_limit \<le> scaled + (2 ^ shift - 1) then Inl (InvalidDuration bits)
                      else let samples = (scaled + (2 ^ shift - 1)) div 2 ^ shift
                           in if samples < u64_limit then Inr samples else Inl (InvalidDuration bits))"

text \<open>\<open>executor_window_limit_samples_checked\<close> panics on an error; \<open>None\<close> is the panic.\<close>

definition executor_window_limit_samples_checked :: "32 word \<Rightarrow> nat \<Rightarrow> nat option" where
  "executor_window_limit_samples_checked bits rate =
     (if rate = 0 then None
      else case executor_window_limit_samples bits rate of Inr n \<Rightarrow> Some n | Inl _ \<Rightarrow> None)"

section \<open>The value of a duration\<close>

text \<open>The number an \<open>f32\<close> with the given bits stands for, when it is positive and finite.\<close>

definition significand_of :: "32 word \<Rightarrow> nat" where
  "significand_of bits = (if exponent_bits bits = 0 then unat (fraction_bits bits) else 2 ^ 23 + unat (fraction_bits bits))"

definition scale_of :: "32 word \<Rightarrow> int" where
  "scale_of bits = (if exponent_bits bits = 0 then - 149 else int (unat (exponent_bits bits)) - 150)"

definition f32_of_bits :: "32 word \<Rightarrow> rat" where
  "f32_of_bits bits = of_nat (significand_of bits) * (if 0 \<le> scale_of bits then 2 ^ nat (scale_of bits) else 1 / 2 ^ nat (- scale_of bits))"

definition positive_finite :: "32 word \<Rightarrow> bool" where
  "positive_finite bits \<longleftrightarrow> sign_bit bits = 0 \<and> exponent_bits bits \<noteq> 255 \<and> \<not> (exponent_bits bits = 0 \<and> fraction_bits bits = 0)"

lemma unat_fraction: "unat (fraction_bits bits) = unat bits mod 2 ^ 23"
proof -
  have "fraction_bits bits = take_bit 23 bits"
    by (simp add: fraction_bits_def take_bit_eq_mask mask_eq_exp_minus_1)
  then show ?thesis unfolding take_bit_eq_mod [symmetric] by (simp only: unsigned_take_bit_eq)
qed

lemma unat_exponent: "unat (exponent_bits bits) = unat bits div 2 ^ 23 mod 256"
proof -
  have "exponent_bits bits = take_bit 8 (drop_bit 23 bits)"
    by (simp add: exponent_bits_def take_bit_eq_mask mask_eq_exp_minus_1)
  moreover have "(256 :: nat) = 2 ^ 8" by simp
  ultimately show ?thesis
    unfolding take_bit_eq_mod [symmetric] drop_bit_eq_div [symmetric]
    by (simp only: unsigned_take_bit_eq unat_drop_bit_eq take_bit_eq_mod [symmetric])
qed

lemma significand_bits: "unat (push_bit 23 1 OR fraction_bits bits) = 2 ^ 23 + unat (fraction_bits bits)"
proof -
  have f: "fraction_bits bits = take_bit 23 bits"
    by (simp add: fraction_bits_def take_bit_eq_mask mask_eq_exp_minus_1)
  have "push_bit 23 1 OR fraction_bits bits = push_bit 23 1 + fraction_bits bits"
    unfolding f by (rule disjunctive_add [symmetric]) (auto simp only: bit_push_bit_iff bit_take_bit_iff bit_1_iff)
  moreover have "unat (fraction_bits bits) < 2 ^ 23" unfolding unat_fraction by simp
  moreover have "unat (push_bit 23 1 :: 32 word) = 2 ^ 23" by (simp add: push_bit_eq_mult)
  ultimately show ?thesis by (simp add: unat_add_lem [THEN iffD1])
qed

lemma significand_bounds:
  assumes "positive_finite bits"
  shows "0 < significand_of bits" "significand_of bits < 2 ^ 24"
proof -
  have "unat (fraction_bits bits) < 2 ^ 23" unfolding unat_fraction by simp
  then show "0 < significand_of bits" "significand_of bits < 2 ^ 24"
    using assms by (auto simp: significand_of_def positive_finite_def unat_gt_0)
qed

lemma scale_bounds:
  assumes "positive_finite bits"
  shows "- 149 \<le> scale_of bits" "scale_of bits \<le> 104"
proof -
  define n where "n = unat (exponent_bits bits)"
  have "n < 256" unfolding n_def unat_exponent by simp
  moreover have "n \<noteq> 255"
    using assms by (auto simp: positive_finite_def word_unat_eq_iff n_def)
  moreover have "exponent_bits bits \<noteq> 0 \<Longrightarrow> 0 < n" by (simp add: unat_gt_0 n_def)
  moreover have "scale_of bits = (if exponent_bits bits = 0 then - 149 else int n - 150)"
    by (simp only: scale_of_def n_def)
  ultimately show "- 149 \<le> scale_of bits" "scale_of bits \<le> 104" by auto
qed

lemma window_limit_unfold:
  assumes "positive_finite bits"
  shows "executor_window_limit_samples bits rate =
    (let scaled = significand_of bits * rate
     in if u128_limit \<le> scaled then Inl (InvalidDuration bits)
        else if 0 \<le> scale_of bits
        then (let samples = (scaled * 2 ^ nat (scale_of bits)) mod u128_limit
              in if samples < u64_limit then Inr samples else Inl (InvalidDuration bits))
        else let shift = nat (- scale_of bits)
             in if 128 \<le> shift then Inr 1
                else if u128_limit \<le> scaled + (2 ^ shift - 1) then Inl (InvalidDuration bits)
                else let samples = (scaled + (2 ^ shift - 1)) div 2 ^ shift
                     in if samples < u64_limit then Inr samples else Inl (InvalidDuration bits))"
proof -
  have "\<not> (sign_bit bits \<noteq> 0 \<or> exponent_bits bits = 255 \<or> exponent_bits bits = 0 \<and> fraction_bits bits = 0)"
    using assms by (simp add: positive_finite_def)
  moreover have "(if exponent_bits bits = 0 then (unat (fraction_bits bits), - 149)
       else (unat (push_bit 23 1 OR fraction_bits bits), int (unat (exponent_bits bits)) - 127 - 23))
      = (significand_of bits, scale_of bits)"
    unfolding significand_bits by (simp add: significand_of_def scale_of_def)
  moreover have "\<not> 128 \<le> nat (scale_of bits)" using scale_bounds [OF assms] by simp
  ultimately show ?thesis
    unfolding executor_window_limit_samples_def by (simp only: if_False Let_def prod.case)
qed

lemma ceiling_nat_divide:
  assumes "0 < b"
  shows "\<lceil>(of_nat a :: rat) / of_nat b\<rceil> = int ((a + (b - 1)) div b)"
proof (rule ceiling_unique)
  let ?q = "(a + (b - 1)) div b"
  have le: "a \<le> b * ?q" and lt: "b * ?q < a + b"
    using dividend_less_times_div [OF assms, of "a + (b - 1)"] times_div_less_eq_dividend [of b "a + (b - 1)"] assms
    by linarith+
  have b: "(0 :: rat) < of_nat b" using assms by simp
  have "(of_nat a :: rat) \<le> of_nat b * of_nat ?q" "(of_nat b * of_nat ?q :: rat) < of_nat a + of_nat b"
    using le lt by (metis of_nat_le_iff of_nat_mult, metis of_nat_add of_nat_less_iff of_nat_mult)
  then show "(of_nat a :: rat) / of_nat b \<le> of_int (int ?q)" "of_int (int ?q) - 1 < (of_nat a :: rat) / of_nat b"
    unfolding pos_divide_le_eq [OF b] pos_less_divide_eq [OF b] of_int_of_nat_eq
    by (simp_all only: left_diff_distrib mult.commute [of "of_nat b"] mult_1_left diff_less_eq)
qed

lemma window_value:
  "f32_of_bits bits * of_nat rate =
     (if 0 \<le> scale_of bits then of_nat (significand_of bits * rate * 2 ^ nat (scale_of bits))
      else of_nat (significand_of bits * rate) / of_nat (2 ^ nat (- scale_of bits)))"
  by (simp add: f32_of_bits_def)

section \<open>Properties\<close>

text \<open>
  The executor window is the exact ceiling: for every bit pattern of a duration (whose product
  with the rate is below \<open>2 ^ 128\<close>) the result is the least number of samples that covers it,
  or an error if the duration is not positive and finite or the window does not fit 64 bits.
\<close>

theorem window_limit_is_ceiling:
  assumes "0 < rate" and "rate < u32_limit" and "f32_of_bits bits * of_nat rate < of_nat u128_limit"
  shows "executor_window_limit_samples bits rate =
    (if positive_finite bits \<and> \<lceil>f32_of_bits bits * of_nat rate\<rceil> < 2 ^ 64
     then Inr (nat \<lceil>f32_of_bits bits * of_nat rate\<rceil>) else Inl (InvalidDuration bits))"
proof (cases "positive_finite bits")
  case False
  then show ?thesis by (auto simp: executor_window_limit_samples_def positive_finite_def)
next
  case True
  let ?q = "significand_of bits * rate"
  have "?q < 2 ^ 24 * 4294967296"
    using significand_bounds [OF True] assms(1,2) by (intro mult_strict_mono) auto
  then have q: "?q < 72057594037927936" "0 < ?q"
    using significand_bounds [OF True] assms(1) by simp_all
  show ?thesis
  proof (cases "0 \<le> scale_of bits")
    case pos: True
    have v: "f32_of_bits bits * of_nat rate = of_nat (?q * 2 ^ nat (scale_of bits))"
      using pos by (simp only: window_value if_True)
    then have "?q * 2 ^ nat (scale_of bits) < u128_limit" using assms(3) by (simp only: of_nat_less_iff)
    moreover have "\<lceil>f32_of_bits bits * of_nat rate\<rceil> = int (?q * 2 ^ nat (scale_of bits))"
      unfolding v by (rule ceiling_of_nat)
    moreover have "int n < 2 ^ 64 \<longleftrightarrow> n < u64_limit" for n by simp
    ultimately show ?thesis
      using q True pos by (simp add: window_limit_unfold [OF True] Let_def del: of_nat_mult of_nat_power)
  next
    case neg: False
    let ?k = "nat (- scale_of bits)"
    have c: "\<lceil>f32_of_bits bits * of_nat rate\<rceil> = int ((?q + (2 ^ ?k - 1)) div 2 ^ ?k)"
      using neg by (simp only: window_value if_False ceiling_nat_divide zero_less_power zero_less_numeral)
    have iff: "int n < 2 ^ 64 \<longleftrightarrow> n < u64_limit" for n by simp
    show ?thesis
    proof (cases "128 \<le> ?k")
      case big: True
      have "(2 :: nat) ^ 128 \<le> 2 ^ ?k" using big by (intro power_increasing) simp_all
      then have "?q \<le> 2 ^ ?k" using q by simp
      moreover have "(1 :: nat) \<le> 2 ^ ?k" by simp
      ultimately have "2 ^ ?k * 1 \<le> ?q + (2 ^ ?k - 1)" "?q + (2 ^ ?k - 1) < 2 ^ ?k + 2 ^ ?k"
        using q(2) by linarith+
      then have "(?q + (2 ^ ?k - 1)) div 2 ^ ?k = 1" by (intro div_nat_eqI) (simp_all only: mult_Suc_right mult_1_right One_nat_def)
      then show ?thesis
        using q True neg big by (simp add: window_limit_unfold [OF True] Let_def c del: of_nat_mult of_nat_power)
    next
      case small: False
      have "(2 :: nat) ^ ?k \<le> 2 ^ 127" using small by (intro power_increasing) simp_all
      then have "?q + (2 ^ ?k - 1) < u128_limit" using q by simp
      then show ?thesis
        using q True neg small
        by (simp add: window_limit_unfold [OF True] Let_def c iff not_le del: of_nat_mult of_nat_power of_nat_div)
    qed
  qed
qed

text \<open>30.5 seconds at 16 kHz.\<close>

theorem window_limit_is_ceiling_witness:
  "executor_window_limit_samples 1106509824 16000 = Inr 488000"
proof -
  have b: "sign_bit 1106509824 = 0" "exponent_bits 1106509824 = 131" "fraction_bits 1106509824 = 7602176"
    by (simp_all add: sign_bit_def exponent_bits_def fraction_bits_def)
  have "positive_finite 1106509824" by (simp add: positive_finite_def b)
  moreover have v: "f32_of_bits 1106509824 * of_nat 16000 = of_nat 488000"
    by (simp add: f32_of_bits_def significand_of_def scale_of_def b)
  ultimately show ?thesis using window_limit_is_ceiling [of 16000 1106509824] unfolding v by simp
qed

text \<open>
  Beyond these bounds the function and its callers disagree. A duration of \<open>2 ^ 54\<close> seconds passes
  the validation of the options, but its window is an error and the checked function panics; for
  \<open>2 ^ 126\<close> seconds the shift drops all bits and the window is empty.
\<close>

lemma window_limit_edge_cases:
  "longform_options_validate (longform_options_default\<lparr>lf_max_chunk_seconds := F_Num (2 ^ 54)\<rparr>) = Inr ()"
  "f32_of_bits 1518338048 = 2 ^ 54" "executor_window_limit_samples_checked 1518338048 16000 = None"
  "f32_of_bits 2122317824 = 2 ^ 126" "executor_window_limit_samples 2122317824 16000 = Inr 0"
proof -
  have a: "sign_bit 1518338048 = 0" "exponent_bits 1518338048 = 181" "fraction_bits 1518338048 = 0"
    by (simp_all add: sign_bit_def exponent_bits_def fraction_bits_def)
  have b: "sign_bit 2122317824 = 0" "exponent_bits 2122317824 = 253" "fraction_bits 2122317824 = 0"
    by (simp_all add: sign_bit_def exponent_bits_def fraction_bits_def)
  show "longform_options_validate (longform_options_default\<lparr>lf_max_chunk_seconds := F_Num (2 ^ 54)\<rparr>) = Inr ()"
    by (simp add: longform_options_validate_def longform_options_default_def longform_vad_options_default_def f32_lt_def)
  show "f32_of_bits 1518338048 = 2 ^ 54" "f32_of_bits 2122317824 = 2 ^ 126"
    by (simp_all add: f32_of_bits_def significand_of_def scale_of_def a b)
  show "executor_window_limit_samples_checked 1518338048 16000 = None"
    by (simp add: executor_window_limit_samples_checked_def executor_window_limit_samples_def a Let_def)
  show "executor_window_limit_samples 2122317824 16000 = Inr 0"
    by (simp add: executor_window_limit_samples_def b Let_def)
qed

end
