(* ===== verification/Longform_Slicing.thy ===== *)
theory Longform_Slicing
  imports Longform_Window
begin

text \<open>
  The slice planner of long recordings (\<open>crates/openasr-core/src/longform/slicing.rs\<close>): fixed,
  energy and speech-driven slicing, the cut positions, coalescing, padding, packing and the
  re-anchoring of slice heads. The floating-point work (seconds to samples, the root mean square of
  a frame, decibels, the coalescing gap, the timeline of packed audio) is the parameter \<open>fa\<close>:
  every statement holds for any such functions. Sample positions are \<open>usize\<close>: where the code adds an
  amount taken from the options to a position with \<open>+\<close>, the sum wraps as in a release build
  (\<open>u64_add\<close>). A panic of the window limit is \<open>None\<close>.
\<close>

section \<open>Data\<close>

datatype audio_slice_kind = SliceFull | SliceFixed | SliceEnergy | SliceVad

record audio_slice =
  as_index :: nat
  as_kind :: audio_slice_kind
  as_start_sample :: nat
  as_end_sample :: nat
  as_content_start_sample :: nat
  as_content_end_sample :: nat

record longform_vad_slice =
  vs_start_sample :: nat
  vs_end_sample :: nat

record 'a longform_arith =
  la_to_bits :: "f32 \<Rightarrow> 32 word"
  la_seconds_to_samples :: "f32 \<Rightarrow> nat \<Rightarrow> nat"
  la_rms :: "'a list \<Rightarrow> f32"
  la_db_to_linear :: "f32 \<Rightarrow> f32"
  la_coalesce_gap_seconds :: "longform_options \<Rightarrow> f32"
  la_original_of :: "(nat \<times> nat) list \<Rightarrow> nat \<Rightarrow> nat \<Rightarrow> nat"
  la_energy_gate :: "f32 list \<Rightarrow> longform_options \<Rightarrow> f32"
  la_speech_threshold :: "f32 list \<Rightarrow> f32 list option \<Rightarrow> f32 \<times> f32"
  la_scale_round :: "f32 \<Rightarrow> nat \<Rightarrow> nat"
  la_excess_round :: "f32 \<Rightarrow> f32 \<Rightarrow> nat \<Rightarrow> nat"
  la_edge_round :: "f32 \<Rightarrow> f32 \<Rightarrow> f32 \<Rightarrow> nat \<Rightarrow> nat"

definition duration_samples :: "audio_slice \<Rightarrow> nat" where
  "duration_samples s = as_end_sample s - as_start_sample s"

definition content_duration_samples :: "audio_slice \<Rightarrow> nat" where
  "content_duration_samples s = as_content_end_sample s - as_content_start_sample s"

definition content_slice :: "audio_slice_kind \<Rightarrow> nat \<Rightarrow> nat \<Rightarrow> nat \<Rightarrow> audio_slice" where
  "content_slice kind index start_sample end_sample =
     \<lparr>as_index = index, as_kind = kind, as_start_sample = start_sample, as_end_sample = end_sample,
      as_content_start_sample = start_sample, as_content_end_sample = end_sample\<rparr>"

definition full_slice :: "nat \<Rightarrow> audio_slice" where
  "full_slice total_samples = content_slice SliceFull 0 0 total_samples"

definition executor_window_end :: "nat \<Rightarrow> nat \<Rightarrow> nat \<Rightarrow> nat \<Rightarrow> nat" where
  "executor_window_end start soft_end timeline_end max_samples =
     (let hard_end = min (u64_sat_add start max_samples) timeline_end in min soft_end hard_end)"

definition advance_window_start :: "nat \<Rightarrow> nat \<Rightarrow> nat \<Rightarrow> nat" where
  "advance_window_start start end_sample overlap_samples =
     (let next = end_sample - overlap_samples in if next \<le> start then end_sample else next)"

definition max_chunk_samples :: "'a longform_arith \<Rightarrow> longform_options \<Rightarrow> nat \<Rightarrow> nat option" where
  "max_chunk_samples fa opts rate = executor_window_limit_samples_checked (la_to_bits fa (lf_max_chunk_seconds opts)) rate"

lemma advance_window_start_bounds:
  "start < b \<Longrightarrow> start < advance_window_start start b overlap \<and> advance_window_start start b overlap \<le> b"
  by (auto simp: advance_window_start_def Let_def)

lemma advance_window_start_decreases:
  "\<not> b \<le> start \<Longrightarrow> start < limit \<Longrightarrow> limit - advance_window_start start b overlap < limit - start"
  using advance_window_start_bounds [of start b overlap] by linarith

section \<open>Fixed slices\<close>

function fixed_loop :: "nat \<Rightarrow> nat \<Rightarrow> nat \<Rightarrow> nat \<Rightarrow> nat \<Rightarrow> nat \<Rightarrow> audio_slice list \<Rightarrow> audio_slice list" where
  "fixed_loop total_samples chunk overlap min_chunk max_chunk start slices =
     (if start < total_samples then
        (let soft_end = min (u64_add start chunk) total_samples;
             end_sample = executor_window_end start soft_end total_samples max_chunk
         in if end_sample \<le> start then slices
            else if end_sample - start < min_chunk \<and> slices \<noteq> []
                \<and> total_samples - as_content_start_sample (last slices) \<le> max_chunk
            then butlast slices @ [(last slices)\<lparr>as_content_end_sample := total_samples\<rparr>]
            else let slices' = slices @ [content_slice SliceFixed (length slices) start end_sample]
                 in if end_sample = total_samples then slices'
                    else fixed_loop total_samples chunk overlap min_chunk max_chunk
                           (advance_window_start start end_sample overlap) slices')
      else slices)"
  by auto
termination fixed_loop
  by (relation "measure (\<lambda>(total_samples, chunk, overlap, min_chunk, max_chunk, start, slices). total_samples - start)")
    (simp_all add: advance_window_start_decreases)

declare fixed_loop.simps [simp del]

definition plan_fixed_slices :: "'a longform_arith \<Rightarrow> nat \<Rightarrow> nat \<Rightarrow> longform_options \<Rightarrow> audio_slice list option" where
  "plan_fixed_slices fa total_samples rate opts =
     (case max_chunk_samples fa opts rate of
        None \<Rightarrow> None
      | Some m \<Rightarrow> Some (fixed_loop total_samples (la_seconds_to_samples fa (lf_chunk_seconds opts) rate)
          (la_seconds_to_samples fa (lf_overlap_seconds opts) rate)
          (la_seconds_to_samples fa (lf_min_chunk_seconds opts) rate) (max m 1) 0 []))"

section \<open>Cut positions\<close>

text \<open>The samples \<open>[index, right)\<close>; both loops look at frames of 1600 samples.\<close>

definition frame_right :: "'a list \<Rightarrow> nat \<Rightarrow> nat \<Rightarrow> nat" where
  "frame_right samples index end_sample = min (min (index + 1600) (length samples)) end_sample"

definition frame_rms :: "'a longform_arith \<Rightarrow> 'a list \<Rightarrow> nat \<Rightarrow> nat \<Rightarrow> f32" where
  "frame_rms fa samples index right = la_rms fa (take (right - index) (drop index samples))"

function lowest_energy_loop ::
  "'a longform_arith \<Rightarrow> 'a list \<Rightarrow> nat \<Rightarrow> nat \<Rightarrow> (nat \<times> f32) option \<Rightarrow> f32 \<Rightarrow> (nat \<times> f32) option" where
  "lowest_energy_loop fa samples end_sample index best best_energy =
     (if index < end_sample then
        (let right = frame_right samples index end_sample
         in if right \<le> index then best
            else let rms = frame_rms fa samples index right
                 in if f32_lt rms best_energy
                    then lowest_energy_loop fa samples end_sample right (Some (index + (right - index) div 2, rms)) rms
                    else lowest_energy_loop fa samples end_sample right best best_energy)
      else best)"
  by auto
termination lowest_energy_loop
  by (relation "measure (\<lambda>(fa, samples, end_sample, index, best, best_energy). end_sample - index)") auto

declare lowest_energy_loop.simps [simp del]

definition lowest_energy_split_with_rms :: "'a longform_arith \<Rightarrow> 'a list \<Rightarrow> nat \<Rightarrow> nat \<Rightarrow> (nat \<times> f32) option" where
  "lowest_energy_split_with_rms fa samples start end_sample =
     (if end_sample \<le> start then None else lowest_energy_loop fa samples end_sample start None F_PosInf)"

definition find_lowest_energy_split :: "'a longform_arith \<Rightarrow> 'a list \<Rightarrow> nat \<Rightarrow> nat \<Rightarrow> nat option" where
  "find_lowest_energy_split fa samples start end_sample =
     map_option fst (lowest_energy_split_with_rms fa samples start end_sample)"

function first_low_energy_loop :: "'a longform_arith \<Rightarrow> 'a list \<Rightarrow> nat \<Rightarrow> f32 \<Rightarrow> nat \<Rightarrow> nat option" where
  "first_low_energy_loop fa samples end_sample threshold index =
     (if index < end_sample then
        (let right = frame_right samples index end_sample
         in if right \<le> index then None
            else if f32_le (frame_rms fa samples index right) threshold then Some (index + (right - index) div 2)
            else first_low_energy_loop fa samples end_sample threshold right)
      else None)"
  by auto
termination first_low_energy_loop
  by (relation "measure (\<lambda>(fa, samples, end_sample, threshold, index). end_sample - index)") auto

declare first_low_energy_loop.simps [simp del]

definition first_low_energy_split :: "'a longform_arith \<Rightarrow> 'a list \<Rightarrow> nat \<Rightarrow> nat \<Rightarrow> f32 \<Rightarrow> nat option" where
  "first_low_energy_split fa samples start end_sample threshold =
     (if end_sample \<le> start then None else first_low_energy_loop fa samples end_sample threshold start)"

definition clamp_cut :: "nat \<Rightarrow> nat \<Rightarrow> nat \<Rightarrow> nat" where
  "clamp_cut floor_sample hard_end val = min (max val floor_sample) hard_end"

definition choose_forced_cut ::
  "'a longform_arith \<Rightarrow> 'a list \<Rightarrow> nat \<Rightarrow> nat \<Rightarrow> nat \<Rightarrow> nat \<Rightarrow> f32 \<Rightarrow> nat \<times> bool" where
  "choose_forced_cut fa samples desired hard_end floor_sample search_samples threshold =
     (let window_lo = max (desired - search_samples) floor_sample;
          window_hi = min (u64_add desired search_samples) hard_end;
          near = lowest_energy_split_with_rms fa samples window_lo window_hi;
          grown = (if window_hi < hard_end then first_low_energy_split fa samples window_hi hard_end threshold else None);
          forced = (let ceiling_lo = max (hard_end - search_samples) floor_sample;
                        split = (case find_lowest_energy_split fa samples ceiling_lo hard_end of Some s \<Rightarrow> s | None \<Rightarrow> hard_end)
                    in (clamp_cut floor_sample hard_end split, True));
          growing = (case grown of Some split \<Rightarrow> (clamp_cut floor_sample hard_end split, False) | None \<Rightarrow> forced)
      in case near of
           Some (split, split_rms) \<Rightarrow>
             if f32_le split_rms threshold then (clamp_cut floor_sample hard_end split, False) else growing
         | None \<Rightarrow> growing)"

definition choose_energy_split ::
  "'a longform_arith \<Rightarrow> 'a list \<Rightarrow> nat \<Rightarrow> nat \<Rightarrow> nat \<Rightarrow> nat \<Rightarrow> f32 \<Rightarrow> nat \<times> bool" where
  "choose_energy_split fa samples desired hard_end floor_sample search_samples threshold =
     (let window_lo = max (desired - search_samples) floor_sample;
          window_hi = min (u64_add desired search_samples) hard_end
      in case lowest_energy_split_with_rms fa samples window_lo window_hi of
           None \<Rightarrow> (clamp_cut floor_sample hard_end hard_end, True)
         | Some (split, split_rms) \<Rightarrow>
             if f32_le split_rms threshold then (clamp_cut floor_sample hard_end split, False)
             else (case (if window_hi < hard_end then first_low_energy_split fa samples window_hi hard_end threshold else None) of
                     Some paused \<Rightarrow> (clamp_cut floor_sample hard_end paused, False)
                   | None \<Rightarrow> (clamp_cut floor_sample hard_end split, True)))"

definition forced_cut_overlap_samples :: "'a longform_arith \<Rightarrow> longform_options \<Rightarrow> nat \<Rightarrow> nat \<Rightarrow> nat" where
  "forced_cut_overlap_samples fa opts rate chunk_samples =
     (let base = la_seconds_to_samples fa (lf_overlap_seconds opts) rate;
          target = la_seconds_to_samples fa (F_Num 1) rate;
          ceiling_samples = la_seconds_to_samples fa (F_Num 2) rate;
          widened = min (max base target) (max ceiling_samples base)
      in min widened (max (chunk_samples - 1) 1))"

section \<open>Energy slices\<close>

text \<open>
  A loop whose cut makes no progress would not end (a minimum chunk of zero samples allows it), so
  the loops are partial: \<open>None\<close> is a loop that does not return.
\<close>

partial_function (option) energy_loop ::
  "'a longform_arith \<Rightarrow> 'a list \<Rightarrow> nat \<Rightarrow> nat \<Rightarrow> nat \<Rightarrow> nat \<Rightarrow> nat \<Rightarrow> nat \<Rightarrow> nat \<Rightarrow> f32 \<Rightarrow> nat \<Rightarrow> audio_slice list
     \<Rightarrow> audio_slice list option" where
  "energy_loop fa samples limit chunk max_chunk overlap forced_overlap min_chunk search threshold start slices =
     (if start < limit then
        (let hard_end = min (u64_add start max_chunk) limit;
             desired = min (u64_add start chunk) limit
         in if desired = limit
            then (let end_sample = executor_window_end start desired limit max_chunk
                  in if end_sample \<le> start then Some slices
                     else let slices' = slices @ [content_slice SliceEnergy (length slices) start end_sample]
                          in if limit \<le> end_sample then Some slices'
                             else energy_loop fa samples limit chunk max_chunk overlap forced_overlap min_chunk search threshold
                                    (advance_window_start start end_sample overlap) slices')
            else let floor_sample = min (u64_add start min_chunk) hard_end;
                     cut = choose_energy_split fa samples desired hard_end floor_sample search threshold;
                     slices' = slices @ [content_slice SliceEnergy (length slices) start (fst cut)]
                 in if limit \<le> fst cut then Some slices'
                    else let next = fst cut - (if snd cut then forced_overlap else overlap);
                             start' = (if next \<le> as_content_start_sample (last slices')
                                       then as_content_end_sample (last slices') else next)
                         in energy_loop fa samples limit chunk max_chunk overlap forced_overlap min_chunk search threshold
                              start' slices')
      else Some slices)"

definition extend_energy_slices_for_span ::
  "'a longform_arith \<Rightarrow> audio_slice list \<Rightarrow> 'a list \<Rightarrow> nat \<Rightarrow> nat \<Rightarrow> nat \<Rightarrow> longform_options \<Rightarrow> audio_slice list option" where
  "extend_energy_slices_for_span fa slices samples span_start span_end rate opts =
     (if span_end \<le> span_start then Some slices
      else case max_chunk_samples fa opts rate of
        None \<Rightarrow> None
      | Some m \<Rightarrow>
          (let chunk = la_seconds_to_samples fa (lf_chunk_seconds opts) rate
           in energy_loop fa samples (min span_end (length samples)) chunk m
                (la_seconds_to_samples fa (lf_overlap_seconds opts) rate)
                (forced_cut_overlap_samples fa opts rate chunk)
                (la_seconds_to_samples fa (lf_min_chunk_seconds opts) rate)
                (la_seconds_to_samples fa (lf_energy_split_search_seconds opts) rate)
                (la_db_to_linear fa (lf_energy_silence_threshold_db opts))
                (min span_start (length samples)) slices))"

definition plan_energy_slices_contiguous ::
  "'a longform_arith \<Rightarrow> 'a list \<Rightarrow> nat \<Rightarrow> nat \<Rightarrow> longform_options \<Rightarrow> audio_slice list option" where
  "plan_energy_slices_contiguous fa samples start_offset rate opts =
     extend_energy_slices_for_span fa [] samples start_offset (start_offset + length samples) rate opts"

definition plan_energy_slices ::
  "'a longform_arith \<Rightarrow> 'a list \<Rightarrow> nat \<Rightarrow> longform_options \<Rightarrow> audio_slice list option" where
  "plan_energy_slices fa samples rate opts = plan_energy_slices_contiguous fa samples 0 rate opts"

section \<open>Speech-driven slices\<close>

definition vad_slice :: "nat \<Rightarrow> nat \<Rightarrow> nat \<Rightarrow> audio_slice" where
  "vad_slice index start_sample end_sample = content_slice SliceVad index start_sample end_sample"

partial_function (option) vad_loop ::
  "'a longform_arith \<Rightarrow> 'a list \<Rightarrow> nat \<Rightarrow> nat \<Rightarrow> nat \<Rightarrow> nat \<Rightarrow> nat \<Rightarrow> nat \<Rightarrow> nat \<Rightarrow> f32 \<Rightarrow> nat \<Rightarrow> audio_slice list
     \<Rightarrow> audio_slice list option" where
  "vad_loop fa samples span_end chunk max_chunk base_overlap forced_overlap min_chunk search threshold start slices =
     (if start < span_end then
        (let hard_end = min (u64_add start max_chunk) span_end;
             desired = min (u64_add start chunk) span_end
         in if span_end \<le> desired
            then (let end_sample = executor_window_end start desired span_end max_chunk
                  in if end_sample \<le> start then Some slices
                     else let slices' = slices @ [vad_slice (length slices) start end_sample]
                          in if span_end \<le> end_sample then Some slices'
                             else let next = advance_window_start start end_sample forced_overlap;
                                      start' = (if next \<le> as_content_start_sample (last slices')
                                                then as_content_end_sample (last slices') else next)
                                  in vad_loop fa samples span_end chunk max_chunk base_overlap forced_overlap min_chunk
                                       search threshold start' slices')
            else let floor_sample = min (u64_add start min_chunk) hard_end;
                     cut = choose_forced_cut fa samples desired hard_end floor_sample search threshold;
                     slices' = slices @ [vad_slice (length slices) start (fst cut)]
                 in if span_end \<le> fst cut then Some slices'
                    else let next = fst cut - (if snd cut then forced_overlap else base_overlap);
                             start' = (if next \<le> as_content_start_sample (last slices')
                                       then as_content_end_sample (last slices') else next)
                         in vad_loop fa samples span_end chunk max_chunk base_overlap forced_overlap min_chunk
                              search threshold start' slices')
      else Some slices)"

definition extend_vad_slices_for_span ::
  "'a longform_arith \<Rightarrow> audio_slice list \<Rightarrow> 'a list \<Rightarrow> nat \<Rightarrow> nat \<Rightarrow> nat \<Rightarrow> longform_options \<Rightarrow> audio_slice list option" where
  "extend_vad_slices_for_span fa slices samples span_start span_end rate opts =
     (if span_end \<le> span_start then Some slices
      else case max_chunk_samples fa opts rate of
        None \<Rightarrow> None
      | Some m \<Rightarrow>
          (let chunk = max (la_seconds_to_samples fa (lf_chunk_seconds opts) rate) 1
           in vad_loop fa samples span_end chunk (max m 1)
                (la_seconds_to_samples fa (lf_overlap_seconds opts) rate)
                (forced_cut_overlap_samples fa opts rate chunk)
                (la_seconds_to_samples fa (lf_min_chunk_seconds opts) rate)
                (la_seconds_to_samples fa (lf_energy_split_search_seconds opts) rate)
                (la_db_to_linear fa (lf_energy_silence_threshold_db opts))
                span_start slices))"

primrec coalesce_loop ::
  "nat \<Rightarrow> nat \<Rightarrow> nat \<Rightarrow> nat \<Rightarrow> longform_vad_slice \<Rightarrow> longform_vad_slice list \<Rightarrow> longform_vad_slice list \<Rightarrow> longform_vad_slice list" where
  "coalesce_loop target min_chunk gap_bridge total_samples cur out [] =
     (if vs_start_sample cur < vs_end_sample cur then out @ [cur] else out)"
| "coalesce_loop target min_chunk gap_bridge total_samples cur out (next # rest) =
     (let next_start = min (vs_start_sample next) total_samples;
          next_end = min (vs_end_sample next) total_samples
      in if next_end \<le> next_start then coalesce_loop target min_chunk gap_bridge total_samples cur out rest
         else let current_len = vs_end_sample cur - vs_start_sample cur;
                  merged_len = next_end - vs_start_sample cur;
                  gap = next_start - vs_end_sample cur
              in if merged_len \<le> target \<and> (current_len < min_chunk \<or> gap \<le> gap_bridge)
                 then coalesce_loop target min_chunk gap_bridge total_samples
                        (cur\<lparr>vs_end_sample := max (vs_end_sample cur) next_end\<rparr>) out rest
                 else coalesce_loop target min_chunk gap_bridge total_samples
                        \<lparr>vs_start_sample = next_start, vs_end_sample = next_end\<rparr>
                        (if vs_start_sample cur < vs_end_sample cur then out @ [cur] else out) rest)"

definition coalesce_vad_slices :: "longform_vad_slice list \<Rightarrow> nat \<Rightarrow> nat \<Rightarrow> nat \<Rightarrow> nat \<Rightarrow> longform_vad_slice list" where
  "coalesce_vad_slices input target_chunk_samples min_chunk_samples gap_bridge_samples total_samples =
     (case sort_key vs_start_sample input of
        [] \<Rightarrow> []
      | first # rest \<Rightarrow>
          coalesce_loop target_chunk_samples min_chunk_samples gap_bridge_samples total_samples
            \<lparr>vs_start_sample = min (vs_start_sample first) total_samples, vs_end_sample = min (vs_end_sample first) total_samples\<rparr>
            [] rest)"

primrec extend_spans ::
  "'a longform_arith \<Rightarrow> 'a list \<Rightarrow> nat \<Rightarrow> longform_options \<Rightarrow> audio_slice list \<Rightarrow> longform_vad_slice list \<Rightarrow> audio_slice list option" where
  "extend_spans fa samples rate opts slices [] = Some slices"
| "extend_spans fa samples rate opts slices (v # vs) =
     (if vs_end_sample v \<le> vs_start_sample v then extend_spans fa samples rate opts slices vs
      else case extend_vad_slices_for_span fa slices samples (min (vs_start_sample v) (length samples))
                  (min (vs_end_sample v) (length samples)) rate opts of
             None \<Rightarrow> None
           | Some slices' \<Rightarrow> extend_spans fa samples rate opts slices' vs)"

definition plan_vad_slices_from_speech_spans ::
  "'a longform_arith \<Rightarrow> 'a list \<Rightarrow> nat \<Rightarrow> longform_options \<Rightarrow> longform_vad_slice list \<Rightarrow> audio_slice list option" where
  "plan_vad_slices_from_speech_spans fa samples rate opts vad_slices =
     (case max_chunk_samples fa opts rate of
        None \<Rightarrow> None
      | Some m \<Rightarrow> extend_spans fa samples rate opts []
          (coalesce_vad_slices vad_slices (max m 1)
             (max (la_seconds_to_samples fa (lf_min_chunk_seconds opts) rate) 1)
             (la_seconds_to_samples fa (la_coalesce_gap_seconds fa opts) rate) (length samples)))"

section \<open>Padding\<close>

definition pad_slice :: "nat \<Rightarrow> nat \<Rightarrow> nat \<Rightarrow> audio_slice \<Rightarrow> audio_slice" where
  "pad_slice total_samples pad max_chunk s =
     (let content_len = as_content_end_sample s - as_content_start_sample s;
          pad_budget = max_chunk - content_len;
          side_pad = min pad (pad_budget div 2)
      in s\<lparr>as_start_sample := as_content_start_sample s - side_pad,
           as_end_sample := min (u64_add (as_content_end_sample s) side_pad) total_samples\<rparr>)"

definition apply_padding ::
  "'a longform_arith \<Rightarrow> audio_slice list \<Rightarrow> nat \<Rightarrow> nat \<Rightarrow> longform_options \<Rightarrow> audio_slice list option" where
  "apply_padding fa slices total_samples rate opts =
     (if slices = [] then Some []
      else case max_chunk_samples fa opts rate of
        None \<Rightarrow> None
      | Some m \<Rightarrow> Some (map (pad_slice total_samples (la_seconds_to_samples fa (lf_padding_seconds opts) rate) (max m 1)) slices))"

section \<open>Decode gate and slice heads\<close>

definition span_overlap :: "nat \<Rightarrow> nat \<Rightarrow> longform_vad_slice \<Rightarrow> nat" where
  "span_overlap slice_start slice_end region =
     (let overlap_start = max (vs_start_sample region) slice_start;
          overlap_end = min (vs_end_sample region) slice_end
      in if overlap_start < overlap_end then overlap_end - overlap_start else 0)"

definition vad_speech_spans_overlap_samples :: "longform_vad_slice list option \<Rightarrow> audio_slice \<Rightarrow> nat option" where
  "vad_speech_spans_overlap_samples spans window =
     (case spans of
        None \<Rightarrow> None
      | Some sps \<Rightarrow> if sps = [] then None
                    else Some (fold (\<lambda>region n. u64_sat_add n (span_overlap (as_start_sample window) (as_end_sample window) region)) sps 0))"

definition span_coverage_step :: "nat \<Rightarrow> nat \<Rightarrow> longform_vad_slice \<Rightarrow> (nat \<times> nat) option \<Rightarrow> (nat \<times> nat) option" where
  "span_coverage_step start end_sample region acc =
     (if vs_end_sample region \<le> start \<or> end_sample \<le> vs_start_sample region then acc
      else let lo = max (vs_start_sample region) start;
               hi = min (vs_end_sample region) end_sample
           in case acc of None \<Rightarrow> Some (lo, hi) | Some (f, l) \<Rightarrow> Some (min f lo, max l hi))"

definition span_coverage_within :: "longform_vad_slice list \<Rightarrow> nat \<Rightarrow> nat \<Rightarrow> (nat \<times> nat) option" where
  "span_coverage_within spans start end_sample = fold (span_coverage_step start end_sample) spans None"

definition reanchor_slice :: "longform_vad_slice list \<Rightarrow> nat \<Rightarrow> nat \<Rightarrow> nat \<Rightarrow> nat \<Rightarrow> audio_slice \<Rightarrow> audio_slice \<times> bool" where
  "reanchor_slice spans min_prefix tail_tolerance lead min_window s =
     (case span_coverage_within spans (as_start_sample s) (as_end_sample s) of
        None \<Rightarrow> (s, False)
      | Some (first, last_sample) \<Rightarrow>
          if first - as_start_sample s < min_prefix then (s, False)
          else if tail_tolerance < as_end_sample s - last_sample then (s, False)
          else let new_start = first - lead
               in if new_start \<le> as_start_sample s then (s, False)
                  else if as_end_sample s - new_start < min_window then (s, False)
                  else (s\<lparr>as_start_sample := new_start, as_content_start_sample := new_start\<rparr>, True))"

definition reanchor_energy_auto_slice_heads ::
  "'a longform_arith \<Rightarrow> audio_slice list \<Rightarrow> longform_vad_slice list \<Rightarrow> nat \<Rightarrow> nat \<times> audio_slice list" where
  "reanchor_energy_auto_slice_heads fa slices spans rate =
     (let results = map (reanchor_slice spans (la_seconds_to_samples fa (F_Num 2) rate) (la_seconds_to_samples fa (F_Num 1) rate)
            (la_seconds_to_samples fa (F_Num (5 / 2)) rate) (la_seconds_to_samples fa (F_Num 1) rate)) slices
      in (length (filter snd results), map fst results))"

section \<open>Tilings\<close>

text \<open>
  \<open>tiling m s e ws\<close>: the windows cover \<open>[s, e)\<close> from \<open>s\<close> to \<open>e\<close>. Each is non-empty and no longer
  than \<open>m\<close>, and each starts after the start and no later than the end of the one before.
\<close>

fun tiling :: "nat \<Rightarrow> nat \<Rightarrow> nat \<Rightarrow> (nat \<times> nat) list \<Rightarrow> bool" where
  "tiling m s e [] = False"
| "tiling m s e [w] = (w = (s, e) \<and> s < e \<and> e - s \<le> m)"
| "tiling m s e (w # v # ws) = (fst w = s \<and> s < snd w \<and> snd w \<le> e \<and> snd w - s \<le> m
     \<and> s < fst v \<and> fst v \<le> snd w \<and> tiling m (fst v) e (v # ws))"

lemma tiling_first: "tiling m s e ws \<Longrightarrow> \<exists>b vs. ws = (s, b) # vs"
  by (cases "(m, s, e, ws)" rule: tiling.cases) auto

lemma tiling_Cons:
  assumes "tiling m s' e ws" and "s < s'" and "s' \<le> b" and "b \<le> e" and "b - s \<le> m"
  shows "tiling m s e ((s, b) # ws)"
  using assms tiling_first [OF assms(1)] by auto

lemma tiling_covers: "tiling m s e ws \<Longrightarrow> s \<le> x \<Longrightarrow> x < e \<Longrightarrow> \<exists>(a, b) \<in> set ws. a \<le> x \<and> x < b"
proof (induction m s e ws rule: tiling.induct)
  case (3 m s e w v ws)
  show ?case
  proof (cases "x < snd w")
    case True
    then show ?thesis using "3.prems" by (cases w) auto
  next
    case False
    then have "\<exists>(a, b) \<in> set (v # ws). a \<le> x \<and> x < b" using "3.IH" "3.prems" by simp
    then show ?thesis by auto
  qed
qed auto

lemma tiling_windows: "tiling m s e ws \<Longrightarrow> (a, b) \<in> set ws \<Longrightarrow> s \<le> a \<and> a < b \<and> b \<le> e \<and> b - a \<le> m"
proof (induction m s e ws rule: tiling.induct)
  case (3 m s e w v ws)
  then show ?case by (cases w) fastforce
qed auto

text \<open>The slices of a planner are its windows, numbered.\<close>

definition numbered :: "audio_slice_kind \<Rightarrow> nat \<Rightarrow> (nat \<times> nat) list \<Rightarrow> audio_slice list" where
  "numbered kind k ws = map (\<lambda>(i, (a, b)). content_slice kind i a b) (enumerate k ws)"

lemma numbered_simps [simp]:
  "numbered kind k [] = []"
  "numbered kind k ((a, b) # ws) = content_slice kind k a b # numbered kind (Suc k) ws"
  by (simp_all add: numbered_def)

lemma length_numbered [simp]: "length (numbered kind k ws) = length ws"
  by (simp add: numbered_def)

lemma content_slice_simps [simp]:
  "as_start_sample (content_slice kind i a b) = a" "as_end_sample (content_slice kind i a b) = b"
  "as_content_start_sample (content_slice kind i a b) = a" "as_content_end_sample (content_slice kind i a b) = b"
  "as_index (content_slice kind i a b) = i" "as_kind (content_slice kind i a b) = kind"
  by (simp_all add: content_slice_def)

lemma set_numbered: "s \<in> set (numbered kind k ws) \<Longrightarrow> \<exists>i a b. (a, b) \<in> set ws \<and> s = content_slice kind i a b"
  by (induction ws arbitrary: k) fastforce+

lemma numbered_ex: "(a, b) \<in> set ws \<Longrightarrow> \<exists>i. content_slice kind i a b \<in> set (numbered kind k ws)"
  by (induction ws arbitrary: k) (auto, blast)

text \<open>
  The common shape of the planners' loops: every turn emits one window and either reaches the
  limit or goes on from a start inside the window. Such a loop returns, and its windows tile.
\<close>

lemma loop_tiles:
  fixes loop :: "nat \<Rightarrow> audio_slice list \<Rightarrow> audio_slice list option"
  assumes turn: "\<And>start slices. start < limit \<Longrightarrow> \<exists>b. start < b \<and> b \<le> limit \<and> b - start \<le> m
     \<and> (if b = limit then loop start slices = Some (slices @ [content_slice kind (length slices) start b])
        else \<exists>s'. start < s' \<and> s' \<le> b
          \<and> loop start slices = loop s' (slices @ [content_slice kind (length slices) start b]))"
    and "start < limit"
  shows "\<exists>ws. loop start slices = Some (slices @ numbered kind (length slices) ws) \<and> tiling m start limit ws"
  using assms(2)
proof (induction "limit - start" arbitrary: start slices rule: less_induct)
  case less
  obtain b where b: "start < b" "b \<le> limit" "b - start \<le> m"
      "if b = limit then loop start slices = Some (slices @ [content_slice kind (length slices) start b])
       else \<exists>s'. start < s' \<and> s' \<le> b \<and> loop start slices = loop s' (slices @ [content_slice kind (length slices) start b])"
    using turn [OF less.prems, of slices] by blast
  show ?case
  proof (cases "b = limit")
    case True
    then show ?thesis using b by (intro exI [of _ "[(start, b)]"]) simp
  next
    case False
    then obtain s' where s': "start < s'" "s' \<le> b"
        "loop start slices = loop s' (slices @ [content_slice kind (length slices) start b])"
      using b(4) by auto
    have "s' < limit" "limit - s' < limit - start" using s' b False by simp_all
    then obtain ws where ws: "loop s' (slices @ [content_slice kind (length slices) start b])
        = Some ((slices @ [content_slice kind (length slices) start b]) @ numbered kind (Suc (length slices)) ws)"
        "tiling m s' limit ws"
      using less.hyps [of s' "slices @ [content_slice kind (length slices) start b]"] s' less.prems by auto
    then show ?thesis
      using s' b tiling_Cons [OF ws(2) s'(1,2) b(2,3)] by (intro exI [of _ "(start, b) # ws"]) simp
  qed
qed

section \<open>The planners tile\<close>

lemma clamp_cut_bounds: "floor_sample \<le> hard_end \<Longrightarrow> floor_sample \<le> clamp_cut floor_sample hard_end v \<and> clamp_cut floor_sample hard_end v \<le> hard_end"
  by (simp add: clamp_cut_def)

lemma cut_in_window:
  fixes start :: nat
  assumes "min (start + min_chunk) (min (start + m) limit) \<le> c" and "c \<le> min (start + m) limit"
    and "0 < m" and "0 < min_chunk" and "start < limit"
  shows "start < c \<and> c \<le> limit \<and> c - start \<le> m"
  using assms by linarith

lemma choose_forced_cut_bounds:
  assumes "floor_sample \<le> hard_end"
  shows "floor_sample \<le> fst (choose_forced_cut fa samples desired hard_end floor_sample search threshold)
    \<and> fst (choose_forced_cut fa samples desired hard_end floor_sample search threshold) \<le> hard_end"
  using clamp_cut_bounds [OF assms] by (auto simp: choose_forced_cut_def Let_def split: option.split prod.split)

lemma choose_energy_split_bounds:
  assumes "floor_sample \<le> hard_end"
  shows "floor_sample \<le> fst (choose_energy_split fa samples desired hard_end floor_sample search threshold)
    \<and> fst (choose_energy_split fa samples desired hard_end floor_sample search threshold) \<le> hard_end"
  using clamp_cut_bounds [OF assms] by (auto simp: choose_energy_split_def Let_def split: option.split prod.split)

lemma executor_window_end_bounds:
  "start < soft_end \<Longrightarrow> start < timeline_end \<Longrightarrow> 0 < m \<Longrightarrow> timeline_end < u64_limit \<Longrightarrow>
   start < executor_window_end start soft_end timeline_end m \<and> executor_window_end start soft_end timeline_end m \<le> timeline_end
   \<and> executor_window_end start soft_end timeline_end m - start \<le> m"
  by (auto simp: executor_window_end_def Let_def u64_sat_add_def)

text \<open>Positions below \<open>limit\<close> whose sums with the three amounts of the loops stay in range.\<close>

definition sums_fit :: "nat \<Rightarrow> nat \<Rightarrow> nat \<Rightarrow> nat \<Rightarrow> bool" where
  "sums_fit limit m chunk min_chunk \<longleftrightarrow> limit + m < u64_limit \<and> limit + chunk < u64_limit \<and> limit + min_chunk < u64_limit"

lemma sums_fit_mono: "sums_fit limit m chunk min_chunk \<Longrightarrow> limit' \<le> limit \<Longrightarrow> sums_fit limit' m chunk min_chunk"
  by (auto simp: sums_fit_def)

lemma sums_fit_add:
  "sums_fit limit m chunk min_chunk \<Longrightarrow> start \<le> limit \<Longrightarrow> u64_add start m = start + m"
  "sums_fit limit m chunk min_chunk \<Longrightarrow> start \<le> limit \<Longrightarrow> u64_add start chunk = start + chunk"
  "sums_fit limit m chunk min_chunk \<Longrightarrow> start \<le> limit \<Longrightarrow> u64_add start min_chunk = start + min_chunk"
  by (auto simp: sums_fit_def intro!: u64_add_small)

lemma energy_loop_tiles:
  assumes "0 < m" and "0 < min_chunk" and "0 < chunk" and "start < limit" and fit: "sums_fit limit m chunk min_chunk"
  shows "\<exists>ws. energy_loop fa samples limit chunk m overlap forced_overlap min_chunk search threshold start slices
      = Some (slices @ numbered SliceEnergy (length slices) ws) \<and> tiling m start limit ws"
proof (rule loop_tiles [OF _ assms(4)])
  fix start slices
  assume start: "start < limit"
  have lim: "limit < u64_limit" using fit by (simp add: sums_fit_def)
  note adds = sums_fit_add [OF fit less_imp_le [OF start]]
  let ?loop = "energy_loop fa samples limit chunk m overlap forced_overlap min_chunk search threshold"
  let ?hard = "min (start + m) limit" and ?desired = "min (start + chunk) limit"
  let ?w = "\<lambda>b. slices @ [content_slice SliceEnergy (length slices) start b]"
  show "\<exists>b. start < b \<and> b \<le> limit \<and> b - start \<le> m \<and> (if b = limit then ?loop start slices = Some (?w b)
     else \<exists>s'. start < s' \<and> s' \<le> b \<and> ?loop start slices = ?loop s' (?w b))"
  proof (cases "?desired = limit")
    case True
    let ?b = "executor_window_end start ?desired limit m"
    have b: "start < ?b" "?b \<le> limit" "?b - start \<le> m"
      using executor_window_end_bounds [of start ?desired limit m] start assms lim by simp_all
    have "?loop start slices = (if limit \<le> ?b then Some (?w ?b) else ?loop (advance_window_start start ?b overlap) (?w ?b))"
      using start True b by (subst energy_loop.simps) (simp add: Let_def adds)
    then show ?thesis using b advance_window_start_bounds [OF b(1), of overlap] by (intro exI [of _ ?b]) auto
  next
    case False
    define cut where "cut = choose_energy_split fa samples ?desired ?hard (min (start + min_chunk) ?hard) search threshold"
    note cb = choose_energy_split_bounds [OF min.cobounded2 [of "start + min_chunk" ?hard], of fa samples ?desired search threshold]
    have c: "start < fst cut" "fst cut \<le> limit" "fst cut - start \<le> m"
      using cut_in_window [OF cb [THEN conjunct1] cb [THEN conjunct2] assms(1,2) start] by (simp_all only: cut_def)
    let ?next = "advance_window_start start (fst cut) (if snd cut then forced_overlap else overlap)"
    have "?loop start slices = (if limit \<le> fst cut then Some (?w (fst cut))
        else ?loop ?next (?w (fst cut)))"
      using start False
      by (subst energy_loop.simps) (simp only: Let_def adds if_True if_False advance_window_start_def cut_def [symmetric] last_snoc content_slice_simps)
    then show ?thesis
      using c advance_window_start_bounds [OF c(1), of "if snd cut then forced_overlap else overlap"]
      by (intro exI [of _ "fst cut"]) auto
  qed
qed

lemma vad_loop_tiles:
  assumes "0 < m" and "0 < min_chunk" and "0 < chunk" and "start < limit" and fit: "sums_fit limit m chunk min_chunk"
  shows "\<exists>ws. vad_loop fa samples limit chunk m overlap forced_overlap min_chunk search threshold start slices
      = Some (slices @ numbered SliceVad (length slices) ws) \<and> tiling m start limit ws"
proof (rule loop_tiles [OF _ assms(4)])
  fix start slices
  assume start: "start < limit"
  have lim: "limit < u64_limit" using fit by (simp add: sums_fit_def)
  note adds = sums_fit_add [OF fit less_imp_le [OF start]]
  let ?loop = "vad_loop fa samples limit chunk m overlap forced_overlap min_chunk search threshold"
  let ?hard = "min (start + m) limit" and ?desired = "min (start + chunk) limit"
  let ?w = "\<lambda>b. slices @ [content_slice SliceVad (length slices) start b]"
  show "\<exists>b. start < b \<and> b \<le> limit \<and> b - start \<le> m \<and> (if b = limit then ?loop start slices = Some (?w b)
     else \<exists>s'. start < s' \<and> s' \<le> b \<and> ?loop start slices = ?loop s' (?w b))"
  proof (cases "limit \<le> ?desired")
    case True
    let ?b = "executor_window_end start ?desired limit m"
    have b: "start < ?b" "?b \<le> limit" "?b - start \<le> m"
      using executor_window_end_bounds [of start ?desired limit m] start assms lim by simp_all
    note adv = advance_window_start_bounds [OF b(1), of forced_overlap]
    have "?loop start slices = (if limit \<le> ?b then Some (?w ?b) else ?loop (advance_window_start start ?b forced_overlap) (?w ?b))"
      using start True b adv by (subst vad_loop.simps) (simp add: Let_def adds vad_slice_def)
    then show ?thesis using b adv by (intro exI [of _ ?b]) auto
  next
    case False
    define cut where "cut = choose_forced_cut fa samples ?desired ?hard (min (start + min_chunk) ?hard) search threshold"
    note cb = choose_forced_cut_bounds [OF min.cobounded2 [of "start + min_chunk" ?hard], of fa samples ?desired search threshold]
    have c: "start < fst cut" "fst cut \<le> limit" "fst cut - start \<le> m"
      using cut_in_window [OF cb [THEN conjunct1] cb [THEN conjunct2] assms(1,2) start] by (simp_all only: cut_def)
    let ?next = "advance_window_start start (fst cut) (if snd cut then forced_overlap else overlap)"
    have "?loop start slices = (if limit \<le> fst cut then Some (?w (fst cut))
        else ?loop ?next (?w (fst cut)))"
      using start False
      by (subst vad_loop.simps) (simp only: Let_def adds if_True if_False advance_window_start_def cut_def [symmetric] vad_slice_def last_snoc content_slice_simps)
    then show ?thesis
      using c advance_window_start_bounds [OF c(1), of "if snd cut then forced_overlap else overlap"]
      by (intro exI [of _ "fst cut"]) auto
  qed
qed

end
