(* ===== verification/Longform_Plans.thy ===== *)
theory Longform_Plans
  imports Longform_Slicing
begin

text \<open>
  What the slice planners of \<open>crates/openasr-core/src/longform/slicing.rs\<close> guarantee: fixed and
  energy slices tile the whole recording, speech-driven slices cover every sample of speech, no
  window is longer than the executor window, padding keeps it so, and re-anchoring a slice head
  loses no speech.
\<close>

section \<open>Fixed slices\<close>

definition content_window :: "audio_slice \<Rightarrow> nat \<times> nat" where
  "content_window s = (as_content_start_sample s, as_content_end_sample s)"

lemma content_window_simps [simp]:
  "content_window (content_slice kind i a b) = (a, b)"
  "content_window (s\<lparr>as_content_end_sample := e\<rparr>) = (as_content_start_sample s, e)"
  "fst (content_window s) = as_content_start_sample s"
  by (simp_all add: content_window_def)

lemma tiling_snoc:
  assumes "tiling m s b ws" and "fst (last ws) < s'" and "s' \<le> b" and "b \<le> b'" and "s' < b'" and "b' - s' \<le> m"
  shows "tiling m s b' (ws @ [(s', b')])"
  using assms by (induction m s b ws rule: tiling.induct) auto

lemma tiling_extend_last:
  assumes "tiling m s b ws" and "b \<le> b'" and "b' - fst (last ws) \<le> m"
  shows "tiling m s b' (butlast ws @ [(fst (last ws), b')])"
  using assms
proof (induction m s b ws rule: tiling.induct)
  case (3 m s e w v ws)
  then have "tiling m (fst v) b' (butlast (v # ws) @ [(fst (last (v # ws)), b')])" by simp
  then show ?case
    using "3.prems" by (cases "ws = []") (auto split: if_splits)
qed auto

lemma fixed_window_end:
  assumes "start < total_samples" and "sums_fit total_samples m chunk min_chunk"
  shows "executor_window_end start (min (u64_add start chunk) total_samples) total_samples m
    = min (start + min chunk m) total_samples"
  using assms sums_fit_add [OF assms(2), of start] by (simp add: executor_window_end_def sums_fit_def u64_sat_add_small)

lemma fixed_loop_tiles:
  assumes "0 < chunk" and "0 < m" and "start < total_samples"
    and "if slices = [] then start = 0
         else tiling m 0 (as_content_start_sample (last slices) + min chunk m) (map content_window slices)
           \<and> as_content_start_sample (last slices) < start
           \<and> start \<le> as_content_start_sample (last slices) + min chunk m
           \<and> as_content_start_sample (last slices) + min chunk m < total_samples"
    and "sums_fit total_samples m chunk min_chunk"
  shows "tiling m 0 total_samples (map content_window (fixed_loop total_samples chunk overlap min_chunk m start slices))"
  using assms
proof (induction total_samples chunk overlap min_chunk m start slices rule: fixed_loop.induct)
  case (1 total_samples chunk overlap min_chunk m start slices)
  let ?e = "min (start + min chunk m) total_samples"
  let ?w = "content_slice SliceFixed (length slices) start ?e"
  let ?next = "advance_window_start start ?e overlap"
  note e = fixed_window_end [OF "1.prems"(3,5)]
  have len: "start < ?e" using "1.prems" by auto
  show ?case
  proof (cases "?e - start < min_chunk \<and> slices \<noteq> [] \<and> total_samples - as_content_start_sample (last slices) \<le> m")
    case True
    then have "fixed_loop total_samples chunk overlap min_chunk m start slices
        = butlast slices @ [(last slices)\<lparr>as_content_end_sample := total_samples\<rparr>]"
      using "1.prems" len by (subst fixed_loop.simps) (simp only: e Let_def if_True if_False not_le [symmetric], simp)
    then show ?thesis
      using tiling_extend_last [of m 0 "as_content_start_sample (last slices) + min chunk m" "map content_window slices" total_samples]
        "1.prems"(4) True
      by (simp add: map_butlast [symmetric] last_map)
  next
    case False
    have step: "fixed_loop total_samples chunk overlap min_chunk m start slices
        = (if ?e = total_samples then slices @ [?w] else fixed_loop total_samples chunk overlap min_chunk m ?next (slices @ [?w]))"
      using "1.prems"(3) len False by (subst fixed_loop.simps) (simp only: e Let_def if_True if_False not_le [symmetric], simp)
    have tiles: "tiling m 0 ?e (map content_window (slices @ [?w]))"
    proof (cases "slices = []")
      case True
      then show ?thesis using "1.prems" len by simp
    next
      case False
      then show ?thesis
        using "1.prems" len tiling_snoc [of m 0 "as_content_start_sample (last slices) + min chunk m" "map content_window slices" start ?e]
        by (simp add: last_map)
    qed
    show ?thesis
    proof (cases "?e = total_samples")
      case True
      then show ?thesis using tiles by (simp only: step simp_thms if_True)
    next
      case False
      then have e': "?e = start + min chunk m" "start + min chunk m < total_samples" by auto
      note adv = advance_window_start_bounds [OF len, of overlap]
      have "tiling m 0 total_samples (map content_window (fixed_loop total_samples chunk overlap min_chunk m ?next (slices @ [?w])))"
      proof (rule "1.IH" [of _ ?e, OF "1.prems"(3) refl])
        show "?e = executor_window_end start (min (u64_add start chunk) total_samples) total_samples m" by (simp only: e)
      qed (use "1.prems" len \<open>\<not> (?e - start < min_chunk \<and> _)\<close> False tiles adv e' in \<open>simp_all\<close>)
      then show ?thesis using False by (simp only: step if_False)
    qed
  qed
qed


section \<open>Coalescing speech regions\<close>

definition covered :: "longform_vad_slice list \<Rightarrow> nat \<Rightarrow> bool" where
  "covered regions x \<longleftrightarrow> (\<exists>r \<in> set regions. vs_start_sample r \<le> x \<and> x < vs_end_sample r)"

lemma covered_simps [simp]:
  "covered [] x = False"
  "covered (r # rs) x \<longleftrightarrow> vs_start_sample r \<le> x \<and> x < vs_end_sample r \<or> covered rs x"
  "covered (rs @ qs) x \<longleftrightarrow> covered rs x \<or> covered qs x"
  by (auto simp: covered_def)

definition region_ok :: "nat \<Rightarrow> longform_vad_slice \<Rightarrow> bool" where
  "region_ok total_samples r \<longleftrightarrow> vs_start_sample r < vs_end_sample r \<and> vs_end_sample r \<le> total_samples"

text \<open>One turn of the loop: it skips the next region, widens the current one or starts a new one.\<close>

lemma coalesce_loop_cases:
  obtains (skip) "min (vs_end_sample n) total_samples \<le> min (vs_start_sample n) total_samples"
      and "coalesce_loop target min_chunk gap_bridge total_samples cur out (n # rest)
        = coalesce_loop target min_chunk gap_bridge total_samples cur out rest"
  | (merge) cur' where "vs_start_sample cur' = vs_start_sample cur"
      and "vs_end_sample cur' = max (vs_end_sample cur) (min (vs_end_sample n) total_samples)"
      and "coalesce_loop target min_chunk gap_bridge total_samples cur out (n # rest)
        = coalesce_loop target min_chunk gap_bridge total_samples cur' out rest"
  | (new) cur' out' where "vs_start_sample cur' = min (vs_start_sample n) total_samples"
      and "vs_end_sample cur' = min (vs_end_sample n) total_samples"
      and "out' = (if vs_start_sample cur < vs_end_sample cur then out @ [cur] else out)"
      and "coalesce_loop target min_chunk gap_bridge total_samples cur out (n # rest)
        = coalesce_loop target min_chunk gap_bridge total_samples cur' out' rest"
proof -
  let ?ns = "min (vs_start_sample n) total_samples" and ?ne = "min (vs_end_sample n) total_samples"
  let ?m = "?ne - vs_start_sample cur \<le> target
    \<and> (vs_end_sample cur - vs_start_sample cur < min_chunk \<or> ?ns - vs_end_sample cur \<le> gap_bridge)"
  note eq = coalesce_loop.simps(2) [of target min_chunk gap_bridge total_samples cur out n rest, unfolded Let_def]
  consider "?ne \<le> ?ns" | "\<not> ?ne \<le> ?ns" "?m" | "\<not> ?ne \<le> ?ns" "\<not> ?m" by blast
  then show thesis
  proof cases
    case 1
    then show thesis using skip eq by (simp only: if_True)
  next
    case 2
    then show thesis using merge [of "cur\<lparr>vs_end_sample := max (vs_end_sample cur) ?ne\<rparr>"] eq by (simp only: if_True if_False) simp
  next
    case 3
    then show thesis using new [of "\<lparr>vs_start_sample = ?ns, vs_end_sample = ?ne\<rparr>", OF _ _ refl] eq
      by (simp only: if_False) simp
  qed
qed

lemma coalesce_loop_covers:
  assumes "sorted (map vs_start_sample rest)" and "\<forall>r \<in> set rest. vs_start_sample cur \<le> vs_start_sample r"
    and "vs_start_sample cur \<le> total_samples" and "x < total_samples"
    and "covered (out @ cur # rest) x"
  shows "covered (coalesce_loop target min_chunk gap_bridge total_samples cur out rest) x"
  using assms
proof (induction rest arbitrary: cur out)
  case Nil
  then show ?case by auto
next
  case (Cons n rest)
  note srt = Cons.prems(1) [simplified] and cur = Cons.prems(2) [simplified] and x = Cons.prems(4)
  show ?case
  proof (cases rule: coalesce_loop_cases [of n total_samples target min_chunk gap_bridge cur out rest])
    case skip
    have "covered (out @ cur # rest) x" using Cons.prems(5) skip(1) x by (auto simp: min_def split: if_splits)
    then show ?thesis using Cons.IH [of cur out] Cons.prems srt cur skip(2) by simp
  next
    case (merge cur')
    have "covered (out @ cur' # rest) x" using Cons.prems(5) merge(1,2) x cur by (auto simp: less_max_iff_disj)
    then show ?thesis using Cons.IH [of cur' out] Cons.prems(3,4) srt cur merge by simp
  next
    case (new cur' out')
    have "covered (out' @ cur' # rest) x" using Cons.prems(5) new(1-3) x by (auto simp: min_le_iff_disj)
    moreover have "\<forall>r \<in> set rest. vs_start_sample cur' \<le> vs_start_sample r" using srt new(1) by (auto simp: min_le_iff_disj)
    ultimately show ?thesis using Cons.IH [of cur' out'] Cons.prems(4) srt new(1,4) by simp
  qed
qed

lemma coalesce_loop_ok:
  assumes "vs_end_sample cur \<le> total_samples" and "\<forall>r \<in> set out. region_ok total_samples r"
  shows "\<forall>r \<in> set (coalesce_loop target min_chunk gap_bridge total_samples cur out rest). region_ok total_samples r"
  using assms
proof (induction rest arbitrary: cur out)
  case Nil
  then show ?case by (simp add: region_ok_def)
next
  case (Cons n rest)
  show ?case
  proof (cases rule: coalesce_loop_cases [of n total_samples target min_chunk gap_bridge cur out rest])
    case skip
    then show ?thesis using Cons.IH [of cur out] Cons.prems by simp
  next
    case (merge cur')
    then show ?thesis using Cons.IH [of cur' out] Cons.prems by simp
  next
    case (new cur' out')
    have "\<forall>r \<in> set out'. region_ok total_samples r" using Cons.prems new(3) by (simp add: region_ok_def)
    then show ?thesis using Cons.IH [of cur' out'] new(2,4) by simp
  qed
qed

lemma coalesce_loop_sorted:
  assumes "sorted (map vs_start_sample (out @ [cur]))" and "sorted (map vs_start_sample rest)"
    and "\<forall>r \<in> set rest. vs_start_sample cur \<le> min (vs_start_sample r) total_samples"
  shows "sorted (map vs_start_sample (coalesce_loop target min_chunk gap_bridge total_samples cur out rest))"
  using assms
proof (induction rest arbitrary: cur out)
  case Nil
  then show ?case by (simp add: sorted_append)
next
  case (Cons n rest)
  show ?case
  proof (cases rule: coalesce_loop_cases [of n total_samples target min_chunk gap_bridge cur out rest])
    case skip
    then show ?thesis using Cons.IH [of out cur] Cons.prems by simp
  next
    case (merge cur')
    then show ?thesis using Cons.IH [of out cur'] Cons.prems by (simp add: sorted_append)
  next
    case (new cur' out')
    have "sorted (map vs_start_sample (out' @ [cur']))" using Cons.prems(1,3) new(1,3) by (auto simp: sorted_append)
    moreover have "\<forall>r \<in> set rest. vs_start_sample cur' \<le> min (vs_start_sample r) total_samples"
      using Cons.prems(2) new(1) by (auto simp: min_le_iff_disj)
    ultimately show ?thesis using Cons.IH [of out' cur'] Cons.prems(2) new(4) by simp
  qed
qed

lemma coalesce_sorted: "sorted (map vs_start_sample (coalesce_vad_slices input target min_chunk gap_bridge total_samples))"
proof (cases "sort_key vs_start_sample input")
  case Nil
  then show ?thesis by (simp add: coalesce_vad_slices_def)
next
  case (Cons first rest)
  have "sorted (map vs_start_sample (first # rest))" unfolding Cons [symmetric] by simp
  then show ?thesis
    unfolding coalesce_vad_slices_def Cons list.case by (intro coalesce_loop_sorted) (auto simp: min_le_iff_disj)
qed

lemma coalesce_covers:
  assumes "x < total_samples" and "covered input x"
  shows "covered (coalesce_vad_slices input target min_chunk gap_bridge total_samples) x"
proof (cases "sort_key vs_start_sample input")
  case Nil
  then have "input = []" by (metis length_0_conv length_sort)
  then show ?thesis using assms by simp
next
  case (Cons first rest)
  have "sorted (map vs_start_sample (first # rest))" unfolding Cons [symmetric] by simp
  moreover have "covered (first # rest) x"
    using assms(2) unfolding Cons [symmetric] covered_def by simp
  ultimately show ?thesis
    unfolding coalesce_vad_slices_def Cons list.case
    using assms(1) by (intro coalesce_loop_covers) auto
qed

lemma coalesce_ok:
  "\<forall>r \<in> set (coalesce_vad_slices input target min_chunk gap_bridge total_samples). region_ok total_samples r"
  unfolding coalesce_vad_slices_def
  by (cases "sort_key vs_start_sample input") (simp_all only: list.case, simp, rule coalesce_loop_ok, simp_all)


section \<open>Speech-driven and energy slices\<close>

text \<open>
  A well-formed list of slices: numbered from zero, each a non-empty window inside the recording
  that is no longer than the executor window and equal to its content.
\<close>

definition slice_ok :: "nat \<Rightarrow> nat \<Rightarrow> audio_slice \<Rightarrow> bool" where
  "slice_ok m total_samples s \<longleftrightarrow> as_start_sample s < as_end_sample s \<and> as_end_sample s \<le> total_samples
     \<and> as_end_sample s - as_start_sample s \<le> m
     \<and> as_content_start_sample s = as_start_sample s \<and> as_content_end_sample s = as_end_sample s"

definition slices_ok :: "nat \<Rightarrow> nat \<Rightarrow> audio_slice list \<Rightarrow> bool" where
  "slices_ok m total_samples slices \<longleftrightarrow> map as_index slices = [0..<length slices] \<and> list_all (slice_ok m total_samples) slices"

definition slices_cover :: "audio_slice list \<Rightarrow> nat \<Rightarrow> bool" where
  "slices_cover slices x \<longleftrightarrow> (\<exists>s \<in> set slices. as_start_sample s \<le> x \<and> x < as_end_sample s)"

lemma slices_cover_append [simp]: "slices_cover (ss @ ts) x \<longleftrightarrow> slices_cover ss x \<or> slices_cover ts x"
  by (auto simp: slices_cover_def)

lemma index_numbered: "map as_index (numbered kind k ws) = [k..<k + length ws]"
  by (induction ws arbitrary: k) (auto simp: upt_conv_Cons simp del: upt_Suc)

lemma slices_ok_Nil: "slices_ok m total_samples []"
  by (simp add: slices_ok_def)

lemma slices_ok_append:
  assumes "slices_ok m total_samples slices" and "tiling m s e ws" and "e \<le> total_samples"
  shows "slices_ok m total_samples (slices @ numbered kind (length slices) ws)"
proof -
  have "slice_ok m total_samples t" if t: "t \<in> set (numbered kind (length slices) ws)" for t
  proof -
    obtain i a b where "(a, b) \<in> set ws" "t = content_slice kind i a b" using set_numbered [OF t] by blast
    then show ?thesis using tiling_windows [OF assms(2), of a b] assms(3) by (auto simp: slice_ok_def)
  qed
  then show ?thesis
    using assms(1) upt_add_eq_append [of 0 "length slices" "length ws"]
    by (simp add: slices_ok_def index_numbered list_all_iff ball_Un)
qed

lemma numbered_cover:
  assumes "tiling m s e ws" and "s \<le> x" and "x < e"
  shows "slices_cover (numbered kind k ws) x"
proof -
  obtain a b where ab: "(a, b) \<in> set ws" "a \<le> x" "x < b" using tiling_covers [OF assms] by auto
  then obtain i where "content_slice kind i a b \<in> set (numbered kind k ws)" using numbered_ex by blast
  then show ?thesis using ab unfolding slices_cover_def by (metis content_slice_simps(1,2))
qed

text \<open>
  What the loops need beyond \<open>longform_options_validate\<close>, which compares seconds and not samples: the
  executor window, the chunk and the minimum chunk are at least one sample at this rate, and positions
  up to \<open>limit\<close> can be moved by any of them without overflow.
\<close>

definition loop_ready :: "'a longform_arith \<Rightarrow> longform_options \<Rightarrow> nat \<Rightarrow> nat \<Rightarrow> nat \<Rightarrow> bool" where
  "loop_ready fa opts rate m limit \<longleftrightarrow> max_chunk_samples fa opts rate = Some m \<and> 0 < m
     \<and> 0 < la_seconds_to_samples fa (lf_chunk_seconds opts) rate
     \<and> 0 < la_seconds_to_samples fa (lf_min_chunk_seconds opts) rate
     \<and> sums_fit limit m (la_seconds_to_samples fa (lf_chunk_seconds opts) rate)
         (la_seconds_to_samples fa (lf_min_chunk_seconds opts) rate)"

lemma loop_ready_mono: "loop_ready fa opts rate m limit \<Longrightarrow> limit' \<le> limit \<Longrightarrow> loop_ready fa opts rate m limit'"
  by (auto simp: loop_ready_def sums_fit_def)

lemma loop_ready_padding [simp]: "loop_ready fa (opts\<lparr>lf_padding_seconds := p\<rparr>) rate m limit = loop_ready fa opts rate m limit"
  by (simp add: loop_ready_def max_chunk_samples_def)

lemma extend_vad_tiles:
  assumes "loop_ready fa opts rate m e" and "s < e"
  shows "\<exists>ws. extend_vad_slices_for_span fa slices samples s e rate opts = Some (slices @ numbered SliceVad (length slices) ws)
    \<and> tiling m s e ws"
proof -
  have m: "max_chunk_samples fa opts rate = Some m" "0 < m" "max m 1 = m"
      "0 < la_seconds_to_samples fa (lf_min_chunk_seconds opts) rate"
      "max (la_seconds_to_samples fa (lf_chunk_seconds opts) rate) 1 = la_seconds_to_samples fa (lf_chunk_seconds opts) rate"
      "0 < la_seconds_to_samples fa (lf_chunk_seconds opts) rate"
      "sums_fit e m (la_seconds_to_samples fa (lf_chunk_seconds opts) rate) (la_seconds_to_samples fa (lf_min_chunk_seconds opts) rate)"
    using assms(1) by (simp_all add: loop_ready_def)
  have "\<not> e \<le> s" using assms(2) by simp
  then show ?thesis
    unfolding extend_vad_slices_for_span_def m(1) option.case Let_def m(3,5)
    by (simp only: if_False) (rule vad_loop_tiles [OF m(2,4,6) assms(2) m(7)])
qed

lemma extend_spans_covers:
  assumes "loop_ready fa opts rate m (length samples)" and "\<forall>r \<in> set regions. region_ok (length samples) r"
    and "slices_ok m (length samples) slices"
  shows "\<exists>out. extend_spans fa samples rate opts slices regions = Some out \<and> slices_ok m (length samples) out
    \<and> (\<forall>x. slices_cover out x \<longleftrightarrow> slices_cover slices x \<or> covered regions x)"
  using assms(2,3)
proof (induction regions arbitrary: slices)
  case (Cons r regions)
  then have r: "vs_start_sample r < vs_end_sample r" "vs_end_sample r \<le> length samples" by (simp_all add: region_ok_def)
  obtain ws where ws: "extend_vad_slices_for_span fa slices samples (vs_start_sample r) (vs_end_sample r) rate opts
        = Some (slices @ numbered SliceVad (length slices) ws)" "tiling m (vs_start_sample r) (vs_end_sample r) ws"
    using extend_vad_tiles [OF loop_ready_mono [OF assms(1) r(2)] r(1)] by blast
  let ?new = "slices @ numbered SliceVad (length slices) ws"
  have ok: "slices_ok m (length samples) ?new" using slices_ok_append [OF Cons.prems(2) ws(2) r(2)] .
  have cov: "slices_cover (numbered SliceVad (length slices) ws) x \<longleftrightarrow> vs_start_sample r \<le> x \<and> x < vs_end_sample r" for x
    using numbered_cover [OF ws(2)] tiling_windows [OF ws(2)] set_numbered
    by (fastforce simp: slices_cover_def)
  obtain out where "extend_spans fa samples rate opts ?new regions = Some out" "slices_ok m (length samples) out"
      "\<forall>x. slices_cover out x \<longleftrightarrow> slices_cover ?new x \<or> covered regions x"
    using Cons.IH [of ?new] Cons.prems(1) ok by auto
  then show ?case using r ws(1) cov by (intro exI [of _ out]) (simp add: min_absorb1)
qed (simp add: slices_cover_def)


section \<open>Padding\<close>

lemma pad_slice_bounds:
  assumes "as_content_start_sample s \<le> as_content_end_sample s" and "as_content_end_sample s \<le> total_samples"
    and "content_duration_samples s \<le> m" and "total_samples + m < u64_limit"
  shows "as_start_sample (pad_slice total_samples pad m s) \<le> as_content_start_sample s"
    and "as_content_end_sample s \<le> as_end_sample (pad_slice total_samples pad m s)"
    and "as_end_sample (pad_slice total_samples pad m s) \<le> total_samples"
    and "duration_samples (pad_slice total_samples pad m s) \<le> m"
proof -
  define side where "side = min pad ((m - content_duration_samples s) div 2)"
  have p: "as_start_sample (pad_slice total_samples pad m s) = as_content_start_sample s - side"
      "as_end_sample (pad_slice total_samples pad m s) = min (u64_add (as_content_end_sample s) side) total_samples"
    by (simp_all add: pad_slice_def side_def content_duration_samples_def Let_def)
  have side: "2 * side \<le> m - content_duration_samples s" unfolding side_def by linarith
  then have "u64_add (as_content_end_sample s) side = as_content_end_sample s + side" using assms by (intro u64_add_small) linarith
  note p = p [unfolded this]
  have "content_duration_samples s = as_content_end_sample s - as_content_start_sample s"
    by (simp add: content_duration_samples_def)
  with side show "as_start_sample (pad_slice total_samples pad m s) \<le> as_content_start_sample s"
      "as_content_end_sample s \<le> as_end_sample (pad_slice total_samples pad m s)"
      "as_end_sample (pad_slice total_samples pad m s) \<le> total_samples"
      "duration_samples (pad_slice total_samples pad m s) \<le> m"
    using assms unfolding p duration_samples_def by linarith+
qed

lemma pad_slice_content [simp]:
  "as_content_start_sample (pad_slice total_samples pad m s) = as_content_start_sample s"
  "as_content_end_sample (pad_slice total_samples pad m s) = as_content_end_sample s"
  "as_index (pad_slice total_samples pad m s) = as_index s"
  "as_kind (pad_slice total_samples pad m s) = as_kind s"
  "content_window (pad_slice total_samples pad m s) = content_window s"
  by (simp_all add: pad_slice_def Let_def content_window_def)

section \<open>Slice heads\<close>

lemma span_coverage_step_first:
  assumes "case span_coverage_step a b r acc of None \<Rightarrow> True | Some (f', l') \<Rightarrow> f \<le> f'"
  shows "(a < vs_end_sample r \<and> vs_start_sample r < b \<longrightarrow> f \<le> max (vs_start_sample r) a)
    \<and> (case acc of None \<Rightarrow> True | Some (f', l') \<Rightarrow> f \<le> f')"
  using assms by (auto simp: span_coverage_step_def Let_def split: if_splits option.splits)

lemma span_coverage_fold:
  "fold (span_coverage_step a b) regions acc = Some (f, l) \<Longrightarrow>
   (\<forall>r \<in> set regions. a < vs_end_sample r \<and> vs_start_sample r < b \<longrightarrow> f \<le> max (vs_start_sample r) a)
   \<and> (case acc of None \<Rightarrow> True | Some (f', l') \<Rightarrow> f \<le> f')"
proof (induction regions arbitrary: acc)
  case (Cons r regions)
  note ih = Cons.IH [of "span_coverage_step a b r acc"]
  have "fold (span_coverage_step a b) regions (span_coverage_step a b r acc) = Some (f, l)"
    using Cons.prems by simp
  then show ?case using ih span_coverage_step_first [where a = a and b = b and r = r and acc = acc and f = f] by simp
qed simp

lemma span_overlap_cut_head:
  assumes "a \<le> a'" and "a < vs_end_sample r \<and> vs_start_sample r < b \<longrightarrow> a' \<le> max (vs_start_sample r) a"
  shows "span_overlap a' b r = span_overlap a b r"
  using assms by (auto simp: span_overlap_def Let_def max_def min_def split: if_splits)


lemma reanchor_slice_cases:
  obtains (keep) "reanchor_slice regions min_prefix tail_tolerance lead min_window s = (s, False)"
  | (moved) f l where "span_coverage_within regions (as_start_sample s) (as_end_sample s) = Some (f, l)"
      and "reanchor_slice regions min_prefix tail_tolerance lead min_window s
        = (s\<lparr>as_start_sample := f - lead, as_content_start_sample := f - lead\<rparr>, True)"
      and "as_start_sample s < f - lead" and "min_window \<le> as_end_sample s - (f - lead)"
proof (cases "span_coverage_within regions (as_start_sample s) (as_end_sample s)")
  case None
  then show thesis using keep by (simp add: reanchor_slice_def)
next
  case (Some fl)
  then obtain f l where fl: "span_coverage_within regions (as_start_sample s) (as_end_sample s) = Some (f, l)" by (cases fl) simp
  show thesis
  proof (cases "f - as_start_sample s < min_prefix \<or> tail_tolerance < as_end_sample s - l
      \<or> f - lead \<le> as_start_sample s \<or> as_end_sample s - (f - lead) < min_window")
    case True
    then show thesis using keep fl by (auto simp: reanchor_slice_def Let_def)
  next
    case False
    have "reanchor_slice regions min_prefix tail_tolerance lead min_window s
        = (s\<lparr>as_start_sample := f - lead, as_content_start_sample := f - lead\<rparr>, True)"
      unfolding reanchor_slice_def fl option.case prod.case Let_def
      using False by (simp only: if_False simp_thms de_Morgan_disj)
    then show thesis by (rule moved [OF fl]) (use False in linarith)+
  qed
qed

lemma reanchor_slice_overlap:
  assumes "region \<in> set regions"
  shows "span_overlap (as_start_sample (fst (reanchor_slice regions p t lead w s))) (as_end_sample s) region
    = span_overlap (as_start_sample s) (as_end_sample s) region"
proof (cases rule: reanchor_slice_cases [of regions p t lead w s])
  case (moved f l)
  have "as_start_sample s < vs_end_sample region \<and> vs_start_sample region < as_end_sample s
      \<longrightarrow> f \<le> max (vs_start_sample region) (as_start_sample s)"
    using span_coverage_fold [OF moved(1) [unfolded span_coverage_within_def]] assms by blast
  then have "as_start_sample s < vs_end_sample region \<and> vs_start_sample region < as_end_sample s
      \<longrightarrow> f - lead \<le> max (vs_start_sample region) (as_start_sample s)" by linarith
  then show ?thesis using span_overlap_cut_head [of "as_start_sample s" "f - lead" region "as_end_sample s"] moved(2,3) by simp
qed simp

definition slice_after_reanchor :: "nat \<Rightarrow> longform_vad_slice list \<Rightarrow> audio_slice \<Rightarrow> audio_slice \<Rightarrow> bool" where
  "slice_after_reanchor min_window regions s t \<longleftrightarrow>
     as_index t = as_index s \<and> as_kind t = as_kind s \<and> as_end_sample t = as_end_sample s
     \<and> as_content_end_sample t = as_content_end_sample s
     \<and> (t = s \<or> as_start_sample s < as_start_sample t \<and> as_content_start_sample t = as_start_sample t
          \<and> min_window \<le> duration_samples t)
     \<and> vad_speech_spans_overlap_samples (Some regions) t = vad_speech_spans_overlap_samples (Some regions) s"

lemma reanchor_slice_ok: "slice_after_reanchor w regions s (fst (reanchor_slice regions p tol lead w s))"
proof -
  let ?t = "fst (reanchor_slice regions p tol lead w s)"
  have e: "as_end_sample ?t = as_end_sample s"
    by (cases rule: reanchor_slice_cases [of regions p tol lead w s]) simp_all
  have "vad_speech_spans_overlap_samples (Some regions) ?t = vad_speech_spans_overlap_samples (Some regions) s"
    unfolding vad_speech_spans_overlap_samples_def option.case e
    using reanchor_slice_overlap [of _ regions p tol lead w s] by (auto intro!: fold_cong)
  then show ?thesis
    unfolding slice_after_reanchor_def
    by (cases rule: reanchor_slice_cases [of regions p tol lead w s]) (simp_all add: duration_samples_def)
qed

text \<open>
  Re-anchoring the slice heads only moves starts forward: every slice keeps its number, kind and
  end, a moved slice keeps at least the minimum window, and the decode gate sees the same amount of
  speech in it as before. The returned count is the number of slices that moved.
\<close>

theorem reanchor_keeps_speech:
  "list_all2 (slice_after_reanchor (la_seconds_to_samples fa (F_Num 1) rate) regions) slices
     (snd (reanchor_energy_auto_slice_heads fa slices regions rate))
   \<and> fst (reanchor_energy_auto_slice_heads fa slices regions rate)
     = length (filter (\<lambda>(s, t). s \<noteq> t) (zip slices (snd (reanchor_energy_auto_slice_heads fa slices regions rate))))"
proof -
  let ?r = "reanchor_slice regions (la_seconds_to_samples fa (F_Num 2) rate) (la_seconds_to_samples fa (F_Num 1) rate)
    (la_seconds_to_samples fa (F_Num (5 / 2)) rate) (la_seconds_to_samples fa (F_Num 1) rate)"
  have moved: "snd (?r s) \<longleftrightarrow> s \<noteq> fst (?r s)" for s
  proof (cases rule: reanchor_slice_cases [of regions "la_seconds_to_samples fa (F_Num 2) rate"
        "la_seconds_to_samples fa (F_Num 1) rate" "la_seconds_to_samples fa (F_Num (5 / 2)) rate" "la_seconds_to_samples fa (F_Num 1) rate" s])
    case (moved f l)
    then have "as_start_sample (fst (?r s)) \<noteq> as_start_sample s" by simp
    then have "s \<noteq> fst (?r s)" by metis
    then show ?thesis using moved(2) by (metis snd_conv)
  qed simp
  have eq: "reanchor_energy_auto_slice_heads fa slices regions rate
      = (length (filter (\<lambda>s. snd (?r s)) slices), map (\<lambda>s. fst (?r s)) slices)"
    by (simp add: reanchor_energy_auto_slice_heads_def Let_def filter_map comp_def)
  have "length (filter (\<lambda>s. snd (?r s)) slices) = length (filter (\<lambda>(s, t). s \<noteq> t) (zip slices (map (\<lambda>s. fst (?r s)) slices)))"
    using moved by (induction slices) simp_all
  then show ?thesis unfolding eq by (simp add: list_all2_conv_all_nth reanchor_slice_ok)
qed


section \<open>The planners\<close>

text \<open>
  An instance of the floating-point parameters in exact arithmetic, to evaluate the planners on:
  seconds are rounded half up, the level of a frame is its peak, and \<open>la_to_bits\<close> knows the default
  maximum of 60 seconds.
\<close>

fun exact_seconds_to_samples :: "f32 \<Rightarrow> nat \<Rightarrow> nat" where
  "exact_seconds_to_samples (F_Num x) rate = nat \<lfloor>max x 0 * of_nat rate + 1 / 2\<rfloor>"
| "exact_seconds_to_samples _ rate = 0"

definition exact_arith :: "rat longform_arith" where
  "exact_arith = \<lparr>la_to_bits = (\<lambda>_. 1114636288), la_seconds_to_samples = exact_seconds_to_samples,
     la_rms = (\<lambda>xs. F_Num (foldr max (map abs xs) 0)), la_db_to_linear = (\<lambda>_. F_Num (1 / 80)),
     la_coalesce_gap_seconds = (\<lambda>_. F_Num 3),
     la_original_of = (\<lambda>anchors rate p. p), la_energy_gate = (\<lambda>_ _. F_Num (1 / 80)),
     la_speech_threshold = (\<lambda>_ _. (F_Num (1 / 8), F_Num (1 / 80))), la_scale_round = (\<lambda>_ _. 0),
     la_excess_round = (\<lambda>_ _ _. 0), la_edge_round = (\<lambda>_ _ _ _. 0)\<rparr>"

lemma exact_arith_ready: "n \<le> 90 \<Longrightarrow> loop_ready exact_arith longform_options_default 1 60 n"
proof -
  assume n: "n \<le> 90"
  have f: "\<lfloor>61 / 2 :: rat\<rfloor> = 30" "\<lfloor>3 / 2 :: rat\<rfloor> = 1" by (rule floor_unique, simp_all)+
  have b: "sign_bit 1114636288 = 0" "exponent_bits 1114636288 = 132" "fraction_bits 1114636288 = 7340032"
    by (simp_all add: sign_bit_def exponent_bits_def fraction_bits_def)
  have "executor_window_limit_samples 1114636288 1 = Inr 60"
    by (simp add: executor_window_limit_samples_def b Let_def)
  then show ?thesis
    using n by (simp add: loop_ready_def sums_fit_def max_chunk_samples_def executor_window_limit_samples_checked_def exact_arith_def
        longform_options_default_def f)
qed

lemma plan_fixed_slices_tiles:
  assumes "loop_ready fa opts rate m total_samples" and "0 < total_samples"
  shows "\<exists>slices. plan_fixed_slices fa total_samples rate opts = Some slices
    \<and> tiling m 0 total_samples (map content_window slices)"
proof -
  have m: "max_chunk_samples fa opts rate = Some m" "0 < m" "max m 1 = m"
      "0 < la_seconds_to_samples fa (lf_chunk_seconds opts) rate"
      "sums_fit total_samples m (la_seconds_to_samples fa (lf_chunk_seconds opts) rate) (la_seconds_to_samples fa (lf_min_chunk_seconds opts) rate)"
    using assms(1) by (simp_all add: loop_ready_def)
  show ?thesis
    unfolding plan_fixed_slices_def m(1) option.case m(3)
    using fixed_loop_tiles [OF m(4,2) assms(2) _ m(5), where slices = "[]"] by simp
qed

text \<open>
  Fixed slicing tiles the recording: for a non-empty recording the planner returns slices whose
  contents start at the first sample and end at the last one, leave no gap, make progress, and
  are never longer than the executor window, also when a short tail is merged into the slice before.
\<close>

theorem fixed_slices_tile_recording:
  assumes "loop_ready fa opts rate m total_samples" and "0 < total_samples"
  shows "\<exists>slices. plan_fixed_slices fa total_samples rate opts = Some slices
    \<and> tiling m 0 total_samples (map content_window slices)"
  using assms by (rule plan_fixed_slices_tiles)

theorem fixed_slices_tile_recording_witness:
  "\<exists>slices. plan_fixed_slices exact_arith 90 1 longform_options_default = Some slices
    \<and> tiling 60 0 90 (map content_window slices)"
  using fixed_slices_tile_recording [OF exact_arith_ready, of 90] by simp

lemma plan_energy_slices_tiles:
  assumes "loop_ready fa opts rate m (length samples)" and "samples \<noteq> []"
  shows "\<exists>ws. plan_energy_slices fa samples rate opts = Some (numbered SliceEnergy 0 ws) \<and> tiling m 0 (length samples) ws"
proof -
  have m: "max_chunk_samples fa opts rate = Some m" "0 < m"
      "0 < la_seconds_to_samples fa (lf_chunk_seconds opts) rate"
      "0 < la_seconds_to_samples fa (lf_min_chunk_seconds opts) rate"
      "sums_fit (length samples) m (la_seconds_to_samples fa (lf_chunk_seconds opts) rate) (la_seconds_to_samples fa (lf_min_chunk_seconds opts) rate)"
    using assms(1) by (simp_all add: loop_ready_def)
  have "0 < length samples" using assms(2) by simp
  then show ?thesis
    unfolding plan_energy_slices_def plan_energy_slices_contiguous_def extend_energy_slices_for_span_def m(1) option.case Let_def
    using energy_loop_tiles [OF m(2,4,3) _ m(5), of 0 fa samples _ _ _ _ "[]"] by simp
qed

text \<open>
  C20. Energy slicing tiles the recording. For a non-empty recording and options that are
  \<open>loop_ready\<close> for it (the executor window exists, it, the chunk and the minimum chunk are each at
  least one sample at this rate, and adding any of them to a position of the recording does not
  overflow \<open>usize\<close>; validation of the options alone does not give this), whatever the levels of the
  frames are, the loop ends and its slices, numbered from zero, cover every sample without a gap,
  make progress, and are never longer than the executor window.
\<close>

theorem energy_slices_tile_recording:
  assumes "loop_ready fa opts rate m (length samples)" and "samples \<noteq> []"
  shows "\<exists>ws. plan_energy_slices fa samples rate opts = Some (numbered SliceEnergy 0 ws) \<and> tiling m 0 (length samples) ws"
  using assms by (rule plan_energy_slices_tiles)

theorem energy_slices_tile_recording_witness:
  "\<exists>ws. plan_energy_slices exact_arith (replicate 90 0) 1 longform_options_default = Some (numbered SliceEnergy 0 ws)
    \<and> tiling 60 0 90 ws"
  using energy_slices_tile_recording [OF exact_arith_ready, of "replicate 90 0"] by simp

text \<open>
  Where the minimum chunk rounds to no sample at all, a window of one sample is cut at its own start
  and the loop comes back to where it was.
\<close>

definition at_stuck_start ::
  "'a longform_arith \<Rightarrow> 'a list \<Rightarrow> nat \<Rightarrow> nat \<Rightarrow> nat \<Rightarrow> nat \<Rightarrow> nat \<Rightarrow> f32 \<Rightarrow> nat \<Rightarrow> bool" where
  "at_stuck_start fa samples limit chunk m min_chunk search threshold start \<longleftrightarrow>
     (\<forall>x. f32_lt (la_rms fa [x]) F_PosInf) \<and> 1 < limit \<and> limit \<le> length samples \<and> 0 < search \<and> search + 1 < u64_limit
     \<and> chunk = 1 \<and> m = 1 \<and> min_chunk = 0 \<and> start = 0"

lemma stuck_cut:
  assumes "at_stuck_start fa samples limit chunk m min_chunk search threshold start"
  shows "fst (choose_energy_split fa samples 1 1 0 search threshold) = 0"
proof -
  have frame: "frame_right samples 0 1 = 1" "frame_rms fa samples 0 1 = la_rms fa [samples ! 0]"
    using assms by (cases samples; simp add: frame_right_def frame_rms_def at_stuck_start_def)+
  have "lowest_energy_split_with_rms fa samples 0 1 = Some (0, la_rms fa [samples ! 0])"
    using assms unfolding lowest_energy_split_with_rms_def at_stuck_start_def
    by (simp add: lowest_energy_loop.simps [of fa samples 1 0] lowest_energy_loop.simps [of fa samples 1 1] frame Let_def del: One_nat_def)
  moreover have "min (u64_add 1 search) 1 = 1" "max (1 - search) 0 = 0"
    using assms by (simp_all add: at_stuck_start_def u64_add_small)
  ultimately show ?thesis by (simp add: choose_energy_split_def clamp_cut_def Let_def del: One_nat_def)
qed

lemma energy_loop_stuck:
  assumes ret: "energy_loop fa samples limit chunk m overlap forced_overlap min_chunk search threshold start slices = Some out"
  shows "\<not> at_stuck_start fa samples limit chunk m min_chunk search threshold start"
proof (rule energy_loop.raw_induct [where P = "\<lambda>fa samples limit chunk m overlap forced_overlap min_chunk search threshold start slices out.
    \<not> at_stuck_start fa samples limit chunk m min_chunk search threshold start", OF _ ret], rule notI, goal_cases)
  case (1 f fa samples limit chunk m overlap forced_overlap min_chunk search threshold start slices out)
  note at = 1(3) [unfolded at_stuck_start_def]
  have "u64_add 0 1 = 1" "u64_add 0 0 = 0" by (simp_all add: u64_add_def)
  then have "f fa samples limit 1 1 overlap forced_overlap 0 search threshold 0
      (slices @ [content_slice SliceEnergy (length slices) 0 0]) = Some out"
    using 1(2) at stuck_cut [OF 1(3)] by (simp add: Let_def min_def del: One_nat_def)
  then show False using 1(1) at unfolding at_stuck_start_def by blast
qed

text \<open>
  C21. Validation does not make planning end: options it accepts can make energy planning run forever.
  If the chunk and the executor window are one sample, the minimum chunk rounds to none at the
  rate of the recording and the search window is a sample or more (and does not overflow), then on every recording of two or more samples with finite levels the
  planner cuts the first window at its own start, appends an empty slice and is back where it was.
\<close>

theorem energy_planning_can_hang:
  assumes "longform_options_validate opts = Inr ()" and "max_chunk_samples fa opts rate = Some 1"
    and "la_seconds_to_samples fa (lf_chunk_seconds opts) rate = 1" and "la_seconds_to_samples fa (lf_min_chunk_seconds opts) rate = 0"
    and "0 < la_seconds_to_samples fa (lf_energy_split_search_seconds opts) rate"
    and "la_seconds_to_samples fa (lf_energy_split_search_seconds opts) rate + 1 < u64_limit"
    and "\<forall>x. f32_lt (la_rms fa [x]) F_PosInf" and "1 < length samples"
  shows "plan_energy_slices fa samples rate opts = None"
proof (rule ccontr)
  assume "plan_energy_slices fa samples rate opts \<noteq> None"
  then obtain out where "plan_energy_slices fa samples rate opts = Some out" by blast
  then have "\<not> at_stuck_start fa samples (length samples) 1 1 0 (la_seconds_to_samples fa (lf_energy_split_search_seconds opts) rate)
      (la_db_to_linear fa (lf_energy_silence_threshold_db opts)) 0"
    using assms by (auto simp: plan_energy_slices_def plan_energy_slices_contiguous_def extend_energy_slices_for_span_def
        Let_def dest!: energy_loop_stuck split: if_splits)
  then show False using assms by (simp add: at_stuck_start_def)
qed

text \<open>Chunk and window of 50 microseconds, a minimum of 10: 0.8 and 0.16 samples at 16 kHz.\<close>

definition tiny_options :: longform_options where
  "tiny_options = longform_options_default\<lparr>lf_chunk_seconds := F_Num (1 / 20000), lf_max_chunk_seconds := F_Num (1 / 20000),
     lf_min_chunk_seconds := F_Num (1 / 100000), lf_overlap_seconds := F_Num 0, lf_energy_split_search_seconds := F_Num (1 / 10000)\<rparr>"

theorem energy_planning_can_hang_witness:
  "longform_options_validate tiny_options = Inr ()
   \<and> plan_energy_slices (exact_arith\<lparr>la_to_bits := \<lambda>_. 944879383\<rparr>) [1, 2, 3] 16000 tiny_options = None"
proof -
  let ?fa = "exact_arith\<lparr>la_to_bits := \<lambda>_. 944879383\<rparr>"
  have b: "sign_bit 944879383 = 0" "exponent_bits 944879383 = 112" "fraction_bits 944879383 = 5355287"
    by (simp_all add: sign_bit_def exponent_bits_def fraction_bits_def)
  have m: "max_chunk_samples ?fa tiny_options 16000 = Some 1"
    by (simp add: max_chunk_samples_def executor_window_limit_samples_checked_def executor_window_limit_samples_def b Let_def)
  have v: "longform_options_validate tiny_options = Inr ()"
    by (simp add: longform_options_validate_def longform_options_default_def longform_vad_options_default_def tiny_options_def f32_lt_def)
  have f: "\<lfloor>13 / 10 :: rat\<rfloor> = 1" "\<lfloor>33 / 50 :: rat\<rfloor> = 0" "\<lfloor>21 / 10 :: rat\<rfloor> = 2" by (rule floor_unique, simp_all)+
  have "plan_energy_slices ?fa [1, 2, 3] 16000 tiny_options = None"
    by (rule energy_planning_can_hang [OF v m])
      (simp_all add: exact_arith_def tiny_options_def longform_options_default_def f f32_lt_def)
  then show ?thesis using v by simp
qed

lemma plan_vad_slices_covers:
  assumes "loop_ready fa opts rate m (length samples)"
  shows "\<exists>slices. plan_vad_slices_from_speech_spans fa samples rate opts regions = Some slices
    \<and> slices_ok m (length samples) slices
    \<and> (\<forall>x. x < length samples \<and> covered regions x \<longrightarrow> slices_cover slices x)"
proof -
  let ?c = "coalesce_vad_slices regions (max m 1) (max (la_seconds_to_samples fa (lf_min_chunk_seconds opts) rate) 1)
    (la_seconds_to_samples fa (la_coalesce_gap_seconds fa opts) rate) (length samples)"
  have m: "max_chunk_samples fa opts rate = Some m" using assms by (simp add: loop_ready_def)
  obtain out where "extend_spans fa samples rate opts [] ?c = Some out" "slices_ok m (length samples) out"
      "\<forall>x. slices_cover out x \<longleftrightarrow> slices_cover [] x \<or> covered ?c x"
    using extend_spans_covers [OF assms coalesce_ok, where slices = "[]"] slices_ok_Nil by blast
  then show ?thesis
    using coalesce_covers unfolding plan_vad_slices_from_speech_spans_def m option.case by blast
qed

text \<open>
  Slices planned from speech spans cover all speech: the loops end, every sample of every span
  inside the recording lies in a slice, and the slices are numbered from zero, non-empty, inside
  the recording and no longer than the executor window.
\<close>

theorem vad_slices_cover_speech:
  assumes "loop_ready fa opts rate m (length samples)"
  shows "\<exists>slices. plan_vad_slices_from_speech_spans fa samples rate opts regions = Some slices
    \<and> slices_ok m (length samples) slices
    \<and> (\<forall>x. x < length samples \<and> covered regions x \<longrightarrow> slices_cover slices x)"
  using assms by (rule plan_vad_slices_covers)

theorem vad_slices_cover_speech_witness:
  "\<exists>slices. plan_vad_slices_from_speech_spans exact_arith (replicate 90 0) 1 longform_options_default
        [\<lparr>vs_start_sample = 70, vs_end_sample = 80\<rparr>, \<lparr>vs_start_sample = 5, vs_end_sample = 9\<rparr>] = Some slices
    \<and> slices_ok 60 90 slices \<and> slices_cover slices 7 \<and> slices_cover slices 79"
  using vad_slices_cover_speech [OF exact_arith_ready, of "replicate 90 0"
      "[\<lparr>vs_start_sample = 70, vs_end_sample = 80\<rparr>, \<lparr>vs_start_sample = 5, vs_end_sample = 9\<rparr>]"]
  by auto

end
