(* ===== verification/Longform_Packing.thy ===== *)
theory Longform_Packing
  imports Longform_Plans
begin

text \<open>
  Packed layouts of long recordings (\<open>crates/openasr-core/src/longform/slicing.rs\<close>): the pauses
  between speech regions are left out, the kept regions are joined by short seams of silence, and
  the joined audio is cut into windows. The timeline from processed to original seconds is
  floating-point: its anchors are kept as pairs of sample positions and the look-up is the
  parameter \<open>original_of\<close>.
\<close>

section \<open>Kept regions\<close>

record packed_audio_plan =
  pa_spans :: "longform_vad_slice list"
  pa_seam_samples :: nat
  pa_processed_samples :: nat

primrec expand_loop :: "nat \<Rightarrow> nat \<Rightarrow> longform_vad_slice list \<Rightarrow> longform_vad_slice list \<Rightarrow> longform_vad_slice list" where
  "expand_loop total_samples pad expanded [] = expanded"
| "expand_loop total_samples pad expanded (r # rs) =
     (if vs_end_sample r \<le> vs_start_sample r then expand_loop total_samples pad expanded rs
      else let start_sample = vs_start_sample r - pad;
               end_sample = min (u64_add (vs_end_sample r) pad) total_samples
           in if expanded \<noteq> [] \<and> start_sample \<le> vs_end_sample (last expanded)
              then expand_loop total_samples pad
                     (butlast expanded @ [(last expanded)\<lparr>vs_end_sample := max (vs_end_sample (last expanded)) end_sample\<rparr>]) rs
              else expand_loop total_samples pad
                     (expanded @ [\<lparr>vs_start_sample = start_sample, vs_end_sample = end_sample\<rparr>]) rs)"

definition expand_and_merge_keep_spans :: "longform_vad_slice list \<Rightarrow> nat \<Rightarrow> nat \<Rightarrow> longform_vad_slice list" where
  "expand_and_merge_keep_spans regions total_samples pad = expand_loop total_samples pad [] regions"

section \<open>Joining the kept regions\<close>

text \<open>The anchors, the processed regions and the final cursor of the joined audio.\<close>

primrec build_loop ::
  "nat \<Rightarrow> nat \<Rightarrow> nat \<Rightarrow> nat \<Rightarrow> nat \<Rightarrow> longform_vad_slice list \<Rightarrow> (nat \<times> nat) list \<times> longform_vad_slice list \<times> nat" where
  "build_loop total_samples seam index previous_end cursor [] = ([], [], cursor)"
| "build_loop total_samples seam index previous_end cursor (r # rs) =
     (if vs_end_sample r \<le> vs_start_sample r \<or> total_samples < vs_end_sample r
      then build_loop total_samples seam (Suc index) previous_end cursor rs
      else let processed_start = (if index = 0 then cursor else u64_add cursor seam);
               head_anchors = (if index = 0 then [(0, vs_start_sample r)]
                               else [(cursor, previous_end), (processed_start, vs_start_sample r)]);
               processed_end = u64_add processed_start (vs_end_sample r - vs_start_sample r);
               (anchors, processed, final) = build_loop total_samples seam (Suc index) (vs_end_sample r) processed_end rs
           in (head_anchors @ (processed_end, vs_end_sample r) # anchors,
               \<lparr>vs_start_sample = processed_start, vs_end_sample = processed_end\<rparr> # processed, final))"

text \<open>
  \<open>padding_seconds.clamp(0.05, 0.20)\<close>; the bounds are the \<open>f32\<close> values nearest to the literals.
\<close>

definition seam_seconds :: "longform_options \<Rightarrow> f32" where
  "seam_seconds opts = f32_clamp (F_Num (13421773 / 268435456)) (F_Num (13421773 / 67108864)) (lf_padding_seconds opts)"

definition build_packed_audio_materialization_plan ::
  "longform_vad_slice list \<Rightarrow> nat \<Rightarrow> nat \<Rightarrow> (packed_audio_plan \<times> (nat \<times> nat) list \<times> longform_vad_slice list) option" where
  "build_packed_audio_materialization_plan regions total_samples seam =
     (if regions = [] then None
      else let (anchors, processed, cursor) = build_loop total_samples seam 0 0 0 regions
           in if cursor = 0 then None
              else Some (\<lparr>pa_spans = regions, pa_seam_samples = seam, pa_processed_samples = cursor\<rparr>, anchors, processed))"

text \<open>Slicing outside the samples is a panic, the result \<open>None\<close>.\<close>

primrec materialize_loop :: "'a list \<Rightarrow> 'a \<Rightarrow> nat \<Rightarrow> nat \<Rightarrow> 'a list \<Rightarrow> longform_vad_slice list \<Rightarrow> 'a list option" where
  "materialize_loop samples silence seam index audio [] = Some audio"
| "materialize_loop samples silence seam index audio (r # rs) =
     (if vs_end_sample r < vs_start_sample r \<or> length samples < vs_end_sample r then None
      else materialize_loop samples silence seam (Suc index)
       ((if 0 < index then audio @ replicate seam silence else audio)
          @ take (vs_end_sample r - vs_start_sample r) (drop (vs_start_sample r) samples)) rs)"

definition materialize_packed_audio :: "'a list \<Rightarrow> 'a \<Rightarrow> packed_audio_plan \<Rightarrow> 'a list option" where
  "materialize_packed_audio samples silence plan = materialize_loop samples silence (pa_seam_samples plan) 0 [] (pa_spans plan)"

section \<open>Windows of the joined audio\<close>

definition clamp_split :: "nat \<Rightarrow> nat \<Rightarrow> nat \<Rightarrow> nat" where
  "clamp_split lo hi v = max lo (min v hi)"

lemma clamp_split_decreases: "start < limit \<Longrightarrow> limit - clamp_split (start + 1) hi v < limit - start"
  by (simp add: clamp_split_def)

definition to_original :: "int \<Rightarrow> nat \<Rightarrow> nat" where
  "to_original offset processed = nat (max (int processed + offset) 0)"

definition to_processed :: "int \<Rightarrow> nat \<Rightarrow> nat \<Rightarrow> nat" where
  "to_processed offset region_start original = nat (max (int original - offset) (int region_start))"

text \<open>\<open>clamp\<close> panics when its bounds are not in order: \<open>None\<close>.\<close>

function subdivide_loop ::
  "'a longform_arith \<Rightarrow> 'a list \<Rightarrow> nat \<Rightarrow> nat \<Rightarrow> nat \<Rightarrow> nat \<Rightarrow> f32 \<Rightarrow> int \<Rightarrow> nat \<Rightarrow> nat \<Rightarrow> nat \<Rightarrow> longform_vad_slice list option" where
  "subdivide_loop fa samples chunk max_chunk min_chunk search threshold offset region_start region_end start =
     (if start < region_end then
        (let hard_end = min (u64_add start max_chunk) region_end;
             desired = min (u64_add start chunk) region_end
         in if region_end \<le> desired
            then (let end_sample = executor_window_end start desired region_end max_chunk
                  in if end_sample \<le> start then Some []
                     else if region_end \<le> end_sample then Some [\<lparr>vs_start_sample = start, vs_end_sample = end_sample\<rparr>]
                     else map_option ((#) \<lparr>vs_start_sample = start, vs_end_sample = end_sample\<rparr>)
                            (subdivide_loop fa samples chunk max_chunk min_chunk search threshold offset region_start region_end end_sample))
            else let floor_sample = min (u64_add start min_chunk) hard_end;
                     cut = choose_forced_cut fa samples (to_original offset desired) (to_original offset hard_end)
                             (to_original offset floor_sample) search threshold;
                     split = clamp_split (start + 1) hard_end (to_processed offset region_start (fst cut))
                 in if hard_end < start + 1 then None
                    else map_option ((#) \<lparr>vs_start_sample = start, vs_end_sample = split\<rparr>)
                           (subdivide_loop fa samples chunk max_chunk min_chunk search threshold offset region_start region_end split))
      else Some [])"
  by auto
termination subdivide_loop
proof (relation "measure (\<lambda>(fa, samples, chunk, max_chunk, min_chunk, search, threshold, offset, region_start, region_end, start). region_end - start)",
    goal_cases)
  case (2 fa samples chunk max_chunk min_chunk search threshold offset region_start region_end start hard_end desired end_sample)
  then show ?case by (simp only: in_measure prod.case)
next
  case (3 fa samples chunk max_chunk min_chunk search threshold offset region_start region_end start hard_end desired floor_sample cut split)
  show ?case unfolding in_measure prod.case 3(7) by (rule clamp_split_decreases [OF 3(1)])
qed simp

declare subdivide_loop.simps [simp del]

definition subdivide_processed_spans_silence_aware ::
  "'a longform_arith \<Rightarrow> (nat \<Rightarrow> nat) \<Rightarrow> longform_vad_slice list \<Rightarrow> nat \<Rightarrow> longform_options \<Rightarrow> 'a list \<Rightarrow> longform_vad_slice list option" where
  "subdivide_processed_spans_silence_aware fa original_of regions rate opts samples =
     (case max_chunk_samples fa opts rate of
        None \<Rightarrow> None
      | Some m \<Rightarrow>
          (let chunk = max (la_seconds_to_samples fa (lf_chunk_seconds opts) rate) 1;
               max_chunk = max m 1
           in map_option concat (those (map (\<lambda>r.
                if vs_end_sample r - vs_start_sample r \<le> min chunk max_chunk then Some [r]
                else subdivide_loop fa samples chunk max_chunk (la_seconds_to_samples fa (lf_min_chunk_seconds opts) rate)
                       (la_seconds_to_samples fa (lf_energy_split_search_seconds opts) rate)
                       (la_db_to_linear fa (lf_energy_silence_threshold_db opts))
                       (int (original_of (vs_start_sample r)) - int (vs_start_sample r))
                       (vs_start_sample r) (vs_end_sample r) (vs_start_sample r)) regions))))"

primrec window_end_loop :: "nat \<Rightarrow> nat \<Rightarrow> nat \<Rightarrow> nat \<Rightarrow> nat \<Rightarrow> nat \<Rightarrow> longform_vad_slice list \<Rightarrow> nat" where
  "window_end_loop start limit hard_end desired min_chunk current_end [] =
     (if start < current_end then min current_end hard_end else hard_end)"
| "window_end_loop start limit hard_end desired min_chunk current_end (r # rs) =
     (if vs_end_sample r \<le> start then window_end_loop start limit hard_end desired min_chunk current_end rs
      else let prospective_end = min (vs_end_sample r) limit;
               current_len = current_end - start
           in if hard_end < prospective_end
              then (if start < current_end \<and> min_chunk \<le> current_len then min current_end hard_end else hard_end)
              else if desired < prospective_end \<and> min_chunk \<le> current_len then current_end
              else if hard_end \<le> prospective_end then hard_end
              else window_end_loop start limit hard_end desired min_chunk prospective_end rs)"

definition packed_window_end :: "nat \<Rightarrow> nat \<Rightarrow> nat \<Rightarrow> nat \<Rightarrow> nat \<Rightarrow> longform_vad_slice list \<Rightarrow> nat" where
  "packed_window_end start limit target max_chunk min_chunk subdivided =
     (let hard_end = min (u64_sat_add start max_chunk) limit;
          desired = min (u64_add start target) hard_end
      in window_end_loop start limit hard_end desired min_chunk start subdivided)"

function pack_loop :: "nat \<Rightarrow> nat \<Rightarrow> nat \<Rightarrow> nat \<Rightarrow> nat \<Rightarrow> longform_vad_slice list \<Rightarrow> nat \<Rightarrow> longform_vad_slice list" where
  "pack_loop limit target max_chunk min_chunk overlap subdivided start =
     (if start < limit then
        (let window_end = packed_window_end start limit target max_chunk min_chunk subdivided
         in if window_end \<le> start then []
            else let remaining = limit - window_end;
                     end_sample = (if 0 < remaining \<and> remaining < min_chunk \<and> limit - start \<le> max_chunk then limit else window_end)
                 in \<lparr>vs_start_sample = start, vs_end_sample = end_sample\<rparr>
                   # (if limit \<le> end_sample then []
                      else pack_loop limit target max_chunk min_chunk overlap subdivided
                             (advance_window_start start end_sample overlap)))
      else [])"
  by auto
termination pack_loop
proof (relation "measure (\<lambda>(limit, target, max_chunk, min_chunk, overlap, subdivided, start). limit - start)", goal_cases)
  case (2 limit target max_chunk min_chunk overlap subdivided start window_end remaining end_sample)
  then have "\<not> end_sample \<le> start" by (simp split: if_splits)
  then show ?case using 2(1) by (simp add: advance_window_start_decreases)
qed simp

declare pack_loop.simps [simp del]

definition pack_processed_spans_into_windows ::
  "'a longform_arith \<Rightarrow> (nat \<Rightarrow> nat) \<Rightarrow> longform_vad_slice list \<Rightarrow> nat \<Rightarrow> longform_options \<Rightarrow> 'a list \<Rightarrow> longform_vad_slice list option" where
  "pack_processed_spans_into_windows fa original_of regions rate opts samples =
     (if regions = [] then Some []
      else case max_chunk_samples fa opts rate of
        None \<Rightarrow> None
      | Some m \<Rightarrow>
          (case subdivide_processed_spans_silence_aware fa original_of regions rate opts samples of
             None \<Rightarrow> None
           | Some [] \<Rightarrow> Some []
           | Some (first # rest) \<Rightarrow>
               (let target = max (la_seconds_to_samples fa (lf_chunk_seconds opts) rate) 1
                in Some (pack_loop (vs_end_sample (last (first # rest))) target (max m 1)
                     (max (la_seconds_to_samples fa (lf_min_chunk_seconds opts) rate) 1)
                     (min (la_seconds_to_samples fa (lf_overlap_seconds opts) rate) (target - 1))
                     (first # rest) (vs_start_sample first)))))"


section \<open>Packed layouts\<close>

text \<open>
  The layout a planner hands on. The provenance strings of the source are left out. The timeline
  is the list of anchors in samples, empty for the identity.
\<close>

record 'a longform_planning_layout =
  pl_slices :: "audio_slice list"
  pl_processed_audio :: "'a list option"
  pl_packed_audio_plan :: "packed_audio_plan option"
  pl_timeline :: "(nat \<times> nat) list"
  pl_vad_speech_spans :: "longform_vad_slice list option"

definition number_windows :: "audio_slice_kind \<Rightarrow> longform_vad_slice list \<Rightarrow> audio_slice list" where
  "number_windows kind windows = map (\<lambda>(i, w). content_slice kind i (vs_start_sample w) (vs_end_sample w)) (enumerate 0 windows)"

definition plan_packed_layout_from_speech_spans ::
  "'a longform_arith \<Rightarrow> 'a list \<Rightarrow> nat \<Rightarrow> longform_options \<Rightarrow> audio_slice_kind \<Rightarrow> longform_vad_slice list
     \<Rightarrow> 'a longform_planning_layout option option" where
  "plan_packed_layout_from_speech_spans fa samples rate opts kind speech_spans =
     (if length speech_spans < 2 then Some None
      else case max_chunk_samples fa opts rate of
        None \<Rightarrow> None
      | Some m \<Rightarrow>
          (let keep_spans = coalesce_vad_slices speech_spans (max m 1)
                 (max (la_seconds_to_samples fa (lf_min_chunk_seconds opts) rate) 1)
                 (la_seconds_to_samples fa (la_coalesce_gap_seconds fa opts) rate) (length samples);
               padded_spans = expand_and_merge_keep_spans keep_spans (length samples)
                 (la_seconds_to_samples fa (lf_padding_seconds opts) rate)
           in case build_packed_audio_materialization_plan padded_spans (length samples)
                     (la_seconds_to_samples fa (seam_seconds opts) rate) of
                None \<Rightarrow> Some None
              | Some (processed_audio, timeline, packed_spans) \<Rightarrow>
                  (case pack_processed_spans_into_windows fa (la_original_of fa timeline rate) packed_spans rate
                          (opts\<lparr>lf_padding_seconds := F_Num 0\<rparr>) samples of
                     None \<Rightarrow> None
                   | Some windows \<Rightarrow>
                       (let slices = number_windows kind windows
                        in if slices = [] then Some None
                           else Some (Some \<lparr>pl_slices = slices, pl_processed_audio = None, pl_packed_audio_plan = Some processed_audio,
                                            pl_timeline = timeline, pl_vad_speech_spans = None\<rparr>)))))"

text \<open>
  What a recording of \<open>total_samples\<close> needs of the options: the loops are ready for every position of
  the joined audio, which is no longer than the recording and a seam per sample, and padding a
  position of the recording does not overflow.
\<close>

definition planner_ready :: "'a longform_arith \<Rightarrow> longform_options \<Rightarrow> nat \<Rightarrow> nat \<Rightarrow> nat \<Rightarrow> bool" where
  "planner_ready fa opts rate m total_samples \<longleftrightarrow>
     loop_ready fa opts rate m (total_samples * (1 + la_seconds_to_samples fa (seam_seconds opts) rate))
     \<and> total_samples + la_seconds_to_samples fa (lf_padding_seconds opts) rate < u64_limit"

lemma planner_ready_loop: "planner_ready fa opts rate m total_samples \<Longrightarrow> loop_ready fa opts rate m total_samples"
  by (auto simp: planner_ready_def elim!: loop_ready_mono)

lemma planner_ready_max: "planner_ready fa opts rate m total_samples \<Longrightarrow> max_chunk_samples fa opts rate = Some m \<and> 0 < m"
  by (simp add: planner_ready_def loop_ready_def)

section \<open>Kept regions are separated and keep all speech\<close>

definition separated :: "longform_vad_slice list \<Rightarrow> bool" where
  "separated regions \<longleftrightarrow> sorted_wrt (\<lambda>p q. vs_end_sample p < vs_start_sample q) regions"

declare expand_loop.simps(2) [simp del]

text \<open>One turn of the loop: it skips the region, widens the last one or appends a new one.\<close>

lemma expand_loop_cases:
  obtains (skip) "vs_end_sample r \<le> vs_start_sample r"
      and "expand_loop total_samples pad expanded (r # rs) = expand_loop total_samples pad expanded rs"
  | (merge) front p p' where "expanded = front @ [p]" and "vs_start_sample r < vs_end_sample r"
      and "vs_start_sample r - pad \<le> vs_end_sample p" and "vs_start_sample p' = vs_start_sample p"
      and "vs_end_sample p' = max (vs_end_sample p) (min (u64_add (vs_end_sample r) pad) total_samples)"
      and "expand_loop total_samples pad expanded (r # rs) = expand_loop total_samples pad (front @ [p']) rs"
  | (new) p' where "vs_start_sample r < vs_end_sample r"
      and "expanded \<noteq> [] \<longrightarrow> vs_end_sample (last expanded) < vs_start_sample r - pad"
      and "vs_start_sample p' = vs_start_sample r - pad" and "vs_end_sample p' = min (u64_add (vs_end_sample r) pad) total_samples"
      and "expand_loop total_samples pad expanded (r # rs) = expand_loop total_samples pad (expanded @ [p']) rs"
proof -
  note eq = expand_loop.simps(2) [of total_samples pad expanded r rs, unfolded Let_def]
  consider "vs_end_sample r \<le> vs_start_sample r"
    | "\<not> vs_end_sample r \<le> vs_start_sample r" "expanded \<noteq> [] \<and> vs_start_sample r - pad \<le> vs_end_sample (last expanded)"
    | "\<not> vs_end_sample r \<le> vs_start_sample r" "\<not> (expanded \<noteq> [] \<and> vs_start_sample r - pad \<le> vs_end_sample (last expanded))"
    by blast
  then show thesis
  proof cases
    case 1
    then show thesis using skip eq by (simp only: if_True)
  next
    case 2
    then have "expanded = butlast expanded @ [last expanded]" by simp
    then show thesis
      using merge [of "butlast expanded" "last expanded"
          "(last expanded)\<lparr>vs_end_sample := max (vs_end_sample (last expanded)) (min (u64_add (vs_end_sample r) pad) total_samples)\<rparr>"] 2 eq
      by (simp only: if_True if_False) simp
  next
    case 3
    then have "expand_loop total_samples pad expanded (r # rs) = expand_loop total_samples pad
        (expanded @ [\<lparr>vs_start_sample = vs_start_sample r - pad, vs_end_sample = min (u64_add (vs_end_sample r) pad) total_samples\<rparr>]) rs"
      by (simp only: eq if_False)
    then show thesis by (rule new [rotated 4]) (use 3 in \<open>auto simp: not_le\<close>)
  qed
qed

lemma expand_loop_ok:
  assumes "\<forall>r \<in> set regions. region_ok total_samples r" and "\<forall>r \<in> set expanded. region_ok total_samples r" and "separated expanded"
    and fit: "total_samples + pad < u64_limit"
  shows "(\<forall>r \<in> set (expand_loop total_samples pad expanded regions). region_ok total_samples r)
    \<and> separated (expand_loop total_samples pad expanded regions)"
  using assms(1-3)
proof (induction regions arbitrary: expanded)
  case (Cons r rs)
  show ?case
  proof (cases rule: expand_loop_cases [of r total_samples pad expanded rs])
    case skip
    then show ?thesis using Cons by simp
  next
    case (merge front p p')
    have "region_ok total_samples p" using merge(1) Cons.prems(2) by simp
    then have "region_ok total_samples p'" unfolding region_ok_def merge(4,5) by (simp add: less_max_iff_disj)
    then have oks: "\<forall>r \<in> set (front @ [p']). region_ok total_samples r" using Cons.prems(2) merge(1) by simp
    have sep: "separated (front @ [p'])" using Cons.prems(3) merge(1,4) by (simp add: separated_def sorted_wrt_append)
    show ?thesis unfolding merge(6) by (rule Cons.IH [OF _ oks sep]) (use Cons.prems(1) in simp)
  next
    case (new p')
    have "region_ok total_samples r" using Cons.prems(1) by simp
    moreover from this have "u64_add (vs_end_sample r) pad = vs_end_sample r + pad" using fit by (simp add: region_ok_def u64_add_small)
    ultimately have "region_ok total_samples p'" unfolding region_ok_def new(3,4) by linarith
    then have oks: "\<forall>r \<in> set (expanded @ [p']). region_ok total_samples r" using Cons.prems(2) by simp
    have sep: "separated (expanded @ [p'])"
    proof (cases expanded rule: rev_cases)
      case (snoc front p)
      have "region_ok total_samples p" using Cons.prems(2) unfolding snoc by simp
      then have p: "vs_start_sample p < vs_end_sample p" by (simp only: region_ok_def)
      have p': "vs_end_sample p < vs_start_sample p'" using new(2) unfolding new(3) snoc by simp
      have f: "\<forall>q \<in> set front. vs_end_sample q < vs_start_sample p" "sorted_wrt (\<lambda>p q. vs_end_sample p < vs_start_sample q) front"
        using Cons.prems(3) unfolding snoc separated_def sorted_wrt_append by simp_all
      have "\<forall>q \<in> set front. vs_end_sample q < vs_start_sample p'" using f(1) p p' by fastforce
      then show ?thesis using f p' unfolding snoc separated_def sorted_wrt_append by simp
    qed (simp add: separated_def)
    show ?thesis unfolding new(5) by (rule Cons.IH [OF _ oks sep]) (use Cons.prems(1) in simp)
  qed
qed simp

lemma expand_loop_covers:
  assumes "\<forall>r \<in> set regions. region_ok total_samples r" and "sorted (map vs_start_sample regions)"
    and "\<forall>r \<in> set regions. \<forall>q \<in> set expanded. vs_start_sample q \<le> vs_start_sample r - pad"
    and "covered (expanded @ regions) x" and fit: "total_samples + pad < u64_limit"
  shows "covered (expand_loop total_samples pad expanded regions) x"
  using assms(1-4)
proof (induction regions arbitrary: expanded)
  case (Cons r rs)
  note ok = Cons.prems(1) [simplified] and srt = Cons.prems(2) [simplified]
  have sum: "u64_add (vs_end_sample r) pad = vs_end_sample r + pad" using ok fit by (simp add: region_ok_def u64_add_small)
  have later: "\<forall>q \<in> set rs. vs_start_sample r - pad \<le> vs_start_sample q - pad" using srt by (simp add: diff_le_mono)
  show ?case
  proof (cases rule: expand_loop_cases [of r total_samples pad expanded rs])
    case skip
    then show ?thesis using Cons ok by (simp add: region_ok_def)
  next
    case (merge front p p')
    have "covered ((front @ [p']) @ rs) x"
      using Cons.prems(3,4) merge(1,4,5) ok by (fastforce simp: region_ok_def sum)
    moreover have "\<forall>r \<in> set rs. \<forall>q \<in> set (front @ [p']). vs_start_sample q \<le> vs_start_sample r - pad"
      using Cons.prems(3) merge(1,4) by auto
    ultimately show ?thesis using Cons.IH [of "front @ [p']"] ok srt merge(6) by simp
  next
    case (new p')
    have "covered ((expanded @ [p']) @ rs) x"
      using Cons.prems(4) new(3,4) ok by (fastforce simp: region_ok_def sum)
    moreover have "\<forall>r \<in> set rs. \<forall>q \<in> set (expanded @ [p']). vs_start_sample q \<le> vs_start_sample r - pad"
      using Cons.prems(3) new(3) later by auto
    ultimately show ?thesis using Cons.IH [of "expanded @ [p']"] ok srt new(5) by simp
  qed
qed simp


section \<open>The joined audio\<close>

lemma materialize_prefix: "materialize_loop samples silence seam index audio regions = Some out \<Longrightarrow> \<exists>tail. out = audio @ tail"
proof (induction regions arbitrary: index audio)
  case (Cons r rs)
  then show ?case by (fastforce split: if_splits)
qed simp

text \<open>The joined audio is not longer than its regions and a seam for each.\<close>

definition joined_size :: "nat \<Rightarrow> longform_vad_slice list \<Rightarrow> nat" where
  "joined_size seam regions = sum_list (map (\<lambda>r. seam + (vs_end_sample r - vs_start_sample r)) regions)"

lemma joined_size_simps [simp]:
  "joined_size seam [] = 0" "joined_size seam (r # rs) = seam + (vs_end_sample r - vs_start_sample r) + joined_size seam rs"
  by (simp_all add: joined_size_def)

lemma joined_size_bound:
  assumes "separated regions" and "\<forall>r \<in> set regions. region_ok total_samples r"
  shows "joined_size seam regions \<le> total_samples * (1 + seam)"
proof -
  have "joined_size seam regions \<le> (total_samples - s) * (1 + seam)"
    if "separated regions" "\<forall>r \<in> set regions. region_ok total_samples r \<and> s \<le> vs_start_sample r" for s
    using that
  proof (induction regions arbitrary: s)
    case (Cons r rs)
    have r: "s \<le> vs_start_sample r" "vs_start_sample r < vs_end_sample r" "vs_end_sample r \<le> total_samples"
      using Cons.prems(2) by (simp_all add: region_ok_def)
    have "joined_size seam rs \<le> (total_samples - vs_end_sample r) * (1 + seam)"
      using Cons.prems by (intro Cons.IH) (auto simp: separated_def intro: less_imp_le)
    moreover have "seam + (vs_end_sample r - vs_start_sample r) \<le> (vs_end_sample r - vs_start_sample r) * (1 + seam)"
      using r(2) by (cases "vs_end_sample r - vs_start_sample r") simp_all
    moreover have "(vs_end_sample r - vs_start_sample r) * (1 + seam) + (total_samples - vs_end_sample r) * (1 + seam)
        \<le> (total_samples - s) * (1 + seam)"
      unfolding add_mult_distrib [symmetric] using r by (intro mult_le_mono1) linarith
    ultimately show ?case unfolding joined_size_simps by linarith
  qed simp
  then show ?thesis using assms by (metis diff_zero le0)
qed

text \<open>One turn of the builder, where the cursor does not overflow.\<close>

lemma build_loop_step:
  assumes "region_ok total_samples r" and "cursor + joined_size seam (r # rs) < u64_limit"
    and "build_loop total_samples seam index previous_end cursor (r # rs) = (anchors, processed, final)"
  obtains s anchors' processed' where "s = (if index = 0 then cursor else cursor + seam)"
    and "build_loop total_samples seam (Suc index) (vs_end_sample r) (s + (vs_end_sample r - vs_start_sample r)) rs = (anchors', processed', final)"
    and "processed = \<lparr>vs_start_sample = s, vs_end_sample = s + (vs_end_sample r - vs_start_sample r)\<rparr> # processed'"
    and "s + (vs_end_sample r - vs_start_sample r) + joined_size seam rs < u64_limit"
proof -
  define s where "s = (if index = 0 then cursor else cursor + seam)"
  have s: "(if index = 0 then cursor else u64_add cursor seam) = s" using assms(2) by (simp add: s_def u64_add_small)
  have e: "u64_add s (vs_end_sample r - vs_start_sample r) = s + (vs_end_sample r - vs_start_sample r)"
    using assms(2) by (intro u64_add_small) (simp add: s_def)
  have "\<not> (vs_end_sample r \<le> vs_start_sample r \<or> total_samples < vs_end_sample r)" using assms(1) by (simp add: region_ok_def)
  note eq = build_loop.simps(2) [of total_samples seam index previous_end cursor r rs, unfolded Let_def s e if_not_P [OF this]]
  show thesis
    using that [OF s_def] assms(2,3) unfolding eq by (auto simp: s_def split: prod.splits)
qed

text \<open>A processed region holds the samples of the kept region it comes from.\<close>

definition same_audio :: "'a list \<Rightarrow> 'a list \<Rightarrow> longform_vad_slice \<Rightarrow> longform_vad_slice \<Rightarrow> bool" where
  "same_audio samples audio r p \<longleftrightarrow> vs_start_sample p < vs_end_sample p \<and> vs_end_sample p \<le> length audio
     \<and> take (vs_end_sample p - vs_start_sample p) (drop (vs_start_sample p) audio)
       = take (vs_end_sample r - vs_start_sample r) (drop (vs_start_sample r) samples)"

lemma build_materialize:
  assumes "\<forall>r \<in> set regions. region_ok (length samples) r" and "length audio = cursor"
    and "build_loop (length samples) seam index previous_end cursor regions = (anchors, processed, final)"
    and "cursor + joined_size seam regions < u64_limit"
  shows "\<exists>out. materialize_loop samples silence seam index audio regions = Some out \<and> length out = final
    \<and> list_all2 (same_audio samples out) regions processed"
  using assms
proof (induction regions arbitrary: index audio previous_end cursor anchors processed)
  case (Cons r rs)
  have ok: "region_ok (length samples) r" using Cons.prems(1) by simp
  then have r: "vs_start_sample r < vs_end_sample r" "vs_end_sample r \<le> length samples" by (simp_all add: region_ok_def)
  let ?head = "if 0 < index then audio @ replicate seam silence else audio"
  let ?piece = "take (vs_end_sample r - vs_start_sample r) (drop (vs_start_sample r) samples)"
  let ?len = "vs_end_sample r - vs_start_sample r"
  obtain s anchors' processed' where s: "s = (if index = 0 then cursor else cursor + seam)"
      and rec: "build_loop (length samples) seam (Suc index) (vs_end_sample r) (s + ?len) rs = (anchors', processed', final)"
      and p: "processed = \<lparr>vs_start_sample = s, vs_end_sample = s + ?len\<rparr> # processed'" and fit: "s + ?len + joined_size seam rs < u64_limit"
    using build_loop_step [OF ok Cons.prems(4,3)] .
  have piece: "length ?piece = ?len" and head: "length ?head = s" using r Cons.prems(2) by (simp_all add: s)
  obtain out where out: "materialize_loop samples silence seam (Suc index) (?head @ ?piece) rs = Some out" "length out = final"
      "list_all2 (same_audio samples out) rs processed'"
    using Cons.IH [OF _ _ rec fit, of "?head @ ?piece"] Cons.prems(1) piece head by auto
  obtain tail where tail: "out = ?head @ ?piece @ tail" using materialize_prefix [OF out(1)] by auto
  have "same_audio samples out r \<lparr>vs_start_sample = s, vs_end_sample = s + ?len\<rparr>"
    unfolding same_audio_def tail using r piece head by (auto simp del: length_take length_drop)
  then show ?case using out r unfolding p by (simp del: append_assoc)
qed simp

lemma build_loop_ends:
  assumes "\<forall>r \<in> set regions. region_ok total_samples r" and "regions \<noteq> []"
    and "build_loop total_samples seam index previous_end cursor regions = (anchors, processed, final)"
    and "cursor + joined_size seam regions < u64_limit"
  shows "processed \<noteq> [] \<and> vs_start_sample (hd processed) = (if index = 0 then cursor else cursor + seam)
    \<and> vs_end_sample (last processed) = final \<and> (\<forall>p \<in> set processed. vs_start_sample p < vs_end_sample p \<and> vs_end_sample p \<le> final)
    \<and> cursor < final \<and> final \<le> cursor + joined_size seam regions"
  using assms
proof (induction regions arbitrary: index previous_end cursor anchors processed)
  case (Cons r rs)
  have ok: "region_ok total_samples r" using Cons.prems(1) by simp
  then have r: "vs_start_sample r < vs_end_sample r" by (simp add: region_ok_def)
  let ?len = "vs_end_sample r - vs_start_sample r"
  obtain s anchors' processed' where s: "s = (if index = 0 then cursor else cursor + seam)"
      and rec: "build_loop total_samples seam (Suc index) (vs_end_sample r) (s + ?len) rs = (anchors', processed', final)"
      and p: "processed = \<lparr>vs_start_sample = s, vs_end_sample = s + ?len\<rparr> # processed'" and fit: "s + ?len + joined_size seam rs < u64_limit"
    using build_loop_step [OF ok Cons.prems(4,3)] .
  have sc: "cursor \<le> s" "s \<le> cursor + seam" by (simp_all add: s)
  show ?case
  proof (cases "rs = []")
    case True
    then show ?thesis using rec p r sc s by auto
  next
    case False
    then have "processed' \<noteq> [] \<and> vs_end_sample (last processed') = final
        \<and> (\<forall>p \<in> set processed'. vs_start_sample p < vs_end_sample p \<and> vs_end_sample p \<le> final) \<and> s + ?len < final
        \<and> final \<le> s + ?len + joined_size seam rs"
      using Cons.IH [OF _ False rec fit] Cons.prems(1) by simp
    then show ?thesis using p r sc s by auto
  qed
qed simp

section \<open>The windows tile the joined audio\<close>

lemma window_end_loop_bounds:
  assumes "start < hard_end" and "hard_end \<le> limit" and "start \<le> cur" and "cur \<le> hard_end" and "0 < min_chunk"
  shows "start < window_end_loop start limit hard_end desired min_chunk cur regions
    \<and> window_end_loop start limit hard_end desired min_chunk cur regions \<le> hard_end"
  using assms
proof (induction regions arbitrary: cur)
  case (Cons r rs)
  show ?case
  proof (cases "vs_end_sample r \<le> start")
    case True
    then show ?thesis using Cons by simp
  next
    case False
    define pe where "pe = min (vs_end_sample r) limit"
    have pe: "start \<le> pe" using False Cons.prems(1,2) unfolding pe_def by linarith
    have step: "window_end_loop start limit hard_end desired min_chunk cur (r # rs) =
        (if hard_end < pe then if start < cur \<and> min_chunk \<le> cur - start then min cur hard_end else hard_end
         else if desired < pe \<and> min_chunk \<le> cur - start then cur
         else if hard_end \<le> pe then hard_end else window_end_loop start limit hard_end desired min_chunk pe rs)"
      using False by (simp only: window_end_loop.simps Let_def if_False pe_def)
    show ?thesis unfolding step using Cons.prems pe Cons.IH [of pe] by (auto split: if_split)
  qed
qed simp

definition vad_window :: "longform_vad_slice \<Rightarrow> nat \<times> nat" where
  "vad_window r = (vs_start_sample r, vs_end_sample r)"

lemma vad_window_simps [simp]:
  "vad_window \<lparr>vs_start_sample = a, vs_end_sample = b\<rparr> = (a, b)" "fst (vad_window r) = vs_start_sample r" "snd (vad_window r) = vs_end_sample r"
  by (simp_all add: vad_window_def)

lemma pack_loop_tiles:
  assumes "start < limit" and "0 < m" and "0 < min_chunk" and fit: "limit < u64_limit"
  shows "tiling m start limit (map vad_window (pack_loop limit target m min_chunk overlap subdivided start))"
  using assms(1)
proof (induction "limit - start" arbitrary: start rule: less_induct)
  case less
  define w where "w = packed_window_end start limit target m min_chunk subdivided"
  have "start < w \<and> w \<le> min (u64_sat_add start m) limit"
    unfolding w_def packed_window_end_def Let_def
    by (rule window_end_loop_bounds) (use less.prems assms(2,3) fit in \<open>simp_all add: u64_sat_add_def\<close>)
  then have w: "start < w" "w \<le> limit" "w - start \<le> m" by (auto simp: u64_sat_add_def)
  define e where "e = (if 0 < limit - w \<and> limit - w < min_chunk \<and> limit - start \<le> m then limit else w)"
  have e: "start < e" "e \<le> limit" "e - start \<le> m" using w less.prems unfolding e_def by (simp_all split: if_split)
  let ?rest = "\<lambda>s. pack_loop limit target m min_chunk overlap subdivided s"
  have step: "?rest start = \<lparr>vs_start_sample = start, vs_end_sample = e\<rparr>
      # (if limit \<le> e then [] else ?rest (advance_window_start start e overlap))"
    using less.prems w(1) [folded not_le]
    by (subst pack_loop.simps) (simp only: Let_def if_True if_False w_def [symmetric] e_def [symmetric])
  show ?case
  proof (cases "limit \<le> e")
    case True
    then show ?thesis unfolding step using e by simp
  next
    case False
    note adv = advance_window_start_bounds [OF e(1), of overlap]
    have "tiling m (advance_window_start start e overlap) limit (map vad_window (?rest (advance_window_start start e overlap)))"
      by (rule less.hyps) (use adv False less.prems in linarith)+
    then show ?thesis unfolding step using tiling_Cons adv e False by simp
  qed
qed


lemma subdivide_loop_Nil:
  "region_end \<le> start \<Longrightarrow> subdivide_loop fa samples chunk m min_chunk search threshold offset region_start region_end start = Some []"
  by (subst subdivide_loop.simps) (simp add: not_less)

lemma subdivide_loop_step:
  assumes "start < region_end" and "0 < m" and "0 < chunk" and fit: "sums_fit region_end m chunk min_chunk"
  shows "\<exists>e. start < e \<and> e \<le> region_end
    \<and> subdivide_loop fa samples chunk m min_chunk search threshold offset region_start region_end start
      = map_option ((#) \<lparr>vs_start_sample = start, vs_end_sample = e\<rparr>)
          (subdivide_loop fa samples chunk m min_chunk search threshold offset region_start region_end e)"
proof -
  let ?rest = "subdivide_loop fa samples chunk m min_chunk search threshold offset region_start region_end"
  note adds = sums_fit_add [OF fit less_imp_le [OF assms(1)]]
  have lim: "region_end < u64_limit" using fit by (simp add: sums_fit_def)
  show ?thesis
  proof (cases "region_end \<le> min (start + chunk) region_end")
    case True
    let ?e = "executor_window_end start (min (start + chunk) region_end) region_end m"
    have e: "start < ?e" "?e \<le> region_end"
      using executor_window_end_bounds [of start "min (start + chunk) region_end" region_end m] assms lim by simp_all
    have "?rest ?e = Some []" if "region_end \<le> ?e" by (rule subdivide_loop_Nil [OF that])
    then have "?rest start = map_option ((#) \<lparr>vs_start_sample = start, vs_end_sample = ?e\<rparr>) (?rest ?e)"
      using assms(1) True e(1) [folded not_le]
      by (subst subdivide_loop.simps) (simp only: Let_def adds if_True if_False, simp split: if_split)
    then show ?thesis using e by blast
  next
    case False
    let ?hard = "min (start + m) region_end" and ?desired = "min (start + chunk) region_end"
    define e where "e = clamp_split (start + 1) ?hard (to_processed offset region_start (fst (choose_forced_cut fa samples
      (to_original offset ?desired) (to_original offset ?hard) (to_original offset (min (start + min_chunk) ?hard)) search threshold)))"
    have h: "\<not> ?hard < start + 1" using assms by linarith
    then have "?rest start = map_option ((#) \<lparr>vs_start_sample = start, vs_end_sample = e\<rparr>) (?rest e)"
      using assms(1) False by (subst subdivide_loop.simps) (simp only: Let_def adds if_True if_False e_def)
    moreover have "start < e" "e \<le> region_end" using assms(1,2) unfolding e_def clamp_split_def by linarith+
    ultimately show ?thesis by blast
  qed
qed

lemma subdivide_loop_ends:
  assumes "start < region_end" and "0 < m" and "0 < chunk" and "sums_fit region_end m chunk min_chunk"
  shows "\<exists>out. subdivide_loop fa samples chunk m min_chunk search threshold offset region_start region_end start = Some out
    \<and> out \<noteq> [] \<and> vs_start_sample (hd out) = start \<and> vs_end_sample (last out) = region_end"
  using assms(1)
proof (induction "region_end - start" arbitrary: start rule: less_induct)
  case less
  let ?rest = "subdivide_loop fa samples chunk m min_chunk search threshold offset region_start region_end"
  obtain e where e: "start < e" "e \<le> region_end" "?rest start = map_option ((#) \<lparr>vs_start_sample = start, vs_end_sample = e\<rparr>) (?rest e)"
    using subdivide_loop_step [OF less.prems assms(2-4), of fa samples search threshold offset region_start] by blast
  show ?case
  proof (cases "e = region_end")
    case True
    then have "?rest e = Some []" by (simp add: subdivide_loop_Nil)
    then show ?thesis using e True by simp
  next
    case False
    then have "region_end - e < region_end - start" "e < region_end" using e less.prems by simp_all
    then obtain out where "?rest e = Some out" "out \<noteq> []" "vs_end_sample (last out) = region_end"
      using less.hyps by blast
    then show ?thesis using e by simp
  qed
qed

lemma those_all:
  "\<forall>r \<in> set rs. \<exists>out. f r = Some out \<and> Q r out \<Longrightarrow> \<exists>outs. those (map f rs) = Some outs \<and> list_all2 Q rs outs"
  by (induction rs) fastforce+

definition from_to :: "longform_vad_slice \<Rightarrow> longform_vad_slice list \<Rightarrow> bool" where
  "from_to r out \<longleftrightarrow> out \<noteq> [] \<and> vs_start_sample (hd out) = vs_start_sample r \<and> vs_end_sample (last out) = vs_end_sample r"

lemma concat_ends:
  assumes "rs \<noteq> []" and "list_all2 from_to rs outs"
  shows "concat outs \<noteq> [] \<and> vs_start_sample (hd (concat outs)) = vs_start_sample (hd rs)
    \<and> vs_end_sample (last (concat outs)) = vs_end_sample (last rs)"
  using assms(2,1)
proof (induction rule: list_all2_induct)
  case (Cons r rs out outs)
  then show ?case by (cases "rs = []") (auto simp: from_to_def)
qed simp

lemma packed_windows_tile:
  assumes "loop_ready fa opts rate m limit" and "regions \<noteq> []"
    and "\<forall>r \<in> set regions. vs_start_sample r < vs_end_sample r \<and> vs_end_sample r \<le> limit"
    and "vs_start_sample (hd regions) < vs_end_sample (last regions)"
  shows "\<exists>windows. pack_processed_spans_into_windows fa original_of regions rate opts samples = Some windows
    \<and> tiling m (vs_start_sample (hd regions)) (vs_end_sample (last regions)) (map vad_window windows)"
proof -
  let ?chunk = "la_seconds_to_samples fa (lf_chunk_seconds opts) rate"
    and ?min_chunk = "la_seconds_to_samples fa (lf_min_chunk_seconds opts) rate"
  have m: "max_chunk_samples fa opts rate = Some m" "0 < m" "max m 1 = m" "max ?chunk 1 = ?chunk" "0 < ?chunk"
    and fit: "sums_fit limit m ?chunk ?min_chunk"
    using assms(1) by (simp_all add: loop_ready_def)
  define cut where "cut = (\<lambda>r. if vs_end_sample r - vs_start_sample r \<le> min ?chunk m then Some [r]
    else subdivide_loop fa samples ?chunk m ?min_chunk
       (la_seconds_to_samples fa (lf_energy_split_search_seconds opts) rate)
       (la_db_to_linear fa (lf_energy_silence_threshold_db opts))
       (int (original_of (vs_start_sample r)) - int (vs_start_sample r)) (vs_start_sample r) (vs_end_sample r) (vs_start_sample r))"
  have "\<exists>out. cut r = Some out \<and> from_to r out" if "r \<in> set regions" for r
  proof -
    have "vs_start_sample r < vs_end_sample r" "sums_fit (vs_end_sample r) m ?chunk ?min_chunk"
      using that assms(3) sums_fit_mono [OF fit] by blast+
    then show ?thesis
      using subdivide_loop_ends [OF _ m(2,5), of "vs_start_sample r" "vs_end_sample r" ?min_chunk fa samples] by (simp add: cut_def from_to_def)
  qed
  then obtain outs where outs: "those (map cut regions) = Some outs" "list_all2 from_to regions outs"
    using those_all [of regions cut from_to] by blast
  note ends = concat_ends [OF assms(2) outs(2)]
  have sub: "subdivide_processed_spans_silence_aware fa original_of regions rate opts samples = Some (concat outs)"
    using outs(1) unfolding subdivide_processed_spans_silence_aware_def m(1) option.case Let_def m(3,4) cut_def by simp
  obtain first rest where fr: "concat outs = first # rest" using ends by (cases "concat outs") auto
  have "last regions \<in> set regions" using assms(2) by simp
  then have "vs_end_sample (last regions) \<le> limit" using assms(3) by blast
  then have lim: "vs_end_sample (last (first # rest)) < u64_limit"
    using fit ends fr by (simp add: sums_fit_def)
  have "0 < max ?min_chunk 1" by simp
  note tiles = pack_loop_tiles [OF _ m(2) this lim]
  show ?thesis
    unfolding pack_processed_spans_into_windows_def m(1) option.case sub fr list.case Let_def m(3)
    using tiles ends fr assms(2,4) by (simp only: if_False option.inject ex_simps simp_thms, simp)
qed

lemma number_windows_numbered: "number_windows kind windows = numbered kind 0 (map vad_window windows)"
proof -
  have "map (\<lambda>(i, w). content_slice kind i (vs_start_sample w) (vs_end_sample w)) (enumerate k windows)
      = numbered kind k (map vad_window windows)" for k
    by (induction windows arbitrary: k) (simp_all add: vad_window_def)
  then show ?thesis by (simp add: number_windows_def)
qed

text \<open>
  A packed layout is sound for a recording and its speech spans: its windows tile the processed
  audio and fit the executor window, the kept regions are disjoint, in order, inside the
  recording and hold all speech, and the joined audio holds the samples of each of them.
\<close>

definition packed_layout_ok ::
  "nat \<Rightarrow> 'a list \<Rightarrow> longform_vad_slice list \<Rightarrow> 'a longform_planning_layout \<Rightarrow> bool" where
  "packed_layout_ok m samples speech_spans layout \<longleftrightarrow>
     (case pl_packed_audio_plan layout of
        None \<Rightarrow> False
      | Some plan \<Rightarrow>
          slices_ok m (pa_processed_samples plan) (pl_slices layout)
          \<and> tiling m 0 (pa_processed_samples plan) (map content_window (pl_slices layout))
          \<and> separated (pa_spans plan) \<and> list_all (region_ok (length samples)) (pa_spans plan)
          \<and> (\<forall>x < length samples. covered speech_spans x \<longrightarrow> covered (pa_spans plan) x)
          \<and> (\<forall>silence. \<exists>audio. materialize_packed_audio samples silence plan = Some audio \<and> length audio = pa_processed_samples plan
              \<and> (\<exists>processed. list_all2 (same_audio samples audio) (pa_spans plan) processed)))"

lemma content_window_numbered: "map content_window (numbered kind k ws) = ws"
  by (induction ws arbitrary: k) auto

lemma plan_packed_layout_ok:
  assumes "planner_ready fa opts rate m (length samples)"
  shows "\<exists>res. plan_packed_layout_from_speech_spans fa samples rate opts kind speech_spans = Some res
    \<and> (case res of None \<Rightarrow> length speech_spans < 2 \<or> (\<forall>x < length samples. \<not> covered speech_spans x)
       | Some layout \<Rightarrow> packed_layout_ok m samples speech_spans layout)"
proof -
  let ?keep = "coalesce_vad_slices speech_spans (max m 1) (max (la_seconds_to_samples fa (lf_min_chunk_seconds opts) rate) 1)
     (la_seconds_to_samples fa (la_coalesce_gap_seconds fa opts) rate) (length samples)"
  define padded where "padded = expand_and_merge_keep_spans ?keep (length samples) (la_seconds_to_samples fa (lf_padding_seconds opts) rate)"
  define seam where "seam = la_seconds_to_samples fa (seam_seconds opts) rate"
  have m: "max_chunk_samples fa opts rate = Some m" using planner_ready_max [OF assms] by simp
  have pad: "length samples + la_seconds_to_samples fa (lf_padding_seconds opts) rate < u64_limit"
    and ready: "loop_ready fa opts rate m (length samples * (1 + seam))"
    using assms by (simp_all add: planner_ready_def seam_def)
  have ok: "\<forall>r \<in> set padded. region_ok (length samples) r" and sep: "separated padded"
    using expand_loop_ok [OF coalesce_ok, of "[]", OF _ _ pad] unfolding padded_def expand_and_merge_keep_spans_def separated_def by simp_all
  have cov: "\<forall>x < length samples. covered speech_spans x \<longrightarrow> covered padded x"
    unfolding padded_def expand_and_merge_keep_spans_def
    by (intro allI impI expand_loop_covers [OF coalesce_ok coalesce_sorted]) (use pad in \<open>simp_all add: coalesce_covers\<close>)
  note plan = plan_packed_layout_from_speech_spans_def [of fa samples rate opts kind speech_spans, unfolded m option.case Let_def,
      folded padded_def seam_def]
  show ?thesis
  proof (cases "length speech_spans < 2 \<or> padded = []")
    case True
    then show ?thesis unfolding plan using cov by (auto simp: build_packed_audio_materialization_plan_def)
  next
    case False
    obtain anchors processed cursor where b: "build_loop (length samples) seam 0 0 0 padded = (anchors, processed, cursor)"
      by (cases "build_loop (length samples) seam 0 0 0 padded") auto
    have size: "joined_size seam padded \<le> length samples * (1 + seam)" using joined_size_bound [OF sep ok] .
    moreover have "length samples * (1 + seam) < u64_limit" using ready by (simp add: loop_ready_def sums_fit_def)
    ultimately have fit: "0 + joined_size seam padded < u64_limit" by linarith
    note ends = build_loop_ends [OF ok _ b fit]
    let ?plan = "\<lparr>pa_spans = padded, pa_seam_samples = seam, pa_processed_samples = cursor\<rparr>"
    have bp: "build_packed_audio_materialization_plan padded (length samples) seam = Some (?plan, anchors, processed)"
      using False ends by (simp add: build_packed_audio_materialization_plan_def b)
    obtain windows where w: "pack_processed_spans_into_windows fa (la_original_of fa anchors rate) processed rate
          (opts\<lparr>lf_padding_seconds := F_Num 0\<rparr>) samples = Some windows" "tiling m 0 cursor (map vad_window windows)"
      using packed_windows_tile [of fa "opts\<lparr>lf_padding_seconds := F_Num 0\<rparr>" rate m cursor processed "la_original_of fa anchors rate" samples]
        loop_ready_mono [OF ready, of cursor] size ends False by auto
    have "windows \<noteq> []" using w(2) by auto
    then have "number_windows kind windows \<noteq> []" by (simp add: number_windows_def enumerate_eq_zip)
    moreover have "slices_ok m cursor (number_windows kind windows)"
      using slices_ok_append [OF slices_ok_Nil w(2) order_refl, of kind] by (simp add: number_windows_numbered)
    moreover have "\<exists>audio. materialize_packed_audio samples silence ?plan = Some audio \<and> length audio = cursor
        \<and> (\<exists>processed. list_all2 (same_audio samples audio) padded processed)" for silence
      using build_materialize [OF ok _ b fit, of "[]" silence] by (auto simp: materialize_packed_audio_def)
    ultimately show ?thesis
      unfolding plan bp option.case prod.case w(1)
      using False ok sep cov w(2) number_windows_numbered [of kind windows]
      by (auto simp: packed_layout_ok_def content_window_numbered list_all_iff)
  qed
qed

text \<open>
  C23. Packing keeps the speech. For options that are \<open>planner_ready\<close> for the recording (window, chunk
  and minimum chunk of at least one sample, and no overflow of \<open>usize\<close> when positions are padded or
  moved by these amounts or by the seams; validation does not imply this), planning a packed
  layout returns, and the layout, when there is one, tiles the joined audio with windows that fit
  the executor, drops no sample of a speech span, and the joined audio is built without a
  panic, has the announced length and holds each kept region's samples.
\<close>

theorem packed_layout_keeps_speech:
  assumes "planner_ready fa opts rate m (length samples)"
  shows "\<exists>res. plan_packed_layout_from_speech_spans fa samples rate opts kind speech_spans = Some res
    \<and> (case res of None \<Rightarrow> length speech_spans < 2 \<or> (\<forall>x < length samples. \<not> covered speech_spans x)
       | Some layout \<Rightarrow> packed_layout_ok m samples speech_spans layout)"
  using assms by (rule plan_packed_layout_ok)

text \<open>Padding that saturates \<open>usize\<close> is accepted by validation, and the end of a kept region wraps to one sample less: the last sample of speech is lost.\<close>

lemma huge_padding_wraps:
  "longform_options_validate (longform_options_default\<lparr>lf_padding_seconds := F_Num (10 ^ 30)\<rparr>) = Inr ()"
  "expand_and_merge_keep_spans [\<lparr>vs_start_sample = 5, vs_end_sample = 9\<rparr>] 90 u64_max = [\<lparr>vs_start_sample = 0, vs_end_sample = 8\<rparr>]"
  by (simp_all add: longform_options_validate_def longform_options_default_def longform_vad_options_default_def f32_lt_def
      expand_and_merge_keep_spans_def expand_loop.simps u64_add_def Let_def)

lemma exact_planner_ready: "n \<le> 90 \<Longrightarrow> planner_ready exact_arith longform_options_default 1 60 n"
proof -
  assume n: "n \<le> 90"
  have f: "nat \<lfloor>z\<rfloor> = 0" if "0 \<le> z" "z < 1" for z :: rat using that by (simp add: floor_eq_iff)
  have z: "la_seconds_to_samples exact_arith (seam_seconds longform_options_default) 1 = 0"
      "la_seconds_to_samples exact_arith (lf_padding_seconds longform_options_default) 1 = 0"
    by (simp_all add: exact_arith_def seam_seconds_def f32_clamp_def f32_lt_def longform_options_default_def f)
  show ?thesis unfolding planner_ready_def z using n exact_arith_ready [OF n] by simp
qed

theorem packed_layout_keeps_speech_witness:
  "\<exists>res. plan_packed_layout_from_speech_spans exact_arith (replicate 90 0) 1 longform_options_default SliceVad
        [\<lparr>vs_start_sample = 70, vs_end_sample = 80\<rparr>, \<lparr>vs_start_sample = 5, vs_end_sample = 9\<rparr>] = Some res
    \<and> (case res of None \<Rightarrow> False
       | Some layout \<Rightarrow> packed_layout_ok 60 (replicate 90 0)
           [\<lparr>vs_start_sample = 70, vs_end_sample = 80\<rparr>, \<lparr>vs_start_sample = 5, vs_end_sample = 9\<rparr>] layout)"
proof -
  let ?spans = "[\<lparr>vs_start_sample = 70, vs_end_sample = 80\<rparr>, \<lparr>vs_start_sample = 5, vs_end_sample = 9\<rparr>]"
  obtain res where res: "plan_packed_layout_from_speech_spans exact_arith (replicate 90 0) 1 longform_options_default SliceVad ?spans = Some res"
      "case res of None \<Rightarrow> length ?spans < 2 \<or> (\<forall>x < length (replicate 90 (0 :: rat)). \<not> covered ?spans x)
       | Some layout \<Rightarrow> packed_layout_ok 60 (replicate 90 0) ?spans layout"
    using packed_layout_keeps_speech [OF exact_planner_ready, of "replicate 90 0" SliceVad ?spans] by auto
  have "covered ?spans 7" "7 < length (replicate 90 (0 :: rat))" by simp_all
  then have "\<not> (\<forall>x < length (replicate 90 (0 :: rat)). \<not> covered ?spans x)" by blast
  moreover have "\<not> length ?spans < 2" by simp
  ultimately obtain layout where "res = Some layout" using res(2) by (cases res) (simp_all only: option.case simp_thms)
  then show ?thesis using res by simp
qed

end
