(* ===== verification/Longform_Vad.thy ===== *)
theory Longform_Vad
  imports Longform_Packing
begin

text \<open>
  The built-in energy detector of speech in long recordings
  (\<open>crates/openasr-core/src/longform/vad.rs\<close>), and cancellation. The callers pass a closure
  \<open>canceled\<close> that the code polls: here \<open>canceled n\<close> is the answer of the \<open>n\<close>-th poll, and a polled
  computation maps the number of polls made so far to its result (or error) and the new number.
  \<open>None\<close> is a computation that does not return. The loops between two polls have no other effect,
  so the polls of a loop are made in a row.
\<close>

section \<open>Polled computations\<close>

type_synonym ('e, 'b) polled = "nat \<Rightarrow> (('e + 'b) \<times> nat) option"

definition p_return :: "'b \<Rightarrow> ('e, 'b) polled" where
  "p_return x = (\<lambda>n. Some (Inr x, n))"

definition p_fail :: "'e \<Rightarrow> ('e, 'b) polled" where
  "p_fail e = (\<lambda>n. Some (Inl e, n))"

definition p_bind :: "('e, 'b) polled \<Rightarrow> ('b \<Rightarrow> ('e, 'c) polled) \<Rightarrow> ('e, 'c) polled" where
  "p_bind m f = (\<lambda>n. case m n of None \<Rightarrow> None | Some (Inl e, k) \<Rightarrow> Some (Inl e, k) | Some (Inr x, k) \<Rightarrow> f x k)"

definition p_lift :: "'b option \<Rightarrow> ('e, 'b) polled" where
  "p_lift v = (\<lambda>n. map_option (\<lambda>x. (Inr x, n)) v)"

definition p_map_err :: "('e \<Rightarrow> 'f) \<Rightarrow> ('e, 'b) polled \<Rightarrow> ('f, 'b) polled" where
  "p_map_err f m = (\<lambda>n. map_option (\<lambda>(r, k). (map_sum f id r, k)) (m n))"

definition poll :: "(nat \<Rightarrow> bool) \<Rightarrow> 'e \<Rightarrow> ('e, unit) polled" where
  "poll canceled e = (\<lambda>n. Some (if canceled n then Inl e else Inr (), Suc n))"

primrec poll_times :: "(nat \<Rightarrow> bool) \<Rightarrow> 'e \<Rightarrow> nat \<Rightarrow> ('e, unit) polled" where
  "poll_times canceled e 0 = p_return ()"
| "poll_times canceled e (Suc k) = p_bind (poll canceled e) (\<lambda>_. poll_times canceled e k)"

section \<open>The energy detector\<close>

datatype longform_vad_provider_error = VadCanceled | VadProviderFailed string

definition f32_max :: "f32 \<Rightarrow> f32 \<Rightarrow> f32" where
  "f32_max x y = (if x = F_NaN then y else if f32_lt x y then y else x)"

definition f32_epsilon :: f32 where
  "f32_epsilon = F_Num (1 / 8388608)"

function frame_levels :: "'a longform_arith \<Rightarrow> 'a list \<Rightarrow> nat \<Rightarrow> nat \<Rightarrow> f32 list" where
  "frame_levels fa samples frame_samples start =
     (if start < length samples then
        (let end_sample = min (start + frame_samples) (length samples)
         in if end_sample \<le> start then []
            else la_rms fa (take (end_sample - start) (drop start samples)) # frame_levels fa samples frame_samples end_sample)
      else [])"
  by auto
termination frame_levels
  by (relation "measure (\<lambda>(fa, samples, frame_samples, start). length samples - start)") auto

declare frame_levels.simps [simp del]

definition compute_frame_rms ::
  "'a longform_arith \<Rightarrow> (nat \<Rightarrow> bool) \<Rightarrow> 'a list \<Rightarrow> nat \<Rightarrow> (longform_vad_provider_error, f32 list) polled" where
  "compute_frame_rms fa canceled samples frame_samples =
     (let levels = frame_levels fa samples frame_samples 0
      in p_bind (poll_times canceled VadCanceled ((length levels + 49) div 50)) (\<lambda>_.
         p_bind (poll canceled VadCanceled) (\<lambda>_. p_return levels)))"

definition duration_ms_to_frames :: "nat \<Rightarrow> nat \<Rightarrow> nat" where
  "duration_ms_to_frames duration_ms frame_ms =
     (if duration_ms = 0 then 1 else (duration_ms + (frame_ms - 1)) div frame_ms)"

definition push_if_long_enough :: "nat \<Rightarrow> nat \<Rightarrow> nat \<Rightarrow> (nat \<times> nat) list \<Rightarrow> (nat \<times> nat) list" where
  "push_if_long_enough start_frame end_frame min_frames ranges =
     (if end_frame \<le> start_frame then ranges
      else if end_frame - start_frame < min_frames then ranges
      else (start_frame, end_frame) # ranges)"

text \<open>
  The pass over the mask. \<open>push_if_long_enough\<close> puts a range in front of the ranges that the rest
  of the mask gives, which is the order in which the source pushes them.
\<close>

primrec speech_ranges_loop :: "nat \<Rightarrow> nat \<Rightarrow> nat \<Rightarrow> bool \<Rightarrow> nat \<Rightarrow> nat \<Rightarrow> bool list \<Rightarrow> (nat \<times> nat) list" where
  "speech_ranges_loop min_speech min_silence frame_idx in_speech speech_start trailing_silence [] =
     (if in_speech then push_if_long_enough speech_start (frame_idx - trailing_silence) min_speech [] else [])"
| "speech_ranges_loop min_speech min_silence frame_idx in_speech speech_start trailing_silence (active # flags) =
     (if active
      then speech_ranges_loop min_speech min_silence (Suc frame_idx) True (if in_speech then speech_start else frame_idx) 0 flags
      else if \<not> in_speech
      then speech_ranges_loop min_speech min_silence (Suc frame_idx) False speech_start trailing_silence flags
      else if trailing_silence + 1 < min_silence
      then speech_ranges_loop min_speech min_silence (Suc frame_idx) True speech_start (trailing_silence + 1) flags
      else push_if_long_enough speech_start (frame_idx + 1 - (trailing_silence + 1)) min_speech
             (speech_ranges_loop min_speech min_silence (Suc frame_idx) False speech_start 0 flags))"

definition speech_ranges :: "nat \<Rightarrow> nat \<Rightarrow> bool list \<Rightarrow> (nat \<times> nat) list" where
  "speech_ranges min_speech min_silence flags = speech_ranges_loop min_speech min_silence 0 False 0 0 flags"

definition range_slices :: "nat \<Rightarrow> nat \<Rightarrow> (nat \<times> nat) list \<Rightarrow> longform_vad_slice list" where
  "range_slices frame_samples total_samples ranges =
     filter (\<lambda>r. vs_start_sample r < vs_end_sample r)
       (map (\<lambda>(s, e). \<lparr>vs_start_sample = min (s * frame_samples) total_samples,
                        vs_end_sample = min (e * frame_samples) total_samples\<rparr>) ranges)"

definition compute_speech_slices_impl ::
  "'a longform_arith \<Rightarrow> (nat \<Rightarrow> bool) \<Rightarrow> 'a list \<Rightarrow> nat \<Rightarrow> longform_options
     \<Rightarrow> (longform_vad_provider_error, longform_vad_slice list) polled" where
  "compute_speech_slices_impl fa canceled samples rate opts =
     p_bind (poll canceled VadCanceled) (\<lambda>_.
       if rate = 0 then p_fail (VadProviderFailed ''sample_rate_hz must be greater than zero'')
       else if samples = [] then p_return []
       else let frame_samples = max (rate * 20 div 1000) 1
            in p_bind (compute_frame_rms fa canceled samples frame_samples) (\<lambda>levels.
                 if levels = [] then p_return []
                 else if f32_le (fold f32_max levels (F_Num 0)) f32_epsilon then p_return []
                 else let gate = la_energy_gate fa levels opts;
                          min_speech_frames = duration_ms_to_frames (lv_min_speech_duration_ms (lf_vad opts)) 20;
                          min_silence_frames = duration_ms_to_frames (lv_min_silence_duration_ms (lf_vad opts)) 20;
                          flags = map (f32_le gate) levels
                      in p_bind (poll canceled VadCanceled) (\<lambda>_.
                         p_bind (poll_times canceled VadCanceled ((length flags + 49) div 50)) (\<lambda>_.
                           let ranges = speech_ranges min_speech_frames min_silence_frames flags
                           in p_bind (poll_times canceled VadCanceled (length ranges)) (\<lambda>_.
                              p_return (range_slices frame_samples (length samples) ranges))))))"

section \<open>Islands of active frames\<close>

text \<open>
  The reference definition: the active frames, grouped into islands. A frame joins the island
  before it if fewer than \<open>gap\<close> inactive frames lie between.
\<close>

definition active_frames :: "nat \<Rightarrow> bool list \<Rightarrow> nat list" where
  "active_frames k flags = map fst (filter snd (enumerate k flags))"

fun group_from :: "nat \<Rightarrow> nat \<Rightarrow> nat \<Rightarrow> nat list \<Rightarrow> (nat \<times> nat) list" where
  "group_from gap first prev [] = [(first, Suc prev)]"
| "group_from gap first prev (p # ps) =
     (if p - prev \<le> gap then group_from gap first p ps else (first, Suc prev) # group_from gap p p ps)"

fun islands :: "nat \<Rightarrow> nat list \<Rightarrow> (nat \<times> nat) list" where
  "islands gap [] = []"
| "islands gap (p # ps) = group_from gap p p ps"

definition long_enough :: "nat \<Rightarrow> nat \<times> nat \<Rightarrow> bool" where
  "long_enough min_frames r \<longleftrightarrow> min_frames \<le> snd r - fst r"

lemma active_frames_simps [simp]:
  "active_frames k [] = []"
  "active_frames k (a # flags) = (if a then k # active_frames (Suc k) flags else active_frames (Suc k) flags)"
  by (simp_all add: active_frames_def)

lemma active_frames_ge: "p \<in> set (active_frames k flags) \<Longrightarrow> k \<le> p"
  by (induction flags arbitrary: k) (auto split: if_splits dest: Suc_leD)

lemma group_from_far:
  assumes "\<forall>p \<in> set ps. gap < p - prev"
  shows "group_from gap first prev ps = (first, Suc prev) # islands gap ps"
  using assms by (cases ps) auto

lemma push_long_enough: "s < e \<Longrightarrow> push_if_long_enough s e m (filter (long_enough m) rs) = filter (long_enough m) ((s, e) # rs)"
  by (simp add: push_if_long_enough_def long_enough_def)

lemma speech_ranges_loop_islands:
  assumes "0 < gap"
  shows "speech_ranges_loop m gap k False s 0 flags = filter (long_enough m) (islands gap (active_frames k flags))"
    and "s \<le> prev \<Longrightarrow> trailing < gap \<Longrightarrow> k = Suc (prev + trailing) \<Longrightarrow>
      speech_ranges_loop m gap k True s trailing flags = filter (long_enough m) (group_from gap s prev (active_frames k flags))"
proof (induction flags arbitrary: k s prev trailing)
  case Nil
  {
    case 1
    show ?case by simp
  next
    case 2
    then show ?case using push_long_enough [of s "Suc prev" m "[]"] by simp
  }
next
  case (Cons a flags)
  {
    case 1
    show ?case using Cons.IH(1) [of "Suc k" s] Cons.IH(2) [of k k 0 "Suc k"] assms by simp
  next
    case 2
    show ?case
    proof (cases a)
      case True
      then show ?thesis using 2 Cons.IH(2) [of s k 0 "Suc k"] assms by simp
    next
      case inactive: False
      show ?thesis
      proof (cases "Suc trailing < gap")
        case True
        then show ?thesis using inactive 2 Cons.IH(2) [of s prev "Suc trailing" "Suc k"] by simp
      next
        case False
        then have far: "\<forall>p \<in> set (active_frames (Suc k) flags). gap < p - prev"
          using active_frames_ge [of _ "Suc k" flags] 2 by fastforce
        then show ?thesis
          using False inactive 2 Cons.IH(1) [of "Suc k" s]
            push_long_enough [of s "Suc prev" m "islands gap (active_frames (Suc k) flags)"]
          by (simp add: group_from_far)
      qed
    qed
  }
qed


text \<open>
  The energy detector reports the islands of active frames: its one pass over the frames gives
  exactly the groups of active frames that are not interrupted by the minimum silence, in order,
  without those shorter than the minimum speech.
\<close>

theorem speech_ranges_are_islands:
  assumes "0 < min_silence"
  shows "speech_ranges min_speech min_silence flags = filter (long_enough min_speech) (islands min_silence (active_frames 0 flags))"
  unfolding speech_ranges_def by (rule speech_ranges_loop_islands(1) [OF assms])

theorem speech_ranges_are_islands_witness:
  "speech_ranges 3 2 [False, True, False, True, False, False, True, True] = [(1, 4)]
   \<and> islands 2 (active_frames 0 [False, True, False, True, False, False, True, True]) = [(1, 4), (6, 8)]"
proof -
  have "islands 2 (active_frames 0 [False, True, False, True, False, False, True, True]) = [(1, 4), (6, 8)]" by simp
  then show ?thesis
    using speech_ranges_are_islands [of 2 3 "[False, True, False, True, False, False, True, True]"] by (simp add: long_enough_def)
qed

text \<open>The silence the detector asks for is never zero frames.\<close>

lemma duration_ms_to_frames_pos: "0 < duration_ms_to_frames ms 20"
  by (simp add: duration_ms_to_frames_def div_greater_zero_iff)

lemma range_slices_ok: "\<forall>r \<in> set (range_slices frame_samples total_samples ranges). region_ok total_samples r"
  by (auto simp: range_slices_def region_ok_def)

section \<open>Cancellation\<close>

text \<open>
  A computation returns if it gives a result for every number of polls. It gives up or agrees with
  another if at every number of polls it gives the same result or the cancellation error.
\<close>

definition p_returns :: "('e, 'b) polled \<Rightarrow> bool" where
  "p_returns m \<longleftrightarrow> (\<forall>n. m n \<noteq> None)"

definition gives_up_or_agrees :: "'e \<Rightarrow> ('e, 'b) polled \<Rightarrow> ('e, 'b) polled \<Rightarrow> bool" where
  "gives_up_or_agrees e m m0 \<longleftrightarrow> (\<forall>n. m n = m0 n \<or> (\<exists>k. m n = Some (Inl e, k)))"

abbreviation never :: "nat \<Rightarrow> bool" where
  "never \<equiv> \<lambda>_. False"

named_theorems polled_intros

lemma p_returns_intros [polled_intros]:
  "p_returns (p_return x)" "p_returns (p_fail e)" "p_returns (poll canceled e)"
  by (simp_all add: p_returns_def p_return_def p_fail_def poll_def)

lemma p_returns_bind [polled_intros]: "p_returns m \<Longrightarrow> (\<And>x. p_returns (f x)) \<Longrightarrow> p_returns (p_bind m f)"
  by (auto simp: p_returns_def p_bind_def split: option.split sum.split)

lemma p_returns_poll_times [polled_intros]: "p_returns (poll_times canceled e k)"
  by (induction k) (auto intro: polled_intros)

lemma p_returns_map_err [polled_intros]: "p_returns m \<Longrightarrow> p_returns (p_map_err f m)"
  by (simp add: p_returns_def p_map_err_def)

lemma p_returns_if [polled_intros]:
  "(b \<Longrightarrow> p_returns m) \<Longrightarrow> (\<not> b \<Longrightarrow> p_returns m') \<Longrightarrow> p_returns (if b then m else m')"
  by simp

lemma agrees_refl [polled_intros]: "gives_up_or_agrees e m m"
  by (simp add: gives_up_or_agrees_def)

lemma agrees_poll [polled_intros]: "gives_up_or_agrees e (poll canceled e) (poll never e)"
  by (simp add: gives_up_or_agrees_def poll_def)

lemma agrees_bind [polled_intros]:
  assumes "gives_up_or_agrees e m m0" and "\<And>x. gives_up_or_agrees e (f x) (f0 x)"
  shows "gives_up_or_agrees e (p_bind m f) (p_bind m0 f0)"
  unfolding gives_up_or_agrees_def
proof
  fix n
  consider "m n = m0 n" | k where "m n = Some (Inl e, k)" using assms(1) unfolding gives_up_or_agrees_def by blast
  then show "p_bind m f n = p_bind m0 f0 n \<or> (\<exists>k. p_bind m f n = Some (Inl e, k))"
  proof cases
    case 1
    then show ?thesis using assms(2) by (auto simp: p_bind_def gives_up_or_agrees_def split: option.split sum.split)
  next
    case 2
    then show ?thesis by (simp add: p_bind_def)
  qed
qed

lemma agrees_poll_times [polled_intros]: "gives_up_or_agrees e (poll_times canceled e k) (poll_times never e k)"
  by (induction k) (auto intro: polled_intros)

lemma agrees_map_err [polled_intros]:
  "gives_up_or_agrees e m m0 \<Longrightarrow> f e = e' \<Longrightarrow> gives_up_or_agrees e' (p_map_err f m) (p_map_err f m0)"
  unfolding gives_up_or_agrees_def p_map_err_def by (metis case_prod_conv map_sum.simps(1) option.simps(9))

lemma agrees_if [polled_intros]:
  "(b \<Longrightarrow> gives_up_or_agrees e m m0) \<Longrightarrow> (\<not> b \<Longrightarrow> gives_up_or_agrees e m' m0') \<Longrightarrow>
   gives_up_or_agrees e (if b then m else m') (if b then m0 else m0')"
  by simp

text \<open>
  What the planner asks of a provider of speech spans (\<open>LongFormVadProvider\<close>): that its call returns.
  A provider whose polls only decide whether it gives up is a \<open>cancellable_provider\<close>; the built-in
  detector and the default method of the trait are.
\<close>

locale speech_provider =
  fixes compute :: "(nat \<Rightarrow> bool) \<Rightarrow> 'a list \<Rightarrow> nat \<Rightarrow> longform_options \<Rightarrow> (longform_vad_provider_error, longform_vad_slice list) polled"
  assumes provider_returns: "p_returns (compute canceled samples rate opts)"

locale cancellable_provider = speech_provider +
  assumes provider_cancels: "gives_up_or_agrees VadCanceled (compute canceled samples rate opts) (compute never samples rate opts)"

lemma compute_frame_rms_polled [polled_intros]:
  "p_returns (compute_frame_rms fa canceled samples frame_samples)"
  "gives_up_or_agrees VadCanceled (compute_frame_rms fa canceled samples frame_samples) (compute_frame_rms fa never samples frame_samples)"
  unfolding compute_frame_rms_def Let_def by (intro polled_intros)+

interpretation energy_provider: cancellable_provider "compute_speech_slices_impl fa" for fa
  by unfold_locales (unfold compute_speech_slices_impl_def Let_def, (intro polled_intros)+)

end
