(* ===== verification/Longform_Auto.thy ===== *)
theory Longform_Auto
  imports Longform_Vad "HOL-Library.Product_Lexorder"
begin

text \<open>
  How the automatic modes choose a plan (\<open>crates/openasr-core/src/longform/slicing.rs\<close> and
  \<open>audibility.rs\<close>): candidate layouts are scored, a layout that drops audible audio is
  disqualified, and the cheapest of the others wins. The levels and the rounding of weighted
  levels are floating-point parameters; all counts and scores are integers. The provenance
  strings are left out.
\<close>

section \<open>Audibility\<close>

record audibility_reference =
  ar_speech_level_linear :: f32
  ar_threshold_linear :: f32
  ar_window_samples :: nat

function window_levels_loop :: "'a longform_arith \<Rightarrow> 'a list \<Rightarrow> nat \<Rightarrow> nat \<Rightarrow> nat \<Rightarrow> f32 list" where
  "window_levels_loop fa samples end_sample window_samples cursor =
     (if cursor < end_sample \<and> 0 < window_samples then
        (let window_end = min (cursor + window_samples) end_sample
         in la_rms fa (take (window_end - cursor) (drop cursor samples))
           # window_levels_loop fa samples end_sample window_samples window_end)
      else [])"
  by auto
termination window_levels_loop
  by (relation "measure (\<lambda>(fa, samples, end_sample, window_samples, cursor). end_sample - cursor)") auto

declare window_levels_loop.simps [simp del]

definition window_levels :: "'a longform_arith \<Rightarrow> 'a list \<Rightarrow> nat \<Rightarrow> nat \<Rightarrow> nat \<Rightarrow> f32 list" where
  "window_levels fa samples start end_sample window_samples =
     (let s = min start (length samples); e = min end_sample (length samples)
      in if e \<le> s \<or> window_samples = 0 then [] else window_levels_loop fa samples e window_samples s)"

definition audibility_for_plan :: "'a longform_arith \<Rightarrow> 'a list \<Rightarrow> nat \<Rightarrow> (nat \<times> nat) list \<Rightarrow> audibility_reference" where
  "audibility_for_plan fa samples rate kept_ranges =
     (let window_samples = max (la_seconds_to_samples fa (F_Num (1 / 2)) rate) 1;
          recording_levels = window_levels fa samples 0 (length samples) window_samples;
          kept_levels = concat (map (\<lambda>(s, e). window_levels fa samples s e window_samples) kept_ranges);
          (speech_level, threshold) =
            la_speech_threshold fa recording_levels (if kept_ranges = [] then None else Some kept_levels)
      in \<lparr>ar_speech_level_linear = speech_level, ar_threshold_linear = threshold, ar_window_samples = window_samples\<rparr>)"

definition is_audible :: "audibility_reference \<Rightarrow> f32 \<Rightarrow> bool" where
  "is_audible reference level = f32_lt (ar_threshold_linear reference) level"

function audible_window_loop ::
  "'a longform_arith \<Rightarrow> audibility_reference \<Rightarrow> 'a list \<Rightarrow> nat \<Rightarrow> nat \<Rightarrow> (nat \<times> nat \<times> f32) option" where
  "audible_window_loop fa reference samples end_sample cursor =
     (if cursor < end_sample \<and> 0 < ar_window_samples reference then
        (let window_end = min (cursor + ar_window_samples reference) end_sample;
             window_rms = la_rms fa (take (window_end - cursor) (drop cursor samples))
         in if is_audible reference window_rms then Some (cursor, window_end, window_rms)
            else audible_window_loop fa reference samples end_sample window_end)
      else None)"
  by auto
termination audible_window_loop
  by (relation "measure (\<lambda>(fa, reference, samples, end_sample, cursor). end_sample - cursor)") auto

declare audible_window_loop.simps [simp del]

definition find_audible_window ::
  "'a longform_arith \<Rightarrow> audibility_reference \<Rightarrow> 'a list \<Rightarrow> nat \<Rightarrow> nat \<Rightarrow> (nat \<times> nat \<times> f32) option" where
  "find_audible_window fa reference samples start end_sample =
     (let s = min start (length samples); e = min end_sample (length samples)
      in if e \<le> s then None else audible_window_loop fa reference samples e s)"

section \<open>Kept and dropped ranges\<close>

definition layout_uses_packed_timeline :: "'a longform_planning_layout \<Rightarrow> bool" where
  "layout_uses_packed_timeline layout \<longleftrightarrow> pl_processed_audio layout \<noteq> None \<or> pl_packed_audio_plan layout \<noteq> None"

definition layout_from_identity_slices :: "audio_slice list \<Rightarrow> 'a longform_planning_layout" where
  "layout_from_identity_slices slices =
     \<lparr>pl_slices = slices, pl_processed_audio = None, pl_packed_audio_plan = None, pl_timeline = [], pl_vad_speech_spans = None\<rparr>"

primrec merge_ranges :: "(nat \<times> nat) list \<Rightarrow> (nat \<times> nat) list \<Rightarrow> (nat \<times> nat) list" where
  "merge_ranges merged [] = merged"
| "merge_ranges merged (r # rs) =
     (if merged \<noteq> [] \<and> fst r \<le> snd (last merged)
      then merge_ranges (butlast merged @ [(fst (last merged), max (snd (last merged)) (snd r))]) rs
      else merge_ranges (merged @ [r]) rs)"

fun gaps_between :: "(nat \<times> nat) list \<Rightarrow> (nat \<times> nat) list" where
  "gaps_between (a # b # rs) = (snd a, fst b) # gaps_between (b # rs)"
| "gaps_between _ = []"

definition candidate_kept_and_dropped_ranges ::
  "'a longform_planning_layout \<Rightarrow> nat \<Rightarrow> (nat \<times> nat) list \<times> (nat \<times> nat) list" where
  "candidate_kept_and_dropped_ranges layout total_samples =
     (let kept = (case pl_packed_audio_plan layout of
                    Some plan \<Rightarrow> map (\<lambda>r. (min (vs_start_sample r) total_samples, min (vs_end_sample r) total_samples)) (pa_spans plan)
                  | None \<Rightarrow> map (\<lambda>s. (min (as_start_sample s) total_samples, min (as_end_sample s) total_samples)) (pl_slices layout));
          merged = merge_ranges [] (sort_key fst (filter (\<lambda>r. fst r < snd r) kept))
      in if merged = [] then (merged, if 0 < total_samples then [(0, total_samples)] else [])
         else (merged, (0, fst (hd merged)) # gaps_between merged @ [(snd (last merged), total_samples)]))"

definition layout_audibility_reference :: "'a longform_arith \<Rightarrow> 'a list \<Rightarrow> nat \<Rightarrow> 'a longform_planning_layout \<Rightarrow> audibility_reference" where
  "layout_audibility_reference fa samples rate layout =
     audibility_for_plan fa samples rate (fst (candidate_kept_and_dropped_ranges layout (length samples)))"

text \<open>\<open>find_map\<close>: the first audible window in the dropped ranges, if there is one.\<close>

primrec find_map :: "('b \<Rightarrow> 'c option) \<Rightarrow> 'b list \<Rightarrow> 'c option" where
  "find_map f [] = None"
| "find_map f (x # xs) = (case f x of Some y \<Rightarrow> Some y | None \<Rightarrow> find_map f xs)"

definition layout_drops_audible_content ::
  "'a longform_arith \<Rightarrow> 'a longform_planning_layout \<Rightarrow> 'a list \<Rightarrow> nat \<Rightarrow> (nat \<times> nat \<times> f32) option" where
  "layout_drops_audible_content fa layout samples rate =
     (if samples = [] then None
      else let reference = layout_audibility_reference fa samples rate layout
           in find_map (\<lambda>(s, e). find_audible_window fa reference samples s e)
                (snd (candidate_kept_and_dropped_ranges layout (length samples))))"

section \<open>Candidates and their scores\<close>

record 'a auto_plan_candidate =
  ac_kind :: audio_slice_kind
  ac_score :: nat
  ac_processed_samples :: nat
  ac_short_slice_penalty :: nat
  ac_boundary_penalty :: nat
  ac_elision_penalty :: nat
  ac_gap_edge_penalty :: nat
  ac_seam_penalty :: nat
  ac_extra_chunk_penalty :: nat
  ac_stability_bias :: nat
  ac_contextual_credit :: nat
  ac_contextual_penalty :: nat
  ac_layout :: "'a longform_planning_layout"

abbreviation ac_chunks :: "'a auto_plan_candidate \<Rightarrow> nat" where
  "ac_chunks c \<equiv> length (pl_slices (ac_layout c))"

abbreviation ac_packed :: "'a auto_plan_candidate \<Rightarrow> bool" where
  "ac_packed c \<equiv> layout_uses_packed_timeline (ac_layout c)"

definition u128_sat_add :: "nat \<Rightarrow> nat \<Rightarrow> nat" where
  "u128_sat_add a b = min (a + b) (u128_limit - 1)"

definition u64_sat_mul :: "nat \<Rightarrow> nat \<Rightarrow> nat" where
  "u64_sat_mul a b = min (a * b) (u64_limit - 1)"

text \<open>\<open>Iterator::sum\<close> of \<open>usize\<close> values in a release build.\<close>

definition usize_sum :: "nat list \<Rightarrow> nat" where
  "usize_sum xs = foldl u64_add 0 xs"

definition estimate_layout_processed_samples ::
  "'a longform_arith \<Rightarrow> 'a longform_planning_layout \<Rightarrow> nat \<Rightarrow> nat \<Rightarrow> longform_options \<Rightarrow> nat option" where
  "estimate_layout_processed_samples fa layout total_samples rate opts =
     (case pl_processed_audio layout of
        Some audio \<Rightarrow> Some (length audio)
      | None \<Rightarrow>
          (case pl_packed_audio_plan layout of
             Some plan \<Rightarrow> Some (max (usize_sum (map duration_samples (pl_slices layout))) (pa_processed_samples plan))
           | None \<Rightarrow> map_option (\<lambda>slices. usize_sum (map duration_samples slices))
                       (apply_padding fa (pl_slices layout) total_samples rate opts)))"

definition estimate_short_slice_penalty :: "'a longform_arith \<Rightarrow> audio_slice list \<Rightarrow> nat \<Rightarrow> longform_options \<Rightarrow> nat" where
  "estimate_short_slice_penalty fa slices rate opts =
     (let chunk = max (la_seconds_to_samples fa (lf_chunk_seconds opts) rate) 1;
          min_desired = max (chunk div 2) (u64_sat_mul (la_seconds_to_samples fa (lf_min_chunk_seconds opts) rate) 2)
      in usize_sum (map (\<lambda>s. min_desired - min (content_duration_samples s) min_desired) slices))"

text \<open>The literals \<open>0.20\<close>, \<open>0.15\<close> and \<open>0.10\<close> stand for the nearest \<open>f32\<close> values.\<close>

definition boundary_penalty_of ::
  "'a longform_arith \<Rightarrow> 'a list \<Rightarrow> 'a longform_planning_layout \<Rightarrow> nat \<Rightarrow> nat \<Rightarrow> nat \<Rightarrow> audio_slice \<Rightarrow> nat" where
  "boundary_penalty_of fa samples layout rate window_samples scale s =
     (let boundary_sample = la_original_of fa (pl_timeline layout) rate (as_content_end_sample s);
          half_window = window_samples div 2;
          start = min (boundary_sample - half_window) (length samples);
          end_sample = min (u64_add boundary_sample half_window) (length samples)
      in if end_sample \<le> start then 0
         else la_scale_round fa (la_rms fa (take (end_sample - start) (drop start samples))) scale)"

definition estimate_boundary_penalty ::
  "'a longform_arith \<Rightarrow> 'a list \<Rightarrow> 'a longform_planning_layout \<Rightarrow> nat \<Rightarrow> longform_options \<Rightarrow> nat" where
  "estimate_boundary_penalty fa samples layout rate opts =
     (if length (pl_slices layout) \<le> 1 \<or> samples = [] then 0
      else let chunk = max (la_seconds_to_samples fa (lf_chunk_seconds opts) rate) 1;
               window_samples = max (max (la_seconds_to_samples fa (F_Num (13421773 / 67108864)) rate)
                 (la_seconds_to_samples fa (f32_min (lf_overlap_seconds opts) (F_Num (13421773 / 67108864))) rate)) 1
           in usize_sum (map (boundary_penalty_of fa samples layout rate window_samples (max (chunk div 8) window_samples))
                (butlast (pl_slices layout))))"

definition elided_region_penalty :: "'a longform_arith \<Rightarrow> audibility_reference \<Rightarrow> 'a list \<Rightarrow> nat \<Rightarrow> nat \<Rightarrow> nat" where
  "elided_region_penalty fa reference samples gap_start gap_end =
     (let s = min gap_start (length samples); e = min gap_end (length samples)
      in if e \<le> s then 0
         else let gap_rms = la_rms fa (take (e - s) (drop s samples))
              in if \<not> is_audible reference gap_rms then 0
                 else la_excess_round fa gap_rms (ar_threshold_linear reference) (e - s))"

fun sum_gaps :: "(nat \<Rightarrow> nat \<Rightarrow> nat) \<Rightarrow> longform_vad_slice list \<Rightarrow> nat" where
  "sum_gaps f (a # b # rs) = u64_add (f (vs_end_sample a) (vs_start_sample b)) (sum_gaps f (b # rs))"
| "sum_gaps f _ = 0"

definition estimate_elision_penalty :: "'a longform_arith \<Rightarrow> 'a list \<Rightarrow> 'a longform_planning_layout \<Rightarrow> audibility_reference \<Rightarrow> nat" where
  "estimate_elision_penalty fa samples layout reference =
     (case pl_packed_audio_plan layout of
        None \<Rightarrow> 0
      | Some plan \<Rightarrow>
          if samples = [] \<or> pa_spans plan = [] then 0
          else u64_sat_add (u64_sat_add (elided_region_penalty fa reference samples 0 (vs_start_sample (hd (pa_spans plan))))
                 (elided_region_penalty fa reference samples (vs_end_sample (last (pa_spans plan))) (length samples)))
               (sum_gaps (elided_region_penalty fa reference samples) (pa_spans plan)))"

definition gap_edge_penalty_of :: "'a longform_arith \<Rightarrow> audibility_reference \<Rightarrow> 'a list \<Rightarrow> nat \<Rightarrow> nat \<Rightarrow> nat \<Rightarrow> nat \<Rightarrow> nat" where
  "gap_edge_penalty_of fa reference samples edge_window scale left right =
     (let gap_start = min left (length samples); gap_end = min right (length samples)
      in if gap_end \<le> gap_start then 0
         else let edge_len = max (min edge_window (max (gap_end - gap_start) 1 div 2)) 1;
                  left_end = min (gap_start + edge_len) (length samples);
                  right_start = min (gap_end - edge_len) (length samples)
              in if left_end \<le> gap_start \<or> gap_end \<le> right_start then 0
                 else la_edge_round fa (ar_threshold_linear reference)
                        (la_rms fa (take (left_end - gap_start) (drop gap_start samples)))
                        (la_rms fa (take (gap_end - right_start) (drop right_start samples))) scale)"

definition estimate_gap_edge_penalty ::
  "'a longform_arith \<Rightarrow> 'a list \<Rightarrow> 'a longform_planning_layout \<Rightarrow> nat \<Rightarrow> longform_options \<Rightarrow> audibility_reference \<Rightarrow> nat" where
  "estimate_gap_edge_penalty fa samples layout rate opts reference =
     (case pl_packed_audio_plan layout of
        None \<Rightarrow> 0
      | Some plan \<Rightarrow>
          if length (pa_spans plan) < 2 \<or> samples = [] then 0
          else let edge_window = max (la_seconds_to_samples fa (F_Num (5033165 / 33554432)) rate) 1;
                   chunk = max (la_seconds_to_samples fa (lf_chunk_seconds opts) rate) 1
               in sum_gaps (gap_edge_penalty_of fa reference samples edge_window (max (chunk div 16) edge_window)) (pa_spans plan))"

definition estimate_seam_penalty :: "'a longform_arith \<Rightarrow> 'a longform_planning_layout \<Rightarrow> nat \<Rightarrow> longform_options \<Rightarrow> nat" where
  "estimate_seam_penalty fa layout rate opts =
     (case pl_packed_audio_plan layout of
        None \<Rightarrow> 0
      | Some plan \<Rightarrow>
          (let seam_count = length (pa_spans plan) - length (pl_slices layout);
               chunk = max (la_seconds_to_samples fa (lf_chunk_seconds opts) rate) 1
           in if seam_count = 0 then 0
              else u64_sat_mul seam_count (max (max (chunk div 48) (pa_seam_samples plan))
                     (la_seconds_to_samples fa (F_Num (13421773 / 134217728)) rate))))"

definition stability_bias_of :: "audio_slice_kind \<Rightarrow> nat \<Rightarrow> nat" where
  "stability_bias_of kind chunk =
     (case kind of SliceEnergy \<Rightarrow> 0 | SliceVad \<Rightarrow> max (chunk div 64) 1 | SliceFixed \<Rightarrow> max (chunk div 48) 1 | SliceFull \<Rightarrow> 0)"

definition build_auto_plan_candidate ::
  "'a longform_arith \<Rightarrow> audio_slice_kind \<Rightarrow> 'a longform_planning_layout \<Rightarrow> 'a list \<Rightarrow> nat \<Rightarrow> longform_options
     \<Rightarrow> 'a auto_plan_candidate option" where
  "build_auto_plan_candidate fa kind layout samples rate opts =
     (case estimate_layout_processed_samples fa layout (length samples) rate opts of
        None \<Rightarrow> None
      | Some processed \<Rightarrow>
          (let short = estimate_short_slice_penalty fa (pl_slices layout) rate opts;
               boundary = estimate_boundary_penalty fa samples layout rate opts;
               audibility = layout_audibility_reference fa samples rate layout;
               elision = estimate_elision_penalty fa samples layout audibility;
               gap_edge = estimate_gap_edge_penalty fa samples layout rate opts audibility;
               seam = estimate_seam_penalty fa layout rate opts;
               chunk = max (la_seconds_to_samples fa (lf_chunk_seconds opts) rate) 1;
               per_chunk_overhead = max (chunk div 12) (max (la_seconds_to_samples fa (F_Num 1) rate) 1);
               extra_chunk = (length (pl_slices layout) - 1) * per_chunk_overhead;
               bias = stability_bias_of kind chunk
           in Some \<lparr>ac_kind = kind, ac_score = processed + short + boundary + elision + gap_edge + seam + extra_chunk + bias,
                ac_processed_samples = processed, ac_short_slice_penalty = short, ac_boundary_penalty = boundary,
                ac_elision_penalty = elision, ac_gap_edge_penalty = gap_edge, ac_seam_penalty = seam,
                ac_extra_chunk_penalty = extra_chunk, ac_stability_bias = bias,
                ac_contextual_credit = 0, ac_contextual_penalty = 0, ac_layout = layout\<rparr>))"

section \<open>Ranking\<close>

definition vad_dominated_by :: "'a auto_plan_candidate \<Rightarrow> 'a auto_plan_candidate \<Rightarrow> bool" where
  "vad_dominated_by c en \<longleftrightarrow> ac_packed en = ac_packed c \<and> ac_processed_samples en \<le> ac_processed_samples c
     \<and> ac_chunks en \<le> ac_chunks c \<and> ac_short_slice_penalty en \<le> ac_short_slice_penalty c
     \<and> ac_boundary_penalty en \<le> ac_boundary_penalty c \<and> ac_elision_penalty en \<le> ac_elision_penalty c
     \<and> ac_gap_edge_penalty en \<le> ac_gap_edge_penalty c \<and> ac_seam_penalty en \<le> ac_seam_penalty c"

definition prune_dominated_vad_candidates :: "'a auto_plan_candidate list \<Rightarrow> 'a auto_plan_candidate list" where
  "prune_dominated_vad_candidates candidates =
     (if \<not> list_ex (\<lambda>c. ac_kind c = SliceVad) candidates then candidates
      else filter (\<lambda>c. ac_kind c \<noteq> SliceVad
             \<or> \<not> list_ex (vad_dominated_by c) (filter (\<lambda>en. ac_kind en = SliceEnergy) candidates)) candidates)"

definition enforce_coverage_dominance ::
  "'a longform_arith \<Rightarrow> 'a auto_plan_candidate list \<Rightarrow> 'a list \<Rightarrow> nat \<Rightarrow> 'a auto_plan_candidate list" where
  "enforce_coverage_dominance fa candidates samples rate =
     (if length candidates < 2 then candidates
      else if list_all (\<lambda>c. layout_drops_audible_content fa (ac_layout c) samples rate \<noteq> None) candidates then candidates
      else filter (\<lambda>c. layout_drops_audible_content fa (ac_layout c) samples rate = None) candidates)"

definition add_contextual_penalty :: "nat option \<Rightarrow> 'a auto_plan_candidate \<Rightarrow> 'a auto_plan_candidate" where
  "add_contextual_penalty p c =
     (case p of
        None \<Rightarrow> c
      | Some v \<Rightarrow> c\<lparr>ac_contextual_penalty := u128_sat_add (ac_contextual_penalty c) v, ac_score := u128_sat_add (ac_score c) v\<rparr>)"

definition marginal_packed_penalty :: "nat \<Rightarrow> nat \<Rightarrow> 'a auto_plan_candidate \<Rightarrow> 'a auto_plan_candidate \<Rightarrow> nat option" where
  "marginal_packed_penalty threshold chunk c ident =
     (let savings = ac_processed_samples ident - ac_processed_samples c;
          extra_chunk_count = ac_chunks c - ac_chunks ident;
          savings_threshold = (if extra_chunk_count = 0 then threshold
            else u64_sat_add threshold (u64_sat_mul chunk extra_chunk_count))
      in if ac_kind ident = ac_kind c \<and> ac_chunks ident \<le> ac_chunks c \<and> ac_boundary_penalty ident \<le> ac_boundary_penalty c
            \<and> ac_elision_penalty ident \<le> ac_elision_penalty c \<and> ac_gap_edge_penalty ident \<le> ac_gap_edge_penalty c
            \<and> ac_seam_penalty ident \<le> ac_seam_penalty c \<and> ac_processed_samples c < ac_processed_samples ident
            \<and> savings < savings_threshold
         then Some (u128_sat_add (ac_score ident - ac_score c) 1) else None)"

definition apply_marginal_packed_penalties ::
  "'a longform_arith \<Rightarrow> 'a auto_plan_candidate list \<Rightarrow> nat \<Rightarrow> nat \<Rightarrow> longform_options \<Rightarrow> 'a auto_plan_candidate list" where
  "apply_marginal_packed_penalties fa candidates total_samples rate opts =
     (if length candidates < 2 then candidates
      else let chunk = max (la_seconds_to_samples fa (lf_chunk_seconds opts) rate) 1;
               threshold = max (total_samples div 20) (chunk div 8);
               identity = filter (\<lambda>c. \<not> ac_packed c) candidates
           in map (\<lambda>c. if ac_packed c then add_contextual_penalty (find_map (marginal_packed_penalty threshold chunk c) identity) c
                else c) candidates)"

definition marginal_vad_penalty :: "nat \<Rightarrow> 'a auto_plan_candidate \<Rightarrow> 'a auto_plan_candidate \<Rightarrow> nat option" where
  "marginal_vad_penalty threshold c en =
     (let savings = ac_processed_samples en - ac_processed_samples c
      in if ac_packed en = ac_packed c \<and> ac_chunks en = ac_chunks c \<and> ac_short_slice_penalty en \<le> ac_short_slice_penalty c
            \<and> ac_boundary_penalty en \<le> ac_boundary_penalty c \<and> ac_elision_penalty en \<le> ac_elision_penalty c
            \<and> ac_gap_edge_penalty en \<le> ac_gap_edge_penalty c \<and> ac_seam_penalty en \<le> ac_seam_penalty c
            \<and> ac_processed_samples c < ac_processed_samples en \<and> savings < threshold
         then Some (u128_sat_add (ac_score en - ac_score c) 1) else None)"

definition apply_marginal_vad_penalties ::
  "'a longform_arith \<Rightarrow> 'a auto_plan_candidate list \<Rightarrow> nat \<Rightarrow> nat \<Rightarrow> longform_options \<Rightarrow> 'a auto_plan_candidate list" where
  "apply_marginal_vad_penalties fa candidates total_samples rate opts =
     (if length candidates < 2 then candidates
      else let chunk = max (la_seconds_to_samples fa (lf_chunk_seconds opts) rate) 1;
               threshold = max (total_samples div 40) (chunk div 10);
               energy = filter (\<lambda>c. ac_kind c = SliceEnergy) candidates
           in map (\<lambda>c. if ac_kind c = SliceVad then add_contextual_penalty (find_map (marginal_vad_penalty threshold c) energy) c
                else c) candidates)"

definition boundary_credit :: "nat \<Rightarrow> 'a auto_plan_candidate \<Rightarrow> 'a auto_plan_candidate \<Rightarrow> nat option" where
  "boundary_credit threshold c en =
     (if ac_packed en \<noteq> ac_packed c \<or> ac_chunks en \<noteq> ac_chunks c then None
      else let candidate_cost = u64_sat_add (ac_boundary_penalty c) (ac_gap_edge_penalty c);
               energy_cost = u64_sat_add (ac_boundary_penalty en) (ac_gap_edge_penalty en);
               boundary_gain = energy_cost - candidate_cost;
               topology_overhead = u64_sat_add (ac_short_slice_penalty c - ac_short_slice_penalty en) (ac_seam_penalty c - ac_seam_penalty en);
               net_quality_gain = boundary_gain - topology_overhead
           in if net_quality_gain < threshold then None else Some (net_quality_gain - threshold div 2))"

definition apply_boundary_credit :: "nat option \<Rightarrow> 'a auto_plan_candidate \<Rightarrow> 'a auto_plan_candidate" where
  "apply_boundary_credit credit c =
     (case credit of
        None \<Rightarrow> c
      | Some v \<Rightarrow> if 0 < v then c\<lparr>ac_contextual_credit := u128_sat_add (ac_contextual_credit c) v, ac_score := ac_score c - v\<rparr> else c)"

definition apply_material_vad_boundary_credits ::
  "'a longform_arith \<Rightarrow> 'a auto_plan_candidate list \<Rightarrow> nat \<Rightarrow> longform_options \<Rightarrow> 'a auto_plan_candidate list" where
  "apply_material_vad_boundary_credits fa candidates rate opts =
     (if length candidates < 2 then candidates
      else let chunk = max (la_seconds_to_samples fa (lf_chunk_seconds opts) rate) 1;
               threshold = max (chunk div 1920) (rate div 80);
               energy = filter (\<lambda>c. ac_kind c = SliceEnergy) candidates
           in map (\<lambda>c. if ac_kind c = SliceVad
                then (let credits = List.map_filter (boundary_credit threshold c) energy
                      in apply_boundary_credit (if credits = [] then None else Some (Max (set credits))) c)
                else c) candidates)"

definition auto_plan_kind_rank :: "audio_slice_kind \<Rightarrow> nat" where
  "auto_plan_kind_rank kind = (case kind of SliceEnergy \<Rightarrow> 0 | SliceVad \<Rightarrow> 1 | SliceFixed \<Rightarrow> 2 | SliceFull \<Rightarrow> 3)"

definition candidate_key :: "'a auto_plan_candidate \<Rightarrow> nat \<times> nat \<times> nat \<times> nat \<times> nat" where
  "candidate_key c = (ac_score c, ac_processed_samples c, ac_short_slice_penalty c, ac_chunks c, auto_plan_kind_rank (ac_kind c))"

definition rank_auto_candidates ::
  "'a longform_arith \<Rightarrow> 'a auto_plan_candidate list \<Rightarrow> 'a list \<Rightarrow> nat \<Rightarrow> longform_options \<Rightarrow> 'a auto_plan_candidate list" where
  "rank_auto_candidates fa candidates samples rate opts =
     sort_key candidate_key
       (apply_material_vad_boundary_credits fa
         (apply_marginal_vad_penalties fa
           (apply_marginal_packed_penalties fa
             (enforce_coverage_dominance fa (prune_dominated_vad_candidates candidates) samples rate)
             (length samples) rate opts)
           (length samples) rate opts)
         rate opts)"


section \<open>Kept and dropped ranges are complements\<close>

definition in_ranges :: "(nat \<times> nat) list \<Rightarrow> nat \<Rightarrow> bool" where
  "in_ranges rs x \<longleftrightarrow> (\<exists>r \<in> set rs. fst r \<le> x \<and> x < snd r)"

lemma in_ranges_simps [simp]:
  "in_ranges [] x = False" "in_ranges (r # rs) x \<longleftrightarrow> fst r \<le> x \<and> x < snd r \<or> in_ranges rs x"
  "in_ranges (rs @ qs) x \<longleftrightarrow> in_ranges rs x \<or> in_ranges qs x"
  by (auto simp: in_ranges_def)

fun ranges_separated :: "(nat \<times> nat) list \<Rightarrow> bool" where
  "ranges_separated (a # b # rs) \<longleftrightarrow> fst a < snd a \<and> snd a < fst b \<and> ranges_separated (b # rs)"
| "ranges_separated [a] \<longleftrightarrow> fst a < snd a"
| "ranges_separated [] \<longleftrightarrow> True"

lemma ranges_separated_after: "ranges_separated (a # rs) \<Longrightarrow> in_ranges rs x \<Longrightarrow> snd a < x"
proof (induction rs arbitrary: a)
  case (Cons b rs)
  then show ?case by (cases rs) (auto dest: Cons.IH)
qed simp

lemma gaps_complement:
  assumes "ranges_separated rs" and "rs \<noteq> []" and "lo \<le> x" and "x < total_samples"
  shows "in_ranges ((lo, fst (hd rs)) # gaps_between rs @ [(snd (last rs), total_samples)]) x \<longleftrightarrow> \<not> in_ranges rs x"
  using assms
proof (induction rs arbitrary: lo rule: gaps_between.induct)
  case (1 a b rs)
  show ?case
  proof (cases "x < snd a")
    case True
    have "\<not> in_ranges (b # rs) x" using ranges_separated_after [OF "1.prems"(1), of x] True by auto
    moreover have "\<not> in_ranges (gaps_between (b # rs)) x \<and> \<not> (snd (last (b # rs)) \<le> x)"
      using True "1.prems"(1)
    proof (induction rs arbitrary: a b)
      case (Cons c rs)
      then show ?case using Cons.IH [of b c] by auto
    qed auto
    ultimately show ?thesis using True "1.prems" by auto
  next
    case False
    then show ?thesis using "1.IH" [of "snd a"] "1.prems" by auto
  qed
qed auto

lemma merge_ranges_separated:
  assumes "ranges_separated merged" and "sorted (map fst rs)" and "\<forall>r \<in> set rs. fst r < snd r"
    and "\<forall>r \<in> set rs. \<forall>q \<in> set merged. fst q \<le> fst r"
  shows "ranges_separated (merge_ranges merged rs) \<and> (\<forall>x. in_ranges (merge_ranges merged rs) x \<longleftrightarrow> in_ranges (merged @ rs) x)
    \<and> (merge_ranges merged rs = [] \<longleftrightarrow> merged = [] \<and> rs = [])"
  using assms
proof (induction rs arbitrary: merged)
  case (Cons r rs)
  have widen: "ranges_separated (qs @ [q]) \<Longrightarrow> snd q \<le> e \<Longrightarrow> ranges_separated (qs @ [(fst q, e)])" for qs q e
    by (induction qs rule: ranges_separated.induct) auto
  have append: "ranges_separated qs \<Longrightarrow> qs = [] \<or> snd (last qs) < fst r \<Longrightarrow> fst r < snd r \<Longrightarrow> ranges_separated (qs @ [r])" for qs
    by (induction qs rule: ranges_separated.induct) auto
  show ?case
  proof (cases "merged \<noteq> [] \<and> fst r \<le> snd (last merged)")
    case True
    define qs q where "qs = butlast merged" and "q = last merged"
    have m: "merged = qs @ [q]" using True by (simp add: qs_def q_def)
    define new where "new = qs @ [(fst q, max (snd q) (snd r))]"
    have "ranges_separated new" unfolding new_def using widen [of qs q] Cons.prems(1) m by simp
    moreover have "\<forall>s \<in> set rs. \<forall>p \<in> set new. fst p \<le> fst s" using Cons.prems(4) m by (auto simp: new_def)
    moreover have "fst q \<le> fst r" using Cons.prems(4) m by simp
    ultimately have ih: "ranges_separated (merge_ranges new rs)" "\<forall>x. in_ranges (merge_ranges new rs) x \<longleftrightarrow> in_ranges (new @ rs) x"
        "merge_ranges new rs \<noteq> []"
      using Cons.IH [of new] Cons.prems(2,3) by (simp_all add: new_def)
    have "in_ranges (new @ rs) x \<longleftrightarrow> in_ranges (merged @ r # rs) x" for x
      using \<open>fst q \<le> fst r\<close> True unfolding m new_def by (auto simp: less_max_iff_disj)
    moreover have "merge_ranges merged (r # rs) = merge_ranges new rs"
      using True by (simp add: new_def qs_def q_def)
    ultimately show ?thesis using ih by simp
  next
    case False
    then have "ranges_separated (merged @ [r])" using append [of merged] Cons.prems(1,3) by auto
    then show ?thesis using Cons.IH [of "merged @ [r]"] Cons.prems(2-4) False by auto
  qed
qed simp

definition layout_keeps :: "'a longform_planning_layout \<Rightarrow> nat \<Rightarrow> bool" where
  "layout_keeps layout x \<longleftrightarrow> (case pl_packed_audio_plan layout of
      Some plan \<Rightarrow> covered (pa_spans plan) x | None \<Rightarrow> slices_cover (pl_slices layout) x)"

lemma dropped_iff_not_kept:
  assumes "x < total_samples"
  shows "(in_ranges (snd (candidate_kept_and_dropped_ranges layout total_samples)) x \<longleftrightarrow> \<not> layout_keeps layout x)
    \<and> (in_ranges (fst (candidate_kept_and_dropped_ranges layout total_samples)) x \<longleftrightarrow> layout_keeps layout x)"
proof -
  define kept where "kept = (case pl_packed_audio_plan layout of
      Some plan \<Rightarrow> map (\<lambda>r. (min (vs_start_sample r) total_samples, min (vs_end_sample r) total_samples)) (pa_spans plan)
    | None \<Rightarrow> map (\<lambda>s. (min (as_start_sample s) total_samples, min (as_end_sample s) total_samples)) (pl_slices layout))"
  have clip: "min a total_samples \<le> x \<longleftrightarrow> a \<le> x" for a using assms by linarith
  define ranges where "ranges = sort_key fst (filter (\<lambda>r. fst r < snd r) kept)"
  define merged where "merged = merge_ranges [] ranges"
  have eq: "candidate_kept_and_dropped_ranges layout total_samples =
      (if merged = [] then (merged, if 0 < total_samples then [(0, total_samples)] else [])
       else (merged, (0, fst (hd merged)) # gaps_between merged @ [(snd (last merged), total_samples)]))"
    unfolding candidate_kept_and_dropped_ranges_def kept_def merged_def ranges_def Let_def ..
  have ranges: "sorted (map fst ranges)" "set ranges = {r \<in> set kept. fst r < snd r}" by (simp_all add: ranges_def)
  have merged: "ranges_separated merged" "in_ranges merged x \<longleftrightarrow> in_ranges ranges x"
    using merge_ranges_separated [OF _ ranges(1), of "[]"] ranges(2) unfolding merged_def by simp_all
  have "in_ranges ranges x \<longleftrightarrow> in_ranges kept x" unfolding in_ranges_def ranges(2) by (blast intro: le_less_trans)
  then have "in_ranges merged x \<longleftrightarrow> in_ranges kept x" by (simp only: merged(2))
  also have "\<dots> \<longleftrightarrow> layout_keeps layout x"
    by (simp add: kept_def layout_keeps_def in_ranges_def covered_def slices_cover_def clip assms split: option.split)
  finally have keep: "in_ranges merged x \<longleftrightarrow> layout_keeps layout x" .
  have "in_ranges (snd (candidate_kept_and_dropped_ranges layout total_samples)) x \<longleftrightarrow> \<not> in_ranges merged x"
  proof (cases "merged = []")
    case True
    then show ?thesis using assms by (simp add: eq)
  next
    case False
    then show ?thesis using gaps_complement [OF merged(1) False _ assms, of 0] by (simp only: eq if_False snd_conv)
  qed
  moreover have "fst (candidate_kept_and_dropped_ranges layout total_samples) = merged" by (simp add: eq)
  ultimately show ?thesis using keep by simp
qed

text \<open>
  The ranges a layout is charged for dropping are exact: a sample of the recording lies in a
  dropped range if and only if no kept span or slice holds it, and it lies in a kept range otherwise.
\<close>

theorem dropped_ranges_are_complement:
  assumes "x < total_samples"
  shows "(in_ranges (snd (candidate_kept_and_dropped_ranges layout total_samples)) x \<longleftrightarrow> \<not> layout_keeps layout x)
    \<and> (in_ranges (fst (candidate_kept_and_dropped_ranges layout total_samples)) x \<longleftrightarrow> layout_keeps layout x)"
  by (rule dropped_iff_not_kept [OF assms])


theorem dropped_ranges_are_complement_witness:
  "in_ranges (snd (candidate_kept_and_dropped_ranges (layout_from_identity_slices
      [content_slice SliceVad 0 10 20, content_slice SliceVad 1 15 30, content_slice SliceVad 2 40 50]
        :: rat longform_planning_layout) 60)) 35"
proof -
  let ?l = "layout_from_identity_slices
    [content_slice SliceVad 0 10 20, content_slice SliceVad 1 15 30, content_slice SliceVad 2 40 50] :: rat longform_planning_layout"
  have "\<not> layout_keeps ?l 35" by (simp add: layout_keeps_def layout_from_identity_slices_def slices_cover_def)
  then show ?thesis using dropped_ranges_are_complement [of 35 60 ?l] by simp
qed

section \<open>The chosen candidate\<close>

text \<open>Only a range that is empty after clipping to the recording holds no audible window.\<close>

lemma find_map_None: "find_map f xs = None \<longleftrightarrow> (\<forall>x \<in> set xs. f x = None)"
  by (induction xs) (auto split: option.split)

lemma dropped_ranges_inside:
  assumes "r \<in> set (snd (candidate_kept_and_dropped_ranges layout total_samples))" and "fst r < snd r" and "fst r < total_samples"
  shows "\<not> layout_keeps layout (fst r)"
  using dropped_iff_not_kept [OF assms(3)] assms(1,2) by (auto simp: in_ranges_def)


lemma covering_layout_drops_nothing:
  assumes "\<forall>x < length samples. layout_keeps layout x"
  shows "layout_drops_audible_content fa layout samples rate = None"
proof -
  have "find_audible_window fa reference samples (fst r) (snd r) = None"
    if "r \<in> set (snd (candidate_kept_and_dropped_ranges layout (length samples)))" for reference r
  proof -
    have "\<not> (fst r < snd r \<and> fst r < length samples)" using dropped_ranges_inside [OF that] assms by blast
    then have "min (snd r) (length samples) \<le> min (fst r) (length samples)" by linarith
    then show ?thesis by (simp only: find_audible_window_def Let_def if_True)
  qed
  then show ?thesis by (simp add: layout_drops_audible_content_def Let_def find_map_None case_prod_beta)
qed

lemma adjustments_keep_layouts:
  "map ac_layout (apply_marginal_packed_penalties fa cs total_samples rate opts) = map ac_layout cs"
  "map ac_layout (apply_marginal_vad_penalties fa cs total_samples rate opts) = map ac_layout cs"
  "map ac_layout (apply_material_vad_boundary_credits fa cs rate opts) = map ac_layout cs"
  by (simp_all add: apply_marginal_packed_penalties_def apply_marginal_vad_penalties_def apply_material_vad_boundary_credits_def
      add_contextual_penalty_def apply_boundary_credit_def Let_def split: option.split)

lemma rank_layouts:
  "set (map ac_layout (rank_auto_candidates fa cs samples rate opts))
    = set (map ac_layout (enforce_coverage_dominance fa (prune_dominated_vad_candidates cs) samples rate))"
proof -
  have "set (map ac_layout (sort_key candidate_key xs)) = set (map ac_layout xs)" for xs :: "'a auto_plan_candidate list" by simp
  then show ?thesis unfolding rank_auto_candidates_def by (simp only: adjustments_keep_layouts)
qed

lemma prune_keeps_energy:
  "c \<in> set cs \<Longrightarrow> ac_kind c = SliceEnergy \<Longrightarrow> c \<in> set (prune_dominated_vad_candidates cs)"
  "set (prune_dominated_vad_candidates cs) \<subseteq> set cs"
  by (auto simp: prune_dominated_vad_candidates_def)

lemma coverage_dominance_sound:
  assumes "c \<in> set cs" and "layout_drops_audible_content fa (ac_layout c) samples rate = None"
    and "d \<in> set (enforce_coverage_dominance fa cs samples rate)"
  shows "d \<in> set cs \<and> layout_drops_audible_content fa (ac_layout d) samples rate = None"
proof (cases "length cs < 2")
  case True
  then have "cs = [c]" using assms(1) by (cases cs) auto
  then show ?thesis using assms True by (simp add: enforce_coverage_dominance_def)
next
  case False
  then show ?thesis using assms by (auto simp: enforce_coverage_dominance_def list_all_iff split: if_splits)
qed

lemma coverage_dominance_keeps:
  "c \<in> set cs \<Longrightarrow> layout_drops_audible_content fa (ac_layout c) samples rate = None
    \<Longrightarrow> c \<in> set (enforce_coverage_dominance fa cs samples rate)"
  by (simp add: enforce_coverage_dominance_def)

text \<open>
  Coverage dominance: if some energy candidate keeps the whole recording, then whatever the
  scores, penalties and credits are, the ranking is not empty, and every plan in it, the winner
  included, is one of the candidates and drops no audible audio.
\<close>

lemma ranking_never_drops_audible:
  assumes "c \<in> set candidates" and "ac_kind c = SliceEnergy" and "\<forall>x < length samples. layout_keeps (ac_layout c) x"
  shows "rank_auto_candidates fa candidates samples rate opts \<noteq> []
    \<and> (\<forall>w \<in> set (rank_auto_candidates fa candidates samples rate opts).
         ac_layout w \<in> ac_layout ` set candidates \<and> layout_drops_audible_content fa (ac_layout w) samples rate = None)"
proof -
  let ?p = "prune_dominated_vad_candidates candidates"
  have c: "c \<in> set ?p" "layout_drops_audible_content fa (ac_layout c) samples rate = None"
    using prune_keeps_energy(1) [OF assms(1,2)] covering_layout_drops_nothing [OF assms(3)] by simp_all
  have kept: "c \<in> set (enforce_coverage_dominance fa ?p samples rate)" using coverage_dominance_keeps [OF c] .
  note layouts = rank_layouts [of fa candidates samples rate opts]
  have "ac_layout c \<in> set (map ac_layout (rank_auto_candidates fa candidates samples rate opts))" unfolding layouts using kept by simp
  moreover have "ac_layout w \<in> ac_layout ` set candidates \<and> layout_drops_audible_content fa (ac_layout w) samples rate = None"
    if "w \<in> set (rank_auto_candidates fa candidates samples rate opts)" for w
  proof -
    have "ac_layout w \<in> set (map ac_layout (rank_auto_candidates fa candidates samples rate opts))" using that by simp
    then obtain d where "d \<in> set (enforce_coverage_dominance fa ?p samples rate)" "ac_layout w = ac_layout d"
      unfolding layouts by auto
    then show ?thesis using coverage_dominance_sound [OF c] prune_keeps_energy(2) [of candidates] by auto
  qed
  ultimately show ?thesis by auto
qed

text \<open>
  The loop of the fixed mode merges a short tail into the last slice by moving the end of its
  content only (\<open>last.content_end_sample = total_samples\<close>). Padding rebuilds the decoded window from
  the content afterwards, but the ranking reads the decoded window before that, so for a fixed
  candidate with a merged tail it counts audio as dropped that the plan keeps.
\<close>

lemma merged_tail_counts_as_dropped:
  "fixed_loop 302 300 5 10 600 0 [] = [(content_slice SliceFixed 0 0 300)\<lparr>as_content_end_sample := 302\<rparr>]"
  "snd (candidate_kept_and_dropped_ranges (layout_from_identity_slices (fixed_loop 302 300 5 10 600 0 [])) 302) = [(0, 0), (300, 302)]"
proof -
  show l: "fixed_loop 302 300 5 10 600 0 [] = [(content_slice SliceFixed 0 0 300)\<lparr>as_content_end_sample := 302\<rparr>]"
    by (simp add: fixed_loop.simps executor_window_end_def advance_window_start_def content_slice_def u64_add_def u64_sat_add_def Let_def)
  show "snd (candidate_kept_and_dropped_ranges (layout_from_identity_slices (fixed_loop 302 300 5 10 600 0 [])) 302) = [(0, 0), (300, 302)]"
    unfolding l by (simp add: candidate_kept_and_dropped_ranges_def layout_from_identity_slices_def content_slice_def Let_def)
qed

end
