(* ===== verification/Longform_Planner.thy ===== *)
theory Longform_Planner
  imports Longform_Auto
begin

text \<open>
  The planner of long recordings (\<open>crates/openasr-core/src/longform/slicing.rs\<close>): the modes, the
  automatic choice between layouts, the decode gate, cancellation and the materialization of
  packed audio. The provider of speech spans is a parameter whose contracts are the locales
  \<open>speech_provider\<close> and \<open>cancellable_provider\<close>; the admission of packed audio is a parameter without a contract.
\<close>

section \<open>Errors and providers\<close>

datatype longform_slice_error =
    SliceCanceled
  | InvalidSampleRate
  | InvalidOptions longform_options_error
  | VadUnavailable
  | VadFailed string

datatype 'e slice_planning_error = Planning longform_slice_error | PackedAudioAdmission 'e

datatype vad_provider_kind = ProviderCustom | ProviderEnergyLike

record 'a vad_provider =
  vp_kind :: vad_provider_kind
  vp_compute :: "(nat \<Rightarrow> bool) \<Rightarrow> 'a list \<Rightarrow> nat \<Rightarrow> longform_options \<Rightarrow> (longform_vad_provider_error, longform_vad_slice list) polled"

text \<open>The cancellation-aware default of the trait, around a provider that only computes.\<close>

definition compute_speech_slices_cancellable ::
  "('a list \<Rightarrow> nat \<Rightarrow> longform_options \<Rightarrow> string + longform_vad_slice list) \<Rightarrow> (nat \<Rightarrow> bool) \<Rightarrow> 'a list \<Rightarrow> nat \<Rightarrow> longform_options
     \<Rightarrow> (longform_vad_provider_error, longform_vad_slice list) polled" where
  "compute_speech_slices_cancellable compute_speech_slices canceled samples rate opts =
     p_bind (poll canceled VadCanceled) (\<lambda>_.
       case compute_speech_slices samples rate opts of
         Inl reason \<Rightarrow> p_fail (VadProviderFailed reason)
       | Inr slices \<Rightarrow> p_bind (poll canceled VadCanceled) (\<lambda>_. p_return slices))"

fun map_vad_provider_error :: "longform_vad_provider_error \<Rightarrow> longform_slice_error" where
  "map_vad_provider_error VadCanceled = SliceCanceled"
| "map_vad_provider_error (VadProviderFailed reason) = VadFailed reason"

definition check_planning_canceled :: "(nat \<Rightarrow> bool) \<Rightarrow> (longform_slice_error, unit) polled" where
  "check_planning_canceled canceled = poll canceled SliceCanceled"

section \<open>Layouts of the modes\<close>

definition speech_spans_of ::
  "'a vad_provider \<Rightarrow> (nat \<Rightarrow> bool) \<Rightarrow> 'a list \<Rightarrow> nat \<Rightarrow> longform_options \<Rightarrow> (longform_slice_error, longform_vad_slice list) polled" where
  "speech_spans_of provider canceled samples rate opts =
     p_bind (p_map_err map_vad_provider_error (vp_compute provider canceled samples rate opts)) (\<lambda>spans.
     p_bind (check_planning_canceled canceled) (\<lambda>_. p_return spans))"

definition energy_vad_provider :: "'a longform_arith \<Rightarrow> 'a vad_provider" where
  "energy_vad_provider fa = \<lparr>vp_kind = ProviderEnergyLike, vp_compute = compute_speech_slices_impl fa\<rparr>"

definition plan_vad_slices ::
  "'a longform_arith \<Rightarrow> 'a list \<Rightarrow> nat \<Rightarrow> longform_options \<Rightarrow> 'a vad_provider option \<Rightarrow> (nat \<Rightarrow> bool)
     \<Rightarrow> (longform_slice_error, audio_slice list) polled" where
  "plan_vad_slices fa samples rate opts vad_provider canceled =
     p_bind (check_planning_canceled canceled) (\<lambda>_.
       case vad_provider of
         None \<Rightarrow>
           if lf_fallback_to_energy_when_vad_unavailable opts then p_lift (plan_energy_slices fa samples rate opts)
           else p_fail VadUnavailable
       | Some provider \<Rightarrow>
           p_bind (speech_spans_of provider canceled samples rate opts) (\<lambda>spans.
             if spans = []
             then (if lf_fallback_to_energy_when_vad_empty opts then p_lift (plan_energy_slices fa samples rate opts) else p_return [])
             else p_bind (p_lift (plan_vad_slices_from_speech_spans fa samples rate opts spans)) (\<lambda>slices.
                    if slices = [] \<and> lf_fallback_to_energy_when_vad_empty opts then p_lift (plan_energy_slices fa samples rate opts)
                    else p_return slices)))"

definition plan_packed_energy_layout ::
  "'a longform_arith \<Rightarrow> 'a list \<Rightarrow> nat \<Rightarrow> longform_options \<Rightarrow> (nat \<Rightarrow> bool)
     \<Rightarrow> (longform_slice_error, 'a longform_planning_layout option) polled" where
  "plan_packed_energy_layout fa samples rate opts canceled =
     p_bind (speech_spans_of (energy_vad_provider fa) canceled samples rate opts) (\<lambda>spans.
       p_lift (plan_packed_layout_from_speech_spans fa samples rate opts SliceEnergy spans))"

definition candidates_of ::
  "'a longform_arith \<Rightarrow> audio_slice_kind \<Rightarrow> 'a longform_planning_layout option \<Rightarrow> 'a list \<Rightarrow> nat \<Rightarrow> longform_options
     \<Rightarrow> (longform_slice_error, 'a auto_plan_candidate list) polled" where
  "candidates_of fa kind layout samples rate opts =
     (case layout of
        None \<Rightarrow> p_return []
      | Some l \<Rightarrow> p_bind (p_lift (build_auto_plan_candidate fa kind l samples rate opts)) (\<lambda>c. p_return [c]))"

definition identity_layout_of :: "audio_slice list \<Rightarrow> 'a longform_planning_layout option" where
  "identity_layout_of slices = (if slices = [] then None else Some (layout_from_identity_slices slices))"

text \<open>The request's provider, if it detects speech by other means than energy.\<close>

definition speech_detecting :: "'a vad_provider option \<Rightarrow> 'a vad_provider option" where
  "speech_detecting vad_provider =
     (case vad_provider of None \<Rightarrow> None | Some p \<Rightarrow> if vp_kind p \<noteq> ProviderEnergyLike then Some p else None)"

definition vad_candidates ::
  "'a longform_arith \<Rightarrow> 'a list \<Rightarrow> nat \<Rightarrow> longform_options \<Rightarrow> 'a vad_provider option \<Rightarrow> (nat \<Rightarrow> bool)
     \<Rightarrow> (longform_slice_error, longform_vad_slice list option \<times> 'a auto_plan_candidate list) polled" where
  "vad_candidates fa samples rate opts vad_provider canceled =
     (case speech_detecting vad_provider of
        None \<Rightarrow> p_return (None, [])
      | Some provider \<Rightarrow>
          p_bind (speech_spans_of provider canceled samples rate opts) (\<lambda>spans.
          p_bind (p_lift (plan_packed_layout_from_speech_spans fa samples rate opts SliceVad spans)) (\<lambda>packed.
          p_bind (candidates_of fa SliceVad packed samples rate opts) (\<lambda>packed_candidates.
          p_bind (p_lift (plan_vad_slices_from_speech_spans fa samples rate opts spans)) (\<lambda>slices.
          p_bind (candidates_of fa SliceVad (identity_layout_of slices) samples rate opts) (\<lambda>slice_candidates.
          p_return (Some spans, packed_candidates @ slice_candidates)))))))"

definition has_speech :: "longform_vad_slice list \<Rightarrow> bool" where
  "has_speech spans \<longleftrightarrow> list_ex (\<lambda>r. vs_start_sample r < vs_end_sample r) spans"

definition winner_layout :: "nat \<Rightarrow> 'a auto_plan_candidate list \<Rightarrow> 'a longform_planning_layout" where
  "winner_layout total_samples ranked =
     (case ranked of [] \<Rightarrow> layout_from_identity_slices [full_slice total_samples] | c # _ \<Rightarrow> ac_layout c)"

text \<open>The candidates both automatic modes start with, and those of the full automatic mode.\<close>

definition energy_candidates ::
  "'a longform_arith \<Rightarrow> 'a list \<Rightarrow> nat \<Rightarrow> longform_options \<Rightarrow> (nat \<Rightarrow> bool) \<Rightarrow> (longform_slice_error, 'a auto_plan_candidate list) polled" where
  "energy_candidates fa samples rate opts canceled =
     p_bind (p_lift (plan_energy_slices fa samples rate opts)) (\<lambda>slices.
     p_bind (candidates_of fa SliceEnergy (Some (layout_from_identity_slices slices)) samples rate opts) (\<lambda>energy.
     p_bind (check_planning_canceled canceled) (\<lambda>_.
     p_bind (plan_packed_energy_layout fa samples rate opts canceled) (\<lambda>packed_layout.
     p_bind (candidates_of fa SliceEnergy packed_layout samples rate opts) (\<lambda>packed.
     p_return (energy @ packed))))))"

definition auto_candidates ::
  "'a longform_arith \<Rightarrow> 'a list \<Rightarrow> nat \<Rightarrow> longform_options \<Rightarrow> 'a vad_provider option \<Rightarrow> (nat \<Rightarrow> bool)
     \<Rightarrow> (longform_slice_error, longform_vad_slice list option \<times> 'a auto_plan_candidate list) polled" where
  "auto_candidates fa samples rate opts vad_provider canceled =
     p_bind (energy_candidates fa samples rate opts canceled) (\<lambda>energy.
     p_bind (check_planning_canceled canceled) (\<lambda>_.
     p_bind (p_lift (plan_fixed_slices fa (length samples) rate opts)) (\<lambda>fixed_slices.
     p_bind (candidates_of fa SliceFixed (identity_layout_of fixed_slices) samples rate opts) (\<lambda>fixed.
     p_bind (check_planning_canceled canceled) (\<lambda>_.
     p_bind (vad_candidates fa samples rate opts vad_provider canceled) (\<lambda>(vad_spans, vad).
     p_return (vad_spans, energy @ fixed @ vad)))))))"

text \<open>The spans are carried for the decode gate only with an identity timeline and some speech.\<close>

definition carried_spans :: "longform_vad_slice list option \<Rightarrow> 'a auto_plan_candidate list \<Rightarrow> longform_vad_slice list option" where
  "carried_spans vad_spans ranked =
     (let winning_packed = (case ranked of [] \<Rightarrow> False | c # _ \<Rightarrow> ac_packed c)
      in case vad_spans of
           Some spans \<Rightarrow> if has_speech spans \<and> \<not> winning_packed then Some spans else None
         | None \<Rightarrow> None)"

definition auto_winner ::
  "nat \<Rightarrow> longform_vad_slice list option \<Rightarrow> 'a auto_plan_candidate list \<Rightarrow> 'a longform_planning_layout" where
  "auto_winner total_samples vad_spans ranked =
     (case ranked of
        [] \<Rightarrow> layout_from_identity_slices [full_slice total_samples]
      | c # _ \<Rightarrow> (ac_layout c)\<lparr>pl_vad_speech_spans := carried_spans vad_spans ranked\<rparr>)"

definition plan_auto_slices ::
  "'a longform_arith \<Rightarrow> 'a list \<Rightarrow> nat \<Rightarrow> longform_options \<Rightarrow> 'a vad_provider option \<Rightarrow> (nat \<Rightarrow> bool)
     \<Rightarrow> (longform_slice_error, 'a longform_planning_layout) polled" where
  "plan_auto_slices fa samples rate opts vad_provider canceled =
     p_bind (check_planning_canceled canceled) (\<lambda>_.
     p_bind (p_lift (max_chunk_samples fa opts rate)) (\<lambda>m.
       if length samples \<le> min (la_seconds_to_samples fa (lf_chunk_seconds opts) rate) m
       then p_return (layout_from_identity_slices [full_slice (length samples)])
       else
         p_bind (auto_candidates fa samples rate opts vad_provider canceled) (\<lambda>(vad_spans, candidates).
         p_bind (check_planning_canceled canceled) (\<lambda>_.
         p_bind (check_planning_canceled canceled) (\<lambda>_.
         p_return (auto_winner (length samples) vad_spans (rank_auto_candidates fa candidates samples rate opts)))))))"

definition would_skip_sustained_audible ::
  "'a longform_arith \<Rightarrow> audibility_reference \<Rightarrow> 'a list \<Rightarrow> longform_vad_slice list \<Rightarrow> audio_slice \<Rightarrow> bool" where
  "would_skip_sustained_audible fa reference samples spans s =
     (case vad_speech_spans_overlap_samples (Some spans) s of
        None \<Rightarrow> False
      | Some overlap \<Rightarrow>
          if 8000 \<le> overlap then False
          else case find_audible_window fa reference samples (as_start_sample s) (as_end_sample s) of
                 None \<Rightarrow> False
               | Some (_, window_end, _) \<Rightarrow> find_audible_window fa reference samples window_end (as_end_sample s) \<noteq> None)"

definition attach_energy_auto_decode_gate ::
  "'a longform_arith \<Rightarrow> 'a longform_planning_layout \<Rightarrow> 'a vad_provider option \<Rightarrow> 'a list \<Rightarrow> nat \<Rightarrow> longform_options \<Rightarrow> (nat \<Rightarrow> bool)
     \<Rightarrow> (longform_slice_error, 'a longform_planning_layout) polled" where
  "attach_energy_auto_decode_gate fa layout vad_provider samples rate opts canceled =
     (if layout_uses_packed_timeline layout then p_return layout
      else case speech_detecting vad_provider of
        Some provider \<Rightarrow>
          p_bind (speech_spans_of provider canceled samples rate opts) (\<lambda>spans.
            p_return (if has_speech spans
              then layout\<lparr>pl_slices := snd (reanchor_energy_auto_slice_heads fa (pl_slices layout) spans rate),
                          pl_vad_speech_spans := Some spans\<rparr>
              else layout))
      | None \<Rightarrow>
          p_bind (speech_spans_of (energy_vad_provider fa) canceled samples rate opts) (\<lambda>spans.
            p_return (if \<not> has_speech spans then layout
              else if list_ex (would_skip_sustained_audible fa (layout_audibility_reference fa samples rate layout) samples spans)
                        (pl_slices layout) then layout
              else layout\<lparr>pl_vad_speech_spans := Some spans\<rparr>)))"

definition plan_energy_auto_slices ::
  "'a longform_arith \<Rightarrow> 'a list \<Rightarrow> nat \<Rightarrow> longform_options \<Rightarrow> 'a vad_provider option \<Rightarrow> (nat \<Rightarrow> bool)
     \<Rightarrow> (longform_slice_error, 'a longform_planning_layout) polled" where
  "plan_energy_auto_slices fa samples rate opts vad_provider canceled =
     p_bind (check_planning_canceled canceled) (\<lambda>_.
     p_bind (p_lift (max_chunk_samples fa opts rate)) (\<lambda>m.
       if length samples \<le> min (la_seconds_to_samples fa (lf_chunk_seconds opts) rate) m
       then p_return (layout_from_identity_slices [full_slice (length samples)])
       else
         p_bind (energy_candidates fa samples rate opts canceled) (\<lambda>candidates.
         p_bind (check_planning_canceled canceled) (\<lambda>_.
           attach_energy_auto_decode_gate fa
             (winner_layout (length samples) (rank_auto_candidates fa candidates samples rate opts))
             vad_provider samples rate opts canceled))))"

definition layout_of_mode ::
  "'a longform_arith \<Rightarrow> 'a list \<Rightarrow> nat \<Rightarrow> longform_options \<Rightarrow> 'a vad_provider option \<Rightarrow> (nat \<Rightarrow> bool)
     \<Rightarrow> (longform_slice_error, 'a longform_planning_layout) polled" where
  "layout_of_mode fa samples rate opts vad_provider canceled =
     (let identity = \<lambda>slices. p_bind slices (\<lambda>s. p_return (layout_from_identity_slices s))
      in case lf_mode opts of
        ModeOff \<Rightarrow> p_return (layout_from_identity_slices [full_slice (length samples)])
      | ModeFixed \<Rightarrow> identity (p_lift (plan_fixed_slices fa (length samples) rate opts))
      | ModeEnergy \<Rightarrow> identity (p_lift (plan_energy_slices fa samples rate opts))
      | ModeEnergyAuto \<Rightarrow> plan_energy_auto_slices fa samples rate opts vad_provider canceled
      | ModeVad \<Rightarrow> identity (plan_vad_slices fa samples rate opts vad_provider canceled)
      | ModeAuto \<Rightarrow> plan_auto_slices fa samples rate opts vad_provider canceled)"

section \<open>The plan\<close>

record 'a longform_slice_plan =
  sp_sample_rate_hz :: nat
  sp_total_samples :: nat
  sp_slices :: "audio_slice list"
  sp_processed_audio :: "'a list option"
  sp_timeline :: "(nat \<times> nat) list"
  sp_chunk_count :: nat
  sp_vad_speech_spans :: "longform_vad_slice list option"

definition materialize_cancellable ::
  "'a list \<Rightarrow> 'a \<Rightarrow> packed_audio_plan \<Rightarrow> (nat \<Rightarrow> bool) \<Rightarrow> (longform_slice_error, 'a list) polled" where
  "materialize_cancellable samples silence plan canceled =
     p_bind (poll_times canceled SliceCanceled (length (pa_spans plan))) (\<lambda>_.
     p_bind (check_planning_canceled canceled) (\<lambda>_.
     p_lift (materialize_packed_audio samples silence plan)))"

definition finish_layout ::
  "'a longform_arith \<Rightarrow> 'a \<Rightarrow> 'a longform_planning_layout \<Rightarrow> 'a list \<Rightarrow> nat \<Rightarrow> longform_options \<Rightarrow> (nat \<Rightarrow> bool) \<Rightarrow> (nat \<Rightarrow> 'e + unit)
     \<Rightarrow> ('e slice_planning_error, 'a longform_planning_layout) polled" where
  "finish_layout fa silence layout samples rate opts canceled admit_packed_samples =
     (if pl_processed_audio layout \<noteq> None then p_return layout
      else case pl_packed_audio_plan layout of
        Some plan \<Rightarrow>
          p_bind (p_map_err Planning (check_planning_canceled canceled)) (\<lambda>_.
            case admit_packed_samples (pa_processed_samples plan) of
              Inl e \<Rightarrow> p_fail (PackedAudioAdmission e)
            | Inr _ \<Rightarrow>
                p_bind (p_map_err Planning (check_planning_canceled canceled)) (\<lambda>_.
                p_bind (p_map_err Planning (materialize_cancellable samples silence plan canceled)) (\<lambda>audio.
                p_return (layout\<lparr>pl_packed_audio_plan := None, pl_processed_audio := Some audio\<rparr>))))
      | None \<Rightarrow>
          p_bind (p_lift (apply_padding fa (pl_slices layout) (length samples) rate opts)) (\<lambda>slices.
          p_return (layout\<lparr>pl_slices := slices\<rparr>)))"

definition empty_plan :: "nat \<Rightarrow> 'a longform_slice_plan" where
  "empty_plan rate = \<lparr>sp_sample_rate_hz = rate, sp_total_samples = 0, sp_slices = [], sp_processed_audio = None,
     sp_timeline = [], sp_chunk_count = 0, sp_vad_speech_spans = None\<rparr>"

definition plan_of_layout :: "'a list \<Rightarrow> nat \<Rightarrow> 'a longform_planning_layout \<Rightarrow> 'a longform_slice_plan" where
  "plan_of_layout samples rate layout =
     \<lparr>sp_sample_rate_hz = rate, sp_total_samples = length samples, sp_slices = pl_slices layout,
      sp_processed_audio = pl_processed_audio layout, sp_timeline = pl_timeline layout,
      sp_chunk_count = length (pl_slices layout), sp_vad_speech_spans = pl_vad_speech_spans layout\<rparr>"

definition plan_longform_slices_with_materialization_gate ::
  "'a longform_arith \<Rightarrow> 'a \<Rightarrow> 'a list \<Rightarrow> nat \<Rightarrow> longform_options \<Rightarrow> 'a vad_provider option \<Rightarrow> (nat \<Rightarrow> bool) \<Rightarrow> (nat \<Rightarrow> 'e + unit)
     \<Rightarrow> ('e slice_planning_error, 'a longform_slice_plan) polled" where
  "plan_longform_slices_with_materialization_gate fa silence samples rate opts vad_provider canceled admit_packed_samples =
     (let check = p_map_err Planning (check_planning_canceled canceled)
      in p_bind check (\<lambda>_.
           if rate = 0 then p_fail (Planning InvalidSampleRate)
           else case longform_options_validate opts of
             Inl e \<Rightarrow> p_fail (Planning (InvalidOptions e))
           | Inr _ \<Rightarrow>
               p_bind check (\<lambda>_.
                 if samples = [] then p_return (empty_plan rate)
                 else
                   p_bind (p_map_err Planning (layout_of_mode fa samples rate opts vad_provider canceled)) (\<lambda>layout.
                   p_bind check (\<lambda>_.
                   p_bind check (\<lambda>_.
                   p_bind (finish_layout fa silence layout samples rate opts canceled admit_packed_samples) (\<lambda>finished.
                   p_return (plan_of_layout samples rate finished))))))))"

text \<open>The public planner never cancels and admits every packed recording; \<open>None\<close> for a gate error is unreachable.\<close>

definition plan_longform_slices ::
  "'a longform_arith \<Rightarrow> 'a \<Rightarrow> 'a list \<Rightarrow> nat \<Rightarrow> longform_options \<Rightarrow> 'a vad_provider option
     \<Rightarrow> (longform_slice_error + 'a longform_slice_plan) option" where
  "plan_longform_slices fa silence samples rate opts vad_provider =
     (case plan_longform_slices_with_materialization_gate fa silence samples rate opts vad_provider never
             (\<lambda>_. Inr () :: unit + unit) 0 of
        Some (Inr plan, _) \<Rightarrow> Some (Inr plan)
      | Some (Inl (Planning e), _) \<Rightarrow> Some (Inl e)
      | _ \<Rightarrow> None)"

end
