(* ===== verification/Longform_Guarantees.thy ===== *)
theory Longform_Guarantees
  imports Longform_Planner
begin

text \<open>
  What the planner of long recordings guarantees: every plan fits the executor, the automatic modes
  drop nothing audible, and a cancelled run gives up or gives the plan of an uncancelled one.
\<close>

section \<open>Reasoning about polled computations\<close>

text \<open>A computation ensures \<open>P\<close> if it returns an error or a value that satisfies \<open>P\<close>.\<close>

definition p_ensures :: "('e, 'b) polled \<Rightarrow> ('b \<Rightarrow> bool) \<Rightarrow> bool" where
  "p_ensures m P \<longleftrightarrow> (\<forall>n. \<exists>r k. m n = Some (r, k) \<and> (case r of Inl _ \<Rightarrow> True | Inr x \<Rightarrow> P x))"

named_theorems ensures_intros

lemma ensures_return [ensures_intros]: "P x \<Longrightarrow> p_ensures (p_return x) P"
  by (simp add: p_ensures_def p_return_def)

lemma ensures_fail [ensures_intros]: "p_ensures (p_fail e) P"
  by (simp add: p_ensures_def p_fail_def)

lemma ensures_poll: "p_ensures (poll canceled e) (\<lambda>_. True)"
  by (simp add: p_ensures_def poll_def)

lemma ensures_lift: "v = Some x \<Longrightarrow> P x \<Longrightarrow> p_ensures (p_lift v) P"
  by (simp add: p_ensures_def p_lift_def)

lemma ensures_bind:
  assumes "p_ensures m P" and "\<And>x. P x \<Longrightarrow> p_ensures (f x) Q"
  shows "p_ensures (p_bind m f) Q"
  unfolding p_ensures_def
proof
  fix n
  obtain r k where r: "m n = Some (r, k)" "case r of Inl _ \<Rightarrow> True | Inr x \<Rightarrow> P x"
    using assms(1) unfolding p_ensures_def by blast
  show "\<exists>r k. p_bind m f n = Some (r, k) \<and> (case r of Inl _ \<Rightarrow> True | Inr x \<Rightarrow> Q x)"
  proof (cases r)
    case (Inl e)
    then show ?thesis using r(1) by (simp add: p_bind_def)
  next
    case (Inr x)
    then show ?thesis using r assms(2) [of x] by (simp add: p_bind_def p_ensures_def)
  qed
qed

lemma ensures_map_err: "p_ensures m P \<Longrightarrow> p_ensures (p_map_err f m) P"
  unfolding p_ensures_def p_map_err_def
proof
  fix n
  assume "\<forall>n. \<exists>r k. m n = Some (r, k) \<and> (case r of Inl _ \<Rightarrow> True | Inr x \<Rightarrow> P x)"
  then obtain r k where "m n = Some (r, k)" "case r of Inl _ \<Rightarrow> True | Inr x \<Rightarrow> P x" by blast
  then show "\<exists>r k. map_option (\<lambda>(r, k). (map_sum f id r, k)) (m n) = Some (r, k) \<and> (case r of Inl _ \<Rightarrow> True | Inr x \<Rightarrow> P x)"
    by (cases r) auto
qed

lemma ensures_weaken: "p_ensures m P \<Longrightarrow> (\<And>x. P x \<Longrightarrow> Q x) \<Longrightarrow> p_ensures m Q"
  unfolding p_ensures_def by (metis (mono_tags, lifting) sum.case_eq_if)

lemma ensures_if [ensures_intros]:
  "(b \<Longrightarrow> p_ensures m P) \<Longrightarrow> (\<not> b \<Longrightarrow> p_ensures m' P) \<Longrightarrow> p_ensures (if b then m else m') P"
  by simp

lemma ensures_returns: "p_returns m \<longleftrightarrow> p_ensures m (\<lambda>_. True)"
  unfolding p_ensures_def p_returns_def by (auto split: sum.split)

lemma ensures_check: "p_ensures (check_planning_canceled canceled) (\<lambda>_. True)"
  by (simp add: check_planning_canceled_def ensures_poll)

lemma ensures_poll_times: "p_ensures (poll_times canceled e k) (\<lambda>_. True)"
  using p_returns_poll_times [of canceled e k] by (simp add: ensures_returns)

lemmas ensures_check_bind [ensures_intros] = ensures_bind [OF ensures_check]
  ensures_bind [OF ensures_map_err [OF ensures_check]] ensures_bind [OF ensures_poll_times]

section \<open>Providers\<close>

interpretation default_provider: cancellable_provider "compute_speech_slices_cancellable compute" for compute
  by unfold_locales
    (unfold compute_speech_slices_cancellable_def, auto intro!: polled_intros split: sum.split)

context speech_provider
begin

lemma spans_ensured:
  assumes "vp_compute p = compute"
  shows "p_ensures (speech_spans_of p canceled samples rate opts) (\<lambda>_. True)"
  unfolding speech_spans_of_def assms
  by (rule ensures_bind [OF ensures_map_err [OF provider_returns [unfolded ensures_returns]]]) (simp add: ensures_intros)

end

context cancellable_provider
begin

lemma spans_agree:
  assumes "vp_compute p = compute"
  shows "gives_up_or_agrees SliceCanceled (speech_spans_of p canceled samples rate opts) (speech_spans_of p never samples rate opts)"
  unfolding speech_spans_of_def check_planning_canceled_def assms
  by (rule agrees_bind [OF agrees_map_err [OF provider_cancels]]) (simp_all add: polled_intros)

end

definition provider_ok :: "'a vad_provider option \<Rightarrow> bool" where
  "provider_ok vad_provider \<longleftrightarrow> (case vad_provider of None \<Rightarrow> True | Some p \<Rightarrow> speech_provider (vp_compute p))"

text \<open>
  The providers whose code is modelled: none, the built-in energy detector, and any provider of
  spans behind the default cancellable method of the trait.
\<close>

datatype 'a provider_choice =
    NoProvider
  | EnergyProvider
  | DefaultProvider vad_provider_kind "'a list \<Rightarrow> nat \<Rightarrow> longform_options \<Rightarrow> string + longform_vad_slice list"

definition provider_of :: "'a longform_arith \<Rightarrow> 'a provider_choice \<Rightarrow> 'a vad_provider option" where
  "provider_of fa choice =
     (case choice of
        NoProvider \<Rightarrow> None
      | EnergyProvider \<Rightarrow> Some (energy_vad_provider fa)
      | DefaultProvider kind compute \<Rightarrow> Some \<lparr>vp_kind = kind, vp_compute = compute_speech_slices_cancellable compute\<rparr>)"

definition cancels_ok :: "'a vad_provider option \<Rightarrow> bool" where
  "cancels_ok vad_provider \<longleftrightarrow> (case vad_provider of None \<Rightarrow> True | Some p \<Rightarrow> cancellable_provider (vp_compute p))"

lemma provider_of_cancels: "cancels_ok (provider_of fa choice)"
  by (cases choice) (simp_all add: cancels_ok_def provider_of_def energy_vad_provider_def
      energy_provider.cancellable_provider_axioms default_provider.cancellable_provider_axioms)

lemmas provider_spans = speech_provider.spans_ensured [OF _ refl] cancellable_provider.spans_agree [OF _ refl]

lemma energy_spans:
  "p_ensures (speech_spans_of (energy_vad_provider fa) canceled samples rate opts) (\<lambda>_. True)"
  "gives_up_or_agrees SliceCanceled (speech_spans_of (energy_vad_provider fa) canceled samples rate opts)
     (speech_spans_of (energy_vad_provider fa) never samples rate opts)"
  by (rule energy_provider.spans_ensured energy_provider.spans_agree, simp add: energy_vad_provider_def)+

lemma speech_detecting_ok: "provider_ok vad_provider \<Longrightarrow> speech_detecting vad_provider = Some p \<Longrightarrow> speech_provider (vp_compute p)"
  by (auto simp: provider_ok_def speech_detecting_def split: option.splits if_splits)

lemma speech_detecting_cancels: "cancels_ok vad_provider \<Longrightarrow> speech_detecting vad_provider = Some p \<Longrightarrow> cancellable_provider (vp_compute p)"
  by (auto simp: cancels_ok_def speech_detecting_def split: option.splits if_splits)


section \<open>Sound layouts\<close>

definition content_ok :: "nat \<Rightarrow> nat \<Rightarrow> audio_slice \<Rightarrow> bool" where
  "content_ok m total_samples s \<longleftrightarrow> as_content_start_sample s < as_content_end_sample s \<and> as_content_end_sample s \<le> total_samples
     \<and> content_duration_samples s \<le> m"

text \<open>
  A sound layout: the slices are numbered, and either every content is a non-empty window of the
  recording that fits the executor, or the windows do so in the joined audio of a packed plan.
\<close>

definition layout_ok :: "nat \<Rightarrow> 'a list \<Rightarrow> 'a longform_planning_layout \<Rightarrow> bool" where
  "layout_ok m samples layout \<longleftrightarrow> pl_processed_audio layout = None
     \<and> map as_index (pl_slices layout) = [0..<length (pl_slices layout)]
     \<and> (case pl_packed_audio_plan layout of
          None \<Rightarrow> list_all (content_ok m (length samples)) (pl_slices layout)
        | Some plan \<Rightarrow> list_all (slice_ok m (pa_processed_samples plan)) (pl_slices layout)
            \<and> (\<forall>silence. \<exists>audio. materialize_packed_audio samples silence plan = Some audio \<and> length audio = pa_processed_samples plan))"

text \<open>An exact layout is sound, and without packing its windows are their contents.\<close>

definition exact_layout_ok :: "nat \<Rightarrow> 'a list \<Rightarrow> 'a longform_planning_layout \<Rightarrow> bool" where
  "exact_layout_ok m samples layout \<longleftrightarrow> layout_ok m samples layout
     \<and> (pl_packed_audio_plan layout = None \<longrightarrow> list_all (slice_ok m (length samples)) (pl_slices layout))"

lemma slice_content_ok: "slice_ok m total_samples s \<Longrightarrow> content_ok m total_samples s"
  by (simp add: slice_ok_def content_ok_def content_duration_samples_def)

lemma identity_layout_ok:
  "slices_ok m (length samples) slices \<Longrightarrow> exact_layout_ok m samples (layout_from_identity_slices slices)"
  by (auto simp: exact_layout_ok_def layout_ok_def layout_from_identity_slices_def slices_ok_def list_all_iff intro: slice_content_ok)

lemma layout_ok_spans [simp]: "layout_ok m samples (layout\<lparr>pl_vad_speech_spans := v\<rparr>) = layout_ok m samples layout"
  by (cases "pl_packed_audio_plan layout") (simp_all add: layout_ok_def)

lemma exact_layout_ok_spans [simp]: "exact_layout_ok m samples (layout\<lparr>pl_vad_speech_spans := v\<rparr>) = exact_layout_ok m samples layout"
  by (simp add: exact_layout_ok_def)

lemma packed_exact_ok: "packed_layout_ok m samples spans layout \<Longrightarrow> pl_processed_audio layout = None \<Longrightarrow> exact_layout_ok m samples layout"
  by (fastforce simp: exact_layout_ok_def layout_ok_def packed_layout_ok_def slices_ok_def split: option.splits)

lemma full_slice_ok: "0 < total_samples \<Longrightarrow> total_samples \<le> m \<Longrightarrow> slices_ok m total_samples [full_slice total_samples]"
  by (simp add: slices_ok_def slice_ok_def full_slice_def)

lemma energy_plan_ok:
  assumes "planner_ready fa opts rate m (length samples)" and "samples \<noteq> []"
  obtains slices where "plan_energy_slices fa samples rate opts = Some slices" and "slices_ok m (length samples) slices"
    and "\<forall>x < length samples. slices_cover slices x"
proof -
  obtain ws where ws: "plan_energy_slices fa samples rate opts = Some (numbered SliceEnergy 0 ws)" "tiling m 0 (length samples) ws"
    using plan_energy_slices_tiles [OF planner_ready_loop [OF assms(1)] assms(2)] by blast
  then show thesis
    using that slices_ok_append [OF slices_ok_Nil ws(2) order_refl, of SliceEnergy] numbered_cover [OF ws(2), of _ SliceEnergy 0] by simp
qed

definition indexed :: "audio_slice list \<Rightarrow> bool" where
  "indexed slices \<longleftrightarrow> map as_index slices = [0..<length slices]"

lemma fixed_loop_index:
  assumes "indexed slices"
  shows "indexed (fixed_loop total_samples chunk overlap min_chunk m start slices)"
  using assms
proof (induction total_samples chunk overlap min_chunk m start slices rule: fixed_loop.induct)
  case (1 total_samples chunk overlap min_chunk m start slices)
  define e where "e = executor_window_end start (min (u64_add start chunk) total_samples) total_samples m"
  define new where "new = slices @ [content_slice SliceFixed (length slices) start e]"
  define merged where "merged = butlast slices @ [(last slices)\<lparr>as_content_end_sample := total_samples\<rparr>]"
  have new: "indexed new" using "1.prems" by (simp add: new_def indexed_def)
  have merged: "indexed merged" if "slices \<noteq> []"
  proof -
    have "map as_index merged = map as_index (butlast slices @ [last slices])" by (simp add: merged_def)
    then show ?thesis using "1.prems" that by (simp add: indexed_def merged_def)
  qed
  have step: "fixed_loop total_samples chunk overlap min_chunk m start slices =
      (if start < total_samples then
         if e \<le> start then slices
         else if e - start < min_chunk \<and> slices \<noteq> [] \<and> total_samples - as_content_start_sample (last slices) \<le> m then merged
         else if e = total_samples then new
         else fixed_loop total_samples chunk overlap min_chunk m (advance_window_start start e overlap) new
       else slices)"
    unfolding fixed_loop.simps [of total_samples chunk overlap min_chunk m start slices] Let_def e_def new_def merged_def ..
  note ih = "1.IH" [OF _ refl e_def _ _ new_def]
  show ?case unfolding step using "1.prems" new merged ih by (simp split: if_split)
qed

lemma fixed_plan_ok:
  assumes "planner_ready fa opts rate m (length samples)" and "samples \<noteq> []"
  obtains slices where "plan_fixed_slices fa (length samples) rate opts = Some slices"
    and "layout_ok m samples (layout_from_identity_slices slices)"
proof -
  have "0 < length samples" using assms(2) by simp
  then obtain slices where s: "plan_fixed_slices fa (length samples) rate opts = Some slices"
      "tiling m 0 (length samples) (map content_window slices)"
    using plan_fixed_slices_tiles [OF planner_ready_loop [OF assms(1)]] by blast
  have "indexed slices"
    using s(1) fixed_loop_index [of "[]"] by (auto simp: plan_fixed_slices_def indexed_def split: option.splits)
  moreover have "content_ok m (length samples) x" if "x \<in> set slices" for x
  proof -
    have "content_window x \<in> set (map content_window slices)" using that by simp
    then show ?thesis
      using tiling_windows [OF s(2)] by (auto simp: content_ok_def content_duration_samples_def content_window_def simp del: set_map)
  qed
  ultimately show thesis
    using that s(1) by (simp add: layout_ok_def layout_from_identity_slices_def list_all_iff indexed_def)
qed

lemma built_candidate:
  assumes "planner_ready fa opts rate m (length samples)"
  obtains c where "build_auto_plan_candidate fa kind layout samples rate opts = Some c" and "ac_layout c = layout" and "ac_kind c = kind"
proof -
  have m: "max_chunk_samples fa opts rate = Some m" using planner_ready_max [OF assms] by simp
  obtain p where "estimate_layout_processed_samples fa layout (length samples) rate opts = Some p"
    by (cases "pl_processed_audio layout"; cases "pl_packed_audio_plan layout"; cases "pl_slices layout = []")
      (simp_all add: estimate_layout_processed_samples_def apply_padding_def m)
  then show thesis using that by (simp add: build_auto_plan_candidate_def Let_def)
qed


section \<open>What the planners ensure\<close>

lemma ensures_check_then [ensures_intros]: "p_ensures f Q \<Longrightarrow> p_ensures (p_bind (check_planning_canceled canceled) (\<lambda>_. f)) Q"
  by (rule ensures_bind [OF ensures_check])

lemma ensures_lift_bind:
  assumes "v = Some x" and "p_ensures (f x) Q"
  shows "p_ensures (p_bind (p_lift v) f) Q"
proof (rule ensures_bind [where P = "\<lambda>y. y = x"])
  show "p_ensures (p_lift v) (\<lambda>y. y = x)" using assms(1) by (simp add: ensures_lift)
qed (use assms(2) in simp)

text \<open>Candidates built from layouts that satisfy \<open>L\<close>.\<close>

definition candidates_ok :: "('a longform_planning_layout \<Rightarrow> bool) \<Rightarrow> 'a auto_plan_candidate list \<Rightarrow> bool" where
  "candidates_ok L cs \<longleftrightarrow> (\<forall>c \<in> set cs. L (ac_layout c))"

lemma ensures_candidates:
  assumes "planner_ready fa opts rate m (length samples)" and "case layout of None \<Rightarrow> True | Some l \<Rightarrow> L l"
  shows "p_ensures (candidates_of fa kind layout samples rate opts) (candidates_ok L)"
proof (cases layout)
  case None
  then show ?thesis by (simp add: candidates_of_def candidates_ok_def ensures_return)
next
  case (Some l)
  obtain c where "build_auto_plan_candidate fa kind l samples rate opts = Some c" "ac_layout c = l" using built_candidate [OF assms(1)] .
  then show ?thesis
    using assms(2) Some by (auto simp: candidates_of_def candidates_ok_def intro!: ensures_lift_bind ensures_return)
qed

lemma ensures_energy_candidate:
  assumes "planner_ready fa opts rate m (length samples)"
  shows "p_ensures (candidates_of fa SliceEnergy (Some l) samples rate opts)
    (\<lambda>cs. \<exists>c. cs = [c] \<and> ac_layout c = l \<and> ac_kind c = SliceEnergy)"
proof -
  obtain c where "build_auto_plan_candidate fa SliceEnergy l samples rate opts = Some c" "ac_layout c = l" "ac_kind c = SliceEnergy"
    using built_candidate [OF assms] .
  then show ?thesis by (auto simp: candidates_of_def intro!: ensures_lift_bind ensures_return)
qed

lemma packed_plan_ok:
  assumes "planner_ready fa opts rate m (length samples)"
  obtains res where "plan_packed_layout_from_speech_spans fa samples rate opts kind spans = Some res"
    and "case res of None \<Rightarrow> True | Some layout \<Rightarrow> exact_layout_ok m samples layout"
proof -
  obtain res where res: "plan_packed_layout_from_speech_spans fa samples rate opts kind spans = Some res"
      "case res of None \<Rightarrow> length spans < 2 \<or> (\<forall>x < length samples. \<not> covered spans x)
       | Some layout \<Rightarrow> packed_layout_ok m samples spans layout"
    using plan_packed_layout_ok [OF assms, of kind spans] by blast
  have "pl_processed_audio layout = None" if "res = Some layout" for layout
    using res(1) that by (auto simp: plan_packed_layout_from_speech_spans_def Let_def split: if_splits option.splits prod.splits)
  then show thesis using that res packed_exact_ok by (cases res) auto
qed

lemma ensures_packed_energy:
  assumes "planner_ready fa opts rate m (length samples)"
  shows "p_ensures (plan_packed_energy_layout fa samples rate opts canceled)
    (\<lambda>res. case res of None \<Rightarrow> True | Some layout \<Rightarrow> exact_layout_ok m samples layout)"
  unfolding plan_packed_energy_layout_def
proof (rule ensures_bind [OF energy_spans(1)])
  fix spans
  obtain res where "plan_packed_layout_from_speech_spans fa samples rate opts SliceEnergy spans = Some res"
      "case res of None \<Rightarrow> True | Some layout \<Rightarrow> exact_layout_ok m samples layout"
    using packed_plan_ok [OF assms] .
  then show "p_ensures (p_lift (plan_packed_layout_from_speech_spans fa samples rate opts SliceEnergy spans))
      (\<lambda>res. case res of None \<Rightarrow> True | Some layout \<Rightarrow> exact_layout_ok m samples layout)"
    by (rule ensures_lift)
qed

lemma exact_ok_ok: "exact_layout_ok m samples layout \<Longrightarrow> layout_ok m samples layout"
  by (simp add: exact_layout_ok_def)

lemma ensures_vad_candidates:
  assumes "planner_ready fa opts rate m (length samples)" and "provider_ok vad_provider"
  shows "p_ensures (vad_candidates fa samples rate opts vad_provider canceled) (\<lambda>(spans, cs). candidates_ok (exact_layout_ok m samples) cs)"
proof (cases "speech_detecting vad_provider")
  case None
  then show ?thesis by (simp add: vad_candidates_def candidates_ok_def ensures_return)
next
  case (Some p)
  have sp: "p_ensures (speech_spans_of p canceled samples rate opts) (\<lambda>_. True)"
    using provider_spans(1) [OF speech_detecting_ok [OF assms(2) Some]] .
  show ?thesis
    unfolding vad_candidates_def Some option.case
  proof (rule ensures_bind [OF sp])
    fix spans
    obtain res where res: "plan_packed_layout_from_speech_spans fa samples rate opts SliceVad spans = Some res"
        "case res of None \<Rightarrow> True | Some layout \<Rightarrow> exact_layout_ok m samples layout"
      using packed_plan_ok [OF assms(1)] .
    obtain slices where slices: "plan_vad_slices_from_speech_spans fa samples rate opts spans = Some slices"
        "slices_ok m (length samples) slices"
      using plan_vad_slices_covers [OF planner_ready_loop [OF assms(1)]] by blast
    have ident: "case identity_layout_of slices of None \<Rightarrow> True | Some l \<Rightarrow> exact_layout_ok m samples l"
      using identity_layout_ok [OF slices(2)] by (simp add: identity_layout_of_def)
    show "p_ensures (p_bind (p_lift (plan_packed_layout_from_speech_spans fa samples rate opts SliceVad spans)) (\<lambda>packed.
        p_bind (candidates_of fa SliceVad packed samples rate opts) (\<lambda>packed_candidates.
        p_bind (p_lift (plan_vad_slices_from_speech_spans fa samples rate opts spans)) (\<lambda>slices.
        p_bind (candidates_of fa SliceVad (identity_layout_of slices) samples rate opts) (\<lambda>slice_candidates.
        p_return (Some spans, packed_candidates @ slice_candidates))))))
      (\<lambda>(spans, cs). candidates_ok (exact_layout_ok m samples) cs)"
      by (rule ensures_lift_bind [OF res(1)], rule ensures_bind [OF ensures_candidates [OF assms(1) res(2)]],
          rule ensures_lift_bind [OF slices(1)], rule ensures_bind [OF ensures_candidates [OF assms(1) ident]])
        (auto simp: candidates_ok_def intro!: ensures_return)
  qed
qed

text \<open>The ranking of sound candidates, one of which keeps the recording, gives a sound layout that drops nothing audible.\<close>

lemma ranking_ok:
  assumes "c \<in> set cs" and "ac_kind c = SliceEnergy" and "\<forall>x < length samples. layout_keeps (ac_layout c) x" and "candidates_ok L cs"
  obtains w ws where "rank_auto_candidates fa cs samples rate opts = w # ws" and "L (ac_layout w)"
    and "layout_drops_audible_content fa (ac_layout w) samples rate = None"
proof -
  note r = ranking_never_drops_audible [OF assms(1-3), of fa rate opts]
  obtain w ws where w: "rank_auto_candidates fa cs samples rate opts = w # ws"
    using r by (cases "rank_auto_candidates fa cs samples rate opts") auto
  then have "w \<in> set (rank_auto_candidates fa cs samples rate opts)" by simp
  then have "ac_layout w \<in> ac_layout ` set cs" "layout_drops_audible_content fa (ac_layout w) samples rate = None" using r by blast+
  then show thesis using that w assms(4) by (auto simp: candidates_ok_def)
qed

lemma drops_spans [simp]:
  "layout_drops_audible_content fa (layout\<lparr>pl_vad_speech_spans := v\<rparr>) samples rate = layout_drops_audible_content fa layout samples rate"
  by (cases "pl_packed_audio_plan layout")
    (simp_all add: layout_drops_audible_content_def layout_audibility_reference_def candidate_kept_and_dropped_ranges_def)

lemma identity_keeps: "layout_keeps (layout_from_identity_slices slices) x \<longleftrightarrow> slices_cover slices x"
  by (simp add: layout_keeps_def layout_from_identity_slices_def)

definition sound_and_audible :: "'a longform_arith \<Rightarrow> nat \<Rightarrow> 'a list \<Rightarrow> nat \<Rightarrow> 'a longform_planning_layout \<Rightarrow> bool" where
  "sound_and_audible fa m samples rate layout \<longleftrightarrow>
     layout_ok m samples layout \<and> layout_drops_audible_content fa layout samples rate = None"

lemma full_layout_ok:
  assumes "samples \<noteq> []" and "length samples \<le> m"
  shows "exact_layout_ok m samples (layout_from_identity_slices [full_slice (length samples)])"
    and "layout_drops_audible_content fa (layout_from_identity_slices [full_slice (length samples)]) samples rate = None"
proof -
  show "exact_layout_ok m samples (layout_from_identity_slices [full_slice (length samples)])"
    using assms by (intro identity_layout_ok full_slice_ok) simp_all
  show "layout_drops_audible_content fa (layout_from_identity_slices [full_slice (length samples)]) samples rate = None"
    by (rule covering_layout_drops_nothing) (simp add: identity_keeps slices_cover_def full_slice_def)
qed


lemma full_layout_sound:
  "samples \<noteq> [] \<Longrightarrow> length samples \<le> m \<Longrightarrow>
   sound_and_audible fa m samples rate (layout_from_identity_slices [full_slice (length samples)])"
  using full_layout_ok by (auto simp: sound_and_audible_def exact_layout_ok_def)

definition keeps_all :: "'a list \<Rightarrow> 'a auto_plan_candidate list \<Rightarrow> bool" where
  "keeps_all samples cs \<longleftrightarrow> (\<exists>c \<in> set cs. ac_kind c = SliceEnergy \<and> (\<forall>x < length samples. layout_keeps (ac_layout c) x))"

lemma ensures_energy_candidates:
  assumes ready: "planner_ready fa opts rate m (length samples)" and ne: "samples \<noteq> []"
  shows "p_ensures (energy_candidates fa samples rate opts canceled) (\<lambda>cs. candidates_ok (exact_layout_ok m samples) cs \<and> keeps_all samples cs)"
proof -
  obtain es where es: "plan_energy_slices fa samples rate opts = Some es" "slices_ok m (length samples) es"
      "\<forall>x < length samples. slices_cover es x"
    using energy_plan_ok [OF ready ne] .
  note ident = identity_layout_ok [OF es(2)]
  show ?thesis
    unfolding energy_candidates_def
    by (rule ensures_lift_bind [OF es(1)], rule ensures_bind [OF ensures_energy_candidate [OF ready]], rule ensures_check_then,
        rule ensures_bind [OF ensures_packed_energy [OF ready]], rule ensures_bind [OF ensures_candidates [OF ready]], assumption,
        rule ensures_return)
      (use ident es(3) in \<open>auto simp: candidates_ok_def keeps_all_def identity_keeps\<close>)
qed

lemma candidates_ok_weaken: "candidates_ok L cs \<Longrightarrow> (\<And>l. L l \<Longrightarrow> L' l) \<Longrightarrow> candidates_ok L' cs"
  by (auto simp: candidates_ok_def)

lemma ensures_auto_candidates:
  assumes ready: "planner_ready fa opts rate m (length samples)" and ne: "samples \<noteq> []" and prov: "provider_ok vad_provider"
  shows "p_ensures (auto_candidates fa samples rate opts vad_provider canceled)
    (\<lambda>(spans, cs). candidates_ok (layout_ok m samples) cs \<and> keeps_all samples cs)"
proof -
  obtain fs where fs: "plan_fixed_slices fa (length samples) rate opts = Some fs" "layout_ok m samples (layout_from_identity_slices fs)"
    using fixed_plan_ok [OF ready ne] .
  have fixed: "case identity_layout_of fs of None \<Rightarrow> True | Some l \<Rightarrow> layout_ok m samples l" using fs(2) by (simp add: identity_layout_of_def)
  show ?thesis
    unfolding auto_candidates_def
    by (rule ensures_bind [OF ensures_energy_candidates [OF ready ne]], rule ensures_check_then, rule ensures_lift_bind [OF fs(1)],
        rule ensures_bind [OF ensures_candidates [OF ready fixed]], rule ensures_check_then,
        rule ensures_bind [OF ensures_vad_candidates [OF ready prov]])
      (auto simp: candidates_ok_def keeps_all_def exact_layout_ok_def intro!: ensures_return)
qed

lemma ranked_winner:
  assumes "candidates_ok L cs" and "keeps_all samples cs"
  obtains w ws where "rank_auto_candidates fa cs samples rate opts = w # ws" and "L (ac_layout w)"
    and "layout_drops_audible_content fa (ac_layout w) samples rate = None"
proof -
  obtain c where "c \<in> set cs" "ac_kind c = SliceEnergy" "\<forall>x < length samples. layout_keeps (ac_layout c) x"
    using assms(2) unfolding keeps_all_def by blast
  then show thesis using ranking_ok [OF _ _ _ assms(1)] that by blast
qed

lemma ensures_auto:
  assumes ready: "planner_ready fa opts rate m (length samples)" and ne: "samples \<noteq> []" and prov: "provider_ok vad_provider"
  shows "p_ensures (plan_auto_slices fa samples rate opts vad_provider canceled) (sound_and_audible fa m samples rate)"
proof -
  have m: "max_chunk_samples fa opts rate = Some m" using planner_ready_max [OF ready] by simp
  have winner: "sound_and_audible fa m samples rate (auto_winner (length samples) spans (rank_auto_candidates fa cs samples rate opts))"
    if cs: "candidates_ok (layout_ok m samples) cs" "keeps_all samples cs" for spans cs
  proof -
    obtain w ws where "rank_auto_candidates fa cs samples rate opts = w # ws" "layout_ok m samples (ac_layout w)"
        "layout_drops_audible_content fa (ac_layout w) samples rate = None"
      using ranked_winner [OF cs] .
    then show ?thesis by (simp add: auto_winner_def sound_and_audible_def)
  qed
  show ?thesis
    unfolding plan_auto_slices_def
    by (rule ensures_check_then, rule ensures_lift_bind [OF m], rule ensures_if, rule ensures_return, rule full_layout_sound [OF ne], simp,
        rule ensures_bind [OF ensures_auto_candidates [OF ready ne prov]])
      (auto intro!: ensures_check_then ensures_return winner)
qed


section \<open>The decode gate\<close>

lemma span_coverage_first_inside:
  assumes "a < b" and "fold (span_coverage_step a b) regions acc = Some (f, l)" and "case acc of None \<Rightarrow> True | Some (f', l') \<Rightarrow> f' < b"
  shows "f < b"
  using assms(2,3)
proof (induction regions arbitrary: acc)
  case (Cons r regions)
  have "case span_coverage_step a b r acc of None \<Rightarrow> True | Some (f', l') \<Rightarrow> f' < b"
    using Cons.prems(2) assms(1) by (auto simp: span_coverage_step_def Let_def split: option.split)
  then show ?case using Cons.IH [of "span_coverage_step a b r acc"] Cons.prems(1) by simp
qed simp

lemma reanchor_slice_exact:
  assumes "slice_ok m total_samples s"
  shows "slice_ok m total_samples (fst (reanchor_slice regions p tol lead w s))"
proof (cases rule: reanchor_slice_cases [of regions p tol lead w s])
  case (moved f l)
  have "f < as_end_sample s"
    using span_coverage_first_inside [OF _ moved(1) [unfolded span_coverage_within_def]] assms by (simp add: slice_ok_def)
  then show ?thesis using assms moved(2,3) by (simp add: slice_ok_def) linarith
qed (use assms in simp)

lemma reanchor_exact:
  assumes "slices_ok m total_samples slices"
  shows "slices_ok m total_samples (snd (reanchor_energy_auto_slice_heads fa slices regions rate))"
proof -
  have "as_index (fst (reanchor_slice regions p tol lead w s)) = as_index s" for p tol lead w s
    using reanchor_slice_ok [of w regions s p tol lead] by (simp add: slice_after_reanchor_def)
  then show ?thesis
    using assms reanchor_slice_exact
    by (auto simp: slices_ok_def reanchor_energy_auto_slice_heads_def Let_def list_all_iff comp_def)
qed

lemma exact_identity: "exact_layout_ok m samples layout \<Longrightarrow> \<not> layout_uses_packed_timeline layout \<Longrightarrow>
    slices_ok m (length samples) (pl_slices layout) \<and> pl_processed_audio layout = None \<and> pl_packed_audio_plan layout = None"
  by (simp add: exact_layout_ok_def layout_ok_def layout_uses_packed_timeline_def slices_ok_def)

lemma exact_identityI:
  "slices_ok m (length samples) (pl_slices layout) \<Longrightarrow> pl_processed_audio layout = None \<Longrightarrow> pl_packed_audio_plan layout = None
    \<Longrightarrow> exact_layout_ok m samples layout"
  by (auto simp: exact_layout_ok_def layout_ok_def slices_ok_def list_all_iff intro: slice_content_ok)

lemma ensures_gate:
  assumes "provider_ok vad_provider" and "exact_layout_ok m samples layout"
  shows "p_ensures (attach_energy_auto_decode_gate fa layout vad_provider samples rate opts canceled) (exact_layout_ok m samples)"
proof (cases "layout_uses_packed_timeline layout")
  case True
  then show ?thesis using assms(2) by (simp add: attach_energy_auto_decode_gate_def ensures_return)
next
  case False
  note ident = exact_identity [OF assms(2) False]
  show ?thesis
  proof (cases "speech_detecting vad_provider")
    case None
    show ?thesis
      unfolding attach_energy_auto_decode_gate_def None option.case
      by (rule ensures_if, rule ensures_return, rule assms(2), rule ensures_bind [OF energy_spans(1)])
        (use assms(2) in \<open>auto intro!: ensures_return\<close>)
  next
    case (Some p)
    have "exact_layout_ok m samples (layout\<lparr>pl_slices := snd (reanchor_energy_auto_slice_heads fa (pl_slices layout) spans rate),
        pl_vad_speech_spans := Some spans\<rparr>)" for spans
      using ident reanchor_exact [of m "length samples" "pl_slices layout" fa spans rate] by (intro exact_identityI) simp_all
    then show ?thesis
      unfolding attach_energy_auto_decode_gate_def Some option.case
      by (intro ensures_if ensures_return assms(2) ensures_bind [OF provider_spans(1) [OF speech_detecting_ok [OF assms(1) Some]]])
        (use assms(2) in auto)
  qed
qed

lemma ensures_energy_auto:
  assumes ready: "planner_ready fa opts rate m (length samples)" and ne: "samples \<noteq> []" and prov: "provider_ok vad_provider"
  shows "p_ensures (plan_energy_auto_slices fa samples rate opts vad_provider canceled) (exact_layout_ok m samples)"
proof -
  have m: "max_chunk_samples fa opts rate = Some m" using planner_ready_max [OF ready] by simp
  have winner: "exact_layout_ok m samples (winner_layout (length samples) (rank_auto_candidates fa cs samples rate opts))"
    if cs: "candidates_ok (exact_layout_ok m samples) cs" "keeps_all samples cs" for cs
  proof -
    obtain w ws where "rank_auto_candidates fa cs samples rate opts = w # ws" "exact_layout_ok m samples (ac_layout w)"
      using ranked_winner [OF cs] .
    then show ?thesis by (simp add: winner_layout_def)
  qed
  show ?thesis
    unfolding plan_energy_auto_slices_def
    by (rule ensures_check_then, rule ensures_lift_bind [OF m], rule ensures_if, rule ensures_return, rule full_layout_ok(1) [OF ne], simp,
        rule ensures_bind [OF ensures_energy_candidates [OF ready ne]])
      (auto intro!: ensures_check_then ensures_gate [OF prov] winner)
qed


section \<open>The finished plan\<close>

lemma ensures_vad_mode:
  assumes ready: "planner_ready fa opts rate m (length samples)" and ne: "samples \<noteq> []" and prov: "provider_ok vad_provider"
  shows "p_ensures (plan_vad_slices fa samples rate opts vad_provider canceled) (slices_ok m (length samples))"
proof -
  obtain es where "plan_energy_slices fa samples rate opts = Some es" "slices_ok m (length samples) es" using energy_plan_ok [OF ready ne] .
  then have energy: "p_ensures (p_lift (plan_energy_slices fa samples rate opts)) (slices_ok m (length samples))" by (rule ensures_lift)
  have vad: "p_ensures (p_lift (plan_vad_slices_from_speech_spans fa samples rate opts spans)) (slices_ok m (length samples))" for spans
  proof -
    obtain s where "plan_vad_slices_from_speech_spans fa samples rate opts spans = Some s" "slices_ok m (length samples) s"
      using plan_vad_slices_covers [OF planner_ready_loop [OF ready], of spans] by blast
    then show ?thesis by (rule ensures_lift)
  qed
  show ?thesis
  proof (cases vad_provider)
    case None
    then show ?thesis
      using energy by (auto simp: plan_vad_slices_def intro!: ensures_intros)
  next
    case (Some p)
    have "speech_provider (vp_compute p)" using prov Some by (simp add: provider_ok_def)
    then show ?thesis
      unfolding plan_vad_slices_def Some option.case
      by (intro ensures_check_then ensures_bind [OF provider_spans(1)] ensures_if ensures_bind [OF vad] energy ensures_return)
        (simp_all add: slices_ok_Nil)
  qed
qed

lemma ensures_mode:
  assumes ready: "planner_ready fa opts rate m (length samples)" and ne: "samples \<noteq> []" and prov: "provider_ok vad_provider"
    and off: "lf_mode opts = ModeOff \<longrightarrow> length samples \<le> m"
  shows "p_ensures (layout_of_mode fa samples rate opts vad_provider canceled) (layout_ok m samples)"
proof -
  obtain es where es: "plan_energy_slices fa samples rate opts = Some es" "slices_ok m (length samples) es" using energy_plan_ok [OF ready ne] .
  obtain fs where fs: "plan_fixed_slices fa (length samples) rate opts = Some fs" "layout_ok m samples (layout_from_identity_slices fs)"
    using fixed_plan_ok [OF ready ne] .
  have ident: "layout_ok m samples (layout_from_identity_slices s)" if "slices_ok m (length samples) s" for s
    using identity_layout_ok [OF that] by (rule exact_ok_ok)
  show ?thesis
  proof (cases "lf_mode opts")
    case ModeOff
    then show ?thesis using full_layout_sound [OF ne, of m fa] off by (simp add: layout_of_mode_def ensures_return sound_and_audible_def)
  next
    case ModeFixed
    then show ?thesis using fs by (auto simp: layout_of_mode_def intro!: ensures_lift_bind ensures_return)
  next
    case ModeEnergy
    then show ?thesis using es ident by (auto simp: layout_of_mode_def intro!: ensures_lift_bind ensures_return)
  next
    case ModeEnergyAuto
    then show ?thesis using ensures_weaken [OF ensures_energy_auto [OF ready ne prov] exact_ok_ok] by (simp add: layout_of_mode_def)
  next
    case ModeVad
    then show ?thesis
      using ident by (auto simp: layout_of_mode_def intro!: ensures_bind [OF ensures_vad_mode [OF ready ne prov]] ensures_return)
  next
    case ModeAuto
    then show ?thesis
      using ensures_weaken [OF ensures_auto [OF ready ne prov]] by (simp add: layout_of_mode_def sound_and_audible_def)
  qed
qed

text \<open>
  A window the executor can decode: non-empty, inside the audio, no longer than the executor
  window, and around its non-empty content.
\<close>

definition window_ok :: "nat \<Rightarrow> nat \<Rightarrow> audio_slice \<Rightarrow> bool" where
  "window_ok m audio_len s \<longleftrightarrow> as_end_sample s \<le> audio_len \<and> duration_samples s \<le> m
     \<and> as_start_sample s \<le> as_content_start_sample s \<and> as_content_start_sample s < as_content_end_sample s
     \<and> as_content_end_sample s \<le> as_end_sample s"

definition plan_ok :: "nat \<Rightarrow> 'a longform_slice_plan \<Rightarrow> bool" where
  "plan_ok m plan \<longleftrightarrow> map as_index (sp_slices plan) = [0..<sp_chunk_count plan]
     \<and> list_all (window_ok m (case sp_processed_audio plan of None \<Rightarrow> sp_total_samples plan | Some audio \<Rightarrow> length audio)) (sp_slices plan)"

lemma padded_window_ok:
  assumes "content_ok m total_samples s" and "total_samples + m < u64_limit"
  shows "window_ok m total_samples (pad_slice total_samples pad m s)"
  using assms pad_slice_bounds [of s total_samples m pad] by (simp add: content_ok_def window_ok_def)

lemma ensures_finish:
  assumes "planner_ready fa opts rate m (length samples)" and "layout_ok m samples layout"
  shows "p_ensures (finish_layout fa silence layout samples rate opts canceled admit) (\<lambda>l. plan_ok m (plan_of_layout samples rate l))"
proof (cases "pl_packed_audio_plan layout")
  case None
  have m: "max_chunk_samples fa opts rate = Some m" "max m 1 = m" using planner_ready_max [OF assms(1)] by simp_all
  let ?pad = "pad_slice (length samples) (la_seconds_to_samples fa (lf_padding_seconds opts) rate) m"
  have padded: "apply_padding fa (pl_slices layout) (length samples) rate opts = Some (map ?pad (pl_slices layout))"
    unfolding apply_padding_def m option.case by (cases "pl_slices layout = []") simp_all
  have "length samples + m < u64_limit" using planner_ready_loop [OF assms(1)] by (simp add: loop_ready_def sums_fit_def)
  then have "plan_ok m (plan_of_layout samples rate (layout\<lparr>pl_slices := map ?pad (pl_slices layout)\<rparr>))"
    using assms(2) None padded_window_ok by (auto simp: layout_ok_def plan_ok_def plan_of_layout_def list_all_iff comp_def)
  then show ?thesis
    using None assms(2) by (auto simp: finish_layout_def layout_ok_def intro!: ensures_lift_bind [OF padded] ensures_return)
next
  case (Some plan)
  obtain audio where audio: "materialize_packed_audio samples silence plan = Some audio" "length audio = pa_processed_samples plan"
    using assms(2) Some by (auto simp: layout_ok_def)
  have "plan_ok m (plan_of_layout samples rate (layout\<lparr>pl_packed_audio_plan := None, pl_processed_audio := Some audio\<rparr>))"
    using assms(2) Some audio(2)
    by (auto simp: layout_ok_def plan_ok_def plan_of_layout_def list_all_iff slice_ok_def window_ok_def duration_samples_def)
  moreover have "pl_processed_audio layout = None" using assms(2) by (simp add: layout_ok_def)
  moreover have "p_ensures (materialize_cancellable samples silence plan canceled) (\<lambda>a. a = audio)"
    unfolding materialize_cancellable_def audio(1)
    by (rule ensures_bind [OF ensures_poll_times], rule ensures_check_then, simp add: ensures_lift)
  ultimately show ?thesis
    unfolding finish_layout_def Some
    by (cases "admit (pa_processed_samples plan)")
      (auto intro!: ensures_intros ensures_bind [OF ensures_map_err [OF ensures_check]]
        ensures_bind [OF ensures_map_err, where P = "\<lambda>a. a = audio"])
qed

lemma ensures_plan:
  assumes "planner_ready fa opts rate m (length samples)" and "provider_ok vad_provider" and "lf_mode opts = ModeOff \<longrightarrow> length samples \<le> m"
  shows "p_ensures (plan_longform_slices_with_materialization_gate fa silence samples rate opts vad_provider canceled admit) (plan_ok m)"
proof -
  note check = ensures_bind [OF ensures_map_err [OF ensures_check]]
  have empty: "plan_ok m (empty_plan rate)" by (simp add: plan_ok_def empty_plan_def)
  show ?thesis
  proof (cases "longform_options_validate opts")
    case (Inl e)
    show ?thesis
      unfolding plan_longform_slices_with_materialization_gate_def Let_def Inl sum.case
      by (rule check, rule ensures_if) (rule ensures_fail)+
  next
    case (Inr u)
    show ?thesis
      unfolding plan_longform_slices_with_materialization_gate_def Let_def Inr sum.case
      by (rule check, rule ensures_if, rule ensures_fail, rule check, rule ensures_if, rule ensures_return, rule empty,
          rule ensures_bind [OF ensures_map_err [OF ensures_mode [OF assms(1) _ assms(2,3)]]], assumption,
          rule check, rule check, rule ensures_bind [OF ensures_finish [OF assms(1)]], assumption, rule ensures_return)
  qed
qed

text \<open>
  C7. Every plan can be executed. Let the options be \<open>planner_ready\<close> for the recording: the executor
  window is computed without a panic, it, the chunk and the minimum chunk are at least one sample
  at this rate, and the sums of positions (also of the joined audio with its seams) with these
  amounts and with the padding do not overflow \<open>usize\<close>. Validation does not imply this. Let the
  provider, if there is one, return, and with slicing switched off let the recording itself fit. Then
  for every cancellation planning returns, and a plan it returns has slices numbered from
  zero, each a window inside the audio it refers to (the recording or the joined audio), no longer
  than the executor window and around its content.
\<close>

theorem plans_fit_executor:
  assumes "planner_ready fa opts rate m (length samples)" and "provider_ok vad_provider" and "lf_mode opts = ModeOff \<longrightarrow> length samples \<le> m"
  shows "\<exists>res k. plan_longform_slices_with_materialization_gate fa silence samples rate opts vad_provider canceled admit n = Some (res, k)
    \<and> (case res of Inl _ \<Rightarrow> True | Inr plan \<Rightarrow> plan_ok m plan)"
  using ensures_plan [OF assms] unfolding p_ensures_def by blast

theorem plans_fit_executor_witness:
  "\<exists>res k. plan_longform_slices_with_materialization_gate exact_arith 0 (replicate 90 0) 1 longform_options_default
      (Some (energy_vad_provider exact_arith)) (\<lambda>n. n = 4) (\<lambda>_. Inr () :: unit + unit) 0 = Some (res, k)
    \<and> (case res of Inl _ \<Rightarrow> True | Inr plan \<Rightarrow> plan_ok 60 plan)"
proof -
  have "provider_ok (Some (energy_vad_provider exact_arith))"
    by (simp add: provider_ok_def energy_vad_provider_def energy_provider.speech_provider_axioms)
  moreover have "lf_mode longform_options_default = ModeOff \<longrightarrow> length (replicate 90 (0 :: rat)) \<le> 60"
    by (simp add: longform_options_default_def)
  moreover have "planner_ready exact_arith longform_options_default 1 60 (length (replicate 90 (0 :: rat)))"
    by (rule exact_planner_ready) simp
  ultimately show ?thesis by (intro plans_fit_executor)
qed


text \<open>
  C8. The automatic mode keeps what can be heard. For a non-empty recording, options that are
  \<open>planner_ready\<close> for it (window, chunk and minimum chunk of at least one sample and no overflow of
  sample positions, which validation does not imply) and a provider, if any, that returns: planning
  returns, and the layout it chooses (among energy, packed, fixed and speech-driven candidates,
  whatever their scores) is sound and drops no audible window of the recording.
\<close>

theorem auto_plan_keeps_audible:
  assumes "planner_ready fa opts rate m (length samples)" and "samples \<noteq> []" and "provider_ok vad_provider"
  shows "\<exists>res k. plan_auto_slices fa samples rate opts vad_provider canceled n = Some (res, k)
    \<and> (case res of Inl _ \<Rightarrow> True
       | Inr layout \<Rightarrow> layout_ok m samples layout \<and> layout_drops_audible_content fa layout samples rate = None)"
  using ensures_auto [OF assms, of canceled] unfolding p_ensures_def sound_and_audible_def by blast

theorem auto_plan_keeps_audible_witness:
  "\<exists>res k. plan_auto_slices exact_arith (replicate 90 0) 1 longform_options_default None never 0 = Some (res, k)
    \<and> (case res of Inl _ \<Rightarrow> True
       | Inr layout \<Rightarrow> layout_ok 60 (replicate 90 0) layout \<and> layout_drops_audible_content exact_arith layout (replicate 90 0) 1 = None)"
  by (rule auto_plan_keeps_audible [OF exact_planner_ready]) (simp_all add: provider_ok_def)

section \<open>Cancelled runs\<close>

lemma check_agrees [polled_intros]:
  "gives_up_or_agrees SliceCanceled (check_planning_canceled canceled) (check_planning_canceled never)"
  by (simp add: check_planning_canceled_def agrees_poll)

lemma check_agrees_planning [polled_intros]:
  "gives_up_or_agrees (Planning SliceCanceled) (p_map_err Planning (check_planning_canceled canceled)) (p_map_err Planning (check_planning_canceled never))"
  by (rule agrees_map_err [OF check_agrees refl])

lemma energy_candidates_agree [polled_intros]:
  "gives_up_or_agrees SliceCanceled (energy_candidates fa samples rate opts canceled) (energy_candidates fa samples rate opts never)"
  unfolding energy_candidates_def plan_packed_energy_layout_def by (intro polled_intros energy_spans(2))

lemma vad_candidates_agree [polled_intros]:
  assumes "cancels_ok vad_provider"
  shows "gives_up_or_agrees SliceCanceled (vad_candidates fa samples rate opts vad_provider canceled) (vad_candidates fa samples rate opts vad_provider never)"
proof (cases "speech_detecting vad_provider")
  case (Some p)
  note sp = provider_spans(2) [OF speech_detecting_cancels [OF assms Some]]
  show ?thesis unfolding vad_candidates_def Some option.case by (intro polled_intros sp)
qed (simp add: vad_candidates_def polled_intros)

lemma auto_agrees:
  assumes "cancels_ok vad_provider"
  shows "gives_up_or_agrees SliceCanceled (plan_auto_slices fa samples rate opts vad_provider canceled) (plan_auto_slices fa samples rate opts vad_provider never)"
  unfolding plan_auto_slices_def auto_candidates_def case_prod_beta by (intro polled_intros assms)

lemma gate_agrees:
  assumes "cancels_ok vad_provider"
  shows "gives_up_or_agrees SliceCanceled (attach_energy_auto_decode_gate fa layout vad_provider samples rate opts canceled)
    (attach_energy_auto_decode_gate fa layout vad_provider samples rate opts never)"
proof (cases "speech_detecting vad_provider")
  case None
  show ?thesis unfolding attach_energy_auto_decode_gate_def None option.case by (intro polled_intros energy_spans(2))
next
  case (Some p)
  note sp = provider_spans(2) [OF speech_detecting_cancels [OF assms Some]]
  show ?thesis unfolding attach_energy_auto_decode_gate_def Some option.case by (intro polled_intros sp)
qed

lemma energy_auto_agrees:
  assumes "cancels_ok vad_provider"
  shows "gives_up_or_agrees SliceCanceled (plan_energy_auto_slices fa samples rate opts vad_provider canceled)
    (plan_energy_auto_slices fa samples rate opts vad_provider never)"
  unfolding plan_energy_auto_slices_def by (intro polled_intros gate_agrees assms)

lemma vad_mode_agrees:
  assumes "cancels_ok vad_provider"
  shows "gives_up_or_agrees SliceCanceled (plan_vad_slices fa samples rate opts vad_provider canceled) (plan_vad_slices fa samples rate opts vad_provider never)"
proof (cases vad_provider)
  case None
  show ?thesis unfolding plan_vad_slices_def None option.case by (intro polled_intros)
next
  case (Some p)
  have "cancellable_provider (vp_compute p)" using assms Some by (simp add: cancels_ok_def)
  note sp = provider_spans(2) [OF this]
  show ?thesis unfolding plan_vad_slices_def Some option.case by (intro polled_intros sp)
qed

lemma mode_agrees:
  assumes "cancels_ok vad_provider"
  shows "gives_up_or_agrees SliceCanceled (layout_of_mode fa samples rate opts vad_provider canceled) (layout_of_mode fa samples rate opts vad_provider never)"
  unfolding layout_of_mode_def Let_def
  by (cases "lf_mode opts") (auto intro!: polled_intros auto_agrees energy_auto_agrees vad_mode_agrees assms)

lemma finish_agrees:
  "gives_up_or_agrees (Planning SliceCanceled) (finish_layout fa silence layout samples rate opts canceled admit)
     (finish_layout fa silence layout samples rate opts never admit)"
proof (cases "pl_packed_audio_plan layout")
  case None
  show ?thesis unfolding finish_layout_def None option.case by (intro polled_intros)
next
  case (Some plan)
  have mat: "gives_up_or_agrees (Planning SliceCanceled) (p_map_err Planning (materialize_cancellable samples silence plan canceled))
      (p_map_err Planning (materialize_cancellable samples silence plan never))"
    unfolding materialize_cancellable_def by (rule agrees_map_err [OF _ refl]) (intro polled_intros)
  show ?thesis
    unfolding finish_layout_def Some option.case
    by (cases "admit (pa_processed_samples plan)") (simp_all add: polled_intros mat)
qed

text \<open>
  C22. Cancellation is safe: without a provider, with the built-in energy detector and with any
  provider of spans behind the default cancellable method of the trait, however the polls are
  answered, a run of the planner either gives up with the cancellation error or gives exactly the
  plan (or error) of a run that is never cancelled, after the same number of polls. (A provider that
  overrides the cancellable method, such as the neural one, is outside this statement.)
\<close>

theorem cancelled_run_gives_up_or_agrees:
  "(\<exists>k. plan_longform_slices_with_materialization_gate fa silence samples rate opts (provider_of fa choice) canceled admit n
        = Some (Inl (Planning SliceCanceled), k))
    \<or> plan_longform_slices_with_materialization_gate fa silence samples rate opts (provider_of fa choice) canceled admit n
      = plan_longform_slices_with_materialization_gate fa silence samples rate opts (provider_of fa choice) never admit n"
proof -
  have "gives_up_or_agrees (Planning SliceCanceled)
      (plan_longform_slices_with_materialization_gate fa silence samples rate opts (provider_of fa choice) canceled admit)
      (plan_longform_slices_with_materialization_gate fa silence samples rate opts (provider_of fa choice) never admit)"
    unfolding plan_longform_slices_with_materialization_gate_def Let_def
    by (cases "longform_options_validate opts")
      (auto intro!: polled_intros finish_agrees agrees_map_err [OF mode_agrees [OF provider_of_cancels] refl])
  then show ?thesis unfolding gives_up_or_agrees_def by blast
qed

end
