(* ===== verification/Utf8_Text.thy ===== *)
theory Utf8_Text
  imports Asr_Prelude
begin

text \<open>
  Text as bytes: the UTF-8 form of a string (\<open>str::as_bytes\<close>), and the two ways the code reads it
  back, \<open>String::from_utf8\<close> (fails on ill-formed bytes) and \<open>String::from_utf8_lossy\<close> (replaces each
  maximal ill-formed part by U+FFFD). A byte is a natural number below 256, a character its Unicode
  scalar value.
\<close>

section \<open>Encoding\<close>

definition is_scalar :: "nat \<Rightarrow> bool" where
  "is_scalar c \<longleftrightarrow> c < 55296 \<or> (57344 \<le> c \<and> c < 1114112)"

definition utf8_char :: "nat \<Rightarrow> nat list" where
  "utf8_char c =
     (if c < 128 then [c]
      else if c < 2048 then [192 + c div 64, 128 + c mod 64]
      else if c < 65536 then [224 + c div 4096, 128 + c div 64 mod 64, 128 + c mod 64]
      else [240 + c div 262144, 128 + c div 4096 mod 64, 128 + c div 64 mod 64, 128 + c mod 64])"

definition utf8 :: "rstr \<Rightarrow> nat list" where
  "utf8 s = concat (map utf8_char s)"

section \<open>Decoding\<close>

definition is_cont :: "nat \<Rightarrow> bool" where
  "is_cont b \<longleftrightarrow> 128 \<le> b \<and> b < 192"

text \<open>The second bytes allowed after a lead byte of a three or four byte sequence.\<close>

definition second_ok :: "nat \<Rightarrow> nat \<Rightarrow> bool" where
  "second_ok b c \<longleftrightarrow> is_cont c \<and> (b = 224 \<longrightarrow> 160 \<le> c) \<and> (b = 237 \<longrightarrow> c < 160)
     \<and> (b = 240 \<longrightarrow> 144 \<le> c) \<and> (b = 244 \<longrightarrow> c < 144)"

text \<open>
  One step: the next character and the bytes after it, or no character and the bytes after the
  ill-formed part.
\<close>

fun utf8_step :: "nat list \<Rightarrow> nat option \<times> nat list" where
  "utf8_step [] = (None, [])"
| "utf8_step (b # bs) =
     (if b < 128 then (Some b, bs)
      else if 194 \<le> b \<and> b < 224 then
        (case bs of
           c # cs \<Rightarrow> if is_cont c then (Some ((b - 192) * 64 + (c - 128)), cs) else (None, bs)
         | [] \<Rightarrow> (None, []))
      else if 224 \<le> b \<and> b < 240 then
        (case bs of
           c # d # ds \<Rightarrow>
             if \<not> second_ok b c then (None, bs)
             else if is_cont d then (Some ((b - 224) * 4096 + (c - 128) * 64 + (d - 128)), ds)
             else (None, d # ds)
         | [c] \<Rightarrow> (None, if second_ok b c then [] else bs)
         | [] \<Rightarrow> (None, []))
      else if 240 \<le> b \<and> b < 245 then
        (case bs of
           c # d # e # es \<Rightarrow>
             if \<not> second_ok b c then (None, bs)
             else if \<not> is_cont d then (None, d # e # es)
             else if is_cont e then
               (Some ((b - 240) * 262144 + (c - 128) * 4096 + (d - 128) * 64 + (e - 128)), es)
             else (None, e # es)
         | [c, d] \<Rightarrow> (None, if \<not> second_ok b c then bs else if is_cont d then [] else [d])
         | [c] \<Rightarrow> (None, if second_ok b c then [] else bs)
         | [] \<Rightarrow> (None, []))
      else (None, bs))"

lemma utf8_step_shorter: "length (snd (utf8_step (b # bs))) \<le> length bs"
  by (auto split: list.splits)

declare utf8_step.simps [simp del]

function utf8_units :: "nat list \<Rightarrow> nat option list" where
  "utf8_units [] = []"
| "utf8_units (b # bs) = fst (utf8_step (b # bs)) # utf8_units (snd (utf8_step (b # bs)))"
  by pat_completeness auto
termination utf8_units
  by (relation "measure length") (auto simp: le_imp_less_Suc [OF utf8_step_shorter])

definition from_utf8 :: "nat list \<Rightarrow> rstr option" where
  "from_utf8 bs = (let us = utf8_units bs in if None \<in> set us then None else Some (map the us))"

definition from_utf8_lossy :: "nat list \<Rightarrow> rstr" where
  "from_utf8_lossy bs = map (\<lambda>u. case u of Some c \<Rightarrow> c | None \<Rightarrow> 65533) (utf8_units bs)"

section \<open>Round trips\<close>

lemma utf8_Nil [simp]: "utf8 [] = []"
  and utf8_Cons [simp]: "utf8 (c # s) = utf8_char c @ utf8 s"
  and utf8_append [simp]: "utf8 (s @ t) = utf8 s @ utf8 t"
  by (simp_all add: utf8_def)

lemma utf8_char_ne [simp]: "utf8_char c \<noteq> []"
  by (simp add: utf8_char_def)

lemma utf8_eq_Nil [simp]: "utf8 s = [] \<longleftrightarrow> s = []"
  by (cases s) simp_all

lemma utf8_concat: "utf8 (concat ss) = concat (map utf8 ss)"
  by (induction ss) simp_all

lemma utf8_bytes: "\<forall>c \<in> set s. is_scalar c \<Longrightarrow> \<forall>b \<in> set (utf8 s). b < 256"
proof (induction s)
  case (Cons c s)
  then have "c < 1114112" by (auto simp: is_scalar_def)
  then have "\<forall>b \<in> set (utf8_char c). b < 256" by (auto simp: utf8_char_def)
  with Cons show ?case by auto
qed simp

lemma div_64_64: "(c::nat) div 4096 = c div 64 div 64"
  by (simp add: div_mult2_eq [symmetric])

lemma div_split_64: "(c::nat) div 4096 * 4096 + c div 64 mod 64 * 64 + c mod 64 = c"
  using div_mult_mod_eq [of c 64] div_mult_mod_eq [of "c div 64" 64] unfolding div_64_64 by linarith

lemma utf8_step_char:
  assumes "is_scalar c"
  shows "utf8_step (utf8_char c @ rest) = (Some c, rest)"
proof -
  have c: "c < 1114112" using assms by (auto simp: is_scalar_def)
  consider "c < 128" | "128 \<le> c" "c < 2048" | "2048 \<le> c" "c < 65536" | "65536 \<le> c" by linarith
  then show ?thesis
  proof cases
    case 1
    then show ?thesis by (simp add: utf8_char_def utf8_step.simps)
  next
    case 2
    then have "2 \<le> c div 64" "c div 64 < 32" by (simp_all add: div_less_iff_less_mult less_eq_div_iff_mult_less_eq)
    then show ?thesis using 2 by (simp add: utf8_char_def utf8_step.simps is_cont_def)
  next
    case 3
    have "second_ok (224 + c div 4096) (128 + c div 64 mod 64)"
    proof -
      have "32 \<le> c div 64 mod 64" if "c div 4096 = 0"
        using that 3(1) by (simp add: div_eq_0_iff mod_less less_eq_div_iff_mult_less_eq)
      moreover have "c div 64 mod 64 < 32" if "c div 4096 = 13"
        using that assms div_split_64 [of c] by (auto simp: is_scalar_def)
      moreover have "c div 4096 < 16" using 3 by (simp add: div_less_iff_less_mult)
      ultimately show ?thesis by (auto simp: second_ok_def is_cont_def)
    qed
    moreover have "c div 4096 < 16" using 3 by (simp add: div_less_iff_less_mult)
    ultimately show ?thesis using 3 div_split_64 [of c]
      by (simp add: utf8_char_def utf8_step.simps is_cont_def)
  next
    case 4
    have "second_ok (240 + c div 262144) (128 + c div 4096 mod 64)"
    proof -
      have "16 \<le> c div 4096 mod 64" if "c div 262144 = 0"
        using that 4 by (simp add: div_eq_0_iff mod_less less_eq_div_iff_mult_less_eq div_less_iff_less_mult)
      moreover have "c div 4096 mod 64 < 16" if "c div 262144 = 4"
        using that c div_mult_mod_eq [of "c div 4096" 64] div_mult_mod_eq [of c 4096] by (simp add: div_mult2_eq [symmetric])
      ultimately show ?thesis by (auto simp: second_ok_def is_cont_def)
    qed
    moreover have "c div 262144 < 5" using c by (simp add: div_less_iff_less_mult)
    moreover have "c div 262144 * 262144 + c div 4096 mod 64 * 4096 + c div 64 mod 64 * 64 + c mod 64 = c"
      using div_split_64 [of c] div_mult_mod_eq [of "c div 4096" 64] by (simp add: div_mult2_eq [symmetric])
    ultimately show ?thesis using 4
      by (simp add: utf8_char_def utf8_step.simps is_cont_def)
  qed
qed

lemma utf8_units_append:
  assumes "\<forall>c \<in> set s. is_scalar c"
  shows "utf8_units (utf8 s @ rest) = map Some s @ utf8_units rest"
  using assms
proof (induction s)
  case (Cons c s)
  obtain b bs where "utf8_char c @ utf8 s @ rest = b # bs" by (cases "utf8_char c") auto
  then show ?case using Cons utf8_step_char [of c "utf8 s @ rest"] by simp
qed simp

lemma from_utf8_utf8: "\<forall>c \<in> set s. is_scalar c \<Longrightarrow> from_utf8 (utf8 s) = Some s"
  using utf8_units_append [of s "[]"] by (auto simp: from_utf8_def Let_def)

lemma from_utf8_lossy_utf8: "\<forall>c \<in> set s. is_scalar c \<Longrightarrow> from_utf8_lossy (utf8 s) = s"
  using utf8_units_append [of s "[]"] by (simp add: from_utf8_lossy_def comp_def)

end
