(* ===== verification/Gguf_Header.thy ===== *)
theory Gguf_Header
  imports Utf8_Text
begin

text \<open>
  The reader of model-pack headers (\<open>crates/openasr-core/src/ggml_runtime/gguf_header.rs\<close>): the
  metadata table and the tensor index of a GGUF file, read from a window of its first bytes. A
  window that ends inside the header gives \<open>Truncated\<close>, and the caller fetches more. The messages
  inside \<open>InvalidEncoding\<close> are constructors of \<open>encoding_reason\<close>. Signed and floating-point metadata
  are skipped by the code without looking at them, so only their width matters. The depth of nested
  arrays is bounded by the bytes of the window; the stack of the host that the recursion of
  \<open>skip_value\<close> uses is not modelled.
\<close>

section \<open>Data\<close>

definition gguf_magic :: "8 word list" where
  "gguf_magic = [71, 71, 85, 70]"

definition max_gguf_string_bytes :: nat where
  "max_gguf_string_bytes = 4 * 1024 * 1024"

datatype encoding_reason =
    StringTooLong nat
  | NotUtf8
  | BadBool nat
  | UnknownValueType nat
  | UnsupportedRank rstr nat

datatype gguf_header_error =
    BadMagic "8 word list"
  | UnsupportedVersion nat
  | InvalidEncoding encoding_reason
  | Truncated nat nat

record gguf_header_tensor =
  ht_name :: rstr
  ht_dims :: "nat list"
  ht_ggml_type :: nat
  ht_data_offset :: nat

record gguf_header_view =
  hv_version :: nat
  hv_tensor_count :: nat
  hv_metadata_count :: nat
  hv_string_metadata :: "rstr \<rightharpoonup> rstr"
  hv_tensors :: "gguf_header_tensor list"
  hv_header_len :: nat

record window =
  wn_bytes :: "8 word list"
  wn_pos :: nat
  wn_tensor_count :: nat
  wn_parsed_tensors :: nat

definition window_new :: "8 word list \<Rightarrow> window" where
  "window_new bytes = \<lparr>wn_bytes = bytes, wn_pos = 0, wn_tensor_count = 0, wn_parsed_tensors = 0\<rparr>"

section \<open>Reading\<close>

text \<open>
  A step of the reader takes the window and gives an error, or a value and the advanced window. The
  overflow check of \<open>take\<close> fails only where the range check fails too.
\<close>

type_synonym 'a reader = "window \<Rightarrow> gguf_header_error + 'a \<times> window"

definition win_take :: "nat \<Rightarrow> window \<Rightarrow> (8 word list \<times> window) option" where
  "win_take count w =
     (if wn_pos w + count \<le> length (wn_bytes w)
      then Some (take count (drop (wn_pos w) (wn_bytes w)), w\<lparr>wn_pos := wn_pos w + count\<rparr>)
      else None)"

definition win_truncated :: "window \<Rightarrow> gguf_header_error" where
  "win_truncated w = Truncated (wn_parsed_tensors w) (wn_tensor_count w)"

fun from_le_bytes :: "8 word list \<Rightarrow> nat" where
  "from_le_bytes [] = 0"
| "from_le_bytes (b # bs) = unat b + 256 * from_le_bytes bs"

text \<open>\<open>take\<close> with \<open>map_err(|()| self.truncated())\<close>, and the unsigned integers of 1, 4 and 8 bytes.\<close>

definition r_take :: "nat \<Rightarrow> (8 word list) reader" where
  "r_take count w = (case win_take count w of None \<Rightarrow> Inl (win_truncated w) | Some r \<Rightarrow> Inr r)"

definition r_return :: "'a \<Rightarrow> 'a reader" where
  "r_return x w = Inr (x, w)"

definition r_fail :: "gguf_header_error \<Rightarrow> 'a reader" where
  "r_fail e w = Inl e"

definition r_bind :: "'a reader \<Rightarrow> ('a \<Rightarrow> 'b reader) \<Rightarrow> 'b reader" where
  "r_bind p f w = rbind (p w) (\<lambda>(x, w'). f x w')"

definition r_uint :: "nat \<Rightarrow> nat reader" where
  "r_uint width = r_bind (r_take width) (\<lambda>bs. r_return (from_le_bytes bs))"

definition gguf_string :: "rstr reader" where
  "gguf_string =
     r_bind (r_uint 8) (\<lambda>len.
       if max_gguf_string_bytes < len then r_fail (InvalidEncoding (StringTooLong len))
       else r_bind (r_take len) (\<lambda>bs.
         case from_utf8 (map unat bs) of
           None \<Rightarrow> r_fail (InvalidEncoding NotUtf8)
         | Some s \<Rightarrow> r_return s))"

text \<open>The width of the metadata types that are skipped in place: all but bool, string and array.\<close>

definition fixed_width :: "nat \<Rightarrow> nat option" where
  "fixed_width value_type =
     (if value_type \<in> {0, 1} then Some 1
      else if value_type \<in> {2, 3} then Some 2
      else if value_type \<in> {4, 5, 6} then Some 4
      else if value_type \<in> {10, 11, 12} then Some 8
      else None)"

text \<open>
  Skipping a metadata value, and the elements of an array. Arrays nest; each level consumes its own
  element type and count, so the recursion ends with the window.
\<close>

function skip_value :: "nat \<Rightarrow> window \<Rightarrow> gguf_header_error + rstr option \<times> window"
  and skip_array :: "nat \<Rightarrow> nat \<Rightarrow> window \<Rightarrow> gguf_header_error + unit \<times> window" where
  "skip_value value_type w =
     (case fixed_width value_type of
        Some n \<Rightarrow> r_bind (r_take n) (\<lambda>_. r_return None) w
      | None \<Rightarrow>
          if value_type = 7 then
            r_bind (r_uint 1) (\<lambda>flag. if 1 < flag then r_fail (InvalidEncoding (BadBool flag)) else r_return None) w
          else if value_type = 8 then r_bind gguf_string (\<lambda>s. r_return (Some s)) w
          else if value_type = 9 then
            (case r_bind (r_uint 4) (\<lambda>element_type. r_bind (r_uint 8) (\<lambda>count. r_return (element_type, count))) w of
               Inl e \<Rightarrow> Inl e
             | Inr ((element_type, count), w1) \<Rightarrow>
                 (case skip_array element_type count w1 of Inl e \<Rightarrow> Inl e | Inr (_, w2) \<Rightarrow> Inr (None, w2)))
          else Inl (InvalidEncoding (UnknownValueType value_type)))"
| "skip_array element_type count w =
     (case count of
        0 \<Rightarrow> Inr ((), w)
      | Suc n \<Rightarrow>
          (case skip_value element_type w of Inl e \<Rightarrow> Inl e | Inr (_, w1) \<Rightarrow> skip_array element_type n w1))"
  by pat_completeness auto

text \<open>No step moves the window backwards, so the recursion ends.\<close>

definition win_left :: "window \<Rightarrow> nat" where
  "win_left w = length (wn_bytes w) - wn_pos w"

lemma r_return_iff [simp]: "r_return x w = Inr (y, w') \<longleftrightarrow> x = y \<and> w' = w"
  by (auto simp: r_return_def)

lemma r_fail_iff [simp]: "r_fail e w \<noteq> Inr r" "r_fail e w = Inl e' \<longleftrightarrow> e' = e"
  by (auto simp: r_fail_def)

lemma r_bind_Inr_iff [simp]:
  "r_bind p f w = Inr (y, w'') \<longleftrightarrow> (\<exists>x w'. p w = Inr (x, w') \<and> f x w' = Inr (y, w''))"
  by (auto simp: r_bind_def)

lemma r_bind_Inl_iff [simp]:
  "r_bind p f w = Inl e \<longleftrightarrow> p w = Inl e \<or> (\<exists>x w'. p w = Inr (x, w') \<and> f x w' = Inl e)"
  by (auto simp: r_bind_def)

lemma r_return_ne_Inl [simp]: "r_return x w \<noteq> Inl e"
  by (simp add: r_return_def)

lemma take_left: "r_take n w = Inr (x, w') \<Longrightarrow> win_left w' + n = win_left w"
  by (auto simp: r_take_def win_take_def win_left_def split: if_splits)

lemma uint_left: "r_uint n w = Inr (x, w') \<Longrightarrow> win_left w' + n = win_left w"
  by (auto simp: r_uint_def dest: take_left)

lemma string_left: "gguf_string w = Inr (s, w') \<Longrightarrow> win_left w' < win_left w"
  by (fastforce simp: gguf_string_def split: if_splits option.splits dest!: uint_left take_left)

lemma skip_left:
  "skip_value_skip_array_dom (Inl (value_type, w)) \<Longrightarrow> skip_value value_type w = Inr (v, w') \<Longrightarrow> win_left w' \<le> win_left w"
  "skip_value_skip_array_dom (Inr (element_type, count, w)) \<Longrightarrow> skip_array element_type count w = Inr (u, w') \<Longrightarrow> win_left w' \<le> win_left w"
proof (induction arbitrary: v w' and u w' rule: skip_value_skip_array.pinduct)
  case (1 value_type w)
  show ?case
  proof (cases "fixed_width value_type = None \<and> value_type = 9")
    case True
    then obtain et n w1 w2 where "r_uint 4 w = Inr (et, w2)" "r_uint 8 w2 = Inr (n, w1)" and a: "skip_array et n w1 = Inr ((), w')"
      using 1 by (auto simp: skip_value.psimps split: sum.splits)
    moreover from this have "win_left w' \<le> win_left w1"
      using 1(2) [of "((et, n), w1)"] True by (auto simp: fixed_width_def)
    ultimately show ?thesis by (auto dest!: uint_left)
  next
    case False
    then show ?thesis
      using 1 by (auto simp: skip_value.psimps split: option.splits if_splits dest!: uint_left take_left string_left)
  qed
next
  case (2 element_type count w)
  then show ?case
    by (fastforce simp: skip_array.psimps split: nat.splits sum.splits intro: order_trans)
qed

termination skip_value
  by (relation "measures [case_sum (\<lambda>(t, w). win_left w) (\<lambda>(t, n, w). win_left w),
      case_sum (\<lambda>_. 0) (\<lambda>(t, n, w). Suc n)]")
    (auto dest!: skip_left uint_left)

declare skip_value.simps [simp del] skip_array.simps [simp del]


section \<open>The header\<close>

primrec kv_loop :: "nat \<Rightarrow> (rstr \<rightharpoonup> rstr) \<Rightarrow> (rstr \<rightharpoonup> rstr) reader" where
  "kv_loop 0 string_metadata = r_return string_metadata"
| "kv_loop (Suc n) string_metadata =
     r_bind gguf_string (\<lambda>key.
     r_bind (r_uint 4) (\<lambda>value_type.
     r_bind (skip_value value_type) (\<lambda>v.
     kv_loop n (case v of Some s \<Rightarrow> string_metadata(key \<mapsto> s) | None \<Rightarrow> string_metadata))))"

primrec dims_loop :: "nat \<Rightarrow> nat list \<Rightarrow> nat list reader" where
  "dims_loop 0 dims = r_return dims"
| "dims_loop (Suc n) dims = r_bind (r_uint 8) (\<lambda>d. dims_loop n (dims @ [d]))"

definition tensor_entry :: "gguf_header_tensor reader" where
  "tensor_entry =
     r_bind gguf_string (\<lambda>name.
     r_bind (r_uint 4) (\<lambda>rank.
     if \<not> (1 \<le> rank \<and> rank \<le> 4) then r_fail (InvalidEncoding (UnsupportedRank name rank))
     else r_bind (dims_loop rank []) (\<lambda>dims.
     r_bind (r_uint 4) (\<lambda>ggml_type.
     r_bind (r_uint 8) (\<lambda>data_offset.
     r_return \<lparr>ht_name = name, ht_dims = dims, ht_ggml_type = ggml_type, ht_data_offset = data_offset\<rparr>)))))"

definition set_tensor_count :: "nat \<Rightarrow> unit reader" where
  "set_tensor_count n w = Inr ((), w\<lparr>wn_tensor_count := n\<rparr>)"

definition set_parsed_tensors :: "nat \<Rightarrow> unit reader" where
  "set_parsed_tensors n w = Inr ((), w\<lparr>wn_parsed_tensors := n\<rparr>)"

primrec tensor_loop :: "nat \<Rightarrow> gguf_header_tensor list \<Rightarrow> gguf_header_tensor list reader" where
  "tensor_loop 0 tensors = r_return tensors"
| "tensor_loop (Suc n) tensors =
     r_bind tensor_entry (\<lambda>t.
     r_bind (set_parsed_tensors (length (tensors @ [t]))) (\<lambda>_.
     tensor_loop n (tensors @ [t])))"

definition get_pos :: "nat reader" where
  "get_pos w = Inr (wn_pos w, w)"

definition header_fields :: "(nat \<times> nat \<times> nat \<times> (rstr \<rightharpoonup> rstr) \<times> gguf_header_tensor list) reader" where
  "header_fields =
     r_bind (r_take 4) (\<lambda>magic.
     if magic \<noteq> gguf_magic then r_fail (BadMagic magic)
     else r_bind (r_uint 4) (\<lambda>version.
     if version \<noteq> 2 \<and> version \<noteq> 3 then r_fail (UnsupportedVersion version)
     else r_bind (r_uint 8) (\<lambda>tensor_count.
     r_bind (set_tensor_count tensor_count) (\<lambda>_.
     r_bind (r_uint 8) (\<lambda>kv_count.
     r_bind (kv_loop kv_count Map.empty) (\<lambda>string_metadata.
     r_bind (tensor_loop tensor_count []) (\<lambda>tensors.
     r_return (version, tensor_count, kv_count, string_metadata, tensors))))))))"

definition header_reader :: "gguf_header_view reader" where
  "header_reader =
     r_bind header_fields (\<lambda>(version, tensor_count, kv_count, string_metadata, tensors).
     r_bind get_pos (\<lambda>header_len.
     r_return \<lparr>hv_version = version, hv_tensor_count = tensor_count, hv_metadata_count = kv_count,
       hv_string_metadata = string_metadata, hv_tensors = tensors, hv_header_len = header_len\<rparr>))"

definition parse_gguf_header :: "8 word list \<Rightarrow> gguf_header_error + gguf_header_view" where
  "parse_gguf_header bytes = rbind (header_reader (window_new bytes)) (\<lambda>(view, _). Inr view)"

section \<open>Widening the window\<close>

text \<open>
  A framed reader depends only on the bytes it consumes: more bytes behind them, or different ones,
  change nothing about a value it has read; and an error other than \<open>Truncated\<close> stays when the
  window grows.
\<close>

definition framed_at :: "'a reader \<Rightarrow> window \<Rightarrow> bool" where
  "framed_at p w \<longleftrightarrow> (wn_pos w \<le> length (wn_bytes w) \<longrightarrow>
     (\<forall>x w'. p w = Inr (x, w') \<longrightarrow>
        wn_bytes w' = wn_bytes w \<and> wn_pos w \<le> wn_pos w' \<and> wn_pos w' \<le> length (wn_bytes w)
        \<and> (\<forall>bytes. wn_pos w' \<le> length bytes \<and> take (wn_pos w') bytes = take (wn_pos w') (wn_bytes w)
             \<longrightarrow> p (w\<lparr>wn_bytes := bytes\<rparr>) = Inr (x, w'\<lparr>wn_bytes := bytes\<rparr>)))
     \<and> (\<forall>e. p w = Inl e \<longrightarrow> (\<exists>a b. e = Truncated a b) \<or> (\<forall>ext. p (w\<lparr>wn_bytes := wn_bytes w @ ext\<rparr>) = Inl e)))"

named_theorems framed_intros

lemma framed_value:
  assumes "framed_at p w" and "p w = Inr (x, w')" and "wn_pos w \<le> length (wn_bytes w)"
  shows "wn_bytes w' = wn_bytes w" and "wn_pos w \<le> wn_pos w'" and "wn_pos w' \<le> length (wn_bytes w)"
  using assms unfolding framed_at_def by blast+

lemma framed_local:
  assumes "framed_at p w" and "p w = Inr (x, w')" and "wn_pos w \<le> length (wn_bytes w)"
    and "wn_pos w' \<le> length bytes" and "take (wn_pos w') bytes = take (wn_pos w') (wn_bytes w)"
  shows "p (w\<lparr>wn_bytes := bytes\<rparr>) = Inr (x, w'\<lparr>wn_bytes := bytes\<rparr>)"
  using assms unfolding framed_at_def by blast

lemma framed_error:
  assumes "framed_at p w" and "p w = Inl e" and "wn_pos w \<le> length (wn_bytes w)" and "\<nexists>a b. e = Truncated a b"
  shows "p (w\<lparr>wn_bytes := wn_bytes w @ ext\<rparr>) = Inl e"
  using assms unfolding framed_at_def by blast

lemma framed_return [framed_intros]: "framed_at (r_return x) w"
  by (simp add: framed_at_def r_return_def)

lemma framed_fail [framed_intros]: "framed_at (r_fail e) w"
  by (simp add: framed_at_def r_fail_def)

lemma framed_set [framed_intros]:
  "framed_at (set_tensor_count n) w" "framed_at (set_parsed_tensors n) w" "framed_at get_pos w"
  by (auto simp: framed_at_def set_tensor_count_def set_parsed_tensors_def get_pos_def)

lemma framed_take [framed_intros]: "framed_at (r_take n) w"
proof (cases "wn_pos w + n \<le> length (wn_bytes w)")
  case True
  then have "r_take n w = Inr (take n (drop (wn_pos w) (wn_bytes w)), w\<lparr>wn_pos := wn_pos w + n\<rparr>)"
    by (simp add: r_take_def win_take_def)
  moreover have "r_take n (w\<lparr>wn_bytes := bytes\<rparr>)
      = Inr (take n (drop (wn_pos w) (wn_bytes w)), w\<lparr>wn_pos := wn_pos w + n, wn_bytes := bytes\<rparr>)"
    if "wn_pos w + n \<le> length bytes" "take (wn_pos w + n) bytes = take (wn_pos w + n) (wn_bytes w)" for bytes
    using that(1) arg_cong [OF that(2), of "drop (wn_pos w)"] by (simp add: r_take_def win_take_def drop_take)
  ultimately show ?thesis using True by (simp add: framed_at_def)
next
  case False
  then show ?thesis by (simp add: framed_at_def r_take_def win_take_def win_truncated_def)
qed

lemma framed_bind [framed_intros]:
  assumes p: "framed_at p w" and f: "\<And>x w'. p w = Inr (x, w') \<Longrightarrow> framed_at (f x) w'"
  shows "framed_at (r_bind p f) w"
  unfolding framed_at_def
proof (intro allI impI conjI)
  fix y w''
  assume w: "wn_pos w \<le> length (wn_bytes w)" and r: "r_bind p f w = Inr (y, w'')"
  then obtain x w' where 1: "p w = Inr (x, w')" and 2: "f x w' = Inr (y, w'')" by auto
  note v1 = framed_value [OF p 1 w]
  have w': "wn_pos w' \<le> length (wn_bytes w')" using v1 by simp
  note v2 = framed_value [OF f [OF 1] 2 w']
  show "wn_bytes w'' = wn_bytes w" "wn_pos w \<le> wn_pos w''" "wn_pos w'' \<le> length (wn_bytes w)"
    using v1 v2 by simp_all
  fix bytes
  assume b: "wn_pos w'' \<le> length bytes \<and> take (wn_pos w'') bytes = take (wn_pos w'') (wn_bytes w)"
  then have "take (wn_pos w') bytes = take (wn_pos w') (wn_bytes w)"
    using v2(2) by (metis min.absorb1 take_take)
  then have "p (w\<lparr>wn_bytes := bytes\<rparr>) = Inr (x, w'\<lparr>wn_bytes := bytes\<rparr>)"
    using framed_local [OF p 1 w, of bytes] b v2(2) by simp
  moreover have "f x (w'\<lparr>wn_bytes := bytes\<rparr>) = Inr (y, w''\<lparr>wn_bytes := bytes\<rparr>)"
    using framed_local [OF f [OF 1] 2 w', of bytes] b v1(1) by simp
  ultimately show "r_bind p f (w\<lparr>wn_bytes := bytes\<rparr>) = Inr (y, w''\<lparr>wn_bytes := bytes\<rparr>)" by simp
next
  fix e
  assume w: "wn_pos w \<le> length (wn_bytes w)" and r: "r_bind p f w = Inl e"
  show "(\<exists>a b. e = Truncated a b) \<or> (\<forall>ext. r_bind p f (w\<lparr>wn_bytes := wn_bytes w @ ext\<rparr>) = Inl e)"
  proof (cases "p w")
    case (Inl e')
    then show ?thesis using r framed_error [OF p Inl w] by (auto simp: r_bind_def)
  next
    case (Inr r')
    then obtain x w' where 1: "p w = Inr (x, w')" and 2: "f x w' = Inl e" using r by (cases r') (auto simp: r_bind_def)
    note v1 = framed_value [OF p 1 w]
    have "r_bind p f (w\<lparr>wn_bytes := wn_bytes w @ ext\<rparr>) = Inl e" if "\<nexists>a b. e = Truncated a b" for ext
    proof -
      have "p (w\<lparr>wn_bytes := wn_bytes w @ ext\<rparr>) = Inr (x, w'\<lparr>wn_bytes := wn_bytes w @ ext\<rparr>)"
        using framed_local [OF p 1 w, of "wn_bytes w @ ext"] v1 by simp
      moreover have "f x (w'\<lparr>wn_bytes := wn_bytes w' @ ext\<rparr>) = Inl e"
        using framed_error [OF f [OF 1] 2 _ that] v1 by simp
      ultimately show ?thesis using v1(1) by simp
    qed
    then show ?thesis by blast
  qed
qed

lemma framed_if [framed_intros]: "(b \<Longrightarrow> framed_at p w) \<Longrightarrow> (\<not> b \<Longrightarrow> framed_at q w) \<Longrightarrow> framed_at (if b then p else q) w"
  by simp

lemma framed_option [framed_intros]:
  "framed_at p w \<Longrightarrow> (\<And>x. framed_at (q x) w) \<Longrightarrow> framed_at (case o' of None \<Rightarrow> p | Some x \<Rightarrow> q x) w"
  by (cases o') simp_all

lemma framed_uint [framed_intros]: "framed_at (r_uint n) w"
  unfolding r_uint_def by (intro framed_intros)

lemma framed_string [framed_intros]: "framed_at gguf_string w"
  unfolding gguf_string_def by (intro framed_intros)

text \<open>The two mutually recursive functions as readers.\<close>

lemma skip_value_reader:
  "skip_value value_type =
     (case fixed_width value_type of
        Some n \<Rightarrow> r_bind (r_take n) (\<lambda>_. r_return None)
      | None \<Rightarrow>
          if value_type = 7 then
            r_bind (r_uint 1) (\<lambda>flag. if 1 < flag then r_fail (InvalidEncoding (BadBool flag)) else r_return None)
          else if value_type = 8 then r_bind gguf_string (\<lambda>s. r_return (Some s))
          else if value_type = 9 then
            r_bind (r_uint 4) (\<lambda>element_type. r_bind (r_uint 8) (\<lambda>count.
              r_bind (skip_array element_type count) (\<lambda>_. r_return None)))
          else r_fail (InvalidEncoding (UnknownValueType value_type)))"
  by (rule ext, subst skip_value.simps) (auto simp: r_bind_def r_return_def r_fail_def rbind.simps split: option.splits sum.splits)

lemma skip_array_reader:
  "skip_array element_type 0 = r_return ()"
  "skip_array element_type (Suc n) = r_bind (skip_value element_type) (\<lambda>_. skip_array element_type n)"
  by (rule ext, subst skip_array.simps, auto simp: r_bind_def r_return_def split: sum.splits)+

lemma framed_skip [framed_intros]:
  "framed_at (skip_value value_type) w" "framed_at (skip_array element_type count) w'"
proof (induction value_type w and element_type count w' rule: skip_value_skip_array.induct)
  case (1 value_type w)
  show ?case
  proof (cases "fixed_width value_type = None \<and> value_type = 9")
    case True
    show ?thesis
      unfolding skip_value_reader using True
      by (simp, intro framed_intros 1) (auto simp: fixed_width_def)
  next
    case False
    then show ?thesis unfolding skip_value_reader by (cases "fixed_width value_type") (auto intro: framed_intros)
  qed
next
  case (2 element_type count w)
  then show ?case by (cases count) (auto simp: skip_array_reader intro!: framed_intros)
qed

lemma framed_kv_loop [framed_intros]: "framed_at (kv_loop n m) w"
  by (induction n arbitrary: m w) (auto intro!: framed_intros)

lemma framed_dims_loop [framed_intros]: "framed_at (dims_loop n dims) w"
  by (induction n arbitrary: dims w) (auto intro!: framed_intros)

lemma framed_tensor_entry [framed_intros]: "framed_at tensor_entry w"
  unfolding tensor_entry_def by (intro framed_intros)

lemma framed_tensor_loop [framed_intros]: "framed_at (tensor_loop n tensors) w"
  by (induction n arbitrary: tensors w) (auto intro!: framed_intros)

lemma framed_header: "framed_at header_reader w"
  unfolding header_reader_def header_fields_def split_def by (intro framed_intros)

lemma header_len_pos:
  "header_reader w = Inr (view, w') \<Longrightarrow> hv_header_len view = wn_pos w'"
  by (auto simp: header_reader_def get_pos_def split: if_splits)

lemma parse_Inr_iff: "parse_gguf_header bytes = Inr view \<longleftrightarrow> (\<exists>w'. header_reader (window_new bytes) = Inr (view, w'))"
  by (auto simp: parse_gguf_header_def)

lemma parse_local:
  assumes "parse_gguf_header bytes = Inr view" and "hv_header_len view \<le> length bytes'"
    and "take (hv_header_len view) bytes' = take (hv_header_len view) bytes"
  shows "parse_gguf_header bytes' = Inr view"
proof -
  obtain w' where "header_reader (window_new bytes) = Inr (view, w')" using assms(1) by (auto simp: parse_Inr_iff)
  with framed_local [OF framed_header this, of bytes'] header_len_pos [OF this] assms(2,3)
  show ?thesis by (auto simp: window_new_def parse_Inr_iff)
qed

lemma parse_header_len: "parse_gguf_header bytes = Inr view \<Longrightarrow> hv_header_len view \<le> length bytes"
  using framed_value(3) [OF framed_header] header_len_pos
  by (fastforce simp: parse_Inr_iff window_new_def)

lemma parse_error_final:
  assumes "parse_gguf_header bytes = Inl e" and "\<nexists>a b. e = Truncated a b"
  shows "parse_gguf_header (bytes @ ext) = Inl e"
proof -
  have "header_reader (window_new bytes) = Inl e" using assms(1) by (auto simp: parse_gguf_header_def)
  with framed_error [OF framed_header this _ assms(2), of ext]
  show ?thesis by (simp add: window_new_def parse_gguf_header_def)
qed

text \<open>
  C32. Fetching a header in growing pieces is sound: if the header of a file can be read at all, then
  every prefix of the file gives either the same view, exactly when it contains the whole header, or
  \<open>Truncated\<close>; and an error other than \<open>Truncated\<close> on a prefix is the error of the whole file, so
  nothing is gained by fetching more.
\<close>

theorem growing_window_is_sound:
  shows "(\<forall>view. parse_gguf_header file = Inr view \<longrightarrow>
       hv_header_len view \<le> length file
       \<and> (\<forall>n. if hv_header_len view \<le> n then parse_gguf_header (take n file) = Inr view
              else \<exists>parsed count. parse_gguf_header (take n file) = Inl (Truncated parsed count)))
    \<and> (\<forall>n e. parse_gguf_header (take n file) = Inl e \<longrightarrow>
         (\<exists>parsed count. e = Truncated parsed count) \<or> parse_gguf_header file = Inl e)"
proof (intro conjI allI impI)
  fix view n
  assume p: "parse_gguf_header file = Inr view"
  show len: "hv_header_len view \<le> length file" by (rule parse_header_len [OF p])
  show "if hv_header_len view \<le> n then parse_gguf_header (take n file) = Inr view
      else \<exists>parsed count. parse_gguf_header (take n file) = Inl (Truncated parsed count)"
  proof (cases "hv_header_len view \<le> n")
    case True
    then show ?thesis using parse_local [OF p, of "take n file"] len by (simp add: min_def)
  next
    case False
    have "view' = view" if "parse_gguf_header (take n file) = Inr view'" for view'
    proof -
      have "hv_header_len view' \<le> n" using parse_header_len [OF that] by simp
      then have "parse_gguf_header file = Inr view'"
        using parse_local [OF that, of "file"] parse_header_len [OF that] by simp
      then show ?thesis using p by simp
    qed
    then have "parse_gguf_header (take n file) \<noteq> Inr view'" for view'
      using False parse_header_len [of "take n file" view'] by auto
    then obtain e where e: "parse_gguf_header (take n file) = Inl e" by (cases "parse_gguf_header (take n file)") auto
    then have "\<exists>a b. e = Truncated a b"
      using parse_error_final [OF e, of "drop n file"] p by auto
    then show ?thesis using False e by auto
  qed
next
  fix n e
  assume "parse_gguf_header (take n file) = Inl e"
  then show "(\<exists>parsed count. e = Truncated parsed count) \<or> parse_gguf_header file = Inl e"
    using parse_error_final [of "take n file" e "drop n file"] by auto
qed

definition sample_file :: "8 word list" where
  "sample_file = [71, 71, 85, 70, 3, 0, 0, 0, 0, 0, 0, 0, 0, 0, 0, 0, 0, 0, 0, 0, 0, 0, 0, 0, 9]"

lemma sample_file_parses:
  "parse_gguf_header sample_file = Inr \<lparr>hv_version = 3, hv_tensor_count = 0, hv_metadata_count = 0,
     hv_string_metadata = Map.empty, hv_tensors = [], hv_header_len = 24\<rparr>"
  by (simp add: parse_gguf_header_def header_reader_def header_fields_def sample_file_def gguf_magic_def window_new_def
      r_bind_def r_take_def win_take_def r_uint_def r_return_def set_tensor_count_def get_pos_def take_Cons' drop_Cons')

theorem growing_window_is_sound_witness:
  "parse_gguf_header (take 24 sample_file) = parse_gguf_header sample_file
    \<and> (\<exists>parsed count. parse_gguf_header (take 23 sample_file) = Inl (Truncated parsed count))"
proof -
  note g = spec [OF conjunct1 [OF growing_window_is_sound [of sample_file]], THEN mp, OF sample_file_parses]
  show ?thesis
    using spec [OF conjunct2 [OF g], of 24] spec [OF conjunct2 [OF g], of 23] sample_file_parses by simp
qed

section \<open>Reading back what the format allows\<close>

text \<open>
  Metadata values as the GGUF format writes them. \<open>G_Fixed\<close> holds the bytes of the types of fixed
  width other than bool.
\<close>

datatype gguf_value =
    G_Fixed nat "8 word list"
  | G_Bool bool
  | G_String rstr
  | G_Array nat "gguf_value list"

primrec value_tag :: "gguf_value \<Rightarrow> nat" where
  "value_tag (G_Fixed t bs) = t"
| "value_tag (G_Bool b) = 7"
| "value_tag (G_String s) = 8"
| "value_tag (G_Array t vs) = 9"

primrec to_le_bytes :: "nat \<Rightarrow> nat \<Rightarrow> 8 word list" where
  "to_le_bytes 0 n = []"
| "to_le_bytes (Suc width) n = word_of_nat n # to_le_bytes width (n div 256)"

definition encode_string :: "rstr \<Rightarrow> 8 word list" where
  "encode_string s = to_le_bytes 8 (length (utf8 s)) @ map word_of_nat (utf8 s)"

fun encode_value :: "gguf_value \<Rightarrow> 8 word list" where
  "encode_value (G_Fixed t bs) = bs"
| "encode_value (G_Bool b) = [if b then 1 else 0]"
| "encode_value (G_String s) = encode_string s"
| "encode_value (G_Array t vs) = to_le_bytes 4 t @ to_le_bytes 8 (length vs) @ concat (map encode_value vs)"

definition string_ok :: "rstr \<Rightarrow> bool" where
  "string_ok s \<longleftrightarrow> list_all is_scalar s \<and> length (utf8 s) \<le> max_gguf_string_bytes"

fun value_ok :: "gguf_value \<Rightarrow> bool" where
  "value_ok (G_Fixed t bs) \<longleftrightarrow> fixed_width t = Some (length bs)"
| "value_ok (G_Bool b) \<longleftrightarrow> True"
| "value_ok (G_String s) \<longleftrightarrow> string_ok s"
| "value_ok (G_Array t vs) \<longleftrightarrow> t < u32_limit \<and> length vs < u64_limit \<and> list_all (\<lambda>v. value_tag v = t \<and> value_ok v) vs"

definition encode_entry :: "rstr \<times> gguf_value \<Rightarrow> 8 word list" where
  "encode_entry e = encode_string (fst e) @ to_le_bytes 4 (value_tag (snd e)) @ encode_value (snd e)"

definition encode_tensor :: "gguf_header_tensor \<Rightarrow> 8 word list" where
  "encode_tensor t = encode_string (ht_name t) @ to_le_bytes 4 (length (ht_dims t))
     @ concat (map (to_le_bytes 8) (ht_dims t)) @ to_le_bytes 4 (ht_ggml_type t) @ to_le_bytes 8 (ht_data_offset t)"

definition tensor_ok :: "gguf_header_tensor \<Rightarrow> bool" where
  "tensor_ok t \<longleftrightarrow> string_ok (ht_name t) \<and> ht_dims t \<noteq> [] \<and> length (ht_dims t) \<le> 4
     \<and> list_all (\<lambda>d. d < u64_limit) (ht_dims t) \<and> ht_ggml_type t < u32_limit \<and> ht_data_offset t < u64_limit"

definition encode_header :: "nat \<Rightarrow> (rstr \<times> gguf_value) list \<Rightarrow> gguf_header_tensor list \<Rightarrow> 8 word list" where
  "encode_header version metadata tensors =
     gguf_magic @ to_le_bytes 4 version @ to_le_bytes 8 (length tensors) @ to_le_bytes 8 (length metadata)
     @ concat (map encode_entry metadata) @ concat (map encode_tensor tensors)"

definition header_ok :: "nat \<Rightarrow> (rstr \<times> gguf_value) list \<Rightarrow> gguf_header_tensor list \<Rightarrow> bool" where
  "header_ok version metadata tensors \<longleftrightarrow> version \<in> {2, 3} \<and> length tensors < u64_limit \<and> length metadata < u64_limit
     \<and> list_all (\<lambda>e. string_ok (fst e) \<and> value_ok (snd e)) metadata \<and> list_all tensor_ok tensors"

text \<open>The string entries of the metadata, in order.\<close>

definition string_entries :: "(rstr \<times> gguf_value) list \<Rightarrow> (rstr \<times> rstr) list" where
  "string_entries metadata = List.map_filter (\<lambda>e. case snd e of G_String s \<Rightarrow> Some (fst e, s) | _ \<Rightarrow> None) metadata"

text \<open>A reader reads \<open>x\<close> from exactly the bytes \<open>bs\<close>, wherever they stand.\<close>

definition reads :: "'a reader \<Rightarrow> 8 word list \<Rightarrow> 'a \<Rightarrow> bool" where
  "reads p bs x \<longleftrightarrow> (\<forall>w rest. drop (wn_pos w) (wn_bytes w) = bs @ rest \<and> wn_pos w \<le> length (wn_bytes w)
     \<longrightarrow> (\<exists>w'. p w = Inr (x, w') \<and> wn_bytes w' = wn_bytes w \<and> wn_pos w' = wn_pos w + length bs))"

named_theorems reads_intros

lemma readsD:
  assumes "reads p bs x" and "drop (wn_pos w) (wn_bytes w) = bs @ rest" and "wn_pos w \<le> length (wn_bytes w)"
  obtains w' where "p w = Inr (x, w')" and "wn_bytes w' = wn_bytes w" and "wn_pos w' = wn_pos w + length bs"
  using assms unfolding reads_def by blast

lemma reads_return [reads_intros]: "reads (r_return x) [] x"
  by (simp add: reads_def r_return_def)

lemma reads_set [reads_intros]: "reads (set_tensor_count n) [] ()" "reads (set_parsed_tensors n) [] ()"
  by (simp_all add: reads_def set_tensor_count_def set_parsed_tensors_def)

lemma reads_bind [reads_intros]:
  assumes "reads p bs x" and "reads (f x) cs y"
  shows "reads (r_bind p f) (bs @ cs) y"
  unfolding reads_def
proof (intro allI impI)
  fix w :: window and rest
  assume w: "drop (wn_pos w) (wn_bytes w) = (bs @ cs) @ rest \<and> wn_pos w \<le> length (wn_bytes w)"
  then obtain w1 where 1: "p w = Inr (x, w1)" "wn_bytes w1 = wn_bytes w" "wn_pos w1 = wn_pos w + length bs"
    using readsD [OF assms(1), of w "cs @ rest"] by auto
  have d: "drop (wn_pos w) (wn_bytes w) = bs @ cs @ rest" using w by simp
  have "drop (wn_pos w1) (wn_bytes w1) = cs @ rest"
    using 1 arg_cong [OF d, of "drop (length bs)"] by (simp add: add.commute)
  moreover have "wn_pos w1 \<le> length (wn_bytes w1)"
  proof -
    have "length (wn_bytes w) - wn_pos w = length (bs @ cs @ rest)" unfolding d [symmetric] by simp
    then show ?thesis using w 1(2,3) by (simp only: length_append) linarith
  qed
  ultimately obtain w2 where "f x w1 = Inr (y, w2)" "wn_bytes w2 = wn_bytes w1" "wn_pos w2 = wn_pos w1 + length cs"
    using readsD [OF assms(2), of w1 rest] by blast
  with 1 show "\<exists>w'. r_bind p f w = Inr (y, w') \<and> wn_bytes w' = wn_bytes w \<and> wn_pos w' = wn_pos w + length (bs @ cs)"
    by auto
qed

lemma reads_bind_last: "reads p bs x \<Longrightarrow> reads (f x) [] y \<Longrightarrow> reads (r_bind p f) bs y"
  using reads_bind [of p bs x f "[]" y] by simp

lemma reads_bind_first: "reads p [] x \<Longrightarrow> reads (f x) cs y \<Longrightarrow> reads (r_bind p f) cs y"
  using reads_bind [of p "[]" x f cs y] by simp

lemma reads_take [reads_intros]: "n = length bs \<Longrightarrow> reads (r_take n) bs bs"
  unfolding reads_def
proof (intro allI impI)
  fix w :: window and rest
  assume n: "n = length bs" and w: "drop (wn_pos w) (wn_bytes w) = bs @ rest \<and> wn_pos w \<le> length (wn_bytes w)"
  then have "length (wn_bytes w) - wn_pos w = length bs + length rest" by (metis length_append length_drop)
  then have "wn_pos w + length bs \<le> length (wn_bytes w)" using w by linarith
  then show "\<exists>w'. r_take n w = Inr (bs, w') \<and> wn_bytes w' = wn_bytes w \<and> wn_pos w' = wn_pos w + length bs"
    using n w by (simp add: r_take_def win_take_def)
qed

lemma length_to_le_bytes [simp]: "length (to_le_bytes width n) = width"
  by (induction width arbitrary: n) simp_all

lemma from_to_le_bytes: "n < 256 ^ width \<Longrightarrow> from_le_bytes (to_le_bytes width n) = n"
proof (induction width arbitrary: n)
  case (Suc width)
  then have "n div 256 < 256 ^ width" by (simp add: less_mult_imp_div_less mult.commute)
  moreover have "unat (word_of_nat n :: 8 word) = n mod 256" by (simp add: unat_of_nat)
  ultimately show ?case using Suc.IH [of "n div 256"] by simp
qed simp

lemma reads_uint [reads_intros]:
  assumes "n < 256 ^ width"
  shows "reads (r_uint width) (to_le_bytes width n) n"
  unfolding r_uint_def
  by (rule reads_bind_last, rule reads_take) (simp_all add: reads_return from_to_le_bytes [OF assms])

lemma reads_string:
  assumes "string_ok s"
  shows "reads gguf_string (encode_string s) s"
proof -
  have s: "\<forall>c \<in> set s. is_scalar c" "length (utf8 s) \<le> max_gguf_string_bytes" using assms by (auto simp: string_ok_def list_all_iff)
  have bytes: "map unat (map word_of_nat (utf8 s) :: 8 word list) = utf8 s"
    using utf8_bytes [OF s(1)] by (simp add: map_idI unat_of_nat)
  have "reads (r_uint 8) (to_le_bytes 8 (length (utf8 s))) (length (utf8 s))"
    using s(2) by (intro reads_uint) (simp add: max_gguf_string_bytes_def)
  moreover have "reads (r_take (length (utf8 s))) (map word_of_nat (utf8 s)) (map word_of_nat (utf8 s))"
    by (intro reads_take) simp
  ultimately show ?thesis
    unfolding gguf_string_def encode_string_def
    using s(2) reads_return [of s] from_utf8_utf8 [OF s(1)]
    by (intro reads_bind [where x = "length (utf8 s)"])
      (auto intro!: reads_bind_last [where x = "map word_of_nat (utf8 s)"] simp: bytes simp del: map_map)
qed

definition value_string :: "gguf_value \<Rightarrow> rstr option" where
  "value_string v = (case v of G_String s \<Rightarrow> Some s | _ \<Rightarrow> None)"

lemma reads_skip_array:
  assumes "\<And>v. v \<in> set vs \<Longrightarrow> \<exists>x. reads (skip_value t) (encode_value v) x"
  shows "reads (skip_array t (length vs)) (concat (map encode_value vs)) ()"
  using assms
proof (induction vs)
  case (Cons v vs)
  then obtain x where "reads (skip_value t) (encode_value v) x" by auto
  moreover have "reads (skip_array t (length vs)) (concat (map encode_value vs)) ()" using Cons by simp
  ultimately show ?case by (auto simp: skip_array_reader intro: reads_bind)
qed (simp add: skip_array_reader reads_return)

lemma reads_value: "value_ok v \<Longrightarrow> reads (skip_value (value_tag v)) (encode_value v) (value_string v)"
proof (induction v)
  case (G_Fixed t bs)
  then show ?case
    by (auto simp: skip_value_reader value_string_def intro!: reads_bind_last [OF reads_take] reads_return)
next
  case (G_Bool b)
  have "reads (r_uint 1) (to_le_bytes 1 (if b then 1 else 0)) (if b then 1 else 0)" by (intro reads_uint) simp
  then show ?case
    by (auto simp: skip_value_reader value_string_def fixed_width_def intro!: reads_bind_last reads_return split: if_splits)
next
  case (G_String s)
  then have "reads gguf_string (encode_string s) s" by (intro reads_string) simp
  then show ?case
    by (auto simp: skip_value_reader value_string_def fixed_width_def intro!: reads_bind_last reads_return)
next
  case (G_Array t vs)
  have t: "reads (r_uint 4) (to_le_bytes 4 t) t" and n: "reads (r_uint 8) (to_le_bytes 8 (length vs)) (length vs)"
    using G_Array.prems by (auto intro!: reads_uint)
  have vs: "reads (skip_array t (length vs)) (concat (map encode_value vs)) ()"
  proof (rule reads_skip_array)
    fix v
    assume v: "v \<in> set vs"
    then have "value_tag v = t" "value_ok v" using G_Array.prems by (auto simp: list_all_iff)
    then show "\<exists>x. reads (skip_value t) (encode_value v) x" using G_Array.IH [OF v] by auto
  qed
  have "reads (r_bind (r_uint 4) (\<lambda>element_type. r_bind (r_uint 8) (\<lambda>count.
      r_bind (skip_array element_type count) (\<lambda>_. r_return None)))) (encode_value (G_Array t vs)) (None :: rstr option)"
    by (simp, rule reads_bind [OF t], rule reads_bind [OF n], rule reads_bind_last [OF vs], rule reads_return)
  then show ?case by (simp add: skip_value_reader value_string_def fixed_width_def)
qed

lemma value_tag_bound: "value_ok v \<Longrightarrow> value_tag v < 256 ^ 4"
  by (cases v) (auto simp: fixed_width_def split: if_splits)

lemma reads_kv_loop:
  assumes "list_all (\<lambda>e. string_ok (fst e) \<and> value_ok (snd e)) metadata"
  shows "reads (kv_loop (length metadata) m) (concat (map encode_entry metadata)) (m ++ map_of (rev (string_entries metadata)))"
  using assms
proof (induction metadata arbitrary: m)
  case (Cons e metadata)
  define m' where "m' = (case value_string (snd e) of Some s \<Rightarrow> m(fst e \<mapsto> s) | None \<Rightarrow> m)"
  have e: "string_ok (fst e)" "value_ok (snd e)" using Cons.prems by simp_all
  have "reads (kv_loop (length metadata) m') (concat (map encode_entry metadata)) (m' ++ map_of (rev (string_entries metadata)))"
    using Cons by simp
  then have "reads (kv_loop (length (e # metadata)) m)
      (encode_string (fst e) @ to_le_bytes 4 (value_tag (snd e)) @ encode_value (snd e) @ concat (map encode_entry metadata))
      (m' ++ map_of (rev (string_entries metadata)))"
    using reads_string [OF e(1)] reads_value [OF e(2)] reads_uint [OF value_tag_bound [OF e(2)]]
    by (auto intro!: reads_bind simp: m'_def)
  moreover have "m' ++ map_of (rev (string_entries metadata)) = m ++ map_of (rev (string_entries (e # metadata)))"
    by (auto simp: m'_def value_string_def string_entries_def map_filter_simps split: gguf_value.splits)
  moreover have "concat (map encode_entry (e # metadata))
      = encode_string (fst e) @ to_le_bytes 4 (value_tag (snd e)) @ encode_value (snd e) @ concat (map encode_entry metadata)"
    by (simp add: encode_entry_def)
  ultimately show ?case by argo
qed (simp add: string_entries_def map_filter_simps reads_return)

lemma reads_dims:
  "list_all (\<lambda>d. d < u64_limit) ds \<Longrightarrow> reads (dims_loop (length ds) dims) (concat (map (to_le_bytes 8) ds)) (dims @ ds)"
proof (induction ds arbitrary: dims)
  case (Cons d ds)
  then have "reads (r_uint 8) (to_le_bytes 8 d) d" by (intro reads_uint) simp
  moreover have "reads (dims_loop (length ds) (dims @ [d])) (concat (map (to_le_bytes 8) ds)) (dims @ d # ds)"
    using Cons.IH [of "dims @ [d]"] Cons.prems by simp
  ultimately show ?case using reads_bind [of "r_uint 8" _ d "\<lambda>d. dims_loop (length ds) (dims @ [d])"] by simp
qed (simp add: reads_return)

lemma reads_tensor:
  assumes "tensor_ok t"
  shows "reads tensor_entry (encode_tensor t) t"
proof -
  have name: "reads gguf_string (encode_string (ht_name t)) (ht_name t)" using assms by (intro reads_string) (simp add: tensor_ok_def)
  have rank: "reads (r_uint 4) (to_le_bytes 4 (length (ht_dims t))) (length (ht_dims t))"
    using assms by (intro reads_uint) (simp add: tensor_ok_def)
  have dims: "reads (dims_loop (length (ht_dims t)) []) (concat (map (to_le_bytes 8) (ht_dims t))) (ht_dims t)"
    using reads_dims [of "ht_dims t" "[]"] assms by (simp add: tensor_ok_def)
  have ty: "reads (r_uint 4) (to_le_bytes 4 (ht_ggml_type t)) (ht_ggml_type t)" using assms by (intro reads_uint) (simp add: tensor_ok_def)
  have offset: "reads (r_uint 8) (to_le_bytes 8 (ht_data_offset t)) (ht_data_offset t)" using assms by (intro reads_uint) (simp add: tensor_ok_def)
  have t: "\<lparr>ht_name = ht_name t, ht_dims = ht_dims t, ht_ggml_type = ht_ggml_type t, ht_data_offset = ht_data_offset t\<rparr> = t" by simp
  have r: "\<not> \<not> (1 \<le> length (ht_dims t) \<and> length (ht_dims t) \<le> 4)" using assms by (simp add: tensor_ok_def Suc_le_eq)
  show ?thesis
    unfolding tensor_entry_def encode_tensor_def
    by (rule reads_bind [OF name], rule reads_bind [OF rank], subst if_not_P [OF r], rule reads_bind [OF dims],
        rule reads_bind [OF ty], rule reads_bind_last [OF offset]) (metis reads_return t)
qed

lemma reads_tensor_loop:
  "list_all tensor_ok ts \<Longrightarrow> reads (tensor_loop (length ts) tensors) (concat (map encode_tensor ts)) (tensors @ ts)"
proof (induction ts arbitrary: tensors)
  case (Cons t ts)
  then have t: "reads tensor_entry (encode_tensor t) t"
    and ts: "reads (tensor_loop (length ts) (tensors @ [t])) (concat (map encode_tensor ts)) (tensors @ t # ts)"
    using reads_tensor [of t] Cons.IH [of "tensors @ [t]"] by simp_all
  show ?case
    by (simp, rule reads_bind [OF t], rule reads_bind_first [OF reads_set(2)]) (use ts in simp)
qed (simp add: reads_return)

lemma reads_header_fields:
  assumes "header_ok version metadata tensors"
  shows "reads header_fields (encode_header version metadata tensors)
    (version, length tensors, length metadata, map_of (rev (string_entries metadata)), tensors)"
proof -
  have magic: "reads (r_take 4) gguf_magic gguf_magic" by (rule reads_take) (simp add: gguf_magic_def)
  have v: "reads (r_uint 4) (to_le_bytes 4 version) version" and "\<not> (version \<noteq> 2 \<and> version \<noteq> 3)"
    using assms by (auto simp: header_ok_def intro: reads_uint)
  have tc: "reads (r_uint 8) (to_le_bytes 8 (length tensors)) (length tensors)"
    and kv: "reads (r_uint 8) (to_le_bytes 8 (length metadata)) (length metadata)"
    using assms by (auto simp: header_ok_def intro: reads_uint)
  have m: "reads (kv_loop (length metadata) Map.empty) (concat (map encode_entry metadata)) (map_of (rev (string_entries metadata)))"
    using reads_kv_loop [of metadata Map.empty] assms by (simp add: header_ok_def)
  have ts: "reads (tensor_loop (length tensors) []) (concat (map encode_tensor tensors)) tensors"
    using reads_tensor_loop [of tensors "[]"] assms by (simp add: header_ok_def)
  show ?thesis
    unfolding header_fields_def encode_header_def
    by (rule reads_bind [OF magic], subst if_not_P, simp, rule reads_bind [OF v], subst if_not_P, fact, rule reads_bind [OF tc],
        rule reads_bind_first [OF reads_set(1)], rule reads_bind [OF kv], rule reads_bind [OF m], rule reads_bind_last [OF ts])
      (rule reads_return)
qed

text \<open>
  C33. Every header the format allows is read back: for any version 2 or 3, any metadata (all value
  types, arrays nested to any depth) and any tensors within the format's limits, parsing the
  encoded header, followed by any data, gives the version, the counts, the string entries (the last
  one of a key), the tensors, and the length of the encoding.
\<close>

theorem encoded_header_is_read_back:
  assumes "header_ok version metadata tensors"
  shows "parse_gguf_header (encode_header version metadata tensors @ rest) =
    Inr \<lparr>hv_version = version, hv_tensor_count = length tensors, hv_metadata_count = length metadata,
      hv_string_metadata = map_of (rev (string_entries metadata)), hv_tensors = tensors,
      hv_header_len = length (encode_header version metadata tensors)\<rparr>"
proof -
  let ?bytes = "encode_header version metadata tensors"
  obtain w' where "header_fields (window_new (?bytes @ rest))
      = Inr ((version, length tensors, length metadata, map_of (rev (string_entries metadata)), tensors), w')"
    and "wn_pos w' = length ?bytes"
    by (rule readsD [OF reads_header_fields [OF assms], of "window_new (?bytes @ rest)" rest]) (simp_all add: window_new_def)
  then show ?thesis
    by (simp add: parse_gguf_header_def header_reader_def r_bind_def get_pos_def r_return_def)
qed

definition sample_metadata :: "(rstr \<times> gguf_value) list" where
  "sample_metadata = [(lit ''a'', G_String (lit ''x'')),
     (lit ''b'', G_Array 9 [G_Array 7 [G_Bool True], G_Array 4 [G_Fixed 4 [1, 0, 0, 0]]]), (lit ''a'', G_String (lit ''y''))]"

definition sample_tensor :: gguf_header_tensor where
  "sample_tensor = \<lparr>ht_name = lit ''w'', ht_dims = [2, 3], ht_ggml_type = 1, ht_data_offset = 64\<rparr>"

theorem encoded_header_is_read_back_witness:
  "\<exists>view. parse_gguf_header (encode_header 3 sample_metadata [sample_tensor] @ [0, 0]) = Inr view
    \<and> hv_string_metadata view (lit ''a'') = Some (lit ''y'') \<and> hv_tensors view = [sample_tensor]"
proof -
  have s: "string_ok (lit [c])" if "of_char c < (128 :: nat)" for c
    using that by (simp add: string_ok_def is_scalar_def utf8_char_def max_gguf_string_bytes_def lit_def)
  have "header_ok 3 sample_metadata [sample_tensor]"
    using s by (simp add: header_ok_def sample_metadata_def sample_tensor_def tensor_ok_def fixed_width_def)
  from encoded_header_is_read_back [OF this, of "[0, 0]"] show ?thesis
    by (simp add: sample_metadata_def string_entries_def map_filter_simps)
qed

end
