(* ===== verification/Half_Float.thy ===== *)
theory Half_Float
  imports Longform_Window
begin

text \<open>
  The conversions between \<open>f32\<close> and IEEE half precision on bit patterns
  (\<open>crates/openasr-core/src/nn/half.rs\<close>), which every importer and runtime of model weights shares.
  An \<open>f32\<close> is its 32 bits, a half its 16 bits.
\<close>

section \<open>Conversions\<close>

definition round_to_even_shift_right :: "32 word \<Rightarrow> nat \<Rightarrow> 32 word" where
  "round_to_even_shift_right val shift =
     (if shift = 0 then val
      else let truncated = drop_bit shift val;
               round_bit = push_bit (shift - 1) 1;
               remainder = val AND (push_bit 1 round_bit - 1)
           in if round_bit < remainder \<or> (remainder = round_bit \<and> truncated AND 1 \<noteq> 0)
              then truncated + 1 else truncated)"

definition f32_to_f16_bits :: "32 word \<Rightarrow> 16 word" where
  "f32_to_f16_bits bits =
     (let sign = ucast (drop_bit 16 bits AND 0x8000);
          exponent = int (unat (drop_bit 23 bits AND 0xff));
          mantissa = bits AND 0x7fffff
      in if exponent = 0xff
         then (if mantissa = 0 then sign OR 0x7c00
               else let payload = max (ucast (drop_bit 13 mantissa)) 1 in sign OR 0x7c00 OR payload)
         else let half_exponent = exponent - 127 + 15
              in if 0x1f \<le> half_exponent then sign OR 0x7c00
                 else if half_exponent \<le> 0
                 then (if half_exponent < - 10 then sign
                       else let mantissa_with_hidden = mantissa OR 0x800000; shift = nat (14 - half_exponent)
                            in sign OR ucast (round_to_even_shift_right mantissa_with_hidden shift))
                 else let rounded_mantissa = ucast (round_to_even_shift_right mantissa 13)
                      in sign OR (push_bit 10 (word_of_int half_exponent) + rounded_mantissa))"

definition f32_slice_to_f16_bits :: "32 word list \<Rightarrow> 16 word list" where
  "f32_slice_to_f16_bits values = map f32_to_f16_bits values"

text \<open>
  The loop that normalizes a subnormal half; on a zero mantissa it would not end, which is the value
  \<open>None\<close>.
\<close>

partial_function (option) normalize_loop :: "32 word \<Rightarrow> int \<Rightarrow> (32 word \<times> int) option" where
  "normalize_loop mant ex =
     (if mant AND 0x400 = 0 then normalize_loop (push_bit 1 mant) (ex - 1) else Some (mant, ex))"

definition f16_bits_to_f32 :: "16 word \<Rightarrow> 32 word option" where
  "f16_bits_to_f32 bits =
     (let sign = push_bit 16 (ucast (bits AND 0x8000));
          exponent = drop_bit 10 bits AND 0x1f;
          mantissa = ucast (bits AND 0x3ff)
      in if exponent = 0
         then (if mantissa = 0 then Some sign
               else (case normalize_loop mantissa (- 14) of
                       None \<Rightarrow> None
                     | Some (mant, ex) \<Rightarrow>
                         let exponent_f32 = word_of_int (ex + 127)
                         in Some (sign OR push_bit 23 exponent_f32 OR push_bit 13 (mant AND 0x3ff))))
         else if exponent = 0x1f then Some (sign OR 0x7f800000 OR push_bit 13 mantissa)
         else let exponent_f32 = ucast exponent + (127 - 15)
              in Some (sign OR push_bit 23 exponent_f32 OR push_bit 13 mantissa))"

section \<open>Words as numbers\<close>

lemma unat_and_mask: "unat (w AND mask n) = unat w mod 2 ^ n" for w :: "'a :: len word"
  unfolding take_bit_eq_mask [symmetric] by (simp only: unsigned_take_bit_eq) (simp only: take_bit_eq_mod)

lemma nat_or_disjoint:
  assumes "a mod 2 ^ n = 0" and "b < (2 :: nat) ^ n"
  shows "a OR b = a + b"
proof (rule disjunctive_add [symmetric])
  fix i
  have "a = push_bit n (a div 2 ^ n)" using assms(1) div_mult_mod_eq [of a "2 ^ n"] by (simp add: push_bit_eq_mult)
  moreover have "b = take_bit n b" using assms(2) by (simp add: take_bit_nat_eq_self)
  ultimately show "\<not> bit a i \<or> \<not> bit b i" by (metis bit_push_bit_iff bit_take_bit_iff linorder_not_less)
qed

lemma unat_or_disjoint:
  fixes a b :: "'a :: len word"
  assumes "unat a mod 2 ^ n = 0" and "unat b < 2 ^ n"
  shows "unat (a OR b) = unat a + unat b"
  using nat_or_disjoint [OF assms] by (simp add: unsigned_or_eq)

lemma unat_ucast: "unat (ucast w :: 'b :: len word) = unat w mod 2 ^ LENGTH('b)" for w :: "'a :: len word"
  by (simp add: unsigned_ucast_eq take_bit_eq_mod)

lemma unat_push: "unat (push_bit n w) = unat w * 2 ^ n mod 2 ^ LENGTH('a)" for w :: "'a :: len word"
  by (simp only: unsigned_push_bit_eq take_bit_eq_mod) (simp only: push_bit_eq_mult)

lemma unat_drop: "unat (drop_bit n w) = unat w div 2 ^ n" for w :: "'a :: len word"
  by (simp only: unat_drop_bit_eq) (simp only: drop_bit_eq_div)

text \<open>Rounding to nearest even, on numbers.\<close>

definition round_half_even :: "nat \<Rightarrow> nat \<Rightarrow> nat" where
  "round_half_even n k =
     (if 2 ^ k < 2 * (n mod 2 ^ k) \<or> (2 * (n mod 2 ^ k) = 2 ^ k \<and> odd (n div 2 ^ k)) then n div 2 ^ k + 1 else n div 2 ^ k)"

lemma unat_round_to_even:
  assumes "0 < shift" and "shift < 32"
  shows "unat (round_to_even_shift_right v shift) = round_half_even (unat v) shift"
proof -
  define k where "k = shift - 1"
  have k: "shift = Suc k" "k < 31" using assms by (simp_all add: k_def)
  have rb: "unat (push_bit k 1 :: 32 word) = 2 ^ k"
    using k power_strict_increasing [of k 32 "2 :: nat"] by (simp only: unat_push) simp
  have m: "push_bit 1 (push_bit k 1) - 1 = (mask shift :: 32 word)"
    by (simp add: mask_eq_exp_minus_1 push_bit_eq_mult k(1))
  have r: "unat (v AND (push_bit 1 (push_bit k 1) - 1)) = unat v mod 2 ^ shift"
    unfolding m by (rule unat_and_mask)
  note t = unat_drop [of shift v]
  have odd: "drop_bit shift v AND 1 \<noteq> 0 \<longleftrightarrow> odd (unat v div 2 ^ shift)"
    using unat_and_mask [of "drop_bit shift v" 1] by (simp add: t odd_iff_mod_2_eq_one word_unat_eq_iff)
  have "unat v div 2 ^ shift \<le> unat v div 2"
    using k(1) by (simp add: div_le_mono2)
  moreover have "unat v < 2 ^ LENGTH(32)" by (rule unsigned_less)
  ultimately have "unat v div 2 ^ shift < 2 ^ 31" by simp
  then have t1: "unat (drop_bit shift v + 1) = unat v div 2 ^ shift + 1" by (simp add: unat_add_lem [THEN iffD1] t)
  show ?thesis
    using assms t t1 odd r rb
    by (simp add: round_to_even_shift_right_def Let_def round_half_even_def word_less_nat_alt word_unat_eq_iff [of "_ AND _"] k)
qed

lemma nat_and_exp: "(n :: nat) AND 2 ^ k = n div 2 ^ k mod 2 * 2 ^ k"
proof -
  have "n AND 2 ^ k = push_bit k (take_bit 1 (drop_bit k n))"
    by (rule bit_eqI) (auto simp: bit_and_iff bit_exp_iff bit_push_bit_iff bit_take_bit_iff bit_drop_bit_eq bit_iff_odd_drop_bit [of n k])
  then show ?thesis by (simp add: push_bit_eq_mult take_bit_eq_mod drop_bit_eq_div)
qed

lemma unat_and_exp: "unat m = 2 ^ k \<Longrightarrow> unat (w AND m) = unat w div 2 ^ k mod 2 * 2 ^ k" for w m :: "'a :: len word"
  by (simp only: unsigned_and_eq nat_and_exp)

text \<open>The fields of an \<open>f32\<close> and of a half.\<close>

definition f32_sign :: "32 word \<Rightarrow> nat" where "f32_sign bits = unat bits div 2 ^ 31"
definition f32_exp :: "32 word \<Rightarrow> nat" where "f32_exp bits = unat bits div 2 ^ 23 mod 256"
definition f32_frac :: "32 word \<Rightarrow> nat" where "f32_frac bits = unat bits mod 2 ^ 23"
definition half_sign :: "16 word \<Rightarrow> nat" where "half_sign h = unat h div 2 ^ 15"
definition half_exp :: "16 word \<Rightarrow> nat" where "half_exp h = unat h div 2 ^ 10 mod 32"
definition half_frac :: "16 word \<Rightarrow> nat" where "half_frac h = unat h mod 2 ^ 10"

lemma f32_fields:
  "f32_sign bits < 2" "f32_exp bits < 256" "f32_frac bits < 2 ^ 23"
  "unat bits = f32_sign bits * 2 ^ 31 + f32_exp bits * 2 ^ 23 + f32_frac bits"
proof -
  have b: "unat bits < 2 ^ LENGTH(32)" by (rule unsigned_less)
  then show "f32_sign bits < 2" by (simp add: f32_sign_def)
  show "f32_exp bits < 256" "f32_frac bits < 2 ^ 23" by (simp_all add: f32_exp_def f32_frac_def)
  define q where "q = unat bits div 2 ^ 23"
  have "q * 2 ^ 23 + f32_frac bits = unat bits" unfolding q_def f32_frac_def by (rule div_mult_mod_eq)
  moreover have "q = f32_sign bits * 256 + f32_exp bits"
    using div_mult_mod_eq [of q 256] unfolding f32_sign_def f32_exp_def q_def by (simp add: div_mult2_eq [symmetric])
  ultimately show "unat bits = f32_sign bits * 2 ^ 31 + f32_exp bits * 2 ^ 23 + f32_frac bits" by simp
qed

lemma half_fields:
  "half_sign h < 2" "half_exp h < 32" "half_frac h < 2 ^ 10"
  "unat h = half_sign h * 2 ^ 15 + half_exp h * 2 ^ 10 + half_frac h"
proof -
  have b: "unat h < 2 ^ LENGTH(16)" by (rule unsigned_less)
  then show "half_sign h < 2" by (simp add: half_sign_def)
  show "half_exp h < 32" "half_frac h < 2 ^ 10" by (simp_all add: half_exp_def half_frac_def)
  define q where "q = unat h div 2 ^ 10"
  have "q * 2 ^ 10 + half_frac h = unat h" unfolding q_def half_frac_def by (rule div_mult_mod_eq)
  moreover have "q = half_sign h * 32 + half_exp h"
    using div_mult_mod_eq [of q 32] unfolding half_sign_def half_exp_def q_def by (simp add: div_mult2_eq [symmetric])
  ultimately show "unat h = half_sign h * 2 ^ 15 + half_exp h * 2 ^ 10 + half_frac h" by simp
qed

lemma f32_fields_unique:
  assumes "unat bits = s * 2 ^ 31 + e * 2 ^ 23 + f" and "e < 256" and "f < 2 ^ 23"
  shows "f32_sign bits = s" "f32_exp bits = e" "f32_frac bits = f"
proof -
  define q where "q = s * 256 + e"
  have "unat bits = q * 2 ^ 23 + f" using assms(1) by (simp add: q_def)
  then have d: "unat bits div 2 ^ 23 = s * 256 + e" and m: "unat bits mod 2 ^ 23 = f" using assms(3) by (simp_all add: q_def [symmetric])
  show "f32_frac bits = f" using m by (simp add: f32_frac_def)
  show "f32_exp bits = e" using d assms(2) by (simp add: f32_exp_def)
  have "unat bits div 2 ^ 31 = unat bits div 2 ^ 23 div 256" by (simp add: div_mult2_eq [symmetric])
  then show "f32_sign bits = s" using d assms(2) by (simp add: f32_sign_def)
qed

lemma half_fields_unique:
  assumes "unat h = s * 2 ^ 15 + e * 2 ^ 10 + f" and "e < 32" and "f < 2 ^ 10"
  shows "half_sign h = s" "half_exp h = e" "half_frac h = f"
proof -
  define q where "q = s * 32 + e"
  have "unat h = q * 2 ^ 10 + f" using assms(1) by (simp add: q_def)
  then have d: "unat h div 2 ^ 10 = s * 32 + e" and m: "unat h mod 2 ^ 10 = f" using assms(3) by (simp_all add: q_def [symmetric])
  show "half_frac h = f" using m by (simp add: half_frac_def)
  show "half_exp h = e" using d assms(2) by (simp add: half_exp_def)
  have "unat h div 2 ^ 15 = unat h div 2 ^ 10 div 32" by (simp add: div_mult2_eq [symmetric])
  then show "half_sign h = s" using d assms(2) by (simp add: half_sign_def)
qed

text \<open>The magnitude bits the conversion to half gives, as a number.\<close>

definition half_magnitude_bits :: "nat \<Rightarrow> nat \<Rightarrow> nat" where
  "half_magnitude_bits e f =
     (if e = 255 then 31744 + (if f = 0 then 0 else max (f div 8192) 1)
      else if 143 \<le> e then 31744
      else if e < 102 then 0
      else if e \<le> 112 then round_half_even (2 ^ 23 + f) (126 - e)
      else (e - 112) * 1024 + round_half_even f 13)"

lemma round_half_even_le:
  assumes "n \<le> m * 2 ^ k"
  shows "round_half_even n k \<le> m"
proof (cases "n mod 2 ^ k = 0")
  case True
  moreover have "n div 2 ^ k \<le> m" using div_le_mono [OF assms, of "2 ^ k"] by simp
  ultimately show ?thesis by (simp add: round_half_even_def)
next
  case False
  have "n div 2 ^ k < m"
  proof (rule ccontr)
    assume "\<not> n div 2 ^ k < m"
    then have "m * 2 ^ k \<le> n div 2 ^ k * 2 ^ k" by simp
    then show False using assms False div_mult_mod_eq [of n "2 ^ k"] by linarith
  qed
  then show ?thesis by (simp add: round_half_even_def)
qed

lemma unat_f32_to_f16:
  "unat (f32_to_f16_bits bits) = f32_sign bits * 2 ^ 15 + half_magnitude_bits (f32_exp bits) (f32_frac bits)"
  "half_magnitude_bits (f32_exp bits) (f32_frac bits) < 2 ^ 15"
proof -
  define s where "s = (ucast (drop_bit 16 bits AND 0x8000) :: 16 word)"
  have "unat (drop_bit 16 bits AND 0x8000) = f32_sign bits * 2 ^ 15"
    using unat_and_exp [of "0x8000" 15 "drop_bit 16 bits"] f32_fields(1) [of bits]
    by (simp add: unat_drop div_mult2_eq [symmetric] f32_sign_def)
  then have s: "unat s = f32_sign bits * 2 ^ 15" using f32_fields(1) [of bits] by (simp add: s_def unat_ucast)
  have orS: "unat (s OR w) = f32_sign bits * 2 ^ 15 + unat w" if "unat w < 2 ^ 15" for w
    using unat_or_disjoint [of s 15 w] that s by simp
  have e: "unat (drop_bit 23 bits AND 0xff) = f32_exp bits" 
    using unat_exponent [of bits] by (simp add: exponent_bits_def f32_exp_def)
  define m where "m = bits AND 0x7fffff"
  have f: "unat m = f32_frac bits"
    using unat_fraction [of bits] by (simp add: fraction_bits_def f32_frac_def m_def)
  note fold = s_def [symmetric] m_def [symmetric]
  note bounds = f32_fields(2,3) [of bits]
  have pay: "f32_frac bits div 8192 < 1024" using bounds(2) by (simp add: div_less_iff_less_mult)
  have norm: "round_half_even (f32_frac bits) 13 \<le> 1024" by (rule round_half_even_le) (use bounds(2) in simp)
  have sub: "round_half_even (2 ^ 23 + f32_frac bits) (126 - f32_exp bits) \<le> 1024" if "f32_exp bits \<le> 112"
  proof (rule round_half_even_le)
    have "(2 :: nat) ^ 14 \<le> 2 ^ (126 - f32_exp bits)" using that by (intro power_increasing) simp_all
    then show "2 ^ 23 + f32_frac bits \<le> 1024 * 2 ^ (126 - f32_exp bits)" using bounds(2) by simp
  qed
  show "half_magnitude_bits (f32_exp bits) (f32_frac bits) < 2 ^ 15"
    using pay norm sub bounds(1) by (auto simp: half_magnitude_bits_def)
  have hidden: "unat (m OR 0x800000) = 2 ^ 23 + f32_frac bits"
    using unat_or_disjoint [of "0x800000" 23 "m"] bounds(2) f by (simp add: or.commute)
  consider (special) "f32_exp bits = 255" | (over) "143 \<le> f32_exp bits" "f32_exp bits < 255" | (zero) "f32_exp bits < 102"
    | (sub) "102 \<le> f32_exp bits" "f32_exp bits \<le> 112" | (normal) "113 \<le> f32_exp bits" "f32_exp bits < 143"
    using bounds(1) by linarith
  then show "unat (f32_to_f16_bits bits) = f32_sign bits * 2 ^ 15 + half_magnitude_bits (f32_exp bits) (f32_frac bits)"
  proof cases
    case special
    define p where "p = max (ucast (drop_bit 13 (m))) (1 :: 16 word)"
    have p: "unat p = max (f32_frac bits div 8192) 1"
      using pay f by (simp add: p_def max_def word_le_nat_alt unat_ucast unat_drop)
    then have "unat (0x7c00 OR p) = 31744 + unat p" using pay unat_or_disjoint [of "0x7c00" 10 p] by simp
    moreover have "m = 0 \<longleftrightarrow> f32_frac bits = 0" using f by (simp add: word_unat_eq_iff)
    ultimately show ?thesis
      using special e p pay orS [of "0x7c00"] orS [of "0x7c00 OR p"]
      by (simp add: f32_to_f16_bits_def fold p_def [symmetric] Let_def half_magnitude_bits_def or.assoc)
  next
    case over
    then show ?thesis using e orS [of "0x7c00"]
      by (simp add: f32_to_f16_bits_def fold Let_def half_magnitude_bits_def)
  next
    case zero
    then show ?thesis using e s
      by (simp add: f32_to_f16_bits_def fold Let_def half_magnitude_bits_def)
  next
    case sub': sub
    have shift: "nat (14 - (int (f32_exp bits) - 127 + 15)) = 126 - f32_exp bits" using sub' by simp
    have r: "unat (round_to_even_shift_right (m OR 0x800000) (126 - f32_exp bits)) = round_half_even (2 ^ 23 + f32_frac bits) (126 - f32_exp bits)"
      using sub' unat_round_to_even [of "126 - f32_exp bits" "m OR 0x800000"] hidden by simp
    define w where "w = (ucast (round_to_even_shift_right (m OR 0x800000) (126 - f32_exp bits)) :: 16 word)"
    have w: "unat w = round_half_even (2 ^ 23 + f32_frac bits) (126 - f32_exp bits)"
      using sub sub' r by (simp add: w_def unat_ucast)
    have "f32_to_f16_bits bits = s OR w"
      unfolding f32_to_f16_bits_def Let_def fold e w_def shift using sub' by simp
    then show ?thesis using orS [of w] w sub sub' by (simp add: half_magnitude_bits_def)
  next
    case normal
    define w where "w = push_bit 10 (word_of_int (int (f32_exp bits) - 127 + 15)) + (ucast (round_to_even_shift_right m 13) :: 16 word)"
    have r: "unat (round_to_even_shift_right m 13) = round_half_even (f32_frac bits) 13"
      by (subst unat_round_to_even) (simp_all add: f)
    have h: "unat (word_of_int (int (f32_exp bits) - 127 + 15) :: 16 word) = f32_exp bits - 112"
    proof -
      have "int (f32_exp bits) - 127 + 15 = int (f32_exp bits - 112)" using normal by simp
      then show ?thesis using normal by (simp only: of_int_of_nat_eq unat_of_nat) simp
    qed
    have "unat (push_bit 10 (word_of_int (int (f32_exp bits) - 127 + 15)) :: 16 word) = (f32_exp bits - 112) * 1024"
      using normal by (simp only: unat_push h) simp
    moreover have "unat (ucast (round_to_even_shift_right m 13) :: 16 word) = round_half_even (f32_frac bits) 13"
      using norm r by (simp add: unat_ucast)
    ultimately have w: "unat w = (f32_exp bits - 112) * 1024 + round_half_even (f32_frac bits) 13"
      unfolding w_def using norm normal by (subst unat_add_lem [THEN iffD1]) simp_all
    have "f32_to_f16_bits bits = s OR w"
      unfolding f32_to_f16_bits_def Let_def fold e w_def using normal by simp
    then show ?thesis using orS [of w] w norm normal by (simp add: half_magnitude_bits_def)
  qed
qed

lemma normalize_loop_ends:
  assumes "1024 \<le> unat w * 2 ^ k" and "unat w * 2 ^ k < 2048"
  shows "\<exists>w'. normalize_loop w ex = Some (w', ex - int k) \<and> unat w' = unat w * 2 ^ k"
  using assms
proof (induction k arbitrary: w ex)
  case 0
  have "unat (w AND 0x400) = 1024" using 0 unat_and_exp [of "0x400" 10 w] by (simp add: div_eq_dividend_iff le_div_geq)
  then have "w AND 0x400 \<noteq> 0" by (auto simp: word_unat_eq_iff)
  then show ?case by (simp add: normalize_loop.simps [of w])
next
  case (Suc k)
  have "1 \<le> (2 :: nat) ^ k" by simp
  then have "unat w * 1 \<le> unat w * 2 ^ k" by (intro mult_le_mono2)
  moreover have "unat w * 2 ^ k * 2 < 2048" using Suc.prems(2) by simp
  ultimately have w: "unat w < 1024" by linarith
  have "unat (w AND 0x400) = 0" using w unat_and_exp [of "0x400" 10 w] by simp
  then have z: "w AND 0x400 = 0" by (simp add: word_unat_eq_iff)
  have p: "unat (push_bit 1 w) = unat w * 2" using w by (simp only: unat_push) simp
  obtain w' where "normalize_loop (push_bit 1 w) (ex - 1) = Some (w', ex - 1 - int k)" "unat w' = unat (push_bit 1 w) * 2 ^ k"
    using Suc.IH [of "push_bit 1 w" "ex - 1"] Suc.prems unfolding p by auto
  then show ?case using z p by (simp add: normalize_loop.simps [of w] del: push_bit_of_1)
qed

lemma leading_shift:
  assumes "0 < m" and "m < 1024"
  obtains k where "1 \<le> k" and "k \<le> 10" and "1024 \<le> m * 2 ^ k" and "m * 2 ^ k < (2048 :: nat)"
proof -
  have "\<exists>k. 1 \<le> k \<and> 1024 \<le> m * 2 ^ k \<and> m * 2 ^ k < 2048"
    using assms
  proof (induction "1024 - m" arbitrary: m rule: less_induct)
    case less
    show ?case
    proof (cases "512 \<le> m")
      case True
      then show ?thesis using less.prems by (intro exI [of _ 1]) simp
    next
      case False
      have "1024 - 2 * m < 1024 - m" "0 < 2 * m" "2 * m < 1024" using False less.prems by simp_all
      from less.hyps [OF this] obtain k where "1 \<le> k" "1024 \<le> (2 * m) * 2 ^ k" "(2 * m) * 2 ^ k < 2048" by blast
      then show ?thesis by (intro exI [of _ "Suc k"]) simp
    qed
  qed
  then obtain k where k: "1 \<le> k" "1024 \<le> m * 2 ^ k" "m * 2 ^ k < 2048" by blast
  have "2 ^ k \<le> m * 2 ^ k" using assms(1) by simp
  then have "(2 :: nat) ^ k < 2048" using k(3) by linarith
  then have "(2 :: nat) ^ k < 2 ^ 11" by simp
  then have "k < 11" by (simp only: power_strict_increasing_iff)
  then show ?thesis using that k by simp
qed

definition widened :: "nat \<Rightarrow> nat \<Rightarrow> nat \<Rightarrow> nat \<Rightarrow> bool" where
  "widened e f e' f' \<longleftrightarrow>
     (if e = 31 then e' = 255 \<and> f' = f * 8192
      else if 0 < e then e' = e + 112 \<and> f' = f * 8192
      else if f = 0 then e' = 0 \<and> f' = 0
      else \<exists>k. 1 \<le> k \<and> k \<le> 10 \<and> 1024 \<le> f * 2 ^ k \<and> f * 2 ^ k < 2048 \<and> e' = 113 - k \<and> f' = (f * 2 ^ k - 1024) * 8192)"

lemma f16_to_f32_fields:
  "\<exists>bits. f16_bits_to_f32 h = Some bits \<and> f32_sign bits = half_sign h
     \<and> widened (half_exp h) (half_frac h) (f32_exp bits) (f32_frac bits)"
proof -
  define s where "s = push_bit 16 (ucast (h AND 0x8000) :: 32 word)"
  define e where "e = drop_bit 10 h AND 0x1f"
  define m where "m = (ucast (h AND 0x3ff) :: 32 word)"
  note fold = s_def [symmetric] e_def [symmetric] m_def [symmetric]
  note bounds = half_fields(1-3) [of h]
  have "unat (h AND 0x8000) = half_sign h * 2 ^ 15"
    using unat_and_exp [of "0x8000" 15 h] bounds(1) by (simp add: half_sign_def)
  then have s: "unat s = half_sign h * 2 ^ 31" using bounds(1) unfolding s_def unat_push unat_ucast by simp
  have e: "unat e = half_exp h" using unat_and_mask [of "drop_bit 10 h" 5] by (simp add: e_def half_exp_def unat_drop mask_eq_exp_minus_1)
  have m: "unat m = half_frac h" using unat_and_mask [of h 10] by (simp add: m_def half_frac_def unat_ucast mask_eq_exp_minus_1)
  have build: "f32_sign (s OR x OR y) = half_sign h \<and> f32_exp (s OR x OR y) = a \<and> f32_frac (s OR x OR y) = b"
    if "unat x = a * 2 ^ 23" "unat y = b" "a < 256" "b < 2 ^ 23" for x y a b
  proof -
    have "unat (x OR y) = a * 2 ^ 23 + b" using unat_or_disjoint [of x 23 y] that by simp
    moreover have "unat (s OR (x OR y)) = half_sign h * 2 ^ 31 + unat (x OR y)"
      using unat_or_disjoint [of s 31 "x OR y"] that s calculation by simp
    ultimately show ?thesis using f32_fields_unique [of "s OR (x OR y)" "half_sign h" a b] that by (simp add: or.assoc)
  qed
  have y: "unat (push_bit 13 m) = half_frac h * 8192" using bounds(3) by (simp only: unat_push m) simp
  consider (special) "half_exp h = 31" | (normal) "0 < half_exp h" "half_exp h < 31" | (zero) "half_exp h = 0" "half_frac h = 0"
    | (sub) "half_exp h = 0" "0 < half_frac h" using bounds(2) by linarith
  then show ?thesis
  proof cases
    case special
    then have "e = 0x1f" using e by (simp add: word_unat_eq_iff)
    then show ?thesis using special build [of "0x7f800000" 255 "push_bit 13 m" "half_frac h * 8192"] y bounds(3)
      unfolding f16_bits_to_f32_def Let_def fold by (simp add: widened_def)
  next
    case normal
    then have n: "e \<noteq> 0x1f" "e \<noteq> 0" using e by (auto simp: word_unat_eq_iff)
    define x where "x = push_bit 23 ((ucast e :: 32 word) + (127 - 15))"
    have u: "unat ((ucast e :: 32 word) + (127 - 15)) = half_exp h + 112"
      using normal e by (subst unat_add_lem [THEN iffD1]) (simp_all add: unat_ucast)
    have "unat x = (half_exp h + 112) * 2 ^ 23" using normal unfolding x_def by (simp only: unat_push u) simp
    then show ?thesis using normal n build [of x "half_exp h + 112" "push_bit 13 m" "half_frac h * 8192"] y bounds(3)
      unfolding f16_bits_to_f32_def Let_def fold x_def [symmetric] by (simp add: widened_def)
  next
    case zero
    then have "e = 0" "m = 0" using e m by (simp_all add: word_unat_eq_iff)
    moreover have "f32_sign s = half_sign h" "f32_exp s = 0" "f32_frac s = 0"
      using f32_fields_unique [of s "half_sign h" 0 0] s by simp_all
    ultimately show ?thesis using zero unfolding f16_bits_to_f32_def Let_def fold by (simp add: widened_def)
  next
    case sub
    obtain k where k: "1 \<le> k" "k \<le> 10" "1024 \<le> half_frac h * 2 ^ k" "half_frac h * 2 ^ k < 2048"
      using leading_shift [of "half_frac h"] sub bounds(3) by auto
    obtain w where w: "normalize_loop m (- 14) = Some (w, - 14 - int k)" "unat w = half_frac h * 2 ^ k"
      using normalize_loop_ends [of m k "- 14"] k m by auto
    have "unat (w AND 0x3ff) = half_frac h * 2 ^ k - 1024"
      using unat_and_mask [of w 10] k(3,4) w(2) by (simp add: mask_eq_exp_minus_1 mod_if)
    then have y: "unat (push_bit 13 (w AND 0x3ff)) = (half_frac h * 2 ^ k - 1024) * 8192"
      using k(4) by (simp only: unat_push) simp
    have u: "unat (word_of_int (- 14 - int k + 127) :: 32 word) = 113 - k"
    proof -
      have "- 14 - int k + 127 = int (113 - k)" using k by simp
      then show ?thesis by (simp only: of_int_of_nat_eq unat_of_nat) simp
    qed
    define x where "x = push_bit 23 (word_of_int (- 14 - int k + 127) :: 32 word)"
    have "unat x = (113 - k) * 2 ^ 23" unfolding x_def by (simp only: unat_push u) simp
    moreover have "e = 0" "m \<noteq> 0" using sub e m by (auto simp: word_unat_eq_iff)
    moreover from this have "f16_bits_to_f32 h = Some (s OR x OR push_bit 13 (w AND 0x3ff))"
      unfolding f16_bits_to_f32_def Let_def fold x_def by (simp only: w(1) option.case prod.case if_False if_True refl)
    ultimately show ?thesis
      using sub k build [of x "113 - k" "push_bit 13 (w AND 0x3ff)" "(half_frac h * 2 ^ k - 1024) * 8192"] y
      by (auto simp: widened_def)
  qed
qed

section \<open>Properties\<close>

text \<open>The number a finite half stands for, without its sign.\<close>

definition half_magnitude :: "16 word \<Rightarrow> rat" where
  "half_magnitude h = (if half_exp h = 0 then of_nat (half_frac h) / 2 ^ 24
     else of_nat (1024 + half_frac h) * 2 ^ half_exp h / 2 ^ 25)"

lemma exponent_bits_exp: "unat (exponent_bits bits) = f32_exp bits" "unat (fraction_bits bits) = f32_frac bits"
  by (simp_all add: unat_exponent unat_fraction f32_exp_def f32_frac_def)

lemma f32_magnitude:
  "f32_of_bits bits = (if f32_exp bits = 0 then of_nat (f32_frac bits) / 2 ^ 149
     else of_nat (2 ^ 23 + f32_frac bits) * 2 ^ f32_exp bits / 2 ^ 150)"
proof -
  have z: "exponent_bits bits = 0 \<longleftrightarrow> f32_exp bits = 0" using exponent_bits_exp(1) [of bits] by (simp add: word_unat_eq_iff)
  show ?thesis
  proof (cases "150 \<le> f32_exp bits")
    case True
    then have "(2 :: rat) ^ f32_exp bits = 2 ^ (f32_exp bits - 150) * 2 ^ 150" by (simp only: power_add [symmetric]) simp
    then show ?thesis using True z
      by (simp add: f32_of_bits_def significand_of_def scale_of_def exponent_bits_exp nat_diff_distrib)
  next
    case False
    then have "(2 :: rat) ^ 150 = 2 ^ (150 - f32_exp bits) * 2 ^ f32_exp bits" by (simp only: power_add [symmetric]) simp
    then have d: "1 / 2 ^ (150 - f32_exp bits) = 2 ^ f32_exp bits / (2 :: rat) ^ 150" by (simp only:) (simp add: divide_simps mult.commute)
    have n: "nat (- (int (f32_exp bits) - 150)) = 150 - f32_exp bits" using False by simp
    show ?thesis
    proof (cases "f32_exp bits = 0")
      case True
      then show ?thesis using z by (simp add: f32_of_bits_def significand_of_def scale_of_def exponent_bits_exp)
    next
      case e: False
      then have "f32_of_bits bits = of_nat (2 ^ 23 + f32_frac bits) * (1 / 2 ^ (150 - f32_exp bits))"
        using False z n by (simp only: f32_of_bits_def significand_of_def scale_of_def exponent_bits_exp if_False) simp
      then show ?thesis unfolding d using e by simp
    qed
  qed
qed

text \<open>
  Widening a half is exact and always ends: the result has the same sign; a finite half gives a
  finite \<open>f32\<close> of exactly the same magnitude (subnormals included), an infinity an infinity, and a
  NaN a NaN with the payload in the leading bits.
\<close>

theorem widening_is_exact:
  "\<exists>bits. f16_bits_to_f32 h = Some bits \<and> f32_sign bits = half_sign h
    \<and> (if half_exp h = 31 then f32_exp bits = 255 \<and> f32_frac bits = half_frac h * 2 ^ 13
       else f32_exp bits < 255 \<and> f32_of_bits bits = half_magnitude h)"
proof -
  obtain bits where b: "f16_bits_to_f32 h = Some bits" "f32_sign bits = half_sign h"
    "widened (half_exp h) (half_frac h) (f32_exp bits) (f32_frac bits)" using f16_to_f32_fields [of h] by blast
  consider "half_exp h = 31" | (normal) "0 < half_exp h" "half_exp h < 31" | (zero) "half_exp h = 0" "half_frac h = 0"
    | (sub) "half_exp h = 0" "0 < half_frac h" using half_fields(2) [of h] by linarith
  then show ?thesis
  proof cases
    case 1
    then show ?thesis using b by (intro exI [of _ bits]) (simp add: widened_def)
  next
    case normal
    then have w: "f32_exp bits = half_exp h + 112" "f32_frac bits = half_frac h * 8192" using b(3) by (simp_all add: widened_def)
    have "f32_of_bits bits = half_magnitude h"
      using normal unfolding f32_magnitude half_magnitude_def w power_add by (simp add: field_simps)
    then show ?thesis using b normal w by (intro exI [of _ bits]) simp
  next
    case zero
    then show ?thesis using b by (intro exI [of _ bits]) (simp add: widened_def f32_magnitude half_magnitude_def)
  next
    case sub
    then obtain k where k: "1 \<le> k" "k \<le> 10" "1024 \<le> half_frac h * 2 ^ k" "f32_exp bits = 113 - k"
      "f32_frac bits = (half_frac h * 2 ^ k - 1024) * 8192" using b(3) by (auto simp: widened_def)
    have "2 ^ 23 + f32_frac bits = half_frac h * 2 ^ k * 8192" using k(3,5) by simp
    then have "rat_of_nat (2 ^ 23 + f32_frac bits) = of_nat (half_frac h) * 2 ^ k * 8192" by (metis of_nat_mult of_nat_numeral of_nat_power)
    moreover have "(2 :: rat) ^ k * 2 ^ (113 - k) = 2 ^ 113" using k(2) by (simp only: power_add [symmetric]) simp
    ultimately have "f32_of_bits bits = half_magnitude h"
      using sub k(2,4) unfolding f32_magnitude half_magnitude_def by (simp add: field_simps)
    then show ?thesis using b sub k(4) by (intro exI [of _ bits]) simp
  qed
qed

lemma round_half_even_exact: "round_half_even (n * 2 ^ k) k = n"
  by (simp add: round_half_even_def)

text \<open>
  Every half survives the round trip through \<open>f32\<close> bit for bit: zeros, subnormals, infinities
  and NaNs included.
\<close>

theorem half_roundtrip:
  "map_option f32_to_f16_bits (f16_bits_to_f32 h) = Some h"
proof -
  obtain bits where b: "f16_bits_to_f32 h = Some bits" "f32_sign bits = half_sign h"
    "widened (half_exp h) (half_frac h) (f32_exp bits) (f32_frac bits)" using f16_to_f32_fields [of h] by blast
  note bounds = half_fields(2,3) [of h]
  have "half_magnitude_bits (f32_exp bits) (f32_frac bits) = half_exp h * 2 ^ 10 + half_frac h"
  proof (cases "half_exp h = 0 \<and> 0 < half_frac h")
    case True
    then obtain k where k: "1 \<le> k" "k \<le> 10" "1024 \<le> half_frac h * 2 ^ k" "f32_exp bits = 113 - k"
      "f32_frac bits = (half_frac h * 2 ^ k - 1024) * 8192" using b(3) by (auto simp: widened_def)
    have "2 ^ 23 + f32_frac bits = half_frac h * 2 ^ (13 + k)" using k(3,5) by (simp add: power_add)
    moreover have "126 - f32_exp bits = 13 + k" using k(2,4) by simp
    moreover have "f32_exp bits \<le> 112" "102 \<le> f32_exp bits" using k(1,2,4) by arith+
    ultimately show ?thesis
      using True round_half_even_exact [of "half_frac h" "13 + k"] by (simp add: half_magnitude_bits_def)
  next
    case False
    then show ?thesis
      using b(3) bounds round_half_even_exact [of "half_frac h" 13] by (auto simp: widened_def half_magnitude_bits_def max_def split: if_splits)
  qed
  then have "unat (f32_to_f16_bits bits) = unat h"
    using unat_f32_to_f16(1) [of bits] half_fields(4) [of h] b(2) by simp
  then show ?thesis using b(1) by (simp add: word_unat_eq_iff)
qed

text \<open>Rounding to nearest even is the nearest multiple, and the even one of two.\<close>

lemma round_half_even_nearest:
  fixes z :: int and n k :: nat
  defines "r \<equiv> int (round_half_even n k)"
  shows "\<bar>r * 2 ^ k - int n\<bar> \<le> \<bar>z * 2 ^ k - int n\<bar>"
    and "\<bar>r * 2 ^ k - int n\<bar> = \<bar>z * 2 ^ k - int n\<bar> \<Longrightarrow> z \<noteq> r \<Longrightarrow> even (round_half_even n k)"
proof -
  define D where "D = (2 :: int) ^ k"
  define q where "q = int (n div 2 ^ k)"
  define m where "m = int (n mod 2 ^ k)"
  have "int n = int (n div 2 ^ k * 2 ^ k + n mod 2 ^ k)" by (simp only: div_mult_mod_eq)
  then have n: "int n = q * D + m" by (simp only: q_def m_def D_def of_nat_add of_nat_mult of_nat_power of_nat_numeral)
  have "int (n mod 2 ^ k) < int (2 ^ k)" by (simp only: of_nat_less_iff) simp
  then have m: "0 \<le> m" "m < D" by (simp_all only: m_def D_def of_nat_power of_nat_numeral of_nat_0_le_iff)
  have c1: "2 ^ k < 2 * (n mod 2 ^ k) \<longleftrightarrow> D < 2 * m"
    using of_nat_less_iff [of "2 ^ k" "2 * (n mod 2 ^ k)", where ?'a = int] by (simp only: D_def m_def of_nat_mult of_nat_power of_nat_numeral)
  have c2: "2 * (n mod 2 ^ k) = 2 ^ k \<longleftrightarrow> 2 * m = D"
    using of_nat_eq_iff [of "2 * (n mod 2 ^ k)" "2 ^ k", where ?'a = int] by (simp only: D_def m_def of_nat_mult of_nat_power of_nat_numeral)
  have r: "r = (if D < 2 * m \<or> (2 * m = D \<and> odd q) then q + 1 else q)"
    unfolding r_def round_half_even_def c1 c2 by (simp add: q_def)
  have ev: "even (round_half_even n k) \<longleftrightarrow> even r" by (simp add: r_def)
  define p where "p = (z - q) * D"
  have zs: "z = q \<and> p = 0 \<or> z = q + 1 \<and> p = D \<or> p \<le> - D \<or> 2 * D \<le> p"
  proof -
    have "p \<le> - D" if "z < q" using that mult_right_mono [of "z - q" "- 1" D] m by (simp add: p_def)
    moreover have "2 * D \<le> p" if "q + 1 < z" using that mult_right_mono [of 2 "z - q" D] m by (simp add: p_def)
    moreover have "z < q \<or> z = q \<or> z = q + 1 \<or> q + 1 < z" by linarith
    ultimately show ?thesis by (auto simp: p_def)
  qed
  have d: "z * D - int n = p - m" "r * D - int n = (r - q) * D - m" by (simp_all add: n p_def algebra_simps)
  show "\<bar>r * 2 ^ k - int n\<bar> \<le> \<bar>z * 2 ^ k - int n\<bar>"
    unfolding D_def [symmetric] d using zs m r by (auto split: if_splits)
  assume eq: "\<bar>r * 2 ^ k - int n\<bar> = \<bar>z * 2 ^ k - int n\<bar>" and "z \<noteq> r"
  then have "\<bar>(r - q) * D - m\<bar> = \<bar>p - m\<bar>" unfolding D_def [symmetric] d by simp
  with \<open>z \<noteq> r\<close> have "even r" using zs m r by (auto split: if_splits)
  then show "even (round_half_even n k)" using ev by simp
qed

text \<open>Magnitudes in units of the smallest subnormal half, \<open>2 ^ - 24\<close>.\<close>

definition half_units :: "16 word \<Rightarrow> nat" where
  "half_units h = (if half_exp h = 0 then half_frac h else (1024 + half_frac h) * 2 ^ (half_exp h - 1))"

lemma half_magnitude_units: "half_magnitude h = of_nat (half_units h) / 2 ^ 24"
proof (cases "half_exp h")
  case (Suc n)
  then show ?thesis by (simp add: half_magnitude_def half_units_def)
qed (simp add: half_magnitude_def half_units_def)

text \<open>Halves with an exponent of at least \<open>e\<close> are multiples of \<open>2 ^ (e - 1)\<close>; the others are smaller.\<close>

lemma half_units_grid:
  assumes "0 < e"
  shows "(\<exists>z. half_units h = z * 2 ^ (e - 1)) \<or> half_units h < 1024 * 2 ^ (e - 1)"
proof (cases "e \<le> half_exp h")
  case True
  then have "half_units h = (1024 + half_frac h) * 2 ^ (half_exp h - e) * 2 ^ (e - 1)"
    using assms by (simp add: half_units_def power_add [symmetric])
  then show ?thesis by blast
next
  case False
  have f: "half_frac h < 1024" using half_fields(3) [of h] by simp
  have "half_units h < 1024 * 2 ^ half_exp h"
  proof (cases "half_exp h")
    case (Suc n)
    then show ?thesis using f by (simp add: half_units_def)
  qed (use f in \<open>simp add: half_units_def\<close>)
  also have "\<dots> \<le> 1024 * 2 ^ (e - 1)" using False by simp
  finally show ?thesis by blast
qed

lemma units_of_magnitude_bits:
  assumes "unat h = s * 2 ^ 15 + (e * 1024 + r)" and "e * 1024 + r < 31744" and "r \<le> 2048" and "1024 \<le> r \<or> e = 0"
  shows "half_units h = r * 2 ^ e \<and> half_exp h < 31 \<and> half_sign h = s \<and> (even (half_frac h) \<longleftrightarrow> even r)"
proof -
  consider "r < 1024" | "1024 \<le> r" "r < 2048" | "r = 2048" using assms(3) by linarith
  then show ?thesis
  proof cases
    case 1
    then show ?thesis using half_fields_unique [of h s 0 r] assms by (simp add: half_units_def)
  next
    case 2
    then show ?thesis using half_fields_unique [of h s "e + 1" "r - 1024"] assms(1,2) by (simp add: half_units_def)
  next
    case 3
    then show ?thesis using half_fields_unique [of h s "e + 2" 0] assms(1,2) by (simp add: half_units_def)
  qed
qed

lemma round_half_even_hidden: "round_half_even (2 ^ 23 + f) 13 = 1024 + round_half_even f 13"
proof -
  have "(2 ^ 23 + f) mod 2 ^ 13 = f mod 2 ^ 13" using mod_mult_self3 [of 1024 "2 ^ 13" f] by simp
  moreover have "(2 ^ 23 + f) div 2 ^ 13 = 1024 + f div 2 ^ 13" using div_mult_self3 [of "2 ^ 13" 1024 f] by simp
  ultimately show ?thesis by (simp only: round_half_even_def) simp
qed

text \<open>The magnitude of an \<open>f32\<close> as a fraction of units.\<close>

lemma f32_units_normal:
  assumes "113 \<le> f32_exp bits"
  shows "f32_of_bits bits * 2 ^ 24 = of_nat (2 ^ 23 + f32_frac bits) * 2 ^ (f32_exp bits - 113) / 2 ^ 13"
proof -
  have "(2 :: rat) ^ (f32_exp bits - 113) = 2 ^ f32_exp bits / 2 ^ 113" using assms by (intro power_diff) simp_all
  then show ?thesis using assms by (simp add: f32_magnitude)
qed

lemma f32_units_small:
  assumes "0 < f32_exp bits" and "f32_exp bits \<le> 126"
  shows "f32_of_bits bits * 2 ^ 24 = of_nat (2 ^ 23 + f32_frac bits) / 2 ^ (126 - f32_exp bits)"
proof -
  have "(2 :: rat) ^ (126 - f32_exp bits) = 2 ^ 126 / 2 ^ f32_exp bits" using assms by (intro power_diff) simp_all
  then show ?thesis using assms by (simp add: f32_magnitude)
qed

lemma f32_small_units:
  assumes "f32_exp bits \<le> n" and "n \<le> 126"
  shows "f32_of_bits bits * 2 ^ 24 * 2 ^ (126 - n) < 2 ^ 24"
proof (cases "f32_exp bits = 0")
  case True
  have "f32_of_bits bits * 2 ^ 24 * 2 ^ (126 - n) \<le> of_nat (f32_frac bits) / 2 ^ 125 * 2 ^ 126"
    unfolding f32_magnitude using True power_increasing [of "126 - n" 126 "2 :: rat"] by (intro mult_mono) simp_all
  also have "\<dots> = of_nat (2 * f32_frac bits)" by simp
  also have "\<dots> < 2 ^ 24" using f32_fields(3) [of bits] of_nat_less_iff [of "2 * f32_frac bits" "2 ^ 24", where ?'a = rat] by simp
  finally show ?thesis .
next
  case False
  have "(2 :: rat) ^ (126 - n) \<le> 2 ^ (126 - f32_exp bits)" using assms(1) by (intro power_increasing) simp_all
  moreover have "0 \<le> f32_of_bits bits * 2 ^ 24" by (simp add: f32_magnitude)
  ultimately have "f32_of_bits bits * 2 ^ 24 * 2 ^ (126 - n) \<le> f32_of_bits bits * 2 ^ 24 * 2 ^ (126 - f32_exp bits)"
    by (intro mult_left_mono)
  also have "\<dots> = of_nat (2 ^ 23 + f32_frac bits)" using f32_units_small [of bits] False assms by simp
  also have "\<dots> < 2 ^ 24"
    using f32_fields(3) [of bits] of_nat_less_iff [of "2 ^ 23 + f32_frac bits" "2 ^ 24", where ?'a = rat] by simp
  finally show ?thesis .
qed

text \<open>The threshold between the largest half and infinity.\<close>

lemma overflow_threshold:
  assumes "f32_exp bits < 255"
  shows "65520 \<le> f32_of_bits bits \<longleftrightarrow> 143 \<le> f32_exp bits \<or> (f32_exp bits = 142 \<and> round_half_even (2 ^ 23 + f32_frac bits) 13 = 2048)"
proof -
  define n where "n = 2 ^ 23 + f32_frac bits"
  have n: "2 ^ 23 \<le> n" "n < 2 ^ 24" using f32_fields(3) [of bits] by (simp_all add: n_def)
  then have nr: "(2 :: rat) ^ 23 \<le> of_nat n" "of_nat n < (2 :: rat) ^ 24"
    using of_nat_le_iff [of "2 ^ 23" n, where ?'a = rat] of_nat_less_iff [of n "2 ^ 24", where ?'a = rat] by simp_all
  consider "143 \<le> f32_exp bits" | "f32_exp bits = 142" | "113 \<le> f32_exp bits" "f32_exp bits \<le> 141" | "f32_exp bits \<le> 112" by linarith
  then show ?thesis
  proof cases
    case 1
    have "(2 :: rat) ^ 23 * 2 ^ 30 \<le> of_nat n * 2 ^ (f32_exp bits - 113)"
      using nr(1) 1 by (intro mult_mono power_increasing) simp_all
    then show ?thesis using 1 f32_units_normal [of bits, folded n_def] by simp
  next
    case 2
    have v: "256 * f32_of_bits bits = of_nat n" using f32_units_normal [of bits, folded n_def] 2 by simp
    have "65520 \<le> f32_of_bits bits \<longleftrightarrow> 16773120 \<le> 256 * f32_of_bits bits" by simp
    also have "\<dots> \<longleftrightarrow> 16773120 \<le> n" unfolding v using of_nat_le_iff [of 16773120 n, where ?'a = rat] by simp
    also have "\<dots> \<longleftrightarrow> round_half_even n 13 = 2048"
    proof (cases "16769024 \<le> n")
      case True
      then have "n div 8192 = 2047" using n(2) by (simp add: div_nat_eqI)
      then show ?thesis using div_mult_mod_eq [of n 8192] by (auto simp: round_half_even_def)
    next
      case False
      then have "round_half_even n 13 \<le> 2047" by (intro round_half_even_le) simp
      then show ?thesis using False by simp
    qed
    finally show ?thesis using 2 by (simp add: n_def)
  next
    case 3
    have "of_nat n * (2 :: rat) ^ (f32_exp bits - 113) \<le> 2 ^ 24 * 2 ^ 28"
      using nr(2) 3 by (intro mult_mono power_increasing) simp_all
    then show ?thesis using 3 f32_units_normal [of bits, folded n_def] by simp
  next
    case 4
    then show ?thesis using f32_small_units [of bits 126] by simp
  qed
qed

text \<open>A rounded result is nearest among all finite halves.\<close>

definition nearest_even :: "16 word \<Rightarrow> rat \<Rightarrow> bool" where
  "nearest_even h v \<longleftrightarrow> (\<forall>h'. half_exp h' < 31 \<longrightarrow>
     \<bar>half_magnitude h - v\<bar> \<le> \<bar>half_magnitude h' - v\<bar>
     \<and> (\<bar>half_magnitude h - v\<bar> = \<bar>half_magnitude h' - v\<bar> \<and> half_magnitude h' \<noteq> half_magnitude h \<longrightarrow> even (half_frac h)))"

lemma nearest_even_grid:
  assumes v: "v * 2 ^ 24 = of_nat n * 2 ^ e / 2 ^ k"
    and h: "half_units h = round_half_even n k * 2 ^ e" "even (half_frac h) \<longleftrightarrow> even (round_half_even n k)"
    and n: "0 < e \<Longrightarrow> 1024 * 2 ^ k \<le> n"
  shows "nearest_even h v"
  unfolding nearest_even_def
proof (intro allI impI)
  fix h'
  have scale: "\<bar>half_magnitude x - v\<bar> * (2 ^ 24 * 2 ^ k) = of_int \<bar>int (half_units x) * 2 ^ k - int n * 2 ^ e\<bar>" for x
  proof -
    have "\<bar>half_magnitude x - v\<bar> * (2 ^ 24 * 2 ^ k) = \<bar>(half_magnitude x - v) * (2 ^ 24 * 2 ^ k)\<bar>" by (simp add: abs_mult)
    also have "(half_magnitude x - v) * (2 ^ 24 * 2 ^ k) = of_nat (half_units x) * 2 ^ k - v * 2 ^ 24 * 2 ^ k"
      by (simp add: half_magnitude_units algebra_simps)
    also have "\<dots> = of_int (int (half_units x) * 2 ^ k - int n * 2 ^ e)" unfolding v by simp
    finally show ?thesis by simp
  qed
  let ?d = "\<lambda>x. \<bar>int (half_units x) * 2 ^ k - int n * 2 ^ e\<bar>"
  define r where "r = round_half_even n k"
  have near: "?d h = \<bar>int r * 2 ^ k - int n\<bar> * 2 ^ e"
  proof -
    have "int (half_units h) * 2 ^ k - int n * 2 ^ e = (int r * 2 ^ k - int n) * 2 ^ e" by (simp add: h(1) r_def algebra_simps)
    then show ?thesis by (simp add: abs_mult)
  qed
  have main: "?d h \<le> ?d h' \<and> (?d h = ?d h' \<and> half_units h' \<noteq> half_units h \<longrightarrow> even r)"
  proof (cases "\<exists>z. half_units h' = z * 2 ^ e")
    case True
    then obtain z where z: "half_units h' = z * 2 ^ e" by blast
    have "int (half_units h') * 2 ^ k - int n * 2 ^ e = (int z * 2 ^ k - int n) * 2 ^ e" by (simp add: z algebra_simps)
    then have d: "?d h' = \<bar>int z * 2 ^ k - int n\<bar> * 2 ^ e" by (simp add: abs_mult)
    show ?thesis
      unfolding near d using round_half_even_nearest [where z = "int z" and n = n and k = k] z h(1) by (auto simp: r_def)
  next
    case False
    then have e: "0 < e" and small: "half_units h' < 1024 * 2 ^ e"
      using half_units_grid [of "e + 1" h'] by (auto intro: gr0I)
    have "1024 * 2 ^ k \<le> int n" using of_nat_mono [OF n [OF e], where ?'a = int] by simp
    then have "\<bar>int r * 2 ^ k - int n\<bar> \<le> int n - 1024 * 2 ^ k"
      using round_half_even_nearest(1) [where z = 1024 and n = n and k = k] by (simp add: r_def)
    then have "?d h \<le> (int n - 1024 * 2 ^ k) * 2 ^ e" unfolding near by (rule mult_right_mono) simp
    also have "\<dots> = int n * 2 ^ e - int (1024 * 2 ^ e) * 2 ^ k" by (simp add: algebra_simps)
    also have "\<dots> < int n * 2 ^ e - int (half_units h') * 2 ^ k"
    proof -
      have "int (half_units h') * 2 ^ k < int (1024 * 2 ^ e) * 2 ^ k" using small by (intro mult_strict_right_mono) (simp_all only: of_nat_less_iff, simp)
      then show ?thesis by simp
    qed
    also have "\<dots> \<le> ?d h'" by simp
    finally show ?thesis by simp
  qed
  have pos: "(0 :: rat) < 2 ^ 24 * 2 ^ k" by simp
  have "\<bar>half_magnitude h - v\<bar> \<le> \<bar>half_magnitude h' - v\<bar> \<longleftrightarrow> ?d h \<le> ?d h'"
    using mult_le_cancel_right_pos [OF pos, of "\<bar>half_magnitude h - v\<bar>" "\<bar>half_magnitude h' - v\<bar>"]
    unfolding scale of_int_le_iff by simp
  moreover have "\<bar>half_magnitude h - v\<bar> = \<bar>half_magnitude h' - v\<bar> \<longrightarrow> ?d h = ?d h'"
    using scale [of h] scale [of h'] by (metis of_int_eq_iff)
  moreover have "half_magnitude h' \<noteq> half_magnitude h \<longrightarrow> half_units h' \<noteq> half_units h" by (auto simp: half_magnitude_units)
  ultimately show "\<bar>half_magnitude h - v\<bar> \<le> \<bar>half_magnitude h' - v\<bar>
     \<and> (\<bar>half_magnitude h - v\<bar> = \<bar>half_magnitude h' - v\<bar> \<and> half_magnitude h' \<noteq> half_magnitude h \<longrightarrow> even (half_frac h))"
    using main h(2) unfolding r_def by blast
qed

text \<open>What narrowing has to give, and the bits it produces, for each range of exponents.\<close>

definition narrowed :: "32 word \<Rightarrow> 16 word \<Rightarrow> bool" where
  "narrowed bits r \<longleftrightarrow> half_sign r = f32_sign bits
    \<and> (if f32_exp bits = 255 then half_exp r = 31 \<and> (half_frac r = 0 \<longleftrightarrow> f32_frac bits = 0)
       else if 65520 \<le> f32_of_bits bits then half_exp r = 31 \<and> half_frac r = 0
       else half_exp r < 31 \<and> nearest_even r (f32_of_bits bits))"

definition half_of :: "32 word \<Rightarrow> 16 word \<Rightarrow> bool" where
  "half_of bits r \<longleftrightarrow> unat r = f32_sign bits * 2 ^ 15 + half_magnitude_bits (f32_exp bits) (f32_frac bits)"

lemma narrowed_special:
  assumes "half_of bits r" and "f32_exp bits = 255"
  shows "narrowed bits r"
proof -
  define v e f where "v = f32_of_bits bits" and "e = f32_exp bits" and "f = f32_frac bits"
  have b: "f < 2 ^ 23" using f32_fields(3) [of bits] by (simp add: f_def)
  note u = assms(1) [unfolded half_of_def, folded e_def f_def]
  note special = assms(2-) [folded e_def]
  have "f div 8192 < 1024" using b by (simp add: div_less_iff_less_mult)
  then show ?thesis using half_fields_unique [of r "f32_sign bits" 31 "if f = 0 then 0 else max (f div 8192) 1"] u special
    by (auto simp: narrowed_def half_magnitude_bits_def e_def f_def)
qed

lemma narrowed_over:
  assumes "half_of bits r" and "143 \<le> f32_exp bits" and "f32_exp bits < 255"
  shows "narrowed bits r"
proof -
  define v e f where "v = f32_of_bits bits" and "e = f32_exp bits" and "f = f32_frac bits"
  have b: "f < 2 ^ 23" using f32_fields(3) [of bits] by (simp add: f_def)
  note u = assms(1) [unfolded half_of_def, folded e_def f_def]
  note over = assms(2-) [folded e_def]
  then have "65520 \<le> v" using overflow_threshold [of bits] by (simp add: v_def e_def)
  then show ?thesis using half_fields_unique [of r "f32_sign bits" 31 0] u over
    by (simp add: narrowed_def half_magnitude_bits_def v_def e_def)
qed

lemma narrowed_zero:
  assumes "half_of bits r" and "f32_exp bits < 102"
  shows "narrowed bits r"
proof -
  define v e f where "v = f32_of_bits bits" and "e = f32_exp bits" and "f = f32_frac bits"
  have b: "f < 2 ^ 23" using f32_fields(3) [of bits] by (simp add: f_def)
  note u = assms(1) [unfolded half_of_def, folded e_def f_def]
  note zero = assms(2-) [folded e_def]
  have small: "v * 2 ^ 24 < 1 / 2" using f32_small_units [of bits 101] zero by (simp add: v_def e_def)
  have nonneg: "0 \<le> v" by (simp add: v_def f32_magnitude)
  have r: "half_exp r = 0" "half_frac r = 0" "half_sign r = f32_sign bits"
    using half_fields_unique [of r "f32_sign bits" 0 0] u zero by (simp_all add: half_magnitude_bits_def)
  have "\<bar>half_magnitude r - v\<bar> \<le> \<bar>half_magnitude h - v\<bar>" for h
    using small nonneg by (cases "half_units h") (simp_all add: half_magnitude_units r half_units_def [of r])
  then have "nearest_even r v" using r(2) by (simp add: nearest_even_def)
  then show ?thesis using r zero overflow_threshold [of bits] by (simp add: narrowed_def v_def e_def)
qed

lemma narrowed_subnormal:
  assumes "half_of bits r" and "102 \<le> f32_exp bits" and "f32_exp bits \<le> 112"
  shows "narrowed bits r"
proof -
  define v e f where "v = f32_of_bits bits" and "e = f32_exp bits" and "f = f32_frac bits"
  have b: "f < 2 ^ 23" using f32_fields(3) [of bits] by (simp add: f_def)
  note u = assms(1) [unfolded half_of_def, folded e_def f_def]
  note sub = assms(2-) [folded e_def]
  have "round_half_even (2 ^ 23 + f) (126 - e) \<le> 1024"
  proof (rule round_half_even_le)
    have "(2 :: nat) ^ 14 \<le> 2 ^ (126 - e)" using sub by (intro power_increasing) simp_all
    then show "2 ^ 23 + f \<le> 1024 * 2 ^ (126 - e)" using b by simp
  qed
  then have r: "half_units r = round_half_even (2 ^ 23 + f) (126 - e) * 2 ^ 0" "half_exp r < 31" "half_sign r = f32_sign bits"
    "even (half_frac r) \<longleftrightarrow> even (round_half_even (2 ^ 23 + f) (126 - e))"
    using units_of_magnitude_bits [of r "f32_sign bits" 0 "round_half_even (2 ^ 23 + f) (126 - e)"] u sub
    by (simp_all add: half_magnitude_bits_def)
  have "nearest_even r v"
    by (rule nearest_even_grid [OF _ r(1,4)]) (use f32_units_small [of bits] sub in \<open>simp_all add: v_def e_def f_def\<close>)
  then show ?thesis using r sub overflow_threshold [of bits] by (simp add: narrowed_def v_def e_def)
qed

lemma narrowed_normal:
  assumes "half_of bits r" and "113 \<le> f32_exp bits" and "f32_exp bits < 143"
  shows "narrowed bits r"
proof -
  define v e f where "v = f32_of_bits bits" and "e = f32_exp bits" and "f = f32_frac bits"
  have b: "f < 2 ^ 23" using f32_fields(3) [of bits] by (simp add: f_def)
  note u = assms(1) [unfolded half_of_def, folded e_def f_def]
  note normal = assms(2-) [folded e_def]
  define m where "m = round_half_even (2 ^ 23 + f) 13"
  have m: "1024 \<le> m" "m \<le> 2048" "m = 1024 + round_half_even f 13"
    using round_half_even_hidden [of f] round_half_even_le [of f 1024 13] b by (simp_all add: m_def)
  have u': "unat r = f32_sign bits * 2 ^ 15 + ((e - 113) * 1024 + m)"
    using u normal m(3) by (simp add: half_magnitude_bits_def)
  show ?thesis
  proof (cases "e = 142 \<and> m = 2048")
    case True
    then show ?thesis using u' half_fields_unique [of r "f32_sign bits" 31 0] overflow_threshold [of bits]
      by (simp add: narrowed_def v_def e_def f_def m_def)
  next
    case False
    have "(e - 113) * 1024 + m < 31744"
    proof (cases "e = 142")
      case True
      then show ?thesis using False m(2) by simp
    next
      case e: False
      then have "e - 113 \<le> 28" using normal by simp
      then have "(e - 113) * 1024 \<le> 28 * 1024" by (rule mult_right_mono) simp
      then show ?thesis using m(2) by simp
    qed
    then have r: "half_units r = m * 2 ^ (e - 113)" "half_exp r < 31" "half_sign r = f32_sign bits" "even (half_frac r) \<longleftrightarrow> even m"
      using units_of_magnitude_bits [OF u' _ m(2)] m(1) by simp_all
    have "nearest_even r v"
      by (rule nearest_even_grid [OF _ r(1,4) [unfolded m_def]])
        (use f32_units_normal [of bits] normal in \<open>simp_all add: v_def e_def f_def\<close>)
    moreover have "\<not> 65520 \<le> v"
      using overflow_threshold [of bits] False normal by (auto simp: v_def e_def f_def m_def)
    ultimately show ?thesis using r normal by (simp add: narrowed_def v_def e_def)
  qed
qed

text \<open>
  C34. Narrowing an \<open>f32\<close> rounds to the nearest half, ties to even: the sign is kept; a finite value
  of magnitude 65520 or more gives infinity; every other finite value gives a finite half that is at
  least as near as every other one, and whose last bit is even if another one is equally near. An
  infinity gives an infinity, a NaN a NaN.
\<close>

theorem narrowing_rounds_to_nearest_even:
  "half_sign (f32_to_f16_bits bits) = f32_sign bits
    \<and> (if f32_exp bits = 255
       then half_exp (f32_to_f16_bits bits) = 31 \<and> (half_frac (f32_to_f16_bits bits) = 0 \<longleftrightarrow> f32_frac bits = 0)
       else if 65520 \<le> f32_of_bits bits
       then half_exp (f32_to_f16_bits bits) = 31 \<and> half_frac (f32_to_f16_bits bits) = 0
       else half_exp (f32_to_f16_bits bits) < 31 \<and> nearest_even (f32_to_f16_bits bits) (f32_of_bits bits))"
proof -
  have r: "half_of bits (f32_to_f16_bits bits)" unfolding half_of_def by (rule unat_f32_to_f16)
  consider "f32_exp bits = 255" | "143 \<le> f32_exp bits" "f32_exp bits < 255" | "f32_exp bits < 102"
    | "102 \<le> f32_exp bits" "f32_exp bits \<le> 112" | "113 \<le> f32_exp bits" "f32_exp bits < 143"
    using f32_fields(2) [of bits] by linarith
  then have "narrowed bits (f32_to_f16_bits bits)"
    using r by cases (simp_all add: narrowed_special narrowed_over narrowed_zero narrowed_subnormal narrowed_normal)
  then show ?thesis unfolding narrowed_def .
qed

end
