(* ===== verification/Bpe_Tokenizer.thy ===== *)
theory Bpe_Tokenizer
  imports Utf8_Text
begin

text \<open>
  The byte-level BPE tokenizer that the language-model families share
  (\<open>crates/openasr-core/src/models/gpt2_bpe.rs\<close>): admission of the tables, the byte alphabet, the
  pretokenizer, the merge loop, and encoding and decoding. The Unicode tables behind
  \<open>char::is_alphabetic\<close> and \<open>char::is_numeric\<close> are the parameters \<open>alpha\<close> and \<open>num\<close>. The code walks a
  string with byte offsets that always stand between characters; here a position is the rest of the
  string. The memory accounting of the table is not modelled.
\<close>

section \<open>Tables\<close>

datatype bpe_error =
    EmptyTokens
  | EmptyMerges
  | TooManyTokens nat
  | TooManyMerges nat
  | TokenCountExceedsU32 nat
  | VocabSizeMismatch nat nat
  | TokenIndexExceedsU32 nat
  | TokenIdOutOfRange nat nat
  | IdNotInVocab nat
  | CannotEncode rstr

definition gpt2_bpe_max_vocab_tokens :: nat where
  "gpt2_bpe_max_vocab_tokens = 1000000"

definition gpt2_bpe_max_merges :: nat where
  "gpt2_bpe_max_merges = 2000000"

definition validate_gpt2_bpe_table_admission :: "rstr list \<Rightarrow> rstr list \<Rightarrow> nat option \<Rightarrow> bpe_error + unit" where
  "validate_gpt2_bpe_table_admission tokens merges declared_vocab_size =
     (if tokens = [] then Inl EmptyTokens
      else if merges = [] then Inl EmptyMerges
      else if gpt2_bpe_max_vocab_tokens < length tokens then Inl (TooManyTokens (length tokens))
      else if gpt2_bpe_max_merges < length merges then Inl (TooManyMerges (length merges))
      else case declared_vocab_size of
             None \<Rightarrow> Inr ()
           | Some vocab_size \<Rightarrow>
               if u32_limit \<le> length tokens then Inl (TokenCountExceedsU32 (length tokens))
               else if length tokens \<noteq> vocab_size then Inl (VocabSizeMismatch (length tokens) vocab_size)
               else Inr ())"

definition build_merge_rank :: "rstr list \<Rightarrow> rstr \<rightharpoonup> nat" where
  "build_merge_rank merges = map_of (rev (zip merges [0..<length merges]))"

definition build_token_to_id :: "rstr list \<Rightarrow> bpe_error + (rstr \<rightharpoonup> nat)" where
  "build_token_to_id tokens =
     (if u32_limit < length tokens then Inl (TokenIndexExceedsU32 u32_limit)
      else Inr (map_of (rev (zip tokens [0..<length tokens]))))"

record gpt2_bpe_table =
  bt_id_to_token :: "rstr option list"
  bt_token_to_id :: "rstr \<rightharpoonup> nat"
  bt_merge_rank :: "rstr \<rightharpoonup> nat"

definition from_admitted_tables :: "rstr list \<Rightarrow> rstr list \<Rightarrow> bpe_error + gpt2_bpe_table" where
  "from_admitted_tables tokens merges =
     rbind (build_token_to_id tokens) (\<lambda>token_to_id.
       Inr \<lparr>bt_id_to_token = map Some tokens, bt_token_to_id = token_to_id, bt_merge_rank = build_merge_rank merges\<rparr>)"

definition bpe_token_id :: "gpt2_bpe_table \<Rightarrow> rstr \<Rightarrow> nat option" where
  "bpe_token_id t token = bt_token_to_id t token"

definition validate_token_id :: "gpt2_bpe_table \<Rightarrow> nat \<Rightarrow> bpe_error + unit" where
  "validate_token_id t token_id =
     (if token_id < length (bt_id_to_token t) then Inr ()
      else Inl (TokenIdOutOfRange token_id (length (bt_id_to_token t))))"

section \<open>The byte alphabet\<close>

text \<open>The bytes that stand for themselves; the others get the characters from U+0100 on, in order.\<close>

definition printable :: "nat \<Rightarrow> bool" where
  "printable b \<longleftrightarrow> (33 \<le> b \<and> b \<le> 126) \<or> (161 \<le> b \<and> b \<le> 172) \<or> (174 \<le> b \<and> b \<le> 255)"

fun byte_loop :: "nat \<Rightarrow> nat \<Rightarrow> nat list \<Rightarrow> nat option" where
  "byte_loop code extra_code [] = None"
| "byte_loop code extra_code (byte # bytes) =
     (if printable byte then byte_loop code extra_code bytes
      else if extra_code = code then Some byte
      else byte_loop code (extra_code + 1) bytes)"

definition byte_from_unicode_char :: "nat \<Rightarrow> nat option" where
  "byte_from_unicode_char code =
     (if printable code then Some code
      else if code < 256 then None
      else byte_loop code 256 [0..<256])"

fun char_loop :: "nat \<Rightarrow> nat \<Rightarrow> nat list \<Rightarrow> nat" where
  "char_loop code extra_code [] = 63"
| "char_loop code extra_code (candidate # candidates) =
     (if printable candidate then char_loop code extra_code candidates
      else if candidate = code then (if is_scalar extra_code then extra_code else 63)
      else char_loop code (extra_code + 1) candidates)"

definition unicode_char_from_byte :: "nat \<Rightarrow> nat" where
  "unicode_char_from_byte byte = (if printable byte then byte else char_loop byte 256 [0..<256])"

definition token_to_bytes :: "rstr \<Rightarrow> nat list" where
  "token_to_bytes token = map (\<lambda>ch. case byte_from_unicode_char ch of Some b \<Rightarrow> b | None \<Rightarrow> 63) token"

definition bytes_to_unicode :: "nat list \<Rightarrow> rstr" where
  "bytes_to_unicode bytes = map unicode_char_from_byte bytes"

section \<open>Pretokenizer\<close>

definition is_crlf :: "nat \<Rightarrow> bool" where
  "is_crlf c \<longleftrightarrow> c = 13 \<or> c = 10"

definition ascii_lower :: "nat \<Rightarrow> nat" where
  "ascii_lower c = (if 65 \<le> c \<and> c \<le> 90 then c + 32 else c)"

definition contraction_suffixes :: "rstr list" where
  "contraction_suffixes = map lit [''s'', ''t'', ''re'', ''ve'', ''m'', ''ll'', ''d'']"

text \<open>\<open>match_contraction\<close>: how many characters of the text after the apostrophe the suffix takes.\<close>

fun match_suffix :: "rstr \<Rightarrow> rstr \<Rightarrow> bool" where
  "match_suffix [] cs = True"
| "match_suffix (e # es) [] = False"
| "match_suffix (e # es) (c # cs) = (ascii_lower c = ascii_lower e \<and> match_suffix es cs)"

definition match_contraction :: "rstr \<Rightarrow> nat option" where
  "match_contraction cs = map_option length (find (\<lambda>suffix. match_suffix suffix cs) contraction_suffixes)"

definition is_punct_class :: "(nat \<Rightarrow> bool) \<Rightarrow> (nat \<Rightarrow> bool) \<Rightarrow> nat \<Rightarrow> bool" where
  "is_punct_class alpha num ch \<longleftrightarrow> \<not> is_ws ch \<and> \<not> alpha ch \<and> \<not> num ch"

definition punct_run :: "(nat \<Rightarrow> bool) \<Rightarrow> (nat \<Rightarrow> bool) \<Rightarrow> rstr \<Rightarrow> nat" where
  "punct_run alpha num cs =
     (let n = length (takeWhile (is_punct_class alpha num) cs)
      in n + length (takeWhile is_crlf (drop n cs)))"

text \<open>The position of the last line break in a run of whitespace.\<close>

definition last_newline :: "rstr \<Rightarrow> nat option" where
  "last_newline cs =
     (let r = dropWhile (\<lambda>c. \<not> is_crlf c) (rev cs) in if r = [] then None else Some (length r - 1))"

definition space_run :: "rstr \<Rightarrow> nat" where
  "space_run cs =
     (let run_end = length (takeWhile is_ws cs)
      in case last_newline (takeWhile is_ws cs) of
           Some k \<Rightarrow> k + 1
         | None \<Rightarrow> if run_end = length cs then run_end else max (run_end - 1) 1)"

text \<open>The length of the next piece of a nonempty text.\<close>

definition piece_length :: "(nat \<Rightarrow> bool) \<Rightarrow> (nat \<Rightarrow> bool) \<Rightarrow> nat \<Rightarrow> rstr \<Rightarrow> nat" where
  "piece_length alpha num ch cs =
     (case if ch = 39 then match_contraction cs else None of
        Some n \<Rightarrow> 1 + n
      | None \<Rightarrow>
          if alpha ch then 1 + length (takeWhile alpha cs)
          else if ch \<noteq> 13 \<and> ch \<noteq> 10 \<and> \<not> num ch \<and> cs \<noteq> [] \<and> alpha (hd cs) then 2 + length (takeWhile alpha (tl cs))
          else if num ch then 1
          else if ch = 32 \<and> cs \<noteq> [] \<and> is_punct_class alpha num (hd cs) then 1 + punct_run alpha num cs
          else if ch \<noteq> 32 \<and> is_punct_class alpha num ch then punct_run alpha num (ch # cs)
          else space_run (ch # cs))"

lemma space_run_pos: "is_ws ch \<Longrightarrow> 0 < space_run (ch # cs)"
  by (auto simp: space_run_def Let_def split: option.splits)

lemma punct_run_pos: "is_punct_class alpha num ch \<Longrightarrow> 0 < punct_run alpha num (ch # cs)"
  by (simp add: punct_run_def)

lemma if_pos: "(b \<Longrightarrow> 0 < x) \<Longrightarrow> (\<not> b \<Longrightarrow> 0 < y) \<Longrightarrow> 0 < (if b then x else y)" for x y :: nat
  by simp

lemma piece_length_pos: "0 < piece_length alpha num ch cs"
proof -
  have "0 < space_run (ch # cs)" if "\<not> alpha ch" "\<not> num ch" "\<not> (ch \<noteq> 32 \<and> is_punct_class alpha num ch)"
    by (rule space_run_pos) (use that in \<open>auto simp: is_punct_class_def\<close>)
  moreover have "0 < punct_run alpha num (ch # cs)" if "ch \<noteq> 32 \<and> is_punct_class alpha num ch"
    by (rule punct_run_pos) (use that in simp)
  ultimately show ?thesis
    unfolding piece_length_def by (rule_tac option.split [THEN iffD2], intro conjI impI allI if_pos) simp_all
qed

function gpt2_style_pretokenize :: "(nat \<Rightarrow> bool) \<Rightarrow> (nat \<Rightarrow> bool) \<Rightarrow> rstr \<Rightarrow> rstr list" where
  "gpt2_style_pretokenize alpha num [] = []"
| "gpt2_style_pretokenize alpha num (ch # cs) =
     (let n = piece_length alpha num ch cs
      in take n (ch # cs) # gpt2_style_pretokenize alpha num (drop n (ch # cs)))"
  by pat_completeness auto
termination gpt2_style_pretokenize
  by (relation "measure (\<lambda>(alpha, num, cs). length cs)") (simp_all add: piece_length_pos)

section \<open>Merging\<close>

text \<open>The pair of neighbours with the least rank, the leftmost of equals.\<close>

fun best_pair_loop :: "(rstr \<rightharpoonup> nat) \<Rightarrow> nat \<Rightarrow> (nat \<times> nat) option \<Rightarrow> rstr list \<Rightarrow> (nat \<times> nat) option" where
  "best_pair_loop merge_rank pair_index best_pair (a # b # symbols) =
     best_pair_loop merge_rank (pair_index + 1)
       (case merge_rank (a @ sp @ b) of
          None \<Rightarrow> best_pair
        | Some rank \<Rightarrow>
            (case best_pair of
               Some (i, best_rank) \<Rightarrow> if best_rank \<le> rank then best_pair else Some (pair_index, rank)
             | None \<Rightarrow> Some (pair_index, rank)))
       (b # symbols)"
| "best_pair_loop merge_rank pair_index best_pair _ = best_pair"

definition best_pair :: "(rstr \<rightharpoonup> nat) \<Rightarrow> rstr list \<Rightarrow> (nat \<times> nat) option" where
  "best_pair merge_rank symbols = best_pair_loop merge_rank 0 None symbols"

definition merge_at :: "nat \<Rightarrow> rstr list \<Rightarrow> rstr list" where
  "merge_at i symbols = take i symbols @ [symbols ! i @ symbols ! (i + 1)] @ drop (i + 2) symbols"

lemma best_pair_loop_index:
  "best_pair_loop merge_rank j best symbols = Some (i, rank)
     \<Longrightarrow> best = Some (i, rank) \<or> (j \<le> i \<and> Suc (i - j) < length symbols)"
proof (induction merge_rank j best symbols rule: best_pair_loop.induct)
  case (1 merge_rank j best a b symbols)
  then show ?case by (fastforce split: option.splits if_splits)
qed auto

lemma best_pair_index: "best_pair merge_rank symbols = Some (i, rank) \<Longrightarrow> i + 1 < length symbols"
  using best_pair_loop_index [of merge_rank 0 None symbols i rank] by (simp add: best_pair_def)

function merge_loop :: "(rstr \<rightharpoonup> nat) \<Rightarrow> rstr list \<Rightarrow> rstr list" where
  "merge_loop merge_rank symbols =
     (if 1 < length symbols
      then (case best_pair merge_rank symbols of
              None \<Rightarrow> symbols
            | Some (pair_index, _) \<Rightarrow> merge_loop merge_rank (merge_at pair_index symbols))
      else symbols)"
  by pat_completeness auto
termination merge_loop
  by (relation "measure (\<lambda>(merge_rank, symbols). length symbols)") (auto simp: merge_at_def dest!: best_pair_index)

declare merge_loop.simps [simp del]

fun lookup_symbols :: "(rstr \<rightharpoonup> nat) \<Rightarrow> rstr list \<Rightarrow> bpe_error + nat list" where
  "lookup_symbols token_to_id [] = Inr []"
| "lookup_symbols token_to_id (symbol # symbols) =
     (case token_to_id symbol of
        None \<Rightarrow> Inl (CannotEncode symbol)
      | Some token_id \<Rightarrow> rbind (lookup_symbols token_to_id symbols) (\<lambda>ids. Inr (token_id # ids)))"

definition bpe_encode_piece :: "gpt2_bpe_table \<Rightarrow> rstr \<Rightarrow> bpe_error + nat list" where
  "bpe_encode_piece t encoded_piece =
     (if encoded_piece = [] then Inr []
      else lookup_symbols (bt_token_to_id t) (merge_loop (bt_merge_rank t) (map (\<lambda>ch. [ch]) encoded_piece)))"

definition encode_byte_level_piece :: "gpt2_bpe_table \<Rightarrow> rstr \<Rightarrow> bpe_error + nat list" where
  "encode_byte_level_piece t piece = bpe_encode_piece t (bytes_to_unicode (utf8 piece))"

fun encode_pieces :: "gpt2_bpe_table \<Rightarrow> rstr list \<Rightarrow> bpe_error + nat list" where
  "encode_pieces t [] = Inr []"
| "encode_pieces t (piece # pieces) =
     (if piece = [] then encode_pieces t pieces
      else rbind (encode_byte_level_piece t piece) (\<lambda>ids.
           rbind (encode_pieces t pieces) (\<lambda>rest. Inr (ids @ rest))))"

definition encode_plain_text_chunk :: "(nat \<Rightarrow> bool) \<Rightarrow> (nat \<Rightarrow> bool) \<Rightarrow> gpt2_bpe_table \<Rightarrow> rstr \<Rightarrow> bpe_error + nat list" where
  "encode_plain_text_chunk alpha num t chunk = encode_pieces t (gpt2_style_pretokenize alpha num chunk)"

section \<open>Special tokens\<close>

text \<open>\<open>str::find\<close> of a nonempty pattern.\<close>

fun find_str :: "rstr \<Rightarrow> rstr \<Rightarrow> nat option" where
  "find_str pat [] = (if pat = [] then Some 0 else None)"
| "find_str pat (c # cs) = (if prefix pat (c # cs) then Some 0 else map_option Suc (find_str pat cs))"

definition try_match_special_token :: "rstr \<Rightarrow> (rstr \<rightharpoonup> nat) \<Rightarrow> (nat \<times> nat) option" where
  "try_match_special_token rest token_to_id =
     (if \<not> prefix (lit ''<|'') rest then None
      else case find_str (lit ''|>'') rest of
             None \<Rightarrow> None
           | Some end_offset \<Rightarrow>
               (case token_to_id (take (end_offset + 2) rest) of
                  None \<Rightarrow> None
                | Some token_id \<Rightarrow> Some (token_id, end_offset + 2)))"

lemma find_str_bound: "find_str pat cs = Some i \<Longrightarrow> i + length pat \<le> length cs \<and> prefix pat (drop i cs)"
  by (induction cs arbitrary: i) (auto split: if_splits dest: prefix_length_le)

function find_next_special_token_boundary :: "rstr \<Rightarrow> (rstr \<rightharpoonup> nat) \<Rightarrow> nat" where
  "find_next_special_token_boundary cs token_to_id =
     (if cs = [] then 0
      else case find_str (lit ''<|'') cs of
             None \<Rightarrow> length cs
           | Some relative \<Rightarrow>
               if try_match_special_token (drop relative cs) token_to_id \<noteq> None then relative
               else relative + 1 + find_next_special_token_boundary (drop (relative + 1) cs) token_to_id)"
  by pat_completeness auto
termination find_next_special_token_boundary
  by (relation "measure (\<lambda>(cs, token_to_id). length cs)") auto

declare find_next_special_token_boundary.simps [simp del]

lemma special_boundary_pos:
  assumes "cs \<noteq> []" and "try_match_special_token cs token_to_id = None"
  shows "0 < find_next_special_token_boundary cs token_to_id"
  using assms by (subst find_next_special_token_boundary.simps) (auto split: option.splits intro: gr0I)

lemma special_match_pos: "try_match_special_token cs token_to_id = Some (i, n) \<Longrightarrow> 0 < n \<and> n \<le> length cs"
  by (auto simp: try_match_special_token_def lit_def split: if_splits option.splits dest!: find_str_bound)

function encode_prompt_text :: "(nat \<Rightarrow> bool) \<Rightarrow> (nat \<Rightarrow> bool) \<Rightarrow> gpt2_bpe_table \<Rightarrow> rstr \<Rightarrow> bpe_error + nat list" where
  "encode_prompt_text alpha num t rest =
     (if rest = [] then Inr []
      else case try_match_special_token rest (bt_token_to_id t) of
             Some (token_id, n) \<Rightarrow>
               rbind (encode_prompt_text alpha num t (drop n rest)) (\<lambda>ids. Inr (token_id # ids))
           | None \<Rightarrow>
               (let n = find_next_special_token_boundary rest (bt_token_to_id t)
                in rbind (encode_plain_text_chunk alpha num t (take n rest)) (\<lambda>ids.
                   rbind (encode_prompt_text alpha num t (drop n rest)) (\<lambda>ids'. Inr (ids @ ids')))))"
  by pat_completeness auto
termination encode_prompt_text
  by (relation "measure (\<lambda>(alpha, num, t, rest). length rest)") (auto simp: special_boundary_pos dest!: special_match_pos)

declare encode_prompt_text.simps [simp del]

section \<open>Decoding\<close>

fun decode_bytes :: "gpt2_bpe_table \<Rightarrow> (nat \<Rightarrow> bool) \<Rightarrow> nat list \<Rightarrow> bpe_error + nat list" where
  "decode_bytes t skip_token [] = Inr []"
| "decode_bytes t skip_token (token_id # token_ids) =
     (if skip_token token_id then decode_bytes t skip_token token_ids
      else if \<not> token_id < length (bt_id_to_token t) then Inl (IdNotInVocab token_id)
      else case bt_id_to_token t ! token_id of
             None \<Rightarrow> Inl (IdNotInVocab token_id)
           | Some token \<Rightarrow> rbind (decode_bytes t skip_token token_ids) (\<lambda>bytes. Inr (token_to_bytes token @ bytes)))"

definition decode_token_ids :: "gpt2_bpe_table \<Rightarrow> (nat \<Rightarrow> bool) \<Rightarrow> nat list \<Rightarrow> bpe_error + rstr" where
  "decode_token_ids t skip_token token_ids = rbind (decode_bytes t skip_token token_ids) (\<lambda>bytes. Inr (from_utf8_lossy bytes))"

end
