(* ===== verification/Bpe_Properties.thy ===== *)
theory Bpe_Properties
  imports Bpe_Tokenizer
begin

text \<open>
  What the byte-level BPE tokenizer guarantees: the byte alphabet is a bijection, the pretokenizer
  is the documented regular expression under leftmost-first matching, merging only regroups and
  leaves nothing to merge, and decoding an encoded text gives the text back.
\<close>

section \<open>The byte alphabet\<close>

lemma char_loop_ge: "code \<in> set cs \<Longrightarrow> \<not> printable code \<Longrightarrow> extra + length cs < 55296 \<Longrightarrow> extra \<le> char_loop code extra cs"
  by (induction code extra cs rule: char_loop.induct) (auto simp: is_scalar_def)

lemma byte_loop_char_loop:
  "code \<in> set cs \<Longrightarrow> \<not> printable code \<Longrightarrow> extra + length cs < 55296
     \<Longrightarrow> byte_loop (char_loop code extra cs) extra cs = Some code"
proof (induction code extra cs rule: char_loop.induct)
  case (2 code extra candidate cs)
  show ?case
  proof (cases "printable candidate \<or> candidate = code")
    case True
    then show ?thesis using 2 by (auto simp: is_scalar_def)
  next
    case False
    then have "extra + 1 \<le> char_loop code (extra + 1) cs" using 2 char_loop_ge [of code cs "extra + 1"] by simp
    then show ?thesis using 2 False by simp
  qed
qed simp

lemma byte_alphabet: "b < 256 \<Longrightarrow> byte_from_unicode_char (unicode_char_from_byte b) = Some b"
proof (cases "printable b")
  case False
  assume b: "b < 256"
  then have "256 \<le> char_loop b 256 [0..<256]" using False by (intro char_loop_ge) simp_all
  moreover from this have "\<not> printable (char_loop b 256 [0..<256])" by (simp add: printable_def)
  ultimately show ?thesis
    using byte_loop_char_loop [of b "[0..<256]" 256] b False by (simp add: byte_from_unicode_char_def unicode_char_from_byte_def)
qed (simp add: byte_from_unicode_char_def unicode_char_from_byte_def)

lemma token_to_bytes_unicode: "\<forall>b \<in> set bs. b < 256 \<Longrightarrow> token_to_bytes (bytes_to_unicode bs) = bs"
  by (induction bs) (simp_all add: token_to_bytes_def bytes_to_unicode_def byte_alphabet)

lemma token_to_bytes_append [simp]: "token_to_bytes (a @ b) = token_to_bytes a @ token_to_bytes b"
  by (simp add: token_to_bytes_def)

section \<open>Merging\<close>

lemma concat_merge_at: "i + 1 < length symbols \<Longrightarrow> concat (merge_at i symbols) = concat symbols"
proof -
  assume i: "i + 1 < length symbols"
  then have "symbols = take i symbols @ symbols ! i # symbols ! (i + 1) # drop (i + 2) symbols"
    by (metis Suc_eq_plus1 Suc_lessD add_2_eq_Suc' append_take_drop_id Cons_nth_drop_Suc)
  then have "concat symbols = concat (take i symbols @ symbols ! i # symbols ! (i + 1) # drop (i + 2) symbols)" by simp
  then show ?thesis by (simp add: merge_at_def)
qed

lemma concat_merge_loop: "concat (merge_loop merge_rank symbols) = concat symbols"
proof (induction merge_rank symbols rule: merge_loop.induct)
  case (1 merge_rank symbols)
  then show ?case
    by (subst merge_loop.simps) (auto split: option.splits simp: concat_merge_at dest!: best_pair_index)
qed

text \<open>
  One step of BPE, as a relation: the pair of neighbours with the least rank is merged, the leftmost
  one if several have it.
\<close>

definition pair_rank :: "(rstr \<rightharpoonup> nat) \<Rightarrow> rstr list \<Rightarrow> nat \<Rightarrow> nat option" where
  "pair_rank merge_rank symbols i = (if i + 1 < length symbols then merge_rank (symbols ! i @ sp @ symbols ! (i + 1)) else None)"

inductive bpe_step :: "(rstr \<rightharpoonup> nat) \<Rightarrow> rstr list \<Rightarrow> rstr list \<Rightarrow> bool" for merge_rank where
  merge: "pair_rank merge_rank symbols i = Some rank
    \<Longrightarrow> (\<And>j rank'. pair_rank merge_rank symbols j = Some rank' \<Longrightarrow> rank < rank' \<or> (rank = rank' \<and> i \<le> j))
    \<Longrightarrow> bpe_step merge_rank symbols (merge_at i symbols)"

definition best_of :: "(nat \<times> nat) option \<Rightarrow> (nat \<Rightarrow> nat option) \<Rightarrow> bool" where
  "best_of best ranks \<longleftrightarrow> (case best of
     None \<Rightarrow> \<forall>j. ranks j = None
   | Some (i, rank) \<Rightarrow> ranks i = Some rank \<and> (\<forall>j rank'. ranks j = Some rank' \<longrightarrow> rank < rank' \<or> (rank = rank' \<and> i \<le> j)))"

lemma best_pair_loop_correct:
  assumes "best_of best (\<lambda>i. if i < k then pair_rank merge_rank (pre @ symbols) i else None)" and "k = length pre"
  shows "best_of (best_pair_loop merge_rank k best symbols) (pair_rank merge_rank (pre @ symbols))"
  using assms
proof (induction merge_rank k best symbols arbitrary: pre rule: best_pair_loop.induct, goal_cases)
  case (1 merge_rank k best a b symbols pre)
  define best' where "best' = (case merge_rank (a @ sp @ b) of None \<Rightarrow> best
    | Some rank \<Rightarrow> (case best of Some (i, best_rank) \<Rightarrow> if best_rank \<le> rank then best else Some (k, rank) | None \<Rightarrow> Some (k, rank)))"
  have k: "pair_rank merge_rank (pre @ a # b # symbols) k = merge_rank (a @ sp @ b)"
    using 1(3) by (simp add: pair_rank_def nth_append)
  have "best_of best' (\<lambda>i. if i < k + 1 then pair_rank merge_rank (pre @ a # b # symbols) i else None)"
    using 1(2) k unfolding best'_def best_of_def
    by (auto split: option.splits if_splits simp: less_Suc_eq; fastforce?)
  moreover have l: "pre @ a # b # symbols = (pre @ [a]) @ b # symbols" by simp
  ultimately have "best_of (best_pair_loop merge_rank (k + 1) best' (b # symbols)) (pair_rank merge_rank ((pre @ [a]) @ b # symbols))"
    using 1(3) unfolding l by (intro 1(1) [of "pre @ [a]", folded best'_def]) simp_all
  then show ?case unfolding l by (simp only: best_pair_loop.simps best'_def)
next
  case (2 merge_rank k best pre)
  then have "(\<lambda>i. if i < k then pair_rank merge_rank (pre @ []) i else None) = pair_rank merge_rank (pre @ [])"
    by (auto simp: fun_eq_iff pair_rank_def)
  then show ?case using 2 by simp
next
  case (3 merge_rank k best v pre)
  then have "(\<lambda>i. if i < k then pair_rank merge_rank (pre @ [v]) i else None) = pair_rank merge_rank (pre @ [v])"
    by (auto simp: fun_eq_iff pair_rank_def)
  then show ?case using 3 by simp
qed

lemma best_pair_correct: "best_of (best_pair merge_rank symbols) (pair_rank merge_rank symbols)"
  using best_pair_loop_correct [of None 0 merge_rank "[]" symbols] by (simp add: best_pair_def best_of_def)

lemma merge_loop_normal_form:
  "(bpe_step merge_rank)\<^sup>*\<^sup>* symbols (merge_loop merge_rank symbols) \<and> (\<nexists>s. bpe_step merge_rank (merge_loop merge_rank symbols) s)"
proof (induction merge_rank symbols rule: merge_loop.induct)
  case (1 merge_rank symbols)
  note best = best_pair_correct [of merge_rank symbols]
  show ?case
  proof (cases "best_pair merge_rank symbols")
    case None
    then have "\<nexists>s. bpe_step merge_rank symbols s" using best by (auto simp: best_of_def elim: bpe_step.cases)
    then show ?thesis using None by (subst (1 2) merge_loop.simps) simp
  next
    case (Some p)
    then obtain i rank where p: "best_pair merge_rank symbols = Some (i, rank)" by (cases p) auto
    then have len: "1 < length symbols" using best_pair_index [OF p] by simp
    have step: "bpe_step merge_rank symbols (merge_at i symbols)"
      using best p by (intro bpe_step.merge [of _ _ i rank]) (auto simp: best_of_def)
    have eq: "merge_loop merge_rank symbols = merge_loop merge_rank (merge_at i symbols)"
      using len p by (subst merge_loop.simps) simp
    show ?thesis unfolding eq using 1 [OF len p refl] step by (auto intro: converse_rtranclp_into_rtranclp)
  qed
qed

section \<open>The pretokenizer as a regular expression\<close>

text \<open>
  Regular expressions with backtracking, as regex engines match them: the result is the list of the
  lengths of all matches at the start of a text, in the order in which the engine tries them, so the
  first one is the match. Repetition is needed for character classes only.
\<close>

datatype rx =
    Class "nat \<Rightarrow> bool"
  | Many "nat \<Rightarrow> bool"
  | Many1 "nat \<Rightarrow> bool"
  | Opt rx
  | Seq rx rx
  | Alt rx rx
  | NotNext "nat \<Rightarrow> bool"

fun rx_matches :: "rx \<Rightarrow> rstr \<Rightarrow> nat list" where
  "rx_matches (Class p) s = (if s \<noteq> [] \<and> p (hd s) then [1] else [])"
| "rx_matches (Many p) s = rev [0..<Suc (length (takeWhile p s))]"
| "rx_matches (Many1 p) s = rev [1..<Suc (length (takeWhile p s))]"
| "rx_matches (Opt r) s = rx_matches r s @ [0]"
| "rx_matches (Seq r1 r2) s = concat (map (\<lambda>n. map ((+) n) (rx_matches r2 (drop n s))) (rx_matches r1 s))"
| "rx_matches (Alt r1 r2) s = rx_matches r1 s @ rx_matches r2 s"
| "rx_matches (NotNext p) s = (if s \<noteq> [] \<and> p (hd s) then [] else [0])"

definition rx_first :: "rx \<Rightarrow> rstr \<Rightarrow> nat option" where
  "rx_first r s = (case rx_matches r s of [] \<Rightarrow> None | n # _ \<Rightarrow> Some n)"

text \<open>Splitting a text into the successive matches; text that does not match stands alone.\<close>

function rx_split :: "rx \<Rightarrow> rstr \<Rightarrow> rstr list" where
  "rx_split r [] = []"
| "rx_split r (c # cs) =
     (let n = (case rx_first r (c # cs) of Some n \<Rightarrow> if n = 0 then 1 else n | None \<Rightarrow> 1)
      in take n (c # cs) # rx_split r (drop n (c # cs)))"
  by pat_completeness auto
termination rx_split
  by (relation "measure (\<lambda>(r, cs). length cs)") (auto split: option.splits)

text \<open>
  The documented expression, with letters and digits as the parameters say:
  \<open>(?i:'s|'t|'re|'ve|'m|'ll|'d)|[^\r\n\p{L}\p{N}]?\p{L}+|\p{N}| ?[^\s\p{L}\p{N}]+[\r\n]*|\s*[\r\n]+|\s+(?!\S)|\s+\<close>,
  where the first group ignores the case of ASCII letters.
\<close>

definition rx_letter :: "char \<Rightarrow> rx" where
  "rx_letter ch = Class (\<lambda>c. ascii_lower c = of_char ch)"

definition rx_contractions :: rx where
  "rx_contractions =
     Seq (Class (\<lambda>c. c = 39))
       (Alt (rx_letter CHR ''s'') (Alt (rx_letter CHR ''t'')
       (Alt (Seq (rx_letter CHR ''r'') (rx_letter CHR ''e'')) (Alt (Seq (rx_letter CHR ''v'') (rx_letter CHR ''e''))
       (Alt (rx_letter CHR ''m'') (Alt (Seq (rx_letter CHR ''l'') (rx_letter CHR ''l'')) (rx_letter CHR ''d'')))))))"

definition rx_word :: "(nat \<Rightarrow> bool) \<Rightarrow> (nat \<Rightarrow> bool) \<Rightarrow> rx" where
  "rx_word alpha num = Seq (Opt (Class (\<lambda>c. \<not> is_crlf c \<and> \<not> alpha c \<and> \<not> num c))) (Many1 alpha)"

definition rx_punct :: "(nat \<Rightarrow> bool) \<Rightarrow> (nat \<Rightarrow> bool) \<Rightarrow> rx" where
  "rx_punct alpha num =
     Seq (Opt (Class (\<lambda>c. c = 32))) (Seq (Many1 (\<lambda>c. \<not> is_ws c \<and> \<not> alpha c \<and> \<not> num c)) (Many is_crlf))"

definition gpt2_rx :: "(nat \<Rightarrow> bool) \<Rightarrow> (nat \<Rightarrow> bool) \<Rightarrow> rx" where
  "gpt2_rx alpha num =
     Alt rx_contractions (Alt (rx_word alpha num) (Alt (Class num) (Alt (rx_punct alpha num)
       (Alt (Seq (Many is_ws) (Many1 is_crlf)) (Alt (Seq (Many1 is_ws) (NotNext (\<lambda>c. \<not> is_ws c))) (Many1 is_ws))))))"

lemma rx_first_Alt: "rx_first (Alt r1 r2) s = (case rx_first r1 s of Some n \<Rightarrow> Some n | None \<Rightarrow> rx_first r2 s)"
  by (auto simp: rx_first_def split: list.splits)

lemma rx_first_Class: "rx_first (Class p) s = (if s \<noteq> [] \<and> p (hd s) then Some 1 else None)"
  by (simp add: rx_first_def)

lemma rx_first_Many: "rx_first (Many p) s = Some (length (takeWhile p s))"
  by (simp add: rx_first_def)

lemma rx_first_Many1: "rx_first (Many1 p) s = (if s \<noteq> [] \<and> p (hd s) then Some (length (takeWhile p s)) else None)"
  by (cases s) (auto simp: rx_first_def)

text \<open>The first match of a sequence, by the tries of its first part.\<close>

lemma rx_first_Seq:
  "rx_first (Seq r1 r2) s =
     (case filter (\<lambda>n. rx_first r2 (drop n s) \<noteq> None) (rx_matches r1 s) of
        [] \<Rightarrow> None | n # _ \<Rightarrow> Some (n + the (rx_first r2 (drop n s))))"
proof -
  have "(case concat (map (\<lambda>n. map ((+) n) (rx_matches r2 (drop n s))) ns) of [] \<Rightarrow> None | n # _ \<Rightarrow> Some n) =
     (case filter (\<lambda>n. rx_first r2 (drop n s) \<noteq> None) ns of
        [] \<Rightarrow> None | n # _ \<Rightarrow> Some (n + the (rx_first r2 (drop n s))))" for ns
  proof (induction ns)
    case (Cons n ns)
    then show ?case by (cases "rx_matches r2 (drop n s)") (simp_all add: rx_first_def)
  qed simp
  then show ?thesis by (simp add: rx_first_def [of "Seq r1 r2"])
qed

lemma rx_first_Seq_Class: "rx_first (Seq (Class p) r) s =
    (if s \<noteq> [] \<and> p (hd s) then map_option Suc (rx_first r (tl s)) else None)"
  by (cases s) (auto simp: rx_first_Seq)

lemma rx_first_letter: "rx_first (rx_letter ch) cs = (if cs \<noteq> [] \<and> ascii_lower (hd cs) = of_char ch then Some 1 else None)"
  by (simp add: rx_letter_def rx_first_Class)

lemma rx_first_Seq_letter:
  "rx_first (Seq (rx_letter ch) r) cs =
     (if cs \<noteq> [] \<and> ascii_lower (hd cs) = of_char ch then map_option Suc (rx_first r (tl cs)) else None)"
  unfolding rx_letter_def by (rule rx_first_Seq_Class)

lemma match_suffix_1: "match_suffix [e] cs \<longleftrightarrow> cs \<noteq> [] \<and> ascii_lower (hd cs) = ascii_lower e"
  by (cases cs) simp_all

lemma match_suffix_2:
  "match_suffix [e, f] cs \<longleftrightarrow> cs \<noteq> [] \<and> ascii_lower (hd cs) = ascii_lower e \<and> tl cs \<noteq> [] \<and> ascii_lower (hd (tl cs)) = ascii_lower f"
  by (cases cs; cases "tl cs") simp_all

lemma rx_first_contractions:
  "rx_first rx_contractions (ch # cs) = (if ch = 39 then map_option Suc (match_contraction cs) else None)"
proof -
  have "rx_first rx_contractions (ch # cs) = (if ch = 39 then map_option Suc
      (if cs \<noteq> [] \<and> ascii_lower (hd cs) = 115 then Some 1
       else if cs \<noteq> [] \<and> ascii_lower (hd cs) = 116 then Some 1
       else if cs \<noteq> [] \<and> ascii_lower (hd cs) = 114 \<and> tl cs \<noteq> [] \<and> ascii_lower (hd (tl cs)) = 101 then Some 2
       else if cs \<noteq> [] \<and> ascii_lower (hd cs) = 118 \<and> tl cs \<noteq> [] \<and> ascii_lower (hd (tl cs)) = 101 then Some 2
       else if cs \<noteq> [] \<and> ascii_lower (hd cs) = 109 then Some 1
       else if cs \<noteq> [] \<and> ascii_lower (hd cs) = 108 \<and> tl cs \<noteq> [] \<and> ascii_lower (hd (tl cs)) = 108 then Some 2
       else if cs \<noteq> [] \<and> ascii_lower (hd cs) = 100 then Some 1 else None) else None)"
    by (simp add: rx_contractions_def rx_first_Seq_Class rx_first_Alt rx_first_letter rx_first_Seq_letter split: if_splits)
  also have "\<dots> = (if ch = 39 then map_option Suc (match_contraction cs) else None)"
    by (simp add: match_contraction_def contraction_suffixes_def lit_def match_suffix_1 match_suffix_2 ascii_lower_def [of 115]
        ascii_lower_def [of 116] ascii_lower_def [of 114] ascii_lower_def [of 101] ascii_lower_def [of 118] ascii_lower_def [of 109]
        ascii_lower_def [of 108] ascii_lower_def [of 100])
  finally show ?thesis .
qed

lemma rx_first_Seq_Opt:
  "rx_first (Seq (Opt (Class p)) r) s =
     (if s \<noteq> [] \<and> p (hd s) \<and> rx_first r (tl s) \<noteq> None then map_option Suc (rx_first r (tl s)) else rx_first r s)"
  by (cases s) (auto simp: rx_first_Seq)

lemma rx_first_word:
  "rx_first (rx_word alpha num) (ch # cs) =
     (if alpha ch then Some (1 + length (takeWhile alpha cs))
      else if ch \<noteq> 13 \<and> ch \<noteq> 10 \<and> \<not> num ch \<and> cs \<noteq> [] \<and> alpha (hd cs) then Some (2 + length (takeWhile alpha (tl cs)))
      else None)"
  by (cases cs) (auto simp: rx_word_def rx_first_Seq_Opt rx_first_Many1 is_crlf_def)

lemma crlf_ws: "is_crlf c \<Longrightarrow> is_ws c"
  by (auto simp: is_crlf_def is_ws_def)

lemma rx_first_punct_run:
  "rx_first (Seq (Many1 (is_punct_class alpha num)) (Many is_crlf)) s =
     (if s \<noteq> [] \<and> is_punct_class alpha num (hd s) then Some (punct_run alpha num s) else None)"
proof (cases "s \<noteq> [] \<and> is_punct_class alpha num (hd s)")
  case True
  then obtain n where "length (takeWhile (is_punct_class alpha num) s) = Suc n" by (cases s) auto
  then show ?thesis using True by (simp add: rx_first_Seq rx_first_Many punct_run_def)
next
  case False
  then have "takeWhile (is_punct_class alpha num) s = []" by (cases s) auto
  then show ?thesis using False by (simp add: rx_first_Seq)
qed

lemma rx_first_punct:
  "rx_first (rx_punct alpha num) (ch # cs) =
     (if ch = 32 \<and> cs \<noteq> [] \<and> is_punct_class alpha num (hd cs) then Some (1 + punct_run alpha num cs)
      else if is_punct_class alpha num ch then Some (punct_run alpha num (ch # cs)) else None)"
proof -
  have "rx_punct alpha num = Seq (Opt (Class (\<lambda>c. c = 32))) (Seq (Many1 (is_punct_class alpha num)) (Many is_crlf))"
    by (simp add: rx_punct_def is_punct_class_def [abs_def])
  then show ?thesis by (simp add: rx_first_Seq_Opt rx_first_punct_run)
qed

lemma last_newline_Nil: "last_newline [] = None"
  and last_newline_snoc: "last_newline (w @ [c]) = (if is_crlf c then Some (length w) else last_newline w)"
  by (simp_all add: last_newline_def)

lemma last_newline_Some:
  "last_newline w = Some n \<Longrightarrow> n < length w \<and> is_crlf (w ! n) \<and> (\<forall>j. n < j \<longrightarrow> j < length w \<longrightarrow> \<not> is_crlf (w ! j))"
proof (induction w arbitrary: n rule: rev_induct)
  case (snoc c w)
  then show ?case by (auto simp: last_newline_snoc nth_append less_Suc_eq split: if_splits)
qed (simp add: last_newline_Nil)

lemma last_newline_tries:
  "(case filter (\<lambda>n. is_crlf (w ! n)) (rev [0..<length w]) of [] \<Rightarrow> None | n # _ \<Rightarrow> Some n) = last_newline w"
proof (induction w rule: rev_induct)
  case (snoc c w)
  have "filter (\<lambda>n. is_crlf ((w @ [c]) ! n)) (rev [0..<length w]) = filter (\<lambda>n. is_crlf (w ! n)) (rev [0..<length w])"
    by (rule filter_cong) (auto simp: nth_append)
  then show ?case using snoc by (simp add: last_newline_snoc)
qed (simp add: last_newline_Nil)

lemma rx_first_newline:
  "rx_first (Seq (Many is_ws) (Many1 is_crlf)) s = map_option Suc (last_newline (takeWhile is_ws s))"
proof -
  define w where "w = takeWhile is_ws s"
  have s: "s = w @ dropWhile is_ws s" by (simp add: w_def)
  have out: "\<not> is_crlf c" if "dropWhile is_ws s = c # cs" for c cs
    using that crlf_ws by (metis hd_dropWhile list.sel(1) list.distinct(1))
  define P where "P n \<longleftrightarrow> rx_first (Many1 is_crlf) (drop n s) \<noteq> None" for n
  have hit: "P n \<longleftrightarrow> n < length w \<and> is_crlf (w ! n)" if "n \<le> length w" for n
  proof (cases "n < length w")
    case True
    then have "drop n s = w ! n # drop (Suc n) w @ dropWhile is_ws s" by (subst s) (simp add: Cons_nth_drop_Suc [symmetric])
    then show ?thesis using True by (simp add: P_def rx_first_Many1)
  next
    case False
    then have "drop n s = dropWhile is_ws s" using that by (subst s) simp
    then show ?thesis using False out by (cases "dropWhile is_ws s") (auto simp: P_def rx_first_Many1)
  qed
  have "filter P (rev [0..<length w]) = filter (\<lambda>n. is_crlf (w ! n)) (rev [0..<length w])"
    by (rule filter_cong) (auto simp: hit)
  then have "filter P (rx_matches (Many is_ws) s) = filter (\<lambda>n. is_crlf (w ! n)) (rev [0..<length w])"
    using hit [of "length w"] by (simp add: w_def [symmetric])
  moreover have "the (rx_first (Many1 is_crlf) (drop n s)) = 1" if "last_newline w = Some n" for n
  proof -
    note n = last_newline_Some [OF that]
    have d: "drop n s = w ! n # drop (Suc n) w @ dropWhile is_ws s" using n by (subst s) (simp add: Cons_nth_drop_Suc [symmetric])
    have "takeWhile is_crlf (drop (Suc n) w @ dropWhile is_ws s) = []"
    proof (cases "drop (Suc n) w")
      case Nil
      moreover have "takeWhile is_crlf (dropWhile is_ws s) = []"
        using out by (cases "dropWhile is_ws s") (simp_all only: takeWhile.simps if_False)
      ultimately show ?thesis by simp
    next
      case (Cons c cs)
      then have "c = w ! Suc n" "Suc n < length w" by (metis nth_via_drop) (metis Cons drop_all list.distinct(1) linorder_not_less)
      then show ?thesis using n Cons by simp
    qed
    then show ?thesis using n d by (simp add: rx_first_Many1)
  qed
  ultimately show ?thesis
    using last_newline_tries [of w] unfolding rx_first_Seq w_def [symmetric] P_def [symmetric]
    by (cases "last_newline w") (auto split: list.splits)
qed

lemma rx_first_NotNext: "rx_first (NotNext p) s = (if s \<noteq> [] \<and> p (hd s) then None else Some 0)"
  by (simp add: rx_first_def)

lemma rx_first_spaces:
  assumes "s \<noteq> []" and "is_ws (hd s)" and k: "k = length (takeWhile is_ws s)"
  shows "rx_first (Alt (Seq (Many1 is_ws) (NotNext (\<lambda>c. \<not> is_ws c))) (Many1 is_ws)) s
    = Some (if k = length s then k else max (k - 1) 1)"
proof -
  have "0 < k" using assms by (cases s) auto
  then obtain j where j: "k = Suc j" by (cases k) auto
  have all: "rx_first (Many1 is_ws) s = Some k" using assms by (simp add: rx_first_Many1)
  have tries: "rx_matches (Many1 is_ws) s = k # rev [1..<k]" using j by (simp add: k [symmetric])
  show ?thesis
  proof (cases "k = length s")
    case True
    then show ?thesis by (simp only: rx_first_Alt rx_first_Seq tries) (simp add: rx_first_NotNext)
  next
    case False
    have "dropWhile is_ws s \<noteq> []" using False k takeWhile_dropWhile_id [of is_ws s] by (metis append_Nil2)
    then have out: "rx_first (NotNext (\<lambda>c. \<not> is_ws c)) (drop k s) = None"
      using hd_dropWhile [of is_ws s] by (simp add: rx_first_NotNext k dropWhile_eq_drop [symmetric])
    show ?thesis
    proof (cases "k = 1")
      case True
      then show ?thesis using False out all by (simp only: rx_first_Alt rx_first_Seq tries) simp
    next
      case k1: False
      then obtain i where i: "k = Suc (Suc i)" using j by (cases j) auto
      have "k - 1 < length (takeWhile is_ws s)" using i k by simp
      then have "is_ws (takeWhile is_ws s ! (k - 1))" "takeWhile is_ws s ! (k - 1) = s ! (k - 1)"
        using set_takeWhileD [OF nth_mem] by (blast, intro takeWhile_nth)
      moreover have "k - 1 < length s" using i k length_takeWhile_le [of is_ws s] by linarith
      ultimately have "is_ws (s ! (k - 1))" "k - 1 < length s" by simp_all
      then have "rx_first (NotNext (\<lambda>c. \<not> is_ws c)) (drop (k - 1) s) = Some 0"
        by (simp add: rx_first_NotNext hd_drop_conv_nth)
      then show ?thesis using False out i by (simp only: rx_first_Alt rx_first_Seq tries) simp
    qed
  qed
qed

lemma space_run_is_first_match:
  assumes "is_ws ch"
  shows "rx_first (Alt (Seq (Many is_ws) (Many1 is_crlf)) (Alt (Seq (Many1 is_ws) (NotNext (\<lambda>c. \<not> is_ws c))) (Many1 is_ws))) (ch # cs)
    = Some (space_run (ch # cs))"
  using rx_first_spaces [of "ch # cs", OF _ _ refl] assms
  by (simp only: rx_first_Alt [of "Seq (Many is_ws) (Many1 is_crlf)"] rx_first_newline space_run_def Let_def) (simp split: option.split)

lemma piece_length_is_first_match: "rx_first (gpt2_rx alpha num) (ch # cs) = Some (piece_length alpha num ch cs)"
proof -
  define spaces where "spaces = rx_first (Alt (Seq (Many is_ws) (Many1 is_crlf)) (Alt (Seq (Many1 is_ws) (NotNext (\<lambda>c. \<not> is_ws c))) (Many1 is_ws))) (ch # cs)"
  define wd where "wd \<longleftrightarrow> ch \<noteq> 13 \<and> ch \<noteq> 10 \<and> \<not> num ch \<and> cs \<noteq> [] \<and> alpha (hd cs)"
  have ws: "\<not> alpha ch \<Longrightarrow> \<not> num ch \<Longrightarrow> \<not> is_punct_class alpha num ch \<Longrightarrow> spaces = Some (space_run (ch # cs))"
    unfolding spaces_def by (rule space_run_is_first_match) (simp add: is_punct_class_def)
  have "is_punct_class alpha num ch \<Longrightarrow> ch \<noteq> 32" by (auto simp: is_punct_class_def)
  then have sp: "ch \<noteq> 32 \<and> is_punct_class alpha num ch \<longleftrightarrow> is_punct_class alpha num ch" by blast
  have r: "rx_first (gpt2_rx alpha num) (ch # cs) =
     (case if ch = 39 then match_contraction cs else None of
        Some n \<Rightarrow> Some (1 + n)
      | None \<Rightarrow>
          if alpha ch then Some (1 + length (takeWhile alpha cs))
          else if wd then Some (2 + length (takeWhile alpha (tl cs)))
          else if num ch then Some 1
          else if ch = 32 \<and> cs \<noteq> [] \<and> is_punct_class alpha num (hd cs) then Some (1 + punct_run alpha num cs)
          else if is_punct_class alpha num ch then Some (punct_run alpha num (ch # cs)) else spaces)"
    unfolding gpt2_rx_def
    by (simp only: rx_first_Alt [of rx_contractions] rx_first_Alt [of "rx_word alpha num"] rx_first_Alt [of "Class num"]
        rx_first_Alt [of "rx_punct alpha num"] spaces_def [symmetric] rx_first_contractions rx_first_word wd_def [symmetric]
        rx_first_punct rx_first_Class)
      (simp split: option.split)
  define sr where "sr = space_run (ch # cs)"
  show ?thesis
    using ws unfolding r piece_length_def wd_def [symmetric] sp sr_def [symmetric] by (auto split: option.split)
qed

lemma split_step:
  "xs = p # xs' \<Longrightarrow> ys = p # ys' \<Longrightarrow> p \<noteq> [] \<Longrightarrow> xs' = ys' \<and> concat xs' = d \<and> [] \<notin> set xs' \<Longrightarrow> p @ d = s
     \<Longrightarrow> xs = ys \<and> concat xs = s \<and> [] \<notin> set xs"
  by auto

lemma pretokenizer_pieces:
  "gpt2_style_pretokenize alpha num input = rx_split (gpt2_rx alpha num) input
    \<and> concat (gpt2_style_pretokenize alpha num input) = input \<and> [] \<notin> set (gpt2_style_pretokenize alpha num input)"
proof (induction alpha num input rule: gpt2_style_pretokenize.induct)
  case (2 alpha num ch cs)
  define n where "n = piece_length alpha num ch cs"
  have "0 < n" using piece_length_pos by (simp add: n_def)
  moreover from this have "(case rx_first (gpt2_rx alpha num) (ch # cs) of Some n \<Rightarrow> if n = 0 then 1 else n | None \<Rightarrow> 1) = n"
    by (simp add: piece_length_is_first_match n_def)
  ultimately have "gpt2_style_pretokenize alpha num (ch # cs) = take n (ch # cs) # gpt2_style_pretokenize alpha num (drop n (ch # cs))"
    "rx_split (gpt2_rx alpha num) (ch # cs) = take n (ch # cs) # rx_split (gpt2_rx alpha num) (drop n (ch # cs))"
    "take n (ch # cs) \<noteq> []" by (simp_all add: Let_def n_def [symmetric] del: drop_Cons')
  then show ?case by (rule split_step [OF _ _ _ 2 [OF n_def]]) (rule append_take_drop_id)
qed simp

lemma pretokenize_concat: "concat (gpt2_style_pretokenize alpha num input) = input"
  using pretokenizer_pieces by blast

text \<open>
  C31. The hand-written scanner of the pretokenizer is the documented regular expression: for any
  classes of letters and digits and any text, it cuts the text into exactly the pieces that a
  backtracking regex engine finds, and the pieces together are the text.
\<close>

theorem pretokenizer_is_regex:
  "gpt2_style_pretokenize alpha num input = rx_split (gpt2_rx alpha num) input
    \<and> concat (gpt2_style_pretokenize alpha num input) = input \<and> [] \<notin> set (gpt2_style_pretokenize alpha num input)"
  by (rule pretokenizer_pieces)

section \<open>Encoding and decoding\<close>

lemma bpe_step_deterministic: "bpe_step merge_rank s s1 \<Longrightarrow> bpe_step merge_rank s s2 \<Longrightarrow> s1 = s2"
proof (elim bpe_step.cases)
  fix symbols i rank symbols' i' rank'
  assume a: "s = symbols" "s1 = merge_at i symbols" "pair_rank merge_rank symbols i = Some rank"
    "\<And>j rank'. pair_rank merge_rank symbols j = Some rank' \<Longrightarrow> rank < rank' \<or> (rank = rank' \<and> i \<le> j)"
    and b: "s = symbols'" "s2 = merge_at i' symbols'" "pair_rank merge_rank symbols' i' = Some rank'"
    "\<And>j rank. pair_rank merge_rank symbols' j = Some rank \<Longrightarrow> rank' < rank \<or> (rank' = rank \<and> i' \<le> j)"
  have "i = i'" using a(4) [of i' rank'] b(4) [of i rank] a(1,3) b(1,3) by auto
  then show "s1 = s2" using a b by simp
qed

lemma normal_form_unique:
  "(bpe_step merge_rank)\<^sup>*\<^sup>* s s1 \<Longrightarrow> (bpe_step merge_rank)\<^sup>*\<^sup>* s s2 \<Longrightarrow> \<nexists>u. bpe_step merge_rank s1 u
     \<Longrightarrow> \<nexists>u. bpe_step merge_rank s2 u \<Longrightarrow> s1 = s2"
proof (induction s rule: converse_rtranclp_induct)
  case base
  then show ?case by (metis converse_rtranclpE)
next
  case (step s u)
  then have "(bpe_step merge_rank)\<^sup>*\<^sup>* u s2" by (metis converse_rtranclpE bpe_step_deterministic)
  then show ?case using step by blast
qed

text \<open>
  C30. The merge loop computes byte pair encoding: its result is the one sequence of symbols that
  successive merges of the least ranked, leftmost pair lead to and in which no pair can be merged;
  and the symbols only regroup the text.
\<close>

theorem merge_loop_is_bpe:
  "(merge_loop merge_rank symbols = result
     \<longleftrightarrow> (bpe_step merge_rank)\<^sup>*\<^sup>* symbols result \<and> (\<nexists>s. bpe_step merge_rank result s))
   \<and> concat (merge_loop merge_rank symbols) = concat symbols"
  using merge_loop_normal_form [of merge_rank symbols] normal_form_unique [of merge_rank symbols "merge_loop merge_rank symbols" result]
  by (auto simp: concat_merge_loop)

lemma table_lookup:
  assumes "from_admitted_tables tokens merges = Inr t"
  shows "bt_token_to_id t s = Some i \<Longrightarrow> i < length tokens \<and> tokens ! i = s"
    and "s \<in> set tokens \<Longrightarrow> \<exists>i. bt_token_to_id t s = Some i"
    and "bt_merge_rank t m = Some r \<Longrightarrow> m \<in> set merges"
    and "bt_id_to_token t = map Some tokens"
proof -
  have t: "bt_token_to_id t = map_of (rev (zip tokens [0..<length tokens]))" "bt_merge_rank t = build_merge_rank merges"
    "bt_id_to_token t = map Some tokens"
    using assms by (auto simp: from_admitted_tables_def build_token_to_id_def split: if_splits)
  show "i < length tokens \<and> tokens ! i = s" if "bt_token_to_id t s = Some i"
    using that by (auto simp: t in_set_zip dest!: map_of_SomeD)
  show "\<exists>i. bt_token_to_id t s = Some i" if "s \<in> set tokens"
  proof -
    have "s \<in> fst ` set (rev (zip tokens [0..<length tokens]))" using that by (simp add: set_map [symmetric] del: set_map)
    then show ?thesis unfolding t by (metis map_of_eq_None_iff option.exhaust)
  qed
  show "m \<in> set merges" if "bt_merge_rank t m = Some r"
    using that by (auto simp: t build_merge_rank_def dest!: map_of_SomeD set_zip_leftD)
  show "bt_id_to_token t = map Some tokens" by (rule t)
qed

lemma decode_bytes_append:
  "decode_bytes t skip a = Inr x \<Longrightarrow> decode_bytes t skip b = Inr y \<Longrightarrow> decode_bytes t skip (a @ b) = Inr (x @ y)"
  by (induction a arbitrary: x) (auto split: option.splits if_splits)

lemma lookup_symbols_decode:
  assumes "from_admitted_tables tokens merges = Inr t" and "set symbols \<subseteq> set tokens"
  shows "\<exists>ids. lookup_symbols (bt_token_to_id t) symbols = Inr ids
    \<and> decode_bytes t (\<lambda>_. False) ids = Inr (token_to_bytes (concat symbols))"
  using assms(2)
proof (induction symbols)
  case Nil
  then show ?case by (simp add: token_to_bytes_def)
next
  case (Cons s symbols)
  then obtain i ids where "bt_token_to_id t s = Some i" "lookup_symbols (bt_token_to_id t) symbols = Inr ids"
    "decode_bytes t (\<lambda>_. False) ids = Inr (token_to_bytes (concat symbols))"
    using table_lookup(2) [OF assms(1), of s] by auto
  then show ?case using table_lookup(1,4) [OF assms(1)] by auto
qed

text \<open>The symbols of the merge loop stay in a vocabulary that holds the result of every merge.\<close>

lemma merge_loop_closed:
  assumes "\<And>a b r. merge_rank (a @ sp @ b) = Some r \<Longrightarrow> a @ b \<in> V" and "set symbols \<subseteq> V"
  shows "set (merge_loop merge_rank symbols) \<subseteq> V"
proof -
  have "set s' \<subseteq> V" if "(bpe_step merge_rank)\<^sup>*\<^sup>* symbols s'" for s'
    using that
  proof (induction rule: rtranclp_induct)
    case base
    then show ?case by (rule assms(2))
  next
    case (step u v)
    from step(2) obtain i rank where i: "v = merge_at i u" "pair_rank merge_rank u i = Some rank" by (auto elim: bpe_step.cases)
    then have "u ! i @ u ! (i + 1) \<in> V" using assms(1) by (simp add: pair_rank_def split: if_splits)
    moreover have "set (take i u) \<subseteq> V" "set (drop (i + 2) u) \<subseteq> V"
      using step(3) set_take_subset [of i u] set_drop_subset [of "i + 2" u] by auto
    ultimately show ?case by (simp add: i merge_at_def)
  qed
  then show ?thesis using merge_loop_normal_form by blast
qed

text \<open>
  Tables that can spell every text: each byte has a token, each merge yields a token, and the special
  tokens are printable ASCII.
\<close>

definition spelling_tables :: "rstr list \<Rightarrow> rstr list \<Rightarrow> bool" where
  "spelling_tables tokens merges \<longleftrightarrow>
     (\<forall>b < 256. [unicode_char_from_byte b] \<in> set tokens)
     \<and> (\<forall>a b. a @ sp @ b \<in> set merges \<longrightarrow> a @ b \<in> set tokens)
     \<and> (\<forall>token \<in> set tokens. prefix (lit ''<|'') token \<longrightarrow> (\<forall>c \<in> set token. 33 \<le> c \<and> c \<le> 126))"

lemma piece_roundtrip:
  assumes t: "from_admitted_tables tokens merges = Inr t" and sp: "spelling_tables tokens merges"
    and scalar: "\<forall>c \<in> set piece. is_scalar c"
  shows "\<exists>ids. encode_byte_level_piece t piece = Inr ids \<and> decode_bytes t (\<lambda>_. False) ids = Inr (utf8 piece)"
proof -
  define cs where "cs = bytes_to_unicode (utf8 piece)"
  have bytes: "\<forall>b \<in> set (utf8 piece). b < 256" using utf8_bytes [OF scalar] .
  then have "set (map (\<lambda>ch. [ch]) cs) \<subseteq> set tokens" using sp by (auto simp: cs_def bytes_to_unicode_def spelling_tables_def)
  then have "set (merge_loop (bt_merge_rank t) (map (\<lambda>ch. [ch]) cs)) \<subseteq> set tokens"
    using sp table_lookup(3) [OF t] by (intro merge_loop_closed) (auto simp: spelling_tables_def)
  from lookup_symbols_decode [OF t this] obtain ids where
    "lookup_symbols (bt_token_to_id t) (merge_loop (bt_merge_rank t) (map (\<lambda>ch. [ch]) cs)) = Inr ids"
    "decode_bytes t (\<lambda>_. False) ids = Inr (token_to_bytes cs)" by (auto simp: concat_merge_loop concat_map_singleton)
  then show ?thesis
    using token_to_bytes_unicode [OF bytes]
    by (cases "cs = []") (auto simp: encode_byte_level_piece_def bpe_encode_piece_def cs_def bytes_to_unicode_def)
qed

lemma pieces_roundtrip:
  assumes t: "from_admitted_tables tokens merges = Inr t" and sp: "spelling_tables tokens merges"
    and "\<forall>piece \<in> set pieces. \<forall>c \<in> set piece. is_scalar c"
  shows "\<exists>ids. encode_pieces t pieces = Inr ids \<and> decode_bytes t (\<lambda>_. False) ids = Inr (utf8 (concat pieces))"
  using assms(3)
proof (induction pieces)
  case (Cons piece pieces)
  from Cons obtain rest where "encode_pieces t pieces = Inr rest" "decode_bytes t (\<lambda>_. False) rest = Inr (utf8 (concat pieces))" by auto
  moreover from piece_roundtrip [OF t sp, of piece] Cons(2) obtain ids where
    "encode_byte_level_piece t piece = Inr ids" "decode_bytes t (\<lambda>_. False) ids = Inr (utf8 piece)" by auto
  ultimately show ?case by (auto dest: decode_bytes_append)
qed simp

lemma chunk_roundtrip:
  assumes "from_admitted_tables tokens merges = Inr t" and "spelling_tables tokens merges" and "\<forall>c \<in> set chunk. is_scalar c"
  shows "\<exists>ids. encode_plain_text_chunk alpha num t chunk = Inr ids \<and> decode_bytes t (\<lambda>_. False) ids = Inr (utf8 chunk)"
proof -
  have split: "concat (gpt2_style_pretokenize alpha num chunk) = chunk" by (rule pretokenize_concat)
  then have "\<forall>piece \<in> set (gpt2_style_pretokenize alpha num chunk). \<forall>c \<in> set piece. is_scalar c"
    using assms(3) by (metis concat.simps(2) in_set_conv_decomp_first UnCI set_append concat_append)
  from pieces_roundtrip [OF assms(1,2) this] show ?thesis by (simp add: encode_plain_text_chunk_def split)
qed

lemma special_roundtrip:
  assumes t: "from_admitted_tables tokens merges = Inr t" and sp: "spelling_tables tokens merges"
    and m: "try_match_special_token rest (bt_token_to_id t) = Some (token_id, n)"
  shows "decode_bytes t (\<lambda>_. False) [token_id] = Inr (utf8 (take n rest))"
proof -
  from m have tk: "bt_token_to_id t (take n rest) = Some token_id" and p: "prefix (lit ''<|'') rest" and n: "2 \<le> n"
    by (auto simp: try_match_special_token_def split: if_splits option.splits)
  from p n have "prefix (lit ''<|'') (take n rest)" by (auto simp: prefix_def lit_def take_Cons')
  then have ascii: "\<forall>c \<in> set (take n rest). 33 \<le> c \<and> c \<le> 126"
    using sp table_lookup(1) [OF t tk] by (metis nth_mem spelling_tables_def)
  have "token_to_bytes s = utf8 s" if "\<forall>c \<in> set s. 33 \<le> c \<and> c \<le> 126" for s
    using that by (induction s) (auto simp: token_to_bytes_def byte_from_unicode_char_def printable_def utf8_char_def)
  with ascii table_lookup(1,4) [OF t] tk show ?thesis by auto
qed

text \<open>
  C29. On admitted tables that can spell every text (each byte and each merge has a token, and tokens
  that begin with \<open><|\<close> are printable ASCII, which admission does not check), encoding a prompt of
  Unicode scalar values always succeeds, and decoding the ids gives the text back, special tokens, any
  script and any whitespace included.
\<close>

theorem tokenizer_roundtrip:
  assumes "from_admitted_tables tokens merges = Inr t" and "spelling_tables tokens merges"
    and "\<forall>c \<in> set input. is_scalar c"
  shows "\<exists>ids. encode_prompt_text alpha num t input = Inr ids \<and> decode_token_ids t (\<lambda>_. False) ids = Inr input"
proof -
  have "\<exists>ids. encode_prompt_text alpha num t input = Inr ids \<and> decode_bytes t (\<lambda>_. False) ids = Inr (utf8 input)"
    using assms
  proof (induction alpha num t input rule: encode_prompt_text.induct)
    case (1 alpha num t rest)
    show ?case
    proof (cases "rest = []")
      case False
      show ?thesis
      proof (cases "try_match_special_token rest (bt_token_to_id t)")
        case None
        define n where "n = find_next_special_token_boundary rest (bt_token_to_id t)"
        have scalars: "\<forall>c \<in> set (take n rest). is_scalar c" "\<forall>c \<in> set (drop n rest). is_scalar c"
          using 1(5) by (auto dest: in_set_takeD in_set_dropD)
        from chunk_roundtrip [OF 1(3,4) scalars(1), of alpha num] 1(1) [OF False None n_def 1(3,4) scalars(2)]
        show ?thesis
          using None False by (subst encode_prompt_text.simps)
            (auto simp: Let_def n_def [symmetric] utf8_append [symmetric] simp del: utf8_append dest: decode_bytes_append)
      next
        case (Some p)
        then obtain token_id n where p: "try_match_special_token rest (bt_token_to_id t) = Some (token_id, n)" by (cases p) auto
        have "\<forall>c \<in> set (drop n rest). is_scalar c" using 1(5) by (auto dest: in_set_dropD)
        from 1(2) [OF False p refl 1(3,4) this] special_roundtrip [OF 1(3,4) p]
        show ?thesis
          using p False by (subst encode_prompt_text.simps)
            (auto simp: utf8_append [symmetric] simp del: utf8_append decode_bytes.simps dest: decode_bytes_append [of t _ "[token_id]"])
      qed
    qed (simp add: encode_prompt_text.simps)
  qed
  then show ?thesis using from_utf8_lossy_utf8 [OF assms(3)] by (auto simp: decode_token_ids_def)
qed

definition sample_tokens :: "rstr list" where
  "sample_tokens = map (\<lambda>b. [unicode_char_from_byte b]) [0..<256] @ [lit ''he'', lit ''<|x|>'']"

lemma sample_tables: "spelling_tables sample_tokens [lit ''h e'']"
  by (auto simp: spelling_tables_def sample_tokens_def lit_def append_eq_Cons_conv)

lemma sample_admitted: "\<exists>t. from_admitted_tables sample_tokens [lit ''h e''] = Inr t"
  by (simp add: from_admitted_tables_def build_token_to_id_def sample_tokens_def)

theorem tokenizer_roundtrip_witness:
  "\<exists>t ids. from_admitted_tables sample_tokens [lit ''h e''] = Inr t \<and> spelling_tables sample_tokens [lit ''h e'']
     \<and> encode_prompt_text (\<lambda>c. 97 \<le> c \<and> c \<le> 122) (\<lambda>c. 48 \<le> c \<and> c \<le> 57) t (lit ''<|x|>he he'') = Inr ids
     \<and> decode_token_ids t (\<lambda>_. False) ids = Inr (lit ''<|x|>he he'')"
proof -
  obtain t where t: "from_admitted_tables sample_tokens [lit ''h e''] = Inr t" using sample_admitted by blast
  have "\<forall>c \<in> set (lit ''<|x|>he he''). is_scalar c" by (simp add: lit_def is_scalar_def)
  from tokenizer_roundtrip [OF t sample_tables this, of "\<lambda>c. 97 \<le> c \<and> c \<le> 122" "\<lambda>c. 48 \<le> c \<and> c \<le> 57"] t sample_tables
  show ?thesis by blast
qed

end
