(* ===== verification/Owner_Pool.thy ===== *)
theory Owner_Pool
  imports Asr_Prelude "HOL-Library.Multiset"
begin

text \<open>
  The process-wide pool of exclusively checked out runtimes
  (\<open>crates/openasr-core/src/models/admitted_exclusive_object_pool.rs\<close>). Every operation of the pool
  runs under one mutex, so threads interleave whole critical sections: each critical section is a
  function on the pool's state, and a run is a sequence of them. The hash map is a list of pairs with
  distinct keys. The parameters \<open>bytes\<close> and \<open>reusable\<close> are \<open>committed_requested_bytes\<close> and
  \<open>is_reusable\<close> of the owners, which are built elsewhere. Where the code has an \<open>expect\<close>, the result
  \<open>None\<close> is the panic. Waiting on the condition variable, receipts and the poisoned mutex of a
  panicked section are not modelled.
\<close>

section \<open>State\<close>

record pool_limits =
  pl_max_idle_entries :: nat
  pl_max_idle_bytes :: nat
  pl_max_instances :: nat

record 'o idle_owner =
  io_id :: nat
  io_owner :: 'o

record 'o pool_entry =
  pe_epoch :: nat
  pe_building :: bool
  pe_instances :: nat
  pe_idle :: "'o idle_owner list"

definition pool_entry_new :: "nat \<Rightarrow> 'o pool_entry" where
  "pool_entry_new epoch = \<lparr>pe_epoch = epoch, pe_building = False, pe_instances = 0, pe_idle = []\<rparr>"

record ('k, 'o) pool_state =
  ps_entries :: "('k \<times> 'o pool_entry) list"
  ps_idle_lru :: "('k \<times> nat) list"
  ps_idle_entries :: nat
  ps_idle_bytes :: nat
  ps_next_owner_id :: nat
  ps_global_epoch :: nat

definition pool_state_default :: "('k, 'o) pool_state" where
  "pool_state_default = \<lparr>ps_entries = [], ps_idle_lru = [], ps_idle_entries = 0, ps_idle_bytes = 0,
     ps_next_owner_id = 1, ps_global_epoch = 1\<rparr>"

text \<open>\<open>AdmittedExclusiveObjectPool::new\<close> asserts that a key has at least one permit.\<close>

definition pool_new :: "pool_limits \<Rightarrow> ('k, 'o) pool_state option" where
  "pool_new limits = (if 0 < pl_max_instances limits then Some pool_state_default else None)"

text \<open>\<open>get_mut\<close> and \<open>retain\<close> on the entries, and \<open>wrapping_add(1).max(1)\<close>.\<close>

definition update_entry :: "'k \<Rightarrow> ('v \<Rightarrow> 'v) \<Rightarrow> ('k \<times> 'v) list \<Rightarrow> ('k \<times> 'v) list" where
  "update_entry key f entries = map (\<lambda>(k, e). if k = key then (k, f e) else (k, e)) entries"

definition retain_live :: "('k, 'o) pool_state \<Rightarrow> ('k, 'o) pool_state" where
  "retain_live s = s\<lparr>ps_entries := filter (\<lambda>(k, e). 0 < pe_instances e \<or> pe_building e) (ps_entries s)\<rparr>"

definition next_nonzero :: "nat \<Rightarrow> nat" where
  "next_nonzero n = max (u64_add n 1) 1"

section \<open>Checking out\<close>

datatype 'o checkout_step =
    Reused 'o nat
  | MustWait
  | BuildSlot nat

definition checkout_section :: "('o \<Rightarrow> nat) \<Rightarrow> pool_limits \<Rightarrow> 'k \<Rightarrow> ('k, 'o) pool_state \<Rightarrow> 'o checkout_step \<times> ('k, 'o) pool_state" where
  "checkout_section bytes limits key s0 =
     (let s = (case map_of (ps_entries s0) key of
                 None \<Rightarrow> s0\<lparr>ps_entries := ps_entries s0 @ [(key, pool_entry_new (ps_global_epoch s0))]\<rparr>
               | Some _ \<Rightarrow> s0);
          entry = (case map_of (ps_entries s) key of Some e \<Rightarrow> e | None \<Rightarrow> pool_entry_new (ps_global_epoch s0))
      in if pe_idle entry \<noteq> []
         then let idle = last (pe_idle entry)
              in (Reused (io_owner idle) (pe_epoch entry),
                  s\<lparr>ps_entries := update_entry key (\<lambda>e. e\<lparr>pe_idle := butlast (pe_idle e)\<rparr>) (ps_entries s),
                    ps_idle_lru := filter (\<lambda>c. c \<noteq> (key, io_id idle)) (ps_idle_lru s),
                    ps_idle_entries := ps_idle_entries s - 1,
                    ps_idle_bytes := ps_idle_bytes s - bytes (io_owner idle)\<rparr>)
         else if pe_building entry then (MustWait, s)
         else if pl_max_instances limits \<le> pe_instances entry then (MustWait, s)
         else (BuildSlot (pe_epoch entry),
               s\<lparr>ps_entries := update_entry key (\<lambda>e. e\<lparr>pe_instances := pe_instances e + 1, pe_building := True\<rparr>) (ps_entries s)\<rparr>))"

section \<open>Making room\<close>

definition needs_room :: "pool_limits \<Rightarrow> nat \<Rightarrow> ('k, 'o) pool_state \<Rightarrow> bool" where
  "needs_room limits requested s \<longleftrightarrow>
     pl_max_idle_entries limits \<le> ps_idle_entries s
     \<or> u64_limit \<le> ps_idle_bytes s + requested \<or> pl_max_idle_bytes limits < ps_idle_bytes s + requested"

fun remove_id :: "nat \<Rightarrow> 'o idle_owner list \<Rightarrow> 'o idle_owner list" where
  "remove_id i [] = []"
| "remove_id i (x # xs) = (if io_id x = i then xs else x # remove_id i xs)"

definition take_victim :: "('o \<Rightarrow> nat) \<Rightarrow> 'k \<Rightarrow> nat \<Rightarrow> ('k, 'o) pool_state \<Rightarrow> 'o list \<times> ('k, 'o) pool_state" where
  "take_victim bytes victim_key victim_id s =
     (case map_of (ps_entries s) victim_key of
        None \<Rightarrow> ([], s)
      | Some entry \<Rightarrow>
          (case find (\<lambda>idle. io_id idle = victim_id) (pe_idle entry) of
             None \<Rightarrow> ([], s)
           | Some victim \<Rightarrow>
               ([io_owner victim],
                s\<lparr>ps_entries := update_entry victim_key
                      (\<lambda>e. e\<lparr>pe_idle := remove_id victim_id (pe_idle e), pe_instances := pe_instances e - 1\<rparr>) (ps_entries s),
                  ps_idle_entries := ps_idle_entries s - 1,
                  ps_idle_bytes := ps_idle_bytes s - bytes (io_owner victim)\<rparr>)))"

lemma take_victim_lru [simp]: "ps_idle_lru (snd (take_victim bytes k i s)) = ps_idle_lru s"
  by (simp add: take_victim_def split: option.split)

text \<open>The loop that \<open>make_room_for\<close> and \<open>commit\<close> share: owners go in the order of the LRU list.\<close>

function evict_lru :: "('o \<Rightarrow> nat) \<Rightarrow> pool_limits \<Rightarrow> nat \<Rightarrow> ('k, 'o) pool_state \<Rightarrow> 'o list \<times> ('k, 'o) pool_state" where
  "evict_lru bytes limits requested s =
     (if needs_room limits requested s
      then (case ps_idle_lru s of
              [] \<Rightarrow> ([], s)
            | (k, i) # rest \<Rightarrow>
                let (victim, s1) = take_victim bytes k i (s\<lparr>ps_idle_lru := rest\<rparr>);
                    (victims, s2) = evict_lru bytes limits requested s1
                in (victim @ victims, s2))
      else ([], s))"
  by pat_completeness auto
termination evict_lru
proof (relation "measure (\<lambda>(bytes, limits, requested, s). length (ps_idle_lru s))", goal_cases)
  case (2 bytes limits requested s p rest k i a victim s1)
  then have "ps_idle_lru s1 = rest" using take_victim_lru [of bytes k i "s\<lparr>ps_idle_lru := rest\<rparr>"] by (metis ext_inject pool_state.surjective pool_state.select_convs(2) pool_state.update_convs(2) snd_conv)
  with 2 show ?case by simp
qed simp

declare evict_lru.simps [simp del]

definition make_room_for :: "('o \<Rightarrow> nat) \<Rightarrow> pool_limits \<Rightarrow> nat \<Rightarrow> ('k, 'o) pool_state \<Rightarrow> 'o list \<times> ('k, 'o) pool_state" where
  "make_room_for bytes limits requested s =
     (if pl_max_idle_entries limits = 0 \<or> pl_max_idle_bytes limits < requested then ([], s)
      else let (victims, s1) = evict_lru bytes limits requested s in (victims, retain_live s1))"

section \<open>Finishing a build\<close>

definition release_failed_build :: "'k \<Rightarrow> ('k, 'o) pool_state \<Rightarrow> ('k, 'o) pool_state" where
  "release_failed_build key s =
     retain_live (s\<lparr>ps_entries := update_entry key (\<lambda>e. e\<lparr>pe_instances := pe_instances e - 1, pe_building := False\<rparr>) (ps_entries s)\<rparr>)"

definition epoch_attached :: "'k \<Rightarrow> nat \<Rightarrow> ('k, 'o) pool_state \<Rightarrow> bool" where
  "epoch_attached key epoch s = (case map_of (ps_entries s) key of None \<Rightarrow> False | Some e \<Rightarrow> pe_epoch e = epoch)"

text \<open>The section after the build: \<open>None\<close> is a build that failed or panicked, else the quote and the owner.\<close>

definition finish_build :: "('o \<Rightarrow> nat) \<Rightarrow> pool_limits \<Rightarrow> 'k \<Rightarrow> nat \<Rightarrow> (nat \<times> 'o) option \<Rightarrow> ('k, 'o) pool_state \<Rightarrow> bool option \<times> ('k, 'o) pool_state" where
  "finish_build bytes limits key build_epoch built s =
     (let s1 = s\<lparr>ps_entries := update_entry key (\<lambda>e. e\<lparr>pe_building := False\<rparr>) (ps_entries s)\<rparr>
      in case built of
           Some (quoted, owner) \<Rightarrow>
             (Some (epoch_attached key build_epoch s1 \<and> 0 < pl_max_idle_entries limits
                \<and> quoted \<le> pl_max_idle_bytes limits \<and> bytes owner \<le> pl_max_idle_bytes limits), s1)
         | None \<Rightarrow> (None, release_failed_build key s1))"

section \<open>Returning\<close>

text \<open>\<open>PendingReturn::commit\<close>; the first component says whether the owner went back into the pool.\<close>

definition return_commit ::
  "('o \<Rightarrow> nat) \<Rightarrow> ('o \<Rightarrow> bool) \<Rightarrow> pool_limits \<Rightarrow> 'k \<Rightarrow> nat \<Rightarrow> bool \<Rightarrow> 'o \<Rightarrow> ('k, 'o) pool_state
     \<Rightarrow> (bool \<times> 'o list \<times> ('k, 'o) pool_state) option" where
  "return_commit bytes reusable limits key epoch cacheable owner s =
     (if epoch_attached key epoch s \<and> cacheable \<and> reusable owner \<and> 0 < pl_max_idle_entries limits
          \<and> bytes owner \<le> pl_max_idle_bytes limits
      then let (victims, s1) = evict_lru bytes limits (bytes owner) s;
               i = ps_next_owner_id s1
           in if u64_limit \<le> ps_idle_bytes s1 + bytes owner then None
              else Some (True, victims, retain_live (s1\<lparr>
                     ps_next_owner_id := next_nonzero i,
                     ps_entries := update_entry key (\<lambda>e. e\<lparr>pe_idle := pe_idle e @ [\<lparr>io_id = i, io_owner = owner\<rparr>]\<rparr>) (ps_entries s1),
                     ps_idle_lru := ps_idle_lru s1 @ [(key, i)],
                     ps_idle_entries := ps_idle_entries s1 + 1,
                     ps_idle_bytes := ps_idle_bytes s1 + bytes owner\<rparr>))
      else Some (False, [owner],
             retain_live (s\<lparr>ps_entries := update_entry key (\<lambda>e. e\<lparr>pe_instances := pe_instances e - 1\<rparr>) (ps_entries s)\<rparr>)))"

text \<open>\<open>PendingReturn::drop\<close> before a commit: the attempt that held the owner was rolled back.\<close>

definition return_dropped :: "'k \<Rightarrow> ('k, 'o) pool_state \<Rightarrow> ('k, 'o) pool_state" where
  "return_dropped key s =
     retain_live (s\<lparr>ps_entries := update_entry key (\<lambda>e. e\<lparr>pe_instances := pe_instances e - 1\<rparr>) (ps_entries s)\<rparr>)"

section \<open>Invalidation\<close>

definition entry_owners :: "'o pool_entry \<Rightarrow> 'o list" where
  "entry_owners e = map io_owner (pe_idle e)"

definition pool_clear :: "('k, 'o) pool_state \<Rightarrow> 'o list \<times> ('k, 'o) pool_state" where
  "pool_clear s =
     (let epoch = next_nonzero (ps_global_epoch s)
      in (concat (map (\<lambda>(k, e). entry_owners e) (ps_entries s)),
          (retain_live (s\<lparr>ps_entries := map (\<lambda>(k, e). (k, e\<lparr>pe_epoch := epoch,
             pe_instances := pe_instances e - length (pe_idle e), pe_idle := []\<rparr>)) (ps_entries s)\<rparr>))
          \<lparr>ps_global_epoch := epoch, ps_idle_lru := [], ps_idle_entries := 0, ps_idle_bytes := 0\<rparr>))"

definition idle_bytes_total :: "('o \<Rightarrow> nat) \<Rightarrow> ('k \<times> 'o pool_entry) list \<Rightarrow> nat" where
  "idle_bytes_total bytes entries = sum_list (map (\<lambda>(k, e). sum_list (map bytes (entry_owners e))) entries)"

definition evict_where :: "('o \<Rightarrow> nat) \<Rightarrow> ('k \<Rightarrow> bool) \<Rightarrow> ('k, 'o) pool_state \<Rightarrow> ('o list \<times> ('k, 'o) pool_state) option" where
  "evict_where bytes predicate s =
     (let evicted = map (\<lambda>(k, e). if predicate k
            then (k, e\<lparr>pe_epoch := next_nonzero (pe_epoch e), pe_instances := pe_instances e - length (pe_idle e), pe_idle := []\<rparr>)
            else (k, e)) (ps_entries s);
          s1 = retain_live (s\<lparr>ps_entries := evicted\<rparr>)
      in if list_ex (\<lambda>(k, e). predicate k \<and> pe_instances e < length (pe_idle e)) (ps_entries s) then None
         else if u64_limit \<le> idle_bytes_total bytes (ps_entries s1) then None
         else Some (concat (map (\<lambda>(k, e). if predicate k then entry_owners e else []) (ps_entries s)),
                s1\<lparr>ps_idle_lru := filter (\<lambda>(k, i). \<not> (predicate k \<and> k \<in> set (map fst (ps_entries s)))) (ps_idle_lru s),
                   ps_idle_entries := sum_list (map (\<lambda>(k, e). length (pe_idle e)) (ps_entries s1)),
                   ps_idle_bytes := idle_bytes_total bytes (ps_entries s1)\<rparr>))"

section \<open>Threads and interleavings\<close>

text \<open>
  The pool together with what the threads hold: the owners that are checked out (key, epoch and
  \<open>cacheable\<close>) and the build slots. The last flag of each is for the statements only: the holder was
  invalidated by \<open>clear\<close> or by \<open>evict_where\<close> on its key since it was handed out.
\<close>

record ('k, 'o) pool_world =
  pw_pool :: "('k, 'o) pool_state"
  pw_active :: "('k \<times> nat \<times> bool \<times> bool) list"
  pw_builders :: "('k \<times> nat \<times> bool) list"

datatype ('k, 'o) pool_op =
    Checkout 'k
  | MakeRoom nat
  | FinishBuild nat "(nat \<times> 'o) option"
  | Return nat 'o
  | Discard nat
  | Clear
  | EvictWhere "'k \<Rightarrow> bool"

datatype 'o pool_out =
    HandedOut 'o
  | Waits
  | Builds
  | Built bool
  | BuildFailed
  | PutBack bool bool
  | Dropped "'o list"
  | NoSuchHolder
  | Panicked

definition remove_nth :: "nat \<Rightarrow> 'a list \<Rightarrow> 'a list" where
  "remove_nth i xs = take i xs @ drop (Suc i) xs"

definition mark_active :: "('k \<Rightarrow> bool) \<Rightarrow> ('k \<times> nat \<times> bool \<times> bool) list \<Rightarrow> ('k \<times> nat \<times> bool \<times> bool) list" where
  "mark_active predicate = map (\<lambda>(k, epoch, cacheable, stale). (k, epoch, cacheable, stale \<or> predicate k))"

definition mark_builders :: "('k \<Rightarrow> bool) \<Rightarrow> ('k \<times> nat \<times> bool) list \<Rightarrow> ('k \<times> nat \<times> bool) list" where
  "mark_builders predicate = map (\<lambda>(k, epoch, stale). (k, epoch, stale \<or> predicate k))"

fun pool_step ::
  "('o \<Rightarrow> nat) \<Rightarrow> ('o \<Rightarrow> bool) \<Rightarrow> pool_limits \<Rightarrow> ('k, 'o) pool_world \<Rightarrow> ('k, 'o) pool_op \<Rightarrow> 'o pool_out \<times> ('k, 'o) pool_world" where
  "pool_step bytes reusable limits w (Checkout key) =
     (case checkout_section bytes limits key (pw_pool w) of
        (Reused owner epoch, s) \<Rightarrow> (HandedOut owner, w\<lparr>pw_pool := s, pw_active := pw_active w @ [(key, epoch, True, False)]\<rparr>)
      | (MustWait, s) \<Rightarrow> (Waits, w\<lparr>pw_pool := s\<rparr>)
      | (BuildSlot epoch, s) \<Rightarrow> (Builds, w\<lparr>pw_pool := s, pw_builders := pw_builders w @ [(key, epoch, False)]\<rparr>))"
| "pool_step bytes reusable limits w (MakeRoom requested) =
     (case make_room_for bytes limits requested (pw_pool w) of (victims, s) \<Rightarrow> (Dropped victims, w\<lparr>pw_pool := s\<rparr>))"
| "pool_step bytes reusable limits w (FinishBuild i built) =
     (if i < length (pw_builders w)
      then (case pw_builders w ! i of (key, epoch, stale) \<Rightarrow>
              (case finish_build bytes limits key epoch built (pw_pool w) of
                 (Some cacheable, s) \<Rightarrow>
                   (Built cacheable, w\<lparr>pw_pool := s, pw_active := pw_active w @ [(key, epoch, cacheable, stale)],
                      pw_builders := remove_nth i (pw_builders w)\<rparr>)
               | (None, s) \<Rightarrow> (BuildFailed, w\<lparr>pw_pool := s, pw_builders := remove_nth i (pw_builders w)\<rparr>)))
      else (NoSuchHolder, w))"
| "pool_step bytes reusable limits w (Return i owner) =
     (if i < length (pw_active w)
      then (case pw_active w ! i of (key, epoch, cacheable, stale) \<Rightarrow>
              (case return_commit bytes reusable limits key epoch cacheable owner (pw_pool w) of
                 None \<Rightarrow> (Panicked, w)
               | Some (cached, victims, s) \<Rightarrow> (PutBack cached stale, w\<lparr>pw_pool := s, pw_active := remove_nth i (pw_active w)\<rparr>)))
      else (NoSuchHolder, w))"
| "pool_step bytes reusable limits w (Discard i) =
     (if i < length (pw_active w)
      then (Dropped [], w\<lparr>pw_pool := return_dropped (fst (pw_active w ! i)) (pw_pool w), pw_active := remove_nth i (pw_active w)\<rparr>)
      else (NoSuchHolder, w))"
| "pool_step bytes reusable limits w Clear =
     (case pool_clear (pw_pool w) of (victims, s) \<Rightarrow>
        (Dropped victims, w\<lparr>pw_pool := s, pw_active := mark_active (\<lambda>_. True) (pw_active w),
           pw_builders := mark_builders (\<lambda>_. True) (pw_builders w)\<rparr>))"
| "pool_step bytes reusable limits w (EvictWhere predicate) =
     (case evict_where bytes predicate (pw_pool w) of
        None \<Rightarrow> (Panicked, w)
      | Some (victims, s) \<Rightarrow>
          (Dropped victims, w\<lparr>pw_pool := s, pw_active := mark_active predicate (pw_active w),
             pw_builders := mark_builders predicate (pw_builders w)\<rparr>))"

definition pool_start :: "('k, 'o) pool_world" where
  "pool_start = \<lparr>pw_pool = pool_state_default, pw_active = [], pw_builders = []\<rparr>"

end
