(* ===== verification/Owner_Pool_Books.thy ===== *)
theory Owner_Pool_Books
  imports Owner_Pool
begin

text \<open>
  The books of the runtime pool: the exactness of its ledgers and permits as invariants, and that
  every critical section keeps them.
\<close>

section \<open>Invariants\<close>

text \<open>The idle owners with their keys.\<close>

definition idle_mset :: "('k \<times> 'o pool_entry) list \<Rightarrow> ('k \<times> 'o idle_owner) multiset" where
  "idle_mset entries = mset (concat (map (\<lambda>(k, e). map (Pair k) (pe_idle e)) entries))"

definition idle_ref :: "'k \<times> 'o idle_owner \<Rightarrow> 'k \<times> nat" where
  "idle_ref x = (fst x, io_id (snd x))"

text \<open>The ledgers of the idle owners are exact.\<close>

definition store_ok :: "('o \<Rightarrow> nat) \<Rightarrow> ('k, 'o) pool_state \<Rightarrow> bool" where
  "store_ok bytes s \<longleftrightarrow>
     distinct (map fst (ps_entries s))
     \<and> mset (ps_idle_lru s) = image_mset idle_ref (idle_mset (ps_entries s))
     \<and> distinct (map snd (ps_idle_lru s)) \<and> (\<forall>(k, i) \<in> set (ps_idle_lru s). i < ps_next_owner_id s)
     \<and> ps_idle_entries s = length (ps_idle_lru s)
     \<and> ps_idle_bytes s = (\<Sum>x \<in># idle_mset (ps_entries s). bytes (io_owner (snd x)))"

definition within_limits :: "pool_limits \<Rightarrow> ('k, 'o) pool_state \<Rightarrow> bool" where
  "within_limits limits s \<longleftrightarrow> ps_idle_entries s \<le> pl_max_idle_entries limits \<and> ps_idle_bytes s \<le> pl_max_idle_bytes limits"

text \<open>The permits of a key are what it has idle, checked out and under construction.\<close>

definition held_by :: "'k \<Rightarrow> ('k \<times> 'a) list \<Rightarrow> nat" where
  "held_by key xs = length (filter (\<lambda>x. fst x = key) xs)"

definition permit_at :: "pool_limits \<Rightarrow> nat \<Rightarrow> nat \<Rightarrow> 'o pool_entry option \<Rightarrow> bool" where
  "permit_at limits active builders entry =
     (case entry of
        None \<Rightarrow> active = 0 \<and> builders = 0
      | Some e \<Rightarrow> pe_instances e \<le> pl_max_instances limits
          \<and> pe_instances e = length (pe_idle e) + active + builders \<and> builders = of_bool (pe_building e))"

definition permits_ok :: "pool_limits \<Rightarrow> ('k \<times> 'a) list \<Rightarrow> ('k \<times> 'b) list \<Rightarrow> ('k, 'o) pool_state \<Rightarrow> bool" where
  "permits_ok limits active builders s \<longleftrightarrow>
     (\<forall>key. permit_at limits (held_by key active) (held_by key builders) (map_of (ps_entries s) key))"

definition live_entries :: "('k, 'o) pool_state \<Rightarrow> bool" where
  "live_entries s \<longleftrightarrow> (\<forall>(k, e) \<in> set (ps_entries s). 0 < pe_instances e)"

lemma keys_update_entry [simp]: "map fst (update_entry key f entries) = map fst entries"
  by (induction entries) (auto simp: update_entry_def)

lemma map_of_update_entry [simp]:
  "map_of (update_entry key f entries) k = (if k = key then map_option f (map_of entries k) else map_of entries k)"
  by (induction entries) (auto simp: update_entry_def)

lemma map_of_filter_distinct:
  "distinct (map fst xs) \<Longrightarrow> map_of (filter (\<lambda>(k, e). P e) xs) k = (case map_of xs k of None \<Rightarrow> None | Some e \<Rightarrow> if P e then Some e else None)"
proof (induction xs)
  case (Cons x xs)
  have "map_of xs (fst x) = None" using Cons(2) by (simp add: map_of_eq_None_iff)
  then show ?case using Cons by (cases x) auto
qed simp

lemma idle_mset_simps [simp]: "idle_mset [] = {#}" "idle_mset ((k, e) # entries) = image_mset (Pair k) (mset (pe_idle e)) + idle_mset entries"
  "idle_mset (xs @ ys) = idle_mset xs + idle_mset ys"
  by (simp_all add: idle_mset_def)

lemma update_entry_absent: "key \<notin> fst ` set entries \<Longrightarrow> update_entry key f entries = entries"
  by (induction entries) (auto simp: update_entry_def)

lemma idle_mset_update:
  assumes "distinct (map fst entries)" and "map_of entries key = Some e"
  shows "idle_mset (update_entry key f entries) + image_mset (Pair key) (mset (pe_idle e))
    = idle_mset entries + image_mset (Pair key) (mset (pe_idle (f e)))"
  using assms
proof (induction entries)
  case (Cons x entries)
  show ?case
  proof (cases "fst x = key")
    case True
    then have "update_entry key f entries = entries" using Cons(2) by (intro update_entry_absent) simp
    then show ?thesis using Cons True by (cases x) (auto simp: update_entry_def)
  next
    case False
    then have "idle_mset (update_entry key f entries) + image_mset (Pair key) (mset (pe_idle e))
      = idle_mset entries + image_mset (Pair key) (mset (pe_idle (f e)))" using Cons by (cases x) auto
    then show ?thesis using False by (cases x) (auto simp: update_entry_def)
  qed
qed simp

lemma idle_mset_update_same:
  assumes "distinct (map fst entries)" and "\<And>e. pe_idle (f e) = pe_idle e"
  shows "idle_mset (update_entry key f entries) = idle_mset entries"
proof (cases "map_of entries key")
  case None
  then show ?thesis by (simp add: update_entry_absent map_of_eq_None_iff)
next
  case (Some e)
  then show ?thesis using idle_mset_update [OF assms(1) Some, of f] assms(2) by simp
qed

lemma idle_mset_filter: "(\<And>k e. (k, e) \<in> set entries \<Longrightarrow> \<not> P (k, e) \<Longrightarrow> pe_idle e = []) \<Longrightarrow> idle_mset (filter P entries) = idle_mset entries"
proof (induction entries)
  case (Cons x entries)
  have "idle_mset (filter P entries) = idle_mset entries" by (rule Cons(1)) (use Cons(2) in auto)
  then show ?case using Cons(2) [of "fst x" "snd x"] by (cases x) auto
qed simp

lemma permit_at_simps [simp]:
  "permit_at limits a b None \<longleftrightarrow> a = 0 \<and> b = 0"
  "permit_at limits a b (Some e) \<longleftrightarrow> pe_instances e \<le> pl_max_instances limits
     \<and> pe_instances e = length (pe_idle e) + a + b \<and> b = of_bool (pe_building e)"
  by (simp_all add: permit_at_def)

text \<open>\<open>retain\<close> removes entries without permits only.\<close>

lemma retain_live_ok:
  assumes st: "store_ok bytes s" and pm: "permits_ok limits active builders s"
  shows "store_ok bytes (retain_live s)" and "permits_ok limits active builders (retain_live s)" and "live_entries (retain_live s)"
    and "idle_mset (ps_entries (retain_live s)) = idle_mset (ps_entries s)"
proof -
  have d: "distinct (map fst (ps_entries s))" using st by (simp add: store_ok_def)
  have e: "pe_instances e = length (pe_idle e) + held_by k active + held_by k builders \<and> held_by k builders = of_bool (pe_building e)"
    if "(k, e) \<in> set (ps_entries s)" for k e
    using pm map_of_is_SomeI [OF d that] by (metis permits_ok_def permit_at_simps(2))
  show idle: "idle_mset (ps_entries (retain_live s)) = idle_mset (ps_entries s)"
    unfolding retain_live_def using e by simp (intro idle_mset_filter, fastforce)
  then show "store_ok bytes (retain_live s)" using st by (simp add: store_ok_def retain_live_def distinct_map_filter)
  have "permit_at limits (held_by key active) (held_by key builders) (map_of (ps_entries (retain_live s)) key)" for key
    using pm [unfolded permits_ok_def, rule_format, of key] d
    by (cases "map_of (ps_entries s) key") (auto simp: retain_live_def map_of_filter_distinct)
  then show "permits_ok limits active builders (retain_live s)" by (simp add: permits_ok_def)
  show "live_entries (retain_live s)" using e by (fastforce simp: live_entries_def retain_live_def)
qed

section \<open>Owners leave and enter the store\<close>

lemma remove_id_mset:
  "find (\<lambda>x. io_id x = i) xs = Some v \<Longrightarrow> add_mset v (mset (remove_id i xs)) = mset xs \<and> io_id v = i"
  by (induction xs) (auto split: if_splits)

lemma find_id: "x \<in> set xs \<Longrightarrow> \<exists>v. find (\<lambda>y. io_id y = io_id x) xs = Some v"
  by (induction xs) auto

lemma store_remove:
  assumes st: "store_ok bytes s" and idle: "add_mset (k, v) (idle_mset entries') = idle_mset (ps_entries s)"
    and keys: "distinct (map fst entries')" and lru: "add_mset (k, io_id v) (mset lru') = mset (ps_idle_lru s)"
  shows "store_ok bytes (s\<lparr>ps_entries := entries', ps_idle_lru := lru', ps_idle_entries := ps_idle_entries s - 1,
    ps_idle_bytes := ps_idle_bytes s - bytes (io_owner v)\<rparr>)"
proof -
  have m: "mset (ps_idle_lru s) = image_mset idle_ref (idle_mset (ps_entries s))"
    and b: "ps_idle_bytes s = (\<Sum>x \<in># idle_mset (ps_entries s). bytes (io_owner (snd x)))"
    and d: "distinct (map snd (ps_idle_lru s))" "\<forall>(k, i) \<in> set (ps_idle_lru s). i < ps_next_owner_id s"
    and n: "ps_idle_entries s = length (ps_idle_lru s)" using st by (simp_all add: store_ok_def)
  have "add_mset (k, io_id v) (mset lru') = add_mset (k, io_id v) (image_mset idle_ref (idle_mset entries'))"
    using m lru by (simp add: idle [symmetric] idle_ref_def)
  then have "mset lru' = image_mset idle_ref (idle_mset entries')" by simp
  moreover have "set lru' \<subseteq> set (ps_idle_lru s)" by (metis lru mset_subset_eq_insertD set_mset_mset subset_mset.order_refl add_mset_add_single set_mset_mono mset_subset_eq_add_left)
  moreover have "length (ps_idle_lru s) = Suc (length lru')" by (metis lru size_mset size_add_mset)
  moreover have "distinct (map snd lru')"
  proof -
    have "add_mset (io_id v) (mset (map snd lru')) = mset (map snd (ps_idle_lru s))" unfolding mset_map lru [symmetric] by simp
    then show ?thesis using d(1) by (metis distinct.simps(2) mset.simps(2) mset_eq_imp_distinct_iff)
  qed
  moreover have "ps_idle_bytes s - bytes (io_owner v) = (\<Sum>x \<in># idle_mset entries'. bytes (io_owner (snd x)))"
    unfolding b idle [symmetric] by simp
  ultimately show ?thesis using d(2) n keys by (auto simp: store_ok_def)
qed

lemma idle_member:
  assumes "store_ok bytes s" and "(k, i) \<in> set (ps_idle_lru s)"
  shows "\<exists>e v. map_of (ps_entries s) k = Some e \<and> find (\<lambda>y. io_id y = i) (pe_idle e) = Some v"
proof -
  have "(k, i) \<in># image_mset idle_ref (idle_mset (ps_entries s))" using assms by (metis store_ok_def set_mset_mset)
  then obtain x where "(k, x) \<in># idle_mset (ps_entries s)" "io_id x = i" by (auto simp: idle_ref_def)
  then obtain e where e: "(k, e) \<in> set (ps_entries s)" "x \<in> set (pe_idle e)" "io_id x = i" by (auto simp: idle_mset_def)
  then have "map_of (ps_entries s) k = Some e" using assms(1) by (intro map_of_is_SomeI) (simp_all add: store_ok_def)
  then show ?thesis using find_id [OF e(2)] e(3) by blast
qed

lemma permits_update:
  assumes "permits_ok limits active builders s"
    and "permit_at limits (held_by key active') (held_by key builders') (map_option f (map_of (ps_entries s) key))"
    and "\<And>k. k \<noteq> key \<Longrightarrow> held_by k active' = held_by k active \<and> held_by k builders' = held_by k builders"
    and "ps_entries s' = update_entry key f (ps_entries s)"
  shows "permits_ok limits active' builders' s'"
  using assms by (simp add: permits_ok_def)

lemma take_victim_ok:
  assumes st: "store_ok bytes s" and pm: "permits_ok limits active builders s" and lru: "ps_idle_lru s = (k, i) # rest"
  obtains v s' where "take_victim bytes k i (s\<lparr>ps_idle_lru := rest\<rparr>) = ([io_owner v], s')"
    and "store_ok bytes s'" and "permits_ok limits active builders s'"
    and "add_mset (k, v) (idle_mset (ps_entries s')) = idle_mset (ps_entries s)"
proof -
  obtain e v where e: "map_of (ps_entries s) k = Some e" and v: "find (\<lambda>y. io_id y = i) (pe_idle e) = Some v"
    using idle_member [OF st, of k i] lru by auto
  define f where "f = (\<lambda>e :: 'a pool_entry. e\<lparr>pe_idle := remove_id i (pe_idle e), pe_instances := pe_instances e - 1\<rparr>)"
  define s' where "s' = s\<lparr>ps_entries := update_entry k f (ps_entries s), ps_idle_lru := rest,
    ps_idle_entries := ps_idle_entries s - 1, ps_idle_bytes := ps_idle_bytes s - bytes (io_owner v)\<rparr>"
  note r = remove_id_mset [OF v]
  have d: "distinct (map fst (ps_entries s))" using st by (simp add: store_ok_def)
  have idle: "add_mset (k, v) (idle_mset (update_entry k f (ps_entries s))) = idle_mset (ps_entries s)"
    using idle_mset_update [OF d e, of f] by (simp add: f_def r [THEN conjunct1, symmetric] ac_simps)
  have "take_victim bytes k i (s\<lparr>ps_idle_lru := rest\<rparr>) = ([io_owner v], s')"
    by (simp add: take_victim_def e v s'_def f_def)
  moreover have "store_ok bytes s'"
    unfolding s'_def using st idle d r lru by (intro store_remove) simp_all
  moreover have "permits_ok limits active builders s'"
  proof (rule permits_update [OF pm])
    have "length (pe_idle e) = Suc (length (remove_id i (pe_idle e)))" by (metis r size_mset size_add_mset)
    then show "permit_at limits (held_by k active) (held_by k builders) (map_option f (map_of (ps_entries s) k))"
      using pm [unfolded permits_ok_def, rule_format, of k] e by (simp add: f_def)
  qed (simp_all add: s'_def)
  ultimately show ?thesis using that idle by (simp add: s'_def)
qed

lemma take_victim_epochs:
  "map_option pe_epoch (map_of (ps_entries (snd (take_victim bytes k i s))) key) = map_option pe_epoch (map_of (ps_entries s) key)"
  "ps_next_owner_id (snd (take_victim bytes k i s)) = ps_next_owner_id s"
  "ps_global_epoch (snd (take_victim bytes k i s)) = ps_global_epoch s"
  by (auto simp: take_victim_def option.map_comp comp_def split: option.split)

text \<open>What the eviction loop leaves: enough room, unless even the empty store has none.\<close>

lemma evict_lru_ok:
  assumes "evict_lru bytes limits requested s = (victims, s')" and "store_ok bytes s" and "permits_ok limits active builders s"
  shows "store_ok bytes s' \<and> permits_ok limits active builders s'
    \<and> image_mset (io_owner \<circ> snd) (idle_mset (ps_entries s)) = image_mset (io_owner \<circ> snd) (idle_mset (ps_entries s')) + mset victims
    \<and> (0 < pl_max_idle_entries limits \<longrightarrow> requested \<le> pl_max_idle_bytes limits \<longrightarrow> pl_max_idle_bytes limits < u64_limit
         \<longrightarrow> \<not> needs_room limits requested s')
    \<and> map_option pe_epoch (map_of (ps_entries s') key) = map_option pe_epoch (map_of (ps_entries s) key)
    \<and> ps_next_owner_id s' = ps_next_owner_id s \<and> ps_global_epoch s' = ps_global_epoch s
    \<and> ps_idle_entries s' \<le> ps_idle_entries s \<and> ps_idle_bytes s' \<le> ps_idle_bytes s"
  using assms
proof (induction bytes limits requested s arbitrary: victims s' rule: evict_lru.induct)
  case (1 bytes limits requested s)
  show ?case
  proof (cases "needs_room limits requested s \<and> ps_idle_lru s \<noteq> []")
    case False
    then have eq: "victims = []" "s' = s" using 1(2) by (subst (asm) evict_lru.simps, auto split: list.splits)+
    have "\<not> needs_room limits requested s"
      if "0 < pl_max_idle_entries limits" "requested \<le> pl_max_idle_bytes limits" "pl_max_idle_bytes limits < u64_limit"
    proof (rule ccontr)
      assume "\<not> \<not> needs_room limits requested s"
      then have n: "needs_room limits requested s" "ps_idle_lru s = []" using False by auto
      have "mset (ps_idle_lru s) = image_mset idle_ref (idle_mset (ps_entries s))" using 1(3) by (simp add: store_ok_def)
      then have "idle_mset (ps_entries s) = {#}" using n(2) by simp
      then have "ps_idle_entries s = 0" "ps_idle_bytes s = 0" using 1(3) n(2) by (simp_all add: store_ok_def)
      then show False using n(1) that by (simp add: needs_room_def)
    qed
    then show ?thesis using 1(3,4) by (simp add: eq)
  next
    case True
    then obtain k i rest where lru: "ps_idle_lru s = (k, i) # rest" by (cases "ps_idle_lru s") auto
    obtain v s1 where v: "take_victim bytes k i (s\<lparr>ps_idle_lru := rest\<rparr>) = ([io_owner v], s1)"
      and ok: "store_ok bytes s1" "permits_ok limits active builders s1"
      and idle: "add_mset (k, v) (idle_mset (ps_entries s1)) = idle_mset (ps_entries s)"
      by (rule take_victim_ok [OF 1(3,4) lru])
    obtain victims2 where e: "evict_lru bytes limits requested s1 = (victims2, s')" and vs: "victims = io_owner v # victims2"
      using 1(2) True lru v by (subst (asm) evict_lru.simps) (auto split: prod.splits)
    note ih = 1(1) [OF True [THEN conjunct1] lru refl v [symmetric] refl e ok]
    have s1: "map_option pe_epoch (map_of (ps_entries s1) key) = map_option pe_epoch (map_of (ps_entries s) key)"
      "ps_next_owner_id s1 = ps_next_owner_id s" "ps_global_epoch s1 = ps_global_epoch s"
      using take_victim_epochs [of bytes k i "s\<lparr>ps_idle_lru := rest\<rparr>"] v by simp_all
    have "ps_idle_entries s1 \<le> ps_idle_entries s" "ps_idle_bytes s1 \<le> ps_idle_bytes s"
      using v by (auto simp: take_victim_def split: option.splits)
    then show ?thesis using ih s1 by (simp add: vs idle [symmetric])
  qed
qed

section \<open>Every critical section keeps the books\<close>

definition world_ok :: "('o \<Rightarrow> nat) \<Rightarrow> pool_limits \<Rightarrow> ('k, 'o) pool_world \<Rightarrow> bool" where
  "world_ok bytes limits w \<longleftrightarrow>
     store_ok bytes (pw_pool w) \<and> within_limits limits (pw_pool w)
     \<and> permits_ok limits (pw_active w) (pw_builders w) (pw_pool w) \<and> live_entries (pw_pool w)"

definition limits_ok :: "pool_limits \<Rightarrow> bool" where
  "limits_ok limits \<longleftrightarrow> 0 < pl_max_instances limits \<and> pl_max_idle_bytes limits < u64_limit"

lemma held_by_simps [simp]: "held_by k [] = 0" "held_by k (x # xs) = of_bool (fst x = k) + held_by k xs"
  "held_by k (xs @ ys) = held_by k xs + held_by k ys"
  by (simp_all add: held_by_def)

lemma held_by_remove: "i < length xs \<Longrightarrow> held_by k xs = held_by k (remove_nth i xs) + of_bool (fst (xs ! i) = k)"
  by (subst id_take_nth_drop [of i xs]) (simp_all add: remove_nth_def)

lemma held_by_mark [simp]: "held_by k (mark_active p xs) = held_by k xs" "held_by k (mark_builders p ys) = held_by k ys"
proof -
  show "held_by k (mark_active p xs) = held_by k xs" by (induction xs) (auto simp: mark_active_def)
  show "held_by k (mark_builders p ys) = held_by k ys" by (induction ys) (auto simp: mark_builders_def)
qed

lemma retain_live_fields [simp]:
  "ps_idle_lru (retain_live s) = ps_idle_lru s" "ps_idle_entries (retain_live s) = ps_idle_entries s"
  "ps_idle_bytes (retain_live s) = ps_idle_bytes s" "ps_next_owner_id (retain_live s) = ps_next_owner_id s"
  "ps_global_epoch (retain_live s) = ps_global_epoch s"
  by (simp_all add: retain_live_def)

lemma retain_live_within [simp]: "within_limits limits (retain_live s) = within_limits limits s"
  by (simp add: within_limits_def)

lemma store_update_same:
  assumes "store_ok bytes s" and "\<And>e. pe_idle (f e) = pe_idle e"
  shows "store_ok bytes (s\<lparr>ps_entries := update_entry key f (ps_entries s)\<rparr>)"
  using assms by (simp add: store_ok_def idle_mset_update_same)

text \<open>Giving a permit back, as a failed build, a return that is not kept and a rollback do.\<close>

lemma release_permit_ok:
  assumes st: "store_ok bytes s" and wl: "within_limits limits s" and pm: "permits_ok limits active builders s"
    and upd: "\<And>e. pe_idle (f e) = pe_idle e"
    and at: "\<And>e. map_of (ps_entries s) key = Some e
      \<Longrightarrow> permit_at limits (held_by key active') (held_by key builders') (Some (f e))"
    and key: "map_of (ps_entries s) key \<noteq> None"
    and other: "\<And>k. k \<noteq> key \<Longrightarrow> held_by k active' = held_by k active \<and> held_by k builders' = held_by k builders"
  shows "world_ok bytes limits \<lparr>pw_pool = retain_live (s\<lparr>ps_entries := update_entry key f (ps_entries s)\<rparr>),
    pw_active = active', pw_builders = builders'\<rparr>"
proof -
  let ?s = "s\<lparr>ps_entries := update_entry key f (ps_entries s)\<rparr>"
  have "permits_ok limits active' builders' ?s" using at key other by (intro permits_update [OF pm]) auto
  moreover have "store_ok bytes ?s" by (rule store_update_same [OF st upd])
  ultimately show ?thesis using retain_live_ok wl by (auto simp: world_ok_def within_limits_def)
qed

lemma holder_entry:
  assumes "permits_ok limits active builders s" and "0 < held_by key active \<or> 0 < held_by key builders"
  shows "\<exists>e. map_of (ps_entries s) key = Some e \<and> permit_at limits (held_by key active) (held_by key builders) (Some e)"
  using assms(1) [unfolded permits_ok_def, rule_format, of key] assms(2) by (cases "map_of (ps_entries s) key") auto

lemma held_by_nth: "i < length xs \<Longrightarrow> xs ! i = (key, x) \<Longrightarrow> 0 < held_by key xs"
  using held_by_remove [of i xs key] by simp

text \<open>Checking out.\<close>

lemma checkout_enters:
  assumes "world_ok bytes limits w"
  shows "\<exists>s e. store_ok bytes s \<and> permits_ok limits (pw_active w) (pw_builders w) s \<and> within_limits limits s
    \<and> map_of (ps_entries s) key = Some e \<and> ps_idle_entries s = ps_idle_entries (pw_pool w)
    \<and> s = (case map_of (ps_entries (pw_pool w)) key of
             None \<Rightarrow> (pw_pool w)\<lparr>ps_entries := ps_entries (pw_pool w) @ [(key, pool_entry_new (ps_global_epoch (pw_pool w)))]\<rparr>
           | Some _ \<Rightarrow> pw_pool w)
    \<and> (\<forall>k e. (k, e) \<in> set (ps_entries s) \<longrightarrow> k \<noteq> key \<longrightarrow> 0 < pe_instances e)"
proof (cases "map_of (ps_entries (pw_pool w)) key")
  case (Some e)
  then show ?thesis using assms by (fastforce simp: world_ok_def live_entries_def)
next
  case None
  let ?s = "(pw_pool w)\<lparr>ps_entries := ps_entries (pw_pool w) @ [(key, pool_entry_new (ps_global_epoch (pw_pool w)))]\<rparr>"
  have new: "key \<notin> fst ` set (ps_entries (pw_pool w))" using None by (simp add: map_of_eq_None_iff)
  have "store_ok bytes ?s" using assms new by (auto simp: world_ok_def store_ok_def pool_entry_new_def)
  moreover have "permit_at limits (held_by k (pw_active w)) (held_by k (pw_builders w)) (map_of (ps_entries ?s) k)" for k
    using assms [unfolded world_ok_def permits_ok_def] None
    by (cases "k = key") (auto simp: map_add_def pool_entry_new_def split: option.split dest!: spec [of _ k])
  moreover have "map_of (ps_entries ?s) key = Some (pool_entry_new (ps_global_epoch (pw_pool w)))" using None by (simp add: map_add_def)
  moreover have "\<forall>k e. (k, e) \<in> set (ps_entries ?s) \<longrightarrow> k \<noteq> key \<longrightarrow> 0 < pe_instances e"
    using assms by (auto simp: world_ok_def live_entries_def)
  ultimately show ?thesis using None assms by (auto simp: permits_ok_def world_ok_def within_limits_def)
qed

lemma live_after_update:
  assumes "\<forall>k e. (k, e) \<in> set (ps_entries s) \<longrightarrow> k \<noteq> key \<longrightarrow> 0 < pe_instances e" and "\<And>e. map_of (ps_entries s) key = Some e \<Longrightarrow> 0 < pe_instances (f e)"
    and "distinct (map fst (ps_entries s))" and "ps_entries s' = update_entry key f (ps_entries s)"
  shows "live_entries s'"
proof -
  have "0 < pe_instances (snd x)" if "x \<in> set (update_entry key f (ps_entries s))" for x
    using that assms(1-3) map_of_is_SomeI [OF assms(3), of key] by (auto simp: update_entry_def split: if_splits)
  then show ?thesis by (auto simp: live_entries_def assms(4))
qed

lemma filter_neq_mset: "distinct (map snd xs) \<Longrightarrow> x \<in> set xs \<Longrightarrow> add_mset x (mset (filter (\<lambda>c. c \<noteq> x) xs)) = mset xs"
proof -
  assume d: "distinct (map snd xs)" and x: "x \<in> set xs"
  have "distinct xs" using d by (simp add: distinct_map)
  then have "filter (\<lambda>c. c \<noteq> x) xs = remove1 x xs"
    by (simp add: distinct_remove1_removeAll removeAll_filter_not_eq eq_commute)
  then show ?thesis using x by simp
qed

lemma checkout_ok:
  assumes ok: "world_ok bytes limits w" and lim: "limits_ok limits"
  shows "world_ok bytes limits (snd (pool_step bytes reusable limits w (Checkout key)))"
proof -
  obtain s e where st: "store_ok bytes s" and pm: "permits_ok limits (pw_active w) (pw_builders w) s" and wl: "within_limits limits s"
    and e: "map_of (ps_entries s) key = Some e"
    and s: "s = (case map_of (ps_entries (pw_pool w)) key of
             None \<Rightarrow> (pw_pool w)\<lparr>ps_entries := ps_entries (pw_pool w) @ [(key, pool_entry_new (ps_global_epoch (pw_pool w)))]\<rparr>
           | Some _ \<Rightarrow> pw_pool w)"
    and live: "\<forall>k e. (k, e) \<in> set (ps_entries s) \<longrightarrow> k \<noteq> key \<longrightarrow> 0 < pe_instances e"
    using checkout_enters [OF ok, of key] by blast
  have d: "distinct (map fst (ps_entries s))" using st by (simp add: store_ok_def)
  have at: "permit_at limits (held_by key (pw_active w)) (held_by key (pw_builders w)) (Some e)"
    using pm e by (metis permits_ok_def)
  consider (reuse) "pe_idle e \<noteq> []" | (wait) "pe_idle e = []" "pe_building e \<or> pl_max_instances limits \<le> pe_instances e"
    | (build) "pe_idle e = []" "\<not> pe_building e" "pe_instances e < pl_max_instances limits" by linarith
  then show ?thesis
  proof cases
    case reuse
    define v where "v = last (pe_idle e)"
    define f where "f = (\<lambda>e :: 'a pool_entry. e\<lparr>pe_idle := butlast (pe_idle e)\<rparr>)"
    define s' where "s' = s\<lparr>ps_entries := update_entry key f (ps_entries s),
      ps_idle_lru := filter (\<lambda>c. c \<noteq> (key, io_id v)) (ps_idle_lru s), ps_idle_entries := ps_idle_entries s - 1,
      ps_idle_bytes := ps_idle_bytes s - bytes (io_owner v)\<rparr>"
    have "pe_idle e = butlast (pe_idle e) @ [v]" using reuse by (simp add: v_def)
    then have m: "add_mset v (mset (butlast (pe_idle e))) = mset (pe_idle e)" by (metis mset_append mset.simps(1,2) union_mset_add_mset_right add.right_neutral)
    have idle: "add_mset (key, v) (idle_mset (update_entry key f (ps_entries s))) = idle_mset (ps_entries s)"
      using idle_mset_update [OF d e, of f] by (simp add: f_def m [symmetric] ac_simps)
    have "(key, v) \<in># idle_mset (ps_entries s)" unfolding idle [symmetric] by simp
    then have "(key, io_id v) \<in> set (ps_idle_lru s)"
      using st unfolding store_ok_def by (metis (no_types, lifting) idle_ref_def fst_conv snd_conv image_eqI set_image_mset set_mset_mset)
    then have "add_mset (key, io_id v) (mset (filter (\<lambda>c. c \<noteq> (key, io_id v)) (ps_idle_lru s))) = mset (ps_idle_lru s)"
      using st by (intro filter_neq_mset) (simp_all add: store_ok_def)
    then have "store_ok bytes s'" unfolding s'_def using d by (intro store_remove [OF st idle]) simp_all
    moreover have "permits_ok limits (pw_active w @ [(key, pe_epoch e, True, False)]) (pw_builders w) s'"
      using at e reuse by (intro permits_update [OF pm]) (auto simp: s'_def f_def)
    moreover have "live_entries s'"
      by (rule live_after_update [OF live _ d]) (use at e reuse in \<open>auto simp: s'_def f_def\<close>)
    moreover have "within_limits limits s'" using wl by (auto simp: s'_def within_limits_def)
    moreover have "checkout_section bytes limits key (pw_pool w) = (Reused (io_owner v) (pe_epoch e), s')"
      using e reuse by (simp add: checkout_section_def s [symmetric] Let_def v_def s'_def f_def)
    ultimately show ?thesis by (simp add: world_ok_def)
  next
    case wait
    then have "0 < pe_instances e" using at lim by (auto simp: limits_ok_def)
    then have "0 < pe_instances b" if "(a, b) \<in> set (ps_entries s)" for a b
      using live e that map_of_is_SomeI [OF d that] by (cases "a = key") auto
    then have "live_entries s" by (auto simp: live_entries_def)
    moreover have "checkout_section bytes limits key (pw_pool w) = (MustWait, s)"
      using e wait by (auto simp: checkout_section_def s [symmetric] Let_def)
    ultimately show ?thesis using st pm wl by (simp add: world_ok_def)
  next
    case build
    define f where "f = (\<lambda>e :: 'a pool_entry. e\<lparr>pe_instances := pe_instances e + 1, pe_building := True\<rparr>)"
    define s' where "s' = s\<lparr>ps_entries := update_entry key f (ps_entries s)\<rparr>"
    have "store_ok bytes s'" unfolding s'_def by (rule store_update_same [OF st]) (simp add: f_def)
    moreover have "permits_ok limits (pw_active w) (pw_builders w @ [(key, pe_epoch e, False)]) s'"
      using at e build by (intro permits_update [OF pm]) (auto simp: s'_def f_def)
    moreover have "live_entries s'" by (rule live_after_update [OF live _ d]) (simp_all add: s'_def f_def)
    moreover have "within_limits limits s'" using wl by (simp add: s'_def within_limits_def)
    moreover have "checkout_section bytes limits key (pw_pool w) = (BuildSlot (pe_epoch e), s')"
      using e build by (simp add: checkout_section_def s [symmetric] Let_def s'_def f_def)
    ultimately show ?thesis by (simp add: world_ok_def)
  qed
qed

lemma make_room_ok:
  assumes "world_ok bytes limits w"
  shows "world_ok bytes limits (snd (pool_step bytes reusable limits w (MakeRoom requested)))"
proof -
  obtain victims s where ev: "evict_lru bytes limits requested (pw_pool w) = (victims, s)" by fastforce
  have r: "store_ok bytes s \<and> permits_ok limits (pw_active w) (pw_builders w) s
    \<and> ps_idle_entries s \<le> ps_idle_entries (pw_pool w) \<and> ps_idle_bytes s \<le> ps_idle_bytes (pw_pool w)"
    using evict_lru_ok [OF ev, of "pw_active w" "pw_builders w"] assms by (simp add: world_ok_def)
  then have "within_limits limits s" using assms by (auto simp: world_ok_def within_limits_def)
  then show ?thesis using assms r retain_live_ok [of bytes s limits "pw_active w" "pw_builders w"] by (simp add: world_ok_def make_room_for_def ev)
qed

lemma finish_build_ok:
  assumes ok: "world_ok bytes limits w" and i: "i < length (pw_builders w)"
  shows "world_ok bytes limits (snd (pool_step bytes reusable limits w (FinishBuild i built)))"
proof -
  obtain key epoch stale where b: "pw_builders w ! i = (key, epoch, stale)" by (cases "pw_builders w ! i")
  have st: "store_ok bytes (pw_pool w)" and pm: "permits_ok limits (pw_active w) (pw_builders w) (pw_pool w)"
    and wl: "within_limits limits (pw_pool w)" using ok by (simp_all add: world_ok_def)
  obtain e where e: "map_of (ps_entries (pw_pool w)) key = Some e"
    "permit_at limits (held_by key (pw_active w)) (held_by key (pw_builders w)) (Some e)"
    using holder_entry [OF pm] held_by_nth [OF i b] by blast
  have h: "held_by k (pw_builders w) = held_by k (remove_nth i (pw_builders w)) + of_bool (key = k)" for k
    using held_by_remove [OF i] b by simp
  define f where "f = (\<lambda>e :: 'a pool_entry. e\<lparr>pe_building := False\<rparr>)"
  define s1 where "s1 = (pw_pool w)\<lparr>ps_entries := update_entry key f (ps_entries (pw_pool w))\<rparr>"
  have st1: "store_ok bytes s1" unfolding s1_def by (rule store_update_same [OF st]) (simp add: f_def)
  have wl1: "within_limits limits s1" using wl by (simp add: s1_def within_limits_def)
  show ?thesis
  proof (cases built)
    case None
    have "release_failed_build key s1 = retain_live ((pw_pool w)\<lparr>ps_entries := update_entry key
      (\<lambda>e. e\<lparr>pe_instances := pe_instances e - 1, pe_building := False\<rparr>) (ps_entries (pw_pool w))\<rparr>)"
      by (auto simp: release_failed_build_def s1_def f_def update_entry_def comp_def case_prod_unfold intro!: arg_cong [where f = retain_live])
    moreover have "world_ok bytes limits \<lparr>pw_pool = retain_live ((pw_pool w)\<lparr>ps_entries := update_entry key
      (\<lambda>e. e\<lparr>pe_instances := pe_instances e - 1, pe_building := False\<rparr>) (ps_entries (pw_pool w))\<rparr>),
        pw_active = pw_active w, pw_builders = remove_nth i (pw_builders w)\<rparr>"
      by (rule release_permit_ok [OF st wl pm]) (use e h in \<open>auto simp: of_bool_def split: if_splits\<close>)
    ultimately show ?thesis using i b None by (simp add: finish_build_def s1_def [symmetric] f_def [symmetric] world_ok_def)
  next
    case (Some p)
    obtain quoted owner where p: "p = (quoted, owner)" by (cases p)
    have "permits_ok limits (pw_active w @ [(key, epoch, c, stale)]) (remove_nth i (pw_builders w)) s1" for c
      by (rule permits_update [OF pm, where f = f and key = key]) (use e h in \<open>auto simp: s1_def f_def of_bool_def split: if_splits\<close>)
    moreover have "live_entries s1"
      using ok by (auto simp: s1_def f_def live_entries_def world_ok_def update_entry_def split: if_splits)
    ultimately show ?thesis
      using i b Some p st1 wl1 by (simp add: finish_build_def s1_def [symmetric] f_def [symmetric] world_ok_def Let_def)
  qed
qed

lemma discard_ok:
  assumes ok: "world_ok bytes limits w" and i: "i < length (pw_active w)"
  shows "world_ok bytes limits \<lparr>pw_pool = return_dropped (fst (pw_active w ! i)) (pw_pool w),
    pw_active = remove_nth i (pw_active w), pw_builders = pw_builders w\<rparr>"
proof -
  obtain key x where a: "pw_active w ! i = (key, x)" by (cases "pw_active w ! i")
  have st: "store_ok bytes (pw_pool w)" and pm: "permits_ok limits (pw_active w) (pw_builders w) (pw_pool w)"
    and wl: "within_limits limits (pw_pool w)" using ok by (simp_all add: world_ok_def)
  obtain e where e: "map_of (ps_entries (pw_pool w)) key = Some e"
    "permit_at limits (held_by key (pw_active w)) (held_by key (pw_builders w)) (Some e)"
    using holder_entry [OF pm] held_by_nth [OF i a] by blast
  have h: "held_by k (pw_active w) = held_by k (remove_nth i (pw_active w)) + of_bool (key = k)" for k
    using held_by_remove [OF i] a by simp
  show ?thesis unfolding return_dropped_def a
    by (rule release_permit_ok [OF st wl pm]) (use e h in auto)
qed

lemma return_keeps:
  assumes ok: "world_ok bytes limits w" and i: "i < length (pw_active w)" and a: "pw_active w ! i = (key, epoch, cacheable, stale)"
    and lim: "limits_ok limits" and fresh: "ps_next_owner_id (pw_pool w) + 1 < u64_limit"
    and att: "epoch_attached key epoch (pw_pool w)" and fits: "0 < pl_max_idle_entries limits" "bytes owner \<le> pl_max_idle_bytes limits"
    and ev: "evict_lru bytes limits (bytes owner) (pw_pool w) = (victims, s1)"
  shows "ps_idle_bytes s1 + bytes owner < u64_limit"
    and "world_ok bytes limits \<lparr>pw_pool = retain_live (s1\<lparr>
                     ps_next_owner_id := next_nonzero (ps_next_owner_id s1),
                     ps_entries := update_entry key (\<lambda>e. e\<lparr>pe_idle := pe_idle e @ [\<lparr>io_id = ps_next_owner_id s1, io_owner = owner\<rparr>]\<rparr>) (ps_entries s1),
                     ps_idle_lru := ps_idle_lru s1 @ [(key, ps_next_owner_id s1)],
                     ps_idle_entries := ps_idle_entries s1 + 1,
                     ps_idle_bytes := ps_idle_bytes s1 + bytes owner\<rparr>),
        pw_active = remove_nth i (pw_active w), pw_builders = pw_builders w\<rparr>"
proof -
  have r: "store_ok bytes s1" "permits_ok limits (pw_active w) (pw_builders w) s1" "\<not> needs_room limits (bytes owner) s1"
    "ps_next_owner_id s1 = ps_next_owner_id (pw_pool w)"
    "map_option pe_epoch (map_of (ps_entries s1) key) = map_option pe_epoch (map_of (ps_entries (pw_pool w)) key)"
    using evict_lru_ok [OF ev, of "pw_active w" "pw_builders w" key] ok lim fits by (simp_all add: world_ok_def limits_ok_def)
  then show "ps_idle_bytes s1 + bytes owner < u64_limit" by (simp add: needs_room_def)
  define x where "x = \<lparr>io_id = ps_next_owner_id s1, io_owner = owner\<rparr>"
  define f where "f = (\<lambda>e :: 'a pool_entry. e\<lparr>pe_idle := pe_idle e @ [x]\<rparr>)"
  define s2 where "s2 = s1\<lparr>ps_next_owner_id := next_nonzero (ps_next_owner_id s1), ps_entries := update_entry key f (ps_entries s1),
    ps_idle_lru := ps_idle_lru s1 @ [(key, ps_next_owner_id s1)], ps_idle_entries := ps_idle_entries s1 + 1,
    ps_idle_bytes := ps_idle_bytes s1 + bytes owner\<rparr>"
  obtain e where e: "map_of (ps_entries s1) key = Some e"
    "permit_at limits (held_by key (pw_active w)) (held_by key (pw_builders w)) (Some e)"
    using holder_entry [OF r(2)] held_by_nth [OF i a] by blast
  have d: "distinct (map fst (ps_entries s1))" using r(1) by (simp add: store_ok_def)
  have idle: "idle_mset (update_entry key f (ps_entries s1)) = add_mset (key, x) (idle_mset (ps_entries s1))"
    using idle_mset_update [OF d e(1), of f] by (simp add: f_def)
  have n: "next_nonzero (ps_next_owner_id s1) = ps_next_owner_id s1 + 1" using fresh by (simp add: next_nonzero_def u64_add_def r(4))
  have "store_ok bytes s2"
    using r(1) d unfolding s2_def store_ok_def n
    by (auto simp: idle idle_ref_def x_def less_Suc_eq)
  moreover have "permits_ok limits (remove_nth i (pw_active w)) (pw_builders w) s2"
    by (rule permits_update [OF r(2), where f = f and key = key])
      (use e held_by_remove [OF i] a in \<open>auto simp: s2_def f_def\<close>)
  moreover have "within_limits limits s2" using r(3) by (auto simp: s2_def within_limits_def needs_room_def)
  ultimately have "world_ok bytes limits \<lparr>pw_pool = retain_live s2, pw_active = remove_nth i (pw_active w), pw_builders = pw_builders w\<rparr>"
    using retain_live_ok by (auto simp: world_ok_def)
  then show "world_ok bytes limits \<lparr>pw_pool = retain_live (s1\<lparr>
                     ps_next_owner_id := next_nonzero (ps_next_owner_id s1),
                     ps_entries := update_entry key (\<lambda>e. e\<lparr>pe_idle := pe_idle e @ [\<lparr>io_id = ps_next_owner_id s1, io_owner = owner\<rparr>]\<rparr>) (ps_entries s1),
                     ps_idle_lru := ps_idle_lru s1 @ [(key, ps_next_owner_id s1)],
                     ps_idle_entries := ps_idle_entries s1 + 1,
                     ps_idle_bytes := ps_idle_bytes s1 + bytes owner\<rparr>),
        pw_active = remove_nth i (pw_active w), pw_builders = pw_builders w\<rparr>"
    unfolding s2_def f_def x_def .
qed

lemma return_ok:
  assumes ok: "world_ok bytes limits w" and i: "i < length (pw_active w)" and lim: "limits_ok limits"
    and fresh: "ps_next_owner_id (pw_pool w) + 1 < u64_limit"
  shows "fst (pool_step bytes reusable limits w (Return i owner)) \<noteq> Panicked
    \<and> world_ok bytes limits (snd (pool_step bytes reusable limits w (Return i owner)))"
proof -
  obtain key epoch cacheable stale where a: "pw_active w ! i = (key, epoch, cacheable, stale)" by (cases "pw_active w ! i")
  obtain victims s1 where ev: "evict_lru bytes limits (bytes owner) (pw_pool w) = (victims, s1)" by fastforce
  show ?thesis
  proof (cases "epoch_attached key epoch (pw_pool w) \<and> cacheable \<and> reusable owner \<and> 0 < pl_max_idle_entries limits
      \<and> bytes owner \<le> pl_max_idle_bytes limits")
    case True
    then have att: "epoch_attached key epoch (pw_pool w)" "0 < pl_max_idle_entries limits" "bytes owner \<le> pl_max_idle_bytes limits" by simp_all
    note r = return_keeps [OF ok i a lim fresh att ev]
    from r(1) have b: "\<not> u64_limit \<le> ps_idle_bytes s1 + bytes owner" by simp
    have rc: "return_commit bytes reusable limits key epoch cacheable owner (pw_pool w) = Some (True, victims, retain_live (s1\<lparr>
                     ps_next_owner_id := next_nonzero (ps_next_owner_id s1),
                     ps_entries := update_entry key (\<lambda>e. e\<lparr>pe_idle := pe_idle e @ [\<lparr>io_id = ps_next_owner_id s1, io_owner = owner\<rparr>]\<rparr>) (ps_entries s1),
                     ps_idle_lru := ps_idle_lru s1 @ [(key, ps_next_owner_id s1)],
                     ps_idle_entries := ps_idle_entries s1 + 1,
                     ps_idle_bytes := ps_idle_bytes s1 + bytes owner\<rparr>))"
      by (simp only: return_commit_def True ev Let_def b prod.case simp_thms if_True if_False)
    show ?thesis using r(2) by (simp only: pool_step.simps i a rc if_True prod.case option.case fst_conv snd_conv) (simp add: world_ok_def)
  next
    case False
    have "world_ok bytes limits \<lparr>pw_pool = return_dropped key (pw_pool w), pw_active = remove_nth i (pw_active w), pw_builders = pw_builders w\<rparr>"
      using discard_ok [OF ok i] a by simp
    moreover have rc: "return_commit bytes reusable limits key epoch cacheable owner (pw_pool w) = Some (False, [owner], return_dropped key (pw_pool w))"
      unfolding return_commit_def return_dropped_def by (simp only: False if_False)
    ultimately show ?thesis by (simp only: pool_step.simps i a rc if_True prod.case option.case fst_conv snd_conv) (simp add: world_ok_def)
  qed
qed

text \<open>Clearing and evicting: \<open>h\<close> empties an entry that the predicate selects.\<close>

lemma map_of_map_keyed: "map_of (map (\<lambda>(k, e). (k, h k e)) xs) k = map_option (h k) (map_of xs k)"
  by (induction xs) auto

lemma invalidate_ok:
  assumes ok: "world_ok bytes limits w"
    and h: "\<And>k e. pe_building (h k e) = pe_building e
      \<and> (if p k then pe_idle (h k e) = [] \<and> pe_instances (h k e) = pe_instances e - length (pe_idle e) else h k e = e)"
    and en: "entries' = map (\<lambda>(k, e). (k, h k e)) (ps_entries (pw_pool w))"
    and lru: "lru' = filter (\<lambda>(k, i). \<not> p k) (ps_idle_lru (pw_pool w))"
    and cnt: "n' = length lru'" "b' = (\<Sum>x \<in># idle_mset entries'. bytes (io_owner (snd x)))"
  shows "world_ok bytes limits \<lparr>pw_pool = (retain_live ((pw_pool w)\<lparr>ps_entries := entries'\<rparr>))
      \<lparr>ps_global_epoch := g, ps_idle_lru := lru', ps_idle_entries := n', ps_idle_bytes := b'\<rparr>,
    pw_active = mark_active p (pw_active w), pw_builders = mark_builders p (pw_builders w)\<rparr>"
    and "idle_mset entries' = filter_mset (\<lambda>x. \<not> p (fst x)) (idle_mset (ps_entries (pw_pool w)))"
    and "idle_mset (ps_entries (retain_live ((pw_pool w)\<lparr>ps_entries := entries'\<rparr>))) = idle_mset entries'"
proof -
  have "idle_mset (map (\<lambda>(k, e). (k, h k e)) xs) = filter_mset (\<lambda>x. \<not> p (fst x)) (idle_mset xs)" for xs
  proof (induction xs)
    case (Cons x xs)
    obtain k e where x: "x = (k, e)" by (cases x)
    have "image_mset (Pair k) (mset (pe_idle (h k e))) = filter_mset (\<lambda>x. \<not> p (fst x)) (image_mset (Pair k) (mset (pe_idle e)))"
      using h [of k e] by (auto simp: filter_mset_image_mset image_mset_If split: if_splits)
    then show ?case using Cons x by simp
  qed simp
  then show idle: "idle_mset entries' = filter_mset (\<lambda>x. \<not> p (fst x)) (idle_mset (ps_entries (pw_pool w)))" by (simp add: en)
  let ?s = "(pw_pool w)\<lparr>ps_entries := entries', ps_global_epoch := g, ps_idle_lru := lru', ps_idle_entries := n', ps_idle_bytes := b'\<rparr>"
  note st = ok [unfolded world_ok_def, THEN conjunct1, unfolded store_ok_def]
  have pm: "permit_at limits (held_by k (pw_active w)) (held_by k (pw_builders w)) (map_of (ps_entries (pw_pool w)) k)" for k
    using ok by (simp add: world_ok_def permits_ok_def)
  have keys: "map fst entries' = map fst (ps_entries (pw_pool w))" unfolding en by (induction "ps_entries (pw_pool w)") auto
  have "mset lru' = image_mset idle_ref (idle_mset entries')"
    unfolding lru idle mset_filter using st by (simp add: filter_mset_image_mset idle_ref_def case_prod_unfold)
  moreover have "distinct (map snd lru')" unfolding lru using st by (simp add: distinct_map_filter)
  ultimately have "store_ok bytes ?s" using st cnt by (auto simp: store_ok_def keys lru)
  moreover have "permit_at limits (held_by k (pw_active w)) (held_by k (pw_builders w)) (map_of entries' k)" for k
  proof (cases "map_of (ps_entries (pw_pool w)) k")
    case None
    then show ?thesis using pm [of k] by (simp add: en map_of_map_keyed)
  next
    case (Some e)
    then show ?thesis using pm [of k] h [of k e] by (cases "p k") (simp_all add: en map_of_map_keyed)
  qed
  then have "permits_ok limits (mark_active p (pw_active w)) (mark_builders p (pw_builders w)) ?s" by (simp add: permits_ok_def)
  ultimately have r: "store_ok bytes (retain_live ?s)" "permits_ok limits (mark_active p (pw_active w)) (mark_builders p (pw_builders w)) (retain_live ?s)"
    "live_entries (retain_live ?s)" and ridle: "idle_mset (ps_entries (retain_live ?s)) = idle_mset (ps_entries ?s)"
    using retain_live_ok [of bytes ?s limits "mark_active p (pw_active w)" "mark_builders p (pw_builders w)"] by blast+
  moreover have "within_limits limits ?s"
  proof -
    have "b' \<le> ps_idle_bytes (pw_pool w)"
      unfolding cnt idle using st multiset_partition [of "idle_mset (ps_entries (pw_pool w))" "\<lambda>x. p (fst x)"]
      by (metis (no_types, lifting) image_mset_union sum_mset.union le_add2)
    moreover have "n' \<le> ps_idle_entries (pw_pool w)" unfolding cnt lru using st by simp
    ultimately show ?thesis using ok by (auto simp: world_ok_def within_limits_def)
  qed
  moreover have eq: "(retain_live ((pw_pool w)\<lparr>ps_entries := entries'\<rparr>))
      \<lparr>ps_global_epoch := g, ps_idle_lru := lru', ps_idle_entries := n', ps_idle_bytes := b'\<rparr> = retain_live ?s"
    by (cases "pw_pool w") (simp add: retain_live_def)
  ultimately show "world_ok bytes limits \<lparr>pw_pool = (retain_live ((pw_pool w)\<lparr>ps_entries := entries'\<rparr>))
      \<lparr>ps_global_epoch := g, ps_idle_lru := lru', ps_idle_entries := n', ps_idle_bytes := b'\<rparr>,
    pw_active = mark_active p (pw_active w), pw_builders = mark_builders p (pw_builders w)\<rparr>"
    unfolding eq using r by (simp add: world_ok_def)
  show "idle_mset (ps_entries (retain_live ((pw_pool w)\<lparr>ps_entries := entries'\<rparr>))) = idle_mset entries'"
    using ridle by (simp add: retain_live_def)
qed

lemma clear_ok:
  assumes "world_ok bytes limits w"
  shows "world_ok bytes limits (snd (pool_step bytes reusable limits w Clear))"
proof -
  let ?h = "\<lambda>(k :: 'k) (e :: 'o pool_entry). e\<lparr>pe_epoch := next_nonzero (ps_global_epoch (pw_pool w)),
    pe_instances := pe_instances e - length (pe_idle e), pe_idle := []\<rparr>"
  have "idle_mset (map (\<lambda>(k, e). (k, ?h k e)) (ps_entries (pw_pool w))) = {#}" by (induction "ps_entries (pw_pool w)") (auto simp: idle_mset_def)
  then have "world_ok bytes limits \<lparr>pw_pool = (retain_live ((pw_pool w)\<lparr>ps_entries := map (\<lambda>(k, e). (k, ?h k e)) (ps_entries (pw_pool w))\<rparr>))
      \<lparr>ps_global_epoch := next_nonzero (ps_global_epoch (pw_pool w)), ps_idle_lru := [], ps_idle_entries := 0, ps_idle_bytes := 0\<rparr>,
    pw_active = mark_active (\<lambda>_. True) (pw_active w), pw_builders = mark_builders (\<lambda>_. True) (pw_builders w)\<rparr>"
    by (intro invalidate_ok(1) [OF assms, where h = ?h]) simp_all
  then show ?thesis by (simp add: pool_clear_def Let_def world_ok_def)
qed

lemma sum_list_mset: "sum_list (map f ys) = (\<Sum>y \<in># mset ys. f y)" for f :: "'a \<Rightarrow> nat"
  by (induction ys) simp_all

lemma idle_bytes_total_mset: "idle_bytes_total bytes xs = (\<Sum>x \<in># idle_mset xs. bytes (io_owner (snd x)))"
proof (induction xs)
  case (Cons x xs)
  then show ?case
    by (cases x) (simp add: idle_bytes_total_def entry_owners_def image_mset.compositionality comp_def sum_list_mset [of _ "pe_idle _"])
qed (simp add: idle_bytes_total_def)

lemma idle_count: "sum_list (map (\<lambda>(k, e). length (pe_idle e)) xs) = size (idle_mset xs)"
  by (induction xs) auto

lemma evict_where_ok:
  fixes w :: "('k, 'o) pool_world"
  assumes ok: "world_ok bytes limits w" and lim: "limits_ok limits"
  shows "fst (pool_step bytes reusable limits w (EvictWhere p)) \<noteq> Panicked
    \<and> world_ok bytes limits (snd (pool_step bytes reusable limits w (EvictWhere p)))"
proof -
  define h where "h = (\<lambda>(k :: 'k) (e :: 'o pool_entry). if p k then e\<lparr>pe_epoch := next_nonzero (pe_epoch e),
    pe_instances := pe_instances e - length (pe_idle e), pe_idle := []\<rparr> else e)"
  define entries' where "entries' = map (\<lambda>(k, e). (k, h k e)) (ps_entries (pw_pool w))"
  define lru' where "lru' = filter (\<lambda>(k, i). \<not> p k) (ps_idle_lru (pw_pool w))"
  define s1 where "s1 = retain_live ((pw_pool w)\<lparr>ps_entries := entries'\<rparr>)"
  define b' where "b' = (\<Sum>x \<in># idle_mset entries'. bytes (io_owner (snd x)))"
  note inv = invalidate_ok(1) [OF ok _ entries'_def lru'_def refl b'_def, where g = "ps_global_epoch (pw_pool w)"]
    invalidate_ok(2,3) [OF ok _ entries'_def lru'_def refl b'_def]
  have h: "pe_building (h k e) = pe_building e
      \<and> (if p k then pe_idle (h k e) = [] \<and> pe_instances (h k e) = pe_instances e - length (pe_idle e) else h k e = e)" for k e
    by (simp add: h_def)
  note st = ok [unfolded world_ok_def, THEN conjunct1, unfolded store_ok_def]
  have evd: "map (\<lambda>(k, e). if p k then (k, e\<lparr>pe_epoch := next_nonzero (pe_epoch e),
      pe_instances := pe_instances e - length (pe_idle e), pe_idle := []\<rparr>) else (k, e)) (ps_entries (pw_pool w)) = entries'"
    by (auto simp: entries'_def h_def)
  have inst: "length (pe_idle e) \<le> pe_instances e" if "(k, e) \<in> set (ps_entries (pw_pool w))" for k e
  proof -
    have "map_of (ps_entries (pw_pool w)) k = Some e" using st that by (simp add: map_of_is_SomeI)
    moreover have "permit_at limits (held_by k (pw_active w)) (held_by k (pw_builders w)) (map_of (ps_entries (pw_pool w)) k)"
      using ok by (simp add: world_ok_def permits_ok_def)
    ultimately show ?thesis by simp
  qed
  have bytes: "idle_bytes_total bytes (ps_entries s1) = b'"
    unfolding s1_def idle_bytes_total_mset inv(3) [OF h] b'_def ..
  have mlru: "mset lru' = image_mset idle_ref (idle_mset entries')"
    unfolding lru'_def inv(2) [OF h] mset_filter using st by (simp add: filter_mset_image_mset idle_ref_def case_prod_unfold)
  then have cnt: "sum_list (map (\<lambda>(k, e). length (pe_idle e)) (ps_entries s1)) = length lru'"
    unfolding s1_def idle_count inv(3) [OF h] by (metis size_image_mset size_mset)
  have small: "b' < u64_limit"
    using inv(1) [OF h] lim by (auto simp: world_ok_def within_limits_def limits_ok_def)
  have lru: "filter (\<lambda>(k, i). \<not> (p k \<and> k \<in> set (map fst (ps_entries (pw_pool w))))) (ps_idle_lru (pw_pool w)) = lru'"
    unfolding lru'_def
  proof (rule filter_cong)
    fix x assume x: "x \<in> set (ps_idle_lru (pw_pool w))"
    obtain k i where "x = (k, i)" by (cases x)
    with x ok idle_member [of bytes "pw_pool w" k i] have "map_of (ps_entries (pw_pool w)) k \<noteq> None" by (auto simp: world_ok_def)
    then have "k \<in> set (map fst (ps_entries (pw_pool w)))" by (simp add: map_of_eq_None_iff)
    with \<open>x = (k, i)\<close> show "(case x of (k, i) \<Rightarrow> \<not> (p k \<and> k \<in> set (map fst (ps_entries (pw_pool w))))) \<longleftrightarrow> (case x of (k, i) \<Rightarrow> \<not> p k)" by simp
  qed simp
  have ex: "\<not> list_ex (\<lambda>(k, e). p k \<and> pe_instances e < length (pe_idle e)) (ps_entries (pw_pool w))"
    using inst by (fastforce simp: list_ex_iff)
  let ?s = "s1\<lparr>ps_idle_lru := lru', ps_idle_entries := length lru', ps_idle_bytes := b'\<rparr>"
  have "\<exists>victims. evict_where bytes p (pw_pool w) = Some (victims, ?s)"
    unfolding evict_where_def Let_def evd s1_def [symmetric] bytes cnt lru using small ex by simp
  then obtain victims where r: "evict_where bytes p (pw_pool w) = Some (victims, ?s)" by blast
  have eq: "s1\<lparr>ps_global_epoch := ps_global_epoch (pw_pool w), ps_idle_lru := lru', ps_idle_entries := length lru', ps_idle_bytes := b'\<rparr> = ?s"
    by (simp add: s1_def retain_live_def)
  show ?thesis using inv(1) [OF h, folded s1_def, unfolded eq] r by (simp add: world_ok_def)
qed

text \<open>All critical sections together.\<close>

lemma pool_step_ok:
  assumes "world_ok bytes limits w" and "limits_ok limits" and "ps_next_owner_id (pw_pool w) + 1 < u64_limit"
  shows "fst (pool_step bytes reusable limits w op) \<noteq> Panicked \<and> world_ok bytes limits (snd (pool_step bytes reusable limits w op))"
proof (cases op)
  case (Checkout key)
  then show ?thesis using checkout_ok [OF assms(1,2)] by (auto split: prod.split checkout_step.split)
next
  case (MakeRoom requested)
  then show ?thesis using make_room_ok [OF assms(1)] by (auto split: prod.split)
next
  case (FinishBuild i built)
  have "fst (pool_step bytes reusable limits w (FinishBuild i built)) \<noteq> Panicked" by (simp split: prod.split option.split)
  moreover have "world_ok bytes limits (snd (pool_step bytes reusable limits w (FinishBuild i built)))"
    using finish_build_ok [OF assms(1)] assms(1) by (cases "i < length (pw_builders w)") (blast, simp)
  ultimately show ?thesis unfolding FinishBuild by blast
next
  case (Return i owner)
  then show ?thesis using return_ok [OF assms(1) _ assms(2,3), of i] assms(1) by (cases "i < length (pw_active w)") simp_all
next
  case (Discard i)
  then show ?thesis using discard_ok [OF assms(1), of i] assms(1) by (auto simp: world_ok_def)
next
  case Clear
  then show ?thesis using clear_ok [OF assms(1)] by (auto simp: pool_clear_def Let_def)
next
  case (EvictWhere p)
  then show ?thesis using evict_where_ok [OF assms(1,2)] by simp
qed

end
