(* ===== verification/Owner_Pool_Guarantees.thy ===== *)
theory Owner_Pool_Guarantees
  imports Owner_Pool_Books
begin

text \<open>
  What the runtime pool guarantees over all interleavings of its critical sections, and where the
  two ways to invalidate owners get into each other's way.
\<close>

section \<open>Epochs\<close>

definition clock_ok :: "nat \<Rightarrow> ('k, 'o) pool_world \<Rightarrow> bool" where
  "clock_ok n w \<longleftrightarrow> ps_next_owner_id (pw_pool w) \<le> n \<and> ps_global_epoch (pw_pool w) \<le> n
     \<and> (\<forall>k e. map_of (ps_entries (pw_pool w)) k = Some e \<longrightarrow> pe_epoch e \<le> n)"

definition holder_of :: "'k \<times> nat \<times> bool \<times> bool \<Rightarrow> 'k \<times> nat \<times> bool" where
  "holder_of x = (case x of (k, epoch, cacheable, stale) \<Rightarrow> (k, epoch, stale))"

definition holders :: "('k, 'o) pool_world \<Rightarrow> ('k \<times> nat \<times> bool) list" where
  "holders w = map holder_of (pw_active w) @ pw_builders w"

lemma holder_of_simps [simp]: "holder_of (k, epoch, cacheable, stale) = (k, epoch, stale)"
  by (simp add: holder_of_def)

text \<open>The epoch of an entry is above the epoch of every invalidated holder of its key.\<close>

definition stale_ok :: "('k, 'o) pool_world \<Rightarrow> bool" where
  "stale_ok w \<longleftrightarrow> (\<forall>(k, epoch, stale) \<in> set (holders w). \<forall>e. map_of (ps_entries (pw_pool w)) k = Some e
     \<longrightarrow> epoch \<le> pe_epoch e \<and> (stale \<longrightarrow> epoch < pe_epoch e))"

text \<open>Without targeted eviction, all entries have the global epoch.\<close>

definition one_epoch :: "('k, 'o) pool_world \<Rightarrow> bool" where
  "one_epoch w \<longleftrightarrow> (\<forall>k e. map_of (ps_entries (pw_pool w)) k = Some e \<longrightarrow> pe_epoch e = ps_global_epoch (pw_pool w))"

text \<open>How a section changes the epochs of the entries that were there before.\<close>

definition epochs_kept :: "('k, 'o) pool_state \<Rightarrow> ('k, 'o) pool_state \<Rightarrow> bool" where
  "epochs_kept s s' \<longleftrightarrow> ps_global_epoch s' = ps_global_epoch s
     \<and> (\<forall>k e'. map_of (ps_entries s') k = Some e' \<longrightarrow> (\<exists>e. map_of (ps_entries s) k = Some e \<and> pe_epoch e' = pe_epoch e))"

lemma epochs_kept_refl [simp]: "epochs_kept s s"
  by (simp add: epochs_kept_def)

lemma epochs_kept_trans: "epochs_kept s s' \<Longrightarrow> epochs_kept s' s'' \<Longrightarrow> epochs_kept s s''"
  unfolding epochs_kept_def by metis

lemma epochs_kept_retain: "distinct (map fst (ps_entries s)) \<Longrightarrow> epochs_kept s (retain_live s)"
  by (auto simp: epochs_kept_def retain_live_def map_of_filter_distinct split: option.splits if_splits)

lemma epochs_kept_update:
  "(\<And>e. pe_epoch (f e) = pe_epoch e) \<Longrightarrow> ps_entries s' = update_entry key f (ps_entries s) \<Longrightarrow> ps_global_epoch s' = ps_global_epoch s
     \<Longrightarrow> epochs_kept s s'"
  by (auto simp: epochs_kept_def split: if_splits)

lemma epochs_kept_released:
  assumes "distinct (map fst (ps_entries s))" and "\<And>e. pe_epoch (f e) = pe_epoch e"
  shows "epochs_kept s (retain_live (s\<lparr>ps_entries := update_entry key f (ps_entries s)\<rparr>))"
  using assms by (intro epochs_kept_trans [OF epochs_kept_update epochs_kept_retain]) auto

lemma epochs_kept_evict:
  assumes "world_ok bytes limits w" and "evict_lru bytes limits requested (pw_pool w) = (victims, s')"
  shows "epochs_kept (pw_pool w) s'" and "distinct (map fst (ps_entries s'))" and "ps_next_owner_id s' = ps_next_owner_id (pw_pool w)"
proof -
  have ok: "store_ok bytes (pw_pool w)" "permits_ok limits (pw_active w) (pw_builders w) (pw_pool w)" using assms(1) by (simp_all add: world_ok_def)
  note r = evict_lru_ok [OF assms(2) ok]
  have "\<exists>e. map_of (ps_entries (pw_pool w)) k = Some e \<and> pe_epoch e' = pe_epoch e" if e: "map_of (ps_entries s') k = Some e'" for k e'
  proof -
    have "map_option pe_epoch (map_of (ps_entries (pw_pool w)) k) = Some (pe_epoch e')" using r [of k] e by simp
    then show ?thesis by auto
  qed
  then show "epochs_kept (pw_pool w) s'" using r by (simp add: epochs_kept_def)
  show "distinct (map fst (ps_entries s'))" "ps_next_owner_id s' = ps_next_owner_id (pw_pool w)"
    using r by (simp_all add: store_ok_def)
qed

lemma stale_okI:
  assumes "stale_ok w" and "epochs_kept (pw_pool w) (pw_pool w')"
    and "\<And>k epoch stale e. (k, epoch, stale) \<in> set (holders w') \<Longrightarrow> (k, epoch, stale) \<in> set (holders w)
      \<or> (\<not> stale \<and> (map_of (ps_entries (pw_pool w')) k = Some e \<longrightarrow> epoch = pe_epoch e))"
  shows "stale_ok w'"
proof -
  have "epoch \<le> pe_epoch e \<and> (stale \<longrightarrow> epoch < pe_epoch e)"
    if h: "(k, epoch, stale) \<in> set (holders w')" and e: "map_of (ps_entries (pw_pool w')) k = Some e" for k epoch stale e
  proof (cases "(k, epoch, stale) \<in> set (holders w)")
    case True
    obtain e0 where e0: "map_of (ps_entries (pw_pool w)) k = Some e0" "pe_epoch e = pe_epoch e0" using assms(2) e by (auto simp: epochs_kept_def)
    have "epoch \<le> pe_epoch e0 \<and> (stale \<longrightarrow> epoch < pe_epoch e0)" using assms(1) True e0(1) unfolding stale_ok_def by fast
    then show ?thesis unfolding e0(2) .
  next
    case False
    then show ?thesis using assms(3) [OF h, of e] e by simp
  qed
  then show ?thesis unfolding stale_ok_def by fast
qed

text \<open>\<open>clear\<close> lifts every epoch; \<open>evict_where\<close> the epochs of the selected keys.\<close>

lemma stale_ok_invalidate:
  assumes st: "stale_ok w" and d: "distinct (map fst (ps_entries (pw_pool w)))"
    and h: "\<And>k e. map_of (ps_entries (pw_pool w)) k = Some e \<Longrightarrow> pe_epoch e \<le> pe_epoch (h k e) \<and> (p k \<longrightarrow> pe_epoch e < pe_epoch (h k e))"
    and s': "ps_entries s' = ps_entries (retain_live ((pw_pool w)\<lparr>ps_entries := map (\<lambda>(k, e). (k, h k e)) (ps_entries (pw_pool w))\<rparr>))"
  shows "stale_ok \<lparr>pw_pool = s', pw_active = mark_active p (pw_active w), pw_builders = mark_builders p (pw_builders w)\<rparr>"
proof -
  let ?w = "\<lparr>pw_pool = s', pw_active = mark_active p (pw_active w), pw_builders = mark_builders p (pw_builders w)\<rparr>"
  have keys: "map fst (map (\<lambda>(k, e). (k, h k e)) xs) = map fst xs" for xs by (induction xs) auto
  have old: "\<exists>e. map_of (ps_entries (pw_pool w)) k = Some e \<and> e' = h k e" if "map_of (ps_entries s') k = Some e'" for k e'
  proof -
    have dm: "distinct (map fst (map (\<lambda>(k, e). (k, h k e)) (ps_entries (pw_pool w))))" unfolding keys by (rule d)
    show ?thesis
      using that unfolding s' retain_live_def by (simp add: map_of_filter_distinct [OF dm] map_of_map_keyed split: option.splits if_splits)
  qed
  have hold: "\<exists>stale0. (k, epoch, stale0) \<in> set (holders w) \<and> (stale \<longrightarrow> stale0 \<or> p k)" if m: "(k, epoch, stale) \<in> set (holders ?w)" for k epoch stale
  proof -
    consider (active) c st0 where "(k, epoch, c, st0) \<in> set (pw_active w)" "stale = (st0 \<or> p k)"
      | (builder) st0 where "(k, epoch, st0) \<in> set (pw_builders w)" "stale = (st0 \<or> p k)"
      using m by (auto simp: holders_def mark_active_def mark_builders_def holder_of_def)
    then show ?thesis by cases (force simp: holders_def)+
  qed
  have "epoch \<le> pe_epoch e' \<and> (stale \<longrightarrow> epoch < pe_epoch e')"
    if m: "(k, epoch, stale) \<in> set (holders ?w)" and e: "map_of (ps_entries s') k = Some e'" for k epoch stale e'
  proof -
    obtain e0 where e0: "map_of (ps_entries (pw_pool w)) k = Some e0" "e' = h k e0" using old [OF e] by blast
    obtain stale0 where s0: "(k, epoch, stale0) \<in> set (holders w)" "stale \<longrightarrow> stale0 \<or> p k" using hold [OF m] by blast
    have "epoch \<le> pe_epoch e0 \<and> (stale0 \<longrightarrow> epoch < pe_epoch e0)" using st s0(1) e0(1) unfolding stale_ok_def by fast
    then show ?thesis using h [OF e0(1)] s0(2) by (auto simp: e0(2))
  qed
  then show ?thesis unfolding stale_ok_def by fastforce
qed

lemma set_remove_nth: "set (remove_nth i xs) \<subseteq> set xs"
  by (auto simp: remove_nth_def dest: in_set_takeD in_set_dropD)

text \<open>The sections that neither open entries nor invalidate any.\<close>

lemma return_epochs:
  assumes ok: "world_ok bytes limits w" and r: "return_commit bytes reusable limits key epoch cacheable owner (pw_pool w) = Some (cached, victims, s)"
  shows "epochs_kept (pw_pool w) s" and "ps_next_owner_id s \<le> max (ps_next_owner_id (pw_pool w)) (next_nonzero (ps_next_owner_id (pw_pool w)))"
    and "cached \<longrightarrow> epoch_attached key epoch (pw_pool w)"
proof -
  have d: "distinct (map fst (ps_entries (pw_pool w)))" using ok by (simp add: world_ok_def store_ok_def)
  obtain victims1 s1 where ev: "evict_lru bytes limits (bytes owner) (pw_pool w) = (victims1, s1)" by fastforce
  note e = epochs_kept_evict [OF ok ev]
  have kept: "epochs_kept s1 (retain_live (s1\<lparr>ps_next_owner_id := next_nonzero (ps_next_owner_id s1),
      ps_entries := update_entry key (\<lambda>e. e\<lparr>pe_idle := pe_idle e @ [x]\<rparr>) (ps_entries s1), ps_idle_lru := lru', ps_idle_entries := n', ps_idle_bytes := b'\<rparr>))"
    for x lru' n' b'
    using e(2) by (intro epochs_kept_trans [OF epochs_kept_update epochs_kept_retain]) auto
  have rel: "epochs_kept (pw_pool w) (retain_live ((pw_pool w)\<lparr>ps_entries := update_entry key (\<lambda>e. e\<lparr>pe_instances := pe_instances e - 1\<rparr>) (ps_entries (pw_pool w))\<rparr>))"
    by (rule epochs_kept_released [OF d]) simp
  show "epochs_kept (pw_pool w) s"
    using r rel epochs_kept_trans [OF e(1) kept] unfolding return_commit_def ev Let_def by (auto split: if_splits)
  show "ps_next_owner_id s \<le> max (ps_next_owner_id (pw_pool w)) (next_nonzero (ps_next_owner_id (pw_pool w)))"
    using r e(3) unfolding return_commit_def ev Let_def by (auto split: if_splits)
  show "cached \<longrightarrow> epoch_attached key epoch (pw_pool w)"
    using r unfolding return_commit_def ev Let_def by (auto split: if_splits)
qed

lemma finish_build_epochs:
  assumes "distinct (map fst (ps_entries s))" and "finish_build bytes limits key epoch built s = (r, s')"
  shows "epochs_kept s s' \<and> ps_next_owner_id s' = ps_next_owner_id s"
proof -
  let ?s = "s\<lparr>ps_entries := update_entry key (\<lambda>e. e\<lparr>pe_building := False\<rparr>) (ps_entries s)\<rparr>"
  have a: "epochs_kept s ?s" by (rule epochs_kept_update) auto
  have "epochs_kept ?s (release_failed_build key ?s)"
    unfolding release_failed_build_def using assms(1) by (intro epochs_kept_released) auto
  then show ?thesis
    using assms(2) a epochs_kept_trans [OF a] by (auto simp: finish_build_def Let_def release_failed_build_def split: option.splits)
qed

definition quiet_op :: "('k, 'o) pool_op \<Rightarrow> bool" where
  "quiet_op op = (case op of Checkout _ \<Rightarrow> False | Clear \<Rightarrow> False | EvictWhere _ \<Rightarrow> False | _ \<Rightarrow> True)"

lemma quiet_step:
  assumes ok: "world_ok bytes limits w" and "quiet_op op"
  shows "epochs_kept (pw_pool w) (pw_pool (snd (pool_step bytes reusable limits w op)))"
    and "set (holders (snd (pool_step bytes reusable limits w op))) \<subseteq> set (holders w)"
    and "ps_next_owner_id (pw_pool (snd (pool_step bytes reusable limits w op)))
      \<le> max (ps_next_owner_id (pw_pool w)) (next_nonzero (ps_next_owner_id (pw_pool w)))"
proof -
  have d: "distinct (map fst (ps_entries (pw_pool w)))" using ok by (simp add: world_ok_def store_ok_def)
  note removed = set_remove_nth [THEN subsetD]
  have "epochs_kept (pw_pool w) (pw_pool (snd (pool_step bytes reusable limits w op)))
    \<and> set (holders (snd (pool_step bytes reusable limits w op))) \<subseteq> set (holders w)
    \<and> ps_next_owner_id (pw_pool (snd (pool_step bytes reusable limits w op)))
      \<le> max (ps_next_owner_id (pw_pool w)) (next_nonzero (ps_next_owner_id (pw_pool w)))"
  proof (cases op)
    case (MakeRoom requested)
    obtain victims s1 where ev: "evict_lru bytes limits requested (pw_pool w) = (victims, s1)" by fastforce
    note e = epochs_kept_evict [OF ok ev]
    show ?thesis using e epochs_kept_trans [OF e(1) epochs_kept_retain [OF e(2)]]
      by (auto simp: MakeRoom make_room_for_def ev holders_def)
  next
    case (FinishBuild i built)
    show ?thesis
    proof (cases "i < length (pw_builders w)")
      case True
      obtain key epoch stale where b: "pw_builders w ! i = (key, epoch, stale)" by (cases "pw_builders w ! i")
      then have m: "(key, epoch, stale) \<in> set (pw_builders w)" using True by (metis nth_mem)
      obtain r s' where f: "finish_build bytes limits key epoch built (pw_pool w) = (r, s')" by fastforce
      show ?thesis using finish_build_epochs [OF d f] True b f m by (auto simp: FinishBuild holders_def dest: removed split: option.split)
    qed (simp add: FinishBuild)
  next
    case (Return i owner)
    show ?thesis
    proof (cases "i < length (pw_active w)")
      case True
      obtain key epoch cacheable stale where a: "pw_active w ! i = (key, epoch, cacheable, stale)" by (cases "pw_active w ! i")
      show ?thesis using return_epochs [OF ok, of reusable key epoch cacheable owner] True a
        by (auto simp: Return holders_def dest: removed split: option.split)
    qed (simp add: Return)
  next
    case (Discard i)
    have "epochs_kept (pw_pool w) (return_dropped key (pw_pool w)) \<and> ps_next_owner_id (return_dropped key (pw_pool w)) = ps_next_owner_id (pw_pool w)" for key
      unfolding return_dropped_def using epochs_kept_released [OF d] by simp
    then show ?thesis by (auto simp: Discard holders_def dest: removed)
  qed (use assms(2) in \<open>simp_all add: quiet_op_def\<close>)
  then show "epochs_kept (pw_pool w) (pw_pool (snd (pool_step bytes reusable limits w op)))"
    "set (holders (snd (pool_step bytes reusable limits w op))) \<subseteq> set (holders w)"
    "ps_next_owner_id (pw_pool (snd (pool_step bytes reusable limits w op)))
      \<le> max (ps_next_owner_id (pw_pool w)) (next_nonzero (ps_next_owner_id (pw_pool w)))" by blast+
qed

lemma checkout_epochs:
  assumes c: "checkout_section bytes limits key s = (r, s')"
  shows "ps_global_epoch s' = ps_global_epoch s \<and> ps_next_owner_id s' = ps_next_owner_id s"
    and "map_of (ps_entries s') k = Some e' \<Longrightarrow> (\<exists>e. map_of (ps_entries s) k = Some e \<and> pe_epoch e' = pe_epoch e)
      \<or> (k = key \<and> map_of (ps_entries s) key = None \<and> pe_epoch e' = ps_global_epoch s)"
    and "r = Reused owner epoch \<or> r = BuildSlot epoch \<Longrightarrow> map_of (ps_entries s') key = Some e' \<Longrightarrow> pe_epoch e' = epoch"
proof -
  show "ps_global_epoch s' = ps_global_epoch s \<and> ps_next_owner_id s' = ps_next_owner_id s"
    using c by (auto simp: checkout_section_def Let_def split: if_splits option.splits)
  show "map_of (ps_entries s') k = Some e' \<Longrightarrow> (\<exists>e. map_of (ps_entries s) k = Some e \<and> pe_epoch e' = pe_epoch e)
      \<or> (k = key \<and> map_of (ps_entries s) key = None \<and> pe_epoch e' = ps_global_epoch s)"
    using c by (cases "map_of (ps_entries s) key")
      (auto simp: checkout_section_def Let_def pool_entry_new_def map_add_def split: if_splits option.splits)
  show "r = Reused owner epoch \<or> r = BuildSlot epoch \<Longrightarrow> map_of (ps_entries s') key = Some e' \<Longrightarrow> pe_epoch e' = epoch"
    using c by (cases "map_of (ps_entries s) key")
      (auto simp: checkout_section_def Let_def pool_entry_new_def map_add_def split: if_splits option.splits)
qed

lemma holder_held: "(k, epoch, stale) \<in> set (holders w) \<Longrightarrow> 0 < held_by k (pw_active w) \<or> 0 < held_by k (pw_builders w)"
  by (force simp: holders_def held_by_def holder_of_def filter_empty_conv)

lemma checkout_stale:
  assumes ok: "world_ok bytes limits w" and st: "stale_ok w"
  shows "stale_ok (snd (pool_step bytes reusable limits w (Checkout key)))"
    (is "stale_ok ?w")
proof -
  obtain r s' where c: "checkout_section bytes limits key (pw_pool w) = (r, s')" by fastforce
  note ep = checkout_epochs [OF c]
  have w: "pw_pool ?w = s'" using c by (auto split: checkout_step.split)
  have new: "(k, epoch, stale) \<in> set (holders w) \<or> (k = key \<and> \<not> stale \<and> (\<exists>owner. r = Reused owner epoch \<or> r = BuildSlot epoch))"
    if "(k, epoch, stale) \<in> set (holders ?w)" for k epoch stale
    using that c by (cases r) (auto simp: holders_def)
  have "epoch \<le> pe_epoch e' \<and> (stale \<longrightarrow> epoch < pe_epoch e')"
    if h: "(k, epoch, stale) \<in> set (holders ?w)" and e': "map_of (ps_entries s') k = Some e'" for k epoch stale e'
  proof (cases "(k, epoch, stale) \<in> set (holders w)")
    case True
    have "map_of (ps_entries (pw_pool w)) k \<noteq> None"
      using holder_entry [of limits "pw_active w" "pw_builders w" "pw_pool w" k] holder_held [OF True] ok by (auto simp: world_ok_def)
    then obtain e where e: "map_of (ps_entries (pw_pool w)) k = Some e" "pe_epoch e' = pe_epoch e" using ep(2) [OF e'] by auto
    have "epoch \<le> pe_epoch e \<and> (stale \<longrightarrow> epoch < pe_epoch e)" using st True e(1) unfolding stale_ok_def by fast
    then show ?thesis unfolding e(2) .
  next
    case False
    then show ?thesis using new [OF h] ep(3) e' by auto
  qed
  then show ?thesis unfolding stale_ok_def w by fast
qed

text \<open>One step of the whole: the clock advances by at most one, and the epochs stay in order.\<close>

definition epochs_advance :: "nat \<Rightarrow> ('k, 'o) pool_op \<Rightarrow> ('k, 'o) pool_world \<Rightarrow> ('k, 'o) pool_world \<Rightarrow> bool" where
  "epochs_advance n op w w' \<longleftrightarrow> clock_ok (n + 1) w' \<and> stale_ok w' \<and> ((\<forall>p. op \<noteq> EvictWhere p) \<longrightarrow> one_epoch w \<longrightarrow> one_epoch w')"

lemma next_nonzero_small: "m \<le> n \<Longrightarrow> n + 1 < u64_limit \<Longrightarrow> next_nonzero m = m + 1"
  by (simp add: next_nonzero_def u64_add_def)

lemma clock_okD:
  assumes "clock_ok n w"
  shows "ps_next_owner_id (pw_pool w) \<le> n" and "ps_global_epoch (pw_pool w) \<le> n"
    and "map_of (ps_entries (pw_pool w)) k = Some e \<Longrightarrow> pe_epoch e \<le> n"
  using assms by (simp_all add: clock_ok_def)

lemma quiet_advances:
  assumes "world_ok bytes limits w" and "quiet_op op" and "clock_ok n w" and "n + 1 < u64_limit" and "stale_ok w"
  shows "epochs_advance n op w (snd (pool_step bytes reusable limits w op))"
proof -
  define w' where "w' = snd (pool_step bytes reusable limits w op)"
  note q = quiet_step [OF assms(1,2), of reusable, folded w'_def] and cl = clock_okD [OF assms(3)]
  have "stale_ok w'" by (rule stale_okI [OF assms(5) q(1)]) (use q(2) in blast)
  moreover have "clock_ok (n + 1) w'"
    using q(1,3) cl next_nonzero_small [OF cl(1) assms(4)] by (fastforce simp: clock_ok_def epochs_kept_def)
  moreover have "one_epoch w \<longrightarrow> one_epoch w'" using q(1) unfolding one_epoch_def epochs_kept_def by metis
  ultimately show ?thesis unfolding epochs_advance_def w'_def by blast
qed

lemma checkout_advances:
  assumes "world_ok bytes limits w" and "clock_ok n w" and "stale_ok w"
  shows "epochs_advance n (Checkout key) w (snd (pool_step bytes reusable limits w (Checkout key)))"
proof -
  define w' where "w' = snd (pool_step bytes reusable limits w (Checkout key))"
  obtain r s' where c: "checkout_section bytes limits key (pw_pool w) = (r, s')" by fastforce
  have w': "pw_pool w' = s'" using c by (auto simp: w'_def split: checkout_step.split)
  note ep = checkout_epochs(1,2) [OF c, folded w'] and cl = clock_okD [OF assms(2)]
  have e: "pe_epoch e' \<le> n" if "map_of (ps_entries (pw_pool w')) k = Some e'" for k e'
    using ep(2) [OF that] cl(2,3) by auto
  have "clock_ok (n + 1) w'" unfolding clock_ok_def using ep(1) e cl(1,2) by (auto simp: le_Suc_eq)
  moreover have "one_epoch w \<longrightarrow> one_epoch w'" using ep(1) ep(2) unfolding one_epoch_def by metis
  moreover have "stale_ok w'" unfolding w'_def by (rule checkout_stale [OF assms(1,3)])
  ultimately show ?thesis unfolding epochs_advance_def w'_def by blast
qed

lemma invalidate_clock:
  assumes "\<And>k e. map_of (ps_entries (pw_pool w)) k = Some e \<Longrightarrow> pe_epoch (h k e) \<le> n + 1"
    and "distinct (map fst (ps_entries (pw_pool w)))"
    and "ps_entries (pw_pool w') = ps_entries (retain_live ((pw_pool w)\<lparr>ps_entries := map (\<lambda>(k, e). (k, h k e)) (ps_entries (pw_pool w))\<rparr>))"
    and "ps_next_owner_id (pw_pool w') \<le> n + 1" and "ps_global_epoch (pw_pool w') \<le> n + 1"
  shows "clock_ok (n + 1) w'" and "map_of (ps_entries (pw_pool w')) k = Some e' \<Longrightarrow> \<exists>e. map_of (ps_entries (pw_pool w)) k = Some e \<and> e' = h k e"
proof -
  have keys: "map fst (map (\<lambda>(k, e). (k, h k e)) xs) = map fst xs" for xs by (induction xs) auto
  have dm: "distinct (map fst (map (\<lambda>(k, e). (k, h k e)) (ps_entries (pw_pool w))))" unfolding keys by (rule assms(2))
  show old: "\<exists>e. map_of (ps_entries (pw_pool w)) k = Some e \<and> e' = h k e" if "map_of (ps_entries (pw_pool w')) k = Some e'" for k e'
    using that unfolding assms(3) retain_live_def by (simp add: map_of_filter_distinct [OF dm] map_of_map_keyed split: option.splits if_splits)
  show "clock_ok (n + 1) w'" using assms(1,4,5) old unfolding clock_ok_def by blast
qed

lemma clear_advances:
  fixes w :: "('k, 'o) pool_world"
  assumes "world_ok bytes limits w" and "clock_ok n w" and "n + 1 < u64_limit" and "stale_ok w" and one: "one_epoch w"
  shows "epochs_advance n Clear w (snd (pool_step bytes reusable limits w Clear))"
proof -
  define w' where "w' = snd (pool_step bytes reusable limits w Clear)"
  define h where "h = (\<lambda>(k :: 'k) (e :: 'o pool_entry). e\<lparr>pe_epoch := next_nonzero (ps_global_epoch (pw_pool w)),
    pe_instances := pe_instances e - length (pe_idle e), pe_idle := []\<rparr>)"
  note cl = clock_okD [OF assms(2)]
  have nz: "next_nonzero (ps_global_epoch (pw_pool w)) = ps_global_epoch (pw_pool w) + 1" by (rule next_nonzero_small [OF cl(2) assms(3)])
  have d: "distinct (map fst (ps_entries (pw_pool w)))" using assms(1) by (simp add: world_ok_def store_ok_def)
  have en: "ps_entries (pw_pool w') = ps_entries (retain_live ((pw_pool w)\<lparr>ps_entries := map (\<lambda>(k, e). (k, h k e)) (ps_entries (pw_pool w))\<rparr>))"
    by (simp add: w'_def pool_clear_def Let_def h_def retain_live_def)
  have fields: "ps_next_owner_id (pw_pool w') = ps_next_owner_id (pw_pool w)" "ps_global_epoch (pw_pool w') = ps_global_epoch (pw_pool w) + 1"
    "pw_active w' = mark_active (\<lambda>_. True) (pw_active w)" "pw_builders w' = mark_builders (\<lambda>_. True) (pw_builders w)"
    by (simp_all add: w'_def pool_clear_def Let_def nz)
  have inv: "clock_ok (n + 1) w'" "\<And>k e'. map_of (ps_entries (pw_pool w')) k = Some e' \<Longrightarrow> \<exists>e. map_of (ps_entries (pw_pool w)) k = Some e \<and> e' = h k e"
    using invalidate_clock [where h = h and n = n, OF _ d en] cl fields nz by (auto simp: h_def)
  have "stale_ok \<lparr>pw_pool = pw_pool w', pw_active = mark_active (\<lambda>_. True) (pw_active w), pw_builders = mark_builders (\<lambda>_. True) (pw_builders w)\<rparr>"
    by (rule stale_ok_invalidate [OF assms(4) d _ en]) (use one in \<open>auto simp: h_def nz one_epoch_def\<close>)
  then have "stale_ok w'" unfolding fields(3,4) [symmetric] by (simp add: stale_ok_def holders_def)
  moreover have "pe_epoch e' = ps_global_epoch (pw_pool w')" if "map_of (ps_entries (pw_pool w')) k = Some e'" for k e'
    using inv(2) [OF that] by (auto simp: h_def nz fields(2))
  then have "one_epoch w'" by (simp add: one_epoch_def)
  ultimately show ?thesis using inv(1) unfolding epochs_advance_def w'_def by blast
qed

lemma evict_advances:
  fixes w :: "('k, 'o) pool_world"
  assumes "world_ok bytes limits w" and "limits_ok limits" and "clock_ok n w" and "n + 1 < u64_limit" and "stale_ok w"
  shows "epochs_advance n (EvictWhere p) w (snd (pool_step bytes reusable limits w (EvictWhere p)))"
proof -
  define w' where "w' = snd (pool_step bytes reusable limits w (EvictWhere p))"
  define h where "h = (\<lambda>(k :: 'k) (e :: 'o pool_entry). if p k then e\<lparr>pe_epoch := next_nonzero (pe_epoch e),
    pe_instances := pe_instances e - length (pe_idle e), pe_idle := []\<rparr> else e)"
  note cl = clock_okD [OF assms(3)]
  have nz: "next_nonzero (pe_epoch e) = pe_epoch e + 1" if "map_of (ps_entries (pw_pool w)) k = Some e" for k e
    by (rule next_nonzero_small [OF cl(3) [OF that] assms(4)])
  have d: "distinct (map fst (ps_entries (pw_pool w)))" using assms(1) by (simp add: world_ok_def store_ok_def)
  have "fst (pool_step bytes reusable limits w (EvictWhere p)) \<noteq> Panicked" using evict_where_ok [OF assms(1,2)] by blast
  then obtain victims s' where ev: "evict_where bytes p (pw_pool w) = Some (victims, s')" by (cases "evict_where bytes p (pw_pool w)") auto
  have evd: "map (\<lambda>(k, e). if p k then (k, e\<lparr>pe_epoch := next_nonzero (pe_epoch e),
      pe_instances := pe_instances e - length (pe_idle e), pe_idle := []\<rparr>) else (k, e)) (ps_entries (pw_pool w))
    = map (\<lambda>(k, e). (k, h k e)) (ps_entries (pw_pool w))" by (auto simp: h_def)
  have w': "pw_pool w' = s'" "pw_active w' = mark_active p (pw_active w)" "pw_builders w' = mark_builders p (pw_builders w)"
    by (simp_all add: w'_def ev)
  have en: "ps_entries (pw_pool w') = ps_entries (retain_live ((pw_pool w)\<lparr>ps_entries := map (\<lambda>(k, e). (k, h k e)) (ps_entries (pw_pool w))\<rparr>))"
    and fields: "ps_next_owner_id (pw_pool w') = ps_next_owner_id (pw_pool w)" "ps_global_epoch (pw_pool w') = ps_global_epoch (pw_pool w)"
    unfolding w' using ev unfolding evict_where_def Let_def evd by (auto split: if_splits)
  have "clock_ok (n + 1) w'"
    using invalidate_clock(1) [where h = h and n = n, OF _ d en] cl fields nz by (fastforce simp: h_def)
  moreover have "stale_ok \<lparr>pw_pool = pw_pool w', pw_active = mark_active p (pw_active w), pw_builders = mark_builders p (pw_builders w)\<rparr>"
    by (rule stale_ok_invalidate [OF assms(5) d _ en]) (auto simp: h_def nz)
  then have "stale_ok w'" unfolding w'(2,3) [symmetric] by (simp add: stale_ok_def holders_def)
  ultimately show ?thesis unfolding epochs_advance_def w'_def by blast
qed

section \<open>Guarantees\<close>

lemma next_id_step:
  assumes "world_ok bytes limits w" and "limits_ok limits" and "ps_next_owner_id (pw_pool w) \<le> n" and "n + 1 < u64_limit"
  shows "ps_next_owner_id (pw_pool (snd (pool_step bytes reusable limits w op))) \<le> n + 1"
proof -
  consider (quiet) "quiet_op op" | (checkout) key where "op = Checkout key" | (clear) "op = Clear" | (evict) p where "op = EvictWhere p"
    by (cases op) (simp_all add: quiet_op_def)
  then show ?thesis
  proof cases
    case quiet
    then show ?thesis using quiet_step(3) [OF assms(1) quiet, of reusable] next_nonzero_small [OF assms(3,4)] assms(3) by linarith
  next
    case checkout
    obtain r s' where c: "checkout_section bytes limits key (pw_pool w) = (r, s')" by fastforce
    then show ?thesis using checkout_epochs(1) [OF c] assms(3) by (auto simp: checkout split: checkout_step.split)
  next
    case clear
    then show ?thesis using assms(3) by (simp add: pool_clear_def Let_def)
  next
    case evict
    then show ?thesis using assms(3) by (auto simp: evict_where_def Let_def split: option.split if_splits)
  qed
qed

lemma pool_run_ok:
  assumes "world_ok bytes limits w" and "limits_ok limits" and "ps_next_owner_id (pw_pool w) \<le> n" and "n + length ops < u64_limit"
  shows "Panicked \<notin> set (fst (run (pool_step bytes reusable limits) w ops))
    \<and> world_ok bytes limits (snd (run (pool_step bytes reusable limits) w ops))"
  using assms
proof (induction ops arbitrary: w n)
  case (Cons op ops)
  have "fst (pool_step bytes reusable limits w op) \<noteq> Panicked \<and> world_ok bytes limits (snd (pool_step bytes reusable limits w op))"
    using Cons(2-5) by (intro pool_step_ok) simp_all
  moreover have "ps_next_owner_id (pw_pool (snd (pool_step bytes reusable limits w op))) \<le> n + 1"
    using Cons(2-5) by (intro next_id_step) simp_all
  ultimately show ?case using Cons(1) [of "snd (pool_step bytes reusable limits w op)" "n + 1"] Cons(3,5) by auto
qed simp

lemma pool_start_ok: "world_ok bytes limits pool_start" "stale_ok pool_start" "one_epoch pool_start" "clock_ok 1 pool_start"
  by (simp_all add: pool_start_def pool_state_default_def world_ok_def store_ok_def within_limits_def permits_ok_def
      live_entries_def stale_ok_def holders_def one_epoch_def clock_ok_def)

lemma step_advances:
  assumes "world_ok bytes limits w" and "limits_ok limits" and "clock_ok n w" and "n + 1 < u64_limit" and "stale_ok w"
    and "op = Clear \<Longrightarrow> one_epoch w"
  shows "epochs_advance n op w (snd (pool_step bytes reusable limits w op))"
proof -
  consider (quiet) "quiet_op op" | (checkout) key where "op = Checkout key" | (clear) "op = Clear" | (evict) p where "op = EvictWhere p"
    by (cases op) (simp_all add: quiet_op_def)
  then show ?thesis
  proof cases
    case quiet
    then show ?thesis by (rule quiet_advances [OF assms(1) _ assms(3-5)])
  next
    case checkout
    then show ?thesis using checkout_advances [OF assms(1,3,5)] by blast
  next
    case clear
    then show ?thesis using clear_advances [OF assms(1,3,4,5)] assms(6) by blast
  next
    case evict
    then show ?thesis using evict_advances [OF assms(1-5)] by blast
  qed
qed

lemma stale_run:
  assumes "world_ok bytes limits w" and "limits_ok limits" and "clock_ok n w" and "n + length ops < u64_limit" and "stale_ok w"
    and "Clear \<notin> set ops \<or> ((\<forall>p. EvictWhere p \<notin> set ops) \<and> one_epoch w)"
  shows "PutBack True True \<notin> set (fst (run (pool_step bytes reusable limits) w ops))"
  using assms
proof (induction ops arbitrary: w n)
  case (Cons op ops)
  define w' where "w' = snd (pool_step bytes reusable limits w op)"
  have n: "n + 1 < u64_limit" using Cons(5) by simp
  have "world_ok bytes limits w'" unfolding w'_def using clock_okD(1) [OF Cons(4)] n Cons(2,3) by (intro pool_step_ok [THEN conjunct2]) simp_all
  moreover have "epochs_advance n op w w'" unfolding w'_def by (rule step_advances [OF Cons(2-4) n Cons(6)]) (use Cons(7) in auto)
  ultimately have "PutBack True True \<notin> set (fst (run (pool_step bytes reusable limits) w' ops))"
    using Cons(1) [of w' "n + 1"] Cons(3,5,7) by (auto simp: epochs_advance_def)
  moreover have "fst (pool_step bytes reusable limits w op) \<noteq> PutBack True True"
  proof (cases op)
    case (Return i owner)
    show ?thesis
    proof (cases "i < length (pw_active w)")
      case True
      obtain key epoch cacheable stale where a: "pw_active w ! i = (key, epoch, cacheable, stale)" by (cases "pw_active w ! i")
      have "(key, epoch, cacheable, stale) \<in> set (pw_active w)" using True a by (metis nth_mem)
      then have "(key, epoch, stale) \<in> set (holders w)" by (force simp: holders_def)
      then have "\<not> (stale \<and> epoch_attached key epoch (pw_pool w))"
        using Cons(6) by (fastforce simp: stale_ok_def epoch_attached_def split: option.splits)
      then show ?thesis using return_epochs(3) [OF Cons(2)] True a by (auto simp: Return split: option.splits)
    qed (simp add: Return)
  qed (auto split: prod.splits checkout_step.splits option.splits)
  ultimately show ?case by (simp add: w'_def)
qed simp

text \<open>
  C17. The books of the pool are exact under every interleaving of its critical sections: no section
  runs into one of its panics, so the mutex is never poisoned; every key has at most its permits,
  counting idle, checked out and half-built owners, and at most one builder; the counters of idle
  owners and idle bytes are exact and within the limits; and the LRU list has each idle owner once.
\<close>

theorem pool_books_exact:
  assumes "limits_ok limits" and "length ops < u64_max"
  shows "Panicked \<notin> set (fst (run (pool_step bytes reusable limits) pool_start ops))
    \<and> world_ok bytes limits (snd (run (pool_step bytes reusable limits) pool_start ops))"
  using pool_run_ok [OF pool_start_ok(1) assms(1), of 1 ops bytes] assms(2)
  by (simp add: pool_start_def pool_state_default_def)

text \<open>
  C18. An owner that was invalidated while it was checked out or under construction never comes back
  into the pool, as long as a run uses only one of the two ways to invalidate, \<open>clear\<close> or
  \<open>evict_where\<close>.
\<close>

theorem invalidated_owner_never_returns:
  assumes "limits_ok limits" and "length ops < u64_max"
    and "Clear \<notin> set ops \<or> (\<forall>p. EvictWhere p \<notin> set ops)"
  shows "PutBack True True \<notin> set (fst (run (pool_step bytes reusable limits) pool_start ops))"
  using assms pool_start_ok by (intro stale_run [where n = 1]) auto

definition sample_limits :: pool_limits where
  "sample_limits = \<lparr>pl_max_idle_entries = 2, pl_max_idle_bytes = 100, pl_max_instances = 2\<rparr>"

lemma sample_limits_ok: "limits_ok sample_limits"
  by (simp add: limits_ok_def sample_limits_def)

theorem pool_books_exact_witness:
  "Panicked \<notin> set (fst (run (pool_step (\<lambda>_. 1) (\<lambda>_. True) sample_limits) pool_start
       [Checkout ''k'', FinishBuild 0 (Some (1, True)), Return 0 True, Checkout ''k'', EvictWhere (\<lambda>_. True), Clear]))
   \<and> world_ok (\<lambda>_. 1) sample_limits (snd (run (pool_step (\<lambda>_. 1) (\<lambda>_. True) sample_limits) pool_start
       [Checkout ''k'', FinishBuild 0 (Some (1, True)), Return 0 True, Checkout ''k'', EvictWhere (\<lambda>_. True), Clear]))"
  by (rule pool_books_exact [OF sample_limits_ok]) simp

theorem invalidated_owner_never_returns_witness:
  "PutBack True True \<notin> set (fst (run (pool_step (\<lambda>_. 1) (\<lambda>_. True) sample_limits) pool_start
     [Checkout ''k'', FinishBuild 0 (Some (1, True)), Clear, Return 0 True]))"
  by (rule invalidated_owner_never_returns [OF sample_limits_ok]) simp_all

text \<open>The idle owners of a key, counted in the LRU list.\<close>

lemma held_by_mset: "held_by k xs = size (filter_mset (\<lambda>x. fst x = k) (mset xs))"
  by (simp add: held_by_def flip: mset_filter)

lemma idle_of_key:
  "distinct (map fst xs) \<Longrightarrow> size (filter_mset (\<lambda>x. fst x = k) (idle_mset xs)) = (case map_of xs k of None \<Rightarrow> 0 | Some e \<Rightarrow> length (pe_idle e))"
proof (induction xs)
  case (Cons x xs)
  obtain k' e where x: "x = (k', e)" by (cases x)
  have "filter_mset (\<lambda>y. fst y = k) (image_mset (Pair k') (mset (pe_idle e))) = (if k' = k then image_mset (Pair k') (mset (pe_idle e)) else {#})"
    by (simp add: filter_mset_image_mset)
  moreover have "map_of xs k' = None" using Cons(2) x by (simp add: map_of_eq_None_iff)
  ultimately show ?case using Cons x by (auto split: option.splits)
qed simp

lemma idle_in_lru:
  assumes "store_ok bytes s"
  shows "held_by k (ps_idle_lru s) = (case map_of (ps_entries s) k of None \<Rightarrow> 0 | Some e \<Rightarrow> length (pe_idle e))"
proof -
  have "mset (ps_idle_lru s) = image_mset idle_ref (idle_mset (ps_entries s))" "distinct (map fst (ps_entries s))"
    using assms by (simp_all add: store_ok_def)
  then show ?thesis unfolding held_by_mset by (simp add: filter_mset_image_mset idle_ref_def idle_of_key)
qed

text \<open>
  C19. A thread waits for a runtime only while others can wake it: the key has no idle owner, and
  either another thread is building one or all permits of the key are checked out. In particular a
  key that nobody holds is handed out or built at once, after any history of failed builds,
  rollbacks and invalidations.
\<close>

theorem checkout_waits_for_holders_only:
  assumes "limits_ok limits" and "length ops < u64_max" and "w = snd (run (pool_step bytes reusable limits) pool_start ops)"
  shows "fst (pool_step bytes reusable limits w (Checkout key)) = Waits
    \<longleftrightarrow> held_by key (ps_idle_lru (pw_pool w)) = 0
        \<and> (0 < held_by key (pw_builders w) \<or> held_by key (pw_active w) = pl_max_instances limits)"
proof -
  have ok: "world_ok bytes limits w"
    using pool_run_ok [OF pool_start_ok(1) assms(1), of 1 ops bytes] assms(2,3) by (simp add: pool_start_def pool_state_default_def)
  then have idle: "held_by key (ps_idle_lru (pw_pool w)) = (case map_of (ps_entries (pw_pool w)) key of None \<Rightarrow> 0 | Some e \<Rightarrow> length (pe_idle e))"
    using idle_in_lru [of bytes "pw_pool w" key] by (simp add: world_ok_def)
  have at: "permit_at limits (held_by key (pw_active w)) (held_by key (pw_builders w)) (map_of (ps_entries (pw_pool w)) key)"
    using ok by (simp add: world_ok_def permits_ok_def)
  show ?thesis
  proof (cases "map_of (ps_entries (pw_pool w)) key")
    case None
    then show ?thesis using at assms(1) by (simp add: checkout_section_def Let_def pool_entry_new_def limits_ok_def map_add_def)
  next
    case (Some e)
    then show ?thesis using at idle by (auto simp: checkout_section_def Let_def of_bool_def split: if_splits)
  qed
qed

theorem checkout_waits_for_holders_only_witness:
  "let w = snd (run (pool_step (\<lambda>_. 1) (\<lambda>_. True) sample_limits) pool_start [Checkout ''k'', FinishBuild 0 (Some (1, True)), Checkout ''k''])
   in fst (pool_step (\<lambda>_. 1) (\<lambda>_. True) sample_limits w (Checkout ''k'')) = Waits
     \<longleftrightarrow> held_by ''k'' (ps_idle_lru (pw_pool w)) = 0
        \<and> (0 < held_by ''k'' (pw_builders w) \<or> held_by ''k'' (pw_active w) = pl_max_instances sample_limits)"
  unfolding Let_def by (rule checkout_waits_for_holders_only [OF sample_limits_ok _ refl]) simp

text \<open>
  With both ways in one run the promise of \<open>clear\<close> fails: an owner is checked out, the key is
  evicted, a second owner of the key is built under the new epoch, and \<open>clear\<close> then sets the same
  epoch from the global counter, so that the second owner, although invalidated, goes back into the
  pool and is handed out again.
\<close>

lemma clear_after_evict_resurrects:
  "fst (run (pool_step (\<lambda>_. 1) (\<lambda>_. True) sample_limits) pool_start
     [Checkout ''k'', FinishBuild 0 (Some (1, 10 :: nat)), EvictWhere (\<lambda>k. k = ''k''), Checkout ''k'', FinishBuild 0 (Some (1, 20)),
      Clear, Return 1 20, Checkout ''k''])
   = [Builds, Built True, Dropped [], Builds, Built True, Dropped [], PutBack True True, HandedOut 20]"
  by (simp add: sample_limits_def pool_start_def pool_state_default_def checkout_section_def finish_build_def return_commit_def pool_clear_def
      evict_where_def epoch_attached_def update_entry_def retain_live_def pool_entry_new_def next_nonzero_def u64_add_def
      idle_bytes_total_def entry_owners_def evict_lru.simps needs_room_def mark_active_def mark_builders_def remove_nth_def)

end
