(* ===== verification/Ctc_Decode.thy ===== *)
theory Ctc_Decode
  imports Longform_Window
begin

text \<open>
  The greedy decoder of the CTC families (\<open>crates/openasr-core/src/models/ctc_greedy_decode.rs\<close>):
  the best label of every frame, runs of equal labels collapsed, the blank dropped, each token with
  the frames of its run. The arithmetic of the confidences (softmax, sum, mean, clamp) is a
  parameter, as are the detokenizer and the search with hotwords that replaces the greedy path when
  phrases are configured. Labels are natural numbers: the cast of an index to \<open>u32\<close> is exact for
  vocabularies of at most 2^32 labels.
\<close>

section \<open>Data\<close>

record 'b ctc_greedy_decode_config =
  cc_blank_token_id :: nat
  cc_vocab_size :: nat
  cc_phrase_biases :: "'b list"

datatype ctc_greedy_decode_error =
    EmptyFrames
  | BlankOutOfRange nat nat
  | FrameWidthMismatch nat nat nat
  | NonFiniteLogits nat
  | DetokenizeFailed rstr

record 'p ctc_token_frame_span =
  cs_token_id :: nat
  cs_start_frame :: nat
  cs_end_frame :: nat
  cs_probability :: 'p

record 'p ctc_greedy_decode_result =
  cr_token_ids :: "nat list"
  cr_token_spans :: "'p ctc_token_frame_span list"
  cr_frame_count :: nat
  cr_text :: rstr

record ('b, 'p) ctc_decoder =
  cd_config :: "'b ctc_greedy_decode_config"
  cd_token_ids :: "nat list"
  cd_token_spans :: "'p ctc_token_frame_span list"
  cd_prev_argmax :: "nat option"
  cd_run_start_frame :: nat
  cd_run_probability_sum :: 'p
  cd_processed_frames :: nat

record 'p ctc_arith =
  ca_zero :: 'p
  ca_softmax :: "f32 list \<Rightarrow> nat \<Rightarrow> 'p"
  ca_add :: "'p \<Rightarrow> 'p \<Rightarrow> 'p"
  ca_mean :: "'p \<Rightarrow> nat \<Rightarrow> 'p"

section \<open>Operations\<close>

definition ctc_decoder_new :: "'p ctc_arith \<Rightarrow> 'b ctc_greedy_decode_config \<Rightarrow> ctc_greedy_decode_error + ('b, 'p) ctc_decoder" where
  "ctc_decoder_new ar config =
     (if cc_vocab_size config \<le> cc_blank_token_id config
      then Inl (BlankOutOfRange (cc_blank_token_id config) (cc_vocab_size config))
      else Inr \<lparr>cd_config = config, cd_token_ids = [], cd_token_spans = [], cd_prev_argmax = None,
                 cd_run_start_frame = 0, cd_run_probability_sum = ca_zero ar, cd_processed_frames = 0\<rparr>)"

fun argmax_loop :: "nat \<Rightarrow> nat \<Rightarrow> f32 \<Rightarrow> nat \<Rightarrow> f32 list \<Rightarrow> ctc_greedy_decode_error + nat" where
  "argmax_loop frame index best_val best_idx [] = Inr best_idx"
| "argmax_loop frame index best_val best_idx (val # row) =
     (if \<not> f32_is_finite val then Inl (NonFiniteLogits frame)
      else if f32_lt best_val val then argmax_loop frame (index + 1) val index row
      else argmax_loop frame (index + 1) best_val best_idx row)"

definition argmax_frame :: "f32 list \<Rightarrow> nat \<Rightarrow> ctc_greedy_decode_error + nat" where
  "argmax_frame row frame = argmax_loop frame 0 F_NegInf 0 row"

text \<open>\<open>push_ctc_token_run\<close> appends to both lists or to none.\<close>

definition push_ctc_token_run ::
  "'p ctc_arith \<Rightarrow> nat \<Rightarrow> nat \<Rightarrow> nat \<Rightarrow> 'p \<Rightarrow> nat \<Rightarrow> nat list \<times> 'p ctc_token_frame_span list \<Rightarrow> nat list \<times> 'p ctc_token_frame_span list" where
  "push_ctc_token_run ar token_id start_frame end_frame probability_sum blank acc =
     (if token_id = blank then acc
      else let run_frames = max (end_frame - start_frame) 1
           in (fst acc @ [token_id],
               snd acc @ [\<lparr>cs_token_id = token_id, cs_start_frame = start_frame,
                 cs_end_frame = max end_frame (start_frame + 1), cs_probability = ca_mean ar probability_sum run_frames\<rparr>]))"

definition append_frame :: "'p ctc_arith \<Rightarrow> ('b, 'p) ctc_decoder \<Rightarrow> f32 list \<Rightarrow> (ctc_greedy_decode_error + unit) \<times> ('b, 'p) ctc_decoder" where
  "append_frame ar d row =
     (let frame = cd_processed_frames d; blank = cc_blank_token_id (cd_config d)
      in if length row \<noteq> cc_vocab_size (cd_config d)
         then (Inl (FrameWidthMismatch frame (length row) (cc_vocab_size (cd_config d))), d)
         else case argmax_frame row frame of
                Inl e \<Rightarrow> (Inl e, d)
              | Inr argmax \<Rightarrow>
                  let probability = if argmax = blank then ca_zero ar else ca_softmax ar row argmax;
                      d' = (case cd_prev_argmax d of
                              None \<Rightarrow> d\<lparr>cd_prev_argmax := Some argmax, cd_run_start_frame := frame, cd_run_probability_sum := probability\<rparr>
                            | Some previous \<Rightarrow>
                                if previous \<noteq> argmax
                                then (case push_ctc_token_run ar previous (cd_run_start_frame d) frame (cd_run_probability_sum d) blank
                                             (cd_token_ids d, cd_token_spans d) of
                                        (ids, spans) \<Rightarrow> d\<lparr>cd_token_ids := ids, cd_token_spans := spans, cd_prev_argmax := Some argmax,
                                          cd_run_start_frame := frame, cd_run_probability_sum := probability\<rparr>)
                                else d\<lparr>cd_run_probability_sum := ca_add ar (cd_run_probability_sum d) probability\<rparr>)
                  in (Inr (), d'\<lparr>cd_processed_frames := frame + 1\<rparr>))"

definition ctc_finish ::
  "'p ctc_arith \<Rightarrow> (nat list \<Rightarrow> ctc_greedy_decode_error + rstr) \<Rightarrow> ('b, 'p) ctc_decoder \<Rightarrow> ctc_greedy_decode_error + 'p ctc_greedy_decode_result" where
  "ctc_finish ar decode_text_token_ids d =
     (if cd_processed_frames d = 0 then Inl EmptyFrames
      else case (case cd_prev_argmax d of
                   None \<Rightarrow> (cd_token_ids d, cd_token_spans d)
                 | Some previous \<Rightarrow> push_ctc_token_run ar previous (cd_run_start_frame d) (cd_processed_frames d)
                     (cd_run_probability_sum d) (cc_blank_token_id (cd_config d)) (cd_token_ids d, cd_token_spans d)) of
             (ids, spans) \<Rightarrow> rbind (decode_text_token_ids ids) (\<lambda>decoded.
               Inr \<lparr>cr_token_ids = ids, cr_token_spans = spans, cr_frame_count = cd_processed_frames d, cr_text = decoded\<rparr>))"

fun append_rows :: "'p ctc_arith \<Rightarrow> ('b, 'p) ctc_decoder \<Rightarrow> f32 list list \<Rightarrow> ctc_greedy_decode_error + ('b, 'p) ctc_decoder" where
  "append_rows ar d [] = Inr d"
| "append_rows ar d (row # rows) =
     (case append_frame ar d row of (Inl e, _) \<Rightarrow> Inl e | (Inr _, d') \<Rightarrow> append_rows ar d' rows)"

text \<open>
  \<open>run_ctc_greedy_decode_with_progress\<close>; \<open>beam\<close> is the search with hotwords, \<open>None\<close> if the phrases
  give no context. Progress reports are not modelled.
\<close>

definition run_ctc_greedy_decode ::
  "'p ctc_arith \<Rightarrow> ('b list \<Rightarrow> (f32 list list \<Rightarrow> ctc_greedy_decode_error + 'p ctc_greedy_decode_result) option)
     \<Rightarrow> (nat list \<Rightarrow> ctc_greedy_decode_error + rstr) \<Rightarrow> 'b ctc_greedy_decode_config \<Rightarrow> f32 list list
     \<Rightarrow> ctc_greedy_decode_error + 'p ctc_greedy_decode_result" where
  "run_ctc_greedy_decode ar beam decode_text_token_ids config rows =
     (if cc_vocab_size config \<le> cc_blank_token_id config
      then Inl (BlankOutOfRange (cc_blank_token_id config) (cc_vocab_size config))
      else case if cc_phrase_biases config \<noteq> [] then beam (cc_phrase_biases config) else None of
             Some search \<Rightarrow> search rows
           | None \<Rightarrow> rbind (ctc_decoder_new ar config) (\<lambda>d.
                       rbind (append_rows ar d rows) (ctc_finish ar decode_text_token_ids)))"

section \<open>The best label of a frame\<close>

text \<open>The least index of a largest logit.\<close>

definition best_label :: "f32 list \<Rightarrow> nat \<Rightarrow> bool" where
  "best_label row i \<longleftrightarrow> i < length row \<and> (\<forall>j < length row. f32_le (row ! j) (row ! i)) \<and> (\<forall>j < i. f32_lt (row ! j) (row ! i))"

definition finite_row :: "f32 list \<Rightarrow> bool" where
  "finite_row row \<longleftrightarrow> list_all f32_is_finite row"

lemma f32_is_finite_iff: "f32_is_finite x \<longleftrightarrow> (\<exists>r. x = F_Num r)"
  by (cases x) simp_all

lemma best_label_unique: "finite_row row \<Longrightarrow> best_label row i \<Longrightarrow> best_label row j \<Longrightarrow> i = j"
  by (rule linorder_cases [of i j]) (auto simp: best_label_def f32_lt_def)

lemma argmax_loop_spec:
  assumes "finite_row (pre @ row)" and "index = length pre"
    and "if pre = [] then best_val = F_NegInf \<and> best_idx = 0 else best_label pre best_idx \<and> best_val = pre ! best_idx"
    and "pre @ row \<noteq> []"
  shows "\<exists>i. argmax_loop frame index best_val best_idx row = Inr i \<and> best_label (pre @ row) i"
  using assms
proof (induction row arbitrary: pre index best_val best_idx)
  case (Cons v row)
  obtain r where v: "v = F_Num r" using Cons(2) by (auto simp: finite_row_def f32_is_finite_iff)
  have fin: "finite_row ((pre @ [v]) @ row)" using Cons(2) by simp
  have finp: "f32_is_finite (pre ! j)" if "j < length pre" for j using Cons(2) that by (simp add: finite_row_def) (simp add: list_all_length)
  show ?case
  proof (cases "f32_lt best_val v")
    case True
    have "best_label (pre @ [v]) (length pre)"
    proof (cases "pre = []")
      case False
      then have b: "best_label pre best_idx" "best_val = pre ! best_idx" using Cons(4) by auto
      have "f32_lt (pre ! j) v" if "j < length pre" for j
      proof -
        have "f32_le (pre ! j) (pre ! best_idx)" using b(1) that by (simp add: best_label_def)
        moreover have "f32_is_finite (pre ! j)" "f32_is_finite (pre ! best_idx)"
          using finp that b(1) by (simp_all add: best_label_def)
        ultimately show ?thesis using True b(2) v by (auto simp: f32_lt_def f32_is_finite_iff)
      qed
      then show ?thesis by (auto simp: best_label_def nth_append less_Suc_eq f32_lt_def v)
    qed (simp add: best_label_def v)
    then show ?thesis using Cons(1) [OF fin, of "index + 1" v index] Cons(3) True v by (simp add: nth_append)
  next
    case False
    then have ne: "pre \<noteq> []" using Cons(4) v by (auto simp: f32_lt_def)
    then have b: "best_label pre best_idx" "best_val = pre ! best_idx" using Cons(4) by auto
    have "f32_is_finite (pre ! best_idx)"
      using finp b(1) by (simp add: best_label_def)
    then have "f32_le v (pre ! best_idx)" using False b(2) v by (auto simp: f32_lt_def f32_is_finite_iff)
    then have "best_label (pre @ [v]) best_idx" using b(1) by (auto simp: best_label_def nth_append less_Suc_eq)
    moreover have "best_val = (pre @ [v]) ! best_idx" using b by (simp add: best_label_def nth_append)
    ultimately show ?thesis using Cons(1) [OF fin, of "index + 1" best_val best_idx] Cons(3) False v by simp
  qed
qed auto

lemma argmax_frame_best: "finite_row row \<Longrightarrow> row \<noteq> [] \<Longrightarrow> \<exists>i. argmax_frame row frame = Inr i \<and> best_label row i"
  using argmax_loop_spec [of "[]" row 0 F_NegInf 0 frame] by (simp add: argmax_frame_def)

lemma argmax_loop_nonfinite: "\<not> finite_row row \<Longrightarrow> argmax_loop frame index best_val best_idx row = Inl (NonFiniteLogits frame)"
  by (induction row arbitrary: index best_val best_idx) (auto simp: finite_row_def)

section \<open>Runs of labels\<close>

text \<open>The runs that follow an open run of label \<open>p\<close> from frame \<open>a\<close> to frame \<open>f\<close>.\<close>

fun runs_from :: "nat \<Rightarrow> nat \<Rightarrow> nat \<Rightarrow> nat list \<Rightarrow> (nat \<times> nat \<times> nat) list" where
  "runs_from p a f [] = [(p, a, f)]"
| "runs_from p a f (x # ls) = (if x = p then runs_from p a (f + 1) ls else (p, a, f) # runs_from x f (f + 1) ls)"

lemma runs_from_labels: "map fst (runs_from p a f ls) = remdups_adj (p # ls)"
  by (induction ls arbitrary: p a f) auto

lemma runs_from_sorted:
  "a < f \<Longrightarrow> sorted_wrt (\<lambda>(_, _, e) (_, s, _). e \<le> s) (runs_from p a f ls) \<and> (\<forall>(x, s, e) \<in> set (runs_from p a f ls). a \<le> s \<and> s < e)"
proof (induction p a f ls rule: runs_from.induct)
  case (2 p a f x ls)
  show ?case
  proof (cases "x = p")
    case True
    then show ?thesis using 2 by simp
  next
    case False
    then have ih: "sorted_wrt (\<lambda>(_, _, e) (_, s, _). e \<le> s) (runs_from x f (f + 1) ls)"
      "\<forall>(x, s, e) \<in> set (runs_from x f (f + 1) ls). f \<le> s \<and> s < e" using 2(2) by simp_all
    have "\<forall>y \<in> set (runs_from x f (f + 1) ls). case y of (_, s, _) \<Rightarrow> f \<le> s" using ih(2) by (auto simp: case_prod_beta)
    moreover have "\<forall>(x, s, e) \<in> set (runs_from x f (f + 1) ls). a \<le> s \<and> s < e" using ih(2) 2(3) by (fastforce simp: case_prod_beta)
    ultimately show ?thesis using False ih(1) 2(3) by simp
  qed
qed simp

lemma runs_from_cover:
  "a < f \<Longrightarrow> (\<exists>s e. (v, s, e) \<in> set (runs_from p a f ls) \<and> s \<le> t \<and> t < e)
     \<longleftrightarrow> (a \<le> t \<and> t < f \<and> v = p) \<or> (f \<le> t \<and> t < f + length ls \<and> ls ! (t - f) = v)"
proof (induction p a f ls rule: runs_from.induct)
  case (2 p a f x ls)
  consider "t < f" | "t = f" | n where "t = Suc (f + n)" by (metis less_iff_Suc_add linorder_neqE_nat)
  then show ?case
  proof cases
    case 1
    then show ?thesis using 2 by (cases "x = p") auto
  next
    case 2
    then show ?thesis using "2.IH" "2.prems" by (cases "x = p") auto
  next
    case 3
    then show ?thesis using "2.IH" "2.prems" by (cases "x = p") auto
  qed
qed auto

section \<open>The decoder\<close>

definition span_run :: "'p ctc_token_frame_span \<Rightarrow> nat \<times> nat \<times> nat" where
  "span_run s = (cs_token_id s, cs_start_frame s, cs_end_frame s)"

definition not_blank :: "nat \<Rightarrow> nat \<times> nat \<times> nat \<Rightarrow> bool" where
  "not_blank blank r \<longleftrightarrow> fst r \<noteq> blank"

lemma push_run:
  assumes "a < f" and "push_ctc_token_run ar p a f psum blank (ids, spans) = (ids', spans')"
  shows "ids' = ids @ (if p = blank then [] else [p])"
    and "map span_run spans' = map span_run spans @ filter (not_blank blank) [(p, a, f)]"
  using assms by (auto simp: push_ctc_token_run_def Let_def span_run_def not_blank_def split: if_splits)

definition frame_ok :: "'b ctc_greedy_decode_config \<Rightarrow> f32 list \<Rightarrow> bool" where
  "frame_ok config row \<longleftrightarrow> length row = cc_vocab_size config \<and> finite_row row"

lemma append_frame_ok:
  assumes "frame_ok (cd_config d) row" and "best_label row i" and "cd_prev_argmax d = Some p" and "cd_run_start_frame d < cd_processed_frames d"
  shows "\<exists>d'. append_frame ar d row = (Inr (), d') \<and> cd_config d' = cd_config d \<and> cd_prev_argmax d' = Some i
    \<and> cd_processed_frames d' = cd_processed_frames d + 1
    \<and> (if i = p then cd_run_start_frame d' = cd_run_start_frame d \<and> cd_token_ids d' = cd_token_ids d \<and> cd_token_spans d' = cd_token_spans d
       else cd_run_start_frame d' = cd_processed_frames d \<and> (\<exists>psum. push_ctc_token_run ar p (cd_run_start_frame d) (cd_processed_frames d) psum
           (cc_blank_token_id (cd_config d)) (cd_token_ids d, cd_token_spans d) = (cd_token_ids d', cd_token_spans d')))"
proof -
  have "row \<noteq> []" using assms(2) by (auto simp: best_label_def)
  then have "argmax_frame row (cd_processed_frames d) = Inr i"
    using argmax_frame_best [of row] best_label_unique [of row] assms(1,2) by (metis frame_ok_def)
  then show ?thesis using assms
    by (auto simp: append_frame_def Let_def frame_ok_def split: prod.splits)
qed

text \<open>From an open run on, the decoder emits the runs that follow, without the blank ones.\<close>

lemma append_rows_runs:
  assumes "list_all (frame_ok (cd_config d)) rows" and "list_all2 best_label rows ls"
    and "cd_prev_argmax d = Some p" and "cd_run_start_frame d < cd_processed_frames d"
  shows "\<exists>d' psum. append_rows ar d rows = Inr d' \<and> cd_config d' = cd_config d \<and> cd_processed_frames d' = cd_processed_frames d + length rows
    \<and> (\<exists>q. cd_prev_argmax d' = Some q
        \<and> (\<forall>ids spans. push_ctc_token_run ar q (cd_run_start_frame d') (cd_processed_frames d') (cd_run_probability_sum d')
             (cc_blank_token_id (cd_config d)) (cd_token_ids d', cd_token_spans d') = (ids, spans)
           \<longrightarrow> ids = cd_token_ids d @ filter (\<lambda>x. x \<noteq> cc_blank_token_id (cd_config d))
                 (map fst (runs_from p (cd_run_start_frame d) (cd_processed_frames d) ls))
             \<and> map span_run spans = map span_run (cd_token_spans d)
                 @ filter (not_blank (cc_blank_token_id (cd_config d))) (runs_from p (cd_run_start_frame d) (cd_processed_frames d) ls)))"
  using assms
proof (induction rows arbitrary: d p ls)
  case Nil
  then show ?case by (auto simp: not_blank_def dest: push_run [OF Nil(4)])
next
  case (Cons row rows)
  obtain i ls' where ls: "ls = i # ls'" and i: "best_label row i" "list_all2 best_label rows ls'" using Cons(3) by (auto simp: list_all2_Cons1)
  have row: "frame_ok (cd_config d) row" using Cons(2) by simp
  obtain d1 where d1: "append_frame ar d row = (Inr (), d1)" "cd_config d1 = cd_config d" "cd_prev_argmax d1 = Some i"
    "cd_processed_frames d1 = cd_processed_frames d + 1"
    and case1: "if i = p then cd_run_start_frame d1 = cd_run_start_frame d \<and> cd_token_ids d1 = cd_token_ids d \<and> cd_token_spans d1 = cd_token_spans d
       else cd_run_start_frame d1 = cd_processed_frames d \<and> (\<exists>psum. push_ctc_token_run ar p (cd_run_start_frame d) (cd_processed_frames d) psum
           (cc_blank_token_id (cd_config d)) (cd_token_ids d, cd_token_spans d) = (cd_token_ids d1, cd_token_spans d1))"
    using append_frame_ok [OF row i(1) Cons(4,5), of ar] by blast
  have start: "cd_run_start_frame d1 < cd_processed_frames d1" using case1 Cons(5) d1(4) by (auto split: if_splits)
  have "list_all (frame_ok (cd_config d1)) rows" using Cons(2) d1(2) by simp
  note ih = Cons(1) [OF this i(2) d1(3) start, unfolded d1(2)]
  show ?case
  proof (cases "i = p")
    case True
    then show ?thesis using ih case1 d1 by (simp add: ls)
  next
    case False
    then obtain psum where "push_ctc_token_run ar p (cd_run_start_frame d) (cd_processed_frames d) psum
        (cc_blank_token_id (cd_config d)) (cd_token_ids d, cd_token_spans d) = (cd_token_ids d1, cd_token_spans d1)"
      and st: "cd_run_start_frame d1 = cd_processed_frames d" using case1 by auto
    note pr = push_run [OF Cons(5) this(1)]
    show ?thesis using ih False d1 by (cases "p = cc_blank_token_id (cd_config d)") (simp_all add: ls pr st not_blank_def)
  qed
qed

lemma append_first_frame:
  assumes "ctc_decoder_new ar config = Inr d" and "frame_ok config row" and "best_label row i"
  shows "\<exists>d'. append_frame ar d row = (Inr (), d') \<and> cd_config d' = config \<and> cd_prev_argmax d' = Some i \<and> cd_run_start_frame d' = 0
    \<and> cd_processed_frames d' = 1 \<and> cd_token_ids d' = [] \<and> cd_token_spans d' = []"
proof -
  have "row \<noteq> []" using assms(3) by (auto simp: best_label_def)
  then have "argmax_frame row 0 = Inr i" using argmax_frame_best [of row] best_label_unique [of row] assms(2,3) by (metis frame_ok_def)
  moreover have "d = \<lparr>cd_config = config, cd_token_ids = [], cd_token_spans = [], cd_prev_argmax = None,
      cd_run_start_frame = 0, cd_run_probability_sum = ca_zero ar, cd_processed_frames = 0\<rparr>"
    using assms(1) by (simp add: ctc_decoder_new_def split: if_splits)
  ultimately show ?thesis using assms(2) by (simp add: append_frame_def frame_ok_def)
qed

lemma labels_exist:
  assumes "list_all (frame_ok config) rows" and "0 < cc_vocab_size config"
  shows "\<exists>labels. list_all2 best_label rows labels"
  using assms(1)
proof (induction rows)
  case (Cons row rows)
  have "row \<noteq> []" "finite_row row" using Cons(2) assms(2) by (auto simp: frame_ok_def)
  then obtain i where "best_label row i" using argmax_frame_best by blast
  then show ?case using Cons by (auto simp: list_all2_Cons1)
qed (auto intro: exI [of _ "[]"])

text \<open>The result of a decode in terms of the runs of the labels.\<close>

lemma ctc_run_result:
  assumes "cc_phrase_biases config = []" and "cc_blank_token_id config < cc_vocab_size config"
    and "rows \<noteq> []" and "list_all (frame_ok config) rows"
  obtains p ls ids spans where "list_all2 best_label rows (p # ls)"
    and "run_ctc_greedy_decode ar beam dec config rows = rbind (dec ids) (\<lambda>decoded.
      Inr \<lparr>cr_token_ids = ids, cr_token_spans = spans, cr_frame_count = length rows, cr_text = decoded\<rparr>)"
    and "ids = filter (\<lambda>x. x \<noteq> cc_blank_token_id config) (remdups_adj (p # ls))"
    and "map span_run spans = filter (not_blank (cc_blank_token_id config)) (runs_from p 0 1 ls)"
proof -
  define blank where "blank = cc_blank_token_id config"
  obtain labels where labels: "list_all2 best_label rows labels" using labels_exist [OF assms(4)] assms(2) by auto
  obtain row rows' where rows: "rows = row # rows'" using assms(3) by (cases rows) auto
  obtain p ls where ls: "labels = p # ls" and p: "best_label row p" "list_all2 best_label rows' ls" using labels by (auto simp: rows list_all2_Cons1)
  obtain d0 where d0: "ctc_decoder_new ar config = Inr d0" using assms(2) by (simp add: ctc_decoder_new_def)
  have ok: "frame_ok config row" "list_all (frame_ok config) rows'" using assms(4) by (simp_all add: rows)
  obtain d1 where d1: "append_frame ar d0 row = (Inr (), d1)" "cd_config d1 = config" "cd_prev_argmax d1 = Some p"
    "cd_run_start_frame d1 = 0" "cd_processed_frames d1 = 1" "cd_token_ids d1 = []" "cd_token_spans d1 = []"
    using append_first_frame [OF d0 ok(1) p(1)] by blast
  obtain d2 q where d2: "append_rows ar d1 rows' = Inr d2" "cd_config d2 = config" "cd_processed_frames d2 = length rows" "cd_prev_argmax d2 = Some q"
    and push: "\<And>ids spans. push_ctc_token_run ar q (cd_run_start_frame d2) (cd_processed_frames d2) (cd_run_probability_sum d2) blank
        (cd_token_ids d2, cd_token_spans d2) = (ids, spans)
      \<Longrightarrow> ids = filter (\<lambda>x. x \<noteq> blank) (remdups_adj labels) \<and> map span_run spans = filter (not_blank blank) (runs_from p 0 1 ls)"
    using append_rows_runs [of d1 rows' ls p ar] d1 ok(2) p(2) by (auto simp: rows ls blank_def runs_from_labels)
  obtain ids spans where pr: "push_ctc_token_run ar q (cd_run_start_frame d2) (cd_processed_frames d2) (cd_run_probability_sum d2) blank
        (cd_token_ids d2, cd_token_spans d2) = (ids, spans)" by fastforce
  note out = push [OF pr]
  have res: "run_ctc_greedy_decode ar beam dec config rows = rbind (dec ids) (\<lambda>decoded.
      Inr \<lparr>cr_token_ids = ids, cr_token_spans = spans, cr_frame_count = length rows, cr_text = decoded\<rparr>)"
    using assms(1,2,3) d0 d1(1) d2 pr by (simp add: run_ctc_greedy_decode_def ctc_finish_def rows blank_def)
  from labels res out show ?thesis using that unfolding ls blank_def by blast
qed

text \<open>
  C28. Greedy CTC decoding is collapse-then-drop-blank: on frames of the right width with finite
  logits, the label of a frame is the first largest logit; the tokens are the labels without
  adjacent repetitions and without the blank; and the spans of the tokens are disjoint, in order,
  and cover exactly the frames that carry a token's label. A detokenizer error is passed on.
\<close>

theorem ctc_decode_collapses:
  assumes "cc_phrase_biases config = []" and "cc_blank_token_id config < cc_vocab_size config"
    and "rows \<noteq> []" and "list_all (frame_ok config) rows"
  shows "\<exists>labels. list_all2 best_label rows labels
    \<and> (case dec (filter (\<lambda>x. x \<noteq> cc_blank_token_id config) (remdups_adj labels)) of
         Inl e \<Rightarrow> run_ctc_greedy_decode ar beam dec config rows = Inl e
       | Inr decoded \<Rightarrow> \<exists>spans. run_ctc_greedy_decode ar beam dec config rows = Inr
             \<lparr>cr_token_ids = filter (\<lambda>x. x \<noteq> cc_blank_token_id config) (remdups_adj labels),
              cr_token_spans = spans, cr_frame_count = length rows, cr_text = decoded\<rparr>
           \<and> map cs_token_id spans = filter (\<lambda>x. x \<noteq> cc_blank_token_id config) (remdups_adj labels)
           \<and> sorted_wrt (\<lambda>s t. cs_end_frame s \<le> cs_start_frame t) spans
           \<and> (\<forall>f token. f < length rows \<and> labels ! f = token \<and> token \<noteq> cc_blank_token_id config
                \<longleftrightarrow> (\<exists>s \<in> set spans. cs_token_id s = token \<and> cs_start_frame s \<le> f \<and> f < cs_end_frame s)))"
proof -
  define blank where "blank = cc_blank_token_id config"
  obtain p ls ids spans where labels: "list_all2 best_label rows (p # ls)"
    and res: "run_ctc_greedy_decode ar beam dec config rows = rbind (dec ids) (\<lambda>decoded.
      Inr \<lparr>cr_token_ids = ids, cr_token_spans = spans, cr_frame_count = length rows, cr_text = decoded\<rparr>)"
    and ids: "ids = filter (\<lambda>x. x \<noteq> blank) (remdups_adj (p # ls))"
    and out: "map span_run spans = filter (not_blank blank) (runs_from p 0 1 ls)"
    unfolding blank_def by (rule ctc_run_result [OF assms])
  have "map cs_token_id spans = map fst (map span_run spans)" by (simp add: span_run_def comp_def)
  also have "\<dots> = filter (\<lambda>x. x \<noteq> blank) (map fst (runs_from p 0 1 ls))"
    using out by (simp add: filter_map comp_def not_blank_def [abs_def])
  finally have toks: "map cs_token_id spans = filter (\<lambda>x. x \<noteq> blank) (remdups_adj (p # ls))" by (simp only: runs_from_labels)
  have "sorted_wrt (\<lambda>(_, _, e) (_, s, _). e \<le> s) (map span_run spans)"
    using out runs_from_sorted [of 0 1 p ls] by (simp add: sorted_wrt_filter)
  then have srt: "sorted_wrt (\<lambda>s t. cs_end_frame s \<le> cs_start_frame t) spans" by (simp add: sorted_wrt_map span_run_def)
  have cover: "f < length rows \<and> (p # ls) ! f = token \<and> token \<noteq> blank
      \<longleftrightarrow> (\<exists>s \<in> set spans. cs_token_id s = token \<and> cs_start_frame s \<le> f \<and> f < cs_end_frame s)" for f token
  proof -
    have "(\<exists>s \<in> set spans. cs_token_id s = token \<and> cs_start_frame s \<le> f \<and> f < cs_end_frame s)
      \<longleftrightarrow> (\<exists>a e. (token, a, e) \<in> set (map span_run spans) \<and> a \<le> f \<and> f < e)" by (auto simp: span_run_def)
    also have "\<dots> \<longleftrightarrow> token \<noteq> blank \<and> (\<exists>a e. (token, a, e) \<in> set (runs_from p 0 1 ls) \<and> a \<le> f \<and> f < e)"
      using out by (auto simp: not_blank_def)
    also have "\<dots> \<longleftrightarrow> token \<noteq> blank \<and> f < length rows \<and> (p # ls) ! f = token"
      using runs_from_cover [of 0 1 token p ls f] list_all2_lengthD [OF labels] by (cases f) auto
    finally show ?thesis by blast
  qed
  show ?thesis using labels res toks srt cover ids unfolding blank_def [symmetric] by (intro exI [of _ "p # ls"]) (auto split: sum.split)
qed

definition sample_rows :: "f32 list list" where
  "sample_rows = [[F_Num 0, F_Num 1], [F_Num 0, F_Num 1], [F_Num 2, F_Num 1], [F_Num 0, F_Num 3]]"

definition sample_ctc_config :: "unit ctc_greedy_decode_config" where
  "sample_ctc_config = \<lparr>cc_blank_token_id = 0, cc_vocab_size = 2, cc_phrase_biases = []\<rparr>"

definition sample_arith :: "nat ctc_arith" where
  "sample_arith = \<lparr>ca_zero = 0, ca_softmax = (\<lambda>_ _. 1), ca_add = (+), ca_mean = (\<lambda>x n. x div n)\<rparr>"

theorem ctc_decode_collapses_witness:
  "\<exists>labels spans. list_all2 best_label sample_rows labels
    \<and> run_ctc_greedy_decode sample_arith (\<lambda>_. None) (\<lambda>_. Inr (lit ''ok'')) sample_ctc_config sample_rows
      = Inr \<lparr>cr_token_ids = filter (\<lambda>x. x \<noteq> cc_blank_token_id sample_ctc_config) (remdups_adj labels), cr_token_spans = spans,
          cr_frame_count = length sample_rows, cr_text = lit ''ok''\<rparr>"
proof -
  have ok: "cc_phrase_biases sample_ctc_config = []" "cc_blank_token_id sample_ctc_config < cc_vocab_size sample_ctc_config"
    "sample_rows \<noteq> []" "list_all (frame_ok sample_ctc_config) sample_rows"
    by (simp_all add: sample_ctc_config_def sample_rows_def frame_ok_def finite_row_def)
  from ctc_decode_collapses [OF ok, where dec = "\<lambda>_. Inr (lit ''ok'')" and ar = sample_arith and beam = "\<lambda>_. None"]
  show ?thesis by (simp only: sum.case) blast
qed

lemma ctc_decode_fails_closed:
  fixes config :: "'b ctc_greedy_decode_config" and ar :: "'p ctc_arith"
  assumes "cc_phrase_biases config = []" and "cc_blank_token_id config < cc_vocab_size config"
    and "list_all (frame_ok config) good" and "\<not> frame_ok config bad"
  shows "run_ctc_greedy_decode ar beam dec config (good @ bad # rest)
    = Inl (if length bad \<noteq> cc_vocab_size config then FrameWidthMismatch (length good) (length bad) (cc_vocab_size config)
           else NonFiniteLogits (length good))"
proof -
  have ok: "\<exists>d'. append_frame ar d row = (Inr (), d') \<and> cd_config d' = cd_config d \<and> cd_processed_frames d' = cd_processed_frames d + 1"
    if r: "frame_ok (cd_config d) row" and v: "0 < cc_vocab_size (cd_config d)" for row and d :: "('b, 'p) ctc_decoder"
  proof -
    have "finite_row row" "row \<noteq> []" using r v by (auto simp: frame_ok_def)
    then obtain i where "argmax_frame row (cd_processed_frames d) = Inr i" using argmax_frame_best by blast
    then show ?thesis using r by (auto simp: append_frame_def Let_def frame_ok_def split: option.split prod.split)
  qed
  have "append_rows ar d (good @ bad # rest) = Inl (if length bad \<noteq> cc_vocab_size config
      then FrameWidthMismatch (cd_processed_frames d + length good) (length bad) (cc_vocab_size config)
      else NonFiniteLogits (cd_processed_frames d + length good))"
    if "cd_config d = config" for d :: "('b, 'p) ctc_decoder"
    using assms(3) that
  proof (induction good arbitrary: d)
    case Nil
    then show ?case using assms(4) by (auto simp: append_frame_def Let_def argmax_frame_def argmax_loop_nonfinite frame_ok_def)
  next
    case (Cons row good)
    then obtain d' where "append_frame ar d row = (Inr (), d')" "cd_config d' = config" "cd_processed_frames d' = cd_processed_frames d + 1"
      using ok [of d row] assms(2) by auto
    then show ?case using Cons by simp
  qed
  then show ?thesis using assms(1,2) by (simp add: run_ctc_greedy_decode_def ctc_decoder_new_def)
qed

end
