(* ===== verification/Context_Graph.thy ===== *)
theory Context_Graph
  imports Asr_Prelude "HOL-Library.Multiset"
begin

text \<open>
  The hotword graph of the CTC prefix-beam search (\<open>crates/openasr-core/src/models/ctc_prefix_beam.rs\<close>):
  a trie of the token sequences of the hotwords, fail links and scores computed breadth first, and
  the step of the automaton. Nodes are indices, a child map is an association list. The order in
  which a hash map is iterated is the parameter \<open>it\<close> (a permutation of the entries, for each node
  its own); the arithmetic of \<open>f32\<close> scores is the parameter \<open>ar\<close>. The loops have no bound in the
  code: they are \<open>partial_function\<close>s, \<open>None\<close> is a run that does not return, and the theorems
  show that they return.
\<close>

section \<open>Data\<close>

record 's score_arith =
  sa_zero :: 's
  sa_le :: "'s \<Rightarrow> 's \<Rightarrow> bool"
  sa_gt :: "'s \<Rightarrow> 's \<Rightarrow> bool"
  sa_add :: "'s \<Rightarrow> 's \<Rightarrow> 's"
  sa_sub :: "'s \<Rightarrow> 's \<Rightarrow> 's"
  sa_neg :: "'s \<Rightarrow> 's"
  sa_scale :: "'s \<Rightarrow> nat \<Rightarrow> 's"

record 's token_phrase_bias =
  tb_variants :: "nat list list"
  tb_boost :: 's

type_synonym goto_map = "(nat \<times> nat) list list"
type_synonym map_order = "nat \<Rightarrow> (nat \<times> nat) list \<Rightarrow> (nat \<times> nat) list"

text \<open>The three vectors the first loop of the constructor fills.\<close>

record 's graph_trie =
  gt_goto :: goto_map
  gt_token_score :: "'s list"
  gt_is_end_bonus :: "'s list"

record 's ctc_context_graph =
  cg_goto :: goto_map
  cg_fail :: "nat list"
  cg_node_score :: "'s list"
  cg_output_score :: "'s list"
  cg_edge_tokens :: "nat list"

section \<open>Operations\<close>

subsection \<open>The trie\<close>

definition graph_trie_empty :: "'s score_arith \<Rightarrow> 's graph_trie" where
  "graph_trie_empty ar = \<lparr>gt_goto = [[]], gt_token_score = [sa_zero ar], gt_is_end_bonus = [sa_zero ar]\<rparr>"

definition raise_edge :: "'s score_arith \<Rightarrow> 's \<Rightarrow> nat \<Rightarrow> 's graph_trie \<Rightarrow> 's graph_trie" where
  "raise_edge ar boost child t =
     (if sa_gt ar boost (gt_token_score t ! child)
      then t\<lparr>gt_token_score := (gt_token_score t)[child := boost]\<rparr> else t)"

definition add_child :: "'s score_arith \<Rightarrow> 's \<Rightarrow> nat \<Rightarrow> nat \<Rightarrow> 's graph_trie \<Rightarrow> 's graph_trie" where
  "add_child ar boost node token t =
     (let child = length (gt_goto t)
      in \<lparr>gt_goto = (gt_goto t @ [[]])[node := (token, child) # gt_goto t ! node],
          gt_token_score = gt_token_score t @ [boost], gt_is_end_bonus = gt_is_end_bonus t @ [sa_zero ar]\<rparr>)"

fun insert_tokens :: "'s score_arith \<Rightarrow> 's \<Rightarrow> nat \<Rightarrow> nat list \<Rightarrow> 's graph_trie \<Rightarrow> nat \<times> 's graph_trie" where
  "insert_tokens ar boost node [] t = (node, t)"
| "insert_tokens ar boost node (token # tokens) t =
     (case map_of (gt_goto t ! node) token of
        Some child \<Rightarrow> insert_tokens ar boost child tokens (raise_edge ar boost child t)
      | None \<Rightarrow> insert_tokens ar boost (length (gt_goto t)) tokens (add_child ar boost node token t))"

definition insert_variant :: "'s score_arith \<Rightarrow> 's \<Rightarrow> nat list \<Rightarrow> 's graph_trie \<Rightarrow> 's graph_trie" where
  "insert_variant ar boost variant t =
     (if variant = [] then t
      else case insert_tokens ar boost 0 variant t of
             (node, t') \<Rightarrow>
               let end_word_boost = sa_scale ar boost (length variant)
               in if sa_gt ar end_word_boost (gt_is_end_bonus t' ! node)
                  then t'\<lparr>gt_is_end_bonus := (gt_is_end_bonus t')[node := end_word_boost]\<rparr> else t')"

definition insert_bias :: "'s score_arith \<Rightarrow> 's token_phrase_bias \<Rightarrow> 's graph_trie \<Rightarrow> 's graph_trie" where
  "insert_bias ar bias t =
     (if sa_le ar (tb_boost bias) (sa_zero ar) then t
      else fold (insert_variant ar (tb_boost bias)) (tb_variants bias) t)"

definition build_trie :: "'s score_arith \<Rightarrow> 's token_phrase_bias list \<Rightarrow> 's graph_trie" where
  "build_trie ar biases = fold (insert_bias ar) biases (graph_trie_empty ar)"

subsection \<open>Accumulated scores, breadth first\<close>

type_synonym 's score_state = "nat list \<times> 's list \<times> nat list"

fun seed_scores :: "'s list \<Rightarrow> (nat \<times> nat) list \<Rightarrow> 's score_state \<Rightarrow> 's score_state" where
  "seed_scores token_score [] st = st"
| "seed_scores token_score ((token, child) # cs) (edge_tokens, node_score, queue) =
     seed_scores token_score cs (edge_tokens @ [token], node_score[child := token_score ! child], queue @ [child])"

fun score_children :: "'s score_arith \<Rightarrow> 's list \<Rightarrow> nat \<Rightarrow> (nat \<times> nat) list \<Rightarrow> 's score_state \<Rightarrow> 's score_state" where
  "score_children ar token_score node [] st = st"
| "score_children ar token_score node ((token, child) # cs) (edge_tokens, node_score, queue) =
     score_children ar token_score node cs
       (edge_tokens @ [token], node_score[child := sa_add ar (node_score ! node) (token_score ! child)], queue @ [child])"

partial_function (option) score_bfs ::
  "'s score_arith \<Rightarrow> map_order \<Rightarrow> 's graph_trie \<Rightarrow> nat list \<Rightarrow> 's score_state \<Rightarrow> (nat list \<times> nat list \<times> 's list) option" where
  "score_bfs ar it t order st =
     (case st of (edge_tokens, node_score, queue) \<Rightarrow>
        (case queue of
           [] \<Rightarrow> Some (order, edge_tokens, node_score)
         | node # rest \<Rightarrow> score_bfs ar it t (order @ [node])
             (score_children ar (gt_token_score t) node (it node (gt_goto t ! node)) (edge_tokens, node_score, rest))))"

subsection \<open>Fail links\<close>

text \<open>The inner loop of the fail links; \<open>step\<close> runs the same loop.\<close>

partial_function (option) follow :: "goto_map \<Rightarrow> nat list \<Rightarrow> nat \<Rightarrow> nat \<Rightarrow> nat option" where
  "follow goto fail token f =
     (case map_of (goto ! f) token of
        Some nxt \<Rightarrow> Some nxt
      | None \<Rightarrow> if f = 0 then Some 0 else follow goto fail token (fail ! f))"

fun fail_children :: "goto_map \<Rightarrow> nat \<Rightarrow> (nat \<times> nat) list \<Rightarrow> nat list \<Rightarrow> nat list \<Rightarrow> (nat list \<times> nat list) option" where
  "fail_children goto node [] fail bfs = Some (fail, bfs)"
| "fail_children goto node ((token, child) # cs) fail bfs =
     Option.bind (follow goto fail token (fail ! node)) (\<lambda>nxt. fail_children goto node cs (fail[child := nxt]) (bfs @ [child]))"

partial_function (option) fail_bfs :: "map_order \<Rightarrow> goto_map \<Rightarrow> nat list \<times> nat list \<Rightarrow> nat list option" where
  "fail_bfs it goto st =
     (case st of (fail, bfs) \<Rightarrow>
        (case bfs of
           [] \<Rightarrow> Some fail
         | node # rest \<Rightarrow> Option.bind (fail_children goto node (it node (goto ! node)) fail rest) (\<lambda>st'. fail_bfs it goto st')))"

definition seed_fail :: "(nat \<times> nat) list \<Rightarrow> nat list \<Rightarrow> nat list" where
  "seed_fail cs fail = fold (\<lambda>(_, child) fail. fail[child := 0]) cs fail"

subsection \<open>Completion scores, and the graph\<close>

definition output_scores :: "'s score_arith \<Rightarrow> 's list \<Rightarrow> nat list \<Rightarrow> nat list \<Rightarrow> 's list \<Rightarrow> 's list" where
  "output_scores ar is_end_bonus fail order output_score =
     fold (\<lambda>node os. os[node := sa_add ar (is_end_bonus ! node) (os ! (fail ! node))]) order output_score"

definition from_token_phrase_biases ::
  "'s score_arith \<Rightarrow> map_order \<Rightarrow> 's token_phrase_bias list \<Rightarrow> 's ctc_context_graph option option" where
  "from_token_phrase_biases ar it biases =
     (let t = build_trie ar biases; goto = gt_goto t; node_count = length goto; cs = it 0 (goto ! 0)
      in if node_count = 1 then Some None
         else Option.bind (score_bfs ar it t [] (seed_scores (gt_token_score t) cs ([], replicate node_count (sa_zero ar), [])))
           (\<lambda>(order, edge_tokens, node_score).
              Option.bind (fail_bfs it goto (seed_fail cs (replicate node_count 0), map snd cs))
                (\<lambda>fail. Some (Some \<lparr>cg_goto = goto, cg_fail = fail, cg_node_score = node_score,
                    cg_output_score = output_scores ar (gt_is_end_bonus t) fail order (replicate node_count (sa_zero ar)),
                    cg_edge_tokens = remdups_adj (sort edge_tokens)\<rparr>))))"

subsection \<open>The automaton\<close>

definition graph_root :: "'s ctc_context_graph \<Rightarrow> nat" where
  "graph_root g = 0"

definition pending_prefix_score :: "'s ctc_context_graph \<Rightarrow> nat \<Rightarrow> 's" where
  "pending_prefix_score g node = cg_node_score g ! node"

definition finalize_refund :: "'s score_arith \<Rightarrow> 's ctc_context_graph \<Rightarrow> nat \<Rightarrow> 's" where
  "finalize_refund ar g node = sa_neg ar (pending_prefix_score g node)"

definition context_step :: "'s score_arith \<Rightarrow> 's ctc_context_graph \<Rightarrow> nat \<Rightarrow> nat \<Rightarrow> (nat \<times> 's) option" where
  "context_step ar g node token =
     Option.bind (follow (cg_goto g) (cg_fail g) token node) (\<lambda>dest.
       Some (dest, sa_add ar (sa_sub ar (cg_node_score g ! dest) (cg_node_score g ! node)) (cg_output_score g ! dest)))"

definition completion_bonus :: "'s ctc_context_graph \<Rightarrow> nat \<Rightarrow> 's" where
  "completion_bonus g node = cg_output_score g ! node"

section \<open>Tries\<close>

text \<open>The node a word leads to.\<close>

fun walk :: "goto_map \<Rightarrow> nat \<Rightarrow> nat list \<Rightarrow> nat option" where
  "walk goto n [] = Some n"
| "walk goto n (t # w) = (case map_of (goto ! n) t of None \<Rightarrow> None | Some c \<Rightarrow> walk goto c w)"

definition edge :: "goto_map \<Rightarrow> nat \<Rightarrow> nat \<Rightarrow> nat \<Rightarrow> bool" where
  "edge goto n t c \<longleftrightarrow> n < length goto \<and> (t, c) \<in> set (goto ! n)"

definition trie_ok :: "goto_map \<Rightarrow> bool" where
  "trie_ok goto \<longleftrightarrow> goto \<noteq> [] \<and> (\<forall>n < length goto. distinct (map fst (goto ! n)))
     \<and> (\<forall>n t c. edge goto n t c \<longrightarrow> n < c \<and> c < length goto)
     \<and> (\<forall>c. 0 < c \<and> c < length goto \<longrightarrow> (\<exists>n t. edge goto n t c))
     \<and> (\<forall>n t n' t' c. edge goto n t c \<and> edge goto n' t' c \<longrightarrow> n = n' \<and> t = t')"

lemma trie_okD:
  assumes "trie_ok goto"
  shows "0 < length goto"
    and "n < length goto \<Longrightarrow> distinct (map fst (goto ! n))"
    and "edge goto n t c \<Longrightarrow> n < c \<and> c < length goto"
    and "0 < c \<Longrightarrow> c < length goto \<Longrightarrow> \<exists>n t. edge goto n t c"
    and "edge goto n t c \<Longrightarrow> edge goto n' t' c \<Longrightarrow> n = n' \<and> t = t'"
  using assms unfolding trie_ok_def by blast+

lemma map_of_edge: "trie_ok goto \<Longrightarrow> n < length goto \<Longrightarrow> map_of (goto ! n) t = Some c \<longleftrightarrow> edge goto n t c"
  by (simp add: edge_def trie_okD(2))

lemma walk_append: "walk goto n (u @ v) = Option.bind (walk goto n u) (\<lambda>m. walk goto m v)"
  by (induction u arbitrary: n) (auto split: option.split)

lemma walk_snoc: "walk goto n (u @ [t]) = Option.bind (walk goto n u) (\<lambda>m. map_of (goto ! m) t)"
  by (simp add: walk_append split: option.split) (cases "walk goto n u"; simp split: option.split)

lemma walk_range: "trie_ok goto \<Longrightarrow> n < length goto \<Longrightarrow> walk goto n w = Some m \<Longrightarrow> m < length goto"
  by (induction w arbitrary: n) (auto split: option.splits simp: map_of_edge dest: trie_okD(3))

lemma walk_root_range: "trie_ok goto \<Longrightarrow> walk goto 0 w = Some m \<Longrightarrow> m < length goto"
  using walk_range trie_okD(1) by blast

lemma walk_root_snoc:
  assumes "trie_ok goto"
  shows "walk goto 0 (u @ [t]) = Some c \<longleftrightarrow> (\<exists>n. walk goto 0 u = Some n \<and> edge goto n t c)"
  using assms walk_root_range by (auto simp: walk_snoc bind_eq_Some_conv map_of_edge)

lemma walk_root_zero: "trie_ok goto \<Longrightarrow> walk goto 0 w = Some 0 \<Longrightarrow> w = []"
  by (cases w rule: rev_cases) (auto simp: walk_root_snoc dest: trie_okD(3))

lemma walk_inj: "trie_ok goto \<Longrightarrow> walk goto 0 u = Some n \<Longrightarrow> walk goto 0 v = Some n \<Longrightarrow> u = v"
proof (induction u arbitrary: n v rule: rev_induct)
  case Nil
  then show ?case using walk_root_zero [of goto v] by simp
next
  case (snoc t u)
  then obtain m where m: "walk goto 0 u = Some m" "edge goto m t n" by (auto simp: walk_root_snoc)
  have "v \<noteq> []" using snoc.prems m(2) trie_okD(3) by fastforce
  then obtain v' t' where v: "v = v' @ [t']" by (cases v rule: rev_cases) auto
  then obtain m' where m': "walk goto 0 v' = Some m'" "edge goto m' t' n" using snoc.prems by (auto simp: walk_root_snoc)
  then have "m = m'" "t = t'" using trie_okD(5) [OF snoc.prems(1) m(2) m'(2)] by auto
  then show ?case using snoc.IH [OF snoc.prems(1) m(1), of v'] m' v by simp
qed

lemma walk_surj: "trie_ok goto \<Longrightarrow> n < length goto \<Longrightarrow> \<exists>w. walk goto 0 w = Some n"
proof (induction n rule: less_induct)
  case (less n)
  show ?case
  proof (cases "n = 0")
    case False
    then obtain m t where e: "edge goto m t n" using trie_okD(4) less.prems by blast
    then have "m < n" "m < length goto" using trie_okD(3) [OF less.prems(1) e] by auto
    then obtain w where "walk goto 0 w = Some m" using less by blast
    then have "walk goto 0 (w @ [t]) = Some n" using e less.prems walk_root_snoc by blast
    then show ?thesis ..
  qed (auto intro: exI [of _ "[]"])
qed

definition in_trie :: "goto_map \<Rightarrow> nat list \<Rightarrow> bool" where
  "in_trie goto w \<longleftrightarrow> walk goto 0 w \<noteq> None"

lemma in_trie_Nil [simp]: "in_trie goto []"
  by (simp add: in_trie_def)

lemma in_trie_prefix: "in_trie goto (u @ v) \<Longrightarrow> in_trie goto u"
  by (cases "walk goto 0 u") (simp_all add: in_trie_def walk_append)

subsection \<open>Insertion\<close>

definition grow :: "goto_map \<Rightarrow> nat \<Rightarrow> nat \<Rightarrow> goto_map" where
  "grow goto node token = (goto @ [[]])[node := (token, length goto) # goto ! node]"

lemma edge_grow:
  assumes "node < length goto" "trie_ok goto"
  shows "edge (grow goto node token) n t c \<longleftrightarrow> edge goto n t c \<or> (n = node \<and> t = token \<and> c = length goto)"
  using assms by (auto simp: edge_def grow_def nth_list_update nth_append less_Suc_eq split: if_splits)

lemma grow_nth: "node < length goto \<Longrightarrow> n < length goto \<Longrightarrow> grow goto node token ! n
    = (if n = node then (token, length goto) # goto ! node else goto ! n)"
  by (simp add: grow_def nth_list_update nth_append)

lemma grow_nth_new: "node < length goto \<Longrightarrow> grow goto node token ! length goto = []"
  by (simp add: grow_def nth_list_update nth_append)

lemma length_grow [simp]: "length (grow goto node token) = Suc (length goto)"
  by (simp add: grow_def)

lemma trie_ok_grow:
  assumes ok: "trie_ok goto" and n: "node < length goto" and new: "map_of (goto ! node) token = None"
  shows "trie_ok (grow goto node token)"
proof -
  let ?g = "grow goto node token"
  have e: "edge ?g n t c \<longleftrightarrow> edge goto n t c \<or> (n = node \<and> t = token \<and> c = length goto)" for n t c
    by (rule edge_grow [OF n ok])
  have "distinct (map fst (?g ! m))" if "m < length ?g" for m
  proof (cases "m < length goto")
    case True
    then show ?thesis using trie_okD(2) [OF ok True] n new by (cases "m = node") (simp_all add: grow_nth map_of_eq_None_iff)
  next
    case False
    then have "m = length goto" using that by simp
    then show ?thesis using n by (simp add: grow_nth_new)
  qed
  moreover have "n < c \<and> c < length ?g" if "edge ?g n t c" for n t c
    using that e trie_okD(3) [OF ok, of n t c] \<open>node < length goto\<close> by auto
  moreover have "\<exists>n t. edge ?g n t c" if "0 < c" "c < length ?g" for c
    using that trie_okD(4) [OF ok, of c] e by (cases "c < length goto") (auto simp: less_Suc_eq)
  moreover have "n = n' \<and> t = t'" if "edge ?g n t c" "edge ?g n' t' c" for n t n' t' c
    using that e trie_okD(5) [OF ok, of n t c n' t'] trie_okD(3) [OF ok, of n t c] trie_okD(3) [OF ok, of n' t' c] by auto
  moreover have "?g \<noteq> []" by (metis length_grow list.size(3) nat.simps(3))
  ultimately show ?thesis unfolding trie_ok_def by blast
qed

lemma walk_grow:
  assumes ok: "trie_ok goto" and u: "walk goto 0 u = Some node" and new: "map_of (goto ! node) token = None"
  shows "walk (grow goto node token) 0 w = (if w = u @ [token] then Some (length goto) else walk goto 0 w)"
proof (induction w rule: rev_induct)
  case Nil
  then show ?case by simp
next
  case (snoc t w)
  have n: "node < length goto" using walk_root_range [OF ok u] .
  show ?case
  proof (cases "w = u @ [token]")
    case True
    moreover have "walk goto 0 (u @ [token]) = None" using u new by (simp add: walk_snoc)
    ultimately show ?thesis using snoc n by (simp add: walk_snoc [of _ _ "u @ [token]" t] grow_nth_new del: append_assoc)
  next
    case F: False
    then have ih: "walk (grow goto node token) 0 w = walk goto 0 w" using snoc by simp
    show ?thesis
    proof (cases "walk goto 0 w")
      case None
      moreover have "w \<noteq> u" using None u by auto
      ultimately show ?thesis using ih by (simp add: walk_snoc)
    next
      case (Some m)
      then have "m < length goto" using walk_root_range [OF ok] by blast
      moreover have "m = node \<longleftrightarrow> w = u" using Some u walk_inj [OF ok] by auto
      ultimately show ?thesis using Some ih n by (auto simp: walk_snoc grow_nth)
    qed
  qed
qed

text \<open>What one insertion does to the words of the trie, to the sizes and to the bonuses.\<close>

definition sized :: "'s graph_trie \<Rightarrow> bool" where
  "sized t \<longleftrightarrow> trie_ok (gt_goto t) \<and> length (gt_token_score t) = length (gt_goto t) \<and> length (gt_is_end_bonus t) = length (gt_goto t)"

definition bonus_at :: "'s score_arith \<Rightarrow> 's graph_trie \<Rightarrow> nat list \<Rightarrow> 's" where
  "bonus_at ar t w = (case walk (gt_goto t) 0 w of None \<Rightarrow> sa_zero ar | Some n \<Rightarrow> gt_is_end_bonus t ! n)"

lemma sized_empty: "sized (graph_trie_empty ar)"
  by (simp add: sized_def graph_trie_empty_def trie_ok_def edge_def)

lemma in_trie_empty: "in_trie (gt_goto (graph_trie_empty ar)) w \<longleftrightarrow> w = []"
  by (cases w) (simp_all add: in_trie_def graph_trie_empty_def)

lemma bonus_at_empty: "bonus_at ar (graph_trie_empty ar) w = sa_zero ar"
  by (cases w) (simp_all add: bonus_at_def graph_trie_empty_def)

lemma raise_edge_keeps [simp]:
  "gt_goto (raise_edge ar boost child t) = gt_goto t" "gt_is_end_bonus (raise_edge ar boost child t) = gt_is_end_bonus t"
  "sized (raise_edge ar boost child t) = sized t" "bonus_at ar (raise_edge ar boost child t) = bonus_at ar t"
  by (auto simp: raise_edge_def sized_def bonus_at_def fun_eq_iff split: option.split)

lemma goto_add_child [simp]: "gt_goto (add_child ar boost node token t) = grow (gt_goto t) node token"
  by (simp add: add_child_def grow_def)

lemma sized_add_child:
  "sized t \<Longrightarrow> node < length (gt_goto t) \<Longrightarrow> map_of (gt_goto t ! node) token = None \<Longrightarrow> sized (add_child ar boost node token t)"
  using trie_ok_grow by (auto simp: sized_def) (simp_all add: add_child_def)

lemma bonus_at_add_child:
  assumes "sized t" "walk (gt_goto t) 0 u = Some node" "map_of (gt_goto t ! node) token = None"
  shows "bonus_at ar (add_child ar boost node token t) w = bonus_at ar t w"
proof -
  have w: "walk (grow (gt_goto t) node token) 0 w = (if w = u @ [token] then Some (length (gt_goto t)) else walk (gt_goto t) 0 w)"
    using walk_grow assms by (simp add: sized_def)
  have b: "gt_is_end_bonus (add_child ar boost node token t) = gt_is_end_bonus t @ [sa_zero ar]" by (simp add: add_child_def)
  have none: "walk (gt_goto t) 0 (u @ [token]) = None" using assms by (simp add: walk_snoc)
  have len: "length (gt_is_end_bonus t) = length (gt_goto t)" using assms by (simp add: sized_def)
  have rng: "n < length (gt_goto t)" if "walk (gt_goto t) 0 w = Some n" for n
    using walk_root_range that assms(1) by (auto simp: sized_def)
  show ?thesis
    using none len rng by (auto simp: bonus_at_def w b nth_append split: option.split)
qed

lemma insert_tokens_spec:
  assumes "sized t" "walk (gt_goto t) 0 u = Some node" "insert_tokens ar boost node tokens t = (node', t')"
  shows "sized t' \<and> walk (gt_goto t') 0 (u @ tokens) = Some node'
    \<and> (\<forall>w. in_trie (gt_goto t') w \<longleftrightarrow> in_trie (gt_goto t) w \<or> (\<exists>p. prefix p tokens \<and> w = u @ p))
    \<and> bonus_at ar t' = bonus_at ar t"
  using assms
proof (induction tokens arbitrary: t u node)
  case Nil
  then show ?case by (auto simp: in_trie_def)
next
  case (Cons token tokens)
  have pre: "(\<exists>p. prefix p (token # tokens) \<and> w = u @ p) \<longleftrightarrow> w = u \<or> (\<exists>p. prefix p tokens \<and> w = (u @ [token]) @ p)" for w
    by (auto simp: prefix_Cons)
  have inu: "in_trie (gt_goto t) u" using Cons.prems by (simp add: in_trie_def)
  show ?case
  proof (cases "map_of (gt_goto t ! node) token")
    case None
    let ?t = "add_child ar boost node token t"
    have n: "node < length (gt_goto t)" using Cons.prems walk_root_range by (auto simp: sized_def)
    have w: "walk (gt_goto ?t) 0 w = (if w = u @ [token] then Some (length (gt_goto t)) else walk (gt_goto t) 0 w)" for w
      using walk_grow Cons.prems None by (simp add: sized_def)
    have i: "in_trie (gt_goto ?t) w \<longleftrightarrow> in_trie (gt_goto t) w \<or> w = u @ [token]" for w using w by (simp add: in_trie_def)
    have ok: "sized ?t" by (rule sized_add_child [OF Cons.prems(1) n None])
    have b: "bonus_at ar ?t = bonus_at ar t" by (rule ext) (rule bonus_at_add_child [OF Cons.prems(1,2) None])
    have "insert_tokens ar boost (length (gt_goto t)) tokens ?t = (node', t')" using Cons.prems(3) None by simp
    from Cons.IH [OF ok, of "u @ [token]", OF _ this] w [of "u @ [token]"]
    have r: "sized t'" "walk (gt_goto t') 0 ((u @ [token]) @ tokens) = Some node'" "bonus_at ar t' = bonus_at ar ?t"
      "in_trie (gt_goto t') w \<longleftrightarrow> in_trie (gt_goto ?t) w \<or> (\<exists>p. prefix p tokens \<and> w = (u @ [token]) @ p)" for w by simp_all
    have "in_trie (gt_goto t') w \<longleftrightarrow> in_trie (gt_goto t) w \<or> (\<exists>p. prefix p (token # tokens) \<and> w = u @ p)" for w
      unfolding pre r(4) i using inu by auto
    then show ?thesis using r(1-3) b by simp
  next
    case (Some child)
    have "walk (gt_goto t) 0 (u @ [token]) = Some child" using Cons.prems Some by (simp add: walk_snoc)
    then show ?thesis
      using Cons.IH [of "raise_edge ar boost child t" "u @ [token]" child] Cons.prems Some inu pre by (auto simp: in_trie_def)
  qed
qed

subsection \<open>The trie of the hotwords\<close>

text \<open>The hotwords that build context: the nonempty variants of the phrases with a positive boost.\<close>

definition hotwords :: "'s score_arith \<Rightarrow> 's token_phrase_bias list \<Rightarrow> ('s \<times> nat list) list" where
  "hotwords ar biases = concat (map (\<lambda>bias. if sa_le ar (tb_boost bias) (sa_zero ar) then []
     else map (Pair (tb_boost bias)) (filter (\<lambda>v. v \<noteq> []) (tb_variants bias))) biases)"

definition hot_prefix :: "'s score_arith \<Rightarrow> 's token_phrase_bias list \<Rightarrow> nat list \<Rightarrow> bool" where
  "hot_prefix ar biases w \<longleftrightarrow> w = [] \<or> list_ex (\<lambda>(_, v). prefix w v) (hotwords ar biases)"

lemma insert_variants_filter:
  "fold (insert_variant ar boost) vs t = fold (\<lambda>(b, v). insert_variant ar b v) (map (Pair boost) (filter (\<lambda>v. v \<noteq> []) vs)) t"
  by (induction vs arbitrary: t) (auto simp: insert_variant_def)

lemma build_trie_hotwords: "build_trie ar biases = fold (\<lambda>(b, v). insert_variant ar b v) (hotwords ar biases) (graph_trie_empty ar)"
proof -
  have "fold (insert_bias ar) biases t = fold (\<lambda>(b, v). insert_variant ar b v) (hotwords ar biases) t" for t
    by (induction biases arbitrary: t) (simp_all add: hotwords_def insert_bias_def insert_variants_filter)
  then show ?thesis by (simp add: build_trie_def)
qed

lemma hotwords_nonempty: "(b, v) \<in> set (hotwords ar biases) \<Longrightarrow> v \<noteq> []"
  by (auto simp: hotwords_def split: if_splits)

lemma insert_variant_spec:
  assumes "sized t" "v \<noteq> []"
  shows "sized (insert_variant ar boost v t)"
    and "in_trie (gt_goto (insert_variant ar boost v t)) w \<longleftrightarrow> in_trie (gt_goto t) w \<or> prefix w v"
    and "bonus_at ar (insert_variant ar boost v t) w =
      (if w = v \<and> sa_gt ar (sa_scale ar boost (length v)) (bonus_at ar t v) then sa_scale ar boost (length v) else bonus_at ar t w)"
proof -
  obtain node t' where ins: "insert_tokens ar boost 0 v t = (node, t')" by force
  from insert_tokens_spec [OF assms(1) _ ins, of "[]"]
  have ok: "sized t'" and walk: "walk (gt_goto t') 0 v = Some node" and b: "bonus_at ar t' = bonus_at ar t"
    and words: "\<And>w. in_trie (gt_goto t') w \<longleftrightarrow> in_trie (gt_goto t) w \<or> prefix w v" by auto
  have goto: "gt_goto (insert_variant ar boost v t) = gt_goto t'" using assms(2) ins by (simp add: insert_variant_def Let_def)
  show "sized (insert_variant ar boost v t)" using ok ins assms(2) by (simp add: insert_variant_def sized_def Let_def)
  show "in_trie (gt_goto (insert_variant ar boost v t)) w \<longleftrightarrow> in_trie (gt_goto t) w \<or> prefix w v"
    using words by (simp add: goto)
  have at: "bonus_at ar t v = gt_is_end_bonus t' ! node" unfolding b [symmetric] using walk by (simp add: bonus_at_def)
  have range: "node < length (gt_is_end_bonus t')" using ok walk walk_root_range by (auto simp: sized_def)
  have bw: "bonus_at ar t w = (case walk (gt_goto t') 0 w of None \<Rightarrow> sa_zero ar | Some n \<Rightarrow> gt_is_end_bonus t' ! n)"
    unfolding b [symmetric] by (simp add: bonus_at_def)
  have inj: "n = node \<longleftrightarrow> w = v" if "walk (gt_goto t') 0 w = Some n" for n
    using that walk walk_inj [of "gt_goto t'"] ok by (auto simp: sized_def)
  show "bonus_at ar (insert_variant ar boost v t) w =
      (if w = v \<and> sa_gt ar (sa_scale ar boost (length v)) (bonus_at ar t v) then sa_scale ar boost (length v) else bonus_at ar t w)"
  proof (cases "walk (gt_goto t') 0 w")
    case None
    then have "w \<noteq> v" using walk by auto
    then show ?thesis using None bw by (simp add: bonus_at_def goto)
  next
    case (Some n)
    have "bonus_at ar (insert_variant ar boost v t) w = gt_is_end_bonus (insert_variant ar boost v t) ! n"
      using Some by (simp add: bonus_at_def goto)
    also have "\<dots> = (if n = node \<and> sa_gt ar (sa_scale ar boost (length v)) (gt_is_end_bonus t' ! node)
        then sa_scale ar boost (length v) else gt_is_end_bonus t' ! n)"
      using assms(2) ins range by (auto simp: insert_variant_def Let_def nth_list_update)
    finally show ?thesis using inj [OF Some] at bw Some by simp
  qed
qed

lemma build_trie_spec:
  "sized (build_trie ar biases) \<and> (\<forall>w. in_trie (gt_goto (build_trie ar biases)) w \<longleftrightarrow> hot_prefix ar biases w)"
proof -
  have "sized t' \<and> (\<forall>w. in_trie (gt_goto t') w \<longleftrightarrow> in_trie (gt_goto t) w \<or> list_ex (\<lambda>(_, v). prefix w v) hs)"
    if "sized t" "\<forall>(_, v) \<in> set hs. v \<noteq> []" "t' = fold (\<lambda>(b, v). insert_variant ar b v) hs t" for hs and t t' :: "'a graph_trie"
    using that
  proof (induction hs arbitrary: t)
    case (Cons h hs)
    obtain b v where h: "h = (b, v)" by force
    then have v: "v \<noteq> []" using Cons.prems by simp
    show ?case using Cons.IH [of "insert_variant ar b v t"] Cons.prems h insert_variant_spec(1,2) [OF Cons.prems(1) v] by auto
  qed simp
  from this [OF sized_empty _ build_trie_hotwords] show ?thesis
    using hotwords_nonempty [of _ _ ar biases] in_trie_empty [of ar] by (auto simp: hot_prefix_def)
qed

section \<open>The longest suffix in a set of words\<close>

fun longest_suffix :: "('a list \<Rightarrow> bool) \<Rightarrow> 'a list \<Rightarrow> 'a list" where
  "longest_suffix P [] = []"
| "longest_suffix P (x # xs) = (if P (x # xs) then x # xs else longest_suffix P xs)"

lemma longest_suffix_suffix: "suffix (longest_suffix P w) w"
  by (induction w) (auto simp: suffix_Cons)

lemma longest_suffix_holds: "P [] \<Longrightarrow> P (longest_suffix P w)"
  by (induction w) auto

lemma longest_suffix_greatest: "P v \<Longrightarrow> suffix v w \<Longrightarrow> suffix v (longest_suffix P w)"
  by (induction w) (auto simp: suffix_Cons)

lemma longest_suffix_id: "P w \<Longrightarrow> longest_suffix P w = w"
  by (cases w) auto

lemma longest_suffix_unique:
  "P v \<Longrightarrow> suffix v w \<Longrightarrow> (\<And>u. P u \<Longrightarrow> suffix u w \<Longrightarrow> suffix u v) \<Longrightarrow> P [] \<Longrightarrow> longest_suffix P w = v"
  by (meson longest_suffix_greatest longest_suffix_holds longest_suffix_suffix suffix_order.order_antisym)

text \<open>One token more: it is enough to look at the longest suffix so far.\<close>

lemma longest_suffix_snoc:
  assumes nil: "P []" and closed: "\<And>u t. P (u @ [t]) \<Longrightarrow> P u"
  shows "longest_suffix P (longest_suffix P w @ [t]) = longest_suffix P (w @ [t])"
proof (rule longest_suffix_unique [of P, symmetric, OF _ _ _ nil, symmetric])
  let ?v = "longest_suffix P (w @ [t])"
  show "P ?v" using nil by (rule longest_suffix_holds)
  have *: "suffix u (longest_suffix P w @ [t])" if u: "P u" "suffix u (w @ [t])" for u
  proof (cases u rule: rev_cases)
    case (snoc u' t')
    then have "suffix u' w" "t' = t" using u(2) by auto
    moreover have "P u'" using closed u(1) snoc by blast
    ultimately show ?thesis using longest_suffix_greatest snoc by auto
  qed simp
  show "suffix ?v (longest_suffix P w @ [t])" using * \<open>P ?v\<close> longest_suffix_suffix by blast
  show "suffix u ?v" if "P u" "suffix u (longest_suffix P w @ [t])" for u
  proof -
    have "suffix (longest_suffix P w @ [t]) (w @ [t])" using longest_suffix_suffix [of P w] by simp
    then show ?thesis using that longest_suffix_greatest suffix_order.order_trans by blast
  qed
qed

section \<open>Breadth-first traversal\<close>

definition iterates :: "map_order \<Rightarrow> bool" where
  "iterates it \<longleftrightarrow> (\<forall>n m. mset (it n m) = mset m)"

definition kids :: "map_order \<Rightarrow> goto_map \<Rightarrow> nat \<Rightarrow> nat list" where
  "kids it goto n = map snd (it n (goto ! n))"

definition word_of :: "goto_map \<Rightarrow> nat \<Rightarrow> nat list" where
  "word_of goto n = (THE w. walk goto 0 w = Some n)"

abbreviation depth :: "goto_map \<Rightarrow> nat \<Rightarrow> nat" where
  "depth goto n \<equiv> length (word_of goto n)"

lemma word_of_walk: "trie_ok goto \<Longrightarrow> walk goto 0 w = Some n \<Longrightarrow> word_of goto n = w"
  unfolding word_of_def by (rule the_equality) (use walk_inj in blast)+

lemma walk_word_of: "trie_ok goto \<Longrightarrow> n < length goto \<Longrightarrow> walk goto 0 (word_of goto n) = Some n"
  using walk_surj word_of_walk by metis

lemma word_of_root [simp]: "trie_ok goto \<Longrightarrow> word_of goto 0 = []"
  by (rule word_of_walk) simp_all

lemma word_of_edge: "trie_ok goto \<Longrightarrow> edge goto n t c \<Longrightarrow> word_of goto c = word_of goto n @ [t]"
  by (rule word_of_walk) (auto simp: walk_root_snoc walk_word_of edge_def)

lemma iterates_set: "iterates it \<Longrightarrow> set (it n m) = set m"
  unfolding iterates_def by (metis set_mset_mset)

lemma set_kids: "iterates it \<Longrightarrow> n < length goto \<Longrightarrow> c \<in> set (kids it goto n) \<longleftrightarrow> (\<exists>t. edge goto n t c)"
  by (force simp: kids_def iterates_set edge_def)

lemma distinct_kids:
  assumes "trie_ok goto" "iterates it" "n < length goto"
  shows "distinct (kids it goto n)"
proof -
  have "distinct (goto ! n)" using trie_okD(2) [OF assms(1,3)] by (simp add: distinct_map)
  moreover have "mset (it n (goto ! n)) = mset (goto ! n)" using assms(2) by (simp add: iterates_def)
  ultimately have "distinct (it n (goto ! n))" using mset_eq_imp_distinct_iff by metis
  moreover have "inj_on snd (set (it n (goto ! n)))"
    using trie_okD(5) [OF assms(1), of n _ _ n] assms(2,3) by (fastforce simp: inj_on_def iterates_set edge_def)
  ultimately show ?thesis by (simp add: kids_def distinct_map)
qed

definition bfs_inv :: "map_order \<Rightarrow> goto_map \<Rightarrow> nat list \<Rightarrow> nat list \<Rightarrow> bool" where
  "bfs_inv it goto visited queue \<longleftrightarrow> distinct (visited @ queue) \<and> set (visited @ queue) \<subseteq> {0<..<length goto}
     \<and> sorted_wrt (\<lambda>a b. depth goto a \<le> depth goto b) (visited @ queue)
     \<and> set (visited @ queue) = (\<Union>p \<in> insert 0 (set visited). set (kids it goto p))"

lemma kids_depth: "trie_ok goto \<Longrightarrow> iterates it \<Longrightarrow> n < length goto \<Longrightarrow> c \<in> set (kids it goto n) \<Longrightarrow> depth goto c = Suc (depth goto n)"
  using word_of_edge by (auto simp: set_kids)

lemma sorted_same_depth: "(\<And>c. c \<in> set cs \<Longrightarrow> depth goto c = d) \<Longrightarrow> sorted_wrt (\<lambda>a b. depth goto a \<le> depth goto b) cs"
  by (induction cs) auto

lemma kids_range: "trie_ok goto \<Longrightarrow> iterates it \<Longrightarrow> n < length goto \<Longrightarrow> set (kids it goto n) \<subseteq> {0<..<length goto}"
  using trie_okD(3) by (fastforce simp: set_kids)

lemma bfs_inv_seed:
  assumes ok: "trie_ok goto" and it: "iterates it"
  shows "bfs_inv it goto [] (kids it goto 0)"
  using distinct_kids [OF ok it, of 0] kids_range [OF ok it, of 0] trie_okD(1) [OF ok] sorted_same_depth [OF kids_depth [OF ok it, of 0]]
  by (simp add: bfs_inv_def)

lemma bfs_fresh:
  assumes ok: "trie_ok goto" and it: "iterates it" and inv: "bfs_inv it goto visited (n # queue)"
    and x: "x \<in> set (kids it goto n)"
  shows "x \<notin> set (visited @ n # queue)"
proof
  assume "x \<in> set (visited @ n # queue)"
  moreover have "set (visited @ n # queue) = (\<Union>p \<in> insert 0 (set visited). set (kids it goto p))"
    using inv unfolding bfs_inv_def by blast
  ultimately obtain p where p: "p \<in> insert 0 (set visited)" "x \<in> set (kids it goto p)" by blast
  have n: "0 < n" "n < length goto" "set visited \<subseteq> {0<..<length goto}" "n \<notin> set visited" using inv by (auto simp: bfs_inv_def)
  then have "p < length goto" using p(1) by auto
  then have "p = n" using p(2) x n trie_okD(5) [OF ok] by (auto simp: set_kids [OF it])
  then show False using p(1) n by auto
qed

lemma bfs_inv_step:
  assumes ok: "trie_ok goto" and it: "iterates it" and inv: "bfs_inv it goto visited (n # queue)"
  shows "bfs_inv it goto (visited @ [n]) (queue @ kids it goto n)"
proof -
  let ?L = "visited @ n # queue"
  have d: "distinct ?L" and r: "set ?L \<subseteq> {0<..<length goto}" and s: "sorted_wrt (\<lambda>a b. depth goto a \<le> depth goto b) ?L"
    and c: "set ?L = (\<Union>p \<in> insert 0 (set visited). set (kids it goto p))" using inv unfolding bfs_inv_def by blast+
  have n: "0 < n" "n < length goto" using r by auto
  have fresh: "x \<notin> set ?L" if "x \<in> set (kids it goto n)" for x using bfs_fresh [OF ok it inv that] .
  have shallow: "depth goto x \<le> Suc (depth goto n)" if x: "x \<in> set ?L" for x
  proof -
    obtain p where p: "p \<in> insert 0 (set visited)" "x \<in> set (kids it goto p)" using x unfolding c by blast
    moreover have "p < length goto" using p r n by auto
    moreover have "depth goto p \<le> depth goto n" using p(1) s ok by (auto simp: sorted_wrt_append)
    ultimately show ?thesis using kids_depth [OF ok it] by simp
  qed
  have "sorted_wrt (\<lambda>a b. depth goto a \<le> depth goto b) (?L @ kids it goto n)"
    using s shallow kids_depth [OF ok it n(2)] sorted_same_depth [OF kids_depth [OF ok it n(2)]] by (simp only: sorted_wrt_append) auto
  moreover have "distinct (?L @ kids it goto n)" using d fresh distinct_kids [OF ok it n(2)] by (simp only: distinct_append) blast
  moreover have "set (?L @ kids it goto n) \<subseteq> {0<..<length goto}" using r kids_range [OF ok it n(2)] by simp
  moreover have "set (?L @ kids it goto n) = (\<Union>p \<in> insert 0 (set (visited @ [n])). set (kids it goto p))" using c by auto
  moreover have "(visited @ [n]) @ queue @ kids it goto n = ?L @ kids it goto n" by simp
  ultimately show ?thesis unfolding bfs_inv_def by (simp only:)
qed

lemma bfs_reached:
  assumes ok: "trie_ok goto" and it: "iterates it" and inv: "bfs_inv it goto visited queue"
    and bound: "\<And>x. x \<in> set queue \<Longrightarrow> d \<le> depth goto x"
  shows "0 < m \<Longrightarrow> m < length goto \<Longrightarrow> depth goto m \<le> d \<Longrightarrow> m \<in> set (visited @ queue)"
proof (induction m rule: less_induct)
  case (less m)
  obtain p t where e: "edge goto p t m" using trie_okD(4) [OF ok less.prems(1,2)] by blast
  have p: "p < m" "p < length goto" using trie_okD(3) [OF ok e] by auto
  have dp: "depth goto p < d" using word_of_edge [OF ok e] less.prems by simp
  have "p \<in> insert 0 (set visited)"
  proof (cases "p = 0")
    case False
    then have "p \<in> set (visited @ queue)" using less.IH p dp by simp
    then show ?thesis using bound [of p] dp by auto
  qed simp
  moreover have "m \<in> set (kids it goto p)" using e p(2) set_kids [OF it] by blast
  ultimately show ?case using inv unfolding bfs_inv_def by blast
qed

lemma bfs_finished: "trie_ok goto \<Longrightarrow> iterates it \<Longrightarrow> bfs_inv it goto visited [] \<Longrightarrow> set visited = {0<..<length goto}"
  using bfs_reached [of goto it visited "[]" "depth goto m" m for m] by (auto simp: bfs_inv_def)

lemma bfs_measure:
  assumes ok: "trie_ok goto" and inv: "bfs_inv it goto visited (n # queue)"
  shows "length visited < length goto"
proof -
  from inv have "distinct visited" "set visited \<subseteq> {0<..<length goto}" by (auto simp: bfs_inv_def)
  then have "length visited \<le> card {0<..<length goto}" by (metis distinct_card card_mono finite_greaterThanLessThan)
  then show ?thesis using trie_okD(1) [OF ok] by (cases "length goto") simp_all
qed

section \<open>Fail links\<close>

text \<open>The fail link of a node is the node of the longest proper suffix of its word.\<close>

definition fail_of :: "goto_map \<Rightarrow> nat list \<Rightarrow> nat \<Rightarrow> bool" where
  "fail_of goto fail n \<longleftrightarrow> n < length fail \<and> walk goto 0 (longest_suffix (in_trie goto) (tl (word_of goto n))) = Some (fail ! n)"

lemma follow_longest:
  assumes ok: "trie_ok goto" and fails: "\<And>m. 0 < m \<Longrightarrow> m < length goto \<Longrightarrow> depth goto m \<le> depth goto f \<Longrightarrow> fail_of goto fail m"
  shows "f < length goto \<Longrightarrow> \<exists>d. follow goto fail token f = Some d \<and> d < length goto
    \<and> walk goto 0 (longest_suffix (in_trie goto) (word_of goto f @ [token])) = Some d"
  using fails
proof (induction "depth goto f" arbitrary: f rule: less_induct)
  case less
  let ?u = "word_of goto f"
  have wf: "walk goto 0 ?u = Some f" using walk_word_of [OF ok less.prems(1)] .
  show ?case
  proof (cases "map_of (goto ! f) token")
    case (Some c)
    then have w: "walk goto 0 (?u @ [token]) = Some c" using wf by (simp add: walk_snoc)
    then have "longest_suffix (in_trie goto) (?u @ [token]) = ?u @ [token]" by (intro longest_suffix_id) (simp add: in_trie_def)
    then show ?thesis using Some w walk_root_range [OF ok w] by (subst follow.simps) simp
  next
    case None
    then have out: "\<not> in_trie goto (?u @ [token])" using wf by (simp add: in_trie_def walk_snoc)
    show ?thesis
    proof (cases "f = 0")
      case True
      then show ?thesis using None out ok trie_okD(1) [OF ok] by (subst follow.simps) (simp add: in_trie_def)
    next
      case False
      then obtain x xs where u: "?u = x # xs" using wf by (cases ?u) auto
      let ?v = "longest_suffix (in_trie goto) xs"
      have ff: "fail_of goto fail f" using less.prems False by simp
      then have v: "walk goto 0 ?v = Some (fail ! f)" using u by (simp add: fail_of_def)
      have shorter: "depth goto (fail ! f) < depth goto f"
        using word_of_walk [OF ok v] u suffix_length_le [OF longest_suffix_suffix [of "in_trie goto" xs]] by simp
      have "\<exists>d. follow goto fail token (fail ! f) = Some d \<and> d < length goto
          \<and> walk goto 0 (longest_suffix (in_trie goto) (word_of goto (fail ! f) @ [token])) = Some d"
        using less.hyps [OF shorter] walk_root_range [OF ok v] less.prems(2) shorter by simp
      moreover have "longest_suffix (in_trie goto) (?v @ [token]) = longest_suffix (in_trie goto) (xs @ [token])"
        by (rule longest_suffix_snoc) (auto intro: in_trie_prefix)
      moreover have "longest_suffix (in_trie goto) (?u @ [token]) = longest_suffix (in_trie goto) (xs @ [token])" using out u by simp
      ultimately show ?thesis using None False word_of_walk [OF ok v] by (subst follow.simps) simp
    qed
  qed
qed

lemma fail_children_spec:
  assumes ok: "trie_ok goto" and n: "0 < n" "n < length goto"
    and cs: "\<And>t c. (t, c) \<in> set cs \<Longrightarrow> edge goto n t c"
    and fails: "\<And>m. 0 < m \<Longrightarrow> m < length goto \<Longrightarrow> depth goto m \<le> depth goto n \<Longrightarrow> fail_of goto fail m"
    and len: "length fail = length goto"
  shows "\<exists>fail'. fail_children goto n cs fail bfs = Some (fail', bfs @ map snd cs) \<and> length fail' = length goto
    \<and> (\<forall>m. fail_of goto fail m \<or> m \<in> snd ` set cs \<longrightarrow> fail_of goto fail' m)"
  using cs fails len
proof (induction cs arbitrary: fail bfs)
  case (Cons tc cs)
  obtain t c where tc: "tc = (t, c)" by force
  then have e: "edge goto n t c" using Cons.prems by simp
  obtain x xs where u: "word_of goto n = x # xs" using n walk_word_of [OF ok n(2)] by (cases "word_of goto n") auto
  have fn: "walk goto 0 (longest_suffix (in_trie goto) xs) = Some (fail ! n)" using Cons.prems(2) [OF n] u by (simp add: fail_of_def)
  then have f: "fail ! n < length goto" "word_of goto (fail ! n) = longest_suffix (in_trie goto) xs"
    using walk_root_range [OF ok] word_of_walk [OF ok] by blast+
  have le: "depth goto (fail ! n) \<le> depth goto n"
    using f(2) u suffix_length_le [OF longest_suffix_suffix [of "in_trie goto" xs]] by simp
  obtain d where d: "follow goto fail t (fail ! n) = Some d"
    "walk goto 0 (longest_suffix (in_trie goto) (word_of goto (fail ! n) @ [t])) = Some d"
    using follow_longest [OF ok _ f(1), of fail t] Cons.prems(2) le by (meson le_trans)
  have "longest_suffix (in_trie goto) (longest_suffix (in_trie goto) xs @ [t]) = longest_suffix (in_trie goto) (xs @ [t])"
    by (rule longest_suffix_snoc) (auto intro: in_trie_prefix)
  then have new: "walk goto 0 (longest_suffix (in_trie goto) (tl (word_of goto c))) = Some d"
    using d(2) f(2) u word_of_edge [OF ok e] by simp
  have c: "c < length goto" using trie_okD(3) [OF ok e] by simp
  have keep: "fail_of goto (fail[c := d]) m" if "fail_of goto fail m \<or> m = c" for m
    using that new c Cons.prems(3) by (auto simp: fail_of_def nth_list_update)
  have "\<exists>fail'. fail_children goto n cs (fail[c := d]) (bfs @ [c]) = Some (fail', (bfs @ [c]) @ map snd cs) \<and> length fail' = length goto
    \<and> (\<forall>m. fail_of goto (fail[c := d]) m \<or> m \<in> snd ` set cs \<longrightarrow> fail_of goto fail' m)"
    by (rule Cons.IH) (use Cons.prems keep in auto)
  then show ?case using tc d(1) keep by auto
qed simp

lemma fail_bfs_spec:
  assumes ok: "trie_ok goto" and it: "iterates it"
    and inv: "bfs_inv it goto visited queue" and len: "length fail = length goto"
    and fails: "\<And>m. m \<in> set (visited @ queue) \<Longrightarrow> fail_of goto fail m"
  shows "\<exists>fail'. fail_bfs it goto (fail, queue) = Some fail' \<and> length fail' = length goto
    \<and> (\<forall>m. 0 < m \<and> m < length goto \<longrightarrow> fail_of goto fail' m)"
  using inv len fails
proof (induction "length goto - length visited" arbitrary: visited queue fail rule: less_induct)
  case less
  show ?case
  proof (cases queue)
    case Nil
    then show ?thesis using less.prems bfs_finished [OF ok it, of visited] by (subst fail_bfs.simps) auto
  next
    case (Cons n rest)
    have inv: "bfs_inv it goto visited (n # rest)" using less.prems(1) Cons by simp
    then have n: "0 < n" "n < length goto" by (auto simp: bfs_inv_def)
    have "sorted_wrt (\<lambda>a b. depth goto a \<le> depth goto b) (n # rest)" using inv by (simp add: bfs_inv_def sorted_wrt_append)
    then have shallow: "fail_of goto fail m" if "0 < m" "m < length goto" "depth goto m \<le> depth goto n" for m
      using bfs_reached [OF ok it inv, of "depth goto n" m] less.prems(3) that Cons by auto
    have cs: "edge goto n t c" if "(t, c) \<in> set (it n (goto ! n))" for t c using that n by (simp add: iterates_set [OF it] edge_def)
    obtain fail' where f: "fail_children goto n (it n (goto ! n)) fail rest = Some (fail', rest @ kids it goto n)"
      "length fail' = length goto" "\<And>m. fail_of goto fail m \<or> m \<in> set (kids it goto n) \<Longrightarrow> fail_of goto fail' m"
      using fail_children_spec [OF ok n cs shallow less.prems(2), of "it n (goto ! n)" rest] unfolding kids_def set_map by blast
    have "length goto - length (visited @ [n]) < length goto - length visited" using bfs_measure [OF ok inv] by simp
    from less.hyps [OF this bfs_inv_step [OF ok it inv] f(2)]
    show ?thesis using Cons f(1,3) less.prems(3) by (subst fail_bfs.simps) auto
  qed
qed

section \<open>Accumulated scores\<close>

lemma score_children_spec:
  assumes "distinct (map snd cs)" "n \<notin> snd ` set cs" "\<forall>c \<in> snd ` set cs. c < length ns"
  shows "\<exists>ns'. score_children ar ts n cs (es, ns, q) = (es @ map fst cs, ns', q @ map snd cs) \<and> length ns' = length ns
    \<and> (\<forall>m. m \<notin> snd ` set cs \<longrightarrow> ns' ! m = ns ! m) \<and> (\<forall>c \<in> snd ` set cs. ns' ! c = sa_add ar (ns ! n) (ts ! c))"
  using assms
proof (induction cs arbitrary: es ns q)
  case (Cons tc cs)
  obtain t c where tc: "tc = (t, c)" by force
  let ?ns = "ns[c := sa_add ar (ns ! n) (ts ! c)]"
  have c: "c \<notin> snd ` set cs" "c \<noteq> n" "c < length ns" using Cons.prems tc by auto
  have d: "distinct (map snd cs)" "n \<notin> snd ` set cs" "\<forall>x \<in> snd ` set cs. x < length ns" using Cons.prems tc by auto
  obtain ns' where r: "score_children ar ts n cs (es @ [t], ?ns, q @ [c]) = ((es @ [t]) @ map fst cs, ns', (q @ [c]) @ map snd cs)"
    "length ns' = length ns" "\<And>m. m \<notin> snd ` set cs \<Longrightarrow> ns' ! m = ?ns ! m" "\<And>x. x \<in> snd ` set cs \<Longrightarrow> ns' ! x = sa_add ar (?ns ! n) (ts ! x)"
    using Cons.IH [of ?ns "es @ [t]" "q @ [c]"] d unfolding length_list_update by blast
  have "ns' ! c = sa_add ar (ns ! n) (ts ! c)" using r(3) [OF c(1)] c(3) by simp
  then show ?case using r c tc by (auto simp: nth_list_update)
qed simp

lemma seed_scores_spec:
  assumes "distinct (map snd cs)" "\<forall>c \<in> snd ` set cs. c < length ns"
  shows "\<exists>ns'. seed_scores ts cs (es, ns, q) = (es @ map fst cs, ns', q @ map snd cs) \<and> length ns' = length ns
    \<and> (\<forall>m. m \<notin> snd ` set cs \<longrightarrow> ns' ! m = ns ! m) \<and> (\<forall>c \<in> snd ` set cs. ns' ! c = ts ! c)"
  using assms
proof (induction cs arbitrary: es ns q)
  case (Cons tc cs)
  obtain t c where tc: "tc = (t, c)" by force
  let ?ns = "ns[c := ts ! c]"
  have c: "c \<notin> snd ` set cs" "c < length ns" using Cons.prems tc by auto
  have d: "distinct (map snd cs)" "\<forall>x \<in> snd ` set cs. x < length ns" using Cons.prems tc by auto
  obtain ns' where r: "seed_scores ts cs (es @ [t], ?ns, q @ [c]) = ((es @ [t]) @ map fst cs, ns', (q @ [c]) @ map snd cs)"
    "length ns' = length ns" "\<And>m. m \<notin> snd ` set cs \<Longrightarrow> ns' ! m = ?ns ! m" "\<And>x. x \<in> snd ` set cs \<Longrightarrow> ns' ! x = ts ! x"
    using Cons.IH [of ?ns "es @ [t]" "q @ [c]"] d unfolding length_list_update by blast
  have "ns' ! c = ts ! c" using r(3) [OF c(1)] c(2) by simp
  then show ?case using r c tc by (auto simp: nth_list_update)
qed simp

text \<open>The scores and edge tokens are right for the edges that leave the nodes in \<open>from\<close>.\<close>

definition scored :: "'s score_arith \<Rightarrow> 's graph_trie \<Rightarrow> nat set \<Rightarrow> nat list \<Rightarrow> 's list \<Rightarrow> bool" where
  "scored ar t from es ns \<longleftrightarrow> length ns = length (gt_goto t) \<and> ns ! 0 = sa_zero ar
     \<and> (\<forall>n tok c. n \<in> from \<and> edge (gt_goto t) n tok c \<longrightarrow>
          ns ! c = (if n = 0 then gt_token_score t ! c else sa_add ar (ns ! n) (gt_token_score t ! c)))
     \<and> set es = {tok. \<exists>n \<in> from. \<exists>c. edge (gt_goto t) n tok c}"

lemma edges_of_map: "iterates it \<Longrightarrow> n < length goto \<Longrightarrow> (tok, c) \<in> set (it n (goto ! n)) \<longleftrightarrow> edge goto n tok c"
  by (simp add: iterates_set edge_def)

lemma scored_step:
  assumes ok: "trie_ok (gt_goto t)" and it: "iterates it"
    and inv: "bfs_inv it (gt_goto t) visited (n # queue)" and sc: "scored ar t (insert 0 (set visited)) es ns"
  shows "\<exists>es' ns'. score_children ar (gt_token_score t) n (it n (gt_goto t ! n)) (es, ns, queue)
      = (es', ns', queue @ kids it (gt_goto t) n) \<and> scored ar t (insert 0 (set (visited @ [n]))) es' ns'"
proof -
  let ?g = "gt_goto t" let ?cs = "it n (gt_goto t ! n)"
  have n: "0 < n" "n < length ?g" "set visited \<subseteq> {0<..<length ?g}" using inv by (auto simp: bfs_inv_def)
  have kids: "snd ` set ?cs = set (kids it ?g n)" by (simp add: kids_def)
  have "distinct (map snd ?cs)" using distinct_kids [OF ok it n(2)] by (simp add: kids_def)
  moreover have old: "x \<notin> snd ` set ?cs" if "x \<in> set (visited @ n # queue) \<or> x = 0" for x
    using bfs_fresh [OF ok it inv] kids_range [OF ok it n(2)] that unfolding kids by auto
  moreover have "\<forall>c \<in> snd ` set ?cs. c < length ns" using sc kids_range [OF ok it n(2)] unfolding kids by (auto simp: scored_def)
  ultimately obtain ns' where ns': "score_children ar (gt_token_score t) n ?cs (es, ns, queue) = (es @ map fst ?cs, ns', queue @ map snd ?cs)"
    "length ns' = length ns" "\<And>m. m \<notin> snd ` set ?cs \<Longrightarrow> ns' ! m = ns ! m"
    "\<And>c. c \<in> snd ` set ?cs \<Longrightarrow> ns' ! c = sa_add ar (ns ! n) (gt_token_score t ! c)"
    using score_children_spec [of ?cs n ns ar "gt_token_score t" es queue] by (metis in_set_conv_decomp)
  have src: "ns' ! m = ns ! m" if "m \<in> insert 0 (set (visited @ [n]))" for m using ns'(3) old that by auto
  have eq: "ns' ! c = (if m = 0 then gt_token_score t ! c else sa_add ar (ns' ! m) (gt_token_score t ! c))"
    if m: "m \<in> insert 0 (set (visited @ [n]))" and e: "edge ?g m tok c" for m tok c
  proof (cases "m = n")
    case True
    then have "c \<in> snd ` set ?cs" unfolding kids using e set_kids [OF it n(2)] by blast
    then show ?thesis using ns'(4) src [OF m] True n by simp
  next
    case False
    then have m': "m \<in> insert 0 (set visited)" using m by auto
    then have "m < length ?g" using n by auto
    then have "c \<in> set (kids it ?g m)" using e set_kids [OF it] by blast
    then have "c \<in> set (visited @ n # queue)" using inv m' unfolding bfs_inv_def by blast
    then have "ns' ! c = ns ! c" using ns'(3) old by blast
    then show ?thesis using sc m' e src [OF m] by (simp add: scored_def)
  qed
  have "set (es @ map fst ?cs) = {tok. \<exists>m \<in> insert 0 (set (visited @ [n])). \<exists>c. edge ?g m tok c}"
  proof -
    have "fst ` set ?cs = {tok. \<exists>c. edge ?g n tok c}" using edges_of_map [OF it n(2)] by force
    then show ?thesis using sc by (auto simp: scored_def)
  qed
  moreover have len: "length ns' = length ?g" using ns'(2) sc by (simp add: scored_def)
  moreover have "ns' ! 0 = sa_zero ar" using src [of 0] sc by (simp add: scored_def)
  ultimately have "scored ar t (insert 0 (set (visited @ [n]))) (es @ map fst ?cs) ns'"
    unfolding scored_def using len eq by blast
  then show ?thesis using ns'(1) by (auto simp: kids_def)
qed

lemma score_bfs_spec:
  assumes ok: "trie_ok (gt_goto t)" and it: "iterates it"
    and inv: "bfs_inv it (gt_goto t) visited queue" and sc: "scored ar t (insert 0 (set visited)) es ns"
  shows "\<exists>order es' ns'. score_bfs ar it t visited (es, ns, queue) = Some (order, es', ns') \<and> bfs_inv it (gt_goto t) order []
    \<and> scored ar t {0..<length (gt_goto t)} es' ns'"
  using inv sc
proof (induction "length (gt_goto t) - length visited" arbitrary: visited queue es ns rule: less_induct)
  case less
  show ?case
  proof (cases queue)
    case Nil
    moreover have "insert 0 (set visited) = {0..<length (gt_goto t)}"
      using bfs_finished [OF ok it, of visited] less.prems(1) Nil trie_okD(1) [OF ok] by auto
    ultimately show ?thesis using less.prems by (subst score_bfs.simps) simp
  next
    case (Cons n rest)
    have inv: "bfs_inv it (gt_goto t) visited (n # rest)" using less.prems(1) Cons by simp
    obtain es' ns' where r: "score_children ar (gt_token_score t) n (it n (gt_goto t ! n)) (es, ns, rest)
      = (es', ns', rest @ kids it (gt_goto t) n)" "scored ar t (insert 0 (set (visited @ [n]))) es' ns'"
      using scored_step [OF ok it inv less.prems(2)] by blast
    have "length (gt_goto t) - length (visited @ [n]) < length (gt_goto t) - length visited" using bfs_measure [OF ok inv] by simp
    from less.hyps [OF this bfs_inv_step [OF ok it inv] r(2)]
    show ?thesis using Cons r(1) by (subst score_bfs.simps) simp
  qed
qed

section \<open>The finished graph\<close>

lemma output_scores_spec:
  assumes "distinct order" "0 \<notin> set order" "set order \<subseteq> {0<..<length os}"
    and "\<And>a n b. order = a @ n # b \<Longrightarrow> fail ! n \<in> insert 0 (set a)"
  shows "length (output_scores ar ends fail order os) = length os \<and> output_scores ar ends fail order os ! 0 = os ! 0
    \<and> (\<forall>n \<in> set order. output_scores ar ends fail order os ! n = sa_add ar (ends ! n) (output_scores ar ends fail order os ! (fail ! n)))"
  using assms
proof (induction order rule: rev_induct)
  case Nil
  then show ?case by (simp add: output_scores_def)
next
  case (snoc n order)
  let ?os = "output_scores ar ends fail order os"
  have out: "output_scores ar ends fail (order @ [n]) os = ?os[n := sa_add ar (ends ! n) (?os ! (fail ! n))]"
    by (simp add: output_scores_def)
  have earlier: "fail ! m \<in> insert 0 (set a)" if "order = a @ m # b" for a m b using snoc.prems(4) [of a m "b @ [n]"] that by simp
  have ih: "length ?os = length os" "?os ! 0 = os ! 0" "\<And>m. m \<in> set order \<Longrightarrow> ?os ! m = sa_add ar (ends ! m) (?os ! (fail ! m))"
    using snoc.IH [OF _ _ _ earlier] snoc.prems by auto
  have src: "n \<noteq> fail ! m" if "m \<in> set order" for m
    using earlier split_list [OF that] snoc.prems by fastforce
  have "fail ! n \<in> insert 0 (set order)" by (rule snoc.prems(4) [of order n "[]"]) simp
  then have "fail ! n \<noteq> n" using snoc.prems(1,2) by auto
  have new: "m \<noteq> n" if "m \<in> set order" for m using snoc.prems that by auto
  have n: "n < length ?os" "n \<noteq> 0" using snoc.prems(2,3) ih(1) by auto
  have "output_scores ar ends fail (order @ [n]) os ! m
      = sa_add ar (ends ! m) (output_scores ar ends fail (order @ [n]) os ! (fail ! m))" if "m \<in> set (order @ [n])" for m
  proof (cases "m = n")
    case True
    then show ?thesis using n \<open>fail ! n \<noteq> n\<close> by (simp add: out)
  next
    case False
    then have "m \<in> set order" using that by simp
    then show ?thesis using ih(3) [of m] src [of m] False by (simp add: out)
  qed
  then show ?case using ih(1,2) n by (simp add: out)
qed

definition graph_ok :: "'s score_arith \<Rightarrow> 's graph_trie \<Rightarrow> 's ctc_context_graph \<Rightarrow> bool" where
  "graph_ok ar t g \<longleftrightarrow> trie_ok (gt_goto t) \<and> cg_goto g = gt_goto t
     \<and> (\<forall>m. 0 < m \<and> m < length (cg_goto g) \<longrightarrow> fail_of (cg_goto g) (cg_fail g) m)
     \<and> scored ar t {0..<length (gt_goto t)} (cg_edge_tokens g) (cg_node_score g)
     \<and> length (cg_output_score g) = length (cg_goto g) \<and> cg_output_score g ! 0 = sa_zero ar
     \<and> (\<forall>n. 0 < n \<and> n < length (cg_goto g) \<longrightarrow> cg_output_score g ! n
          = sa_add ar (gt_is_end_bonus t ! n) (cg_output_score g ! (cg_fail g ! n)))"

lemma fail_shallower: "trie_ok goto \<Longrightarrow> fail_of goto fail n \<Longrightarrow> 0 < n \<Longrightarrow> n < length goto \<Longrightarrow>
    depth goto (fail ! n) < depth goto n \<and> fail ! n < length goto"
proof -
  assume a: "trie_ok goto" "fail_of goto fail n" "0 < n" "n < length goto"
  have w: "walk goto 0 (longest_suffix (in_trie goto) (tl (word_of goto n))) = Some (fail ! n)" using a(2) by (simp add: fail_of_def)
  have "word_of goto n \<noteq> []" using walk_word_of [OF a(1,4)] a(3) by auto
  then have "length (tl (word_of goto n)) < depth goto n" by simp
  moreover have "length (longest_suffix (in_trie goto) (tl (word_of goto n))) \<le> length (tl (word_of goto n))"
    by (rule suffix_length_le [OF longest_suffix_suffix])
  ultimately show ?thesis using word_of_walk [OF a(1) w] walk_root_range [OF a(1) w] by simp
qed

lemma build_trie_single: "length (gt_goto (build_trie ar biases)) = 1 \<longleftrightarrow> hotwords ar biases = []"
proof
  assume one: "length (gt_goto (build_trie ar biases)) = 1"
  show "hotwords ar biases = []"
  proof (rule ccontr)
    assume "hotwords ar biases \<noteq> []"
    then obtain b v where h: "(b, v) \<in> set (hotwords ar biases)" by (cases "hotwords ar biases") auto
    then have "hot_prefix ar biases v" by (auto simp: hot_prefix_def list_ex_iff)
    then obtain n where n: "walk (gt_goto (build_trie ar biases)) 0 v = Some n"
      using build_trie_spec [of ar biases] by (auto simp: in_trie_def)
    have ok: "trie_ok (gt_goto (build_trie ar biases))" using build_trie_spec [of ar biases] by (simp add: sized_def)
    then have "n = 0" using walk_root_range [OF ok n] one by simp
    then show False using walk_root_zero [OF ok] n hotwords_nonempty [OF h] by simp
  qed
qed (simp add: build_trie_hotwords graph_trie_empty_def)

lemma seed_scored:
  assumes ok: "trie_ok (gt_goto t)" and it: "iterates it"
  shows "\<exists>ns. seed_scores (gt_token_score t) (it 0 (gt_goto t ! 0)) ([], replicate (length (gt_goto t)) (sa_zero ar), [])
      = (map fst (it 0 (gt_goto t ! 0)), ns, kids it (gt_goto t) 0) \<and> scored ar t {0} (map fst (it 0 (gt_goto t ! 0))) ns"
proof -
  let ?g = "gt_goto t" let ?cs = "it 0 (?g ! 0)" let ?z = "replicate (length ?g) (sa_zero ar)"
  have N: "0 < length ?g" using trie_okD(1) [OF ok] .
  have kids: "snd ` set ?cs = set (kids it ?g 0)" "map snd ?cs = kids it ?g 0" by (simp_all add: kids_def)
  have range: "snd ` set ?cs \<subseteq> {0<..<length ?g}" unfolding kids by (rule kids_range [OF ok it N])
  have "distinct (map snd ?cs)" unfolding kids by (rule distinct_kids [OF ok it N])
  moreover have "\<forall>c \<in> snd ` set ?cs. c < length ?z" using range by auto
  ultimately obtain ns where ns: "seed_scores (gt_token_score t) ?cs ([], ?z, []) = ([] @ map fst ?cs, ns, [] @ map snd ?cs)"
    "length ns = length ?z" "\<forall>m. m \<notin> snd ` set ?cs \<longrightarrow> ns ! m = ?z ! m" "\<forall>c \<in> snd ` set ?cs. ns ! c = gt_token_score t ! c"
    using seed_scores_spec [of ?cs ?z "gt_token_score t" "[]" "[]"] by blast
  have "ns ! 0 = sa_zero ar" using ns(3) range N by force
  moreover have "ns ! c = gt_token_score t ! c" if "edge ?g 0 tok c" for tok c
    using ns(4) set_kids [OF it N, of c] that unfolding kids by blast
  moreover have "fst ` set ?cs = {tok. \<exists>c. edge ?g 0 tok c}" using edges_of_map [OF it N] by force
  ultimately have "scored ar t {0} (map fst ?cs) ns" using ns(2) by (simp add: scored_def)
  then show ?thesis using ns(1) kids(2) by auto
qed

lemma seed_fail_length [simp]: "length (seed_fail cs f) = length f"
  unfolding seed_fail_def by (induction cs arbitrary: f) auto

lemma seed_fail_spec:
  assumes ok: "trie_ok goto" and it: "iterates it" and m: "m \<in> set (kids it goto 0)"
  shows "fail_of goto (seed_fail (it 0 (goto ! 0)) (replicate (length goto) 0)) m"
proof -
  have same: "(replicate N 0)[c := 0] = replicate N (0::nat)" for N c by (metis list_update_id list_update_beyond not_le nth_replicate length_replicate)
  have sf: "seed_fail cs (replicate N 0) = replicate N 0" for cs N
    unfolding seed_fail_def by (induction cs) (auto simp: same)
  obtain tok where e: "edge goto 0 tok m" using m set_kids [OF it trie_okD(1) [OF ok]] by blast
  show ?thesis
    using word_of_edge [OF ok e] sf trie_okD(3) [OF ok e] ok by (simp add: fail_of_def)
qed

lemma outputs_resolved:
  assumes ok: "trie_ok goto" and it: "iterates it" and inv: "bfs_inv it goto order []"
    and ff: "\<And>m. 0 < m \<Longrightarrow> m < length goto \<Longrightarrow> fail_of goto fail m"
    and os: "os = output_scores ar ends fail order (replicate (length goto) (sa_zero ar))"
  shows "length os = length goto \<and> os ! 0 = sa_zero ar \<and> (\<forall>n. 0 < n \<and> n < length goto \<longrightarrow> os ! n = sa_add ar (ends ! n) (os ! (fail ! n)))"
proof -
  have all: "set order = {0<..<length goto}" "distinct order" "sorted_wrt (\<lambda>a b. depth goto a \<le> depth goto b) order"
    using bfs_finished [OF ok it inv] inv by (simp_all add: bfs_inv_def)
  have "fail ! n \<in> insert 0 (set a)" if s: "order = a @ n # b" for a n b
  proof -
    have n: "0 < n" "n < length goto" using all(1) s by auto
    have f: "depth goto (fail ! n) < depth goto n" "fail ! n < length goto" using fail_shallower [OF ok ff [OF n] n] by auto
    have "fail ! n \<in> set order \<or> fail ! n = 0" using all(1) f(2) by auto
    then show ?thesis using all(3) f(1) s by (auto simp: sorted_wrt_append)
  qed
  from output_scores_spec [OF all(2) _ _ this, where os = "replicate (length goto) (sa_zero ar)" and ar = ar and ends = ends] all(1)
  show ?thesis using trie_okD(1) [OF ok] unfolding os by auto
qed

lemma from_token_phrase_biases_spec:
  assumes it: "iterates it"
  shows "if hotwords ar biases = [] then from_token_phrase_biases ar it biases = Some None
    else \<exists>g. from_token_phrase_biases ar it biases = Some (Some g) \<and> graph_ok ar (build_trie ar biases) g"
proof (cases "hotwords ar biases = []")
  case True
  then show ?thesis using build_trie_single [of ar biases] by (simp add: from_token_phrase_biases_def Let_def)
next
  case False
  let ?t = "build_trie ar biases" let ?g = "gt_goto ?t" let ?cs = "it 0 (?g ! 0)" let ?N = "length ?g"
  have ok: "trie_ok ?g" using build_trie_spec [of ar biases] by (simp add: sized_def)
  have kids: "map snd ?cs = kids it ?g 0" by (simp add: kids_def)
  obtain ns where ns: "seed_scores (gt_token_score ?t) ?cs ([], replicate ?N (sa_zero ar), []) = (map fst ?cs, ns, kids it ?g 0)"
    "scored ar ?t (insert 0 (set [])) (map fst ?cs) ns" using seed_scored [OF ok it] by (metis list.set(1))
  obtain order es ns' where sb: "score_bfs ar it ?t [] (map fst ?cs, ns, kids it ?g 0) = Some (order, es, ns')"
    and oi: "bfs_inv it ?g order []" and sc: "scored ar ?t {0..<?N} es ns'"
    using score_bfs_spec [OF ok it bfs_inv_seed [OF ok it] ns(2)] by blast
  obtain fail where fb: "fail_bfs it ?g (seed_fail ?cs (replicate ?N 0), kids it ?g 0) = Some fail"
    and ff: "\<And>m. 0 < m \<Longrightarrow> m < ?N \<Longrightarrow> fail_of ?g fail m"
    using fail_bfs_spec [OF ok it bfs_inv_seed [OF ok it], of "seed_fail ?cs (replicate ?N 0)"] seed_fail_spec [OF ok it] seed_fail_length by auto
  have "scored ar ?t {0..<?N} (remdups_adj (sort es)) ns'" using sc by (simp add: scored_def)
  then show ?thesis
    using False build_trie_single [of ar biases] ns(1) sb fb ok ff outputs_resolved [OF ok it oi ff refl]
    by (simp add: from_token_phrase_biases_def Let_def graph_ok_def kids)
qed

section \<open>What the automaton computes\<close>

text \<open>The graph run over a token sequence, with the score a beam accumulates.\<close>

fun context_run :: "'s score_arith \<Rightarrow> 's ctc_context_graph \<Rightarrow> nat \<Rightarrow> 's \<Rightarrow> nat list \<Rightarrow> (nat \<times> 's) option" where
  "context_run ar g node score [] = Some (node, score)"
| "context_run ar g node score (token # tokens) =
     (case context_step ar g node token of
        None \<Rightarrow> None
      | Some (dest, delta) \<Rightarrow> context_run ar g dest (sa_add ar score delta) tokens)"

lemma context_step_spec:
  assumes g: "graph_ok ar t g" and w: "walk (cg_goto g) 0 (longest_suffix (in_trie (cg_goto g)) ts) = Some n"
  shows "\<exists>d. walk (cg_goto g) 0 (longest_suffix (in_trie (cg_goto g)) (ts @ [token])) = Some d
    \<and> context_step ar g n token = Some (d, sa_add ar (sa_sub ar (cg_node_score g ! d) (cg_node_score g ! n)) (cg_output_score g ! d))"
proof -
  have ok: "trie_ok (cg_goto g)" using g by (simp add: graph_ok_def)
  have n: "n < length (cg_goto g)" "word_of (cg_goto g) n = longest_suffix (in_trie (cg_goto g)) ts"
    using walk_root_range [OF ok w] word_of_walk [OF ok w] by auto
  obtain d where "follow (cg_goto g) (cg_fail g) token n = Some d"
    "walk (cg_goto g) 0 (longest_suffix (in_trie (cg_goto g)) (word_of (cg_goto g) n @ [token])) = Some d"
    using follow_longest [OF ok _ n(1), of "cg_fail g" token] g by (auto simp: graph_ok_def)
  moreover have "longest_suffix (in_trie (cg_goto g)) (longest_suffix (in_trie (cg_goto g)) ts @ [token])
      = longest_suffix (in_trie (cg_goto g)) (ts @ [token])"
    by (rule longest_suffix_snoc) (auto intro: in_trie_prefix)
  ultimately show ?thesis using n(2) by (simp add: context_step_def)
qed

lemma context_run_snoc:
  "context_run ar g n s (ts @ [t]) = (case context_run ar g n s ts of None \<Rightarrow> None
     | Some (m, s') \<Rightarrow> (case context_step ar g m t of None \<Rightarrow> None | Some (d, delta) \<Rightarrow> Some (d, sa_add ar s' delta)))"
  by (induction ts arbitrary: n s) (auto split: option.splits)

lemma context_run_node:
  assumes g: "graph_ok ar t g"
  shows "\<exists>n s'. context_run ar g 0 s ts = Some (n, s') \<and> walk (cg_goto g) 0 (longest_suffix (in_trie (cg_goto g)) ts) = Some n"
proof (induction ts rule: rev_induct)
  case (snoc t ts)
  then show ?case using context_step_spec [OF g, of ts _ t] by (fastforce simp: context_run_snoc)
qed simp

lemma graph_words: "graph_ok ar (build_trie ar biases) g \<Longrightarrow> in_trie (cg_goto g) = hot_prefix ar biases"
  using build_trie_spec [of ar biases] by (auto simp: graph_ok_def)

subsection \<open>Scores in exact arithmetic\<close>

definition exact_arith :: "rat score_arith" where
  "exact_arith = \<lparr>sa_zero = 0, sa_le = (\<le>), sa_gt = (\<lambda>a b. b < a), sa_add = (+), sa_sub = (-), sa_neg = uminus,
     sa_scale = (\<lambda>x n. x * of_nat n)\<rparr>"

lemma exact_arith_sel [simp]:
  "sa_zero exact_arith = 0" "sa_le exact_arith a b \<longleftrightarrow> a \<le> b" "sa_gt exact_arith a b \<longleftrightarrow> b < a" "sa_add exact_arith a b = a + b"
  "sa_sub exact_arith a b = a - b" "sa_neg exact_arith a = - a" "sa_scale exact_arith a n = a * of_nat n"
  by (simp_all add: exact_arith_def)

text \<open>The bonus of a hotword: the largest boost it is configured with, times its length.\<close>

definition hotword_bonus :: "rat token_phrase_bias list \<Rightarrow> nat list \<Rightarrow> rat" where
  "hotword_bonus biases w = Max (set (0 # map (\<lambda>(b, v). b * of_nat (length v)) (filter (\<lambda>(b, v). v = w) (hotwords exact_arith biases))))"

lemma bonus_at_build: "bonus_at exact_arith (build_trie exact_arith biases) w = hotword_bonus biases w"
proof -
  let ?S = "\<lambda>hs. set (0 # map (\<lambda>(b, v). b * of_nat (length v)) (filter (\<lambda>(b, v). v = w) hs)) :: rat set"
  have "sized (fold (\<lambda>(b, v). insert_variant exact_arith b v) hs (graph_trie_empty exact_arith))
    \<and> bonus_at exact_arith (fold (\<lambda>(b, v). insert_variant exact_arith b v) hs (graph_trie_empty exact_arith)) w = Max (?S hs)"
    if "\<forall>(_, v) \<in> set hs. v \<noteq> []" for hs
    using that
  proof (induction hs rule: rev_induct)
    case Nil
    then show ?case by (simp add: sized_empty bonus_at_empty)
  next
    case (snoc h hs)
    obtain b v where h: "h = (b, v)" by force
    let ?t = "fold (\<lambda>(b, v). insert_variant exact_arith b v) hs (graph_trie_empty exact_arith)"
    have t: "sized ?t" "bonus_at exact_arith ?t w = Max (?S hs)" using snoc by auto
    have "v \<noteq> []" using snoc.prems h by auto
    note ins = insert_variant_spec [OF t(1) this, of exact_arith b]
    have S: "?S (hs @ [h]) = (if v = w then insert (b * of_nat (length v)) (?S hs) else ?S hs)" using h by auto
    have "?S hs \<noteq> {}" by simp
    then have "Max (insert (b * of_nat (length v)) (?S hs)) = max (b * of_nat (length v)) (Max (?S hs))"
      by (rule Max_insert [OF finite_set])
    then have "Max (?S (hs @ [h])) = (if v = w then max (b * of_nat (length v)) (Max (?S hs)) else Max (?S hs))"
      unfolding S by (cases "v = w") (simp_all only: simp_thms if_True if_False)
    then have "bonus_at exact_arith (insert_variant exact_arith b v ?t) w = Max (?S (hs @ [h]))"
      unfolding t(2) [symmetric] using ins(3) [of w] by (simp only: exact_arith_sel) (simp add: max_def)
    moreover have "fold (\<lambda>(b, v). insert_variant exact_arith b v) (hs @ [h]) (graph_trie_empty exact_arith)
        = insert_variant exact_arith b v ?t" using h by simp
    ultimately show ?case using ins(1) by (simp only:)
  qed
  then show ?thesis using hotwords_nonempty [of _ _ exact_arith biases] by (auto simp: build_trie_hotwords hotword_bonus_def)
qed

lemma sum_suffixes_longest:
  fixes b :: "'a list \<Rightarrow> 'b::comm_monoid_add"
  assumes "\<And>w. \<not> P w \<Longrightarrow> b w = 0"
  shows "sum_list (map b (suffixes (longest_suffix P w))) = sum_list (map b (suffixes w))"
  by (induction w) (simp_all add: assms)

lemma output_is_bonus_sum:
  assumes g: "graph_ok exact_arith (build_trie exact_arith biases) g"
  shows "n < length (cg_goto g) \<Longrightarrow> cg_output_score g ! n = sum_list (map (hotword_bonus biases) (suffixes (word_of (cg_goto g) n)))"
proof (induction "depth (cg_goto g) n" arbitrary: n rule: less_induct)
  case less
  let ?g = "cg_goto g" let ?t = "build_trie exact_arith biases"
  have ok: "trie_ok ?g" and goto: "cg_goto g = gt_goto ?t" using g by (simp_all add: graph_ok_def)
  have zero: "hotword_bonus biases w = 0" if "\<not> in_trie ?g w" for w
    using bonus_at_build [of biases w] that by (simp add: bonus_at_def goto in_trie_def)
  have wn: "walk ?g 0 (word_of ?g n) = Some n" using walk_word_of [OF ok less.prems] .
  show ?case
  proof (cases "n = 0")
    case True
    have "hotword_bonus biases [] = 0"
    proof -
      have "filter (\<lambda>(b, v). v = []) (hotwords exact_arith biases) = []" by (auto simp: filter_empty_conv dest: hotwords_nonempty)
      then show ?thesis by (simp only: hotword_bonus_def) simp
    qed
    then show ?thesis using True g ok by (simp add: graph_ok_def)
  next
    case False
    then obtain x xs where u: "word_of ?g n = x # xs" using wn by (cases "word_of ?g n") auto
    have ff: "fail_of ?g (cg_fail g) n" using g False less.prems unfolding graph_ok_def by blast
    then have fw: "walk ?g 0 (longest_suffix (in_trie ?g) xs) = Some (cg_fail g ! n)" using u by (simp add: fail_of_def)
    have "cg_output_score g ! (cg_fail g ! n) = sum_list (map (hotword_bonus biases) (suffixes (word_of ?g (cg_fail g ! n))))"
      using less.hyps fail_shallower [OF ok ff _ less.prems] False by blast
    also have "\<dots> = sum_list (map (hotword_bonus biases) (suffixes xs))"
      using word_of_walk [OF ok fw] sum_suffixes_longest [of "in_trie ?g" "hotword_bonus biases" xs] zero by simp
    finally have "cg_output_score g ! (cg_fail g ! n) = sum_list (map (hotword_bonus biases) (suffixes xs))" .
    moreover have "gt_is_end_bonus ?t ! n = hotword_bonus biases (x # xs)"
      using wn u bonus_at_build [of biases "x # xs"] by (simp add: bonus_at_def goto)
    ultimately show ?thesis using g False less.prems u by (simp add: graph_ok_def)
  qed
qed

text \<open>After any tokens the output of the node reached is the bonus of the hotwords that end there.\<close>

lemma output_of_match:
  assumes g: "graph_ok exact_arith (build_trie exact_arith biases) g"
    and d: "walk (cg_goto g) 0 (longest_suffix (in_trie (cg_goto g)) w) = Some d"
  shows "cg_output_score g ! d = sum_list (map (hotword_bonus biases) (suffixes w))"
proof -
  have ok: "trie_ok (cg_goto g)" using g by (simp add: graph_ok_def)
  have "hotword_bonus biases v = 0" if "\<not> in_trie (cg_goto g) v" for v
    using bonus_at_build [of biases v] that g by (simp add: bonus_at_def graph_ok_def in_trie_def)
  then have "sum_list (map (hotword_bonus biases) (suffixes (longest_suffix (in_trie (cg_goto g)) w)))
      = sum_list (map (hotword_bonus biases) (suffixes w))" by (rule sum_suffixes_longest)
  then show ?thesis using output_is_bonus_sum [OF g walk_root_range [OF ok d]] word_of_walk [OF ok d] by simp
qed

text \<open>
  C26. The graph is built whenever a phrase has a positive boost, for every order in which the hash
  maps are iterated, and its automaton is a longest-match tracker: after any token sequence it
  returns a node, and that node is the one of the longest suffix of the sequence that begins a
  hotword; different beginnings have different nodes.
\<close>

theorem hotword_automaton_tracks_longest_match:
  assumes "iterates it"
  shows "if hotwords ar biases = [] then from_token_phrase_biases ar it biases = Some None
    else \<exists>g. from_token_phrase_biases ar it biases = Some (Some g)
      \<and> (\<forall>ts. \<exists>n s. context_run ar g (graph_root g) (sa_zero ar) ts = Some (n, s)
            \<and> walk (cg_goto g) 0 (longest_suffix (hot_prefix ar biases) ts) = Some n)
      \<and> inj_on (walk (cg_goto g) 0) {w. hot_prefix ar biases w}"
proof (cases "hotwords ar biases = []")
  case True
  then show ?thesis using from_token_phrase_biases_spec [OF assms, of ar biases] by simp
next
  case False
  then obtain g where g: "from_token_phrase_biases ar it biases = Some (Some g)" "graph_ok ar (build_trie ar biases) g"
    using from_token_phrase_biases_spec [OF assms, of ar biases] by auto
  have ok: "trie_ok (cg_goto g)" using g(2) by (simp add: graph_ok_def)
  have words: "in_trie (cg_goto g) = hot_prefix ar biases" by (rule graph_words [OF g(2)])
  have "inj_on (walk (cg_goto g) 0) {w. hot_prefix ar biases w}"
    unfolding words [symmetric] in_trie_def using walk_inj [OF ok] by (fastforce intro: inj_onI)
  then show ?thesis
    using False g(1) context_run_node [OF g(2), of "sa_zero ar"] unfolding words graph_root_def by auto
qed

definition sample_biases :: "rat token_phrase_bias list" where
  "sample_biases = [\<lparr>tb_variants = [[1, 2], [2]], tb_boost = 3\<rparr>, \<lparr>tb_variants = [[7]], tb_boost = - 1\<rparr>]"

lemma sample_hotwords: "hotwords exact_arith sample_biases = [(3, [1, 2]), (3, [2])]"
  by (simp add: hotwords_def sample_biases_def)

theorem hotword_automaton_tracks_longest_match_witness:
  "\<exists>g n s. from_token_phrase_biases exact_arith (\<lambda>_ m. m) sample_biases = Some (Some g)
    \<and> context_run exact_arith g (graph_root g) (sa_zero exact_arith) [7, 1] = Some (n, s) \<and> walk (cg_goto g) 0 [1] = Some n"
proof -
  have it: "iterates (\<lambda>_ m. m)" by (simp add: iterates_def)
  have "longest_suffix (hot_prefix exact_arith sample_biases) [7, 1] = [1]" by (simp add: hot_prefix_def sample_hotwords)
  moreover obtain g where g: "from_token_phrase_biases exact_arith (\<lambda>_ m. m) sample_biases = Some (Some g)"
    "\<forall>ts. \<exists>n s. context_run exact_arith g (graph_root g) (sa_zero exact_arith) ts = Some (n, s)
      \<and> walk (cg_goto g) 0 (longest_suffix (hot_prefix exact_arith sample_biases) ts) = Some n"
    using hotword_automaton_tracks_longest_match [OF it, of exact_arith sample_biases]
    unfolding sample_hotwords by (simp only: list.distinct if_False) blast
  ultimately show ?thesis using spec [OF g(2), of "[7, 1]"] g(1) by auto
qed

end
