(* ===== verification/Prefix_Beam.thy ===== *)
theory Prefix_Beam
  imports Ctc_Decode Context_Graph "HOL-Library.List_Lexorder"
begin

text \<open>
  The CTC prefix-beam search with hotwords (\<open>crates/openasr-core/src/models/ctc_prefix_beam.rs\<close>): frame
  by frame, beams keyed by their label prefix are carried, repeated and extended, then pruned to the
  best eight. Floating-point arithmetic is the parameter \<open>ba\<close>. A hash map of beams is an association
  list; the order in which it is iterated where the order is not fixed by a sort is the parameter
  \<open>hit\<close>. \<open>None\<close> is a run that does not return (the only unbounded loop is the step of the graph).
\<close>

section \<open>Data\<close>

datatype rust_ordering = Less | Equal | Greater

record 's beam_arith =
  ba_score :: "'s score_arith"
  ba_neg_inf :: 's
  ba_is_neg_inf :: "'s \<Rightarrow> bool"
  ba_is_finite :: "'s \<Rightarrow> bool"
  ba_ge :: "'s \<Rightarrow> 's \<Rightarrow> bool"
  ba_max :: "'s \<Rightarrow> 's \<Rightarrow> 's"
  ba_exp :: "'s \<Rightarrow> 's"
  ba_ln :: "'s \<Rightarrow> 's"
  ba_partial_cmp :: "'s \<Rightarrow> 's \<Rightarrow> rust_ordering option"
  ba_plausibility_margin :: 's
  ba_clamp_unit :: "'s \<Rightarrow> 's"

abbreviation bplus :: "'s beam_arith \<Rightarrow> 's \<Rightarrow> 's \<Rightarrow> 's" where "bplus ba \<equiv> sa_add (ba_score ba)"
abbreviation bminus :: "'s beam_arith \<Rightarrow> 's \<Rightarrow> 's \<Rightarrow> 's" where "bminus ba \<equiv> sa_sub (ba_score ba)"
abbreviation bgt :: "'s beam_arith \<Rightarrow> 's \<Rightarrow> 's \<Rightarrow> bool" where "bgt ba \<equiv> sa_gt (ba_score ba)"

record 's token_emit =
  te_token_id :: nat
  te_start_frame :: nat
  te_log_prob :: 's

record 's beam =
  bm_p_blank :: 's
  bm_p_non_blank :: 's
  bm_context_node :: nat
  bm_context_score :: 's
  bm_emits :: "'s token_emit list"

type_synonym 's beams = "(nat list \<times> 's beam) list"

definition CTC_PREFIX_BEAM_WIDTH :: nat where "CTC_PREFIX_BEAM_WIDTH = 8"
definition CTC_ACOUSTIC_CANDIDATE_TOP_K :: nat where "CTC_ACOUSTIC_CANDIDATE_TOP_K = 8"

section \<open>Standard library\<close>

text \<open>
  \<open>slice::sort_by\<close> (stable), \<open>Iterator::max_by\<close> (the last of the largest), and the order of two floats
  as the code takes it (\<open>partial_cmp(..).unwrap_or(Equal)\<close>, then the key). The library may panic when a
  comparison is not a total order, which needs a score that is not a number; the sort here returns.
\<close>

fun insert_by :: "('a \<Rightarrow> 'a \<Rightarrow> rust_ordering) \<Rightarrow> 'a \<Rightarrow> 'a list \<Rightarrow> 'a list" where
  "insert_by cmp x [] = [x]"
| "insert_by cmp x (y # ys) = (if cmp x y = Greater then y # insert_by cmp x ys else x # y # ys)"

definition sort_by :: "('a \<Rightarrow> 'a \<Rightarrow> rust_ordering) \<Rightarrow> 'a list \<Rightarrow> 'a list" where
  "sort_by cmp xs = foldr (insert_by cmp) xs []"

fun max_by :: "('a \<Rightarrow> 'a \<Rightarrow> rust_ordering) \<Rightarrow> 'a list \<Rightarrow> 'a option" where
  "max_by cmp [] = None"
| "max_by cmp (x # xs) = Some (foldl (\<lambda>best y. if cmp best y = Greater then best else y) x xs)"

definition cmp_key :: "nat list \<Rightarrow> nat list \<Rightarrow> rust_ordering" where
  "cmp_key a b = (if a < b then Less else if a = b then Equal else Greater)"

fun or_equal :: "rust_ordering option \<Rightarrow> rust_ordering" where
  "or_equal (Some c) = c"
| "or_equal None = Equal"

fun then_with :: "rust_ordering \<Rightarrow> rust_ordering \<Rightarrow> rust_ordering" where
  "then_with Equal c = c"
| "then_with c _ = c"

section \<open>Arithmetic in the logarithmic domain\<close>

definition log_sum_exp2 :: "'s beam_arith \<Rightarrow> 's \<Rightarrow> 's \<Rightarrow> 's" where
  "log_sum_exp2 ba a b =
     (if ba_is_neg_inf ba a then b
      else if ba_is_neg_inf ba b then a
      else let m = ba_max ba a b
           in bplus ba m (ba_ln ba (bplus ba (ba_exp ba (bminus ba a m)) (ba_exp ba (bminus ba b m)))))"

definition log_sum_exp3 :: "'s beam_arith \<Rightarrow> 's \<Rightarrow> 's \<Rightarrow> 's \<Rightarrow> 's" where
  "log_sum_exp3 ba a b c = log_sum_exp2 ba (log_sum_exp2 ba a b) c"

fun logit_max :: "'s beam_arith \<Rightarrow> nat \<Rightarrow> 's \<Rightarrow> 's list \<Rightarrow> ctc_greedy_decode_error + 's" where
  "logit_max ba frame m [] = Inr m"
| "logit_max ba frame m (val # row) =
     (if \<not> ba_is_finite ba val then Inl (NonFiniteLogits frame)
      else logit_max ba frame (if bgt ba val m then val else m) row)"

text \<open>\<open>log_softmax_into\<close>; the buffer it fills has the length of the row, which was checked before.\<close>

definition log_softmax_into :: "'s beam_arith \<Rightarrow> 's list \<Rightarrow> nat \<Rightarrow> ctc_greedy_decode_error + 's list" where
  "log_softmax_into ba row frame =
     rbind (logit_max ba frame (ba_neg_inf ba) row) (\<lambda>m.
       let s = foldl (\<lambda>acc val. bplus ba acc (ba_exp ba (bminus ba val m))) (sa_zero (ba_score ba)) row;
           log_sum = bplus ba m (ba_ln ba s)
       in Inr (map (\<lambda>val. bminus ba val log_sum) row))"

section \<open>Beams\<close>

definition total_log_prob :: "'s beam_arith \<Rightarrow> 's beam \<Rightarrow> 's" where
  "total_log_prob ba b = log_sum_exp2 ba (bm_p_blank b) (bm_p_non_blank b)"

definition beam_score :: "'s beam_arith \<Rightarrow> 's beam \<Rightarrow> 's" where
  "beam_score ba b = bplus ba (total_log_prob ba b) (bm_context_score b)"

definition carry_beam :: "'s beam_arith \<Rightarrow> 's beam \<Rightarrow> 's beam" where
  "carry_beam ba b = \<lparr>bm_p_blank = ba_neg_inf ba, bm_p_non_blank = ba_neg_inf ba, bm_context_node = bm_context_node b,
     bm_context_score = bm_context_score b, bm_emits = bm_emits b\<rparr>"

definition extend_beam :: "'s beam_arith \<Rightarrow> 's beam \<Rightarrow> 's ctc_context_graph \<Rightarrow> nat \<Rightarrow> nat \<Rightarrow> 's \<Rightarrow> 's beam option" where
  "extend_beam ba parent graph token frame token_lp =
     Option.bind (context_step (ba_score ba) graph (bm_context_node parent) token) (\<lambda>(context_node, delta).
       let repeated = context_node = bm_context_node parent
             \<and> bm_emits parent \<noteq> [] \<and> te_token_id (last (bm_emits parent)) = token;
           context_delta = if repeated then bminus ba delta (completion_bonus graph context_node) else delta
       in Some \<lparr>bm_p_blank = ba_neg_inf ba, bm_p_non_blank = ba_neg_inf ba, bm_context_node = context_node,
            bm_context_score = bplus ba (bm_context_score parent) context_delta,
            bm_emits = bm_emits parent @ [\<lparr>te_token_id = token, te_start_frame = frame, te_log_prob = token_lp\<rparr>]\<rparr>)"

definition prune_order :: "'s beam_arith \<Rightarrow> nat list \<times> 's beam \<Rightarrow> nat list \<times> 's beam \<Rightarrow> rust_ordering" where
  "prune_order ba a b = then_with (or_equal (ba_partial_cmp ba (beam_score ba (snd b)) (beam_score ba (snd a)))) (cmp_key (fst a) (fst b))"

definition prune_beams :: "'s beam_arith \<Rightarrow> ('s beams \<Rightarrow> 's beams) \<Rightarrow> 's beams \<Rightarrow> nat \<Rightarrow> 's beams" where
  "prune_beams ba hit nxt width = (if length nxt \<le> width then nxt else take width (sort_by (prune_order ba) (hit nxt)))"

section \<open>Candidates of a frame\<close>

definition sort_top :: "'s beam_arith \<Rightarrow> (nat \<times> 's) list \<Rightarrow> (nat \<times> 's) list" where
  "sort_top ba kept = sort_by (\<lambda>a b. or_equal (ba_partial_cmp ba (snd a) (snd b))) kept"

fun top_loop :: "'s beam_arith \<Rightarrow> nat \<Rightarrow> nat \<Rightarrow> 's \<Rightarrow> (nat \<times> 's) list \<Rightarrow> 's list \<Rightarrow> 's \<times> (nat \<times> 's) list" where
  "top_loop ba blank index frame_max kept [] = (frame_max, kept)"
| "top_loop ba blank index frame_max kept (lp # log_probs) =
     (let frame_max' = if bgt ba lp frame_max then lp else frame_max
      in if index = blank then top_loop ba blank (index + 1) frame_max' kept log_probs
         else if length kept < CTC_ACOUSTIC_CANDIDATE_TOP_K
         then let kept' = kept @ [(index, lp)]
              in top_loop ba blank (index + 1) frame_max'
                   (if length kept' = CTC_ACOUSTIC_CANDIDATE_TOP_K then sort_top ba kept' else kept') log_probs
         else if bgt ba lp (snd (kept ! 0))
         then top_loop ba blank (index + 1) frame_max' (sort_top ba (kept[0 := (index, lp)])) log_probs
         else top_loop ba blank (index + 1) frame_max' kept log_probs)"

definition frame_candidate_tokens :: "'s beam_arith \<Rightarrow> 's list \<Rightarrow> nat \<Rightarrow> 's ctc_context_graph \<Rightarrow> nat list" where
  "frame_candidate_tokens ba log_probs blank graph =
     (case top_loop ba blank 0 (ba_neg_inf ba) [] log_probs of
        (frame_max, kept) \<Rightarrow>
          let plausibility_floor = bminus ba frame_max (ba_plausibility_margin ba);
              tokens = map fst kept @ filter (\<lambda>token. token \<noteq> blank \<and> token < length log_probs
                         \<and> ba_ge ba (log_probs ! token) plausibility_floor) (cg_edge_tokens graph)
          in remdups_adj (sort tokens))"

section \<open>One frame\<close>

text \<open>\<open>entry(key).or_insert_with(..)\<close> followed by an update of the entry.\<close>

fun update_beam :: "nat list \<Rightarrow> ('s beam \<Rightarrow> 's beam) \<Rightarrow> 's beams \<Rightarrow> 's beams" where
  "update_beam key f [] = []"
| "update_beam key f ((k, b) # bs) = (if k = key then (k, f b) # bs else (k, b) # update_beam key f bs)"

definition entry_or_insert :: "nat list \<Rightarrow> 's beam option \<Rightarrow> 's beams \<Rightarrow> 's beams option" where
  "entry_or_insert key fresh nxt =
     (if map_of nxt key \<noteq> None then Some nxt else map_option (\<lambda>b. nxt @ [(key, b)]) fresh)"

definition fold_blank :: "'s beam_arith \<Rightarrow> 's \<Rightarrow> nat list \<times> 's beam \<Rightarrow> 's beams \<Rightarrow> 's beams option" where
  "fold_blank ba blank_lp pb nxt =
     map_option (update_beam (fst pb) (\<lambda>entry. entry\<lparr>bm_p_blank := log_sum_exp3 ba (bm_p_blank entry)
         (bplus ba (bm_p_blank (snd pb)) blank_lp) (bplus ba (bm_p_non_blank (snd pb)) blank_lp)\<rparr>))
       (entry_or_insert (fst pb) (Some (carry_beam ba (snd pb))) nxt)"

definition fold_repeat :: "'s beam_arith \<Rightarrow> 's list \<Rightarrow> nat list \<times> 's beam \<Rightarrow> 's beams \<Rightarrow> 's beams option" where
  "fold_repeat ba log_probs pb nxt =
     (if fst pb = [] then Some nxt
      else map_option (update_beam (fst pb) (\<lambda>entry. entry\<lparr>bm_p_non_blank := log_sum_exp2 ba (bm_p_non_blank entry)
             (bplus ba (bm_p_non_blank (snd pb)) (log_probs ! last (fst pb)))\<rparr>))
           (entry_or_insert (fst pb) (Some (carry_beam ba (snd pb))) nxt))"

definition fold_extend ::
  "'s beam_arith \<Rightarrow> 's ctc_context_graph \<Rightarrow> 's list \<Rightarrow> nat \<Rightarrow> nat list \<times> 's beam \<Rightarrow> nat \<Rightarrow> 's beams \<Rightarrow> 's beams option" where
  "fold_extend ba graph log_probs frame pb token nxt =
     (let prefix = fst pb; beam = snd pb; token_lp = log_probs ! token; extended = prefix @ [token];
          is_repeat = prefix \<noteq> [] \<and> last prefix = token;
          contribution = if is_repeat then bplus ba (bm_p_blank beam) token_lp
                         else bplus ba (log_sum_exp2 ba (bm_p_blank beam) (bm_p_non_blank beam)) token_lp
      in map_option (update_beam extended (\<lambda>entry. entry\<lparr>bm_p_non_blank := log_sum_exp2 ba (bm_p_non_blank entry) contribution\<rparr>))
           (entry_or_insert extended (extend_beam ba beam graph token frame token_lp) nxt))"

fun extend_loop ::
  "'s beam_arith \<Rightarrow> 's ctc_context_graph \<Rightarrow> 's list \<Rightarrow> nat \<Rightarrow> nat list \<times> 's beam \<Rightarrow> nat list \<Rightarrow> 's beams \<Rightarrow> 's beams option" where
  "extend_loop ba graph log_probs frame pb [] nxt = Some nxt"
| "extend_loop ba graph log_probs frame pb (token # tokens) nxt =
     Option.bind (fold_extend ba graph log_probs frame pb token nxt) (extend_loop ba graph log_probs frame pb tokens)"

fun beam_loop ::
  "'s beam_arith \<Rightarrow> 's ctc_context_graph \<Rightarrow> nat \<Rightarrow> 's list \<Rightarrow> nat \<Rightarrow> nat list \<Rightarrow> 's beams \<Rightarrow> 's beams \<Rightarrow> 's beams option" where
  "beam_loop ba graph blank log_probs frame candidates [] nxt = Some nxt"
| "beam_loop ba graph blank log_probs frame candidates (pb # pbs) nxt =
     Option.bind (fold_blank ba (log_probs ! blank) pb nxt) (\<lambda>n1.
       Option.bind (fold_repeat ba log_probs pb n1) (\<lambda>n2.
         Option.bind (extend_loop ba graph log_probs frame pb candidates n2)
           (beam_loop ba graph blank log_probs frame candidates pbs)))"

section \<open>The search\<close>

fun frame_loop ::
  "'s beam_arith \<Rightarrow> ('s beams \<Rightarrow> 's beams) \<Rightarrow> nat \<Rightarrow> nat \<Rightarrow> 's ctc_context_graph \<Rightarrow> nat \<Rightarrow> 's beams \<Rightarrow> 's list list
     \<Rightarrow> (ctc_greedy_decode_error + 's beams) option" where
  "frame_loop ba hit blank vocab_size graph frame beams [] = Some (Inr beams)"
| "frame_loop ba hit blank vocab_size graph frame beams (row # rows) =
     (if length row \<noteq> vocab_size then Some (Inl (FrameWidthMismatch frame (length row) vocab_size))
      else case log_softmax_into ba row frame of
             Inl e \<Rightarrow> Some (Inl e)
           | Inr log_probs \<Rightarrow>
               Option.bind (beam_loop ba graph blank log_probs frame (frame_candidate_tokens ba log_probs blank graph)
                   (sort_by (\<lambda>a b. cmp_key (fst a) (fst b)) (hit beams)) [])
                 (\<lambda>nxt. frame_loop ba hit blank vocab_size graph (frame + 1) (prune_beams ba hit nxt CTC_PREFIX_BEAM_WIDTH) rows))"

definition initial_beams :: "'s beam_arith \<Rightarrow> 's ctc_context_graph \<Rightarrow> 's beams" where
  "initial_beams ba graph =
     [([], \<lparr>bm_p_blank = sa_zero (ba_score ba), bm_p_non_blank = ba_neg_inf ba, bm_context_node = graph_root graph,
            bm_context_score = sa_zero (ba_score ba), bm_emits = []\<rparr>)]"

definition finalized_score :: "'s beam_arith \<Rightarrow> 's ctc_context_graph \<Rightarrow> 's beam \<Rightarrow> 's" where
  "finalized_score ba graph b = bplus ba (beam_score ba b) (finalize_refund (ba_score ba) graph (bm_context_node b))"

definition final_order :: "'s beam_arith \<Rightarrow> 's ctc_context_graph \<Rightarrow> nat list \<times> 's beam \<Rightarrow> nat list \<times> 's beam \<Rightarrow> rust_ordering" where
  "final_order ba graph a b =
     then_with (or_equal (ba_partial_cmp ba (finalized_score ba graph (snd a)) (finalized_score ba graph (snd b)))) (cmp_key (fst a) (fst b))"

fun emit_spans :: "'s beam_arith \<Rightarrow> nat \<Rightarrow> 's token_emit list \<Rightarrow> 's ctc_token_frame_span list" where
  "emit_spans ba frame_count [] = []"
| "emit_spans ba frame_count (emit # emits) =
     (let end_frame = max (case emits of [] \<Rightarrow> frame_count | e # _ \<Rightarrow> max (te_start_frame e) (te_start_frame emit + 1))
                          (te_start_frame emit + 1)
      in \<lparr>cs_token_id = te_token_id emit, cs_start_frame = te_start_frame emit, cs_end_frame = end_frame,
          cs_probability = ba_clamp_unit ba (ba_exp ba (te_log_prob emit))\<rparr> # emit_spans ba frame_count emits)"

definition run_ctc_prefix_beam_decode ::
  "'s beam_arith \<Rightarrow> ('s beams \<Rightarrow> 's beams) \<Rightarrow> nat \<Rightarrow> nat \<Rightarrow> 's ctc_context_graph \<Rightarrow> 's list list
     \<Rightarrow> (nat list \<Rightarrow> ctc_greedy_decode_error + rstr) \<Rightarrow> (ctc_greedy_decode_error + 's ctc_greedy_decode_result) option" where
  "run_ctc_prefix_beam_decode ba hit blank vocab_size graph frame_logits decode_text_token_ids =
     (if frame_logits = [] then Some (Inl EmptyFrames)
      else map_option (\<lambda>searched. rbind searched (\<lambda>beams.
             case max_by (final_order ba graph) (hit beams) of
               None \<Rightarrow> Inl EmptyFrames
             | Some (_, best) \<Rightarrow>
                 let token_ids = map te_token_id (bm_emits best)
                 in rbind (decode_text_token_ids token_ids) (\<lambda>decoded.
                      Inr \<lparr>cr_token_ids = token_ids, cr_token_spans = emit_spans ba (length frame_logits) (bm_emits best),
                           cr_frame_count = length frame_logits, cr_text = decoded\<rparr>)))
           (frame_loop ba hit blank vocab_size graph 0 (initial_beams ba graph) frame_logits))"

section \<open>Lemmas on the library functions\<close>

lemma mset_insert_by [simp]: "mset (insert_by cmp x xs) = add_mset x (mset xs)"
  by (induction xs) auto

lemma mset_sort_by [simp]: "mset (sort_by cmp xs) = mset xs"
  by (induction xs) (simp_all add: sort_by_def)

lemma set_sort_by [simp]: "set (sort_by cmp xs) = set xs"
  by (metis mset_sort_by set_mset_mset)

lemma length_sort_by [simp]: "length (sort_by cmp xs) = length xs"
  by (metis mset_sort_by size_mset)

lemma max_by_in: "xs \<noteq> [] \<Longrightarrow> \<exists>x \<in> set xs. max_by cmp xs = Some x"
proof -
  have "foldl (\<lambda>best y. if cmp best y = Greater then best else y) x ys \<in> insert x (set ys)" for x ys
    by (induction ys arbitrary: x) (auto split: if_splits)
  then show "xs \<noteq> [] \<Longrightarrow> ?thesis" by (cases xs) auto
qed

lemma logit_max_ok: "list_all (ba_is_finite ba) row \<Longrightarrow> \<exists>m'. logit_max ba frame m row = Inr m'"
  by (induction row arbitrary: m) auto

lemma logit_max_bad: "\<not> list_all (ba_is_finite ba) row \<Longrightarrow> logit_max ba frame m row = Inl (NonFiniteLogits frame)"
  by (induction row arbitrary: m) auto

section \<open>Candidates\<close>

lemma top_loop_bound:
  assumes "\<forall>i \<in> fst ` set kept. i < index + length lps \<and> i \<noteq> blank"
  shows "\<forall>i \<in> fst ` set (snd (top_loop ba blank index m kept lps)). i < index + length lps \<and> i \<noteq> blank"
  using assms
proof (induction lps arbitrary: index m kept)
  case (Cons lp lps)
  let ?m = "if bgt ba lp m then lp else m"
  have up: "fst ` set (kept[0 := (index, lp)]) \<subseteq> insert index (fst ` set kept)" using set_update_subset_insert [of kept 0] by fastforce
  show ?case
  proof (cases "index = blank")
    case True
    then show ?thesis using Cons.IH [of kept "index + 1" ?m] Cons.prems by (simp add: Let_def)
  next
    case False
    have "\<forall>i \<in> fst ` set k. i < (index + 1) + length lps \<and> i \<noteq> blank" if "fst ` set k \<subseteq> insert index (fst ` set kept)" for k :: "(nat \<times> 'a) list"
    proof
      fix i assume "i \<in> fst ` set k"
      then have "i = index \<or> i \<in> fst ` set kept" using that by blast
      then show "i < (index + 1) + length lps \<and> i \<noteq> blank" using Cons.prems False by (elim disjE) (simp, force)
    qed
    note * = Cons.IH [OF this, of _ ?m]
    show ?thesis
      using False * [of kept] * [of "kept @ [(index, lp)]"] * [of "sort_top ba (kept @ [(index, lp)])"] * [of "sort_top ba (kept[0 := (index, lp)])"] up
      by (auto simp: Let_def sort_top_def split: if_splits)
  qed
qed simp

lemma candidates_bound:
  assumes "t \<in> set (frame_candidate_tokens ba lps blank g)"
  shows "t < length lps \<and> t \<noteq> blank"
proof -
  obtain m kept where k: "top_loop ba blank 0 (ba_neg_inf ba) [] lps = (m, kept)" by force
  then have "\<forall>i \<in> fst ` set kept. i < length lps \<and> i \<noteq> blank"
    using top_loop_bound [of "[]" 0 lps blank ba "ba_neg_inf ba"] by simp
  moreover have "t \<in> fst ` set kept \<or> t \<noteq> blank \<and> t < length lps"
    using assms unfolding frame_candidate_tokens_def k by (auto simp: Let_def)
  ultimately show ?thesis by blast
qed

section \<open>The context of a prefix\<close>

text \<open>The graph run over a prefix, with the repeat guard: the state a beam must have.\<close>

fun context_walk :: "'s beam_arith \<Rightarrow> 's ctc_context_graph \<Rightarrow> nat \<Rightarrow> 's \<Rightarrow> nat option \<Rightarrow> nat list \<Rightarrow> (nat \<times> 's) option" where
  "context_walk ba g node score prev [] = Some (node, score)"
| "context_walk ba g node score prev (t # ts) =
     (case context_step (ba_score ba) g node t of
        None \<Rightarrow> None
      | Some (d, delta) \<Rightarrow> context_walk ba g d
          (bplus ba score (if d = node \<and> prev = Some t then bminus ba delta (completion_bonus g d) else delta)) (Some t) ts)"

definition context_of :: "'s beam_arith \<Rightarrow> 's ctc_context_graph \<Rightarrow> nat list \<Rightarrow> (nat \<times> 's) option" where
  "context_of ba g p = context_walk ba g (graph_root g) (sa_zero (ba_score ba)) None p"

lemma context_walk_snoc:
  "context_walk ba g n s prev (ts @ [t]) = (case context_walk ba g n s prev ts of None \<Rightarrow> None
     | Some (m, s') \<Rightarrow> (case context_step (ba_score ba) g m t of None \<Rightarrow> None
         | Some (d, delta) \<Rightarrow> Some (d, bplus ba s' (if d = m \<and> (if ts = [] then prev else Some (last ts)) = Some t
             then bminus ba delta (completion_bonus g d) else delta))))"
  by (induction ts arbitrary: n s prev) (auto split: option.splits prod.splits)

lemma context_of_node:
  assumes g: "graph_ok (ba_score ba) t g"
  shows "\<exists>n s. context_of ba g p = Some (n, s) \<and> walk (cg_goto g) 0 (longest_suffix (in_trie (cg_goto g)) p) = Some n"
proof (induction p rule: rev_induct)
  case Nil
  then show ?case by (simp add: context_of_def graph_root_def)
next
  case (snoc x p)
  then show ?case using context_step_spec [OF g, of p _ x] by (fastforce simp: context_of_def context_walk_snoc)
qed

section \<open>Beams of a frame\<close>

definition beam_ok :: "'s beam_arith \<Rightarrow> 's ctc_context_graph \<Rightarrow> nat \<Rightarrow> nat \<Rightarrow> nat \<Rightarrow> nat list \<times> 's beam \<Rightarrow> bool" where
  "beam_ok ba g blank vocab frame pb \<longleftrightarrow> map te_token_id (bm_emits (snd pb)) = fst pb
     \<and> context_of ba g (fst pb) = Some (bm_context_node (snd pb), bm_context_score (snd pb))
     \<and> (\<forall>t \<in> set (fst pb). t < vocab \<and> t \<noteq> blank)
     \<and> sorted_wrt (<) (map te_start_frame (bm_emits (snd pb)))
     \<and> (\<forall>e \<in> set (bm_emits (snd pb)). te_start_frame e < frame)"

definition beams_ok :: "'s beam_arith \<Rightarrow> 's ctc_context_graph \<Rightarrow> nat \<Rightarrow> nat \<Rightarrow> nat \<Rightarrow> 's beams \<Rightarrow> bool" where
  "beams_ok ba g blank vocab frame bs \<longleftrightarrow> distinct (map fst bs) \<and> (\<forall>pb \<in> set bs. beam_ok ba g blank vocab frame pb)"

definition only_probabilities :: "('s beam \<Rightarrow> 's beam) \<Rightarrow> bool" where
  "only_probabilities f \<longleftrightarrow> (\<forall>b. bm_context_node (f b) = bm_context_node b \<and> bm_context_score (f b) = bm_context_score b \<and> bm_emits (f b) = bm_emits b)"

lemma beam_ok_probabilities: "only_probabilities f \<Longrightarrow> beam_ok ba g blank vocab frame (k, f b) \<longleftrightarrow> beam_ok ba g blank vocab frame (k, b)"
  by (simp add: beam_ok_def only_probabilities_def)

lemma update_beam_ok:
  assumes "only_probabilities f"
  shows "map fst (update_beam key f bs) = map fst bs \<and>
    ((\<forall>pb \<in> set bs. beam_ok ba g blank vocab frame pb) \<longrightarrow> (\<forall>pb \<in> set (update_beam key f bs). beam_ok ba g blank vocab frame pb))"
  using assms by (induction key f bs rule: update_beam.induct) (auto simp: beam_ok_probabilities)

lemma entry_ok:
  assumes f: "only_probabilities f" and ok: "beams_ok ba g blank vocab frame nxt"
    and fresh: "fresh = Some b" "beam_ok ba g blank vocab frame (key, b)"
  shows "\<exists>n'. map_option (update_beam key f) (entry_or_insert key fresh nxt) = Some n' \<and> beams_ok ba g blank vocab frame n' \<and> n' \<noteq> []"
proof -
  obtain n1 where n1: "entry_or_insert key fresh nxt = Some n1" "beams_ok ba g blank vocab frame n1" "n1 \<noteq> []"
  proof (cases "map_of nxt key")
    case None
    then have "key \<notin> fst ` set nxt" by (simp add: map_of_eq_None_iff)
    then show ?thesis using that [of "nxt @ [(key, b)]"] None ok fresh by (simp add: entry_or_insert_def beams_ok_def)
  next
    case (Some b')
    then have "nxt \<noteq> []" by auto
    then show ?thesis using that [of nxt] Some ok by (simp add: entry_or_insert_def)
  qed
  then show ?thesis using update_beam_ok [OF f, of key n1 ba g blank vocab frame]
    by (auto simp: beams_ok_def)
qed

lemma beam_ok_later: "beam_ok ba g blank vocab frame pb \<Longrightarrow> beam_ok ba g blank vocab (Suc frame) pb"
  by (auto simp: beam_ok_def)

lemma carry_beam_ok: "beam_ok ba g blank vocab frame (k, carry_beam ba b) \<longleftrightarrow> beam_ok ba g blank vocab frame (k, b)"
  by (simp add: beam_ok_def carry_beam_def)

lemma extend_beam_ok:
  assumes g: "graph_ok (ba_score ba) tr g" and ok: "beam_ok ba g blank vocab frame (p, b)" and t: "t < vocab" "t \<noteq> blank"
  shows "\<exists>b'. extend_beam ba b g t frame lp = Some b' \<and> beam_ok ba g blank vocab (Suc frame) (p @ [t], b')"
proof -
  obtain n s where ns: "context_of ba g p = Some (n, s)" "walk (cg_goto g) 0 (longest_suffix (in_trie (cg_goto g)) p) = Some n"
    using context_of_node [OF g] by blast
  then have b: "bm_context_node b = n" "bm_context_score b = s" "map te_token_id (bm_emits b) = p" using ok by (simp_all add: beam_ok_def)
  obtain d delta where d: "context_step (ba_score ba) g n t = Some (d, delta)" using context_step_spec [OF g ns(2), of t] by blast
  have last: "bm_emits b \<noteq> [] \<and> te_token_id (last (bm_emits b)) = t \<longleftrightarrow> (if p = [] then None else Some (last p)) = Some t"
    using b(3) by (cases "bm_emits b = []") (auto simp: last_map)
  show ?thesis
    using ok d b ns(1) t last
    by (auto simp: extend_beam_def Let_def beam_ok_def context_of_def context_walk_snoc sorted_wrt_append less_Suc_eq)
qed

lemma fold_blank_ok:
  assumes "beam_ok ba g blank vocab frame pb" "beams_ok ba g blank vocab frame' nxt" "frame' = Suc frame"
  shows "\<exists>n'. fold_blank ba lp pb nxt = Some n' \<and> beams_ok ba g blank vocab frame' n' \<and> n' \<noteq> []"
  unfolding fold_blank_def
  by (rule entry_ok) (use assms beam_ok_later [OF assms(1)] in \<open>auto simp: only_probabilities_def carry_beam_ok\<close>)

lemma fold_repeat_ok:
  assumes "beam_ok ba g blank vocab frame pb" "beams_ok ba g blank vocab frame' nxt" "frame' = Suc frame" "nxt \<noteq> []"
  shows "\<exists>n'. fold_repeat ba lps pb nxt = Some n' \<and> beams_ok ba g blank vocab frame' n' \<and> n' \<noteq> []"
proof (cases "fst pb = []")
  case False
  have "\<exists>n'. map_option (update_beam (fst pb) (\<lambda>entry. entry\<lparr>bm_p_non_blank := log_sum_exp2 ba (bm_p_non_blank entry)
             (bplus ba (bm_p_non_blank (snd pb)) (lps ! last (fst pb)))\<rparr>))
      (entry_or_insert (fst pb) (Some (carry_beam ba (snd pb))) nxt) = Some n' \<and> beams_ok ba g blank vocab frame' n' \<and> n' \<noteq> []"
    by (rule entry_ok) (use assms beam_ok_later [OF assms(1)] in \<open>auto simp: only_probabilities_def carry_beam_ok\<close>)
  then show ?thesis using False by (simp add: fold_repeat_def)
qed (use assms in \<open>simp add: fold_repeat_def\<close>)

lemma extend_loop_ok:
  assumes g: "graph_ok (ba_score ba) tr g" and ok: "beam_ok ba g blank vocab frame pb" and frame': "frame' = Suc frame"
  shows "\<forall>t \<in> set ts. t < vocab \<and> t \<noteq> blank \<Longrightarrow> beams_ok ba g blank vocab frame' nxt \<Longrightarrow> nxt \<noteq> [] \<Longrightarrow>
    \<exists>n'. extend_loop ba g lps frame pb ts nxt = Some n' \<and> beams_ok ba g blank vocab frame' n' \<and> n' \<noteq> []"
proof (induction ts arbitrary: nxt)
  case (Cons t ts)
  obtain b' where b': "extend_beam ba (snd pb) g t frame (lps ! t) = Some b'" "beam_ok ba g blank vocab frame' (fst pb @ [t], b')"
    using extend_beam_ok [OF g, of blank vocab frame "fst pb" "snd pb" t] ok Cons.prems(1) frame' by auto
  have "\<exists>n1. fold_extend ba g lps frame pb t nxt = Some n1 \<and> beams_ok ba g blank vocab frame' n1 \<and> n1 \<noteq> []"
    unfolding fold_extend_def Let_def by (rule entry_ok [OF _ Cons.prems(2) b']) (simp add: only_probabilities_def)
  then show ?case using Cons by auto
qed simp

lemma beam_loop_ok:
  assumes g: "graph_ok (ba_score ba) tr g" and cands: "\<forall>t \<in> set candidates. t < vocab \<and> t \<noteq> blank" and frame': "frame' = Suc frame"
  shows "\<forall>pb \<in> set pbs. beam_ok ba g blank vocab frame pb \<Longrightarrow> beams_ok ba g blank vocab frame' nxt \<Longrightarrow> nxt \<noteq> [] \<or> pbs \<noteq> [] \<Longrightarrow>
    \<exists>n'. beam_loop ba g blank lps frame candidates pbs nxt = Some n' \<and> beams_ok ba g blank vocab frame' n' \<and> n' \<noteq> []"
proof (induction pbs arbitrary: nxt)
  case (Cons pb pbs)
  have pb: "beam_ok ba g blank vocab frame pb" using Cons.prems by simp
  obtain n1 where n1: "fold_blank ba (lps ! blank) pb nxt = Some n1" "beams_ok ba g blank vocab frame' n1" "n1 \<noteq> []"
    using fold_blank_ok [OF pb Cons.prems(2) frame'] by blast
  obtain n2 where n2: "fold_repeat ba lps pb n1 = Some n2" "beams_ok ba g blank vocab frame' n2" "n2 \<noteq> []"
    using fold_repeat_ok [OF pb n1(2) frame' n1(3)] by blast
  obtain n3 where n3: "extend_loop ba g lps frame pb candidates n2 = Some n3" "beams_ok ba g blank vocab frame' n3" "n3 \<noteq> []"
    using extend_loop_ok [OF g pb frame' cands n2(2,3)] by blast
  show ?case using Cons.IH [OF _ n3(2)] Cons.prems n1(1) n2(1) n3 by auto
qed simp

section \<open>The search\<close>

definition permutes :: "('s beams \<Rightarrow> 's beams) \<Rightarrow> bool" where
  "permutes hit \<longleftrightarrow> (\<forall>bs. mset (hit bs) = mset bs)"

definition row_ok :: "'s beam_arith \<Rightarrow> nat \<Rightarrow> 's list \<Rightarrow> bool" where
  "row_ok ba vocab row \<longleftrightarrow> length row = vocab \<and> list_all (ba_is_finite ba) row"

lemma beams_ok_mset: "mset bs = mset bs' \<Longrightarrow> beams_ok ba g blank vocab frame bs = beams_ok ba g blank vocab frame bs'"
  unfolding beams_ok_def by (metis mset_eq_imp_distinct_iff mset_map set_mset_mset)

lemma beams_ok_take: "beams_ok ba g blank vocab frame bs \<Longrightarrow> beams_ok ba g blank vocab frame (take w bs)"
  by (auto simp: beams_ok_def take_map [symmetric] dest: in_set_takeD)

lemma permutes_ne: "permutes hit \<Longrightarrow> hit bs = [] \<longleftrightarrow> bs = []"
  unfolding permutes_def by (metis mset_zero_iff)

lemma prune_ok:
  assumes "permutes hit" "beams_ok ba g blank vocab frame nxt" "nxt \<noteq> []"
  shows "beams_ok ba g blank vocab frame (prune_beams ba hit nxt CTC_PREFIX_BEAM_WIDTH) \<and> prune_beams ba hit nxt CTC_PREFIX_BEAM_WIDTH \<noteq> []
    \<and> length (prune_beams ba hit nxt CTC_PREFIX_BEAM_WIDTH) \<le> 8"
proof -
  have m: "mset (sort_by (prune_order ba) (hit nxt)) = mset nxt" using assms(1) by (simp add: permutes_def)
  then have "sort_by (prune_order ba) (hit nxt) \<noteq> []" using assms(3) by force
  then show ?thesis using assms(2,3) beams_ok_take beams_ok_mset [OF m, of ba g blank vocab frame]
    by (auto simp: prune_beams_def CTC_PREFIX_BEAM_WIDTH_def)
qed

lemma initial_beams_ok: "beams_ok ba g blank vocab 0 (initial_beams ba g)"
  by (simp add: beams_ok_def beam_ok_def initial_beams_def context_of_def)

lemma frame_step:
  assumes g: "graph_ok (ba_score ba) tr g" and hit: "permutes hit" and row: "row_ok ba vocab row"
    and bs: "beams_ok ba g blank vocab frame bs" "bs \<noteq> []"
  shows "\<exists>bs'. frame_loop ba hit blank vocab g frame bs (row # rows) = frame_loop ba hit blank vocab g (Suc frame) bs' rows
    \<and> beams_ok ba g blank vocab (Suc frame) bs' \<and> bs' \<noteq> [] \<and> length bs' \<le> 8"
proof -
  obtain m where m: "logit_max ba frame (ba_neg_inf ba) row = Inr m" using row logit_max_ok [of ba row] unfolding row_ok_def by blast
  then obtain lps where lps: "log_softmax_into ba row frame = Inr lps" "length lps = vocab"
    using row by (simp add: log_softmax_into_def Let_def row_ok_def)
  let ?cs = "frame_candidate_tokens ba lps blank g" let ?o = "sort_by (\<lambda>a b. cmp_key (fst a) (fst b)) (hit bs)"
  have o: "mset ?o = mset bs" using hit by (simp add: permutes_def)
  have "\<forall>pb \<in> set ?o. beam_ok ba g blank vocab frame pb" using bs(1) o unfolding beams_ok_def by (metis set_mset_mset)
  moreover have "?o \<noteq> []" using o bs(2) by force
  moreover have "\<forall>t \<in> set ?cs. t < vocab \<and> t \<noteq> blank" using candidates_bound lps(2) by blast
  ultimately obtain n where n: "beam_loop ba g blank lps frame ?cs ?o [] = Some n" "beams_ok ba g blank vocab (Suc frame) n" "n \<noteq> []"
    using beam_loop_ok [OF g _ refl, of ?cs vocab blank ?o frame "[]" lps] by (auto simp: beams_ok_def)
  then show ?thesis using prune_ok [OF hit n(2,3)] lps(1) row by (auto simp: row_ok_def)
qed

lemma frame_loop_ok:
  assumes g: "graph_ok (ba_score ba) tr g" and hit: "permutes hit"
  shows "list_all (row_ok ba vocab) rows \<Longrightarrow> beams_ok ba g blank vocab frame bs \<Longrightarrow> bs \<noteq> [] \<Longrightarrow> length bs \<le> 8 \<Longrightarrow>
    \<exists>bs'. frame_loop ba hit blank vocab g frame bs rows = Some (Inr bs') \<and> beams_ok ba g blank vocab (frame + length rows) bs'
      \<and> bs' \<noteq> [] \<and> length bs' \<le> 8"
proof (induction rows arbitrary: frame bs)
  case (Cons row rows)
  then obtain b1 where "frame_loop ba hit blank vocab g frame bs (row # rows) = frame_loop ba hit blank vocab g (Suc frame) b1 rows"
    "beams_ok ba g blank vocab (Suc frame) b1" "b1 \<noteq> []" "length b1 \<le> 8"
    using frame_step [OF g hit, of vocab row blank frame bs rows] by auto
  then show ?case using Cons.IH [of "Suc frame" b1] Cons.prems(1) by simp
qed simp

lemma frame_loop_bad:
  assumes g: "graph_ok (ba_score ba) tr g" and hit: "permutes hit" and bad: "\<not> row_ok ba vocab bad"
  shows "list_all (row_ok ba vocab) good \<Longrightarrow> beams_ok ba g blank vocab frame bs \<Longrightarrow> bs \<noteq> [] \<Longrightarrow>
    frame_loop ba hit blank vocab g frame bs (good @ bad # rest) = Some (Inl
      (if length bad \<noteq> vocab then FrameWidthMismatch (frame + length good) (length bad) vocab else NonFiniteLogits (frame + length good)))"
proof (induction good arbitrary: frame bs)
  case Nil
  then show ?case using bad logit_max_bad [of ba bad frame "ba_neg_inf ba"] by (auto simp: row_ok_def log_softmax_into_def)
next
  case (Cons row good)
  then obtain b1 where "frame_loop ba hit blank vocab g frame bs (row # good @ bad # rest)
      = frame_loop ba hit blank vocab g (Suc frame) b1 (good @ bad # rest)" "beams_ok ba g blank vocab (Suc frame) b1" "b1 \<noteq> []"
    using frame_step [OF g hit, of vocab row blank frame bs "good @ bad # rest"] by auto
  then show ?case using Cons.IH [of "Suc frame" b1] Cons.prems(1) by simp
qed

subsection \<open>Spans\<close>

text \<open>The spans follow one another without a gap up to the last frame, and none is empty.\<close>

fun spans_tile :: "nat \<Rightarrow> 's ctc_token_frame_span list \<Rightarrow> bool" where
  "spans_tile frames [] = True"
| "spans_tile frames [s] = (cs_start_frame s < cs_end_frame s \<and> cs_end_frame s = frames)"
| "spans_tile frames (s # s' # ss) = (cs_start_frame s < cs_end_frame s \<and> cs_end_frame s = cs_start_frame s' \<and> spans_tile frames (s' # ss))"

lemma emit_spans_tile:
  assumes "sorted_wrt (<) (map te_start_frame es)" "\<forall>e \<in> set es. te_start_frame e < frames"
  shows "spans_tile frames (emit_spans ba frames es) \<and> map cs_token_id (emit_spans ba frames es) = map te_token_id es"
  using assms
proof (induction es)
  case (Cons e es)
  then show ?case by (cases es) (auto simp: Let_def)
qed simp

lemma context_graph_ok: "iterates it \<Longrightarrow> from_token_phrase_biases ar it biases = Some (Some g) \<Longrightarrow> graph_ok ar (build_trie ar biases) g"
  using from_token_phrase_biases_spec [of it ar biases] by (auto split: if_splits)

section \<open>Properties\<close>

text \<open>
  C24. The merge of the search is sound: after any number of frames there are at most eight beams with
  different label prefixes, and the context of a beam is a function of its prefix alone. Its node is
  that of the longest suffix of the prefix that begins a hotword, its score is that of the graph
  run over the prefix with the repeat guard, and its alignment spells the prefix. The frames the
  theorem asks for are those the search does not reject.
\<close>

theorem beam_context_is_function_of_prefix:
  assumes "iterates it" and "permutes hit" and "from_token_phrase_biases (ba_score ba) it biases = Some (Some g)"
    and "blank < vocab" and "list_all (row_ok ba vocab) rows"
  shows "\<exists>beams. frame_loop ba hit blank vocab g 0 (initial_beams ba g) rows = Some (Inr beams)
    \<and> beams \<noteq> [] \<and> length beams \<le> 8 \<and> distinct (map fst beams)
    \<and> (\<forall>(p, b) \<in> set beams. map te_token_id (bm_emits b) = p
          \<and> walk (cg_goto g) 0 (longest_suffix (hot_prefix (ba_score ba) biases) p) = Some (bm_context_node b)
          \<and> context_of ba g p = Some (bm_context_node b, bm_context_score b))"
proof -
  have g: "graph_ok (ba_score ba) (build_trie (ba_score ba) biases) g" by (rule context_graph_ok [OF assms(1,3)])
  have init: "initial_beams ba g \<noteq> []" "length (initial_beams ba g) \<le> 8" by (simp_all add: initial_beams_def)
  obtain beams where b: "frame_loop ba hit blank vocab g 0 (initial_beams ba g) rows = Some (Inr beams)" "beams \<noteq> []" "length beams \<le> 8"
    "beams_ok ba g blank vocab (0 + length rows) beams"
    using frame_loop_ok [OF g assms(2,5) initial_beams_ok init] by blast
  have "walk (cg_goto g) 0 (longest_suffix (hot_prefix (ba_score ba) biases) p) = Some (bm_context_node b)" if "(p, b) \<in> set beams" for p b
    using b(4) that context_of_node [OF g, of p] unfolding beams_ok_def beam_ok_def graph_words [OF g] by fastforce
  then show ?thesis using b unfolding beams_ok_def beam_ok_def by fastforce
qed

definition sample_beam_arith :: "rat beam_arith" where
  "sample_beam_arith = \<lparr>ba_score = exact_arith, ba_neg_inf = - 1000, ba_is_neg_inf = (\<lambda>x. x = - 1000), ba_is_finite = (\<lambda>x. - 1000 < x),
     ba_ge = (\<ge>), ba_max = max, ba_exp = (\<lambda>x. x), ba_ln = (\<lambda>x. x),
     ba_partial_cmp = (\<lambda>x y. Some (if x < y then Less else if x = y then Equal else Greater)),
     ba_plausibility_margin = 12, ba_clamp_unit = (\<lambda>x. max 0 (min 1 x))\<rparr>"

lemma sample_graph:
  "\<exists>g. from_token_phrase_biases (ba_score sample_beam_arith) (\<lambda>_ m. m) sample_biases = Some (Some g)"
  using from_token_phrase_biases_spec [of "\<lambda>_ m. m" exact_arith sample_biases]
  by (auto simp: sample_hotwords iterates_def sample_beam_arith_def)

lemma sample_orders: "iterates (\<lambda>_ m. m)" "permutes (\<lambda>bs. bs)"
  by (simp_all add: iterates_def permutes_def)

theorem beam_context_is_function_of_prefix_witness:
  "\<exists>g beams. from_token_phrase_biases (ba_score sample_beam_arith) (\<lambda>_ m. m) sample_biases = Some (Some g)
    \<and> frame_loop sample_beam_arith (\<lambda>bs. bs) 0 3 g 0 (initial_beams sample_beam_arith g) [[0, 1, 2], [2, 0, 1]] = Some (Inr beams)
    \<and> beams \<noteq> [] \<and> distinct (map fst beams)"
proof -
  obtain g where g: "from_token_phrase_biases (ba_score sample_beam_arith) (\<lambda>_ m. m) sample_biases = Some (Some g)"
    using sample_graph by blast
  have "list_all (row_ok sample_beam_arith 3) [[0, 1, 2], [2, 0, 1]]" by (simp add: row_ok_def sample_beam_arith_def)
  from beam_context_is_function_of_prefix [OF sample_orders g _ this, of 0] show ?thesis using g by auto
qed

lemma search_succeeds:
  assumes g: "graph_ok (ba_score ba) tr g" and hit: "permutes hit" and ok: "list_all (row_ok ba vocab) rows" and ne: "rows \<noteq> []"
  shows "\<exists>ids spans. run_ctc_prefix_beam_decode ba hit blank vocab g rows dec = Some (rbind (dec ids) (\<lambda>decoded.
        Inr \<lparr>cr_token_ids = ids, cr_token_spans = spans, cr_frame_count = length rows, cr_text = decoded\<rparr>))
      \<and> set ids \<subseteq> {..<vocab} - {blank} \<and> map cs_token_id spans = ids \<and> spans_tile (length rows) spans"
proof -
  have init: "initial_beams ba g \<noteq> []" "length (initial_beams ba g) \<le> 8" by (simp_all add: initial_beams_def)
  obtain beams where b: "frame_loop ba hit blank vocab g 0 (initial_beams ba g) rows = Some (Inr beams)" "beams \<noteq> []"
    "beams_ok ba g blank vocab (0 + length rows) beams"
    using frame_loop_ok [OF g hit ok initial_beams_ok init] by blast
  have "set (hit beams) = set beams" using hit unfolding permutes_def by (metis set_mset_mset)
  moreover have "hit beams \<noteq> []" using permutes_ne [OF hit] b(2) by simp
  then obtain pb where "max_by (final_order ba g) (hit beams) = Some pb" "pb \<in> set (hit beams)" using max_by_in by blast
  moreover obtain p best where "pb = (p, best)" by force
  ultimately have best: "max_by (final_order ba g) (hit beams) = Some (p, best)" "(p, best) \<in> set beams" by simp_all
  then have "beam_ok ba g blank vocab (length rows) (p, best)" using b(3) by (simp add: beams_ok_def)
  then have "set (map te_token_id (bm_emits best)) \<subseteq> {..<vocab} - {blank}"
    and "spans_tile (length rows) (emit_spans ba (length rows) (bm_emits best))"
    and "map cs_token_id (emit_spans ba (length rows) (bm_emits best)) = map te_token_id (bm_emits best)"
    using emit_spans_tile [of "bm_emits best" "length rows" ba] by (auto simp: beam_ok_def)
  moreover have "run_ctc_prefix_beam_decode ba hit blank vocab g rows dec
    = Some (rbind (dec (map te_token_id (bm_emits best))) (\<lambda>decoded. Inr \<lparr>cr_token_ids = map te_token_id (bm_emits best),
        cr_token_spans = emit_spans ba (length rows) (bm_emits best), cr_frame_count = length rows, cr_text = decoded\<rparr>))"
    using b(1) best(1) ne by (simp add: run_ctc_prefix_beam_decode_def Let_def)
  ultimately show ?thesis by blast
qed

text \<open>
  C25. Decoding with hotwords returns on every input, and fails closed like greedy
  decoding: without frames, or at the first frame with a wrong width or a logit that is not finite,
  it gives the error of that frame. Otherwise the tokens exclude the blank and lie in the vocabulary,
  each has a nonempty span of frames, and the spans follow one another up to the last frame.
\<close>

theorem prefix_beam_decodes_or_rejects:
  assumes "iterates it" and "permutes hit" and "from_token_phrase_biases (ba_score ba) it biases = Some (Some g)"
    and "blank < vocab"
  shows "case dropWhile (row_ok ba vocab) rows of
      bad # _ \<Rightarrow> let frame = length (takeWhile (row_ok ba vocab) rows)
        in run_ctc_prefix_beam_decode ba hit blank vocab g rows dec
          = Some (Inl (if length bad \<noteq> vocab then FrameWidthMismatch frame (length bad) vocab else NonFiniteLogits frame))
    | [] \<Rightarrow> if rows = [] then run_ctc_prefix_beam_decode ba hit blank vocab g rows dec = Some (Inl EmptyFrames)
        else \<exists>ids spans. run_ctc_prefix_beam_decode ba hit blank vocab g rows dec = Some (rbind (dec ids) (\<lambda>decoded.
              Inr \<lparr>cr_token_ids = ids, cr_token_spans = spans, cr_frame_count = length rows, cr_text = decoded\<rparr>))
            \<and> set ids \<subseteq> {..<vocab} - {blank} \<and> map cs_token_id spans = ids \<and> spans_tile (length rows) spans"
proof -
  have g: "graph_ok (ba_score ba) (build_trie (ba_score ba) biases) g" by (rule context_graph_ok [OF assms(1,3)])
  show ?thesis
  proof (cases "dropWhile (row_ok ba vocab) rows")
    case Nil
    then have ok: "list_all (row_ok ba vocab) rows" by (simp add: dropWhile_eq_Nil_conv list_all_iff)
    show ?thesis
      unfolding Nil list.case using search_succeeds [OF g assms(2) ok, of blank dec] by (simp add: run_ctc_prefix_beam_decode_def)
  next
    case (Cons bad rest)
    have split: "rows = takeWhile (row_ok ba vocab) rows @ bad # rest" using Cons by (metis takeWhile_dropWhile_id)
    have bad: "\<not> row_ok ba vocab bad" using hd_dropWhile [of "row_ok ba vocab" rows] Cons by simp
    have good: "list_all (row_ok ba vocab) (takeWhile (row_ok ba vocab) rows)" by (auto simp: list_all_iff dest: set_takeWhileD)
    have init: "initial_beams ba g \<noteq> []" by (simp add: initial_beams_def)
    have "rows \<noteq> []" using Cons by auto
    then show ?thesis using Cons frame_loop_bad [OF g assms(2) bad good initial_beams_ok init, where rest = rest] split
      by (simp add: run_ctc_prefix_beam_decode_def Let_def)
  qed
qed

theorem prefix_beam_decodes_or_rejects_witness:
  "\<exists>g. from_token_phrase_biases (ba_score sample_beam_arith) (\<lambda>_ m. m) sample_biases = Some (Some g)
    \<and> run_ctc_prefix_beam_decode sample_beam_arith (\<lambda>bs. bs) 0 3 g [[0, 1, 2], [2, 0]] (\<lambda>_. Inr [])
      = Some (Inl (FrameWidthMismatch 1 2 3))"
proof -
  obtain g where g: "from_token_phrase_biases (ba_score sample_beam_arith) (\<lambda>_ m. m) sample_biases = Some (Some g)"
    using sample_graph by blast
  have rows: "row_ok sample_beam_arith 3 [0, 1, 2]" "\<not> row_ok sample_beam_arith 3 [2, 0]"
    by (simp_all add: row_ok_def sample_beam_arith_def)
  from prefix_beam_decodes_or_rejects [OF sample_orders g, of 0 3 "[[0, 1, 2], [2, 0]]" "\<lambda>_. Inr []"] rows g
  show ?thesis by (auto simp: Let_def)
qed

subsection \<open>What the search rewards\<close>

text \<open>
  The reward of a prefix: at every position the bonuses of the hotwords that end there, except where
  the token only repeats the one before it and the match stays the same.
\<close>

definition stutters :: "rat token_phrase_bias list \<Rightarrow> nat list \<Rightarrow> nat \<Rightarrow> bool" where
  "stutters biases p i \<longleftrightarrow> 0 < i \<and> p ! i = p ! (i - 1)
     \<and> longest_suffix (hot_prefix exact_arith biases) (take (Suc i) p) = longest_suffix (hot_prefix exact_arith biases) (take i p)"

definition hotword_reward :: "rat token_phrase_bias list \<Rightarrow> nat list \<Rightarrow> rat" where
  "hotword_reward biases p = (\<Sum>i \<leftarrow> [0..<length p].
     if stutters biases p i then 0 else sum_list (map (hotword_bonus biases) (suffixes (take (Suc i) p))))"

lemma hotword_reward_Nil [simp]: "hotword_reward biases [] = 0"
  by (simp add: hotword_reward_def)

lemma hotword_reward_snoc:
  "hotword_reward biases (p @ [t]) = hotword_reward biases p
     + (if p \<noteq> [] \<and> last p = t \<and> longest_suffix (hot_prefix exact_arith biases) (p @ [t]) = longest_suffix (hot_prefix exact_arith biases) p
        then 0 else sum_list (map (hotword_bonus biases) (suffixes (p @ [t]))))"
proof -
  have "stutters biases (p @ [t]) i = stutters biases p i" if "i < length p" for i
    using that by (auto simp: stutters_def nth_append)
  moreover have "stutters biases (p @ [t]) (length p) \<longleftrightarrow> p \<noteq> [] \<and> last p = t
      \<and> longest_suffix (hot_prefix exact_arith biases) (p @ [t]) = longest_suffix (hot_prefix exact_arith biases) p"
    by (auto simp: stutters_def nth_append last_conv_nth)
  moreover have "(\<Sum>i \<leftarrow> [0..<length p]. if stutters biases (p @ [t]) i then 0 else sum_list (map (hotword_bonus biases) (suffixes (take (Suc i) (p @ [t])))))
      = hotword_reward biases p"
    unfolding hotword_reward_def using calculation(1) by (intro arg_cong [where f = sum_list] map_cong) auto
  ultimately show ?thesis by (simp add: hotword_reward_def [of biases "p @ [t]"])
qed

lemma context_score_reward:
  assumes g: "graph_ok exact_arith (build_trie exact_arith biases) g" and ba: "ba_score ba = exact_arith"
  shows "context_of ba g p = Some (n, s) \<Longrightarrow> s = cg_node_score g ! n + hotword_reward biases p"
proof (induction p arbitrary: n s rule: rev_induct)
  case Nil
  then show ?case using g by (simp add: context_of_def graph_root_def ba graph_ok_def scored_def)
next
  case (snoc t p)
  let ?P = "in_trie (cg_goto g)"
  have ok: "trie_ok (cg_goto g)" using g by (simp add: graph_ok_def)
  obtain m s' where m: "context_of ba g p = Some (m, s')" "walk (cg_goto g) 0 (longest_suffix ?P p) = Some m"
    using context_of_node [of ba, unfolded ba, OF g] by blast
  obtain d where d: "walk (cg_goto g) 0 (longest_suffix ?P (p @ [t])) = Some d"
    "context_step exact_arith g m t = Some (d, cg_node_score g ! d - cg_node_score g ! m + cg_output_score g ! d)"
    using context_step_spec [OF g m(2), of t] by auto
  have same: "d = m \<longleftrightarrow> longest_suffix ?P (p @ [t]) = longest_suffix ?P p" by (metis walk_inj [OF ok d(1)] m(2) d(1) option.inject)
  define rep where "rep \<longleftrightarrow> p \<noteq> [] \<and> last p = t \<and> d = m"
  define delta where "delta = cg_node_score g ! d - cg_node_score g ! m + cg_output_score g ! d"
  have "context_of ba g (p @ [t]) = Some (d, s' + (if d = m \<and> (if p = [] then None else Some (last p)) = Some t
      then delta - cg_output_score g ! d else delta))"
    using m(1) d(2) by (simp only: context_of_def context_walk_snoc ba completion_bonus_def exact_arith_sel delta_def option.case prod.case)
  then have "n = d" "s = s' + (if rep then delta - cg_output_score g ! d else delta)"
    using snoc.prems by (simp_all add: rep_def conj_commute split: if_splits)
  then have "n = d" "s = s' + (cg_node_score g ! d - cg_node_score g ! m + (if rep then 0 else cg_output_score g ! d))"
    by (simp_all add: delta_def)
  moreover have "hotword_reward biases (p @ [t]) = hotword_reward biases p + (if rep then 0 else cg_output_score g ! d)"
    unfolding hotword_reward_snoc rep_def same graph_words [OF g, symmetric] output_of_match [OF g d(1)] ..
  ultimately show ?case using snoc.IH [OF m(1)] by simp
qed

text \<open>
  C27. What the search adds to the acoustic score of a prefix for its hotwords is earned by
  completed hotwords alone. In exact arithmetic (scores that are rationals), for a blank in the
  vocabulary and every order of the hash maps, the search returns on frames it accepts (of the right
  width and finite), and the score by which a beam is chosen at the end is its acoustic score and the reward
  of its prefix: at every token the bonuses of all hotwords that end there, once, and nothing where
  the token repeats the one before it without moving the match, so that a stutter earns
  nothing. What was granted for a match that broke or stayed unfinished is given back.
\<close>

theorem search_rewards_completed_hotwords:
  assumes "iterates it" and "permutes hit" and "ba_score ba = exact_arith"
    and "from_token_phrase_biases exact_arith it biases = Some (Some g)" and "blank < vocab" and "list_all (row_ok ba vocab) rows"
  shows "\<exists>beams. frame_loop ba hit blank vocab g 0 (initial_beams ba g) rows = Some (Inr beams)
    \<and> (\<forall>(p, b) \<in> set beams. finalized_score ba g b = total_log_prob ba b + hotword_reward biases p)"
proof -
  have g: "graph_ok exact_arith (build_trie exact_arith biases) g" by (rule context_graph_ok [OF assms(1,4)])
  have init: "initial_beams ba g \<noteq> []" "length (initial_beams ba g) \<le> 8" by (simp_all add: initial_beams_def)
  obtain beams where b: "frame_loop ba hit blank vocab g 0 (initial_beams ba g) rows = Some (Inr beams)"
    "beams_ok ba g blank vocab (0 + length rows) beams"
    using frame_loop_ok [OF _ assms(2,6) initial_beams_ok init, unfolded assms(3), OF g] by blast
  have "finalized_score ba g b = total_log_prob ba b + hotword_reward biases p" if "(p, b) \<in> set beams" for p b
    using b(2) that context_score_reward [OF g assms(3), of p "bm_context_node b" "bm_context_score b"]
    by (auto simp: beams_ok_def beam_ok_def finalized_score_def beam_score_def assms(3) finalize_refund_def pending_prefix_score_def)
  with b(1) show ?thesis by blast
qed

theorem search_rewards_completed_hotwords_witness:
  "\<exists>g beams. from_token_phrase_biases exact_arith (\<lambda>_ m. m) sample_biases = Some (Some g)
    \<and> frame_loop sample_beam_arith (\<lambda>bs. bs) 0 3 g 0 (initial_beams sample_beam_arith g) [[0, 1, 2], [2, 0, 1]] = Some (Inr beams)
    \<and> list_all (\<lambda>(p, b). finalized_score sample_beam_arith g b = total_log_prob sample_beam_arith b + hotword_reward sample_biases p) beams
    \<and> hotword_reward sample_biases [2, 2] = 3 \<and> hotword_reward sample_biases [2, 1, 2] = 12"
proof -
  have ar: "ba_score sample_beam_arith = exact_arith" by (simp add: sample_beam_arith_def)
  obtain g where g: "from_token_phrase_biases exact_arith (\<lambda>_ m. m) sample_biases = Some (Some g)"
    using sample_graph by (auto simp: ar)
  have b: "hotword_bonus sample_biases w = (if w = [1, 2] then 6 else if w = [2] then 3 else 0)" for w
    by (auto simp: hotword_bonus_def sample_hotwords)
  have r: "hotword_reward sample_biases [2, 2] = 3" "hotword_reward sample_biases [2, 1, 2] = 12"
    by (simp_all add: hotword_reward_def stutters_def hot_prefix_def sample_hotwords b upt_rec)
  have rows: "list_all (row_ok sample_beam_arith 3) [[0, 1, 2], [2, 0, 1]]" by (simp add: row_ok_def sample_beam_arith_def)
  from search_rewards_completed_hotwords [OF sample_orders ar g _ rows, of 0] show ?thesis
    using g r by (fastforce simp: list_all_iff)
qed

end
