(* ===== verification/Longform_Seam.thy ===== *)
theory Longform_Seam
  imports Error_Rates
begin

text \<open>
  The seam between the transcripts of two windows (\<open>crates/openasr-core/src/longform/assembler.rs\<close>):
  the text units two readings are compared by, the search for a suffix of the committed segment that
  the next one repeats, the stitch that removes one of the two copies, and the drop of a segment
  that only repeats. Times are of a type of their own with the arithmetic as a parameter (\<open>sm\<close>); a
  text is the list of its scalar values.
\<close>

section \<open>Data\<close>

record 't seam_arith =
  sm_lit :: "rat \<Rightarrow> 't"
  sm_add :: "'t \<Rightarrow> 't \<Rightarrow> 't"
  sm_sub :: "'t \<Rightarrow> 't \<Rightarrow> 't"
  sm_mul :: "'t \<Rightarrow> 't \<Rightarrow> 't"
  sm_lt :: "'t \<Rightarrow> 't \<Rightarrow> bool"
  sm_le :: "'t \<Rightarrow> 't \<Rightarrow> bool"
  sm_ratio :: "nat \<Rightarrow> nat \<Rightarrow> 't"

record 't word_timestamp =
  wt_word :: rstr
  wt_start :: 't
  wt_end :: 't
  wt_confidence :: "'t option"

record 't segment =
  sg_start :: 't
  sg_end :: 't
  sg_text :: rstr
  sg_speaker :: "rstr option"
  sg_speaker_label :: "rstr option"
  sg_speaker_person_id :: "rstr option"
  sg_speaker_snapshot_label :: "rstr option"
  sg_words :: "'t word_timestamp list"

record 't segment_merge_policy =
  mp_max_gap_seconds :: 't
  mp_redundant_overlap_ratio :: 't
  mp_redundant_min_words :: nat

record overlap_unit =
  ou_token :: rstr
  ou_start :: nat
  ou_end :: nat

record suffix_prefix_overlap =
  so_prev_start :: nat
  so_prev_end :: nat
  so_curr_start :: nat
  so_curr_end :: nat
  so_units :: nat
  so_skip_curr_units :: nat

definition SEGMENT_STITCH_REREAD_MAX_PAST_PREV_END_SECONDS :: rat where "SEGMENT_STITCH_REREAD_MAX_PAST_PREV_END_SECONDS = 15 / 100"
definition SEGMENT_STITCH_SEAM_CLAMP_TOLERANCE_SECONDS :: rat where "SEGMENT_STITCH_SEAM_CLAMP_TOLERANCE_SECONDS = 1 / 10"
definition SEGMENT_STITCH_REHOME_MAX_RESTART_GAP_SECONDS :: rat where "SEGMENT_STITCH_REHOME_MAX_RESTART_GAP_SECONDS = 1 / 2"
definition CJK_CHAR_SECONDS :: rat where "CJK_CHAR_SECONDS = 18 / 100"
definition SEAM_SIMILAR_MIN_UNIT_CHARS :: nat where "SEAM_SIMILAR_MIN_UNIT_CHARS = 3"

section \<open>Units of text\<close>

definition is_ascii_digit :: "nat \<Rightarrow> bool" where
  "is_ascii_digit c \<longleftrightarrow> 48 \<le> c \<and> c \<le> 57"

definition is_ascii_alphanumeric :: "nat \<Rightarrow> bool" where
  "is_ascii_alphanumeric c \<longleftrightarrow> is_ascii_digit c \<or> (65 \<le> c \<and> c \<le> 90) \<or> (97 \<le> c \<and> c \<le> 122)"

definition is_seam_punctuation :: "nat \<Rightarrow> bool" where
  "is_seam_punctuation c \<longleftrightarrow> c \<in> {44, 46, 33, 63, 59, 58, 65292, 12290, 65281, 65311, 65307, 65306, 12289}"

definition is_ascii_word_char :: "nat \<Rightarrow> bool" where
  "is_ascii_word_char c \<longleftrightarrow> is_ascii_alphanumeric c \<or> c = 39 \<or> c = 45"

definition is_cjk_numeral :: "nat \<Rightarrow> bool" where
  "is_cjk_numeral c \<longleftrightarrow> c \<in> {38646, 19968, 20108, 19977, 22235, 20116, 20845, 19971, 20843, 20061, 21313, 30334, 21315, 19975}"

definition is_numeric_unit :: "rstr \<Rightarrow> bool" where
  "is_numeric_unit token \<longleftrightarrow> token \<noteq> [] \<and> list_all (\<lambda>c. is_ascii_digit c \<or> is_cjk_numeral c) token"

fun is_single_cjk_char :: "rstr \<Rightarrow> bool" where
  "is_single_cjk_char [c] = (\<not> c < 128 \<and> \<not> (c = 32 \<or> c = 9 \<or> c = 10 \<or> c = 12 \<or> c = 13))"
| "is_single_cjk_char _ = False"

function overlap_units_from :: "nat \<Rightarrow> rstr \<Rightarrow> overlap_unit list" where
  "overlap_units_from index [] = []"
| "overlap_units_from index (c # cs) =
     (if is_ws c \<or> is_seam_punctuation c then overlap_units_from (index + 1) cs
      else if is_ascii_word_char c
      then let token = takeWhile is_ascii_word_char (c # cs)
           in \<lparr>ou_token = to_ascii_lowercase token, ou_start = index, ou_end = index + length token\<rparr>
                # overlap_units_from (index + length token) (dropWhile is_ascii_word_char (c # cs))
      else \<lparr>ou_token = [c], ou_start = index, ou_end = index + 1\<rparr> # overlap_units_from (index + 1) cs)"
  by pat_completeness auto

termination overlap_units_from
proof (relation "measure (\<lambda>(_, s). length s)", goal_cases)
  case (3 index c cs token)
  then show ?case using length_dropWhile_le [of is_ascii_word_char cs] by simp
qed auto

definition overlap_units :: "rstr \<Rightarrow> overlap_unit list" where
  "overlap_units s = overlap_units_from 0 s"

text \<open>\<open>char_prefix\<close> and \<open>char_suffix\<close>.\<close>

definition char_prefix :: "rstr \<Rightarrow> nat \<Rightarrow> rstr" where
  "char_prefix s char_count = take char_count s"

definition char_suffix :: "rstr \<Rightarrow> nat \<Rightarrow> rstr" where
  "char_suffix s char_skip = drop char_skip s"

definition normalize_word :: "rstr \<Rightarrow> rstr list" where
  "normalize_word w =
     (let ascii = to_ascii_lowercase (filter is_ascii_alphanumeric w)
      in if ascii \<noteq> [] then [ascii] else map (\<lambda>c. [c]) (filter (\<lambda>c. \<not> is_seam_punctuation c) w))"

definition normalize_words :: "rstr \<Rightarrow> rstr list" where
  "normalize_words s = filter (\<lambda>w. w \<noteq> []) (concat (map normalize_word (split_whitespace s)))"

section \<open>Common windows\<close>

definition mostly_ascii_units :: "rstr list \<Rightarrow> bool" where
  "mostly_ascii_units ws \<longleftrightarrow> ws \<noteq> [] \<and> length ws \<le> length (filter (list_all (\<lambda>c. c < 128)) ws) * 2"

fun windows :: "nat \<Rightarrow> 'a list \<Rightarrow> 'a list list" where
  "windows n [] = []"
| "windows n (x # xs) = (if n \<le> length (x # xs) then take n (x # xs) # windows n xs else [])"

definition contains_window :: "rstr list \<Rightarrow> rstr list \<Rightarrow> bool" where
  "contains_window haystack needle \<longleftrightarrow>
     \<not> (needle = [] \<or> length haystack < length needle) \<and> list_ex (\<lambda>w. w = needle) (windows (length needle) haystack)"

text \<open>The inner loop runs over the shorter list beside the previous row; \<open>best\<close> is threaded through.\<close>

fun window_row :: "rstr \<Rightarrow> rstr list \<Rightarrow> nat list \<Rightarrow> nat \<Rightarrow> nat list \<times> nat" where
  "window_row long_token (short_token # short) (p # prev) best =
     (let cell = if short_token = long_token then p + 1 else 0;
          best' = if short_token = long_token then max best cell else best
      in case window_row long_token short prev best' of (row, b) \<Rightarrow> (cell # row, b))"
| "window_row long_token short prev best = ([], best)"

fun window_rows :: "rstr list \<Rightarrow> rstr list \<Rightarrow> nat list \<Rightarrow> nat \<Rightarrow> nat" where
  "window_rows short [] prev best = best"
| "window_rows short (long_token # long) prev best =
     (case window_row long_token short prev best of (row, b) \<Rightarrow> window_rows short long (0 # row) b)"

definition longest_common_window_len :: "rstr list \<Rightarrow> rstr list \<Rightarrow> nat" where
  "longest_common_window_len left right =
     (if left = [] \<or> right = [] then 0
      else let (short, long) = if length left \<le> length right then (left, right) else (right, left)
           in window_rows short long (replicate (length short + 1) 0) 0)"

section \<open>Similar units\<close>

fun edit_row :: "'a \<Rightarrow> nat \<Rightarrow> nat list \<Rightarrow> 'a list \<Rightarrow> nat list" where
  "edit_row ca left (p0 # p1 # ps) (cb # bs) =
     (let cell = min (min (p0 + (if ca \<noteq> cb then 1 else 0)) (p1 + 1)) (left + 1)
      in cell # edit_row ca cell (p1 # ps) bs)"
| "edit_row ca left prev bs = []"

fun edit_rows :: "'a list \<Rightarrow> nat \<Rightarrow> nat list \<Rightarrow> 'a list \<Rightarrow> nat list" where
  "edit_rows b i prev [] = prev"
| "edit_rows b i prev (ca # a) = edit_rows b (i + 1) ((i + 1) # edit_row ca (i + 1) prev b) a"

definition edit_distance :: "'a list \<Rightarrow> 'a list \<Rightarrow> nat" where
  "edit_distance a b =
     (if a = [] then length b
      else if b = [] then length a
      else edit_rows b 0 [0 ..< length b + 1] a ! length b)"

definition units_text_similar :: "rstr \<Rightarrow> rstr \<Rightarrow> bool" where
  "units_text_similar left right \<longleftrightarrow>
     left \<noteq> right
     \<and> \<not> (length left < SEAM_SIMILAR_MIN_UNIT_CHARS \<or> length right < SEAM_SIMILAR_MIN_UNIT_CHARS)
     \<and> \<not> (list_all is_ascii_digit left \<and> list_all is_ascii_digit right)
     \<and> (if prefix right left \<or> prefix left right then True
        else let dist = edit_distance left right
             in dist \<le> 1 \<or> (dist \<le> 2 \<and> 4 \<le> min (length left) (length right)))"

section \<open>Words and text\<close>

definition skip_whitespace :: "rstr \<Rightarrow> nat \<Rightarrow> nat" where
  "skip_whitespace chars idx = idx + length (takeWhile is_ws (drop idx chars))"

fun leading_word_loop :: "rstr \<Rightarrow> nat \<Rightarrow> 't word_timestamp list \<Rightarrow> nat option" where
  "leading_word_loop chars idx [] = Some (skip_whitespace chars idx)"
| "leading_word_loop chars idx (w # ws) =
     (let idx' = skip_whitespace chars idx; token = trim (wt_word w)
      in if token = [] then leading_word_loop chars idx' ws
         else if length chars < idx' + length token \<or> take (length token) (drop idx' chars) \<noteq> token then None
         else leading_word_loop chars (idx' + length token) ws)"

definition leading_word_char_offset :: "rstr \<Rightarrow> 't word_timestamp list \<Rightarrow> nat \<Rightarrow> nat option" where
  "leading_word_char_offset chars ws first_keep = leading_word_loop chars 0 (take first_keep ws)"

fun split_index :: "rstr \<Rightarrow> 't word_timestamp list \<Rightarrow> nat \<Rightarrow> nat list \<Rightarrow> nat option" where
  "split_index chars ws char_index [] = Some (length ws)"
| "split_index chars ws char_index (index # rest) =
     (case leading_word_char_offset chars ws index of
        None \<Rightarrow> None
      | Some offset \<Rightarrow> if char_index \<le> offset then Some index else split_index chars ws char_index rest)"

definition split_words_at_char ::
  "rstr \<Rightarrow> 't word_timestamp list \<Rightarrow> nat \<Rightarrow> ('t word_timestamp list \<times> 't word_timestamp list) option" where
  "split_words_at_char s ws char_index =
     (if ws = [] then Some ([], [])
      else map_option (\<lambda>i. (take i ws, drop i ws)) (split_index s ws char_index [0 ..< length ws + 1]))"

section \<open>The overlap of two readings\<close>

definition accept_overlap_n ::
  "'t seam_arith \<Rightarrow> nat \<Rightarrow> nat \<Rightarrow> overlap_unit list \<Rightarrow> overlap_unit list \<Rightarrow> 't \<Rightarrow> bool \<Rightarrow> bool" where
  "accept_overlap_n sm n min_units overlap current_units time_overlap_seconds acoustic =
     (if list_all (\<lambda>u. is_numeric_unit (ou_token u)) overlap then False
      else if min_units \<le> n then True
      else if n = 1 \<and> sm_lt sm (sm_lit sm (1 / 1000)) time_overlap_seconds
          \<and> sm_le sm (sm_lit sm CJK_CHAR_SECONDS) (sm_add sm time_overlap_seconds (sm_lit sm (1 / 1000)))
          \<and> length overlap = 1 \<and> is_single_cjk_char (ou_token (overlap ! 0))
          \<and> \<not> (2 \<le> length current_units \<and> ou_token (current_units ! 0) = ou_token (current_units ! 1))
      then True
      else acoustic \<and> n = 1 \<and> \<not> is_single_cjk_char (ou_token (overlap ! 0)))"

fun overlap_search ::
  "'t seam_arith \<Rightarrow> overlap_unit list \<Rightarrow> overlap_unit list \<Rightarrow> nat \<Rightarrow> 't \<Rightarrow> bool \<Rightarrow> nat list \<Rightarrow> suffix_prefix_overlap option" where
  "overlap_search sm pus cus min_units time_overlap acoustic [] = None"
| "overlap_search sm pus cus min_units time_overlap acoustic (n # ns) =
     (let previous_suffix = drop (length pus - n) pus; current_prefix = take n cus
      in if map ou_token previous_suffix \<noteq> map ou_token current_prefix
            \<or> \<not> accept_overlap_n sm n min_units previous_suffix cus time_overlap acoustic
         then overlap_search sm pus cus min_units time_overlap acoustic ns
         else Some \<lparr>so_prev_start = ou_start (previous_suffix ! 0), so_prev_end = ou_end (previous_suffix ! (n - 1)),
                 so_curr_start = ou_start (current_prefix ! 0), so_curr_end = ou_end (current_prefix ! (n - 1)),
                 so_units = n, so_skip_curr_units = 0\<rparr>)"

text \<open>The first of the second and third unit of \<open>current\<close> that equals the previous tail; 0 if none does.\<close>

definition shifted_match :: "rstr \<Rightarrow> overlap_unit list \<Rightarrow> nat" where
  "shifted_match tail_token cus =
     (case filter (\<lambda>i. 1 \<le> i \<and> tail_token = ou_token (cus ! i)) [0 ..< length (take 3 cus)] of [] \<Rightarrow> 0 | i # _ \<Rightarrow> i)"

definition find_suffix_prefix_overlap ::
  "'t seam_arith \<Rightarrow> rstr \<Rightarrow> rstr \<Rightarrow> nat \<Rightarrow> 't \<Rightarrow> bool \<Rightarrow> suffix_prefix_overlap option" where
  "find_suffix_prefix_overlap sm previous current min_units time_overlap acoustic =
     (let pus = overlap_units previous; cus = overlap_units current
      in if pus = [] \<or> cus = [] then None
         else case overlap_search sm pus cus min_units time_overlap acoustic (rev [1 ..< min (length pus) (length cus) + 1]) of
                Some overlap \<Rightarrow> Some overlap
              | None \<Rightarrow>
                  if acoustic \<and> 2 \<le> length cus
                  then let previous_tail = last pus; skip = shifted_match (ou_token previous_tail) cus
                       in if 0 < skip \<and> \<not> is_numeric_unit (ou_token previous_tail) \<and> \<not> is_single_cjk_char (ou_token previous_tail)
                          then Some \<lparr>so_prev_start = ou_start previous_tail, so_prev_end = ou_end previous_tail,
                                 so_curr_start = ou_start (cus ! skip), so_curr_end = ou_end (cus ! skip),
                                 so_units = 1, so_skip_curr_units = skip\<rparr>
                          else None
                  else None)"

definition extend_consumed_current_end :: "rstr \<Rightarrow> nat \<Rightarrow> nat" where
  "extend_consumed_current_end current overlap_end =
     (if length current \<le> overlap_end then length current
      else let e = skip_whitespace current overlap_end
           in e + length (takeWhile is_seam_punctuation (drop e current)))"

definition previous_trailing_punct :: "rstr \<Rightarrow> nat \<Rightarrow> rstr" where
  "previous_trailing_punct previous prev_end =
     takeWhile is_seam_punctuation (drop (skip_whitespace previous prev_end) previous)"

definition speakers_conflict :: "'t segment \<Rightarrow> 't segment \<Rightarrow> bool" where
  "speakers_conflict previous current =
     (case (sg_speaker previous, sg_speaker current) of (Some l, Some r) \<Rightarrow> l \<noteq> r | _ \<Rightarrow> False)"

definition rule_gated_head_reread_candidate :: "'t segment \<Rightarrow> 't segment \<Rightarrow> bool" where
  "rule_gated_head_reread_candidate previous current =
     (case overlap_units (sg_text previous) of
        [] \<Rightarrow> False
      | pus \<Rightarrow> list_ex (\<lambda>u. ou_token u = ou_token (last pus) \<and> \<not> is_numeric_unit (ou_token (last pus)))
                 (take 3 (overlap_units (sg_text current))))"

section \<open>The stitch\<close>

type_synonym 't word_split = "('t word_timestamp list \<times> 't word_timestamp list) option"

definition last_matched :: "'t word_split \<Rightarrow> 't word_timestamp option" where
  "last_matched previous_words =
     (case previous_words of Some (_, matched) \<Rightarrow> if matched = [] then None else Some (last matched) | None \<Rightarrow> None)"

definition cap_pinned :: "'t seam_arith \<Rightarrow> 't option \<Rightarrow> 't word_timestamp \<Rightarrow> bool" where
  "cap_pinned sm max_span w =
     (case max_span of
        None \<Rightarrow> False
      | Some limit \<Rightarrow> sm_le sm (sm_sub sm limit (sm_lit sm (5 / 100))) (sm_sub sm (wt_end w) (wt_start w)))"

definition fragments_committed :: "'t seam_arith \<Rightarrow> 't \<Rightarrow> nat \<Rightarrow> 't word_split \<Rightarrow> bool" where
  "fragments_committed sm previous_end skip current_words =
     (case current_words of
        None \<Rightarrow> False
      | Some (matched, _) \<Rightarrow> matched \<noteq> []
          \<and> list_all (\<lambda>w. sm_lt sm (sm_mul sm (sm_lit sm (1 / 2)) (sm_add sm (wt_start w) (wt_end w))) previous_end) (take skip matched))"

text \<open>The acoustic vet: \<open>None\<close> returns \<open>false\<close> from the stitch, otherwise the value of \<open>acoustic_vet_passed\<close>.\<close>

definition acoustic_vet ::
  "'t seam_arith \<Rightarrow> 't segment \<Rightarrow> suffix_prefix_overlap \<Rightarrow> 't \<Rightarrow> 't option \<Rightarrow> 't word_split \<Rightarrow> 't word_split \<Rightarrow> bool option" where
  "acoustic_vet sm previous overlap max_regap max_span previous_words current_words =
     (let skip = so_skip_curr_units overlap
      in case (last_matched previous_words,
               case current_words of Some (matched, _) \<Rightarrow> if skip < length matched then Some (matched ! skip) else None | None \<Rightarrow> None) of
           (Some prev_match_last, Some curr_match_first) \<Rightarrow>
             (let regap_seconds = sm_sub sm (wt_start curr_match_first) (wt_end prev_match_last)
              in if sm_lt sm max_regap regap_seconds then None
                 else if sm_lt sm (sm_lit sm SEGMENT_STITCH_REHOME_MAX_RESTART_GAP_SECONDS) regap_seconds then None
                 else if cap_pinned sm max_span prev_match_last then None
                 else if sm_lt sm (sm_lit sm SEGMENT_STITCH_REREAD_MAX_PAST_PREV_END_SECONDS)
                           (sm_sub sm (wt_start curr_match_first) (sg_end previous)) then None
                 else if so_units overlap = 1 \<and> sm_lt sm (sm_lit sm SEGMENT_STITCH_SEAM_CLAMP_TOLERANCE_SECONDS)
                           (sm_sub sm (sg_end previous) (wt_end prev_match_last)) then None
                 else if 0 < skip \<and> \<not> fragments_committed sm (sg_end previous) skip current_words then None
                 else Some True)
         | _ \<Rightarrow> Some False)"

definition rehome_flags ::
  "'t seam_arith \<Rightarrow> 't option \<Rightarrow> 't word_timestamp list \<Rightarrow> 't word_timestamp list \<Rightarrow> 't word_timestamp list \<Rightarrow> bool list" where
  "rehome_flags sm max_span matched_prev matched_curr leftover =
     map (\<lambda>(index, prev_word, curr_word).
         let next_start = (if index + 1 < length matched_prev then Some (wt_start (matched_prev ! (index + 1)))
                           else if leftover = [] then None else Some (wt_start (hd leftover)))
         in sm_lt sm (wt_end prev_word) (wt_start curr_word)
            \<and> sm_le sm (sm_sub sm (wt_start curr_word) (wt_end prev_word)) (sm_lit sm SEGMENT_STITCH_REHOME_MAX_RESTART_GAP_SECONDS)
            \<and> (case next_start of None \<Rightarrow> True
               | Some s \<Rightarrow> sm_le sm (sm_sub sm (wt_start curr_word) s) (sm_lit sm SEGMENT_STITCH_SEAM_CLAMP_TOLERANCE_SECONDS))
            \<and> \<not> cap_pinned sm max_span prev_word)
       (zip [0 ..< length matched_prev] (zip matched_prev matched_curr))"

fun rehome_words :: "'t word_timestamp list \<Rightarrow> 't word_timestamp list \<Rightarrow> bool list \<Rightarrow> 't word_timestamp list" where
  "rehome_words (p # ps) (c # cs) (f # fs) =
     (if f then p\<lparr>wt_start := wt_start c, wt_end := wt_end c\<rparr> else p) # rehome_words ps cs fs"
| "rehome_words ps cs fs = ps"

definition rehomed :: "'t seam_arith \<Rightarrow> 't segment \<Rightarrow> suffix_prefix_overlap \<Rightarrow> bool \<Rightarrow> 't option \<Rightarrow> 't word_split \<Rightarrow> 't word_split
    \<Rightarrow> 't word_timestamp list" where
  "rehomed sm previous overlap approximate max_span previous_words current_words =
     (let clamp = sm_lit sm SEGMENT_STITCH_SEAM_CLAMP_TOLERANCE_SECONDS;
          prev_side_clamped = (case last_matched previous_words of None \<Rightarrow> False
            | Some w \<Rightarrow> sm_le sm (sm_sub sm (sg_end previous) (wt_end w)) clamp);
          curr_side_past_cut = (case current_words of Some (matched, _) \<Rightarrow> matched \<noteq> []
              \<and> sm_lt sm clamp (sm_sub sm (wt_end (last matched)) (sg_end previous)) | None \<Rightarrow> False)
      in case (previous_words, current_words) of
           (Some (prefix_words, matched_prev), Some (matched_curr, leftover)) \<Rightarrow>
             if \<not> approximate \<and> prev_side_clamped \<and> curr_side_past_cut
             then let copies = drop (so_skip_curr_units overlap) matched_curr
                  in prefix_words @ rehome_words matched_prev copies (rehome_flags sm max_span matched_prev copies leftover)
             else sg_words previous
         | _ \<Rightarrow> sg_words previous)"

definition apply_suffix_prefix_stitch ::
  "'t seam_arith \<Rightarrow> nat \<Rightarrow> 't \<Rightarrow> 't \<Rightarrow> bool \<Rightarrow> 't option \<Rightarrow> 't segment \<Rightarrow> 't segment \<Rightarrow> bool \<times> 't segment \<times> 't segment" where
  "apply_suffix_prefix_stitch sm min_units time_overlap max_regap approximate max_span previous current =
     (case find_suffix_prefix_overlap sm (sg_text previous) (sg_text current) min_units time_overlap (\<not> approximate) of
        None \<Rightarrow> (False, previous, current)
      | Some overlap \<Rightarrow>
          let consume_end = extend_consumed_current_end (sg_text current) (so_curr_end overlap);
              prev_prefix = char_prefix (sg_text previous) (so_prev_start overlap);
              consumed = trim (drop (so_curr_start overlap) (take consume_end (sg_text current)));
              remainder = trim (char_suffix (sg_text current) consume_end);
              previous_words = split_words_at_char (sg_text previous) (sg_words previous) (so_prev_start overlap);
              current_words = split_words_at_char (sg_text current) (sg_words current) consume_end;
              unit_token = take (so_curr_end overlap - so_curr_start overlap) (drop (so_curr_start overlap) (sg_text current));
              non_cjk_single_unit = so_units overlap = 1 \<and> \<not> is_single_cjk_char unit_token
          in case if approximate then Some True
                  else acoustic_vet sm previous overlap max_regap max_span previous_words current_words of
               None \<Rightarrow> (False, previous, current)
             | Some acoustic_vet_passed \<Rightarrow>
                 if non_cjk_single_unit \<and> \<not> acoustic_vet_passed then (False, previous, current)
                 else let leftover_words = (case current_words of Some (_, leftover) \<Rightarrow> leftover | None \<Rightarrow> []);
                          current' = current\<lparr>sg_text := remainder, sg_words := leftover_words\<rparr>
                      in if speakers_conflict previous current then (True, previous, current')
                         else let completed = prev_prefix @ consumed;
                                  consumed_ends_punct = consumed \<noteq> [] \<and> is_seam_punctuation (last consumed);
                                  strip_trailing_punct = (consume_end = so_curr_end overlap \<and> remainder \<noteq> []) \<or> consumed_ends_punct;
                                  trailing = previous_trailing_punct (sg_text previous) (so_prev_end overlap);
                                  completed' = if \<not> strip_trailing_punct \<and> trailing \<noteq> [] \<and> \<not> suffix trailing completed
                                               then completed @ trailing else completed
                              in (True, previous\<lparr>sg_text := completed',
                                           sg_words := rehomed sm previous overlap approximate max_span previous_words current_words\<rparr>,
                                  current'))"

definition try_drop_redundant_segment :: "'t seam_arith \<Rightarrow> 't segment_merge_policy \<Rightarrow> 't segment list \<Rightarrow> 't segment \<Rightarrow> bool" where
  "try_drop_redundant_segment sm policy segments current =
     (if segments = [] then False
      else let previous = last segments
           in if sm_lt sm (sg_start current) (sg_end previous) then False
              else if sm_lt sm (mp_max_gap_seconds policy) (sm_sub sm (sg_start current) (sg_end previous)) then False
              else let previous_words = normalize_words (sg_text previous); current_words = normalize_words (sg_text current)
                   in if previous_words = [] \<or> current_words = [] then False
                      else if previous_words = current_words then True
                      else if mp_redundant_min_words policy \<le> length current_words \<and> contains_window previous_words current_words then True
                      else if \<not> mostly_ascii_units previous_words \<or> \<not> mostly_ascii_units current_words then False
                      else let overlap = longest_common_window_len previous_words current_words;
                               min_len = min (length previous_words) (length current_words)
                           in mp_redundant_min_words policy \<le> min_len
                              \<and> sm_le sm (mp_redundant_overlap_ratio policy) (sm_ratio sm overlap min_len))"

section \<open>Units and positions\<close>

definition seam_tokens :: "rstr \<Rightarrow> rstr list" where
  "seam_tokens s = map ou_token (overlap_units s)"

text \<open>Two texts that stay two when they are put together: no word runs across.\<close>

definition apart :: "rstr \<Rightarrow> rstr \<Rightarrow> bool" where
  "apart a b \<longleftrightarrow> a = [] \<or> b = [] \<or> \<not> is_ascii_word_char (last a) \<or> \<not> is_ascii_word_char (hd b)"

definition is_blank :: "nat \<Rightarrow> bool" where
  "is_blank c \<longleftrightarrow> is_ws c \<or> is_seam_punctuation c"

definition unit_text :: "rstr \<Rightarrow> bool" where
  "unit_text q \<longleftrightarrow> q \<noteq> [] \<and> (list_all is_ascii_word_char q \<or> (\<exists>c. q = [c] \<and> \<not> is_blank c \<and> \<not> is_ascii_word_char c))"

lemma word_char_not_blank [simp]: "is_ascii_word_char c \<Longrightarrow> \<not> is_blank c"
  by (auto simp: is_ascii_word_char_def is_ascii_alphanumeric_def is_ascii_digit_def is_blank_def is_ws_def is_seam_punctuation_def)

declare overlap_units_from.simps(2) [simp del]

lemma units_blank: "is_blank c \<Longrightarrow> overlap_units_from i (c # cs) = overlap_units_from (i + 1) cs"
  by (simp add: overlap_units_from.simps(2) is_blank_def)

lemma units_word: "is_ascii_word_char c \<Longrightarrow> overlap_units_from i (c # cs)
    = \<lparr>ou_token = to_ascii_lowercase (c # takeWhile is_ascii_word_char cs), ou_start = i,
       ou_end = i + Suc (length (takeWhile is_ascii_word_char cs))\<rparr>
      # overlap_units_from (i + Suc (length (takeWhile is_ascii_word_char cs))) (dropWhile is_ascii_word_char cs)"
  using word_char_not_blank [of c] by (simp add: overlap_units_from.simps(2) is_blank_def Let_def)

lemma units_other: "\<not> is_blank c \<Longrightarrow> \<not> is_ascii_word_char c \<Longrightarrow> overlap_units_from i (c # cs)
    = \<lparr>ou_token = [c], ou_start = i, ou_end = i + 1\<rparr> # overlap_units_from (i + 1) cs"
  by (simp add: overlap_units_from.simps(2) is_blank_def)

lemma unit_cases [case_names Nil blank word other]:
  obtains "s = []" | c cs where "s = c # cs" "is_blank c" | c cs where "s = c # cs" "is_ascii_word_char c"
    | c cs where "s = c # cs" "\<not> is_blank c" "\<not> is_ascii_word_char c"
  by (cases s) blast+

lemma tokens_from_index: "map ou_token (overlap_units_from i s) = seam_tokens s"
proof -
  have "map ou_token (overlap_units_from i s) = map ou_token (overlap_units_from j s)" for j
  proof (induction "length s" arbitrary: i j s rule: less_induct)
    case less
    show ?case
    proof (cases s rule: unit_cases)
      case (word c cs)
      then show ?thesis using less length_dropWhile_le [of is_ascii_word_char cs] by (simp add: units_word)
    qed (use less in \<open>simp_all add: units_blank units_other\<close>)
  qed
  then show ?thesis by (simp add: seam_tokens_def overlap_units_def)
qed

lemma seam_tokens_Nil [simp]: "seam_tokens [] = []"
  by (simp add: seam_tokens_def overlap_units_def)

lemma seam_tokens_blank [simp]: "is_blank c \<Longrightarrow> seam_tokens (c # cs) = seam_tokens cs"
  using tokens_from_index [of 1 cs] by (simp add: seam_tokens_def [of "c # cs"] overlap_units_def units_blank)

lemma seam_tokens_word: "is_ascii_word_char c \<Longrightarrow> seam_tokens (c # cs)
    = to_ascii_lowercase (c # takeWhile is_ascii_word_char cs) # seam_tokens (dropWhile is_ascii_word_char cs)"
  by (simp add: seam_tokens_def [of "c # cs"] overlap_units_def units_word tokens_from_index)

lemma seam_tokens_other: "\<not> is_blank c \<Longrightarrow> \<not> is_ascii_word_char c \<Longrightarrow> seam_tokens (c # cs) = [c] # seam_tokens cs"
  by (simp add: seam_tokens_def [of "c # cs"] overlap_units_def units_other tokens_from_index)

lemma seam_tokens_append: "apart a b \<Longrightarrow> seam_tokens (a @ b) = seam_tokens a @ seam_tokens b"
proof (induction "length a" arbitrary: a rule: less_induct)
  case less
  show ?case
  proof (cases a)
    case (Cons c cs)
    have tail: "apart a' b" if "suffix a' a" for a'
      using less.prems that by (auto simp: apart_def suffix_def)
    consider "is_blank c" | "is_ascii_word_char c" | "\<not> is_blank c" "\<not> is_ascii_word_char c" by blast
    then show ?thesis
    proof cases
      case 1
      then show ?thesis using less.hyps [of cs] tail [of cs] Cons by (simp add: suffix_Cons)
    next
      case 2
      let ?r = "dropWhile is_ascii_word_char cs"
      show ?thesis
      proof (cases "?r = []")
        case True
        then have all: "\<forall>x \<in> set a. is_ascii_word_char x" using 2 Cons by (simp add: dropWhile_eq_Nil_conv)
        then have "is_ascii_word_char (last a)" using Cons by (metis last_in_set list.distinct(1))
        then have "takeWhile is_ascii_word_char b = []" "dropWhile is_ascii_word_char b = b"
          using less.prems Cons by (cases b; auto simp: apart_def)+
        moreover have tw: "takeWhile is_ascii_word_char cs = cs" using all Cons by (simp add: takeWhile_eq_all_conv)
        moreover have "\<forall>x \<in> set cs. is_ascii_word_char x" using all Cons by simp
        ultimately show ?thesis unfolding Cons
          using 2 by (simp add: seam_tokens_word takeWhile_append dropWhile_append tw [unfolded takeWhile_eq_all_conv] tw True)
      next
        case False
        have "length ?r \<le> length cs" by (rule length_dropWhile_le)
        moreover have "suffix ?r a" using Cons by (metis suffix_Cons suffix_dropWhile)
        ultimately have "seam_tokens (?r @ b) = seam_tokens ?r @ seam_tokens b" using less.hyps [of ?r] tail Cons by simp
        moreover have "\<not> (\<forall>x \<in> set cs. is_ascii_word_char x)" using False by (simp add: dropWhile_eq_Nil_conv)
        ultimately show ?thesis using 2 Cons by (auto simp: seam_tokens_word takeWhile_append dropWhile_append)
      qed
    next
      case 3
      then show ?thesis using less.hyps [of cs] tail [of cs] Cons by (simp add: suffix_Cons seam_tokens_other)
    qed
  qed simp
qed

lemma seam_tokens_blanks: "list_all is_blank w \<Longrightarrow> seam_tokens (w @ s) = seam_tokens s"
  by (induction w) auto

lemma seam_tokens_blanks_right:
  assumes "list_all is_blank w"
  shows "seam_tokens (s @ w) = seam_tokens s"
proof -
  have "apart s w" using assms word_char_not_blank by (cases w) (auto simp: apart_def)
  then show ?thesis using seam_tokens_append seam_tokens_blanks [OF assms, of "[]"] by simp
qed

lemma dropWhile_split: "s = takeWhile P s @ dropWhile P s" "list_all P (takeWhile P s)"
  by (simp_all add: list_all_iff) (meson set_takeWhileD)

lemma seam_tokens_trim [simp]: "seam_tokens (trim s) = seam_tokens s"
proof -
  have left: "seam_tokens (dropWhile is_ws s) = seam_tokens s" for s
  proof -
    have "list_all is_blank (takeWhile is_ws s)" by (auto simp: list_all_iff is_blank_def dest: set_takeWhileD)
    then show ?thesis using seam_tokens_blanks [of "takeWhile is_ws s" "dropWhile is_ws s"] by simp
  qed
  have "seam_tokens (trim_end_matches is_ws s) = seam_tokens s" for s
  proof -
    have "list_all is_blank (rev (takeWhile is_ws (rev s)))" by (auto simp: list_all_iff is_blank_def dest: set_takeWhileD)
    moreover have "s = rev (dropWhile is_ws (rev s)) @ rev (takeWhile is_ws (rev s))"
      by (metis rev_append rev_rev_ident takeWhile_dropWhile_id)
    ultimately show ?thesis using seam_tokens_blanks_right by (metis trim_end_matches_def)
  qed
  then show ?thesis using left by (simp add: trim_def)
qed

text \<open>Where a unit stands: the text before it, its own text, and the text after it.\<close>

definition unit_at :: "nat \<Rightarrow> rstr \<Rightarrow> overlap_unit list \<Rightarrow> overlap_unit \<Rightarrow> overlap_unit list \<Rightarrow> rstr \<Rightarrow> rstr \<Rightarrow> rstr \<Rightarrow> bool" where
  "unit_at i s us1 u us2 p q r \<longleftrightarrow> s = p @ q @ r \<and> ou_start u = i + length p \<and> ou_end u = i + length p + length q
     \<and> seam_tokens p = map ou_token us1 \<and> seam_tokens r = map ou_token us2
     \<and> ou_token u = to_ascii_lowercase q \<and> unit_text q \<and> apart p q \<and> apart q r"

lemma unit_atD:
  assumes "unit_at i s us1 u us2 p q r"
  shows "s = p @ q @ r" "ou_start u = i + length p" "ou_end u = i + length p + length q" "seam_tokens p = map ou_token us1"
    "seam_tokens r = map ou_token us2" "ou_token u = to_ascii_lowercase q" "unit_text q" "apart p q" "apart q r"
  using assms by (simp_all add: unit_at_def)

lemma unit_at_Cons:
  assumes "unit_at (i + length h) s us1 u us2 p q r" and "apart h p" "p = [] \<longrightarrow> apart h q" "seam_tokens h = map ou_token hs"
  shows "unit_at i (h @ s) (hs @ us1) u us2 (h @ p) q r"
  using assms seam_tokens_append [OF assms(2)] by (cases "p = []") (auto simp: unit_at_def apart_def)

lemma unit_position:
  "overlap_units_from i s = us1 @ u # us2 \<Longrightarrow> \<exists>p q r. unit_at i s us1 u us2 p q r"
proof (induction "length s" arbitrary: i s us1 rule: less_induct)
  case less
  show ?case
  proof (cases s rule: unit_cases)
    case (blank c cs)
    then obtain p q r where at: "unit_at (i + 1) cs us1 u us2 p q r" using less by (fastforce simp: units_blank)
    have "unit_at i ([c] @ cs) ([] @ us1) u us2 ([c] @ p) q r"
      by (rule unit_at_Cons) (use at blank word_char_not_blank in \<open>auto simp: apart_def\<close>)
    then show ?thesis using blank by auto
  next
    case (word c cs)
    let ?q = "c # takeWhile is_ascii_word_char cs" let ?r = "dropWhile is_ascii_word_char cs"
    have split: "s = ?q @ ?r" using word by simp
    have q: "list_all is_ascii_word_char ?q" using word by (auto simp: list_all_iff dest: set_takeWhileD)
    have apart: "apart ?q x" if "prefix x ?r" for x
      using that hd_dropWhile [of is_ascii_word_char cs] by (cases x; cases ?r) (auto simp: apart_def)
    show ?thesis
    proof (cases us1)
      case Nil
      then have "unit_at i s us1 u us2 [] ?q ?r"
        using less.prems word q apart [of ?r] split
        by (auto simp: units_word unit_at_def unit_text_def tokens_from_index apart_def)
      then show ?thesis by blast
    next
      case (Cons u1 us1')
      then have rest: "overlap_units_from (i + length ?q) ?r = us1' @ u # us2" and u1: "ou_token u1 = to_ascii_lowercase ?q"
        using less.prems word by (auto simp: units_word)
      have "length ?r < length s" using word length_dropWhile_le [of is_ascii_word_char cs] by simp
      then obtain p q' r where at: "unit_at (i + length ?q) ?r us1' u us2 p q' r" using less.hyps rest by blast
      then have pr: "prefix p ?r" "p = [] \<longrightarrow> prefix q' ?r" by (auto simp: unit_at_def)
      have dw: "dropWhile is_ascii_word_char (takeWhile is_ascii_word_char cs) = []" by (auto simp: dropWhile_eq_Nil_conv dest: set_takeWhileD)
      have tq: "seam_tokens ?q = map ou_token [u1]" unfolding seam_tokens_word [OF word(2)] dw by (simp add: u1)
      have "unit_at i (?q @ ?r) ([u1] @ us1') u us2 (?q @ p) q' r"
        by (rule unit_at_Cons [OF at]) (use pr tq apart in auto)
      then show ?thesis using Cons split by (metis append_Cons append_Nil)
    qed
  next
    case (other c cs)
    show ?thesis
    proof (cases us1)
      case Nil
      then have "unit_at i s us1 u us2 [] [c] cs"
        using less.prems other by (auto simp: units_other unit_at_def unit_text_def tokens_from_index apart_def to_ascii_lowercase_def
          is_ascii_word_char_def is_ascii_alphanumeric_def)
      then show ?thesis by blast
    next
      case (Cons u1 us1')
      then have rest: "overlap_units_from (i + 1) cs = us1' @ u # us2" and u1: "ou_token u1 = [c]"
        using less.prems other by (auto simp: units_other)
      then obtain p q r where at: "unit_at (i + 1) cs us1' u us2 p q r" using less.hyps other by fastforce
      have "unit_at i ([c] @ cs) ([u1] @ us1') u us2 ([c] @ p) q r"
        by (rule unit_at_Cons) (use at other u1 seam_tokens_other [of c "[]"] in \<open>auto simp: apart_def\<close>)
      then show ?thesis using Cons other by auto
    qed
  qed (use less in simp)
qed

section \<open>What the search finds\<close>

text \<open>
  An overlap names \<open>n\<close> units that end \<open>previous\<close> and stand in \<open>current\<close> after \<open>skip\<close> units, with the
  positions of both copies.
\<close>

definition overlap_ok :: "bool \<Rightarrow> rstr \<Rightarrow> rstr \<Rightarrow> suffix_prefix_overlap \<Rightarrow> bool" where
  "overlap_ok acoustic previous current ov \<longleftrightarrow>
     (let pus = overlap_units previous; cus = overlap_units current; n = so_units ov; skip = so_skip_curr_units ov
      in 0 < n \<and> n \<le> length pus \<and> skip + n \<le> length cus
         \<and> drop (length pus - n) (map ou_token pus) = take n (drop skip (map ou_token cus))
         \<and> skip \<le> 2 \<and> (0 < skip \<longrightarrow> acoustic \<and> n = 1)
         \<and> so_prev_start ov = ou_start (pus ! (length pus - n)) \<and> so_prev_end ov = ou_end (last pus)
         \<and> so_curr_start ov = ou_start (cus ! skip) \<and> so_curr_end ov = ou_end (cus ! (skip + n - 1)))"

lemma overlap_search_ok:
  assumes "overlap_search sm pus cus min_units t acoustic ns = Some ov" "\<forall>n \<in> set ns. 0 < n \<and> n \<le> length pus \<and> n \<le> length cus"
  shows "\<exists>n. 0 < n \<and> n \<le> length pus \<and> n \<le> length cus \<and> map ou_token (drop (length pus - n) pus) = map ou_token (take n cus)
    \<and> ov = \<lparr>so_prev_start = ou_start (pus ! (length pus - n)), so_prev_end = ou_end (last pus),
         so_curr_start = ou_start (cus ! 0), so_curr_end = ou_end (cus ! (n - 1)), so_units = n, so_skip_curr_units = 0\<rparr>"
  using assms
proof (induction ns)
  case (Cons n ns)
  show ?case
  proof (cases "map ou_token (drop (length pus - n) pus) \<noteq> map ou_token (take n cus)
      \<or> \<not> accept_overlap_n sm n min_units (drop (length pus - n) pus) cus t acoustic")
    case True
    then show ?thesis using Cons by (auto simp: Let_def)
  next
    case False
    have n: "0 < n" "n \<le> length pus" "n \<le> length cus" using Cons.prems by auto
    then have "drop (length pus - n) pus ! (n - 1) = last pus" by (cases pus) (auto simp: last_conv_nth)
    then show ?thesis using Cons.prems(1) False n by (auto simp: Let_def intro!: exI [of _ n])
  qed
qed simp

lemma shifted_match_pos:
  assumes "0 < shifted_match t cus"
  shows "shifted_match t cus < length cus \<and> shifted_match t cus \<le> 2 \<and> t = ou_token (cus ! shifted_match t cus)"
proof (cases "filter (\<lambda>i. 1 \<le> i \<and> t = ou_token (cus ! i)) [0 ..< length (take 3 cus)]")
  case (Cons i rest)
  then have "i \<in> set (filter (\<lambda>i. 1 \<le> i \<and> t = ou_token (cus ! i)) [0 ..< length (take 3 cus)])" by simp
  moreover have "shifted_match t cus = i" unfolding shifted_match_def Cons by simp
  ultimately show ?thesis by auto
qed (use assms in \<open>simp add: shifted_match_def\<close>)

lemma find_overlap_ok:
  assumes "find_suffix_prefix_overlap sm previous current min_units t acoustic = Some ov"
  shows "overlap_ok acoustic previous current ov"
proof -
  let ?pus = "overlap_units previous" let ?cus = "overlap_units current"
  let ?ns = "rev [1 ..< min (length ?pus) (length ?cus) + 1]"
  have ne: "?pus \<noteq> []" "?cus \<noteq> []" using assms by (auto simp: find_suffix_prefix_overlap_def Let_def split: if_splits)
  show ?thesis
  proof (cases "overlap_search sm ?pus ?cus min_units t acoustic ?ns")
    case (Some ov')
    then have "ov = ov'" using assms ne by (simp add: find_suffix_prefix_overlap_def Let_def)
    moreover obtain n where "0 < n" "n \<le> length ?pus" "n \<le> length ?cus" "map ou_token (drop (length ?pus - n) ?pus) = map ou_token (take n ?cus)"
      "ov' = \<lparr>so_prev_start = ou_start (?pus ! (length ?pus - n)), so_prev_end = ou_end (last ?pus),
         so_curr_start = ou_start (?cus ! 0), so_curr_end = ou_end (?cus ! (n - 1)), so_units = n, so_skip_curr_units = 0\<rparr>"
    proof -
      have "\<forall>n \<in> set ?ns. 0 < n \<and> n \<le> length ?pus \<and> n \<le> length ?cus" by (auto simp del: upt_Suc)
      then show thesis using overlap_search_ok [OF Some] that by blast
    qed
    ultimately show ?thesis by (simp add: overlap_ok_def Let_def drop_map take_map)
  next
    case None
    let ?skip = "shifted_match (ou_token (last ?pus)) ?cus"
    have ov: "acoustic" "0 < ?skip" "ov = \<lparr>so_prev_start = ou_start (last ?pus), so_prev_end = ou_end (last ?pus),
        so_curr_start = ou_start (?cus ! ?skip), so_curr_end = ou_end (?cus ! ?skip), so_units = 1, so_skip_curr_units = ?skip\<rparr>"
      using assms ne None by (auto simp: find_suffix_prefix_overlap_def Let_def split: if_splits)
    have skip: "?skip < length ?cus" "?skip \<le> 2" "ou_token (last ?pus) = ou_token (?cus ! ?skip)"
      using shifted_match_pos [OF ov(2)] by auto
    have tail: "?pus ! (length ?pus - 1) = last ?pus" using ne(1) by (simp add: last_conv_nth)
    have "drop (length ?pus - 1) ?pus = [last ?pus]" using ne(1) by (metis append_butlast_last_id append_eq_conv_conj length_butlast)
    then have one: "drop (length ?pus - 1) (map ou_token ?pus) = [ou_token (last ?pus)]" by (simp add: drop_map)
    have two: "take 1 (drop ?skip (map ou_token ?cus)) = [ou_token (last ?pus)]" using skip(1,3) by (simp add: take_Suc hd_drop_conv_nth drop_eq_Nil2)
    have "0 < length ?pus" using ne(1) by simp
    then show ?thesis using ov(1,2) skip(1,2) one two tail unfolding ov(3) overlap_ok_def by (simp add: Let_def Suc_le_eq)
  qed
qed

lemma lower_hd_word: "q \<noteq> [] \<Longrightarrow> is_ascii_word_char (hd (to_ascii_lowercase q)) \<longleftrightarrow> is_ascii_word_char (hd q)"
  by (cases q) (auto simp: to_ascii_lowercase_def is_ascii_word_char_def is_ascii_alphanumeric_def is_ascii_digit_def)

lemma units_sorted:
  "sorted_wrt (\<lambda>u v. ou_end u \<le> ou_start v) (overlap_units_from i s) \<and> (\<forall>u \<in> set (overlap_units_from i s). i \<le> ou_start u \<and> ou_start u < ou_end u)"
proof (induction "length s" arbitrary: i s rule: less_induct)
  case less
  show ?case
  proof (cases s rule: unit_cases)
    case (blank c cs)
    then show ?thesis using less [of cs "i + 1"] by (fastforce simp: units_blank)
  next
    case (word c cs)
    have "length (dropWhile is_ascii_word_char cs) < length s" using word length_dropWhile_le [of is_ascii_word_char cs] by simp
    from less [OF this, of "i + Suc (length (takeWhile is_ascii_word_char cs))"] show ?thesis using word by (fastforce simp: units_word)
  next
    case (other c cs)
    then show ?thesis using less [of cs "i + 1"] by (fastforce simp: units_other)
  qed simp
qed

lemma unit_position_nth:
  assumes "k < length (overlap_units s)"
  obtains p q r where "unit_at 0 s (take k (overlap_units s)) (overlap_units s ! k) (drop (Suc k) (overlap_units s)) p q r"
  using unit_position [of 0 s "take k (overlap_units s)"] id_take_nth_drop [OF assms] unfolding overlap_units_def by blast

section \<open>The texts after a stitch\<close>

lemma trim_hd: "\<not> is_ws c \<Longrightarrow> \<exists>cs'. trim (c # cs) = c # cs'"
  by (cases "\<forall>x \<in> set (rev cs). is_ws x")
    (auto simp: trim_def trim_end_matches_def dropWhile_append intro: exI [of _ "rev (dropWhile is_ws (rev cs))"])

lemma extend_consumed_split:
  assumes "current = a @ r"
  shows "\<exists>w r'. r = w @ r' \<and> extend_consumed_current_end current (length a) = length (a @ w) \<and> list_all is_blank w"
proof (cases "r = []")
  case True
  then show ?thesis using assms by (auto simp: extend_consumed_current_end_def)
next
  case False
  let ?w = "takeWhile is_ws r @ takeWhile is_seam_punctuation (dropWhile is_ws r)"
  have e: "skip_whitespace current (length a) = length a + length (takeWhile is_ws r)" using assms by (simp add: skip_whitespace_def)
  have d: "drop (length (takeWhile is_ws r)) r = dropWhile is_ws r" by (metis dropWhile_eq_drop)
  have "extend_consumed_current_end current (length a) = length (a @ ?w)"
    using False unfolding extend_consumed_current_end_def Let_def e by (simp add: assms d)
  moreover have "r = ?w @ dropWhile is_seam_punctuation (dropWhile is_ws r)" by simp
  moreover have "list_all is_blank ?w" by (auto simp: list_all_iff is_blank_def dest!: set_takeWhileD)
  ultimately show ?thesis by blast
qed

lemma apart_prefix: "apart a b \<Longrightarrow> b \<noteq> [] \<Longrightarrow> apart a (b @ c)"
  by (simp add: apart_def)

lemma unit_text_hd: "unit_text q \<Longrightarrow> q \<noteq> [] \<and> \<not> is_ws (hd q)"
  using word_char_not_blank by (cases q) (auto simp: unit_text_def is_blank_def)

text \<open>The two ends of a run of units: \<open>m\<close> is the text from the first to the last unit of the run.\<close>

lemma unit_run:
  assumes "0 < n" "k + n \<le> length (overlap_units s)"
  shows "\<exists>p m r q. s = p @ m @ r \<and> ou_start (overlap_units s ! k) = length p \<and> ou_end (overlap_units s ! (k + n - 1)) = length (p @ m)
    \<and> seam_tokens r = drop (k + n) (seam_tokens s) \<and> seam_tokens m = take n (drop k (seam_tokens s))
    \<and> to_ascii_lowercase q = seam_tokens s ! k \<and> q \<noteq> [] \<and> m \<noteq> [] \<and> hd m = hd q \<and> \<not> is_ws (hd q)"
proof -
  let ?us = "overlap_units s"
  have kn: "k < length ?us" "k + n - 1 < length ?us" using assms by auto
  obtain pc qc rc where c: "unit_at 0 s (take k ?us) (?us ! k) (drop (Suc k) ?us) pc qc rc" using unit_position_nth [OF kn(1)] .
  obtain pl ql rl where l: "unit_at 0 s (take (k + n - 1) ?us) (?us ! (k + n - 1)) (drop (Suc (k + n - 1)) ?us) pl ql rl"
    using unit_position_nth [OF kn(2)] .
  note c = unit_atD [OF c] note l = unit_atD [OF l]
  have "length pc \<le> length pl"
  proof (cases "n = 1")
    case False
    have "sorted_wrt (\<lambda>u v. ou_end u \<le> ou_start v) ?us" using units_sorted [of 0 s] by (simp add: overlap_units_def)
    from sorted_wrt_nth_less [OF this, of k "k + n - 1"] show ?thesis using assms False c(2,3) l(2) by linarith
  qed (use c(2) l(2) in simp)
  then obtain x where x: "pl = pc @ x" using c(1) l(1) by (metis append_eq_append_conv_if append_take_drop_id)
  have mid: "qc @ rc = (x @ ql) @ rl" using c(1) l(1) x by simp
  have ne: "qc \<noteq> []" "ql \<noteq> []" "\<not> is_ws (hd qc)" using unit_text_hd c(7) l(7) by auto
  have rest: "seam_tokens rl = drop (k + n) (seam_tokens s)" using l(5) assms(1) by (simp add: seam_tokens_def drop_map)
  have "seam_tokens s = seam_tokens pc @ seam_tokens (qc @ rc)"
    using c(1) seam_tokens_append [OF apart_prefix [OF c(8) ne(1)]] by simp
  moreover have "seam_tokens pc = take k (seam_tokens s)" using c(4) by (simp add: seam_tokens_def take_map)
  ultimately have "seam_tokens (qc @ rc) = drop k (seam_tokens s)" by (metis append_take_drop_id same_append_eq)
  moreover have "seam_tokens ((x @ ql) @ rl) = seam_tokens (x @ ql) @ seam_tokens rl"
    by (rule seam_tokens_append) (use l(9) ne(2) in \<open>simp add: apart_def\<close>)
  ultimately have "seam_tokens (x @ ql) @ drop (k + n) (seam_tokens s) = drop k (seam_tokens s)" using mid rest by metis
  moreover have "drop k (seam_tokens s) = take n (drop k (seam_tokens s)) @ drop (k + n) (seam_tokens s)"
    by (metis append_take_drop_id drop_drop add.commute)
  ultimately have toks: "seam_tokens (x @ ql) = take n (drop k (seam_tokens s))" by (metis append_same_eq)
  have "hd (x @ ql) = hd qc" using mid ne by (metis append_is_Nil_conv hd_append2)
  moreover have "to_ascii_lowercase qc = seam_tokens s ! k" using c(6) kn(1) by (simp add: seam_tokens_def)
  moreover have "s = pc @ (x @ ql) @ rl" using l(1) x by simp
  moreover have "ou_end (?us ! (k + n - 1)) = length (pc @ x @ ql)" using l(3) x by simp
  ultimately show ?thesis
    using rest toks c(2) ne by (intro exI [of _ pc] exI [of _ "x @ ql"] exI [of _ rl] exI [of _ qc]) simp
qed

lemma consumed_text:
  assumes ov: "overlap_ok acoustic previous current ov"
    and ce: "consume_end = extend_consumed_current_end current (so_curr_end ov)"
    and cons: "consumed = trim (drop (so_curr_start ov) (take consume_end current))"
  shows "seam_tokens (drop consume_end current) = drop (so_skip_curr_units ov + so_units ov) (seam_tokens current)
    \<and> seam_tokens consumed = take (so_units ov) (drop (so_skip_curr_units ov) (seam_tokens current))
    \<and> (\<exists>q. to_ascii_lowercase q = seam_tokens current ! so_skip_curr_units ov \<and> q \<noteq> [] \<and> consumed \<noteq> [] \<and> hd consumed = hd q)"
proof -
  let ?us = "overlap_units current" let ?n = "so_units ov" let ?k = "so_skip_curr_units ov"
  have n: "0 < ?n" "?k + ?n \<le> length ?us" "so_curr_start ov = ou_start (?us ! ?k)" "so_curr_end ov = ou_end (?us ! (?k + ?n - 1))"
    using ov by (simp_all add: overlap_ok_def Let_def)
  obtain p m r q where run: "current = p @ m @ r" "so_curr_start ov = length p" "so_curr_end ov = length (p @ m)"
    "seam_tokens r = drop (?k + ?n) (seam_tokens current)" "seam_tokens m = take ?n (drop ?k (seam_tokens current))"
    "to_ascii_lowercase q = seam_tokens current ! ?k" "q \<noteq> []" "m \<noteq> []" "hd m = hd q" "\<not> is_ws (hd q)"
    using unit_run [OF n(1,2)] n(3,4) by metis
  obtain w r' where w: "r = w @ r'" "consume_end = length ((p @ m) @ w)" "list_all is_blank w"
    using extend_consumed_split [of current "p @ m" r] run(1,3) ce by auto
  have "drop consume_end current = r'" using run(1) w by simp
  then have "seam_tokens (drop consume_end current) = drop (?k + ?n) (seam_tokens current)"
    using seam_tokens_blanks [OF w(3), of r'] w(1) run(4) by simp
  moreover have cons': "consumed = trim (m @ w)" using cons run(1,2) w by simp
  moreover have "seam_tokens (m @ w) = take ?n (drop ?k (seam_tokens current))" using seam_tokens_blanks_right [OF w(3)] run(5) by simp
  moreover obtain cs where "m @ w = hd q # cs" using run(8,9) by (cases m) auto
  then have "\<exists>cs'. consumed = hd q # cs'" using trim_hd [OF run(10)] cons' by simp
  ultimately show ?thesis using run(6,7) by auto
qed

lemma completed_text:
  assumes ov: "overlap_ok acoustic previous current ov"
    and cons: "seam_tokens consumed = take (so_units ov) (drop (so_skip_curr_units ov) (seam_tokens current))"
    and head: "\<exists>q. to_ascii_lowercase q = seam_tokens current ! so_skip_curr_units ov \<and> q \<noteq> [] \<and> consumed \<noteq> [] \<and> hd consumed = hd q"
  shows "seam_tokens (char_prefix previous (so_prev_start ov) @ consumed) = seam_tokens previous"
proof -
  let ?us = "overlap_units previous" let ?n = "so_units ov" let ?k = "length ?us - ?n" let ?skip = "so_skip_curr_units ov"
  have n: "0 < ?n" "?n \<le> length ?us" "so_prev_start ov = ou_start (?us ! ?k)"
    "drop ?k (seam_tokens previous) = take ?n (drop ?skip (seam_tokens current))" "?skip + ?n \<le> length (overlap_units current)"
    using ov by (simp_all add: overlap_ok_def Let_def seam_tokens_def)
  then obtain p q r where at: "unit_at 0 previous (take ?k ?us) (?us ! ?k) (drop (Suc ?k) ?us) p q r"
    using unit_position_nth [of ?k previous] by (metis diff_less le_zero_eq length_greater_0_conv list.size(3) not_gr_zero)
  have p: "char_prefix previous (so_prev_start ov) = p" "seam_tokens p = take ?k (seam_tokens previous)" "apart p q" "q \<noteq> []"
    using at n(3) by (auto simp: unit_at_def char_prefix_def seam_tokens_def take_map unit_text_def)
  obtain qc where qc: "to_ascii_lowercase qc = seam_tokens current ! ?skip" "qc \<noteq> []" "consumed \<noteq> []" "hd consumed = hd qc" using head by blast
  have "to_ascii_lowercase q = seam_tokens previous ! ?k" using unit_atD(6) [OF at] n(1,2) by (simp add: seam_tokens_def)
  also have "\<dots> = hd (drop ?k (seam_tokens previous))" using n(1,2) by (simp add: hd_drop_conv_nth seam_tokens_def)
  also have "\<dots> = seam_tokens current ! ?skip" using n(1,5) unfolding n(4) by (simp add: hd_drop_conv_nth seam_tokens_def)
  finally have "to_ascii_lowercase q = to_ascii_lowercase qc" using qc(1) by simp
  then have "is_ascii_word_char (hd q) \<longleftrightarrow> is_ascii_word_char (hd consumed)" using lower_hd_word p(4) qc by metis
  then have "apart p consumed" using p(3,4) by (auto simp: apart_def)
  then show ?thesis using seam_tokens_append cons n(4) p by (metis append_take_drop_id)
qed

section \<open>The words after a stitch\<close>

lemma split_words_append: "split_words_at_char s ws i = Some (a, b) \<Longrightarrow> a @ b = ws"
  by (auto simp: split_words_at_char_def split: if_splits)

lemma split_words_suffix: "split_words_at_char s ws i = Some (a, b) \<Longrightarrow> suffix b ws"
  using split_words_append by (metis suffixI)

lemma rehome_words_same: "map wt_word (rehome_words ps cs fs) = map wt_word ps"
  by (induction ps cs fs rule: rehome_words.induct) auto

lemma rehomed_words:
  assumes "previous_words = split_words_at_char s (sg_words previous) i"
  shows "map wt_word (rehomed sm previous ov approximate max_span previous_words current_words) = map wt_word (sg_words previous)"
  using assms split_words_append [of s "sg_words previous" i]
  by (auto simp: rehomed_def Let_def rehome_words_same split: option.split) (metis map_append)

lemma trailing_blank: "list_all is_blank (previous_trailing_punct s i)"
  by (auto simp: previous_trailing_punct_def list_all_iff is_blank_def dest: set_takeWhileD)

lemma stitch_shape:
  assumes ov: "find_suffix_prefix_overlap sm (sg_text previous) (sg_text current) min_units time_overlap (\<not> approximate) = Some ov"
    and ce: "ce = extend_consumed_current_end (sg_text current) (so_curr_end ov)"
    and co: "consumed = trim (drop (so_curr_start ov) (take ce (sg_text current)))"
    and pw: "pw = split_words_at_char (sg_text previous) (sg_words previous) (so_prev_start ov)"
    and cw: "cw = split_words_at_char (sg_text current) (sg_words current) ce"
    and lw: "left = (case cw of Some (_, leftover) \<Rightarrow> leftover | None \<Rightarrow> [])"
  shows "let r = apply_suffix_prefix_stitch sm min_units time_overlap max_regap approximate max_span previous current;
      a = char_prefix (sg_text previous) (so_prev_start ov) @ consumed;
      p = (\<lambda>x. previous\<lparr>sg_text := x, sg_words := rehomed sm previous ov approximate max_span pw cw\<rparr>);
      c = current\<lparr>sg_text := trim (char_suffix (sg_text current) ce), sg_words := left\<rparr>
    in r = (False, previous, current) \<or> r = (True, previous, c) \<or> r = (True, p a, c)
      \<or> r = (True, p (a @ previous_trailing_punct (sg_text previous) (so_prev_end ov)), c)"
  unfolding apply_suffix_prefix_stitch_def ov option.case Let_def
    ce [symmetric] co [symmetric] pw [symmetric] cw [symmetric] lw [symmetric]
  by (auto split: option.split)

section \<open>Properties\<close>

lemma stitch_facts:
  "case apply_suffix_prefix_stitch sm min_units time_overlap max_regap approximate max_span previous current of
     (stitched, previous', current') \<Rightarrow>
       if \<not> stitched then previous' = previous \<and> current' = current
       else \<exists>skip n. 0 < n \<and> n \<le> length (seam_tokens (sg_text previous)) \<and> skip + n \<le> length (seam_tokens (sg_text current))
         \<and> drop (length (seam_tokens (sg_text previous)) - n) (seam_tokens (sg_text previous)) = take n (drop skip (seam_tokens (sg_text current)))
         \<and> (skip = 0 \<or> skip \<le> 2 \<and> n = 1 \<and> approximate = False)
         \<and> seam_tokens (sg_text previous') = seam_tokens (sg_text previous)
         \<and> seam_tokens (sg_text current') = drop (skip + n) (seam_tokens (sg_text current))
         \<and> previous' = previous\<lparr>sg_text := sg_text previous', sg_words := sg_words previous'\<rparr>
         \<and> current' = current\<lparr>sg_text := sg_text current', sg_words := sg_words current'\<rparr>
         \<and> map wt_word (sg_words previous') = map wt_word (sg_words previous) \<and> suffix (sg_words current') (sg_words current)"
proof (cases "find_suffix_prefix_overlap sm (sg_text previous) (sg_text current) min_units time_overlap (\<not> approximate)")
  case None
  then show ?thesis by (simp add: apply_suffix_prefix_stitch_def)
next
  case (Some ov)
  note ov = find_overlap_ok [OF Some]
  define ce where "ce = extend_consumed_current_end (sg_text current) (so_curr_end ov)"
  define consumed where "consumed = trim (drop (so_curr_start ov) (take ce (sg_text current)))"
  define pw where "pw = split_words_at_char (sg_text previous) (sg_words previous) (so_prev_start ov)"
  define cw where "cw = split_words_at_char (sg_text current) (sg_words current) ce"
  define left where "left = (case cw of Some (_, leftover) \<Rightarrow> leftover | None \<Rightarrow> [])"
  note texts = consumed_text [OF ov ce_def consumed_def]
  have prev: "seam_tokens (char_prefix (sg_text previous) (so_prev_start ov) @ consumed) = seam_tokens (sg_text previous)"
    using completed_text [OF ov] texts by blast
  then have prev': "seam_tokens (char_prefix (sg_text previous) (so_prev_start ov) @ consumed @ previous_trailing_punct (sg_text previous) (so_prev_end ov))
      = seam_tokens (sg_text previous)"
    using seam_tokens_blanks_right [OF trailing_blank] by (metis append_assoc)
  have cur: "seam_tokens (char_suffix (sg_text current) ce) = drop (so_skip_curr_units ov + so_units ov) (seam_tokens (sg_text current))"
    using texts by (simp add: char_suffix_def)
  have words: "map wt_word (rehomed sm previous ov approximate max_span pw cw) = map wt_word (sg_words previous)"
    by (rule rehomed_words [OF pw_def])
  have left: "suffix left (sg_words current)"
    unfolding left_def cw_def by (auto dest: split_words_suffix split: option.split)
  have nums: "0 < so_units ov" "so_units ov \<le> length (seam_tokens (sg_text previous))"
    "so_skip_curr_units ov + so_units ov \<le> length (seam_tokens (sg_text current))"
    "drop (length (seam_tokens (sg_text previous)) - so_units ov) (seam_tokens (sg_text previous))
      = take (so_units ov) (drop (so_skip_curr_units ov) (seam_tokens (sg_text current)))"
    "so_skip_curr_units ov = 0 \<or> so_skip_curr_units ov \<le> 2 \<and> so_units ov = 1 \<and> approximate = False"
    using ov by (auto simp: overlap_ok_def Let_def seam_tokens_def)
  let ?r = "apply_suffix_prefix_stitch sm min_units time_overlap max_regap approximate max_span previous current"
  let ?c = "current\<lparr>sg_text := trim (char_suffix (sg_text current) ce), sg_words := left\<rparr>"
  note stitch_shape [OF Some ce_def consumed_def pw_def cw_def left_def, of max_regap max_span]
  moreover have ?thesis if r: "?r = (True, pr, ?c)" and pr: "pr = previous\<lparr>sg_text := sg_text pr, sg_words := sg_words pr\<rparr>"
      "seam_tokens (sg_text pr) = seam_tokens (sg_text previous)" "map wt_word (sg_words pr) = map wt_word (sg_words previous)" for pr
    unfolding r prod.case using nums cur left pr
    by simp (intro exI [of _ "so_skip_curr_units ov"] exI [of _ "so_units ov"], simp)
  ultimately show ?thesis using prev prev' words unfolding Let_def by (elim disjE) simp_all
qed

subsection \<open>Longest common window\<close>

text \<open>
  C10. The stitch of two window transcripts removes exactly one copy of what both say. Either nothing
  changes, or there are \<open>n\<close> units (words or single characters, up to case and punctuation) that end
  the committed segment and stand in the next one after at most two fragments: then the committed
  segment still says the same units in the same words, with the same ends and speaker, and the next
  segment loses its units up to and including that copy and nothing else. Fragments are
  skipped only for a single unit and with acoustic timestamps. Word timestamps are moved or dropped
  from the front, never invented.
\<close>

theorem stitch_removes_one_copy:
  "case apply_suffix_prefix_stitch sm min_units time_overlap max_regap approximate max_span previous current of
     (stitched, previous', current') \<Rightarrow>
       if \<not> stitched then previous' = previous \<and> current' = current
       else \<exists>skip n. 0 < n \<and> n \<le> length (seam_tokens (sg_text previous)) \<and> skip + n \<le> length (seam_tokens (sg_text current))
         \<and> drop (length (seam_tokens (sg_text previous)) - n) (seam_tokens (sg_text previous)) = take n (drop skip (seam_tokens (sg_text current)))
         \<and> (skip = 0 \<or> skip \<le> 2 \<and> n = 1 \<and> approximate = False)
         \<and> seam_tokens (sg_text previous') = seam_tokens (sg_text previous)
         \<and> seam_tokens (sg_text current') = drop (skip + n) (seam_tokens (sg_text current))
         \<and> previous' = previous\<lparr>sg_text := sg_text previous', sg_words := sg_words previous'\<rparr>
         \<and> current' = current\<lparr>sg_text := sg_text current', sg_words := sg_words current'\<rparr>
         \<and> map wt_word (sg_words previous') = map wt_word (sg_words previous) \<and> suffix (sg_words current') (sg_words current)"
  by (rule stitch_facts)

text \<open>The number of equal elements two lists end with.\<close>

definition common_suffix :: "'a list \<Rightarrow> 'a list \<Rightarrow> nat" where
  "common_suffix xs ys = length (takeWhile (\<lambda>(x, y). x = y) (zip (rev xs) (rev ys)))"

lemma common_suffix_Nil [simp]: "common_suffix [] ys = 0" "common_suffix xs [] = 0"
  by (simp_all add: common_suffix_def)

lemma common_suffix_snoc [simp]: "common_suffix (xs @ [x]) (ys @ [y]) = (if x = y then common_suffix xs ys + 1 else 0)"
  by (simp add: common_suffix_def)

lemma common_suffix_ge: "suffix w xs \<Longrightarrow> suffix w ys \<Longrightarrow> length w \<le> common_suffix xs ys"
proof (induction w arbitrary: xs ys rule: rev_induct)
  case (snoc a w)
  obtain xs' ys' where "xs = xs' @ w @ [a]" "ys = ys' @ w @ [a]" using snoc.prems by (auto simp: suffix_def)
  then show ?case using snoc.IH [of "xs' @ w" "ys' @ w"] common_suffix_snoc [of "xs' @ w" a "ys' @ w" a] by (simp add: suffix_def)
qed simp

lemma common_suffix_witness: "\<exists>w. suffix w xs \<and> suffix w ys \<and> length w = common_suffix xs ys"
proof (induction xs arbitrary: ys rule: rev_induct)
  case (snoc x xs)
  show ?case
  proof (cases ys rule: rev_cases)
    case (snoc ys' y)
    obtain w where w: "suffix w xs" "suffix w ys'" "length w = common_suffix xs ys'" using \<open>\<And>ys. \<exists>w. suffix w xs \<and> suffix w ys \<and> length w = common_suffix xs ys\<close> by blast
    show ?thesis
    proof (cases "x = y")
      case True
      then show ?thesis using w snoc by (intro exI [of _ "w @ [x]"]) simp
    next
      case False
      then show ?thesis using snoc by (intro exI [of _ "[]"]) simp
    qed
  qed (auto intro: exI [of _ "[]"])
qed (auto intro: exI [of _ "[]"])

lemma window_row_spec:
  assumes "prev = map (\<lambda>i. common_suffix (pre @ take i short) ys) [0 ..< length short + 1]"
    and "cells = map (\<lambda>i. common_suffix (pre @ take (Suc i) short) (ys @ [t])) [0 ..< length short]"
  shows "window_row t short prev best = (cells, foldl max best cells)"
  using assms
proof (induction short arbitrary: pre prev best cells)
  case (Cons s short)
  have up: "map f [0 ..< Suc n] = f 0 # map (\<lambda>i. f (Suc i)) [0 ..< n]" for f :: "nat \<Rightarrow> nat" and n
    by (simp add: upt_conv_Cons map_Suc_upt [symmetric] del: upt_Suc)
  let ?cell = "if s = t then common_suffix pre ys + 1 else 0"
  let ?p = "map (\<lambda>i. common_suffix ((pre @ [s]) @ take i short) ys) [0 ..< length short + 1]"
  let ?c = "map (\<lambda>i. common_suffix ((pre @ [s]) @ take (Suc i) short) (ys @ [t])) [0 ..< length short]"
  have prev: "prev = common_suffix pre ys # ?p"
    using Cons.prems(1) up [of "\<lambda>i. common_suffix (pre @ take i (s # short)) ys" "length short + 1"] by (simp del: upt_Suc)
  have cells: "cells = ?cell # ?c"
    using Cons.prems(2) up [of "\<lambda>i. common_suffix (pre @ take (Suc i) (s # short)) (ys @ [t])" "length short"]
      common_suffix_snoc [of pre s ys t] by (simp del: upt_Suc)
  have ih: "window_row t short ?p b = (?c, foldl max b ?c)" for b by (rule Cons.IH [OF refl refl])
  have best: "(if s = t then max best ?cell else best) = max best ?cell" by simp
  show ?case unfolding prev cells using ih [of "max best ?cell"] best by (simp only: window_row.simps Let_def prod.case foldl.simps)
qed simp

lemma foldl_max: "foldl max b xs \<in> insert b (set xs) \<and> (\<forall>x \<in> insert b (set xs). x \<le> foldl max b xs)" for b :: nat
proof (induction xs arbitrary: b)
  case (Cons x xs)
  have "b \<le> max b x" "x \<le> max b x" "max b x = b \<or> max b x = x" by auto
  then show ?case using Cons.IH [of "max b x"] by (auto intro: order_trans)
qed simp

definition window_max :: "rstr list \<Rightarrow> rstr list \<Rightarrow> nat \<Rightarrow> bool" where
  "window_max xs ys m \<longleftrightarrow> (\<exists>w. sublist w xs \<and> sublist w ys \<and> length w = m) \<and> (\<forall>w. sublist w xs \<and> sublist w ys \<longrightarrow> length w \<le> m)"

lemma sublist_snoc: "sublist w (ys @ [t]) \<longleftrightarrow> sublist w ys \<or> suffix w (ys @ [t])"
  using sublist_rev [of w "ys @ [t]"] sublist_rev [of w ys] by (auto simp: sublist_Cons_right suffix_to_prefix)

lemma window_step:
  assumes "window_max xs ys m" and "cells = map (\<lambda>i. common_suffix (take (Suc i) xs) (ys @ [t])) [0 ..< length xs]"
  shows "window_max xs (ys @ [t]) (foldl max m cells)"
proof -
  have fm: "foldl max m cells \<in> insert m (set cells)" "\<And>x. x \<in> insert m (set cells) \<Longrightarrow> x \<le> foldl max m cells"
    using foldl_max [of m cells] by blast+
  have cell: "\<exists>w. sublist w xs \<and> sublist w (ys @ [t]) \<and> length w = c" if c: "c \<in> set cells" for c
  proof -
    obtain i where "c = common_suffix (take (Suc i) xs) (ys @ [t])" using c assms(2) by auto
    then obtain w where w: "suffix w (take (Suc i) xs)" "suffix w (ys @ [t])" "length w = c" using common_suffix_witness by metis
    have "sublist w xs" by (rule sublist_order.order_trans [OF suffix_imp_sublist [OF w(1)] sublist_take])
    then show ?thesis using w(2,3) suffix_imp_sublist by blast
  qed
  have bound: "length w \<le> foldl max m cells" if w: "sublist w xs" "sublist w (ys @ [t])" for w
  proof (cases "sublist w ys")
    case True
    then show ?thesis using assms(1) w(1) fm(2) [of m] unfolding window_max_def by (meson insertI1 order_trans)
  next
    case False
    then have suf: "suffix w (ys @ [t])" "w \<noteq> []" using w(2) by (auto simp: sublist_snoc)
    obtain p s where xs: "xs = p @ w @ s" using w(1) by (auto simp: sublist_def)
    let ?i = "length (p @ w) - 1"
    have i: "take (Suc ?i) xs = p @ w" "?i < length xs" using xs suf(2) by (cases w; simp)+
    then have "common_suffix (p @ w) (ys @ [t]) \<in> set cells" using assms(2) by (auto intro!: image_eqI [of _ _ ?i])
    then show ?thesis using common_suffix_ge [of w "p @ w" "ys @ [t]"] suf(1) fm(2) by (meson insertI2 order_trans suffixI)
  qed
  have "\<exists>w. sublist w xs \<and> sublist w (ys @ [t]) \<and> length w = foldl max m cells"
    using fm(1) cell assms(1) unfolding window_max_def by (auto simp: sublist_snoc)
  then show ?thesis using bound unfolding window_max_def by blast
qed

lemma window_rows_spec:
  assumes "prev = map (\<lambda>i. common_suffix (take i xs) ys) [0 ..< length xs + 1]" "window_max xs ys m"
  shows "window_max xs (ys @ zs) (window_rows xs zs prev m)"
  using assms
proof (induction zs arbitrary: ys prev m)
  case (Cons t zs)
  let ?cells = "map (\<lambda>i. common_suffix (take (Suc i) xs) (ys @ [t])) [0 ..< length xs]"
  have row: "window_row t xs prev m = (?cells, foldl max m ?cells)" using window_row_spec [of prev "[]" xs ys ?cells t m] Cons.prems(1) by simp
  have "0 # ?cells = map (\<lambda>i. common_suffix (take i xs) (ys @ [t])) [0 ..< length xs + 1]"
    by (simp add: upt_conv_Cons map_Suc_upt [symmetric] del: upt_Suc)
  then show ?case using Cons.IH [OF _ window_step [OF Cons.prems(2) refl], of "0 # ?cells"] row by simp
qed simp

text \<open>
  The row-by-row computation of the longest common window is exact: its value is the length of a
  run of words both texts contain, and no longer run is common to both.
\<close>

theorem longest_common_window_is_longest:
  "window_max left right (longest_common_window_len left right)"
proof -
  have main: "window_max xs zs (window_rows xs zs (replicate (length xs + 1) 0) 0)" for xs zs :: "rstr list"
  proof -
    have "replicate (length xs + 1) 0 = map (\<lambda>i. common_suffix (take i xs) []) [0 ..< length xs + 1]"
      by (rule nth_equalityI) (simp_all del: upt_Suc replicate_Suc)
    moreover have "window_max xs [] 0" by (auto simp: window_max_def)
    ultimately show ?thesis using window_rows_spec [of _ xs "[]" 0 zs] by simp
  qed
  have "window_max xs ys m \<longleftrightarrow> window_max ys xs m" for xs ys m unfolding window_max_def by blast
  then show ?thesis using main [of left right] main [of right left]
    by (auto simp: longest_common_window_len_def window_max_def)
qed

subsection \<open>Similar units\<close>

lemma row_loop_edit_row:
  assumes "cur \<noteq> []" "column = length cur - 1" "length previous = column + length ys + 1"
  shows "row_loop x previous cur column ys = cur @ edit_row x (last cur) (drop column previous) ys"
  using assms
proof (induction ys arbitrary: cur column)
  case Nil
  then show ?case by (cases "drop column previous") auto
next
  case (Cons y ys)
  have col: "column < length previous" "Suc column < length previous" using Cons.prems by auto
  have d: "drop column previous = previous ! column # previous ! Suc column # drop (Suc (Suc column)) previous"
    using col by (simp add: Cons_nth_drop_Suc)
  have l: "cur ! column = last cur" using Cons.prems by (simp add: last_conv_nth)
  let ?cell = "min (min (previous ! column + (if x \<noteq> y then 1 else 0)) (previous ! Suc column + 1)) (last cur + 1)"
  have "row_loop x previous cur column (y # ys) = row_loop x previous (cur @ [?cell]) (Suc column) ys"
    by (simp add: Let_def l min.commute min.left_commute)
  also have "\<dots> = (cur @ [?cell]) @ edit_row x ?cell (drop (Suc column) previous) ys"
    using Cons.IH [of "cur @ [?cell]" "Suc column"] Cons.prems by (simp add: Suc_diff_le)
  also have "drop (Suc column) previous = previous ! Suc column # drop (Suc (Suc column)) previous" using col by (simp add: Cons_nth_drop_Suc)
  finally show ?case unfolding d by (simp add: Let_def)
qed

lemma edit_rows_rows_loop: "length prev = length b + 1 \<Longrightarrow> edit_rows b i prev a = rows_loop b i prev a"
proof (induction a arbitrary: i prev)
  case (Cons x a)
  have len: "length (edit_row x l p b) = length b" if "length p = length b + 1" for l p b
    using that
  proof (induction b arbitrary: l p)
    case (Cons y b)
    then obtain p0 p1 ps where "p = p0 # p1 # ps" by (metis Suc_eq_plus1 length_Suc_conv list.size(4))
    then show ?case using Cons by (simp add: Let_def)
  qed simp
  show ?case using Cons len [OF Cons.prems] row_loop_edit_row [of "[i + 1]" 0 prev b x] by simp
qed simp

lemma edit_distance_least: "edit_distance a b = distance a b"
proof -
  have "[0 ..< length b + 1] = map (\<lambda>j. distance [] (take j b)) [0 ..< length b + 1]"
    by (rule nth_equalityI) (simp_all del: upt_Suc)
  from rows_loop_spec [OF this, of 0 a] have "edit_rows b 0 [0 ..< length b + 1] a ! length b = distance a b"
    using edit_rows_rows_loop [of "[0 ..< length b + 1]" b 0 a] by (simp del: upt_Suc)
  then show ?thesis by (simp add: edit_distance_def del: upt_Suc)
qed

text \<open>
  Two units are similar when they are different, long enough and not both numbers, and one begins the
  other or few edits turn one into the other; the relation is symmetric.
\<close>

lemma units_text_similar_symmetric: "units_text_similar l r \<longleftrightarrow> units_text_similar r l"
  unfolding units_text_similar_def edit_distance_least using distance_sym [of l r]
  by (auto simp: Let_def min.commute disj_commute conj_commute)

section \<open>Words that do not align\<close>

text \<open>
  Where the words of the next segment do not align with its text, a stitch drops every one of them,
  also those of the text that stays. A concrete pair of segments shows that this happens: the text
  \<open>to go now\<close> comes back as \<open>now\<close> without its timestamp, because the word before it was written with a capital.
\<close>

lemma misaligned_words_are_dropped:
  assumes "apply_suffix_prefix_stitch sm min_units time_overlap max_regap approximate max_span previous current = (True, previous', current')"
    and "find_suffix_prefix_overlap sm (sg_text previous) (sg_text current) min_units time_overlap (\<not> approximate) = Some ov"
    and "split_words_at_char (sg_text current) (sg_words current) (extend_consumed_current_end (sg_text current) (so_curr_end ov)) = None"
  shows "sg_words current' = []"
  using assms unfolding apply_suffix_prefix_stitch_def by (auto simp: Let_def split: option.splits if_splits)

lemmas char_class_defs = is_ws_def is_seam_punctuation_def is_ascii_word_char_def is_ascii_alphanumeric_def is_ascii_digit_def
  is_cjk_numeral_def

lemma sample_units:
  "overlap_units (lit ''I need to go'') = [\<lparr>ou_token = lit ''i'', ou_start = 0, ou_end = 1\<rparr>, \<lparr>ou_token = lit ''need'', ou_start = 2, ou_end = 6\<rparr>,
     \<lparr>ou_token = lit ''to'', ou_start = 7, ou_end = 9\<rparr>, \<lparr>ou_token = lit ''go'', ou_start = 10, ou_end = 12\<rparr>]"
  "overlap_units (lit ''to go now'') = [\<lparr>ou_token = lit ''to'', ou_start = 0, ou_end = 2\<rparr>, \<lparr>ou_token = lit ''go'', ou_start = 3, ou_end = 5\<rparr>,
     \<lparr>ou_token = lit ''now'', ou_start = 6, ou_end = 9\<rparr>]"
  by (simp_all add: overlap_units_def lit_def overlap_units_from.simps(2) char_class_defs to_ascii_lowercase_def)

definition sample_segment :: "rstr \<Rightarrow> rat word_timestamp list \<Rightarrow> rat segment" where
  "sample_segment t ws = \<lparr>sg_start = 0, sg_end = 10, sg_text = t, sg_speaker = None, sg_speaker_label = None,
     sg_speaker_person_id = None, sg_speaker_snapshot_label = None, sg_words = ws\<rparr>"

definition sample_words :: "rat word_timestamp list" where
  "sample_words = [\<lparr>wt_word = lit ''To go'', wt_start = 9, wt_end = 10, wt_confidence = None\<rparr>,
     \<lparr>wt_word = lit ''now'', wt_start = 10, wt_end = 11, wt_confidence = None\<rparr>]"

lemma sample_overlap:
  "find_suffix_prefix_overlap sm (lit ''I need to go'') (lit ''to go now'') 2 ov True
     = Some \<lparr>so_prev_start = 7, so_prev_end = 12, so_curr_start = 0, so_curr_end = 5, so_units = 2, so_skip_curr_units = 0\<rparr>"
  unfolding find_suffix_prefix_overlap_def sample_units
  by (simp add: Let_def lit_def upt_rec accept_overlap_n_def is_numeric_unit_def char_class_defs)

lemma sample_split: "split_words_at_char (lit ''to go now'') sample_words 6 = None"
  by (simp add: split_words_at_char_def sample_words_def lit_def leading_word_char_offset_def
      skip_whitespace_def trim_def trim_end_matches_def char_class_defs upt_rec Let_def)

lemma sample_stitch:
  "sg_words (snd (snd (apply_suffix_prefix_stitch sm 2 ov regap False None
     (sample_segment (lit ''I need to go'') []) (sample_segment (lit ''to go now'') sample_words)))) = []"
proof -
  have e: "extend_consumed_current_end (lit ''to go now'') 5 = 6"
    by (simp add: extend_consumed_current_end_def skip_whitespace_def lit_def char_class_defs Let_def)
  have n: "split_words_at_char t [] i = Some ([], [])" for t i by (simp add: split_words_at_char_def)
  show ?thesis
    unfolding apply_suffix_prefix_stitch_def
    by (simp add: sample_segment_def sample_overlap e sample_split Let_def acoustic_vet_def last_matched_def n
        speakers_conflict_def)
qed

end
