(* ===== verification/Subtitle_Cues.thy ===== *)
theory Subtitle_Cues
  imports Longform_Seam
begin

text \<open>
  Segments are split into subtitle cues (\<open>crates/openasr-core/src/subtitle/cues.rs\<close>): tokens with
  their place in the text and in time, the packer that groups them under the limits of a cue, and
  the layout of the times a cue is shown. Times and their arithmetic are a parameter (\<open>ck\<close>), as
  is the table of alphanumeric characters (\<open>alnum\<close>).
\<close>

section \<open>Data\<close>

record 't clock_arith =
  ck_seam :: "'t seam_arith"
  ck_max :: "'t \<Rightarrow> 't \<Rightarrow> 't"
  ck_min :: "'t \<Rightarrow> 't \<Rightarrow> 't"
  ck_div :: "'t \<Rightarrow> 't \<Rightarrow> 't"
  ck_of_nat :: "nat \<Rightarrow> 't"
  ck_is_finite :: "'t \<Rightarrow> bool"

abbreviation ck_lit :: "'t clock_arith \<Rightarrow> rat \<Rightarrow> 't" where "ck_lit ck \<equiv> sm_lit (ck_seam ck)"
abbreviation ck_add :: "'t clock_arith \<Rightarrow> 't \<Rightarrow> 't \<Rightarrow> 't" where "ck_add ck \<equiv> sm_add (ck_seam ck)"
abbreviation ck_sub :: "'t clock_arith \<Rightarrow> 't \<Rightarrow> 't \<Rightarrow> 't" where "ck_sub ck \<equiv> sm_sub (ck_seam ck)"
abbreviation ck_mul :: "'t clock_arith \<Rightarrow> 't \<Rightarrow> 't \<Rightarrow> 't" where "ck_mul ck \<equiv> sm_mul (ck_seam ck)"
abbreviation ck_lt :: "'t clock_arith \<Rightarrow> 't \<Rightarrow> 't \<Rightarrow> bool" where "ck_lt ck \<equiv> sm_lt (ck_seam ck)"
abbreviation ck_le :: "'t clock_arith \<Rightarrow> 't \<Rightarrow> 't \<Rightarrow> bool" where "ck_le ck \<equiv> sm_le (ck_seam ck)"

record 't cue_token =
  ct_char_start :: nat
  ct_char_end :: nat
  ct_start :: 't
  ct_end :: 't

record 't cue_limits =
  cl_char_budget :: nat
  cl_max_cps :: 't

definition TARGET_CUE_SECONDS :: rat where "TARGET_CUE_SECONDS = 6"
definition MAX_CUE_SECONDS :: rat where "MAX_CUE_SECONDS = 8"
definition LATIN_MAX_CHARS :: nat where "LATIN_MAX_CHARS = 84"
definition CJK_MAX_CHARS :: nat where "CJK_MAX_CHARS = 36"
definition LATIN_MAX_CPS :: rat where "LATIN_MAX_CPS = 21"
definition CJK_MAX_CPS :: rat where "CJK_MAX_CPS = 9"
definition MIN_PAUSE_GAP_S :: rat where "MIN_PAUSE_GAP_S = 35 / 100"
definition ORPHAN_MAX_WORDS :: nat where "ORPHAN_MAX_WORDS = 2"

section \<open>Classes of characters\<close>

definition is_wide_script :: "nat \<Rightarrow> bool" where
  "is_wide_script c \<longleftrightarrow> (0x1100 \<le> c \<and> c \<le> 0x115F) \<or> (0x2E80 \<le> c \<and> c \<le> 0x2EFF) \<or> (0x3000 \<le> c \<and> c \<le> 0x303F)
     \<or> (0x3040 \<le> c \<and> c \<le> 0x30FF) \<or> (0x3400 \<le> c \<and> c \<le> 0x4DBF) \<or> (0x4E00 \<le> c \<and> c \<le> 0x9FFF) \<or> (0xAC00 \<le> c \<and> c \<le> 0xD7A3)
     \<or> (0xF900 \<le> c \<and> c \<le> 0xFAFF) \<or> (0xFF00 \<le> c \<and> c \<le> 0xFF60) \<or> (0x20000 \<le> c \<and> c \<le> 0x3134F)"

definition is_cjk_or_fullwidth_punct :: "nat \<Rightarrow> bool" where
  "is_cjk_or_fullwidth_punct c \<longleftrightarrow> c \<in> {0x3002, 0xFF01, 0xFF1F, 0xFF0C, 0x3001, 0xFF1B, 0xFF1A, 0x2026,
     0x300C, 0x300D, 0x300E, 0x300F, 0x3010, 0x3011, 0xFF08, 0xFF09}"

definition is_sentence_terminal_char :: "nat \<Rightarrow> bool" where
  "is_sentence_terminal_char c \<longleftrightarrow> c \<in> {46, 33, 63, 0x3002, 0xFF01, 0xFF1F, 0x2026}"

definition is_clause_punct :: "nat \<Rightarrow> bool" where
  "is_clause_punct c \<longleftrightarrow> c \<in> {44, 59, 58, 0xFF0C, 0x3001, 0xFF1B, 0xFF1A}"

definition is_segment_closing_punct :: "nat \<Rightarrow> bool" where
  "is_segment_closing_punct c \<longleftrightarrow> c \<in> {34, 39, 41, 93, 125, 0x201D, 0x2019, 0xFF09, 0x3011, 0x300D, 0x300F}"

definition is_segment_opening_punct :: "nat \<Rightarrow> bool" where
  "is_segment_opening_punct c \<longleftrightarrow> c \<in> {40, 91, 123, 0x201C, 0x2018, 0xFF08, 0x3010, 0x300C, 0x300E}"

definition is_opening_punct_at :: "rstr \<Rightarrow> nat \<Rightarrow> bool" where
  "is_opening_punct_at chars index \<longleftrightarrow>
     is_segment_opening_punct (chars ! index)
     \<or> (chars ! index = 34 \<or> chars ! index = 39)
       \<and> (index = 0 \<or> is_ws (chars ! (index - 1)) \<or> is_segment_opening_punct (chars ! (index - 1)))
       \<and> index + 1 < length chars \<and> \<not> is_ws (chars ! (index + 1))"

definition char_has_content :: "nat \<Rightarrow> bool" where
  "char_has_content c \<longleftrightarrow> \<not> is_sentence_terminal_char c \<and> \<not> is_clause_punct c \<and> \<not> is_segment_closing_punct c \<and> \<not> is_ws c"

definition is_forced_alignment_char :: "(nat \<Rightarrow> bool) \<Rightarrow> nat \<Rightarrow> bool" where
  "is_forced_alignment_char alnum c \<longleftrightarrow> c = 39 \<or> alnum c"

section \<open>Tokens\<close>

definition token_chars :: "rstr \<Rightarrow> 't cue_token \<Rightarrow> rstr" where
  "token_chars chars t = take (ct_char_end t - ct_char_start t) (drop (ct_char_start t) chars)"

definition is_opening_token :: "rstr \<Rightarrow> 't cue_token \<Rightarrow> bool" where
  "is_opening_token chars t \<longleftrightarrow> list_ex (\<lambda>c. \<not> is_ws c) (token_chars chars t)
     \<and> list_all (\<lambda>(offset, c). is_ws c \<or> is_opening_punct_at chars (ct_char_start t + offset))
         (zip [0 ..< length (token_chars chars t)] (token_chars chars t))"

definition is_closing_token :: "rstr \<Rightarrow> 't cue_token \<Rightarrow> bool" where
  "is_closing_token chars t \<longleftrightarrow> list_ex (\<lambda>c. \<not> is_ws c) (token_chars chars t)
     \<and> list_all (\<lambda>c. \<not> char_has_content c) (token_chars chars t) \<and> \<not> is_opening_token chars t"

definition last_significant_char :: "rstr \<Rightarrow> 't cue_token \<Rightarrow> nat option" where
  "last_significant_char chars t = find (\<lambda>c. \<not> is_segment_closing_punct c \<and> \<not> is_ws c) (rev (token_chars chars t))"

definition ends_clause :: "rstr \<Rightarrow> 't cue_token \<Rightarrow> bool" where
  "ends_clause chars t = (case last_significant_char chars t of None \<Rightarrow> False | Some c \<Rightarrow> is_clause_punct c)"

fun last_significant :: "rstr \<Rightarrow> 't cue_token list \<Rightarrow> nat option" where
  "last_significant chars [] = None"
| "last_significant chars (t # ts) = (case last_significant_char chars t of Some c \<Rightarrow> Some c | None \<Rightarrow> last_significant chars ts)"

definition ends_sentence :: "rstr \<Rightarrow> 't cue_token list \<Rightarrow> nat \<Rightarrow> bool" where
  "ends_sentence chars toks e =
     (case last_significant chars (rev (take (e + 1) toks)) of None \<Rightarrow> False | Some c \<Rightarrow> is_sentence_terminal_char c)"

text \<open>\<open>tokens[start..=end]\<close>.\<close>

definition token_range :: "'t cue_token list \<Rightarrow> nat \<Rightarrow> nat \<Rightarrow> 't cue_token list" where
  "token_range toks s e = take (e + 1 - s) (drop s toks)"

definition range_has_content :: "rstr \<Rightarrow> 't cue_token list \<Rightarrow> nat \<Rightarrow> nat \<Rightarrow> bool" where
  "range_has_content chars toks s e = list_ex char_has_content (concat (map (token_chars chars) (token_range toks s e)))"

definition content_char_count_in_range :: "rstr \<Rightarrow> 't cue_token list \<Rightarrow> nat \<Rightarrow> nat \<Rightarrow> nat" where
  "content_char_count_in_range chars toks s e = length (filter char_has_content (concat (map (token_chars chars) (token_range toks s e))))"

subsection \<open>Synthesized tokens\<close>

definition breaks_word :: "nat \<Rightarrow> bool" where
  "breaks_word c \<longleftrightarrow> is_ws c \<or> is_wide_script c \<or> is_cjk_or_fullwidth_punct c"

function synthesize_from :: "(nat \<Rightarrow> 't) \<Rightarrow> nat \<Rightarrow> rstr \<Rightarrow> 't cue_token list" where
  "synthesize_from time_at index [] = []"
| "synthesize_from time_at index (c # cs) =
     (if is_ws c then synthesize_from time_at (index + 1) cs
      else let width = (if is_wide_script c \<or> is_cjk_or_fullwidth_punct c then 1
                        else 1 + length (takeWhile (\<lambda>d. \<not> breaks_word d) cs))
           in \<lparr>ct_char_start = index, ct_char_end = index + width, ct_start = time_at index, ct_end = time_at (index + width)\<rparr>
                # synthesize_from time_at (index + width) (drop width (c # cs)))"
  by pat_completeness auto

termination synthesize_from
  by (relation "measure (\<lambda>(_, _, cs). length cs)") (auto simp: Let_def)


definition synthesize_tokens :: "'t clock_arith \<Rightarrow> rstr \<Rightarrow> 't \<Rightarrow> 't \<Rightarrow> 't cue_token list" where
  "synthesize_tokens ck chars s e =
     (let total_chars = length chars; width = ck_max ck (ck_sub ck e s) (ck_lit ck 0)
      in if total_chars = 0 then []
         else synthesize_from (\<lambda>i. ck_add ck s (ck_mul ck width (ck_div ck (ck_of_nat ck i) (ck_of_nat ck total_chars)))) 0 chars)"

definition interpolate_word_timestamps :: "'t clock_arith \<Rightarrow> rstr \<Rightarrow> 't \<Rightarrow> 't \<Rightarrow> 't word_timestamp list" where
  "interpolate_word_timestamps ck chars s e =
     map (\<lambda>t. \<lparr>wt_word = token_chars chars t, wt_start = ct_start t, wt_end = ct_end t, wt_confidence = None\<rparr>)
       (synthesize_tokens ck chars s e)"

subsection \<open>Words aligned with the text\<close>

fun match_word_loop :: "(nat \<Rightarrow> bool) \<Rightarrow> rstr \<Rightarrow> nat \<Rightarrow> nat option \<Rightarrow> rstr \<Rightarrow> (nat \<times> nat) option" where
  "match_word_loop alnum chars cursor first [] = map_option (\<lambda>f. (f, cursor)) first"
| "match_word_loop alnum chars cursor first (expected # token) =
     (let cursor' = cursor + length (takeWhile (\<lambda>c. \<not> is_forced_alignment_char alnum c) (drop cursor chars))
      in if cursor' < length chars \<and> chars ! cursor' = expected
         then match_word_loop alnum chars (cursor' + 1) (case first of None \<Rightarrow> Some cursor' | Some f \<Rightarrow> Some f) token
         else None)"

definition match_word_span :: "(nat \<Rightarrow> bool) \<Rightarrow> rstr \<Rightarrow> nat \<Rightarrow> rstr \<Rightarrow> (nat \<times> nat) option" where
  "match_word_span alnum chars s token =
     (if s + length token \<le> length chars \<and> take (length token) (drop s chars) = token then Some (s, s + length token)
      else if \<not> list_all (is_forced_alignment_char alnum) token then None
      else match_word_loop alnum chars s None token)"

fun word_span_loop :: "(nat \<Rightarrow> bool) \<Rightarrow> rstr \<Rightarrow> nat \<Rightarrow> 't word_timestamp list \<Rightarrow> (nat \<times> nat) list option" where
  "word_span_loop alnum chars idx [] = Some []"
| "word_span_loop alnum chars idx (w # ws) =
     (let idx' = skip_whitespace chars idx; token = trim (wt_word w)
      in if token = [] then map_option ((#) (idx', idx')) (word_span_loop alnum chars idx' ws)
         else case match_word_span alnum chars idx' token of
                None \<Rightarrow> None
              | Some (s, e) \<Rightarrow> map_option ((#) (s, e)) (word_span_loop alnum chars e ws))"

fun attach_gaps :: "rstr \<Rightarrow> (nat \<times> nat) list \<Rightarrow> (nat \<times> nat) list" where
  "attach_gaps chars ((s, e) # (s2, e2) # spans) =
     (let s2' = (case find (is_opening_punct_at chars) [e ..< s2] of Some i \<Rightarrow> i | None \<Rightarrow> s2)
      in (s, s2') # attach_gaps chars ((s2', e2) # spans))"
| "attach_gaps chars spans = spans"

definition set_first :: "nat \<Rightarrow> (nat \<times> nat) list \<Rightarrow> (nat \<times> nat) list" where
  "set_first i spans = (case spans of [] \<Rightarrow> [] | (s, e) # rest \<Rightarrow> (i, e) # rest)"

definition set_last :: "nat \<Rightarrow> (nat \<times> nat) list \<Rightarrow> (nat \<times> nat) list" where
  "set_last i spans = (if spans = [] then [] else butlast spans @ [(fst (last spans), i)])"

definition word_char_spans :: "(nat \<Rightarrow> bool) \<Rightarrow> rstr \<Rightarrow> 't word_timestamp list \<Rightarrow> (nat \<times> nat) list option" where
  "word_char_spans alnum chars ws =
     map_option (\<lambda>spans. set_last (length chars) (attach_gaps chars (set_first 0 spans))) (word_span_loop alnum chars 0 ws)"

definition build_tokens :: "'t clock_arith \<Rightarrow> (nat \<Rightarrow> bool) \<Rightarrow> 't segment \<Rightarrow> rstr \<Rightarrow> 't cue_token list \<times> bool" where
  "build_tokens ck alnum seg chars =
     (case if 2 \<le> length (sg_words seg) then word_char_spans alnum chars (sg_words seg) else None of
        Some spans \<Rightarrow>
          (map (\<lambda>(w, s, e). \<lparr>ct_char_start = s, ct_char_end = e, ct_start = wt_start w, ct_end = ck_max ck (wt_end w) (wt_start w)\<rparr>)
             (zip (sg_words seg) spans), True)
      | None \<Rightarrow> (synthesize_tokens ck chars (sg_start seg) (sg_end seg), False))"

section \<open>Packing\<close>

definition cue_limits_of :: "'t clock_arith \<Rightarrow> rstr \<Rightarrow> 't cue_limits" where
  "cue_limits_of ck chars =
     (let visible = filter (\<lambda>c. \<not> is_ws c) chars; wide = length (filter is_wide_script visible)
      in if 0 < length visible \<and> length visible \<le> wide * 2
         then \<lparr>cl_char_budget = CJK_MAX_CHARS, cl_max_cps = ck_lit ck CJK_MAX_CPS\<rparr>
         else \<lparr>cl_char_budget = LATIN_MAX_CHARS, cl_max_cps = ck_lit ck LATIN_MAX_CPS\<rparr>)"

definition candidate_display_duration :: "'t clock_arith \<Rightarrow> 't cue_token list \<Rightarrow> nat \<Rightarrow> nat \<Rightarrow> 't \<Rightarrow> 't" where
  "candidate_display_duration ck toks s e max_seconds =
     (let acoustic_end = ct_end (toks ! e);
          display_end = (if e + 1 < length toks then ck_max ck (ct_start (toks ! (e + 1))) acoustic_end else acoustic_end)
      in ck_min ck (ck_sub ck display_end (ct_start (toks ! s))) max_seconds)"

definition fits :: "'t clock_arith \<Rightarrow> rstr \<Rightarrow> 't cue_token list \<Rightarrow> nat \<Rightarrow> nat \<Rightarrow> 't cue_limits \<Rightarrow> 't \<Rightarrow> bool" where
  "fits ck chars toks s e limits max_seconds =
     (if cl_char_budget limits < ct_char_end (toks ! e) - ct_char_start (toks ! s) then False
      else if ck_lt ck max_seconds (ck_sub ck (ct_end (toks ! e)) (ct_start (toks ! s))) then False
      else let duration = candidate_display_duration ck toks s e max_seconds
           in \<not> (ck_lt ck (ck_lit ck (1 / 1000)) duration
                 \<and> ck_lt ck (cl_max_cps limits) (ck_div ck (ck_of_nat ck (content_char_count_in_range chars toks s e)) duration)))"

function attached_opening :: "rstr \<Rightarrow> 't cue_token list \<Rightarrow> nat \<Rightarrow> nat" where
  "attached_opening chars toks e =
     (if e + 1 < length toks \<and> is_opening_token chars (toks ! e) then attached_opening chars toks (e + 1) else e)"
  by pat_completeness auto

termination attached_opening
  by (relation "measure (\<lambda>(_, toks, e). length toks - e)") auto

function attached_closing :: "rstr \<Rightarrow> 't cue_token list \<Rightarrow> nat \<Rightarrow> nat" where
  "attached_closing chars toks e =
     (if e + 1 < length toks \<and> is_closing_token chars (toks ! (e + 1)) then attached_closing chars toks (e + 1) else e)"
  by pat_completeness auto

termination attached_closing
  by (relation "measure (\<lambda>(_, toks, e). length toks - e)") auto

declare attached_opening.simps [simp del] attached_closing.simps [simp del]

definition attached_punctuation_end :: "rstr \<Rightarrow> 't cue_token list \<Rightarrow> nat \<Rightarrow> nat" where
  "attached_punctuation_end chars toks e = attached_closing chars toks (attached_opening chars toks e)"

definition deliberate_pause_after :: "'t clock_arith \<Rightarrow> rstr \<Rightarrow> 't cue_token list \<Rightarrow> nat \<Rightarrow> bool" where
  "deliberate_pause_after ck chars toks e =
     (if length toks \<le> e + 1 \<or> attached_punctuation_end chars toks e \<noteq> e then False
      else let spoken = (\<lambda>t. \<not> is_closing_token chars t \<and> \<not> is_opening_token chars t)
           in case (find spoken (rev (take (e + 1) toks)), find spoken (drop (e + 1) toks)) of
                (Some previous, Some next_token) \<Rightarrow> ck_le ck (ck_lit ck MIN_PAUSE_GAP_S) (ck_sub ck (ct_start next_token) (ct_end previous))
              | _ \<Rightarrow> False)"

fun widest_gap :: "'t clock_arith \<Rightarrow> rstr \<Rightarrow> 't cue_token list \<Rightarrow> nat \<Rightarrow> 't \<Rightarrow> nat list \<Rightarrow> nat" where
  "widest_gap ck chars toks best_k best_gap [] = best_k"
| "widest_gap ck chars toks best_k best_gap (k # ks) =
     (if attached_punctuation_end chars toks k \<noteq> k then widest_gap ck chars toks best_k best_gap ks
      else let gap = ck_sub ck (ct_start (toks ! (k + 1))) (ct_end (toks ! k))
           in if ck_lt ck best_gap gap then widest_gap ck chars toks k gap ks else widest_gap ck chars toks best_k best_gap ks)"

definition choose_cut :: "'t clock_arith \<Rightarrow> rstr \<Rightarrow> 't cue_token list \<Rightarrow> nat \<Rightarrow> nat \<Rightarrow> nat" where
  "choose_cut ck chars toks s e =
     (case find (\<lambda>k. deliberate_pause_after ck chars toks k \<and> range_has_content chars toks s k) (rev [s ..< e]) of
        Some k \<Rightarrow> k
      | None \<Rightarrow>
          case find (\<lambda>k. attached_punctuation_end chars toks k = k \<and> ends_clause chars (toks ! k) \<and> range_has_content chars toks s k)
                 (rev [s ..< e + 1]) of
            Some k \<Rightarrow> k
          | None \<Rightarrow> widest_gap ck chars toks e (ck_lit ck 0) [s ..< e])"

definition enforce_range_fits :: "'t clock_arith \<Rightarrow> rstr \<Rightarrow> 't cue_token list \<Rightarrow> nat \<Rightarrow> nat \<Rightarrow> 't cue_limits \<Rightarrow> nat" where
  "enforce_range_fits ck chars toks s e limits =
     (let fit = (\<lambda>k. fits ck chars toks s k limits (ck_lit ck TARGET_CUE_SECONDS)); first_end = attached_punctuation_end chars toks s
      in if fit e then e
         else if e \<le> first_end then e
         else let preferred = choose_cut ck chars toks s e
              in if preferred < e \<and> fit preferred then preferred
                 else case find (\<lambda>k. attached_punctuation_end chars toks k = k \<and> fit k \<and> range_has_content chars toks s k)
                             (rev [first_end ..< e]) of
                        Some k \<Rightarrow> k
                      | None \<Rightarrow> first_end)"

lemma attached_opening_bounds:
  "e \<le> attached_opening chars toks e \<and> (e < length toks \<longrightarrow> attached_opening chars toks e < length toks)"
proof (induction chars toks e rule: attached_opening.induct)
  case (1 chars toks e)
  then show ?case by (subst (1 2) attached_opening.simps) auto
qed

lemma attached_closing_bounds:
  "e \<le> attached_closing chars toks e \<and> (e < length toks \<longrightarrow> attached_closing chars toks e < length toks)"
proof (induction chars toks e rule: attached_closing.induct)
  case (1 chars toks e)
  then show ?case by (subst (1 2) attached_closing.simps) auto
qed

lemma attached_ge: "e \<le> attached_punctuation_end chars toks e"
  unfolding attached_punctuation_end_def using attached_opening_bounds attached_closing_bounds order_trans by blast

lemma attached_less: "e < length toks \<Longrightarrow> attached_punctuation_end chars toks e < length toks"
  unfolding attached_punctuation_end_def using attached_opening_bounds attached_closing_bounds by blast

lemma find_in: "find P xs = Some x \<Longrightarrow> x \<in> set xs \<and> P x"
  by (induction xs) (auto split: if_splits)

lemma widest_gap_in: "widest_gap ck chars toks best gap ks \<in> insert best (set ks)"
  by (induction ks arbitrary: best gap) (force simp: Let_def split: if_splits)+

lemma choose_cut_bounds: "s \<le> e \<Longrightarrow> s \<le> choose_cut ck chars toks s e \<and> choose_cut ck chars toks s e \<le> e"
  using widest_gap_in [of ck chars toks e "ck_lit ck 0" "[s ..< e]"]
  by (auto simp: choose_cut_def dest!: find_in split: option.splits)

lemma enforce_bounds:
  assumes "s \<le> e"
  shows "s \<le> enforce_range_fits ck chars toks s e limits \<and> enforce_range_fits ck chars toks s e limits \<le> e"
  using choose_cut_bounds [OF assms, of ck chars toks] assms attached_ge [of s chars toks]
  by (auto simp: enforce_range_fits_def Let_def dest!: find_in split: option.splits)

definition content_sentence :: "rstr \<Rightarrow> 't cue_token list \<Rightarrow> nat \<Rightarrow> nat \<Rightarrow> bool" where
  "content_sentence chars toks s e \<longleftrightarrow> ends_sentence chars toks e \<and> range_has_content chars toks s e"

definition content_pause :: "'t clock_arith \<Rightarrow> rstr \<Rightarrow> 't cue_token list \<Rightarrow> nat \<Rightarrow> nat \<Rightarrow> bool" where
  "content_pause ck chars toks s e \<longleftrightarrow> deliberate_pause_after ck chars toks e \<and> range_has_content chars toks s e"

function grow_cue :: "'t clock_arith \<Rightarrow> rstr \<Rightarrow> 't cue_token list \<Rightarrow> 't cue_limits \<Rightarrow> nat \<Rightarrow> nat \<Rightarrow> nat" where
  "grow_cue ck chars toks limits s e =
     (if \<not> content_sentence chars toks s e \<and> e + 1 < length toks
      then if content_pause ck chars toks s e then e
           else let e' = attached_punctuation_end chars toks (e + 1)
                in if \<not> fits ck chars toks s e' limits (ck_lit ck TARGET_CUE_SECONDS) then e
                   else grow_cue ck chars toks limits s e'
      else e)"
  by pat_completeness auto

termination grow_cue
proof (relation "measure (\<lambda>(_, _, toks, _, _, e). length toks - e)", goal_cases)
  case (2 ck chars toks limits s e e')
  then show ?case using attached_ge [of "e + 1" chars toks] by (simp, linarith)
qed simp

declare grow_cue.simps [simp del]

lemma grow_cue_bounds:
  "e \<le> grow_cue ck chars toks limits s e \<and> (e < length toks \<longrightarrow> grow_cue ck chars toks limits s e < length toks)"
proof (induction ck chars toks limits s e rule: grow_cue.induct)
  case (1 ck chars toks limits s e)
  show ?case
    using 1 [OF _ _ refl] attached_ge [of "e + 1" chars toks] attached_less [of "e + 1" toks chars]
    by (subst (1 2) grow_cue.simps) (auto simp: Let_def)
qed

definition natural_cut :: "'t clock_arith \<Rightarrow> rstr \<Rightarrow> 't cue_token list \<Rightarrow> nat \<Rightarrow> nat \<Rightarrow> nat" where
  "natural_cut ck chars toks s e =
     (if content_sentence chars toks s e \<or> e = length toks - 1 then e
      else if e + 1 < length toks \<and> content_pause ck chars toks s e then e
      else choose_cut ck chars toks s e)"

definition cue_cut :: "'t clock_arith \<Rightarrow> rstr \<Rightarrow> 't cue_token list \<Rightarrow> 't cue_limits \<Rightarrow> nat \<Rightarrow> nat" where
  "cue_cut ck chars toks limits s =
     enforce_range_fits ck chars toks s
       (natural_cut ck chars toks s (grow_cue ck chars toks limits s (attached_punctuation_end chars toks s))) limits"

lemma cue_cut_bounds:
  assumes "s < length toks"
  shows "s \<le> cue_cut ck chars toks limits s \<and> cue_cut ck chars toks limits s < length toks"
proof -
  define g where "g = grow_cue ck chars toks limits s (attached_punctuation_end chars toks s)"
  have g: "s \<le> g" "g < length toks"
    using grow_cue_bounds attached_ge attached_less [OF assms] unfolding g_def by (blast intro: order_trans)+
  have "s \<le> natural_cut ck chars toks s g \<and> natural_cut ck chars toks s g \<le> g"
    using choose_cut_bounds [OF g(1), of ck chars toks] g by (simp add: natural_cut_def)
  then show ?thesis
    using enforce_bounds [of s "natural_cut ck chars toks s g" ck chars toks limits] g(2) unfolding cue_cut_def g_def [symmetric]
    by linarith
qed

function cue_loop :: "'t clock_arith \<Rightarrow> rstr \<Rightarrow> 't cue_token list \<Rightarrow> 't cue_limits \<Rightarrow> nat \<Rightarrow> (nat \<times> nat) list" where
  "cue_loop ck chars toks limits s =
     (if s < length toks
      then let cut = cue_cut ck chars toks limits s in (s, cut) # cue_loop ck chars toks limits (cut + 1)
      else [])"
  by pat_completeness auto

termination cue_loop
proof (relation "measure (\<lambda>(_, _, toks, _, s). length toks - s)", goal_cases)
  case (2 ck chars toks limits s cut)
  then show ?case using cue_cut_bounds [of s toks ck chars limits] by (simp, linarith)
qed simp

declare cue_loop.simps [simp del]

text \<open>\<open>merge_orphans\<close>: short ranges join the one before, then short heads the one after.\<close>

definition joins_previous :: "'t clock_arith \<Rightarrow> rstr \<Rightarrow> 't cue_token list \<Rightarrow> 't cue_limits \<Rightarrow> nat \<times> nat \<Rightarrow> nat \<times> nat \<Rightarrow> bool" where
  "joins_previous ck chars toks limits previous rng =
     (case (previous, rng) of ((prev_first, prev_last), first, last_index) \<Rightarrow>
        let zero_duration = ck_le ck (ct_end (toks ! last_index)) (ct_start (toks ! first));
            pause_between = \<not> zero_duration \<and> deliberate_pause_after ck chars toks prev_last
        in last_index - first + 1 \<le> ORPHAN_MAX_WORDS \<and> (zero_duration \<or> \<not> ends_sentence chars toks prev_last)
           \<and> \<not> pause_between \<and> fits ck chars toks prev_first last_index limits (ck_lit ck MAX_CUE_SECONDS))"

fun merge_tails :: "'t clock_arith \<Rightarrow> rstr \<Rightarrow> 't cue_token list \<Rightarrow> 't cue_limits \<Rightarrow> (nat \<times> nat) list \<Rightarrow> (nat \<times> nat) list \<Rightarrow> (nat \<times> nat) list" where
  "merge_tails ck chars toks limits merged [] = merged"
| "merge_tails ck chars toks limits merged (rng # ranges) =
     merge_tails ck chars toks limits
       (if merged \<noteq> [] \<and> joins_previous ck chars toks limits (last merged) rng
        then butlast merged @ [(fst (last merged), snd rng)] else merged @ [rng]) ranges"

fun merge_heads :: "'t clock_arith \<Rightarrow> rstr \<Rightarrow> 't cue_token list \<Rightarrow> 't cue_limits \<Rightarrow> nat \<times> nat \<Rightarrow> (nat \<times> nat) list \<Rightarrow> (nat \<times> nat) list" where
  "merge_heads ck chars toks limits cur [] = [cur]"
| "merge_heads ck chars toks limits (first, last_index) ((next_first, next_last) # ranges) =
     (if last_index - first < ORPHAN_MAX_WORDS \<and> \<not> ends_sentence chars toks last_index
          \<and> \<not> deliberate_pause_after ck chars toks last_index
          \<and> fits ck chars toks first next_last limits (ck_lit ck MAX_CUE_SECONDS)
      then merge_heads ck chars toks limits (first, next_last) ranges
      else (first, last_index) # merge_heads ck chars toks limits (next_first, next_last) ranges)"

definition merge_orphans :: "'t clock_arith \<Rightarrow> rstr \<Rightarrow> 't cue_token list \<Rightarrow> (nat \<times> nat) list \<Rightarrow> 't cue_limits \<Rightarrow> (nat \<times> nat) list" where
  "merge_orphans ck chars toks ranges limits =
     (case merge_tails ck chars toks limits [] ranges of [] \<Rightarrow> [] | cur # rest \<Rightarrow> merge_heads ck chars toks limits cur rest)"

definition pack_tokens :: "'t clock_arith \<Rightarrow> rstr \<Rightarrow> 't cue_token list \<Rightarrow> 't cue_limits \<Rightarrow> (nat \<times> nat) list" where
  "pack_tokens ck chars toks limits = merge_orphans ck chars toks (cue_loop ck chars toks limits 0) limits"

section \<open>Cues\<close>

definition cue_of_range :: "'t clock_arith \<Rightarrow> 't segment \<Rightarrow> rstr \<Rightarrow> 't cue_token list \<Rightarrow> bool \<Rightarrow> nat \<times> nat \<Rightarrow> 't segment" where
  "cue_of_range ck seg chars toks real_words rng =
     (case rng of (first, last_index) \<Rightarrow>
        let s = ck_max ck (ct_start (toks ! first)) (sg_start seg);
            e = ck_min ck (ck_max ck (ct_end (toks ! last_index)) s) (ck_max ck (sg_end seg) s)
        in seg\<lparr>sg_start := s, sg_end := e,
               sg_text := trim (take (ct_char_end (toks ! last_index) - ct_char_start (toks ! first)) (drop (ct_char_start (toks ! first)) chars)),
               sg_words := if real_words then take (last_index + 1 - first) (drop first (sg_words seg)) else []\<rparr>)"

definition segment_into_cues :: "'t clock_arith \<Rightarrow> (nat \<Rightarrow> bool) \<Rightarrow> 't segment \<Rightarrow> 't segment list" where
  "segment_into_cues ck alnum seg =
     (let chars = sg_text seg
      in case build_tokens ck alnum seg chars of (toks, real_words) \<Rightarrow>
           if length toks < 2 then [seg]
           else let ranges = pack_tokens ck chars toks (cue_limits_of ck chars)
                in if length ranges \<le> 1 then [seg]
                   else let cues = filter (\<lambda>c. sg_text c \<noteq> []) (map (cue_of_range ck seg chars toks real_words) ranges)
                        in if length cues \<le> 1 then [seg] else cues)"

definition display_end_for_cps :: "'t clock_arith \<Rightarrow> 't \<Rightarrow> 't \<Rightarrow> 't \<Rightarrow> nat \<Rightarrow> 't \<Rightarrow> 't" where
  "display_end_for_cps ck s acoustic_end hard_end content_chars max_cps =
     (let acoustic_end' = ck_max ck acoustic_end s
      in if content_chars = 0 \<or> ck_le ck max_cps (ck_lit ck 0) then ck_max ck (ck_min ck acoustic_end' hard_end) s
         else let goal = ck_add ck s (ck_div ck (ck_of_nat ck content_chars) max_cps)
              in if ck_le ck goal hard_end then ck_max ck (ck_min ck hard_end (ck_max ck acoustic_end' goal)) s
                 else ck_max ck (ck_min ck acoustic_end' hard_end) s)"

definition display_end :: "'t clock_arith \<Rightarrow> 't option \<Rightarrow> 't option \<Rightarrow> 't segment \<Rightarrow> 't" where
  "display_end ck audio_hard_end next_start cue =
     (let s = sg_start cue; acoustic_end = ck_max ck (sg_end cue) s
      in case (case next_start of Some t \<Rightarrow> Some t | None \<Rightarrow> audio_hard_end) of
           None \<Rightarrow> acoustic_end
         | Some bound \<Rightarrow>
             let bound' = (case audio_hard_end of None \<Rightarrow> bound | Some audio_end \<Rightarrow> ck_min ck bound audio_end);
                 hard_end = ck_min ck bound' (ck_max ck (ck_add ck s (ck_lit ck MAX_CUE_SECONDS)) acoustic_end)
             in display_end_for_cps ck s acoustic_end hard_end (length (filter char_has_content (sg_text cue)))
                  (cl_max_cps (cue_limits_of ck (sg_text cue))))"

fun layout_loop :: "'t clock_arith \<Rightarrow> 't option \<Rightarrow> 't segment list \<Rightarrow> 't segment list" where
  "layout_loop ck audio_hard_end [] = []"
| "layout_loop ck audio_hard_end (cue # cues) =
     cue\<lparr>sg_end := display_end ck audio_hard_end (case cues of [] \<Rightarrow> None | c # _ \<Rightarrow> Some (sg_start c)) cue\<rparr>
       # layout_loop ck audio_hard_end cues"

definition layout_cue_display_ends :: "'t clock_arith \<Rightarrow> 't segment list \<Rightarrow> 't option \<Rightarrow> 't segment list" where
  "layout_cue_display_ends ck cues audio_duration =
     layout_loop ck (case audio_duration of None \<Rightarrow> None
                     | Some d \<Rightarrow> if ck_is_finite ck d \<and> ck_le ck (ck_lit ck 0) d then Some d else None) cues"

definition resegment_segments_into_cues :: "'t clock_arith \<Rightarrow> (nat \<Rightarrow> bool) \<Rightarrow> 't segment list \<Rightarrow> 't option \<Rightarrow> 't segment list" where
  "resegment_segments_into_cues ck alnum segments audio_duration =
     layout_cue_display_ends ck (concat (map (segment_into_cues ck alnum) segments)) audio_duration"

text \<open>\<open>resegment_transcription_cues\<close> on the segments of a transcription, the only field it changes.\<close>

definition resegment_transcription_cues :: "'t clock_arith \<Rightarrow> (nat \<Rightarrow> bool) \<Rightarrow> 't segment list \<Rightarrow> 't segment list" where
  "resegment_transcription_cues ck alnum segments =
     (if segments = [] then segments else resegment_segments_into_cues ck alnum segments None)"

section \<open>Ranges of tokens\<close>

text \<open>Ranges that follow one another from \<open>s\<close> up to \<open>e\<close> without gap.\<close>

fun range_chain :: "nat \<Rightarrow> (nat \<times> nat) list \<Rightarrow> nat \<Rightarrow> bool" where
  "range_chain s [] e \<longleftrightarrow> s = e"
| "range_chain s ((a, b) # rs) e \<longleftrightarrow> a = s \<and> a \<le> b \<and> range_chain (b + 1) rs e"

lemma range_chain_append: "range_chain s (xs @ ys) e \<longleftrightarrow> (\<exists>m. range_chain s xs m \<and> range_chain m ys e)"
  by (induction s xs e rule: range_chain.induct) auto

lemma range_chain_le: "range_chain s rs e \<Longrightarrow> s \<le> e"
  by (induction s rs e rule: range_chain.induct) auto

text \<open>A range fits the limits of a cue, or it is one word with the punctuation attached to it.\<close>

definition range_fits :: "'t clock_arith \<Rightarrow> rstr \<Rightarrow> 't cue_token list \<Rightarrow> 't cue_limits \<Rightarrow> nat \<times> nat \<Rightarrow> bool" where
  "range_fits ck chars toks limits rng \<longleftrightarrow>
     fits ck chars toks (fst rng) (snd rng) limits (ck_lit ck TARGET_CUE_SECONDS)
     \<or> fits ck chars toks (fst rng) (snd rng) limits (ck_lit ck MAX_CUE_SECONDS)
     \<or> snd rng \<le> attached_punctuation_end chars toks (fst rng)"

lemma enforce_fits: "range_fits ck chars toks limits (s, enforce_range_fits ck chars toks s e limits)"
  by (auto simp: range_fits_def enforce_range_fits_def Let_def dest!: find_in split: option.splits)

lemma cue_loop_ok:
  "s \<le> length toks \<Longrightarrow> range_chain s (cue_loop ck chars toks limits s) (length toks)
     \<and> list_all (range_fits ck chars toks limits) (cue_loop ck chars toks limits s)"
proof (induction ck chars toks limits s rule: cue_loop.induct)
  case (1 ck chars toks limits s)
  show ?case
  proof (cases "s < length toks")
    case True
    define cut where "cut = cue_cut ck chars toks limits s"
    have cut: "s \<le> cut" "cut < length toks" using cue_cut_bounds [OF True] by (auto simp: cut_def)
    have "range_fits ck chars toks limits (s, cut)" unfolding cut_def cue_cut_def by (rule enforce_fits)
    moreover have "cue_loop ck chars toks limits s = (s, cut) # cue_loop ck chars toks limits (cut + 1)"
      using True by (subst cue_loop.simps) (simp add: cut_def Let_def)
    ultimately show ?thesis using 1(1) [OF True cut_def] cut by simp
  next
    case False
    then show ?thesis using 1(2) by (subst (1 2) cue_loop.simps) simp
  qed
qed

lemma merge_tails_ok:
  assumes "range_chain s (merged @ ranges) e" "list_all (range_fits ck chars toks limits) (merged @ ranges)"
  shows "range_chain s (merge_tails ck chars toks limits merged ranges) e
     \<and> list_all (range_fits ck chars toks limits) (merge_tails ck chars toks limits merged ranges)"
  using assms
proof (induction ranges arbitrary: merged)
  case (Cons rng ranges)
  show ?case
  proof (cases "merged \<noteq> [] \<and> joins_previous ck chars toks limits (last merged) rng")
    case True
    obtain pf pl where l: "last merged = (pf, pl)" by fastforce
    obtain a b where rng: "rng = (a, b)" by fastforce
    have m: "merged = butlast merged @ [(pf, pl)]" using True l by (metis append_butlast_last_id)
    have chain: "range_chain s ((butlast merged @ [(pf, b)]) @ ranges) e"
      using Cons.prems(1) unfolding range_chain_append by (subst (asm) m) (auto simp: rng range_chain_append)
    have "fits ck chars toks pf b limits (ck_lit ck MAX_CUE_SECONDS)"
      using True by (simp add: l rng joins_previous_def Let_def)
    then have "list_all (range_fits ck chars toks limits) ((butlast merged @ [(pf, b)]) @ ranges)"
      using Cons.prems(2) by (subst (asm) m) (simp add: range_fits_def)
    from Cons.IH [OF chain this] show ?thesis using True by (simp add: l rng)
  next
    case False
    then show ?thesis using Cons.IH [of "merged @ [rng]"] Cons.prems by auto
  qed
qed simp

lemma merge_heads_ok:
  "range_chain s (cur # ranges) e \<Longrightarrow> list_all (range_fits ck chars toks limits) (cur # ranges)
     \<Longrightarrow> range_chain s (merge_heads ck chars toks limits cur ranges) e
       \<and> list_all (range_fits ck chars toks limits) (merge_heads ck chars toks limits cur ranges)"
proof (induction ck chars toks limits cur ranges arbitrary: s rule: merge_heads.induct)
  case (2 ck chars toks limits first last_index next_first next_last ranges)
  then show ?case by (auto simp: range_fits_def)
qed simp

lemma pack_tokens_ok:
  "range_chain 0 (pack_tokens ck chars toks limits) (length toks)
     \<and> list_all (range_fits ck chars toks limits) (pack_tokens ck chars toks limits)"
  using cue_loop_ok [of 0 toks ck chars limits] merge_tails_ok [of 0 "[]" "cue_loop ck chars toks limits 0" "length toks" ck chars toks limits]
    merge_heads_ok [of 0 _ _ "length toks" ck chars toks limits]
  by (auto simp: pack_tokens_def merge_orphans_def split: list.splits)

section \<open>Tokens and text\<close>

definition visible :: "rstr \<Rightarrow> rstr" where
  "visible s = filter (\<lambda>c. \<not> is_ws c) s"

lemma visible_append [simp]: "visible (a @ b) = visible a @ visible b"
  by (simp add: visible_def)

lemma visible_blank: "list_all is_ws s \<Longrightarrow> visible s = []"
  by (simp add: visible_def filter_empty_conv list_all_iff)

lemma visible_trim [simp]: "visible (trim s) = visible s"
proof -
  have d: "visible (dropWhile is_ws t) = visible t" for t by (induction t) (auto simp: visible_def)
  have "visible (rev t) = rev (visible t)" for t by (simp add: visible_def rev_filter)
  then show ?thesis using d by (simp add: trim_def trim_end_matches_def)
qed

text \<open>The tokens stand in the text in order, and only white space is between them.\<close>

fun covers :: "rstr \<Rightarrow> nat \<Rightarrow> 't cue_token list \<Rightarrow> bool" where
  "covers chars i [] \<longleftrightarrow> i \<le> length chars \<and> list_all is_ws (drop i chars)"
| "covers chars i (t # ts) \<longleftrightarrow> i \<le> ct_char_start t \<and> ct_char_start t \<le> ct_char_end t \<and> ct_char_end t \<le> length chars
     \<and> list_all is_ws (take (ct_char_start t - i) (drop i chars)) \<and> covers chars (ct_char_end t) ts"

lemma covers_le: "covers chars i ts \<Longrightarrow> i \<le> length chars"
  by (cases ts) auto

lemma covers_nth:
  "covers chars i ts \<Longrightarrow> k < length ts \<Longrightarrow> covers chars (ct_char_end (ts ! k)) (drop (k + 1) ts) \<and> i \<le> ct_char_start (ts ! 0)
     \<and> ct_char_start (ts ! 0) \<le> ct_char_end (ts ! k) \<and> list_all is_ws (take (ct_char_start (ts ! 0) - i) (drop i chars))"
proof (induction ts arbitrary: i k)
  case (Cons t ts)
  show ?case
  proof (cases k)
    case (Suc j)
    with Cons.prems have j: "j < length ts" "covers chars (ct_char_end t) ts" by auto
    then have "ts \<noteq> []" by auto
    with Cons.IH [OF j(2) j(1)] Cons.prems Suc show ?thesis by auto
  qed (use Cons in simp)
qed simp

lemma cut_text: "i \<le> a \<Longrightarrow> a \<le> b \<Longrightarrow> drop i xs = take (a - i) (drop i xs) @ take (b - a) (drop a xs) @ drop b xs"
  by (metis append_take_drop_id drop_drop le_add_diff_inverse2)

lemma range_texts:
  "range_chain a rs (length toks) \<Longrightarrow> covers chars i (drop a toks)
     \<Longrightarrow> concat (map (\<lambda>(f, l). visible (take (ct_char_end (toks ! l) - ct_char_start (toks ! f)) (drop (ct_char_start (toks ! f)) chars))) rs)
         = visible (drop i chars)"
proof (induction rs arbitrary: a i)
  case Nil
  then show ?case using visible_blank by simp
next
  case (Cons r rs)
  obtain f l where r: "r = (f, l)" by fastforce
  have f: "f = a" "a \<le> l" "range_chain (l + 1) rs (length toks)" using Cons.prems(1) by (auto simp: r)
  then have l: "l < length toks" using range_chain_le by fastforce
  have c: "covers chars (ct_char_end (toks ! l)) (drop (l + 1) toks)" "i \<le> ct_char_start (toks ! a)"
    "ct_char_start (toks ! a) \<le> ct_char_end (toks ! l)" "list_all is_ws (take (ct_char_start (toks ! a) - i) (drop i chars))"
    using covers_nth [OF Cons.prems(2), of "l - a"] l f by (auto simp: Suc_diff_le)
  show ?case
    using Cons.IH [OF f(3) c(1)] visible_blank [OF c(4)] by (subst cut_text [OF c(2) c(3)]) (simp add: r f)
qed

lemma synthesize_from_covers:
  "cs = drop i chars \<Longrightarrow> i \<le> length chars \<Longrightarrow> covers chars i (synthesize_from time_at i cs)"
proof (induction time_at i cs rule: synthesize_from.induct)
  case (2 time_at i c cs)
  have i: "i < length chars" using 2(3,4) by (metis drop_eq_Nil list.distinct(1) not_less)
  have cs: "cs = drop (i + 1) chars" using 2(3) by (metis Suc_eq_plus1 drop_Suc list.sel(3) tl_drop)
  have c: "c = chars ! i" using 2(3) i by (metis Cons_nth_drop_Suc list.inject)
  show ?case
  proof (cases "is_ws c")
    case True
    have "covers chars (i + 1) (synthesize_from time_at (i + 1) cs)" using 2(1) [OF True cs] i by simp
    then have "covers chars i (synthesize_from time_at (i + 1) cs)"
    proof (cases "synthesize_from time_at (i + 1) cs")
      case (Cons t ts)
      then have "i + 1 \<le> ct_char_start t" "list_all is_ws (take (ct_char_start t - (i + 1)) (drop (i + 1) chars))"
        using \<open>covers chars (i + 1) (synthesize_from time_at (i + 1) cs)\<close> by auto
      moreover have "take (ct_char_start t - i) (drop i chars) = c # take (ct_char_start t - (i + 1)) (drop (i + 1) chars)"
        using \<open>i + 1 \<le> ct_char_start t\<close> 2(3) cs by (metis Suc_diff_Suc Suc_eq_plus1 less_eq_Suc_le take_Suc_Cons)
      ultimately show ?thesis
        using Cons True \<open>covers chars (i + 1) (synthesize_from time_at (i + 1) cs)\<close> by simp
    next
      case Nil
      then show ?thesis
        using True \<open>covers chars (i + 1) (synthesize_from time_at (i + 1) cs)\<close> 2(3) [symmetric] cs by auto
    qed
    then show ?thesis using True by simp
  next
    case False
    define w where "w = (if is_wide_script c \<or> is_cjk_or_fullwidth_punct c then 1 else 1 + length (takeWhile (\<lambda>d. \<not> breaks_word d) cs))"
    have w: "i + w \<le> length chars"
      using i length_takeWhile_le [of "\<lambda>d. \<not> breaks_word d" cs] by (simp add: w_def cs, linarith)
    have "drop w (c # cs) = drop (i + w) chars" unfolding 2(3) by (simp add: add.commute)
    then have "covers chars (i + w) (synthesize_from time_at (i + w) (drop w (c # cs)))" using 2(2) [OF False w_def] w by simp
    then show ?thesis using False w by (simp add: w_def Let_def)
  qed
qed simp

lemma synthesize_tokens_covers: "covers chars 0 (synthesize_tokens ck chars s e)"
  by (simp add: synthesize_tokens_def Let_def synthesize_from_covers)

text \<open>Spans in order from \<open>i\<close> to \<open>n\<close>, and spans that tile.\<close>

fun spans_ordered :: "nat \<Rightarrow> (nat \<times> nat) list \<Rightarrow> nat \<Rightarrow> bool" where
  "spans_ordered i [] n \<longleftrightarrow> i \<le> n"
| "spans_ordered i ((a, b) # spans) n \<longleftrightarrow> i \<le> a \<and> a \<le> b \<and> spans_ordered b spans n"

fun span_chain :: "nat \<Rightarrow> (nat \<times> nat) list \<Rightarrow> nat \<Rightarrow> bool" where
  "span_chain i [] n \<longleftrightarrow> i = n"
| "span_chain i ((a, b) # spans) n \<longleftrightarrow> a = i \<and> a \<le> b \<and> span_chain b spans n"

lemma spans_ordered_le: "spans_ordered i spans n \<Longrightarrow> i \<le> n"
  by (induction i spans n rule: spans_ordered.induct) auto

lemma skip_whitespace_bounds: "i \<le> skip_whitespace chars i \<and> (i \<le> length chars \<longrightarrow> skip_whitespace chars i \<le> length chars)"
  using length_takeWhile_le [of is_ws "drop i chars"] by (auto simp: skip_whitespace_def)

lemma match_word_loop_bounds:
  "match_word_loop alnum chars cursor first token = Some (s, e) \<Longrightarrow> cursor \<le> length chars
     \<Longrightarrow> (case first of None \<Rightarrow> True | Some f \<Rightarrow> f \<le> cursor)
     \<Longrightarrow> (case first of None \<Rightarrow> cursor \<le> s | Some f \<Rightarrow> s = f) \<and> s \<le> e \<and> e \<le> length chars"
proof (induction alnum chars cursor first token rule: match_word_loop.induct)
  case (2 alnum chars cursor first expected token)
  define c where "c = cursor + length (takeWhile (\<lambda>c. \<not> is_forced_alignment_char alnum c) (drop cursor chars))"
  have c: "c < length chars" "chars ! c = expected"
    using 2(2) by (auto simp: c_def Let_def split: if_splits)
  define f where "f = (case first of None \<Rightarrow> Some c | Some f \<Rightarrow> Some f)"
  have "match_word_loop alnum chars (c + 1) f token = Some (s, e)"
    using 2(2) c by (simp add: c_def [symmetric] f_def Let_def)
  moreover have "cursor \<le> c" by (simp add: c_def)
  ultimately show ?case
    using 2(1) [OF c_def conjI [OF c]] 2(4) c by (auto simp: f_def split: option.splits)
qed (auto split: option.splits)


lemma match_word_span_bounds:
  assumes "match_word_span alnum chars i token = Some (s, e)" "i \<le> length chars"
  shows "i \<le> s \<and> s \<le> e \<and> e \<le> length chars"
  using assms match_word_loop_bounds [of alnum chars i None token s e]
  by (auto simp: match_word_span_def split: if_splits)

lemma word_span_loop_ordered:
  "word_span_loop alnum chars i ws = Some spans \<Longrightarrow> i \<le> length chars \<Longrightarrow> spans_ordered i spans (length chars) \<and> length spans = length ws"
proof (induction ws arbitrary: i spans)
  case (Cons w ws)
  have k: "i \<le> skip_whitespace chars i" "skip_whitespace chars i \<le> length chars"
    using skip_whitespace_bounds Cons.prems(2) by auto
  show ?case
  proof (cases "trim (wt_word w) = []")
    case True
    then show ?thesis using Cons k by (auto simp: Let_def)
  next
    case False
    then obtain s e rest where m: "match_word_span alnum chars (skip_whitespace chars i) (trim (wt_word w)) = Some (s, e)"
      and rest: "word_span_loop alnum chars e ws = Some rest" "spans = (s, e) # rest"
      using Cons.prems(1) by (auto simp: Let_def split: option.splits)
    show ?thesis using match_word_span_bounds [OF m k(2)] k Cons.IH [OF rest(1)] rest(2) by auto
  qed
qed simp

lemma attach_gaps_chain:
  "spans_ordered i ((s, e) # spans) n \<Longrightarrow> span_chain s (set_last n (attach_gaps chars ((s, e) # spans))) n
     \<and> length (set_last n (attach_gaps chars ((s, e) # spans))) = length spans + 1"
proof (induction spans arbitrary: i s e)
  case Nil
  then show ?case using spans_ordered_le by (fastforce simp: set_last_def)
next
  case (Cons sp spans)
  obtain s2 e2 where sp: "sp = (s2, e2)" by fastforce
  define m where "m = (case find (is_opening_punct_at chars) [e ..< s2] of Some j \<Rightarrow> j | None \<Rightarrow> s2)"
  have m: "e \<le> m" "m \<le> s2"
    using Cons.prems unfolding m_def by (auto simp: sp dest!: find_in split: option.splits)
  have o: "spans_ordered m ((m, e2) # spans) n" using Cons.prems m by (auto simp: sp)
  have "attach_gaps chars ((s, e) # sp # spans) = (s, m) # attach_gaps chars ((m, e2) # spans)"
    by (simp add: sp m_def Let_def)
  moreover have "attach_gaps chars ((m, e2) # spans) \<noteq> []" by (cases spans) (auto simp: Let_def)
  ultimately show ?case using Cons.IH [OF o] Cons.prems m by (auto simp: set_last_def)
qed

lemma word_char_spans_chain:
  assumes "word_char_spans alnum chars ws = Some spans" "ws \<noteq> []"
  shows "span_chain 0 spans (length chars) \<and> length spans = length ws"
proof -
  obtain raw where raw: "word_span_loop alnum chars 0 ws = Some raw"
    and spans: "spans = set_last (length chars) (attach_gaps chars (set_first 0 raw))"
    using assms(1) by (auto simp: word_char_spans_def)
  have o: "spans_ordered 0 raw (length chars)" "length raw = length ws" using word_span_loop_ordered [OF raw] by auto
  then obtain s e rest where r: "raw = (s, e) # rest" using assms(2) by (cases raw) auto
  show ?thesis using attach_gaps_chain [of 0 0 e rest "length chars" chars] o by (auto simp: spans r set_first_def)
qed

lemma span_chain_le: "span_chain i spans n \<Longrightarrow> i \<le> n"
  by (induction i spans n rule: span_chain.induct) auto

lemma span_chain_covers:
  "span_chain i spans (length chars) \<Longrightarrow> length ws = length spans
     \<Longrightarrow> covers chars i (map (\<lambda>(w, s, e). \<lparr>ct_char_start = s, ct_char_end = e, ct_start = f w, ct_end = g w\<rparr>) (zip ws spans))"
proof (induction spans arbitrary: i ws)
  case (Cons sp spans)
  then obtain w ws' where "ws = w # ws'" by (cases ws) auto
  then show ?case using Cons span_chain_le by (fastforce split: prod.splits)
qed simp

lemma build_tokens_covers:
  assumes "build_tokens ck alnum seg chars = (toks, real_words)"
  shows "covers chars 0 toks \<and> (if real_words then length toks = length (sg_words seg) else True)"
proof (cases "if 2 \<le> length (sg_words seg) then word_char_spans alnum chars (sg_words seg) else None")
  case None
  then show ?thesis using assms synthesize_tokens_covers by (auto simp: build_tokens_def)
next
  case (Some spans)
  then have "word_char_spans alnum chars (sg_words seg) = Some spans" "sg_words seg \<noteq> []" by (auto split: if_splits)
  from word_char_spans_chain [OF this] show ?thesis
    using assms Some span_chain_covers [of 0 spans chars "sg_words seg"] by (auto simp: build_tokens_def)
qed

section \<open>Text, words and speakers of the cues\<close>

definition speaker_of :: "'t segment \<Rightarrow> rstr option \<times> rstr option \<times> rstr option \<times> rstr option" where
  "speaker_of seg = (sg_speaker seg, sg_speaker_label seg, sg_speaker_person_id seg, sg_speaker_snapshot_label seg)"

lemma concat_filter_all: "(\<And>x. \<not> P x \<Longrightarrow> f x = []) \<Longrightarrow> concat (map f (filter P xs)) = concat (map f xs)"
  by (induction xs) auto

lemma subseq_concat_filter: "subseq (concat (map f (filter P xs))) (concat (map f xs))"
  by (induction xs) (auto intro: list_emb_append_mono list_emb_append2)

lemma range_words:
  "range_chain a rs (length ws) \<Longrightarrow> concat (map (\<lambda>(f, l). take (l + 1 - f) (drop f ws)) rs) = drop a ws"
proof (induction rs arbitrary: a)
  case (Cons r rs)
  obtain f l where r: "r = (f, l)" by fastforce
  have "drop a ws = take (l + 1 - a) (drop a ws) @ drop (l + 1) ws"
    using Cons.prems r by (metis append_take_drop_id drop_drop le_SucI le_add_diff_inverse2 range_chain.simps(2) Suc_eq_plus1)
  then show ?case using Cons by (auto simp: r)
qed simp

lemma cues_cases:
  obtains toks real_words where "build_tokens ck alnum seg (sg_text seg) = (toks, real_words)"
    and "segment_into_cues ck alnum seg = [seg] \<or> segment_into_cues ck alnum seg
      = filter (\<lambda>c. sg_text c \<noteq> []) (map (cue_of_range ck seg (sg_text seg) toks real_words)
          (pack_tokens ck (sg_text seg) toks (cue_limits_of ck (sg_text seg))))"
  by (cases "build_tokens ck alnum seg (sg_text seg)") (auto simp: segment_into_cues_def Let_def)

lemma segment_cues:
  "concat (map (visible \<circ> sg_text) (segment_into_cues ck alnum seg)) = visible (sg_text seg)
   \<and> subseq (concat (map sg_words (segment_into_cues ck alnum seg))) (sg_words seg)
   \<and> list_all (\<lambda>c. speaker_of c = speaker_of seg) (segment_into_cues ck alnum seg)"
proof -
  let ?chars = "sg_text seg"
  obtain toks rw where b: "build_tokens ck alnum seg ?chars = (toks, rw)"
    and cases: "segment_into_cues ck alnum seg = [seg] \<or> segment_into_cues ck alnum seg
      = filter (\<lambda>c. sg_text c \<noteq> []) (map (cue_of_range ck seg ?chars toks rw) (pack_tokens ck ?chars toks (cue_limits_of ck ?chars)))"
    by (rule cues_cases)
  define rs where "rs = pack_tokens ck ?chars toks (cue_limits_of ck ?chars)"
  define all_cues where "all_cues = map (cue_of_range ck seg ?chars toks rw) rs"
  have chain: "range_chain 0 rs (length toks)" using pack_tokens_ok by (auto simp: rs_def)
  have cov: "covers ?chars 0 toks" "rw \<Longrightarrow> length toks = length (sg_words seg)" using build_tokens_covers [OF b] by auto
  have "concat (map (visible \<circ> sg_text) all_cues) = visible ?chars"
    using range_texts [OF chain, of ?chars 0] cov(1) by (simp add: all_cues_def comp_def cue_of_range_def Let_def case_prod_unfold)
  then have t: "concat (map (visible \<circ> sg_text) (filter (\<lambda>c. sg_text c \<noteq> []) all_cues)) = visible ?chars"
    by (subst concat_filter_all) (auto simp: visible_def)
  have "subseq (concat (map sg_words all_cues)) (sg_words seg)"
  proof (cases rw)
    case True
    then show ?thesis
      using range_words [of 0 rs "sg_words seg"] chain cov(2) by (simp add: all_cues_def comp_def cue_of_range_def Let_def case_prod_unfold)
  next
    case False
    then have n: "concat (map sg_words all_cues) = []" by (simp add: all_cues_def cue_of_range_def Let_def case_prod_unfold)
    show ?thesis unfolding n by simp
  qed
  then have w: "subseq (concat (map sg_words (filter (\<lambda>c. sg_text c \<noteq> []) all_cues))) (sg_words seg)"
    using subseq_concat_filter subseq_order.trans by blast
  have sp: "list_all (\<lambda>c. speaker_of c = speaker_of seg) (filter (\<lambda>c. sg_text c \<noteq> []) all_cues)"
    by (auto simp: list_all_iff all_cues_def cue_of_range_def speaker_of_def Let_def)
  show ?thesis using cases t w sp unfolding rs_def [symmetric] all_cues_def [symmetric] by (elim disjE) simp_all
qed

subsection \<open>Words of the cues\<close>

text \<open>
  A word is spoken unless it is blank. The span of a spoken word holds a character that can be
  seen, the later steps only widen spans, and so a cue whose text is blank has no spoken word.
\<close>

definition spoken_word :: "'t word_timestamp \<Rightarrow> bool" where
  "spoken_word w \<longleftrightarrow> trim (wt_word w) \<noteq> []"

definition words_aligned :: "(nat \<Rightarrow> bool) \<Rightarrow> 't segment \<Rightarrow> bool" where
  "words_aligned alnum seg \<longleftrightarrow> 2 \<le> length (sg_words seg) \<and> word_char_spans alnum (sg_text seg) (sg_words seg) \<noteq> None"

definition shows_char :: "rstr \<Rightarrow> nat \<times> nat \<Rightarrow> bool" where
  "shows_char chars rg \<longleftrightarrow> (\<exists>p. fst rg \<le> p \<and> p < snd rg \<and> p < length chars \<and> \<not> is_ws (chars ! p))"

definition span_within :: "nat \<times> nat \<Rightarrow> nat \<times> nat \<Rightarrow> bool" where
  "span_within inner outer \<longleftrightarrow> fst outer \<le> fst inner \<and> snd inner \<le> snd outer"

lemma shows_char_within: "shows_char chars rg \<Longrightarrow> span_within rg rg' \<Longrightarrow> shows_char chars rg'"
  by (auto simp: shows_char_def span_within_def intro: order_trans less_le_trans)

lemma hd_trim: "trim s \<noteq> [] \<Longrightarrow> \<not> is_ws (hd (trim s))"
proof -
  assume "trim s \<noteq> []"
  then have n: "dropWhile is_ws (rev (dropWhile is_ws s)) \<noteq> []" by (simp add: trim_def trim_end_matches_def)
  have "hd (rev (dropWhile is_ws (rev t))) = hd t" if "dropWhile is_ws (rev t) \<noteq> []" for t :: rstr
    using that takeWhile_dropWhile_id [of is_ws "rev t"] by (metis hd_append2 rev_append rev_is_Nil_conv rev_rev_ident)
  from this [OF n] have "hd (trim s) = hd (dropWhile is_ws s)" by (simp add: trim_def trim_end_matches_def)
  moreover have "dropWhile is_ws s \<noteq> []" using n by (metis dropWhile.simps(1) rev.simps(1))
  ultimately show ?thesis by (simp add: hd_dropWhile)
qed

lemma match_word_loop_first:
  "match_word_loop alnum chars cursor (Some f) token = Some (s, e) \<Longrightarrow> f < cursor \<Longrightarrow> s = f \<and> f < e"
proof (induction token arbitrary: cursor)
  case (Cons expected token)
  then show ?case by (fastforce simp: Let_def split: if_splits)
qed simp

lemma match_word_span_shows:
  assumes "match_word_span alnum chars i token = Some (s, e)" "token \<noteq> []" "\<not> is_ws (hd token)"
  shows "shows_char chars (s, e)"
proof (cases "i + length token \<le> length chars \<and> take (length token) (drop i chars) = token")
  case True
  then have "chars ! i = hd token" "i < length chars"
    using assms(2) by (metis hd_drop_conv_nth hd_take length_greater_0_conv less_le_trans less_add_same_cancel1)+
  then show ?thesis using True assms by (cases token) (auto simp: match_word_span_def shows_char_def)
next
  case False
  obtain expected rest where token: "token = expected # rest" using assms(2) by (cases token) auto
  define c where "c = i + length (takeWhile (\<lambda>c. \<not> is_forced_alignment_char alnum c) (drop i chars))"
  have "match_word_loop alnum chars i None token = Some (s, e)" using assms(1) False by (auto simp: match_word_span_def split: if_splits)
  then have "c < length chars" "chars ! c = expected" "match_word_loop alnum chars (c + 1) (Some c) rest = Some (s, e)"
    by (auto simp: token c_def Let_def split: if_splits)
  then show ?thesis using match_word_loop_first [of alnum chars "c + 1" c rest s e] assms(3) by (auto simp: shows_char_def token)
qed

lemma word_span_loop_shows:
  "word_span_loop alnum chars i ws = Some spans \<Longrightarrow> list_all2 (\<lambda>w rg. spoken_word w \<longrightarrow> shows_char chars rg) ws spans"
proof (induction ws arbitrary: i spans)
  case (Cons w ws)
  show ?case
  proof (cases "spoken_word w")
    case True
    then obtain s e rest where m: "match_word_span alnum chars (skip_whitespace chars i) (trim (wt_word w)) = Some (s, e)"
      and rest: "word_span_loop alnum chars e ws = Some rest" "spans = (s, e) # rest"
      using Cons.prems by (auto simp: Let_def spoken_word_def split: option.splits)
    then show ?thesis using match_word_span_shows [OF m] hd_trim True Cons.IH by (auto simp: spoken_word_def)
  next
    case False
    then show ?thesis using Cons by (auto simp: Let_def spoken_word_def)
  qed
qed simp

lemma attach_gaps_widens:
  "spans_ordered i ((s, e) # spans) n \<Longrightarrow> list_all2 span_within ((s, e) # spans) (set_last n (attach_gaps chars ((s, e) # spans)))"
proof (induction spans arbitrary: i s e)
  case Nil
  then show ?case by (simp add: set_last_def span_within_def)
next
  case (Cons rg spans)
  obtain s2 e2 where rg: "rg = (s2, e2)" by fastforce
  define m where "m = (case find (is_opening_punct_at chars) [e ..< s2] of Some j \<Rightarrow> j | None \<Rightarrow> s2)"
  have m: "e \<le> m" "m \<le> s2"
    using Cons.prems unfolding m_def by (auto simp: rg dest!: find_in split: option.splits)
  have o: "spans_ordered m ((m, e2) # spans) n" using Cons.prems m by (auto simp: rg)
  have "attach_gaps chars ((m, e2) # spans) \<noteq> []" by (cases spans) (auto simp: Let_def)
  then have "set_last n (attach_gaps chars ((s, e) # rg # spans)) = (s, m) # set_last n (attach_gaps chars ((m, e2) # spans))"
    by (simp add: rg m_def Let_def set_last_def)
  then show ?case using Cons.IH [OF o] m by (auto simp: rg span_within_def list_all2_Cons1)
qed

lemma word_char_spans_show:
  assumes "word_char_spans alnum chars ws = Some spans"
  shows "list_all2 (\<lambda>w rg. spoken_word w \<longrightarrow> shows_char chars rg) ws spans"
proof -
  obtain raw where raw: "word_span_loop alnum chars 0 ws = Some raw"
    and spans: "spans = set_last (length chars) (attach_gaps chars (set_first 0 raw))"
    using assms by (auto simp: word_char_spans_def)
  have shown: "list_all2 (\<lambda>w rg. spoken_word w \<longrightarrow> shows_char chars rg) ws raw" by (rule word_span_loop_shows [OF raw])
  show ?thesis
  proof (cases raw)
    case Nil
    then show ?thesis using shown by (simp add: spans set_first_def set_last_def)
  next
    case (Cons r rest)
    obtain s e where r: "r = (s, e)" by fastforce
    have "spans_ordered 0 raw (length chars)" using word_span_loop_ordered [OF raw] by simp
    then have "list_all2 span_within ((0, e) # rest) spans"
      using attach_gaps_widens [of 0 0 e rest "length chars" chars] by (simp add: spans Cons r set_first_def)
    then have "list_all2 span_within raw spans" by (auto simp: Cons r span_within_def list_all2_Cons1)
    then show ?thesis using shown by (simp add: list_all2_conv_all_nth) (metis shows_char_within)
  qed
qed

lemma covers_mono:
  "covers chars i ts \<Longrightarrow> j \<le> k \<Longrightarrow> k < length ts
     \<Longrightarrow> ct_char_start (ts ! j) \<le> ct_char_start (ts ! k) \<and> ct_char_end (ts ! j) \<le> ct_char_end (ts ! k)
       \<and> i \<le> ct_char_start (ts ! j) \<and> ct_char_start (ts ! k) \<le> ct_char_end (ts ! k)"
proof (induction ts arbitrary: i j k)
  case (Cons t ts)
  show ?case
  proof (cases k)
    case (Suc k')
    then have k: "covers chars (ct_char_end t) ts" "k' < length ts" using Cons.prems by auto
    then show ?thesis using Cons.prems Cons.IH [of "ct_char_end t" k' k'] Cons.IH [of "ct_char_end t" "j - 1" k'] Suc
      by (cases j) auto
  qed (use Cons in auto)
qed simp

lemma blank_range_unspoken:
  assumes "covers chars 0 toks" "f \<le> l" "l < length toks" "k \<in> {f..l}"
    and "shows_char chars (ct_char_start (toks ! k), ct_char_end (toks ! k))"
  shows "trim (take (ct_char_end (toks ! l) - ct_char_start (toks ! f)) (drop (ct_char_start (toks ! f)) chars)) \<noteq> []"
proof -
  obtain p where p: "ct_char_start (toks ! k) \<le> p" "p < ct_char_end (toks ! k)" "p < length chars" "\<not> is_ws (chars ! p)"
    using assms(5) by (auto simp: shows_char_def)
  let ?a = "ct_char_start (toks ! f)" and ?b = "ct_char_end (toks ! l)"
  have ab: "?a \<le> p" "p < ?b"
    using covers_mono [OF assms(1), of f k] covers_mono [OF assms(1), of k l] assms(3,4) p by auto
  then have "chars ! p \<in> set (take (?b - ?a) (drop ?a chars))"
    using p(3) by (auto simp: in_set_conv_nth intro!: exI [of _ "p - ?a"])
  with p(4) have "visible (take (?b - ?a) (drop ?a chars)) \<noteq> []" by (auto simp: visible_def filter_empty_conv)
  then show ?thesis using visible_trim by (metis filter.simps(1) visible_def)
qed

lemma concat_filter_in: "(\<And>x. x \<in> set xs \<Longrightarrow> \<not> P x \<Longrightarrow> f x = []) \<Longrightarrow> concat (map f (filter P xs)) = concat (map f xs)"
  by (induction xs) auto

lemma range_chain_in: "range_chain a rs n \<Longrightarrow> (f, l) \<in> set rs \<Longrightarrow> f \<le> l \<and> l < n"
proof (induction a rs n rule: range_chain.induct)
  case (2 s a b rs n)
  then show ?case using range_chain_le [of "b + 1" rs n] by auto
qed simp

lemma build_tokens_real:
  assumes "build_tokens ck alnum seg (sg_text seg) = (toks, real_words)"
  shows "real_words = words_aligned alnum seg"
    and "real_words \<Longrightarrow> k < length toks \<Longrightarrow> spoken_word (sg_words seg ! k)
           \<Longrightarrow> shows_char (sg_text seg) (ct_char_start (toks ! k), ct_char_end (toks ! k))"
proof -
  show "real_words = words_aligned alnum seg" using assms by (auto simp: build_tokens_def words_aligned_def split: if_splits option.splits)
  assume k: real_words "k < length toks" "spoken_word (sg_words seg ! k)"
  then obtain spans where s: "word_char_spans alnum (sg_text seg) (sg_words seg) = Some spans"
    and toks: "toks = map (\<lambda>(w, s, e). \<lparr>ct_char_start = s, ct_char_end = e, ct_start = wt_start w, ct_end = ck_max ck (wt_end w) (wt_start w)\<rparr>)
             (zip (sg_words seg) spans)"
    using assms by (auto simp: build_tokens_def split: if_splits option.splits)
  show "shows_char (sg_text seg) (ct_char_start (toks ! k), ct_char_end (toks ! k))"
    using word_char_spans_show [OF s] k by (auto simp: toks list_all2_conv_all_nth split: prod.splits)
qed

lemma segment_words:
  "filter spoken_word (concat (map sg_words (segment_into_cues ck alnum seg)))
     = (if length (segment_into_cues ck alnum seg) = 1 \<or> words_aligned alnum seg then filter spoken_word (sg_words seg) else [])
   \<and> (length (segment_into_cues ck alnum seg) = 1 \<longrightarrow> segment_into_cues ck alnum seg = [seg])"
proof (cases "segment_into_cues ck alnum seg = [seg]")
  case False
  let ?chars = "sg_text seg"
  obtain toks rw where b: "build_tokens ck alnum seg ?chars = (toks, rw)" by fastforce
  define rs where "rs = pack_tokens ck ?chars toks (cue_limits_of ck ?chars)"
  define all_cues where "all_cues = map (cue_of_range ck seg ?chars toks rw) rs"
  have cues: "segment_into_cues ck alnum seg = filter (\<lambda>c. sg_text c \<noteq> []) all_cues" "length (segment_into_cues ck alnum seg) \<noteq> 1"
    using False by (auto simp: segment_into_cues_def b Let_def rs_def all_cues_def split: if_splits)
  have chain: "range_chain 0 rs (length toks)" using pack_tokens_ok by (auto simp: rs_def)
  have cov: "covers ?chars 0 toks" "rw \<Longrightarrow> length toks = length (sg_words seg)" using build_tokens_covers [OF b] by auto
  have blank: "filter spoken_word (sg_words c) = []" if c: "c \<in> set all_cues" "\<not> sg_text c \<noteq> []" for c
  proof (cases rw)
    case True
    obtain f l where r: "(f, l) \<in> set rs" "c = cue_of_range ck seg ?chars toks rw (f, l)" using c by (auto simp: all_cues_def)
    have fl: "f \<le> l" "l < length toks" using range_chain_in [OF chain r(1)] by auto
    have "\<not> spoken_word (sg_words seg ! k)" if "k \<in> {f..l}" for k
      using blank_range_unspoken [OF cov(1) fl that] build_tokens_real(2) [OF b True, of k] that fl c(2)
      by (auto simp: r(2) cue_of_range_def Let_def)
    then show ?thesis using True fl cov(2)
      by (auto simp: r(2) cue_of_range_def Let_def filter_empty_conv in_set_conv_nth)
  next
    case False
    then show ?thesis using c by (auto simp: all_cues_def cue_of_range_def Let_def)
  qed
  have "filter spoken_word (concat (map sg_words (segment_into_cues ck alnum seg)))
      = concat (map (filter spoken_word \<circ> sg_words) (filter (\<lambda>c. sg_text c \<noteq> []) all_cues))"
    by (simp add: cues filter_concat)
  also have "\<dots> = concat (map (filter spoken_word \<circ> sg_words) all_cues)" by (rule concat_filter_in) (simp add: blank)
  also have "\<dots> = filter spoken_word (concat (map sg_words all_cues))" by (simp add: filter_concat)
  also have "concat (map sg_words all_cues) = (if rw then sg_words seg else [])"
    using range_words [of 0 rs "sg_words seg"] chain cov(2)
    by (auto simp: all_cues_def comp_def cue_of_range_def Let_def case_prod_unfold)
  finally show ?thesis using cues(2) build_tokens_real(1) [OF b] by simp
qed simp

lemma layout_loop_fields:
  "map sg_text (layout_loop ck a cues) = map sg_text cues" "map sg_words (layout_loop ck a cues) = map sg_words cues"
  "map speaker_of (layout_loop ck a cues) = map speaker_of cues" "map sg_start (layout_loop ck a cues) = map sg_start cues"
  by (induction cues) (simp_all add: speaker_of_def)

lemma map_speaker: "list_all (\<lambda>c. f c = x) cs \<Longrightarrow> map f cs = replicate (length cs) x"
  by (induction cs) auto

section \<open>Properties\<close>

text \<open>
  C11. Splitting into cues never rewrites the transcript: put together, the texts of all cues are the
  texts of the segments, character for character apart from white space. The words of the cues are
  words of the segments in their order, none twice. A segment that is not split, or that has two or
  more words that match its text, loses no word that is not blank; any other segment that is split
  gives cues without words. Every cue carries the speaker of the one segment it was cut from.
\<close>

theorem cues_keep_transcript:
  "concat (map (visible \<circ> sg_text) (resegment_segments_into_cues ck alnum segments audio_duration)) = concat (map (visible \<circ> sg_text) segments)
   \<and> subseq (concat (map sg_words (resegment_segments_into_cues ck alnum segments audio_duration))) (concat (map sg_words segments))
   \<and> filter spoken_word (concat (map sg_words (resegment_segments_into_cues ck alnum segments audio_duration)))
       = concat (map (\<lambda>s. if length (segment_into_cues ck alnum s) = 1 \<or> words_aligned alnum s then filter spoken_word (sg_words s) else []) segments)
   \<and> map speaker_of (resegment_segments_into_cues ck alnum segments audio_duration)
       = concat (map (\<lambda>s. replicate (length (segment_into_cues ck alnum s)) (speaker_of s)) segments)"
proof -
  define cues where "cues = concat (map (segment_into_cues ck alnum) segments)"
  obtain a where r: "resegment_segments_into_cues ck alnum segments audio_duration = layout_loop ck a cues"
    by (simp add: resegment_segments_into_cues_def layout_cue_display_ends_def cues_def)
  have "concat (map (visible \<circ> sg_text) cues) = concat (map (visible \<circ> sg_text) segments)"
    unfolding cues_def by (induction segments) (simp_all add: segment_cues [unfolded comp_def])
  moreover have "subseq (concat (map sg_words cues)) (concat (map sg_words segments))"
    unfolding cues_def by (induction segments) (simp_all add: segment_cues list_emb_append_mono)
  moreover have "filter spoken_word (concat (map sg_words cues))
      = concat (map (\<lambda>s. if length (segment_into_cues ck alnum s) = 1 \<or> words_aligned alnum s then filter spoken_word (sg_words s) else []) segments)"
    unfolding cues_def by (induction segments) (simp_all add: segment_words del: filter_concat)
  moreover have "map speaker_of cues = concat (map (\<lambda>s. replicate (length (segment_into_cues ck alnum s)) (speaker_of s)) segments)"
    unfolding cues_def by (induction segments) (simp_all add: segment_cues map_speaker)
  moreover have "map (visible \<circ> sg_text) (layout_loop ck a cues) = map (visible \<circ> sg_text) cues"
    by (metis layout_loop_fields(1) map_map)
  ultimately show ?thesis unfolding r by (simp add: layout_loop_fields)
qed

text \<open>
  C37. The packer groups the tokens of a segment into ranges that follow one another without gap from
  the first token to the last, and no range breaks the limits: it fits the characters, the
  seconds and the reading speed of a cue (with the preferred or the hard duration), or it is a
  single word with the punctuation attached to it.
\<close>

theorem cue_ranges_tile_and_fit:
  "range_chain 0 (pack_tokens ck chars toks limits) (length toks)
   \<and> list_all (\<lambda>(first, last_index).
       fits ck chars toks first last_index limits (ck_lit ck TARGET_CUE_SECONDS)
       \<or> fits ck chars toks first last_index limits (ck_lit ck MAX_CUE_SECONDS)
       \<or> last_index \<le> attached_punctuation_end chars toks first) (pack_tokens ck chars toks limits)"
  using pack_tokens_ok [of ck chars toks limits] by (auto simp: range_fits_def list_all_iff)

section \<open>Display times\<close>

locale ordered_clock =
  fixes ck :: "'t clock_arith"
  assumes le_refl: "ck_le ck a a"
    and le_trans: "ck_le ck a b \<Longrightarrow> ck_le ck b c \<Longrightarrow> ck_le ck a c"
    and le_total: "ck_le ck a b \<or> ck_le ck b a"
    and lt_le: "ck_lt ck a b \<longleftrightarrow> \<not> ck_le ck b a"
    and max_def: "ck_max ck a b = (if ck_le ck a b then b else a)"
    and min_def: "ck_min ck a b = (if ck_le ck a b then a else b)"
begin

lemma max_upper: "ck_le ck a (ck_max ck a b)" "ck_le ck b (ck_max ck a b)"
  using le_total le_refl by (auto simp: max_def)

lemma min_lower: "ck_le ck (ck_min ck a b) a" "ck_le ck (ck_min ck a b) b"
  using le_total le_refl by (auto simp: min_def)

lemma max_least: "ck_le ck a c \<Longrightarrow> ck_le ck b c \<Longrightarrow> ck_le ck (ck_max ck a b) c"
  by (simp add: max_def)

lemma max_min_bound: "ck_le ck (ck_max ck (ck_min ck a h) s) (ck_max ck s h)" "ck_le ck (ck_max ck (ck_min ck h a) s) (ck_max ck s h)"
  by (blast intro: max_least max_upper le_trans [OF min_lower(1)] le_trans [OF min_lower(2)])+

lemma max_mono: "ck_le ck h b \<Longrightarrow> ck_le ck (ck_max ck s h) (ck_max ck s b)"
  by (blast intro: max_least max_upper le_trans)

lemma display_end_for_cps_bounds:
  "ck_le ck s (display_end_for_cps ck s a h content cps) \<and> ck_le ck (display_end_for_cps ck s a h content cps) (ck_max ck s h)"
  using max_upper max_min_bound by (simp add: display_end_for_cps_def Let_def)

lemma display_end_start: "ck_le ck (sg_start cue) (display_end ck audio next_start cue)"
  using display_end_for_cps_bounds max_upper(2) by (simp add: display_end_def Let_def split: option.split)

lemma display_end_below:
  assumes "case next_start of Some t \<Rightarrow> ck_le ck t b | None \<Rightarrow> (case audio of Some d \<Rightarrow> ck_le ck d b | None \<Rightarrow> False)"
  shows "ck_le ck (display_end ck audio next_start cue) (ck_max ck (sg_start cue) b)"
  using assms
  by (auto simp: display_end_def Let_def split: option.splits
      intro!: le_trans [OF conjunct2 [OF display_end_for_cps_bounds]] max_mono intro: le_trans [OF min_lower(1)])

lemma display_end_audio:
  "audio = Some d \<Longrightarrow> ck_le ck (display_end ck audio next_start cue) (ck_max ck (sg_start cue) d)"
  by (auto simp: display_end_def Let_def split: option.splits
      intro!: le_trans [OF conjunct2 [OF display_end_for_cps_bounds]] max_mono intro: le_trans [OF min_lower(1)] min_lower)

lemma layout_loop_bounds:
  "i < length cues \<Longrightarrow> (case (cues ! i, layout_loop ck audio cues ! i) of (c, l) \<Rightarrow>
     l = c\<lparr>sg_end := sg_end l\<rparr> \<and> ck_le ck (sg_start c) (sg_end l)
     \<and> (case audio of Some d \<Rightarrow> ck_le ck (sg_end l) (ck_max ck (sg_start c) d) | None \<Rightarrow> True)
     \<and> (if i + 1 < length cues then ck_le ck (sg_end l) (ck_max ck (sg_start c) (sg_start (cues ! (i + 1)))) else True))"
proof (induction cues arbitrary: i)
  case (Cons cue cues)
  show ?case
  proof (cases i)
    case 0
    then show ?thesis
      using display_end_start display_end_audio display_end_below [where b = "sg_start (cues ! 0)"] le_refl
      by (cases cues) (auto split: option.splits)
  next
    case (Suc j)
    then show ?thesis using Cons.IH [of j] Cons.prems by (auto split: if_splits)
  qed
qed simp

end


definition exact_clock :: "rat clock_arith" where
  "exact_clock = \<lparr>ck_seam = \<lparr>sm_lit = (\<lambda>x. x), sm_add = (+), sm_sub = (-), sm_mul = (*), sm_lt = (<), sm_le = (\<le>),
     sm_ratio = (\<lambda>a b. of_nat a / of_nat b)\<rparr>,
     ck_max = max, ck_min = min, ck_div = (/), ck_of_nat = of_nat, ck_is_finite = (\<lambda>_. True)\<rparr>"

interpretation exact: ordered_clock exact_clock
  by unfold_locales (auto simp: exact_clock_def max_def min_def)

text \<open>
  C38. The layout of the display times changes nothing but the ends of the cues, and keeps them in
  bounds: a cue is not shown past the start of the next cue nor past the end of the audio
  (unless it starts there itself), and never ends before it starts. For any totally ordered clock.
\<close>

theorem display_ends_bounded:
  assumes "ordered_clock ck" and "i < length cues"
  shows "case layout_cue_display_ends ck cues audio_duration ! i of shown \<Rightarrow>
     shown = (cues ! i)\<lparr>sg_end := sg_end shown\<rparr> \<and> ck_le ck (sg_start (cues ! i)) (sg_end shown)
     \<and> (if i + 1 < length cues then ck_le ck (sg_end shown) (ck_max ck (sg_start (cues ! i)) (sg_start (cues ! (i + 1)))) else True)
     \<and> (case audio_duration of
          None \<Rightarrow> True
        | Some d \<Rightarrow> if ck_is_finite ck d \<and> ck_le ck (ck_lit ck 0) d then ck_le ck (sg_end shown) (ck_max ck (sg_start (cues ! i)) d) else True)"
  using ordered_clock.layout_loop_bounds [OF assms(1,2), of
      "case audio_duration of None \<Rightarrow> None | Some d \<Rightarrow> if ck_is_finite ck d \<and> ck_le ck (ck_lit ck 0) d then Some d else None"]
  unfolding layout_cue_display_ends_def by (auto split: option.splits if_splits)

definition sample_cue :: "rat \<Rightarrow> rat \<Rightarrow> string \<Rightarrow> rat segment" where
  "sample_cue s e t = \<lparr>sg_start = s, sg_end = e, sg_text = lit t, sg_speaker = None, sg_speaker_label = None,
     sg_speaker_person_id = None, sg_speaker_snapshot_label = None, sg_words = []\<rparr>"

theorem display_ends_bounded_witness:
  "sg_end (layout_cue_display_ends exact_clock [sample_cue 0 5 ''Hi'', sample_cue 3 9 ''there''] (Some 10) ! 0) \<le> 3"
  using display_ends_bounded [OF exact.ordered_clock_axioms, of 0 "[sample_cue 0 5 ''Hi'', sample_cue 3 9 ''there'']" "Some 10"]
  by (simp add: exact_clock_def sample_cue_def)

end
