(* ===== verification/Longform_Timeline.thy ===== *)
theory Longform_Timeline
  imports Subtitle_Cues
begin

text \<open>
  The timeline of a recording whose pauses were cut out (\<open>crates/openasr-core/src/longform/timeline.rs\<close>):
  anchors pair a time of the processed audio with a time of the original, and times between two
  anchors are interpolated.
\<close>

section \<open>Anchors\<close>

record 't timeline_anchor =
  an_processed_seconds :: 't
  an_original_seconds :: 't

record 't timeline_map =
  tm_anchors :: "'t timeline_anchor list"

definition f32_epsilon_value :: rat where "f32_epsilon_value = 1 / 2 ^ 23"

definition timeline_identity :: "'t clock_arith \<Rightarrow> 't timeline_map" where
  "timeline_identity ck = \<lparr>tm_anchors = [\<lparr>an_processed_seconds = ck_lit ck 0, an_original_seconds = ck_lit ck 0\<rparr>,
     \<lparr>an_processed_seconds = ck_lit ck 1, an_original_seconds = ck_lit ck 1\<rparr>]\<rparr>"

text \<open>A stable sort by the processed time; times that do not compare count as equal.\<close>

fun insert_anchor :: "'t clock_arith \<Rightarrow> 't timeline_anchor \<Rightarrow> 't timeline_anchor list \<Rightarrow> 't timeline_anchor list" where
  "insert_anchor ck a [] = [a]"
| "insert_anchor ck a (b # bs) =
     (if ck_lt ck (an_processed_seconds b) (an_processed_seconds a) then b # insert_anchor ck a bs else a # b # bs)"

definition sort_anchors :: "'t clock_arith \<Rightarrow> 't timeline_anchor list \<Rightarrow> 't timeline_anchor list" where
  "sort_anchors ck anchors = foldr (insert_anchor ck) anchors []"

function dedup_anchors :: "'t clock_arith \<Rightarrow> 't timeline_anchor list \<Rightarrow> 't timeline_anchor list" where
  "dedup_anchors ck (a # b # rest) =
     (if ck_le ck (an_processed_seconds b) (an_processed_seconds a) \<and> ck_le ck (an_processed_seconds a) (an_processed_seconds b)
      then dedup_anchors ck (a # rest) else a # dedup_anchors ck (b # rest))"
| "dedup_anchors ck [a] = [a]"
| "dedup_anchors ck [] = []"
  by pat_completeness auto

termination dedup_anchors
  by (relation "measure (\<lambda>(_, xs). length xs)") auto

definition from_anchors :: "'t clock_arith \<Rightarrow> 't timeline_anchor list \<Rightarrow> 't timeline_map" where
  "from_anchors ck anchors =
     (if anchors = [] then timeline_identity ck
      else let kept = dedup_anchors ck (sort_anchors ck anchors)
           in \<lparr>tm_anchors = (if length kept = 1
                then kept @ [\<lparr>an_processed_seconds = ck_add ck (an_processed_seconds (kept ! 0)) (ck_lit ck 1),
                              an_original_seconds = ck_add ck (an_original_seconds (kept ! 0)) (ck_lit ck 1)\<rparr>]
                else kept)\<rparr>)"

section \<open>The map\<close>

definition extrapolate_with_pair :: "'t clock_arith \<Rightarrow> 't \<Rightarrow> 't timeline_anchor \<Rightarrow> 't timeline_anchor \<Rightarrow> 't" where
  "extrapolate_with_pair ck p left right =
     (let den = ck_sub ck (an_processed_seconds right) (an_processed_seconds left)
      in if ck_le ck den (ck_lit ck f32_epsilon_value) \<and> ck_le ck (ck_lit ck (- f32_epsilon_value)) den then an_original_seconds left
         else let t = ck_div ck (ck_sub ck p (an_processed_seconds left)) den
              in ck_add ck (an_original_seconds left) (ck_mul ck (ck_sub ck (an_original_seconds right) (an_original_seconds left)) t))"

function search_anchor :: "'t clock_arith \<Rightarrow> 't timeline_anchor list \<Rightarrow> 't \<Rightarrow> nat \<Rightarrow> nat \<Rightarrow> nat \<times> nat" where
  "search_anchor ck anchors p low high =
     (if 1 < high - low
      then let mid = low + (high - low) div 2
           in if ck_le ck (an_processed_seconds (anchors ! mid)) p then search_anchor ck anchors p mid high
              else search_anchor ck anchors p low mid
      else (low, high))"
  by pat_completeness auto

termination search_anchor
  by (relation "measure (\<lambda>(_, _, _, low, high). high - low)") auto

declare search_anchor.simps [simp del]

definition map_processed_to_original_seconds :: "'t clock_arith \<Rightarrow> 't timeline_map \<Rightarrow> 't \<Rightarrow> 't" where
  "map_processed_to_original_seconds ck tm p =
     (let anchors = tm_anchors tm; last_index = length anchors - 1
      in if \<not> ck_is_finite ck p then p
         else if ck_le ck p (an_processed_seconds (anchors ! 0))
         then extrapolate_with_pair ck p (anchors ! 0) (anchors ! (min 1 last_index))
         else if ck_le ck (an_processed_seconds (anchors ! last_index)) p
         then extrapolate_with_pair ck p (anchors ! (last_index - 1)) (anchors ! last_index)
         else case search_anchor ck anchors p 0 last_index of (low, high) \<Rightarrow>
           let left = anchors ! low; right = anchors ! high;
               den = ck_sub ck (an_processed_seconds right) (an_processed_seconds left)
           in if ck_le ck den (ck_lit ck f32_epsilon_value) then an_original_seconds left
              else let t = ck_div ck (ck_sub ck p (an_processed_seconds left)) den
                   in ck_add ck (an_original_seconds left) (ck_mul ck (ck_sub ck (an_original_seconds right) (an_original_seconds left)) t))"

section \<open>Sorted anchors\<close>

text \<open>Anchors whose processed times rise and whose original times never fall.\<close>

definition anchors_rise :: "rat timeline_anchor list \<Rightarrow> bool" where
  "anchors_rise anchors \<longleftrightarrow> sorted_wrt (\<lambda>a b. an_processed_seconds a < an_processed_seconds b \<and> an_original_seconds a \<le> an_original_seconds b) anchors"

definition consistent_anchors :: "rat timeline_anchor list \<Rightarrow> bool" where
  "consistent_anchors anchors \<longleftrightarrow> (\<forall>a \<in> set anchors. \<forall>b \<in> set anchors.
     an_processed_seconds a < an_processed_seconds b \<longrightarrow> an_original_seconds a \<le> an_original_seconds b)"

lemma exact_clock_simps [simp]:
  "ck_lit exact_clock = (\<lambda>x. x)" "ck_add exact_clock = (+)" "ck_sub exact_clock = (-)" "ck_mul exact_clock = (*)"
  "ck_lt exact_clock = (<)" "ck_le exact_clock = (\<le>)" "ck_max exact_clock = max" "ck_min exact_clock = min"
  "ck_div exact_clock = (/)" "ck_of_nat exact_clock = of_nat" "ck_is_finite exact_clock = (\<lambda>_. True)"
  by (simp_all add: exact_clock_def)

lemma set_insert_anchor [simp]: "set (insert_anchor ck a bs) = insert a (set bs)"
  by (induction bs) auto

lemma set_sort_anchors [simp]: "set (sort_anchors ck anchors) = set anchors"
  by (induction anchors) (auto simp: sort_anchors_def)

lemma sorted_insert_anchor:
  "sorted_wrt (\<lambda>a b. an_processed_seconds a \<le> an_processed_seconds b) bs
     \<Longrightarrow> sorted_wrt (\<lambda>a b. an_processed_seconds a \<le> an_processed_seconds b) (insert_anchor exact_clock a bs)"
  by (induction bs) force+

lemma sorted_sort_anchors: "sorted_wrt (\<lambda>a b. an_processed_seconds a \<le> an_processed_seconds b) (sort_anchors exact_clock anchors)"
  by (induction anchors) (simp_all add: sort_anchors_def sorted_insert_anchor)

lemma dedup_anchors_ok:
  "sorted_wrt (\<lambda>a b. an_processed_seconds a \<le> an_processed_seconds b) xs
     \<Longrightarrow> sorted_wrt (\<lambda>a b. an_processed_seconds a < an_processed_seconds b) (dedup_anchors exact_clock xs)
       \<and> set (dedup_anchors exact_clock xs) \<subseteq> set xs \<and> (xs \<noteq> [] \<longrightarrow> dedup_anchors exact_clock xs \<noteq> [])"
proof (induction "exact_clock" xs rule: dedup_anchors.induct)
  case (1 a b rest)
  show ?case
  proof (cases "an_processed_seconds a = an_processed_seconds b")
    case True
    then show ?thesis using 1 by auto
  next
    case False
    then have lt: "an_processed_seconds a < an_processed_seconds b" using 1 by force
    have sorted: "sorted_wrt (\<lambda>a b. an_processed_seconds a \<le> an_processed_seconds b) (b # rest)" using 1(3) by auto
    from 1(2) [OF _ sorted] lt
    have ih: "sorted_wrt (\<lambda>a b. an_processed_seconds a < an_processed_seconds b) (dedup_anchors exact_clock (b # rest))"
      "set (dedup_anchors exact_clock (b # rest)) \<subseteq> set (b # rest)" by auto
    have "an_processed_seconds a < an_processed_seconds c" if "c \<in> set (dedup_anchors exact_clock (b # rest))" for c
    proof -
      have "c \<in> set (b # rest)" using that ih(2) by blast
      then have "an_processed_seconds b \<le> an_processed_seconds c" using sorted by auto
      then show ?thesis using lt by simp
    qed
    then show ?thesis using ih lt by auto
  qed
qed simp_all

lemma from_anchors_rise:
  assumes "consistent_anchors anchors"
  shows "anchors_rise (tm_anchors (from_anchors exact_clock anchors)) \<and> 2 \<le> length (tm_anchors (from_anchors exact_clock anchors))"
proof (cases "anchors = []")
  case True
  then show ?thesis by (simp add: from_anchors_def timeline_identity_def anchors_rise_def)
next
  case False
  define kept where "kept = dedup_anchors exact_clock (sort_anchors exact_clock anchors)"
  have ne: "sort_anchors exact_clock anchors \<noteq> []" using False set_sort_anchors [of exact_clock anchors] by (metis set_empty)
  have k: "sorted_wrt (\<lambda>a b. an_processed_seconds a < an_processed_seconds b) kept" "set kept \<subseteq> set anchors" "kept \<noteq> []"
    using dedup_anchors_ok [OF sorted_sort_anchors [of anchors]] ne by (auto simp: kept_def)
  have "anchors_rise kept"
    unfolding anchors_rise_def
    by (rule sorted_wrt_mono_rel [OF _ k(1)]) (use assms k(2) in \<open>auto simp: consistent_anchors_def\<close>)
  moreover have "tm_anchors (from_anchors exact_clock anchors) = (if length kept = 1
      then kept @ [\<lparr>an_processed_seconds = an_processed_seconds (kept ! 0) + 1, an_original_seconds = an_original_seconds (kept ! 0) + 1\<rparr>] else kept)"
    using False by (simp add: from_anchors_def kept_def [symmetric] Let_def)
  ultimately show ?thesis using k(3)
    by (cases kept; cases "tl kept") (auto simp: anchors_rise_def)
qed

section \<open>Brackets\<close>

definition bracket :: "rat timeline_anchor list \<Rightarrow> nat \<Rightarrow> rat \<Rightarrow> bool" where
  "bracket anchors k p \<longleftrightarrow> k + 1 < length anchors \<and> (k = 0 \<or> an_processed_seconds (anchors ! k) \<le> p)
     \<and> (k + 2 = length anchors \<or> p < an_processed_seconds (anchors ! (k + 1)))"

definition on_piece :: "rat timeline_anchor list \<Rightarrow> nat \<Rightarrow> rat \<Rightarrow> rat" where
  "on_piece anchors k p =
     (let l = anchors ! k; r = anchors ! (k + 1); den = an_processed_seconds r - an_processed_seconds l
      in if den \<le> f32_epsilon_value then an_original_seconds l
         else an_original_seconds l + (an_original_seconds r - an_original_seconds l) * ((p - an_processed_seconds l) / den))"

lemma search_anchor_spec:
  "low < high \<Longrightarrow> an_processed_seconds (anchors ! low) \<le> p \<Longrightarrow> p < an_processed_seconds (anchors ! high)
     \<Longrightarrow> \<exists>k. search_anchor exact_clock anchors p low high = (k, k + 1) \<and> low \<le> k \<and> k + 1 \<le> high
       \<and> an_processed_seconds (anchors ! k) \<le> p \<and> p < an_processed_seconds (anchors ! (k + 1))"
proof (induction "high - low" arbitrary: low high rule: less_induct)
  case less
  show ?case
  proof (cases "1 < high - low")
    case False
    then have "high = low + 1" using less.prems by linarith
    then show ?thesis using less.prems by (subst search_anchor.simps) auto
  next
    case True
    define mid where "mid = low + (high - low) div 2"
    have mid: "low < mid" "mid < high" using True by (auto simp: mid_def)
    show ?thesis
    proof (cases "an_processed_seconds (anchors ! mid) \<le> p")
      case le: True
      have "search_anchor exact_clock anchors p low high = search_anchor exact_clock anchors p mid high"
        using True le by (subst search_anchor.simps) (simp add: mid_def [symmetric] Let_def)
      then show ?thesis using less.hyps [of high mid] mid le less.prems by fastforce
    next
      case gt: False
      have "search_anchor exact_clock anchors p low high = search_anchor exact_clock anchors p low mid"
        using True gt by (subst search_anchor.simps) (simp add: mid_def [symmetric] Let_def)
      then show ?thesis using less.hyps [of mid low] mid gt less.prems by fastforce
    qed
  qed
qed

lemma rise_nth:
  assumes "anchors_rise anchors" "i < j" "j < length anchors"
  shows "an_processed_seconds (anchors ! i) < an_processed_seconds (anchors ! j) \<and> an_original_seconds (anchors ! i) \<le> an_original_seconds (anchors ! j)"
  using assms sorted_wrt_nth_less unfolding anchors_rise_def by blast

lemma rise_le:
  assumes "anchors_rise anchors" "i \<le> j" "j < length anchors"
  shows "an_processed_seconds (anchors ! i) \<le> an_processed_seconds (anchors ! j)" "an_original_seconds (anchors ! i) \<le> an_original_seconds (anchors ! j)"
  using assms rise_nth [of anchors i j] by (cases "i = j"; simp)+

lemma extrapolate_on_piece:
  assumes "an_processed_seconds (anchors ! k) < an_processed_seconds (anchors ! (k + 1))"
  shows "extrapolate_with_pair exact_clock p (anchors ! k) (anchors ! (k + 1)) = on_piece anchors k p"
  using assms by (simp add: extrapolate_with_pair_def on_piece_def Let_def f32_epsilon_value_def)

lemma map_on_piece:
  assumes rise: "anchors_rise (tm_anchors tm)" and len: "2 \<le> length (tm_anchors tm)"
  shows "\<exists>k. bracket (tm_anchors tm) k p \<and> map_processed_to_original_seconds exact_clock tm p = on_piece (tm_anchors tm) k p"
proof -
  let ?as = "tm_anchors tm"
  let ?n = "length ?as"
  have up: "an_processed_seconds (?as ! k) < an_processed_seconds (?as ! (k + 1))" if "k + 1 < ?n" for k
    using rise_nth [OF rise, of k "k + 1"] that by simp
  consider (low) "p \<le> an_processed_seconds (?as ! 0)"
    | (high) "an_processed_seconds (?as ! 0) < p" "an_processed_seconds (?as ! (?n - 1)) \<le> p"
    | (mid) "an_processed_seconds (?as ! 0) < p" "p < an_processed_seconds (?as ! (?n - 1))" by linarith
  then show ?thesis
  proof cases
    case low
    have "p < an_processed_seconds (?as ! 1)" using low up [of 0] len by simp
    then have "bracket ?as 0 p" using len by (auto simp: bracket_def)
    moreover have m: "min 1 (?n - 1) = 1" using len by simp
    moreover have "map_processed_to_original_seconds exact_clock tm p = on_piece ?as 0 p"
      using low len extrapolate_on_piece [of ?as 0 p] up [of 0] by (simp add: map_processed_to_original_seconds_def Let_def m [simplified])
    ultimately show ?thesis by blast
  next
    case high
    define k where "k = ?n - 2"
    have k: "k + 1 = ?n - 1" "?n - 1 - 1 = k" "k + 2 = ?n" using len by (auto simp: k_def)
    have "bracket ?as k p" using high(2) up [of k] k by (auto simp: bracket_def)
    moreover have "map_processed_to_original_seconds exact_clock tm p = on_piece ?as k p"
      using high extrapolate_on_piece [of ?as k p] up [of k] k by (simp add: map_processed_to_original_seconds_def Let_def)
    ultimately show ?thesis by blast
  next
    case mid
    from search_anchor_spec [of 0 "?n - 1" ?as p] mid len
    obtain k where k: "search_anchor exact_clock ?as p 0 (?n - 1) = (k, k + 1)" "k + 1 \<le> ?n - 1"
      "an_processed_seconds (?as ! k) \<le> p" "p < an_processed_seconds (?as ! (k + 1))" by auto
    have "bracket ?as k p" using k len by (auto simp: bracket_def)
    moreover have "map_processed_to_original_seconds exact_clock tm p = on_piece ?as k p"
      using mid k by (simp add: map_processed_to_original_seconds_def on_piece_def Let_def)
    ultimately show ?thesis by blast
  qed
qed

lemma on_piece_mono:
  assumes "anchors_rise anchors" "k + 1 < length anchors" "p \<le> q"
  shows "on_piece anchors k p \<le> on_piece anchors k q"
  using rise_nth [OF assms(1), of k "k + 1"] assms(2,3)
  by (auto simp: on_piece_def Let_def divide_right_mono mult_left_mono)

lemma on_piece_ends:
  assumes "anchors_rise anchors" "k + 1 < length anchors"
  shows "an_original_seconds (anchors ! k) \<le> on_piece anchors k (an_processed_seconds (anchors ! k))"
    and "on_piece anchors k (an_processed_seconds (anchors ! (k + 1))) \<le> an_original_seconds (anchors ! (k + 1))"
  using rise_nth [OF assms(1), of k "k + 1"] assms(2) by (auto simp: on_piece_def Let_def)

section \<open>Properties\<close>

text \<open>
  C40. The timeline map keeps the order of times: for anchors whose original times never fall where the
  processed times rise, in whatever order they are given, a later processed time is mapped to a
  later or the same original time, also before the first and after the last anchor and across the
  anchors the binary search steps over. In exact arithmetic.
\<close>

theorem timeline_map_monotone:
  assumes "consistent_anchors anchors" and "p \<le> q"
  shows "map_processed_to_original_seconds exact_clock (from_anchors exact_clock anchors) p
    \<le> map_processed_to_original_seconds exact_clock (from_anchors exact_clock anchors) q"
proof -
  define tm where "tm = from_anchors exact_clock anchors"
  let ?as = "tm_anchors tm"
  have rise: "anchors_rise ?as" and len: "2 \<le> length ?as" using from_anchors_rise [OF assms(1)] by (auto simp: tm_def)
  obtain k where k: "bracket ?as k p" "map_processed_to_original_seconds exact_clock tm p = on_piece ?as k p"
    using map_on_piece [OF rise len] by blast
  obtain j where j: "bracket ?as j q" "map_processed_to_original_seconds exact_clock tm q = on_piece ?as j q"
    using map_on_piece [OF rise len] by blast
  have b: "k + 1 < length ?as" "j + 1 < length ?as" using k(1) j(1) by (auto simp: bracket_def)
  consider "k = j" | (less) "k < j" | (greater) "j < k" by linarith
  then have "on_piece ?as k p \<le> on_piece ?as j q"
  proof cases
    case 1
    then show ?thesis using on_piece_mono [OF rise b(1) assms(2)] by simp
  next
    case less
    have p: "p \<le> an_processed_seconds (?as ! (k + 1))" and q: "an_processed_seconds (?as ! j) \<le> q"
      using k(1) j(1) less b by (auto simp: bracket_def)
    have "on_piece ?as k p \<le> an_original_seconds (?as ! (k + 1))"
      using on_piece_mono [OF rise b(1) p] on_piece_ends(2) [OF rise b(1)] by linarith
    also have "\<dots> \<le> an_original_seconds (?as ! j)" using rise_le(2) [OF rise, of "k + 1" j] less b by simp
    also have "\<dots> \<le> on_piece ?as j q" using on_piece_mono [OF rise b(2) q] on_piece_ends(1) [OF rise b(2)] by linarith
    finally show ?thesis .
  next
    case greater
    have "an_processed_seconds (?as ! k) \<le> p" "q < an_processed_seconds (?as ! (j + 1))"
      using k(1) j(1) greater b by (auto simp: bracket_def)
    moreover have "an_processed_seconds (?as ! (j + 1)) \<le> an_processed_seconds (?as ! k)"
      using rise_le(1) [OF rise, of "j + 1" k] greater b by simp
    ultimately show ?thesis using assms(2) by linarith
  qed
  then show ?thesis using k(2) j(2) by (simp add: tm_def)
qed

theorem timeline_map_monotone_witness:
  "map_processed_to_original_seconds exact_clock
     (from_anchors exact_clock [\<lparr>an_processed_seconds = 5, an_original_seconds = 20\<rparr>, \<lparr>an_processed_seconds = 0, an_original_seconds = 3\<rparr>]) 2
   \<le> map_processed_to_original_seconds exact_clock
     (from_anchors exact_clock [\<lparr>an_processed_seconds = 5, an_original_seconds = 20\<rparr>, \<lparr>an_processed_seconds = 0, an_original_seconds = 3\<rparr>]) 7"
  by (rule timeline_map_monotone) (simp_all add: consistent_anchors_def)

end
