(* ===== verification/Longform_Assembler.thy ===== *)
theory Longform_Assembler
  imports Longform_Timeline Longform_Slicing
begin

text \<open>
  The assembler of the transcripts of consecutive windows (\<open>crates/openasr-core/src/longform/assembler.rs\<close>,
  \<open>crates/openasr-core/src/transcript_text.rs\<close>): times are mapped to the original recording, the
  seam to the transcript so far is repaired by a fixed sequence of rules, and what is left is
  appended. Arithmetic of times is \<open>ck\<close>, of levels \<open>pa\<close>; the environment variable that disables the
  veto of hook echoes is the argument \<open>veto\<close>.
\<close>

section \<open>Joining texts\<close>

definition is_cjk_or_fullwidth :: "nat \<Rightarrow> bool" where
  "is_cjk_or_fullwidth c \<longleftrightarrow> (0x2E80 \<le> c \<and> c \<le> 0x2EFF) \<or> (0x3000 \<le> c \<and> c \<le> 0x303F) \<or> (0x3040 \<le> c \<and> c \<le> 0x30FF)
     \<or> (0x3400 \<le> c \<and> c \<le> 0x4DBF) \<or> (0x4E00 \<le> c \<and> c \<le> 0x9FFF) \<or> (0xF900 \<le> c \<and> c \<le> 0xFAFF) \<or> (0xFF00 \<le> c \<and> c \<le> 0xFFEF)
     \<or> (0x20000 \<le> c \<and> c \<le> 0x3134F)"

definition needs_ascii_space_join :: "rstr \<Rightarrow> rstr \<Rightarrow> bool" where
  "needs_ascii_space_join left right =
     (if left = [] \<or> right = [] then False
      else \<not> is_ws (last left) \<and> \<not> is_ws (hd right) \<and> \<not> is_cjk_or_fullwidth (last left) \<and> \<not> is_cjk_or_fullwidth (hd right))"

fun join_loop :: "rstr \<Rightarrow> rstr list \<Rightarrow> rstr" where
  "join_loop out [] = out"
| "join_loop out (t # ts) =
     (let piece = trim t
      in if piece = [] then join_loop out ts
         else join_loop (out @ (if needs_ascii_space_join out piece then [32] else []) @ piece) ts)"

definition join_segment_texts :: "rstr list \<Rightarrow> rstr" where
  "join_segment_texts texts = join_loop [] texts"

section \<open>Levels of the recording\<close>

record 't probe_arith =
  pa_seconds_to_samples :: "'t \<Rightarrow> nat \<Rightarrow> nat"
  pa_rms :: "'t list \<Rightarrow> 't"
  pa_decibel :: "'t \<Rightarrow> 't"
  pa_total_le :: "'t \<Rightarrow> 't \<Rightarrow> bool"

record 't timeline_audio_levels =
  lv_window_db :: "'t list"
  lv_hop_seconds :: 't
  lv_window_seconds :: 't
  lv_duration_seconds :: 't

definition WINDOW_SECONDS :: rat where "WINDOW_SECONDS = 1 / 10"
definition HOP_SECONDS :: rat where "HOP_SECONDS = 5 / 100"
definition SILENCE_DB :: rat where "SILENCE_DB = - 96"
definition HOOK_ECHO_HEAD_LIMIT_SECONDS :: rat where "HOOK_ECHO_HEAD_LIMIT_SECONDS = 15"
definition HOOK_ECHO_BED_BAND_SECONDS :: rat where "HOOK_ECHO_BED_BAND_SECONDS = 2"
definition HOOK_ECHO_MIN_BED_WINDOWS :: nat where "HOOK_ECHO_MIN_BED_WINDOWS = 8"
definition HOOK_ECHO_UNVOICED_MARGIN_DB :: rat where "HOOK_ECHO_UNVOICED_MARGIN_DB = 6"
definition SEAM_ECHO_PROBE_MIN_WINDOWS :: nat where "SEAM_ECHO_PROBE_MIN_WINDOWS = 3"
definition SEGMENT_STITCH_MAX_REGAP_SECONDS :: rat where "SEGMENT_STITCH_MAX_REGAP_SECONDS = 2"
definition TRIM_TAIL_MATCH_LOOKBACK_SECONDS :: rat where "TRIM_TAIL_MATCH_LOOKBACK_SECONDS = 25 / 10"
definition SEAM_TRIM_HEAD_MIN_CONFIDENCE :: rat where "SEAM_TRIM_HEAD_MIN_CONFIDENCE = 1 / 2"
definition SEAM_PHANTOM_HEAD_MAX_CONFIDENCE :: rat where "SEAM_PHANTOM_HEAD_MAX_CONFIDENCE = 1 / 2"
definition SEAM_PHANTOM_COMMITTED_MIN_CONFIDENCE :: rat where "SEAM_PHANTOM_COMMITTED_MIN_CONFIDENCE = 85 / 100"
definition SEAM_PHANTOM_HEAD_MIN_WIDTH_SECONDS :: rat where "SEAM_PHANTOM_HEAD_MIN_WIDTH_SECONDS = 9 / 10"
definition SEAM_REREAD_HEAD_MAX_WIDTH_RATIO :: rat where "SEAM_REREAD_HEAD_MAX_WIDTH_RATIO = 1 / 2"
definition SEAM_TRUST_FLIP_HEAD_MARGIN :: rat where "SEAM_TRUST_FLIP_HEAD_MARGIN = 3 / 10"

function level_windows :: "'t clock_arith \<Rightarrow> 't probe_arith \<Rightarrow> nat \<Rightarrow> nat \<Rightarrow> 't list \<Rightarrow> 't list" where
  "level_windows ck pa window hop samples =
     (if samples = [] \<or> hop = 0 then []
      else let rms = pa_rms pa (take window samples)
           in (if ck_lt ck (ck_lit ck 0) rms then pa_decibel pa rms else ck_lit ck SILENCE_DB)
                # level_windows ck pa window hop (drop hop samples))"
  by pat_completeness auto

termination level_windows
  by (relation "measure (\<lambda>(_, _, _, _, samples). length samples)") auto

declare level_windows.simps [simp del]

definition levels_from_samples :: "'t clock_arith \<Rightarrow> 't probe_arith \<Rightarrow> 't list \<Rightarrow> nat \<Rightarrow> 't timeline_audio_levels option" where
  "levels_from_samples ck pa samples rate =
     (if samples = [] \<or> rate = 0 then None
      else let window = pa_seconds_to_samples pa (ck_lit ck WINDOW_SECONDS) rate; hop = pa_seconds_to_samples pa (ck_lit ck HOP_SECONDS) rate
           in if window = 0 \<or> hop = 0 then None
              else Some \<lparr>lv_window_db = level_windows ck pa window hop samples, lv_hop_seconds = ck_lit ck HOP_SECONDS,
                     lv_window_seconds = ck_lit ck WINDOW_SECONDS,
                     lv_duration_seconds = ck_div ck (ck_of_nat ck (length samples)) (ck_of_nat ck rate)\<rparr>)"

definition overlap_fraction :: "'t clock_arith \<Rightarrow> 't timeline_audio_levels \<Rightarrow> 't \<Rightarrow> 't \<Rightarrow> 't option" where
  "overlap_fraction ck lv s e =
     (let width = ck_sub ck e s
      in if \<not> ck_is_finite ck width \<or> ck_le ck width (ck_lit ck 0) then None
         else let lo = ck_max ck s (ck_lit ck 0); hi = ck_min ck e (lv_duration_seconds lv)
              in if ck_le ck hi lo then None
                 else let fraction = ck_div ck (ck_sub ck hi lo) width
                      in if ck_le ck (ck_lit ck (1 / 2)) fraction then Some fraction else None)"

definition windows_overlapping :: "'t clock_arith \<Rightarrow> 't timeline_audio_levels \<Rightarrow> 't \<Rightarrow> 't \<Rightarrow> 't list" where
  "windows_overlapping ck lv s e =
     map snd (filter (\<lambda>(index, _).
         let t = ck_mul ck (ck_of_nat ck index) (lv_hop_seconds lv)
         in ck_lt ck t (ck_sub ck e (ck_lit ck (1 / 1000)))
            \<and> ck_lt ck (ck_add ck s (ck_lit ck (1 / 1000))) (ck_add ck t (lv_window_seconds lv)))
       (zip [0 ..< length (lv_window_db lv)] (lv_window_db lv)))"

text \<open>\<open>max_by\<close> and the stable \<open>sort_by\<close> with \<open>total_cmp\<close>.\<close>

definition max_by_le :: "('k \<Rightarrow> 'k \<Rightarrow> bool) \<Rightarrow> ('x \<Rightarrow> 'k) \<Rightarrow> 'x list \<Rightarrow> 'x option" where
  "max_by_le le key xs = (case xs of [] \<Rightarrow> None | x # rest \<Rightarrow> Some (foldl (\<lambda>best y. if le (key best) (key y) then y else best) x rest))"

fun insort_le :: "('k \<Rightarrow> 'k \<Rightarrow> bool) \<Rightarrow> 'k \<Rightarrow> 'k list \<Rightarrow> 'k list" where
  "insort_le le a [] = [a]"
| "insort_le le a (b # bs) = (if le a b then a # b # bs else b # insort_le le a bs)"

definition sort_le :: "('k \<Rightarrow> 'k \<Rightarrow> bool) \<Rightarrow> 'k list \<Rightarrow> 'k list" where
  "sort_le le xs = foldr (insort_le le) xs []"

definition max_window_db :: "'t clock_arith \<Rightarrow> 't probe_arith \<Rightarrow> 't timeline_audio_levels \<Rightarrow> 't \<Rightarrow> 't \<Rightarrow> 't option" where
  "max_window_db ck pa lv s e =
     (case overlap_fraction ck lv s e of None \<Rightarrow> None | Some _ \<Rightarrow> max_by_le (pa_total_le pa) (\<lambda>x. x) (windows_overlapping ck lv s e))"

definition bed_db :: "'t clock_arith \<Rightarrow> 't probe_arith \<Rightarrow> 't timeline_audio_levels \<Rightarrow> 't \<Rightarrow> 't \<Rightarrow> 't option" where
  "bed_db ck pa lv s e =
     (case overlap_fraction ck lv s e of
        None \<Rightarrow> None
      | Some _ \<Rightarrow> let levels = windows_overlapping ck lv s e
                  in if length levels < HOOK_ECHO_MIN_BED_WINDOWS then None
                     else Some (sort_le (pa_total_le pa) levels ! (((length levels - 1) * 25) div 100)))"

definition median_window_db :: "'t clock_arith \<Rightarrow> 't probe_arith \<Rightarrow> 't timeline_audio_levels \<Rightarrow> 't \<Rightarrow> 't \<Rightarrow> 't option" where
  "median_window_db ck pa lv s e =
     (case overlap_fraction ck lv s e of
        None \<Rightarrow> None
      | Some _ \<Rightarrow> let levels = windows_overlapping ck lv s e
                  in if length levels < SEAM_ECHO_PROBE_MIN_WINDOWS then None
                     else let sorted_levels = sort_le (pa_total_le pa) levels; middle = length levels div 2
                          in Some (if length levels mod 2 = 1 then sorted_levels ! middle
                                   else ck_mul ck (ck_lit ck (1 / 2)) (ck_add ck (sorted_levels ! (middle - 1)) (sorted_levels ! middle))))"

section \<open>Times of a slice\<close>

datatype segment_time_domain = RelativeToSliceContent | RelativeToSliceInput | AbsoluteOriginal

record 't slice_transcript =
  sl_slice :: audio_slice
  sl_text :: rstr
  sl_segments :: "'t segment list"
  sl_time_domain :: segment_time_domain

text \<open>\<open>f32::clamp\<close>, whose bounds are in order at every call (\<open>clamp_bounds_ordered\<close> below).\<close>

definition ck_clamp :: "'t clock_arith \<Rightarrow> 't \<Rightarrow> 't \<Rightarrow> 't \<Rightarrow> 't" where
  "ck_clamp ck x lo hi = (let x' = if ck_lt ck x lo then lo else x in if ck_lt ck hi x' then hi else x')"

fun crop_loop :: "'t clock_arith \<Rightarrow> 't \<Rightarrow> 't \<Rightarrow> ('t \<times> 't \<times> 't) option \<Rightarrow> 't timeline_anchor list \<Rightarrow> ('t \<times> 't \<times> 't) option" where
  "crop_loop ck s e best (a # b # rest) =
     (let processed_span = ck_sub ck (an_processed_seconds b) (an_processed_seconds a);
          original_span = ck_sub ck (an_original_seconds b) (an_original_seconds a);
          best' =
            (if ck_lt ck original_span (ck_lit ck (1 / 2))
                \<or> ck_le ck original_span (ck_mul ck (ck_lit ck 2) (ck_max ck processed_span (ck_lit ck 0))) then best
             else if ck_le ck e (an_processed_seconds a) \<or> ck_le ck (an_processed_seconds b) s then best
             else case best of
                    Some (_, _, best_span) \<Rightarrow>
                      if ck_le ck original_span best_span then best
                      else Some (an_processed_seconds a, an_processed_seconds b, original_span)
                  | None \<Rightarrow> Some (an_processed_seconds a, an_processed_seconds b, original_span))
      in crop_loop ck s e best' (b # rest))"
| "crop_loop ck s e best anchors = best"

definition crop_processed_window_to_elision_flank :: "'t clock_arith \<Rightarrow> 't \<Rightarrow> 't \<Rightarrow> 't timeline_map \<Rightarrow> ('t \<times> 't) option" where
  "crop_processed_window_to_elision_flank ck s e tm =
     (case crop_loop ck s e None (tm_anchors tm) of
        None \<Rightarrow> None
      | Some (junction_start, junction_end, _) \<Rightarrow>
          let center = ck_div ck (ck_add ck s e) (ck_lit ck 2);
              (trimmed_start, trimmed_end) =
                (if ck_le ck (ck_div ck (ck_add ck junction_start junction_end) (ck_lit ck 2)) center
                 then (ck_max ck junction_end s, e) else (s, ck_min ck junction_start e))
          in if ck_lt ck (ck_add ck trimmed_start (ck_lit ck (1 / 1000000))) trimmed_end then Some (trimmed_start, trimmed_end) else None)"

definition map_word_time_to_original ::
  "'t clock_arith \<Rightarrow> 't word_timestamp \<Rightarrow> 't \<Rightarrow> segment_time_domain \<Rightarrow> 't timeline_map \<Rightarrow> 't \<Rightarrow> 't \<Rightarrow> 't option \<Rightarrow> 't word_timestamp option" where
  "map_word_time_to_original ck w relative_offset domain tm segment_start segment_end max_span =
     (let token = trim (wt_word w)
      in if token = [] \<or> \<not> ck_is_finite ck (wt_start w) \<or> \<not> ck_is_finite ck (wt_end w) then None
         else let s0 = ck_max ck (wt_start w) (ck_lit ck 0); e0 = ck_max ck (wt_end w) s0;
                  s = (if domain \<noteq> AbsoluteOriginal then ck_add ck s0 relative_offset else s0);
                  e = (if domain \<noteq> AbsoluteOriginal then ck_add ck e0 relative_offset else e0);
                  to_original = map_processed_to_original_seconds ck tm;
                  original_start = ck_clamp ck (to_original s) segment_start segment_end;
                  original_end = ck_clamp ck (ck_max ck (to_original e) original_start) original_start segment_end;
                  (final_start, final_end) =
                    (case max_span of
                       None \<Rightarrow> (original_start, original_end)
                     | Some limit \<Rightarrow>
                         if ck_lt ck limit (ck_sub ck original_end original_start)
                         then let (s', e') =
                                (case crop_processed_window_to_elision_flank ck s e tm of
                                   None \<Rightarrow> (original_start, original_end)
                                 | Some (cropped_start, cropped_end) \<Rightarrow>
                                     let cs = ck_clamp ck (to_original cropped_start) segment_start segment_end;
                                         ce = ck_clamp ck (ck_max ck (to_original cropped_end) cs) cs segment_end
                                     in if ck_lt ck cs ce then (cs, ce) else (original_start, original_end))
                              in (s', if ck_lt ck limit (ck_sub ck e' s') then ck_add ck s' limit else e')
                         else (original_start, original_end))
              in Some \<lparr>wt_word = token, wt_start = final_start, wt_end = final_end, wt_confidence = wt_confidence w\<rparr>)"

definition seconds_of_samples :: "'t clock_arith \<Rightarrow> nat \<Rightarrow> 't" where
  "seconds_of_samples ck n = ck_div ck (ck_of_nat ck n) (ck_lit ck 16000)"

definition map_segment_time :: "'t clock_arith \<Rightarrow> 't timeline_map \<Rightarrow> 't option \<Rightarrow> 't segment \<Rightarrow> audio_slice \<Rightarrow> segment_time_domain \<Rightarrow> 't segment" where
  "map_segment_time ck tm max_span seg slc domain =
     (let s0 = ck_max ck (sg_start seg) (ck_lit ck 0); e0 = ck_max ck (sg_end seg) s0;
          relative_offset = seconds_of_samples ck (case domain of
             RelativeToSliceContent \<Rightarrow> as_content_start_sample slc | RelativeToSliceInput \<Rightarrow> as_start_sample slc | AbsoluteOriginal \<Rightarrow> 0);
          original_start = map_processed_to_original_seconds ck tm (ck_add ck s0 relative_offset);
          original_end = ck_max ck (map_processed_to_original_seconds ck tm (ck_add ck e0 relative_offset)) original_start
      in \<lparr>sg_start = original_start, sg_end = original_end, sg_text = sg_text seg, sg_speaker = sg_speaker seg,
          sg_speaker_label = sg_speaker_label seg, sg_speaker_person_id = None, sg_speaker_snapshot_label = None,
          sg_words = List.map_filter (\<lambda>w. map_word_time_to_original ck w relative_offset domain tm original_start original_end max_span)
            (sg_words seg)\<rparr>)"

section \<open>The rules of the seam\<close>

text \<open>Dropping the first \<open>k\<close> words of a segment, and the text without the last word.\<close>

definition without_leading_words :: "nat \<Rightarrow> 't segment \<Rightarrow> 't segment" where
  "without_leading_words k seg =
     (let new_text = (case leading_word_char_offset (sg_text seg) (sg_words seg) k of
             Some offset \<Rightarrow> trim (drop offset (sg_text seg))
           | None \<Rightarrow> join_segment_texts (map wt_word (drop k (sg_words seg))));
          kept = drop k (sg_words seg)
      in seg\<lparr>sg_words := kept, sg_start := (case kept of [] \<Rightarrow> sg_start seg | w # _ \<Rightarrow> wt_start w), sg_text := new_text\<rparr>)"

definition text_without_last_word :: "'t segment \<Rightarrow> rstr" where
  "text_without_last_word seg =
     (let keep = length (sg_words seg) - 1
      in case leading_word_char_offset (sg_text seg) (sg_words seg) keep of
           Some offset \<Rightarrow> trim (take offset (sg_text seg))
         | None \<Rightarrow> join_segment_texts (map wt_word (take keep (sg_words seg))))"

definition prev_tail_match_units :: "'t clock_arith \<Rightarrow> 't segment \<Rightarrow> 't \<Rightarrow> rstr list" where
  "prev_tail_match_units ck previous boundary =
     concat (map (\<lambda>w. normalize_words (wt_word w))
       (filter (\<lambda>w. ck_le ck (ck_sub ck boundary (ck_lit ck TRIM_TAIL_MATCH_LOOKBACK_SECONDS)) (wt_end w)) (sg_words previous)))"

definition survives_trim :: "'t clock_arith \<Rightarrow> 't \<Rightarrow> rstr list \<Rightarrow> 't word_timestamp \<Rightarrow> bool" where
  "survives_trim ck boundary prev_tail_units w =
     (if ck_le ck boundary (ck_mul ck (ck_lit ck (1 / 2)) (ck_add ck (wt_start w) (wt_end w))) then True
      else if ck_le ck (wt_end w) boundary then False
      else let units = normalize_words (wt_word w)
           in if units = [] \<or> list_ex (\<lambda>unit. unit \<in> set prev_tail_units) units then False
              else case wt_confidence w of Some c \<Rightarrow> ck_le ck (ck_lit ck SEAM_TRIM_HEAD_MIN_CONFIDENCE) c | None \<Rightarrow> False)"

text \<open>\<open>Iterator::position\<close>.\<close>

definition position :: "('x \<Rightarrow> bool) \<Rightarrow> 'x list \<Rightarrow> nat option" where
  "position P xs = (let n = length (takeWhile (\<lambda>x. \<not> P x) xs) in if n < length xs then Some n else None)"

definition trim_committed_overlap :: "'t clock_arith \<Rightarrow> 't segment \<Rightarrow> 't \<Rightarrow> rstr list \<Rightarrow> bool \<times> 't segment" where
  "trim_committed_overlap ck seg boundary prev_tail_units =
     (if ck_le ck (sg_end seg) boundary then (True, seg)
      else if sg_words seg = [] then (False, seg)
      else case position (survives_trim ck boundary prev_tail_units) (sg_words seg) of
             None \<Rightarrow> (True, seg)
           | Some first_keep \<Rightarrow>
               if first_keep = 0 then (False, seg)
               else let seg' = without_leading_words first_keep seg in (trim (sg_text seg') = [], seg'))"

definition has_ascii_alphabetic :: "rstr \<Rightarrow> bool" where
  "has_ascii_alphabetic s = list_ex (\<lambda>c. (65 \<le> c \<and> c \<le> 90) \<or> (97 \<le> c \<and> c \<le> 122)) s"

section \<open>The assembler\<close>

record assemble_stats =
  st_skipped_silent_chunks :: nat
  st_duplicate_merge_count :: nat

record 't transcript_assembler =
  tr_timeline :: "'t timeline_map"
  tr_merge_policy :: "'t segment_merge_policy"
  tr_segments :: "'t segment list"
  tr_speaker_scopes :: "nat option list"
  tr_stats :: assemble_stats
  tr_committed_end :: "'t option"
  tr_approximate :: bool
  tr_max_word_span :: "'t option"
  tr_audio_levels :: "'t timeline_audio_levels option"

definition assembler_new :: "'t timeline_map \<Rightarrow> 't segment_merge_policy \<Rightarrow> 't transcript_assembler" where
  "assembler_new tm policy = \<lparr>tr_timeline = tm, tr_merge_policy = policy, tr_segments = [], tr_speaker_scopes = [],
     tr_stats = \<lparr>st_skipped_silent_chunks = 0, st_duplicate_merge_count = 0\<rparr>, tr_committed_end = None, tr_approximate = False,
     tr_max_word_span = None, tr_audio_levels = None\<rparr>"

definition with_approximate_word_timestamps :: "bool \<Rightarrow> 't transcript_assembler \<Rightarrow> 't transcript_assembler" where
  "with_approximate_word_timestamps approximate a = a\<lparr>tr_approximate := approximate\<rparr>"

definition with_max_word_span_original_seconds :: "'t option \<Rightarrow> 't transcript_assembler \<Rightarrow> 't transcript_assembler" where
  "with_max_word_span_original_seconds max_span a = a\<lparr>tr_max_word_span := max_span\<rparr>"

definition with_audio_levels :: "'t timeline_audio_levels option \<Rightarrow> 't transcript_assembler \<Rightarrow> 't transcript_assembler" where
  "with_audio_levels levels a = a\<lparr>tr_audio_levels := levels\<rparr>"

definition merge_policy_default :: "'t clock_arith \<Rightarrow> 't segment_merge_policy" where
  "merge_policy_default ck = \<lparr>mp_max_gap_seconds = ck_lit ck (12 / 10), mp_redundant_overlap_ratio = ck_lit ck (8 / 10), mp_redundant_min_words = 4\<rparr>"

definition count_merge :: "'t transcript_assembler \<Rightarrow> 't transcript_assembler" where
  "count_merge a = a\<lparr>tr_stats := (tr_stats a)\<lparr>st_duplicate_merge_count := st_duplicate_merge_count (tr_stats a) + 1\<rparr>\<rparr>"

definition replace_last :: "'t segment \<Rightarrow> 't transcript_assembler \<Rightarrow> 't transcript_assembler" where
  "replace_last seg a = a\<lparr>tr_segments := butlast (tr_segments a) @ [seg]\<rparr>"

definition push_segment :: "'t segment \<Rightarrow> nat option \<Rightarrow> 't transcript_assembler \<Rightarrow> 't transcript_assembler" where
  "push_segment seg scope a = a\<lparr>tr_segments := tr_segments a @ [seg], tr_speaker_scopes := tr_speaker_scopes a @ [scope]\<rparr>"

text \<open>The rules see the last segment as \<open>previous\<close>; those that change it return it.\<close>

definition stitch_seam :: "'t clock_arith \<Rightarrow> 't transcript_assembler \<Rightarrow> bool \<Rightarrow> 't segment \<Rightarrow> 't segment \<Rightarrow> bool \<times> 't segment \<times> 't segment" where
  "stitch_seam ck a overlaps_prior_audio previous cur =
     (let time_overlap = ck_sub ck (sg_end previous) (sg_start cur);
          time_overlaps = ck_lt ck (ck_lit ck (1 / 1000)) time_overlap;
          gap_seconds = ck_sub ck (sg_start cur) (sg_end previous)
      in if \<not> time_overlaps \<and> ck_lt ck (mp_max_gap_seconds (tr_merge_policy a)) gap_seconds then (False, previous, cur)
         else if \<not> overlaps_prior_audio \<and> \<not> rule_gated_head_reread_candidate previous cur then (False, previous, cur)
         else case apply_suffix_prefix_stitch (ck_seam ck) (if time_overlaps then 2 else 3) time_overlap
                     (ck_lit ck SEGMENT_STITCH_MAX_REGAP_SECONDS) (tr_approximate a) (tr_max_word_span a) previous cur of
                (stitched, p, c) \<Rightarrow>
                  if stitched \<and> tr_approximate a
                  then let previous_start = ck_min ck (case sg_words p of [] \<Rightarrow> sg_start p | w # _ \<Rightarrow> ck_max ck (wt_start w) (sg_start p)) (sg_end p);
                           remainder_start = ck_min ck (ck_max ck (sg_start c) (sg_end p)) (sg_end c)
                       in (True, p\<lparr>sg_words := interpolate_word_timestamps ck (sg_text p) previous_start (sg_end p)\<rparr>,
                           c\<lparr>sg_words := interpolate_word_timestamps ck (sg_text c) remainder_start (sg_end c)\<rparr>)
                  else (stitched, p, c))"

definition try_stitch_seam_overlap :: "'t clock_arith \<Rightarrow> bool \<Rightarrow> 't transcript_assembler \<Rightarrow> 't segment \<Rightarrow> bool \<times> 't transcript_assembler \<times> 't segment" where
  "try_stitch_seam_overlap ck overlaps_prior_audio a cur =
     (if tr_segments a = [] then (False, a, cur)
      else case stitch_seam ck a overlaps_prior_audio (last (tr_segments a)) cur of (stitched, p, c) \<Rightarrow> (stitched, replace_last p a, c))"

definition phantom_head :: "'t clock_arith \<Rightarrow> 't segment \<Rightarrow> 't segment \<Rightarrow> bool" where
  "phantom_head ck previous cur =
     (if sg_words previous = [] \<or> sg_words cur = [] then False
      else let committed = last (sg_words previous); phantom = hd (sg_words cur)
           in if ck_le ck (wt_end committed) (wt_start phantom) then False
              else if ck_lt ck (ck_lit ck SEGMENT_STITCH_SEAM_CLAMP_TOLERANCE_SECONDS) (ck_sub ck (sg_end previous) (wt_end committed)) then False
              else if normalize_words (wt_word committed) = normalize_words (wt_word phantom) \<or> \<not> has_ascii_alphabetic (wt_word phantom) then False
              else case (wt_confidence committed, wt_confidence phantom) of
                     (Some committed_confidence, Some phantom_confidence) \<Rightarrow>
                       if ck_lt ck committed_confidence (ck_lit ck SEAM_PHANTOM_COMMITTED_MIN_CONFIDENCE)
                          \<or> ck_le ck (ck_lit ck SEAM_PHANTOM_HEAD_MAX_CONFIDENCE) phantom_confidence then False
                       else \<not> ck_lt ck (ck_sub ck (wt_end phantom) (wt_start phantom)) (ck_lit ck SEAM_PHANTOM_HEAD_MIN_WIDTH_SECONDS)
                   | _ \<Rightarrow> False)"

definition drop_seam_phantom_head :: "'t clock_arith \<Rightarrow> 't transcript_assembler \<Rightarrow> 't segment \<Rightarrow> bool \<times> 't segment" where
  "drop_seam_phantom_head ck a cur =
     (if tr_approximate a \<or> tr_segments a = [] \<or> \<not> phantom_head ck (last (tr_segments a)) cur then (False, cur)
      else (True, without_leading_words 1 cur))"

definition seam_reread_window_is_unvoiced :: "'t clock_arith \<Rightarrow> 't probe_arith \<Rightarrow> 't transcript_assembler \<Rightarrow> 't word_timestamp \<Rightarrow> bool" where
  "seam_reread_window_is_unvoiced ck pa a reread =
     (case tr_audio_levels a of
        None \<Rightarrow> False
      | Some levels \<Rightarrow>
          case (median_window_db ck pa levels (wt_start reread) (wt_end reread),
                bed_db ck pa levels (ck_sub ck (wt_start reread) (ck_lit ck HOOK_ECHO_BED_BAND_SECONDS))
                  (ck_add ck (wt_end reread) (ck_lit ck HOOK_ECHO_BED_BAND_SECONDS))) of
            (Some window, Some bed) \<Rightarrow> ck_le ck window (ck_add ck bed (ck_lit ck HOOK_ECHO_UNVOICED_MARGIN_DB))
          | _ \<Rightarrow> False)"

definition committed_reading_owns_seam_audio ::
  "'t clock_arith \<Rightarrow> 't probe_arith \<Rightarrow> 't transcript_assembler \<Rightarrow> 't segment \<Rightarrow> 't word_timestamp \<Rightarrow> 't word_timestamp \<Rightarrow> bool" where
  "committed_reading_owns_seam_audio ck pa a previous committed reread =
     (if (case wt_confidence committed of Some c \<Rightarrow> ck_le ck (ck_lit ck SEAM_PHANTOM_COMMITTED_MIN_CONFIDENCE) c | None \<Rightarrow> False) then True
      else if ck_lt ck (ck_lit ck SEGMENT_STITCH_SEAM_CLAMP_TOLERANCE_SECONDS) (ck_sub ck (sg_end previous) (wt_end committed)) then False
      else if (case wt_confidence reread of Some c \<Rightarrow> ck_lt ck (ck_lit ck SEAM_PHANTOM_HEAD_MAX_CONFIDENCE) c | None \<Rightarrow> False) then False
      else seam_reread_window_is_unvoiced ck pa a reread)"

definition reread_head :: "'t clock_arith \<Rightarrow> 't probe_arith \<Rightarrow> 't transcript_assembler \<Rightarrow> 't \<Rightarrow> 't segment \<Rightarrow> 't segment \<Rightarrow> bool" where
  "reread_head ck pa a boundary previous cur =
     (if sg_words previous = [] \<or> sg_words cur = [] then False
      else let committed = last (sg_words previous); reread = hd (sg_words cur)
           in if normalize_words (wt_word committed) \<noteq> normalize_words (wt_word reread) \<or> \<not> has_ascii_alphabetic (wt_word reread) then False
              else if ck_lt ck (wt_start reread) boundary then False
              else let gap_seconds = ck_sub ck (wt_start reread) (wt_end committed)
                   in if \<not> (ck_le ck (ck_lit ck 0) gap_seconds \<and> ck_le ck gap_seconds (ck_lit ck SEGMENT_STITCH_MAX_REGAP_SECONDS)) then False
                      else if \<not> committed_reading_owns_seam_audio ck pa a previous committed reread then False
                      else if ck_lt ck (ck_mul ck (ck_lit ck SEAM_REREAD_HEAD_MAX_WIDTH_RATIO) (ck_sub ck (wt_end committed) (wt_start committed)))
                                (ck_sub ck (wt_end reread) (wt_start reread)) then False
                      else \<not> (1 < length (sg_words cur) \<and> normalize_words (wt_word reread) = normalize_words (wt_word (sg_words cur ! 1))))"

definition drop_seam_reread_head :: "'t clock_arith \<Rightarrow> 't probe_arith \<Rightarrow> 't transcript_assembler \<Rightarrow> 't option \<Rightarrow> 't segment \<Rightarrow> bool \<times> 't segment" where
  "drop_seam_reread_head ck pa a boundary cur =
     (case boundary of
        None \<Rightarrow> (False, cur)
      | Some b \<Rightarrow>
          if tr_approximate a \<or> tr_segments a = [] \<or> \<not> reread_head ck pa a b (last (tr_segments a)) cur then (False, cur)
          else (True, without_leading_words 1 cur))"

definition hook_echo_head :: "'t clock_arith \<Rightarrow> 't probe_arith \<Rightarrow> 't timeline_audio_levels \<Rightarrow> 't \<Rightarrow> 't segment \<Rightarrow> 't segment \<Rightarrow> bool" where
  "hook_echo_head ck pa levels max_span previous cur =
     (if sg_words previous = [] \<or> sg_words cur = [] then False
      else let committed = last (sg_words previous); head = hd (sg_words cur)
           in if normalize_words (wt_word committed) \<noteq> normalize_words (wt_word head) \<or> \<not> has_ascii_alphabetic (wt_word head) then False
              else if ck_lt ck (ck_sub ck (wt_end committed) (wt_start committed)) (ck_sub ck max_span (ck_lit ck (5 / 100))) then False
              else if ck_lt ck (ck_add ck (sg_start cur) (ck_lit ck HOOK_ECHO_HEAD_LIMIT_SECONDS)) (wt_start head) then False
              else case (max_window_db ck pa levels (wt_start head) (wt_end head),
                         bed_db ck pa levels (ck_sub ck (wt_start head) (ck_lit ck HOOK_ECHO_BED_BAND_SECONDS))
                           (ck_add ck (wt_end head) (ck_lit ck HOOK_ECHO_BED_BAND_SECONDS))) of
                     (Some window, Some bed) \<Rightarrow> \<not> ck_lt ck (ck_add ck bed (ck_lit ck HOOK_ECHO_UNVOICED_MARGIN_DB)) window
                   | _ \<Rightarrow> False)"

definition drop_unverified_hook_echo :: "'t clock_arith \<Rightarrow> 't probe_arith \<Rightarrow> bool \<Rightarrow> 't transcript_assembler \<Rightarrow> 't segment \<Rightarrow> bool \<times> 't segment" where
  "drop_unverified_hook_echo ck pa veto a cur =
     (if \<not> veto \<or> tr_approximate a then (False, cur)
      else case (tr_audio_levels a, tr_max_word_span a) of
             (Some levels, Some max_span) \<Rightarrow>
               if tr_segments a = [] \<or> \<not> hook_echo_head ck pa levels max_span (last (tr_segments a)) cur then (False, cur)
               else (True, without_leading_words 1 cur)
           | _ \<Rightarrow> (False, cur))"

definition similar_head :: "'t clock_arith \<Rightarrow> 't \<Rightarrow> 't word_timestamp \<Rightarrow> rstr \<Rightarrow> 't word_timestamp \<Rightarrow> bool" where
  "similar_head ck previous_end committed committed_unit w =
     (ck_lt ck (wt_start w) (ck_add ck previous_end (ck_lit ck SEGMENT_STITCH_REREAD_MAX_PAST_PREV_END_SECONDS))
      \<and> ck_lt ck (wt_start w) (wt_end committed)
      \<and> length (normalize_words (wt_word w)) = 1 \<and> units_text_similar committed_unit (normalize_words (wt_word w) ! 0))"

text \<open>The text without the word at \<open>head_idx\<close>; \<open>None\<close> where the words do not align.\<close>

definition text_without_word :: "nat \<Rightarrow> 't segment \<Rightarrow> rstr option" where
  "text_without_word head_idx seg =
     (case leading_word_char_offset (sg_text seg) (sg_words seg) head_idx of
        None \<Rightarrow> None
      | Some start_off \<Rightarrow>
          map_option (\<lambda>end_off. trim (take start_off (sg_text seg) @ drop end_off (sg_text seg)))
            (if head_idx + 1 < length (sg_words seg) then leading_word_char_offset (sg_text seg) (sg_words seg) (head_idx + 1)
             else Some (length (sg_text seg))))"

definition merge_similar_at :: "'t clock_arith \<Rightarrow> 't segment \<Rightarrow> 't segment \<Rightarrow> nat \<Rightarrow> bool \<times> 't segment \<times> 't segment" where
  "merge_similar_at ck previous cur head_idx =
     (let committed = last (sg_words previous); head = sg_words cur ! head_idx; head_units = normalize_words (wt_word head)
      in if head_idx + 1 < length (sg_words cur)
            \<and> list_ex (\<lambda>unit. units_text_similar unit (head_units ! 0)) (normalize_words (wt_word (sg_words cur ! (head_idx + 1))))
         then (False, previous, cur)
         else case (wt_confidence committed, wt_confidence head) of
                (Some committed_confidence, Some head_confidence) \<Rightarrow>
                  if ck_le ck (ck_add ck committed_confidence (ck_lit ck SEAM_TRUST_FLIP_HEAD_MARGIN)) head_confidence
                  then if length (sg_words previous) \<le> 1 \<or> trim (text_without_last_word previous) = [] then (False, previous, cur)
                       else (True, previous\<lparr>sg_words := butlast (sg_words previous), sg_text := text_without_last_word previous\<rparr>, cur)
                  else if ck_le ck (ck_add ck head_confidence (ck_lit ck SEAM_TRUST_FLIP_HEAD_MARGIN)) committed_confidence
                  then case text_without_word head_idx cur of
                         None \<Rightarrow> (False, previous, cur)
                       | Some new_text \<Rightarrow>
                           let kept = take head_idx (sg_words cur) @ drop (head_idx + 1) (sg_words cur)
                           in (True, previous, cur\<lparr>sg_words := kept,
                                 sg_start := (case kept of [] \<Rightarrow> sg_start cur | w # _ \<Rightarrow> wt_start w), sg_text := new_text\<rparr>)
                  else (False, previous, cur)
              | _ \<Rightarrow> (False, previous, cur))"

definition merge_similar_pair :: "'t clock_arith \<Rightarrow> 't option \<Rightarrow> 't segment \<Rightarrow> 't segment \<Rightarrow> bool \<times> 't segment \<times> 't segment" where
  "merge_similar_pair ck max_span previous cur =
     (if sg_words previous = [] then (False, previous, cur)
      else let committed = last (sg_words previous); committed_units = normalize_words (wt_word committed);
               clamp = ck_lit ck SEGMENT_STITCH_SEAM_CLAMP_TOLERANCE_SECONDS
           in if length committed_units \<noteq> 1 then (False, previous, cur)
              else if ck_lt ck clamp (ck_sub ck (sg_end previous) (wt_end committed))
                      \<or> ck_lt ck clamp (ck_sub ck (wt_end committed) (sg_end previous)) then (False, previous, cur)
              else if cap_pinned (ck_seam ck) max_span committed then (False, previous, cur)
              else case position (similar_head ck (sg_end previous) committed (committed_units ! 0)) (sg_words cur) of
                     None \<Rightarrow> (False, previous, cur)
                   | Some head_idx \<Rightarrow> merge_similar_at ck previous cur head_idx)"

definition try_merge_similar_seam_pair :: "'t clock_arith \<Rightarrow> 't transcript_assembler \<Rightarrow> 't segment \<Rightarrow> bool \<times> 't transcript_assembler \<times> 't segment" where
  "try_merge_similar_seam_pair ck a cur =
     (if tr_approximate a \<or> tr_segments a = [] then (False, a, cur)
      else case merge_similar_pair ck (tr_max_word_span a) (last (tr_segments a)) cur of (merged, p, c) \<Rightarrow> (merged, replace_last p a, c))"

definition seam_a_side_trust_flip_should_drop :: "'t clock_arith \<Rightarrow> 't word_timestamp \<Rightarrow> 't word_timestamp \<Rightarrow> 't \<Rightarrow> 't option \<Rightarrow> bool" where
  "seam_a_side_trust_flip_should_drop ck committed head previous_end max_span =
     (let clamp = ck_lit ck SEGMENT_STITCH_SEAM_CLAMP_TOLERANCE_SECONDS; certain = ck_lit ck SEAM_PHANTOM_COMMITTED_MIN_CONFIDENCE
      in if ck_le ck (wt_end committed) (wt_start head) then False
         else if ck_lt ck clamp (ck_sub ck previous_end (wt_end committed)) \<or> ck_lt ck clamp (ck_sub ck (wt_end committed) previous_end) then False
         else if \<not> (ck_lt ck (wt_start head) previous_end \<and> ck_lt ck clamp (ck_sub ck (wt_end head) previous_end)) then False
         else if normalize_words (wt_word committed) = normalize_words (wt_word head) \<or> \<not> has_ascii_alphabetic (wt_word head) then False
         else case (wt_confidence committed, wt_confidence head) of
                (Some committed_confidence, Some head_confidence) \<Rightarrow>
                  if ck_le ck certain committed_confidence then False
                  else if ck_lt ck head_confidence (ck_min ck (ck_add ck committed_confidence (ck_lit ck SEAM_TRUST_FLIP_HEAD_MARGIN)) certain) then False
                  else \<not> (cap_pinned (ck_seam ck) max_span head
                          \<and> (ck_lt ck (ck_add ck (wt_start committed) (ck_lit ck (5 / 100))) (wt_start head)
                             \<or> ck_lt ck (wt_end head) (ck_sub ck (wt_end committed) (ck_lit ck (5 / 100)))))
              | _ \<Rightarrow> False)"

function misdecoded_tail_loop :: "'t clock_arith \<Rightarrow> 't option \<Rightarrow> 't word_timestamp \<Rightarrow> 't segment \<Rightarrow> 't segment" where
  "misdecoded_tail_loop ck max_span head previous =
     (if length (sg_words previous) \<le> 1 \<or> \<not> seam_a_side_trust_flip_should_drop ck (last (sg_words previous)) head (sg_end previous) max_span
         \<or> trim (text_without_last_word previous) = [] then previous
      else misdecoded_tail_loop ck max_span head
             (previous\<lparr>sg_words := butlast (sg_words previous), sg_text := text_without_last_word previous\<rparr>))"
  by pat_completeness auto

termination misdecoded_tail_loop
  by (relation "measure (\<lambda>(_, _, _, previous). length (sg_words previous))") auto

declare misdecoded_tail_loop.simps [simp del]

definition drop_seam_misdecoded_tail :: "'t clock_arith \<Rightarrow> 't transcript_assembler \<Rightarrow> 't segment \<Rightarrow> bool \<times> 't transcript_assembler" where
  "drop_seam_misdecoded_tail ck a cur =
     (if tr_approximate a \<or> sg_words cur = [] \<or> tr_segments a = [] then (False, a)
      else let previous = last (tr_segments a); p = misdecoded_tail_loop ck (tr_max_word_span a) (hd (sg_words cur)) previous
           in (length (sg_words p) < length (sg_words previous), replace_last p a))"

section \<open>Pushing a slice\<close>

text \<open>
  The body of the loop over the segments of a slice. The state is the assembler and the flag
  \<open>cross_slice_seam\<close>; every \<open>continue\<close> is a result.
\<close>

definition append_rest :: "'t clock_arith \<Rightarrow> bool \<Rightarrow> nat option \<Rightarrow> 't transcript_assembler \<Rightarrow> bool \<Rightarrow> 't segment \<Rightarrow> 't transcript_assembler \<times> bool" where
  "append_rest ck overlaps scope a seam cur =
     (case if seam then drop_seam_misdecoded_tail ck a cur else (False, a) of
        (dropped, a1) \<Rightarrow>
          let a2 = if dropped then count_merge a1 else a1
          in if seam \<and> overlaps \<and> try_drop_redundant_segment (ck_seam ck) (tr_merge_policy a2) (tr_segments a2) cur then (count_merge a2, seam)
             else (push_segment cur scope a2, False))"

definition after_head_rule ::
  "bool \<times> 't segment \<Rightarrow> 't transcript_assembler \<Rightarrow> bool \<Rightarrow> ('t transcript_assembler \<Rightarrow> 't segment \<Rightarrow> 't transcript_assembler \<times> bool) \<Rightarrow> 't transcript_assembler \<times> bool" where
  "after_head_rule result a seam rest =
     (case result of (dropped, cur) \<Rightarrow>
        let a' = if dropped then count_merge a else a in if dropped \<and> trim (sg_text cur) = [] then (a', seam) else rest a' cur)"

definition head_rules ::
  "'t clock_arith \<Rightarrow> 't probe_arith \<Rightarrow> bool \<Rightarrow> 't option \<Rightarrow> bool \<Rightarrow> nat option \<Rightarrow> 't transcript_assembler \<Rightarrow> bool \<Rightarrow> 't segment \<Rightarrow> 't transcript_assembler \<times> bool" where
  "head_rules ck pa veto boundary overlaps scope a seam cur =
     after_head_rule (if seam then drop_seam_phantom_head ck a cur else (False, cur)) a seam (\<lambda>a1 c1.
       after_head_rule (if seam then drop_seam_reread_head ck pa a1 boundary c1 else (False, c1)) a1 seam (\<lambda>a2 c2.
         after_head_rule (if seam then drop_unverified_hook_echo ck pa veto a2 c2 else (False, c2)) a2 seam (\<lambda>a3 c3.
           append_rest ck overlaps scope a3 seam c3)))"

definition trim_then_rules ::
  "'t clock_arith \<Rightarrow> 't probe_arith \<Rightarrow> bool \<Rightarrow> 't option \<Rightarrow> bool \<Rightarrow> nat option \<Rightarrow> 't transcript_assembler \<Rightarrow> bool \<Rightarrow> 't segment \<Rightarrow> 't transcript_assembler \<times> bool" where
  "trim_then_rules ck pa veto boundary overlaps scope a seam cur =
     (case (case boundary of
              Some b \<Rightarrow> if tr_segments a = [] then (False, cur)
                         else trim_committed_overlap ck cur b (prev_tail_match_units ck (last (tr_segments a)) b)
            | None \<Rightarrow> (False, cur)) of
        (dropped, c) \<Rightarrow> if dropped then (count_merge a, seam) else head_rules ck pa veto boundary overlaps scope a seam c)"

definition push_mapped ::
  "'t clock_arith \<Rightarrow> 't probe_arith \<Rightarrow> bool \<Rightarrow> 't option \<Rightarrow> bool \<Rightarrow> nat option \<Rightarrow> 't transcript_assembler \<Rightarrow> bool \<Rightarrow> 't segment \<Rightarrow> 't transcript_assembler \<times> bool" where
  "push_mapped ck pa veto boundary overlaps scope a seam cur =
     (case if seam then try_stitch_seam_overlap ck overlaps a cur else (False, a, cur) of
        (stitched, a1, c1) \<Rightarrow>
          if stitched
          then if trim (sg_text c1) = [] then (count_merge a1, seam) else (push_segment c1 scope (count_merge a1), False)
          else case if seam then try_merge_similar_seam_pair ck a1 c1 else (False, a1, c1) of
                 (merged, a2, c2) \<Rightarrow>
                   let a3 = if merged then count_merge a2 else a2
                   in if merged \<and> trim (sg_text c2) = [] then (a3, seam)
                      else trim_then_rules ck pa veto boundary overlaps scope a3 seam c2)"

fun push_segments ::
  "'t clock_arith \<Rightarrow> 't probe_arith \<Rightarrow> bool \<Rightarrow> 't option \<Rightarrow> bool \<Rightarrow> nat option \<Rightarrow> audio_slice \<Rightarrow> segment_time_domain
    \<Rightarrow> 't transcript_assembler \<Rightarrow> bool \<Rightarrow> 't segment list \<Rightarrow> 't transcript_assembler" where
  "push_segments ck pa veto boundary overlaps scope slc domain a seam [] = a"
| "push_segments ck pa veto boundary overlaps scope slc domain a seam (seg # segs) =
     (let seg' = seg\<lparr>sg_text := trim (sg_text seg)\<rparr>
      in if sg_text seg' = [] then push_segments ck pa veto boundary overlaps scope slc domain a seam segs
         else case push_mapped ck pa veto boundary overlaps scope a seam (map_segment_time ck (tr_timeline a) (tr_max_word_span a) seg' slc domain) of
                (a', seam') \<Rightarrow> push_segments ck pa veto boundary overlaps scope slc domain a' seam' segs)"

definition committed_max :: "'t clock_arith \<Rightarrow> 't option \<Rightarrow> 't \<Rightarrow> 't" where
  "committed_max ck previous x = (case previous of Some p \<Rightarrow> ck_max ck p x | None \<Rightarrow> x)"

definition discount_cap_pinned :: "'t clock_arith \<Rightarrow> 't probe_arith \<Rightarrow> 't option \<Rightarrow> nat \<Rightarrow> 't transcript_assembler \<Rightarrow> 't transcript_assembler" where
  "discount_cap_pinned ck pa previous_committed_end segment_start_index a =
     (case (tr_max_word_span a,
            max_by_le (pa_total_le pa) wt_end (concat (map sg_words (drop segment_start_index (tr_segments a))))) of
        (Some limit, Some tail_word) \<Rightarrow>
          if cap_pinned (ck_seam ck) (Some limit) tail_word
          then a\<lparr>tr_committed_end := Some (committed_max ck previous_committed_end (ck_max ck (wt_start tail_word) (ck_lit ck 0)))\<rparr>
          else a
      | _ \<Rightarrow> a)"

definition push_slice_result_with_scope ::
  "'t clock_arith \<Rightarrow> 't probe_arith \<Rightarrow> bool \<Rightarrow> 't slice_transcript \<Rightarrow> nat option \<Rightarrow> 't transcript_assembler \<Rightarrow> 't transcript_assembler" where
  "push_slice_result_with_scope ck pa veto transcript scope a =
     (let boundary = tr_committed_end a; slc = sl_slice transcript;
          to_original = map_processed_to_original_seconds ck (tr_timeline a);
          slice_start_original = to_original (seconds_of_samples ck (as_content_start_sample slc));
          overlaps = (case boundary of Some b \<Rightarrow> ck_lt ck slice_start_original b | None \<Rightarrow> False);
          slice_committed_end = to_original (seconds_of_samples ck (as_content_end_sample slc));
          a1 = a\<lparr>tr_committed_end := Some (committed_max ck boundary slice_committed_end)\<rparr>;
          whole = trim (sl_text transcript)
      in if whole = [] \<and> list_all (\<lambda>s. trim (sg_text s) = []) (sl_segments transcript)
         then a1\<lparr>tr_stats := (tr_stats a1)\<lparr>st_skipped_silent_chunks := st_skipped_silent_chunks (tr_stats a1) + 1\<rparr>\<rparr>
         else let (segs, domain) =
                (if sl_segments transcript = []
                 then ([\<lparr>sg_start = ck_lit ck 0, sg_end = seconds_of_samples ck (content_duration_samples slc), sg_text = whole, sg_speaker = None,
                         sg_speaker_label = None, sg_speaker_person_id = None, sg_speaker_snapshot_label = None, sg_words = []\<rparr>],
                       RelativeToSliceContent)
                 else (sl_segments transcript, sl_time_domain transcript))
              in discount_cap_pinned ck pa boundary (length (tr_segments a))
                   (push_segments ck pa veto boundary overlaps scope slc domain a1 True segs))"

definition assembler_into_parts :: "'t transcript_assembler \<Rightarrow> rstr \<times> 't segment list \<times> assemble_stats \<times> nat option list" where
  "assembler_into_parts a = (join_segment_texts (map sg_text (tr_segments a)), tr_segments a, tr_stats a, tr_speaker_scopes a)"

text \<open>
  The bounds of the clamps of \<open>map_word_time_to_original\<close>: the segment's start is at most its end, and a
  clamped start at most the segment's end.
\<close>

lemma clamp_bounds_ordered:
  assumes "ordered_clock ck"
  shows "ck_le ck (sg_start (map_segment_time ck tm ms seg slc domain)) (sg_end (map_segment_time ck tm ms seg slc domain))"
    and "ck_le ck lo hi \<Longrightarrow> ck_le ck lo (ck_clamp ck x lo hi) \<and> ck_le ck (ck_clamp ck x lo hi) hi"
proof -
  have laws: "ck_le ck b (ck_max ck a b)" "ck_lt ck a b \<longleftrightarrow> \<not> ck_le ck b a" "ck_le ck a b \<or> ck_le ck b a" "ck_le ck a a" for a b
    using ordered_clock.max_upper(2) [OF assms] ordered_clock.lt_le [OF assms] ordered_clock.le_total [OF assms] ordered_clock.le_refl [OF assms] by auto
  show "ck_le ck (sg_start (map_segment_time ck tm ms seg slc domain)) (sg_end (map_segment_time ck tm ms seg slc domain))"
    using laws(1) by (simp add: map_segment_time_def Let_def)
  show "ck_le ck lo (ck_clamp ck x lo hi) \<and> ck_le ck (ck_clamp ck x lo hi) hi" if "ck_le ck lo hi"
    using that laws by (auto simp: ck_clamp_def Let_def)
qed

section \<open>Cutting a segment\<close>

lemma subseq_trim [simp]: "subseq (trim s) s"
proof -
  have "suffix (dropWhile is_ws s) s" by (rule suffix_dropWhile)
  moreover have "prefix (trim s) (dropWhile is_ws s)"
    unfolding trim_def trim_end_matches_def using suffix_dropWhile [of is_ws "rev (dropWhile is_ws s)"]
    by (simp add: suffix_to_prefix)
  ultimately show ?thesis
    using prefix_imp_subseq suffix_imp_subseq subseq_order.trans by blast
qed

lemma subseq_take_drop: "a \<le> b \<Longrightarrow> subseq (take a s @ drop b s) s"
proof -
  assume "a \<le> b"
  then have "subseq (drop b s) (drop a s)" by (metis le_add_diff_inverse2 drop_drop suffix_drop suffix_imp_subseq)
  then have "subseq (take a s @ drop b s) (take a s @ drop a s)" by (intro list_emb_append_mono) auto
  then show ?thesis by simp
qed

text \<open>A text made of parts of \<open>m\<close>: a part of its text, or of the join of some of its words.\<close>

definition text_part :: "'t segment \<Rightarrow> rstr \<Rightarrow> bool" where
  "text_part m t \<longleftrightarrow> subseq t (sg_text m) \<or> (\<exists>ws. subseq ws (sg_words m) \<and> subseq t (join_segment_texts (map wt_word ws)))"

text \<open>A segment left over from \<open>m\<close>. With interpolated timestamps (\<open>ap\<close>) the words are made anew.\<close>

definition derived :: "bool \<Rightarrow> 't segment \<Rightarrow> 't segment \<Rightarrow> bool" where
  "derived ap m s \<longleftrightarrow> sg_end s = sg_end m \<and> speaker_of s = speaker_of m \<and> (ap \<or> subseq (sg_words s) (sg_words m)) \<and> text_part m (sg_text s)"

lemma derived_refl [simp]: "derived ap m m"
  by (simp add: derived_def text_part_def)

lemma derived_weaken: "derived False m s \<Longrightarrow> derived ap m s"
  by (simp add: derived_def)

lemma text_part_subseq: "text_part m t \<Longrightarrow> subseq t' t \<Longrightarrow> text_part m t'"
  unfolding text_part_def using subseq_order.trans by blast

lemma text_part_words: "subseq ws (sg_words m) \<Longrightarrow> text_part m (join_segment_texts (map wt_word ws))"
  unfolding text_part_def by blast

lemma speaker_of_update [simp]:
  "speaker_of (s\<lparr>sg_text := t\<rparr>) = speaker_of s" "speaker_of (s\<lparr>sg_words := ws\<rparr>) = speaker_of s" "speaker_of (s\<lparr>sg_start := x\<rparr>) = speaker_of s"
  by (simp_all add: speaker_of_def)

lemma derived_without_leading_words: "derived False m s \<Longrightarrow> derived False m (without_leading_words k s)"
proof -
  assume d: "derived False m s"
  have ws: "subseq (drop k (sg_words s)) (sg_words m)"
    by (rule subseq_order.trans [OF suffix_imp_subseq [OF suffix_drop]]) (use d in \<open>simp add: derived_def\<close>)
  have "subseq (trim (drop i (sg_text s))) (sg_text s)" for i
    using subseq_trim suffix_imp_subseq [OF suffix_drop] subseq_order.trans by blast
  then show ?thesis
    using d ws text_part_words [OF ws] text_part_subseq
    by (auto simp: derived_def without_leading_words_def Let_def split: option.splits)
qed

lemma derived_trim_committed:
  "derived False m s \<Longrightarrow> trim_committed_overlap ck s b units = (dropped, s') \<Longrightarrow> derived False m s'"
  by (auto simp: trim_committed_overlap_def Let_def derived_without_leading_words split: if_splits option.splits)

lemma trim_committed_blank:
  "trim_committed_overlap ck s b units = (False, s') \<Longrightarrow> trim (sg_text s) \<noteq> [] \<Longrightarrow> trim (sg_text s') \<noteq> []"
  by (auto simp: trim_committed_overlap_def Let_def split: if_splits option.splits)

lemma leading_loop_mono:
  "leading_word_loop chars i ws = Some x \<Longrightarrow> leading_word_loop chars i (ws @ [w]) = Some y \<Longrightarrow> x \<le> y"
proof (induction chars i ws rule: leading_word_loop.induct)
  case (1 chars i)
  then show ?case
    using skip_whitespace_bounds [of i chars] skip_whitespace_bounds [of "skip_whitespace chars i" chars]
      skip_whitespace_bounds [of "skip_whitespace chars i + length (trim (wt_word w))" chars]
    by (auto simp: Let_def split: if_splits)
qed (auto simp: Let_def split: if_splits)

lemma leading_loop_le: "i \<le> length chars \<Longrightarrow> leading_word_loop chars i ws = Some x \<Longrightarrow> x \<le> length chars"
proof (induction chars i ws rule: leading_word_loop.induct)
  case (1 chars i)
  then show ?case using skip_whitespace_bounds by auto
next
  case (2 chars i w ws)
  then show ?case using skip_whitespace_bounds [of i chars] by (auto simp: Let_def split: if_splits)
qed

lemma text_without_word_part: "text_without_word k s = Some t \<Longrightarrow> k < length (sg_words s) \<Longrightarrow> subseq t (sg_text s)"
proof -
  assume t: "text_without_word k s = Some t" and k: "k < length (sg_words s)"
  obtain x where x: "leading_word_char_offset (sg_text s) (sg_words s) k = Some x"
    using t by (auto simp: text_without_word_def split: option.splits)
  define e where "e = (if k + 1 < length (sg_words s) then leading_word_char_offset (sg_text s) (sg_words s) (k + 1) else Some (length (sg_text s)))"
  have "map_option (\<lambda>y. trim (take x (sg_text s) @ drop y (sg_text s))) e = Some t"
    using t x by (simp add: text_without_word_def e_def)
  then obtain y where e: "e = Some y" and y: "t = trim (take x (sg_text s) @ drop y (sg_text s))" by auto
  have cases: "y = length (sg_text s) \<or> leading_word_char_offset (sg_text s) (sg_words s) (k + 1) = Some y"
    using e by (auto simp: e_def split: if_splits)
  have "x \<le> y"
  proof (cases "y = length (sg_text s)")
    case True
    then show ?thesis using x leading_loop_le [of 0 "sg_text s" "take k (sg_words s)" x] by (simp add: leading_word_char_offset_def)
  next
    case False
    then have "leading_word_loop (sg_text s) 0 (take k (sg_words s) @ [sg_words s ! k]) = Some y"
      using cases k by (simp add: leading_word_char_offset_def take_Suc_conv_app_nth)
    then show ?thesis using x leading_loop_mono by (auto simp: leading_word_char_offset_def)
  qed
  then show ?thesis unfolding y using subseq_trim subseq_take_drop subseq_order.trans by blast
qed

section \<open>Editing the committed segment\<close>

text \<open>
  What a seam may do to the last committed segment: its times and its speaker stay; with
  interpolated timestamps it still says the same units, otherwise its words lose at most some at
  the end; and it does not become blank.
\<close>

definition edited :: "bool \<Rightarrow> 't segment \<Rightarrow> 't segment \<Rightarrow> bool" where
  "edited ap p p' \<longleftrightarrow> sg_start p' = sg_start p \<and> sg_end p' = sg_end p \<and> speaker_of p' = speaker_of p
     \<and> (if ap then seam_tokens (sg_text p') = seam_tokens (sg_text p) else prefix (map wt_word (sg_words p')) (map wt_word (sg_words p)))
     \<and> (trim (sg_text p) \<noteq> [] \<longrightarrow> trim (sg_text p') \<noteq> [])"

lemma edited_refl [simp]: "edited ap p p"
  by (simp add: edited_def)

lemma edited_trans: "edited ap p q \<Longrightarrow> edited ap q r \<Longrightarrow> edited ap p r"
  by (auto simp: edited_def split: if_splits intro: prefix_order.trans)

definition edited_list :: "bool \<Rightarrow> 't segment list \<Rightarrow> 't segment list \<Rightarrow> bool" where
  "edited_list ap xs ys \<longleftrightarrow> (if xs = [] then ys = [] else (\<exists>p. ys = butlast xs @ [p] \<and> edited ap (last xs) p))"

lemma edited_list_refl [simp]: "edited_list ap xs xs"
  by (simp add: edited_list_def) (metis append_butlast_last_id edited_refl)

lemma edited_list_trans: "edited_list ap xs ys \<Longrightarrow> edited_list ap ys zs \<Longrightarrow> edited_list ap xs zs"
  by (auto simp: edited_list_def split: if_splits intro: edited_trans)

lemma edited_list_replace: "xs \<noteq> [] \<Longrightarrow> edited ap (last xs) p \<Longrightarrow> edited_list ap xs (butlast xs @ [p])"
  by (simp add: edited_list_def)

lemma seam_tokens_blank_text: "trim s = [] \<Longrightarrow> seam_tokens s = []"
  by (metis seam_tokens_Nil seam_tokens_trim)

lemma without_last_word_edited:
  "length (sg_words p) > 1 \<Longrightarrow> trim (text_without_last_word p) \<noteq> []
     \<Longrightarrow> edited False p (p\<lparr>sg_words := butlast (sg_words p), sg_text := text_without_last_word p\<rparr>)"
  by (simp add: edited_def map_butlast prefixeq_butlast)

lemma misdecoded_tail_edited: "edited False p (misdecoded_tail_loop ck max_span head p)"
proof (induction ck max_span head p rule: misdecoded_tail_loop.induct)
  case (1 ck max_span head p)
  show ?case
  proof (cases "length (sg_words p) \<le> 1 \<or> \<not> seam_a_side_trust_flip_should_drop ck (last (sg_words p)) head (sg_end p) max_span
      \<or> trim (text_without_last_word p) = []")
    case True
    then show ?thesis by (subst misdecoded_tail_loop.simps) simp
  next
    case False
    then have "edited False p (p\<lparr>sg_words := butlast (sg_words p), sg_text := text_without_last_word p\<rparr>)"
      by (intro without_last_word_edited) auto
    from edited_trans [OF this 1 [OF False]] show ?thesis using False by (subst misdecoded_tail_loop.simps) simp
  qed
qed

lemma stitch_current_text:
  "apply_suffix_prefix_stitch sm n t r ap ms p c = (st, p', c') \<Longrightarrow> subseq (sg_text c') (sg_text c)"
proof -
  assume r: "apply_suffix_prefix_stitch sm n t r ap ms p c = (st, p', c')"
  define Q :: "bool \<times> 'a segment \<times> 'a segment \<Rightarrow> bool" where "Q = (\<lambda>(_, _, c'). subseq (sg_text c') (sg_text c))"
  have "subseq (trim (drop i (sg_text c))) (sg_text c)" for i
    using subseq_trim suffix_imp_subseq [OF suffix_drop] subseq_order.trans by blast
  then have Q: "Q (st, p', c)" "Q (st, p', c\<lparr>sg_text := trim (drop i (sg_text c)), sg_words := ws\<rparr>)" for st p' i ws
    by (simp_all add: Q_def)
  have "Q (apply_suffix_prefix_stitch sm n t r ap ms p c)"
    unfolding apply_suffix_prefix_stitch_def char_suffix_def by (simp add: Q Let_def split: option.split)
  then show ?thesis by (simp add: r Q_def)
qed

lemma stitch_edited:
  assumes "apply_suffix_prefix_stitch sm n t r ap ms p c = (st, p', c')"
  shows "edited ap p p'" and "derived False c c'" and "\<not> st \<longrightarrow> p' = p \<and> c' = c"
    and "seam_tokens (sg_text p') = seam_tokens (sg_text p)" and "st \<longrightarrow> trim (sg_text p') \<noteq> []"
proof -
  note facts = stitch_facts [where sm = sm and min_units = n and time_overlap = t and max_regap = r and approximate = ap and max_span = ms
      and previous = p and current = c, unfolded assms, simplified]
  show unch: "\<not> st \<longrightarrow> p' = p \<and> c' = c" using facts by auto
  have p': "p' = p\<lparr>sg_text := sg_text p', sg_words := sg_words p'\<rparr>" using facts unch by (auto split: if_splits)
  have c': "c' = c\<lparr>sg_text := sg_text c', sg_words := sg_words c'\<rparr>" using facts unch by (auto split: if_splits)
  show tok: "seam_tokens (sg_text p') = seam_tokens (sg_text p)" using facts by (auto split: if_splits)
  have w: "map wt_word (sg_words p') = map wt_word (sg_words p)" "suffix (sg_words c') (sg_words c)"
    using facts unch by (auto split: if_splits)
  show blank: "st \<longrightarrow> trim (sg_text p') \<noteq> []"
    using facts tok seam_tokens_blank_text by (fastforce split: if_splits)
  have same: "sg_start p' = sg_start p" "sg_end p' = sg_end p" "speaker_of p' = speaker_of p" "sg_end c' = sg_end c" "speaker_of c' = speaker_of c"
    by (subst p', simp)+ (subst c', simp)+
  show "edited ap p p'" using same w tok blank unch by (auto simp: edited_def)
  show "derived False c c'"
    using same w(2) stitch_current_text [OF assms] by (simp add: derived_def text_part_def suffix_imp_subseq)
qed

lemma stitch_seam_edited:
  assumes "stitch_seam ck a overlaps p c = (st, p', c')"
  shows "edited (tr_approximate a) p p'" and "derived (tr_approximate a) c c'" and "\<not> st \<longrightarrow> p' = p \<and> c' = c"
proof -
  obtain st0 p0 c0 where ap: "apply_suffix_prefix_stitch (ck_seam ck) (if ck_lt ck (ck_lit ck (1 / 1000)) (ck_sub ck (sg_end p) (sg_start c)) then 2 else 3)
      (ck_sub ck (sg_end p) (sg_start c)) (ck_lit ck SEGMENT_STITCH_MAX_REGAP_SECONDS) (tr_approximate a) (tr_max_word_span a) p c = (st0, p0, c0)"
    using prod_cases3 by blast
  note s = stitch_edited [OF ap]
  have cases: "(st, p', c') = (False, p, c) \<or> (st, p', c') = (st0, p0, c0)
      \<or> (tr_approximate a \<and> st \<and> (\<exists>ws ws'. p' = p0\<lparr>sg_words := ws\<rparr> \<and> c' = c0\<lparr>sg_words := ws'\<rparr>))"
    using assms ap by (auto simp: stitch_seam_def Let_def split: if_splits)
  have e: "edited True p (p0\<lparr>sg_words := ws\<rparr>)" if "tr_approximate a" for ws using s(1) that by (auto simp: edited_def)
  have d: "derived True c (c0\<lparr>sg_words := ws\<rparr>)" for ws using s(2) by (auto simp: derived_def)
  show "edited (tr_approximate a) p p'" using cases s(1) e by auto
  show "derived (tr_approximate a) c c'" using cases derived_weaken [OF s(2)] d by auto
  show "\<not> st \<longrightarrow> p' = p \<and> c' = c" using cases s(3) by auto
qed

lemma position_less: "position P xs = Some k \<Longrightarrow> k < length xs"
  by (auto simp: position_def Let_def split: if_splits)

lemma merge_similar_at_edited:
  assumes k: "k < length (sg_words c)"
  shows "case merge_similar_at ck p c k of (merged, p', c') \<Rightarrow> edited False p p' \<and> derived False c c' \<and> (\<not> merged \<longrightarrow> p' = p \<and> c' = c)"
proof -
  define Q :: "bool \<times> 'a segment \<times> 'a segment \<Rightarrow> bool" where
    "Q = (\<lambda>(merged, p', c'). edited False p p' \<and> derived False c c' \<and> (\<not> merged \<longrightarrow> p' = p \<and> c' = c))"
  have Q0: "Q (False, p, c)" by (simp add: Q_def)
  have Q1: "Q (if length (sg_words p) \<le> 1 \<or> trim (text_without_last_word p) = [] then (False, p, c)
      else (True, p\<lparr>sg_words := butlast (sg_words p), sg_text := text_without_last_word p\<rparr>, c))"
    using without_last_word_edited [of p] by (simp add: Q_def)
  have "subseq t (sg_text c)" if "text_without_word k c = Some t" for t using text_without_word_part [OF that k] .
  then have Q2: "Q (case text_without_word k c of None \<Rightarrow> (False, p, c)
      | Some t \<Rightarrow> (True, p, c\<lparr>sg_words := take k (sg_words c) @ drop (k + 1) (sg_words c), sg_start := x, sg_text := t\<rparr>))" for x
    using subseq_take_drop [of k "k + 1" "sg_words c"] by (auto simp: Q_def derived_def text_part_def split: option.split)
  have "Q (merge_similar_at ck p c k)"
  proof (cases "wt_confidence (last (sg_words p))"; cases "wt_confidence (sg_words c ! k)")
    fix cc hc assume "wt_confidence (last (sg_words p)) = Some cc" "wt_confidence (sg_words c ! k) = Some hc"
    then show ?thesis unfolding merge_similar_at_def Let_def using Q0 Q1 Q2 by (simp split: if_split)
  qed (simp_all add: merge_similar_at_def Let_def Q0)
  then show ?thesis by (simp add: Q_def)
qed

lemma merge_similar_edited:
  assumes "merge_similar_pair ck ms p c = (merged, p', c')"
  shows "edited False p p' \<and> derived False c c' \<and> (\<not> merged \<longrightarrow> p' = p \<and> c' = c)"
proof -
  have "merge_similar_pair ck ms p c = (False, p, c) \<or> (\<exists>k < length (sg_words c). merge_similar_pair ck ms p c = merge_similar_at ck p c k)"
    unfolding merge_similar_pair_def Let_def using position_less by (auto split: option.split)
  then show ?thesis using merge_similar_at_edited [where c = c and ck = ck and p = p] assms by fastforce
qed

section \<open>What one segment does\<close>

definition same_setup :: "'t transcript_assembler \<Rightarrow> 't transcript_assembler \<Rightarrow> bool" where
  "same_setup a a' \<longleftrightarrow> tr_timeline a' = tr_timeline a \<and> tr_merge_policy a' = tr_merge_policy a \<and> tr_committed_end a' = tr_committed_end a
     \<and> tr_approximate a' = tr_approximate a \<and> tr_max_word_span a' = tr_max_word_span a \<and> tr_audio_levels a' = tr_audio_levels a"

text \<open>The seam was only edited: same segments but for the last, same scopes.\<close>

definition seam_only :: "'t transcript_assembler \<Rightarrow> 't transcript_assembler \<Rightarrow> bool" where
  "seam_only a a' \<longleftrightarrow> same_setup a a' \<and> edited_list (tr_approximate a) (tr_segments a) (tr_segments a') \<and> tr_speaker_scopes a' = tr_speaker_scopes a"

text \<open>A segment \<open>m\<close> is dropped (\<open>kept = None\<close>) or what is left of it is appended.\<close>

definition outcome :: "nat option \<Rightarrow> 't segment \<Rightarrow> 't transcript_assembler \<Rightarrow> bool \<Rightarrow> 't transcript_assembler \<times> bool \<Rightarrow> bool" where
  "outcome scope m a seam result \<longleftrightarrow> (case result of (a', seam') \<Rightarrow>
     \<exists>a0. (if seam then seam_only a a0 else same_setup a a0 \<and> tr_segments a0 = tr_segments a \<and> tr_speaker_scopes a0 = tr_speaker_scopes a)
       \<and> same_setup a a'
       \<and> ((tr_segments a' = tr_segments a0 \<and> tr_speaker_scopes a' = tr_speaker_scopes a0 \<and> seam' = seam)
          \<or> (\<exists>s. tr_segments a' = tr_segments a0 @ [s] \<and> tr_speaker_scopes a' = tr_speaker_scopes a0 @ [scope]
               \<and> derived (tr_approximate a) m s \<and> trim (sg_text s) \<noteq> [] \<and> \<not> seam')))"

lemma same_setup_refl [simp]: "same_setup a a"
  by (simp add: same_setup_def)

lemma same_setup_trans: "same_setup a b \<Longrightarrow> same_setup b c \<Longrightarrow> same_setup a c"
  by (simp add: same_setup_def)

lemma seam_only_refl [simp]: "seam_only a a"
  by (simp add: seam_only_def)

lemma seam_only_trans: "seam_only a b \<Longrightarrow> seam_only b c \<Longrightarrow> seam_only a c"
  unfolding seam_only_def same_setup_def by (elim conjE, intro conjI) (simp_all, rule edited_list_trans)

lemma count_merge_simps [simp]:
  "tr_segments (count_merge a) = tr_segments a" "tr_speaker_scopes (count_merge a) = tr_speaker_scopes a" "same_setup b (count_merge a) = same_setup b a"
  "tr_approximate (count_merge a) = tr_approximate a" "tr_merge_policy (count_merge a) = tr_merge_policy a"
  by (simp_all add: count_merge_def same_setup_def)

lemma seam_only_count [simp]: "seam_only b (count_merge a) = seam_only b a" "seam_only (count_merge a) b = seam_only a b"
  by (simp_all add: seam_only_def count_merge_def same_setup_def)

lemma outcome_trans:
  assumes "if seam then seam_only a b else b = a" "outcome scope m b seam r"
  shows "outcome scope m a seam r"
proof (cases seam)
  case True
  then have ab: "seam_only a b" using assms(1) by simp
  then have s: "same_setup a b" "tr_approximate b = tr_approximate a" by (auto simp: seam_only_def same_setup_def)
  show ?thesis
    using assms(2) True seam_only_trans [OF ab] same_setup_trans [OF s(1)] s(2) unfolding outcome_def by (cases r) fastforce
next
  case False
  then show ?thesis using assms by simp
qed

lemma outcome_dropped: "if seam then seam_only a b else b = a \<Longrightarrow> outcome scope m a seam (b, seam)"
  unfolding outcome_def by (rule case_prodI, rule exI [of _ b]) (auto simp: seam_only_def split: if_splits)

lemma outcome_pushed:
  assumes "if seam then seam_only a b else b = a" "derived (tr_approximate a) m s" "trim (sg_text s) \<noteq> []"
  shows "outcome scope m a seam (push_segment s scope b, False)"
  unfolding outcome_def
  by (rule case_prodI, rule exI [of _ b]) (use assms in \<open>auto simp: push_segment_def seam_only_def same_setup_def split: if_splits\<close>)

lemma outcome_count_merge: "outcome scope m (count_merge a) seam r \<longleftrightarrow> outcome scope m a seam r"
  by (cases r) (simp add: outcome_def seam_only_def same_setup_def count_merge_def)

lemma drop_tail_seam_only: "drop_seam_misdecoded_tail ck a c = (dropped, a') \<Longrightarrow> seam_only a a'"
proof (cases "tr_approximate a \<or> sg_words c = [] \<or> tr_segments a = []")
  case False
  assume r: "drop_seam_misdecoded_tail ck a c = (dropped, a')"
  have "edited_list False (tr_segments a) (butlast (tr_segments a) @ [misdecoded_tail_loop ck (tr_max_word_span a) (hd (sg_words c)) (last (tr_segments a))])"
    using False misdecoded_tail_edited by (intro edited_list_replace) auto
  then show ?thesis
    using r False by (auto simp: drop_seam_misdecoded_tail_def Let_def seam_only_def same_setup_def replace_last_def)
qed (auto simp: drop_seam_misdecoded_tail_def)

lemma append_rest_outcome:
  assumes "derived (tr_approximate a) m c" "trim (sg_text c) \<noteq> []"
  shows "outcome scope m a seam (append_rest ck overlaps scope a seam c)"
proof -
  obtain dropped a1 where d: "(if seam then drop_seam_misdecoded_tail ck a c else (False, a)) = (dropped, a1)" by fastforce
  then have s: "if seam then seam_only a a1 else a1 = a" using drop_tail_seam_only by (cases seam) auto
  have "if seam then seam_only a (if dropped then count_merge a1 else a1) else (if dropped then count_merge a1 else a1) = a"
    using s d by (cases seam) auto
  from outcome_pushed [OF this assms] outcome_dropped [of seam a "count_merge (if dropped then count_merge a1 else a1)" scope m] this
  show ?thesis unfolding append_rest_def d by (auto simp: Let_def split: if_splits)
qed

lemma after_head_rule_outcome:
  assumes r: "result = (dropped, c)" "\<not> dropped \<longrightarrow> trim (sg_text c) \<noteq> []" "dropped \<longrightarrow> seam"
    and rest: "\<And>a'. tr_approximate a' = tr_approximate a \<Longrightarrow> trim (sg_text c) \<noteq> [] \<Longrightarrow> outcome scope m a' seam (rest a' c)"
  shows "outcome scope m a seam (after_head_rule result a seam rest)"
proof (cases dropped)
  case True
  have "outcome scope m a seam (count_merge a, seam)" using r(3) True by (intro outcome_dropped) simp
  moreover have "outcome scope m a seam (rest (count_merge a) c)" if "trim (sg_text c) \<noteq> []"
    using rest [of "count_merge a"] that by (simp add: outcome_count_merge)
  ultimately show ?thesis using True r(1) by (simp add: after_head_rule_def Let_def)
next
  case False
  then show ?thesis using r(1,2) rest [of a] by (simp add: after_head_rule_def Let_def)
qed

text \<open>A head rule leaves the segment alone or drops its first word, and only with acoustic timestamps.\<close>

lemma head_rule_cases:
  shows "drop_seam_phantom_head ck a c = (False, c) \<or> drop_seam_phantom_head ck a c = (True, without_leading_words 1 c) \<and> \<not> tr_approximate a"
    and "drop_seam_reread_head ck pa a b c = (False, c) \<or> drop_seam_reread_head ck pa a b c = (True, without_leading_words 1 c) \<and> \<not> tr_approximate a"
    and "drop_unverified_hook_echo ck pa veto a c = (False, c)
      \<or> drop_unverified_hook_echo ck pa veto a c = (True, without_leading_words 1 c) \<and> \<not> tr_approximate a"
  by (auto simp: drop_seam_phantom_head_def drop_seam_reread_head_def drop_unverified_hook_echo_def split: option.splits)

lemma one_head_rule:
  assumes c: "derived False m c" "trim (sg_text c) \<noteq> []"
    and rule: "rule = (False, c) \<or> rule = (True, without_leading_words 1 c) \<and> \<not> tr_approximate a"
    and rest: "\<And>a' c'. tr_approximate a' = tr_approximate a \<Longrightarrow> derived False m c' \<Longrightarrow> trim (sg_text c') \<noteq> [] \<Longrightarrow> outcome scope m a' seam (rest a' c')"
  shows "outcome scope m a seam (after_head_rule (if seam then rule else (False, c)) a seam rest)"
proof (cases "seam \<and> rule = (True, without_leading_words 1 c)")
  case True
  then show ?thesis
    using rest [OF _ derived_without_leading_words [OF c(1)]]
    by (intro after_head_rule_outcome [where dropped = True and c = "without_leading_words 1 c"]) auto
next
  case False
  then have "(if seam then rule else (False, c)) = (False, c)" using rule by auto
  then show ?thesis using rest [OF _ c(1)] c(2) by (intro after_head_rule_outcome [where dropped = False and c = c]) auto
qed

lemma head_rules_outcome:
  assumes "derived False m c" "trim (sg_text c) \<noteq> []"
  shows "outcome scope m a seam (head_rules ck pa veto b overlaps scope a seam c)"
  unfolding head_rules_def
  by (rule one_head_rule [OF assms head_rule_cases(1)], rule one_head_rule [OF _ _ head_rule_cases(2)], assumption, assumption,
      rule one_head_rule [OF _ _ head_rule_cases(3)], assumption, assumption, rule append_rest_outcome, rule derived_weaken, assumption+)

lemma trim_then_rules_outcome:
  assumes "derived False m c" "trim (sg_text c) \<noteq> []"
  shows "outcome scope m a seam (trim_then_rules ck pa veto b overlaps scope a seam c)"
proof -
  obtain dropped c' where t: "(case b of
        Some x \<Rightarrow> if tr_segments a = [] then (False, c) else trim_committed_overlap ck c x (prev_tail_match_units ck (last (tr_segments a)) x)
      | None \<Rightarrow> (False, c)) = (dropped, c')" by fastforce
  have "derived False m c'" and "\<not> dropped \<longrightarrow> trim (sg_text c') \<noteq> []"
    using t assms derived_trim_committed trim_committed_blank by (fastforce split: option.splits if_splits)+
  then have "outcome scope m a seam (head_rules ck pa veto b overlaps scope a seam c')" if "\<not> dropped" using that head_rules_outcome by blast
  moreover have "outcome scope m a seam (count_merge a, seam)"
    unfolding outcome_def by (rule case_prodI, rule exI [of _ a]) auto
  ultimately show ?thesis unfolding trim_then_rules_def t by auto
qed

lemma stitch_seam_only:
  assumes "try_stitch_seam_overlap ck overlaps a c = (st, a', c')"
  shows "seam_only a a' \<and> derived (tr_approximate a) c c' \<and> (\<not> st \<longrightarrow> c' = c)"
proof (cases "tr_segments a = []")
  case False
  obtain st0 p0 c0 where r: "stitch_seam ck a overlaps (last (tr_segments a)) c = (st0, p0, c0)" using prod_cases3 by blast
  show ?thesis
    using assms r False stitch_seam_edited [OF r] edited_list_replace [OF False, of "tr_approximate a" p0]
    by (auto simp: try_stitch_seam_overlap_def replace_last_def seam_only_def same_setup_def)
qed (use assms in \<open>auto simp: try_stitch_seam_overlap_def\<close>)

lemma merge_seam_only:
  assumes "try_merge_similar_seam_pair ck a c = (merged, a', c')"
  shows "seam_only a a' \<and> derived False c c' \<and> (\<not> merged \<longrightarrow> c' = c)"
proof (cases "tr_approximate a \<or> tr_segments a = []")
  case False
  obtain m0 p0 c0 where r: "merge_similar_pair ck (tr_max_word_span a) (last (tr_segments a)) c = (m0, p0, c0)" using prod_cases3 by blast
  have ne: "tr_segments a \<noteq> []" using False by simp
  show ?thesis
    using assms r False merge_similar_edited [OF r] edited_list_replace [OF ne, of False p0]
    by (auto simp: try_merge_similar_seam_pair_def replace_last_def seam_only_def same_setup_def)
qed (use assms in \<open>auto simp: try_merge_similar_seam_pair_def\<close>)

lemma push_mapped_outcome:
  assumes "trim (sg_text m) \<noteq> []"
  shows "outcome scope m a seam (push_mapped ck pa veto b overlaps scope a seam m)"
proof -
  obtain st a1 c1 where s: "(if seam then try_stitch_seam_overlap ck overlaps a m else (False, a, m)) = (st, a1, c1)" using prod_cases3 by blast
  have s1: "if seam then seam_only a a1 else a1 = a" "derived (tr_approximate a) m c1" "\<not> st \<longrightarrow> c1 = m" "st \<longrightarrow> seam"
    using s stitch_seam_only by (cases seam; fastforce)+
  obtain mg a2 c2 where g: "(if seam then try_merge_similar_seam_pair ck a1 c1 else (False, a1, c1)) = (mg, a2, c2)" using prod_cases3 by blast
  have g1: "if seam then seam_only a1 a2 else a2 = a1" "derived False c1 c2" "\<not> mg \<longrightarrow> c2 = c1" "mg \<longrightarrow> seam"
    using g merge_seam_only by (cases seam; fastforce)+
  define a3 where "a3 = (if mg then count_merge a2 else a2)"
  have a3: "if seam then seam_only a a3 else a3 = a" using s1(1) g1(1,4) seam_only_trans by (auto simp: a3_def)
  show ?thesis
  proof (cases st)
    case True
    then have t: "if seam then seam_only a (count_merge a1) else count_merge a1 = a" using s1 by simp
    show ?thesis
      using True outcome_dropped [OF t] outcome_pushed [OF t s1(2)] s by (simp add: push_mapped_def)
  next
    case False
    then have c2: "derived False m c2" "\<not> mg \<longrightarrow> c2 = m" using s1(3) g1 by auto
    have "outcome scope m a seam (trim_then_rules ck pa veto b overlaps scope a3 seam c2)" if "trim (sg_text c2) \<noteq> []"
      using outcome_trans [OF a3 trim_then_rules_outcome [OF c2(1) that]] .
    moreover have "outcome scope m a seam (a3, seam)" using outcome_dropped [OF a3] .
    ultimately show ?thesis using False s g c2(2) assms by (auto simp: push_mapped_def a3_def Let_def)
  qed
qed

section \<open>What a slice does\<close>

definition mapped_segments :: "'t clock_arith \<Rightarrow> 't timeline_map \<Rightarrow> 't option \<Rightarrow> audio_slice \<Rightarrow> segment_time_domain \<Rightarrow> 't segment list \<Rightarrow> 't segment list" where
  "mapped_segments ck tm ms slc domain segs =
     map (\<lambda>s. map_segment_time ck tm ms (s\<lparr>sg_text := trim (sg_text s)\<rparr>) slc domain) (filter (\<lambda>s. trim (sg_text s) \<noteq> []) segs)"

lemma trim_trim_blank [simp]: "trim (trim s) = [] \<longleftrightarrow> trim s = []"
proof -
  have v: "trim t = [] \<longleftrightarrow> visible t = []" for t by (simp add: trim_words visible_def filter_empty_conv)
  show ?thesis by (simp add: v [of "trim s"] v [of s])
qed

lemma mapped_text: "sg_text (map_segment_time ck tm ms seg slc domain) = sg_text seg"
  by (simp add: map_segment_time_def Let_def)

lemma push_segments_ok:
  "\<exists>a0 picked kept. (if seam then seam_only a a0 else same_setup a a0 \<and> tr_segments a0 = tr_segments a \<and> tr_speaker_scopes a0 = tr_speaker_scopes a)
     \<and> same_setup a (push_segments ck pa veto b overlaps scope slc domain a seam segs)
     \<and> tr_segments (push_segments ck pa veto b overlaps scope slc domain a seam segs) = tr_segments a0 @ kept
     \<and> tr_speaker_scopes (push_segments ck pa veto b overlaps scope slc domain a seam segs) = tr_speaker_scopes a0 @ replicate (length kept) scope
     \<and> subseq picked (mapped_segments ck (tr_timeline a) (tr_max_word_span a) slc domain segs)
     \<and> list_all2 (derived (tr_approximate a)) picked kept \<and> list_all (\<lambda>s. trim (sg_text s) \<noteq> []) kept"
  (is "\<exists>a0 picked kept. ?ok a seam segs a0 picked kept")
proof (induction segs arbitrary: a seam)
  case Nil
  have "?ok a seam [] a [] []" by simp
  then show ?case by blast
next
  case (Cons seg segs)
  show ?case
  proof (cases "trim (sg_text seg) = []")
    case True
    then show ?thesis using Cons.IH [of seam a] by (simp add: mapped_segments_def Let_def)
  next
    case False
    define m where "m = map_segment_time ck (tr_timeline a) (tr_max_word_span a) (seg\<lparr>sg_text := trim (sg_text seg)\<rparr>) slc domain"
    obtain a' seam' where r: "push_mapped ck pa veto b overlaps scope a seam m = (a', seam')" by fastforce
    have step: "push_segments ck pa veto b overlaps scope slc domain a seam (seg # segs)
        = push_segments ck pa veto b overlaps scope slc domain a' seam' segs"
      using False r by (simp add: m_def Let_def)
    have mapped: "mapped_segments ck (tr_timeline a) (tr_max_word_span a) slc domain (seg # segs)
        = m # mapped_segments ck (tr_timeline a) (tr_max_word_span a) slc domain segs"
      using False by (simp add: mapped_segments_def m_def)
    have "trim (sg_text m) \<noteq> []" using False by (simp add: m_def mapped_text)
    from push_mapped_outcome [OF this, of scope a seam ck pa veto b overlaps, unfolded r outcome_def, simplified]
    obtain a0 where a0: "if seam then seam_only a a0 else same_setup a a0 \<and> tr_segments a0 = tr_segments a \<and> tr_speaker_scopes a0 = tr_speaker_scopes a"
      and su: "same_setup a a'"
      and cases: "(tr_segments a' = tr_segments a0 \<and> tr_speaker_scopes a' = tr_speaker_scopes a0 \<and> seam' = seam)
        \<or> (\<exists>s. tr_segments a' = tr_segments a0 @ [s] \<and> tr_speaker_scopes a' = tr_speaker_scopes a0 @ [scope]
             \<and> derived (tr_approximate a) m s \<and> trim (sg_text s) \<noteq> [] \<and> \<not> seam')" by blast
    have same: "tr_timeline a' = tr_timeline a" "tr_max_word_span a' = tr_max_word_span a" "tr_approximate a' = tr_approximate a"
      using su by (auto simp: same_setup_def)
    obtain b0 picked kept where ih: "?ok a' seam' segs b0 picked kept" using Cons.IH [of seam' a'] by blast
    from cases show ?thesis
    proof (elim disjE exE)
      assume d: "tr_segments a' = tr_segments a0 \<and> tr_speaker_scopes a' = tr_speaker_scopes a0 \<and> seam' = seam"
      have "if seam then seam_only a b0 else same_setup a b0 \<and> tr_segments b0 = tr_segments a \<and> tr_speaker_scopes b0 = tr_speaker_scopes a"
      proof (cases seam)
        case True
        then have "seam_only a a'" "seam_only a' b0" using a0 d su ih by (auto simp: seam_only_def)
        then show ?thesis using True seam_only_trans by auto
      next
        case False
        then show ?thesis using a0 d su ih same_setup_trans by auto
      qed
      then have "?ok a seam (seg # segs) b0 picked kept"
        using ih same_setup_trans [OF su] by (simp only: step mapped same) (simp, blast intro: list_emb_Cons)
      then show ?thesis by blast
    next
      fix s assume p: "tr_segments a' = tr_segments a0 @ [s] \<and> tr_speaker_scopes a' = tr_speaker_scopes a0 @ [scope]
        \<and> derived (tr_approximate a) m s \<and> trim (sg_text s) \<noteq> [] \<and> \<not> seam'"
      have "?ok a seam (seg # segs) a0 (m # picked) (s # kept)"
        using ih p a0 same_setup_trans [OF su] by (simp only: step mapped same) simp
      then show ?thesis by blast
    qed
  qed
qed

text \<open>The segments of a slice on the original timeline, before the rules of the seam.\<close>

definition slice_segments :: "'t clock_arith \<Rightarrow> 't transcript_assembler \<Rightarrow> 't slice_transcript \<Rightarrow> 't segment list" where
  "slice_segments ck a transcript =
     (let mapped = mapped_segments ck (tr_timeline a) (tr_max_word_span a) (sl_slice transcript)
      in if sl_segments transcript = []
         then mapped RelativeToSliceContent
           [\<lparr>sg_start = ck_lit ck 0, sg_end = seconds_of_samples ck (content_duration_samples (sl_slice transcript)),
             sg_text = trim (sl_text transcript), sg_speaker = None, sg_speaker_label = None, sg_speaker_person_id = None,
             sg_speaker_snapshot_label = None, sg_words = []\<rparr>]
         else mapped (sl_time_domain transcript) (sl_segments transcript))"

lemma discount_simps [simp]:
  "tr_segments (discount_cap_pinned ck pa b n a) = tr_segments a" "tr_speaker_scopes (discount_cap_pinned ck pa b n a) = tr_speaker_scopes a"
  by (auto simp: discount_cap_pinned_def split: option.splits)

lemma push_slice_shape:
  obtains a1 b overlaps domain segs where "tr_segments a1 = tr_segments a" "tr_speaker_scopes a1 = tr_speaker_scopes a"
      "tr_approximate a1 = tr_approximate a" "b = tr_committed_end a"
      "\<exists>x. tr_committed_end a1 = Some (committed_max ck (tr_committed_end a) x)"
      "mapped_segments ck (tr_timeline a1) (tr_max_word_span a1) (sl_slice t) domain segs = slice_segments ck a t"
    and "push_slice_result_with_scope ck pa veto t scope a
      = discount_cap_pinned ck pa b (length (tr_segments a)) (push_segments ck pa veto b overlaps scope (sl_slice t) domain a1 True segs)"
  | "tr_segments (push_slice_result_with_scope ck pa veto t scope a) = tr_segments a"
    "tr_speaker_scopes (push_slice_result_with_scope ck pa veto t scope a) = tr_speaker_scopes a"
    "\<exists>x. tr_committed_end (push_slice_result_with_scope ck pa veto t scope a) = Some (committed_max ck (tr_committed_end a) x)"
proof (cases "trim (sl_text t) = [] \<and> list_all (\<lambda>s. trim (sg_text s) = []) (sl_segments t)")
  case True
  then show ?thesis by (intro that(2)) (auto simp: push_slice_result_with_scope_def Let_def)
next
  case False
  define segs where "segs = (if sl_segments t = [] then [\<lparr>sg_start = ck_lit ck 0,
      sg_end = seconds_of_samples ck (content_duration_samples (sl_slice t)), sg_text = trim (sl_text t), sg_speaker = None,
      sg_speaker_label = None, sg_speaker_person_id = None, sg_speaker_snapshot_label = None, sg_words = []\<rparr>] else sl_segments t)"
  define domain where "domain = (if sl_segments t = [] then RelativeToSliceContent else sl_time_domain t)"
  define a1 where "a1 = a\<lparr>tr_committed_end := Some (committed_max ck (tr_committed_end a)
      (map_processed_to_original_seconds ck (tr_timeline a) (seconds_of_samples ck (as_content_end_sample (sl_slice t)))))\<rparr>"
  define overlaps where "overlaps = (case tr_committed_end a of None \<Rightarrow> False
      | Some x \<Rightarrow> ck_lt ck (map_processed_to_original_seconds ck (tr_timeline a) (seconds_of_samples ck (as_content_start_sample (sl_slice t)))) x)"
  have "push_slice_result_with_scope ck pa veto t scope a
      = discount_cap_pinned ck pa (tr_committed_end a) (length (tr_segments a))
          (push_segments ck pa veto (tr_committed_end a) overlaps scope (sl_slice t) domain a1 True segs)"
    using False unfolding push_slice_result_with_scope_def Let_def overlaps_def a1_def segs_def domain_def by auto
  then show ?thesis
    by (rule that(1) [rotated 6]) (auto simp: a1_def slice_segments_def segs_def domain_def Let_def)
qed

lemma push_slice_facts:
  "\<exists>ys picked kept. tr_segments (push_slice_result_with_scope ck pa veto t scope a) = ys @ kept
     \<and> edited_list (tr_approximate a) (tr_segments a) ys
     \<and> tr_speaker_scopes (push_slice_result_with_scope ck pa veto t scope a) = tr_speaker_scopes a @ replicate (length kept) scope
     \<and> subseq picked (slice_segments ck a t) \<and> list_all2 (derived (tr_approximate a)) picked kept
     \<and> list_all (\<lambda>s. trim (sg_text s) \<noteq> []) kept"
proof (cases rule: push_slice_shape [of a ck t pa veto scope])
  case (1 a1 b overlaps domain segs)
  from push_segments_ok [of True a1 ck pa veto b overlaps scope "sl_slice t" domain segs]
  obtain a0 picked kept where "seam_only a1 a0"
    "tr_segments (push_segments ck pa veto b overlaps scope (sl_slice t) domain a1 True segs) = tr_segments a0 @ kept"
    "tr_speaker_scopes (push_segments ck pa veto b overlaps scope (sl_slice t) domain a1 True segs) = tr_speaker_scopes a0 @ replicate (length kept) scope"
    "subseq picked (slice_segments ck a t)" "list_all2 (derived (tr_approximate a)) picked kept" "list_all (\<lambda>s. trim (sg_text s) \<noteq> []) kept"
    using 1 by auto
  then show ?thesis
    unfolding 1(7) discount_simps
    by (intro exI [of _ "tr_segments a0"] exI [of _ picked] exI [of _ kept]) (auto simp: seam_only_def 1)
next
  case 2
  show ?thesis unfolding 2(1,2) by (rule exI [of _ "tr_segments a"], rule exI [of _ "[]"], rule exI [of _ "[]"]) simp
qed

section \<open>The invariant of the assembler\<close>

definition books_ok :: "'t transcript_assembler \<Rightarrow> bool" where
  "books_ok a \<longleftrightarrow> length (tr_speaker_scopes a) = length (tr_segments a) \<and> list_all (\<lambda>s. trim (sg_text s) \<noteq> []) (tr_segments a)"

definition boundary_le :: "'t clock_arith \<Rightarrow> 't transcript_assembler \<Rightarrow> 't transcript_assembler \<Rightarrow> bool" where
  "boundary_le ck a a' = (case (tr_committed_end a, tr_committed_end a') of
     (None, _) \<Rightarrow> True | (Some b, Some b') \<Rightarrow> ck_le ck b b' | (Some _, None) \<Rightarrow> False)"

lemma edited_list_ok:
  assumes "edited_list ap xs ys" "list_all (\<lambda>s. trim (sg_text s) \<noteq> []) xs"
  shows "length ys = length xs \<and> list_all (\<lambda>s. trim (sg_text s) \<noteq> []) ys"
proof (cases "xs = []")
  case False
  then obtain p where p: "ys = butlast xs @ [p]" "edited ap (last xs) p" using assms(1) by (auto simp: edited_list_def)
  have "list_all (\<lambda>s. trim (sg_text s) \<noteq> []) (butlast xs)" "trim (sg_text (last xs)) \<noteq> []"
    using assms(2) False by (auto simp: list_all_iff dest: in_set_butlastD)
  then show ?thesis using p False by (auto simp: edited_def)
qed (use assms in \<open>simp add: edited_list_def\<close>)

lemma push_slice_books: "books_ok a \<Longrightarrow> books_ok (push_slice_result_with_scope ck pa veto t scope a)"
  using push_slice_facts [of ck pa veto t scope a] edited_list_ok by (fastforce simp: books_ok_def)

lemma push_segments_committed: "tr_committed_end (push_segments ck pa veto b overlaps scope slc domain a seam segs) = tr_committed_end a"
  using push_segments_ok [of seam a ck pa veto b overlaps scope slc domain segs] by (auto simp: same_setup_def)

lemma push_slice_boundary:
  assumes "ordered_clock ck"
  shows "boundary_le ck a (push_slice_result_with_scope ck pa veto t scope a)"
proof -
  have "\<exists>x. tr_committed_end (push_slice_result_with_scope ck pa veto t scope a) = Some (committed_max ck (tr_committed_end a) x)"
  proof (cases rule: push_slice_shape [of a ck t pa veto scope])
    case (1 a1 b overlaps domain segs)
    show ?thesis
      unfolding 1(7) using 1(5) by (auto simp: discount_cap_pinned_def push_segments_committed 1(4) split: option.split)
  qed
  then show ?thesis
    using ordered_clock.max_upper(1) [OF assms] by (auto simp: boundary_le_def committed_max_def split: option.split)
qed

lemma boundary_le_trans: "ordered_clock ck \<Longrightarrow> boundary_le ck a b \<Longrightarrow> boundary_le ck b c \<Longrightarrow> boundary_le ck a c"
  using ordered_clock.le_trans [of ck] by (auto simp: boundary_le_def split: option.splits)

definition push_slices :: "'t clock_arith \<Rightarrow> 't probe_arith \<Rightarrow> bool \<Rightarrow> ('t slice_transcript \<times> nat option) list \<Rightarrow> 't transcript_assembler \<Rightarrow> 't transcript_assembler" where
  "push_slices ck pa veto slices a = foldl (\<lambda>a (t, scope). push_slice_result_with_scope ck pa veto t scope a) a slices"

section \<open>The first slice\<close>

lemma push_mapped_plain:
  assumes "\<not> seam \<or> tr_segments a = []" "\<not> overlaps"
  shows "push_mapped ck pa veto None overlaps scope a seam m = (push_segment m scope a, False)"
proof (cases seam)
  case True
  then have e: "tr_segments a = []" using assms(1) by simp
  have "try_stitch_seam_overlap ck overlaps a m = (False, a, m)" "try_merge_similar_seam_pair ck a m = (False, a, m)"
    "drop_seam_misdecoded_tail ck a m = (False, a)" "drop_seam_phantom_head ck a m = (False, m)" "drop_seam_reread_head ck pa a None m = (False, m)"
    "drop_unverified_hook_echo ck pa veto a m = (False, m)"
    using e by (simp_all add: try_stitch_seam_overlap_def try_merge_similar_seam_pair_def drop_seam_misdecoded_tail_def
        drop_seam_phantom_head_def drop_seam_reread_head_def drop_unverified_hook_echo_def split: option.split)
  then show ?thesis
    using True assms(2) by (simp add: push_mapped_def trim_then_rules_def head_rules_def after_head_rule_def append_rest_def Let_def)
next
  case False
  then show ?thesis
    using assms(2) by (simp add: push_mapped_def trim_then_rules_def head_rules_def after_head_rule_def append_rest_def Let_def)
qed

lemma push_segments_plain:
  "\<not> seam \<or> tr_segments a = [] \<Longrightarrow> tr_segments (push_segments ck pa veto None False scope slc domain a seam segs)
     = tr_segments a @ mapped_segments ck (tr_timeline a) (tr_max_word_span a) slc domain segs"
proof (induction segs arbitrary: a seam)
  case (Cons seg segs)
  then show ?case
    using Cons.IH [of False] by (auto simp: Let_def push_mapped_plain mapped_segments_def push_segment_def)
qed (simp add: mapped_segments_def)

text \<open>Nothing is trimmed, dropped or stitched in the first slice.\<close>

lemma first_slice_verbatim:
  "tr_segments (push_slice_result_with_scope ck pa veto t scope (assembler_new tm policy)) = slice_segments ck (assembler_new tm policy) t"
proof (cases "trim (sl_text t) = [] \<and> list_all (\<lambda>s. trim (sg_text s) = []) (sl_segments t)")
  case True
  then have "filter (\<lambda>s. trim (sg_text s) \<noteq> []) (sl_segments t) = []" by (auto simp: filter_empty_conv list_all_iff)
  then show ?thesis
    using True trim_trim_blank [of "sl_text t"]
    by (simp add: push_slice_result_with_scope_def slice_segments_def mapped_segments_def assembler_new_def Let_def)
next
  case False
  then show ?thesis
    by (auto simp: push_slice_result_with_scope_def slice_segments_def push_segments_plain assembler_new_def Let_def simp del: push_segments.simps)
qed

text \<open>The text of the transcript says what its segments say: joining adds and drops white space only.\<close>

lemma join_loop_visible: "visible (join_loop out ts) = visible out @ concat (map visible ts)"
proof (induction ts arbitrary: out)
  case (Cons t ts)
  have blank: "visible [32] = []" "visible [] = []" by (simp_all add: visible_def)
  have "visible t = []" if "trim t = []" using that visible_trim [of t] by (simp add: visible_def)
  then show ?case using Cons.IH blank by (simp add: Let_def)
qed simp

lemma assembled_text_visible: "visible (fst (assembler_into_parts a)) = concat (map (visible \<circ> sg_text) (tr_segments a))"
  using join_loop_visible [of "[]" "map sg_text (tr_segments a)"]
  by (simp add: assembler_into_parts_def join_segment_texts_def comp_def) (simp add: visible_def)

section \<open>Properties\<close>

text \<open>
  C9. Appending the transcript of the next window invents nothing and keeps the order. Of the
  segments committed so far only the last may change, and it keeps its times and its speaker: with
  interpolated timestamps it still says the same units, with acoustic ones its words at most lose
  some at the end. What is appended is, in order, what is left of the new window's segments on the
  original timeline: each keeps its end and its speaker, its text is made of parts of the
  segment's text or of the segment's own words, and with acoustic timestamps its words are among
  the segment's words. Each appended segment carries the speaker scope of its window.
\<close>

theorem push_slice_only_cuts:
  "\<exists>ys picked kept. tr_segments (push_slice_result_with_scope ck pa veto transcript scope a) = ys @ kept
     \<and> edited_list (tr_approximate a) (tr_segments a) ys
     \<and> subseq picked (slice_segments ck a transcript) \<and> list_all2 (derived (tr_approximate a)) picked kept
     \<and> tr_speaker_scopes (push_slice_result_with_scope ck pa veto transcript scope a) = tr_speaker_scopes a @ replicate (length kept) scope"
  using push_slice_facts [of ck pa veto transcript scope a] by blast

text \<open>
  C39. Whatever windows are pushed, the speaker scopes stay aligned one to one with the segments, no
  segment of the transcript is blank, and the end of the committed audio never moves back, also
  when a stretched word at the end of a window is discounted. For any totally ordered clock.
\<close>

theorem assembler_keeps_books:
  assumes "ordered_clock ck" "books_ok a"
  shows "books_ok (push_slices ck pa veto slices a) \<and> boundary_le ck a (push_slices ck pa veto slices a)"
  using assms(2)
proof (induction slices arbitrary: a)
  case Nil
  then show ?case using ordered_clock.le_refl [OF assms(1)] by (simp add: push_slices_def boundary_le_def split: option.split)
next
  case (Cons x slices)
  obtain t scope where x: "x = (t, scope)" by fastforce
  define b where "b = push_slice_result_with_scope ck pa veto t scope a"
  have "push_slices ck pa veto (x # slices) a = push_slices ck pa veto slices b" by (simp add: push_slices_def x b_def)
  moreover have "books_ok b" "boundary_le ck a b" using Cons.prems push_slice_books push_slice_boundary [OF assms(1)] by (auto simp: b_def)
  ultimately show ?case using Cons.IH [of b] boundary_le_trans [OF assms(1)] by auto
qed

definition sample_assembler :: "rat transcript_assembler" where
  "sample_assembler = assembler_new (timeline_identity exact_clock) (merge_policy_default exact_clock)"

definition sample_slice :: "rat slice_transcript" where
  "sample_slice = \<lparr>sl_slice = \<lparr>as_index = 0, as_kind = SliceFull, as_start_sample = 0, as_end_sample = 16000, as_content_start_sample = 0,
     as_content_end_sample = 16000\<rparr>, sl_text = lit ''hello'', sl_segments = [], sl_time_domain = AbsoluteOriginal\<rparr>"

definition sample_probe :: "rat probe_arith" where
  "sample_probe = \<lparr>pa_seconds_to_samples = (\<lambda>_ _. 0), pa_rms = (\<lambda>_. 0), pa_decibel = (\<lambda>x. x), pa_total_le = (\<le>)\<rparr>"

theorem assembler_keeps_books_witness:
  "books_ok (push_slices exact_clock sample_probe True [(sample_slice, Some 0), (sample_slice, Some 1)] sample_assembler)
   \<and> boundary_le exact_clock sample_assembler (push_slices exact_clock sample_probe True [(sample_slice, Some 0), (sample_slice, Some 1)] sample_assembler)"
  by (rule assembler_keeps_books [OF exact.ordered_clock_axioms]) (simp add: books_ok_def sample_assembler_def assembler_new_def)

end
