(* ===== verification/Speaker_Attribution.thy ===== *)
theory Speaker_Attribution
  imports Longform_Assembler Realtime_Events
begin

text \<open>
  Who said what (\<open>crates/openasr-core/src/diarize/attribution.rs\<close>, \<open>diarize/contract.rs\<close>): segments get
  the speaker whose turns they overlap, and a segment of several speakers is split at the words
  where the speaker changes. Positions in a text are counted in characters where the code counts
  bytes; every position it slices at is the start or the end of a character. Segment times are \<open>f32\<close>
  and turns \<open>f64\<close>; their arithmetic is the parameter \<open>sa\<close>, the table of alphanumeric characters
  \<open>alnum\<close>. Debug output is left out.
\<close>

section \<open>Data\<close>

record 'd time_range =
  rg_start_s :: 'd
  rg_end_s :: 'd

type_synonym speaker_id = nat

record 'd speaker_turn =
  tn_range :: "'d time_range"
  tn_speaker :: speaker_id
  tn_overlap :: bool

record speaker_display_assignment =
  da_speaker_id :: speaker_id
  da_speaker :: rstr
  da_speaker_label :: rstr
  da_speaker_person_id :: "rstr option"
  da_speaker_snapshot_label :: "rstr option"

datatype 't speaker_attribution_error = WordAlignmentRequired 't 't | AlignedWordTextMismatch 't 't

record ('t, 'd) attribution_arith =
  sa_narrow :: "'t clock_arith"
  sa_wide :: "'d clock_arith"
  sa_widen :: "'t \<Rightarrow> 'd"
  sa_neg_inf :: 'd
  sa_inf :: 'd
  sa_total_le :: "'d \<Rightarrow> 'd \<Rightarrow> bool"

definition speaker_label_of :: "speaker_id \<Rightarrow> rstr" where
  "speaker_label_of s = lit ''SPEAKER_'' @ fmt_pad 2 s"

definition range_duration_s :: "'d clock_arith \<Rightarrow> 'd time_range \<Rightarrow> 'd" where
  "range_duration_s ck r = ck_max ck (ck_sub ck (rg_end_s r) (rg_start_s r)) (ck_lit ck 0)"

definition intersection_s :: "'d clock_arith \<Rightarrow> 'd time_range \<Rightarrow> 'd time_range \<Rightarrow> 'd" where
  "intersection_s ck r q = ck_max ck (ck_sub ck (ck_min ck (rg_end_s r) (rg_end_s q)) (ck_max ck (rg_start_s r) (rg_start_s q))) (ck_lit ck 0)"

section \<open>Words in the text\<close>

definition is_alignment_word_char :: "(nat \<Rightarrow> bool) \<Rightarrow> nat \<Rightarrow> bool" where
  "is_alignment_word_char alnum c \<longleftrightarrow> alnum c \<or> c = 39"

text \<open>The rest of a cleaned word in the text; the result counts the characters used.\<close>

fun cleaned_match :: "(nat \<Rightarrow> bool) \<Rightarrow> rstr \<Rightarrow> nat \<Rightarrow> rstr \<Rightarrow> nat option" where
  "cleaned_match alnum expected offset [] = None"
| "cleaned_match alnum expected offset (c # cs) =
     (if expected \<noteq> [] \<and> hd expected = c
      then if tl expected = [] then Some (offset + 1) else cleaned_match alnum (tl expected) (offset + 1) cs
      else if is_alignment_word_char alnum c \<or> is_ws c then None
      else cleaned_match alnum expected (offset + 1) cs)"

fun find_word_from :: "(nat \<Rightarrow> bool) \<Rightarrow> rstr \<Rightarrow> nat \<Rightarrow> rstr \<Rightarrow> (nat \<times> nat) option" where
  "find_word_from alnum w start [] = None"
| "find_word_from alnum w start (c # cs) =
     (if c \<noteq> hd w then find_word_from alnum w (start + 1) cs
      else if prefix w (c # cs) then Some (start, start + length w)
      else if \<not> list_all (is_alignment_word_char alnum) w then find_word_from alnum w (start + 1) cs
      else case cleaned_match alnum w 0 (c # cs) of
             Some used \<Rightarrow> Some (start, start + used)
           | None \<Rightarrow> find_word_from alnum w (start + 1) cs)"

definition find_transcript_word :: "(nat \<Rightarrow> bool) \<Rightarrow> rstr \<Rightarrow> rstr \<Rightarrow> (nat \<times> nat) option" where
  "find_transcript_word alnum s w = (if w = [] then None else find_word_from alnum w 0 s)"

fun locate_loop :: "(nat \<Rightarrow> bool) \<Rightarrow> rstr \<Rightarrow> nat \<Rightarrow> rstr list \<Rightarrow> nat list option" where
  "locate_loop alnum s cursor [] = Some []"
| "locate_loop alnum s cursor (w # ws) =
     (let needle = trim w
      in if needle = [] then map_option ((#) cursor) (locate_loop alnum s cursor ws)
         else case find_transcript_word alnum (drop cursor s) needle of
                None \<Rightarrow> None
              | Some (start, finish) \<Rightarrow> map_option ((#) (cursor + start)) (locate_loop alnum s (cursor + finish) ws))"

definition locate_word_starts :: "(nat \<Rightarrow> bool) \<Rightarrow> rstr \<Rightarrow> rstr list \<Rightarrow> nat list option" where
  "locate_word_starts alnum s ws = locate_loop alnum s 0 ws"

definition is_punctuation_word :: "(nat \<Rightarrow> bool) \<Rightarrow> rstr \<Rightarrow> bool" where
  "is_punctuation_word alnum w = list_all (\<lambda>c. \<not> alnum c) w"

section \<open>Speakers\<close>

fun add_overlap :: "'d clock_arith \<Rightarrow> speaker_id \<Rightarrow> 'd \<Rightarrow> (speaker_id \<times> 'd) list \<Rightarrow> (speaker_id \<times> 'd) list" where
  "add_overlap ck s x [] = [(s, ck_add ck (ck_lit ck 0) x)]"
| "add_overlap ck s x ((k, v) # rest) =
     (if s = k then (k, ck_add ck v x) # rest
      else if s < k then (s, ck_add ck (ck_lit ck 0) x) # (k, v) # rest
      else (k, v) # add_overlap ck s x rest)"

definition overlap_by_speaker :: "('t, 'd) attribution_arith \<Rightarrow> 't segment \<Rightarrow> 'd speaker_turn list \<Rightarrow> (speaker_id \<times> 'd) list" where
  "overlap_by_speaker sa seg turns =
     (let ck = sa_wide sa; r = \<lparr>rg_start_s = sa_widen sa (sg_start seg), rg_end_s = sa_widen sa (sg_end seg)\<rparr>
      in foldl (\<lambda>acc turn. let shared = intersection_s ck r (tn_range turn)
                            in if ck_lt ck (ck_lit ck 0) shared then add_overlap ck (tn_speaker turn) shared acc else acc) [] turns)"

text \<open>The last of the maxima in descending order of the speakers.\<close>

definition dominant_speaker :: "'d clock_arith \<Rightarrow> (speaker_id \<times> 'd) list \<Rightarrow> speaker_id option" where
  "dominant_speaker ck overlap =
     (case rev overlap of [] \<Rightarrow> None
      | x # xs \<Rightarrow> Some (fst (foldl (\<lambda>best y. if ck_lt ck (snd y) (snd best) then best else y) x xs)))"

definition apply_speaker :: "(speaker_id \<Rightarrow> speaker_display_assignment option) \<Rightarrow> speaker_id \<Rightarrow> 't segment \<Rightarrow> 't segment" where
  "apply_speaker identities s seg =
     (case identities s of
        Some d \<Rightarrow> seg\<lparr>sg_speaker := Some (da_speaker d), sg_speaker_label := Some (da_speaker_label d),
                     sg_speaker_person_id := da_speaker_person_id d, sg_speaker_snapshot_label := da_speaker_snapshot_label d\<rparr>
      | None \<Rightarrow> seg\<lparr>sg_speaker := Some (speaker_label_of s), sg_speaker_label := Some (speaker_label_of s),
                  sg_speaker_person_id := None, sg_speaker_snapshot_label := None\<rparr>)"

definition min_by_le :: "('k \<Rightarrow> 'k \<Rightarrow> bool) \<Rightarrow> ('x \<Rightarrow> 'k) \<Rightarrow> 'x list \<Rightarrow> 'x option" where
  "min_by_le le key xs = (case xs of [] \<Rightarrow> None | x # rest \<Rightarrow> Some (foldl (\<lambda>best y. if le (key best) (key y) then best else y) x rest))"

definition linearized_overlap_speaker ::
  "('t, 'd) attribution_arith \<Rightarrow> 'd \<Rightarrow> 'd speaker_turn list \<Rightarrow> 'd speaker_turn list \<Rightarrow> speaker_id option" where
  "linearized_overlap_speaker sa midpoint covering turns =
     (let ck = sa_wide sa; eps = ck_lit ck (1 / 2 ^ 52);
          s = foldl (ck_max ck) (sa_neg_inf sa) (map (\<lambda>t. rg_start_s (tn_range t)) covering);
          e = foldl (ck_min ck) (sa_inf sa) (map (\<lambda>t. rg_end_s (tn_range t)) covering);
          candidate = (\<lambda>spk. list_ex (\<lambda>t. tn_speaker t = spk) covering)
      in if ck_le ck (range_duration_s ck \<lparr>rg_start_s = s, rg_end_s = e\<rparr>) (ck_lit ck 0) then None
         else let before = map_option tn_speaker (max_by_le (sa_total_le sa) (\<lambda>t. rg_end_s (tn_range t))
                    (filter (\<lambda>t. \<not> tn_overlap t \<and> ck_le ck (rg_end_s (tn_range t)) (ck_add ck s eps) \<and> candidate (tn_speaker t)) turns));
                  after = map_option tn_speaker (min_by_le (sa_total_le sa) (\<lambda>t. rg_start_s (tn_range t))
                    (filter (\<lambda>t. \<not> tn_overlap t \<and> ck_le ck e (ck_add ck (rg_start_s (tn_range t)) eps) \<and> candidate (tn_speaker t)) turns))
              in case (before, after) of
                   (Some b, Some a) \<Rightarrow>
                     if b = a then Some b
                     else if ck_lt ck midpoint (ck_mul ck (ck_add ck s e) (ck_lit ck (1 / 2))) then Some b else Some a
                 | (Some spk, None) \<Rightarrow> Some spk
                 | (None, Some spk) \<Rightarrow> Some spk
                 | (None, None) \<Rightarrow> None)"

fun nearest_turn :: "'d clock_arith \<Rightarrow> 'd \<Rightarrow> ('d \<times> speaker_id) option \<Rightarrow> 'd speaker_turn list \<Rightarrow> ('d \<times> speaker_id) option" where
  "nearest_turn ck midpoint nearest [] = nearest"
| "nearest_turn ck midpoint nearest (turn # turns) =
     (let distance = (if ck_lt ck midpoint (rg_start_s (tn_range turn)) then ck_sub ck (rg_start_s (tn_range turn)) midpoint
                      else ck_sub ck midpoint (rg_end_s (tn_range turn)));
          closer = (case nearest of Some (best, _) \<Rightarrow> ck_lt ck distance best | None \<Rightarrow> True)
      in nearest_turn ck midpoint (if closer then Some (distance, tn_speaker turn) else nearest) turns)"

definition word_speaker :: "('t, 'd) attribution_arith \<Rightarrow> 't word_timestamp \<Rightarrow> 'd speaker_turn list \<Rightarrow> speaker_id option" where
  "word_speaker sa w turns =
     (let ck = sa_wide sa;
          midpoint = ck_div ck (sa_widen sa (ck_add (sa_narrow sa) (wt_start w) (wt_end w))) (ck_lit ck 2);
          covering = filter (\<lambda>t. ck_le ck (rg_start_s (tn_range t)) midpoint \<and> ck_lt ck midpoint (rg_end_s (tn_range t))) turns;
          covering_speakers = sort (remdups (map tn_speaker covering))
      in if length covering_speakers = 1 then Some (hd covering_speakers)
         else if 1 < length covering_speakers
         then (case linearized_overlap_speaker sa midpoint covering turns of Some s \<Rightarrow> Some s | None \<Rightarrow> Some (hd covering_speakers))
         else map_option snd (nearest_turn ck midpoint None turns))"

section \<open>Splitting a segment\<close>

definition glue_punctuation :: "bool list \<Rightarrow> speaker_id list \<Rightarrow> speaker_id list" where
  "glue_punctuation is_punctuation speakers =
     map (\<lambda>index.
         if \<not> is_punctuation ! index then speakers ! index
         else case find (\<lambda>j. \<not> is_punctuation ! j) (rev [0 ..< index]) of
                Some j \<Rightarrow> speakers ! j
              | None \<Rightarrow> case find (\<lambda>j. \<not> is_punctuation ! j) [index + 1 ..< length speakers] of
                          Some j \<Rightarrow> speakers ! j
                        | None \<Rightarrow> speakers ! index)
       [0 ..< length speakers]"

fun runs_loop :: "(speaker_id \<times> nat \<times> nat) list \<Rightarrow> nat \<Rightarrow> speaker_id list \<Rightarrow> (speaker_id \<times> nat \<times> nat) list" where
  "runs_loop runs index [] = runs"
| "runs_loop runs index (s # ss) =
     runs_loop (if runs \<noteq> [] \<and> fst (last runs) = s
                then butlast runs @ [(s, fst (snd (last runs)), index)] else runs @ [(s, index, index)]) (index + 1) ss"

definition piece_of_run ::
  "'t clock_arith \<Rightarrow> 't segment \<Rightarrow> nat list \<Rightarrow> (speaker_id \<times> nat \<times> nat) list \<Rightarrow> nat \<Rightarrow> speaker_id \<times> 't segment" where
  "piece_of_run ck seg word_starts runs run_index =
     (case runs ! run_index of (s, first_word, last_word) \<Rightarrow>
        let is_first = run_index = 0; is_last = run_index + 1 = length runs;
            text_start = (if is_first then 0 else word_starts ! first_word);
            text_end = (if is_last then length (sg_text seg) else word_starts ! (fst (snd (runs ! (run_index + 1)))));
            ws = take (last_word + 1 - first_word) (drop first_word (sg_words seg));
            piece_start = (if is_first then sg_start seg else case ws of [] \<Rightarrow> sg_start seg | w # _ \<Rightarrow> wt_start w);
            piece_end = (if is_last \<or> ws = [] then sg_end seg else wt_end (last ws))
        in (s, \<lparr>sg_start = piece_start, sg_end = ck_max ck piece_end piece_start,
                sg_text = trim (take (text_end - text_start) (drop text_start (sg_text seg))), sg_speaker = None, sg_speaker_label = None,
                sg_speaker_person_id = None, sg_speaker_snapshot_label = None, sg_words = ws\<rparr>))"

fun clamp_pieces :: "'t clock_arith \<Rightarrow> (speaker_id \<times> 't segment) list \<Rightarrow> (speaker_id \<times> 't segment) list" where
  "clamp_pieces ck ((s, p) # (s2, q) # rest) =
     (s, if ck_lt ck (sg_start q) (sg_end p) then p\<lparr>sg_end := ck_max ck (sg_start q) (sg_start p)\<rparr> else p) # clamp_pieces ck ((s2, q) # rest)"
| "clamp_pieces ck pieces = pieces"

definition word_speakers :: "('t, 'd) attribution_arith \<Rightarrow> 'd speaker_turn list \<Rightarrow> 't word_timestamp list \<Rightarrow> speaker_id list option" where
  "word_speakers sa turns ws = those (map (\<lambda>w. word_speaker sa w turns) ws)"

definition split_segment_at_turn_boundaries ::
  "('t, 'd) attribution_arith \<Rightarrow> (nat \<Rightarrow> bool) \<Rightarrow> 't segment \<Rightarrow> 'd speaker_turn list \<Rightarrow> (speaker_id \<times> 't segment) list option" where
  "split_segment_at_turn_boundaries sa alnum seg turns =
     (case locate_word_starts alnum (sg_text seg) (map wt_word (sg_words seg)) of
        None \<Rightarrow> None
      | Some word_starts \<Rightarrow>
          case word_speakers sa turns (sg_words seg) of
            None \<Rightarrow> None
          | Some speakers \<Rightarrow>
              let glued = glue_punctuation (map (\<lambda>w. is_punctuation_word alnum (wt_word w)) (sg_words seg)) speakers;
                  runs = runs_loop [] 0 glued
              in if length runs = 1 then Some [(fst (runs ! 0), seg)]
                 else Some (clamp_pieces (sa_narrow sa) (map (piece_of_run (sa_narrow sa) seg word_starts runs) [0 ..< length runs])))"

section \<open>Attribution\<close>

definition attribute_segment ::
  "('t, 'd) attribution_arith \<Rightarrow> (nat \<Rightarrow> bool) \<Rightarrow> (speaker_id \<Rightarrow> speaker_display_assignment option) \<Rightarrow> 'd speaker_turn list
    \<Rightarrow> 't segment \<Rightarrow> 't speaker_attribution_error + 't segment list" where
  "attribute_segment sa alnum identities turns seg =
     (let overlap = overlap_by_speaker sa seg turns
      in case dominant_speaker (sa_wide sa) overlap of
           None \<Rightarrow> Inr [seg]
         | Some dominant \<Rightarrow>
             if length overlap = 1 then Inr [apply_speaker identities dominant seg]
             else if sg_words seg = [] then Inl (WordAlignmentRequired (sg_start seg) (sg_end seg))
             else case split_segment_at_turn_boundaries sa alnum seg turns of
                    Some pieces \<Rightarrow> Inr (map (\<lambda>(s, p). apply_speaker identities s p) pieces)
                  | None \<Rightarrow> Inl (AlignedWordTextMismatch (sg_start seg) (sg_end seg)))"

fun assign_speakers ::
  "('t, 'd) attribution_arith \<Rightarrow> (nat \<Rightarrow> bool) \<Rightarrow> (speaker_id \<Rightarrow> speaker_display_assignment option) \<Rightarrow> 'd speaker_turn list
    \<Rightarrow> 't segment list \<Rightarrow> 't speaker_attribution_error + 't segment list" where
  "assign_speakers sa alnum identities turns [] = Inr []"
| "assign_speakers sa alnum identities turns (seg # segs) =
     (case attribute_segment sa alnum identities turns seg of
        Inl e \<Rightarrow> Inl e
      | Inr out \<Rightarrow> case assign_speakers sa alnum identities turns segs of Inl e \<Rightarrow> Inl e | Inr rest \<Rightarrow> Inr (out @ rest))"

definition requires_word_alignment :: "('t, 'd) attribution_arith \<Rightarrow> 'd speaker_turn list \<Rightarrow> 't segment list \<Rightarrow> bool \<Rightarrow> bool" where
  "requires_word_alignment sa turns segs word_anchors_reliable =
     list_ex (\<lambda>seg. if length (overlap_by_speaker sa seg turns) \<le> 1 then False else sg_words seg = [] \<or> \<not> word_anchors_reliable) segs"

section \<open>Splitting the tail of a transcript\<close>

record transcript_tail_split =
  ts_kept_text :: rstr
  ts_kept_end_ms :: nat
  ts_moved_text :: rstr
  ts_moved_from_word :: nat
  ts_moved_start_ms :: nat

text \<open>The side of each word: moved or kept.\<close>

fun moved_flags :: "(nat \<Rightarrow> bool) \<Rightarrow> nat \<Rightarrow> bool \<Rightarrow> realtime_transcript_word list \<Rightarrow> bool list" where
  "moved_flags alnum change_ms prev_moved [] = []"
| "moved_flags alnum change_ms prev_moved (w # ws) =
     (let moved = (if is_punctuation_word alnum (tw_word w) then prev_moved else change_ms < (tw_start_ms w + tw_end_ms w) div 2)
      in moved # moved_flags alnum change_ms moved ws)"

definition last_kept_of :: "bool list \<Rightarrow> nat option" where
  "last_kept_of flags = find (\<lambda>i. \<not> flags ! i) (rev [0 ..< length flags])"

definition split_transcript_tail_at_change ::
  "(nat \<Rightarrow> bool) \<Rightarrow> rstr \<Rightarrow> realtime_transcript_word list \<Rightarrow> nat \<Rightarrow> nat \<Rightarrow> transcript_tail_split option" where
  "split_transcript_tail_at_change alnum s ws change_ms max_tail_ms =
     (if trim s = [] \<or> ws = [] then None
      else let end_ms = tw_end_ms (last ws); change_ms' = max change_ms (end_ms - max_tail_ms);
               flags = moved_flags alnum change_ms' False ws
           in if \<not> list_ex (\<lambda>m. m) flags then None
              else case last_kept_of flags of
                     None \<Rightarrow> None
                   | Some last_kept \<Rightarrow>
                       if length ws \<le> last_kept + 1 then None
                       else case locate_word_starts alnum s (map tw_word ws) of
                              None \<Rightarrow> None
                            | Some starts \<Rightarrow>
                                let first_moved = last_kept + 1; cut_at = starts ! first_moved;
                                    kept_text = trim (take cut_at s); moved_text = trim (drop cut_at s)
                                in if kept_text = [] \<or> moved_text = [] then None
                                   else Some \<lparr>ts_kept_text = kept_text, ts_kept_end_ms = tw_end_ms (ws ! (first_moved - 1)),
                                          ts_moved_text = moved_text, ts_moved_from_word = first_moved,
                                          ts_moved_start_ms = tw_start_ms (ws ! first_moved)\<rparr>)"

section \<open>Positions of the words\<close>

lemma cleaned_match_bounds: "cleaned_match alnum w i cs = Some e \<Longrightarrow> i < e \<and> e \<le> i + length cs"
  by (induction alnum w i cs rule: cleaned_match.induct) (force split: if_splits)+

lemma find_word_bounds: "find_word_from alnum w i cs = Some (s, e) \<Longrightarrow> w \<noteq> [] \<Longrightarrow> i \<le> s \<and> s \<le> e \<and> e \<le> i + length cs"
proof (induction cs arbitrary: i)
  case (Cons c cs)
  show ?case
    using Cons.prems Cons.IH [of "Suc i"] cleaned_match_bounds [of alnum w 0 "c # cs"] prefix_length_le [of w "c # cs"]
    by (auto split: if_splits option.splits)
qed simp

lemma find_transcript_word_bounds: "find_transcript_word alnum cs w = Some (s, e) \<Longrightarrow> s \<le> e \<and> e \<le> length cs"
  using find_word_bounds [of alnum w 0 cs s e] by (auto simp: find_transcript_word_def split: if_splits)

lemma locate_loop_ordered:
  "locate_loop alnum s i ws = Some starts \<Longrightarrow> i \<le> length s
     \<Longrightarrow> sorted starts \<and> length starts = length ws \<and> (\<forall>x \<in> set starts. i \<le> x \<and> x \<le> length s)"
proof (induction ws arbitrary: i starts)
  case (Cons w ws)
  show ?case
  proof (cases "trim w = []")
    case True
    then obtain rest where "locate_loop alnum s i ws = Some rest" "starts = i # rest" using Cons.prems(1) by (auto simp: Let_def)
    then show ?thesis using Cons.IH [of i rest] Cons.prems(2) by simp
  next
    case False
    then obtain a b rest where f: "find_transcript_word alnum (drop i s) (trim w) = Some (a, b)"
      and rest: "locate_loop alnum s (i + b) ws = Some rest" "starts = (i + a) # rest"
      using Cons.prems(1) by (auto simp: Let_def split: option.splits)
    have "a \<le> b" "i + b \<le> length s" using find_transcript_word_bounds [OF f] Cons.prems(2) by auto
    then show ?thesis using Cons.IH [OF rest(1)] rest(2) by fastforce
  qed
qed simp

lemma locate_word_starts_ordered:
  assumes "locate_word_starts alnum s ws = Some starts"
  shows "sorted starts" and "length starts = length ws" and "x \<in> set starts \<Longrightarrow> x \<le> length s"
  using locate_loop_ordered [of alnum s 0 ws starts] assms by (auto simp: locate_word_starts_def)

section \<open>Runs of one speaker\<close>

text \<open>Runs that follow one another from word \<open>i\<close> to word \<open>n\<close>.\<close>

fun run_chain :: "nat \<Rightarrow> (speaker_id \<times> nat \<times> nat) list \<Rightarrow> nat \<Rightarrow> bool" where
  "run_chain i [] n \<longleftrightarrow> i = n"
| "run_chain i ((_, a, b) # runs) n \<longleftrightarrow> a = i \<and> a \<le> b \<and> run_chain (b + 1) runs n"

lemma run_chain_append: "run_chain i (xs @ ys) n \<longleftrightarrow> (\<exists>m. run_chain i xs m \<and> run_chain m ys n)"
  by (induction i xs n rule: run_chain.induct) auto

lemma runs_loop_chain: "run_chain 0 runs i \<Longrightarrow> run_chain 0 (runs_loop runs i speakers) (i + length speakers)"
proof (induction speakers arbitrary: runs i)
  case (Cons s ss)
  define runs' where "runs' = (if runs \<noteq> [] \<and> fst (last runs) = s
      then butlast runs @ [(s, fst (snd (last runs)), i)] else runs @ [(s, i, i)])"
  have "run_chain 0 runs' (i + 1)"
  proof (cases "runs \<noteq> [] \<and> fst (last runs) = s")
    case True
    then obtain a b where l: "runs = butlast runs @ [(s, a, b)]" by (metis append_butlast_last_id prod.collapse)
    then have "run_chain 0 (butlast runs) a" "a \<le> b" "b + 1 = i"
      using Cons.prems run_chain_append [of 0 "butlast runs" "[(s, a, b)]" i] by auto
    moreover have "last runs = (s, a, b)" using l by (metis last_snoc)
    ultimately show ?thesis using True by (auto simp: runs'_def run_chain_append)
  next
    case False
    then show ?thesis using Cons.prems by (auto simp: runs'_def run_chain_append)
  qed
  from Cons.IH [OF this] show ?case by (simp add: runs'_def)
qed simp

lemma run_chain_nth:
  "run_chain i runs n \<Longrightarrow> k < length runs \<Longrightarrow> fst (snd (runs ! k)) \<le> snd (snd (runs ! k)) \<and> snd (snd (runs ! k)) < n
     \<and> (if k + 1 < length runs then fst (snd (runs ! (k + 1))) = snd (snd (runs ! k)) + 1 else snd (snd (runs ! k)) + 1 = n)
     \<and> i \<le> fst (snd (runs ! k)) \<and> (k = 0 \<longrightarrow> fst (snd (runs ! k)) = i)"
proof (induction i runs n arbitrary: k rule: run_chain.induct)
  case (2 i s a b runs n)
  have le: "b < n" using 2(2)
  proof -
    have "m \<le> n" if "run_chain m rs n" for m rs using that by (induction m rs n rule: run_chain.induct) auto
    then show ?thesis using 2(2) by fastforce
  qed
  show ?case
  proof (cases k)
    case 0
    then show ?thesis using 2(2) le by (cases runs) auto
  next
    case (Suc j)
    then show ?thesis using 2(1) [of j] 2(2,3) by auto
  qed
qed simp

text \<open>Cutting a list at rising positions and putting it together again.\<close>

lemma concat_cuts:
  "\<forall>k < n. p k \<le> p (k + 1) \<Longrightarrow> p 0 = 0 \<Longrightarrow> concat (map (\<lambda>k. take (p (k + 1) - p k) (drop (p k) xs)) [0 ..< n]) = take (p n) xs"
proof (induction n)
  case (Suc n)
  then have "p n \<le> p (n + 1)" by simp
  then have "take (p (n + 1)) xs = take (p n) xs @ take (p (n + 1) - p n) (drop (p n) xs)"
    by (metis le_add_diff_inverse take_add)
  then show ?case using Suc by simp
qed simp

lemma visible_concat: "visible (concat xss) = concat (map visible xss)"
  by (induction xss) (simp_all add: visible_def)

lemma pieces_words:
  assumes "run_chain 0 runs (length (sg_words seg))" "runs \<noteq> []"
  shows "concat (map (\<lambda>k. sg_words (snd (piece_of_run ck seg starts runs k))) [0 ..< length runs]) = sg_words seg"
proof -
  define p where "p = (\<lambda>k. if k < length runs then fst (snd (runs ! k)) else length (sg_words seg))"
  have rc: "fst (snd (runs ! k)) \<le> snd (snd (runs ! k))" "p (k + 1) = snd (snd (runs ! k)) + 1" if "k < length runs" for k
    using run_chain_nth [OF assms(1) that] by (auto simp: p_def split: if_splits)
  have w: "sg_words (snd (piece_of_run ck seg starts runs k)) = take (p (k + 1) - p k) (drop (p k) (sg_words seg))" if "k < length runs" for k
    using rc [OF that] that by (simp add: piece_of_run_def p_def Let_def case_prod_unfold)
  have "p 0 = 0" using run_chain_nth [OF assms(1), of 0] assms(2) by (auto simp: p_def)
  moreover have "p k \<le> p (k + 1)" if "k < length runs" for k
    using rc(1) [OF that] that unfolding rc(2) [OF that] by (simp add: p_def)
  ultimately have "concat (map (\<lambda>k. take (p (k + 1) - p k) (drop (p k) (sg_words seg))) [0 ..< length runs]) = take (p (length runs)) (sg_words seg)"
    by (intro concat_cuts) auto
  moreover have e: "map (\<lambda>k. sg_words (snd (piece_of_run ck seg starts runs k))) [0 ..< length runs]
      = map (\<lambda>k. take (p (k + 1) - p k) (drop (p k) (sg_words seg))) [0 ..< length runs]"
    by (rule map_cong [OF refl]) (simp add: w)
  ultimately show ?thesis unfolding e by (simp add: p_def)
qed

lemma pieces_text:
  assumes "run_chain 0 runs (length starts)" "runs \<noteq> []" and starts: "sorted starts" "\<And>x. x \<in> set starts \<Longrightarrow> x \<le> length (sg_text seg)"
  shows "concat (map (\<lambda>k. visible (sg_text (snd (piece_of_run ck seg starts runs k)))) [0 ..< length runs]) = visible (sg_text seg)"
proof -
  define f where "f = (\<lambda>k. fst (snd (runs ! k)))"
  define p where "p = (\<lambda>k. if k = 0 then 0 else if k < length runs then starts ! f k else length (sg_text seg))"
  have f: "f k < length starts" "k + 1 < length runs \<longrightarrow> f k \<le> f (k + 1)" if "k < length runs" for k
    using run_chain_nth [OF assms(1) that] by (auto simp: f_def split: if_splits)
  have t: "visible (sg_text (snd (piece_of_run ck seg starts runs k))) = visible (take (p (k + 1) - p k) (drop (p k) (sg_text seg)))"
    if "k < length runs" for k
    using that by (auto simp: piece_of_run_def p_def f_def Let_def case_prod_unfold)
  have "p k \<le> p (k + 1)" if "k < length runs" for k
  proof (cases "k + 1 < length runs")
    case True
    then show ?thesis using f [OF that] f(1) [OF True] starts(1) by (auto simp: p_def intro!: sorted_nth_mono)
  next
    case False
    then show ?thesis using f(1) [OF that] starts(2) that by (auto simp: p_def)
  qed
  then have "concat (map (\<lambda>k. take (p (k + 1) - p k) (drop (p k) (sg_text seg))) [0 ..< length runs]) = take (p (length runs)) (sg_text seg)"
    by (intro concat_cuts) (auto simp: p_def)
  then have "concat (map (\<lambda>k. visible (take (p (k + 1) - p k) (drop (p k) (sg_text seg)))) [0 ..< length runs]) = visible (sg_text seg)"
    using visible_concat [of "map (\<lambda>k. take (p (k + 1) - p k) (drop (p k) (sg_text seg))) [0 ..< length runs]"] assms(2)
    by (simp add: p_def comp_def)
  moreover have e: "map (\<lambda>k. visible (sg_text (snd (piece_of_run ck seg starts runs k)))) [0 ..< length runs]
      = map (\<lambda>k. visible (take (p (k + 1) - p k) (drop (p k) (sg_text seg)))) [0 ..< length runs]"
    by (rule map_cong [OF refl]) (simp add: t)
  ultimately show ?thesis unfolding e by simp
qed

lemma clamp_pieces_same:
  "map (sg_text \<circ> snd) (clamp_pieces ck ps) = map (sg_text \<circ> snd) ps" "map (sg_words \<circ> snd) (clamp_pieces ck ps) = map (sg_words \<circ> snd) ps"
  "map fst (clamp_pieces ck ps) = map fst ps"
  by (induction ck ps rule: clamp_pieces.induct) auto

lemma those_length: "those xs = Some ys \<Longrightarrow> length ys = length xs"
  by (induction xs arbitrary: ys) (auto split: option.splits)

lemma length_glue_punctuation [simp]: "length (glue_punctuation ps speakers) = length speakers"
  by (simp add: glue_punctuation_def)

lemma split_segment_keeps:
  assumes "split_segment_at_turn_boundaries sa alnum seg turns = Some pieces" "sg_words seg \<noteq> []"
  shows "concat (map (visible \<circ> sg_text \<circ> snd) pieces) = visible (sg_text seg) \<and> concat (map (sg_words \<circ> snd) pieces) = sg_words seg"
proof -
  obtain starts speakers where l: "locate_word_starts alnum (sg_text seg) (map wt_word (sg_words seg)) = Some starts"
    and s: "word_speakers sa turns (sg_words seg) = Some speakers"
    using assms(1) by (auto simp: split_segment_at_turn_boundaries_def split: option.splits)
  define runs where "runs = runs_loop [] 0 (glue_punctuation (map (\<lambda>w. is_punctuation_word alnum (wt_word w)) (sg_words seg)) speakers)"
  have "length speakers = length (sg_words seg)" using s unfolding word_speakers_def using those_length by fastforce
  then have chain: "run_chain 0 runs (length (sg_words seg))"
    using runs_loop_chain [of "[]" 0 "glue_punctuation (map (\<lambda>w. is_punctuation_word alnum (wt_word w)) (sg_words seg)) speakers"]
    by (simp add: runs_def)
  then have ne: "runs \<noteq> []" using assms(2) by auto
  note st = locate_word_starts_ordered [OF l]
  have chain': "run_chain 0 runs (length starts)" using chain st(2) by simp
  consider (whole) "pieces = [(fst (runs ! 0), seg)]"
    | (split) "pieces = clamp_pieces (sa_narrow sa) (map (piece_of_run (sa_narrow sa) seg starts runs) [0 ..< length runs])"
    using assms(1) l s by (auto simp: split_segment_at_turn_boundaries_def runs_def [symmetric] Let_def split: if_splits)
  then show ?thesis
  proof cases
    case split
    have "map (visible \<circ> sg_text \<circ> snd) pieces = map visible (map (sg_text \<circ> snd) pieces)" by simp
    then show ?thesis
      using pieces_text [OF chain' ne st(1,3), where ck = "sa_narrow sa"] pieces_words [OF chain ne, where ck = "sa_narrow sa" and starts = starts]
      unfolding split clamp_pieces_same by (simp add: comp_def)
  qed simp
qed


section \<open>When attribution succeeds\<close>

lemma nearest_turn_some: "\<exists>y. nearest_turn ck m (Some x) turns = Some y"
proof (induction turns arbitrary: x)
  case (Cons t ts)
  obtain b s where x: "x = (b, s)" by fastforce
  show ?case unfolding x nearest_turn.simps Let_def option.case prod.case using Cons.IH by (simp split: if_split)
qed simp

lemma nearest_turn_total: "turns \<noteq> [] \<Longrightarrow> \<exists>y. nearest_turn ck m None turns = Some y"
  using nearest_turn_some by (cases turns) (auto simp: Let_def)

lemma word_speaker_total: "turns \<noteq> [] \<Longrightarrow> word_speaker sa w turns \<noteq> None"
proof -
  assume "turns \<noteq> []"
  then have "\<exists>y. nearest_turn (sa_wide sa) m None turns = Some y" for m by (rule nearest_turn_total)
  then have n: "map_option snd (nearest_turn (sa_wide sa) m None turns) \<noteq> None" for m by (metis option.map_disc_iff option.distinct(1))
  show ?thesis unfolding word_speaker_def Let_def by (simp only: split: if_split option.split) (use n in simp)
qed

lemma word_speakers_total: "turns \<noteq> [] \<Longrightarrow> word_speakers sa turns ws \<noteq> None"
  using word_speaker_total [of turns sa] unfolding word_speakers_def by (induction ws) (auto split: option.split)

lemma split_total:
  "turns \<noteq> [] \<Longrightarrow> split_segment_at_turn_boundaries sa alnum seg turns = None
     \<longleftrightarrow> locate_word_starts alnum (sg_text seg) (map wt_word (sg_words seg)) = None"
  using word_speakers_total [of turns sa "sg_words seg"] by (auto simp: split_segment_at_turn_boundaries_def Let_def split: option.split)

lemma overlap_turns: "overlap_by_speaker sa seg turns \<noteq> [] \<Longrightarrow> turns \<noteq> []"
  by (auto simp: overlap_by_speaker_def Let_def)

lemma dominant_none: "dominant_speaker ck overlap = None \<longleftrightarrow> overlap = []"
  by (auto simp: dominant_speaker_def split: list.split)

text \<open>A segment can be attributed: at most one speaker, or words that can be found in its text.\<close>

definition attributable :: "('t, 'd) attribution_arith \<Rightarrow> (nat \<Rightarrow> bool) \<Rightarrow> 'd speaker_turn list \<Rightarrow> 't segment \<Rightarrow> bool" where
  "attributable sa alnum turns seg \<longleftrightarrow> length (overlap_by_speaker sa seg turns) \<le> 1
     \<or> (sg_words seg \<noteq> [] \<and> locate_word_starts alnum (sg_text seg) (map wt_word (sg_words seg)) \<noteq> None)"

lemma attribute_segment_result:
  "case attribute_segment sa alnum identities turns seg of
     Inl (WordAlignmentRequired s e) \<Rightarrow> \<not> attributable sa alnum turns seg \<and> 1 < length (overlap_by_speaker sa seg turns) \<and> sg_words seg = []
   | Inl (AlignedWordTextMismatch s e) \<Rightarrow> \<not> attributable sa alnum turns seg \<and> sg_words seg \<noteq> []
   | Inr out \<Rightarrow> attributable sa alnum turns seg
       \<and> concat (map (visible \<circ> sg_text) out) = visible (sg_text seg) \<and> concat (map sg_words out) = sg_words seg"
proof -
  have a: "sg_text (apply_speaker identities x p) = sg_text p" "sg_words (apply_speaker identities x p) = sg_words p" for x p
    by (simp_all add: apply_speaker_def split: option.split)
  consider (none) "overlap_by_speaker sa seg turns = []" | (one) "length (overlap_by_speaker sa seg turns) = 1"
    | (many) "1 < length (overlap_by_speaker sa seg turns)" by (cases "overlap_by_speaker sa seg turns") auto
  then show ?thesis
  proof cases
    case none
    then show ?thesis by (simp add: attribute_segment_def attributable_def dominant_speaker_def)
  next
    case one
    then have "overlap_by_speaker sa seg turns \<noteq> []" by auto
    then obtain d where "dominant_speaker (sa_wide sa) (overlap_by_speaker sa seg turns) = Some d" 
      using dominant_none [of "sa_wide sa" "overlap_by_speaker sa seg turns"] by (cases "dominant_speaker (sa_wide sa) (overlap_by_speaker sa seg turns)") auto
    then show ?thesis using one by (simp add: attribute_segment_def attributable_def a Let_def)
  next
    case many
    then have ne: "overlap_by_speaker sa seg turns \<noteq> []" by auto
    then obtain d where d: "dominant_speaker (sa_wide sa) (overlap_by_speaker sa seg turns) = Some d" 
      using dominant_none [of "sa_wide sa" "overlap_by_speaker sa seg turns"] by (cases "dominant_speaker (sa_wide sa) (overlap_by_speaker sa seg turns)") auto
    have result: "attribute_segment sa alnum identities turns seg =
        (if sg_words seg = [] then Inl (WordAlignmentRequired (sg_start seg) (sg_end seg))
         else case split_segment_at_turn_boundaries sa alnum seg turns of
                Some pieces \<Rightarrow> Inr (map (\<lambda>(x, p). apply_speaker identities x p) pieces)
              | None \<Rightarrow> Inl (AlignedWordTextMismatch (sg_start seg) (sg_end seg)))"
      using many d by (simp add: attribute_segment_def)
    note total = split_total [OF overlap_turns [OF ne], of sa alnum seg]
    have att: "attributable sa alnum turns seg \<longleftrightarrow> sg_words seg \<noteq> [] \<and> split_segment_at_turn_boundaries sa alnum seg turns \<noteq> None"
      unfolding attributable_def total using many by simp
    show ?thesis
    proof (cases "sg_words seg = [] \<or> split_segment_at_turn_boundaries sa alnum seg turns = None")
      case True
      then show ?thesis unfolding result att using many by auto
    next
      case False
      then obtain pieces where p: "split_segment_at_turn_boundaries sa alnum seg turns = Some pieces" by auto
      from split_segment_keeps [OF p] False show ?thesis
        unfolding result att p by (simp add: a comp_def case_prod_unfold)
    qed
  qed
qed

lemma requires_Cons:
  "requires_word_alignment sa turns (seg # segs) reliable
     \<longleftrightarrow> (1 < length (overlap_by_speaker sa seg turns) \<and> (sg_words seg = [] \<or> \<not> reliable)) \<or> requires_word_alignment sa turns segs reliable"
  by (auto simp: requires_word_alignment_def)

section \<open>Properties\<close>

text \<open>
  C12. Attribution loses and invents nothing: when it succeeds, the texts of the attributed segments
  put together are the texts of the input, character for character apart from white space,
  and their words are exactly the input's words in the same order, however the segments were split
  at the turns of the speakers.
\<close>

theorem attribution_keeps_transcript:
  "case assign_speakers sa alnum identities turns segs of
     Inl _ \<Rightarrow> True
   | Inr out \<Rightarrow> concat (map (visible \<circ> sg_text) out) = concat (map (visible \<circ> sg_text) segs)
       \<and> concat (map sg_words out) = concat (map sg_words segs)"
proof (induction segs)
  case (Cons seg segs)
  then show ?case
    using attribute_segment_result [where sa = sa and alnum = alnum and identities = identities and turns = turns and seg = seg]
    by (auto simp: comp_def split: sum.splits)
qed simp

text \<open>
  C13. Attribution fails closed: it succeeds exactly when every segment overlaps at most one speaker or
  carries words that can all be found in its text in order, so no segment of several speakers is
  ever given to one of them for lack of word times; and an error that asks for word alignment is
  only raised where the pipeline's own test asks for it, whatever the anchors' reliability.
\<close>

theorem attribution_fails_closed:
  "((\<exists>out. assign_speakers sa alnum identities turns segs = Inr out) \<longleftrightarrow> list_all (attributable sa alnum turns) segs)
   \<and> (case assign_speakers sa alnum identities turns segs of
        Inl (WordAlignmentRequired s e) \<Rightarrow> requires_word_alignment sa turns segs reliable
      | _ \<Rightarrow> True)"
proof (induction segs)
  case (Cons seg segs)
  show ?case
    using Cons attribute_segment_result [where sa = sa and alnum = alnum and identities = identities and turns = turns and seg = seg]
    by (cases "attribute_segment sa alnum identities turns seg"; cases "assign_speakers sa alnum identities turns segs")
      (auto simp: requires_Cons split: speaker_attribution_error.splits)
qed (simp add: requires_word_alignment_def)

text \<open>The tail split of a realtime transcript keeps the text too, and moves a proper, non-empty tail of the words.\<close>

lemma tail_split_keeps_text:
  assumes "split_transcript_tail_at_change alnum s ws change_ms max_tail_ms = Some r"
  shows "visible (ts_kept_text r) @ visible (ts_moved_text r) = visible s \<and> 0 < ts_moved_from_word r \<and> ts_moved_from_word r < length ws"
proof -
  obtain k where r: "r = \<lparr>ts_kept_text = trim (take k s), ts_kept_end_ms = ts_kept_end_ms r, ts_moved_text = trim (drop k s),
      ts_moved_from_word = ts_moved_from_word r, ts_moved_start_ms = ts_moved_start_ms r\<rparr>"
    and m: "0 < ts_moved_from_word r \<and> ts_moved_from_word r < length ws"
    using assms by (auto simp: split_transcript_tail_at_change_def Let_def split: if_splits option.splits)
  have "visible (take k s) @ visible (drop k s) = visible s" by (metis append_take_drop_id visible_append)
  then show ?thesis using m by (subst r, subst (2) r) simp
qed

end
