(* ===== verification/Spec2Isabelle.thy ===== *)
theory Spec2Isabelle
  imports Session_Ingest Transcript_Recording Session_Controller Model_Admission Error_Rates
    Longform_Guarantees Gguf_Header Half_Float Bpe_Properties Owner_Pool_Guarantees
    Prefix_Beam Speaker_Attribution
begin

text \<open>
  \<^bold>\<open>A verification library for OpenASR.\<close>

  OpenASR is a local speech recognizer: model families run on a tensor runtime; around them stand
  a realtime path (audio frames, voice activity, utterances, transcript events), a long-form path
  (a recording is cut into windows an executor accepts, and the transcripts of the windows are
  joined again), a server and a command line. This library models the two paths around the models
  and the discrete code that packs and model families share, where the program keeps its state,
  its bounds and its promises, and leaves the numerical work to parameters.

  \<^bold>\<open>The realtime path\<close> (\<open>crates/openasr-core/src/realtime\<close>), in the order audio flows:
  \<^item> \<open>Audio_Frames\<close>: formats, frames of 10, 20 or 30 ms, conversion of PCM bytes
    (\<open>audio.rs\<close>). A frame made from bytes gives back those bytes.
  \<^item> \<open>Audio_Capture\<close>: the capture engine with its remainder and the two hand-off queues
    (\<open>capture/core.rs\<close>; \<open>pcm.rs\<close> and \<open>capture_queue.rs\<close> of \<open>openasr-system-audio\<close>). Frames cover the
    stream without gap; a full queue reports what it loses. Interface: locale \<open>bounded_fifo\<close>,
    interpreted by both queues.
  \<^item> \<open>Vad_Machine\<close>, \<open>Vad_Properties\<close>: the endpointing state machine (\<open>vad/core.rs\<close>, \<open>vad/internal\<close>).
    When an utterance starts and stops is characterized over the history of frames; starts and
    stops alternate; lengths are bounded. Interface: locale \<open>endpointer\<close> (an extension of \<open>machine\<close>
    of the prelude), interpreted by the machine.
  \<^item> \<open>Utterance_Buffer\<close>: pre-roll, active utterance, capacities (\<open>buffer/core.rs\<close>, \<open>buffer_helpers.rs\<close>).
    The buffer refines an abstract view (open frames, recent frames); the counters are exact.
  \<^item> \<open>Realtime_Pipeline\<close>: endpointer and buffer in lock step (\<open>process_frame\<close> of the live client and
    of the server). Utterances are complete, follow the boundaries and never overflow a buffer of
    the right size. Proved once in the context of \<open>endpointer\<close>.
  \<^item> \<open>Session_Setup\<close>: the settings of server and live sessions and how they size the buffer
    (\<open>diarize/vad/mod.rs\<close>, \<open>openasr-server/src/realtime/mod.rs\<close>, \<open>openasr-cli/src/live.rs\<close>).
  \<^item> \<open>Session_Ingest\<close>: the binary messages of a websocket cut into frames (\<open>ws_session.rs\<close>).
  \<^item> \<open>Realtime_Events\<close>, \<open>Realtime_Backend\<close>: events, sequencer, timestamps and the capability
    record of a backend (\<open>events.rs\<close>, \<open>backend.rs\<close>).
  \<^item> \<open>Transcript_Lifecycle\<close>: which transcript updates become partial, final and revision events
    (\<open>transcript/core.rs\<close>, \<open>transcript_state.rs\<close>, \<open>transcript_apply.rs\<close>). Interface: locale
    \<open>revision_log\<close>, interpreted by the lifecycle and by the history.
  \<^item> \<open>Transcript_History\<close>: entries, revisions, sorting, and the text and subtitle exports
    (\<open>history*.rs\<close>).
  \<^item> \<open>Transcript_Recording\<close>: lifecycle, sequencer and history composed, with the identifiers of
    final events recorded as the emitter does it (\<open>transcript_emitter.rs\<close>); the history refines what
    was shown.
  \<^item> \<open>Session_Controller\<close>: the lifecycle of a session and every operation that emits events
    (\<open>session/core.rs\<close>). The transition function conforms to the step relation \<open>session_trans\<close>.
  \<^item> \<open>Model_Admission\<close> (\<open>openasr-server/src/model_admission.rs\<close>): bounded sessions per model with
    distinct indices, over the step relation \<open>admission_step\<close>; \<open>Error_Rates\<close>
    (\<open>metrics/wer.rs\<close>): the edit distance is the least number of edits.

  \<^bold>\<open>The long-form path\<close> (\<open>crates/openasr-core/src/longform\<close>):
  \<^item> \<open>Longform_Window\<close>: options, their validation, and the executor window computed from the bits
    of an \<open>f32\<close> (\<open>options.rs\<close>, \<open>duration.rs\<close>). It is the ceiling of rate times seconds.
  \<^item> \<open>Longform_Slicing\<close>, \<open>Longform_Plans\<close>: fixed, energy and speech slicing, cut search, coalescing,
    padding, re-anchoring (\<open>slicing.rs\<close>): the slices tile the recording or cover the speech, where the
    options are ready for the loops (\<open>loop_ready\<close>). Validation alone does not give that: options it
    accepts can make the energy planner run forever.
  \<^item> \<open>Longform_Packing\<close>: the packed layout, whose pauses are cut out: no speech is lost and the
    materialized audio has the planned length.
  \<^item> \<open>Longform_Vad\<close>: cancellation as polled computations, and the energy detector (\<open>vad.rs\<close>).
    Interface: locales \<open>speech_provider\<close> (it returns) and \<open>cancellable_provider\<close> (an extension: a
    cancelled run gives up or agrees), interpreted by the detector and by the default method of the
    provider trait (in \<open>Longform_Guarantees\<close>).
  \<^item> \<open>Longform_Auto\<close>: audibility, the scored candidates and their ranking (\<open>audibility.rs\<close>,
    \<open>slicing.rs\<close>).
  \<^item> \<open>Longform_Planner\<close>, \<open>Longform_Guarantees\<close>: \<open>plan_longform_slices\<close> with all six modes, and what
    it guarantees: every window of every plan fits the executor, the automatic modes drop nothing
    audible, and a cancelled run gives up or gives the plan of an uncancelled one.
  \<^item> \<open>Longform_Seam\<close>: the repair of one seam between two windows (\<open>assembler.rs\<close>): the overlap found
    between the end of one transcript and the start of the next is removed from one of them, once.
  \<^item> \<open>Longform_Timeline\<close>: the map from processed time to recording time (\<open>timeline.rs\<close>), monotone.
  \<^item> \<open>Longform_Assembler\<close>: the assembler that joins the windows (\<open>assembler.rs\<close>, \<open>transcript_text.rs\<close>). Pushing a
    window only ever cuts text of the pushed window and of the last segment, and the committed end never moves
    back.
  \<^item> \<open>Subtitle_Cues\<close>: the segmentation of a transcript into cues (\<open>subtitle/cues.rs\<close>). Cues keep the
    text and the words of the transcript, tile it and fit the layout, and end before the next one starts. Interface: locale
    \<open>ordered_clock\<close>, interpreted on exact time.
  \<^item> \<open>Speaker_Attribution\<close>: speaker turns projected onto the transcript (\<open>diarize/attribution.rs\<close>).
    Splitting loses no text and no word, and a segment of several speakers without usable words is
    an error.

  \<^bold>\<open>Packs and text\<close> (\<open>crates/openasr-core/src\<close>):
  \<^item> \<open>Utf8_Text\<close>: strings as lists of scalar values, UTF-8 and its strict and lossy decoding, as the
    standard library has them.
  \<^item> \<open>Gguf_Header\<close>: the header reader of a model pack over a growing window of bytes
    (\<open>ggml_runtime/gguf_header.rs\<close>) as readers of a cursor. A short window gives \<open>Truncated\<close> and a
    longer one never changes the answer; every well-formed header is read back.
  \<^item> \<open>Half_Float\<close>: the conversions between \<open>f32\<close> and half precision (\<open>nn/half.rs\<close>) on words. Widening
    is exact, narrowing rounds to the nearest, ties to even, and a half survives the round trip.
  \<^item> \<open>Bpe_Tokenizer\<close>, \<open>Bpe_Properties\<close>: the byte-level BPE tokenizer of the language models
    (\<open>models/gpt2_bpe.rs\<close>). The hand-written scanner is the documented regular expression under
    backtracking, the merge loop reaches the one normal form of \<open>bpe_step\<close>, and decoding inverts
    encoding.

  \<^bold>\<open>Runtimes\<close> (\<open>crates/openasr-core/src/models\<close>):
  \<^item> \<open>Owner_Pool\<close>, \<open>Owner_Pool_Books\<close>, \<open>Owner_Pool_Guarantees\<close>: the pool that lends mutable runtimes
    to threads (\<open>admitted_exclusive_object_pool.rs\<close>). Each critical section is a function on the
    state; a world adds what the threads hold. Under all interleavings the books are exact, no
    section panics, and waiting threads wait for a holder. Invalidated owners stay out as long as
    \<open>clear\<close> and \<open>evict_where\<close> are not mixed; mixing them lets one back in.
  \<^item> \<open>Ctc_Decode\<close>: the greedy decoder of the CTC families (\<open>models/ctc_greedy_decode.rs\<close>): arg max per
    frame, repeats merged, blanks dropped, and the frames of every kept token.
  \<^item> \<open>Context_Graph\<close>: the hotword automaton (\<open>models/ctc_prefix_beam.rs\<close>): a trie with fail links built by
    breadth-first search. Its states are the longest matched hotword prefixes.
  \<^item> \<open>Prefix_Beam\<close>: the prefix beam search over the automaton (\<open>models/ctc_prefix_beam.rs\<close>). The hotword
    state of a beam is a function of its prefix; the search decodes or rejects its input; and the
    final score of a beam is its acoustic score and the bonuses of the hotwords its prefix
    completes, a stutter counted once.

  \<^bold>\<open>Correspondence.\<close> A struct is a record whose fields carry a two or three letter prefix, an enum a
  datatype, a method a function of the same name (with the type's name in front where two clash).
  A \<open>&mut self\<close> method returns its result and the new state. Errors are the left summand of a
  result, and a handler returns the new state also when it fails. A local loop of a function is a
  definition of its own named \<open>..._loop\<close>. Counters at 64 or 32 bits wrap where the release build
  wraps; samples are 16-bit words; bit patterns of \<open>f32\<close> are 32-bit words. Sums of sample positions in
  the long-form planner are \<open>u64_add\<close>, which wraps as the \<open>usize\<close> of a release build does; the
  theorems that need no wrap say so in \<open>loop_ready\<close> and \<open>planner_ready\<close>. A panic of a slice index or
  a clamp there is \<open>None\<close>.

  \<^bold>\<open>Termination.\<close> There is no fuel. Loops are structural or have a measure. The two cut loops of the
  long-form planner whose progress depends on the options, and the breadth-first searches and the
  walk along fail links of the hotword automaton, are \<open>partial_function\<close>s, where \<open>None\<close> is a run that
  does not return, and lemmas and properties prove that they return. The cut loops return when the
  options are \<open>loop_ready\<close>: the chunk and its minimum round to at least a sample, the window has a
  limit that is not zero, and the sums fit. Otherwise the energy loop can run forever
  (\<open>energy_planning_can_hang\<close>).

  \<^bold>\<open>Parameters.\<close> Floating-point functions (levels, decibels, rounding, times and scores: the records
  \<open>longform_arith\<close>, \<open>seam_arith\<close>, \<open>clock_arith\<close>, \<open>probe_arith\<close>, \<open>attribution_arith\<close>, \<open>ctc_arith\<close>,
  \<open>score_arith\<close>, \<open>beam_arith\<close>, and the argument \<open>rms\<close>), neural detectors (\<open>neural_ops\<close>), speech
  providers, detokenizers, the iteration order of hash maps, an environment variable of the assembler,
  the semaphore of the \<open>tokio\<close> package (hypothesis \<open>semaphore_laws\<close>, met by a counting semaphore),
  Unicode tables and the JSON writer. Every statement holds for all values of a parameter that meet the
  stated hypotheses; where order or exactness matters (clocks, hotword scores) the hypotheses are
  named and an exact instance meets them.

  \<^bold>\<open>Not modelled.\<close> The tensor runtime and the model families (numerical code on a foreign library),
  diarization before attribution and the neural detectors (inference on vendored weights), the
  anchors, reading view and refinement of subtitles (they sit on forced alignment by a model), the registry, pull and
  content store (network and file system), the history store (a database), punctuation, the routes
  of the server, the command line and the foreign function interface (glue and I/O). Of the modelled
  files: the serde attributes, log lines and provenance strings.
\<close>

section \<open>From the socket to the utterances\<close>

lemma cut_stream_uniform:
  assumes "byte_cut d 0 seq bytes fs rest" and "length bytes < u64_limit" and "length ds = length fs"
  shows "uniform_stream d (zip fs ds)"
proof -
  have "map fst (zip fs ds) = fs" using assms(3) by simp
  moreover have "total_ms (zip fs ds) = frames_ms fs"
    using assms(3) by (induction fs ds rule: list_induct2') auto
  moreover have "frames_ms fs \<le> length bytes"
    using frames_le_bytes [of d fs] assms(1) by (auto simp: byte_cut_def)
  ultimately show ?thesis using assms(1,2) by (simp add: uniform_stream_def byte_cut_def)
qed

text \<open>
  C1. From the socket to the utterances: whatever bytes a client sends, split into messages
  however it likes, and whatever the detector decides for each frame, a session with accepted
  settings (and an utterance limit of at least a frame) never overflows its buffer; and if the
  pre-roll covers the confirmation time, every utterance the machine reports is handed out with
  all its audio, from the start of its speech to its end without a gap.
\<close>

theorem websocket_stream_to_utterances:
  assumes "w = snd (configure_audio ws_intake_new format frame_ms)"
    and "c = into_vad_config env cv (wi_frame_duration_ms w)"
    and "vad_config_validate c = Inr ()" and "realtime_buffer_config_for (wi_frame_duration_ms w) c = Inr bc"
    and "wi_frame_duration_ms w \<le> unwrap_or (cv_max_utterance_ms cv) 30000"
    and "list_all (\<lambda>bs. length bs \<le> max_ws_message_bytes) msgs" and "length (concat msgs) < u64_max"
    and "length ds = length (intake_frames (fst (run intake_binary w msgs)))"
    and "r = run vad_pipeline (pipeline_start c bc) (zip (intake_frames (fst (run intake_binary w msgs))) ds)"
  shows "list_all (\<lambda>y. is_ok (snd y)) (fst r)
    \<and> (vc_speech_start_ms c \<le> vc_pre_roll_ms c \<longrightarrow> list_all step_output_ok (fst r))"
proof -
  note w = configured_intake [OF assms(1)]
  have "byte_cut (wi_frame_duration_ms w) 0 1 (concat msgs)
      (intake_frames (fst (run intake_binary w msgs))) (wi_carry (snd (run intake_binary w msgs)))"
    using intake_run_spec [OF w(1) assms(6)] w assms(7) by simp
  then have "uniform_stream (wi_frame_duration_ms w) (zip (intake_frames (fst (run intake_binary w msgs))) ds)"
    by (rule cut_stream_uniform) (use assms(7,8) in simp_all)
  moreover have "vc_max_utterance_ms c = Some (unwrap_or (cv_max_utterance_ms cv) 30000)"
    by (simp add: assms(2))
  ultimately show ?thesis
    using sized_pipeline [OF assms(3) _ w(5,6) assms(5)] server_buffer_sized [OF assms(4)]
    unfolding assms(9) by simp
qed

lemma default_server_config:
  "vad_config_validate (into_vad_config None client_vad_default d) = Inr () \<longleftrightarrow> 0 < d"
  "vc_speech_start_ms (into_vad_config None client_vad_default d) = 100"
  by (simp_all add: into_vad_config_def client_vad_default_def vad_config_validate_def Let_def
      resolve_realtime_vad_mode_def realtime_vad_prefers_neural_def vad_engine_env_override_def
      default_neural_vad_threshold_def default_neural_speech_start_ms_def short_neural_speech_stop_ms_def
      f32_in_unit_def)

theorem websocket_stream_to_utterances_witness:
  "\<exists>bc ds. length ds = length (intake_frames (fst (run intake_binary ws_intake_new [replicate 1400 0])))
     \<and> list_all step_output_ok (fst (run vad_pipeline (pipeline_start (into_vad_config None client_vad_default 20) bc)
         (zip (intake_frames (fst (run intake_binary ws_intake_new [replicate 1400 0]))) ds)))"
proof -
  have w: "snd (configure_audio ws_intake_new None None) = ws_intake_new" "wi_frame_duration_ms ws_intake_new = 20"
    by (simp_all add: ws_intake_new_def configure_audio_def try_into_realtime_def client_audio_format_default_def
        default_frame_duration_ms_def Let_def validate_normalized_def sample_count_for_duration_ms_def
        validate_frame_duration_ms_def pcm16_mono_16khz_def audio_consts)
  obtain bc where bc: "realtime_buffer_config_for 20 (into_vad_config None client_vad_default 20) = Inr bc"
    by (simp add: realtime_buffer_config_for_def client_vad_default_def max_vad_buffer_window_ms_def)
  let ?fs = "intake_frames (fst (run intake_binary ws_intake_new [replicate 1400 0]))"
  let ?ds = "replicate (length ?fs) decision_speech"
  have "list_all step_output_ok (fst (run vad_pipeline (pipeline_start (into_vad_config None client_vad_default 20) bc) (zip ?fs ?ds)))"
    using websocket_stream_to_utterances [of ws_intake_new None None "into_vad_config None client_vad_default 20" None
        client_vad_default bc "[replicate 1400 0]" ?ds] w bc default_server_config [of 20]
    by (simp add: client_vad_default_def max_ws_message_bytes_def)
  then show ?thesis by (intro exI [of _ bc] exI [of _ ?ds]) simp
qed

end
